(* ===== verification/C_Prelude.thy ===== *)
theory C_Prelude
  imports Main "HOL-Library.Word" "HOL-Library.Signed_Division" "HOL-Library.Monad_Syntax"
begin

section \<open>Shared vocabulary of the C models\<close>

text \<open>
  The types and lemmas every component of the development shares.

  Data model: the one of the toolchain the repository builds with
  (\<^verbatim>\<open>config/toolchain-cross-hi3518e.cmake\<close>, a 32-bit ARM target): \<open>int\<close>, \<open>long\<close>,
  \<open>size_t\<close> and pointers have 32 bits, plain \<open>char\<close> is unsigned.

  Undefined behaviour: a function whose C code may touch memory out of bounds, follow a null
  pointer or read an uninitialised variable returns an \<open>option\<close>; \<open>None\<close> stands for
  the undefined outcome, so that a theorem with \<open>Some\<close> in its conclusion also states that
  the code is safe on the inputs it covers.

  Unsigned 32-bit sizes are natural numbers with the wrap-around written out
  (\<open>u32\<close>, \<open>sub32\<close>); hash values and time stamps are words.
\<close>

type_synonym u8 = "8 word"
type_synonym u16 = "16 word"
type_synonym u64 = "64 word"
type_synonym addr = nat
type_synonym mem = "u8 list"

subsection \<open>Collections of facts\<close>

named_theorems c_arith \<open>machine arithmetic inside its range\<close>
named_theorems c_mem \<open>reads and writes of the flat memory\<close>

subsection \<open>Unsigned arithmetic\<close>

definition u32 :: "nat \<Rightarrow> nat" where
  "u32 n = n mod 2 ^ 32"

definition sub32 :: "nat \<Rightarrow> nat \<Rightarrow> nat" where
  "sub32 a b = u32 (a + (2 ^ 32 - u32 b))"

definition u16 :: "nat \<Rightarrow> nat" where
  "u16 n = n mod 2 ^ 16"

definition u8n :: "nat \<Rightarrow> nat" where
  "u8n n = n mod 2 ^ 8"

definition s32 :: "int \<Rightarrow> int" where
  "s32 x = (x + 2 ^ 31) mod 2 ^ 32 - 2 ^ 31"

definition in64 :: "int \<Rightarrow> bool" where
  "in64 x \<longleftrightarrow> - (2 ^ 63) \<le> x \<and> x < 2 ^ 63"

lemma s32_id [c_arith]: "- (2 ^ 31) \<le> x \<Longrightarrow> x < 2 ^ 31 \<Longrightarrow> s32 x = x"
  by (simp add: s32_def)

lemma u32_id [c_arith]: "n < 2 ^ 32 \<Longrightarrow> u32 n = n"
  by (simp add: u32_def)

lemma u32_less [simp]: "u32 n < 4294967296"
  by (simp add: u32_def)

lemma sub32_le [c_arith]: "b \<le> a \<Longrightarrow> a < 2 ^ 32 \<Longrightarrow> sub32 a b = a - b"
proof -
  assume "b \<le> a" and "a < 2 ^ 32"
  then have "a + (2 ^ 32 - b) = (a - b) + 2 ^ 32" by simp
  then have "(a + (2 ^ 32 - b)) mod 2 ^ 32 = (a - b) mod 2 ^ 32"
    by (simp only: mod_add_self2)
  with \<open>b \<le> a\<close> \<open>a < 2 ^ 32\<close> show ?thesis
    unfolding sub32_def u32_def by simp
qed

lemma u16_id [c_arith]: "n < 2 ^ 16 \<Longrightarrow> u16 n = n"
  by (simp add: u16_def)

lemma u16_less [simp]: "u16 n < 65536"
  by (simp add: u16_def)

lemma u8n_id [c_arith]: "n < 2 ^ 8 \<Longrightarrow> u8n n = n"
  by (simp add: u8n_def)

subsection \<open>Option-valued code\<close>

definition guard :: "bool \<Rightarrow> unit option" where
  "guard b = (if b then Some () else None)"

lemma guard_simps [simp]:
  "guard True = Some ()" "guard False = None"
  "(guard b = Some x) = b" "(guard b = None) = (\<not> b)"
  by (simp_all add: guard_def)

lemma bind_Some_ex: "(\<exists>y. Option.bind x f = Some y) = (\<exists>a y. x = Some a \<and> f a = Some y)"
  by (cases x) auto

lemma the_bind [simp]: "x = Some a \<Longrightarrow> Option.bind x f = f a"
  by simp

subsection \<open>Flat byte memory\<close>

text \<open>
  Memory is a list of bytes indexed by address; address 0 is the null pointer and never
  accessible. \<open>memcpy\<close> between two separate objects is \<open>copy_bytes\<close>.
\<close>

definition rd :: "mem \<Rightarrow> addr \<Rightarrow> u8 option" where
  "rd m a = (if 0 < a \<and> a < length m then Some (m ! a) else None)"

definition wr :: "mem \<Rightarrow> addr \<Rightarrow> u8 \<Rightarrow> mem option" where
  "wr m a b = (if 0 < a \<and> a < length m then Some (m[a := b]) else None)"

definition rd_bytes :: "mem \<Rightarrow> addr \<Rightarrow> nat \<Rightarrow> u8 list option" where
  "rd_bytes m a n =
     (if n = 0 then Some []
      else if 0 < a \<and> a + n \<le> length m then Some (take n (drop a m)) else None)"

definition overlay :: "'a list \<Rightarrow> nat \<Rightarrow> 'a list \<Rightarrow> 'a list" where
  "overlay xs i ys = take i xs @ ys @ drop (i + length ys) xs"

definition wr_bytes :: "mem \<Rightarrow> addr \<Rightarrow> u8 list \<Rightarrow> mem option" where
  "wr_bytes m a bs =
     (if bs = [] then Some m
      else if 0 < a \<and> a + length bs \<le> length m then Some (overlay m a bs) else None)"

definition copy_bytes :: "u8 list \<Rightarrow> nat \<Rightarrow> u8 list \<Rightarrow> nat \<Rightarrow> nat \<Rightarrow> u8 list option" where
  "copy_bytes dst di src si n =
     (if di + n \<le> length dst \<and> si + n \<le> length src
      then Some (overlay dst di (take n (drop si src))) else None)"

lemma length_overlay [simp]:
  "i + length ys \<le> length xs \<Longrightarrow> length (overlay xs i ys) = length xs"
  by (simp add: overlay_def)

lemma nth_overlay:
  assumes "i + length ys \<le> length xs" and "k < length xs"
  shows "overlay xs i ys ! k =
    (if i \<le> k \<and> k < i + length ys then ys ! (k - i) else xs ! k)"
  using assms by (auto simp: overlay_def nth_append min_def)

lemma overlay_Nil [simp]: "overlay xs i [] = xs"
  by (simp add: overlay_def)

lemma overlay_0: "overlay xs 0 ys = ys @ drop (length ys) xs"
  by (simp add: overlay_def)

lemma overlay_twice:
  "overlay (overlay zs 0 xs) (length xs) ys = xs @ ys @ drop (length xs + length ys) zs"
  by (simp add: overlay_def add.commute)

lemma take_overlay_self:
  "i + length ys \<le> length xs \<Longrightarrow> take (length ys) (drop i (overlay xs i ys)) = ys"
  by (simp add: overlay_def)

lemma copy_bytes_Some [c_mem]:
  "di + n \<le> length dst \<Longrightarrow> si + n \<le> length src \<Longrightarrow>
   copy_bytes dst di src si n = Some (overlay dst di (take n (drop si src)))"
  by (simp add: copy_bytes_def)

lemma rd_Some [c_mem]: "0 < a \<Longrightarrow> a < length m \<Longrightarrow> rd m a = Some (m ! a)"
  by (simp add: rd_def)

lemma wr_Some [c_mem]: "0 < a \<Longrightarrow> a < length m \<Longrightarrow> wr m a b = Some (m[a := b])"
  by (simp add: wr_def)

lemma wr_length: "wr m a b = Some m' \<Longrightarrow> length m' = length m"
  by (auto simp: wr_def split: if_splits)

lemma wr_ok: "0 < a \<Longrightarrow> a < length m \<Longrightarrow> \<exists>m'. wr m a b = Some m' \<and> length m' = length m"
  by (simp add: wr_def)

lemma rd_wr: "wr m a b = Some m' \<Longrightarrow> rd m' c = (if c = a then Some b else rd m c)"
  by (auto simp: wr_def rd_def split: if_splits)

text \<open>The bytes \<open>bs\<close> stand at address \<open>p\<close>.\<close>

fun bytes_at :: "mem \<Rightarrow> addr \<Rightarrow> u8 list \<Rightarrow> bool" where
  "bytes_at m p [] = True"
| "bytes_at m p (b # bs) = (rd m p = Some b \<and> bytes_at m (p + 1) bs)"

lemma bytes_at_nth: "bytes_at m p bs \<longleftrightarrow> (\<forall>i<length bs. rd m (p + i) = Some (bs ! i))"
proof (induction bs arbitrary: p)
  case (Cons b bs)
  have "(\<forall>i<length (b # bs). rd m (p + i) = Some ((b # bs) ! i)) \<longleftrightarrow>
      rd m p = Some b \<and> (\<forall>i<length bs. rd m (p + 1 + i) = Some (bs ! i))"
    by (simp add: All_less_Suc2 add.commute)
  with Cons.IH[of "p + 1"] show ?case by simp
qed simp

lemma bytes_at_append [simp]:
  "bytes_at m p (xs @ ys) \<longleftrightarrow> bytes_at m p xs \<and> bytes_at m (p + length xs) ys"
  by (induction xs arbitrary: p) auto

lemma bytes_at_drop: "bytes_at m p bs \<Longrightarrow> k \<le> length bs \<Longrightarrow> bytes_at m (p + k) (drop k bs)"
  using bytes_at_append[of m p "take k bs" "drop k bs"] by simp

lemma bytes_at_take: "bytes_at m p bs \<Longrightarrow> bytes_at m p (take k bs)"
  using bytes_at_append[of m p "take k bs" "drop k bs"] by simp

lemma bytes_at_cong:
  "(\<And>a. p \<le> a \<Longrightarrow> a < p + length bs \<Longrightarrow> rd m' a = rd m a) \<Longrightarrow> bytes_at m' p bs = bytes_at m p bs"
  by (simp add: bytes_at_nth)

lemma bytes_at_bound: "bytes_at m p bs \<Longrightarrow> bs \<noteq> [] \<Longrightarrow> 0 < p \<and> p + length bs \<le> length m"
proof -
  assume b: "bytes_at m p bs" and ne: "bs \<noteq> []"
  then have "rd m (p + i) = Some (bs ! i)" if "i < length bs" for i
    using that by (simp add: bytes_at_nth)
  from this[of 0] this[of "length bs - 1"] ne
  have "rd m p = Some (bs ! 0)" "rd m (p + (length bs - 1)) = Some (bs ! (length bs - 1))" by simp_all
  with ne show ?thesis by (auto simp: rd_def split: if_splits)
qed

lemma rd_bytes_at: "bytes_at m p bs \<Longrightarrow> rd_bytes m p (length bs) = Some bs"
proof -
  assume b: "bytes_at m p bs"
  show ?thesis
  proof (cases "bs = []")
    case False
    from bytes_at_bound[OF b False] have p: "0 < p" "p + length bs \<le> length m" by auto
    have "take (length bs) (drop p m) = bs"
      using b p by (intro nth_equalityI) (auto simp: bytes_at_nth rd_def)
    with p False show ?thesis by (simp add: rd_bytes_def)
  qed (simp add: rd_bytes_def)
qed

lemma rd_bytes_at_iff: "rd_bytes m p n = Some bs \<Longrightarrow> bytes_at m p bs \<and> length bs = n"
  by (auto simp: rd_bytes_def bytes_at_nth rd_def split: if_splits)

lemma wr_bytes_at:
  assumes "wr_bytes m p bs = Some m'"
  shows "bytes_at m' p bs \<and> length m' = length m \<and> (\<forall>a. a < p \<or> p + length bs \<le> a \<longrightarrow> rd m' a = rd m a)"
  using assms by (auto simp: wr_bytes_def bytes_at_nth rd_def nth_overlay split: if_splits)

lemma bytes_at_grow: "bytes_at m p bs \<Longrightarrow> bytes_at (m @ ys) p bs"
  by (auto simp: bytes_at_nth rd_def nth_append split: if_splits)

subsection \<open>Little-endian 32-bit words in the byte memory\<close>

definition enc32 :: "nat \<Rightarrow> u8 list" where
  "enc32 n = [of_nat n, of_nat (n div 2 ^ 8), of_nat (n div 2 ^ 16), of_nat (n div 2 ^ 24)]"

definition dec32 :: "u8 list \<Rightarrow> nat" where
  "dec32 bs = unat (bs ! 0) + 2 ^ 8 * unat (bs ! 1) + 2 ^ 16 * unat (bs ! 2) + 2 ^ 24 * unat (bs ! 3)"

definition rd32 :: "mem \<Rightarrow> addr \<Rightarrow> nat option" where
  "rd32 m a = map_option dec32 (rd_bytes m a 4)"

definition wr32 :: "mem \<Rightarrow> addr \<Rightarrow> nat \<Rightarrow> mem option" where
  "wr32 m a n = wr_bytes m a (enc32 n)"

lemma length_enc32 [simp]: "length (enc32 n) = 4"
  by (simp add: enc32_def)

lemma dec32_enc32: "n < 2 ^ 32 \<Longrightarrow> dec32 (enc32 n) = n"
proof -
  assume n: "n < 2 ^ 32"
  have "unat (of_nat k :: u8) = k mod 256" for k
    by (simp add: unat_of_nat)
  then have "dec32 (enc32 n) = n mod 256 + 256 * ((n div 256) mod 256) +
      65536 * ((n div 65536) mod 256) + 16777216 * ((n div 16777216) mod 256)"
    by (simp add: dec32_def enc32_def)
  also have "\<dots> = n"
  proof -
    have 1: "n mod 256 + 256 * (n div 256) = n" by simp
    have 2: "(n div 256) mod 256 + 256 * (n div 65536) = n div 256"
      using mod_mult_div_eq[of "n div 256" 256] by (simp add: div_mult2_eq[symmetric])
    have 3: "(n div 65536) mod 256 + 256 * (n div 16777216) = n div 65536"
      using mod_mult_div_eq[of "n div 65536" 256] by (simp add: div_mult2_eq[symmetric])
    have 4: "(n div 16777216) mod 256 = n div 16777216"
      using n by (simp add: less_mult_imp_div_less)
    from 1 2 3 4 show ?thesis by linarith
  qed
  finally show ?thesis .
qed

lemma enc32_not_Nil [simp]: "enc32 n \<noteq> []"
  by (simp add: enc32_def)

lemma wr32_Some: "0 < a \<Longrightarrow> a + 4 \<le> length m \<Longrightarrow> wr32 m a n = Some (overlay m a (enc32 n))"
  by (simp add: wr32_def wr_bytes_def enc32_def)

lemma wr32_length: "wr32 m a n = Some m' \<Longrightarrow> length m' = length m"
  by (auto simp: wr32_def wr_bytes_def split: if_splits)

lemma rd32_wr32:
  "wr32 m a n = Some m' \<Longrightarrow> n < 2 ^ 32 \<Longrightarrow> rd32 m' a = Some n"
  using take_overlay_self[of a "enc32 n" m]
  by (auto simp: wr32_def wr_bytes_def rd32_def rd_bytes_def dec32_enc32 split: if_splits)

lemma overlay_other:
  assumes "i + length ys \<le> length xs" and "j + n \<le> i \<or> i + length ys \<le> j"
  shows "take n (drop j (overlay xs i ys)) = take n (drop j xs)"
  using assms
  by (intro nth_equalityI) (auto simp: nth_overlay)

lemma rd32_wr32_other:
  "wr32 m a n = Some m' \<Longrightarrow> b + 4 \<le> a \<or> a + 4 \<le> b \<Longrightarrow> rd32 m' b = rd32 m b"
  using overlay_other[of a "enc32 n" m b 4]
  by (auto simp: wr32_def wr_bytes_def rd32_def rd_bytes_def split: if_splits)

subsection \<open>Singly linked lists\<close>

text \<open>\<open>nx a\<close> is the successor stored in node \<open>a\<close>; the list from \<open>p\<close> has the nodes \<open>as\<close> and ends with null.\<close>

fun linked :: "(addr \<Rightarrow> addr option) \<Rightarrow> addr \<Rightarrow> addr list \<Rightarrow> bool" where
  "linked nx p [] = (p = 0)"
| "linked nx p (a # as) = (p = a \<and> a \<noteq> 0 \<and> (\<exists>q. nx a = Some q \<and> linked nx q as))"

lemma linked_cong: "linked nx p as \<Longrightarrow> (\<And>a. a \<in> set as \<Longrightarrow> nx' a = nx a) \<Longrightarrow> linked nx' p as"
  by (induction as arbitrary: p) auto

lemma linked_nonzero: "linked nx p as \<Longrightarrow> a \<in> set as \<Longrightarrow> a \<noteq> 0"
  by (induction as arbitrary: p) auto

lemma linked_first: "linked nx p as \<Longrightarrow> p = (if as = [] then 0 else hd as)"
  by (cases as) auto

lemma linked_suffix: "linked nx p (as @ b # bs) \<Longrightarrow> linked nx b (b # bs)"
  by (induction as arbitrary: p) auto

text \<open>Taking the node \<open>b\<close> out behind \<open>x\<close>.\<close>

lemma linked_unlink:
  assumes "linked nx p (as @ x # b # bs)" "distinct (as @ x # b # bs)" "nx' x = nx b"
    and "\<And>a. a \<in> set as \<union> set bs \<Longrightarrow> nx' a = nx a"
  shows "linked nx' p (as @ x # bs)"
  using assms
proof (induction as arbitrary: p)
  case Nil
  then obtain q where q: "p = x" "x \<noteq> 0" "nx b = Some q" "linked nx q bs" by auto
  have "linked nx' q bs" using q(4) by (rule linked_cong) (use Nil in simp)
  with q Nil.prems(3) show ?case by simp
next
  case (Cons a as)
  then obtain q where q: "p = a" "a \<noteq> 0" "nx a = Some q" "linked nx q (as @ x # b # bs)" by auto
  have "linked nx' q (as @ x # bs)" using Cons.prems by (intro Cons.IH[OF q(4)]) auto
  with q Cons.prems(4)[of a] show ?case by simp
qed

text \<open>Appending a node behind the last one.\<close>

lemma linked_snoc:
  assumes "linked nx p as" "distinct as" "b \<noteq> 0" "b \<notin> set as" "nx' b = Some 0"
    and "as \<noteq> [] \<Longrightarrow> nx' (last as) = Some b"
    and "\<And>a. a \<in> set as \<Longrightarrow> a \<noteq> last as \<Longrightarrow> nx' a = nx a"
  shows "linked nx' (if as = [] then b else p) (as @ [b])"
  using assms
proof (induction as arbitrary: p)
  case (Cons a as)
  then obtain q where q: "p = a" "a \<noteq> 0" "nx a = Some q" "linked nx q as" by auto
  show ?case
  proof (cases "as = []")
    case False
    then have "linked nx' (if as = [] then b else q) (as @ [b])"
      using Cons.prems by (intro Cons.IH[OF q(4)]) auto
    moreover have "a \<noteq> last as" using Cons.prems(2) last_in_set[OF False] by fastforce
    then have "nx' a = Some q" using Cons.prems(7)[of a] False q(3) by simp
    ultimately show ?thesis using q False by simp
  qed (use Cons.prems q in simp)
qed simp

subsection \<open>Memory from malloc\<close>

text \<open>
  \<open>mal bs n\<close> is the address malloc gives for \<open>n\<close> bytes while the blocks \<open>bs\<close> are allocated, null
  when it fails.
\<close>

type_synonym malloc = "(addr \<times> nat) list \<Rightarrow> nat \<Rightarrow> addr"

text \<open>What malloc promises: aligned memory that overlaps no allocated block.\<close>

definition malloc_ok :: "malloc \<Rightarrow> bool" where
  "malloc_ok mal \<longleftrightarrow> (\<forall>bs n. mal bs n \<noteq> 0 \<longrightarrow> 4 dvd mal bs n \<and>
     (\<forall>(q, m) \<in> set bs. q \<noteq> mal bs n \<and> (mal bs n + n \<le> q \<or> q + m \<le> mal bs n)))"

definition blocks_apart :: "(addr \<times> nat) list \<Rightarrow> bool" where
  "blocks_apart bs \<longleftrightarrow> (\<forall>(p, n) \<in> set bs. \<forall>(q, m) \<in> set bs. (p, n) = (q, m) \<or> p \<noteq> q \<and> (p + n \<le> q \<or> q + m \<le> p))"

lemma blocks_apart_Cons:
  assumes "malloc_ok mal" "mal bs n \<noteq> 0" "blocks_apart bs"
  shows "blocks_apart ((mal bs n, n) # bs)"
proof -
  have m: "q \<noteq> mal bs n \<and> (mal bs n + n \<le> q \<or> q + m \<le> mal bs n)" if "(q, m) \<in> set bs" for q m
    using assms(1,2) that unfolding malloc_ok_def by blast
  then show ?thesis using assms(3) unfolding blocks_apart_def by fastforce
qed

subsection \<open>Error codes of \<open>error_code.h\<close>\<close>

definition EO_SUCCESS :: int where "EO_SUCCESS = 0"
definition EO_INVAL :: int where "EO_INVAL = 4000 + 4"
definition EO_NOTFOUND :: int where "EO_NOTFOUND = 4000 + 6"
definition EO_NOMEM :: int where "EO_NOMEM = 4000 + 7"
definition EO_TOOMANY :: int where "EO_TOOMANY = 4000 + 10"
definition EO_INVALIDOP :: int where "EO_INVALIDOP = 4000 + 13"
definition EO_TOOBIG :: int where "EO_TOOBIG = 4000 + 17"
definition EO_TOOSMALL :: int where "EO_TOOSMALL = 4000 + 19"

lemmas error_codes = EO_SUCCESS_def EO_INVAL_def EO_NOTFOUND_def EO_NOMEM_def EO_TOOMANY_def
  EO_INVALIDOP_def EO_TOOBIG_def EO_TOOSMALL_def

end
