(* ===== verification/Ring_Buffer.thy ===== *)
theory Ring_Buffer
  imports C_Prelude
begin

section \<open>Ring buffer (\<^verbatim>\<open>oslib/src/ringbuf.c\<close>)\<close>

text \<open>
  A byte ring over a caller-supplied buffer. Each index carries a mirror bit, so that
  equal indices mean empty (equal mirrors) or full (different mirrors). The state is the
  C struct field by field; the 31-bit index fields are truncated on assignment
  (\<open>idx31\<close>). \<open>RING_Write\<close> and \<open>RING_Read\<close> return \<open>None\<close> where their
  \<open>memcpy\<close> calls would leave one of the two buffers.

  The lemmas relate the ring to the byte list it holds (\<open>ring_contents\<close>): a write
  that fits appends, a read takes from the front; \<open>byte_fifo\<close> states that contract and
  is interpreted on the ring.
\<close>

record T_RingBuf =
  m_pBuffer :: "u8 list"
  m_uMaxSize :: nat
  m_u32ReadIndex :: nat
  m_u32ReadMirror :: bool
  m_u32WriteIndex :: nat
  m_u32WriteMirror :: bool

definition idx31 :: "nat \<Rightarrow> nat" where
  "idx31 n = n mod 2 ^ 31"

definition RING_Init :: "u8 list \<Rightarrow> nat \<Rightarrow> T_RingBuf" where
  "RING_Init vpBuffer uSize =
     \<lparr>m_pBuffer = vpBuffer, m_uMaxSize = uSize, m_u32ReadIndex = 0, m_u32ReadMirror = False,
      m_u32WriteIndex = 0, m_u32WriteMirror = False\<rparr>"

definition RING_GetMaxSize :: "T_RingBuf \<Rightarrow> nat" where
  "RING_GetMaxSize r = m_uMaxSize r"

definition RING_GetDataLen :: "T_RingBuf \<Rightarrow> nat" where
  "RING_GetDataLen r =
     (if m_u32ReadIndex r = m_u32WriteIndex r then
        (if m_u32ReadMirror r = m_u32WriteMirror r then 0 else m_uMaxSize r)
      else if m_u32ReadIndex r > m_u32WriteIndex r then
        sub32 (m_uMaxSize r) (m_u32ReadIndex r - m_u32WriteIndex r)
      else m_u32WriteIndex r - m_u32ReadIndex r)"

definition RING_GetSpaceLen :: "T_RingBuf \<Rightarrow> nat" where
  "RING_GetSpaceLen r = sub32 (m_uMaxSize r) (RING_GetDataLen r)"

definition RING_Write :: "T_RingBuf \<Rightarrow> u8 list \<Rightarrow> nat \<Rightarrow> (T_RingBuf \<times> nat) option" where
  "RING_Write r pData uLen =
     (let free_space = RING_GetSpaceLen r;
          tail = sub32 (m_uMaxSize r) (m_u32WriteIndex r)
      in if uLen < tail then
        do {
          buf \<leftarrow> copy_bytes (m_pBuffer r) (m_u32WriteIndex r) pData 0 uLen;
          let w = idx31 (u32 (m_u32WriteIndex r + uLen));
          Some (r\<lparr>m_pBuffer := buf, m_u32WriteIndex := w,
                  m_u32ReadIndex := (if uLen > free_space then w else m_u32ReadIndex r)\<rparr>, uLen)
        }
      else
        do {
          buf1 \<leftarrow> copy_bytes (m_pBuffer r) (m_u32WriteIndex r) pData 0 tail;
          buf2 \<leftarrow> copy_bytes buf1 0 pData tail (sub32 uLen tail);
          let w = idx31 (sub32 uLen tail);
          let r1 = r\<lparr>m_pBuffer := buf2, m_u32WriteIndex := w, m_u32WriteMirror := \<not> m_u32WriteMirror r\<rparr>;
          Some (if uLen > free_space
                then r1\<lparr>m_u32ReadMirror := \<not> m_u32ReadMirror r, m_u32ReadIndex := w\<rparr>
                else r1, uLen)
        })"

text \<open>
  \<open>RING_Read\<close> returns the ring, the caller's buffer and the number of bytes delivered.
\<close>

definition RING_Read :: "T_RingBuf \<Rightarrow> u8 list \<Rightarrow> nat \<Rightarrow> (T_RingBuf \<times> u8 list \<times> nat) option" where
  "RING_Read r pBuf uLen0 =
     (let uDataLen = RING_GetDataLen r in
      if uDataLen = 0 then Some (r, pBuf, 0)
      else
        let uLen = (if uDataLen < uLen0 then uDataLen else uLen0);
            tail = sub32 (m_uMaxSize r) (m_u32ReadIndex r)
        in if uLen < tail then
          do {
            out \<leftarrow> copy_bytes pBuf 0 (m_pBuffer r) (m_u32ReadIndex r) uLen;
            Some (r\<lparr>m_u32ReadIndex := idx31 (u32 (m_u32ReadIndex r + uLen))\<rparr>, out, uLen)
          }
        else
          do {
            out1 \<leftarrow> copy_bytes pBuf 0 (m_pBuffer r) (m_u32ReadIndex r) tail;
            out2 \<leftarrow> copy_bytes out1 tail (m_pBuffer r) 0 (sub32 uLen tail);
            Some (r\<lparr>m_u32ReadMirror := \<not> m_u32ReadMirror r,
                    m_u32ReadIndex := idx31 (sub32 uLen tail)\<rparr>, out2, uLen)
          })"

subsection \<open>Invariant and contents\<close>

definition ring_inv :: "T_RingBuf \<Rightarrow> bool" where
  "ring_inv r \<longleftrightarrow>
     0 < m_uMaxSize r \<and> m_uMaxSize r < 2 ^ 31 \<and> m_uMaxSize r \<le> length (m_pBuffer r) \<and>
     m_u32ReadIndex r < m_uMaxSize r \<and> m_u32WriteIndex r < m_uMaxSize r \<and>
     (m_u32ReadMirror r = m_u32WriteMirror r \<longrightarrow> m_u32ReadIndex r \<le> m_u32WriteIndex r) \<and>
     (m_u32ReadMirror r \<noteq> m_u32WriteMirror r \<longrightarrow> m_u32WriteIndex r \<le> m_u32ReadIndex r)"

definition ring_len :: "T_RingBuf \<Rightarrow> nat" where
  "ring_len r =
     (if m_u32ReadMirror r = m_u32WriteMirror r then m_u32WriteIndex r - m_u32ReadIndex r
      else m_uMaxSize r - m_u32ReadIndex r + m_u32WriteIndex r)"

definition ring_contents :: "T_RingBuf \<Rightarrow> u8 list" where
  "ring_contents r =
     map (\<lambda>k. m_pBuffer r ! ((m_u32ReadIndex r + k) mod m_uMaxSize r)) [0..<ring_len r]"

lemma length_ring_contents [simp]: "length (ring_contents r) = ring_len r"
  by (simp add: ring_contents_def)

lemma idx31_id [c_arith]: "n < 2 ^ 31 \<Longrightarrow> idx31 n = n"
  by (simp add: idx31_def)

lemma ring_len_le: "ring_inv r \<Longrightarrow> ring_len r \<le> m_uMaxSize r"
  by (auto simp: ring_inv_def ring_len_def)

lemma GetDataLen_eq [simp]: "ring_inv r \<Longrightarrow> RING_GetDataLen r = ring_len r"
  by (auto simp: ring_inv_def RING_GetDataLen_def ring_len_def sub32_le)

lemma GetSpaceLen_eq [simp]: "ring_inv r \<Longrightarrow> RING_GetSpaceLen r = m_uMaxSize r - ring_len r"
  using ring_len_le[of r] by (auto simp: RING_GetSpaceLen_def sub32_le ring_inv_def)

lemma RING_Init_inv:
  "0 < n \<Longrightarrow> n < 2 ^ 31 \<Longrightarrow> n \<le> length buf \<Longrightarrow> ring_inv (RING_Init buf n)"
  by (simp add: ring_inv_def RING_Init_def)

lemma RING_Init_contents: "ring_contents (RING_Init buf n) = []"
  by (simp add: ring_contents_def ring_len_def RING_Init_def)


text \<open>Positions of the ring, counted from the write index.\<close>

lemma mod_add_less: "a < n \<Longrightarrow> j < n \<Longrightarrow> (a + j) mod n = (if a + j < n then a + j else a + j - n)"
  for a j n :: nat
  by (simp add: mod_if[of "a + j"] not_less)

lemma write_index_eq:
  "ring_inv r \<Longrightarrow> m_u32WriteIndex r = (m_u32ReadIndex r + ring_len r) mod m_uMaxSize r"
  by (auto simp: ring_inv_def ring_len_def)

lemma write_pos_eq:
  assumes "ring_inv r"
  shows "(m_u32WriteIndex r + j) mod m_uMaxSize r =
    (m_u32ReadIndex r + (ring_len r + j)) mod m_uMaxSize r"
  by (subst write_index_eq[OF assms]) (simp add: mod_add_left_eq add.assoc)

text \<open>What a write of \<open>len\<close> bytes leaves at each position, whichever branch it takes.\<close>

definition ring_store :: "T_RingBuf \<Rightarrow> u8 list \<Rightarrow> nat \<Rightarrow> u8 list" where
  "ring_store r xs n =
     (let t = m_uMaxSize r - m_u32WriteIndex r in
      if n < t then overlay (m_pBuffer r) (m_u32WriteIndex r) (take n xs)
      else overlay (overlay (m_pBuffer r) (m_u32WriteIndex r) (take t xs)) 0
             (take (n - t) (drop t xs)))"

lemma length_ring_store [simp]:
  "ring_inv r \<Longrightarrow> n \<le> m_uMaxSize r \<Longrightarrow> n \<le> length xs \<Longrightarrow>
   length (ring_store r xs n) = length (m_pBuffer r)"
  by (auto simp: ring_store_def ring_inv_def Let_def)

lemma nth_ring_store:
  assumes inv: "ring_inv r" and n: "n \<le> m_uMaxSize r" "n \<le> length xs" and j: "j < m_uMaxSize r"
  shows "ring_store r xs n ! ((m_u32WriteIndex r + j) mod m_uMaxSize r) =
    (if j < n then xs ! j else m_pBuffer r ! ((m_u32WriteIndex r + j) mod m_uMaxSize r))"
proof -
  let ?w = "m_u32WriteIndex r" and ?m = "m_uMaxSize r"
  from inv have w: "?w < ?m" and m: "?m \<le> length (m_pBuffer r)"
    by (auto simp: ring_inv_def)
  show ?thesis
  proof (cases "n < ?m - ?w")
    case True
    with w m n j show ?thesis
      by (auto simp: ring_store_def Let_def mod_add_less nth_overlay)
  next
    case False
    with w m n j show ?thesis
      by (auto simp: ring_store_def Let_def mod_add_less nth_overlay)
  qed
qed

lemma RING_Write_unfold:
  assumes inv: "ring_inv r" and n: "n \<le> m_uMaxSize r" "n \<le> length xs"
  defines "w' \<equiv> (m_u32WriteIndex r + n) mod m_uMaxSize r"
    and "wraps \<equiv> m_uMaxSize r - m_u32WriteIndex r \<le> n"
    and "over \<equiv> m_uMaxSize r - ring_len r < n"
  shows "RING_Write r xs n = Some (r\<lparr>m_pBuffer := ring_store r xs n, m_u32WriteIndex := w',
    m_u32WriteMirror := (m_u32WriteMirror r \<noteq> wraps),
    m_u32ReadIndex := (if over then w' else m_u32ReadIndex r),
    m_u32ReadMirror := (m_u32ReadMirror r \<noteq> (over \<and> wraps))\<rparr>, n)"
proof -
  from inv have b: "m_u32WriteIndex r < m_uMaxSize r" "m_uMaxSize r < 2 ^ 31"
      "m_uMaxSize r \<le> length (m_pBuffer r)"
    by (auto simp: ring_inv_def)
  have t: "sub32 (m_uMaxSize r) (m_u32WriteIndex r) = m_uMaxSize r - m_u32WriteIndex r"
    using b by (intro sub32_le) auto
  show ?thesis
  proof (cases wraps)
    case False
    with b n inv show ?thesis
      by (simp add: RING_Write_def t Let_def wraps_def copy_bytes_Some ring_store_def w'_def
          idx31_id u32_id over_def)
  next
    case True
    with n b have "n - (m_uMaxSize r - m_u32WriteIndex r) = (m_u32WriteIndex r + n) mod m_uMaxSize r
        \<or> n - (m_uMaxSize r - m_u32WriteIndex r) = m_uMaxSize r \<and> False"
      by (auto simp: wraps_def mod_if[of "m_u32WriteIndex r + n"] mod_if[of "m_u32WriteIndex r"])
    with True b n inv show ?thesis
      by (simp add: RING_Write_def t Let_def wraps_def copy_bytes_Some ring_store_def w'_def
          idx31_id sub32_le over_def)
  qed
qed


lemma ring_contents_nth:
  "k < ring_len r \<Longrightarrow>
   ring_contents r ! k = m_pBuffer r ! ((m_u32ReadIndex r + k) mod m_uMaxSize r)"
  by (simp add: ring_contents_def)

lemma RING_Write_fits:
  assumes inv: "ring_inv r" and n: "n \<le> length xs" "n \<le> m_uMaxSize r - ring_len r"
  shows "\<exists>r'. RING_Write r xs n = Some (r', n) \<and> ring_inv r' \<and> m_uMaxSize r' = m_uMaxSize r \<and>
    ring_contents r' = ring_contents r @ take n xs"
proof -
  let ?m = "m_uMaxSize r" and ?w = "m_u32WriteIndex r" and ?rd = "m_u32ReadIndex r"
  define r' where "r' = r\<lparr>m_pBuffer := ring_store r xs n, m_u32WriteIndex := (?w + n) mod ?m,
    m_u32WriteMirror := (m_u32WriteMirror r \<noteq> (?m - ?w \<le> n))\<rparr>"
  from inv have b: "?w < ?m" "?rd < ?m" "?m < 2 ^ 31" "?m \<le> length (m_pBuffer r)"
    and l: "ring_len r \<le> ?m"
    using ring_len_le[of r] by (auto simp: ring_inv_def)
  have nm: "n \<le> ?m" using n by simp
  have eq: "RING_Write r xs n = Some (r', n)"
    using RING_Write_unfold[OF inv nm n(1)] n(2) by (simp add: r'_def not_less)
  have len': "ring_len r' = ring_len r + n"
    using inv n b by (auto simp: ring_len_def r'_def ring_inv_def mod_if)
  have inv': "ring_inv r'"
    using inv n b nm by (auto simp: ring_inv_def r'_def ring_len_def mod_if)
  have "ring_contents r' ! k = (ring_contents r @ take n xs) ! k" if k: "k < ring_len r + n" for k
  proof (cases "k < ring_len r")
    case True
    define j where "j = ?m - ring_len r + k"
    have j: "n \<le> j" "j < ?m" using True n l by (auto simp: j_def)
    have pos: "(?rd + k) mod ?m = (?w + j) mod ?m"
    proof -
      have "?rd + (ring_len r + j) = ?rd + k + ?m" using l by (simp add: j_def)
      then show ?thesis by (simp only: write_pos_eq[OF inv] mod_add_self2)
    qed
    have "ring_contents r' ! k = ring_store r xs n ! ((?rd + k) mod ?m)"
      using True len' by (simp add: ring_contents_nth r'_def)
    also have "\<dots> = m_pBuffer r ! ((?rd + k) mod ?m)"
      using nth_ring_store[OF inv nm n(1) j(2)] j(1) pos by simp
    finally show ?thesis using True by (simp add: ring_contents_nth nth_append)
  next
    case False
    define j where "j = k - ring_len r"
    have j: "j < n" "j < ?m" using False k nm by (auto simp: j_def)
    have pos: "(?rd + k) mod ?m = (?w + j) mod ?m"
      using False write_pos_eq[OF inv, of j] by (simp add: j_def)
    have "ring_contents r' ! k = ring_store r xs n ! ((?rd + k) mod ?m)"
      using k len' by (simp add: ring_contents_nth r'_def)
    also have "\<dots> = xs ! j"
      using nth_ring_store[OF inv nm n(1) j(2)] j(1) pos by simp
    finally show ?thesis using False j by (simp add: nth_append j_def)
  qed
  then have "ring_contents r' = ring_contents r @ take n xs"
    using len' n by (intro nth_equalityI) auto
  with eq inv' show ?thesis by (auto simp: r'_def)
qed

text \<open>What an overwriting write does to the length.\<close>

lemma RING_Write_overwrites:
  assumes inv: "ring_inv r" and n: "n \<le> length xs" "n \<le> m_uMaxSize r" "m_uMaxSize r - ring_len r < n"
  shows "\<exists>r'. RING_Write r xs n = Some (r', n) \<and> ring_inv r' \<and>
    RING_GetDataLen r' =
      (if m_u32ReadMirror r = m_u32WriteMirror r then 0 else m_uMaxSize r)"
proof -
  let ?m = "m_uMaxSize r" and ?w = "m_u32WriteIndex r"
  define r' where "r' = r\<lparr>m_pBuffer := ring_store r xs n, m_u32WriteIndex := (?w + n) mod ?m,
    m_u32WriteMirror := (m_u32WriteMirror r \<noteq> (?m - ?w \<le> n)),
    m_u32ReadIndex := (?w + n) mod ?m, m_u32ReadMirror := (m_u32ReadMirror r \<noteq> (?m - ?w \<le> n))\<rparr>"
  have eq: "RING_Write r xs n = Some (r', n)"
    using RING_Write_unfold[OF inv n(2,1)] n(3) by (simp add: r'_def)
  have inv': "ring_inv r'"
    using inv n by (auto simp: ring_inv_def r'_def)
  have "ring_len r' = (if m_u32ReadMirror r = m_u32WriteMirror r then 0 else ?m)"
    using inv inv' by (auto simp: ring_len_def r'_def ring_inv_def)
  with eq inv' show ?thesis by (intro exI[of _ r']) simp
qed

lemma take_ring_contents:
  assumes inv: "ring_inv r" and k: "k \<le> ring_len r"
  defines "t \<equiv> m_uMaxSize r - m_u32ReadIndex r"
  shows "take k (ring_contents r) =
    take (min k t) (drop (m_u32ReadIndex r) (m_pBuffer r)) @ take (k - t) (m_pBuffer r)"
proof (rule nth_equalityI)
  from inv have b: "m_u32ReadIndex r < m_uMaxSize r" "m_uMaxSize r \<le> length (m_pBuffer r)"
    and l: "k \<le> m_uMaxSize r"
    using k ring_len_le[of r] by (auto simp: ring_inv_def)
  have ln: "length (take (min k t) (drop (m_u32ReadIndex r) (m_pBuffer r))) = min k t"
    using b by (auto simp: t_def)
  show "length (take k (ring_contents r)) = length (take (min k t)
      (drop (m_u32ReadIndex r) (m_pBuffer r)) @ take (k - t) (m_pBuffer r))"
    using b l k by (auto simp: t_def)
  fix i assume "i < length (take k (ring_contents r))"
  then have i: "i < k" "i < ring_len r" "i < m_uMaxSize r" using k l by auto
  show "take k (ring_contents r) ! i = (take (min k t)
      (drop (m_u32ReadIndex r) (m_pBuffer r)) @ take (k - t) (m_pBuffer r)) ! i"
  proof (cases "i < t")
    case True
    then show ?thesis using i b ln by (simp add: ring_contents_nth nth_append t_def)
  next
    case False
    then have "(m_u32ReadIndex r + i) mod m_uMaxSize r = i - t"
      using i b by (auto simp: mod_add_less t_def)
    then show ?thesis using False i l ln by (simp add: ring_contents_nth nth_append)
  qed
qed

lemma RING_Read_front:
  assumes inv: "ring_inv r" and buf: "min n (ring_len r) \<le> length buf"
  defines "k \<equiv> min n (ring_len r)"
  shows "\<exists>r' out. RING_Read r buf n = Some (r', out, k) \<and> ring_inv r' \<and>
    m_uMaxSize r' = m_uMaxSize r \<and> out = take k (ring_contents r) @ drop k buf \<and>
    ring_contents r' = drop k (ring_contents r)"
proof (cases "ring_len r = 0")
  case True
  with inv show ?thesis by (auto simp: RING_Read_def k_def)
next
  case ne: False
  let ?m = "m_uMaxSize r" and ?rd = "m_u32ReadIndex r" and ?b = "m_pBuffer r"
  define t where "t = ?m - ?rd"
  define r' where "r' = r\<lparr>m_u32ReadIndex := (?rd + k) mod ?m,
    m_u32ReadMirror := (m_u32ReadMirror r \<noteq> (t \<le> k))\<rparr>"
  from inv have b: "?rd < ?m" "?m < 2 ^ 31" "?m \<le> length ?b" and l: "ring_len r \<le> ?m"
    using ring_len_le[of r] by (auto simp: ring_inv_def)
  have k: "k \<le> ring_len r" "k \<le> ?m" "k \<le> length buf" "k = (if ring_len r < n then ring_len r else n)"
    using l buf by (auto simp: k_def min_def)
  have sub: "sub32 ?m ?rd = t" using b by (simp add: t_def sub32_le)
  note taken = take_ring_contents[OF inv k(1), folded t_def]
  have eq: "RING_Read r buf n = Some (r', take k (ring_contents r) @ drop k buf, k)"
  proof (cases "k < t")
    case True
    with ne inv b k(1,2,3) show ?thesis
      by (simp add: RING_Read_def Let_def k(4)[symmetric] sub taken r'_def copy_bytes_Some
          overlay_def t_def u32_id idx31_id)
  next
    case False
    have pos: "(?rd + k) mod ?m = k - t" using False b k(1,2) by (auto simp: t_def mod_if)
    let ?x = "take t (drop ?rd ?b)" and ?y = "take (k - t) ?b"
    have t: "t \<le> k" "length ?x = t" "length ?y = k - t" "k < 2 ^ 31"
      using False b k(2) by (auto simp: t_def)
    have c1: "copy_bytes buf 0 ?b ?rd t = Some (overlay buf 0 ?x)"
      using t b k(3) by (simp add: copy_bytes_Some t_def)
    have c2: "copy_bytes (overlay buf 0 ?x) t ?b 0 (k - t) = Some (?x @ ?y @ drop k buf)"
      using t b k(2,3) overlay_twice[of buf ?x ?y] by (simp add: copy_bytes_Some)
    have "sub32 k t = k - t" "idx31 (k - t) = k - t" using t by (simp_all add: sub32_le idx31_id)
    with False ne inv c1 c2 t(1) pos show ?thesis
      by (simp add: RING_Read_def Let_def k(4)[symmetric] sub taken r'_def)
  qed
  have len': "ring_len r' = ring_len r - k"
    using inv k(1,2) b by (auto simp: ring_len_def r'_def ring_inv_def t_def mod_if)
  have inv': "ring_inv r'"
    using inv k(1,2) b by (auto simp: ring_inv_def r'_def ring_len_def t_def mod_if split: if_splits)
  have "ring_contents r' = drop k (ring_contents r)"
  proof (rule nth_equalityI)
    fix i assume "i < length (ring_contents r')"
    then have i: "k + i < ring_len r" using len' by simp
    have "ring_contents r' ! i = ?b ! (((?rd + k) mod ?m + i) mod ?m)"
      using i len' by (simp add: ring_contents_nth r'_def)
    also have "\<dots> = ?b ! ((?rd + (k + i)) mod ?m)"
      by (simp add: mod_add_left_eq add.assoc)
    finally show "ring_contents r' ! i = drop k (ring_contents r) ! i"
      using i by (simp add: ring_contents_nth)
  qed (simp add: len')
  with eq inv' show ?thesis by (auto simp: r'_def)
qed


subsection \<open>The contract of a byte FIFO\<close>

text \<open>
  What a client of a bounded byte queue relies on: a block that fits is appended whole, a
  read delivers the oldest bytes. The client lemma is proved once from the contract.
\<close>

fun put_all :: "('s \<Rightarrow> u8 list \<Rightarrow> nat \<Rightarrow> ('s \<times> nat) option) \<Rightarrow> 's \<Rightarrow> u8 list list \<Rightarrow> 's option" where
  "put_all put s [] = Some s"
| "put_all put s (xs # xss) =
     do { (s', n) \<leftarrow> put s xs (length xs); put_all put s' xss }"

locale byte_fifo =
  fixes ok :: "'s \<Rightarrow> bool"
    and room :: "'s \<Rightarrow> nat"
    and held :: "'s \<Rightarrow> u8 list"
    and put :: "'s \<Rightarrow> u8 list \<Rightarrow> nat \<Rightarrow> ('s \<times> nat) option"
    and get :: "'s \<Rightarrow> u8 list \<Rightarrow> nat \<Rightarrow> ('s \<times> u8 list \<times> nat) option"
  assumes put_ok: "ok s \<Longrightarrow> n \<le> length xs \<Longrightarrow> n \<le> room s \<Longrightarrow>
      \<exists>s'. put s xs n = Some (s', n) \<and> ok s' \<and> room s' = room s - n \<and> held s' = held s @ take n xs"
    and get_ok: "ok s \<Longrightarrow> min n (length (held s)) \<le> length buf \<Longrightarrow>
      \<exists>s' out. get s buf n = Some (s', out, min n (length (held s))) \<and> ok s' \<and>
        out = take (min n (length (held s))) (held s) @ drop (min n (length (held s))) buf \<and>
        held s' = drop (min n (length (held s))) (held s)"
begin

lemma put_all_ok:
  "ok s \<Longrightarrow> length (concat xss) \<le> room s \<Longrightarrow>
   \<exists>s'. put_all put s xss = Some s' \<and> ok s' \<and> held s' = held s @ concat xss"
proof (induction xss arbitrary: s)
  case (Cons xs xss)
  then obtain s1 where "put s xs (length xs) = Some (s1, length xs)" "ok s1"
      "room s1 = room s - length xs" "held s1 = held s @ xs"
    using put_ok[of s "length xs" xs] by auto
  with Cons.IH[of s1] Cons.prems show ?case by auto
qed simp

lemma put_all_get:
  assumes "ok s" "held s = []" "length (concat xss) \<le> room s" "length buf = length (concat xss)"
  shows "\<exists>s1 s2. put_all put s xss = Some s1 \<and>
    get s1 buf (length buf) = Some (s2, concat xss, length buf) \<and> ok s2 \<and> held s2 = []"
proof -
  from put_all_ok[OF assms(1,3)] assms(2) obtain s1
    where s1: "put_all put s xss = Some s1" "ok s1" "held s1 = concat xss" by auto
  with get_ok[of s1 "length buf" buf] assms(4) show ?thesis by force
qed

end

definition ring_room :: "T_RingBuf \<Rightarrow> nat" where
  "ring_room r = m_uMaxSize r - ring_len r"

interpretation ring: byte_fifo ring_inv ring_room ring_contents RING_Write RING_Read
proof unfold_locales
  fix s :: T_RingBuf and n and xs :: "u8 list"
  assume h: "ring_inv s" "n \<le> length xs" "n \<le> ring_room s"
  then obtain s' where s': "RING_Write s xs n = Some (s', n)" "ring_inv s'"
      "m_uMaxSize s' = m_uMaxSize s" "ring_contents s' = ring_contents s @ take n xs"
    using RING_Write_fits[of s n xs] by (auto simp: ring_room_def)
  moreover from s'(4) h(2) have "ring_len s' = ring_len s + n"
    by (metis length_append length_ring_contents length_take min.absorb2)
  ultimately show "\<exists>s'. RING_Write s xs n = Some (s', n) \<and> ring_inv s' \<and>
      ring_room s' = ring_room s - n \<and> ring_contents s' = ring_contents s @ take n xs"
    by (auto simp: ring_room_def)
next
  fix s :: T_RingBuf and n buf
  assume "ring_inv s" "min n (length (ring_contents s)) \<le> length (buf :: u8 list)"
  then show "\<exists>s' out. RING_Read s buf n = Some (s', out, min n (length (ring_contents s))) \<and>
      ring_inv s' \<and>
      out = take (min n (length (ring_contents s))) (ring_contents s) @
        drop (min n (length (ring_contents s))) buf \<and>
      ring_contents s' = drop (min n (length (ring_contents s))) (ring_contents s)"
    using RING_Read_front[of s n buf] by auto
qed


subsection \<open>Properties\<close>

text \<open>A write that fits the free space returns its length, keeps the ring well formed and
  appends exactly the written bytes to the unread contents, wherever the write index is and
  whether or not the write wraps around the end of the buffer.\<close>

lemma RING_Write_appends:
  assumes "ring_inv r" "n \<le> length xs" "n \<le> RING_GetSpaceLen r"
  shows "\<exists>r'. RING_Write r xs n = Some (r', n) \<and> ring_inv r' \<and> RING_GetMaxSize r' = RING_GetMaxSize r \<and>
    ring_contents r' = ring_contents r @ take n xs \<and> RING_GetDataLen r' = RING_GetDataLen r + n"
proof -
  obtain r' where r': "RING_Write r xs n = Some (r', n)" "ring_inv r'" "m_uMaxSize r' = m_uMaxSize r"
      "ring_contents r' = ring_contents r @ take n xs"
    using RING_Write_fits[of r n xs] assms by auto
  moreover have "ring_len r' = ring_len r + n"
    using r'(4) assms(2) by (metis length_append length_ring_contents length_take min.absorb2)
  ultimately show ?thesis using assms(1) by (simp add: RING_GetMaxSize_def)
qed

lemma RING_Write_appends_witness:
  "\<exists>r'. RING_Write (RING_Init (replicate 4 0) 4) [7, 8, 9] 3 = Some (r', 3) \<and> ring_contents r' = [7, 8, 9]"
  using RING_Write_appends[of "RING_Init (replicate 4 0) 4" 3 "[7, 8, 9]"]
    RING_Init_inv[of 4 "replicate 4 0"] RING_Init_contents[of "replicate 4 0" 4]
  by (auto simp: RING_GetSpaceLen_def RING_GetDataLen_def RING_Init_def sub32_le)

text \<open>Reading returns the oldest bytes, at most as many as asked for and as stored, writes
  nothing beyond them into the caller's buffer, and leaves the rest in the ring.\<close>

lemma RING_Read_oldest:
  assumes "ring_inv r" "n \<le> length buf"
  shows "\<exists>r' out. RING_Read r buf n = Some (r', out, min n (RING_GetDataLen r)) \<and> ring_inv r' \<and>
    out = take n (ring_contents r) @ drop (min n (RING_GetDataLen r)) buf \<and>
    ring_contents r' = drop n (ring_contents r)"
  using RING_Read_front[of r n buf] assms by (auto simp: min_def)

lemma RING_Read_oldest_witness:
  "\<exists>r' out. RING_Read (RING_Init [1, 2, 3] 3\<lparr>m_u32WriteMirror := True\<rparr>) [0, 0] 2 = Some (r', out, 2) \<and>
     out = [1, 2] \<and> ring_contents r' = [3]"
proof -
  let ?r = "RING_Init [1, 2, 3] 3\<lparr>m_u32WriteMirror := True\<rparr>"
  have inv: "ring_inv ?r" by (simp add: ring_inv_def RING_Init_def)
  have "ring_len ?r = 3" by (simp add: ring_len_def RING_Init_def)
  moreover have "ring_contents ?r = [1, 2, 3]"
    by (simp add: ring_contents_def ring_len_def RING_Init_def upt_rec)
  ultimately show ?thesis using RING_Read_oldest[OF inv, of 2 "[0, 0]"] inv by auto
qed



text \<open>A write of more bytes than are free is accepted and returns its full length, but where
  both mirror bits were equal it leaves the ring empty: both bits are flipped with the indices
  equal, so even the newest bytes are lost.\<close>

lemma RING_Write_overrun_empties:
  assumes "ring_inv r" "m_u32ReadMirror r = m_u32WriteMirror r"
    and "n \<le> length xs" "n \<le> RING_GetMaxSize r" "RING_GetSpaceLen r < n"
  shows "\<exists>r'. RING_Write r xs n = Some (r', n) \<and> ring_inv r' \<and> RING_GetDataLen r' = 0 \<and> ring_contents r' = []"
proof -
  obtain r' where r': "RING_Write r xs n = Some (r', n)" "ring_inv r'" "RING_GetDataLen r' = 0"
    using RING_Write_overwrites[of r n xs] assms by (auto simp: RING_GetMaxSize_def)
  then have "ring_len r' = 0" by simp
  then have "ring_contents r' = []" by (simp add: ring_contents_def)
  with r' show ?thesis by blast
qed

lemma RING_Write_overrun_empties_witness:
  "\<exists>r'. RING_Write (RING_Init [1, 2, 3, 4] 4\<lparr>m_u32WriteIndex := 3\<rparr>) [5, 6] 2 = Some (r', 2) \<and>
    RING_GetDataLen r' = 0"
proof -
  let ?r = "RING_Init [1, 2, 3, 4] 4\<lparr>m_u32WriteIndex := 3\<rparr>"
  have inv: "ring_inv ?r" by (simp add: ring_inv_def RING_Init_def)
  have "RING_GetSpaceLen ?r < 2"
    using inv by (simp add: ring_len_def) (simp add: RING_Init_def)
  then show ?thesis
    using RING_Write_overrun_empties[OF inv, of 2 "[5, 6]"]
    by (simp add: RING_GetMaxSize_def RING_Init_def) blast
qed

end
