(* ===== verification/Fifo_Buffer.thy ===== *)
theory Fifo_Buffer
  imports C_Prelude
begin

section \<open>Block FIFO (\<^verbatim>\<open>oslib/src/fifobuf.c\<close>)\<close>

text \<open>
  A FIFO of variable-sized blocks inside one buffer. Each block is preceded by its total
  size, a 4-byte word in the buffer itself, so the state is the C struct together with the
  byte memory that holds the buffer. Pointers are addresses of that memory.
\<close>

definition SZ :: nat where "SZ = 4"

record T_Fifobuf =
  m_pStart :: addr
  m_pEnd :: addr
  m_pRead :: addr
  m_pWrite :: addr
  m_IsFull :: bool

definition FIFO_Init :: "addr \<Rightarrow> nat \<Rightarrow> T_Fifobuf" where
  "FIFO_Init vpBuffer uSize =
     \<lparr>m_pStart = vpBuffer, m_pEnd = vpBuffer + uSize, m_pRead = vpBuffer, m_pWrite = vpBuffer,
      m_IsFull = False\<rparr>"

definition FIFO_GetMaxSize :: "T_Fifobuf \<Rightarrow> nat" where
  "FIFO_GetMaxSize f =
     (let (s1, s2) =
        (if m_pWrite f \<ge> m_pRead f
         then (sub32 (m_pEnd f) (m_pWrite f), sub32 (m_pRead f) (m_pStart f))
         else (sub32 (m_pRead f) (m_pWrite f), sub32 (m_pRead f) (m_pWrite f)))
      in if s1 < s2 then s2 else s1)"

text \<open>
  \<open>FIFO_Alloc\<close> returns the new memory and state and the pointer handed out, 0 for
  \<open>NULL\<close>. The request plus the header is added in 32 bits.
\<close>

definition FIFO_Alloc :: "mem \<Rightarrow> T_Fifobuf \<Rightarrow> nat \<Rightarrow> (mem \<times> T_Fifobuf \<times> addr) option" where
  "FIFO_Alloc m f uSize =
     (if m_IsFull f then Some (m, f, 0)
      else
        let need = u32 (uSize + SZ);
            start = (if m_pWrite f \<le> m_pRead f then m_pWrite f else m_pStart f)
        in if m_pWrite f \<ge> m_pRead f \<and> sub32 (m_pEnd f) (m_pWrite f) \<ge> need then
          let ptr = m_pWrite f;
              w1 = m_pWrite f + need;
              w2 = (if w1 = m_pEnd f then m_pStart f else w1)
          in do {
            m' \<leftarrow> wr32 m ptr need;
            Some (m', f\<lparr>m_pWrite := w2, m_IsFull := (if w2 = m_pRead f then True else m_IsFull f)\<rparr>,
                  ptr + SZ)
          }
        else if sub32 (m_pRead f) start \<ge> need then
          let ptr = start;
              w1 = u32 (start + uSize + SZ)
          in do {
            m' \<leftarrow> wr32 m ptr need;
            Some (m', f\<lparr>m_pWrite := w1, m_IsFull := (if w1 = m_pRead f then True else m_IsFull f)\<rparr>,
                  ptr + SZ)
          }
        else Some (m, f, 0))"

definition FIFO_Unalloc :: "mem \<Rightarrow> T_Fifobuf \<Rightarrow> addr \<Rightarrow> (T_Fifobuf \<times> int) option" where
  "FIFO_Unalloc m f vpBuffer =
     (let ptr = vpBuffer - SZ in
      do {
        sz \<leftarrow> rd32 m ptr;
        let endptr = (if m_pWrite f = m_pStart f then m_pEnd f else m_pWrite f);
        if ptr + sz \<noteq> endptr then Some (f, EO_INVAL)
        else Some (f\<lparr>m_pWrite := ptr, m_IsFull := False\<rparr>, EO_SUCCESS)
      })"

definition FIFO_Free :: "mem \<Rightarrow> T_Fifobuf \<Rightarrow> addr \<Rightarrow> (T_Fifobuf \<times> int) option" where
  "FIFO_Free m f vpBuffer =
     (let ptr = vpBuffer - SZ in
      if ptr < m_pStart f \<or> ptr \<ge> m_pEnd f then Some (f, EO_INVAL)
      else if ptr \<noteq> m_pRead f \<and> ptr \<noteq> m_pStart f then Some (f, EO_INVAL)
      else
        let end = (if m_pWrite f > m_pRead f then m_pWrite f else m_pEnd f) in
        do {
          sz \<leftarrow> rd32 m ptr;
          if ptr + sz > end then Some (f, EO_INVAL)
          else
            let r1 = ptr + sz;
                r2 = (if r1 = m_pEnd f then m_pStart f else r1);
                f1 = f\<lparr>m_pRead := r2\<rparr>;
                f2 = (if m_pRead f1 = m_pWrite f1
                      then f1\<lparr>m_pRead := m_pStart f, m_pWrite := m_pStart f\<rparr> else f1)
            in Some (f2\<lparr>m_IsFull := False\<rparr>, EO_SUCCESS)
        })"


subsection \<open>Live blocks and the invariant\<close>

text \<open>
  \<open>blocks m p bs q\<close>: the headers at the addresses \<open>bs\<close> lie back to back from
  \<open>p\<close> to \<open>q\<close>. The live blocks of a FIFO, oldest first, are either one such run
  from read to write, or a run from read to some \<open>e\<close> before the end followed by a run
  from the start to write.
\<close>

fun blocks :: "mem \<Rightarrow> addr \<Rightarrow> addr list \<Rightarrow> addr \<Rightarrow> bool" where
  "blocks m p [] q = (p = q)"
| "blocks m p (b # bs) q =
     (b = p \<and> (case rd32 m p of None \<Rightarrow> False | Some sz \<Rightarrow> SZ \<le> sz \<and> blocks m (p + sz) bs q))"

definition fifo_linear :: "mem \<Rightarrow> T_Fifobuf \<Rightarrow> addr list \<Rightarrow> bool" where
  "fifo_linear m f bs \<longleftrightarrow>
     \<not> m_IsFull f \<and> m_pRead f \<le> m_pWrite f \<and> blocks m (m_pRead f) bs (m_pWrite f)"

definition fifo_wrapped :: "mem \<Rightarrow> T_Fifobuf \<Rightarrow> addr list \<Rightarrow> bool" where
  "fifo_wrapped m f bs \<longleftrightarrow>
     m_pWrite f \<le> m_pRead f \<and> m_IsFull f = (m_pWrite f = m_pRead f) \<and>
     (\<exists>xs ys e. bs = xs @ ys \<and> e \<le> m_pEnd f \<and>
        blocks m (m_pRead f) xs e \<and> blocks m (m_pStart f) ys (m_pWrite f))"

definition fifo_inv :: "mem \<Rightarrow> T_Fifobuf \<Rightarrow> addr list \<Rightarrow> bool" where
  "fifo_inv m f bs \<longleftrightarrow>
     0 < m_pStart f \<and> m_pEnd f \<le> length m \<and> length m < 2 ^ 32 \<and>
     m_pStart f \<le> m_pRead f \<and> m_pRead f < m_pEnd f \<and>
     m_pStart f \<le> m_pWrite f \<and> m_pWrite f < m_pEnd f \<and>
     (fifo_linear m f bs \<or> fifo_wrapped m f bs)"

lemmas fifo_inv_defs = fifo_inv_def fifo_linear_def fifo_wrapped_def

lemma FIFO_Init_inv:
  "0 < p \<Longrightarrow> 0 < n \<Longrightarrow> p + n \<le> length m \<Longrightarrow> length m < 2 ^ 32 \<Longrightarrow> fifo_inv m (FIFO_Init p n) []"
  by (simp add: fifo_inv_defs FIFO_Init_def)

lemma blocks_le: "blocks m p bs q \<Longrightarrow> p \<le> q"
  by (induction bs arbitrary: p) (fastforce split: option.splits)+

lemma blocks_same: "blocks m q bs q \<Longrightarrow> bs = []"
  by (cases bs) (auto dest!: blocks_le simp: SZ_def split: option.splits)

lemma blocks_append:
  "blocks m p (xs @ ys) q \<longleftrightarrow> (\<exists>r. blocks m p xs r \<and> blocks m r ys q)"
  by (induction xs arbitrary: p) (auto split: option.splits)

lemma blocks_write:
  "blocks m p bs q \<Longrightarrow> wr32 m a n = Some m' \<Longrightarrow> a + SZ \<le> p \<or> q \<le> a \<Longrightarrow> blocks m' p bs q"
proof (induction bs arbitrary: p)
  case (Cons b bs)
  then obtain sz where sz: "rd32 m p = Some sz" "SZ \<le> sz" "blocks m (p + sz) bs q" "b = p"
    by (auto split: option.splits)
  have "p + sz \<le> q" using sz(3) by (rule blocks_le)
  then have "rd32 m' p = Some sz"
    using rd32_wr32_other[OF Cons.prems(2), of p] Cons.prems(3) sz(1,2) by (auto simp: SZ_def)
  with sz Cons.IH[OF sz(3) Cons.prems(2)] Cons.prems(3) show ?case by auto
qed simp

lemma blocks_snoc:
  "blocks m p bs q \<Longrightarrow> rd32 m q = Some sz \<Longrightarrow> SZ \<le> sz \<Longrightarrow> blocks m p (bs @ [q]) (q + sz)"
  by (auto simp: blocks_append)

text \<open>The byte range of a live block.\<close>

definition block_range :: "mem \<Rightarrow> addr \<Rightarrow> nat set" where
  "block_range m b = {b..<b + (case rd32 m b of None \<Rightarrow> 0 | Some sz \<Rightarrow> sz)}"

lemma blocks_range: "blocks m p bs q \<Longrightarrow> b \<in> set bs \<Longrightarrow> block_range m b \<subseteq> {p..<q}"
proof (induction bs arbitrary: p)
  case (Cons c bs)
  then obtain sz where sz: "rd32 m p = Some sz" "SZ \<le> sz" "blocks m (p + sz) bs q" "c = p"
    by (auto split: option.splits)
  have "p + sz \<le> q" using sz(3) by (rule blocks_le)
  with sz Cons.IH[OF sz(3)] Cons.prems(2) show ?case by (fastforce simp: block_range_def)
qed simp


subsection \<open>Allocation\<close>

definition fifo_new_block :: "mem \<Rightarrow> T_Fifobuf \<Rightarrow> addr list \<Rightarrow> nat \<Rightarrow> mem \<Rightarrow> T_Fifobuf \<Rightarrow> addr \<Rightarrow> bool" where
  "fifo_new_block m f bs need m' f' h \<longleftrightarrow>
     fifo_inv m' f' (bs @ [h]) \<and> rd32 m' h = Some need \<and>
     m_pStart f \<le> h \<and> h + need \<le> m_pEnd f \<and>
     (\<forall>b\<in>set bs. block_range m b \<inter> {h..<h + need} = {}) \<and>
     (\<forall>a. a < h \<or> h + SZ \<le> a \<longrightarrow> rd m' a = rd m a)"

lemma wr32_frame: "wr32 m h n = Some m' \<Longrightarrow> a < h \<or> h + SZ \<le> a \<Longrightarrow> rd m' a = rd m a"
  by (auto simp: wr32_def wr_bytes_def rd_def SZ_def nth_overlay split: if_splits)

lemma ranges_disjoint:
  assumes "blocks m p bs q" and "q \<le> h \<or> h + n \<le> p" and "b \<in> set bs"
  shows "block_range m b \<inter> {h..<h + n} = {}"
  using blocks_range[OF assms(1,3)] assms(2) by fastforce

text \<open>The block is placed behind the newest one, which lies behind the oldest.\<close>

lemma alloc_at_write:
  assumes inv: "fifo_inv m f bs" and lin: "fifo_linear m f bs"
    and need: "SZ \<le> need" "m_pWrite f + need \<le> m_pEnd f"
    and w: "wr32 m (m_pWrite f) need = Some m'"
  defines "w2 \<equiv> (if m_pWrite f + need = m_pEnd f then m_pStart f else m_pWrite f + need)"
  defines "f' \<equiv> f\<lparr>m_pWrite := w2, m_IsFull := (if w2 = m_pRead f then True else m_IsFull f)\<rparr>"
  shows "fifo_new_block m f bs need m' f' (m_pWrite f)"
proof -
  let ?w = "m_pWrite f"
  from inv have b: "m_pEnd f \<le> length m" "length m < 2 ^ 32" "m_pStart f \<le> ?w" by (auto simp: fifo_inv_def)
  have n32: "need < 2 ^ 32" using need b by simp
  have old: "blocks m (m_pRead f) bs ?w" using lin by (simp add: fifo_linear_def)
  have new: "blocks m' (m_pRead f) (bs @ [?w]) (?w + need)"
    using blocks_snoc[OF blocks_write[OF old w]] rd32_wr32[OF w n32] need by simp
  have len: "length m' = length m" using w by (rule wr32_length)
  have "fifo_linear m' f' (bs @ [?w]) \<or> fifo_wrapped m' f' (bs @ [?w])"
  proof (cases "?w + need = m_pEnd f")
    case True
    then have "fifo_wrapped m' f' (bs @ [?w])"
      using inv new lin unfolding fifo_wrapped_def f'_def w2_def
      by (intro conjI exI[of _ "bs @ [?w]"] exI[of _ "[]"] exI[of _ "m_pEnd f"])
        (auto simp: fifo_inv_def fifo_linear_def)
    then show ?thesis ..
  next
    case False
    then have "fifo_linear m' f' (bs @ [?w])"
      using inv new lin need unfolding fifo_linear_def f'_def w2_def
      by (auto simp: fifo_inv_def SZ_def)
    then show ?thesis ..
  qed
  then have "fifo_inv m' f' (bs @ [?w])"
    using inv len need unfolding fifo_inv_def f'_def w2_def by auto
  moreover have "\<forall>x\<in>set bs. block_range m x \<inter> {?w..<?w + need} = {}"
    using ranges_disjoint[OF old] by blast
  ultimately show ?thesis
    using rd32_wr32[OF w n32] wr32_frame[OF w] need b by (simp add: fifo_new_block_def)
qed

text \<open>The block is placed before the oldest one, at the start or behind the newest.\<close>

lemma alloc_below_read:
  assumes inv: "fifo_inv m f bs" and need: "SZ \<le> need" "h + need \<le> m_pRead f"
    and h: "fifo_linear m f bs \<and> h = m_pStart f \<or> fifo_wrapped m f bs \<and> h = m_pWrite f"
    and notfull: "\<not> m_IsFull f" and w: "wr32 m h need = Some m'"
  defines "f' \<equiv> f\<lparr>m_pWrite := h + need,
    m_IsFull := (if h + need = m_pRead f then True else m_IsFull f)\<rparr>"
  shows "fifo_new_block m f bs need m' f' h"
proof -
  from inv have b: "m_pEnd f \<le> length m" "length m < 2 ^ 32" "m_pRead f < m_pEnd f"
      "m_pStart f \<le> m_pWrite f" "0 < m_pStart f" by (auto simp: fifo_inv_def)
  have n32: "need < 2 ^ 32" using need b by simp
  obtain xs ys e where old: "bs = xs @ ys" "e \<le> m_pEnd f" "blocks m (m_pRead f) xs e"
      "blocks m (m_pStart f) ys h"
  proof (cases "fifo_linear m f bs \<and> h = m_pStart f")
    case True
    with inv that[of bs "[]" "m_pWrite f"] show ?thesis
      by (auto simp: fifo_linear_def fifo_inv_def)
  next
    case False
    with h have "fifo_wrapped m f bs" "h = m_pWrite f" by auto
    then obtain xs ys e where "bs = xs @ ys" "e \<le> m_pEnd f" "blocks m (m_pRead f) xs e"
      "blocks m (m_pStart f) ys h" by (auto simp: fifo_wrapped_def)
    then show ?thesis by (rule that)
  qed
  have h_ge: "m_pStart f \<le> h" using old(4) by (rule blocks_le)
  have new1: "blocks m' (m_pRead f) xs e"
    using blocks_write[OF old(3) w] need by simp
  have new2: "blocks m' (m_pStart f) (ys @ [h]) (h + need)"
    using blocks_snoc[OF blocks_write[OF old(4) w]] rd32_wr32[OF w n32] need by simp
  have "fifo_wrapped m' f' (bs @ [h])"
    unfolding fifo_wrapped_def f'_def using need notfull old new1 new2
    by (intro conjI exI[of _ xs] exI[of _ "ys @ [h]"] exI[of _ e]) auto
  then have "fifo_inv m' f' (bs @ [h])"
    using inv wr32_length[OF w] need h_ge unfolding fifo_inv_def f'_def by auto
  moreover have "\<forall>x\<in>set bs. block_range m x \<inter> {h..<h + need} = {}"
    using ranges_disjoint[OF old(3), of h need] ranges_disjoint[OF old(4), of h need] need old(1)
    by auto
  ultimately show ?thesis
    using rd32_wr32[OF w n32] wr32_frame[OF w] need b h_ge by (simp add: fifo_new_block_def)
qed


lemma FIFO_Alloc_spec:
  assumes inv: "fifo_inv m f bs" and n: "uSize + SZ < 2 ^ 32"
  shows "FIFO_Alloc m f uSize = Some (m, f, 0) \<or>
    (\<exists>m' f' h. FIFO_Alloc m f uSize = Some (m', f', h + SZ) \<and>
       fifo_new_block m f bs (uSize + SZ) m' f' h)"
proof (cases "m_IsFull f")
  case True
  then show ?thesis by (simp add: FIFO_Alloc_def)
next
  case nf: False
  let ?n = "uSize + SZ" and ?w = "m_pWrite f" and ?r = "m_pRead f"
  from inv have b: "m_pEnd f < 2 ^ 32" "?w < m_pEnd f" "?r < m_pEnd f" "m_pStart f \<le> ?r" "m_pStart f \<le> ?w"
      "0 < m_pStart f" "m_pEnd f \<le> length m"
    by (auto simp: fifo_inv_def)
  have u: "u32 ?n = ?n" using n by (rule u32_id)
  have s1: "sub32 (m_pEnd f) ?w = m_pEnd f - ?w" using b by (simp add: sub32_le)
  have ge: "SZ \<le> ?n" by simp
  show ?thesis
  proof (cases "?w \<ge> ?r \<and> m_pEnd f - ?w \<ge> ?n")
    case True
    have lin: "fifo_linear m f bs" using inv nf True by (auto simp: fifo_inv_def fifo_wrapped_def)
    have fit: "?w + ?n \<le> m_pEnd f" using True b by arith
    then have w: "wr32 m ?w ?n = Some (overlay m ?w (enc32 ?n))"
      using b by (intro wr32_Some) (auto simp: SZ_def)
    from alloc_at_write[OF inv lin ge fit w] nf w True show ?thesis
      by (simp add: FIFO_Alloc_def u s1 Let_def)
  next
    case False
    define h where "h = (if ?w \<le> ?r then ?w else m_pStart f)"
    have s2: "sub32 ?r h = ?r - h" using b by (auto simp: sub32_le h_def)
    show ?thesis
    proof (cases "?r - h \<ge> ?n")
      case True
      then have fit: "h + ?n \<le> ?r" by (auto simp: SZ_def)
      then have lt: "h < ?r" by (simp add: SZ_def)
      have kind: "fifo_linear m f bs \<and> h = m_pStart f \<or> fifo_wrapped m f bs \<and> h = ?w"
        using inv lt by (auto simp: fifo_inv_def fifo_linear_def fifo_wrapped_def h_def split: if_splits)
      have w: "wr32 m h ?n = Some (overlay m h (enc32 ?n))"
        using fit b by (intro wr32_Some) (auto simp: SZ_def h_def)
      have w1: "u32 (h + uSize + SZ) = h + ?n" using fit b by (simp add: u32_def)
      from alloc_below_read[OF inv ge fit kind nf w] nf w w1 True False
      show ?thesis by (simp add: FIFO_Alloc_def u s1 s2 Let_def h_def[symmetric] add.assoc) blast
    next
      case F2: False
      with False nf show ?thesis
        by (auto simp: FIFO_Alloc_def u s1 s2 Let_def h_def[symmetric])
    qed
  qed
qed

subsection \<open>Release of the oldest and of the newest block\<close>

lemma FIFO_Free_spec:
  assumes inv: "fifo_inv m f (b # bs)"
  shows "\<exists>f'. FIFO_Free m f (b + SZ) = Some (f', EO_SUCCESS) \<and> fifo_inv m f' bs"
proof -
  let ?w = "m_pWrite f" and ?r = "m_pRead f"
  from inv have bd: "?w < m_pEnd f" "?r < m_pEnd f" "m_pStart f \<le> ?r" "m_pStart f \<le> ?w"
    by (auto simp: fifo_inv_def)
  consider (lin) sz where "fifo_linear m f (b # bs)" "b = ?r" "rd32 m b = Some sz" "SZ \<le> sz"
      "blocks m (b + sz) bs ?w" "b + sz \<le> ?w"
    | (gap) sz where "b = m_pStart f" "rd32 m b = Some sz" "SZ \<le> sz" "blocks m (b + sz) bs ?w"
      "b + sz \<le> ?w" "?w \<le> ?r"
    | (wrap) xs ys e sz where "b = ?r" "bs = xs @ ys" "rd32 m b = Some sz" "SZ \<le> sz"
      "blocks m (b + sz) xs e" "blocks m (m_pStart f) ys ?w" "e \<le> m_pEnd f" "b + sz \<le> e" "?w \<le> ?r"
  proof (cases "fifo_linear m f (b # bs)")
    case True
    then show ?thesis using that(1) blocks_le
      by (fastforce simp: fifo_linear_def split: option.splits)
  next
    case False
    then have "fifo_wrapped m f (b # bs)" using inv by (simp add: fifo_inv_def)
    then obtain xs ys e where x: "b # bs = xs @ ys" "e \<le> m_pEnd f" "blocks m ?r xs e"
        "blocks m (m_pStart f) ys ?w" "?w \<le> ?r"
      by (auto simp: fifo_wrapped_def)
    show ?thesis
    proof (cases xs)
      case Nil
      with x show ?thesis using that(2) blocks_le by (fastforce split: option.splits)
    next
      case (Cons c xs')
      with x show ?thesis using that(3) blocks_le by (fastforce split: option.splits)
    qed
  qed
  then show ?thesis
  proof cases
    case lin
    have "b + sz = ?w \<longrightarrow> bs = []" using lin(5) blocks_same by auto
    with lin show ?thesis
      using inv bd by (auto simp: FIFO_Free_def Let_def fifo_inv_def fifo_linear_def SZ_def)
  next
    case gap
    have "b + sz = ?w \<longrightarrow> bs = []" using gap(4) blocks_same by auto
    with gap show ?thesis
      using inv bd by (auto simp: FIFO_Free_def Let_def fifo_inv_def fifo_linear_def SZ_def)
  next
    case wrap
    show ?thesis
    proof (cases "b + sz = m_pEnd f")
      case True
      then have "xs = []" using wrap by (cases xs) (auto dest!: blocks_le split: option.splits simp: SZ_def)
      with wrap True inv bd show ?thesis
        by (auto simp: FIFO_Free_def Let_def fifo_inv_def fifo_linear_def SZ_def)
    next
      case False
      with wrap have r1: "b + sz < m_pEnd f" "?w < b + sz" by (auto simp: SZ_def)
      let ?f = "f\<lparr>m_pRead := b + sz, m_IsFull := False\<rparr>"
      have "FIFO_Free m f (b + SZ) = Some (?f, EO_SUCCESS)"
        using wrap r1 bd by (auto simp: FIFO_Free_def Let_def SZ_def)
      moreover have "fifo_wrapped m ?f bs"
        unfolding fifo_wrapped_def using wrap r1
        by (intro conjI exI[of _ xs] exI[of _ ys] exI[of _ e]) auto
      ultimately show ?thesis using inv r1 by (auto simp: fifo_inv_def)
    qed
  qed
qed

lemma FIFO_Unalloc_spec:
  assumes new: "fifo_inv m f (bs @ [b])" and sz: "rd32 m b = Some sz"
    and last: "b + sz = (if m_pWrite f = m_pStart f then m_pEnd f else m_pWrite f)"
  shows "\<exists>f'. FIFO_Unalloc m f (b + SZ) = Some (f', EO_SUCCESS) \<and> fifo_inv m f' bs"
proof -
  let ?f = "f\<lparr>m_pWrite := b, m_IsFull := False\<rparr>"
  have eq: "FIFO_Unalloc m f (b + SZ) = Some (?f, EO_SUCCESS)"
    using sz last by (simp add: FIFO_Unalloc_def Let_def)
  have "fifo_linear m ?f bs \<or> fifo_wrapped m ?f bs" and bd: "m_pStart f \<le> b" "b < m_pEnd f"
  proof -
    have "(fifo_linear m ?f bs \<or> fifo_wrapped m ?f bs) \<and> m_pStart f \<le> b \<and> b < m_pEnd f"
    proof (cases "fifo_linear m f (bs @ [b])")
      case True
      then have "blocks m (m_pRead f) bs b" "SZ \<le> sz" "b + sz = m_pWrite f"
        using sz by (auto simp: fifo_linear_def blocks_append)
      moreover have "m_pRead f \<le> b" using calculation(1) by (rule blocks_le)
      ultimately show ?thesis using new by (simp add: fifo_linear_def fifo_inv_def SZ_def)
    next
      case False
      then obtain xs ys e where x: "bs @ [b] = xs @ ys" "e \<le> m_pEnd f" "blocks m (m_pRead f) xs e"
          "blocks m (m_pStart f) ys (m_pWrite f)" "m_pWrite f \<le> m_pRead f"
        using new by (auto simp: fifo_inv_def fifo_wrapped_def)
      show ?thesis
      proof (cases ys rule: rev_cases)
        case Nil
        with x sz have "blocks m (m_pRead f) bs b" "SZ \<le> sz" "b + sz = e"
          by (auto simp: blocks_append)
        moreover have "m_pRead f \<le> b" using calculation(1) by (rule blocks_le)
        ultimately show ?thesis using new x(2) by (simp add: fifo_linear_def fifo_inv_def SZ_def)
      next
        case (snoc ys' c)
        with x(1) have c: "bs = xs @ ys'" "c = b" by simp_all
        with x(4) snoc sz have y: "blocks m (m_pStart f) ys' b" "SZ \<le> sz" "b + sz = m_pWrite f"
          by (auto simp: blocks_append)
        moreover have "m_pStart f \<le> b" using y(1) by (rule blocks_le)
        moreover have "fifo_wrapped m ?f bs"
          unfolding fifo_wrapped_def using x(2,3,5) y c(1)
          by (intro conjI exI[of _ xs] exI[of _ ys'] exI[of _ e]) (simp_all add: SZ_def)
        ultimately show ?thesis using new by (simp add: fifo_inv_def SZ_def)
      qed
    qed
    then show "fifo_linear m ?f bs \<or> fifo_wrapped m ?f bs" "m_pStart f \<le> b" "b < m_pEnd f"
      by auto
  qed
  then have "fifo_inv m ?f bs" using new by (auto simp: fifo_inv_def)
  with eq show ?thesis by blast
qed


subsection \<open>Properties\<close>



text \<open>Blocks are freed in the order of their allocation: freeing the oldest succeeds and
  leaves the others.\<close>

lemma FIFO_Free_oldest:
  assumes "fifo_inv m f (b # bs)"
  shows "\<exists>f'. FIFO_Free m f (b + SZ) = Some (f', EO_SUCCESS) \<and> fifo_inv m f' bs"
  using assms by (rule FIFO_Free_spec)

lemma FIFO_demo_inv: "fifo_inv (overlay (replicate 64 0) 8 (enc32 16)) (FIFO_Init 8 32\<lparr>m_pWrite := 24\<rparr>) [8]"
proof -
  have w: "wr32 (replicate 64 0) 8 16 = Some (overlay (replicate 64 0) 8 (enc32 16))"
    by (simp add: wr32_Some)
  from rd32_wr32[OF this] show ?thesis
    by (simp add: fifo_inv_defs FIFO_Init_def SZ_def)
qed

lemma FIFO_Free_oldest_witness:
  "\<exists>f'. FIFO_Free (overlay (replicate 64 0) 8 (enc32 16)) (FIFO_Init 8 32\<lparr>m_pWrite := 24\<rparr>) 12 = Some (f', EO_SUCCESS) \<and>
    fifo_inv (overlay (replicate 64 0) 8 (enc32 16)) f' []"
  using FIFO_Free_oldest[OF FIFO_demo_inv] by (simp add: SZ_def)

text \<open>FIFO_Unalloc takes back the newest block, the one that ends at the write pointer, and
  only that one.\<close>

lemma FIFO_Unalloc_newest:
  assumes "fifo_inv m f (bs @ [b])" "rd32 m b = Some sz"
  shows "if b + sz = (if m_pWrite f = m_pStart f then m_pEnd f else m_pWrite f)
    then \<exists>f'. FIFO_Unalloc m f (b + SZ) = Some (f', EO_SUCCESS) \<and> fifo_inv m f' bs
    else FIFO_Unalloc m f (b + SZ) = Some (f, EO_INVAL)"
  using FIFO_Unalloc_spec[OF assms] assms(2) by (auto simp: FIFO_Unalloc_def Let_def)

lemma FIFO_Unalloc_newest_witness:
  "\<exists>f'. FIFO_Unalloc (overlay (replicate 64 0) 8 (enc32 16)) (FIFO_Init 8 32\<lparr>m_pWrite := 24\<rparr>) 12 = Some (f', EO_SUCCESS) \<and>
    fifo_inv (overlay (replicate 64 0) 8 (enc32 16)) f' []"
proof -
  have "wr32 (replicate 64 0) 8 16 = Some (overlay (replicate 64 0) 8 (enc32 16))"
    by (simp add: wr32_Some)
  from rd32_wr32[OF this] have "rd32 (overlay (replicate 64 0) 8 (enc32 16)) 8 = Some 16" by simp
  from FIFO_Unalloc_newest[where bs = "[]" and f = "FIFO_Init 8 32\<lparr>m_pWrite := 24\<rparr>", OF _ this] FIFO_demo_inv
  show ?thesis by (simp add: FIFO_Init_def SZ_def)
qed

text \<open>The size of a request is not checked against the width of unsigned: a request of
  2^32 - 4 bytes on any buffer that is not full is accepted, with a header of size 0.\<close>

lemma FIFO_Alloc_size_wraps:
  assumes "fifo_inv m f bs" "\<not> m_IsFull f" "m_pRead f \<le> m_pWrite f" "m_pWrite f + 4 \<le> length m"
  shows "\<exists>m' f'. FIFO_Alloc m f (2 ^ 32 - 4) = Some (m', f', m_pWrite f + SZ) \<and> rd32 m' (m_pWrite f) = Some 0 \<and>
    m_pWrite f' = m_pWrite f"
proof -
  have w: "0 < m_pWrite f" "m_pWrite f \<noteq> m_pEnd f" using assms(1) by (auto simp: fifo_inv_def)
  have need: "u32 (4294967292 + SZ) = 0" by (simp add: SZ_def u32_def)
  obtain m' where m': "wr32 m (m_pWrite f) 0 = Some m'" using wr32_Some[OF w(1) assms(4)] by blast
  show ?thesis
    using assms(2,3) w m' rd32_wr32[OF m'] by (simp add: FIFO_Alloc_def need Let_def)
qed

lemma FIFO_Alloc_size_wraps_witness:
  "\<exists>m' f'. FIFO_Alloc (replicate 64 0) (FIFO_Init 8 32) 4294967292 = Some (m', f', 12)"
  using FIFO_Alloc_size_wraps[of "replicate 64 0" "FIFO_Init 8 32" "[]"] FIFO_Init_inv[of 8 32 "replicate 64 0"]
  by (auto simp: FIFO_Init_def SZ_def)

end
