(* ===== verification/Time_Stamp.thy ===== *)
theory Time_Stamp
  imports C_Prelude
begin

section \<open>Time stamps and time values (\<^verbatim>\<open>oslib/src/timestamp.c\<close>, \<^verbatim>\<open>timestamp_unix.c\<close>)\<close>

text \<open>
  A \<open>T_Timestamp\<close> is the 64-bit word of the union, its halves read through \<open>ts_lo\<close>
  and \<open>ts_hi\<close>; the configuration selects the 64-bit branch (\<open>ZXY_HAS_TIME_INT64\<close>)
  and the high-precision type \<open>int64_t\<close>. A signed product that leaves 64 bits is
  undefined in C and \<open>None\<close> here. A \<open>T_Timevalue\<close> is a pair of signed seconds and
  milliseconds. The clock of the system (\<open>gettimeofday\<close>) is the parameter \<open>now\<close>:
  seconds and microseconds, or \<open>None\<close> for its failure.
\<close>

type_synonym T_Timestamp = u64

definition ts_lo :: "T_Timestamp \<Rightarrow> 32 word" where "ts_lo t = ucast t"
definition ts_hi :: "T_Timestamp \<Rightarrow> 32 word" where "ts_hi t = ucast (drop_bit 32 t)"

record T_Timevalue =
  sec :: int
  msec :: int

definition MSEC :: int where "MSEC = 1000"
definition USEC :: int where "USEC = 1000000"
definition NANOSEC :: int where "NANOSEC = 1000000000"

definition TIME_SetTimestamp32 :: "32 word \<Rightarrow> 32 word \<Rightarrow> T_Timestamp" where
  "TIME_SetTimestamp32 hi lo = push_bit 32 (ucast hi) + ucast lo"

definition TIME_GetTimestamp :: "(int \<times> int) option \<Rightarrow> T_Timestamp option" where
  "TIME_GetTimestamp now =
     (case now of None \<Rightarrow> None
      | Some (tv_sec, tv_usec) \<Rightarrow> Some (of_int tv_sec * 1000000 + of_int tv_usec))"

definition TIME_GetTimestampfreq :: "T_Timestamp" where
  "TIME_GetTimestampfreq = TIME_SetTimestamp32 0 1000000"

definition TIME_GetTimevalue :: "(int \<times> int) option \<Rightarrow> T_Timevalue option" where
  "TIME_GetTimevalue now =
     (case now of None \<Rightarrow> None
      | Some (tv_sec, tv_usec) \<Rightarrow> Some \<lparr>sec = tv_sec, msec = tv_usec sdiv 1000\<rparr>)"

definition mul64 :: "int \<Rightarrow> int \<Rightarrow> int option" where
  "mul64 a b = (if in64 (a * b) then Some (a * b) else None)"

definition get_elapsed :: "T_Timestamp \<Rightarrow> T_Timestamp \<Rightarrow> int" where
  "get_elapsed pStart pStop = sint (pStop - pStart)"

definition ts_freq :: int where
  "ts_freq = (let freq = sint TIME_GetTimestampfreq in if freq = 0 then 1 else freq)"

definition elapsed_msec :: "T_Timestamp \<Rightarrow> T_Timestamp \<Rightarrow> int option" where
  "elapsed_msec pStart pStop =
     do { e \<leftarrow> mul64 (get_elapsed pStart pStop) MSEC; Some (e sdiv ts_freq) }"

definition elapsed_usec :: "T_Timestamp \<Rightarrow> T_Timestamp \<Rightarrow> int option" where
  "elapsed_usec pStart pStop =
     do { e \<leftarrow> mul64 (get_elapsed pStart pStop) USEC; Some (e sdiv ts_freq) }"

definition TIME_ElapsedNanosec :: "T_Timestamp \<Rightarrow> T_Timestamp \<Rightarrow> 32 word option" where
  "TIME_ElapsedNanosec pStart pStop =
     do { e \<leftarrow> mul64 (get_elapsed pStart pStop) NANOSEC; Some (of_int (e sdiv ts_freq)) }"

definition TIME_ElapsedUsec :: "T_Timestamp \<Rightarrow> T_Timestamp \<Rightarrow> 32 word option" where
  "TIME_ElapsedUsec pStart pStop = map_option of_int (elapsed_usec pStart pStop)"

definition TIME_ElapsedMsec :: "T_Timestamp \<Rightarrow> T_Timestamp \<Rightarrow> 32 word option" where
  "TIME_ElapsedMsec pStart pStop = map_option of_int (elapsed_msec pStart pStop)"

definition TIME_ElapsedMsec64 :: "T_Timestamp \<Rightarrow> T_Timestamp \<Rightarrow> u64 option" where
  "TIME_ElapsedMsec64 pStart pStop = map_option of_int (elapsed_msec pStart pStop)"

definition TIME_ElapsedTime :: "T_Timestamp \<Rightarrow> T_Timestamp \<Rightarrow> T_Timevalue option" where
  "TIME_ElapsedTime pStart pStop =
     do {
       elapsed \<leftarrow> elapsed_msec pStart pStop;
       Some (if elapsed = 0 then \<lparr>sec = 0, msec = 0\<rparr>
             else \<lparr>sec = s32 (elapsed sdiv MSEC), msec = s32 (elapsed smod MSEC)\<rparr>)
     }"

definition TIME_ElapsedCycle32 :: "T_Timestamp \<Rightarrow> T_Timestamp \<Rightarrow> 32 word" where
  "TIME_ElapsedCycle32 pStart pStop = ts_lo pStop - ts_lo pStart"

text \<open>\<open>Inl\<close> is the error return of \<open>TIME_GetTickCount\<close>.\<close>

definition TIME_GetTickCount :: "(int \<times> int) option \<Rightarrow> (int + T_Timevalue) option" where
  "TIME_GetTickCount now =
     (case TIME_GetTimestamp now of None \<Rightarrow> Some (Inl (-1))
      | Some pCurr \<Rightarrow> map_option Inr (TIME_ElapsedTime (TIME_SetTimestamp32 0 0) pCurr))"

function norm_down :: "int \<Rightarrow> int \<Rightarrow> int \<times> int" where
  "norm_down s m =
     (let s' = s - 1; m' = m + 1000 in if m' \<le> -1000 then norm_down s' m' else (s', m'))"
  by pat_completeness auto
termination
  by (relation "measure (\<lambda>(s, m). nat (- m))") auto

definition TIME_Normalize :: "T_Timevalue \<Rightarrow> T_Timevalue" where
  "TIME_Normalize t =
     (let (s1, m1) =
        (if msec t \<ge> 1000 then (sec t + msec t sdiv 1000, msec t smod 1000)
         else if msec t \<le> -1000 then norm_down (sec t) (msec t)
         else (sec t, msec t))
      in if s1 \<ge> 1 \<and> m1 < 0 then \<lparr>sec = s1 - 1, msec = m1 + 1000\<rparr>
         else if s1 < 0 \<and> m1 > 0 then \<lparr>sec = s1 + 1, msec = m1 - 1000\<rparr>
         else \<lparr>sec = s1, msec = m1\<rparr>)"

definition TIME_CmpTimestamp :: "T_Timestamp \<Rightarrow> T_Timestamp \<Rightarrow> int" where
  "TIME_CmpTimestamp t1 t2 = (if t1 < t2 then -1 else if t1 > t2 then 1 else 0)"

definition TIME_AddTimestamp :: "T_Timestamp \<Rightarrow> T_Timestamp \<Rightarrow> T_Timestamp" where
  "TIME_AddTimestamp t1 t2 = t1 + t2"

definition TIME_AddTimestamp32 :: "T_Timestamp \<Rightarrow> 32 word \<Rightarrow> T_Timestamp" where
  "TIME_AddTimestamp32 t1 t2 = t1 + ucast t2"

definition TIME_SubTimestamp :: "T_Timestamp \<Rightarrow> T_Timestamp \<Rightarrow> T_Timestamp" where
  "TIME_SubTimestamp t1 t2 = t1 - t2"

definition TIME_SubTimestamp32 :: "T_Timestamp \<Rightarrow> 32 word \<Rightarrow> T_Timestamp" where
  "TIME_SubTimestamp32 t1 t2 = t1 - ucast t2"

definition TIME_DiffTimestamp32 :: "T_Timestamp \<Rightarrow> T_Timestamp \<Rightarrow> int" where
  "TIME_DiffTimestamp32 t1 t2 = sint (ucast (t2 - t1) :: 32 word)"

subsection \<open>The comparison and arithmetic macros of \<open>timestamp.h\<close>\<close>

definition TIME_VAL_MSEC :: "T_Timevalue \<Rightarrow> int" where
  "TIME_VAL_MSEC t = sec t * 1000 + msec t"

definition TIME_VAL_EQ :: "T_Timevalue \<Rightarrow> T_Timevalue \<Rightarrow> bool" where
  "TIME_VAL_EQ t1 t2 = (sec t1 = sec t2 \<and> msec t1 = msec t2)"

definition TIME_VAL_GT :: "T_Timevalue \<Rightarrow> T_Timevalue \<Rightarrow> bool" where
  "TIME_VAL_GT t1 t2 = (sec t1 > sec t2 \<or> sec t1 = sec t2 \<and> msec t1 > msec t2)"

definition TIME_VAL_GTE :: "T_Timevalue \<Rightarrow> T_Timevalue \<Rightarrow> bool" where
  "TIME_VAL_GTE t1 t2 = (TIME_VAL_GT t1 t2 \<or> TIME_VAL_EQ t1 t2)"

definition TIME_VAL_LT :: "T_Timevalue \<Rightarrow> T_Timevalue \<Rightarrow> bool" where
  "TIME_VAL_LT t1 t2 = (\<not> TIME_VAL_GTE t1 t2)"

definition TIME_VAL_LTE :: "T_Timevalue \<Rightarrow> T_Timevalue \<Rightarrow> bool" where
  "TIME_VAL_LTE t1 t2 = (\<not> TIME_VAL_GT t1 t2)"

definition TIME_VAL_ADD :: "T_Timevalue \<Rightarrow> T_Timevalue \<Rightarrow> T_Timevalue" where
  "TIME_VAL_ADD t1 t2 = TIME_Normalize \<lparr>sec = sec t1 + sec t2, msec = msec t1 + msec t2\<rparr>"

definition TIME_VAL_SUB :: "T_Timevalue \<Rightarrow> T_Timevalue \<Rightarrow> T_Timevalue" where
  "TIME_VAL_SUB t1 t2 = TIME_Normalize \<lparr>sec = sec t1 - sec t2, msec = msec t1 - msec t2\<rparr>"

lemmas time_val_defs = TIME_VAL_LT_def TIME_VAL_LTE_def TIME_VAL_GTE_def TIME_VAL_GT_def TIME_VAL_EQ_def

subsection \<open>Normal form\<close>

definition tv_normal :: "T_Timevalue \<Rightarrow> bool" where
  "tv_normal t \<longleftrightarrow> \<bar>msec t\<bar> < 1000 \<and> (1 \<le> sec t \<longrightarrow> 0 \<le> msec t) \<and> (sec t < 0 \<longrightarrow> msec t \<le> 0)"

declare norm_down.simps [simp del]

lemma norm_down_spec:
  "m \<le> -1000 \<Longrightarrow> case norm_down s m of (s', m') \<Rightarrow> s' * 1000 + m' = s * 1000 + m \<and> -1000 < m' \<and> m' \<le> 0"
proof (induction s m rule: norm_down.induct)
  case (1 s m)
  show ?case
  proof (cases "m + 1000 \<le> -1000")
    case True
    with "1.IH"[OF refl refl] show ?thesis
      by (simp add: norm_down.simps[of s m] case_prod_beta)
  next
    case False
    with "1.prems" show ?thesis by (simp add: norm_down.simps[of s m])
  qed
qed

lemma sdiv_smod_nonneg:
  "0 \<le> a \<Longrightarrow> 0 < b \<Longrightarrow> a sdiv b = a div b" "0 \<le> a \<Longrightarrow> 0 < b \<Longrightarrow> a smod b = a mod b"
  for a b :: int
  by (cases "a = 0"; simp add: signed_divide_int_def signed_modulo_int_def minus_div_mult_eq_mod)+

lemma TIME_Normalize_spec:
  "TIME_VAL_MSEC (TIME_Normalize t) = TIME_VAL_MSEC t \<and> tv_normal (TIME_Normalize t)"
proof -
  consider (up) "msec t \<ge> 1000" | (down) "msec t \<le> -1000" | (mid) "\<bar>msec t\<bar> < 1000" by linarith
  then show ?thesis
  proof cases
    case up
    define q r where "q = msec t div 1000" and "r = msec t mod 1000"
    have "msec t = 1000 * q + r" "0 \<le> r" "r < 1000" by (simp_all add: q_def r_def)
    then show ?thesis using up
      by (simp add: TIME_Normalize_def TIME_VAL_MSEC_def tv_normal_def sdiv_smod_nonneg
          q_def[symmetric] r_def[symmetric])
  next
    case down
    obtain s' m' where nd: "norm_down (sec t) (msec t) = (s', m')" by fastforce
    with norm_down_spec[OF down, of "sec t"] down show ?thesis
      by (auto simp: TIME_Normalize_def TIME_VAL_MSEC_def tv_normal_def)
  next
    case mid
    then show ?thesis by (auto simp: TIME_Normalize_def TIME_VAL_MSEC_def tv_normal_def)
  qed
qed

lemma tv_normal_whole:
  assumes "tv_normal t" "TIME_VAL_MSEC t = s * 1000"
  shows "sec t = s \<and> msec t = 0"
proof -
  have m: "\<bar>msec t\<bar> < 1000" "sec t * 1000 + msec t = s * 1000"
    using assms by (simp_all add: tv_normal_def TIME_VAL_MSEC_def)
  then have "sec t = s" by linarith
  with m show ?thesis by simp
qed

lemma tv_normal_order:
  "tv_normal a \<Longrightarrow> tv_normal b \<Longrightarrow> TIME_VAL_LT a b = (TIME_VAL_MSEC a < TIME_VAL_MSEC b)"
  unfolding tv_normal_def time_val_defs TIME_VAL_MSEC_def by linarith

subsection \<open>Elapsed time\<close>

lemma ts_freq_eq: "ts_freq = 1000000"
  by (simp add: ts_freq_def TIME_GetTimestampfreq_def TIME_SetTimestamp32_def)

lemma elapsed_msec_eq:
  assumes "uint t0 \<le> uint t1" "(uint t1 - uint t0) * 1000 < 2 ^ 63"
  shows "elapsed_msec t0 t1 = Some ((uint t1 - uint t0) div 1000)"
proof -
  have u: "uint (t1 - t0) = uint t1 - uint t0"
    using assms(1) by (simp add: uint_sub_if')
  have s: "get_elapsed t0 t1 = uint t1 - uint t0"
  proof -
    have "uint (t1 - t0) < 2 ^ 63" using assms by (simp add: u)
    then show ?thesis using assms(1)
      by (simp add: get_elapsed_def u sint_uint signed_take_bit_int_eq_self)
  qed
  have "mul64 (get_elapsed t0 t1) MSEC = Some ((uint t1 - uint t0) * 1000)"
    using assms by (simp add: mul64_def s MSEC_def in64_def)
  moreover have "(uint t1 - uint t0) * 1000 sdiv 1000000 = (uint t1 - uint t0) div 1000"
    using assms(1) by (simp add: sdiv_smod_nonneg)
  ultimately show ?thesis by (simp add: elapsed_msec_def ts_freq_eq)
qed

lemma TIME_ElapsedTime_eq:
  assumes "uint t0 \<le> uint t1" "uint t1 - uint t0 < 2 ^ 31 * 1000000"
  shows "\<exists>tv. TIME_ElapsedTime t0 t1 = Some tv \<and> TIME_VAL_MSEC tv = (uint t1 - uint t0) div 1000 \<and>
    tv_normal tv \<and> 0 \<le> sec tv"
proof -
  define e where "e = (uint t1 - uint t0) div 1000"
  have e: "0 \<le> e" "e < 2 ^ 31 * 1000" using assms by (simp_all add: e_def)
  have d: "e div 1000 < 2 ^ 31" "0 \<le> e div 1000" using e by simp_all
  then have "s32 (e div 1000) = e div 1000" "s32 (e mod 1000) = e mod 1000"
    using e by (simp_all add: s32_def)
  moreover have "elapsed_msec t0 t1 = Some e"
    using assms elapsed_msec_eq[of t0 t1] by (simp add: e_def)
  ultimately show ?thesis
    using e d by (simp add: TIME_ElapsedTime_def MSEC_def sdiv_smod_nonneg TIME_VAL_MSEC_def
        tv_normal_def e_def[symmetric])
qed

lemma TIME_GetTickCount_eq:
  assumes "0 \<le> s" "s < 2 ^ 31" "0 \<le> us" "us < 1000000"
  shows "\<exists>tv. TIME_GetTickCount (Some (s, us)) = Some (Inr tv) \<and>
    TIME_VAL_MSEC tv = s * 1000 + us div 1000 \<and> tv_normal tv"
proof -
  define c :: u64 where "c = of_int s * 1000000 + of_int us"
  have "uint c = s * 1000000 + us"
    unfolding c_def using assms by (simp add: uint_word_ariths uint_word_of_int mod_simps)
  moreover have "uint (TIME_SetTimestamp32 0 0) = 0" by (simp add: TIME_SetTimestamp32_def)
  ultimately have "\<exists>tv. TIME_ElapsedTime (TIME_SetTimestamp32 0 0) c = Some tv \<and>
      TIME_VAL_MSEC tv = (s * 1000000 + us) div 1000 \<and> tv_normal tv"
    using TIME_ElapsedTime_eq[of "TIME_SetTimestamp32 0 0" c] assms by auto
  moreover have "(s * 1000000 + us) div 1000 = s * 1000 + us div 1000"
    using div_mult_self2[of 1000 us "s * 1000"] by (simp add: algebra_simps)
  ultimately show ?thesis
    by (auto simp: TIME_GetTickCount_def TIME_GetTimestamp_def c_def)
qed

subsection \<open>Time values as a linear order\<close>

instantiation T_Timevalue_ext :: (linorder) linorder
begin

definition less_eq_T_Timevalue_ext :: "'a T_Timevalue_scheme \<Rightarrow> 'a T_Timevalue_scheme \<Rightarrow> bool" where
  "a \<le> b \<longleftrightarrow> sec a < sec b \<or> sec a = sec b \<and>
     (msec a < msec b \<or> msec a = msec b \<and> T_Timevalue.more a \<le> T_Timevalue.more b)"

definition less_T_Timevalue_ext :: "'a T_Timevalue_scheme \<Rightarrow> 'a T_Timevalue_scheme \<Rightarrow> bool" where
  "a < b \<longleftrightarrow> sec a < sec b \<or> sec a = sec b \<and>
     (msec a < msec b \<or> msec a = msec b \<and> T_Timevalue.more a < T_Timevalue.more b)"

instance
  by standard (auto simp: less_eq_T_Timevalue_ext_def less_T_Timevalue_ext_def
      intro: T_Timevalue.equality)

end

lemma TIME_VAL_order [simp]:
  "TIME_VAL_GT a b = (b < a)" "TIME_VAL_GTE a b = (b \<le> a)"
  "TIME_VAL_LT a b = (a < b)" "TIME_VAL_LTE a b = (a \<le> b)"
  by (auto simp: time_val_defs less_eq_T_Timevalue_ext_def less_T_Timevalue_ext_def)


subsection \<open>Properties\<close>

text \<open>TIME_Normalize keeps the value in milliseconds and returns a normal form: the
  milliseconds are below 1000 in size and have the sign of the seconds.\<close>

lemma TIME_Normalize_normal_form:
  "TIME_VAL_MSEC (TIME_Normalize t) = TIME_VAL_MSEC t \<and> tv_normal (TIME_Normalize t)"
  by (rule TIME_Normalize_spec)

text \<open>The comparison macros are the order of the values in milliseconds on normal forms, and
  adding and subtracting with the macros is addition and subtraction of those values.\<close>

lemma TIME_VAL_arith_order:
  assumes "tv_normal a" "tv_normal b"
  shows "TIME_VAL_LT a b = (TIME_VAL_MSEC a < TIME_VAL_MSEC b) \<and>
    TIME_VAL_LTE a b = (TIME_VAL_MSEC a \<le> TIME_VAL_MSEC b) \<and>
    TIME_VAL_MSEC (TIME_VAL_ADD a b) = TIME_VAL_MSEC a + TIME_VAL_MSEC b \<and> tv_normal (TIME_VAL_ADD a b) \<and>
    TIME_VAL_MSEC (TIME_VAL_SUB a b) = TIME_VAL_MSEC a - TIME_VAL_MSEC b \<and> tv_normal (TIME_VAL_SUB a b)"
proof -
  have "TIME_VAL_LTE a b = (\<not> TIME_VAL_LT b a)" by (auto simp: not_less)
  then show ?thesis
    using tv_normal_order[OF assms] tv_normal_order[OF assms(2,1)]
      TIME_Normalize_spec[of "\<lparr>sec = sec a + sec b, msec = msec a + msec b\<rparr>"]
      TIME_Normalize_spec[of "\<lparr>sec = sec a - sec b, msec = msec a - msec b\<rparr>"]
    by (auto simp: TIME_VAL_ADD_def TIME_VAL_SUB_def TIME_VAL_MSEC_def)
qed

lemma TIME_VAL_arith_order_witness:
  "TIME_VAL_LT \<lparr>sec = 1, msec = 900\<rparr> \<lparr>sec = 2, msec = 0\<rparr> \<and>
   TIME_VAL_MSEC (TIME_VAL_ADD \<lparr>sec = 1, msec = 900\<rparr> \<lparr>sec = 2, msec = 0\<rparr>) = 3900"
  using TIME_VAL_arith_order[of "\<lparr>sec = 1, msec = 900\<rparr>" "\<lparr>sec = 2, msec = 0\<rparr>"]
  by (simp add: tv_normal_def TIME_VAL_MSEC_def)

text \<open>TIME_ElapsedTime is the difference of two microsecond stamps in whole milliseconds, in
  normal form, for every interval below 2^31 seconds; TIME_GetTickCount is the clock in
  milliseconds.\<close>

lemma TIME_ElapsedTime_GetTickCount:
  assumes "uint t0 \<le> uint t1" "uint t1 - uint t0 < 2 ^ 31 * 1000000"
    and "0 \<le> s" "s < 2 ^ 31" "0 \<le> us" "us < 1000000"
  shows "(\<exists>tv. TIME_ElapsedTime t0 t1 = Some tv \<and> TIME_VAL_MSEC tv = (uint t1 - uint t0) div 1000 \<and> tv_normal tv) \<and>
    (\<exists>tv. TIME_GetTickCount (Some (s, us)) = Some (Inr tv) \<and>
      TIME_VAL_MSEC tv = s * 1000 + us div 1000 \<and> tv_normal tv)"
  using TIME_ElapsedTime_eq[OF assms(1,2)] TIME_GetTickCount_eq[OF assms(3-6)] by blast

lemma TIME_ElapsedTime_GetTickCount_witness:
  "\<exists>tv. TIME_ElapsedTime 5000000 7250000 = Some tv \<and> TIME_VAL_MSEC tv = 2250"
  using TIME_ElapsedTime_GetTickCount[of 5000000 7250000 1 2] by auto

end
