(* ===== verification/Timer_Heap.thy ===== *)
theory Timer_Heap
  imports Time_Stamp "HOL-Library.Multiset"
begin

section \<open>Timer heap (\<^verbatim>\<open>oslib/src/timer.c\<close>)\<close>

text \<open>
  A binary min-heap of pointers to timer entities, ordered by expiry time, with an array
  that maps the id of a scheduled timer to its heap slot and threads the free ids as a list
  of negative links. The state holds the C struct and the entities (\<open>ents\<close>, by address).

  \<^item> \<open>m_aptHeap\<close> is an array of \<open>addr option\<close>: memory from the pool is not
    initialised, and reading such a cell is undefined (\<open>None\<close>).
  \<^item> \<open>m_pPool n\<close> says whether the pool can supply \<open>n\<close> bytes; the code does not
    check the result in \<open>grow_heap\<close>.
  \<^item> \<open>LOCK_Destroy\<close> calls are returned as the list of destroyed locks; acquiring and
    releasing the lock around an operation has no effect on this state.
\<close>

record T_TimerEntity =
  m_pUsrData :: addr
  m_u32UsrId :: int
  funcHandle :: addr
  m_tTimerId :: int
  m_tTimerValue :: T_Timevalue
  m_pGLock :: addr

record T_TimerHeap =
  m_pPool :: "nat \<Rightarrow> bool"
  m_stSize :: nat
  m_stCurrSize :: nat
  m_u32PollMax :: int
  m_pLock :: addr
  m_bAutoDelLock :: bool
  m_aptHeap :: "addr option list"
  m_pTimerIds :: "int list"
  m_tTimerIdsFreeList :: int
  ents :: "addr \<Rightarrow> T_TimerEntity"

definition HEAP_PARENT :: "nat \<Rightarrow> nat" where
  "HEAP_PARENT x = (if x = 0 then 0 else (x - 1) div 2)"

definition HEAP_LEFT :: "nat \<Rightarrow> nat" where
  "HEAP_LEFT x = (x + x) + 1"

definition heap_at :: "T_TimerHeap \<Rightarrow> nat \<Rightarrow> addr option" where
  "heap_at h i = (if i < length (m_aptHeap h) then m_aptHeap h ! i else None)"

abbreviation tid :: "T_TimerHeap \<Rightarrow> addr \<Rightarrow> int" where
  "tid h e \<equiv> m_tTimerId (ents h e)"

abbreviation tval :: "T_TimerHeap \<Rightarrow> addr \<Rightarrow> T_Timevalue" where
  "tval h e \<equiv> m_tTimerValue (ents h e)"

definition upd_ent :: "T_TimerHeap \<Rightarrow> addr \<Rightarrow> (T_TimerEntity \<Rightarrow> T_TimerEntity) \<Rightarrow> T_TimerHeap" where
  "upd_ent h e f = h\<lparr>ents := (ents h)(e := f (ents h e))\<rparr>"

definition ids_get :: "T_TimerHeap \<Rightarrow> int \<Rightarrow> int option" where
  "ids_get h i = (if 0 \<le> i \<and> nat i < length (m_pTimerIds h) then Some (m_pTimerIds h ! nat i) else None)"

definition ids_set :: "T_TimerHeap \<Rightarrow> int \<Rightarrow> int \<Rightarrow> T_TimerHeap option" where
  "ids_set h i v =
     (if 0 \<le> i \<and> nat i < length (m_pTimerIds h)
      then Some (h\<lparr>m_pTimerIds := (m_pTimerIds h)[nat i := v]\<rparr>) else None)"

definition copy_node :: "T_TimerHeap \<Rightarrow> nat \<Rightarrow> addr \<Rightarrow> T_TimerHeap option" where
  "copy_node h slot moved =
     (if slot < length (m_aptHeap h)
      then ids_set (h\<lparr>m_aptHeap := (m_aptHeap h)[slot := Some moved]\<rparr>) (tid h moved) (int slot)
      else None)"

definition pop_freelist :: "T_TimerHeap \<Rightarrow> (T_TimerHeap \<times> int) option" where
  "pop_freelist h =
     do {
       let new_id = m_tTimerIdsFreeList h;
       nxt \<leftarrow> ids_get h new_id;
       Some (h\<lparr>m_tTimerIdsFreeList := - nxt\<rparr>, new_id)
     }"

definition push_freelist :: "T_TimerHeap \<Rightarrow> int \<Rightarrow> T_TimerHeap option" where
  "push_freelist h old_id =
     do {
       h' \<leftarrow> ids_set h old_id (- m_tTimerIdsFreeList h);
       Some (h'\<lparr>m_tTimerIdsFreeList := old_id\<rparr>)
     }"

lemma copy_node_cur: "copy_node h s e = Some h' \<Longrightarrow> m_stCurrSize h' = m_stCurrSize h"
  by (auto simp: copy_node_def ids_set_def split: if_splits)

function reheap_down :: "T_TimerHeap \<Rightarrow> addr \<Rightarrow> nat \<Rightarrow> nat \<Rightarrow> T_TimerHeap option" where
  "reheap_down h moved slot child =
     (if child < m_stCurrSize h then
        do {
          a \<leftarrow> heap_at h child;
          right_less \<leftarrow> (if child + 1 < m_stCurrSize h
            then do { b \<leftarrow> heap_at h (child + 1); Some (TIME_VAL_LT (tval h b) (tval h a)) }
            else Some False);
          let c = (if right_less then child + 1 else child);
          x \<leftarrow> heap_at h c;
          if TIME_VAL_LT (tval h x) (tval h moved)
          then do { h' \<leftarrow> copy_node h slot x; reheap_down h' moved c (HEAP_LEFT c) }
          else copy_node h slot moved
        }
      else copy_node h slot moved)"
  by pat_completeness auto
termination
  by (relation "measure (\<lambda>(h, moved, slot, child). m_stCurrSize h - child)")
    (auto simp: copy_node_cur HEAP_LEFT_def)


function reheap_up :: "T_TimerHeap \<Rightarrow> addr \<Rightarrow> nat \<Rightarrow> nat \<Rightarrow> T_TimerHeap option" where
  "reheap_up h moved slot par =
     (if slot > 0 then
        do {
          x \<leftarrow> heap_at h par;
          if TIME_VAL_LT (tval h moved) (tval h x)
          then do { h' \<leftarrow> copy_node h slot x; reheap_up h' moved par (HEAP_PARENT par) }
          else copy_node h slot moved
        }
      else copy_node h slot moved)"
  by pat_completeness auto
termination
  by (relation "measure (\<lambda>(h, moved, slot, par). if slot = 0 then 0 else par + 1)")
    (auto simp: HEAP_PARENT_def)

declare reheap_down.simps [simp del] reheap_up.simps [simp del]

definition remove_node :: "T_TimerHeap \<Rightarrow> nat \<Rightarrow> (T_TimerHeap \<times> addr) option" where
  "remove_node h slot =
     do {
       pNode \<leftarrow> heap_at h slot;
       h1 \<leftarrow> push_freelist h (tid h pNode);
       let h2 = h1\<lparr>m_stCurrSize := sub32 (m_stCurrSize h1) 1\<rparr>;
       let h3 = upd_ent h2 pNode (\<lambda>e. e\<lparr>m_tTimerId := -1\<rparr>);
       if slot < m_stCurrSize h3 then
         do {
           moved \<leftarrow> heap_at h3 (m_stCurrSize h3);
           h4 \<leftarrow> copy_node h3 slot moved;
           let stParent = HEAP_PARENT slot;
           x \<leftarrow> heap_at h4 stParent;
           h5 \<leftarrow> (if TIME_VAL_GTE (tval h4 moved) (tval h4 x)
                  then reheap_down h4 moved slot (HEAP_LEFT slot)
                  else reheap_up h4 moved slot stParent);
           Some (h5, pNode)
         }
       else Some (h3, pNode)
     }"

text \<open>The request in bytes, with 4-byte pointers and ids, decides whether the pool can grow.\<close>

definition grow_heap :: "T_TimerHeap \<Rightarrow> T_TimerHeap option" where
  "grow_heap h =
     (let stSize = m_stSize h * 2 in
      do {
        guard (m_pPool h (4 * stSize));
        guard (m_stSize h \<le> length (m_aptHeap h));
        let new_heap = take (m_stSize h) (m_aptHeap h) @ replicate (stSize - m_stSize h) None;
        guard (m_stSize h \<le> length (m_pTimerIds h));
        let new_ids = take (m_stSize h) (m_pTimerIds h) @
          map (\<lambda>i. - int (i + 1)) [m_stSize h..<stSize];
        Some (h\<lparr>m_aptHeap := new_heap, m_pTimerIds := new_ids, m_stSize := stSize\<rparr>)
      })"

definition insert_node :: "T_TimerHeap \<Rightarrow> addr \<Rightarrow> T_TimerHeap option" where
  "insert_node h pNode =
     do {
       h1 \<leftarrow> (if m_stCurrSize h + 2 \<ge> m_stSize h then grow_heap h else Some h);
       h2 \<leftarrow> reheap_up h1 pNode (m_stCurrSize h1) (HEAP_PARENT (m_stCurrSize h1));
       Some (h2\<lparr>m_stCurrSize := m_stCurrSize h2 + 1\<rparr>)
     }"

definition schedule_entry :: "T_TimerHeap \<Rightarrow> addr \<Rightarrow> T_Timevalue \<Rightarrow> (T_TimerHeap \<times> int) option" where
  "schedule_entry h pNode pTime =
     (if m_stCurrSize h < m_stSize h then
        do {
          (h1, i) \<leftarrow> pop_freelist h;
          let h2 = upd_ent h1 pNode (\<lambda>e. e\<lparr>m_tTimerId := i, m_tTimerValue := pTime\<rparr>);
          h3 \<leftarrow> insert_node h2 pNode;
          Some (h3, 0)
        }
      else Some (h, -1))"

text \<open>The flag word is the set of its bits.\<close>

definition F_DONT_CALL :: nat where "F_DONT_CALL = 1"
definition F_DONT_ASSERT :: nat where "F_DONT_ASSERT = 2"
definition F_SET_ID :: nat where "F_SET_ID = 4"

text \<open>
  \<open>cancel\<close>: the failing \<open>assert\<close> aborts (\<open>None\<close>), and so does the call of the heap's
  \<open>funcCallbck\<close>, a field that no function of the file ever sets.
\<close>

definition cancel :: "T_TimerHeap \<Rightarrow> addr \<Rightarrow> nat set \<Rightarrow> (T_TimerHeap \<times> int) option" where
  "cancel h pNode flags =
     (let clear = (\<lambda>h. upd_ent h pNode (\<lambda>e. e\<lparr>m_tTimerId := -1\<rparr>)) in
      if tid h pNode < 0 \<or> nat (tid h pNode) > m_stSize h then Some (clear h, 0)
      else do {
        slot \<leftarrow> ids_get h (tid h pNode);
        if slot < 0 then Some (clear h, 0)
        else do {
          x \<leftarrow> heap_at h (nat slot);
          if pNode \<noteq> x then do { guard (F_DONT_ASSERT \<in> flags); Some (clear h, 0) }
          else do {
            (h', n) \<leftarrow> remove_node h (nat slot);
            guard (F_DONT_CALL \<in> flags);
            Some (h', 1)
          }
        }
      })"

definition TIMER_HeapEstimateSize :: "nat \<Rightarrow> nat" where
  "TIMER_HeapEstimateSize u32Count = 40 + (u32Count + 2) * (4 + 4) + 132"

definition DEFAULT_MAX_TIMED_OUT_PER_POLL :: int where "DEFAULT_MAX_TIMED_OUT_PER_POLL = 64"

text \<open>\<open>TIMER_HeapCreate\<close> returns the status and the heap; \<open>sizeof(T_TimerHeap)\<close> is 40 here.\<close>

definition TIMER_HeapCreate :: "(nat \<Rightarrow> bool) \<Rightarrow> nat \<Rightarrow> (addr \<Rightarrow> T_TimerEntity) \<Rightarrow> int + T_TimerHeap" where
  "TIMER_HeapCreate pool stSize0 es =
     (let stSize = stSize0 + 2 in
      if \<not> pool 40 then Inl EO_NOMEM
      else if \<not> pool (4 * stSize) then Inl EO_NOMEM
      else Inr \<lparr>m_pPool = pool, m_stSize = stSize, m_stCurrSize = 0,
        m_u32PollMax = DEFAULT_MAX_TIMED_OUT_PER_POLL, m_pLock = 0, m_bAutoDelLock = False,
        m_aptHeap = replicate stSize None, m_pTimerIds = map (\<lambda>i. - int (i + 1)) [0..<stSize],
        m_tTimerIdsFreeList = 1, ents = es\<rparr>)"

definition TIMER_HeapDestroy :: "T_TimerHeap \<Rightarrow> T_TimerHeap \<times> addr list" where
  "TIMER_HeapDestroy h =
     (if m_pLock h \<noteq> 0 \<and> m_bAutoDelLock h then (h\<lparr>m_pLock := 0\<rparr>, [m_pLock h]) else (h, []))"

definition TIMER_HeapSetLock :: "T_TimerHeap \<Rightarrow> addr \<Rightarrow> bool \<Rightarrow> T_TimerHeap \<times> addr list" where
  "TIMER_HeapSetLock h pLock bAutoDel =
     (h\<lparr>m_pLock := pLock, m_bAutoDelLock := bAutoDel\<rparr>,
      if m_pLock h \<noteq> 0 \<and> m_bAutoDelLock h then [m_pLock h] else [])"

definition TIMER_HeapSetPollMax :: "T_TimerHeap \<Rightarrow> int \<Rightarrow> T_TimerHeap \<times> int" where
  "TIMER_HeapSetPollMax h u32Count = (h\<lparr>m_u32PollMax := u32Count\<rparr>, m_u32PollMax h)"

definition TIMER_EntityInit :: "T_TimerHeap \<Rightarrow> addr \<Rightarrow> int \<Rightarrow> addr \<Rightarrow> addr \<Rightarrow> T_TimerHeap option" where
  "TIMER_EntityInit h pNode u32id pUserData pHandle =
     do {
       guard (pNode \<noteq> 0 \<and> pHandle \<noteq> 0);
       Some (upd_ent h pNode (\<lambda>e. e\<lparr>m_tTimerId := -1, m_u32UsrId := u32id, m_pUsrData := pUserData,
         funcHandle := pHandle, m_pGLock := 0\<rparr>))
     }"

definition TIMER_IsEntityRunning :: "T_TimerHeap \<Rightarrow> addr \<Rightarrow> bool" where
  "TIMER_IsEntityRunning h pNode = (tid h pNode \<ge> 1)"

definition schedule_w_grp_lock ::
  "(int \<times> int) option \<Rightarrow> T_TimerHeap \<Rightarrow> addr \<Rightarrow> T_Timevalue \<Rightarrow> bool \<Rightarrow> int \<Rightarrow> addr \<Rightarrow> (T_TimerHeap \<times> int) option" where
  "schedule_w_grp_lock now h pNode pDelay u8SetId u32Id pGLock =
     (if pNode = 0 then Some (h, EO_INVAL)
      else if funcHandle (ents h pNode) = 0 then Some (h, EO_INVAL)
      else if \<not> tid h pNode < 1 then Some (h, EO_INVALIDOP)
      else do {
        tick \<leftarrow> TIME_GetTickCount now;
        tExpires \<leftarrow> (case tick of Inl _ \<Rightarrow> None | Inr tv \<Rightarrow> Some (TIME_VAL_ADD tv pDelay));
        (h1, u32Ret) \<leftarrow> schedule_entry h pNode tExpires;
        Some (if u32Ret = EO_SUCCESS
              then upd_ent h1 pNode (\<lambda>e. e\<lparr>m_u32UsrId := (if u8SetId then u32Id else m_u32UsrId e),
                m_pGLock := pGLock\<rparr>)
              else h1, u32Ret)
      })"

definition TIMER_HeapSchedule ::
  "(int \<times> int) option \<Rightarrow> T_TimerHeap \<Rightarrow> addr \<Rightarrow> T_Timevalue \<Rightarrow> (T_TimerHeap \<times> int) option" where
  "TIMER_HeapSchedule now h pNode pDelay = schedule_w_grp_lock now h pNode pDelay False 1 0"

definition TIMER_HeapScheduleGrpLock ::
  "(int \<times> int) option \<Rightarrow> T_TimerHeap \<Rightarrow> addr \<Rightarrow> T_Timevalue \<Rightarrow> int \<Rightarrow> addr \<Rightarrow> (T_TimerHeap \<times> int) option" where
  "TIMER_HeapScheduleGrpLock now h pNode pDelay u32Id pGLock =
     schedule_w_grp_lock now h pNode pDelay True u32Id pGLock"

definition cancel_timer :: "T_TimerHeap \<Rightarrow> addr \<Rightarrow> nat set \<Rightarrow> int \<Rightarrow> (T_TimerHeap \<times> int) option" where
  "cancel_timer h pNode flags u32Id =
     (if pNode = 0 then Some (h, EO_INVAL)
      else do {
        (h1, u32Count) \<leftarrow> cancel h pNode (insert F_DONT_CALL flags);
        Some (if F_SET_ID \<in> flags then upd_ent h1 pNode (\<lambda>e. e\<lparr>m_u32UsrId := u32Id\<rparr>) else h1,
              u32Count)
      })"

definition TIMER_EntityCancel :: "T_TimerHeap \<Rightarrow> addr \<Rightarrow> (T_TimerHeap \<times> int) option" where
  "TIMER_EntityCancel h pNode = cancel_timer h pNode {} 0"

definition TIMER_EntityCancelIfActive :: "T_TimerHeap \<Rightarrow> addr \<Rightarrow> int \<Rightarrow> (T_TimerHeap \<times> int) option" where
  "TIMER_EntityCancelIfActive h pNode u32Id = cancel_timer h pNode {F_SET_ID, F_DONT_ASSERT} u32Id"


text \<open>
  \<open>TIMER_HeapPoll\<close> calls the handlers of the application: \<open>cb node\<close> is the effect of the
  handler of \<open>node\<close> on the heap, arbitrary code that may schedule and cancel timers. The
  loop re-reads the heap and the poll limit each round, so it need not end for every handler
  (\<open>None\<close>). The list of the nodes that fired is an addition of the model.
\<close>

partial_function (option) poll_loop ::
  "(addr \<Rightarrow> T_TimerHeap \<Rightarrow> T_TimerHeap option) \<Rightarrow> T_Timevalue \<Rightarrow> T_TimerHeap \<Rightarrow> int \<Rightarrow> addr list \<Rightarrow>
   (T_TimerHeap \<times> int \<times> addr list) option" where
  "poll_loop cb now h u32Count fired =
     (if m_stCurrSize h \<noteq> 0 then
        do {
          x \<leftarrow> heap_at h 0;
          if TIME_VAL_LTE (tval h x) now \<and> u32Count < m_u32PollMax h then
            do {
              (h1, node) \<leftarrow> remove_node h 0;
              let h2 = upd_ent h1 node (\<lambda>e. e\<lparr>m_pGLock := 0\<rparr>);
              h3 \<leftarrow> (if funcHandle (ents h2 node) \<noteq> 0 then cb node h2 else Some h2);
              poll_loop cb now h3 (u32Count + 1) (fired @ [node])
            }
          else Some (h, u32Count, fired)
        }
      else Some (h, u32Count, fired))"

definition C_MAXINT32 :: int where "C_MAXINT32 = 0x7fffffff"

text \<open>
  \<open>want\<close>: the caller passed a \<open>next_delay\<close> pointer. The results are the heap, the return
  value, the delay written through the pointer and the fired nodes.
\<close>

definition TIMER_HeapPoll ::
  "(addr \<Rightarrow> T_TimerHeap \<Rightarrow> T_TimerHeap option) \<Rightarrow> (int \<times> int) option \<Rightarrow> T_TimerHeap \<Rightarrow> bool \<Rightarrow>
   (T_TimerHeap \<times> int \<times> T_Timevalue option \<times> addr list) option" where
  "TIMER_HeapPoll cb clock h want =
     (if m_stCurrSize h = 0 \<and> want
      then Some (h, -1, Some \<lparr>sec = C_MAXINT32, msec = C_MAXINT32\<rparr>, [])
      else do {
        tick \<leftarrow> TIME_GetTickCount clock;
        now \<leftarrow> (case tick of Inl _ \<Rightarrow> None | Inr tv \<Rightarrow> Some tv);
        (h', u32Count, fired) \<leftarrow> poll_loop cb now h 0 [];
        if m_stCurrSize h' \<noteq> 0 \<and> want then
          do {
            x \<leftarrow> heap_at h' 0;
            let d = TIME_VAL_SUB (tval h' x) now;
            Some (h', u32Count,
                  Some (if sec d < 0 \<or> msec d < 0 then \<lparr>sec = 0, msec = 0\<rparr> else d), fired)
          }
        else Some (h', u32Count,
                   if want then Some \<lparr>sec = C_MAXINT32, msec = C_MAXINT32\<rparr> else None, fired)
      })"

definition TIMER_HeapGetCount :: "T_TimerHeap \<Rightarrow> nat" where
  "TIMER_HeapGetCount h = m_stCurrSize h"

definition TIMER_HeapEarliestTime :: "T_TimerHeap \<Rightarrow> T_Timevalue option" where
  "TIMER_HeapEarliestTime h =
     do { guard (m_stCurrSize h \<noteq> 0); x \<leftarrow> heap_at h 0; Some (tval h x) }"

subsection \<open>Slots and ids\<close>

text \<open>
  \<open>filled h n E\<close>: the first \<open>n\<close> slots hold the entities \<open>E\<close>, and the id of each
  names its slot. \<open>holed h n s x E\<close>: the same, but for a hole at slot \<open>s\<close> that is to
  receive \<open>x\<close>; this is the state inside the two sift loops.
\<close>

definition id_names :: "T_TimerHeap \<Rightarrow> addr \<Rightarrow> nat \<Rightarrow> bool" where
  "id_names h e i \<longleftrightarrow> 1 \<le> tid h e \<and> nat (tid h e) < m_stSize h \<and> m_pTimerIds h ! nat (tid h e) = int i"

definition arrays_ok :: "T_TimerHeap \<Rightarrow> nat \<Rightarrow> bool" where
  "arrays_ok h n \<longleftrightarrow> length (m_aptHeap h) = m_stSize h \<and> length (m_pTimerIds h) = m_stSize h \<and> n \<le> m_stSize h"

definition filled :: "T_TimerHeap \<Rightarrow> nat \<Rightarrow> addr set \<Rightarrow> bool" where
  "filled h n E \<longleftrightarrow> arrays_ok h n \<and> inj_on (tid h) E \<and>
     (\<forall>i<n. \<exists>e\<in>E. m_aptHeap h ! i = Some e \<and> id_names h e i) \<and>
     (\<forall>e\<in>E. \<exists>i<n. m_aptHeap h ! i = Some e)"

definition holed :: "T_TimerHeap \<Rightarrow> nat \<Rightarrow> nat \<Rightarrow> addr \<Rightarrow> addr set \<Rightarrow> bool" where
  "holed h n s x E \<longleftrightarrow> arrays_ok h n \<and> s < n \<and> inj_on (tid h) E \<and>
     x \<in> E \<and> 1 \<le> tid h x \<and> nat (tid h x) < m_stSize h \<and>
     (\<forall>i<n. i \<noteq> s \<longrightarrow> (\<exists>e\<in>E. e \<noteq> x \<and> m_aptHeap h ! i = Some e \<and> id_names h e i)) \<and>
     (\<forall>e\<in>E. e \<noteq> x \<longrightarrow> (\<exists>i<n. i \<noteq> s \<and> m_aptHeap h ! i = Some e))"

text \<open>What the sift loops change: the two arrays, and in the id array only ids of \<open>E\<close>.\<close>

definition arrays_frame :: "T_TimerHeap \<Rightarrow> addr set \<Rightarrow> T_TimerHeap \<Rightarrow> bool" where
  "arrays_frame h E h' \<longleftrightarrow>
     (\<exists>H I. h' = h\<lparr>m_aptHeap := H, m_pTimerIds := I\<rparr>) \<and>
     (\<forall>k. k \<notin> (\<lambda>e. nat (tid h e)) ` E \<longrightarrow> m_pTimerIds h' ! k = m_pTimerIds h ! k)"

lemma arrays_frame_refl: "arrays_frame h E h"
  unfolding arrays_frame_def by (intro conjI exI[of _ "m_aptHeap h"] exI[of _ "m_pTimerIds h"]) auto

lemma arrays_frame_ents:
  "arrays_frame h E h' \<Longrightarrow> ents h' = ents h \<and> m_stSize h' = m_stSize h \<and> m_stCurrSize h' = m_stCurrSize h \<and>
    m_tTimerIdsFreeList h' = m_tTimerIdsFreeList h \<and> m_pPool h' = m_pPool h \<and>
    m_u32PollMax h' = m_u32PollMax h"
  by (auto simp: arrays_frame_def)

lemma arrays_frame_trans: "arrays_frame h E h1 \<Longrightarrow> arrays_frame h1 E h2 \<Longrightarrow> arrays_frame h E h2"
  unfolding arrays_frame_def by (auto 4 3)

lemma copy_node_eq:
  assumes "arrays_ok h n" "s < n" "1 \<le> tid h x" "nat (tid h x) < m_stSize h"
  shows "copy_node h s x = Some (h\<lparr>m_aptHeap := (m_aptHeap h)[s := Some x],
    m_pTimerIds := (m_pTimerIds h)[nat (tid h x) := int s]\<rparr>)"
  using assms by (simp add: copy_node_def ids_set_def arrays_ok_def)

lemma id_inj:
  assumes "inj_on (tid h) E" "e \<in> E" "x \<in> E" "1 \<le> tid h e" "1 \<le> tid h x"
  shows "nat (tid h e) = nat (tid h x) \<longleftrightarrow> e = x"
  using assms by (auto simp: inj_on_def nat_eq_iff)


lemma holed_elem:
  assumes "holed h n s x E" "i < n" "i \<noteq> s"
  obtains e where "e \<in> E" "e \<noteq> x" "m_aptHeap h ! i = Some e" "id_names h e i" "heap_at h i = Some e"
  using assms by (auto simp: holed_def arrays_ok_def heap_at_def)

lemma copy_node_moves_hole:
  assumes h: "holed h n s x E" and p: "p < n" "p \<noteq> s" and y: "heap_at h p = Some y"
  shows "\<exists>h'. copy_node h s y = Some h' \<and> holed h' n p x E \<and> arrays_frame h E h' \<and>
    m_aptHeap h' = (m_aptHeap h)[s := Some y]"
proof -
  let ?h = "h\<lparr>m_aptHeap := (m_aptHeap h)[s := Some y], m_pTimerIds := (m_pTimerIds h)[nat (tid h y) := int s]\<rparr>"
  from holed_elem[OF h p] y have yE: "y \<in> E" "y \<noteq> x" "m_aptHeap h ! p = Some y" "id_names h y p"
    by auto
  from h have ok: "arrays_ok h n" "s < n" and inj: "inj_on (tid h) E" by (auto simp: holed_def)
  have eq: "copy_node h s y = Some ?h"
    using yE ok by (intro copy_node_eq) (auto simp: id_names_def)
  have "\<exists>e\<in>E. e \<noteq> x \<and> m_aptHeap ?h ! i = Some e \<and> id_names ?h e i" if i: "i < n" "i \<noteq> p" for i
  proof (cases "i = s")
    case True
    then show ?thesis using yE ok by (intro bexI[of _ y]) (auto simp: id_names_def arrays_ok_def)
  next
    case False
    obtain e where e: "e \<in> E" "e \<noteq> x" "m_aptHeap h ! i = Some e" "id_names h e i"
      using holed_elem[OF h i(1) False] by blast
    have "e \<noteq> y" using e(4) yE(4) i(2) by (auto simp: id_names_def)
    then have "nat (tid h e) \<noteq> nat (tid h y)"
      using id_inj[OF inj e(1) yE(1)] e(4) yE(4) by (auto simp: id_names_def)
    with e False show ?thesis by (intro bexI[of _ e]) (auto simp: id_names_def)
  qed
  moreover have "\<exists>i<n. i \<noteq> p \<and> m_aptHeap ?h ! i = Some e" if "e \<in> E" "e \<noteq> x" for e
  proof (cases "e = y")
    case True
    then show ?thesis using ok p by (intro exI[of _ s]) (auto simp: arrays_ok_def)
  next
    case False
    from h that obtain i where "i < n" "i \<noteq> s" "m_aptHeap h ! i = Some e" by (auto simp: holed_def)
    with False yE(3) show ?thesis by (intro exI[of _ i]) auto
  qed
  ultimately have "holed ?h n p x E"
    using h p unfolding holed_def by (simp add: arrays_ok_def)
  moreover have "arrays_frame h E ?h"
    using yE(1) unfolding arrays_frame_def by (auto intro!: nth_list_update_neq)
  ultimately show ?thesis using eq by auto
qed

lemma copy_node_fills_hole:
  assumes h: "holed h n s x E"
  shows "\<exists>h'. copy_node h s x = Some h' \<and> filled h' n E \<and> arrays_frame h E h' \<and>
    m_aptHeap h' = (m_aptHeap h)[s := Some x]"
proof -
  let ?h = "h\<lparr>m_aptHeap := (m_aptHeap h)[s := Some x], m_pTimerIds := (m_pTimerIds h)[nat (tid h x) := int s]\<rparr>"
  from h have ok: "arrays_ok h n" "s < n" and inj: "inj_on (tid h) E"
    and x: "x \<in> E" "1 \<le> tid h x" "nat (tid h x) < m_stSize h" by (auto simp: holed_def)
  have eq: "copy_node h s x = Some ?h" using x ok by (intro copy_node_eq)
  have "\<exists>e\<in>E. m_aptHeap ?h ! i = Some e \<and> id_names ?h e i" if i: "i < n" for i
  proof (cases "i = s")
    case True
    then show ?thesis using x ok by (intro bexI[of _ x]) (auto simp: id_names_def arrays_ok_def)
  next
    case False
    obtain e where e: "e \<in> E" "e \<noteq> x" "m_aptHeap h ! i = Some e" "id_names h e i"
      using holed_elem[OF h i False] by blast
    then have "nat (tid h e) \<noteq> nat (tid h x)"
      using id_inj[OF inj e(1) x(1)] x by (auto simp: id_names_def)
    with e False show ?thesis by (intro bexI[of _ e]) (auto simp: id_names_def)
  qed
  moreover have "\<exists>i<n. m_aptHeap ?h ! i = Some e" if "e \<in> E" for e
  proof (cases "e = x")
    case True
    then show ?thesis using ok by (intro exI[of _ s]) (auto simp: arrays_ok_def)
  next
    case False
    with h that obtain i where "i < n" "i \<noteq> s" "m_aptHeap h ! i = Some e" by (auto simp: holed_def)
    then show ?thesis by (intro exI[of _ i]) auto
  qed
  ultimately have "filled ?h n E" using h unfolding filled_def holed_def by (simp add: arrays_ok_def)
  moreover have "arrays_frame h E ?h"
    using x(1) unfolding arrays_frame_def by (auto intro!: nth_list_update_neq)
  ultimately show ?thesis using eq by auto
qed

subsection \<open>Heap order\<close>

text \<open>The expiry at slot \<open>i\<close>, with \<open>x\<close> standing in the hole \<open>s\<close>.\<close>

definition hval :: "T_TimerHeap \<Rightarrow> nat \<Rightarrow> addr \<Rightarrow> nat \<Rightarrow> T_Timevalue" where
  "hval h s x i = tval h (if i = s then x else the (m_aptHeap h ! i))"

definition heap_ordered :: "T_TimerHeap \<Rightarrow> nat \<Rightarrow> bool" where
  "heap_ordered h n \<longleftrightarrow>
     (\<forall>i<n. 0 < i \<longrightarrow> tval h (the (m_aptHeap h ! HEAP_PARENT i)) \<le> tval h (the (m_aptHeap h ! i)))"

definition ordered_up :: "T_TimerHeap \<Rightarrow> nat \<Rightarrow> nat \<Rightarrow> addr \<Rightarrow> bool" where
  "ordered_up h n s x \<longleftrightarrow>
     (\<forall>i<n. 0 < i \<longrightarrow> i \<noteq> s \<longrightarrow> hval h s x (HEAP_PARENT i) \<le> hval h s x i) \<and>
     (\<forall>i<n. 0 < i \<longrightarrow> HEAP_PARENT i = s \<longrightarrow> 0 < s \<longrightarrow> hval h s x (HEAP_PARENT s) \<le> hval h s x i)"

definition ordered_down :: "T_TimerHeap \<Rightarrow> nat \<Rightarrow> nat \<Rightarrow> addr \<Rightarrow> bool" where
  "ordered_down h n s x \<longleftrightarrow>
     (\<forall>i<n. 0 < i \<longrightarrow> HEAP_PARENT i \<noteq> s \<longrightarrow> hval h s x (HEAP_PARENT i) \<le> hval h s x i) \<and>
     (\<forall>i<n. 0 < i \<longrightarrow> HEAP_PARENT i = s \<longrightarrow> 0 < s \<longrightarrow> hval h s x (HEAP_PARENT s) \<le> hval h s x i)"

lemma parent_less: "0 < i \<Longrightarrow> HEAP_PARENT i < i"
  by (auto simp: HEAP_PARENT_def)

lemma children: "HEAP_PARENT i = s \<Longrightarrow> 0 < i \<Longrightarrow> i = HEAP_LEFT s \<or> i = HEAP_LEFT s + 1"
  unfolding HEAP_PARENT_def HEAP_LEFT_def by (simp split: if_splits; presburger)

lemma parent_child [simp]:
  "HEAP_PARENT (HEAP_LEFT s) = s" "HEAP_PARENT (HEAP_LEFT s + 1) = s" "HEAP_PARENT (Suc (HEAP_LEFT s)) = s"
  by (auto simp: HEAP_PARENT_def HEAP_LEFT_def)

lemma left_gt: "s < HEAP_LEFT s"
  by (simp add: HEAP_LEFT_def)

lemma ordered_filled:
  assumes "m_aptHeap h' = (m_aptHeap h)[s := Some x]" "ents h' = ents h" "s < length (m_aptHeap h)"
    and "\<And>i. i < n \<Longrightarrow> 0 < i \<Longrightarrow> hval h s x (HEAP_PARENT i) \<le> hval h s x i"
  shows "heap_ordered h' n"
proof -
  have "tval h' (the (m_aptHeap h' ! i)) = hval h s x i" for i
    using assms(1-3) by (simp add: hval_def nth_list_update)
  with assms(4) show ?thesis by (simp add: heap_ordered_def)
qed

lemma hval_moved:
  assumes "m_aptHeap h' = (m_aptHeap h)[s := Some y]" "ents h' = ents h" "s < length (m_aptHeap h)"
    and "p \<noteq> s" "m_aptHeap h ! p = Some y"
  shows "hval h' p x i = (if i = p then tval h x else if i = s then tval h y else hval h s x i)"
    "hval h s x p = tval h y" "hval h s x s = tval h x"
  using assms by (auto simp: hval_def nth_list_update)


lemma ordered_up_step:
  assumes o: "ordered_up h n s x" and lt: "tval h x < tval h y"
    and s: "0 < s" "s < n" "p = HEAP_PARENT s" "m_aptHeap h ! p = Some y" "s < length (m_aptHeap h)"
    and h': "m_aptHeap h' = (m_aptHeap h)[s := Some y]" "ents h' = ents h"
  shows "ordered_up h' n p x"
proof -
  have ps: "p < s" "p \<noteq> s" using s parent_less[of s] by auto
  note v = hval_moved[OF h' s(5) ps(2) s(4)]
  have o1: "hval h s x (HEAP_PARENT i) \<le> hval h s x i" if "i < n" "0 < i" "i \<noteq> s" for i
    using o that by (auto simp: ordered_up_def)
  have o2: "tval h y \<le> hval h s x i" if "i < n" "0 < i" "HEAP_PARENT i = s" for i
    using o that s v(2) by (auto simp: ordered_up_def)
  have n1: "hval h' p x (HEAP_PARENT i) \<le> hval h' p x i" if i: "i < n" "0 < i" "i \<noteq> p" for i
  proof (cases "i = s")
    case True
    then show ?thesis using lt ps by (simp add: v(1) s(3)[symmetric])
  next
    case False
    have "HEAP_PARENT i = p \<Longrightarrow> tval h x \<le> hval h s x i"
      using o1[OF i(1,2) False] v(2) lt by auto
    moreover have "HEAP_PARENT i = s \<Longrightarrow> tval h y \<le> hval h s x i" using o2 i by auto
    ultimately show ?thesis using o1[OF i(1,2) False] False i(3) by (auto simp: v(1))
  qed
  have n2: "hval h' p x (HEAP_PARENT p) \<le> hval h' p x i" if i: "i < n" "0 < i" "HEAP_PARENT i = p" "0 < p" for i
  proof -
    have pp: "HEAP_PARENT p \<noteq> p" "HEAP_PARENT p \<noteq> s" using parent_less[of p] i(4) ps by auto
    have a: "hval h s x (HEAP_PARENT p) \<le> tval h y" using o1[of p] i(4) ps s(2) v(2) by auto
    show ?thesis
    proof (cases "i = s")
      case True
      then show ?thesis using a pp ps by (simp add: v(1))
    next
      case False
      have "tval h y \<le> hval h s x i" using o1[OF i(1,2) False] i(3) v(2) by simp
      moreover have "i \<noteq> p" using parent_less[of i] i by auto
      ultimately show ?thesis using a pp False by (simp add: v(1))
    qed
  qed
  show ?thesis unfolding ordered_up_def using n1 n2 by blast
qed

lemma ordered_down_step:
  assumes o: "ordered_down h n s x" and lt: "tval h y < tval h x"
    and p: "p < n" "HEAP_PARENT p = s" "s < p" "m_aptHeap h ! p = Some y" "s < length (m_aptHeap h)"
    and small: "\<And>i. i < n \<Longrightarrow> 0 < i \<Longrightarrow> HEAP_PARENT i = s \<Longrightarrow> tval h y \<le> hval h s x i"
    and h': "m_aptHeap h' = (m_aptHeap h)[s := Some y]" "ents h' = ents h"
  shows "ordered_down h' n p x"
proof -
  have ps: "p \<noteq> s" using p by simp
  note v = hval_moved[OF h' p(5) ps p(4)]
  have o1: "hval h s x (HEAP_PARENT i) \<le> hval h s x i" if "i < n" "0 < i" "HEAP_PARENT i \<noteq> s" for i
    using o that by (auto simp: ordered_down_def)
  have up: "0 < s \<Longrightarrow> hval h s x (HEAP_PARENT s) \<le> tval h y"
    using o p v(2) by (auto simp: ordered_down_def)
  have n1: "hval h' p x (HEAP_PARENT i) \<le> hval h' p x i" if i: "i < n" "0 < i" "HEAP_PARENT i \<noteq> p" for i
  proof -
    consider "HEAP_PARENT i = s" "i = p" | "HEAP_PARENT i = s" "i \<noteq> p" | "HEAP_PARENT i \<noteq> s" by blast
    then show ?thesis
    proof cases
      case 1
      then show ?thesis using lt ps by (simp add: v(1))
    next
      case 2
      then have "i \<noteq> s" using parent_less[OF i(2)] by auto
      then show ?thesis using small[OF i(1,2) 2(1)] 2 ps by (simp add: v(1))
    next
      case 3
      then have ip: "i \<noteq> p" using p(2) by auto
      show ?thesis
      proof (cases "i = s")
        case True
        then show ?thesis using up i 3 ps by (simp add: v(1))
      next
        case False
        then show ?thesis using o1[OF i(1,2) 3] i(3) 3 ip by (simp add: v(1))
      qed
    qed
  qed
  have n2: "hval h' p x (HEAP_PARENT p) \<le> hval h' p x i" if i: "i < n" "0 < i" "HEAP_PARENT i = p" for i
  proof -
    have "p < i" using parent_less[OF i(2)] i(3) by simp
    then have "i \<noteq> p" "i \<noteq> s" using p(3) by auto
    then show ?thesis using o1[OF i(1,2)] i(3) ps p(2) v(2) by (simp add: v(1))
  qed
  show ?thesis unfolding ordered_down_def using n1 n2 by blast
qed


subsection \<open>The sift loops\<close>

definition sifted :: "T_TimerHeap \<Rightarrow> nat \<Rightarrow> addr set \<Rightarrow> T_TimerHeap \<Rightarrow> bool" where
  "sifted h n E h' \<longleftrightarrow> filled h' n E \<and> heap_ordered h' n \<and> arrays_frame h E h'"

lemma sifted_trans: "arrays_frame h E h1 \<Longrightarrow> sifted h1 n E h' \<Longrightarrow> sifted h n E h'"
  by (auto simp: sifted_def intro: arrays_frame_trans)

lemma sift_stops:
  assumes h: "holed h n s x E"
    and o: "\<And>i. i < n \<Longrightarrow> 0 < i \<Longrightarrow> hval h s x (HEAP_PARENT i) \<le> hval h s x i"
  shows "\<exists>h'. copy_node h s x = Some h' \<and> sifted h n E h'"
proof -
  obtain h' where h': "copy_node h s x = Some h'" "filled h' n E" "arrays_frame h E h'"
      "m_aptHeap h' = (m_aptHeap h)[s := Some x]"
    using copy_node_fills_hole[OF h] by blast
  have "s < length (m_aptHeap h)" using h by (auto simp: holed_def arrays_ok_def)
  then have "heap_ordered h' n"
    using ordered_filled[OF h'(4) _ _ o] arrays_frame_ents[OF h'(3)] by blast
  with h' show ?thesis by (auto simp: sifted_def)
qed

lemma reheap_up_ok:
  "holed h n s x E \<Longrightarrow> ordered_up h n s x \<Longrightarrow> p = HEAP_PARENT s \<Longrightarrow>
   \<exists>h'. reheap_up h x s p = Some h' \<and> sifted h n E h'"
proof (induction h x s p rule: reheap_up.induct)
  case (1 h x s p)
  note h = "1.prems"(1) and o = "1.prems"(2) and pp = "1.prems"(3)
  have all: "hval h s x (HEAP_PARENT i) \<le> hval h s x i"
    if "i < n" "0 < i" "i = s \<Longrightarrow> hval h s x (HEAP_PARENT s) \<le> tval h x" for i
    using o that by (cases "i = s") (auto simp: ordered_up_def hval_def)
  show ?case
  proof (cases "s > 0")
    case False
    have "reheap_up h x s p = copy_node h s x" using False by (subst reheap_up.simps) simp
    with sift_stops[OF h] all False show ?thesis by simp
  next
    case s0: True
    have b: "s < n" "p < s" using h s0 pp parent_less by (auto simp: holed_def)
    then obtain y where y: "m_aptHeap h ! p = Some y" "heap_at h p = Some y"
      using holed_elem[OF h, of p] by auto
    show ?thesis
    proof (cases "tval h x < tval h y")
      case True
      obtain h1 where h1: "copy_node h s y = Some h1" "holed h1 n p x E" "arrays_frame h E h1"
          "m_aptHeap h1 = (m_aptHeap h)[s := Some y]"
        using copy_node_moves_hole[OF h _ _ y(2)] b by auto
      have "s < length (m_aptHeap h)" using h by (auto simp: holed_def arrays_ok_def)
      then have "ordered_up h1 n p x"
        using ordered_up_step[OF o True s0 b(1) pp y(1) _ h1(4)] arrays_frame_ents[OF h1(3)] by blast
      with "1.IH"[OF s0 y(2) _ h1(1,2)] True obtain h' where
          "reheap_up h1 x p (HEAP_PARENT p) = Some h'" "sifted h1 n E h'" by auto
      with h1(1,3) True s0 y(2) show ?thesis
        by (auto simp: reheap_up.simps[of h x s p] intro: sifted_trans)
    next
      case False
      have "hval h s x (HEAP_PARENT s) \<le> tval h x" using False y b pp by (auto simp: hval_def)
      with sift_stops[OF h] all False s0 y(2) show ?thesis
        by (auto simp: reheap_up.simps[of h x s p])
    qed
  qed
qed

lemma reheap_down_ok:
  "holed h n s x E \<Longrightarrow> ordered_down h n s x \<Longrightarrow> c0 = HEAP_LEFT s \<Longrightarrow> n = m_stCurrSize h \<Longrightarrow>
   \<exists>h'. reheap_down h x s c0 = Some h' \<and> sifted h n E h'"
proof (induction h x s c0 rule: reheap_down.induct)
  case (1 h x s c0)
  note h = "1.prems"(1) and o = "1.prems"(2) and c0 = "1.prems"(3) and n = "1.prems"(4)
  have all: "hval h s x (HEAP_PARENT i) \<le> hval h s x i"
    if "i < n" "0 < i" "HEAP_PARENT i = s \<Longrightarrow> tval h x \<le> hval h s x i" for i
    using o that by (cases "HEAP_PARENT i = s") (auto simp: ordered_down_def hval_def)
  have sc: "s < c0" using left_gt c0 by simp
  show ?case
  proof (cases "c0 < n")
    case False
    have "HEAP_PARENT i \<noteq> s" if "i < n" "0 < i" for i
      using children[of i s] that False c0 by auto
    with sift_stops[OF h] all False n show ?thesis by (auto simp: reheap_down.simps[of h x s c0])
  next
    case True
    obtain a where a: "m_aptHeap h ! c0 = Some a" "heap_at h c0 = Some a"
      using holed_elem[OF h True] sc by auto
    define rl where "rl \<longleftrightarrow> c0 + 1 < n \<and> tval h (the (m_aptHeap h ! (c0 + 1))) < tval h a"
    have right: "(if c0 + 1 < n then do { b \<leftarrow> heap_at h (c0 + 1); Some (TIME_VAL_LT (tval h b) (tval h a)) }
        else Some False) = Some rl"
    proof (cases "c0 + 1 < n")
      case True
      then obtain b where "m_aptHeap h ! (c0 + 1) = Some b" "heap_at h (c0 + 1) = Some b"
        using holed_elem[OF h True] sc by auto
      then show ?thesis using True by (simp add: rl_def)
    qed (simp add: rl_def)
    define c where "c = (if rl then c0 + 1 else c0)"
    have c: "c < n" "s < c" "HEAP_PARENT c = s" "0 < c" using True sc c0 by (auto simp: c_def rl_def)
    obtain y where y: "m_aptHeap h ! c = Some y" "heap_at h c = Some y"
      using holed_elem[OF h c(1)] c(2) by auto
    have small: "tval h y \<le> hval h s x i" if i: "i < n" "0 < i" "HEAP_PARENT i = s" for i
    proof -
      have "i = c0 \<or> i = c0 + 1" using children[OF i(3,2)] c0 by simp
      moreover have "i \<noteq> s" using parent_less[OF i(2)] i(3) by simp
      ultimately show ?thesis using a y i(1) by (auto simp: hval_def c_def rl_def split: if_splits)
    qed
    have unf: "reheap_down h x s c0 = (if tval h y < tval h x
        then do { h' \<leftarrow> copy_node h s y; reheap_down h' x c (HEAP_LEFT c) } else copy_node h s x)"
      using True a(2) right y(2) unfolding n
      by (subst reheap_down.simps) (simp add: c_def[symmetric] Let_def)
    show ?thesis
    proof (cases "tval h y < tval h x")
      case lt: True
      obtain h1 where h1: "copy_node h s y = Some h1" "holed h1 n c x E" "arrays_frame h E h1"
          "m_aptHeap h1 = (m_aptHeap h)[s := Some y]"
        using copy_node_moves_hole[OF h c(1) _ y(2)] c(2) by auto
      have "s < length (m_aptHeap h)" using h by (auto simp: holed_def arrays_ok_def)
      then have od: "ordered_down h1 n c x"
        using ordered_down_step[OF o lt c(1,3,2) y(1) _ small h1(4)] arrays_frame_ents[OF h1(3)] by blast
      have "\<exists>h'. reheap_down h1 x c (HEAP_LEFT c) = Some h' \<and> sifted h1 n E h'"
        using "1.IH"[of a rl c y h1] True n a(2) right y(2) lt h1(1,2) od arrays_frame_ents[OF h1(3)]
        by (simp add: c_def)
      with h1(1,3) lt show ?thesis by (auto simp: unf intro: sifted_trans)
    next
      case False
      have "tval h x \<le> hval h s x i" if "i < n" "0 < i" "HEAP_PARENT i = s" for i
        using small[OF that] False by (meson not_less order_trans)
      with sift_stops[OF h] all False show ?thesis by (auto simp: unf)
    qed
  qed
qed


subsection \<open>The free ids and the invariant\<close>

fun free_chain :: "int list \<Rightarrow> int \<Rightarrow> nat list \<Rightarrow> nat \<Rightarrow> bool" where
  "free_chain ids f [] e = (f = int e)"
| "free_chain ids f (x # xs) e =
     (f = int x \<and> x < length ids \<and> ids ! x < 0 \<and> free_chain ids (- (ids ! x)) xs e)"

definition free_ids :: "T_TimerHeap \<Rightarrow> addr set \<Rightarrow> nat list \<Rightarrow> bool" where
  "free_ids h E fs \<longleftrightarrow>
     free_chain (m_pTimerIds h) (m_tTimerIdsFreeList h) fs (m_stSize h) \<and> distinct fs \<and>
     set fs \<union> (\<lambda>e. nat (tid h e)) ` E = {1..<m_stSize h} \<and> set fs \<inter> (\<lambda>e. nat (tid h e)) ` E = {}"

definition timer_inv :: "T_TimerHeap \<Rightarrow> addr set \<Rightarrow> bool" where
  "timer_inv h E \<longleftrightarrow>
     filled h (m_stCurrSize h) E \<and> heap_ordered h (m_stCurrSize h) \<and>
     m_stCurrSize h + 2 \<le> m_stSize h \<and> m_stSize h < 2 ^ 32 \<and> (\<exists>fs. free_ids h E fs)"

lemma free_chain_cong:
  "free_chain ids f xs e \<Longrightarrow> length ids \<le> length ids' \<Longrightarrow> (\<And>x. x \<in> set xs \<Longrightarrow> ids' ! x = ids ! x) \<Longrightarrow>
   free_chain ids' f xs e"
  by (induction xs arbitrary: f) auto

lemma free_chain_append:
  "free_chain ids f xs m \<Longrightarrow> free_chain ids (int m) ys e \<Longrightarrow> free_chain ids f (xs @ ys) e"
  by (induction xs arbitrary: f) auto

lemma free_chain_fresh:
  "a \<le> b \<Longrightarrow> b \<le> length ids \<Longrightarrow> (\<And>i. a \<le> i \<Longrightarrow> i < b \<Longrightarrow> ids ! i = - int (i + 1)) \<Longrightarrow>
   free_chain ids (int a) [a..<b] b"
proof (induction "b - a" arbitrary: a)
  case (Suc k)
  then have ab: "a < b" by simp
  have "free_chain ids (int (Suc a)) [Suc a..<b] b"
    using Suc by (intro Suc.hyps(1)) auto
  then have "free_chain ids (int a + 1) [Suc a..<b] b" by (simp add: add.commute)
  with ab Suc.prems show ?case by (simp add: upt_conv_Cons)
qed simp

lemma filled_card:
  assumes "filled h n E"
  shows "finite E \<and> card E = n"
proof -
  define f where "f i = the (m_aptHeap h ! i)" for i
  have "inj_on f {..<n}"
  proof (rule inj_onI)
    fix i j assume ij: "i \<in> {..<n}" "j \<in> {..<n}" and eq: "f i = f j"
    have "id_names h (f k) k" if "k \<in> {..<n}" for k
      using assms that by (fastforce simp: filled_def f_def)
    from this[OF ij(1)] this[OF ij(2)] eq show "i = j" by (simp add: id_names_def)
  qed
  moreover have "f ` {..<n} = E"
    using assms by (force simp: filled_def f_def image_iff)
  ultimately show ?thesis by (metis card_image card_lessThan finite_imageI finite_lessThan)
qed

lemma filled_at:
  assumes "filled h n E" "i < n"
  obtains e where "e \<in> E" "m_aptHeap h ! i = Some e" "heap_at h i = Some e" "id_names h e i"
  using assms by (fastforce simp: filled_def arrays_ok_def heap_at_def)

lemma filled_slot:
  assumes "filled h n E" "e \<in> E"
  obtains i where "i < n" "m_aptHeap h ! i = Some e" "heap_at h i = Some e" "id_names h e i"
proof -
  from assms obtain i where i: "i < n" "m_aptHeap h ! i = Some e" by (auto simp: filled_def)
  from filled_at[OF assms(1) i(1)] i that show thesis by auto
qed

lemma heap_root_least:
  assumes "heap_ordered h n" "i < n"
  shows "tval h (the (m_aptHeap h ! 0)) \<le> tval h (the (m_aptHeap h ! i))"
  using assms(2)
proof (induction i rule: less_induct)
  case (less i)
  show ?case
  proof (cases "i = 0")
    case False
    then have p: "HEAP_PARENT i < i" by (simp add: parent_less)
    with less have "tval h (the (m_aptHeap h ! 0)) \<le> tval h (the (m_aptHeap h ! HEAP_PARENT i))" by simp
    also have "\<dots> \<le> tval h (the (m_aptHeap h ! i))"
      using assms(1) less.prems False by (simp add: heap_ordered_def)
    finally show ?thesis .
  qed simp
qed

lemma timer_inv_root:
  assumes "timer_inv h E" "m_stCurrSize h \<noteq> 0"
  obtains x where "heap_at h 0 = Some x" "x \<in> E" "\<And>e. e \<in> E \<Longrightarrow> tval h x \<le> tval h e"
proof -
  from assms have f: "filled h (m_stCurrSize h) E" and o: "heap_ordered h (m_stCurrSize h)"
    by (auto simp: timer_inv_def)
  obtain x where x: "x \<in> E" "m_aptHeap h ! 0 = Some x" "heap_at h 0 = Some x"
    using filled_at[OF f] assms(2) by blast
  have "tval h x \<le> tval h e" if "e \<in> E" for e
    using filled_slot[OF f that] heap_root_least[OF o] x(2) by (metis option.sel)
  with x that show thesis by blast
qed

lemma timer_inv_card: "timer_inv h E \<Longrightarrow> finite E \<and> card E = m_stCurrSize h"
  by (auto simp: timer_inv_def dest: filled_card)

lemma TIMER_HeapCreate_inv:
  assumes "TIMER_HeapCreate pool n es = Inr h" "n + 2 < 2 ^ 32"
  shows "timer_inv h {}"
proof -
  have "free_chain (m_pTimerIds h) 1 [1..<n + 2] (n + 2)"
    using assms free_chain_fresh[of 1 "n + 2" "m_pTimerIds h"]
    by (auto simp: TIMER_HeapCreate_def Let_def simp del: upt_Suc split: if_splits)
  with assms show ?thesis
    by (auto simp: TIMER_HeapCreate_def timer_inv_def filled_def arrays_ok_def heap_ordered_def
        free_ids_def Let_def simp del: upt_Suc split: if_splits intro!: exI[of _ "[1..<n + 2]"])
qed


subsection \<open>Scheduling\<close>

lemma filled_cong:
  assumes "filled h n E" "m_aptHeap h' = m_aptHeap h @ xs" "m_pTimerIds h' = m_pTimerIds h @ ys"
    "m_stSize h' = m_stSize h + length xs" "length ys = length xs" "\<And>e. e \<in> E \<Longrightarrow> tid h' e = tid h e"
  shows "filled h' n E"
proof -
  have ok: "arrays_ok h n" using assms(1) by (simp add: filled_def)
  have "inj_on (tid h') E" using assms(1,6) by (simp add: filled_def inj_on_def)
  moreover have "\<exists>e\<in>E. m_aptHeap h' ! i = Some e \<and> id_names h' e i" if i: "i < n" for i
  proof -
    obtain e where e: "e \<in> E" "m_aptHeap h ! i = Some e" "id_names h e i"
      using filled_at[OF assms(1) i] by blast
    with ok i assms(2-6) show ?thesis
      by (intro bexI[of _ e]) (auto simp: id_names_def nth_append arrays_ok_def)
  qed
  moreover have "\<exists>i<n. m_aptHeap h' ! i = Some e" if e: "e \<in> E" for e
  proof -
    obtain i where "i < n" "m_aptHeap h ! i = Some e" using filled_slot[OF assms(1) e] by blast
    with ok assms(2) show ?thesis by (intro exI[of _ i]) (auto simp: nth_append arrays_ok_def)
  qed
  ultimately show ?thesis using ok assms(2-5) by (auto simp: filled_def arrays_ok_def)
qed

lemma heap_ordered_cong:
  assumes "heap_ordered h n" "filled h n E" "m_aptHeap h' = m_aptHeap h @ xs"
    "\<And>e. e \<in> E \<Longrightarrow> tval h' e = tval h e"
  shows "heap_ordered h' n"
proof -
  have "tval h' (the (m_aptHeap h' ! i)) = tval h (the (m_aptHeap h ! i))" if i: "i < n" for i
  proof -
    obtain e where "e \<in> E" "m_aptHeap h ! i = Some e" using filled_at[OF assms(2) i] by blast
    with i assms(2-4) show ?thesis by (auto simp: filled_def arrays_ok_def nth_append)
  qed
  moreover have "i < n \<Longrightarrow> 0 < i \<Longrightarrow> HEAP_PARENT i < n" for i using parent_less[of i] by simp
  ultimately show ?thesis using assms(1) by (simp add: heap_ordered_def)
qed

text \<open>The state between \<open>pop_freelist\<close> and the insertion: the new entity has an id, no slot.\<close>

definition id_taken :: "T_TimerHeap \<Rightarrow> addr set \<Rightarrow> addr \<Rightarrow> nat list \<Rightarrow> bool" where
  "id_taken h E x fs \<longleftrightarrow> x \<notin> E \<and> filled h (m_stCurrSize h) E \<and> heap_ordered h (m_stCurrSize h) \<and>
     inj_on (tid h) (insert x E) \<and> 1 \<le> tid h x \<and> nat (tid h x) < m_stSize h \<and>
     free_ids h (insert x E) fs"

lemma grow_heap_ok:
  assumes t: "id_taken h E x fs" and pool: "\<And>n. m_pPool h n"
  shows "\<exists>h' fs'. grow_heap h = Some h' \<and> id_taken h' E x fs' \<and> m_stSize h' = 2 * m_stSize h \<and>
    m_stCurrSize h' = m_stCurrSize h \<and> ents h' = ents h \<and> m_pPool h' = m_pPool h \<and>
    m_u32PollMax h' = m_u32PollMax h"
proof -
  let ?s = "m_stSize h"
  define ys where "ys = map (\<lambda>i. - int (i + 1)) [?s..<?s * 2]"
  define h' where "h' = h\<lparr>m_aptHeap := m_aptHeap h @ replicate ?s None, m_pTimerIds := m_pTimerIds h @ ys,
    m_stSize := ?s * 2\<rparr>"
  from t have ok: "arrays_ok h (m_stCurrSize h)" by (simp add: id_taken_def filled_def)
  have eq: "grow_heap h = Some h'"
    using ok pool by (simp add: grow_heap_def Let_def h'_def ys_def arrays_ok_def)
  have f: "filled h (m_stCurrSize h) E" using t by (simp add: id_taken_def)
  have "filled h' (m_stCurrSize h') E"
    using filled_cong[OF f, of h' "replicate ?s None" ys] by (simp add: h'_def ys_def)
  moreover have "heap_ordered h' (m_stCurrSize h')"
    using heap_ordered_cong[OF _ f, of h' "replicate ?s None"] t by (simp add: h'_def id_taken_def)
  moreover have "free_ids h' (insert x E) (fs @ [?s..<?s * 2])"
  proof -
    from t have fr: "free_ids h (insert x E) fs" by (simp add: id_taken_def)
    have len: "length (m_pTimerIds h) = ?s" using ok by (simp add: arrays_ok_def)
    have in_range: "k < ?s" if "k \<in> set fs" for k using fr that by (auto simp: free_ids_def)
    have "free_chain (m_pTimerIds h') (m_tTimerIdsFreeList h') fs ?s"
      by (rule free_chain_cong[of "m_pTimerIds h"])
        (use fr len in_range in \<open>auto simp: free_ids_def h'_def nth_append\<close>)
    moreover have "free_chain (m_pTimerIds h') (int ?s) [?s..<?s * 2] (?s * 2)"
      by (rule free_chain_fresh) (auto simp: h'_def len ys_def nth_append)
    ultimately have c: "free_chain (m_pTimerIds h') (m_tTimerIdsFreeList h') (fs @ [?s..<?s * 2]) (?s * 2)"
      by (rule free_chain_append)
    have img: "(\<lambda>e. nat (tid h' e)) = (\<lambda>e. nat (tid h e))" "m_stSize h' = ?s * 2" by (simp_all add: h'_def)
    have "0 < ?s" using t by (auto simp: id_taken_def)
    then have rng: "{1..<?s * 2} = {1..<?s} \<union> {?s..<?s * 2}" by auto
    let ?T = "(\<lambda>e. nat (tid h e)) ` insert x E"
    have T: "?T \<subseteq> {1..<?s}" "set fs \<union> ?T = {1..<?s}" "set fs \<inter> ?T = {}" "distinct fs"
      using fr by (auto simp only: free_ids_def)
    have "set (fs @ [?s..<?s * 2]) \<union> ?T = {1..<?s * 2}" using T(2) rng by auto
    moreover have "set (fs @ [?s..<?s * 2]) \<inter> ?T = {}" using T(1,3) by fastforce
    moreover have "distinct (fs @ [?s..<?s * 2])" using T(4) in_range by fastforce
    ultimately show ?thesis unfolding free_ids_def img using c by blast
  qed
  ultimately have "id_taken h' E x (fs @ [?s..<?s * 2])"
    using t by (auto simp: id_taken_def h'_def)
  with eq show ?thesis by (intro exI[of _ h'] exI) (auto simp: h'_def)
qed


lemma insert_node_ok:
  assumes t: "id_taken h E x fs" and pool: "\<And>n. m_pPool h n"
    and room: "m_stCurrSize h + 2 \<le> m_stSize h" "2 * m_stSize h < 2 ^ 32"
  shows "\<exists>h'. insert_node h x = Some h' \<and> timer_inv h' (insert x E) \<and> ents h' = ents h \<and>
    m_stCurrSize h' = m_stCurrSize h + 1 \<and> m_pPool h' = m_pPool h \<and> m_u32PollMax h' = m_u32PollMax h \<and>
    m_stSize h' \<le> 2 * m_stSize h"
proof -
  obtain h1 fs1 where h1: "(if m_stCurrSize h + 2 \<ge> m_stSize h then grow_heap h else Some h) = Some h1"
      "id_taken h1 E x fs1" "m_stCurrSize h1 = m_stCurrSize h" "ents h1 = ents h" "m_pPool h1 = m_pPool h"
      "m_u32PollMax h1 = m_u32PollMax h" "m_stCurrSize h + 3 \<le> m_stSize h1" "m_stSize h1 \<le> 2 * m_stSize h"
  proof (cases "m_stCurrSize h + 2 \<ge> m_stSize h")
    case True
    with grow_heap_ok[OF t pool] that room show thesis by force
  next
    case False
    with t that[of h fs] show thesis by simp
  qed
  let ?n = "m_stCurrSize h1" and ?E = "insert x E"
  from h1(2) have f: "filled h1 ?n E" and o: "heap_ordered h1 ?n" and x: "x \<notin> E" "1 \<le> tid h1 x"
      "nat (tid h1 x) < m_stSize h1" and inj: "inj_on (tid h1) ?E" and fr: "free_ids h1 ?E fs1"
    by (auto simp: id_taken_def)
  have ok: "arrays_ok h1 (?n + 1)" using f h1(3,7) by (auto simp: filled_def arrays_ok_def)
  have "\<forall>i<?n + 1. i \<noteq> ?n \<longrightarrow> (\<exists>e\<in>?E. e \<noteq> x \<and> m_aptHeap h1 ! i = Some e \<and> id_names h1 e i)"
  proof (intro allI impI)
    fix i assume "i < ?n + 1" "i \<noteq> ?n"
    then obtain e where "e \<in> E" "m_aptHeap h1 ! i = Some e" "id_names h1 e i"
      using filled_at[OF f, of i] by auto
    then show "\<exists>e\<in>?E. e \<noteq> x \<and> m_aptHeap h1 ! i = Some e \<and> id_names h1 e i"
      using x by (intro bexI[of _ e]) auto
  qed
  moreover have "\<forall>e\<in>?E. e \<noteq> x \<longrightarrow> (\<exists>i<?n + 1. i \<noteq> ?n \<and> m_aptHeap h1 ! i = Some e)"
  proof (intro ballI impI)
    fix e assume "e \<in> ?E" "e \<noteq> x"
    then obtain i where "i < ?n" "m_aptHeap h1 ! i = Some e" using f unfolding filled_def by blast
    then show "\<exists>i<?n + 1. i \<noteq> ?n \<and> m_aptHeap h1 ! i = Some e" by (intro exI[of _ i]) simp
  qed
  ultimately have hole: "holed h1 (?n + 1) ?n x ?E"
    using ok inj x by (simp add: holed_def)
  have "hval h1 ?n x (HEAP_PARENT i) \<le> hval h1 ?n x i" if "i < ?n" "0 < i" for i
    using o that parent_less[of i] by (auto simp: heap_ordered_def hval_def)
  moreover have "HEAP_PARENT i \<noteq> ?n" if "i < ?n + 1" "0 < i" for i
    using parent_less[of i] that by simp
  ultimately have "ordered_up h1 (?n + 1) ?n x" by (auto simp: ordered_up_def)
  then obtain h2 where h2: "reheap_up h1 x ?n (HEAP_PARENT ?n) = Some h2" "sifted h1 (?n + 1) ?E h2"
    using reheap_up_ok[OF hole] by blast
  let ?h3 = "h2\<lparr>m_stCurrSize := m_stCurrSize h2 + 1\<rparr>"
  have fr2: "arrays_frame h1 ?E h2" and f2: "filled h2 (?n + 1) ?E" and o2: "heap_ordered h2 (?n + 1)"
    using h2(2) by (auto simp: sifted_def)
  note e2 = arrays_frame_ents[OF fr2]
  have f3: "filled ?h3 (?n + 1) ?E" using f2 by (simp add: filled_def arrays_ok_def id_names_def)
  have o3: "heap_ordered ?h3 (?n + 1)" using o2 by (simp add: heap_ordered_def)
  have "free_chain (m_pTimerIds h2) (m_tTimerIdsFreeList h2) fs1 (m_stSize h2)"
  proof (rule free_chain_cong[of "m_pTimerIds h1"])
    show "free_chain (m_pTimerIds h1) (m_tTimerIdsFreeList h2) fs1 (m_stSize h2)"
      using fr fr2 by (auto simp: free_ids_def arrays_frame_def)
    show "length (m_pTimerIds h1) \<le> length (m_pTimerIds h2)"
      using ok f2 e2 by (simp add: filled_def arrays_ok_def)
    fix y assume "y \<in> set fs1"
    then have "y \<notin> (\<lambda>e. nat (tid h1 e)) ` ?E" using fr unfolding free_ids_def by blast
    then show "m_pTimerIds h2 ! y = m_pTimerIds h1 ! y" using fr2 unfolding arrays_frame_def by blast
  qed
  then have "free_ids ?h3 ?E fs1" using fr e2 by (simp add: free_ids_def)
  then have "timer_inv ?h3 ?E"
    using f3 o3 e2 h1(3,7,8) room unfolding timer_inv_def by auto
  moreover have "insert_node h x = Some ?h3" using h1(1) h2(1) by (simp add: insert_node_def)
  ultimately show ?thesis using e2 h1 by (intro exI[of _ ?h3]) simp
qed

lemma free_ids_nonempty:
  assumes "free_ids h E fs" "finite E" "card E = m_stCurrSize h" "m_stCurrSize h + 2 \<le> m_stSize h"
  obtains x xs where "fs = x # xs"
proof (cases fs)
  case Nil
  with assms(1) have "(\<lambda>e. nat (tid h e)) ` E = {1..<m_stSize h}" by (simp add: free_ids_def)
  with card_image_le[OF assms(2), of "\<lambda>e. nat (tid h e)"] assms(3,4) show thesis by simp
qed (use that in blast)

lemma pop_freelist_ok:
  assumes inv: "timer_inv h E" and x: "x \<notin> E"
  shows "\<exists>h1 i fs. pop_freelist h = Some (h1, i) \<and>
    id_taken (upd_ent h1 x (\<lambda>e. e\<lparr>m_tTimerId := i, m_tTimerValue := t\<rparr>)) E x fs \<and> 1 \<le> i \<and>
    h1 = h\<lparr>m_tTimerIdsFreeList := m_tTimerIdsFreeList h1\<rparr>"
proof -
  from inv obtain fs where fr: "free_ids h E fs" and f: "filled h (m_stCurrSize h) E"
    and o: "heap_ordered h (m_stCurrSize h)" and room: "m_stCurrSize h + 2 \<le> m_stSize h"
    by (auto simp: timer_inv_def)
  from filled_card[OF f] obtain k ks where fs: "fs = k # ks"
    using free_ids_nonempty[OF fr _ _ room] by blast
  let ?h1 = "h\<lparr>m_tTimerIdsFreeList := - (m_pTimerIds h ! k)\<rparr>"
  let ?h2 = "upd_ent ?h1 x (\<lambda>e. e\<lparr>m_tTimerId := int k, m_tTimerValue := t\<rparr>)"
  have k: "m_tTimerIdsFreeList h = int k" "k < length (m_pTimerIds h)" "1 \<le> k" "k < m_stSize h"
    using fr fs by (auto simp: free_ids_def)
  have pop: "pop_freelist h = Some (?h1, int k)"
    using k by (simp add: pop_freelist_def ids_get_def)
  have same: "ents ?h2 e = ents h e" if "e \<in> E" for e using that x by (auto simp: upd_ent_def)
  have img: "(\<lambda>e. nat (tid ?h2 e)) ` E = (\<lambda>e. nat (tid h e)) ` E" using same by simp
  have kE: "k \<notin> (\<lambda>e. nat (tid h e)) ` E" using fr fs by (auto simp: free_ids_def)
  have "filled ?h2 (m_stCurrSize h) E"
    by (rule filled_cong[OF f, of _ "[]" "[]"]) (use same in \<open>auto simp: upd_ent_def\<close>)
  moreover have "heap_ordered ?h2 (m_stCurrSize h)"
    by (rule heap_ordered_cong[OF o f, of _ "[]"]) (use same in \<open>auto simp: upd_ent_def\<close>)
  moreover have "inj_on (tid ?h2) (insert x E)"
  proof -
    have "inj_on (tid h) E" using f by (simp add: filled_def)
    then have "inj_on (tid ?h2) E" using same by (simp add: inj_on_def)
    moreover have "tid ?h2 x \<notin> tid ?h2 ` E"
      using kE same by (force simp: upd_ent_def)
    ultimately show ?thesis using x by simp
  qed
  moreover have "free_ids ?h2 (insert x E) ks"
  proof -
    have "tid ?h2 x = int k" by (simp add: upd_ent_def)
    then have "(\<lambda>e. nat (tid ?h2 e)) ` insert x E = insert k ((\<lambda>e. nat (tid h e)) ` E)"
      using img by (simp only: image_insert nat_int)
    with fr fs show ?thesis unfolding free_ids_def by (simp add: upd_ent_def)
  qed
  ultimately have "id_taken ?h2 E x ks" using x k by (simp add: id_taken_def upd_ent_def)
  with pop k show ?thesis by (intro exI[of _ ?h1] exI[of _ "int k"] exI[of _ ks]) simp
qed

lemma schedule_entry_ok:
  assumes inv: "timer_inv h E" and x: "x \<notin> E" and pool: "\<And>n. m_pPool h n" "2 * m_stSize h < 2 ^ 32"
  shows "\<exists>h' i. schedule_entry h x t = Some (h', 0) \<and> timer_inv h' (insert x E) \<and> 1 \<le> i \<and>
    ents h' = (ents h)(x := (ents h x)\<lparr>m_tTimerId := i, m_tTimerValue := t\<rparr>) \<and>
    m_stCurrSize h' = m_stCurrSize h + 1 \<and> m_pPool h' = m_pPool h \<and> m_u32PollMax h' = m_u32PollMax h \<and>
    m_stSize h' \<le> 2 * m_stSize h"
proof -
  obtain h1 i fs where p: "pop_freelist h = Some (h1, i)" "1 \<le> i"
      "id_taken (upd_ent h1 x (\<lambda>e. e\<lparr>m_tTimerId := i, m_tTimerValue := t\<rparr>)) E x fs"
      "h1 = h\<lparr>m_tTimerIdsFreeList := m_tTimerIdsFreeList h1\<rparr>"
    using pop_freelist_ok[OF inv x] by blast
  let ?h2 = "upd_ent h1 x (\<lambda>e. e\<lparr>m_tTimerId := i, m_tTimerValue := t\<rparr>)"
  have h2: "m_stCurrSize ?h2 = m_stCurrSize h" "m_stSize ?h2 = m_stSize h" "m_pPool ?h2 = m_pPool h"
      "m_u32PollMax ?h2 = m_u32PollMax h"
      "ents ?h2 = (ents h)(x := (ents h x)\<lparr>m_tTimerId := i, m_tTimerValue := t\<rparr>)"
    by (subst p(4); simp add: upd_ent_def)+
  have room: "m_stCurrSize h + 2 \<le> m_stSize h" using inv by (simp add: timer_inv_def)
  obtain h' where "insert_node ?h2 x = Some h'" "timer_inv h' (insert x E)" "ents h' = ents ?h2"
      "m_stCurrSize h' = m_stCurrSize h + 1" "m_pPool h' = m_pPool h" "m_u32PollMax h' = m_u32PollMax h"
      "m_stSize h' \<le> 2 * m_stSize h"
    using insert_node_ok[OF p(3)] h2 pool room by auto
  with p(1,2) room h2(5) show ?thesis by (auto simp: schedule_entry_def)
qed


subsection \<open>Removing\<close>

lemma filled_holed:
  assumes f: "filled h n E" and s: "s < n" and x: "m_aptHeap h ! s = Some x"
  shows "holed h n s x E"
proof -
  have xE: "x \<in> E" "id_names h x s" using filled_at[OF f s] x by auto
  have "\<exists>e\<in>E. e \<noteq> x \<and> m_aptHeap h ! i = Some e \<and> id_names h e i" if i: "i < n" "i \<noteq> s" for i
  proof -
    obtain e where e: "e \<in> E" "m_aptHeap h ! i = Some e" "id_names h e i"
      using filled_at[OF f i(1)] by blast
    with xE i have "e \<noteq> x" by (auto simp: id_names_def)
    with e show ?thesis by blast
  qed
  moreover have "\<exists>i<n. i \<noteq> s \<and> m_aptHeap h ! i = Some e" if e: "e \<in> E" "e \<noteq> x" for e
  proof -
    obtain i where i: "i < n" "m_aptHeap h ! i = Some e" using filled_slot[OF f e(1)] by blast
    with x e(2) have "i \<noteq> s" by auto
    with i show ?thesis by blast
  qed
  ultimately show ?thesis using f s xE by (auto simp: holed_def filled_def id_names_def)
qed

text \<open>The last entry moved into the hole violates the order on one side at most.\<close>

lemma hole_order:
  assumes o: "heap_ordered h (Suc n)" and s: "s < n"
  shows "(0 < s \<Longrightarrow> hval h s m (HEAP_PARENT s) \<le> tval h m) \<Longrightarrow> ordered_down h n s m"
    and "0 < s \<Longrightarrow> tval h m \<le> hval h s m (HEAP_PARENT s) \<Longrightarrow> ordered_up h n s m"
proof -
  have o1: "hval h s m (HEAP_PARENT i) \<le> hval h s m i" if "i < n" "0 < i" "HEAP_PARENT i \<noteq> s" "i \<noteq> s" for i
    using o that by (auto simp: heap_ordered_def hval_def)
  have o2: "hval h s m (HEAP_PARENT s) \<le> hval h s m i" if i: "i < n" "0 < i" "HEAP_PARENT i = s" "0 < s" for i
  proof -
    have "i \<noteq> s" "HEAP_PARENT s \<noteq> s" using parent_less[of i] parent_less[of s] i by auto
    moreover have "tval h (the (m_aptHeap h ! HEAP_PARENT s)) \<le> tval h (the (m_aptHeap h ! s))"
      "tval h (the (m_aptHeap h ! s)) \<le> tval h (the (m_aptHeap h ! i))"
      using o i s by (auto simp: heap_ordered_def)
    ultimately show ?thesis by (auto simp: hval_def)
  qed
  have m: "hval h s m s = tval h m" by (simp add: hval_def)
  show "ordered_down h n s m" if "0 < s \<Longrightarrow> hval h s m (HEAP_PARENT s) \<le> tval h m"
    unfolding ordered_down_def using o1 o2 that m by metis
  show "ordered_up h n s m" if "0 < s" "tval h m \<le> hval h s m (HEAP_PARENT s)"
    unfolding ordered_up_def using o1 o2 that m by (metis order_trans)
qed

text \<open>The heap after \<open>remove_node\<close> has given back the id \<open>k\<close> of \<open>x\<close>.\<close>

definition released :: "T_TimerHeap \<Rightarrow> addr \<Rightarrow> nat \<Rightarrow> T_TimerHeap" where
  "released h x k = upd_ent (h\<lparr>m_pTimerIds := (m_pTimerIds h)[k := - m_tTimerIdsFreeList h],
     m_tTimerIdsFreeList := int k, m_stCurrSize := m_stCurrSize h - 1\<rparr>) x (\<lambda>e. e\<lparr>m_tTimerId := -1\<rparr>)"

lemma released_simps [simp]:
  "m_aptHeap (released h x k) = m_aptHeap h" "m_stSize (released h x k) = m_stSize h"
  "m_stCurrSize (released h x k) = m_stCurrSize h - 1" "m_pPool (released h x k) = m_pPool h"
  "m_u32PollMax (released h x k) = m_u32PollMax h" "m_tTimerIdsFreeList (released h x k) = int k"
  "m_pTimerIds (released h x k) = (m_pTimerIds h)[k := - m_tTimerIdsFreeList h]"
  "ents (released h x k) = (ents h)(x := (ents h x)\<lparr>m_tTimerId := -1\<rparr>)"
  "tval (released h x k) e = tval h e"
  by (simp_all add: released_def upd_ent_def)

lemma released_free:
  assumes fr: "free_ids h E fs" and x: "x \<in> E" "id_names h x s" and inj: "inj_on (tid h) E"
    and len: "length (m_pTimerIds h) = m_stSize h" and pos: "\<And>e. e \<in> E \<Longrightarrow> 1 \<le> tid h e"
  shows "free_ids (released h x (nat (tid h x))) (E - {x}) (nat (tid h x) # fs)"
proof -
  let ?k = "nat (tid h x)" and ?I = "\<lambda>E. (\<lambda>e. nat (tid h e)) ` E"
  let ?h = "released h x ?k"
  have k: "1 \<le> ?k" "?k < length (m_pTimerIds h)" "?k \<notin> set fs"
    using x fr len by (auto simp: id_names_def free_ids_def)
  have pos_free: "0 < m_tTimerIdsFreeList h"
  proof (cases fs)
    case Nil
    with fr k len show ?thesis by (simp add: free_ids_def)
  next
    case (Cons y ys)
    with fr have "m_tTimerIdsFreeList h = int y" by (simp add: free_ids_def)
    moreover have "set fs \<subseteq> {1..<m_stSize h}" using fr unfolding free_ids_def by (metis Un_upper1)
    ultimately show ?thesis using Cons by simp
  qed
  have "free_chain (m_pTimerIds ?h) (m_tTimerIdsFreeList h) fs (m_stSize h)"
  proof (rule free_chain_cong)
    show "free_chain (m_pTimerIds h) (m_tTimerIdsFreeList h) fs (m_stSize h)"
      using fr by (simp only: free_ids_def)
  qed (use k(3) in \<open>auto intro!: nth_list_update_neq\<close>)
  then have a: "free_chain (m_pTimerIds ?h) (int ?k) (?k # fs) (m_stSize h)" using k pos_free by simp
  have I: "?I E = insert ?k (?I (E - {x}))" using x by blast
  have notin: "?k \<notin> ?I (E - {x})"
  proof
    assume "?k \<in> ?I (E - {x})"
    then obtain e where "e \<in> E" "e \<noteq> x" "nat (tid h e) = ?k"
      by (metis (no_types, lifting) DiffE imageE singletonI)
    with id_inj[OF inj _ x(1), of e] pos x(1) show False by simp
  qed
  have img: "(\<lambda>e. nat (tid ?h e)) ` (E - {x}) = ?I (E - {x})" by (intro image_cong) auto
  have "distinct fs" "set fs \<union> ?I E = {1..<m_stSize h}" "set fs \<inter> ?I E = {}"
    using fr by (simp_all only: free_ids_def)
  then have "distinct (?k # fs)" "set (?k # fs) \<union> ?I (E - {x}) = {1..<m_stSize h}"
      "set (?k # fs) \<inter> ?I (E - {x}) = {}"
    using k(3) notin unfolding I by simp_all
  with a show ?thesis unfolding free_ids_def img released_simps(2,6) by blast
qed

lemma released_names:
  assumes f: "filled h n E" and x: "x \<in> E" "id_names h x s" and e: "e \<in> E" "e \<noteq> x" "id_names h e i"
  shows "id_names (released h x (nat (tid h x))) e i"
proof -
  have "nat (tid h e) \<noteq> nat (tid h x)"
    using id_inj[of h E e x] f x e by (auto simp: filled_def id_names_def)
  then show ?thesis using e by (simp add: id_names_def)
qed

lemma released_ordered:
  "heap_ordered h (Suc n) \<Longrightarrow> heap_ordered (released h x k) n"
  unfolding heap_ordered_def released_simps(9) released_simps(1) by simp

lemma released_sifted_inv:
  assumes fr: "free_ids (released h x k) E fs" and h5: "sifted (released h x k) n E h5"
    and ok: "arrays_ok h n" and n: "m_stCurrSize h = Suc n" "Suc n + 2 \<le> m_stSize h" "m_stSize h < 2 ^ 32"
  shows "timer_inv h5 E"
proof -
  let ?h3 = "released h x k"
  have f5: "filled h5 n E" and o5: "heap_ordered h5 n" and fr5: "arrays_frame ?h3 E h5"
    using h5 by (auto simp: sifted_def)
  note e5 = arrays_frame_ents[OF fr5]
  have "free_chain (m_pTimerIds h5) (m_tTimerIdsFreeList h5) fs (m_stSize h5)"
  proof (rule free_chain_cong[of "m_pTimerIds ?h3"])
    show "free_chain (m_pTimerIds ?h3) (m_tTimerIdsFreeList h5) fs (m_stSize h5)"
      using fr e5 by (simp only: free_ids_def released_simps)
    show "length (m_pTimerIds ?h3) \<le> length (m_pTimerIds h5)"
      using ok f5 e5 by (simp add: filled_def arrays_ok_def)
    fix y assume "y \<in> set fs"
    then have "y \<notin> (\<lambda>e. nat (tid ?h3 e)) ` E" using fr unfolding free_ids_def by blast
    then show "m_pTimerIds h5 ! y = m_pTimerIds ?h3 ! y" using fr5 unfolding arrays_frame_def by blast
  qed
  then have "free_ids h5 E fs" using fr e5 by (simp only: free_ids_def released_simps)
  moreover have "m_stCurrSize h5 = n" "m_stSize h5 = m_stSize h" using e5 n by simp_all
  ultimately show ?thesis unfolding timer_inv_def using f5 o5 n by (simp only: ) auto
qed

text \<open>Removing the last slot leaves no hole; otherwise the last entry fills the hole at \<open>s\<close>.\<close>

lemma released_last:
  assumes f: "filled h (Suc n) E" and x: "x \<in> E" "m_aptHeap h ! n = Some x" "id_names h x n"
  shows "filled (released h x (nat (tid h x))) n (E - {x})"
proof -
  let ?h3 = "released h x (nat (tid h x))" and ?E = "E - {x}"
  have "\<exists>e\<in>?E. m_aptHeap ?h3 ! i = Some e \<and> id_names ?h3 e i" if i: "i < n" for i
  proof -
    obtain e where e: "e \<in> E" "m_aptHeap h ! i = Some e" "id_names h e i"
      using filled_at[OF f, of i] i by auto
    with x(3) i have "e \<noteq> x" by (auto simp: id_names_def)
    with e released_names[OF f x(1,3) e(1) _ e(3)] show ?thesis by (intro bexI[of _ e]) auto
  qed
  moreover have "\<exists>i<n. m_aptHeap ?h3 ! i = Some e" if e: "e \<in> ?E" for e
  proof -
    obtain i where i: "i < Suc n" "m_aptHeap h ! i = Some e" using filled_slot[OF f, of e] e by auto
    with x(2) e have "i \<noteq> n" by auto
    with i show ?thesis by (intro exI[of _ i]) auto
  qed
  moreover have "inj_on (tid ?h3) ?E" using f by (auto simp: filled_def inj_on_def)
  ultimately show ?thesis using f by (simp add: filled_def arrays_ok_def)
qed

lemma released_holed:
  assumes f: "filled h (Suc n) E" and x: "x \<in> E" "m_aptHeap h ! s = Some x" "id_names h x s"
    and s: "s < n" and m: "m \<in> E" "m_aptHeap h ! n = Some m" "id_names h m n"
  shows "holed (released h x (nat (tid h x))) n s m (E - {x})"
proof -
  let ?h3 = "released h x (nat (tid h x))" and ?E = "E - {x}"
  have mx: "m \<noteq> x" using m(3) x(3) s by (auto simp: id_names_def)
  note names = released_names[OF f x(1,3)]
  have "\<exists>e\<in>?E. e \<noteq> m \<and> m_aptHeap ?h3 ! i = Some e \<and> id_names ?h3 e i" if i: "i < n" "i \<noteq> s" for i
  proof -
    obtain e where e: "e \<in> E" "m_aptHeap h ! i = Some e" "id_names h e i"
      using filled_at[OF f, of i] i by auto
    with x(3) m(3) i have "e \<noteq> x" "e \<noteq> m" by (auto simp: id_names_def)
    with e names show ?thesis by (intro bexI[of _ e]) auto
  qed
  moreover have "\<exists>i<n. i \<noteq> s \<and> m_aptHeap ?h3 ! i = Some e" if e: "e \<in> ?E" "e \<noteq> m" for e
  proof -
    obtain i where i: "i < Suc n" "m_aptHeap h ! i = Some e" using filled_slot[OF f, of e] e by auto
    with x(2) m(2) e have "i \<noteq> n" "i \<noteq> s" by auto
    with i show ?thesis by (intro exI[of _ i]) auto
  qed
  moreover have "inj_on (tid ?h3) ?E" using f by (auto simp: filled_def inj_on_def)
  ultimately show ?thesis
    using f s m mx names[OF m(1) mx m(3)] unfolding holed_def
    by (simp add: filled_def arrays_ok_def id_names_def)
qed

lemma sift_from_hole:
  assumes hole: "holed h3 n s m E" and o: "heap_ordered h (Suc n)" and s: "s < n"
    and h3: "m_aptHeap h3 = m_aptHeap h" "\<And>e. tval h3 e = tval h e" "m_stCurrSize h3 = n"
  shows "\<exists>h5. sifted h3 n E h5 \<and>
    do { h4 \<leftarrow> copy_node h3 s m; y \<leftarrow> heap_at h4 (HEAP_PARENT s);
         (if tval h4 y \<le> tval h4 m then reheap_down h4 m s (HEAP_LEFT s)
          else reheap_up h4 m s (HEAP_PARENT s)) } = Some h5"
proof -
  obtain h4 where h4: "copy_node h3 s m = Some h4" "filled h4 n E" "arrays_frame h3 E h4"
      "m_aptHeap h4 = (m_aptHeap h3)[s := Some m]"
    using copy_node_fills_hole[OF hole] by blast
  note e4 = arrays_frame_ents[OF h4(3)]
  have sl: "s < length (m_aptHeap h)" using hole h3 by (simp add: holed_def arrays_ok_def)
  have hole4: "holed h4 n s m E" using filled_holed[OF h4(2) s] h4(4) sl h3 by simp
  have t4: "tval h4 e = tval h e" for e using e4 h3(2)[of e] by simp
  have v4: "hval h4 s m i = hval h s m i" for i using h4(4) t4 h3(1) by (simp add: hval_def)
  have o4: "ordered_down h n s m \<Longrightarrow> ordered_down h4 n s m" "ordered_up h n s m \<Longrightarrow> ordered_up h4 n s m"
    by (simp_all add: ordered_down_def ordered_up_def v4)
  have p: "0 < s \<Longrightarrow> HEAP_PARENT s < n \<and> HEAP_PARENT s \<noteq> s" using parent_less[of s] s by simp
  obtain y where y: "heap_at h4 (HEAP_PARENT s) = Some y"
      "tval h y = (if s = 0 then tval h m else hval h s m (HEAP_PARENT s))"
  proof (cases "s = 0")
    case True
    then show thesis using that[of m] h4(4) sl h3(1) by (simp add: HEAP_PARENT_def heap_at_def)
  next
    case False
    from filled_at[OF h4(2), of "HEAP_PARENT s"] p False obtain z where
      "m_aptHeap h4 ! HEAP_PARENT s = Some z" "heap_at h4 (HEAP_PARENT s) = Some z" by blast
    with that[of z] h4(4) p False h3(1) show thesis by (simp add: hval_def)
  qed
  have "\<exists>h5. (if tval h4 y \<le> tval h4 m then reheap_down h4 m s (HEAP_LEFT s)
      else reheap_up h4 m s (HEAP_PARENT s)) = Some h5 \<and> sifted h4 n E h5"
  proof (cases "tval h y \<le> tval h m")
    case True
    have "hval h s m (HEAP_PARENT s) \<le> tval h m" if "0 < s"
      using True y(2) that by (metis less_numeral_extra(3))
    from o4(1)[OF hole_order(1)[OF o s this]] have "ordered_down h4 n s m" .
    moreover have "n = m_stCurrSize h4" using e4 h3(3) by simp
    ultimately have "\<exists>h5. reheap_down h4 m s (HEAP_LEFT s) = Some h5 \<and> sifted h4 n E h5"
      by (rule reheap_down_ok[OF hole4 _ refl])
    with True show ?thesis unfolding t4 by auto
  next
    case False
    have s0: "0 < s" using False y(2) by (cases "s = 0") simp_all
    have "tval h m \<le> hval h s m (HEAP_PARENT s)" using False y(2) s0 by simp
    from o4(2)[OF hole_order(2)[OF o s s0 this]] have "ordered_up h4 n s m" .
    then have "\<exists>h5. reheap_up h4 m s (HEAP_PARENT s) = Some h5 \<and> sifted h4 n E h5"
      by (rule reheap_up_ok[OF hole4 _ refl])
    with False show ?thesis unfolding t4 by auto
  qed
  with h4(1) y(1) sifted_trans[OF h4(3)] show ?thesis by auto
qed

lemma push_freelist_ok:
  assumes "id_names h x s" "length (m_pTimerIds h) = m_stSize h"
  shows "push_freelist h (tid h x) = Some (h\<lparr>m_pTimerIds := (m_pTimerIds h)[nat (tid h x) := - m_tTimerIdsFreeList h],
      m_tTimerIdsFreeList := tid h x\<rparr>)"
  using assms by (simp add: push_freelist_def ids_set_def id_names_def)

lemma remove_node_unfold:
  assumes "heap_at h s = Some x" "id_names h x s" "length (m_pTimerIds h) = m_stSize h"
    "m_stCurrSize h = Suc n" "Suc n < 2 ^ 32"
  shows "remove_node h s = (let h3 = released h x (nat (tid h x)) in
     if s < n then do { m \<leftarrow> heap_at h3 n;
       h5 \<leftarrow> do { h4 \<leftarrow> copy_node h3 s m; y \<leftarrow> heap_at h4 (HEAP_PARENT s);
         (if tval h4 y \<le> tval h4 m then reheap_down h4 m s (HEAP_LEFT s)
          else reheap_up h4 m s (HEAP_PARENT s)) };
       Some (h5, x) } else Some (h3, x))"
proof -
  have "int (nat (tid h x)) = tid h x" using assms(2) by (simp add: id_names_def)
  then show ?thesis
    using assms(4,5)
    by (simp add: remove_node_def assms(1) push_freelist_ok[OF assms(2,3)] c_arith Let_def
        released_def upd_ent_def)
qed

lemma remove_node_ok:
  assumes inv: "timer_inv h E" and s: "s < m_stCurrSize h" and hx: "heap_at h s = Some x"
  shows "\<exists>h'. remove_node h s = Some (h', x) \<and> timer_inv h' (E - {x}) \<and> x \<in> E \<and>
    ents h' = (ents h)(x := (ents h x)\<lparr>m_tTimerId := -1\<rparr>) \<and>
    m_stCurrSize h' = m_stCurrSize h - 1 \<and> m_pPool h' = m_pPool h \<and>
    m_u32PollMax h' = m_u32PollMax h \<and> m_stSize h' = m_stSize h"
proof -
  obtain n where n: "m_stCurrSize h = Suc n" using s by (cases "m_stCurrSize h") auto
  from inv n obtain fs where fr: "free_ids h E fs" and f: "filled h (Suc n) E"
    and o: "heap_ordered h (Suc n)" and room: "Suc n + 2 \<le> m_stSize h" "m_stSize h < 2 ^ 32"
    unfolding timer_inv_def by metis
  have "s < Suc n" using s n by simp
  from filled_at[OF f this] have x: "x \<in> E" "m_aptHeap h ! s = Some x" "id_names h x s"
    using hx by (metis option.inject)+
  have len: "length (m_pTimerIds h) = m_stSize h" and ok: "arrays_ok h n" and inj: "inj_on (tid h) E"
    using f by (simp_all add: filled_def arrays_ok_def)
  have pos: "1 \<le> tid h e" if "e \<in> E" for e using filled_slot[OF f that] by (auto simp: id_names_def)
  let ?h3 = "released h x (nat (tid h x))" and ?E = "E - {x}"
  note rem = remove_node_unfold[OF hx x(3) len n]
  have "\<exists>h5. remove_node h s = Some (h5, x) \<and> sifted ?h3 n ?E h5"
  proof (cases "s < n")
    case False
    with s n have sn: "s = n" by simp
    have "sifted ?h3 n ?E ?h3"
      using released_last[OF f x(1)] x(2,3) released_ordered[OF o] arrays_frame_refl
      unfolding sn sifted_def by blast
    then show ?thesis using rem room False by (simp add: Let_def)
  next
    case True
    obtain m where m: "m \<in> E" "m_aptHeap h ! n = Some m" "heap_at h n = Some m" "id_names h m n"
      using filled_at[OF f, of n] by auto
    have "heap_at ?h3 n = Some m" using m(3) by (simp add: heap_at_def split: if_splits)
    moreover have lim: "Suc n < 2 ^ 32" using room by simp
    moreover obtain h5 where "sifted ?h3 n ?E h5" and P: "do { h4 \<leftarrow> copy_node ?h3 s m; y \<leftarrow> heap_at h4 (HEAP_PARENT s);
        (if tval h4 y \<le> tval h4 m then reheap_down h4 m s (HEAP_LEFT s)
         else reheap_up h4 m s (HEAP_PARENT s)) } = Some h5"
      using sift_from_hole[OF released_holed[OF f x True m(1,2,4)] o True] n by auto
    moreover have "remove_node h s = Some (h5, x)"
      using rem[OF lim] by (simp only: Let_def if_P[OF True] calculation(1) P Option.bind_lunit)
    ultimately show ?thesis by blast
  qed
  then obtain h5 where h5: "remove_node h s = Some (h5, x)" "sifted ?h3 n ?E h5" by blast
  have "timer_inv h5 ?E"
    using released_sifted_inv[OF released_free[OF fr x(1,3) inj len pos] h5(2) ok n room] .
  moreover have "arrays_frame ?h3 ?E h5" using h5(2) by (simp add: sifted_def)
  note arrays_frame_ents[OF this]
  ultimately show ?thesis using h5(1) x(1) n by (intro exI[of _ h5]) simp
qed

lemma timer_inv_upd_ent:
  assumes "timer_inv h E" "x \<in> E \<Longrightarrow> m_tTimerId (f (ents h x)) = tid h x \<and> m_tTimerValue (f (ents h x)) = tval h x"
  shows "timer_inv (upd_ent h x f) E"
proof -
  let ?h = "upd_ent h x f"
  from assms(1) obtain fs where fr: "free_ids h E fs" and fl: "filled h (m_stCurrSize h) E"
    and o: "heap_ordered h (m_stCurrSize h)" and room: "m_stCurrSize h + 2 \<le> m_stSize h" "m_stSize h < 2 ^ 32"
    by (auto simp: timer_inv_def)
  have same: "tid ?h e = tid h e" "tval ?h e = tval h e" if "e \<in> E" for e
    using assms(2) that by (auto simp: upd_ent_def)
  have "filled ?h (m_stCurrSize h) E"
    by (rule filled_cong[OF fl, of _ "[]" "[]"]) (use same in \<open>auto simp: upd_ent_def\<close>)
  moreover have "heap_ordered ?h (m_stCurrSize h)"
    by (rule heap_ordered_cong[OF o fl, of _ "[]"]) (use same in \<open>auto simp: upd_ent_def\<close>)
  moreover have "free_ids ?h E fs"
  proof -
    have "(\<lambda>e. nat (tid ?h e)) ` E = (\<lambda>e. nat (tid h e)) ` E" using same by (intro image_cong) auto
    moreover have "m_pTimerIds ?h = m_pTimerIds h" "m_stSize ?h = m_stSize h"
      "m_tTimerIdsFreeList ?h = m_tTimerIdsFreeList h" by (simp_all add: upd_ent_def)
    ultimately show ?thesis using fr unfolding free_ids_def by simp
  qed
  moreover have "m_stCurrSize ?h = m_stCurrSize h" "m_stSize ?h = m_stSize h"
    by (simp_all add: upd_ent_def)
  ultimately show ?thesis unfolding timer_inv_def using room by auto
qed

lemma cancel_scheduled:
  assumes inv: "timer_inv h E" and x: "x \<in> E"
  shows "\<exists>h'. cancel h x (insert F_DONT_CALL fl) = Some (h', 1) \<and> timer_inv h' (E - {x}) \<and>
    ents h' = (ents h)(x := (ents h x)\<lparr>m_tTimerId := -1\<rparr>) \<and> m_stCurrSize h' = m_stCurrSize h - 1"
proof -
  from inv have f: "filled h (m_stCurrSize h) E" by (simp add: timer_inv_def)
  obtain s where s: "s < m_stCurrSize h" "heap_at h s = Some x" "id_names h x s"
    using filled_slot[OF f x] by metis
  have get: "ids_get h (tid h x) = Some (int s)"
    using s(3) f by (simp add: ids_get_def id_names_def filled_def arrays_ok_def)
  have b: "\<not> (tid h x < 0 \<or> nat (tid h x) > m_stSize h)" using s(3) by (simp add: id_names_def)
  obtain h' where h': "remove_node h s = Some (h', x)" "timer_inv h' (E - {x})"
      "ents h' = (ents h)(x := (ents h x)\<lparr>m_tTimerId := -1\<rparr>)" "m_stCurrSize h' = m_stCurrSize h - 1"
    using remove_node_ok[OF inv s(1,2)] by blast
  have "cancel h x (insert F_DONT_CALL fl) = Some (h', 1)"
    unfolding cancel_def Let_def if_not_P[OF b] by (simp add: get s(2) h'(1))
  with h' show ?thesis by blast
qed

lemma cancel_not_scheduled:
  assumes "tid h x < 0"
  shows "cancel h x fl = Some (upd_ent h x (\<lambda>e. e\<lparr>m_tTimerId := -1\<rparr>), 0)"
  using assms by (simp add: cancel_def)


subsection \<open>The heap as a queue of least keys\<close>

text \<open>
  What the poll loop asks of the heap: the top is a least entry and popping removes it.
  The order of a run of pops follows from that alone.
\<close>

fun pops :: "('s \<Rightarrow> ('s \<times> 'a) option) \<Rightarrow> nat \<Rightarrow> 's \<Rightarrow> ('s \<times> 'a list) option" where
  "pops pop 0 s = Some (s, [])"
| "pops pop (Suc n) s = do { (s1, x) \<leftarrow> pop s; (s2, xs) \<leftarrow> pops pop n s1; Some (s2, x # xs) }"

locale min_queue =
  fixes inv :: "'s \<Rightarrow> 'a set \<Rightarrow> bool" and key :: "'s \<Rightarrow> 'a \<Rightarrow> 'k::linorder"
    and pop :: "'s \<Rightarrow> ('s \<times> 'a) option"
  assumes pop_least: "inv s A \<Longrightarrow> A \<noteq> {} \<Longrightarrow>
      \<exists>x s'. pop s = Some (s', x) \<and> x \<in> A \<and> inv s' (A - {x}) \<and> key s' = key s \<and> (\<forall>y\<in>A. key s x \<le> key s y)"
    and inv_finite: "inv s A \<Longrightarrow> finite A"
begin

lemma pops_ordered:
  "inv s A \<Longrightarrow> n \<le> card A \<Longrightarrow>
   \<exists>s' xs. pops pop n s = Some (s', xs) \<and> length xs = n \<and> distinct xs \<and> set xs \<subseteq> A \<and>
     inv s' (A - set xs) \<and> key s' = key s \<and> sorted (map (key s) xs) \<and>
     (\<forall>x\<in>set xs. \<forall>y\<in>A - set xs. key s x \<le> key s y)"
proof (induction n arbitrary: s A)
  case (Suc n)
  then have "A \<noteq> {}" by auto
  then obtain x s1 where x: "pop s = Some (s1, x)" "x \<in> A" "inv s1 (A - {x})" "key s1 = key s"
      "\<forall>y\<in>A. key s x \<le> key s y" using pop_least[OF Suc.prems(1)] by blast
  have "n \<le> card (A - {x})" using Suc.prems(2) x(2) inv_finite[OF Suc.prems(1)] by simp
  from Suc.IH[OF x(3) this] obtain s' xs where "pops pop n s1 = Some (s', xs)" "length xs = n" "distinct xs"
      "set xs \<subseteq> A - {x}" "inv s' (A - {x} - set xs)" "key s' = key s" "sorted (map (key s) xs)"
      "\<forall>y\<in>set xs. \<forall>z\<in>A - {x} - set xs. key s y \<le> key s z" unfolding x(4) by blast
  moreover from this have "A - {x} - set xs = A - set (x # xs)" by auto
  ultimately show ?case using x by (intro exI[of _ s'] exI[of _ "x # xs"]) auto
qed simp

end

definition poll_pop :: "T_TimerHeap \<Rightarrow> (T_TimerHeap \<times> addr) option" where
  "poll_pop h = do { (h1, node) \<leftarrow> remove_node h 0; Some (upd_ent h1 node (\<lambda>e. e\<lparr>m_pGLock := 0\<rparr>), node) }"

lemma poll_pop_ok:
  assumes inv: "timer_inv h E" and ne: "m_stCurrSize h \<noteq> 0"
  shows "\<exists>x h'. heap_at h 0 = Some x \<and> poll_pop h = Some (h', x) \<and> x \<in> E \<and> timer_inv h' (E - {x}) \<and>
    (\<forall>y. tval h' y = tval h y) \<and> (\<forall>y\<in>E. tval h x \<le> tval h y) \<and>
    m_stCurrSize h' = m_stCurrSize h - 1 \<and> m_u32PollMax h' = m_u32PollMax h"
proof -
  obtain x where x: "heap_at h 0 = Some x" "x \<in> E" "\<And>e. e \<in> E \<Longrightarrow> tval h x \<le> tval h e"
    using timer_inv_root[OF inv ne] by blast
  obtain h1 where h1: "remove_node h 0 = Some (h1, x)" "timer_inv h1 (E - {x})"
      "ents h1 = (ents h)(x := (ents h x)\<lparr>m_tTimerId := -1\<rparr>)"
      "m_stCurrSize h1 = m_stCurrSize h - 1" "m_u32PollMax h1 = m_u32PollMax h"
    using remove_node_ok[OF inv _ x(1)] ne by auto
  let ?h' = "upd_ent h1 x (\<lambda>e. e\<lparr>m_pGLock := 0\<rparr>)"
  have "timer_inv ?h' (E - {x})" by (rule timer_inv_upd_ent[OF h1(2)]) simp
  moreover have "poll_pop h = Some (?h', x)" by (simp add: poll_pop_def h1(1))
  moreover have "tval ?h' y = tval h y" for y by (simp add: upd_ent_def h1(3))
  moreover have "m_stCurrSize ?h' = m_stCurrSize h - 1" "m_u32PollMax ?h' = m_u32PollMax h"
    using h1 by (simp_all add: upd_ent_def)
  ultimately show ?thesis using x by (intro exI[of _ x] exI[of _ ?h']) auto
qed

interpretation timers: min_queue timer_inv "\<lambda>h. tval h" poll_pop
proof
  fix h E assume inv: "timer_inv h E" and "E \<noteq> {}"
  then have "m_stCurrSize h \<noteq> 0" using timer_inv_card[OF inv] by auto
  from poll_pop_ok[OF inv this]
  show "\<exists>x s'. poll_pop h = Some (s', x) \<and> x \<in> E \<and> timer_inv s' (E - {x}) \<and>
      (\<lambda>e. tval s' e) = (\<lambda>e. tval h e) \<and> (\<forall>y\<in>E. tval h x \<le> tval h y)" by auto
qed (simp add: timer_inv_card)

lemma poll_loop_unfold:
  "poll_loop cb now h c fired =
     (if m_stCurrSize h \<noteq> 0 then
        do {
          x \<leftarrow> heap_at h 0;
          if tval h x \<le> now \<and> c < m_u32PollMax h then
            do {
              (h2, node) \<leftarrow> poll_pop h;
              h3 \<leftarrow> (if funcHandle (ents h2 node) \<noteq> 0 then cb node h2 else Some h2);
              poll_loop cb now h3 (c + 1) (fired @ [node])
            }
          else Some (h, c, fired)
        }
      else Some (h, c, fired))"
  unfolding poll_loop.simps[of cb now h] poll_pop_def
  by (auto simp: Let_def case_prod_beta split: option.splits intro!: Option.bind_cong)

lemma poll_loop_stops:
  assumes inv: "timer_inv h E"
    and stop: "m_stCurrSize h = 0 \<or> (\<exists>x. heap_at h 0 = Some x \<and> (now < tval h x \<or> m_u32PollMax h \<le> c))"
  shows "poll_loop cb now h c fired = Some (h, c, fired)"
    and "m_u32PollMax h \<le> c \<or> (\<forall>y\<in>E. now < tval h y)"
proof -
  show "poll_loop cb now h c fired = Some (h, c, fired)"
    using stop by (subst poll_loop_unfold) (auto split: if_splits)
  show "m_u32PollMax h \<le> c \<or> (\<forall>y\<in>E. now < tval h y)"
  proof (cases "m_stCurrSize h = 0")
    case True
    then show ?thesis using timer_inv_card[OF inv] by auto
  next
    case False
    with timer_inv_root[OF inv False] stop show ?thesis by (metis option.inject order_less_le_trans)
  qed
qed

lemma poll_loop_fires:
  "timer_inv h E \<Longrightarrow>
   \<exists>h' xs. poll_loop (\<lambda>_. Some) now h c fired = Some (h', c + int (length xs), fired @ xs) \<and>
     pops poll_pop (length xs) h = Some (h', xs) \<and> length xs \<le> card E \<and>
     (\<forall>x\<in>set xs. tval h x \<le> now) \<and> (xs \<noteq> [] \<longrightarrow> c + int (length xs) \<le> m_u32PollMax h) \<and>
     (m_u32PollMax h \<le> c + int (length xs) \<or> (\<forall>y\<in>E - set xs. now < tval h y))"
proof (induction "m_stCurrSize h" arbitrary: h E c fired)
  case 0
  then show ?case using poll_loop_stops[of h E] by (intro exI[of _ h] exI[of _ "[]"]) auto
next
  case (Suc n)
  from Suc.hyps(2) have ne: "m_stCurrSize h \<noteq> 0" by simp
  note card = timer_inv_card[OF Suc.prems]
  obtain x h1 where x: "heap_at h 0 = Some x" "poll_pop h = Some (h1, x)" "x \<in> E" "timer_inv h1 (E - {x})"
      "\<And>y. tval h1 y = tval h y" "\<And>y. y \<in> E \<Longrightarrow> tval h x \<le> tval h y" "m_stCurrSize h1 = n" "m_u32PollMax h1 = m_u32PollMax h"
    using poll_pop_ok[OF Suc.prems ne] Suc.hyps(2) by auto
  show ?case
  proof (cases "tval h x \<le> now \<and> c < m_u32PollMax h")
    case False
    with x(1) have "\<exists>x. heap_at h 0 = Some x \<and> (now < tval h x \<or> m_u32PollMax h \<le> c)" by auto
    with poll_loop_stops[OF Suc.prems, of now c] show ?thesis
      by (intro exI[of _ h] exI[of _ "[]"]) auto
  next
    case True
    have step: "poll_loop (\<lambda>_. Some) now h c fired = poll_loop (\<lambda>_. Some) now h1 (c + 1) (fired @ [x])"
      by (subst poll_loop_unfold) (simp add: ne x(1,2) True)
    from Suc.hyps(1)[OF x(7)[symmetric] x(4), of "c + 1" "fired @ [x]"] obtain h' xs where
      IH: "poll_loop (\<lambda>_. Some) now h1 (c + 1) (fired @ [x]) = Some (h', c + 1 + int (length xs), (fired @ [x]) @ xs)"
        "pops poll_pop (length xs) h1 = Some (h', xs)" "length xs \<le> card (E - {x})"
        "\<forall>y\<in>set xs. tval h y \<le> now" "xs \<noteq> [] \<longrightarrow> c + 1 + int (length xs) \<le> m_u32PollMax h"
        "m_u32PollMax h \<le> c + 1 + int (length xs) \<or> (\<forall>y\<in>E - {x} - set xs. now < tval h y)"
      unfolding x(5,8) by blast
    have "length (x # xs) \<le> card E" using IH(3) card x(3) ne by simp
    moreover have "E - {x} - set xs = E - set (x # xs)" by auto
    moreover have "c + int (length (x # xs)) \<le> m_u32PollMax h"
      using IH(5) True by (cases xs) auto
    ultimately show ?thesis using IH(1,2,4,6) True x(2) unfolding step
      by (intro exI[of _ h'] exI[of _ "x # xs"]) (auto simp: algebra_simps)
  qed
qed

text \<open>With handlers that do anything that keeps the heap valid and its poll limit.\<close>

lemma poll_loop_total:
  assumes cb: "\<And>x h E. timer_inv h E \<Longrightarrow> m_u32PollMax h = p \<Longrightarrow>
      \<exists>h' E'. cb x h = Some h' \<and> timer_inv h' E' \<and> m_u32PollMax h' = p"
  shows "timer_inv h E \<Longrightarrow> m_u32PollMax h = p \<Longrightarrow>
   \<exists>h' E' xs. poll_loop cb now h c fired = Some (h', c + int (length xs), fired @ xs) \<and> timer_inv h' E' \<and>
     m_u32PollMax h' = p \<and> (xs \<noteq> [] \<longrightarrow> c + int (length xs) \<le> p) \<and>
     (p \<le> c + int (length xs) \<or> (\<forall>y\<in>E'. now < tval h' y))"
proof (induction "nat (p - c)" arbitrary: h E c fired rule: less_induct)
  case less
  note inv = less.prems(1) and p = less.prems(2)
  have stop: ?case if "poll_loop cb now h c fired = Some (h, c, fired)" "p \<le> c \<or> (\<forall>y\<in>E. now < tval h y)"
    using that inv p by (intro exI[of _ h] exI[of _ E] exI[of _ "[]"]) auto
  show ?case
  proof (cases "m_stCurrSize h = 0")
    case True
    with stop poll_loop_stops[OF inv, of now c] p show ?thesis by blast
  next
    case ne: False
    obtain x h1 where x: "heap_at h 0 = Some x" "poll_pop h = Some (h1, x)" "timer_inv h1 (E - {x})"
        "m_u32PollMax h1 = p" using poll_pop_ok[OF inv ne] p by auto
    show ?thesis
    proof (cases "tval h x \<le> now \<and> c < p")
      case False
      with x(1) p have "\<exists>x. heap_at h 0 = Some x \<and> (now < tval h x \<or> m_u32PollMax h \<le> c)" by auto
      with stop poll_loop_stops[OF inv, of now c] p show ?thesis by blast
    next
      case True
      obtain h2 E2 where h2: "(if funcHandle (ents h1 x) \<noteq> 0 then cb x h1 else Some h1) = Some h2"
          "timer_inv h2 E2" "m_u32PollMax h2 = p"
        using cb[OF x(3,4), of x] x(3,4) by (cases "funcHandle (ents h1 x) = 0") auto
      have step: "poll_loop cb now h c fired = poll_loop cb now h2 (c + 1) (fired @ [x])"
        by (subst poll_loop_unfold) (simp add: ne x(1,2) True p h2(1)[simplified])
      have "nat (p - (c + 1)) < nat (p - c)" using True by simp
      from less.hyps[OF this h2(2,3), of "fired @ [x]"] obtain h' E' xs where
        IH: "poll_loop cb now h2 (c + 1) (fired @ [x]) = Some (h', c + 1 + int (length xs), (fired @ [x]) @ xs)"
          "timer_inv h' E'" "m_u32PollMax h' = p" "xs \<noteq> [] \<longrightarrow> c + 1 + int (length xs) \<le> p"
          "p \<le> c + 1 + int (length xs) \<or> (\<forall>y\<in>E'. now < tval h' y)" by blast
      have "c + int (length (x # xs)) \<le> p" using IH(4) True by (cases xs) auto
      then show ?thesis using IH True unfolding step
        by (intro exI[of _ h'] exI[of _ E'] exI[of _ "x # xs"]) (auto simp: algebra_simps)
    qed
  qed
qed


subsection \<open>Example heap\<close>

text \<open>Two timers, at the addresses 5 and 7, due at 1.5 s and 3 s.\<close>

definition demo_ent :: T_TimerEntity where
  "demo_ent = \<lparr>m_pUsrData = 0, m_u32UsrId = 0, funcHandle = 1, m_tTimerId = -1,
     m_tTimerValue = \<lparr>sec = 0, msec = 0\<rparr>, m_pGLock = 0\<rparr>"

definition demo_empty :: T_TimerHeap where
  "demo_empty = projr (TIMER_HeapCreate (\<lambda>_. True) 4 (\<lambda>_. demo_ent))"

definition demo_heap :: T_TimerHeap where
  "demo_heap = fst (the (schedule_entry (fst (the (schedule_entry demo_empty 7 \<lparr>sec = 3, msec = 0\<rparr>)))
     5 \<lparr>sec = 1, msec = 500\<rparr>))"

lemma demo_empty_ok:
  "timer_inv demo_empty {}" "m_stSize demo_empty = 6" "m_pPool demo_empty n" "m_u32PollMax demo_empty = 64"
  "m_stCurrSize demo_empty = 0" "ents demo_empty x = demo_ent"
proof -
  have c: "TIMER_HeapCreate (\<lambda>_. True) 4 (\<lambda>_. demo_ent) = Inr demo_empty"
    by (simp add: demo_empty_def TIMER_HeapCreate_def Let_def)
  show "timer_inv demo_empty {}" using TIMER_HeapCreate_inv[OF c] by simp
  show "m_stSize demo_empty = 6" "m_pPool demo_empty n" "m_u32PollMax demo_empty = 64"
    "m_stCurrSize demo_empty = 0" "ents demo_empty x = demo_ent"
    by (simp_all add: demo_empty_def TIMER_HeapCreate_def Let_def DEFAULT_MAX_TIMED_OUT_PER_POLL_def)
qed

lemma demo_heap_ok:
  "timer_inv demo_heap {5, 7}" "tval demo_heap 5 = \<lparr>sec = 1, msec = 500\<rparr>"
  "tval demo_heap 7 = \<lparr>sec = 3, msec = 0\<rparr>" "m_u32PollMax demo_heap = 64" "m_pPool demo_heap n"
  "m_stSize demo_heap \<le> 24" "m_stCurrSize demo_heap = 2"
  "x \<noteq> 5 \<Longrightarrow> x \<noteq> 7 \<Longrightarrow> ents demo_heap x = demo_ent"
proof -
  let ?t7 = "\<lparr>sec = 3, msec = 0\<rparr> :: T_Timevalue" and ?t5 = "\<lparr>sec = 1, msec = 500\<rparr> :: T_Timevalue"
  obtain h1 i where h1: "schedule_entry demo_empty 7 ?t7 = Some (h1, 0)" "timer_inv h1 {7}"
      "ents h1 = (ents demo_empty)(7 := (ents demo_empty 7)\<lparr>m_tTimerId := i, m_tTimerValue := ?t7\<rparr>)"
      "m_stCurrSize h1 = 1" "m_pPool h1 = m_pPool demo_empty" "m_u32PollMax h1 = 64" "m_stSize h1 \<le> 12"
    using schedule_entry_ok[OF demo_empty_ok(1), of 7 ?t7] demo_empty_ok by auto
  have pool: "m_pPool h1 n" for n using h1(5) demo_empty_ok(3) by simp
  obtain h2 j where h2: "schedule_entry h1 5 ?t5 = Some (h2, 0)" "timer_inv h2 {5, 7}"
      "ents h2 = (ents h1)(5 := (ents h1 5)\<lparr>m_tTimerId := j, m_tTimerValue := ?t5\<rparr>)"
      "m_stCurrSize h2 = 2" "m_pPool h2 = m_pPool h1" "m_u32PollMax h2 = 64" "m_stSize h2 \<le> 2 * m_stSize h1"
    using schedule_entry_ok[OF h1(2), of 5 ?t5] pool h1(4,6,7) by auto
  have "demo_heap = h2" by (simp add: demo_heap_def h1(1) h2(1))
  with h1 h2 pool demo_empty_ok(6) show "timer_inv demo_heap {5, 7}" "tval demo_heap 5 = ?t5"
    "tval demo_heap 7 = ?t7" "m_u32PollMax demo_heap = 64" "m_pPool demo_heap n"
    "m_stSize demo_heap \<le> 24" "m_stCurrSize demo_heap = 2"
    "x \<noteq> 5 \<Longrightarrow> x \<noteq> 7 \<Longrightarrow> ents demo_heap x = demo_ent" by simp_all
qed

subsection \<open>Properties\<close>



text \<open>C3: cancelling a running timer returns 1 and takes it out of the heap, its id back on the
  free list; cancelling it again returns 0 and changes nothing.\<close>

lemma TIMER_EntityCancel_removes:
  assumes "timer_inv h E" "x \<in> E" "x \<noteq> 0"
  shows "\<exists>h'. TIMER_EntityCancel h x = Some (h', 1) \<and> timer_inv h' (E - {x}) \<and>
    m_stCurrSize h' = m_stCurrSize h - 1 \<and> \<not> TIMER_IsEntityRunning h' x \<and>
    (\<forall>y. y \<noteq> x \<longrightarrow> ents h' y = ents h y) \<and> TIMER_EntityCancel h' x = Some (h', 0)"
proof -
  obtain h' where h': "cancel h x {F_DONT_CALL} = Some (h', 1)" "timer_inv h' (E - {x})"
      "ents h' = (ents h)(x := (ents h x)\<lparr>m_tTimerId := -1\<rparr>)" "m_stCurrSize h' = m_stCurrSize h - 1"
    using cancel_scheduled[OF assms(1,2), of "{}"] by blast
  have "upd_ent h' x (\<lambda>e. e\<lparr>m_tTimerId := -1\<rparr>) = h'" using h'(3) by (simp add: upd_ent_def fun_upd_idem)
  then have "TIMER_EntityCancel h' x = Some (h', 0)"
    using assms(3) h'(3) cancel_not_scheduled[of h' x] by (simp add: TIMER_EntityCancel_def cancel_timer_def)
  with h' assms(3) show ?thesis
    by (intro exI[of _ h']) (simp add: TIMER_EntityCancel_def cancel_timer_def TIMER_IsEntityRunning_def)
qed

lemma TIMER_EntityCancel_removes_witness:
  "\<exists>h'. TIMER_EntityCancel demo_heap 5 = Some (h', 1) \<and> timer_inv h' {7} \<and> m_stCurrSize h' = 1"
  using TIMER_EntityCancel_removes[OF demo_heap_ok(1), of 5] demo_heap_ok(7) by auto



text \<open>C6: whatever the handlers do, as long as they keep the heap valid and its poll limit,
  TIMER_HeapPoll returns: it fires at most the limit, the heap is valid afterwards, and
  unless the limit stopped it every remaining timer is still to come.\<close>

lemma TIMER_HeapPoll_returns:
  assumes "timer_inv h E" and "0 \<le> s" "s < 2 ^ 31" "0 \<le> us" "us < 1000000" and "0 \<le> m_u32PollMax h"
    and "\<And>x g E. timer_inv g E \<Longrightarrow> m_u32PollMax g = m_u32PollMax h \<Longrightarrow>
      \<exists>g' E'. cb x g = Some g' \<and> timer_inv g' E' \<and> m_u32PollMax g' = m_u32PollMax h"
  shows "\<exists>now h' E' n d xs. TIME_VAL_MSEC now = s * 1000 + us div 1000 \<and>
    TIMER_HeapPoll cb (Some (s, us)) h want = Some (h', n, d, xs) \<and> n \<le> m_u32PollMax h \<and>
    timer_inv h' E' \<and> (n = m_u32PollMax h \<or> (\<forall>y\<in>E'. now < tval h' y))"
proof -
  obtain now where now: "TIME_GetTickCount (Some (s, us)) = Some (Inr now)" "TIME_VAL_MSEC now = s * 1000 + us div 1000"
    using TIME_GetTickCount_eq[OF assms(2-5)] by blast
  show ?thesis
  proof (cases "m_stCurrSize h = 0 \<and> want")
    case True
    then have "E = {}" using timer_inv_card[OF assms(1)] by auto
    with True assms(1,6) now(2) show ?thesis
      by (auto simp: TIMER_HeapPoll_def intro!: exI[of _ "{} :: addr set"])
  next
    case False
    have "\<exists>h' E' xs. poll_loop cb now h 0 [] = Some (h', 0 + int (length xs), [] @ xs) \<and> timer_inv h' E' \<and>
       m_u32PollMax h' = m_u32PollMax h \<and> (xs \<noteq> [] \<longrightarrow> 0 + int (length xs) \<le> m_u32PollMax h) \<and>
       (m_u32PollMax h \<le> 0 + int (length xs) \<or> (\<forall>y\<in>E'. now < tval h' y))"
      using assms(7) assms(1) refl by (rule poll_loop_total)
    then obtain h' E' xs where L: "poll_loop cb now h 0 [] = Some (h', int (length xs), xs)"
        "timer_inv h' E'" "xs \<noteq> [] \<longrightarrow> int (length xs) \<le> m_u32PollMax h"
        "m_u32PollMax h \<le> int (length xs) \<or> (\<forall>y\<in>E'. now < tval h' y)" by auto
    have "\<exists>d. TIMER_HeapPoll cb (Some (s, us)) h want = Some (h', int (length xs), d, xs)"
    proof (cases "m_stCurrSize h' = 0")
      case ne: False
      with timer_inv_root[OF L(2)] obtain y where "heap_at h' 0 = Some y" by metis
      then show ?thesis using False now(1) L(1) by (simp add: TIMER_HeapPoll_def Let_def)
    qed (use False now(1) L(1) in \<open>auto simp: TIMER_HeapPoll_def\<close>)
    moreover have "int (length xs) \<le> m_u32PollMax h" using L(3) assms(6) by (cases xs) auto
    ultimately show ?thesis using now(2) L(2,4) by (metis order_antisym)
  qed
qed

lemma TIMER_HeapPoll_returns_witness:
  "\<exists>h' E' n d xs. TIMER_HeapPoll (\<lambda>x h. Some (fst (TIMER_HeapSetPollMax h 64))) (Some (2, 0)) demo_heap False =
      Some (h', n, d, xs) \<and> n \<le> 64 \<and> timer_inv h' E'"
proof -
  let ?cb = "\<lambda>x h. Some (fst (TIMER_HeapSetPollMax h 64))"
  have a: "(0::int) \<le> 2" "(2::int) < 2 ^ 31" "(0::int) \<le> 0" "(0::int) < 1000000" by simp_all
  have p: "0 \<le> m_u32PollMax demo_heap" by (simp add: demo_heap_ok(4))
  have "timer_inv (g\<lparr>m_u32PollMax := 64\<rparr>) E" if "timer_inv g E" for g E
    using that by (simp add: timer_inv_def filled_def arrays_ok_def id_names_def heap_ordered_def free_ids_def)
  then have cb: "\<exists>g' E'. ?cb x g = Some g' \<and> timer_inv g' E' \<and> m_u32PollMax g' = m_u32PollMax demo_heap"
    if "timer_inv g E" "m_u32PollMax g = m_u32PollMax demo_heap" for g E and x :: addr
    using that demo_heap_ok(4) by (auto simp: TIMER_HeapSetPollMax_def)
  have "\<exists>now h' E' n d xs. TIME_VAL_MSEC now = 2 * 1000 + 0 div 1000 \<and>
    TIMER_HeapPoll ?cb (Some (2, 0)) demo_heap False = Some (h', n, d, xs) \<and> n \<le> m_u32PollMax demo_heap \<and>
    timer_inv h' E' \<and> (n = m_u32PollMax demo_heap \<or> (\<forall>y\<in>E'. now < tval h' y))"
    by (rule TIMER_HeapPoll_returns[OF demo_heap_ok(1) a]) (rule p, rule cb)
  then show ?thesis unfolding demo_heap_ok(4) by blast
qed

text \<open>The delay that TIMER_HeapPoll reports is the time from the clock to the earliest timer
  left in the heap, and 0 where that one is already due.\<close>

lemma TIMER_HeapPoll_next_delay:
  assumes "TIMER_HeapPoll cb (Some (s, us)) h True = Some (h', n, d, xs)" "timer_inv h' E'" "E' \<noteq> {}"
    and "m_stCurrSize h \<noteq> 0" and "0 \<le> s" "s < 2 ^ 31" "0 \<le> us" "us < 1000000"
  shows "\<exists>x\<in>E'. \<exists>t. (\<forall>y\<in>E'. tval h' x \<le> tval h' y) \<and> d = Some t \<and>
    TIME_VAL_MSEC t = max 0 (TIME_VAL_MSEC (tval h' x) - (s * 1000 + us div 1000))"
proof -
  obtain now where now: "TIME_GetTickCount (Some (s, us)) = Some (Inr now)" "TIME_VAL_MSEC now = s * 1000 + us div 1000"
    using TIME_GetTickCount_eq[OF assms(5-8)] by blast
  have ne: "m_stCurrSize h' \<noteq> 0" using timer_inv_card[OF assms(2)] assms(3) by auto
  obtain x where x: "heap_at h' 0 = Some x" "x \<in> E'" "\<And>e. e \<in> E' \<Longrightarrow> tval h' x \<le> tval h' e"
    using timer_inv_root[OF assms(2) ne] by blast
  let ?d = "TIME_VAL_SUB (tval h' x) now"
  have D: "TIME_VAL_MSEC ?d = TIME_VAL_MSEC (tval h' x) - TIME_VAL_MSEC now" "tv_normal ?d"
    using TIME_Normalize_spec[of "\<lparr>sec = sec (tval h' x) - sec now, msec = msec (tval h' x) - msec now\<rparr>"]
    by (simp_all add: TIME_VAL_SUB_def TIME_VAL_MSEC_def)
  have "d = Some (if sec ?d < 0 \<or> msec ?d < 0 then \<lparr>sec = 0, msec = 0\<rparr> else ?d)"
    using assms(1) ne x(1) assms(4) now(1)
    by (auto simp: TIMER_HeapPoll_def Let_def split: Option.bind_splits if_splits)
  moreover have "TIME_VAL_MSEC (if sec ?d < 0 \<or> msec ?d < 0 then \<lparr>sec = 0, msec = 0\<rparr> else ?d) = max 0 (TIME_VAL_MSEC ?d)"
    using D(2) by (auto simp: TIME_VAL_MSEC_def tv_normal_def)
  ultimately show ?thesis using x(2,3) D(1) now(2) by auto
qed

lemma TIMER_HeapPoll_next_delay_witness:
  "\<exists>t. TIMER_HeapPoll (\<lambda>_. Some) (Some (0, 0)) demo_heap True = Some (demo_heap, 0, Some t, []) \<and>
    TIME_VAL_MSEC t = 1500"
proof -
  have ne: "m_stCurrSize demo_heap \<noteq> 0" by (simp add: demo_heap_ok(7))
  have a: "(0::int) \<le> 0" "(0::int) < 2 ^ 31" "(0::int) \<le> 0" "(0::int) < 1000000" by simp_all
  obtain now where now: "TIME_GetTickCount (Some (0, 0)) = Some (Inr now)" "TIME_VAL_MSEC now = 0 * 1000" "tv_normal now"
    using TIME_GetTickCount_eq[OF a] by auto
  then have n0: "now = \<lparr>sec = 0, msec = 0\<rparr>" using tv_normal_whole[of now 0] by simp
  obtain x where x: "heap_at demo_heap 0 = Some x" "x \<in> {5, 7}"
    using timer_inv_root[OF demo_heap_ok(1) ne] by metis
  then have "now < tval demo_heap x" using demo_heap_ok(2,3) by (auto simp: n0 less_T_Timevalue_ext_def)
  with x(1) have "poll_loop (\<lambda>_. Some) now demo_heap 0 [] = Some (demo_heap, 0, [])"
    by (intro poll_loop_stops(1)[OF demo_heap_ok(1)]) blast
  then obtain d where P: "TIMER_HeapPoll (\<lambda>_. Some) (Some (0, 0)) demo_heap True = Some (demo_heap, 0, d, [])"
    using x(1) ne now(1) by (simp add: TIMER_HeapPoll_def Let_def)
  obtain y t where y: "y \<in> {5, 7}" "tval demo_heap y \<le> tval demo_heap 5" "d = Some t"
      "TIME_VAL_MSEC t = max 0 (TIME_VAL_MSEC (tval demo_heap y) - (0 * 1000 + 0 div 1000))"
    using TIMER_HeapPoll_next_delay[OF P demo_heap_ok(1) insert_not_empty ne a] by auto
  moreover from y(1,2) have "y = 5" using demo_heap_ok(2,3) by (auto simp: less_eq_T_Timevalue_ext_def)
  ultimately show ?thesis using P by (simp add: demo_heap_ok(2) TIME_VAL_MSEC_def)
qed

text \<open>TIMER_HeapEarliestTime reports the least expiry time of the scheduled entities.\<close>

lemma TIMER_HeapEarliestTime_least:
  assumes "timer_inv h E" "E \<noteq> {}"
  shows "TIMER_HeapEarliestTime h = Some (Min ((\<lambda>x. tval h x) ` E)) \<and> TIMER_HeapGetCount h = card E"
proof -
  note card = timer_inv_card[OF assms(1)]
  with assms(2) have ne: "m_stCurrSize h \<noteq> 0" by auto
  obtain x where x: "heap_at h 0 = Some x" "x \<in> E" "\<And>e. e \<in> E \<Longrightarrow> tval h x \<le> tval h e"
    using timer_inv_root[OF assms(1) ne] by blast
  then have "Min ((\<lambda>x. tval h x) ` E) = tval h x" using card by (intro Min_eqI) auto
  then show ?thesis using x(1) ne card by (simp add: TIMER_HeapEarliestTime_def TIMER_HeapGetCount_def)
qed

lemma TIMER_HeapEarliestTime_least_witness:
  "TIMER_HeapEarliestTime demo_heap = Some \<lparr>sec = 1, msec = 500\<rparr> \<and> TIMER_HeapGetCount demo_heap = 2"
  using TIMER_HeapEarliestTime_least[OF demo_heap_ok(1) insert_not_empty] demo_heap_ok(2,3)
  by (simp add: min_def less_eq_T_Timevalue_ext_def)

end
