(* ===== verification/Cstring.thy ===== *)
theory Cstring
  imports C_Prelude
begin

section \<open>Counted strings (\<^verbatim>\<open>oslib/src/cstring.c\<close>, \<^verbatim>\<open>ctype.h\<close>)\<close>

text \<open>
  A \<open>str_t\<close> is a pointer into the byte memory with a signed length; the functions that only
  read return an \<open>option\<close> of their result, those that write also return the new memory.
  A \<open>str_t\<close> passed by pointer and changed is returned as a value. The functions of libc that
  the source calls (\<open>strlen\<close>, \<open>memcmp\<close>, \<open>memchr\<close>, \<open>strncmp\<close>, \<open>memcpy\<close>) read byte by
  byte, so that running past the end of the memory is \<open>None\<close>. \<open>memcmp\<close> and
  \<open>strncmp\<close> are modelled up to the sign of their result; \<open>memcpy\<close> of overlapping ranges is
  undefined.
\<close>

record str_t =
  ptr :: addr
  slen :: int

subsection \<open>Character classes\<close>

definition c_isdigit :: "u8 \<Rightarrow> bool" where "c_isdigit c = (c \<ge> 48 \<and> c \<le> 57)"
definition c_islower :: "u8 \<Rightarrow> bool" where "c_islower c = (c \<ge> 97 \<and> c \<le> 122)"
definition c_isupper :: "u8 \<Rightarrow> bool" where "c_isupper c = (c \<ge> 65 \<and> c \<le> 90)"
definition c_isalpha :: "u8 \<Rightarrow> bool" where "c_isalpha c = (c_islower c \<or> c_isupper c)"
definition c_isalnum :: "u8 \<Rightarrow> bool" where "c_isalnum c = (c_isalpha c \<or> c_isdigit c)"
definition c_isascii :: "u8 \<Rightarrow> bool" where "c_isascii c = (c < 128)"
definition c_isspace :: "u8 \<Rightarrow> bool" where
  "c_isspace c = (c = 32 \<or> c = 9 \<or> c = 10 \<or> c = 13 \<or> c = 11)"
definition c_isblank :: "u8 \<Rightarrow> bool" where "c_isblank c = (c = 32 \<or> c = 9)"
definition c_tolower :: "u8 \<Rightarrow> u8" where "c_tolower c = (if c \<ge> 65 \<and> c \<le> 90 then c + 32 else c)"
definition c_toupper :: "u8 \<Rightarrow> u8" where "c_toupper c = (if c \<ge> 97 \<and> c \<le> 122 then c - 32 else c)"
definition c_isxdigit :: "u8 \<Rightarrow> bool" where
  "c_isxdigit c = (c_isdigit c \<or> c_tolower c \<ge> 97 \<and> c_tolower c \<le> 102)"

definition c_hex_digits :: "u8 list" where
  "c_hex_digits = [48, 49, 50, 51, 52, 53, 54, 55, 56, 57, 97, 98, 99, 100, 101, 102]"

definition c_val_to_hex_digit :: "mem \<Rightarrow> nat \<Rightarrow> addr \<Rightarrow> mem option" where
  "c_val_to_hex_digit m value p =
     do {
       m1 \<leftarrow> wr m p (c_hex_digits ! ((value div 16) mod 16));
       wr m1 (p + 1) (c_hex_digits ! (value mod 16))
     }"

definition c_hex_digit_to_val :: "u8 \<Rightarrow> nat" where
  "c_hex_digit_to_val c =
     (if c \<le> 57 then sub32 (unat c) 48 mod 16
      else if c \<le> 70 then sub32 (unat c + 10) 65 mod 16
      else sub32 (unat c + 10) 97 mod 16)"

subsection \<open>Functions of libc\<close>

function strlen :: "mem \<Rightarrow> addr \<Rightarrow> nat option" where
  "strlen m p =
     (case rd m p of None \<Rightarrow> None
      | Some c \<Rightarrow> if c = 0 then Some 0 else map_option Suc (strlen m (p + 1)))"
  by pat_completeness auto
termination
  by (relation "measure (\<lambda>(m, p). length m - p)") (auto simp: rd_def split: if_splits)

fun memcmp :: "mem \<Rightarrow> addr \<Rightarrow> addr \<Rightarrow> nat \<Rightarrow> int option" where
  "memcmp m p q 0 = Some 0"
| "memcmp m p q (Suc n) =
     do {
       a \<leftarrow> rd m p;
       b \<leftarrow> rd m q;
       if a = b then memcmp m (p + 1) (q + 1) n else Some (if a < b then -1 else 1)
     }"

fun strncmp :: "mem \<Rightarrow> addr \<Rightarrow> addr \<Rightarrow> nat \<Rightarrow> int option" where
  "strncmp m p q 0 = Some 0"
| "strncmp m p q (Suc n) =
     do {
       a \<leftarrow> rd m p;
       b \<leftarrow> rd m q;
       if a \<noteq> b then Some (if a < b then -1 else 1)
       else if a = 0 then Some 0
       else strncmp m (p + 1) (q + 1) n
     }"

fun memchr :: "mem \<Rightarrow> addr \<Rightarrow> u8 \<Rightarrow> nat \<Rightarrow> addr option" where
  "memchr m p c 0 = Some 0"
| "memchr m p c (Suc n) =
     do { a \<leftarrow> rd m p; if a = c then Some p else memchr m (p + 1) c n }"

definition memcpy :: "mem \<Rightarrow> addr \<Rightarrow> addr \<Rightarrow> nat \<Rightarrow> mem option" where
  "memcpy m dst src n =
     do {
       guard (n = 0 \<or> dst + n \<le> src \<or> src + n \<le> dst);
       bs \<leftarrow> rd_bytes m src n;
       wr_bytes m dst bs
     }"

declare strlen.simps [simp del]

text \<open>
  \<open>POOL_Alloc\<close> as far as the strings need it: fresh bytes at the end of the memory, 0 when the
  address space is used up. The fresh bytes are always written before they are read.
\<close>

definition POOL_bytes :: "mem \<Rightarrow> nat \<Rightarrow> mem \<times> addr" where
  "POOL_bytes m n = (if 0 < length m \<and> length m + n < 2 ^ 32 then (m @ replicate n 0, length m) else (m, 0))"

subsection \<open>Making strings\<close>

definition c_cstr :: "mem \<Rightarrow> addr \<Rightarrow> str_t option" where
  "c_cstr m s = (if s = 0 then Some \<lparr>ptr = s, slen = 0\<rparr>
     else map_option (\<lambda>n. \<lparr>ptr = s, slen = s32 (int n)\<rparr>) (strlen m s))"

definition c_strset :: "addr \<Rightarrow> nat \<Rightarrow> str_t" where
  "c_strset p len = \<lparr>ptr = p, slen = s32 (int len)\<rparr>"

definition c_strset2 :: "mem \<Rightarrow> addr \<Rightarrow> str_t option" where
  "c_strset2 m src = (if src = 0 then Some \<lparr>ptr = src, slen = 0\<rparr>
     else map_option (\<lambda>n. \<lparr>ptr = src, slen = s32 (int n)\<rparr>) (strlen m src))"

definition c_strset3 :: "addr \<Rightarrow> addr \<Rightarrow> str_t" where
  "c_strset3 begin end = \<lparr>ptr = begin, slen = s32 (int end - int begin)\<rparr>"

definition c_strlen :: "str_t \<Rightarrow> nat" where "c_strlen s = nat (slen s mod 2 ^ 32)"
definition c_strbuf :: "str_t \<Rightarrow> addr" where "c_strbuf s = ptr s"

definition c_str :: "mem \<Rightarrow> addr \<Rightarrow> str_t option" where
  "c_str m str = (if str = 0 then Some \<lparr>ptr = str, slen = 0\<rparr>
     else map_option (\<lambda>n. \<lparr>ptr = str, slen = s32 (int n)\<rparr>) (strlen m str))"

definition c_strassign :: "str_t \<Rightarrow> str_t" where
  "c_strassign src = \<lparr>ptr = ptr src, slen = slen src\<rparr>"


subsection \<open>Spans and tokens\<close>

text \<open>The inner loops: occurrences of \<open>c\<close> in the set, counted (\<open>count_*\<close>) or looked for.\<close>

fun count_set :: "mem \<Rightarrow> u8 \<Rightarrow> addr \<Rightarrow> nat \<Rightarrow> nat option" where
  "count_set m c p 0 = Some 0"
| "count_set m c p (Suc n) =
     do { b \<leftarrow> rd m p; k \<leftarrow> count_set m c (p + 1) n; Some (if c = b then k + 1 else k) }"

function count_cset :: "mem \<Rightarrow> u8 \<Rightarrow> addr \<Rightarrow> nat option" where
  "count_cset m c p =
     (case rd m p of None \<Rightarrow> None
      | Some b \<Rightarrow> if b = 0 then Some 0
          else map_option (\<lambda>k. if c = b then k + 1 else k) (count_cset m c (p + 1)))"
  by pat_completeness auto
termination
  by (relation "measure (\<lambda>(m, c, p). length m - p)") (auto simp: rd_def split: if_splits)

fun in_set :: "mem \<Rightarrow> u8 \<Rightarrow> addr \<Rightarrow> nat \<Rightarrow> bool option" where
  "in_set m c p 0 = Some False"
| "in_set m c p (Suc n) = do { b \<leftarrow> rd m p; if c = b then Some True else in_set m c (p + 1) n }"

function in_cset :: "mem \<Rightarrow> u8 \<Rightarrow> addr \<Rightarrow> bool option" where
  "in_cset m c p =
     (case rd m p of None \<Rightarrow> None
      | Some b \<Rightarrow> if b = 0 then Some False else if c = b then Some True else in_cset m c (p + 1))"
  by pat_completeness auto
termination
  by (relation "measure (\<lambda>(m, c, p). length m - p)") (auto simp: rd_def split: if_splits)

declare count_cset.simps [simp del] in_cset.simps [simp del]

text \<open>The outer loops, over \<open>n\<close> remaining characters from \<open>p\<close>, at index \<open>i\<close>.\<close>

fun spn_loop :: "mem \<Rightarrow> (u8 \<Rightarrow> nat option) \<Rightarrow> addr \<Rightarrow> nat \<Rightarrow> nat \<Rightarrow> nat \<Rightarrow> nat option" where
  "spn_loop m cnt p 0 i count = Some count"
| "spn_loop m cnt p (Suc n) i count =
     (if count \<noteq> i then Some count
      else do { c \<leftarrow> rd m p; k \<leftarrow> cnt c; spn_loop m cnt (p + 1) n (i + 1) (count + k) })"

fun cspn_loop :: "mem \<Rightarrow> (u8 \<Rightarrow> bool option) \<Rightarrow> addr \<Rightarrow> nat \<Rightarrow> nat \<Rightarrow> nat option" where
  "cspn_loop m hit p 0 i = Some i"
| "cspn_loop m hit p (Suc n) i =
     do { c \<leftarrow> rd m p; b \<leftarrow> hit c; if b then Some i else cspn_loop m hit (p + 1) n (i + 1) }"

definition c_strspn :: "mem \<Rightarrow> str_t \<Rightarrow> str_t \<Rightarrow> int option" where
  "c_strspn m str set_char =
     map_option int (spn_loop m (\<lambda>c. count_set m c (ptr set_char) (nat (slen set_char))) (ptr str) (nat (slen str)) 0 0)"

definition c_strspn2 :: "mem \<Rightarrow> str_t \<Rightarrow> addr \<Rightarrow> int option" where
  "c_strspn2 m str set_char =
     map_option int (spn_loop m (\<lambda>c. count_cset m c set_char) (ptr str) (nat (slen str)) 0 0)"

definition c_strcspn :: "mem \<Rightarrow> str_t \<Rightarrow> str_t \<Rightarrow> int option" where
  "c_strcspn m str set_char =
     map_option int (cspn_loop m (\<lambda>c. in_set m c (ptr set_char) (nat (slen set_char))) (ptr str) (nat (slen str)) 0)"

definition c_strcspn2 :: "mem \<Rightarrow> str_t \<Rightarrow> addr \<Rightarrow> int option" where
  "c_strcspn2 m str set_char =
     map_option int (cspn_loop m (\<lambda>c. in_cset m c set_char) (ptr str) (nat (slen str)) 0)"

text \<open>
  \<open>c_strtok\<close> and \<open>c_strtok2\<close> share their text but for the two span functions. The result is
  the index and \<open>tok\<close>. The lengths are compared as \<open>size_t\<close>.
\<close>

definition strtok_with ::
  "(str_t \<Rightarrow> int option) \<Rightarrow> (str_t \<Rightarrow> int option) \<Rightarrow> str_t \<Rightarrow> str_t \<Rightarrow> nat \<Rightarrow> (int \<times> str_t) option" where
  "strtok_with spn cspn str tok start_idx =
     (let tok0 = tok\<lparr>slen := 0\<rparr> in
      if slen str = 0 \<or> c_strlen str < start_idx then Some (slen str, tok0)
      else
        let tok1 = tok0\<lparr>ptr := ptr str + start_idx, slen := slen str - int start_idx\<rparr> in
        do {
          str_idx \<leftarrow> spn tok1;
          if int start_idx + str_idx = slen str then Some (slen str, tok1)
          else
            let tok2 = tok1\<lparr>ptr := nat (int (ptr tok1) + str_idx), slen := slen tok1 - str_idx\<rparr> in
            do {
              n \<leftarrow> cspn tok2;
              Some (int start_idx + str_idx, tok2\<lparr>slen := n\<rparr>)
            }
        })"

definition c_strtok :: "mem \<Rightarrow> str_t \<Rightarrow> str_t \<Rightarrow> str_t \<Rightarrow> nat \<Rightarrow> (int \<times> str_t) option" where
  "c_strtok m str delim tok start_idx =
     strtok_with (\<lambda>t. c_strspn m t delim) (\<lambda>t. c_strcspn m t delim) str tok start_idx"

definition c_strtok2 :: "mem \<Rightarrow> str_t \<Rightarrow> addr \<Rightarrow> str_t \<Rightarrow> nat \<Rightarrow> (int \<times> str_t) option" where
  "c_strtok2 m str delim tok start_idx =
     strtok_with (\<lambda>t. c_strspn2 m t delim) (\<lambda>t. c_strcspn2 m t delim) str tok start_idx"

subsection \<open>Comparing\<close>

function stricmp :: "mem \<Rightarrow> addr \<Rightarrow> addr \<Rightarrow> int option" where
  "stricmp m s1 s2 =
     (case rd m s1 of None \<Rightarrow> None
      | Some a \<Rightarrow>
        (case rd m s2 of None \<Rightarrow> None
         | Some b \<Rightarrow>
           if a = b \<or> c_tolower a = c_tolower b
           then (if a = 0 then Some 0 else stricmp m (s1 + 1) (s2 + 1))
           else Some (if c_tolower a < c_tolower b then -1 else 1)))"
  by pat_completeness auto
termination
  by (relation "measure (\<lambda>(m, s1, s2). length m - s1)") (auto simp: rd_def split: if_splits)

function strnicmp_loop :: "mem \<Rightarrow> addr \<Rightarrow> addr \<Rightarrow> int \<Rightarrow> int option" where
  "strnicmp_loop m s1 s2 len =
     (case rd m s1 of None \<Rightarrow> None
      | Some a \<Rightarrow>
        (case rd m s2 of None \<Rightarrow> None
         | Some b \<Rightarrow>
           if a = b \<or> c_tolower a = c_tolower b
           then (if a = 0 \<or> len - 1 \<le> 0 then Some 0 else strnicmp_loop m (s1 + 1) (s2 + 1) (len - 1))
           else Some (if c_tolower a < c_tolower b then -1 else 1)))"
  by pat_completeness auto
termination
  by (relation "measure (\<lambda>(m, s1, s2, len). nat len)") auto

declare stricmp.simps [simp del] strnicmp_loop.simps [simp del]

definition strnicmp :: "mem \<Rightarrow> addr \<Rightarrow> addr \<Rightarrow> int \<Rightarrow> int option" where
  "strnicmp m s1 s2 len = (if len = 0 then Some 0 else strnicmp_loop m s1 s2 len)"

definition c_strcmp :: "mem \<Rightarrow> str_t \<Rightarrow> str_t \<Rightarrow> int option" where
  "c_strcmp m str1 str2 =
     (if slen str1 = 0 then Some (if slen str2 = 0 then 0 else -1)
      else if slen str2 = 0 then Some 1
      else do {
        res \<leftarrow> memcmp m (ptr str1) (ptr str2)
          (nat ((if slen str1 < slen str2 then slen str1 else slen str2) mod 2 ^ 32));
        Some (if res = 0
              then (if slen str1 < slen str2 then -1 else if slen str1 = slen str2 then 0 else 1)
              else res)
      })"

definition clip :: "str_t \<Rightarrow> nat \<Rightarrow> str_t" where
  "clip str len = (if len < c_strlen str then \<lparr>ptr = ptr str, slen = s32 (int len)\<rparr> else str)"

definition c_strncmp :: "mem \<Rightarrow> str_t \<Rightarrow> str_t \<Rightarrow> nat \<Rightarrow> int option" where
  "c_strncmp m str1 str2 len = c_strcmp m (clip str1 len) (clip str2 len)"

definition c_strncmp2 :: "mem \<Rightarrow> str_t \<Rightarrow> addr \<Rightarrow> nat \<Rightarrow> int option" where
  "c_strncmp2 m str1 str2 len = do { copy2 \<leftarrow> c_cstr m str2; c_strncmp m str1 copy2 len }"

definition c_strcmp2 :: "mem \<Rightarrow> str_t \<Rightarrow> addr \<Rightarrow> int option" where
  "c_strcmp2 m str1 str2 = do { copy2 \<leftarrow> c_cstr m str2; c_strcmp m str1 copy2 }"

definition c_stricmp :: "mem \<Rightarrow> str_t \<Rightarrow> str_t \<Rightarrow> int option" where
  "c_stricmp m str1 str2 =
     (if slen str1 = 0 then Some (if slen str2 = 0 then 0 else -1)
      else if slen str2 = 0 then Some 1
      else do {
        res \<leftarrow> strnicmp m (ptr str1) (ptr str2) (if slen str1 < slen str2 then slen str1 else slen str2);
        Some (if res = 0
              then (if slen str1 < slen str2 then -1 else if slen str1 = slen str2 then 0 else 1)
              else res)
      })"

definition c_stricmp2 :: "mem \<Rightarrow> str_t \<Rightarrow> addr \<Rightarrow> int option" where
  "c_stricmp2 m str1 str2 = do { copy2 \<leftarrow> c_cstr m str2; c_stricmp m str1 copy2 }"

definition c_strnicmp :: "mem \<Rightarrow> str_t \<Rightarrow> str_t \<Rightarrow> nat \<Rightarrow> int option" where
  "c_strnicmp m str1 str2 len = c_stricmp m (clip str1 len) (clip str2 len)"

definition c_strnicmp2 :: "mem \<Rightarrow> str_t \<Rightarrow> addr \<Rightarrow> nat \<Rightarrow> int option" where
  "c_strnicmp2 m str1 str2 len = do { copy2 \<leftarrow> c_cstr m str2; c_strnicmp m str1 copy2 len }"

subsection \<open>Searching and trimming\<close>

text \<open>The search loops from \<open>s\<close> to \<open>ends\<close>; \<open>n\<close> counts the positions left.\<close>

fun find_from :: "(addr \<Rightarrow> int option) \<Rightarrow> addr \<Rightarrow> nat \<Rightarrow> addr option" where
  "find_from cmp s 0 = Some 0"
| "find_from cmp s (Suc n) = do { r \<leftarrow> cmp s; if r = 0 then Some s else find_from cmp (s + 1) n }"

definition c_strstr :: "mem \<Rightarrow> str_t \<Rightarrow> str_t \<Rightarrow> addr option" where
  "c_strstr m str substr =
     (if slen substr = 0 then Some (ptr str)
      else find_from (\<lambda>s. strncmp m s (ptr substr) (nat (slen substr mod 2 ^ 32))) (ptr str)
        (nat (slen str - slen substr + 1)))"

definition c_stristr :: "mem \<Rightarrow> str_t \<Rightarrow> str_t \<Rightarrow> addr option" where
  "c_stristr m str substr =
     (if slen substr = 0 then Some (ptr str)
      else find_from (\<lambda>s. strnicmp m s (ptr substr) (slen substr)) (ptr str)
        (nat (slen str - slen substr + 1)))"

definition c_strchr :: "mem \<Rightarrow> str_t \<Rightarrow> u8 \<Rightarrow> addr option" where
  "c_strchr m str chr =
     (if slen str = 0 then Some 0 else memchr m (ptr str) chr (nat (slen str mod 2 ^ 32)))"

text \<open>The pointers \<open>p\<close> at which the loops stop; \<open>rtrim_to\<close> returns the distance from the start.\<close>

fun ltrim_to :: "mem \<Rightarrow> addr \<Rightarrow> nat \<Rightarrow> addr option" where
  "ltrim_to m p 0 = Some p"
| "ltrim_to m p (Suc n) = do { c \<leftarrow> rd m p; if c_isspace c then ltrim_to m (p + 1) n else Some p }"

fun rtrim_to :: "mem \<Rightarrow> addr \<Rightarrow> nat \<Rightarrow> nat option" where
  "rtrim_to m p 0 = Some 0"
| "rtrim_to m p (Suc n) =
     do { c \<leftarrow> rd m (p + n); if c_isspace c then rtrim_to m p n else Some (Suc n) }"

definition c_strltrim :: "mem \<Rightarrow> str_t \<Rightarrow> str_t option" where
  "c_strltrim m str =
     do {
       p \<leftarrow> ltrim_to m (ptr str) (nat (slen str));
       Some \<lparr>ptr = p, slen = slen str - (int p - int (ptr str))\<rparr>
     }"

definition c_strrtrim :: "mem \<Rightarrow> str_t \<Rightarrow> str_t option" where
  "c_strrtrim m str =
     (if slen str < 0 then Some str
      else map_option (\<lambda>n. str\<lparr>slen := int n\<rparr>) (rtrim_to m (ptr str) (nat (slen str))))"

definition c_strtrim :: "mem \<Rightarrow> str_t \<Rightarrow> str_t option" where
  "c_strtrim m str = do { s \<leftarrow> c_strltrim m str; c_strrtrim m s }"

subsection \<open>Numbers\<close>

definition C_MAXLONG :: int where "C_MAXLONG = 2147483647"
definition C_MINLONG :: int where "C_MINLONG = - C_MAXLONG - 1"
definition C_MAXULONG :: nat where "C_MAXULONG = 4294967295"

fun strtoul_loop :: "mem \<Rightarrow> addr \<Rightarrow> nat \<Rightarrow> nat \<Rightarrow> nat option" where
  "strtoul_loop m p 0 value = Some value"
| "strtoul_loop m p (Suc n) value =
     do {
       c \<leftarrow> rd m p;
       if \<not> c_isdigit c then Some value
       else strtoul_loop m (p + 1) n (u32 (value * 10 + (unat c - 48)))
     }"

definition c_strtoul :: "mem \<Rightarrow> str_t \<Rightarrow> nat option" where
  "c_strtoul m str = strtoul_loop m (ptr str) (c_strlen str) 0"

definition c_strtol :: "mem \<Rightarrow> str_t \<Rightarrow> int option" where
  "c_strtol m str =
     do {
       sign \<leftarrow> (if slen str > 0 then rd m (ptr str) else Some 0);
       if slen str > 0 \<and> (sign = 43 \<or> sign = 45) then
         do {
           v \<leftarrow> c_strtoul m \<lparr>ptr = ptr str + 1, slen = slen str - 1\<rparr>;
           if sign = 45
           then do { guard (s32 (int v) \<noteq> C_MINLONG); Some (s32 (- s32 (int v))) }
           else Some (s32 (int v))
         }
       else map_option (\<lambda>v. s32 (int v)) (c_strtoul m str)
     }"

text \<open>\<open>digit base c\<close> is the test and value of a digit in the loops of \<open>c_strtoul2\<close>.\<close>

fun strtoul2_loop :: "mem \<Rightarrow> (u8 \<Rightarrow> nat option) \<Rightarrow> nat \<Rightarrow> addr \<Rightarrow> nat \<Rightarrow> nat \<Rightarrow> nat \<Rightarrow> (nat \<times> nat) option" where
  "strtoul2_loop m digit base p 0 i value = Some (i, value)"
| "strtoul2_loop m digit base p (Suc n) i value =
     do {
       ch \<leftarrow> rd m p;
       case digit ch of None \<Rightarrow> Some (i, value)
       | Some c \<Rightarrow> strtoul2_loop m digit base (p + 1) n (i + 1) (u32 (value * base + c))
     }"

definition digit_dec :: "nat \<Rightarrow> u8 \<Rightarrow> nat option" where
  "digit_dec base ch = (let c = sub32 (unat ch) 48 in if c \<ge> base then None else Some c)"

definition digit_hex :: "u8 \<Rightarrow> nat option" where
  "digit_hex ch = (if \<not> c_isxdigit ch then None else Some (c_hex_digit_to_val ch))"

definition c_strtoul2 :: "mem \<Rightarrow> str_t \<Rightarrow> nat \<Rightarrow> (nat \<times> str_t) option" where
  "c_strtoul2 m str base =
     do {
       (i, value) \<leftarrow>
         (if base \<le> 10 then strtoul2_loop m (digit_dec base) base (ptr str) (c_strlen str) 0 0
          else if base = 16 then strtoul2_loop m digit_hex 16 (ptr str) (c_strlen str) 0 0
          else None);
       Some (value, \<lparr>ptr = ptr str + i, slen = s32 (slen str - int i)\<rparr>)
     }"

text \<open>\<open>c_strtoul3\<close> returns the status and the value it stored, if it stored one.\<close>

fun strtoul3_loop :: "mem \<Rightarrow> (u8 \<Rightarrow> nat option) \<Rightarrow> nat \<Rightarrow> addr \<Rightarrow> nat \<Rightarrow> nat \<Rightarrow> (int \<times> nat) option" where
  "strtoul3_loop m digit base p 0 value = Some (EO_SUCCESS, value)"
| "strtoul3_loop m digit base p (Suc n) value =
     do {
       ch \<leftarrow> rd m p;
       case digit ch of None \<Rightarrow> Some (EO_SUCCESS, value)
       | Some c \<Rightarrow>
         if value > C_MAXULONG div base then Some (EO_TOOBIG, C_MAXULONG)
         else
           let value = value * base in
           if C_MAXULONG - value < c then Some (EO_TOOBIG, C_MAXULONG)
           else strtoul3_loop m digit base (p + 1) n (value + c)
     }"

definition digit_base :: "nat \<Rightarrow> u8 \<Rightarrow> nat option" where
  "digit_base base ch = (if ch < 48 \<or> unat ch > 47 + base then None else Some (unat ch - 48))"

definition c_strtoul3 :: "mem \<Rightarrow> str_t \<Rightarrow> nat \<Rightarrow> (int \<times> nat option) option" where
  "c_strtoul3 m str base =
     do {
       s \<leftarrow> c_strltrim m str;
       if slen s = 0 then Some (EO_INVAL, None)
       else do {
         c0 \<leftarrow> rd m (ptr s);
         if c0 < 48 \<or> base \<le> 10 \<and> unat c0 > 47 + base \<or> base = 16 \<and> \<not> c_isxdigit c0
         then Some (EO_INVAL, None)
         else if base \<le> 10
         then map_option (map_prod id Some) (strtoul3_loop m (digit_base base) base (ptr s) (c_strlen s) 0)
         else if base = 16
         then map_option (map_prod id Some) (strtoul3_loop m digit_hex base (ptr s) (c_strlen s) 0)
         else None
       }
     }"

definition c_strtol2 :: "mem \<Rightarrow> str_t \<Rightarrow> (int \<times> int option) option" where
  "c_strtol2 m str =
     do {
       s \<leftarrow> c_strltrim m str;
       if slen s = 0 then Some (EO_INVAL, None)
       else do {
         c0 \<leftarrow> rd m (ptr s);
         let is_negative = (c0 = 45);
         let s = (if c0 = 43 \<or> c0 = 45 then \<lparr>ptr = ptr s + 1, slen = slen s - 1\<rparr> else s);
         (rc, v) \<leftarrow> c_strtoul3 m s 10;
         if rc = EO_INVAL then Some (rc, None)
         else if rc \<noteq> EO_SUCCESS
         then Some (if is_negative then (EO_TOOSMALL, Some C_MINLONG) else (EO_TOOBIG, Some C_MAXLONG))
         else
           let retval = int (the v) in
           if retval > C_MAXLONG \<and> \<not> is_negative then Some (EO_TOOBIG, Some C_MAXLONG)
           else if retval > C_MAXLONG + 1 \<and> is_negative then Some (EO_TOOSMALL, Some C_MINLONG)
           else if is_negative
           then do { guard (s32 retval \<noteq> C_MINLONG); Some (EO_SUCCESS, Some (- s32 retval)) }
           else Some (EO_SUCCESS, Some retval)
       }
     }"

text \<open>The loops of \<open>c_utoa_pad\<close>: digits from the least, padding, reversal in place.\<close>

function utoa_digits :: "mem \<Rightarrow> nat \<Rightarrow> addr \<Rightarrow> (mem \<times> addr) option" where
  "utoa_digits m val p =
     (case wr m p (of_nat (val mod 10) + 48) of None \<Rightarrow> None
      | Some m' \<Rightarrow> if val div 10 > 0 then utoa_digits m' (val div 10) (p + 1) else Some (m', p + 1))"
  by pat_completeness auto
termination
  by (relation "measure (\<lambda>(m, val, p). val)") auto

fun utoa_padding :: "mem \<Rightarrow> addr \<Rightarrow> u8 \<Rightarrow> nat \<Rightarrow> (mem \<times> addr) option" where
  "utoa_padding m p pad 0 = Some (m, p)"
| "utoa_padding m p pad (Suc n) = do { m' \<leftarrow> wr m p pad; utoa_padding m' (p + 1) pad n }"

function swap_ends :: "mem \<Rightarrow> addr \<Rightarrow> addr \<Rightarrow> mem option" where
  "swap_ends m buf p =
     (case rd m p of None \<Rightarrow> None | Some temp \<Rightarrow>
      case rd m buf of None \<Rightarrow> None | Some b \<Rightarrow>
      case wr m p b of None \<Rightarrow> None | Some m1 \<Rightarrow>
      case wr m1 buf temp of None \<Rightarrow> None | Some m2 \<Rightarrow>
        if buf + 1 < p - 1 then swap_ends m2 (buf + 1) (p - 1) else Some m2)"
  by pat_completeness auto
termination
  by (relation "measure (\<lambda>(m, buf, p). p - buf)") auto

declare utoa_digits.simps [simp del] swap_ends.simps [simp del]

definition c_utoa_pad :: "mem \<Rightarrow> nat \<Rightarrow> addr \<Rightarrow> int \<Rightarrow> u8 \<Rightarrow> (mem \<times> int) option" where
  "c_utoa_pad m val buf min_dig pad =
     do {
       (m1, p) \<leftarrow> utoa_digits m val buf;
       let len = int (p - buf);
       (m2, p) \<leftarrow> utoa_padding m1 p pad (nat (min_dig - len));
       m3 \<leftarrow> wr m2 p 0;
       m4 \<leftarrow> swap_ends m3 buf (p - 1);
       Some (m4, max len min_dig)
     }"

definition c_utoa :: "mem \<Rightarrow> nat \<Rightarrow> addr \<Rightarrow> (mem \<times> int) option" where
  "c_utoa m val buf = c_utoa_pad m val buf 0 0"

text \<open>\<open>rnd k\<close> is the result of the \<open>k\<close>-th call of \<open>rand\<close>.\<close>

fun random_words :: "(nat \<Rightarrow> nat) \<Rightarrow> mem \<Rightarrow> addr \<Rightarrow> nat \<Rightarrow> nat \<Rightarrow> (mem \<times> addr \<times> nat) option" where
  "random_words rnd m p k 0 = Some (m, p, k)"
| "random_words rnd m p k (Suc n) =
     do {
       let val = u32 (rnd k);
       m1 \<leftarrow> c_val_to_hex_digit m (val div 2 ^ 24 mod 256) p;
       m2 \<leftarrow> c_val_to_hex_digit m1 (val div 2 ^ 16 mod 256) (p + 2);
       m3 \<leftarrow> c_val_to_hex_digit m2 (val div 2 ^ 8 mod 256) (p + 4);
       m4 \<leftarrow> c_val_to_hex_digit m3 (val mod 256) (p + 6);
       random_words rnd m4 (p + 8) (k + 1) n
     }"

fun random_tail :: "(nat \<Rightarrow> nat) \<Rightarrow> mem \<Rightarrow> addr \<Rightarrow> nat \<Rightarrow> nat \<Rightarrow> mem option" where
  "random_tail rnd m p k 0 = Some m"
| "random_tail rnd m p k (Suc n) =
     do { m' \<leftarrow> wr m p (c_hex_digits ! (rnd k mod 16)); random_tail rnd m' (p + 1) (k + 1) n }"

definition c_create_random_string :: "(nat \<Rightarrow> nat) \<Rightarrow> mem \<Rightarrow> addr \<Rightarrow> nat \<Rightarrow> mem option" where
  "c_create_random_string rnd m str len =
     do {
       (m', p, k) \<leftarrow> random_words rnd m str 0 (len div 8);
       random_tail rnd m' p k (len - len div 8 * 8)
     }"

subsection \<open>Copies and concatenation\<close>

text \<open>\<open>same\<close> says that \<open>dst\<close> and \<open>src\<close> are the same object.\<close>

definition c_strdup :: "mem \<Rightarrow> bool \<Rightarrow> str_t \<Rightarrow> str_t \<Rightarrow> (mem \<times> str_t) option" where
  "c_strdup m same dst src =
     (if same then Some (m, dst)
      else if slen src \<noteq> 0 then
        (let (m1, p) = POOL_bytes m (c_strlen src) in
         map_option (\<lambda>m2. (m2, \<lparr>ptr = p, slen = slen src\<rparr>)) (memcpy m1 p (ptr src) (c_strlen src)))
      else Some (m, dst\<lparr>slen := slen src\<rparr>))"

definition c_strdup_with_null :: "mem \<Rightarrow> str_t \<Rightarrow> (mem \<times> str_t) option" where
  "c_strdup_with_null m src =
     (let (m1, p) = POOL_bytes m (u32 (c_strlen src + 1)) in
      do {
        m2 \<leftarrow> (if slen src \<noteq> 0 then memcpy m1 p (ptr src) (c_strlen src) else Some m1);
        guard (0 \<le> int p + slen src);
        m3 \<leftarrow> wr m2 (nat (int p + slen src)) 0;
        Some (m3, \<lparr>ptr = p, slen = slen src\<rparr>)
      })"

definition c_strdup2 :: "mem \<Rightarrow> addr \<Rightarrow> (mem \<times> str_t) option" where
  "c_strdup2 m src =
     do {
       n \<leftarrow> (if src = 0 then Some 0 else strlen m src);
       if n \<noteq> 0 then
         (let (m1, p) = POOL_bytes m n in
          map_option (\<lambda>m2. (m2, \<lparr>ptr = p, slen = s32 (int n)\<rparr>)) (memcpy m1 p src n))
       else Some (m, \<lparr>ptr = 0, slen = 0\<rparr>)
     }"

definition c_strdup2_with_null :: "mem \<Rightarrow> addr \<Rightarrow> (mem \<times> str_t) option" where
  "c_strdup2_with_null m src =
     do {
       n \<leftarrow> (if src = 0 then Some 0 else strlen m src);
       let (m1, p) = POOL_bytes m (n + 1);
       m2 \<leftarrow> (if n \<noteq> 0 then memcpy m1 p src n else Some m1);
       guard (p \<noteq> 0);
       m3 \<leftarrow> wr m2 (p + n) 0;
       Some (m3, \<lparr>ptr = p, slen = s32 (int n)\<rparr>)
     }"

definition c_strdup3 :: "mem \<Rightarrow> addr \<Rightarrow> (mem \<times> str_t) option" where
  "c_strdup3 m src = c_strdup2 m src"

definition c_strcpy :: "mem \<Rightarrow> str_t \<Rightarrow> str_t \<Rightarrow> (mem \<times> str_t) option" where
  "c_strcpy m dst src =
     map_option (\<lambda>m'. (m', dst\<lparr>slen := slen src\<rparr>))
       (if slen src > 0 then memcpy m (ptr dst) (ptr src) (c_strlen src) else Some m)"

definition c_strcpy2 :: "mem \<Rightarrow> str_t \<Rightarrow> addr \<Rightarrow> (mem \<times> str_t) option" where
  "c_strcpy2 m dst src =
     do {
       n \<leftarrow> (if src = 0 then Some 0 else strlen m src);
       let l = s32 (int n);
       m' \<leftarrow> (if l > 0 then memcpy m (ptr dst) src (nat l) else Some m);
       Some (m', dst\<lparr>slen := l\<rparr>)
     }"

definition c_strncpy :: "mem \<Rightarrow> str_t \<Rightarrow> str_t \<Rightarrow> int \<Rightarrow> (mem \<times> str_t) option" where
  "c_strncpy m dst src max0 =
     do {
       guard (max0 \<ge> 0);
       let max = (if max0 > slen src then slen src else max0);
       m' \<leftarrow> (if max > 0 then memcpy m (ptr dst) (ptr src) (nat max) else Some m);
       Some (m', dst\<lparr>slen := max\<rparr>)
     }"

definition c_strncpy_with_null :: "mem \<Rightarrow> str_t \<Rightarrow> str_t \<Rightarrow> int \<Rightarrow> (mem \<times> str_t) option" where
  "c_strncpy_with_null m dst src max0 =
     do {
       guard (max0 > 0);
       let max = (if max0 \<le> slen src then max0 - 1 else slen src);
       m1 \<leftarrow> memcpy m (ptr dst) (ptr src) (nat (max mod 2 ^ 32));
       m2 \<leftarrow> wr m1 (nat (int (ptr dst) + max)) 0;
       Some (m2, dst\<lparr>slen := max\<rparr>)
     }"

definition c_strcat :: "mem \<Rightarrow> str_t \<Rightarrow> str_t \<Rightarrow> (mem \<times> str_t) option" where
  "c_strcat m dst src =
     (if slen src \<noteq> 0 then
        map_option (\<lambda>m'. (m', dst\<lparr>slen := slen dst + slen src\<rparr>))
          (memcpy m (nat (int (ptr dst) + slen dst)) (ptr src) (c_strlen src))
      else Some (m, dst))"

definition c_strcat2 :: "mem \<Rightarrow> str_t \<Rightarrow> addr \<Rightarrow> (mem \<times> str_t) option" where
  "c_strcat2 m dst str =
     do {
       len \<leftarrow> (if str = 0 then Some 0 else strlen m str);
       if len \<noteq> 0 then
         map_option (\<lambda>m'. (m', dst\<lparr>slen := s32 (slen dst + int len)\<rparr>))
           (memcpy m (nat (int (ptr dst) + slen dst)) str len)
       else Some (m, dst)
     }"

subsection \<open>Splitting a list of numbers\<close>

function strchr :: "mem \<Rightarrow> addr \<Rightarrow> u8 \<Rightarrow> addr option" where
  "strchr m p c =
     (case rd m p of None \<Rightarrow> None
      | Some a \<Rightarrow> if a = c then Some p else if a = 0 then Some 0 else strchr m (p + 1) c)"
  by pat_completeness auto
termination
  by (relation "measure (\<lambda>(m, p, c). length m - p)") (auto simp: rd_def split: if_splits)

function skip_space :: "mem \<Rightarrow> addr \<Rightarrow> addr option" where
  "skip_space m p =
     (case rd m p of None \<Rightarrow> None
      | Some a \<Rightarrow> if c_isspace a \<or> a = 12 then skip_space m (p + 1) else Some p)"
  by pat_completeness auto
termination
  by (relation "measure (\<lambda>(m, p). length m - p)") (auto simp: rd_def split: if_splits)

function atoi_digits :: "mem \<Rightarrow> addr \<Rightarrow> int \<Rightarrow> int option" where
  "atoi_digits m p v =
     (case rd m p of None \<Rightarrow> None
      | Some a \<Rightarrow> if c_isdigit a then atoi_digits m (p + 1) (v * 10 + int (unat a - 48)) else Some v)"
  by pat_completeness auto
termination
  by (relation "measure (\<lambda>(m, p, v). length m - p)") (auto simp: rd_def split: if_splits)

declare strchr.simps [simp del] skip_space.simps [simp del] atoi_digits.simps [simp del]

text \<open>\<open>atoi\<close> of libc; a value outside \<open>int\<close> is undefined.\<close>

definition atoi :: "mem \<Rightarrow> addr \<Rightarrow> int option" where
  "atoi m p =
     do {
       q \<leftarrow> skip_space m p;
       a \<leftarrow> rd m q;
       v \<leftarrow> atoi_digits m (if a = 43 \<or> a = 45 then q + 1 else q) 0;
       let r = (if a = 45 then - v else v);
       guard (C_MINLONG \<le> r \<and> r \<le> C_MAXLONG);
       Some r
     }"

text \<open>The loop over the delimiters of the pattern; \<open>out\<close> collects the numbers written.\<close>

fun parse_number_loop :: "mem \<Rightarrow> u8 list \<Rightarrow> nat \<Rightarrow> addr \<Rightarrow> int list \<Rightarrow> (mem \<times> int list \<times> nat) option" where
  "parse_number_loop m pattern 0 head out = Some (m, out, length out)"
| "parse_number_loop m [] (Suc n) head out = None"
| "parse_number_loop m (d # ds) (Suc n) head out =
     do {
       comma \<leftarrow> strchr m head d;
       if comma = 0 then do { v \<leftarrow> atoi m head; Some (m, out @ [v], length out) }
       else do {
         m' \<leftarrow> wr m comma 0;
         v \<leftarrow> atoi m' head;
         parse_number_loop m' ds n (comma + 1) (out @ [v])
       }
     }"

definition c_parse_number :: "mem \<Rightarrow> addr \<Rightarrow> u8 list \<Rightarrow> nat \<Rightarrow> (mem \<times> int list \<times> nat) option" where
  "c_parse_number m str pattern num =
     (if str = 0 then Some (m, [], 0)
      else do {
        (m', out, i) \<leftarrow> parse_number_loop m pattern num str [];
        Some (m', out, i + 1)
      })"


subsection \<open>Strings as byte lists\<close>

definition str_is :: "mem \<Rightarrow> str_t \<Rightarrow> u8 list \<Rightarrow> bool" where
  "str_is m s bs \<longleftrightarrow> slen s = int (length bs) \<and> length bs < 2 ^ 31 \<and> bytes_at m (ptr s) bs"

lemma str_is_len [simp]: "str_is m s bs \<Longrightarrow> c_strlen s = length bs"
  by (simp add: str_is_def c_strlen_def)

lemma spn_loop_eq:
  "bytes_at m p bs \<Longrightarrow> (\<And>c. cnt c = Some (if P c then 1 else 0)) \<Longrightarrow>
   spn_loop m cnt p (length bs) i i = Some (i + length (takeWhile P bs))"
proof (induction bs arbitrary: p i)
  case (Cons c cs)
  have stop: "spn_loop m f q (length cs) (Suc i) i = Some i" for f q by (cases cs) auto
  from Cons.prems show ?case using Cons.IH[of "p + 1" "Suc i"] stop by auto
qed simp

lemma cspn_loop_eq:
  "bytes_at m p bs \<Longrightarrow> (\<And>c. hit c = Some (P c)) \<Longrightarrow>
   cspn_loop m hit p (length bs) i = Some (i + length (takeWhile (\<lambda>c. \<not> P c) bs))"
  by (induction bs arbitrary: p i) auto

lemma count_set_eq: "bytes_at m p ds \<Longrightarrow> count_set m c p (length ds) = Some (count_list ds c)"
  by (induction ds arbitrary: p) auto

lemma in_set_eq: "bytes_at m p ds \<Longrightarrow> in_set m c p (length ds) = Some (c \<in> set ds)"
  by (induction ds arbitrary: p) auto

lemma count_cset_eq: "bytes_at m p (ds @ [0]) \<Longrightarrow> 0 \<notin> set ds \<Longrightarrow> count_cset m c p = Some (count_list ds c)"
  by (induction ds arbitrary: p) (subst count_cset.simps, auto)+

lemma in_cset_eq: "bytes_at m p (ds @ [0]) \<Longrightarrow> 0 \<notin> set ds \<Longrightarrow> in_cset m c p = Some (c \<in> set ds)"
  by (induction ds arbitrary: p) (subst in_cset.simps, auto)+

lemma c_strlen_of_str: "bytes_at m p (bs @ [0]) \<Longrightarrow> 0 \<notin> set bs \<Longrightarrow> strlen m p = Some (length bs)"
  by (induction bs arbitrary: p) (subst strlen.simps, auto)+

lemma count_list_distinct: "distinct ds \<Longrightarrow> count_list ds c = (if c \<in> set ds then 1 else 0)"
  by (induction ds) auto

lemma c_strspn_eq:
  assumes "str_is m s bs" "str_is m d ds" "distinct ds"
  shows "c_strspn m s d = Some (int (length (takeWhile (\<lambda>c. c \<in> set ds) bs)))"
proof -
  have "spn_loop m (\<lambda>c. count_set m c (ptr d) (length ds)) (ptr s) (length bs) 0 0 =
      Some (0 + length (takeWhile (\<lambda>c. c \<in> set ds) bs))"
    using assms by (intro spn_loop_eq) (auto simp: str_is_def count_set_eq count_list_distinct)
  with assms(1,2) show ?thesis by (simp add: c_strspn_def str_is_def)
qed

lemma c_strcspn_eq:
  assumes "str_is m s bs" "str_is m d ds"
  shows "c_strcspn m s d = Some (int (length (takeWhile (\<lambda>c. c \<notin> set ds) bs)))"
proof -
  have "cspn_loop m (\<lambda>c. in_set m c (ptr d) (length ds)) (ptr s) (length bs) 0 =
      Some (0 + length (takeWhile (\<lambda>c. c \<notin> set ds) bs))"
    using assms by (intro cspn_loop_eq) (auto simp: str_is_def in_set_eq)
  with assms(1,2) show ?thesis by (simp add: c_strcspn_def str_is_def)
qed

lemma str_is_drop: "str_is m s bs \<Longrightarrow> k \<le> length bs \<Longrightarrow> str_is m \<lparr>ptr = ptr s + k, slen = slen s - int k\<rparr> (drop k bs)"
  by (auto simp: str_is_def intro: bytes_at_drop)

subsection \<open>Comparison\<close>

fun lexcmp :: "u8 list \<Rightarrow> u8 list \<Rightarrow> int" where
  "lexcmp [] [] = 0"
| "lexcmp [] (b # bs) = -1"
| "lexcmp (a # as) [] = 1"
| "lexcmp (a # as) (b # bs) = (if a = b then lexcmp as bs else if a < b then -1 else 1)"

lemma lexcmp_0: "lexcmp as bs = 0 \<longleftrightarrow> as = bs"
  by (induction as bs rule: lexcmp.induct) auto

lemma lexcmp_swap: "lexcmp bs as = - lexcmp as bs"
  by (induction as bs rule: lexcmp.induct) auto

lemma lexcmp_less: "lexcmp as bs = -1 \<longleftrightarrow> ord_class.lexordp as bs"
  by (induction as bs rule: lexcmp.induct) auto

definition lenorder :: "u8 list \<Rightarrow> u8 list \<Rightarrow> int" where
  "lenorder as bs = (if length as < length bs then -1 else if length as = length bs then 0 else 1)"

lemma lenorder_Cons [simp]: "lenorder (a # as) (b # bs) = lenorder as bs"
  by (simp add: lenorder_def)

lemma lexcmp_Nil: "as = [] \<or> bs = [] \<Longrightarrow> lexcmp as bs = lenorder as bs"
  by (cases as; cases bs) (auto simp: lenorder_def)

lemma memcmp_eq:
  "bytes_at m p as \<Longrightarrow> bytes_at m q bs \<Longrightarrow>
   \<exists>r. memcmp m p q (min (length as) (length bs)) = Some r \<and> lexcmp as bs = (if r = 0 then lenorder as bs else r)"
proof (induction as arbitrary: p q bs)
  case Nil
  then show ?case by (simp add: lexcmp_Nil)
next
  case (Cons a as)
  show ?case
  proof (cases bs)
    case Nil
    then show ?thesis by (simp add: lexcmp_Nil del: lexcmp.simps)
  next
    case (Cons b bs')
    with Cons.prems Cons.IH[of "p + 1" "q + 1" bs'] show ?thesis by auto
  qed
qed

lemma c_strcmp_eq:
  assumes "str_is m s as" "str_is m t bs"
  shows "c_strcmp m s t = Some (lexcmp as bs)"
proof (cases "as = [] \<or> bs = []")
  case True
  with assms show ?thesis by (cases as; cases bs) (auto simp: c_strcmp_def str_is_def)
next
  case False
  from assms have at: "bytes_at m (ptr s) as" "bytes_at m (ptr t) bs" by (auto simp: str_is_def)
  obtain r where r: "memcmp m (ptr s) (ptr t) (min (length as) (length bs)) = Some r"
      "lexcmp as bs = (if r = 0 then lenorder as bs else r)"
    using memcmp_eq[OF at] by blast
  have "nat ((if slen s < slen t then slen s else slen t) mod 2 ^ 32) = min (length as) (length bs)"
    using assms by (auto simp: str_is_def min_def)
  with r assms False show ?thesis by (auto simp: c_strcmp_def str_is_def lenorder_def)
qed

lemma strnicmp_loop_eq:
  "bytes_at m p as \<Longrightarrow> bytes_at m q bs \<Longrightarrow> 0 \<notin> set as \<Longrightarrow> as \<noteq> [] \<Longrightarrow> bs \<noteq> [] \<Longrightarrow>
   \<exists>r. strnicmp_loop m p q (int (min (length as) (length bs))) = Some r \<and>
     lexcmp (map c_tolower as) (map c_tolower bs) = (if r = 0 then lenorder as bs else r)"
proof (induction as arbitrary: p q bs)
  case (Cons a as)
  from Cons.prems obtain b bs' where bs: "bs = b # bs'" by (cases bs) auto
  let ?n = "int (min (length (a # as)) (length bs))"
  have unf: "strnicmp_loop m p q ?n = (if c_tolower a = c_tolower b
      then (if ?n - 1 \<le> 0 then Some 0 else strnicmp_loop m (p + 1) (q + 1) (?n - 1))
      else Some (if c_tolower a < c_tolower b then -1 else 1))"
    using Cons.prems bs by (subst strnicmp_loop.simps) auto
  show ?case
  proof (cases "c_tolower a = c_tolower b \<and> as \<noteq> [] \<and> bs' \<noteq> []")
    case True
    then have n: "\<not> ?n - 1 \<le> 0" "?n - 1 = int (min (length as) (length bs'))" using bs by auto
    then have eq: "strnicmp_loop m p q ?n = strnicmp_loop m (p + 1) (q + 1) (int (min (length as) (length bs')))"
      unfolding unf using True by (simp only: if_True if_False simp_thms)
    obtain r where r: "strnicmp_loop m (p + 1) (q + 1) (int (min (length as) (length bs'))) = Some r"
        "lexcmp (map c_tolower as) (map c_tolower bs') = (if r = 0 then lenorder as bs' else r)"
      using Cons.IH[of "p + 1" "q + 1" bs'] Cons.prems True bs by auto
    have "lexcmp (map c_tolower (a # as)) (map c_tolower bs) = (if r = 0 then lenorder (a # as) bs else r)"
      using r(2) True by (simp add: bs)
    with eq r(1) show ?thesis by metis
  next
    case False
    have "lexcmp (map c_tolower as) (map c_tolower bs') = lenorder as bs'" if "as = [] \<or> bs' = []"
      using lexcmp_Nil[of "map c_tolower as" "map c_tolower bs'"] that by (auto simp: lenorder_def)
    then show ?thesis using False unfolding unf by (auto simp: bs)
  qed
qed simp

lemma c_stricmp_eq:
  assumes "str_is m s as" "str_is m t bs" "0 \<notin> set as"
  shows "c_stricmp m s t = Some (lexcmp (map c_tolower as) (map c_tolower bs))"
proof (cases "as = [] \<or> bs = []")
  case True
  with assms show ?thesis by (cases as; cases bs) (auto simp: c_stricmp_def str_is_def)
next
  case False
  from assms have at: "bytes_at m (ptr s) as" "bytes_at m (ptr t) bs" by (auto simp: str_is_def)
  obtain r where r: "strnicmp_loop m (ptr s) (ptr t) (int (min (length as) (length bs))) = Some r"
      "lexcmp (map c_tolower as) (map c_tolower bs) = (if r = 0 then lenorder as bs else r)"
    using strnicmp_loop_eq[OF at assms(3)] False by blast
  have "(if slen s < slen t then slen s else slen t) = int (min (length as) (length bs))"
    using assms by (auto simp: str_is_def min_def)
  with r assms False show ?thesis by (auto simp: c_stricmp_def strnicmp_def str_is_def lenorder_def)
qed

subsection \<open>Tokens\<close>

lemma c_strtok_eq:
  assumes s: "str_is m s bs" "bs \<noteq> []" and d: "str_is m d ds" "distinct ds" and i: "i \<le> length bs"
  defines "k \<equiv> length (takeWhile (\<lambda>c. c \<in> set ds) (drop i bs))"
  shows "c_strtok m s d tok i = Some (if i + k = length bs
      then (int (length bs), \<lparr>ptr = ptr s + i, slen = int (length bs - i)\<rparr>)
      else (int (i + k), \<lparr>ptr = ptr s + (i + k),
        slen = int (length (takeWhile (\<lambda>c. c \<notin> set ds) (drop (i + k) bs)))\<rparr>))"
proof -
  let ?t1 = "\<lparr>ptr = ptr s + i, slen = slen s - int i\<rparr>"
  let ?t2 = "\<lparr>ptr = ptr s + (i + k), slen = slen s - int (i + k)\<rparr>"
  have sl: "slen s = int (length bs)" and cl: "c_strlen s = length bs" using s by (auto simp: str_is_def)
  have t1: "c_strspn m ?t1 d = Some (int k)"
    using c_strspn_eq[OF str_is_drop[OF s(1) i] d] by (simp add: k_def)
  have "k \<le> length (drop i bs)" unfolding k_def by (rule length_takeWhile_le)
  then have le: "i + k \<le> length bs" using i by simp
  have t2: "c_strcspn m ?t2 d = Some (int (length (takeWhile (\<lambda>c. c \<notin> set ds) (drop (i + k) bs))))"
    using c_strcspn_eq[OF str_is_drop[OF s(1) le] d(1)] .
  have b: "\<not> (slen s = 0 \<or> c_strlen s < i)" using s(2) i sl cl by simp
  have upd: "tok\<lparr>slen := 0\<rparr>\<lparr>ptr := ptr s + i, slen := slen s - int i\<rparr> = ?t1" by simp
  have upd2: "?t1\<lparr>ptr := nat (int (ptr ?t1) + int k), slen := slen ?t1 - int k\<rparr> = ?t2"
    by (simp add: nat_add_distrib)
  show ?thesis
    unfolding c_strtok_def strtok_with_def Let_def if_not_P[OF b] upd
    using i le by (simp only: t1 upd2 t2 Option.bind_lunit) (auto simp: sl)
qed

subsection \<open>Trimming\<close>

definition trimmed :: "u8 list \<Rightarrow> u8 list" where
  "trimmed bs = rev (dropWhile c_isspace (rev (dropWhile c_isspace bs)))"

lemma ltrim_to_eq:
  "bytes_at m p bs \<Longrightarrow> ltrim_to m p (length bs) = Some (p + length (takeWhile c_isspace bs))"
  by (induction bs arbitrary: p) auto

lemma rtrim_to_eq:
  "bytes_at m p bs \<Longrightarrow> rtrim_to m p (length bs) = Some (length (dropWhile c_isspace (rev bs)))"
  by (induction bs rule: rev_induct) auto

lemma c_strltrim_eq:
  assumes "str_is m s bs"
  shows "\<exists>t. c_strltrim m s = Some t \<and> str_is m t (dropWhile c_isspace bs)"
proof -
  let ?k = "length (takeWhile c_isspace bs)"
  have k: "?k \<le> length bs" by (rule length_takeWhile_le)
  have "drop ?k bs = dropWhile c_isspace bs" by (simp add: dropWhile_eq_drop)
  moreover have "c_strltrim m s = Some \<lparr>ptr = ptr s + ?k, slen = slen s - int ?k\<rparr>"
    using assms ltrim_to_eq[of m "ptr s" bs] by (simp add: c_strltrim_def str_is_def)
  ultimately show ?thesis using str_is_drop[OF assms k] by auto
qed

lemma c_strrtrim_eq:
  assumes "str_is m s bs"
  shows "\<exists>t. c_strrtrim m s = Some t \<and> str_is m t (rev (dropWhile c_isspace (rev bs)))"
proof -
  let ?t = "rev (dropWhile c_isspace (rev bs))"
  have "\<exists>k. ?t = take k bs"
    by (metis dropWhile_eq_drop rev_drop rev_rev_ident)
  then have "bytes_at m (ptr s) ?t" using assms by (auto simp: str_is_def intro: bytes_at_take)
  moreover have "length ?t \<le> length bs" by (metis length_dropWhile_le length_rev)
  ultimately show ?thesis
    using assms rtrim_to_eq[of m "ptr s" bs] by (auto simp: c_strrtrim_def str_is_def)
qed

lemma c_strtrim_eq:
  assumes "str_is m s bs"
  shows "\<exists>t. c_strtrim m s = Some t \<and> str_is m t (trimmed bs)"
  using c_strltrim_eq[OF assms] c_strrtrim_eq by (fastforce simp: c_strtrim_def trimmed_def)

subsection \<open>Numbers\<close>

definition number :: "nat \<Rightarrow> (u8 \<Rightarrow> nat option) \<Rightarrow> nat \<Rightarrow> u8 list \<Rightarrow> nat" where
  "number base digit v ds = foldl (\<lambda>v c. v * base + the (digit c)) v ds"

lemma number_Nil [simp]: "number base digit v [] = v"
  and number_Cons [simp]: "number base digit v (d # ds) = number base digit (v * base + the (digit d)) ds"
  by (simp_all add: number_def)

lemma number_ge: "1 \<le> base \<Longrightarrow> v \<le> number base digit v ds"
proof (induction ds arbitrary: v)
  case (Cons d ds)
  have "v \<le> v * base + the (digit d)" using Cons.prems by (simp add: trans_le_add1)
  with Cons.IH[OF Cons.prems] show ?case by (metis number_Cons order_trans)
qed simp

definition is_digit :: "(u8 \<Rightarrow> nat option) \<Rightarrow> u8 \<Rightarrow> bool" where
  "is_digit digit c \<longleftrightarrow> digit c \<noteq> None"

lemma strtoul3_loop_eq:
  "bytes_at m p bs \<Longrightarrow> 1 \<le> base \<Longrightarrow> v \<le> C_MAXULONG \<Longrightarrow>
   strtoul3_loop m digit base p (length bs) v =
     (let r = number base digit v (takeWhile (is_digit digit) bs) in
      Some (if r \<le> C_MAXULONG then (EO_SUCCESS, r) else (EO_TOOBIG, C_MAXULONG)))"
proof (induction bs arbitrary: p v)
  case (Cons b bs)
  show ?case
  proof (cases "digit b")
    case None
    with Cons.prems show ?thesis by (simp add: is_digit_def)
  next
    case (Some c)
    let ?v = "v * base + c"
    have big: "C_MAXULONG < number base digit ?v xs" if "C_MAXULONG < ?v" for xs
      using number_ge[OF Cons.prems(2), of ?v digit xs] that by simp
    have "v > C_MAXULONG div base \<or> C_MAXULONG - v * base < c \<longleftrightarrow> C_MAXULONG < ?v"
    proof (cases "v > C_MAXULONG div base")
      case True
      then have "C_MAXULONG < v * base" using Cons.prems(2) by (simp add: div_less_iff_less_mult)
      with True show ?thesis by simp
    next
      case False
      then have "v * base \<le> C_MAXULONG" using Cons.prems(2) by (simp add: not_less less_eq_div_iff_mult_less_eq)
      with False show ?thesis by auto
    qed
    moreover have "is_digit digit b" using Some by (simp add: is_digit_def)
    ultimately show ?thesis
      using Cons.prems Cons.IH[of "p + 1" ?v] big[of "takeWhile (is_digit digit) bs"] Some
      by (auto simp: Let_def not_less)
  qed
qed simp

lemma digit_base_test:
  "base \<le> 10 \<Longrightarrow> (c < 48 \<or> unat c > 47 + base \<or> base = 16 \<and> \<not> c_isxdigit c) = (\<not> is_digit (digit_base base) c)"
  by (auto simp: is_digit_def digit_base_def)

text \<open>The result of \<open>c_strtoul3\<close> on the text \<open>bs\<close> in a base up to ten.\<close>

definition strtoul3_spec :: "nat \<Rightarrow> u8 list \<Rightarrow> int \<times> nat option" where
  "strtoul3_spec base bs =
     (let ds = takeWhile (is_digit (digit_base base)) (dropWhile c_isspace bs);
          r = number base (digit_base base) 0 ds
      in if ds = [] then (EO_INVAL, None)
         else if r \<le> C_MAXULONG then (EO_SUCCESS, Some r) else (EO_TOOBIG, Some C_MAXULONG))"

lemma c_strtoul3_eq:
  assumes "str_is m s bs" "1 \<le> base" "base \<le> 10"
  shows "c_strtoul3 m s base = Some (strtoul3_spec base bs)"
proof -
  let ?r = "dropWhile c_isspace bs"
  obtain t where t: "c_strltrim m s = Some t" "str_is m t ?r" using c_strltrim_eq[OF assms(1)] by blast
  show ?thesis
  proof (cases ?r)
    case Nil
    then show ?thesis
      using t unfolding strtoul3_spec_def Nil by (simp add: c_strtoul3_def str_is_def)
  next
    case (Cons c cs)
    have at: "bytes_at m (ptr t) (c # cs)" and ne: "slen t \<noteq> 0" "c_strlen t = length (c # cs)"
      using t(2) Cons str_is_len[OF t(2)] by (auto simp: str_is_def)
    have unf: "c_strtoul3 m s base = (if \<not> is_digit (digit_base base) c then Some (EO_INVAL, None)
        else map_option (map_prod id Some) (strtoul3_loop m (digit_base base) base (ptr t) (length (c # cs)) 0))"
      using at ne assms(3) unfolding c_strtoul3_def t(1)
      by (simp only: digit_base_test[OF assms(3)] Option.bind_lunit bytes_at.simps assms(3) simp_thms if_True if_False ne)
    show ?thesis
      unfolding unf strtoul3_loop_eq[OF at assms(2) zero_le] strtoul3_spec_def Cons
      by (simp add: Let_def)
  qed
qed

text \<open>\<open>decimal bs\<close>: the digits at the start of \<open>bs\<close> after blanks, and their value.\<close>

definition decimal :: "u8 list \<Rightarrow> nat option" where
  "decimal bs =
     (let ds = takeWhile (is_digit (digit_base 10)) (dropWhile c_isspace bs) in
      if ds = [] then None else Some (number 10 (digit_base 10) 0 ds))"

definition signed_text :: "u8 list \<Rightarrow> bool \<times> u8 list" where
  "signed_text bs =
     (case dropWhile c_isspace bs of [] \<Rightarrow> (False, [])
      | c # cs \<Rightarrow> (c = 45, if c = 43 \<or> c = 45 then cs else c # cs))"

definition strtol2_spec :: "u8 list \<Rightarrow> (int \<times> int option) option" where
  "strtol2_spec bs =
     (case signed_text bs of (neg, cs) \<Rightarrow>
        (case decimal cs of None \<Rightarrow> Some (EO_INVAL, None)
         | Some n \<Rightarrow>
           if neg then
             (if n = 2 ^ 31 then None
              else if n < 2 ^ 31 then Some (EO_SUCCESS, Some (- int n)) else Some (EO_TOOSMALL, Some (- (2 ^ 31))))
           else if n < 2 ^ 31 then Some (EO_SUCCESS, Some (int n)) else Some (EO_TOOBIG, Some (2 ^ 31 - 1))))"

lemma strtoul3_decimal:
  "strtoul3_spec 10 bs = (case decimal bs of None \<Rightarrow> (EO_INVAL, None)
     | Some n \<Rightarrow> if n \<le> C_MAXULONG then (EO_SUCCESS, Some n) else (EO_TOOBIG, Some C_MAXULONG))"
  by (simp add: strtoul3_spec_def decimal_def Let_def)

lemma c_strtol2_eq:
  assumes "str_is m s bs"
  shows "c_strtol2 m s = strtol2_spec bs"
proof -
  let ?r = "dropWhile c_isspace bs"
  obtain t where t: "c_strltrim m s = Some t" "str_is m t ?r" using c_strltrim_eq[OF assms(1)] by blast
  show ?thesis
  proof (cases ?r)
    case Nil
    then show ?thesis
      using t unfolding strtol2_spec_def signed_text_def Nil by (simp add: c_strtol2_def str_is_def decimal_def)
  next
    case (Cons c cs)
    let ?sg = "c = 43 \<or> c = 45"
    let ?t = "if ?sg then \<lparr>ptr = ptr t + 1, slen = slen t - 1\<rparr> else t"
    have "str_is m ?t (if ?sg then cs else c # cs)"
      using t(2) str_is_drop[OF t(2), of 1] Cons by (cases ?sg) auto
    then have u: "c_strtoul3 m ?t 10 = Some (strtoul3_spec 10 (if ?sg then cs else c # cs))"
      by (rule c_strtoul3_eq) simp_all
    have rd: "rd m (ptr t) = Some c" and ne: "slen t \<noteq> 0" using t(2) Cons by (auto simp: str_is_def)
    obtain n where n: "n = decimal (if ?sg then cs else c # cs)" by blast
    show ?thesis
      unfolding c_strtol2_def t(1) strtol2_spec_def signed_text_def Cons
      by (cases n) (auto simp: rd ne u[unfolded strtoul3_decimal n[symmetric]] Let_def n[symmetric] error_codes
          C_MAXULONG_def C_MAXLONG_def C_MINLONG_def s32_def)
  qed
qed

text \<open>The digits that \<open>c_utoa\<close> writes, least first.\<close>

fun digits_rev :: "nat \<Rightarrow> u8 list" where
  "digits_rev v = (of_nat (v mod 10) + 48) # (if v div 10 > 0 then digits_rev (v div 10) else [])"

declare digits_rev.simps [simp del]

lemma digits_rev_ne [simp]: "digits_rev v \<noteq> []"
  by (subst digits_rev.simps) simp

lemma digit_of_nat: "d < 10 \<Longrightarrow> digit_base 10 (of_nat d + 48) = Some d"
proof -
  assume d: "d < 10"
  have "unat (of_nat d + 48 :: u8) = d + 48" using d by (simp add: unat_word_ariths unat_of_nat)
  then show ?thesis using d by (simp add: digit_base_def word_less_nat_alt)
qed

lemma digits_rev_digit: "c \<in> set (digits_rev v) \<Longrightarrow> is_digit (digit_base 10) c"
proof (induction v rule: digits_rev.induct)
  case (1 v)
  from "1.prems" have "c = of_nat (v mod 10) + 48 \<or> v div 10 > 0 \<and> c \<in> set (digits_rev (v div 10))"
    by (subst (asm) digits_rev.simps) (auto split: if_splits)
  with "1.IH" digit_of_nat[of "v mod 10"] show ?case by (auto simp: is_digit_def)
qed

lemma number_append: "number b dg v (xs @ ys) = number b dg (number b dg v xs) ys"
  by (simp add: number_def)

lemma number_digits: "number 10 (digit_base 10) 0 (rev (digits_rev v)) = v"
proof (induction v rule: digits_rev.induct)
  case (1 v)
  then show ?case by (subst digits_rev.simps) (auto simp: number_append digit_of_nat)
qed

lemma length_digits_rev: "v < 10 ^ k \<Longrightarrow> 0 < k \<Longrightarrow> length (digits_rev v) \<le> k"
proof (induction k arbitrary: v)
  case (Suc k)
  show ?case
  proof (cases "v div 10 > 0")
    case True
    then have "v div 10 < 10 ^ k" "0 < k" using Suc.prems by (auto simp: less_mult_imp_div_less intro: ccontr)
    from Suc.IH[OF this] True show ?thesis by (subst digits_rev.simps) simp
  qed (subst digits_rev.simps, simp)
qed simp

lemma wr_frame: "wr m p b = Some m' \<Longrightarrow> a \<noteq> p \<Longrightarrow> rd m' a = rd m a"
  by (simp add: rd_wr)

lemma utoa_digits_eq:
  "0 < p \<Longrightarrow> p + length (digits_rev v) \<le> length m \<Longrightarrow>
   \<exists>m'. utoa_digits m v p = Some (m', p + length (digits_rev v)) \<and> bytes_at m' p (digits_rev v) \<and>
     length m' = length m \<and> (\<forall>a. a < p \<or> p + length (digits_rev v) \<le> a \<longrightarrow> rd m' a = rd m a)"
proof (induction v arbitrary: m p rule: digits_rev.induct)
  case (1 v)
  let ?c = "of_nat (v mod 10) + 48 :: u8"
  have len: "length (digits_rev v) = Suc (if v div 10 > 0 then length (digits_rev (v div 10)) else 0)"
    by (subst digits_rev.simps) simp
  obtain m1 where m1: "wr m p ?c = Some m1" "length m1 = length m"
    using "1.prems" len wr_length by (auto simp: wr_Some)
  note fr = wr_frame[OF m1(1)]
  show ?case
  proof (cases "v div 10 > 0")
    case False
    then have "digits_rev v = [?c]" by (subst digits_rev.simps) simp
    then show ?thesis using m1 False rd_wr[OF m1(1)] by (subst utoa_digits.simps) auto
  next
    case True
    then have dg: "digits_rev v = ?c # digits_rev (v div 10)" by (subst digits_rev.simps) simp
    obtain m2 where m2: "utoa_digits m1 (v div 10) (p + 1) = Some (m2, p + 1 + length (digits_rev (v div 10)))"
        "bytes_at m2 (p + 1) (digits_rev (v div 10))" "length m2 = length m"
        "\<forall>a. a < p + 1 \<or> p + 1 + length (digits_rev (v div 10)) \<le> a \<longrightarrow> rd m2 a = rd m1 a"
      using "1.IH"[OF True, of "p + 1" m1] "1.prems" len m1(2) True by auto
    have "rd m2 p = Some ?c" using m2(4) rd_wr[OF m1(1)] by simp
    with m2 dg m1 fr True show ?thesis by (subst utoa_digits.simps) auto
  qed
qed

lemma swap_ends_eq:
  "bytes_at m b ds \<Longrightarrow> ds \<noteq> [] \<Longrightarrow>
   \<exists>m'. swap_ends m b (b + length ds - 1) = Some m' \<and> bytes_at m' b (rev ds) \<and> length m' = length m \<and>
     (\<forall>a. a < b \<or> b + length ds \<le> a \<longrightarrow> rd m' a = rd m a)"
proof (induction "length ds" arbitrary: m b ds rule: less_induct)
  case less
  note bd = bytes_at_bound[OF less.prems]
  show ?case
  proof (cases "length ds = 1")
    case True
    then obtain x where ds: "ds = [x]" by (cases ds) auto
    obtain m1 where m1: "wr m b x = Some m1" "length m1 = length m" using wr_ok[of b m] bd ds by auto
    obtain m2 where m2: "wr m1 b x = Some m2" "length m2 = length m"
      using wr_ok[of b m1] bd ds m1(2) by auto
    then show ?thesis using less.prems ds m1 rd_wr[OF m1(1)] rd_wr[OF m2(1)]
      by (subst swap_ends.simps) auto
  next
    case False
    with less.prems(2) obtain x mid y where ds: "ds = x # mid @ [y]"
      by (metis One_nat_def append_butlast_last_id length_Cons list.exhaust list.size(3))
    let ?p = "b + length ds - 1"
    have p: "?p = b + 1 + length mid" using ds by simp
    have r: "rd m b = Some x" "rd m ?p = Some y" "bytes_at m (b + 1) mid"
      using less.prems(1) ds by auto
    obtain m1 where m1: "wr m ?p x = Some m1" "length m1 = length m" using wr_ok[of ?p m] bd ds by auto
    obtain m2 where m2: "wr m1 b y = Some m2" "length m2 = length m"
      using wr_ok[of b m1] bd ds m1(2) by auto
    have rd2: "rd m2 a = (if a = b then Some y else if a = ?p then Some x else rd m a)" for a
      using rd_wr[OF m1(1)] rd_wr[OF m2(1)] by simp
    have mid: "bytes_at m2 (b + 1) mid" using r(3) p rd2
      by (subst bytes_at_cong[of _ _ _ m]) auto
    have unf: "swap_ends m b ?p = (if b + 1 < ?p - 1 then swap_ends m2 (b + 1) (?p - 1) else Some m2)"
      using r m1 m2 by (subst swap_ends.simps) simp
    have fin: "bytes_at m3 b (rev ds)" if "bytes_at m3 (b + 1) (rev mid)" "rd m3 b = Some y" "rd m3 ?p = Some x" for m3
      using that p ds by simp
    show ?thesis
    proof (cases "b + 1 < ?p - 1")
      case True
      then have mm: "mid \<noteq> []" "length mid < length ds" "?p - 1 = b + 1 + length mid - 1" using p ds by auto
      from less.hyps[OF mm(2) mid mm(1)] mm(3) obtain m3 where m3: "swap_ends m2 (b + 1) (?p - 1) = Some m3"
          "bytes_at m3 (b + 1) (rev mid)" "length m3 = length m2"
          "\<forall>a. a < b + 1 \<or> b + 1 + length mid \<le> a \<longrightarrow> rd m3 a = rd m2 a" by auto
      have "rd m3 b = Some y" "rd m3 ?p = Some x" using m3(4) rd2 p by auto
      from fin[OF m3(2) this] m3 m2(2) True rd2 ds p show ?thesis unfolding unf
        by (intro exI[of _ m3]) auto
    next
      case False
      then have "rev mid = mid" using p by (cases mid; cases "tl mid") auto
      then have "bytes_at m2 b (rev ds)" using fin[of m2] mid rd2 p by auto
      with m2(2) False rd2 ds p show ?thesis unfolding unf by (intro exI[of _ m2]) auto
    qed
  qed
qed

lemma c_utoa_eq:
  assumes "0 < buf" "v < 2 ^ 32" "buf + 11 \<le> length m"
  defines "ds \<equiv> rev (digits_rev v)"
  shows "\<exists>m'. c_utoa m v buf = Some (m', int (length ds)) \<and> bytes_at m' buf (ds @ [0]) \<and> length ds \<le> 10 \<and>
    length m' = length m \<and> (\<forall>a. a < buf \<or> buf + length ds < a \<longrightarrow> rd m' a = rd m a)"
proof -
  let ?n = "length (digits_rev v)"
  have n: "?n \<le> 10" using length_digits_rev[of v 10] assms(2) by simp
  obtain m1 where m1: "utoa_digits m v buf = Some (m1, buf + ?n)" "bytes_at m1 buf (digits_rev v)"
      "length m1 = length m" "\<forall>a. a < buf \<or> buf + ?n \<le> a \<longrightarrow> rd m1 a = rd m a"
    using utoa_digits_eq[OF assms(1), of v m] n assms(3) by auto
  obtain m3 where m3: "wr m1 (buf + ?n) 0 = Some m3" "length m3 = length m"
    using m1(3) n assms(1,3) wr_length by (auto simp: wr_Some)
  have "bytes_at m3 buf (digits_rev v)" using m1(2) rd_wr[OF m3(1)]
    by (subst bytes_at_cong[of _ _ _ m1]) auto
  from swap_ends_eq[OF this] obtain m4 where m4: "swap_ends m3 buf (buf + ?n - 1) = Some m4"
      "bytes_at m4 buf ds" "length m4 = length m3" "\<forall>a. a < buf \<or> buf + ?n \<le> a \<longrightarrow> rd m4 a = rd m3 a"
    by (auto simp: ds_def)
  have "c_utoa m v buf = Some (m4, int (length ds))"
    by (simp add: c_utoa_def c_utoa_pad_def m1(1) m3(1) m4(1)[simplified] ds_def Let_def)
  with m3 m4 m1 n rd_wr[OF m3(1)] show ?thesis by (intro exI[of _ m4]) (auto simp: ds_def)
qed

subsection \<open>Properties\<close>

text \<open>A string at address 1 of a memory that ends behind it.\<close>

definition demo_mem :: "u8 list \<Rightarrow> mem" where "demo_mem bs = 0 # bs @ [0]"

lemma demo_str: "length bs < 2 ^ 31 \<Longrightarrow> str_is (demo_mem bs) \<lparr>ptr = 1, slen = int (length bs)\<rparr> bs"
  by (simp add: str_is_def demo_mem_def bytes_at_nth rd_def nth_append)

text \<open>C_strtok with a delimiter string without repeated characters skips the delimiters at
  the index and returns the longest token that follows, or the length where nothing is left.\<close>

lemma c_strtok_token:
  assumes "str_is m s bs" "bs \<noteq> []" "str_is m d ds" "distinct ds" "i \<le> length bs"
  defines "k \<equiv> length (takeWhile (\<lambda>c. c \<in> set ds) (drop i bs))"
  shows "if i + k = length bs
    then \<exists>t. c_strtok m s d tok i = Some (int (length bs), t)
    else \<exists>t ts. c_strtok m s d tok i = Some (int (i + k), t) \<and> str_is m t ts \<and> ts \<noteq> [] \<and>
      set ts \<inter> set ds = {} \<and> take (length ts) (drop (i + k) bs) = ts \<and>
      (i + k + length ts < length bs \<longrightarrow> bs ! (i + k + length ts) \<in> set ds)"
proof (cases "i + k = length bs")
  case True
  with c_strtok_eq[OF assms(1-5), of tok] show ?thesis by (simp add: k_def)
next
  case False
  let ?r = "drop (i + k) bs" and ?P = "\<lambda>c. c \<notin> set ds"
  let ?ts = "takeWhile ?P ?r"
  have "k \<le> length (drop i bs)" unfolding k_def by (rule length_takeWhile_le)
  then have le: "i + k < length bs" using False assms(5) by simp
  have ts: "take (length ?ts) ?r = ?ts" by (rule takeWhile_eq_take[symmetric])
  have dr: "str_is m \<lparr>ptr = ptr s + (i + k), slen = slen s - int (i + k)\<rparr> ?r"
    using str_is_drop[OF assms(1), of "i + k"] le by simp
  then have "bytes_at m (ptr s + (i + k)) (take (length ?ts) ?r)"
    by (intro bytes_at_take) (simp add: str_is_def)
  moreover have "length ?ts < 2 ^ 31"
    using length_takeWhile_le[of ?P ?r] dr unfolding str_is_def by linarith
  ultimately have "str_is m \<lparr>ptr = ptr s + (i + k), slen = int (length ?ts)\<rparr> ?ts"
    unfolding str_is_def ts by simp
  moreover have "?ts \<noteq> []"
  proof -
    have "k < length (drop i bs)" using le by simp
    then have "drop i bs ! k \<notin> set ds" unfolding k_def by (rule nth_length_takeWhile)
    then have "hd ?r \<notin> set ds" using le by (simp add: hd_drop_conv_nth)
    moreover have "?r \<noteq> []" using le by simp
    ultimately show ?thesis by (cases ?r) auto
  qed
  moreover have "bs ! (i + k + length ?ts) \<in> set ds" if "i + k + length ?ts < length bs"
    using nth_length_takeWhile[of ?P ?r] that by simp
  moreover have "set ?ts \<inter> set ds = {}" by (auto dest: set_takeWhileD)
  moreover have "c_strtok m s d tok i = Some (int (i + k), \<lparr>ptr = ptr s + (i + k), slen = int (length ?ts)\<rparr>)"
    using c_strtok_eq[OF assms(1-5), of tok] False unfolding k_def by (simp only: if_False)
  ultimately show ?thesis using ts unfolding if_not_P[OF False] by blast
qed

lemma c_strtok_token_witness:
  "\<exists>t ts. c_strtok [0, 44, 97, 98, 44, 44, 32] \<lparr>ptr = 1, slen = 4\<rparr> \<lparr>ptr = 5, slen = 2\<rparr> \<lparr>ptr = 0, slen = 0\<rparr> 0 =
      Some (1, t) \<and> str_is [0, 44, 97, 98, 44, 44, 32] t ts \<and> ts \<noteq> []"
proof -
  let ?m = "[0, 44, 97, 98, 44, 44, 32]"
  have "str_is ?m \<lparr>ptr = 1, slen = 4\<rparr> [44, 97, 98, 44]" "str_is ?m \<lparr>ptr = 5, slen = 2\<rparr> [44, 32]"
    by (simp_all add: str_is_def rd_def)
  from c_strtok_token[OF this(1) _ this(2), of 0 "\<lparr>ptr = 0, slen = 0\<rparr>"] show ?thesis by auto
qed

text \<open>C_strcmp is the lexicographic order of the bytes, and c_stricmp that of the lower-case
  bytes when the first string has no NUL byte.\<close>

lemma c_strcmp_lexicographic:
  assumes "str_is m s as" "str_is m t bs" "0 \<notin> set as"
  shows "\<exists>r r'. c_strcmp m s t = Some r \<and> (r = 0 \<longleftrightarrow> as = bs) \<and> (r = -1 \<longleftrightarrow> ord_class.lexordp as bs) \<and>
    c_stricmp m s t = Some r' \<and> (r' = 0 \<longleftrightarrow> map c_tolower as = map c_tolower bs) \<and>
    (r' = -1 \<longleftrightarrow> ord_class.lexordp (map c_tolower as) (map c_tolower bs))"
  using c_strcmp_eq[OF assms(1,2)] c_stricmp_eq[OF assms] by (auto simp: lexcmp_0 lexcmp_less)

lemma c_strcmp_lexicographic_witness:
  "\<exists>r'. c_stricmp [0, 65, 66, 97, 98, 67] \<lparr>ptr = 1, slen = 2\<rparr> \<lparr>ptr = 3, slen = 3\<rparr> = Some r' \<and> r' = -1"
proof -
  have "str_is [0, 65, 66, 97, 98, 67] \<lparr>ptr = 1, slen = 2\<rparr> [65, 66]"
    "str_is [0, 65, 66, 97, 98, 67] \<lparr>ptr = 3, slen = 3\<rparr> [97, 98, 67]"
    by (simp_all add: str_is_def rd_def)
  from c_strcmp_lexicographic[OF this] show ?thesis by (auto simp: c_tolower_def)
qed

text \<open>C_strtoul3 in a base up to ten skips blanks and reads the longest run of digits: its
  value where it fits 32 bits, EO_TOOBIG and the greatest value where it does not, EO_INVAL
  where there is no digit.\<close>

lemma c_strtoul3_value:
  assumes "str_is m s bs" "1 \<le> base" "base \<le> 10"
  shows "c_strtoul3 m s base =
    (let ds = takeWhile (is_digit (digit_base base)) (dropWhile c_isspace bs);
         n = number base (digit_base base) 0 ds
     in Some (if ds = [] then (EO_INVAL, None)
        else if n < 2 ^ 32 then (EO_SUCCESS, Some n) else (EO_TOOBIG, Some (2 ^ 32 - 1))))"
  using c_strtoul3_eq[OF assms] by (simp add: strtoul3_spec_def Let_def C_MAXULONG_def)

lemma c_strtoul3_value_witness:
  "c_strtoul3 (demo_mem [32, 52, 50, 120]) \<lparr>ptr = 1, slen = 4\<rparr> 10 = Some (EO_SUCCESS, Some 42)"
  using c_strtoul3_value[OF demo_str[of "[32, 52, 50, 120]"], of 10]
  by (simp add: is_digit_def digit_base_def c_isspace_def)

text \<open>C_strtol2 reads an optional sign and a decimal number: the value where it is in the
  range of long, the nearer end of the range with EO_TOOBIG or EO_TOOSMALL beyond it. The
  text of the least long itself is the exception: the code negates the least long, which is
  undefined.\<close>

lemma c_strtol2_value:
  assumes "str_is m s bs" "signed_text bs = (neg, cs)" "decimal cs = Some n"
  defines "v \<equiv> (if neg then - int n else int n)"
  shows "c_strtol2 m s =
    (if v = - (2 ^ 31) then None
     else if v < - (2 ^ 31) then Some (EO_TOOSMALL, Some (- (2 ^ 31)))
     else if v \<ge> 2 ^ 31 then Some (EO_TOOBIG, Some (2 ^ 31 - 1))
     else Some (EO_SUCCESS, Some v))"
  unfolding c_strtol2_eq[OF assms(1)] strtol2_spec_def assms(2) v_def by (simp add: assms(3))

lemma c_strtol2_value_witness:
  "c_strtol2 (demo_mem [32, 45, 49, 55]) \<lparr>ptr = 1, slen = 4\<rparr> = Some (EO_SUCCESS, Some (-17))"
  using c_strtol2_value[OF demo_str[of "[32, 45, 49, 55]"], of True "[49, 55]" 17]
  by (simp add: signed_text_def decimal_def is_digit_def digit_base_def c_isspace_def)

text \<open>C9: c_utoa needs 11 bytes at most, writes the decimal text and a NUL and nothing else, and
  c_strtoul3 reads the number back.\<close>

lemma c_utoa_roundtrip:
  assumes "0 < buf" "v < 2 ^ 32" "buf + 11 \<le> length m"
  shows "\<exists>m' n. c_utoa m v buf = Some (m', n) \<and> 1 \<le> n \<and> n \<le> 10 \<and> rd m' (buf + nat n) = Some 0 \<and>
    (\<forall>a. a < buf \<or> buf + nat n < a \<longrightarrow> rd m' a = rd m a) \<and>
    c_strtoul3 m' \<lparr>ptr = buf, slen = n\<rparr> 10 = Some (EO_SUCCESS, Some v)"
proof -
  let ?ds = "rev (digits_rev v)"
  obtain m' where m': "c_utoa m v buf = Some (m', int (length ?ds))" "bytes_at m' buf (?ds @ [0])"
      "length ?ds \<le> 10" "\<forall>a. a < buf \<or> buf + length ?ds < a \<longrightarrow> rd m' a = rd m a"
    using c_utoa_eq[OF assms] by blast
  have dig: "is_digit (digit_base 10) c" if "c \<in> set ?ds" for c using that digits_rev_digit by simp
  have sp: "\<not> c_isspace c" if "is_digit (digit_base 10) c" for c
    using that by (auto simp: c_isspace_def is_digit_def digit_base_def)
  have dw: "dropWhile c_isspace ?ds = ?ds"
    using dig sp by (metis dropWhile_eq_self_iff hd_in_set)
  have tw: "takeWhile (is_digit (digit_base 10)) ?ds = ?ds" using dig unfolding takeWhile_eq_all_conv by blast
  have "strtoul3_spec 10 ?ds = (EO_SUCCESS, Some v)"
    unfolding strtoul3_spec_def Let_def dw tw number_digits using assms(2) by (simp add: C_MAXULONG_def)
  moreover have "str_is m' \<lparr>ptr = buf, slen = int (length ?ds)\<rparr> ?ds"
    using m'(2,3) by (simp add: str_is_def)
  note c_strtoul3_eq[OF this, of 10]
  ultimately have "c_strtoul3 m' \<lparr>ptr = buf, slen = int (length ?ds)\<rparr> 10 = Some (EO_SUCCESS, Some v)" by simp
  moreover have "1 \<le> length ?ds" by (simp add: Suc_le_eq)
  ultimately show ?thesis using m' by (intro exI[of _ m'] exI[of _ "int (length ?ds)"]) auto
qed

lemma c_utoa_roundtrip_witness:
  "\<exists>m' n. c_utoa (replicate 16 7) 4096 2 = Some (m', n) \<and>
    c_strtoul3 m' \<lparr>ptr = 2, slen = n\<rparr> 10 = Some (EO_SUCCESS, Some 4096)"
  using c_utoa_roundtrip[of 2 4096 "replicate 16 7"] by auto

text \<open>C_strtrim removes exactly the blanks at both ends.\<close>

lemma c_strtrim_blanks:
  assumes "str_is m s bs"
  shows "\<exists>t as cs. c_strtrim m s = Some t \<and> str_is m t (trimmed bs) \<and> bs = as @ trimmed bs @ cs \<and>
    (\<forall>c\<in>set as \<union> set cs. c_isspace c) \<and>
    (trimmed bs \<noteq> [] \<longrightarrow> \<not> c_isspace (hd (trimmed bs)) \<and> \<not> c_isspace (last (trimmed bs)))"
proof -
  let ?l = "dropWhile c_isspace bs"
  have 1: "bs = takeWhile c_isspace bs @ ?l" by simp
  have 2: "?l = trimmed bs @ rev (takeWhile c_isspace (rev ?l))"
    unfolding trimmed_def by (metis rev_append rev_rev_ident takeWhile_dropWhile_id)
  have "\<forall>c\<in>set (takeWhile c_isspace bs) \<union> set (rev (takeWhile c_isspace (rev ?l))). c_isspace c"
    by (auto dest: set_takeWhileD)
  moreover have "\<not> c_isspace (last (trimmed bs))" if "trimmed bs \<noteq> []"
    using that hd_dropWhile[of c_isspace "rev ?l"] unfolding trimmed_def by (simp add: last_rev)
  moreover have "\<not> c_isspace (hd (trimmed bs))" if "trimmed bs \<noteq> []"
  proof -
    have "hd (trimmed bs) = hd ?l" using 2 that by (metis hd_append2)
    moreover have "?l \<noteq> []" using 2 that by (metis Nil_is_append_conv)
    ultimately show ?thesis using hd_dropWhile by metis
  qed
  moreover obtain t where "c_strtrim m s = Some t" "str_is m t (trimmed bs)" using c_strtrim_eq[OF assms] by blast
  moreover have "bs = takeWhile c_isspace bs @ trimmed bs @ rev (takeWhile c_isspace (rev ?l))" using 1 2 by metis
  ultimately show ?thesis by blast
qed

lemma c_strtrim_blanks_witness:
  "\<exists>t. c_strtrim (demo_mem [32, 65, 10]) \<lparr>ptr = 1, slen = 3\<rparr> = Some t \<and> str_is (demo_mem [32, 65, 10]) t [65]"
  using c_strtrim_blanks[OF demo_str[of "[32, 65, 10]"]] by (auto simp: trimmed_def c_isspace_def)

end
