(* ===== verification/Hash_Table.thy ===== *)
theory Hash_Table
  imports Cstring "HOL-Library.Multiset"
begin

section \<open>Hash table with chaining (\<^verbatim>\<open>oslib/src/hash.c\<close>)\<close>

text \<open>
  The chains are linked through the \<open>next\<close> fields of entries, which live in a typed store by
  address; keys are bytes in the flat memory. A pointer to a pointer (\<open>T_HashEntry **\<close>) is a
  \<open>pref\<close>: null, a row of the table or the \<open>next\<close> field of an entry.

  The pool gives an entry the next address of a counter and key bytes the end of the memory,
  until 32 bits are used up; then it returns null, which the code does not check.
\<close>

unbundle bit_operations_syntax

record T_HashEntry =
  e_next :: addr
  e_key :: addr
  e_hash :: "32 word"
  e_keylen :: nat
  e_value :: addr

record T_HashTable =
  t_table :: "addr list"
  t_count :: nat
  t_rows :: "32 word"

record hstate =
  entries :: "addr \<Rightarrow> T_HashEntry option"
  hmem :: mem
  brk :: addr

datatype pref = NullRef | RowRef nat | NextRef addr

definition HASH_MULTIPLIER :: "32 word" where "HASH_MULTIPLIER = 33"
definition HASH_KEY_TYPE_STRING :: nat where "HASH_KEY_TYPE_STRING = 2 ^ 32 - 1"

subsection \<open>Hash values\<close>

text \<open>The loops over a NUL-terminated and over a counted key, with the byte mapped by \<open>f\<close>.\<close>

function hash_cstr :: "(u8 \<Rightarrow> u8) \<Rightarrow> mem \<Rightarrow> 32 word \<Rightarrow> addr \<Rightarrow> (32 word \<times> addr) option" where
  "hash_cstr f m h p =
     (case rd m p of None \<Rightarrow> None
      | Some c \<Rightarrow> if c = 0 then Some (h, p) else hash_cstr f m (h * HASH_MULTIPLIER + ucast (f c)) (p + 1))"
  by pat_completeness auto
termination
  by (relation "measure (\<lambda>(f, m, h, p). length m - p)") (auto simp: rd_def split: if_splits)

fun hash_bytes :: "(u8 \<Rightarrow> u8) \<Rightarrow> mem \<Rightarrow> 32 word \<Rightarrow> addr \<Rightarrow> nat \<Rightarrow> 32 word option" where
  "hash_bytes f m h p 0 = Some h"
| "hash_bytes f m h p (Suc n) =
     do { c \<leftarrow> rd m p; hash_bytes f m (h * HASH_MULTIPLIER + ucast (f c)) (p + 1) n }"

declare hash_cstr.simps [simp del]

definition HASH_Calc :: "mem \<Rightarrow> 32 word \<Rightarrow> addr \<Rightarrow> nat \<Rightarrow> 32 word option" where
  "HASH_Calc m hash k len =
     (if len = HASH_KEY_TYPE_STRING then map_option fst (hash_cstr id m hash k)
      else hash_bytes id m hash k len)"

fun calc_lower :: "mem \<Rightarrow> 32 word \<Rightarrow> addr \<Rightarrow> addr \<Rightarrow> nat \<Rightarrow> nat \<Rightarrow> (mem \<times> 32 word) option" where
  "calc_lower m hval res p i 0 = Some (m, hval)"
| "calc_lower m hval res p i (Suc n) =
     do {
       c \<leftarrow> rd m (p + i);
       let lower = c_tolower c;
       m' \<leftarrow> (if res \<noteq> 0 then wr m (res + i) lower else Some m);
       calc_lower m' (hval * HASH_MULTIPLIER + ucast lower) res p (i + 1) n
     }"

definition HASH_CalcToLower :: "mem \<Rightarrow> 32 word \<Rightarrow> addr \<Rightarrow> str_t \<Rightarrow> (mem \<times> 32 word) option" where
  "HASH_CalcToLower m hval res k = calc_lower m hval res (ptr k) 0 (nat (slen k))"

subsection \<open>Creating a table\<close>

text \<open>The doubling of the size; it ends for no request above \<open>2 ^ 31\<close>, where the size wraps to 0.\<close>

partial_function (option) table_size :: "32 word \<Rightarrow> 32 word \<Rightarrow> 32 word option" where
  "table_size t sz = (let t = t * 2 in if t < sz then table_size t sz else Some t)"

text \<open>
  \<open>pool\<close> says which requests in bytes can be served; a failed one for the header is
  dereferenced, and one for the table leaves no row. The size of the table in bytes wraps.
\<close>

definition HASH_Create :: "(nat \<Rightarrow> bool) \<Rightarrow> 32 word \<Rightarrow> T_HashTable option" where
  "HASH_Create pool sz =
     do {
       guard (pool 20);
       t \<leftarrow> table_size 8 sz;
       let rows = t - 1;
       let n = u32 (unat (rows + 1) * 4);
       Some \<lparr>t_table = (if pool n then replicate (n div 4) 0 else []), t_count = 0, t_rows = rows\<rparr>
     }"

subsection \<open>Lookup and insertion\<close>

definition deref :: "hstate \<Rightarrow> T_HashTable \<Rightarrow> pref \<Rightarrow> addr option" where
  "deref st ht p =
     (case p of NullRef \<Rightarrow> None
      | RowRef i \<Rightarrow> if i < length (t_table ht) then Some (t_table ht ! i) else None
      | NextRef a \<Rightarrow> map_option e_next (entries st a))"

definition assign :: "hstate \<Rightarrow> T_HashTable \<Rightarrow> pref \<Rightarrow> addr \<Rightarrow> (hstate \<times> T_HashTable) option" where
  "assign st ht p a =
     (case p of NullRef \<Rightarrow> None
      | RowRef i \<Rightarrow>
          if i < length (t_table ht) then Some (st, ht\<lparr>t_table := (t_table ht)[i := a]\<rparr>) else None
      | NextRef b \<Rightarrow>
          map_option (\<lambda>e. (st\<lparr>entries := (entries st)(b \<mapsto> e\<lparr>e_next := a\<rparr>)\<rparr>, ht)) (entries st b))"

definition key_matches :: "mem \<Rightarrow> bool \<Rightarrow> T_HashEntry \<Rightarrow> addr \<Rightarrow> nat \<Rightarrow> 32 word \<Rightarrow> bool option" where
  "key_matches m lower e k len hash =
     (if e_hash e = hash \<and> e_keylen e = len
      then (if lower then map_option (\<lambda>r. r = 0) (strnicmp m (e_key e) k (s32 (int len)))
            else map_option (\<lambda>r. r = 0) (memcmp m (e_key e) k len))
      else Some False)"

partial_function (option) find_in_chain ::
  "hstate \<Rightarrow> T_HashTable \<Rightarrow> bool \<Rightarrow> addr \<Rightarrow> nat \<Rightarrow> 32 word \<Rightarrow> pref \<Rightarrow> pref option" where
  "find_in_chain st ht lower k len hash p =
     do {
       a \<leftarrow> deref st ht p;
       if a = 0 then Some p
       else do {
         e \<leftarrow> entries st a;
         hit \<leftarrow> key_matches (hmem st) lower e k len hash;
         if hit then Some p else find_in_chain st ht lower k len hash (NextRef a)
       }
     }"

text \<open>The hash and length: from the caller's \<open>*hval\<close> when it is set and not 0, else computed.\<close>

definition find_hash :: "mem \<Rightarrow> addr \<Rightarrow> nat \<Rightarrow> 32 word option \<Rightarrow> bool \<Rightarrow> (32 word \<times> nat) option" where
  "find_hash m k len hval lower =
     (let f = (if lower then c_tolower else id) in
      if \<exists>h. hval = Some h \<and> h \<noteq> 0
      then (if len = HASH_KEY_TYPE_STRING
            then map_option (\<lambda>n. (the hval, n)) (strlen m k) else Some (the hval, len))
      else if len = HASH_KEY_TYPE_STRING
      then map_option (\<lambda>(h, p). (h, p - k)) (hash_cstr f m 0 k)
      else map_option (\<lambda>h. (h, len)) (hash_bytes f m 0 k len))"

text \<open>\<open>POOL_ALLOC_T\<close> and \<open>POOL_Alloc\<close> with the copy of the key.\<close>

definition alloc_entry :: "hstate \<Rightarrow> hstate \<times> addr" where
  "alloc_entry st = (if brk st + 20 < 2 ^ 32 then (st\<lparr>brk := brk st + 20\<rparr>, brk st) else (st, 0))"

definition copy_key :: "hstate \<Rightarrow> addr \<Rightarrow> nat \<Rightarrow> (hstate \<times> addr) option" where
  "copy_key st k len =
     (let (m1, p) = POOL_bytes (hmem st) len in
      map_option (\<lambda>m2. (st\<lparr>hmem := m2\<rparr>, p)) (memcpy m1 p k len))"

definition find_entry ::
  "bool \<Rightarrow> hstate \<Rightarrow> T_HashTable \<Rightarrow> addr \<Rightarrow> nat \<Rightarrow> addr \<Rightarrow> 32 word option \<Rightarrow> addr \<Rightarrow> bool \<Rightarrow>
   (hstate \<times> T_HashTable \<times> pref \<times> 32 word) option" where
  "find_entry pool st ht k len0 val hval entry_buf lower =
     do {
       (hash, len) \<leftarrow> find_hash (hmem st) k len0 hval lower;
       p \<leftarrow> find_in_chain st ht lower k len hash (RowRef (unat (hash AND t_rows ht)));
       a \<leftarrow> deref st ht p;
       if a \<noteq> 0 \<or> val = 0 then Some (st, ht, p, hash)
       else if entry_buf = 0 \<and> \<not> pool then Some (st, ht, NullRef, hash)
       else do {
         let (st1, e) = (if entry_buf \<noteq> 0 then (st, entry_buf) else alloc_entry st);
         guard (e \<noteq> 0);
         (st2, key) \<leftarrow> (if pool then copy_key st1 k len else Some (st1, k));
         let st3 = st2\<lparr>entries := (entries st2)(e \<mapsto>
           \<lparr>e_next = 0, e_key = key, e_hash = hash, e_keylen = len, e_value = val\<rparr>)\<rparr>;
         (st4, ht1) \<leftarrow> assign st3 ht p e;
         Some (st4, ht1\<lparr>t_count := u32 (t_count ht1 + 1)\<rparr>, p, hash)
       }
     }"

definition hash_get ::
  "hstate \<Rightarrow> T_HashTable \<Rightarrow> addr \<Rightarrow> nat \<Rightarrow> 32 word option \<Rightarrow> bool \<Rightarrow> (addr \<times> 32 word option) option" where
  "hash_get st ht k len hval lower =
     do {
       (st', ht', p, h) \<leftarrow> find_entry False st ht k len 0 hval 0 lower;
       a \<leftarrow> deref st' ht' p;
       v \<leftarrow> (if a \<noteq> 0 then map_option e_value (entries st' a) else Some 0);
       Some (v, map_option (\<lambda>_. h) hval)
     }"

definition HASH_Get :: "hstate \<Rightarrow> T_HashTable \<Rightarrow> addr \<Rightarrow> nat \<Rightarrow> 32 word option \<Rightarrow> (addr \<times> 32 word option) option" where
  "HASH_Get st ht k len hval = hash_get st ht k len hval False"

definition HASH_GetLower :: "hstate \<Rightarrow> T_HashTable \<Rightarrow> addr \<Rightarrow> nat \<Rightarrow> 32 word option \<Rightarrow> (addr \<times> 32 word option) option" where
  "HASH_GetLower st ht k len hval = hash_get st ht k len hval True"

definition hash_set ::
  "bool \<Rightarrow> hstate \<Rightarrow> T_HashTable \<Rightarrow> addr \<Rightarrow> nat \<Rightarrow> 32 word \<Rightarrow> addr \<Rightarrow> addr \<Rightarrow> bool \<Rightarrow> (hstate \<times> T_HashTable) option" where
  "hash_set pool st ht k len hval val entry_buf lower =
     do {
       (st1, ht1, p, h) \<leftarrow> find_entry pool st ht k len val (Some hval) entry_buf lower;
       a \<leftarrow> deref st1 ht1 p;
       if a \<noteq> 0 then do {
         e \<leftarrow> entries st1 a;
         if val = 0 then do {
           (st2, ht2) \<leftarrow> assign st1 ht1 p (e_next e);
           Some (st2, ht2\<lparr>t_count := sub32 (t_count ht2) 1\<rparr>)
         }
         else Some (st1\<lparr>entries := (entries st1)(a \<mapsto> e\<lparr>e_value := val\<rparr>)\<rparr>, ht1)
       }
       else Some (st1, ht1)
     }"

definition HASH_Set :: "hstate \<Rightarrow> T_HashTable \<Rightarrow> addr \<Rightarrow> nat \<Rightarrow> 32 word \<Rightarrow> addr \<Rightarrow> (hstate \<times> T_HashTable) option" where
  "HASH_Set st ht k len hval val = hash_set True st ht k len hval val 0 False"

definition HASH_SetLower :: "hstate \<Rightarrow> T_HashTable \<Rightarrow> addr \<Rightarrow> nat \<Rightarrow> 32 word \<Rightarrow> addr \<Rightarrow> (hstate \<times> T_HashTable) option" where
  "HASH_SetLower st ht k len hval val = hash_set True st ht k len hval val 0 True"

definition HASH_SetNp :: "hstate \<Rightarrow> T_HashTable \<Rightarrow> addr \<Rightarrow> nat \<Rightarrow> 32 word \<Rightarrow> addr \<Rightarrow> addr \<Rightarrow> (hstate \<times> T_HashTable) option" where
  "HASH_SetNp st ht k len hval entry_buf val = hash_set False st ht k len hval val entry_buf False"

definition HASH_SetNpLower :: "hstate \<Rightarrow> T_HashTable \<Rightarrow> addr \<Rightarrow> nat \<Rightarrow> 32 word \<Rightarrow> addr \<Rightarrow> addr \<Rightarrow> (hstate \<times> T_HashTable) option" where
  "HASH_SetNpLower st ht k len hval entry_buf val = hash_set False st ht k len hval val entry_buf True"

definition HASH_Count :: "T_HashTable \<Rightarrow> nat" where "HASH_Count ht = t_count ht"

subsection \<open>Iterating\<close>

record T_HashIterator =
  it_index :: nat
  it_entry :: addr

text \<open>\<open>n\<close> rows are left from index \<open>i\<close>; \<open>None\<close> of the result is the null iterator.\<close>

fun scan_rows :: "T_HashTable \<Rightarrow> nat \<Rightarrow> nat \<Rightarrow> T_HashIterator option option" where
  "scan_rows ht i 0 = Some None"
| "scan_rows ht i (Suc n) =
     (if i < length (t_table ht)
      then (if t_table ht ! i \<noteq> 0 then Some (Some \<lparr>it_index = i, it_entry = t_table ht ! i\<rparr>)
            else scan_rows ht (i + 1) n)
      else None)"

definition HASH_ItFirst :: "T_HashTable \<Rightarrow> T_HashIterator option option" where
  "HASH_ItFirst ht = scan_rows ht 0 (unat (t_rows ht) + 1)"

definition HASH_ItNext :: "hstate \<Rightarrow> T_HashTable \<Rightarrow> T_HashIterator \<Rightarrow> T_HashIterator option option" where
  "HASH_ItNext st ht it =
     do {
       e \<leftarrow> entries st (it_entry it);
       if e_next e \<noteq> 0 then Some (Some (it\<lparr>it_entry := e_next e\<rparr>))
       else scan_rows ht (it_index it + 1) (unat (t_rows ht) - it_index it)
     }"

definition HASH_ItThis :: "hstate \<Rightarrow> T_HashIterator \<Rightarrow> addr option" where
  "HASH_ItThis st it = map_option e_value (entries st (it_entry it))"

subsection \<open>Chains\<close>

fun chain :: "(addr \<Rightarrow> T_HashEntry option) \<Rightarrow> addr \<Rightarrow> addr list \<Rightarrow> bool" where
  "chain es p [] = (p = 0)"
| "chain es p (a # as) = (p = a \<and> a \<noteq> 0 \<and> (\<exists>e. es a = Some e \<and> chain es (e_next e) as))"

definition ref_at :: "pref \<Rightarrow> addr list \<Rightarrow> nat \<Rightarrow> pref" where
  "ref_at p as j = (if j = 0 then p else NextRef (as ! (j - 1)))"

lemma find_in_chain_eq:
  "deref st ht p = Some q \<Longrightarrow> chain (entries st) q as \<Longrightarrow>
   (\<And>a. a \<in> set as \<Longrightarrow> key_matches (hmem st) lower (the (entries st a)) k len hash = Some (P a)) \<Longrightarrow>
   j = length (takeWhile (\<lambda>a. \<not> P a) as) \<Longrightarrow>
   find_in_chain st ht lower k len hash p = Some (ref_at p as j) \<and>
   deref st ht (ref_at p as j) = Some (if j < length as then as ! j else 0)"
proof (induction as arbitrary: p q j)
  case Nil
  then show ?case by (subst find_in_chain.simps) (simp add: ref_at_def)
next
  case (Cons a as)
  then obtain e where e: "q = a" "a \<noteq> 0" "entries st a = Some e" "chain (entries st) (e_next e) as" by auto
  have m: "key_matches (hmem st) lower e k len hash = Some (P a)" using Cons.prems(3)[of a] e by simp
  show ?case
  proof (cases "P a")
    case True
    with e m Cons.prems(1,4) show ?thesis by (subst find_in_chain.simps) (simp add: ref_at_def)
  next
    case False
    let ?j = "length (takeWhile (\<lambda>a. \<not> P a) as)"
    have "deref st ht (NextRef a) = Some (e_next e)" by (simp add: deref_def e(3))
    from Cons.IH[OF this e(4) _ refl] Cons.prems(3) have
      IH: "find_in_chain st ht lower k len hash (NextRef a) = Some (ref_at (NextRef a) as ?j)"
        "deref st ht (ref_at (NextRef a) as ?j) = Some (if ?j < length as then as ! ?j else 0)" by auto
    have r: "ref_at p (a # as) (Suc ?j) = ref_at (NextRef a) as ?j"
      by (cases "?j = 0") (simp_all add: ref_at_def)
    have j: "j = Suc ?j" using Cons.prems(4) False by simp
    have "find_in_chain st ht lower k len hash p = find_in_chain st ht lower k len hash (NextRef a)"
      using e m False Cons.prems(1) by (subst find_in_chain.simps) simp
    with IH show ?thesis unfolding j r by simp
  qed
qed

lemma chain_cong:
  "chain es p as \<Longrightarrow> (\<And>a. a \<in> set as \<Longrightarrow> map_option e_next (es' a) = map_option e_next (es a)) \<Longrightarrow> chain es' p as"
proof (induction as arbitrary: p)
  case (Cons a as)
  then obtain e where e: "p = a" "a \<noteq> 0" "es a = Some e" "chain es (e_next e) as" by auto
  obtain e' where "es' a = Some e'" "e_next e' = e_next e" using Cons.prems(2)[of a] e(3) by auto
  with e Cons.IH[OF e(4)] Cons.prems(2) show ?case by auto
qed simp

lemma chain_entry: "chain es p as \<Longrightarrow> a \<in> set as \<Longrightarrow> a \<noteq> 0 \<and> (\<exists>e. es a = Some e)"
  by (induction as arbitrary: p) auto

subsection \<open>The table as a map\<close>

text \<open>
  A key of the map is the hash with the bytes of the key, in lower case when the table is used
  through the \<open>Lower\<close> functions. \<open>hinv\<close>: \<open>css\<close> lists the entries of the rows, and \<open>M\<close>
  is the map they stand for.
\<close>

definition kclass :: "bool \<Rightarrow> u8 list \<Rightarrow> u8 list" where
  "kclass lower bs = (if lower then map c_tolower bs else bs)"

definition key_ok :: "bool \<Rightarrow> mem \<Rightarrow> addr \<Rightarrow> u8 list \<Rightarrow> bool" where
  "key_ok lower m p bs \<longleftrightarrow> bytes_at m p bs \<and> length bs < 2 ^ 31 \<and> (lower \<longrightarrow> 0 \<notin> set bs)"

definition hk_of :: "bool \<Rightarrow> hstate \<Rightarrow> addr \<Rightarrow> 32 word \<times> u8 list" where
  "hk_of lower st a = (let e = the (entries st a) in
     (e_hash e, kclass lower (take (e_keylen e) (drop (e_key e) (hmem st)))))"

definition entry_ok :: "bool \<Rightarrow> hstate \<Rightarrow> addr \<Rightarrow> bool" where
  "entry_ok lower st a \<longleftrightarrow> (\<exists>e bs. entries st a = Some e \<and> e_value e \<noteq> 0 \<and>
     key_ok lower (hmem st) (e_key e) bs \<and> length bs = e_keylen e)"

definition all_entries :: "addr list list \<Rightarrow> addr set" where
  "all_entries css = (\<Union>i<length css. set (css ! i))"

definition row_of :: "hstate \<Rightarrow> T_HashTable \<Rightarrow> addr \<Rightarrow> nat" where
  "row_of st ht a = unat (e_hash (the (entries st a)) AND t_rows ht)"

definition hrows :: "bool \<Rightarrow> hstate \<Rightarrow> T_HashTable \<Rightarrow> addr list list \<Rightarrow> bool" where
  "hrows lower st ht css \<longleftrightarrow>
     length css = length (t_table ht) \<and> length css = unat (t_rows ht) + 1 \<and>
     (\<forall>i<length css. chain (entries st) (t_table ht ! i) (css ! i) \<and> distinct (css ! i)) \<and>
     (\<forall>i<length css. \<forall>a\<in>set (css ! i). a < brk st \<and> entry_ok lower st a \<and> row_of st ht a = i) \<and>
     inj_on (hk_of lower st) (all_entries css) \<and> 0 < length (hmem st) \<and> 0 < brk st"

definition hmap_is :: "bool \<Rightarrow> hstate \<Rightarrow> addr list list \<Rightarrow> (32 word \<times> u8 list \<rightharpoonup> addr) \<Rightarrow> bool" where
  "hmap_is lower st css M \<longleftrightarrow>
     (\<forall>hk v. M hk = Some v \<longleftrightarrow> (\<exists>a\<in>all_entries css. hk_of lower st a = hk \<and> e_value (the (entries st a)) = v))"

definition hinv :: "bool \<Rightarrow> hstate \<Rightarrow> T_HashTable \<Rightarrow> addr list list \<Rightarrow> (32 word \<times> u8 list \<rightharpoonup> addr) \<Rightarrow> bool" where
  "hinv lower st ht css M \<longleftrightarrow>
     hrows lower st ht css \<and> hmap_is lower st css M \<and> finite (dom M) \<and> t_count ht = card (dom M)"

lemma key_bytes: "bytes_at m p bs \<Longrightarrow> take (length bs) (drop p m) = bs"
  using rd_bytes_at[of m p bs] by (cases "bs = []") (auto simp: rd_bytes_def split: if_splits)

lemma kclass_eq_lexcmp: "lexcmp (map c_tolower as) (map c_tolower bs) = 0 \<longleftrightarrow> kclass True as = kclass True bs"
  by (simp add: lexcmp_0 kclass_def)

lemma strnicmp_key:
  assumes "bytes_at m p as" "bytes_at m q bs" "0 \<notin> set as" "length as = length bs" "length bs < 2 ^ 31"
  shows "map_option (\<lambda>r. r = 0) (strnicmp m p q (s32 (int (length bs)))) = Some (kclass True as = kclass True bs)"
proof (cases "bs = []")
  case True
  with assms show ?thesis by (simp add: strnicmp_def s32_def)
next
  case False
  have l: "s32 (int (length bs)) = int (min (length as) (length bs))" using assms(4,5) by (simp add: s32_id)
  obtain r where "strnicmp_loop m p q (int (min (length as) (length bs))) = Some r"
      "lexcmp (map c_tolower as) (map c_tolower bs) = (if r = 0 then lenorder as bs else r)"
    using strnicmp_loop_eq[OF assms(1-3) _ False] False assms(4) by fastforce
  then show ?thesis using l assms(4) False kclass_eq_lexcmp[of as bs]
    by (auto simp: strnicmp_def lenorder_def split: if_splits)
qed

lemma memcmp_key:
  assumes "bytes_at m p as" "bytes_at m q bs" "length as = length bs"
  shows "map_option (\<lambda>r. r = 0) (memcmp m p q (length bs)) = Some (as = bs)"
proof -
  obtain r where "memcmp m p q (min (length as) (length bs)) = Some r" "lexcmp as bs = (if r = 0 then lenorder as bs else r)"
    using memcmp_eq[OF assms(1,2)] by blast
  then show ?thesis using assms(3) lexcmp_0[of as bs] by (auto simp: lenorder_def split: if_splits)
qed

lemma key_matches_eq:
  assumes "entry_ok lower st a" "key_ok lower (hmem st) k qs"
  shows "key_matches (hmem st) lower (the (entries st a)) k (length qs) hash = Some (hk_of lower st a = (hash, kclass lower qs))"
proof -
  obtain e bs where e: "entries st a = Some e" "key_ok lower (hmem st) (e_key e) bs" "length bs = e_keylen e"
    using assms(1) by (auto simp: entry_ok_def)
  have kb: "take (e_keylen e) (drop (e_key e) (hmem st)) = bs" using e key_bytes[of "hmem st" "e_key e" bs] by (simp add: key_ok_def)
  have hk: "hk_of lower st a = (e_hash e, kclass lower bs)" by (simp add: hk_of_def e(1) kb)
  show ?thesis
  proof (cases "e_hash e = hash \<and> e_keylen e = length qs")
    case True
    then have len: "length bs = length qs" using e(3) by simp
    have q: "bytes_at (hmem st) k qs" "length qs < 2 ^ 31" using assms(2) by (auto simp: key_ok_def)
    have b: "bytes_at (hmem st) (e_key e) bs" "lower \<Longrightarrow> 0 \<notin> set bs" using e(2) by (auto simp: key_ok_def)
    have "(hk_of lower st a = (hash, kclass lower qs)) = (kclass lower bs = kclass lower qs)"
      using hk True by simp
    then show ?thesis
      using True strnicmp_key[OF b(1) q(1) b(2) len q(2)] memcmp_key[OF b(1) q(1) len]
      by (cases lower) (simp_all add: key_matches_def e(1) kclass_def)
  next
    case False
    moreover have "hk_of lower st a \<noteq> (hash, kclass lower qs)"
    proof
      assume "hk_of lower st a = (hash, kclass lower qs)"
      then have "e_hash e = hash" "length (kclass lower bs) = length (kclass lower qs)" using hk by auto
      then show False using False e(3) by (simp add: kclass_def split: if_splits)
    qed
    ultimately show ?thesis by (auto simp: key_matches_def e(1))
  qed
qed

text \<open>The search ends at the entry of the key, or at the end of its row.\<close>

definition row_pos :: "bool \<Rightarrow> hstate \<Rightarrow> 32 word \<times> u8 list \<Rightarrow> addr list \<Rightarrow> nat" where
  "row_pos lower st hk as = length (takeWhile (\<lambda>a. hk_of lower st a \<noteq> hk) as)"

lemma find_row:
  fixes hash :: "32 word"
  assumes rows: "hrows lower st ht css" and k: "key_ok lower (hmem st) k qs"
  defines "i \<equiv> unat (hash AND t_rows ht)"
  defines "j \<equiv> row_pos lower st (hash, kclass lower qs) (css ! i)"
  shows "i < length css"
    "find_in_chain st ht lower k (length qs) hash (RowRef i) = Some (ref_at (RowRef i) (css ! i) j)"
    "deref st ht (ref_at (RowRef i) (css ! i) j) = Some (if j < length (css ! i) then css ! i ! j else 0)"
    "j < length (css ! i) \<Longrightarrow> hk_of lower st (css ! i ! j) = (hash, kclass lower qs)"
    "\<not> j < length (css ! i) \<Longrightarrow> (hash, kclass lower qs) \<notin> hk_of lower st ` all_entries css"
proof -
  have "unat (hash AND t_rows ht) \<le> unat (t_rows ht)"
    using word_and_le1[of hash "t_rows ht"] by (simp add: word_le_nat_alt)
  then show i: "i < length css" using rows by (simp add: hrows_def i_def)
  have ch: "chain (entries st) (t_table ht ! i) (css ! i)" and ok: "\<And>a. a \<in> set (css ! i) \<Longrightarrow> entry_ok lower st a"
    and d: "deref st ht (RowRef i) = Some (t_table ht ! i)"
    using rows i by (auto simp: hrows_def deref_def)
  from find_in_chain_eq[OF d ch, of lower k "length qs" hash "\<lambda>a. hk_of lower st a = (hash, kclass lower qs)" j]
  show "find_in_chain st ht lower k (length qs) hash (RowRef i) = Some (ref_at (RowRef i) (css ! i) j)"
    "deref st ht (ref_at (RowRef i) (css ! i) j) = Some (if j < length (css ! i) then css ! i ! j else 0)"
    using key_matches_eq[OF ok k] by (simp_all add: j_def row_pos_def)
  show "hk_of lower st (css ! i ! j) = (hash, kclass lower qs)" if "j < length (css ! i)"
    using nth_length_takeWhile[of "\<lambda>a. hk_of lower st a \<noteq> (hash, kclass lower qs)" "css ! i"] that
    unfolding j_def row_pos_def by simp
  show "(hash, kclass lower qs) \<notin> hk_of lower st ` all_entries css" if "\<not> j < length (css ! i)"
  proof
    assume "(hash, kclass lower qs) \<in> hk_of lower st ` all_entries css"
    then obtain l a where a: "l < length css" "a \<in> set (css ! l)" "hk_of lower st a = (hash, kclass lower qs)"
      by (auto simp: all_entries_def)
    then have "row_of st ht a = l" using rows by (auto simp: hrows_def)
    moreover have "row_of st ht a = i" using a(3) by (simp add: row_of_def hk_of_def i_def Let_def)
    ultimately have "a \<in> set (css ! i)" using a(2) by simp
    moreover have "takeWhile (\<lambda>a. hk_of lower st a \<noteq> (hash, kclass lower qs)) (css ! i) = css ! i"
      using that length_takeWhile_le[of "\<lambda>a. hk_of lower st a \<noteq> (hash, kclass lower qs)" "css ! i"]
      unfolding j_def row_pos_def by (metis not_less takeWhile_eq_take take_all)
    ultimately show False using a(3) unfolding takeWhile_eq_all_conv by blast
  qed
qed

subsection \<open>Relinking a chain\<close>

definition but_next :: "T_HashEntry \<Rightarrow> T_HashEntry" where "but_next e = e\<lparr>e_next := 0\<rparr>"

definition relinked :: "hstate \<Rightarrow> hstate \<Rightarrow> bool" where
  "relinked st st' \<longleftrightarrow> (\<forall>a. map_option but_next (entries st' a) = map_option but_next (entries st a)) \<and>
     hmem st' = hmem st \<and> brk st' = brk st"

lemma relinked_refl: "relinked st st"
  by (simp add: relinked_def)

lemma relinked_entry:
  assumes "relinked st st'" "entries st a = Some e"
  obtains e' where "entries st' a = Some e'" "e_key e' = e_key e" "e_hash e' = e_hash e" "e_keylen e' = e_keylen e" "e_value e' = e_value e"
proof -
  from assms obtain e' where e': "entries st' a = Some e'" "but_next e' = but_next e"
    by (auto simp: relinked_def dest!: spec[of _ a])
  then have "e_key (but_next e') = e_key (but_next e)" "e_hash (but_next e') = e_hash (but_next e)"
    "e_keylen (but_next e') = e_keylen (but_next e)" "e_value (but_next e') = e_value (but_next e)" by simp_all
  with e'(1) that show thesis by (simp add: but_next_def)
qed

lemma relinked_same:
  assumes "relinked st st'" "entry_ok lower st a" "t_rows ht' = t_rows ht"
  shows "entry_ok lower st' a" "hk_of lower st' a = hk_of lower st a" "row_of st' ht' a = row_of st ht a"
    "e_value (the (entries st' a)) = e_value (the (entries st a))"
proof -
  obtain e where e: "entries st a = Some e" using assms(2) by (auto simp: entry_ok_def)
  obtain e' where e': "entries st' a = Some e'" "e_key e' = e_key e" "e_hash e' = e_hash e"
      "e_keylen e' = e_keylen e" "e_value e' = e_value e" using relinked_entry[OF assms(1) e] .
  then show "entry_ok lower st' a" "hk_of lower st' a = hk_of lower st a" "row_of st' ht' a = row_of st ht a"
    "e_value (the (entries st' a)) = e_value (the (entries st a))"
    using e assms by (auto simp: entry_ok_def hk_of_def row_of_def relinked_def)
qed

lemma chain_relink:
  "chain es q (xs @ b # ys) \<Longrightarrow> es b = Some e \<Longrightarrow> b \<notin> set xs \<Longrightarrow> chain es r zs \<Longrightarrow> b \<notin> set zs \<Longrightarrow>
   chain (es(b \<mapsto> e\<lparr>e_next := r\<rparr>)) q (xs @ b # zs)"
proof (induction xs arbitrary: q)
  case Nil
  have "chain (es(b \<mapsto> e\<lparr>e_next := r\<rparr>)) r zs" using Nil.prems by (intro chain_cong[OF Nil.prems(4)]) auto
  with Nil.prems(1) show ?case by (auto simp del: fun_upd_apply intro!: fun_upd_same)
next
  case (Cons x xs)
  then have "x \<noteq> b" by auto
  with Cons show ?case by auto
qed

lemma assign_ref:
  assumes i: "i < length (t_table ht)" and c: "chain (entries st) (t_table ht ! i) as" "distinct as"
    and j: "j \<le> length as" and z: "chain (entries st) r zs" "set zs \<inter> set (take j as) = {}"
  shows "\<exists>st' ht' q. assign st ht (ref_at (RowRef i) as j) r = Some (st', ht') \<and>
    ht' = ht\<lparr>t_table := (t_table ht)[i := q]\<rparr> \<and> chain (entries st') q (take j as @ zs) \<and> relinked st st' \<and>
    (\<forall>a. a \<notin> set (take j as) \<longrightarrow> entries st' a = entries st a)"
proof (cases j)
  case 0
  with i z(1) show ?thesis
    by (intro exI[of _ st] exI[of _ "ht\<lparr>t_table := (t_table ht)[i := r]\<rparr>"] exI[of _ r])
      (simp add: assign_def ref_at_def relinked_refl)
next
  case (Suc l)
  let ?b = "as ! l" and ?xs = "take l as"
  have as: "as = ?xs @ ?b # drop (Suc l) as" using j Suc by (simp add: id_take_nth_drop)
  have t: "take j as = ?xs @ [?b]" using j Suc by (simp add: take_Suc_conv_app_nth)
  have b: "?b \<notin> set ?xs" using c(2) as by (metis disjoint_insert(1) distinct_append list.set(2))
  obtain e where e: "entries st ?b = Some e" using chain_entry[OF c(1), of ?b] j Suc by auto
  let ?st = "st\<lparr>entries := (entries st)(?b \<mapsto> e\<lparr>e_next := r\<rparr>)\<rparr>"
  have "chain (entries ?st) (t_table ht ! i) (?xs @ ?b # zs)"
    using chain_relink[of "entries st" "t_table ht ! i" ?xs ?b "drop (Suc l) as" e r zs] c(1) as e b z t by auto
  moreover have "relinked st ?st" by (simp add: relinked_def e but_next_def)
  ultimately show ?thesis using Suc t e
    by (intro exI[of _ ?st] exI[of _ ht] exI[of _ "t_table ht ! i"]) (simp add: assign_def ref_at_def)
qed

subsection \<open>Rows after a change\<close>

lemma row_unique: "hrows lower st ht css \<Longrightarrow> i < length css \<Longrightarrow> l < length css \<Longrightarrow> a \<in> set (css ! i) \<Longrightarrow> a \<in> set (css ! l) \<Longrightarrow> i = l"
  unfolding hrows_def by metis

lemma all_entries_update:
  assumes "hrows lower st ht css" "i < length css"
  shows "all_entries (css[i := as]) = (all_entries css - set (css ! i)) \<union> set as"
proof -
  have u: "l = i" if "l < length css" "a \<in> set (css ! l)" "a \<in> set (css ! i)" for l a
    using row_unique[OF assms(1) that(1) assms(2)] that by blast
  show ?thesis using assms(2) by (auto simp: all_entries_def nth_list_update split: if_splits dest: u)
qed

lemma hrows_update:
  assumes rows: "hrows lower st ht css" and i: "i < length css"
    and ht': "t_table ht' = (t_table ht)[i := q]" "t_rows ht' = t_rows ht"
    and st': "0 < length (hmem st')" "brk st \<le> brk st'"
    and new: "chain (entries st') q as" "distinct as"
      "\<And>a. a \<in> set as \<Longrightarrow> a < brk st' \<and> entry_ok lower st' a \<and> row_of st' ht' a = i"
    and old: "\<And>a. a \<in> all_entries css - set (css ! i) \<Longrightarrow>
      entries st' a = entries st a \<and> entry_ok lower st' a \<and> row_of st' ht' a = row_of st ht a"
    and inj: "inj_on (hk_of lower st') (all_entries (css[i := as]))"
  shows "hrows lower st' ht' (css[i := as])"
proof -
  have o: "a \<in> all_entries css - set (css ! i)" if "l < length css" "l \<noteq> i" "a \<in> set (css ! l)" for l a
    using row_unique[OF rows that(1) i] that by (auto simp: all_entries_def)
  have "chain (entries st') (t_table ht' ! l) (css[i := as] ! l) \<and> distinct (css[i := as] ! l) \<and>
      (\<forall>a\<in>set (css[i := as] ! l). a < brk st' \<and> entry_ok lower st' a \<and> row_of st' ht' a = l)" if l: "l < length css" for l
  proof (cases "l = i")
    case True
    with new i rows ht'(1) show ?thesis by (simp add: hrows_def)
  next
    case False
    have r: "chain (entries st) (t_table ht ! l) (css ! l)" "distinct (css ! l)"
      "\<And>a. a \<in> set (css ! l) \<Longrightarrow> a < brk st \<and> row_of st ht a = l" using rows l by (auto simp: hrows_def)
    have "chain (entries st') (t_table ht ! l) (css ! l)"
      using old o[OF l False] by (intro chain_cong[OF r(1)]) simp
    then show ?thesis using r(2,3) old o[OF l False] st'(2) False ht'(1) by fastforce
  qed
  with rows ht' st' inj show ?thesis unfolding hrows_def by auto
qed

lemma hrows_all:
  "hrows lower st ht css \<Longrightarrow> a \<in> all_entries css \<Longrightarrow> a < brk st \<and> entry_ok lower st a"
  by (auto simp: hrows_def all_entries_def)

text \<open>What removing, adding and overwriting an entry does to the map.\<close>

lemma hmap_remove:
  assumes "hmap_is lower st css M" "inj_on (hk_of lower st) (all_entries css)" "a0 \<in> all_entries css"
    "all_entries css' = all_entries css - {a0}"
    "\<And>a. a \<in> all_entries css \<Longrightarrow> hk_of lower st' a = hk_of lower st a \<and> e_value (the (entries st' a)) = e_value (the (entries st a))"
  shows "hmap_is lower st' css' (M(hk_of lower st a0 := None)) \<and> M (hk_of lower st a0) \<noteq> None"
proof -
  have hm: "M hk = Some v \<longleftrightarrow> (\<exists>a\<in>all_entries css. hk_of lower st a = hk \<and> e_value (the (entries st a)) = v)" for hk v
    using assms(1) unfolding hmap_is_def by blast
  have "(M(hk_of lower st a0 := None)) hk = Some v \<longleftrightarrow>
      (\<exists>a\<in>all_entries css'. hk_of lower st' a = hk \<and> e_value (the (entries st' a)) = v)" for hk v
  proof -
    have "(M(hk_of lower st a0 := None)) hk = Some v \<longleftrightarrow> hk \<noteq> hk_of lower st a0 \<and> M hk = Some v" by simp
    also have "\<dots> \<longleftrightarrow> (\<exists>a\<in>all_entries css - {a0}. hk_of lower st a = hk \<and> e_value (the (entries st a)) = v)"
      unfolding hm[of hk v] using assms(2,3) unfolding inj_on_def by blast
    finally show ?thesis unfolding assms(4) using assms(5) by auto
  qed
  moreover have "M (hk_of lower st a0) \<noteq> None" using hm assms(3) by (metis option.distinct(1))
  ultimately show ?thesis unfolding hmap_is_def by blast
qed

lemma hmap_add:
  assumes "hmap_is lower st css M" "hk \<notin> hk_of lower st ` all_entries css"
    "all_entries css' = insert x (all_entries css)" "hk_of lower st' x = hk" "e_value (the (entries st' x)) = v"
    "\<And>a. a \<in> all_entries css \<Longrightarrow> hk_of lower st' a = hk_of lower st a \<and> e_value (the (entries st' a)) = e_value (the (entries st a))"
  shows "hmap_is lower st' css' (M(hk \<mapsto> v)) \<and> M hk = None"
proof -
  have hm: "M hk' = Some w \<longleftrightarrow> (\<exists>a\<in>all_entries css. hk_of lower st a = hk' \<and> e_value (the (entries st a)) = w)" for hk' w
    using assms(1) unfolding hmap_is_def by blast
  have "M hk = None" using hm assms(2) by (metis image_eqI not_None_eq)
  moreover have "(M(hk \<mapsto> v)) hk' = Some w \<longleftrightarrow>
      (\<exists>a\<in>all_entries css'. hk_of lower st' a = hk' \<and> e_value (the (entries st' a)) = w)" for hk' w
  proof (cases "hk' = hk")
    case True
    have "hk_of lower st a \<noteq> hk" if "a \<in> all_entries css" for a using assms(2) that by blast
    then show ?thesis unfolding assms(3) True using assms(4,5,6) by auto
  next
    case False
    then show ?thesis unfolding assms(3) using hm[of hk' w] assms(4,6) by auto
  qed
  ultimately show ?thesis unfolding hmap_is_def by blast
qed

text \<open>Deleting the entry at position \<open>j\<close> of row \<open>i\<close>.\<close>

lemma unlink_ok:
  assumes h: "hinv lower st ht css M" and i: "i < length css" and j: "j < length (css ! i)"
    and e: "entries st (css ! i ! j) = Some e"
  shows "\<exists>st' ht' css'. assign st ht (ref_at (RowRef i) (css ! i) j) (e_next e) = Some (st', ht') \<and>
    t_count ht' = t_count ht \<and> hmem st' = hmem st \<and>
    hinv lower st' (ht'\<lparr>t_count := t_count ht - 1\<rparr>) css' (M(hk_of lower st (css ! i ! j) := None)) \<and>
    M (hk_of lower st (css ! i ! j)) \<noteq> None"
proof -
  let ?as = "css ! i" and ?a = "css ! i ! j"
  let ?zs = "drop (Suc j) ?as" and ?hk = "hk_of lower st ?a"
  have rows: "hrows lower st ht css" and hm: "hmap_is lower st css M" and fin: "finite (dom M)"
    and cnt: "t_count ht = card (dom M)" using h by (auto simp: hinv_def)
  have c: "chain (entries st) (t_table ht ! i) ?as" "distinct ?as" and len: "i < length (t_table ht)"
    and inj: "inj_on (hk_of lower st) (all_entries css)" using rows i by (auto simp: hrows_def)
  have split: "?as = take j ?as @ ?a # ?zs" using j by (rule id_take_nth_drop)
  have ch: "chain es p (xs @ b # ys) \<Longrightarrow> es b = Some e \<Longrightarrow> chain es (e_next e) ys" for es p xs b ys
    by (induction xs arbitrary: p) auto
  have z: "chain (entries st) (e_next e) ?zs" using ch[of "entries st" _ "take j ?as" ?a ?zs] c(1) split e by metis
  have dd: "distinct (take j ?as @ ?a # ?zs)" unfolding split[symmetric] by (rule c(2))
  then have dj: "set ?zs \<inter> set (take j ?as) = {}" by auto
  obtain st' ht' q where A: "assign st ht (ref_at (RowRef i) ?as j) (e_next e) = Some (st', ht')"
      "ht' = ht\<lparr>t_table := (t_table ht)[i := q]\<rparr>" "chain (entries st') q (take j ?as @ ?zs)" "relinked st st'"
      "\<forall>a. a \<notin> set (take j ?as) \<longrightarrow> entries st' a = entries st a"
    using assign_ref[OF len c _ z dj] j by auto
  let ?ht = "ht'\<lparr>t_count := t_count ht - 1\<rparr>" and ?css = "css[i := take j ?as @ ?zs]"
  have same: "entry_ok lower st' a \<and> hk_of lower st' a = hk_of lower st a \<and> row_of st' ?ht a = row_of st ht a \<and>
      e_value (the (entries st' a)) = e_value (the (entries st a))" if "a \<in> all_entries css" for a
    using relinked_same[OF A(4), of lower a ?ht ht] hrows_all[OF rows that] A(2) by simp
  have sub: "set (take j ?as @ ?zs) = set ?as - {?a}"
    unfolding arg_cong[OF split, of set] using dd by auto
  have inall: "set ?as \<subseteq> all_entries css" using i by (auto simp: all_entries_def)
  have aj: "?a \<in> all_entries css" using inall j by auto
  have all': "all_entries ?css = all_entries css - {?a}"
    using all_entries_update[OF rows i, of "take j ?as @ ?zs"] sub inall j by auto
  have rows': "hrows lower st' ?ht ?css"
  proof (rule hrows_update[OF rows i, where q = q])
    show "t_table ?ht = (t_table ht)[i := q]" "t_rows ?ht = t_rows ht" using A(2) by simp_all
    show "0 < length (hmem st')" "brk st \<le> brk st'" using A(4) rows by (auto simp: relinked_def hrows_def)
    show "chain (entries st') q (take j ?as @ ?zs)" by (rule A(3))
    show "distinct (take j ?as @ ?zs)" using dd by auto
    show "a < brk st' \<and> entry_ok lower st' a \<and> row_of st' ?ht a = i" if "a \<in> set (take j ?as @ ?zs)" for a
    proof -
      have a: "a \<in> set ?as" using that sub by auto
      then have "a < brk st \<and> row_of st ht a = i" using rows i by (auto simp: hrows_def)
      with same[of a] a inall A(4) show ?thesis by (auto simp: relinked_def)
    qed
    show "entries st' a = entries st a \<and> entry_ok lower st' a \<and> row_of st' ?ht a = row_of st ht a"
      if "a \<in> all_entries css - set ?as" for a
      using that same[of a] A(5) by (auto dest: in_set_takeD)
    show "inj_on (hk_of lower st') (all_entries ?css)"
      using inj same unfolding all' by (auto simp: inj_on_def)
  qed
  have hm': "hmap_is lower st' ?css (M(?hk := None))" "M ?hk \<noteq> None"
    using hmap_remove[OF hm inj aj all'] same by (blast, blast)
  have "dom (M(?hk := None)) = dom M - {?hk}" "?hk \<in> dom M" using hm'(2) by auto
  then have "hinv lower st' ?ht ?css (M(?hk := None))"
    using rows' fin cnt hm' A(2) unfolding hinv_def by auto
  with A(1,2,4) hm' show ?thesis
    by (intro exI[of _ st'] exI[of _ ht'] exI[of _ ?css]) (auto simp: relinked_def)
qed

lemma overwrite_ok:
  assumes h: "hinv lower st ht css M" and a: "a \<in> all_entries css" "entries st a = Some e" and v: "val \<noteq> 0"
  shows "hinv lower (st\<lparr>entries := (entries st)(a \<mapsto> e\<lparr>e_value := val\<rparr>)\<rparr>) ht css (M(hk_of lower st a \<mapsto> val))"
proof -
  let ?st = "st\<lparr>entries := (entries st)(a \<mapsto> e\<lparr>e_value := val\<rparr>)\<rparr>" and ?hk = "hk_of lower st a"
  have rows: "hrows lower st ht css" and hm: "hmap_is lower st css M" and fin: "finite (dom M)"
    and cnt: "t_count ht = card (dom M)" using h by (auto simp: hinv_def)
  have inj: "inj_on (hk_of lower st) (all_entries css)" using rows by (simp add: hrows_def)
  have hk: "hk_of lower ?st b = hk_of lower st b" for b using a(2) by (simp add: hk_of_def)
  have ok: "entry_ok lower st b \<Longrightarrow> entry_ok lower ?st b" for b using a(2) v by (auto simp: entry_ok_def)
  have ro: "row_of ?st ht b = row_of st ht b" for b using a(2) by (simp add: row_of_def)
  have "chain (entries st) q as \<Longrightarrow> chain (entries ?st) q as" for q as
    by (erule chain_cong) (auto simp: a(2))
  then have "hrows lower ?st ht css" using rows ok ro hk unfolding hrows_def inj_on_def by simp
  moreover have hm1: "M hk = Some w \<longleftrightarrow> (\<exists>b\<in>all_entries css. hk_of lower st b = hk \<and> e_value (the (entries st b)) = w)" for hk w
    using hm unfolding hmap_is_def by blast
  have "(M(?hk \<mapsto> val)) hk = Some w \<longleftrightarrow>
      (\<exists>b\<in>all_entries css. hk_of lower ?st b = hk \<and> e_value (the (entries ?st b)) = w)" for hk w
    using hm1[of hk w] inj a(1) unfolding hk inj_on_def by auto
  then have "hmap_is lower ?st css (M(?hk \<mapsto> val))" unfolding hmap_is_def by blast
  moreover have "?hk \<in> dom M" using hm1[of ?hk] a(1) by blast
  then have "dom (M(?hk \<mapsto> val)) = dom M" by auto
  ultimately show ?thesis using fin cnt unfolding hinv_def by simp
qed

text \<open>Linking a new entry \<open>x\<close>, already in the store of \<open>st3\<close>, behind row \<open>i\<close>.\<close>

definition extends :: "hstate \<Rightarrow> addr \<Rightarrow> hstate \<Rightarrow> bool" where
  "extends st x st3 \<longleftrightarrow> (\<forall>a. a \<noteq> x \<longrightarrow> entries st3 a = entries st a) \<and>
     (\<exists>ys. hmem st3 = hmem st @ ys) \<and> brk st \<le> brk st3"

lemma extends_same:
  assumes "extends st x st3" "entry_ok lower st a" "a \<noteq> x"
  shows "entry_ok lower st3 a" "hk_of lower st3 a = hk_of lower st a" "entries st3 a = entries st a"
proof -
  obtain e bs where e: "entries st a = Some e" "e_value e \<noteq> 0" "key_ok lower (hmem st) (e_key e) bs" "length bs = e_keylen e"
    using assms(2) by (auto simp: entry_ok_def)
  obtain ys where x: "hmem st3 = hmem st @ ys" "entries st3 a = entries st a" using assms by (auto simp: extends_def)
  have k3: "key_ok lower (hmem st3) (e_key e) bs" using e(3) x(1) bytes_at_grow by (simp add: key_ok_def)
  then show "entry_ok lower st3 a" using e x unfolding entry_ok_def by auto
  have "take (e_keylen e) (drop (e_key e) (hmem st)) = bs" "take (e_keylen e) (drop (e_key e) (hmem st3)) = bs"
    using e(3,4) k3 key_bytes unfolding key_ok_def by metis+
  then show "hk_of lower st3 a = hk_of lower st a" by (simp add: hk_of_def x(2) e(1))
  show "entries st3 a = entries st a" by (rule x(2))
qed

lemma link_ok:
  assumes h: "hinv lower st ht css M" and i: "i < length css" and ext: "extends st x st3"
    and x: "x \<notin> all_entries css" "x \<noteq> 0" "x < brk st3" "entry_ok lower st3 x" "row_of st3 ht x = i"
      "e_next (the (entries st3 x)) = 0" "hk_of lower st3 x \<notin> hk_of lower st ` all_entries css"
  shows "\<exists>st' ht' css'. assign st3 ht (ref_at (RowRef i) (css ! i) (length (css ! i))) x = Some (st', ht') \<and>
    t_count ht' = t_count ht \<and> hmem st' = hmem st3 \<and>
    hinv lower st' (ht'\<lparr>t_count := t_count ht + 1\<rparr>) css' (M(hk_of lower st3 x \<mapsto> e_value (the (entries st3 x)))) \<and>
    deref st' ht' (ref_at (RowRef i) (css ! i) (length (css ! i))) = Some x \<and>
    entries st' x = entries st3 x"
proof -
  let ?as = "css ! i" and ?hk = "hk_of lower st3 x"
  have rows: "hrows lower st ht css" and hm: "hmap_is lower st css M" and fin: "finite (dom M)"
    and cnt: "t_count ht = card (dom M)" using h by (auto simp: hinv_def)
  have c: "chain (entries st) (t_table ht ! i) ?as" "distinct ?as" and len: "i < length (t_table ht)"
    and inj: "inj_on (hk_of lower st) (all_entries css)" using rows i by (auto simp: hrows_def)
  have inall: "set ?as \<subseteq> all_entries css" using i by (auto simp: all_entries_def)
  have old3: "entry_ok lower st3 a \<and> hk_of lower st3 a = hk_of lower st a \<and> entries st3 a = entries st a \<and> a \<noteq> x"
    if "a \<in> all_entries css" for a
    using extends_same[OF ext, of lower a] hrows_all[OF rows that] that x(1) by auto
  obtain e where e: "entries st3 x = Some e" using x(4) by (auto simp: entry_ok_def)
  have c3: "chain (entries st3) (t_table ht ! i) ?as"
    using old3 inall by (intro chain_cong[OF c(1)]) auto
  have z: "chain (entries st3) x [x]" using e x(2,6) by simp
  have xas: "x \<notin> set ?as" using x(1) inall by auto
  obtain st' ht' q where A: "assign st3 ht (ref_at (RowRef i) ?as (length ?as)) x = Some (st', ht')"
      "ht' = ht\<lparr>t_table := (t_table ht)[i := q]\<rparr>" "chain (entries st') q (?as @ [x])" "relinked st3 st'"
      "\<forall>a. a \<notin> set ?as \<longrightarrow> entries st' a = entries st3 a"
    using assign_ref[OF len c3 c(2) order_refl z] xas by auto
  let ?ht = "ht'\<lparr>t_count := t_count ht + 1\<rparr>" and ?css = "css[i := ?as @ [x]]"
  have new': "entry_ok lower st' x" "hk_of lower st' x = ?hk" "row_of st' ?ht x = i" "entries st' x = entries st3 x"
    using relinked_same[OF A(4) x(4), of ?ht ht] A(2,5) x(5) xas by auto
  have same: "entry_ok lower st' a \<and> hk_of lower st' a = hk_of lower st a \<and> row_of st' ?ht a = row_of st ht a \<and>
      e_value (the (entries st' a)) = e_value (the (entries st a))" if "a \<in> all_entries css" for a
    using relinked_same[OF A(4), of lower a ?ht ht] old3[OF that] A(2) by (simp add: row_of_def)
  have all': "all_entries ?css = insert x (all_entries css)"
    using all_entries_update[OF rows i, of "?as @ [x]"] inall by auto
  have brk: "brk st' = brk st3" "brk st \<le> brk st'" "0 < length (hmem st')"
    using A(4) ext rows by (auto simp: relinked_def extends_def hrows_def)
  have rows': "hrows lower st' ?ht ?css"
  proof (rule hrows_update[OF rows i, where q = q])
    show "t_table ?ht = (t_table ht)[i := q]" "t_rows ?ht = t_rows ht" using A(2) by simp_all
    show "distinct (?as @ [x])" using c(2) xas by simp
    show "a < brk st' \<and> entry_ok lower st' a \<and> row_of st' ?ht a = i" if a: "a \<in> set (?as @ [x])" for a
    proof (cases "a = x")
      case False
      then have "a \<in> set ?as" using a by auto
      then have "a < brk st \<and> row_of st ht a = i" "a \<in> all_entries css" using rows i inall by (auto simp: hrows_def)
      with same[of a] brk(2) show ?thesis by auto
    qed (use new' brk(1) x(3) in simp)
    show "entries st' a = entries st a \<and> entry_ok lower st' a \<and> row_of st' ?ht a = row_of st ht a"
      if "a \<in> all_entries css - set ?as" for a
      using that same[of a] old3[of a] A(5) by auto
    show "inj_on (hk_of lower st') (all_entries ?css)"
    proof -
      have "hk_of lower st' ` all_entries css = hk_of lower st ` all_entries css" using same by (intro image_cong) auto
      moreover have "inj_on (hk_of lower st') (all_entries css)"
        using inj same inj_on_cong[of "all_entries css" "hk_of lower st'" "hk_of lower st"] by simp
      ultimately show ?thesis unfolding all' inj_on_insert using x(1,7) new'(2) by simp
    qed
  qed (use brk A(3) in auto)
  have hm': "hmap_is lower st' ?css (M(?hk \<mapsto> e_value (the (entries st3 x))))" "M ?hk = None"
    using hmap_add[OF hm x(7) all' new'(2)] same new'(4) by auto
  have "hinv lower st' ?ht ?css (M(?hk \<mapsto> e_value (the (entries st3 x))))"
    using rows' fin cnt hm' A(2) unfolding hinv_def by (auto simp: card_insert_if)
  moreover have "deref st' ht' (ref_at (RowRef i) ?as (length ?as)) = Some x"
    using A(1) by (auto simp: assign_def deref_def split: pref.splits if_splits)
  ultimately show ?thesis using A(1,2,4) new'(4)
    by (intro exI[of _ st'] exI[of _ ht'] exI[of _ ?css]) (simp add: relinked_def)
qed

subsection \<open>Get and set\<close>

lemma in_all_entries: "i < length css \<Longrightarrow> j < length (css ! i) \<Longrightarrow> css ! i ! j \<in> all_entries css"
  unfolding all_entries_def using nth_mem by blast

lemma hinv_value: "hinv lower st ht css M \<Longrightarrow> a \<in> all_entries css \<Longrightarrow>
   \<exists>e. entries st a = Some e \<and> a \<noteq> 0 \<and> M (hk_of lower st a) = Some (e_value e)"
proof -
  assume h: "hinv lower st ht css M" and a: "a \<in> all_entries css"
  then have rows: "hrows lower st ht css" and hm: "hmap_is lower st css M" by (auto simp: hinv_def)
  from hrows_all[OF rows a] obtain e where e: "entries st a = Some e" by (auto simp: entry_ok_def)
  from a obtain i where "i < length css" "a \<in> set (css ! i)" by (auto simp: all_entries_def)
  then have "a \<noteq> 0" using rows chain_entry unfolding hrows_def by blast
  moreover have "M hk = Some v \<longleftrightarrow> (\<exists>b\<in>all_entries css. hk_of lower st b = hk \<and> e_value (the (entries st b)) = v)" for hk v
    using hm unfolding hmap_is_def by blast
  then have "M (hk_of lower st a) = Some (e_value (the (entries st a)))" using a by blast
  ultimately show ?thesis using e by simp
qed

lemma hash_get_eq:
  assumes h: "hinv lower st ht css M" and k: "key_ok lower (hmem st) k qs"
    and f: "find_hash (hmem st) k len hval lower = Some (hash, length qs)"
  shows "hash_get st ht k len hval lower =
    Some (case M (hash, kclass lower qs) of None \<Rightarrow> 0 | Some v \<Rightarrow> v, map_option (\<lambda>_. hash) hval)"
proof -
  have rows: "hrows lower st ht css" and hm: "hmap_is lower st css M" using h by (auto simp: hinv_def)
  note R = find_row[OF rows k, of hash]
  let ?i = "unat (hash AND t_rows ht)"
  let ?j = "row_pos lower st (hash, kclass lower qs) (css ! ?i)"
  have fe: "find_entry False st ht k len 0 hval 0 lower = Some (st, ht, ref_at (RowRef ?i) (css ! ?i) ?j, hash)"
    by (simp add: find_entry_def f R(2,3))
  show ?thesis
  proof (cases "?j < length (css ! ?i)")
    case True
    let ?a = "css ! ?i ! ?j"
    have "?a \<in> all_entries css" by (rule in_all_entries[OF R(1) True])
    from hinv_value[OF h this] R(4)[OF True] obtain e where
      "entries st ?a = Some e" "?a \<noteq> 0" "M (hash, kclass lower qs) = Some (e_value e)" by auto
    then show ?thesis by (simp add: hash_get_def fe R(3) True)
  next
    case False
    have "M (hash, kclass lower qs) = None"
      using hm R(5)[OF False] unfolding hmap_is_def by (metis image_eqI not_None_eq)
    then show ?thesis by (simp add: hash_get_def fe R(3) False)
  qed
qed

lemma hash_set_found:
  assumes h: "hinv lower st ht css M" and k: "key_ok lower (hmem st) k qs"
    and f: "find_hash (hmem st) k len (Some hval) lower = Some (hash, length qs)"
    and in_M: "M (hash, kclass lower qs) \<noteq> None" and cnt: "t_count ht < 2 ^ 32"
  shows "\<exists>st' ht' css'. hash_set pool st ht k len hval val buf lower = Some (st', ht') \<and> hmem st' = hmem st \<and>
    hinv lower st' ht' css' (M((hash, kclass lower qs) := (if val = 0 then None else Some val)))"
proof -
  have rows: "hrows lower st ht css" and hm: "hmap_is lower st css M" using h by (auto simp: hinv_def)
  note R = find_row[OF rows k, of hash]
  let ?i = "unat (hash AND t_rows ht)"
  let ?j = "row_pos lower st (hash, kclass lower qs) (css ! ?i)"
  have j: "?j < length (css ! ?i)"
    using in_M hm R(5) unfolding hmap_is_def by (metis image_eqI not_None_eq)
  let ?a = "css ! ?i ! ?j"
  have all: "?a \<in> all_entries css" by (rule in_all_entries[OF R(1) j])
  obtain e where e: "entries st ?a = Some e" "?a \<noteq> 0" using hinv_value[OF h all] by auto
  have fe: "find_entry pool st ht k len val (Some hval) buf lower = Some (st, ht, ref_at (RowRef ?i) (css ! ?i) ?j, hash)"
    by (simp add: find_entry_def f R(2,3) j e(2))
  have hs: "hash_set pool st ht k len hval val buf lower =
      (if val = 0 then do { (st2, ht2) \<leftarrow> assign st ht (ref_at (RowRef ?i) (css ! ?i) ?j) (e_next e);
         Some (st2, ht2\<lparr>t_count := sub32 (t_count ht2) 1\<rparr>) }
       else Some (st\<lparr>entries := (entries st)(?a \<mapsto> e\<lparr>e_value := val\<rparr>)\<rparr>, ht))"
    by (simp add: hash_set_def fe R(3) j e)
  show ?thesis
  proof (cases "val = 0")
    case False
    then show ?thesis using overwrite_ok[OF h all e(1) False] R(4)[OF j] hs
      by (intro exI[of _ "st\<lparr>entries := (entries st)(?a \<mapsto> e\<lparr>e_value := val\<rparr>)\<rparr>"] exI[of _ ht] exI[of _ css]) simp
  next
    case True
    obtain st' ht' css' where U: "assign st ht (ref_at (RowRef ?i) (css ! ?i) ?j) (e_next e) = Some (st', ht')"
        "t_count ht' = t_count ht" "hmem st' = hmem st"
        "hinv lower st' (ht'\<lparr>t_count := t_count ht - 1\<rparr>) css' (M((hash, kclass lower qs) := None))"
      using unlink_ok[OF h R(1) j e(1)] R(4)[OF j] by auto
    have "t_count ht = card (dom M)" "finite (dom M)" using h by (auto simp: hinv_def)
    moreover have "(hash, kclass lower qs) \<in> dom M" using in_M by auto
    ultimately have "1 \<le> t_count ht" by (metis One_nat_def Suc_leI card_gt_0_iff empty_iff)
    then have "sub32 (t_count ht) 1 = t_count ht - 1" using cnt by (simp add: c_arith)
    with U True show ?thesis unfolding hs
      by (intro exI[of _ st'] exI[of _ "ht'\<lparr>t_count := t_count ht - 1\<rparr>"] exI[of _ css']) simp
  qed
qed

lemma hash_set_none:
  assumes h: "hinv lower st ht css M" and k: "key_ok lower (hmem st) k qs"
    and f: "find_hash (hmem st) k len (Some hval) lower = Some (hash, length qs)"
    and no: "M (hash, kclass lower qs) = None"
  shows "hash_set pool st ht k len hval 0 buf lower = Some (st, ht)"
proof -
  have rows: "hrows lower st ht css" using h by (auto simp: hinv_def)
  note R = find_row[OF rows k, of hash]
  let ?i = "unat (hash AND t_rows ht)"
  let ?j = "row_pos lower st (hash, kclass lower qs) (css ! ?i)"
  have j: "\<not> ?j < length (css ! ?i)"
  proof
    assume j: "?j < length (css ! ?i)"
    from in_all_entries[OF R(1) j] have "css ! ?i ! ?j \<in> all_entries css" .
    from hinv_value[OF h this] R(4)[OF j] no show False by auto
  qed
  then show ?thesis by (simp add: hash_set_def find_entry_def f R(2,3))
qed

lemma deref_count: "deref st (ht\<lparr>t_count := c\<rparr>) p = deref st ht p"
  by (simp add: deref_def split: pref.splits)

lemma hash_set_link:
  assumes h: "hinv lower st ht css M" and k: "key_ok lower (hmem st) k qs"
    and f: "find_hash (hmem st) k len (Some hval) lower = Some (hash, length qs)"
    and no: "M (hash, kclass lower qs) = None" and v: "val \<noteq> 0" and cnt: "t_count ht + 1 < 2 ^ 32"
    and al: "pool \<or> buf \<noteq> 0" "(if buf \<noteq> 0 then (st, buf) else alloc_entry st) = (st1, x)"
      "(if pool then copy_key st1 k (length qs) else Some (st1, k)) = Some (st2, kp)"
    and x: "x \<noteq> 0" "x \<notin> all_entries css" "x < brk st2" "brk st \<le> brk st2" "entries st2 = entries st"
      "hmem st2 = hmem st @ ys" "key_ok lower (hmem st2) kp qs"
  shows "\<exists>st' ht' css'. hash_set pool st ht k len hval val buf lower = Some (st', ht') \<and> hmem st' = hmem st2 \<and>
    hinv lower st' ht' css' (M((hash, kclass lower qs) \<mapsto> val))"
proof -
  have rows: "hrows lower st ht css" and hm: "hmap_is lower st css M" using h by (auto simp: hinv_def)
  note R = find_row[OF rows k, of hash]
  let ?i = "unat (hash AND t_rows ht)" and ?hk = "(hash, kclass lower qs)"
  let ?j = "row_pos lower st ?hk (css ! ?i)"
  let ?E = "\<lparr>e_next = 0, e_key = kp, e_hash = hash, e_keylen = length qs, e_value = val\<rparr>"
  let ?st3 = "st2\<lparr>entries := (entries st2)(x \<mapsto> ?E)\<rparr>"
  have notin: "?hk \<notin> hk_of lower st ` all_entries css"
  proof
    assume "?hk \<in> hk_of lower st ` all_entries css"
    then obtain a where a: "a \<in> all_entries css" "hk_of lower st a = ?hk" by auto
    from hinv_value[OF h a(1)] a(2) no show False by auto
  qed
  have j: "?j = length (css ! ?i)"
  proof -
    have "\<not> ?j < length (css ! ?i)"
      using R(4) in_all_entries[OF R(1)] notin by (metis image_eqI)
    then show ?thesis
      using length_takeWhile_le[of "\<lambda>a. hk_of lower st a \<noteq> ?hk" "css ! ?i"] by (simp add: row_pos_def)
  qed
  have E: "entries ?st3 x = Some ?E" by simp
  have ext: "extends st x ?st3" using x(4,5,6) by (simp add: extends_def)
  have kp: "bytes_at (hmem st2) kp qs" using x(7) by (simp add: key_ok_def)
  have hk3: "hk_of lower ?st3 x = ?hk" by (simp add: hk_of_def key_bytes[OF kp])
  have "entry_ok lower ?st3 x" using x(7) v by (auto simp: entry_ok_def)
  moreover have "row_of ?st3 ht x = ?i" by (simp add: row_of_def)
  ultimately have lk: "\<exists>st' ht' css'. assign ?st3 ht (ref_at (RowRef ?i) (css ! ?i) (length (css ! ?i))) x = Some (st', ht') \<and>
    t_count ht' = t_count ht \<and> hmem st' = hmem ?st3 \<and>
    hinv lower st' (ht'\<lparr>t_count := t_count ht + 1\<rparr>) css' (M(hk_of lower ?st3 x \<mapsto> e_value (the (entries ?st3 x)))) \<and>
    deref st' ht' (ref_at (RowRef ?i) (css ! ?i) (length (css ! ?i))) = Some x \<and>
    entries st' x = entries ?st3 x"
    by (intro link_ok[OF h R(1) ext x(2,1)]) (use x(3) notin hk3 in simp_all)
  then obtain st' ht' css' where L:
      "assign ?st3 ht (ref_at (RowRef ?i) (css ! ?i) ?j) x = Some (st', ht')"
      "t_count ht' = t_count ht" "hmem st' = hmem st2"
      "hinv lower st' (ht'\<lparr>t_count := t_count ht + 1\<rparr>) css' (M(?hk \<mapsto> val))"
      "deref st' ht' (ref_at (RowRef ?i) (css ! ?i) ?j) = Some x" "entries st' x = Some ?E"
    unfolding hk3 j by auto
  let ?ht = "ht'\<lparr>t_count := t_count ht + 1\<rparr>"
  have d0: "deref st ht (ref_at (RowRef ?i) (css ! ?i) ?j) = Some 0" using R(3) j by simp
  have fe: "find_entry pool st ht k len val (Some hval) buf lower = Some (st', ?ht, ref_at (RowRef ?i) (css ! ?i) ?j, hash)"
    using al cnt v x(1) L(1,2) d0 f R(2)
    by (cases "buf = 0"; cases pool) (simp_all add: find_entry_def c_arith)
  have same: "st'\<lparr>entries := (entries st')(x \<mapsto> ?E\<lparr>e_value := val\<rparr>)\<rparr> = st'"
    using L(6) by (simp add: fun_upd_idem)
  have "hash_set pool st ht k len hval val buf lower = Some (st', ?ht)"
    using same L(5,6) v x(1) by (simp add: hash_set_def fe deref_count)
  with L(3,4) show ?thesis by blast
qed

lemma memcpy_tail: "bytes_at m p bs \<Longrightarrow> length m + length bs < 2 ^ 32 \<Longrightarrow> 0 < length m \<Longrightarrow>
   let (m1, q) = POOL_bytes m (length bs) in q = length m \<and> memcpy m1 q p (length bs) = Some (m @ bs) \<and> bytes_at (m @ bs) q bs"
proof -
  assume b: "bytes_at m p bs" and l: "length m + length bs < 2 ^ 32" "0 < length m"
  show ?thesis
  proof (cases "bs = []")
    case True
    with l show ?thesis by (simp add: POOL_bytes_def memcpy_def rd_bytes_def wr_bytes_def)
  next
    case False
    have bd: "p + length bs \<le> length m" using bytes_at_bound[OF b False] by simp
    have "rd_bytes (m @ replicate (length bs) 0) p (length bs) = Some bs"
      by (rule rd_bytes_at[OF bytes_at_grow[OF b]])
    moreover have "wr_bytes (m @ replicate (length bs) 0) (length m) bs = Some (m @ bs)"
      using False l by (simp add: wr_bytes_def overlay_def)
    moreover have "bytes_at (m @ bs) (length m) bs"
      using l by (simp add: bytes_at_nth rd_def nth_append)
    ultimately show ?thesis using l bd by (simp add: POOL_bytes_def memcpy_def)
  qed
qed

lemma hash_set_new_pool:
  assumes h: "hinv lower st ht css M" and k: "key_ok lower (hmem st) k qs"
    and f: "find_hash (hmem st) k len (Some hval) lower = Some (hash, length qs)"
    and no: "M (hash, kclass lower qs) = None" and v: "val \<noteq> 0" and cnt: "t_count ht + 1 < 2 ^ 32"
    and room: "brk st + 20 < 2 ^ 32" "length (hmem st) + length qs < 2 ^ 32"
  shows "\<exists>st' ht' css'. hash_set True st ht k len hval val 0 lower = Some (st', ht') \<and> hmem st' = hmem st @ qs \<and>
    hinv lower st' ht' css' (M((hash, kclass lower qs) \<mapsto> val))"
proof -
  have rows: "hrows lower st ht css" using h by (simp add: hinv_def)
  then have pos: "0 < length (hmem st)" "0 < brk st" by (auto simp: hrows_def)
  have fresh: "brk st \<notin> all_entries css" using rows by (auto simp: hrows_def all_entries_def)
  let ?st2 = "st\<lparr>brk := brk st + 20, hmem := hmem st @ qs\<rparr>"
  have b: "bytes_at (hmem st) k qs" using k by (simp add: key_ok_def)
  from memcpy_tail[OF b room(2) pos(1)] have
    cp: "copy_key (st\<lparr>brk := brk st + 20\<rparr>) k (length qs) = Some (?st2, length (hmem st))" "bytes_at (hmem st @ qs) (length (hmem st)) qs"
    by (auto simp: copy_key_def Let_def split: prod.splits)
  have "\<exists>st' ht' css'. hash_set True st ht k len hval val 0 lower = Some (st', ht') \<and> hmem st' = hmem ?st2 \<and>
    hinv lower st' ht' css' (M((hash, kclass lower qs) \<mapsto> val))"
    by (rule hash_set_link[OF h k f no v cnt, where x = "brk st" and kp = "length (hmem st)" and ?st1.0 = "st\<lparr>brk := brk st + 20\<rparr>" and ys = qs])
      (use room cp pos fresh k in \<open>simp_all add: alloc_entry_def key_ok_def\<close>)
  then show ?thesis by simp
qed

subsection \<open>Keys as the caller gives them\<close>

text \<open>
  \<open>qs\<close> is the key at address \<open>k\<close>, given with its length or as a NUL-terminated string;
  \<open>key_hash\<close> is the hash it is filed under.
\<close>

definition key_given :: "bool \<Rightarrow> mem \<Rightarrow> addr \<Rightarrow> nat \<Rightarrow> u8 list \<Rightarrow> bool" where
  "key_given lower m k len qs \<longleftrightarrow> key_ok lower m k qs \<and>
     (len = length qs \<or> len = HASH_KEY_TYPE_STRING \<and> 0 \<notin> set qs \<and> rd m (k + length qs) = Some 0)"

definition hash_of :: "(u8 \<Rightarrow> u8) \<Rightarrow> 32 word \<Rightarrow> u8 list \<Rightarrow> 32 word" where
  "hash_of f h qs = foldl (\<lambda>h c. h * HASH_MULTIPLIER + ucast (f c)) h qs"

definition key_hash :: "bool \<Rightarrow> 32 word \<Rightarrow> u8 list \<Rightarrow> 32 word" where
  "key_hash lower hval qs = (if hval \<noteq> 0 then hval else hash_of (if lower then c_tolower else id) 0 qs)"

lemma hash_bytes_eq: "bytes_at m p qs \<Longrightarrow> hash_bytes f m h p (length qs) = Some (hash_of f h qs)"
  by (induction qs arbitrary: p h) (auto simp: hash_of_def)

lemma hash_cstr_eq:
  "bytes_at m p qs \<Longrightarrow> 0 \<notin> set qs \<Longrightarrow> rd m (p + length qs) = Some 0 \<Longrightarrow>
   hash_cstr f m h p = Some (hash_of f h qs, p + length qs)"
proof (induction qs arbitrary: p h)
  case (Cons q qs)
  then show ?case by (subst hash_cstr.simps) (auto simp: hash_of_def)
qed (simp add: hash_cstr.simps hash_of_def)

lemma strlen_eq: "bytes_at m p qs \<Longrightarrow> 0 \<notin> set qs \<Longrightarrow> rd m (p + length qs) = Some 0 \<Longrightarrow> strlen m p = Some (length qs)"
proof (induction qs arbitrary: p)
  case (Cons q qs)
  then show ?case by (subst strlen.simps) auto
qed (simp add: strlen.simps)

lemma find_hash_eq:
  assumes "key_given lower m k len qs"
  shows "find_hash m k len hval lower =
    Some (key_hash lower (case hval of None \<Rightarrow> 0 | Some h \<Rightarrow> h) qs, length qs)"
proof -
  have b: "bytes_at m k qs" "length qs \<noteq> HASH_KEY_TYPE_STRING"
    using assms by (auto simp: key_given_def key_ok_def HASH_KEY_TYPE_STRING_def)
  show ?thesis
  proof (cases "len = length qs")
    case True
    with b show ?thesis
      by (auto simp: find_hash_def key_hash_def hash_bytes_eq split: option.splits)
  next
    case False
    then have z: "len = HASH_KEY_TYPE_STRING" "0 \<notin> set qs" "rd m (k + length qs) = Some 0"
      using assms by (auto simp: key_given_def)
    with b show ?thesis
      by (auto simp: find_hash_def key_hash_def hash_cstr_eq strlen_eq split: option.splits)
  qed
qed

lemma hash_set_any:
  assumes h: "hinv lower st ht css M" and k: "key_given lower (hmem st) k len qs"
    and cnt: "t_count ht + 1 < 2 ^ 32" and room: "brk st + 20 < 2 ^ 32" "length (hmem st) + length qs < 2 ^ 32"
  shows "\<exists>st' ht' css'. hash_set True st ht k len hval val 0 lower = Some (st', ht') \<and>
    (hmem st' = hmem st \<or> hmem st' = hmem st @ qs) \<and>
    hinv lower st' ht' css' (M((key_hash lower hval qs, kclass lower qs) := (if val = 0 then None else Some val)))"
proof -
  have ko: "key_ok lower (hmem st) k qs" using k by (simp add: key_given_def)
  have f: "find_hash (hmem st) k len (Some hval) lower = Some (key_hash lower hval qs, length qs)"
    using find_hash_eq[OF k, of "Some hval"] by simp
  show ?thesis
  proof (cases "M (key_hash lower hval qs, kclass lower qs) = None")
    case False
    have c: "t_count ht < 2 ^ 32" using cnt by simp
    from hash_set_found[OF h ko f False c] show ?thesis by blast
  next
    case True
    show ?thesis
    proof (cases "val = 0")
      case v: True
      have "M((key_hash lower hval qs, kclass lower qs) := None) = M" using True by (simp add: fun_upd_idem)
      with hash_set_none[OF h ko f True] h v show ?thesis by (simp del: fun_upd_apply) blast
    next
      case False
      from hash_set_new_pool[OF h ko f True False cnt room] False show ?thesis by auto
    qed
  qed
qed

subsection \<open>The contract of a dictionary\<close>

text \<open>
  What a user of a table relies on. \<open>holds s M\<close>: the state \<open>s\<close> stores the map \<open>M\<close>;
  \<open>names s r k\<close>: in \<open>s\<close> the caller's reference \<open>r\<close> is one to the key \<open>k\<close>; \<open>null\<close>
  stands for no value.
\<close>

locale dictionary =
  fixes holds :: "'s \<Rightarrow> ('k \<Rightarrow> 'v option) \<Rightarrow> bool" and names :: "'s \<Rightarrow> 'r \<Rightarrow> 'k \<Rightarrow> bool"
    and room :: "'s \<Rightarrow> 'k \<Rightarrow> bool" and null :: 'v
    and put :: "'s \<Rightarrow> 'r \<Rightarrow> 'v \<Rightarrow> 's option" and get :: "'s \<Rightarrow> 'r \<Rightarrow> 'v option"
  assumes put_ok: "holds s M \<Longrightarrow> names s r k \<Longrightarrow> room s k \<Longrightarrow>
      \<exists>s'. put s r v = Some s' \<and> holds s' (M(k := (if v = null then None else Some v))) \<and>
        (\<forall>r' k'. names s r' k' \<longrightarrow> names s' r' k')"
    and get_ok: "holds s M \<Longrightarrow> names s r k \<Longrightarrow> get s r = Some (case M k of None \<Rightarrow> null | Some v \<Rightarrow> v)"
begin

lemma get_put:
  assumes "holds s M" "names s r k" "names s r' k'" "room s k"
  shows "\<exists>s'. put s r v = Some s' \<and> get s' r' = (if k' = k then Some v else get s r')"
proof -
  obtain s' where s': "put s r v = Some s'" "holds s' (M(k := (if v = null then None else Some v)))" "names s' r' k'"
    using put_ok[OF assms(1,2,4)] assms(3) by blast
  have "get s' r' = (if k' = k then Some v else get s r')"
    using get_ok[OF s'(2,3)] get_ok[OF assms(1,3)] by auto
  with s'(1) show ?thesis by blast
qed

lemma delete_put:
  assumes "holds s M" "names s r k" "M k = None" "room s k"
    and "\<And>s'. put s r v = Some s' \<Longrightarrow> room s' k"
  shows "\<exists>s' s''. put s r v = Some s' \<and> put s' r null = Some s'' \<and> holds s'' M"
proof -
  obtain s' where s': "put s r v = Some s'" "holds s' (M(k := (if v = null then None else Some v)))" "names s' r k"
    using put_ok[OF assms(1,2,4)] assms(2) by blast
  obtain s'' where s'': "put s' r null = Some s''" "holds s'' ((M(k := (if v = null then None else Some v)))(k := None))"
    using put_ok[OF s'(2,3) assms(5)[OF s'(1)], of null] by auto
  have "(M(k := (if v = null then None else Some v)))(k := None) = M" using assms(3) by auto
  with s' s'' show ?thesis by auto
qed

end

definition table_set :: "bool \<Rightarrow> hstate \<times> T_HashTable \<Rightarrow> addr \<times> nat \<times> 32 word \<Rightarrow> addr \<Rightarrow> (hstate \<times> T_HashTable) option" where
  "table_set lower s r val = (case (s, r) of ((st, ht), (k, len, hval)) \<Rightarrow>
     (if lower then HASH_SetLower st ht k len hval val else HASH_Set st ht k len hval val))"

definition table_get :: "bool \<Rightarrow> hstate \<times> T_HashTable \<Rightarrow> addr \<times> nat \<times> 32 word \<Rightarrow> addr option" where
  "table_get lower s r = (case (s, r) of ((st, ht), (k, len, hval)) \<Rightarrow>
     map_option fst (if lower then HASH_GetLower st ht k len (Some hval) else HASH_Get st ht k len (Some hval)))"

definition table_holds :: "bool \<Rightarrow> hstate \<times> T_HashTable \<Rightarrow> (32 word \<times> u8 list \<rightharpoonup> addr) \<Rightarrow> bool" where
  "table_holds lower s M \<longleftrightarrow> (\<exists>css. hinv lower (fst s) (snd s) css M)"

definition table_names :: "bool \<Rightarrow> hstate \<times> T_HashTable \<Rightarrow> addr \<times> nat \<times> 32 word \<Rightarrow> 32 word \<times> u8 list \<Rightarrow> bool" where
  "table_names lower s r hk = (case (s, r) of ((st, ht), (k, len, hval)) \<Rightarrow>
     (\<exists>qs. key_given lower (hmem st) k len qs \<and> hk = (key_hash lower hval qs, kclass lower qs)))"

definition table_room :: "hstate \<times> T_HashTable \<Rightarrow> 32 word \<times> u8 list \<Rightarrow> bool" where
  "table_room s hk \<longleftrightarrow> t_count (snd s) + 1 < 2 ^ 32 \<and> brk (fst s) + 20 < 2 ^ 32 \<and>
     length (hmem (fst s)) + length (snd hk) < 2 ^ 32"

lemma length_kclass [simp]: "length (kclass lower qs) = length qs"
  by (simp add: kclass_def)

lemma key_given_grow: "key_given lower m k len qs \<Longrightarrow> m' = m \<or> m' = m @ ys \<Longrightarrow> key_given lower m' k len qs"
  by (auto simp: key_given_def key_ok_def bytes_at_grow rd_def nth_append)

lemma table_put:
  assumes "table_holds lower s M" "table_names lower s r hk" "table_room s hk"
  shows "\<exists>s'. table_set lower s r v = Some s' \<and> table_holds lower s' (M(hk := (if v = 0 then None else Some v))) \<and>
    (\<forall>r' hk'. table_names lower s r' hk' \<longrightarrow> table_names lower s' r' hk')"
proof -
  obtain st ht k len hval where sr: "s = (st, ht)" "r = (k, len, hval)" by (cases s, cases r) auto
  obtain css qs where a: "hinv lower st ht css M" "key_given lower (hmem st) k len qs"
      "hk = (key_hash lower hval qs, kclass lower qs)"
      "t_count ht + 1 < 2 ^ 32" "brk st + 20 < 2 ^ 32" "length (hmem st) + length qs < 2 ^ 32"
    using assms by (auto simp: table_holds_def table_names_def table_room_def sr)
  from hash_set_any[OF a(1,2,4-6), of hval v] a(3) obtain st' ht' css' where
    b: "hash_set True st ht k len hval v 0 lower = Some (st', ht')" "hmem st' = hmem st \<or> hmem st' = hmem st @ qs"
      "hinv lower st' ht' css' (M(hk := (if v = 0 then None else Some v)))" by blast
  have "table_set lower s r v = Some (st', ht')"
    using b(1) by (cases lower) (simp_all add: table_set_def sr HASH_Set_def HASH_SetLower_def)
  moreover have "table_names lower (st', ht') r' hk'" if "table_names lower s r' hk'" for r' hk'
    using that key_given_grow[OF _ b(2)] by (clarsimp simp: table_names_def sr split: prod.splits) blast
  ultimately show ?thesis using b(3) by (auto simp: table_holds_def)
qed

lemma table_get_ok:
  assumes "table_holds lower s M" "table_names lower s r hk"
  shows "table_get lower s r = Some (case M hk of None \<Rightarrow> 0 | Some v \<Rightarrow> v)"
proof -
  obtain st ht k len hval where sr: "s = (st, ht)" "r = (k, len, hval)" by (cases s, cases r) auto
  obtain css qs where a: "hinv lower st ht css M" "key_given lower (hmem st) k len qs"
      "hk = (key_hash lower hval qs, kclass lower qs)"
    using assms by (auto simp: table_holds_def table_names_def sr)
  have "key_ok lower (hmem st) k qs" using a(2) by (simp add: key_given_def)
  from hash_get_eq[OF a(1) this find_hash_eq[OF a(2), of "Some hval"]] a(3)
  show ?thesis by (cases lower) (simp_all add: table_get_def sr HASH_Get_def HASH_GetLower_def)
qed

interpretation hash: dictionary "table_holds lower" "table_names lower" table_room 0 "table_set lower" "table_get lower"
  for lower by unfold_locales (fact table_put, fact table_get_ok)

subsection \<open>The size of a table\<close>

lemma table_size_ok:
  assumes "n \<le> 30" "sz \<le> (2 :: 32 word) ^ 31"
  shows "\<exists>m. table_size (2 ^ n) sz = Some (2 ^ m) \<and> n < m \<and> m \<le> 31 \<and> sz \<le> 2 ^ m \<and> (m = n + 1 \<or> 2 ^ (m - 1) < sz)"
  using assms
proof (induction "30 - n" arbitrary: n)
  case 0
  then have "n = 30" by simp
  with 0 show ?case by (subst table_size.simps) (auto simp: Let_def not_less intro!: exI[of _ 31])
next
  case (Suc d)
  then have n: "n + 1 \<le> 30" "d = 30 - (n + 1)" by auto
  show ?case
  proof (cases "(2 :: 32 word) ^ (n + 1) < sz")
    case True
    obtain m where m: "table_size (2 ^ (n + 1)) sz = Some (2 ^ m)" "n + 1 < m" "m \<le> 31" "sz \<le> 2 ^ m"
        "m = n + 1 + 1 \<or> 2 ^ (m - 1) < sz"
      using Suc(1)[OF n(2,1) assms(2)] by blast
    have "table_size (2 ^ n) sz = Some (2 ^ m)"
      using True m(1) by (subst table_size.simps) (simp add: Let_def mult.commute)
    moreover have "2 ^ (m - 1) < sz" using m(5) True by auto
    ultimately show ?thesis using m(2-4) by auto
  next
    case False
    then show ?thesis using n by (subst table_size.simps) (auto simp: Let_def mult.commute not_less intro!: exI[of _ "n + 1"])
  qed
qed

lemma unat_pow2: "n \<le> 31 \<Longrightarrow> unat ((2 :: 32 word) ^ n) = 2 ^ n \<and> (2 :: nat) ^ n \<le> 2147483648"
proof -
  assume "n \<le> 31"
  then have "(2 :: nat) ^ n \<le> 2 ^ 31" by (intro power_increasing) auto
  moreover have "(2 :: 32 word) ^ n = of_nat (2 ^ n)" by simp
  ultimately show ?thesis by (simp only: unat_of_nat) simp
qed

lemma table_size_diverges:
  "table_size t sz = Some r \<Longrightarrow> t = 0 \<or> (\<exists>n\<le>31. t = 2 ^ n) \<Longrightarrow> sz \<le> 2 ^ 31"
proof (induction t sz r rule: table_size.raw_induct[rotated, consumes 1])
  case (1 f t sz r)
  have t2: "t * 2 = 0 \<or> (\<exists>n\<le>31. t * 2 = 2 ^ n)"
    using 1(3)
  proof
    assume "\<exists>n\<le>31. t = 2 ^ n"
    then obtain n where n: "n \<le> 31" "t = 2 ^ n" by blast
    show ?thesis
    proof (cases "n = 31")
      case False
      with n have "n + 1 \<le> 31" "t * 2 = 2 ^ (n + 1)" by simp_all
      then show ?thesis by blast
    qed (use n in simp)
  qed simp
  show ?case
  proof (cases "t * 2 < sz")
    case True
    then show ?thesis using 1(1,2) t2 by (simp add: Let_def)
  next
    case False
    have "t * 2 \<le> 2 ^ 31"
      using t2
    proof
      assume "\<exists>n\<le>31. t * 2 = 2 ^ n"
      then obtain n where "n \<le> 31" "t * 2 = (2 :: 32 word) ^ n" by blast
      then show ?thesis by (simp add: word_le_nat_alt unat_pow2)
    qed simp
    with False show ?thesis by simp
  qed
qed

lemma empty_table:
  assumes "t_table ht = replicate n 0" "unat (t_rows ht) + 1 = n" "t_count ht = 0" "0 < length (hmem st)" "0 < brk st"
  shows "hinv lower st ht (replicate n []) Map.empty"
  using assms by (simp add: hinv_def hrows_def hmap_is_def all_entries_def)

subsection \<open>A pass over the table\<close>

text \<open>What a client's loop \<open>for (it = HASH_ItFirst(..); it; it = HASH_ItNext(..))\<close> reads, in at most \<open>n\<close> turns.\<close>

fun visit :: "nat \<Rightarrow> hstate \<Rightarrow> T_HashTable \<Rightarrow> T_HashIterator option \<Rightarrow> addr list option" where
  "visit n st ht None = Some []"
| "visit 0 st ht (Some it) = None"
| "visit (Suc n) st ht (Some it) =
     do {
       v \<leftarrow> HASH_ItThis st it;
       it' \<leftarrow> HASH_ItNext st ht it;
       vs \<leftarrow> visit n st ht it';
       Some (v # vs)
     }"

definition val_of :: "hstate \<Rightarrow> addr \<Rightarrow> addr" where "val_of st a = e_value (the (entries st a))"

lemma visit_chain:
  assumes "chain (entries st) (it_entry it) as" "as \<noteq> []"
    and "\<exists>r. scan_rows ht (it_index it + 1) (unat (t_rows ht) - it_index it) = Some r \<and> visit n st ht r = Some vs"
  shows "visit (length as + n) st ht (Some it) = Some (map (val_of st) as @ vs)"
  using assms
proof (induction as arbitrary: it)
  case (Cons a as)
  then obtain e where e: "it_entry it = a" "a \<noteq> 0" "entries st a = Some e" "chain (entries st) (e_next e) as" by auto
  have v: "HASH_ItThis st it = Some (val_of st a)" by (simp add: HASH_ItThis_def e val_of_def)
  show ?case
  proof (cases as)
    case Nil
    then have "HASH_ItNext st ht it = scan_rows ht (it_index it + 1) (unat (t_rows ht) - it_index it)"
      using e by (simp add: HASH_ItNext_def)
    with Cons.prems(3) v Nil show ?thesis by auto
  next
    case c: (Cons b bs)
    then have "e_next e \<noteq> 0" using e(4) by auto
    then have "HASH_ItNext st ht it = Some (Some (it\<lparr>it_entry := e_next e\<rparr>))" using e by (simp add: HASH_ItNext_def)
    moreover have "visit (length as + n) st ht (Some (it\<lparr>it_entry := e_next e\<rparr>)) = Some (map (val_of st) as @ vs)"
      using Cons.IH[of "it\<lparr>it_entry := e_next e\<rparr>"] e(4) c Cons.prems(3) by simp
    ultimately show ?thesis using v by simp
  qed
qed simp

lemma visit_rows:
  assumes rows: "hrows lower st ht css" and "i + n = length css"
  shows "\<exists>r. scan_rows ht i n = Some r \<and>
    visit (length (concat (drop i css))) st ht r = Some (map (val_of st) (concat (drop i css)))"
  using assms(2)
proof (induction n arbitrary: i)
  case (Suc n)
  then have i: "i < length css" "i + 1 + n = length css" by auto
  have c: "chain (entries st) (t_table ht ! i) (css ! i)" and len: "length css = length (t_table ht)"
    "length css = unat (t_rows ht) + 1" using rows i by (auto simp: hrows_def)
  have d: "drop i css = css ! i # drop (i + 1) css" using i(1) by (simp add: Cons_nth_drop_Suc)
  from Suc.IH[OF i(2)] have IH: "\<exists>r. scan_rows ht (i + 1) n = Some r \<and>
    visit (length (concat (drop (i + 1) css))) st ht r = Some (map (val_of st) (concat (drop (i + 1) css)))" .
  show ?case
  proof (cases "css ! i")
    case Nil
    then have "t_table ht ! i = 0" using c by simp
    then have "scan_rows ht i (Suc n) = scan_rows ht (i + 1) n" using i(1) len(1) by simp
    with IH d Nil show ?thesis by simp
  next
    case (Cons a as)
    let ?it = "\<lparr>it_index = i, it_entry = t_table ht ! i\<rparr>"
    have "t_table ht ! i \<noteq> 0" using c Cons by auto
    then have s: "scan_rows ht i (Suc n) = Some (Some ?it)" using i(1) len(1) by simp
    have "unat (t_rows ht) - i = n" using i(2) len(2) by simp
    then have "visit (length (css ! i) + length (concat (drop (i + 1) css))) st ht (Some ?it) =
        Some (map (val_of st) (css ! i) @ map (val_of st) (concat (drop (i + 1) css)))"
      using c Cons IH by (intro visit_chain) auto
    with s d show ?thesis by simp
  qed
qed simp

lemma distinct_rows: "hrows lower st ht css \<Longrightarrow> distinct (concat css) \<and> set (concat css) = all_entries css"
proof -
  assume rows: "hrows lower st ht css"
  have "distinct (concat (take n css)) \<and> set (concat (take n css)) = (\<Union>i<n. set (css ! i))" if "n \<le> length css" for n
    using that
  proof (induction n)
    case (Suc n)
    have t: "take (Suc n) css = take n css @ [css ! n]" using Suc.prems by (simp add: take_Suc_conv_app_nth)
    have dis: "distinct (css ! n)" using rows Suc.prems by (simp add: hrows_def)
    have "a \<notin> set (css ! n)" if "a \<in> (\<Union>i<n. set (css ! i))" for a
    proof
      assume a: "a \<in> set (css ! n)"
      from that obtain i where i: "i < n" "a \<in> set (css ! i)" by blast
      have "i = n" by (rule row_unique[OF rows _ _ i(2) a]) (use i Suc.prems in simp_all)
      with i show False by simp
    qed
    with Suc dis show ?case unfolding t by (auto simp: lessThan_Suc)
  qed simp
  from this[of "length css"] show ?thesis by (simp add: all_entries_def)
qed

lemma calc_lower_ok:
  "bytes_at m (p + i) qs \<Longrightarrow> 0 < res \<Longrightarrow> res + i + length qs \<le> length m \<Longrightarrow>
   res + length qs \<le> p \<or> p + length qs \<le> res \<Longrightarrow>
   \<exists>m'. calc_lower m h res p i (length qs) = Some (m', hash_of c_tolower h qs) \<and>
     bytes_at m' (res + i) (map c_tolower qs) \<and> (\<forall>a. a < res + i \<longrightarrow> rd m' a = rd m a)"
proof (induction qs arbitrary: m h i)
  case (Cons q qs)
  obtain m1 where m1: "wr m (res + i) (c_tolower q) = Some m1" "length m1 = length m"
    using wr_ok[of "res + i" m] Cons.prems(2,3) by auto
  have "bytes_at m1 (p + i + 1) qs"
    using Cons.prems(1,4) bytes_at_cong[of "p + i + 1" qs m1 m] rd_wr[OF m1(1)] by auto
  then obtain m' where m': "calc_lower m1 (h * HASH_MULTIPLIER + ucast (c_tolower q)) res p (i + 1) (length qs) =
        Some (m', hash_of c_tolower (h * HASH_MULTIPLIER + ucast (c_tolower q)) qs)"
      "bytes_at m' (res + (i + 1)) (map c_tolower qs)" "\<forall>a. a < res + (i + 1) \<longrightarrow> rd m' a = rd m1 a"
    using Cons.IH[of m1 "i + 1" "h * HASH_MULTIPLIER + ucast (c_tolower q)"] Cons.prems(2-4) m1(2) by auto
  have r: "rd m' (res + i) = Some (c_tolower q)" "\<And>a. a < res + i \<Longrightarrow> rd m' a = rd m a"
    using m'(3) rd_wr[OF m1(1)] by auto
  have "rd m (p + i) = Some q" using Cons.prems(1) by simp
  with m'(1,2) m1(1) r Cons.prems(2) show ?case by (auto simp: hash_of_def Let_def)
qed (simp add: hash_of_def)

subsection \<open>An example table\<close>

text \<open>The bytes of \<open>Ab\<close> stand at address 1, those of \<open>aB\<close> at 3; the second table holds 7 under the first.\<close>

definition demo_key1 :: "u8 list" where "demo_key1 = [0x41, 0x62]"
definition demo_key2 :: "u8 list" where "demo_key2 = [0x61, 0x42]"
definition demo_hst :: hstate where
  "demo_hst = \<lparr>entries = (\<lambda>_. None), hmem = [0, 0x41, 0x62, 0x61, 0x42, 0, 0, 0], brk = 64\<rparr>"
definition demo_ht :: T_HashTable where
  "demo_ht = \<lparr>t_table = replicate 16 0, t_count = 0, t_rows = 15\<rparr>"
definition demo_table :: "hstate \<times> T_HashTable" where
  "demo_table = the (HASH_SetLower demo_hst demo_ht 1 2 0 7)"

lemma demo_empty: "hinv lower demo_hst demo_ht (replicate 16 []) Map.empty"
  by (rule empty_table) (simp_all add: demo_hst_def demo_ht_def)

lemma demo_given:
  "key_given lower (hmem demo_hst) 1 2 demo_key1" "key_given lower (hmem demo_hst) 3 2 demo_key2"
  "key_given lower (hmem demo_hst) 3 HASH_KEY_TYPE_STRING demo_key2"
  by (simp_all add: key_given_def key_ok_def demo_hst_def demo_key1_def demo_key2_def rd_def)

lemma demo_same_key: "kclass True demo_key1 = kclass True demo_key2" "key_hash True 0 demo_key1 = key_hash True 0 demo_key2"
  by (simp_all add: kclass_def key_hash_def demo_key1_def demo_key2_def hash_of_def HASH_MULTIPLIER_def c_tolower_def c_isupper_def)

lemma demo_names: "table_names True (demo_hst, demo_ht) (1, 2, 0) (key_hash True 0 demo_key1, kclass True demo_key1)"
  "table_names True (demo_hst, demo_ht) (3, HASH_KEY_TYPE_STRING, 0) (key_hash True 0 demo_key1, kclass True demo_key1)"
  "table_room (demo_hst, demo_ht) (key_hash True 0 demo_key1, kclass True demo_key1)"
proof -
  show "table_names True (demo_hst, demo_ht) (1, 2, 0) (key_hash True 0 demo_key1, kclass True demo_key1)"
    unfolding table_names_def prod.case using demo_given(1) by blast
  show "table_names True (demo_hst, demo_ht) (3, HASH_KEY_TYPE_STRING, 0) (key_hash True 0 demo_key1, kclass True demo_key1)"
    unfolding table_names_def prod.case demo_same_key using demo_given(3) by blast
  show "table_room (demo_hst, demo_ht) (key_hash True 0 demo_key1, kclass True demo_key1)"
    by (simp add: table_room_def demo_ht_def demo_hst_def demo_key1_def)
qed

lemma demo_table_ok:
  "\<exists>st ht css. demo_table = (st, ht) \<and> (hmem st = hmem demo_hst \<or> hmem st = hmem demo_hst @ demo_key1) \<and>
     hinv True st ht css [(key_hash True 0 demo_key1, kclass True demo_key1) \<mapsto> 7]"
proof -
  have "\<exists>st' ht' css'. hash_set True demo_hst demo_ht 1 2 0 7 0 True = Some (st', ht') \<and>
    (hmem st' = hmem demo_hst \<or> hmem st' = hmem demo_hst @ demo_key1) \<and>
    hinv True st' ht' css' (Map.empty((key_hash True 0 demo_key1, kclass True demo_key1) := (if (7 :: addr) = 0 then None else Some 7)))"
    by (rule hash_set_any[OF demo_empty demo_given(1)]) (simp_all add: demo_hst_def demo_ht_def demo_key1_def)
  then show ?thesis by (auto simp: demo_table_def HASH_SetLower_def)
qed

subsection \<open>Properties\<close>

text \<open>C7: Setting a value stores it under the key (the hash with the key's bytes, in lower case for
  the \<open>Lower\<close> functions), replaces the old value or, for the null value, deletes the key; no other key is
  touched, the table stays valid and its count is the number of keys. The pool must have room for an entry and the key.\<close>
theorem HASH_Set_updates:
  assumes "hinv lower st ht css M" and "key_given lower (hmem st) k len qs"
    and "t_count ht + 1 < 2 ^ 32" and "brk st + 20 < 2 ^ 32" and "length (hmem st) + length qs < 2 ^ 32"
  shows "\<exists>st' ht' css'. (if lower then HASH_SetLower else HASH_Set) st ht k len hval val = Some (st', ht') \<and>
    hinv lower st' ht' css' (M((key_hash lower hval qs, kclass lower qs) := (if val = 0 then None else Some val))) \<and>
    HASH_Count ht' = card (dom (M((key_hash lower hval qs, kclass lower qs) := (if val = 0 then None else Some val))))"
proof -
  obtain st' ht' css' where r: "hash_set True st ht k len hval val 0 lower = Some (st', ht')"
      "hinv lower st' ht' css' (M((key_hash lower hval qs, kclass lower qs) := (if val = 0 then None else Some val)))"
    using hash_set_any[OF assms(1,2,3,4,5), of hval val] by blast
  then have "HASH_Count ht' = card (dom (M((key_hash lower hval qs, kclass lower qs) := (if val = 0 then None else Some val))))"
    by (simp add: hinv_def HASH_Count_def del: fun_upd_apply)
  with r show ?thesis by (cases lower) (auto simp: HASH_SetLower_def HASH_Set_def simp del: fun_upd_apply)
qed

lemma HASH_Set_updates_witness:
  "\<exists>st' ht' css'. HASH_SetLower demo_hst demo_ht 1 2 0 7 = Some (st', ht') \<and>
    hinv True st' ht' css' [(key_hash True 0 demo_key1, kclass True demo_key1) \<mapsto> 7] \<and> HASH_Count ht' = 1"
  using HASH_Set_updates[OF demo_empty demo_given(1), of True 0 7]
  by (simp add: demo_hst_def demo_ht_def demo_key1_def)

text \<open>Looking a key up returns the value stored under it, or null, and the hash that was used through
  \<open>hval\<close> when the caller passes one, and changes nothing.\<close>
theorem HASH_Get_looks_up:
  assumes "hinv lower st ht css M" and "key_given lower (hmem st) k len qs"
  shows "(if lower then HASH_GetLower else HASH_Get) st ht k len hval =
    (let hash = key_hash lower (case hval of None \<Rightarrow> 0 | Some h \<Rightarrow> h) qs in
     Some (case M (hash, kclass lower qs) of None \<Rightarrow> 0 | Some v \<Rightarrow> v, map_option (\<lambda>_. hash) hval))"
proof -
  have "key_ok lower (hmem st) k qs" using assms(2) by (simp add: key_given_def)
  from hash_get_eq[OF assms(1) this find_hash_eq[OF assms(2), of hval]]
  show ?thesis by (cases lower) (simp_all add: HASH_Get_def HASH_GetLower_def Let_def)
qed

lemma HASH_Get_looks_up_witness:
  "HASH_GetLower (fst demo_table) (snd demo_table) 3 2 None = Some (7, None)"
proof -
  obtain st ht css where t: "demo_table = (st, ht)" "hmem st = hmem demo_hst \<or> hmem st = hmem demo_hst @ demo_key1"
      "hinv True st ht css [(key_hash True 0 demo_key1, kclass True demo_key1) \<mapsto> 7]"
    using demo_table_ok by blast
  have "key_given True (hmem st) 3 2 demo_key2" by (rule key_given_grow[OF demo_given(2) t(2)])
  from HASH_Get_looks_up[OF t(3) this, of None] show ?thesis by (simp add: t(1) demo_same_key Let_def)
qed

text \<open>A lookup after setting a key returns the new value for that key, and for every other key what
  it returned before.\<close>
theorem HASH_Get_after_Set:
  assumes "table_holds lower s M" and "table_names lower s r hk" and "table_names lower s r' hk'" and "table_room s hk"
  shows "\<exists>s'. table_set lower s r v = Some s' \<and>
    table_get lower s' r' = (if hk' = hk then Some v else table_get lower s r')"
  by (rule hash.get_put[OF assms])

lemma HASH_Get_after_Set_witness:
  "\<exists>s'. table_set True (demo_hst, demo_ht) (1, 2, 0) 7 = Some s' \<and>
    table_get True s' (3, HASH_KEY_TYPE_STRING, 0) = Some 7"
proof -
  have "table_holds True (demo_hst, demo_ht) Map.empty" using demo_empty by (auto simp: table_holds_def)
  from HASH_Get_after_Set[OF this demo_names, of 7] show ?thesis by simp
qed



text \<open>A pass with the iterator reads the value of every key exactly once and then ends.\<close>
theorem HASH_It_visits_all:
  assumes "hinv lower st ht css M"
  shows "\<exists>it vs. HASH_ItFirst ht = Some it \<and> visit (HASH_Count ht) st ht it = Some vs \<and>
    mset vs = image_mset (the \<circ> M) (mset_set (dom M))"
proof -
  have rows: "hrows lower st ht css" and hm: "hmap_is lower st css M" and fin: "finite (dom M)"
    and cnt: "t_count ht = card (dom M)" using assms by (auto simp: hinv_def)
  have inj: "inj_on (hk_of lower st) (all_entries css)" and len: "0 + (unat (t_rows ht) + 1) = length css"
    using rows by (auto simp: hrows_def)
  note D = distinct_rows[OF rows]
  have M: "M (hk_of lower st a) = Some (val_of st a)" if "a \<in> all_entries css" for a
    using hinv_value[OF assms that] by (auto simp: val_of_def)
  have dom: "dom M = hk_of lower st ` all_entries css"
  proof (intro equalityI subsetI)
    fix hk assume "hk \<in> dom M"
    then obtain v where "M hk = Some v" by auto
    then show "hk \<in> hk_of lower st ` all_entries css" using hm unfolding hmap_is_def by (metis image_eqI)
  qed (use M in auto)
  have "length (concat css) = card (dom M)"
    using D distinct_card[of "concat css"] card_image[OF inj] by (simp add: dom)
  with visit_rows[OF rows len] cnt obtain it where
    it: "HASH_ItFirst ht = Some it" "visit (HASH_Count ht) st ht it = Some (map (val_of st) (concat css))"
    by (auto simp: HASH_ItFirst_def HASH_Count_def)
  have "image_mset (the \<circ> M) (mset_set (dom M)) = image_mset (the \<circ> M) (image_mset (hk_of lower st) (mset_set (all_entries css)))"
    unfolding dom by (simp add: image_mset_mset_set[OF inj])
  also have "\<dots> = image_mset (val_of st) (mset_set (all_entries css))"
    unfolding image_mset.compositionality using M D
    by (intro image_mset_cong) (metis List.finite_set comp_apply elem_mset_set option.sel)
  also have "mset_set (all_entries css) = mset (concat css)" using D mset_set_set[of "concat css"] by simp
  finally have "image_mset (the \<circ> M) (mset_set (dom M)) = mset (map (val_of st) (concat css))" by (simp only: mset_map)
  with it show ?thesis by (metis (no_types))
qed

lemma HASH_It_visits_all_witness:
  "\<exists>it. HASH_ItFirst (snd demo_table) = Some it \<and>
    visit (HASH_Count (snd demo_table)) (fst demo_table) (snd demo_table) it = Some [7]"
proof -
  obtain st ht css where t: "demo_table = (st, ht)"
      "hinv True st ht css [(key_hash True 0 demo_key1, kclass True demo_key1) \<mapsto> 7]"
    using demo_table_ok by blast
  from HASH_It_visits_all[OF t(2)] show ?thesis by (auto simp: t(1))
qed

text \<open>The hash that \<open>HASH_CalcToLower\<close> computes from a key is the one under which the \<open>Lower\<close>
  functions file the key, and the buffer gets the key in lower case.\<close>
theorem HASH_CalcToLower_agrees:
  assumes "bytes_at m (ptr k) qs" and "slen k = int (length qs)" and "0 < res" and "res + length qs \<le> length m"
    and "res + length qs \<le> ptr k \<or> ptr k + length qs \<le> res"
  shows "\<exists>m'. HASH_CalcToLower m 0 res k = Some (m', key_hash True 0 qs) \<and> bytes_at m' res (map c_tolower qs)"
proof -
  obtain m' where "calc_lower m 0 res (ptr k) 0 (length qs) = Some (m', hash_of c_tolower 0 qs)"
      "bytes_at m' (res + 0) (map c_tolower qs)"
    using calc_lower_ok[of m "ptr k" 0 qs res 0] assms by auto
  then show ?thesis using assms(2) by (simp add: HASH_CalcToLower_def key_hash_def)
qed

lemma HASH_CalcToLower_agrees_witness:
  "\<exists>m'. HASH_CalcToLower (hmem demo_hst) 0 5 \<lparr>ptr = 1, slen = 2\<rparr> = Some (m', key_hash True 0 demo_key1) \<and>
    bytes_at m' 5 [0x61, 0x62]"
proof -
  have b: "bytes_at (hmem demo_hst) (ptr \<lparr>ptr = 1, slen = 2\<rparr>) demo_key1"
    using demo_given(1) by (simp add: key_given_def key_ok_def)
  have "map c_tolower demo_key1 = [0x61, 0x62]" by (simp add: demo_key1_def c_tolower_def c_isupper_def)
  then show ?thesis using HASH_CalcToLower_agrees[OF b, of 5] by (simp add: demo_key1_def demo_hst_def)
qed

end
