(* ===== verification/Buffer_Pool.thy ===== *)
theory Buffer_Pool
  imports C_Prelude
begin

section \<open>Fixed-size buffer pools\<close>

text \<open>
  What \<^verbatim>\<open>aki/src/aki_buffer.c\<close> and \<^verbatim>\<open>gki/src/gki_buffer.c\<close> have in common: up to six pools of
  buffers of one size each. A buffer is a header of 8 bytes, the user's bytes and a magic word.
  A pool keeps its free buffers in a queue linked through their headers; a list orders the
  pools by size. The two modules differ in the task numbers they write (\<open>nt\<close> for no task, \<open>tid\<close>
  for the current one) and in how they get memory.

  Headers and magic words live in typed stores by address; \<open>b_blocks\<close> holds the memory blocks
  (address, bytes) the pools may use, and an access outside them is undefined.
\<close>

unbundle bit_operations_syntax

subsection \<open>State\<close>

record T_AkiPackHdr =
  m_pNext :: addr
  m_u8PoolId :: nat
  m_u8TaskId :: nat
  m_u8Status :: nat
  m_u8Type :: nat

record T_AkiFreeq =
  in_pFirst :: addr
  in_pLast :: addr
  m_u16PackSize :: nat
  m_u16PackTotal :: nat
  m_u16PackCurCnt :: nat
  m_u16PackMaxCnt :: nat

record T_AkiBuffer =
  in_atFreeq :: "T_AkiFreeq list"
  m_apPoolStart :: "addr list"
  m_apPoolEnd :: "addr list"
  m_ausPoolSize :: "nat list"
  m_u16PoolAccessMask :: u16
  m_aucPoolList :: "nat list"
  m_u8CurrTotalPools :: nat
  b_hdrs :: "addr \<Rightarrow> T_AkiPackHdr option"
  b_words :: "addr \<Rightarrow> nat option"
  b_blocks :: "(addr \<times> nat) list"

definition POOLS_TOTAL_MAX :: nat where "POOLS_TOTAL_MAX = 6"
definition BUFFER_HDR_SIZE :: nat where "BUFFER_HDR_SIZE = 8"
definition BUFFER_PADDING_SIZE :: nat where "BUFFER_PADDING_SIZE = 12"
definition MAGIC_NO :: nat where "MAGIC_NO = 0xDDBADDBA"
definition BUF_STATUS_FREE :: nat where "BUF_STATUS_FREE = 0"
definition BUF_STATUS_UNLINKED :: nat where "BUF_STATUS_UNLINKED = 1"
definition BUF_STATUS_QUEUED :: nat where "BUF_STATUS_QUEUED = 2"
definition POOL_PUBLIC :: nat where "POOL_PUBLIC = 0"
definition POOL_RESTRICTED :: nat where "POOL_RESTRICTED = 1"
definition ALIGN_SIZE :: "nat \<Rightarrow> nat" where "ALIGN_SIZE s = (s + 3) div 4 * 4"
definition BUFFER_SIZE_MAX :: nat where "BUFFER_SIZE_MAX = 0xFFFF - BUFFER_PADDING_SIZE"

text \<open>Array accesses: undefined out of range.\<close>

definition ith :: "'a list \<Rightarrow> nat \<Rightarrow> 'a option" where
  "ith xs i = (if i < length xs then Some (xs ! i) else None)"

definition set_ith :: "'a list \<Rightarrow> nat \<Rightarrow> 'a \<Rightarrow> 'a list option" where
  "set_ith xs i x = (if i < length xs then Some (xs[i := x]) else None)"

text \<open>Accesses to a header and to a magic word.\<close>

definition in_block :: "T_AkiBuffer \<Rightarrow> addr \<Rightarrow> nat \<Rightarrow> bool" where
  "in_block cb a n \<longleftrightarrow> (\<exists>(p, s) \<in> set (b_blocks cb). p \<le> a \<and> a + n \<le> p + s)"

definition rd_hdr :: "T_AkiBuffer \<Rightarrow> addr \<Rightarrow> T_AkiPackHdr option" where
  "rd_hdr cb a = (if a \<noteq> 0 \<and> in_block cb a BUFFER_HDR_SIZE then b_hdrs cb a else None)"

definition upd_hdr :: "T_AkiBuffer \<Rightarrow> addr \<Rightarrow> (T_AkiPackHdr \<Rightarrow> T_AkiPackHdr) \<Rightarrow> T_AkiBuffer option" where
  "upd_hdr cb a f = map_option (\<lambda>h. cb\<lparr>b_hdrs := (b_hdrs cb)(a \<mapsto> f h)\<rparr>) (rd_hdr cb a)"

subsection \<open>The list of pools\<close>

text \<open>\<open>list_pos\<close>: the loop that finds the place of a pool, from index \<open>i\<close> with \<open>n\<close> steps left.\<close>

fun list_pos :: "T_AkiBuffer \<Rightarrow> nat \<Rightarrow> nat \<Rightarrow> nat \<Rightarrow> nat option" where
  "list_pos cb sz i 0 = Some i"
| "list_pos cb sz i (Suc n) =
     do {
       p \<leftarrow> ith (m_aucPoolList cb) i;
       q \<leftarrow> ith (in_atFreeq cb) p;
       if sz \<le> m_u16PackSize q then Some i else list_pos cb sz (i + 1) n
     }"

fun shift_up :: "nat list \<Rightarrow> nat \<Rightarrow> nat \<Rightarrow> nat list option" where
  "shift_up xs i 0 = Some xs"
| "shift_up xs i (Suc j) =
     (if i < Suc j then do { x \<leftarrow> ith xs j; xs' \<leftarrow> set_ith xs (Suc j) x; shift_up xs' i j } else Some xs)"

definition add_to_pool_list :: "T_AkiBuffer \<Rightarrow> nat \<Rightarrow> T_AkiBuffer option" where
  "add_to_pool_list cb pid =
     do {
       q \<leftarrow> ith (in_atFreeq cb) pid;
       i \<leftarrow> list_pos cb (m_u16PackSize q) 0 (m_u8CurrTotalPools cb);
       l \<leftarrow> shift_up (m_aucPoolList cb) i (m_u8CurrTotalPools cb);
       l' \<leftarrow> set_ith l i pid;
       Some (cb\<lparr>m_aucPoolList := l'\<rparr>)
     }"

fun list_find :: "nat list \<Rightarrow> nat \<Rightarrow> nat \<Rightarrow> nat \<Rightarrow> nat option" where
  "list_find xs pid i 0 = Some i"
| "list_find xs pid i (Suc n) =
     do { p \<leftarrow> ith xs i; if pid = p then Some i else list_find xs pid (i + 1) n }"

text \<open>\<open>n\<close> is at least the number of places left.\<close>

fun shift_down :: "nat list \<Rightarrow> nat \<Rightarrow> nat \<Rightarrow> nat \<Rightarrow> nat list option" where
  "shift_down xs i cnt 0 = Some xs"
| "shift_down xs i cnt (Suc n) =
     (if Suc i < cnt then do { x \<leftarrow> ith xs (i + 1); xs' \<leftarrow> set_ith xs i x; shift_down xs' (i + 1) cnt n }
      else Some xs)"

definition remove_from_pool_list :: "T_AkiBuffer \<Rightarrow> nat \<Rightarrow> T_AkiBuffer option" where
  "remove_from_pool_list cb pid =
     do {
       i \<leftarrow> list_find (m_aucPoolList cb) pid 0 (m_u8CurrTotalPools cb);
       l \<leftarrow> shift_down (m_aucPoolList cb) i (m_u8CurrTotalPools cb) (m_u8CurrTotalPools cb);
       Some (cb\<lparr>m_aucPoolList := l\<rparr>)
     }"

subsection \<open>Setting up a pool\<close>

definition blank_hdr :: T_AkiPackHdr where
  "blank_hdr = \<lparr>m_pNext = 0, m_u8PoolId = 0, m_u8TaskId = 0, m_u8Status = 0, m_u8Type = 0\<rparr>"

text \<open>The loop over the buffers: \<open>hdr1\<close> is the buffer before \<open>hdr\<close>. A header that is in no store yet is blank memory.\<close>

fun init_bufs :: "nat \<Rightarrow> nat \<Rightarrow> nat \<Rightarrow> nat \<Rightarrow> T_AkiBuffer \<Rightarrow> addr \<Rightarrow> addr \<Rightarrow> nat \<Rightarrow> (T_AkiBuffer \<times> addr) option" where
  "init_bufs nt pid tempsize act cb hdr hdr1 0 = Some (cb, hdr1)"
| "init_bufs nt pid tempsize act cb hdr hdr1 (Suc n) =
     do {
       guard (hdr \<noteq> 0 \<and> in_block cb hdr BUFFER_HDR_SIZE);
       let h = (case b_hdrs cb hdr of Some h \<Rightarrow> h | None \<Rightarrow> blank_hdr);
       let h1 = h\<lparr>m_u8TaskId := nt, m_u8PoolId := pid, m_u8Status := BUF_STATUS_FREE\<rparr>;
       let magic = hdr + BUFFER_HDR_SIZE + tempsize;
       guard (in_block cb magic 4);
       let cb1 = cb\<lparr>b_hdrs := (b_hdrs cb)(hdr \<mapsto> h1\<lparr>m_pNext := hdr + act\<rparr>),
                    b_words := (b_words cb)(magic \<mapsto> MAGIC_NO)\<rparr>;
       init_bufs nt pid tempsize act cb1 (hdr + act) hdr n
     }"

definition init_free_queue :: "nat \<Rightarrow> T_AkiBuffer \<Rightarrow> nat \<Rightarrow> nat \<Rightarrow> nat \<Rightarrow> addr \<Rightarrow> T_AkiBuffer option" where
  "init_free_queue nt cb pid sz cnt p_mem =
     (let tempsize = ALIGN_SIZE sz;
          act_size = u16 (tempsize + BUFFER_PADDING_SIZE) in
      do {
        guard (pid < POOLS_TOTAL_MAX);
        q \<leftarrow> ith (in_atFreeq cb) pid;
        let cb1 = (if p_mem \<noteq> 0
          then cb\<lparr>m_apPoolStart := (m_apPoolStart cb)[pid := p_mem],
                  m_apPoolEnd := (m_apPoolEnd cb)[pid := p_mem + act_size * cnt]\<rparr>
          else cb);
        let q1 = q\<lparr>m_u16PackSize := u16 tempsize, m_u16PackTotal := cnt, m_u16PackCurCnt := 0, m_u16PackMaxCnt := 0\<rparr>;
        let cb2 = cb1\<lparr>m_ausPoolSize := (m_ausPoolSize cb1)[pid := act_size]\<rparr>;
        if p_mem \<noteq> 0 then do {
          (cb3, hdr1) \<leftarrow> init_bufs nt pid tempsize act_size cb2 p_mem 0 cnt;
          cb4 \<leftarrow> upd_hdr cb3 hdr1 (\<lambda>h. h\<lparr>m_pNext := 0\<rparr>);
          Some (cb4\<lparr>in_atFreeq := (in_atFreeq cb4)[pid := q1\<lparr>in_pFirst := p_mem, in_pLast := hdr1\<rparr>]\<rparr>)
        }
        else Some (cb2\<lparr>in_atFreeq := (in_atFreeq cb2)[pid := q1]\<rparr>)
      })"

definition pool_set_permission :: "T_AkiBuffer \<Rightarrow> nat \<Rightarrow> nat \<Rightarrow> T_AkiBuffer" where
  "pool_set_permission cb pid perm =
     (if perm = POOL_RESTRICTED
      then cb\<lparr>m_u16PoolAccessMask := m_u16PoolAccessMask cb OR push_bit pid 1\<rparr>
      else cb\<lparr>m_u16PoolAccessMask := m_u16PoolAccessMask cb AND NOT (push_bit pid 1)\<rparr>)"

text \<open>A pool of \<open>n\<close> buffers of \<open>sz\<close> bytes at \<open>p_mem\<close> becomes pool \<open>pid\<close>.\<close>

definition add_pool :: "nat \<Rightarrow> T_AkiBuffer \<Rightarrow> nat \<Rightarrow> nat \<Rightarrow> nat \<Rightarrow> addr \<Rightarrow> nat \<Rightarrow> T_AkiBuffer option" where
  "add_pool nt cb pid sz n p_mem perm =
     do {
       cb1 \<leftarrow> init_free_queue nt cb pid sz n p_mem;
       cb2 \<leftarrow> add_to_pool_list cb1 pid;
       let cb3 = pool_set_permission cb2 pid perm;
       Some (cb3\<lparr>m_u8CurrTotalPools := u8n (m_u8CurrTotalPools cb3 + 1)\<rparr>)
     }"

text \<open>The first pool without memory, or \<open>POOLS_TOTAL_MAX\<close>.\<close>

definition first_unused :: "T_AkiBuffer \<Rightarrow> nat" where
  "first_unused cb = length (takeWhile (\<lambda>p. p \<noteq> 0) (m_apPoolStart cb))"

definition empty_freeq :: T_AkiFreeq where
  "empty_freeq = \<lparr>in_pFirst = 0, in_pLast = 0, m_u16PackSize = 0, m_u16PackTotal = 0, m_u16PackCurCnt = 0, m_u16PackMaxCnt = 0\<rparr>"

definition clear_pool :: "T_AkiBuffer \<Rightarrow> nat \<Rightarrow> T_AkiBuffer" where
  "clear_pool cb pid =
     cb\<lparr>m_apPoolStart := (m_apPoolStart cb)[pid := 0], m_apPoolEnd := (m_apPoolEnd cb)[pid := 0],
        m_ausPoolSize := (m_ausPoolSize cb)[pid := 0]\<rparr>"

definition delete_pool :: "T_AkiBuffer \<Rightarrow> nat \<Rightarrow> (T_AkiBuffer \<times> addr) option" where
  "delete_pool cb pid =
     (if pid \<ge> POOLS_TOTAL_MAX then Some (cb, 0)
      else do {
        p \<leftarrow> ith (m_apPoolStart cb) pid;
        q \<leftarrow> ith (in_atFreeq cb) pid;
        if p = 0 \<or> m_u16PackCurCnt q \<noteq> 0 then Some (cb, 0)
        else do {
          cb1 \<leftarrow> remove_from_pool_list (clear_pool (cb\<lparr>in_atFreeq := (in_atFreeq cb)[pid := empty_freeq]\<rparr>) pid) pid;
          Some (cb1\<lparr>m_u8CurrTotalPools := u8n (m_u8CurrTotalPools cb1 + 255)\<rparr>, p)
        }
      })"

subsection \<open>Getting and returning buffers\<close>

definition restricted :: "T_AkiBuffer \<Rightarrow> nat \<Rightarrow> bool" where
  "restricted cb pid \<longleftrightarrow> push_bit pid 1 AND m_u16PoolAccessMask cb \<noteq> 0"

text \<open>Takes the first buffer of the queue of pool \<open>pid\<close>, whose count is below its total.\<close>

definition take_buf :: "nat \<Rightarrow> T_AkiBuffer \<Rightarrow> nat \<Rightarrow> (T_AkiBuffer \<times> addr) option" where
  "take_buf tid cb pid =
     do {
       q \<leftarrow> ith (in_atFreeq cb) pid;
       let p = in_pFirst q;
       h \<leftarrow> rd_hdr cb p;
       let cur = u16 (m_u16PackCurCnt q + 1);
       let q1 = q\<lparr>in_pFirst := m_pNext h, in_pLast := (if m_pNext h = 0 then 0 else in_pLast q),
                  m_u16PackCurCnt := cur, m_u16PackMaxCnt := (if cur > m_u16PackMaxCnt q then cur else m_u16PackMaxCnt q)\<rparr>;
       cb1 \<leftarrow> upd_hdr (cb\<lparr>in_atFreeq := (in_atFreeq cb)[pid := q1]\<rparr>) p
         (\<lambda>h. h\<lparr>m_u8TaskId := tid, m_u8Status := BUF_STATUS_UNLINKED, m_pNext := 0, m_u8Type := 0\<rparr>);
       Some (cb1, p + BUFFER_HDR_SIZE)
     }"

text \<open>
  The search through the list of pools, from index \<open>i\<close> with \<open>n\<close> places left. \<open>refill cb pid i\<close> is what
  the module does before it takes a buffer of pool \<open>pid\<close>; when it fails, null is returned.
\<close>

fun get_loop :: "nat \<Rightarrow> (T_AkiBuffer \<Rightarrow> nat \<Rightarrow> nat \<Rightarrow> (T_AkiBuffer \<times> bool) option) \<Rightarrow> nat \<Rightarrow> T_AkiBuffer \<Rightarrow> nat \<Rightarrow> nat \<Rightarrow>
    (T_AkiBuffer \<times> addr) option" where
  "get_loop tid refill sz cb i 0 = Some (cb, 0)"
| "get_loop tid refill sz cb i (Suc n) =
     do {
       pid \<leftarrow> ith (m_aucPoolList cb) i;
       q \<leftarrow> ith (in_atFreeq cb) pid;
       if sz \<le> m_u16PackSize q \<and> \<not> restricted cb pid \<and> m_u16PackCurCnt q < m_u16PackTotal q
       then do {
         (cb1, ok) \<leftarrow> refill cb pid i;
         if ok then take_buf tid cb1 pid else Some (cb1, 0)
       }
       else get_loop tid refill sz cb (i + 1) n
     }"

definition get_buf :: "nat \<Rightarrow> (T_AkiBuffer \<Rightarrow> nat \<Rightarrow> nat \<Rightarrow> (T_AkiBuffer \<times> bool) option) \<Rightarrow> T_AkiBuffer \<Rightarrow> nat \<Rightarrow>
    (T_AkiBuffer \<times> addr) option" where
  "get_buf tid refill cb sz =
     (if sz = 0 then Some (cb, 0) else get_loop tid refill sz cb 0 (m_u8CurrTotalPools cb))"

definition get_pool_buf :: "nat \<Rightarrow> (T_AkiBuffer \<Rightarrow> nat \<Rightarrow> nat \<Rightarrow> (T_AkiBuffer \<times> bool) option) \<Rightarrow> T_AkiBuffer \<Rightarrow> nat \<Rightarrow>
    (T_AkiBuffer \<times> addr) option" where
  "get_pool_buf tid refill cb pid =
     (if pid \<ge> POOLS_TOTAL_MAX then Some (cb, 0)
      else do {
        q \<leftarrow> ith (in_atFreeq cb) pid;
        if m_u16PackCurCnt q < m_u16PackTotal q
        then do {
          (cb1, ok) \<leftarrow> refill cb pid pid;
          if ok then take_buf tid cb1 pid else Some (cb1, 0)
        }
        else get_buf tid refill cb (m_u16PackSize q)
      })"

definition buf_size :: "T_AkiBuffer \<Rightarrow> addr \<Rightarrow> nat option" where
  "buf_size cb p_buf =
     do {
       guard (BUFFER_HDR_SIZE \<le> p_buf);
       h \<leftarrow> rd_hdr cb (p_buf - BUFFER_HDR_SIZE);
       if m_u8PoolId h < POOLS_TOTAL_MAX
       then map_option m_u16PackSize (ith (in_atFreeq cb) (m_u8PoolId h)) else Some 0
     }"

definition buf_damaged :: "T_AkiBuffer \<Rightarrow> addr \<Rightarrow> bool option" where
  "buf_damaged cb p_buf =
     do {
       n \<leftarrow> buf_size cb p_buf;
       if odd (p_buf + n) then Some True
       else do {
         guard (in_block cb (p_buf + n) 4);
         w \<leftarrow> b_words cb (p_buf + n);
         Some (w \<noteq> MAGIC_NO)
       }
     }"

definition put_buf :: "nat \<Rightarrow> T_AkiBuffer \<Rightarrow> addr \<Rightarrow> T_AkiBuffer option" where
  "put_buf nt cb p_buf =
     (if p_buf = 0 then Some cb
      else do {
        bad \<leftarrow> buf_damaged cb p_buf;
        if bad then Some cb
        else do {
          let p = p_buf - BUFFER_HDR_SIZE;
          h \<leftarrow> rd_hdr cb p;
          if m_u8Status h \<noteq> BUF_STATUS_UNLINKED \<or> m_u8PoolId h \<ge> POOLS_TOTAL_MAX then Some cb
          else do {
            q \<leftarrow> ith (in_atFreeq cb) (m_u8PoolId h);
            cb1 \<leftarrow> (if in_pLast q \<noteq> 0 then upd_hdr cb (in_pLast q) (\<lambda>h. h\<lparr>m_pNext := p\<rparr>) else Some cb);
            let q1 = q\<lparr>in_pFirst := (if in_pLast q \<noteq> 0 then in_pFirst q else p), in_pLast := p,
                       m_u16PackCurCnt := (if m_u16PackCurCnt q > 0 then m_u16PackCurCnt q - 1 else 0)\<rparr>;
            cb2 \<leftarrow> upd_hdr cb1 p (\<lambda>h. h\<lparr>m_pNext := 0, m_u8Status := BUF_STATUS_FREE, m_u8TaskId := nt\<rparr>);
            Some (cb2\<lparr>in_atFreeq := (in_atFreeq cb2)[m_u8PoolId h := q1]\<rparr>)
          }
        }
      })"

text \<open>The user address of the buffer that holds the address \<open>p_ua\<close>, from pool \<open>i\<close> with \<open>n\<close> left.\<close>

fun find_start :: "T_AkiBuffer \<Rightarrow> addr \<Rightarrow> nat \<Rightarrow> nat \<Rightarrow> addr option" where
  "find_start cb p_ua i 0 = Some 0"
| "find_start cb p_ua i (Suc n) =
     do {
       s \<leftarrow> ith (m_apPoolStart cb) i;
       e \<leftarrow> ith (m_apPoolEnd cb) i;
       if s < p_ua \<and> p_ua < e
       then do {
         sz \<leftarrow> ith (m_ausPoolSize cb) i;
         guard (sz \<noteq> 0);
         Some (s + (p_ua - s) div sz * sz + BUFFER_HDR_SIZE)
       }
       else find_start cb p_ua (i + 1) n
     }"

subsection \<open>Valid pools\<close>

text \<open>
  \<open>bufs cb pid\<close> are the headers of the buffers of a pool, in the order of their addresses;
  \<open>bp_pool cb pid fs\<close>: the pool has no memory and is all zero, or its queue links the free
  buffers \<open>fs\<close>, which are those with the status of a free one; \<open>bp_inv cb F\<close>: all six pools are
  valid, with the free buffers \<open>F\<close>, and their memory is disjoint, and the list of pools holds
  those with memory in the order of their sizes.
\<close>

abbreviation fq :: "T_AkiBuffer \<Rightarrow> nat \<Rightarrow> T_AkiFreeq" where "fq cb pid \<equiv> in_atFreeq cb ! pid"
abbreviation pstart :: "T_AkiBuffer \<Rightarrow> nat \<Rightarrow> addr" where "pstart cb pid \<equiv> m_apPoolStart cb ! pid"
abbreviation pend :: "T_AkiBuffer \<Rightarrow> nat \<Rightarrow> addr" where "pend cb pid \<equiv> m_apPoolEnd cb ! pid"
abbreviation psize :: "T_AkiBuffer \<Rightarrow> nat \<Rightarrow> nat" where "psize cb pid \<equiv> m_ausPoolSize cb ! pid"

definition buf_at :: "T_AkiBuffer \<Rightarrow> nat \<Rightarrow> nat \<Rightarrow> addr" where
  "buf_at cb pid k = pstart cb pid + k * psize cb pid"

definition bufs :: "T_AkiBuffer \<Rightarrow> nat \<Rightarrow> addr list" where
  "bufs cb pid = map (buf_at cb pid) [0..<m_u16PackTotal (fq cb pid)]"

definition hdr_next :: "T_AkiBuffer \<Rightarrow> addr \<Rightarrow> addr option" where
  "hdr_next cb a = map_option m_pNext (b_hdrs cb a)"

definition magic_at :: "T_AkiBuffer \<Rightarrow> nat \<Rightarrow> addr \<Rightarrow> addr" where
  "magic_at cb pid h = h + BUFFER_HDR_SIZE + m_u16PackSize (fq cb pid)"

definition queue_ok :: "T_AkiBuffer \<Rightarrow> nat \<Rightarrow> addr list \<Rightarrow> bool" where
  "queue_ok cb pid fs \<longleftrightarrow> distinct fs \<and> set fs \<subseteq> set (bufs cb pid) \<and>
     linked (hdr_next cb) (in_pFirst (fq cb pid)) fs \<and>
     in_pLast (fq cb pid) = (if fs = [] then 0 else last fs) \<and>
     length fs + m_u16PackCurCnt (fq cb pid) = m_u16PackTotal (fq cb pid) \<and>
     m_u16PackCurCnt (fq cb pid) \<le> m_u16PackMaxCnt (fq cb pid) \<and> m_u16PackMaxCnt (fq cb pid) \<le> m_u16PackTotal (fq cb pid)"

definition buf_ok :: "T_AkiBuffer \<Rightarrow> nat \<Rightarrow> addr list \<Rightarrow> addr \<Rightarrow> bool" where
  "buf_ok cb pid fs h \<longleftrightarrow> (\<exists>hd w. b_hdrs cb h = Some hd \<and> m_u8PoolId hd = pid \<and>
     (m_u8Status hd = BUF_STATUS_FREE \<longleftrightarrow> h \<in> set fs) \<and> b_words cb (magic_at cb pid h) = Some w)"

definition pool_mem_ok :: "T_AkiBuffer \<Rightarrow> nat \<Rightarrow> bool" where
  "pool_mem_ok cb pid \<longleftrightarrow> 4 dvd pstart cb pid \<and> 4 dvd m_u16PackSize (fq cb pid) \<and> 0 < m_u16PackSize (fq cb pid) \<and>
     psize cb pid = m_u16PackSize (fq cb pid) + BUFFER_PADDING_SIZE \<and> psize cb pid < 2 ^ 16 \<and>
     0 < m_u16PackTotal (fq cb pid) \<and> m_u16PackTotal (fq cb pid) < 2 ^ 16 \<and>
     pend cb pid = pstart cb pid + psize cb pid * m_u16PackTotal (fq cb pid) \<and>
     in_block cb (pstart cb pid) (psize cb pid * m_u16PackTotal (fq cb pid))"

definition bp_pool :: "T_AkiBuffer \<Rightarrow> nat \<Rightarrow> addr list \<Rightarrow> bool" where
  "bp_pool cb pid fs \<longleftrightarrow>
     (if pstart cb pid = 0 then fq cb pid = empty_freeq \<and> pend cb pid = 0 \<and> psize cb pid = 0 \<and> fs = []
      else pool_mem_ok cb pid \<and> queue_ok cb pid fs \<and> (\<forall>h\<in>set (bufs cb pid). buf_ok cb pid fs h))"

definition apart :: "T_AkiBuffer \<Rightarrow> nat \<Rightarrow> nat \<Rightarrow> bool" where
  "apart cb i j \<longleftrightarrow> pstart cb i = 0 \<or> pstart cb j = 0 \<or> pend cb i \<le> pstart cb j \<or> pend cb j \<le> pstart cb i"

definition listed :: "T_AkiBuffer \<Rightarrow> nat list" where
  "listed cb = take (m_u8CurrTotalPools cb) (m_aucPoolList cb)"

definition list_ok :: "T_AkiBuffer \<Rightarrow> bool" where
  "list_ok cb \<longleftrightarrow> m_u8CurrTotalPools cb \<le> POOLS_TOTAL_MAX \<and> distinct (listed cb) \<and>
     set (listed cb) = {pid. pid < POOLS_TOTAL_MAX \<and> pstart cb pid \<noteq> 0} \<and>
     sorted (map (\<lambda>pid. m_u16PackSize (fq cb pid)) (listed cb))"

definition arrays_ok :: "T_AkiBuffer \<Rightarrow> bool" where
  "arrays_ok cb \<longleftrightarrow> length (in_atFreeq cb) = POOLS_TOTAL_MAX \<and> length (m_apPoolStart cb) = POOLS_TOTAL_MAX \<and>
     length (m_apPoolEnd cb) = POOLS_TOTAL_MAX \<and> length (m_ausPoolSize cb) = POOLS_TOTAL_MAX \<and>
     length (m_aucPoolList cb) = POOLS_TOTAL_MAX"

definition bp_pools :: "T_AkiBuffer \<Rightarrow> (nat \<Rightarrow> addr list) \<Rightarrow> bool" where
  "bp_pools cb F \<longleftrightarrow> arrays_ok cb \<and> (\<forall>pid<POOLS_TOTAL_MAX. bp_pool cb pid (F pid)) \<and>
     (\<forall>i<POOLS_TOTAL_MAX. \<forall>j<POOLS_TOTAL_MAX. i \<noteq> j \<longrightarrow> apart cb i j)"

definition bp_inv :: "T_AkiBuffer \<Rightarrow> (nat \<Rightarrow> addr list) \<Rightarrow> bool" where
  "bp_inv cb F \<longleftrightarrow> bp_pools cb F \<and> list_ok cb"

lemmas pool_sizes = POOLS_TOTAL_MAX_def BUFFER_HDR_SIZE_def BUFFER_PADDING_SIZE_def

subsection \<open>The buffers of a pool\<close>

lemma bp_poolsD:
  "bp_pools cb F \<Longrightarrow> arrays_ok cb"
  "bp_pools cb F \<Longrightarrow> pid < POOLS_TOTAL_MAX \<Longrightarrow> bp_pool cb pid (F pid)"
  "bp_pools cb F \<Longrightarrow> i < POOLS_TOTAL_MAX \<Longrightarrow> j < POOLS_TOTAL_MAX \<Longrightarrow> i \<noteq> j \<Longrightarrow> apart cb i j"
  by (auto simp: bp_pools_def)

lemma bp_invD:
  "bp_inv cb F \<Longrightarrow> arrays_ok cb" "bp_inv cb F \<Longrightarrow> list_ok cb"
  "bp_inv cb F \<Longrightarrow> pid < POOLS_TOTAL_MAX \<Longrightarrow> bp_pool cb pid (F pid)"
  "bp_inv cb F \<Longrightarrow> i < POOLS_TOTAL_MAX \<Longrightarrow> j < POOLS_TOTAL_MAX \<Longrightarrow> i \<noteq> j \<Longrightarrow> apart cb i j"
  "bp_inv cb F \<Longrightarrow> bp_pools cb F"
  by (auto simp: bp_inv_def bp_pools_def)

lemma set_bufs: "set (bufs cb pid) = {buf_at cb pid k |k. k < m_u16PackTotal (fq cb pid)}"
  by (auto simp: bufs_def)

lemma live_iff: "bp_pool cb pid fs \<Longrightarrow> 0 < m_u16PackTotal (fq cb pid) \<longleftrightarrow> pstart cb pid \<noteq> 0"
  by (cases "pstart cb pid = 0") (simp_all add: bp_pool_def pool_mem_ok_def empty_freeq_def)

lemma bufs_live: "bp_pool cb pid fs \<Longrightarrow> h \<in> set (bufs cb pid) \<Longrightarrow> pstart cb pid \<noteq> 0"
  using live_iff[of cb pid fs] by (auto simp: set_bufs)

lemma distinct_bufs: "bp_pool cb pid fs \<Longrightarrow> distinct (bufs cb pid)"
proof (cases "pstart cb pid = 0")
  case True
  assume "bp_pool cb pid fs"
  with True show ?thesis by (simp add: bp_pool_def bufs_def empty_freeq_def)
next
  case False
  assume "bp_pool cb pid fs"
  with False have "0 < psize cb pid" by (simp add: bp_pool_def pool_mem_ok_def)
  then show ?thesis by (auto simp: bufs_def distinct_map inj_on_def buf_at_def)
qed

lemma in_block_sub: "p \<le> a \<Longrightarrow> a + n \<le> p + s \<Longrightarrow> in_block cb p s \<Longrightarrow> in_block cb a n"
  unfolding in_block_def by (elim bexE, rule bexI) auto

text \<open>A buffer lies in the memory of its pool, and two buffers do not overlap.\<close>

lemma buf_range:
  assumes "bp_pool cb pid fs" "h \<in> set (bufs cb pid)"
  shows "h \<noteq> 0" "pstart cb pid \<le> h" "h + psize cb pid \<le> pend cb pid" "4 dvd h"
    "psize cb pid = m_u16PackSize (fq cb pid) + 12" "rd_hdr cb h = b_hdrs cb h"
    "in_block cb (magic_at cb pid h) 4" "even (magic_at cb pid h)"
proof -
  have live: "pstart cb pid \<noteq> 0" by (rule bufs_live[OF assms])
  then have m: "pool_mem_ok cb pid" using assms(1) by (simp add: bp_pool_def)
  obtain k where k: "k < m_u16PackTotal (fq cb pid)" "h = pstart cb pid + k * psize cb pid"
    using assms(2) by (auto simp: set_bufs buf_at_def)
  show ps: "psize cb pid = m_u16PackSize (fq cb pid) + 12" using m by (simp add: pool_mem_ok_def pool_sizes)
  have "(k + 1) * psize cb pid \<le> m_u16PackTotal (fq cb pid) * psize cb pid"
    using k(1) by (intro mult_le_mono1) simp
  then have e: "h + psize cb pid \<le> pstart cb pid + psize cb pid * m_u16PackTotal (fq cb pid)"
    using k(2) by (simp add: algebra_simps)
  then show "h + psize cb pid \<le> pend cb pid" using m by (simp add: pool_mem_ok_def)
  show h: "pstart cb pid \<le> h" "h \<noteq> 0" using k live by auto
  have d: "4 dvd pstart cb pid" "4 dvd m_u16PackSize (fq cb pid)" using m by (simp_all add: pool_mem_ok_def)
  have "4 dvd psize cb pid" unfolding ps using d(2) by (intro dvd_add) simp_all
  then show d4: "4 dvd h" using k(2) d(1) by simp
  have blk: "in_block cb a n" if "pstart cb pid \<le> a" "a + n \<le> pstart cb pid + psize cb pid * m_u16PackTotal (fq cb pid)" for a n
  proof -
    from m have "in_block cb (pstart cb pid) (psize cb pid * m_u16PackTotal (fq cb pid))"
      unfolding pool_mem_ok_def by blast
    with that show ?thesis by (rule in_block_sub)
  qed
  show "rd_hdr cb h = b_hdrs cb h" using blk[of h 8] h e ps by (simp add: rd_hdr_def pool_sizes)
  show "in_block cb (magic_at cb pid h) 4" using blk[of "magic_at cb pid h" 4] h e ps by (simp add: magic_at_def pool_sizes)
  have "4 dvd magic_at cb pid h" using d d4 by (simp add: magic_at_def pool_sizes)
  then show "even (magic_at cb pid h)" by (metis dvd_trans even_numeral)
qed

lemma bufs_apart:
  assumes "bp_pool cb pid fs" "h \<in> set (bufs cb pid)" "h' \<in> set (bufs cb pid)" "h \<noteq> h'"
  shows "h + psize cb pid \<le> h' \<or> h' + psize cb pid \<le> h"
proof -
  obtain k k' where k: "h = pstart cb pid + k * psize cb pid" "h' = pstart cb pid + k' * psize cb pid"
    using assms(2,3) by (auto simp: set_bufs buf_at_def)
  consider "k + 1 \<le> k'" | "k' + 1 \<le> k" using assms(4) k by (metis Suc_eq_plus1 not_less_eq_eq le_antisym)
  then show ?thesis
  proof cases
    case 1
    then have "(k + 1) * psize cb pid \<le> k' * psize cb pid" by (rule mult_le_mono1)
    with k show ?thesis by (simp add: algebra_simps)
  next
    case 2
    then have "(k' + 1) * psize cb pid \<le> k * psize cb pid" by (rule mult_le_mono1)
    with k show ?thesis by (simp add: algebra_simps)
  qed
qed

lemma pool_of_buf:
  assumes "bp_inv cb F" "i < POOLS_TOTAL_MAX" "j < POOLS_TOTAL_MAX" "h \<in> set (bufs cb i)" "h' \<in> set (bufs cb j)" "i \<noteq> j"
  shows "h + psize cb i \<le> h' \<or> h' + psize cb j \<le> h"
  using bp_invD(4)[OF assms(1-3,6)] buf_range(2,3)[OF bp_invD(3)[OF assms(1,2)] assms(4)]
    buf_range(2,3)[OF bp_invD(3)[OF assms(1,3)] assms(5)]
    bufs_live[OF bp_invD(3)[OF assms(1,2)] assms(4)] bufs_live[OF bp_invD(3)[OF assms(1,3)] assms(5)]
  by (auto simp: apart_def)

lemma same_pool:
  assumes "bp_inv cb F" "i < POOLS_TOTAL_MAX" "j < POOLS_TOTAL_MAX" "h \<in> set (bufs cb i)" "h \<in> set (bufs cb j)"
  shows "i = j"
proof (rule ccontr)
  assume "i \<noteq> j"
  from pool_of_buf[OF assms(1-5) this] buf_range(5)[OF bp_invD(3)[OF assms(1,2)] assms(4)]
    buf_range(5)[OF bp_invD(3)[OF assms(1,3)] assms(5)] show False by auto
qed

subsection \<open>Changes inside one pool\<close>

definition same_layout :: "T_AkiBuffer \<Rightarrow> T_AkiBuffer \<Rightarrow> bool" where
  "same_layout cb' cb \<longleftrightarrow> m_apPoolStart cb' = m_apPoolStart cb \<and> m_apPoolEnd cb' = m_apPoolEnd cb \<and>
     m_ausPoolSize cb' = m_ausPoolSize cb \<and> m_aucPoolList cb' = m_aucPoolList cb \<and>
     m_u8CurrTotalPools cb' = m_u8CurrTotalPools cb \<and> m_u16PoolAccessMask cb' = m_u16PoolAccessMask cb \<and>
     b_words cb' = b_words cb \<and> b_blocks cb' = b_blocks cb"

lemma pool_mem_mono:
  assumes "pool_mem_ok cb pid" "pstart cb' pid = pstart cb pid" "pend cb' pid = pend cb pid" "psize cb' pid = psize cb pid"
    "m_u16PackSize (fq cb' pid) = m_u16PackSize (fq cb pid)" "m_u16PackTotal (fq cb' pid) = m_u16PackTotal (fq cb pid)"
    "\<And>p n. in_block cb p n \<Longrightarrow> in_block cb' p n"
  shows "pool_mem_ok cb' pid"
  using assms(1) unfolding pool_mem_ok_def assms(2-6)
  by (elim conjE, intro conjI) (assumption | rule assms(7))+

lemma bp_pool_frame:
  assumes "bp_pool cb pid fs" "fq cb' pid = fq cb pid" "pstart cb' pid = pstart cb pid" "pend cb' pid = pend cb pid"
    "psize cb' pid = psize cb pid" "set (b_blocks cb) \<subseteq> set (b_blocks cb')"
    "\<And>h. h \<in> set (bufs cb pid) \<Longrightarrow> b_hdrs cb' h = b_hdrs cb h"
    "\<And>h. h \<in> set (bufs cb pid) \<Longrightarrow> b_words cb' (magic_at cb pid h) = b_words cb (magic_at cb pid h)"
  shows "bp_pool cb' pid fs"
proof (cases "pstart cb pid = 0")
  case True
  with assms(1-5) show ?thesis by (simp add: bp_pool_def)
next
  case False
  then have m: "pool_mem_ok cb pid" and q: "queue_ok cb pid fs" and b: "\<And>h. h \<in> set (bufs cb pid) \<Longrightarrow> buf_ok cb pid fs h"
    using assms(1) by (auto simp: bp_pool_def)
  have bufs: "bufs cb' pid = bufs cb pid" using assms(2,3,5) by (simp add: bufs_def buf_at_def)
  have mag: "magic_at cb' pid h = magic_at cb pid h" for h using assms(2) by (simp add: magic_at_def)
  have "in_block cb p n \<Longrightarrow> in_block cb' p n" for p n using assms(6) by (auto simp: in_block_def)
  from pool_mem_mono[OF m assms(3-5) _ _ this] have "pool_mem_ok cb' pid" by (simp add: assms(2))
  moreover have "linked (hdr_next cb') (in_pFirst (fq cb pid)) fs"
  proof (rule linked_cong[of "hdr_next cb"])
    show "linked (hdr_next cb) (in_pFirst (fq cb pid)) fs" using q by (simp add: queue_ok_def)
    show "hdr_next cb' a = hdr_next cb a" if "a \<in> set fs" for a
      using q that assms(7)[of a] by (auto simp: queue_ok_def hdr_next_def)
  qed
  then have "queue_ok cb' pid fs" using q unfolding queue_ok_def bufs assms(2) by blast
  moreover have "buf_ok cb' pid fs h" if "h \<in> set (bufs cb pid)" for h
    using b[OF that] assms(7,8)[OF that] by (simp add: buf_ok_def mag)
  ultimately show ?thesis using False by (simp add: bp_pool_def bufs assms(3))
qed

lemma pool_update:
  assumes inv: "bp_inv cb F" and pid: "pid < POOLS_TOTAL_MAX" and lay: "same_layout cb' cb"
    and q: "in_atFreeq cb' = (in_atFreeq cb)[pid := q]" "m_u16PackSize q = m_u16PackSize (fq cb pid)"
      "m_u16PackTotal q = m_u16PackTotal (fq cb pid)" and live: "pstart cb pid \<noteq> 0"
    and out: "\<And>a. a \<notin> set (bufs cb pid) \<Longrightarrow> b_hdrs cb' a = b_hdrs cb a"
    and new: "queue_ok cb' pid fs" "\<And>h. h \<in> set (bufs cb pid) \<Longrightarrow> buf_ok cb' pid fs h"
  shows "bp_inv cb' (F(pid := fs))"
proof -
  have eqs: "m_apPoolStart cb' = m_apPoolStart cb" "m_apPoolEnd cb' = m_apPoolEnd cb"
      "m_ausPoolSize cb' = m_ausPoolSize cb" "m_aucPoolList cb' = m_aucPoolList cb"
      "m_u8CurrTotalPools cb' = m_u8CurrTotalPools cb" "b_words cb' = b_words cb" "b_blocks cb' = b_blocks cb"
    using lay by (auto simp: same_layout_def)
  have len: "arrays_ok cb" "length (in_atFreeq cb) = POOLS_TOTAL_MAX" using bp_invD(1)[OF inv] by (auto simp: arrays_ok_def)
  have fq: "fq cb' i = (if i = pid then q else fq cb i)" if "i < POOLS_TOTAL_MAX" for i
    using q(1) that len(2) by simp
  have bufs: "bufs cb' pid = bufs cb pid" using fq[OF pid] q(3) eqs by (simp add: bufs_def buf_at_def)
  have blk: "in_block cb' = in_block cb" by (intro ext) (simp add: in_block_def eqs)
  have P: "bp_pool cb' i ((F(pid := fs)) i)" if i: "i < POOLS_TOTAL_MAX" for i
  proof (cases "i = pid")
    case True
    have "fq cb' pid = q" using fq[OF pid] by simp
    moreover have "pool_mem_ok cb pid" using bp_invD(3)[OF inv pid] live by (simp add: bp_pool_def)
    ultimately have "pool_mem_ok cb' pid" using q(2,3) by (elim pool_mem_mono) (simp_all add: eqs blk)
    with new live eqs True show ?thesis by (simp add: bp_pool_def bufs)
  next
    case False
    have "bp_pool cb' i (F i)"
    proof (rule bp_pool_frame[OF bp_invD(3)[OF inv i]])
      show "b_hdrs cb' h = b_hdrs cb h" if "h \<in> set (bufs cb i)" for h
        using out same_pool[OF inv i pid that] False by blast
    qed (use fq[OF i] False eqs in simp_all)
    with False show ?thesis by simp
  qed
  have "map (\<lambda>i. m_u16PackSize (fq cb' i)) (listed cb) = map (\<lambda>i. m_u16PackSize (fq cb i)) (listed cb)"
    using bp_invD(2)[OF inv] fq q(2) by (auto simp: list_ok_def)
  moreover have "listed cb' = listed cb" by (simp add: listed_def eqs)
  ultimately have "list_ok cb'" using bp_invD(2)[OF inv] unfolding list_ok_def eqs by (simp only:)
  moreover have "arrays_ok cb'" using len(1) q(1) eqs by (simp add: arrays_ok_def)
  moreover have "apart cb' i j" if "i < POOLS_TOTAL_MAX" "j < POOLS_TOTAL_MAX" "i \<noteq> j" for i j
    using bp_invD(4)[OF inv that] by (simp add: apart_def eqs)
  ultimately show ?thesis using P by (simp add: bp_inv_def bp_pools_def)
qed

subsection \<open>Taking and returning a buffer\<close>

lemma upd_hdr_Some: "rd_hdr cb a = Some h \<Longrightarrow> upd_hdr cb a f = Some (cb\<lparr>b_hdrs := (b_hdrs cb)(a \<mapsto> f h)\<rparr>)"
  by (simp add: upd_hdr_def)

lemma rd_hdr_upd [simp]:
  "rd_hdr (cb\<lparr>in_atFreeq := xs\<rparr>) a = rd_hdr cb a"
  "rd_hdr (cb\<lparr>b_hdrs := (b_hdrs cb)(b \<mapsto> h)\<rparr>) a = (if a = b \<and> a \<noteq> 0 \<and> in_block cb a BUFFER_HDR_SIZE then Some h else rd_hdr cb a)"
  by (auto simp: rd_hdr_def in_block_def)

lemma ith_Some: "i < length xs \<Longrightarrow> ith xs i = Some (xs ! i)"
  by (simp add: ith_def)

text \<open>\<open>taken tid cb cb' pid p\<close>: the buffer with header \<open>p\<close> was taken from pool \<open>pid\<close>.\<close>

definition taken :: "nat \<Rightarrow> T_AkiBuffer \<Rightarrow> T_AkiBuffer \<Rightarrow> nat \<Rightarrow> addr \<Rightarrow> bool" where
  "taken tid cb cb' pid p \<longleftrightarrow> same_layout cb' cb \<and>
     (\<forall>a. a \<noteq> p \<longrightarrow> b_hdrs cb' a = b_hdrs cb a) \<and>
     (\<forall>i. i \<noteq> pid \<longrightarrow> fq cb' i = fq cb i) \<and> m_u16PackSize (fq cb' pid) = m_u16PackSize (fq cb pid) \<and>
     m_u16PackTotal (fq cb' pid) = m_u16PackTotal (fq cb pid) \<and>
     m_u16PackCurCnt (fq cb' pid) = m_u16PackCurCnt (fq cb pid) + 1 \<and>
     b_hdrs cb' p = Some \<lparr>m_pNext = 0, m_u8PoolId = pid, m_u8TaskId = tid, m_u8Status = BUF_STATUS_UNLINKED, m_u8Type = 0\<rparr>"

lemma take_buf_ok:
  assumes inv: "bp_inv cb F" and pid: "pid < POOLS_TOTAL_MAX"
    and cnt: "m_u16PackCurCnt (fq cb pid) < m_u16PackTotal (fq cb pid)"
  shows "\<exists>cb' p ps. F pid = p # ps \<and> take_buf tid cb pid = Some (cb', p + BUFFER_HDR_SIZE) \<and>
    bp_inv cb' (F(pid := ps)) \<and> taken tid cb cb' pid p"
proof -
  note P = bp_invD(3)[OF inv pid]
  have live: "pstart cb pid \<noteq> 0" using P cnt by (cases "pstart cb pid = 0") (simp_all add: bp_pool_def empty_freeq_def)
  then have Q: "queue_ok cb pid (F pid)" and B: "\<And>h. h \<in> set (bufs cb pid) \<Longrightarrow> buf_ok cb pid (F pid) h"
    and M: "pool_mem_ok cb pid" using P by (auto simp: bp_pool_def)
  have len: "pid < length (in_atFreeq cb)" using bp_invD(1)[OF inv] pid by (simp add: arrays_ok_def)
  obtain p ps where F: "F pid = p # ps" using Q cnt by (cases "F pid") (auto simp: queue_ok_def)
  have p: "p \<in> set (bufs cb pid)" "in_pFirst (fq cb pid) = p" "distinct (p # ps)" using Q F by (auto simp: queue_ok_def)
  obtain h where h: "b_hdrs cb p = Some h" "m_u8PoolId h = pid" "linked (hdr_next cb) (m_pNext h) ps"
    using B[OF p(1)] Q F by (auto simp: buf_ok_def queue_ok_def hdr_next_def)
  have rp: "rd_hdr cb p = Some h" using buf_range(6)[OF P p(1)] h(1) by simp
  let ?q = "fq cb pid"
  have c16: "u16 (m_u16PackCurCnt ?q + 1) = m_u16PackCurCnt ?q + 1"
    using cnt M by (simp add: c_arith pool_mem_ok_def)
  let ?q1 = "?q\<lparr>in_pFirst := m_pNext h, in_pLast := (if m_pNext h = 0 then 0 else in_pLast ?q),
    m_u16PackCurCnt := m_u16PackCurCnt ?q + 1, m_u16PackMaxCnt := (if m_u16PackCurCnt ?q + 1 > m_u16PackMaxCnt ?q then m_u16PackCurCnt ?q + 1 else m_u16PackMaxCnt ?q)\<rparr>"
  let ?h = "h\<lparr>m_u8TaskId := tid, m_u8Status := BUF_STATUS_UNLINKED, m_pNext := 0, m_u8Type := 0\<rparr>"
  let ?cb = "cb\<lparr>in_atFreeq := (in_atFreeq cb)[pid := ?q1], b_hdrs := (b_hdrs cb)(p \<mapsto> ?h)\<rparr>"
  have t: "take_buf tid cb pid = Some (?cb, p + BUFFER_HDR_SIZE)"
    using c16 by (simp add: take_buf_def ith_Some[OF len] p(2) rp upd_hdr_Some Let_def)
  have fq: "fq ?cb i = (if i = pid then ?q1 else fq cb i)" for i using len by (auto simp: nth_list_update)
  have bufs: "bufs ?cb pid = bufs cb pid" using len by (simp add: bufs_def buf_at_def)
  have nz: "m_pNext h = 0 \<longleftrightarrow> ps = []" using linked_first[OF h(3)] linked_nonzero[OF h(3)] by (cases ps) auto
  have lay: "same_layout ?cb cb" by (simp add: same_layout_def)
  have "linked (hdr_next ?cb) (m_pNext h) ps"
    by (rule linked_cong[OF h(3)]) (use p(3) in \<open>auto simp: hdr_next_def\<close>)
  then have Q': "queue_ok ?cb pid ps"
    using Q nz cnt len unfolding queue_ok_def bufs F by auto
  have B': "buf_ok ?cb pid ps a" if "a \<in> set (bufs cb pid)" for a
    using B[OF that] h(2) p(3) len by (auto simp: buf_ok_def F magic_at_def BUF_STATUS_FREE_def BUF_STATUS_UNLINKED_def)
  have "bp_inv ?cb (F(pid := ps))"
    by (rule pool_update[OF inv pid lay _ _ _ live _ Q' B', where q = ?q1]) (use p(1) in auto)
  moreover have "taken tid cb ?cb pid p" using lay h(2) len by (auto simp: taken_def)
  ultimately show ?thesis using t F by blast
qed

lemma bp_buf:
  assumes inv: "bp_inv cb F" and pid: "pid < POOLS_TOTAL_MAX" and p: "p \<in> set (bufs cb pid)"
  obtains h w where "b_hdrs cb p = Some h" "rd_hdr cb p = Some h" "m_u8PoolId h = pid"
    "m_u8Status h = BUF_STATUS_FREE \<longleftrightarrow> p \<in> set (F pid)" "b_words cb (magic_at cb pid p) = Some w"
    "buf_size cb (p + BUFFER_HDR_SIZE) = Some (m_u16PackSize (fq cb pid))"
    "buf_damaged cb (p + BUFFER_HDR_SIZE) = Some (w \<noteq> MAGIC_NO)" "queue_ok cb pid (F pid)" "pstart cb pid \<noteq> 0"
proof -
  note P = bp_invD(3)[OF inv pid]
  have live: "pstart cb pid \<noteq> 0" by (rule bufs_live[OF P p])
  then have Q: "queue_ok cb pid (F pid)" and "buf_ok cb pid (F pid) p" using P p by (auto simp: bp_pool_def)
  then obtain h w where h: "b_hdrs cb p = Some h" "m_u8PoolId h = pid" "m_u8Status h = BUF_STATUS_FREE \<longleftrightarrow> p \<in> set (F pid)"
      "b_words cb (magic_at cb pid p) = Some w"
    by (auto simp: buf_ok_def)
  have r: "rd_hdr cb p = Some h" using buf_range(6)[OF P p] h(1) by simp
  have len: "pid < length (in_atFreeq cb)" using bp_invD(1)[OF inv] pid by (simp add: arrays_ok_def)
  have sz: "buf_size cb (p + BUFFER_HDR_SIZE) = Some (m_u16PackSize (fq cb pid))"
    using pid by (simp add: buf_size_def r h(2) ith_Some[OF len])
  have m: "p + BUFFER_HDR_SIZE + m_u16PackSize (fq cb pid) = magic_at cb pid p" by (simp add: magic_at_def)
  have "\<not> odd (magic_at cb pid p)" using buf_range(8)[OF P p] by simp
  then have "buf_damaged cb (p + BUFFER_HDR_SIZE) = Some (w \<noteq> MAGIC_NO)"
    unfolding buf_damaged_def sz bind.bind_lunit m using buf_range(7)[OF P p] h(4) by (simp only: if_False) simp
  from that[OF h(1) r h(2,3,4) sz this Q live] show thesis .
qed

definition returned :: "nat \<Rightarrow> T_AkiBuffer \<Rightarrow> T_AkiBuffer \<Rightarrow> nat \<Rightarrow> addr \<Rightarrow> bool" where
  "returned nt cb cb' pid p \<longleftrightarrow> same_layout cb' cb \<and> (\<forall>i. i \<noteq> pid \<longrightarrow> fq cb' i = fq cb i) \<and>
     m_u16PackSize (fq cb' pid) = m_u16PackSize (fq cb pid) \<and> m_u16PackTotal (fq cb' pid) = m_u16PackTotal (fq cb pid) \<and>
     m_u16PackCurCnt (fq cb' pid) + 1 = m_u16PackCurCnt (fq cb pid) \<and> map_option m_u8TaskId (b_hdrs cb' p) = Some nt"

lemma put_buf_ok:
  assumes inv: "bp_inv cb F" and pid: "pid < POOLS_TOTAL_MAX" and p: "p \<in> set (bufs cb pid)"
    and st: "map_option m_u8Status (b_hdrs cb p) = Some BUF_STATUS_UNLINKED"
    and mag: "b_words cb (magic_at cb pid p) = Some MAGIC_NO"
  shows "\<exists>cb'. put_buf nt cb (p + BUFFER_HDR_SIZE) = Some cb' \<and> bp_inv cb' (F(pid := F pid @ [p])) \<and> returned nt cb cb' pid p"
proof -
  note P = bp_invD(3)[OF inv pid]
  obtain h w where h: "b_hdrs cb p = Some h" "rd_hdr cb p = Some h" "m_u8PoolId h = pid"
    "m_u8Status h = BUF_STATUS_FREE \<longleftrightarrow> p \<in> set (F pid)" "b_words cb (magic_at cb pid p) = Some w"
    "buf_damaged cb (p + BUFFER_HDR_SIZE) = Some (w \<noteq> MAGIC_NO)" and Q: "queue_ok cb pid (F pid)"
    and live: "pstart cb pid \<noteq> 0" by (rule bp_buf[OF inv pid p])
  let ?fs = "F pid" and ?q = "fq cb pid"
  have pf: "p \<notin> set ?fs" using h(1,4) st by (simp add: BUF_STATUS_FREE_def BUF_STATUS_UNLINKED_def)
  have len: "pid < length (in_atFreeq cb)" using bp_invD(1)[OF inv] pid by (simp add: arrays_ok_def)
  have Qs: "distinct ?fs" "set ?fs \<subseteq> set (bufs cb pid)" "linked (hdr_next cb) (in_pFirst ?q) ?fs"
    "in_pLast ?q = (if ?fs = [] then 0 else last ?fs)" "length ?fs + m_u16PackCurCnt ?q = m_u16PackTotal ?q"
    using Q by (auto simp: queue_ok_def)
  have "length ?fs < m_u16PackTotal ?q"
  proof -
    have "card (set ?fs) < card (set (bufs cb pid))" using Qs(2) p pf by (intro psubset_card_mono) auto
    also have "\<dots> \<le> m_u16PackTotal ?q" using card_length[of "bufs cb pid"] by (simp add: bufs_def)
    finally show ?thesis using distinct_card[OF Qs(1)] by simp
  qed
  then have cur: "0 < m_u16PackCurCnt ?q" using Qs(5) by simp
  have nzs: "a \<noteq> 0" if "a \<in> set (bufs cb pid)" for a using buf_range(1)[OF P that] .
  let ?q1 = "?q\<lparr>in_pFirst := (if ?fs = [] then p else in_pFirst ?q), in_pLast := p, m_u16PackCurCnt := m_u16PackCurCnt ?q - 1\<rparr>"
  let ?h = "h\<lparr>m_pNext := 0, m_u8Status := BUF_STATUS_FREE, m_u8TaskId := nt\<rparr>"
  let ?H = "(if ?fs = [] then b_hdrs cb else (b_hdrs cb)(last ?fs \<mapsto> (the (b_hdrs cb (last ?fs)))\<lparr>m_pNext := p\<rparr>))"
  let ?cb = "cb\<lparr>in_atFreeq := (in_atFreeq cb)[pid := ?q1], b_hdrs := ?H(p \<mapsto> ?h)\<rparr>"
  have put: "put_buf nt cb (p + BUFFER_HDR_SIZE) = Some ?cb"
  proof (cases "?fs = []")
    case True
    then show ?thesis using h st mag cur pid len Qs(4)
      by (simp add: put_buf_def pool_sizes Let_def ith_Some upd_hdr_Some BUF_STATUS_UNLINKED_def)
  next
    case False
    then have l: "last ?fs \<in> set (bufs cb pid)" "last ?fs \<noteq> p" using Qs(2) pf last_in_set[OF False] by auto
    obtain hl where hl: "b_hdrs cb (last ?fs) = Some hl" "rd_hdr cb (last ?fs) = Some hl" by (rule bp_buf[OF inv pid l(1)])
    show ?thesis using h st mag cur pid len Qs(4) False nzs[OF l(1)] l(2) hl
      by (simp add: put_buf_def pool_sizes Let_def ith_Some upd_hdr_Some BUF_STATUS_UNLINKED_def)
  qed
  have bufs: "bufs ?cb pid = bufs cb pid" using len by (simp add: bufs_def buf_at_def)
  have lay: "same_layout ?cb cb" by (simp add: same_layout_def)
  have "linked (hdr_next ?cb) (if ?fs = [] then p else in_pFirst ?q) (?fs @ [p])"
  proof (rule linked_snoc[OF Qs(3,1) nzs[OF p] pf])
    show "hdr_next ?cb p = Some 0" by (simp add: hdr_next_def)
    show "hdr_next ?cb (last ?fs) = Some p" if "?fs \<noteq> []"
      using that pf last_in_set[OF that] by (auto simp: hdr_next_def)
    show "hdr_next ?cb a = hdr_next cb a" if "a \<in> set ?fs" "a \<noteq> last ?fs" for a
      using that pf by (auto simp: hdr_next_def)
  qed
  then have Q': "queue_ok ?cb pid (?fs @ [p])"
    unfolding queue_ok_def bufs using Q cur p pf len unfolding queue_ok_def by (simp add: le_diff_conv)
  have B': "buf_ok ?cb pid (?fs @ [p]) a" if a_in: "a \<in> set (bufs cb pid)" for a
  proof -
    obtain ha wa where a: "b_hdrs cb a = Some ha" "m_u8PoolId ha = pid" "m_u8Status ha = BUF_STATUS_FREE \<longleftrightarrow> a \<in> set ?fs"
      "b_words cb (magic_at cb pid a) = Some wa" by (rule bp_buf[OF inv pid a_in])
    have m: "magic_at ?cb pid a = magic_at cb pid a" using len by (simp add: magic_at_def)
    show ?thesis unfolding buf_ok_def m using a h(3) by (cases "a = p"; cases "?fs = []") auto
  qed
  have "bp_inv ?cb (F(pid := ?fs @ [p]))"
  proof (rule pool_update[OF inv pid lay _ _ _ live _ Q' B', where q = ?q1])
    have "?fs \<noteq> [] \<Longrightarrow> last ?fs \<in> set (bufs cb pid)" using Qs(2) last_in_set by blast
    then show "b_hdrs ?cb a = b_hdrs cb a" if "a \<notin> set (bufs cb pid)" for a
      using that p by auto
  qed auto
  moreover have "returned nt cb ?cb pid p" using lay len cur by (simp add: returned_def)
  ultimately show ?thesis using put by blast
qed

lemma put_buf_refused:
  assumes inv: "bp_inv cb F" and pid: "pid < POOLS_TOTAL_MAX" and p: "p \<in> set (bufs cb pid)"
    and bad: "map_option m_u8Status (b_hdrs cb p) \<noteq> Some BUF_STATUS_UNLINKED \<or> b_words cb (magic_at cb pid p) \<noteq> Some MAGIC_NO"
  shows "put_buf nt cb (p + BUFFER_HDR_SIZE) = Some cb"
proof -
  obtain h w where h: "b_hdrs cb p = Some h" "rd_hdr cb p = Some h" "b_words cb (magic_at cb pid p) = Some w"
    "buf_damaged cb (p + BUFFER_HDR_SIZE) = Some (w \<noteq> MAGIC_NO)" by (rule bp_buf[OF inv pid p])
  then show ?thesis using bad by (auto simp: put_buf_def Let_def)
qed

subsection \<open>Searching the pools for a buffer\<close>

text \<open>
  \<open>can_serve\<close>: a public pool with buffers of at least \<open>sz\<close> bytes, one of them free. The search
  takes a buffer of the first such pool of the list, which is one with the smallest buffers.
\<close>

definition can_serve :: "T_AkiBuffer \<Rightarrow> nat \<Rightarrow> nat \<Rightarrow> bool" where
  "can_serve cb sz pid \<longleftrightarrow> pid < POOLS_TOTAL_MAX \<and> sz \<le> m_u16PackSize (fq cb pid) \<and> \<not> restricted cb pid \<and>
     m_u16PackCurCnt (fq cb pid) < m_u16PackTotal (fq cb pid)"

definition best_pool :: "T_AkiBuffer \<Rightarrow> nat \<Rightarrow> nat \<Rightarrow> bool" where
  "best_pool cb sz pid \<longleftrightarrow> can_serve cb sz pid \<and>
     (\<forall>i. can_serve cb sz i \<longrightarrow> m_u16PackSize (fq cb pid) \<le> m_u16PackSize (fq cb i))"

text \<open>No pool that can serve the request needs memory first.\<close>

definition refill_ok :: "(T_AkiBuffer \<Rightarrow> nat \<Rightarrow> nat \<Rightarrow> (T_AkiBuffer \<times> bool) option) \<Rightarrow> T_AkiBuffer \<Rightarrow> nat \<Rightarrow> bool" where
  "refill_ok refill cb sz \<longleftrightarrow> (\<forall>pid i. can_serve cb sz pid \<longrightarrow> refill cb pid i = Some (cb, True))"

lemma get_loop_eq:
  assumes inv: "bp_inv cb F" and ref: "refill_ok refill cb sz"
  shows "i + n = m_u8CurrTotalPools cb \<Longrightarrow> get_loop tid refill sz cb i n =
    (case filter (can_serve cb sz) (drop i (listed cb)) of [] \<Rightarrow> Some (cb, 0) | pid # _ \<Rightarrow> take_buf tid cb pid)"
proof (induction n arbitrary: i)
  case 0
  then show ?case by (simp add: listed_def)
next
  case (Suc n)
  have tot: "m_u8CurrTotalPools cb \<le> length (m_aucPoolList cb)" "length (in_atFreeq cb) = POOLS_TOTAL_MAX"
    using bp_invD(1,2)[OF inv] by (auto simp: arrays_ok_def list_ok_def)
  have i: "i < m_u8CurrTotalPools cb" using Suc.prems by simp
  then have il: "i < length (listed cb)" "listed cb ! i = m_aucPoolList cb ! i" "i < length (m_aucPoolList cb)"
    using tot by (auto simp: listed_def)
  let ?pid = "m_aucPoolList cb ! i"
  have "?pid \<in> set (listed cb)" using il by (metis nth_mem)
  then have pid: "?pid < POOLS_TOTAL_MAX" using bp_invD(2)[OF inv] by (auto simp: list_ok_def)
  have d: "drop i (listed cb) = ?pid # drop (i + 1) (listed cb)" using il by (metis Cons_nth_drop_Suc Suc_eq_plus1)
  have c: "can_serve cb sz ?pid \<longleftrightarrow> sz \<le> m_u16PackSize (fq cb ?pid) \<and> \<not> restricted cb ?pid \<and>
      m_u16PackCurCnt (fq cb ?pid) < m_u16PackTotal (fq cb ?pid)" using pid by (simp add: can_serve_def)
  have ir: "ith (m_aucPoolList cb) i = Some ?pid" "ith (in_atFreeq cb) ?pid = Some (fq cb ?pid)"
    using il(3) pid tot(2) by (simp_all add: ith_Some)
  show ?case
  proof (cases "can_serve cb sz ?pid")
    case True
    then have "refill cb ?pid i = Some (cb, True)" using ref by (simp add: refill_ok_def)
    then show ?thesis using True c by (simp add: ir d)
  next
    case False
    have "(i + 1) + n = m_u8CurrTotalPools cb" using Suc.prems by simp
    note IH = Suc.IH[OF this]
    have e: "(sz \<le> m_u16PackSize (fq cb ?pid) \<and> \<not> restricted cb ?pid \<and>
      m_u16PackCurCnt (fq cb ?pid) < m_u16PackTotal (fq cb ?pid)) = False" using False c by blast
    show ?thesis unfolding d
      by (simp only: get_loop.simps ir e bind.bind_lunit if_False filter.simps False IH)
  qed
qed

lemma can_serve_listed: "bp_inv cb F \<Longrightarrow> can_serve cb sz pid \<Longrightarrow> pid \<in> set (listed cb)"
proof -
  assume inv: "bp_inv cb F" and c: "can_serve cb sz pid"
  then have "pid < POOLS_TOTAL_MAX" "0 < m_u16PackTotal (fq cb pid)" by (auto simp: can_serve_def)
  with live_iff[OF bp_invD(3)[OF inv this(1)]] bp_invD(2)[OF inv] show ?thesis by (simp add: list_ok_def)
qed

lemma first_best:
  assumes inv: "bp_inv cb F" and f: "filter (can_serve cb sz) (listed cb) = pid # rest"
  shows "best_pool cb sz pid"
proof -
  have "sorted (map (\<lambda>i. m_u16PackSize (fq cb i)) (pid # rest))"
    using bp_invD(2)[OF inv] sorted_filter[of "\<lambda>i. m_u16PackSize (fq cb i)" "listed cb" "can_serve cb sz"]
    unfolding f list_ok_def by simp
  moreover have "can_serve cb sz i \<Longrightarrow> i \<in> set (pid # rest)" for i
    using can_serve_listed[OF inv] unfolding f[symmetric] by simp
  moreover have "can_serve cb sz pid" using arg_cong[OF f, of set] by auto
  ultimately show ?thesis unfolding best_pool_def by fastforce
qed

text \<open>What a request returns: null and nothing changed, or a buffer of the best pool.\<close>

lemma get_buf_ok:
  assumes inv: "bp_inv cb F" and ref: "refill_ok refill cb sz" and sz: "0 < sz"
  shows "(if \<exists>pid. can_serve cb sz pid
     then \<exists>cb' pid p ps. best_pool cb sz pid \<and> F pid = p # ps \<and> get_buf tid refill cb sz = Some (cb', p + BUFFER_HDR_SIZE) \<and>
       bp_inv cb' (F(pid := ps)) \<and> taken tid cb cb' pid p
     else get_buf tid refill cb sz = Some (cb, 0))"
proof -
  have "get_loop tid refill sz cb 0 (m_u8CurrTotalPools cb) =
      (case filter (can_serve cb sz) (drop 0 (listed cb)) of [] \<Rightarrow> Some (cb, 0) | pid # _ \<Rightarrow> take_buf tid cb pid)"
    by (rule get_loop_eq[OF inv ref]) simp
  then have eq: "get_buf tid refill cb sz =
      (case filter (can_serve cb sz) (listed cb) of [] \<Rightarrow> Some (cb, 0) | pid # _ \<Rightarrow> take_buf tid cb pid)"
    using sz by (simp add: get_buf_def)
  show ?thesis
  proof (cases "filter (can_serve cb sz) (listed cb)")
    case Nil
    then have "\<not> can_serve cb sz pid" for pid
      using can_serve_listed[OF inv, of sz pid] by (auto simp: filter_empty_conv)
    then show ?thesis using Nil eq by simp
  next
    case (Cons pid rest)
    note best = first_best[OF inv Cons]
    then have c: "pid < POOLS_TOTAL_MAX" "m_u16PackCurCnt (fq cb pid) < m_u16PackTotal (fq cb pid)" "\<exists>pid. can_serve cb sz pid"
      by (auto simp: best_pool_def can_serve_def)
    from take_buf_ok[OF inv c(1,2), of tid] Cons eq best c(3) show ?thesis by auto
  qed
qed

subsection \<open>The buffer around an address\<close>

lemma find_start_skip:
  assumes "arrays_ok cb" "i + n \<le> POOLS_TOTAL_MAX"
    and "\<And>j. i \<le> j \<Longrightarrow> j < i + n \<Longrightarrow> \<not> (pstart cb j < a \<and> a < pend cb j)"
  shows "find_start cb a i (n + k) = find_start cb a (i + n) k"
  using assms
proof (induction n arbitrary: i)
  case (Suc n)
  have "\<not> (pstart cb i < a \<and> a < pend cb i)" using Suc.prems(3)[of i] by simp
  moreover have "i < POOLS_TOTAL_MAX" using Suc.prems(2) by simp
  moreover have "find_start cb a (Suc i) (n + k) = find_start cb a (Suc i + n) k"
    using Suc.prems by (intro Suc.IH) auto
  ultimately show ?case using Suc.prems(1) by (auto simp: arrays_ok_def ith_Some)
qed simp

lemma find_start_ok:
  assumes inv: "bp_inv cb F" and pid: "pid < POOLS_TOTAL_MAX" and p: "p \<in> set (bufs cb pid)"
    and a: "p < a" "a < p + psize cb pid"
  shows "find_start cb a 0 POOLS_TOTAL_MAX = Some (p + BUFFER_HDR_SIZE)"
proof -
  note P = bp_invD(3)[OF inv pid]
  note R = buf_range[OF P p]
  have live: "pstart cb pid \<noteq> 0" by (rule bufs_live[OF P p])
  obtain k where k: "p = pstart cb pid + k * psize cb pid" using p by (auto simp: set_bufs buf_at_def)
  have ar: "arrays_ok cb" by (rule bp_invD(1)[OF inv])
  have out: "\<not> (pstart cb j < a \<and> a < pend cb j)" if j: "j < pid" for j
  proof (cases "pstart cb j = 0")
    case True
    then have "pend cb j = 0" using bp_invD(3)[OF inv, of j] j pid by (simp add: bp_pool_def)
    then show ?thesis by simp
  next
    case False
    have "apart cb j pid" using bp_invD(4)[OF inv _ pid, of j] j pid by simp
    then show ?thesis using False live R(2,3) a by (auto simp: apart_def)
  qed
  obtain d where d: "POOLS_TOTAL_MAX = pid + Suc d" using pid by (metis less_iff_Suc_add add_Suc_right)
  have s: "find_start cb a 0 (pid + Suc d) = find_start cb a (0 + pid) (Suc d)"
    using out d by (intro find_start_skip[OF ar]) auto
  have kk: "(a - pstart cb pid) div psize cb pid = k"
  proof -
    have "a - pstart cb pid = k * psize cb pid + (a - p)" "a - p < psize cb pid" using k a by auto
    then show ?thesis by (simp add: div_mult_self3)
  qed
  have "pstart cb pid < a" "a < pend cb pid" "psize cb pid \<noteq> 0" using R(2,3,5) a by auto
  then have "find_start cb a pid (Suc d) = Some (pstart cb pid + (a - pstart cb pid) div psize cb pid * psize cb pid + BUFFER_HDR_SIZE)"
    using pid ar by (simp add: arrays_ok_def ith_Some)
  then show ?thesis unfolding d s kk k by simp
qed

lemma find_start_none:
  assumes inv: "bp_inv cb F" and out: "\<forall>pid<POOLS_TOTAL_MAX. \<not> (pstart cb pid < a \<and> a < pend cb pid)"
  shows "find_start cb a 0 POOLS_TOTAL_MAX = Some 0"
  using find_start_skip[of cb 0 POOLS_TOTAL_MAX a 0] bp_invD(1)[OF inv] out by simp

subsection \<open>Changing the list of pools\<close>

lemma list_pos_eq:
  assumes "\<And>j. j < i + n \<Longrightarrow> j < length (m_aucPoolList cb) \<and> m_aucPoolList cb ! j < length (in_atFreeq cb)"
  shows "list_pos cb sz i n = Some (i + length (takeWhile (\<lambda>p. m_u16PackSize (fq cb p) < sz) (take n (drop i (m_aucPoolList cb)))))"
  using assms
proof (induction n arbitrary: i)
  case (Suc n)
  have i: "i < length (m_aucPoolList cb)" "m_aucPoolList cb ! i < length (in_atFreeq cb)" using Suc.prems[of i] by auto
  have d: "drop i (m_aucPoolList cb) = m_aucPoolList cb ! i # drop (i + 1) (m_aucPoolList cb)"
    using Cons_nth_drop_Suc[OF i(1)] by simp
  have IH: "list_pos cb sz (i + 1) n = Some (i + 1 + length (takeWhile (\<lambda>p. m_u16PackSize (fq cb p) < sz) (take n (drop (i + 1) (m_aucPoolList cb)))))"
    using Suc.prems by (intro Suc.IH) auto
  show ?case unfolding d using IH i by (simp add: ith_Some)
qed simp

lemma shift_up_eq:
  "i \<le> j \<Longrightarrow> j < length xs \<Longrightarrow> shift_up xs i j = Some (take (i + 1) xs @ take (j - i) (drop i xs) @ drop (j + 1) xs)"
proof (induction j arbitrary: xs)
  case 0
  then show ?case by (simp add: append_take_drop_id[of 1, simplified])
next
  case (Suc j)
  show ?case
  proof (cases "i < Suc j")
    case False
    then have "i = Suc j" using Suc.prems by simp
    then show ?thesis by simp
  next
    case True
    let ?xs = "xs[Suc j := xs ! j]"
    have j: "j < length xs" "j < length ?xs" "i \<le> j" using Suc.prems True by auto
    have "shift_up xs i (Suc j) = shift_up ?xs i j" using True Suc.prems j by (simp add: ith_Some set_ith_def)
    also have "\<dots> = Some (take (i + 1) ?xs @ take (j - i) (drop i ?xs) @ drop (j + 1) ?xs)"
      by (rule Suc.IH[OF j(3,2)])
    also have "take (i + 1) ?xs = take (i + 1) xs" using True by simp
    also have "take (j - i) (drop i ?xs) = take (j - i) (drop i xs)" using j(3) by (simp add: drop_update_swap)
    also have "drop (j + 1) ?xs = xs ! j # drop (Suc j + 1) xs"
      using Suc.prems(2) by (simp add: drop_update_swap flip: Cons_nth_drop_Suc)
    also have "take (j - i) (drop i xs) @ xs ! j # drop (Suc j + 1) xs = take (Suc j - i) (drop i xs) @ drop (Suc j + 1) xs"
      using j by (simp add: Suc_diff_le take_Suc_conv_app_nth)
    finally show ?thesis .
  qed
qed

lemma list_find_eq:
  "i + n \<le> length xs \<Longrightarrow> list_find xs pid i n = Some (i + length (takeWhile (\<lambda>p. p \<noteq> pid) (take n (drop i xs))))"
proof (induction n arbitrary: i)
  case (Suc n)
  then have i: "i < length xs" by simp
  have d: "drop i xs = xs ! i # drop (i + 1) xs" using Cons_nth_drop_Suc[OF i] by simp
  show ?case unfolding d using Suc.IH[of "i + 1"] Suc.prems i by (auto simp: ith_Some)
qed simp

lemma shift_down_eq:
  "i < cnt \<Longrightarrow> cnt \<le> length xs \<Longrightarrow> cnt \<le> Suc (i + n) \<Longrightarrow>
   shift_down xs i cnt n = Some (take i xs @ take (cnt - 1 - i) (drop (i + 1) xs) @ drop (cnt - 1) xs)"
proof (induction n arbitrary: i xs)
  case 0
  then show ?case by (auto simp: le_Suc_eq)
next
  case (Suc n)
  show ?case
  proof (cases "Suc i < cnt")
    case False
    then have "cnt = Suc i" using Suc.prems by simp
    then show ?thesis by simp
  next
    case True
    let ?xs = "xs[i := xs ! (i + 1)]"
    have l: "i + 1 < length xs" using True Suc.prems by simp
    have "shift_down xs i cnt (Suc n) = shift_down ?xs (i + 1) cnt n" using True l by (simp add: ith_Some set_ith_def)
    also have "\<dots> = Some (take (i + 1) ?xs @ take (cnt - 1 - (i + 1)) (drop (i + 1 + 1) ?xs) @ drop (cnt - 1) ?xs)"
      using True Suc.prems by (intro Suc.IH) auto
    also have "take (i + 1) ?xs = take i xs @ [xs ! (i + 1)]" using l by (simp add: take_Suc_conv_app_nth)
    also have "drop (i + 1 + 1) ?xs = drop (i + 1 + 1) xs" by simp
    also have "drop (cnt - 1) ?xs = drop (cnt - 1) xs" using True by simp
    also have "(take i xs @ [xs ! (i + 1)]) @ take (cnt - 1 - (i + 1)) (drop (i + 1 + 1) xs) @ drop (cnt - 1) xs =
        take i xs @ take (cnt - 1 - i) (drop (i + 1) xs) @ drop (cnt - 1) xs"
    proof -
      have "cnt - 1 - i = Suc (cnt - 1 - (i + 1))" using True by simp
      then show ?thesis using Cons_nth_drop_Suc[OF l] by (metis (no_types) Suc_eq_plus1 append.assoc append_Cons append_Nil take_Suc_Cons)
    qed
    finally show ?thesis .
  qed
qed

lemma add_to_pool_list_eq:
  assumes ar: "arrays_ok cb" and pid: "pid < POOLS_TOTAL_MAX" and cnt: "m_u8CurrTotalPools cb < POOLS_TOTAL_MAX"
    and l: "\<And>p. p \<in> set (listed cb) \<Longrightarrow> p < POOLS_TOTAL_MAX"
  defines "i \<equiv> length (takeWhile (\<lambda>p. m_u16PackSize (fq cb p) < m_u16PackSize (fq cb pid)) (listed cb))"
  shows "\<exists>l'. add_to_pool_list cb pid = Some (cb\<lparr>m_aucPoolList := l'\<rparr>) \<and> length l' = POOLS_TOTAL_MAX \<and>
    take (m_u8CurrTotalPools cb + 1) l' = take i (listed cb) @ pid # drop i (listed cb)"
proof -
  let ?xs = "m_aucPoolList cb" and ?t = "m_u8CurrTotalPools cb"
  have len: "length ?xs = POOLS_TOTAL_MAX" "length (in_atFreeq cb) = POOLS_TOTAL_MAX" using ar by (auto simp: arrays_ok_def)
  have ll: "length (listed cb) = ?t" using len cnt by (simp add: listed_def)
  have it: "i \<le> ?t" unfolding i_def ll[symmetric] by (rule length_takeWhile_le)
  have "j < length ?xs \<and> ?xs ! j < length (in_atFreeq cb)" if "j < 0 + ?t" for j
  proof -
    have "listed cb ! j = ?xs ! j" "j < length (listed cb)" using that ll by (auto simp: listed_def)
    then have "?xs ! j \<in> set (listed cb)" by (metis nth_mem)
    then show ?thesis using l len that cnt by auto
  qed
  then have pos: "list_pos cb (m_u16PackSize (fq cb pid)) 0 ?t = Some i"
    by (subst list_pos_eq) (simp_all add: i_def listed_def)
  have up: "shift_up ?xs i ?t = Some (take (i + 1) ?xs @ take (?t - i) (drop i ?xs) @ drop (?t + 1) ?xs)"
    by (rule shift_up_eq[OF it]) (use len cnt in simp)
  let ?l = "take (i + 1) ?xs @ take (?t - i) (drop i ?xs) @ drop (?t + 1) ?xs"
  have lenl: "length ?l = POOLS_TOTAL_MAX" using len it cnt by simp
  have t1: "take (i + 1) ?xs = take i ?xs @ [?xs ! i]" using it cnt len by (simp add: take_Suc_conv_app_nth)
  have d: "take (?t - i) (drop i ?xs) = drop i (listed cb)" "take i ?xs = take i (listed cb)"
    using it by (simp_all add: listed_def drop_take)
  have upd: "?l[i := pid] = take i (listed cb) @ pid # drop i (listed cb) @ drop (?t + 1) ?xs"
    unfolding t1 d using it ll by (simp add: list_update_append)
  have "take (?t + 1) (?l[i := pid]) = take i (listed cb) @ pid # drop i (listed cb)"
    unfolding upd using it ll by (simp add: Suc_diff_le)
  moreover have "add_to_pool_list cb pid = Some (cb\<lparr>m_aucPoolList := ?l[i := pid]\<rparr>)"
    unfolding add_to_pool_list_def using pos up pid len lenl it cnt by (simp add: ith_Some set_ith_def)
  ultimately show ?thesis using lenl by (intro exI[of _ "?l[i := pid]"]) simp
qed

lemma sorted_insert_at:
  assumes "sorted (map f xs)" "i = length (takeWhile (\<lambda>p. f p < v) xs)" "f x = v"
  shows "sorted (map f (take i xs @ x # drop i xs))"
proof -
  have t: "take i xs = takeWhile (\<lambda>p. f p < v) xs" "drop i xs = dropWhile (\<lambda>p. f p < v) xs"
    unfolding assms(2) by (rule takeWhile_eq_take[symmetric], rule dropWhile_eq_drop[symmetric])
  have s: "sorted (map f (take i xs))" "sorted (map f (drop i xs))"
    unfolding take_map[symmetric] drop_map[symmetric]
    by (rule sorted_wrt_take[OF assms(1)], rule sorted_wrt_drop[OF assms(1)])
  have lo: "f y < v" if "y \<in> set (take i xs)" for y
    using that unfolding t by (rule set_takeWhileD[THEN conjunct2])
  have hi: "v \<le> f y" if y: "y \<in> set (drop i xs)" for y
  proof (cases "drop i xs")
    case (Cons z zs)
    then have "dropWhile (\<lambda>p. f p < v) xs = z # zs" by (simp only: t(2))
    then have "\<not> f z < v" using hd_dropWhile[of "\<lambda>p. f p < v" xs] by simp
    moreover have "f z \<le> f y" using s(2) y unfolding Cons by auto
    ultimately show ?thesis by simp
  qed (use y in simp)
  have "f y \<le> f z" if "y \<in> set (take i xs)" "z \<in> insert x (set (drop i xs))" for y z
    using lo[OF that(1)] hi[of z] that(2) assms(3) by (cases "z = x") auto
  then show ?thesis using s hi lo unfolding map_append sorted_append by (simp add: assms(3) less_imp_le)
qed

lemma filter_split: "xs = as @ x # bs \<Longrightarrow> distinct xs \<Longrightarrow> filter (\<lambda>y. y \<noteq> x) xs = as @ bs"
proof -
  assume "xs = as @ x # bs" "distinct xs"
  then have "xs = as @ x # bs" "x \<notin> set as" "x \<notin> set bs" by auto
  moreover from this have "filter (\<lambda>y. y \<noteq> x) as = as" "filter (\<lambda>y. y \<noteq> x) bs = bs"
    by (auto intro!: filter_True)
  ultimately show ?thesis by simp
qed

lemma remove_from_pool_list_eq:
  assumes ar: "arrays_ok cb" and cnt: "m_u8CurrTotalPools cb \<le> POOLS_TOTAL_MAX" and p: "pid \<in> set (listed cb)" "distinct (listed cb)"
  shows "\<exists>l'. remove_from_pool_list cb pid = Some (cb\<lparr>m_aucPoolList := l'\<rparr>) \<and> length l' = POOLS_TOTAL_MAX \<and>
    take (m_u8CurrTotalPools cb - 1) l' = filter (\<lambda>x. x \<noteq> pid) (listed cb)"
proof -
  let ?xs = "m_aucPoolList cb" and ?t = "m_u8CurrTotalPools cb"
  let ?i = "length (takeWhile (\<lambda>p. p \<noteq> pid) (listed cb))"
  have len: "length ?xs = POOLS_TOTAL_MAX" using ar by (auto simp: arrays_ok_def)
  have ll: "length (listed cb) = ?t" using len cnt by (simp add: listed_def)
  have "takeWhile (\<lambda>p. p \<noteq> pid) (listed cb) \<noteq> listed cb" using p(1) by (metis set_takeWhileD)
  then have i: "?i < ?t" unfolding ll[symmetric]
    by (metis le_neq_implies_less length_takeWhile_le order_refl take_all takeWhile_eq_take)
  have at: "listed cb ! ?i = pid" using nth_length_takeWhile[of "\<lambda>p. p \<noteq> pid" "listed cb"] i ll by simp
  have find: "list_find ?xs pid 0 ?t = Some ?i"
    by (subst list_find_eq) (use len cnt in \<open>simp_all add: listed_def\<close>)
  let ?l = "take ?i ?xs @ take (?t - 1 - ?i) (drop (?i + 1) ?xs) @ drop (?t - 1) ?xs"
  have down: "shift_down ?xs ?i ?t ?t = Some ?l" by (rule shift_down_eq[OF i]) (use len cnt in simp_all)
  have lenl: "length ?l = POOLS_TOTAL_MAX" using i len cnt by simp
  have d: "take (?t - 1 - ?i) (drop (?i + 1) ?xs) = drop (?i + 1) (listed cb)" "take ?i ?xs = take ?i (listed cb)"
    using i by (simp_all add: listed_def drop_take)
  have split: "listed cb = take ?i (listed cb) @ pid # drop (?i + 1) (listed cb)"
    using id_take_nth_drop[of ?i "listed cb"] i ll at by simp
  have "filter (\<lambda>x. x \<noteq> pid) (listed cb) = take ?i (listed cb) @ drop (?i + 1) (listed cb)"
    by (rule filter_split[OF split p(2)])
  moreover have "take (?t - 1) ?l = take ?i (listed cb) @ drop (?i + 1) (listed cb)"
    unfolding d using i ll by simp
  moreover have "remove_from_pool_list cb pid = Some (cb\<lparr>m_aucPoolList := ?l\<rparr>)"
    by (simp add: remove_from_pool_list_def find down)
  ultimately show ?thesis using lenl by (intro exI[of _ ?l]) simp
qed

subsection \<open>Setting up the buffers\<close>

lemma init_bufs_ok:
  assumes "hdr \<noteq> 0" "act = ts + BUFFER_PADDING_SIZE" "in_block cb hdr (act * n)"
  shows "\<exists>H W. init_bufs nt pid ts act cb hdr hdr1 n =
      Some (cb\<lparr>b_hdrs := H, b_words := W\<rparr>, if n = 0 then hdr1 else hdr + (n - 1) * act) \<and>
    (\<forall>k<n. \<exists>h. H (hdr + k * act) = Some h \<and> m_pNext h = hdr + (k + 1) * act \<and> m_u8PoolId h = pid \<and>
       m_u8Status h = BUF_STATUS_FREE \<and> W (hdr + k * act + BUFFER_HDR_SIZE + ts) = Some MAGIC_NO) \<and>
    (\<forall>a. (\<forall>k<n. a \<noteq> hdr + k * act) \<longrightarrow> H a = b_hdrs cb a) \<and>
    (\<forall>a. (\<forall>k<n. a \<noteq> hdr + k * act + BUFFER_HDR_SIZE + ts) \<longrightarrow> W a = b_words cb a)"
  using assms
proof (induction n arbitrary: cb hdr hdr1)
  case 0
  then show ?case by (intro exI[of _ "b_hdrs cb"] exI[of _ "b_words cb"]) simp
next
  case (Suc n)
  let ?h = "case b_hdrs cb hdr of Some h \<Rightarrow> h | None \<Rightarrow> blank_hdr"
  let ?h1 = "?h\<lparr>m_u8TaskId := nt, m_u8PoolId := pid, m_u8Status := BUF_STATUS_FREE, m_pNext := hdr + act\<rparr>"
  let ?m = "hdr + BUFFER_HDR_SIZE + ts"
  let ?cb = "cb\<lparr>b_hdrs := (b_hdrs cb)(hdr \<mapsto> ?h1), b_words := (b_words cb)(?m \<mapsto> MAGIC_NO)\<rparr>"
  have act: "0 < act" "BUFFER_HDR_SIZE + ts + 4 = act" using Suc.prems(2) by (simp_all add: pool_sizes)
  have g: "in_block cb hdr BUFFER_HDR_SIZE" "in_block cb ?m 4" "in_block cb (hdr + act) (act * n)"
    using act by (auto intro!: in_block_sub[OF _ _ Suc.prems(3)])
  have "in_block ?cb (hdr + act) (act * n)" using g(3) by (simp add: in_block_def)
  from Suc.IH[OF _ Suc.prems(2) this, of hdr] obtain H W where I:
    "init_bufs nt pid ts act ?cb (hdr + act) hdr n = Some (?cb\<lparr>b_hdrs := H, b_words := W\<rparr>, if n = 0 then hdr else hdr + act + (n - 1) * act)"
    "\<forall>k<n. \<exists>h. H (hdr + act + k * act) = Some h \<and> m_pNext h = hdr + act + (k + 1) * act \<and> m_u8PoolId h = pid \<and>
       m_u8Status h = BUF_STATUS_FREE \<and> W (hdr + act + k * act + BUFFER_HDR_SIZE + ts) = Some MAGIC_NO"
    "\<forall>a. (\<forall>k<n. a \<noteq> hdr + act + k * act) \<longrightarrow> H a = b_hdrs ?cb a"
    "\<forall>a. (\<forall>k<n. a \<noteq> hdr + act + k * act + BUFFER_HDR_SIZE + ts) \<longrightarrow> W a = b_words ?cb a"
    using Suc.prems(1) by auto
  have shift: "hdr + act + k * act = hdr + Suc k * act" for k by simp
  have init: "init_bufs nt pid ts act cb hdr hdr1 (Suc n) = Some (cb\<lparr>b_hdrs := H, b_words := W\<rparr>, hdr + n * act)"
  proof -
    have "(if n = 0 then hdr else hdr + act + (n - 1) * act) = hdr + n * act" by (cases n) simp_all
    with I(1) show ?thesis using Suc.prems(1) g(1,2) by (simp add: Let_def)
  qed
  have H0: "H hdr = Some ?h1" using I(3)[rule_format, of hdr] act(1) by simp
  have W0: "W ?m = Some MAGIC_NO" using I(4)[rule_format, of ?m] act(1) by simp
  show ?case
  proof (intro exI[of _ H] exI[of _ W] conjI allI impI)
    show "init_bufs nt pid ts act cb hdr hdr1 (Suc n) =
        Some (cb\<lparr>b_hdrs := H, b_words := W\<rparr>, if Suc n = 0 then hdr1 else hdr + (Suc n - 1) * act)"
      using init by simp
    show "\<exists>h. H (hdr + k * act) = Some h \<and> m_pNext h = hdr + (k + 1) * act \<and> m_u8PoolId h = pid \<and>
       m_u8Status h = BUF_STATUS_FREE \<and> W (hdr + k * act + BUFFER_HDR_SIZE + ts) = Some MAGIC_NO" if "k < Suc n" for k
    proof (cases k)
      case 0
      then show ?thesis using H0 W0 by simp
    next
      case (Suc j)
      then have "j < n" using that by simp
      from I(2)[rule_format, OF this] show ?thesis unfolding Suc by (simp only: shift) simp
    qed
    show "H a = b_hdrs cb a" if a: "\<forall>k<Suc n. a \<noteq> hdr + k * act" for a
    proof -
      have "\<forall>k<n. a \<noteq> hdr + act + k * act" unfolding shift using a by blast
      moreover have "a \<noteq> hdr" using a by fastforce
      ultimately show ?thesis using I(3) by simp
    qed
    show "W a = b_words cb a" if a: "\<forall>k<Suc n. a \<noteq> hdr + k * act + BUFFER_HDR_SIZE + ts" for a
    proof -
      have "\<forall>k<n. a \<noteq> hdr + act + k * act + BUFFER_HDR_SIZE + ts" unfolding shift using a by blast
      moreover have "a \<noteq> ?m" using a by fastforce
      ultimately show ?thesis using I(4) by simp
    qed
  qed
qed

lemma linked_map:
  assumes "\<And>k. k < n \<Longrightarrow> f k \<noteq> 0" "\<And>k. k < n \<Longrightarrow> nx (f k) = Some (if k + 1 < n then f (k + 1) else 0)"
  shows "i < n \<Longrightarrow> linked nx (f i) (map f [i..<n])"
proof (induction "n - i" arbitrary: i)
  case (Suc d)
  have u: "[i..<n] = i # [i + 1..<n]" using Suc.prems by (simp add: upt_conv_Cons)
  show ?case
  proof (cases "i + 1 < n")
    case True
    then have "linked nx (f (i + 1)) (map f [i + 1..<n])" using Suc.hyps by (intro Suc.hyps(1)) auto
    then show ?thesis unfolding u using assms[OF Suc.prems] True by simp
  next
    case False
    then have "[i + 1..<n] = []" by simp
    then show ?thesis unfolding u using assms[OF Suc.prems] False by simp
  qed
qed simp

text \<open>No magic word of a pool is damaged.\<close>

definition intact :: "T_AkiBuffer \<Rightarrow> bool" where
  "intact cb \<longleftrightarrow> (\<forall>pid<POOLS_TOTAL_MAX. \<forall>p\<in>set (bufs cb pid). b_words cb (magic_at cb pid p) = Some MAGIC_NO)"

definition others_same :: "T_AkiBuffer \<Rightarrow> T_AkiBuffer \<Rightarrow> nat \<Rightarrow> bool" where
  "others_same cb' cb pid \<longleftrightarrow> m_aucPoolList cb' = m_aucPoolList cb \<and> m_u8CurrTotalPools cb' = m_u8CurrTotalPools cb \<and>
     m_u16PoolAccessMask cb' = m_u16PoolAccessMask cb \<and> b_blocks cb' = b_blocks cb \<and>
     (\<forall>j. j \<noteq> pid \<longrightarrow> fq cb' j = fq cb j \<and> pstart cb' j = pstart cb j \<and> pend cb' j = pend cb j \<and> psize cb' j = psize cb j)"

definition elsewhere :: "T_AkiBuffer \<Rightarrow> T_AkiBuffer \<Rightarrow> nat \<Rightarrow> bool" where
  "elsewhere cb' cb pid \<longleftrightarrow> b_blocks cb' = b_blocks cb \<and>
     (\<forall>j. j \<noteq> pid \<longrightarrow> fq cb' j = fq cb j \<and> pstart cb' j = pstart cb j \<and> pend cb' j = pend cb j \<and> psize cb' j = psize cb j)"

definition free_space :: "T_AkiBuffer \<Rightarrow> addr \<Rightarrow> nat \<Rightarrow> bool" where
  "free_space cb p n \<longleftrightarrow> p \<noteq> 0 \<and> 4 dvd p \<and> in_block cb p n \<and>
     (\<forall>j<POOLS_TOTAL_MAX. pstart cb j \<noteq> 0 \<longrightarrow> pend cb j \<le> p \<or> p + n \<le> pstart cb j)"

lemma ALIGN_SIZE_bounds: "sz \<le> ALIGN_SIZE sz" "ALIGN_SIZE sz < sz + 4" "4 dvd ALIGN_SIZE sz"
  by (auto simp: ALIGN_SIZE_def)

lemma init_free_queue_ok:
  assumes inv: "bp_pools cb F" and pid: "pid < POOLS_TOTAL_MAX" "pstart cb pid = 0"
    and sz: "0 < sz" "sz \<le> 65520" and n: "0 < n" "n < 2 ^ 16"
    and sp: "free_space cb p ((ALIGN_SIZE sz + BUFFER_PADDING_SIZE) * n)"
  shows "\<exists>cb'. init_free_queue nt cb pid sz n p = Some cb' \<and> bp_pools cb' (F(pid := bufs cb' pid)) \<and> others_same cb' cb pid \<and>
    pstart cb' pid = p \<and> pend cb' pid = p + (ALIGN_SIZE sz + BUFFER_PADDING_SIZE) * n \<and>
    m_u16PackSize (fq cb' pid) = ALIGN_SIZE sz \<and> m_u16PackTotal (fq cb' pid) = n \<and> (intact cb \<longrightarrow> intact cb')"
proof -
  let ?ts = "ALIGN_SIZE sz" let ?act = "?ts + BUFFER_PADDING_SIZE"
  have ar: "arrays_ok cb" by (rule bp_poolsD(1)[OF inv])
  then have len: "length (in_atFreeq cb) = POOLS_TOTAL_MAX" "length (m_apPoolStart cb) = POOLS_TOTAL_MAX"
    "length (m_apPoolEnd cb) = POOLS_TOTAL_MAX" "length (m_ausPoolSize cb) = POOLS_TOTAL_MAX"
    by (auto simp: arrays_ok_def)
  have d4: "4 dvd ?ts" by (rule ALIGN_SIZE_bounds)
  have "?ts \<le> 65520"
  proof -
    have "(sz + 3) div 4 \<le> 16380" using sz(2) by simp
    then show ?thesis by (simp add: ALIGN_SIZE_def)
  qed
  then have act: "u16 ?act = ?act" "u16 ?ts = ?ts" "?act < 2 ^ 16" "0 < ?act"
    by (simp_all add: c_arith pool_sizes)
  have p: "p \<noteq> 0" "4 dvd p" "in_block cb p (?act * n)" using sp by (auto simp: free_space_def)
  let ?cb2 = "cb\<lparr>m_apPoolStart := (m_apPoolStart cb)[pid := p], m_apPoolEnd := (m_apPoolEnd cb)[pid := p + ?act * n],
    m_ausPoolSize := (m_ausPoolSize cb)[pid := ?act]\<rparr>"
  have blk: "in_block ?cb2 p (?act * n)" using p(3) by (simp add: in_block_def)
  from init_bufs_ok[OF p(1) refl blk, of nt pid 0] n(1) obtain H W where I:
    "init_bufs nt pid ?ts ?act ?cb2 p 0 n = Some (?cb2\<lparr>b_hdrs := H, b_words := W\<rparr>, p + (n - 1) * ?act)"
    "\<And>k. k < n \<Longrightarrow> \<exists>h. H (p + k * ?act) = Some h \<and> m_pNext h = p + (k + 1) * ?act \<and> m_u8PoolId h = pid \<and>
       m_u8Status h = BUF_STATUS_FREE \<and> W (p + k * ?act + BUFFER_HDR_SIZE + ?ts) = Some MAGIC_NO"
    "\<And>a. (\<forall>k<n. a \<noteq> p + k * ?act) \<Longrightarrow> H a = b_hdrs cb a"
    "\<And>a. (\<forall>k<n. a \<noteq> p + k * ?act + BUFFER_HDR_SIZE + ?ts) \<Longrightarrow> W a = b_words cb a"
    by auto
  let ?cb3 = "?cb2\<lparr>b_hdrs := H, b_words := W\<rparr>"
  let ?last = "p + (n - 1) * ?act"
  obtain hl where hl: "H ?last = Some hl" "m_u8PoolId hl = pid" "m_u8Status hl = BUF_STATUS_FREE" using I(2)[of "n - 1"] n(1) by auto
  have inb: "p + k * ?act + ?act \<le> p + ?act * n" if "k < n" for k
  proof -
    have "(k + 1) * ?act \<le> n * ?act" using that by (intro mult_le_mono1) simp
    then show ?thesis by (simp add: algebra_simps)
  qed
  have "in_block cb ?last BUFFER_HDR_SIZE"
    by (rule in_block_sub[OF _ _ p(3)]) (use inb[of "n - 1"] n(1) in \<open>simp_all add: pool_sizes\<close>)
  then have rl: "rd_hdr ?cb3 ?last = Some hl" using hl(1) p(1) by (simp add: rd_hdr_def in_block_def)
  let ?q = "(fq cb pid)\<lparr>m_u16PackSize := ?ts, m_u16PackTotal := n, m_u16PackCurCnt := 0, m_u16PackMaxCnt := 0,
    in_pFirst := p, in_pLast := ?last\<rparr>"
  let ?H = "H(?last \<mapsto> hl\<lparr>m_pNext := 0\<rparr>)"
  let ?cb4 = "?cb3\<lparr>b_hdrs := ?H, in_atFreeq := (in_atFreeq cb)[pid := ?q]\<rparr>"
  have run: "init_free_queue nt cb pid sz n p = Some ?cb4"
    using pid p(1) len(1) act I(1) upd_hdr_Some[OF rl]
    by (simp add: init_free_queue_def Let_def ith_Some)
  have new: "fq ?cb4 pid = ?q" "pstart ?cb4 pid = p" "pend ?cb4 pid = p + ?act * n" "psize ?cb4 pid = ?act"
    using pid len by simp_all
  have oth: "others_same ?cb4 cb pid" using pid by (simp add: others_same_def)
  have at: "buf_at ?cb4 pid = (\<lambda>k. p + k * ?act)" using new by (intro ext) (simp add: buf_at_def)
  have bufs: "bufs ?cb4 pid = map (\<lambda>k. p + k * ?act) [0..<n]" unfolding bufs_def at new(1) by simp
  have inj: "inj_on (\<lambda>k. p + k * ?act) {0..<n}" using act(4) by (auto simp: inj_on_def)
  have own: "bp_pool ?cb4 pid (bufs ?cb4 pid)"
  proof -
    have "pool_mem_ok ?cb4 pid"
      unfolding pool_mem_ok_def new using p d4 act n sz ALIGN_SIZE_bounds(1)[of sz]
      by (simp add: in_block_def)
    moreover have "linked (hdr_next ?cb4) p (bufs ?cb4 pid)"
    proof -
      have "linked (hdr_next ?cb4) (p + 0 * ?act) (map (\<lambda>k. p + k * ?act) [0..<n])"
      proof (rule linked_map)
        show "hdr_next ?cb4 (p + k * ?act) = Some (if k + 1 < n then p + (k + 1) * ?act else 0)" if "k < n" for k
        proof (cases "k = n - 1")
          case False
          then have "p + k * ?act \<noteq> ?last" using act(4) by simp
          then show ?thesis using I(2)[OF that] False that by (auto simp: hdr_next_def)
        qed (use that in \<open>simp add: hdr_next_def\<close>)
      qed (use p(1) n(1) in simp_all)
      then show ?thesis unfolding bufs by simp
    qed
    then have "queue_ok ?cb4 pid (bufs ?cb4 pid)"
      unfolding queue_ok_def new bufs using n(1) inj by (simp add: distinct_map last_map)
    moreover have "buf_ok ?cb4 pid (bufs ?cb4 pid) h" if "h \<in> set (bufs ?cb4 pid)" for h
    proof -
      obtain k where k: "k < n" "h = p + k * ?act" using \<open>h \<in> _\<close> unfolding bufs by auto
      show ?thesis using I(2)[OF k(1)] hl that unfolding buf_ok_def magic_at_def new k(2) by auto
    qed
    ultimately show ?thesis using p(1) new by (simp add: bp_pool_def)
  qed
  have far: "h \<noteq> p + k * ?act \<and> magic_at cb j h \<noteq> p + k * ?act + BUFFER_HDR_SIZE + ?ts"
    if j: "j < POOLS_TOTAL_MAX" and h: "h \<in> set (bufs cb j)" and k: "k < n" for j h k
  proof -
    note R = buf_range[OF bp_poolsD(2)[OF inv j] h]
    have "pend cb j \<le> p \<or> p + ?act * n \<le> pstart cb j"
      using sp j bufs_live[OF bp_poolsD(2)[OF inv j] h] by (auto simp: free_space_def)
    then show ?thesis using R(2,3,5) inb[OF k] act(4) unfolding magic_at_def pool_sizes by linarith
  qed
  have words: "b_words ?cb4 (magic_at cb j h) = b_words cb (magic_at cb j h)"
    if "j < POOLS_TOTAL_MAX" "h \<in> set (bufs cb j)" for j h
    using I(4)[of "magic_at cb j h"] far[OF that] by simp
  have rest: "bp_pool ?cb4 j (F j)" if j: "j < POOLS_TOTAL_MAX" "j \<noteq> pid" for j
  proof (rule bp_pool_frame[OF bp_poolsD(2)[OF inv j(1)]])
    fix h assume h: "h \<in> set (bufs cb j)"
    have "\<forall>k<n. h \<noteq> p + k * ?act" using far[OF j(1) h] by blast
    moreover from this have "h \<noteq> ?last" using n(1) by simp
    ultimately show "b_hdrs ?cb4 h = b_hdrs cb h" using I(3) by simp
    show "b_words ?cb4 (magic_at cb j h) = b_words cb (magic_at cb j h)" by (rule words[OF j(1) h])
  qed (use oth j in \<open>simp_all add: others_same_def\<close>)
  have "intact ?cb4" if int: "intact cb"
  proof -
    have "b_words ?cb4 (magic_at ?cb4 j h) = Some MAGIC_NO" if j: "j < POOLS_TOTAL_MAX" and h: "h \<in> set (bufs ?cb4 j)" for j h
    proof (cases "j = pid")
      case True
      then obtain k where k: "k < n" "h = p + k * ?act" using h unfolding True bufs by auto
      show ?thesis unfolding True magic_at_def new k(2) using I(2)[OF k(1)] by auto
    next
      case False
      have e: "bufs ?cb4 j = bufs cb j" "magic_at ?cb4 j h = magic_at cb j h"
        using oth False by (auto simp: others_same_def bufs_def buf_at_def magic_at_def)
      show ?thesis using int words[OF j] j h unfolding e intact_def by simp
    qed
    then show ?thesis unfolding intact_def by blast
  qed
  note int = this
  have ap: "apart ?cb4 i j" if ij: "i < POOLS_TOTAL_MAX" "j < POOLS_TOTAL_MAX" "i \<noteq> j" for i j
  proof -
    have far: "pstart cb j = 0 \<or> pend cb j \<le> p \<or> p + ?act * n \<le> pstart cb j" if "j < POOLS_TOTAL_MAX" for j
      using sp that unfolding free_space_def by blast
    have o: "pstart ?cb4 k = pstart cb k" "pend ?cb4 k = pend cb k" if "k \<noteq> pid" for k
      using oth that by (auto simp: others_same_def)
    show ?thesis
    proof (cases "i = pid")
      case True
      then have "j \<noteq> pid" using ij(3) by simp
      then show ?thesis unfolding apart_def True new using far[OF ij(2)] o[of j] by auto
    next
      case i: False
      show ?thesis
      proof (cases "j = pid")
        case True
        then show ?thesis unfolding apart_def True new using far[OF ij(1)] o[OF i] by auto
      next
        case False
        show ?thesis using bp_poolsD(3)[OF inv ij] unfolding apart_def o[OF i] o[OF False] .
      qed
    qed
  qed
  have "bp_pool ?cb4 j ((F(pid := bufs ?cb4 pid)) j)" if "j < POOLS_TOTAL_MAX" for j
    using own rest[OF that] by (cases "j = pid") (simp_all only: fun_upd_same fun_upd_other not_False_eq_True)
  moreover have "arrays_ok ?cb4" using ar by (simp add: arrays_ok_def)
  ultimately have "bp_pools ?cb4 (F(pid := bufs ?cb4 pid))" using ap unfolding bp_pools_def by blast
  moreover have "m_u16PackSize (fq ?cb4 pid) = ?ts" "m_u16PackTotal (fq ?cb4 pid) = n" unfolding new by simp_all
  ultimately show ?thesis using run oth new(2,3) int by blast
qed

subsection \<open>Adding and deleting a pool\<close>

lemma bp_pool_cong:
  assumes "in_atFreeq cb' = in_atFreeq cb" "m_apPoolStart cb' = m_apPoolStart cb" "m_apPoolEnd cb' = m_apPoolEnd cb"
    "m_ausPoolSize cb' = m_ausPoolSize cb" "b_hdrs cb' = b_hdrs cb" "b_words cb' = b_words cb" "b_blocks cb' = b_blocks cb"
  shows "bp_pool cb pid fs \<Longrightarrow> bp_pool cb' pid fs"
  by (rule bp_pool_frame) (simp_all add: assms)

lemma bufs_cong:
  "fq cb' pid = fq cb pid \<Longrightarrow> pstart cb' pid = pstart cb pid \<Longrightarrow> psize cb' pid = psize cb pid \<Longrightarrow> bufs cb' pid = bufs cb pid"
  by (simp add: bufs_def buf_at_def)

lemma restricted_bit: "restricted cb pid = bit (m_u16PoolAccessMask cb) pid"
  by (simp add: restricted_def push_bit_of_1 and_exp_eq_0_iff_not_bit and.commute[of "2 ^ pid"])

lemma restricted_set:
  "pid < POOLS_TOTAL_MAX \<Longrightarrow> i < POOLS_TOTAL_MAX \<Longrightarrow>
   restricted (pool_set_permission cb pid perm) i = (if i = pid then perm = POOL_RESTRICTED else restricted cb i)"
  by (auto simp: restricted_bit pool_set_permission_def bit_or_iff bit_and_iff bit_not_iff bit_exp_iff pool_sizes)

lemma pools_below: "bp_inv cb F \<Longrightarrow> pid < POOLS_TOTAL_MAX \<Longrightarrow> pstart cb pid = 0 \<Longrightarrow> m_u8CurrTotalPools cb < POOLS_TOTAL_MAX"
proof -
  assume inv: "bp_inv cb F" and pid: "pid < POOLS_TOTAL_MAX" "pstart cb pid = 0"
  have l: "distinct (listed cb)" "set (listed cb) = {i. i < POOLS_TOTAL_MAX \<and> pstart cb i \<noteq> 0}" "m_u8CurrTotalPools cb \<le> POOLS_TOTAL_MAX"
    using bp_invD(2)[OF inv] unfolding list_ok_def by blast+
  have "length (m_aucPoolList cb) = POOLS_TOTAL_MAX" using bp_invD(1)[OF inv] by (simp add: arrays_ok_def)
  then have "m_u8CurrTotalPools cb = length (listed cb)" using l(3) unfolding listed_def by simp
  moreover have "length (listed cb) = card (set (listed cb))" by (rule distinct_card[OF l(1), symmetric])
  moreover have "set (listed cb) \<subset> {..<POOLS_TOTAL_MAX}" unfolding l(2) using pid by blast
  from psubset_card_mono[OF _ this] have "card (set (listed cb)) < POOLS_TOTAL_MAX" by simp
  ultimately show ?thesis by simp
qed

lemma distinct_insert_at: "distinct (as @ bs) \<Longrightarrow> x \<notin> set (as @ bs) \<Longrightarrow> distinct (as @ x # bs)"
  by auto

lemma add_pool_ok:
  assumes inv: "bp_inv cb F" and pid: "pid < POOLS_TOTAL_MAX" "pstart cb pid = 0"
    and sz: "0 < sz" "sz \<le> 65520" and n: "0 < n" "n < 2 ^ 16"
    and sp: "free_space cb p ((ALIGN_SIZE sz + BUFFER_PADDING_SIZE) * n)"
  shows "\<exists>cb'. add_pool nt cb pid sz n p perm = Some cb' \<and> bp_inv cb' (F(pid := bufs cb' pid)) \<and>
    pstart cb' pid = p \<and> length (bufs cb' pid) = n \<and> m_u16PackSize (fq cb' pid) = ALIGN_SIZE sz \<and>
    set (listed cb') = insert pid (set (listed cb)) \<and>
    (\<forall>i<POOLS_TOTAL_MAX. restricted cb' i = (if i = pid then perm = POOL_RESTRICTED else restricted cb i)) \<and>
    (intact cb \<longrightarrow> intact cb') \<and> elsewhere cb' cb pid"
proof -
  obtain cb1 where I: "init_free_queue nt cb pid sz n p = Some cb1" "bp_pools cb1 (F(pid := bufs cb1 pid))" "others_same cb1 cb pid"
    "pstart cb1 pid = p" "pend cb1 pid = p + (ALIGN_SIZE sz + BUFFER_PADDING_SIZE) * n"
    "m_u16PackSize (fq cb1 pid) = ALIGN_SIZE sz" "m_u16PackTotal (fq cb1 pid) = n" "intact cb \<Longrightarrow> intact cb1"
    using init_free_queue_ok[OF bp_invD(5)[OF inv] pid sz n sp, of nt] by blast
  note ar1 = bp_poolsD(1)[OF I(2)]
  note L = bp_invD(2)[OF inv]
  have cnt: "m_u8CurrTotalPools cb < POOLS_TOTAL_MAX" by (rule pools_below[OF inv pid])
  have listed: "listed cb1 = listed cb" "m_u8CurrTotalPools cb1 = m_u8CurrTotalPools cb"
    using I(3) by (auto simp: listed_def others_same_def)
  have oth: "fq cb1 j = fq cb j" "pstart cb1 j = pstart cb j" "pend cb1 j = pend cb j" if "j \<noteq> pid" for j
    using I(3) that by (auto simp: others_same_def)
  let ?i = "length (takeWhile (\<lambda>q. m_u16PackSize (fq cb1 q) < m_u16PackSize (fq cb1 pid)) (listed cb))"
  have "m_u8CurrTotalPools cb1 < POOLS_TOTAL_MAX" "\<And>q. q \<in> set (listed cb1) \<Longrightarrow> q < POOLS_TOTAL_MAX"
    using cnt L listed by (auto simp: list_ok_def)
  from add_to_pool_list_eq[OF ar1 pid(1) this] obtain l where
    A: "add_to_pool_list cb1 pid = Some (cb1\<lparr>m_aucPoolList := l\<rparr>)" "length l = POOLS_TOTAL_MAX"
      "take (m_u8CurrTotalPools cb + 1) l = take ?i (listed cb) @ pid # drop ?i (listed cb)"
    unfolding listed by blast
  let ?cb3 = "pool_set_permission (cb1\<lparr>m_aucPoolList := l\<rparr>) pid perm"
  let ?cb = "?cb3\<lparr>m_u8CurrTotalPools := m_u8CurrTotalPools cb + 1\<rparr>"
  have flds: "in_atFreeq ?cb = in_atFreeq cb1" "m_apPoolStart ?cb = m_apPoolStart cb1" "m_apPoolEnd ?cb = m_apPoolEnd cb1"
    "m_ausPoolSize ?cb = m_ausPoolSize cb1" "b_hdrs ?cb = b_hdrs cb1" "b_words ?cb = b_words cb1" "b_blocks ?cb = b_blocks cb1"
    "m_aucPoolList ?cb = l" "m_u8CurrTotalPools ?cb = m_u8CurrTotalPools cb + 1"
    by (simp_all add: pool_set_permission_def)
  have run: "add_pool nt cb pid sz n p perm = Some ?cb"
    using cnt listed(2) by (simp add: add_pool_def I(1) A(1) pool_set_permission_def Let_def u8n_def pool_sizes)
  have ls: "listed ?cb = take ?i (listed cb) @ pid # drop ?i (listed cb)" unfolding listed_def[of ?cb] flds by (rule A(3))
  then have sls: "set (listed ?cb) = insert pid (set (listed cb))"
    by (metis Un_insert_right append_take_drop_id list.simps(15) set_append)
  have sl: "pid \<notin> set (listed cb)" using L pid(2) by (auto simp: list_ok_def)
  have live: "set (listed ?cb) = {j. j < POOLS_TOTAL_MAX \<and> pstart cb1 j \<noteq> 0}"
  proof -
    have "p \<noteq> 0" using sp by (simp add: free_space_def)
    moreover have pj: "pstart cb1 j = (if j = pid then p else pstart cb j)" for j using oth(2) I(4) by simp
    ultimately show ?thesis unfolding sls pj using L pid by (auto simp: list_ok_def)
  qed
  have dis: "distinct (listed ?cb)"
    unfolding ls by (rule distinct_insert_at) (use L sl in \<open>simp_all add: list_ok_def\<close>)
  have "map (\<lambda>q. m_u16PackSize (fq cb1 q)) (listed cb) = map (\<lambda>q. m_u16PackSize (fq cb q)) (listed cb)"
    using sl oth(1) by (intro map_cong refl) metis
  then have "sorted (map (\<lambda>q. m_u16PackSize (fq cb1 q)) (listed cb))" using L by (simp only: list_ok_def)
  from sorted_insert_at[OF this refl refl] have srt: "sorted (map (\<lambda>q. m_u16PackSize (fq cb1 q)) (listed ?cb))"
    unfolding ls .
  have "list_ok ?cb"
    unfolding list_ok_def flds using dis live srt cnt by (intro conjI) (assumption | linarith)+
  moreover have "arrays_ok ?cb" using ar1 A(2) unfolding arrays_ok_def flds by simp
  moreover have "bp_pool ?cb j ((F(pid := bufs ?cb pid)) j)" if j: "j < POOLS_TOTAL_MAX" for j
  proof (rule bp_pool_cong[OF flds(1-7)])
    have "bufs ?cb pid = bufs cb1 pid" by (rule bufs_cong) (simp_all only: flds)
    then show "bp_pool cb1 j ((F(pid := bufs ?cb pid)) j)" using bp_poolsD(2)[OF I(2) j] by simp
  qed
  moreover have "apart ?cb i j" if ij: "i < POOLS_TOTAL_MAX" "j < POOLS_TOTAL_MAX" "i \<noteq> j" for i j
    using bp_poolsD(3)[OF I(2) ij] unfolding apart_def flds .
  ultimately have "bp_inv ?cb (F(pid := bufs ?cb pid))" unfolding bp_inv_def bp_pools_def by blast
  moreover have "restricted ?cb i = (if i = pid then perm = POOL_RESTRICTED else restricted cb i)" if "i < POOLS_TOTAL_MAX" for i
    using restricted_set[OF pid(1) that, of "cb1\<lparr>m_aucPoolList := l\<rparr>" perm] I(3)
    by (simp add: restricted_bit others_same_def)
  moreover have "length (bufs ?cb pid) = n" using I(7) unfolding bufs_def flds by simp
  moreover have "pstart ?cb pid = p" "m_u16PackSize (fq ?cb pid) = ALIGN_SIZE sz" unfolding flds using I(4,6) by simp_all
  moreover have "intact ?cb" if "intact cb"
  proof -
    have "bufs ?cb j = bufs cb1 j" "magic_at ?cb j h = magic_at cb1 j h" for j h
      by (rule bufs_cong, simp_all only: flds, simp only: magic_at_def flds)
    then show ?thesis using I(8)[OF that] unfolding intact_def by (simp only: flds)
  qed
  moreover have "elsewhere ?cb cb pid" using I(3) unfolding elsewhere_def others_same_def flds by blast
  ultimately show ?thesis using run sls by blast
qed

lemma delete_pool_ok:
  assumes inv: "bp_inv cb F" and pid: "pid < POOLS_TOTAL_MAX" "pstart cb pid \<noteq> 0" and idle: "m_u16PackCurCnt (fq cb pid) = 0"
  shows "\<exists>cb'. delete_pool cb pid = Some (cb', pstart cb pid) \<and> bp_inv cb' (F(pid := [])) \<and> pstart cb' pid = 0 \<and>
    listed cb' = filter (\<lambda>x. x \<noteq> pid) (listed cb) \<and> elsewhere cb' cb pid \<and> b_words cb' = b_words cb"
proof -
  have ar: "arrays_ok cb" by (rule bp_invD(1)[OF inv])
  then have len: "length (in_atFreeq cb) = POOLS_TOTAL_MAX" "length (m_apPoolStart cb) = POOLS_TOTAL_MAX"
    "length (m_apPoolEnd cb) = POOLS_TOTAL_MAX" "length (m_ausPoolSize cb) = POOLS_TOTAL_MAX" "length (m_aucPoolList cb) = POOLS_TOTAL_MAX"
    by (auto simp: arrays_ok_def)
  have L: "m_u8CurrTotalPools cb \<le> POOLS_TOTAL_MAX" "distinct (listed cb)"
    "set (listed cb) = {i. i < POOLS_TOTAL_MAX \<and> pstart cb i \<noteq> 0}"
    "sorted (map (\<lambda>q. m_u16PackSize (fq cb q)) (listed cb))"
    using bp_invD(2)[OF inv] unfolding list_ok_def by blast+
  let ?cb1 = "clear_pool (cb\<lparr>in_atFreeq := (in_atFreeq cb)[pid := empty_freeq]\<rparr>) pid"
  have l1: "listed ?cb1 = listed cb" "m_u8CurrTotalPools ?cb1 = m_u8CurrTotalPools cb"
    by (simp_all add: clear_pool_def listed_def)
  have inl: "pid \<in> set (listed cb)" unfolding L(3) using pid by blast
  have "arrays_ok ?cb1" using ar by (simp add: arrays_ok_def clear_pool_def)
  from remove_from_pool_list_eq[OF this, of pid] L(1,2) inl l1 obtain l where
    A: "remove_from_pool_list ?cb1 pid = Some (?cb1\<lparr>m_aucPoolList := l\<rparr>)" "length l = POOLS_TOTAL_MAX"
      "take (m_u8CurrTotalPools cb - 1) l = filter (\<lambda>x. x \<noteq> pid) (listed cb)" by auto
  let ?cb = "?cb1\<lparr>m_aucPoolList := l, m_u8CurrTotalPools := m_u8CurrTotalPools cb - 1\<rparr>"
  have flds: "in_atFreeq ?cb = (in_atFreeq cb)[pid := empty_freeq]" "m_apPoolStart ?cb = (m_apPoolStart cb)[pid := 0]"
    "m_apPoolEnd ?cb = (m_apPoolEnd cb)[pid := 0]" "m_ausPoolSize ?cb = (m_ausPoolSize cb)[pid := 0]"
    "b_hdrs ?cb = b_hdrs cb" "b_words ?cb = b_words cb" "b_blocks ?cb = b_blocks cb"
    "m_aucPoolList ?cb = l" "m_u8CurrTotalPools ?cb = m_u8CurrTotalPools cb - 1"
    by (simp_all add: clear_pool_def)
  have "listed cb \<noteq> []" using inl by auto
  then have cnt: "1 \<le> m_u8CurrTotalPools cb" by (cases "m_u8CurrTotalPools cb") (simp_all add: listed_def)
  then have dec: "u8n (m_u8CurrTotalPools cb + 255) = m_u8CurrTotalPools cb - 1"
  proof -
    obtain t where t: "m_u8CurrTotalPools cb = Suc t" using cnt by (cases "m_u8CurrTotalPools cb") auto
    then have "t < 256" using L(1) by (simp add: pool_sizes)
    moreover have "(t + 256) mod 256 = t mod 256" by (rule mod_add_self2)
    ultimately show ?thesis unfolding u8n_def t by simp
  qed
  have run: "delete_pool cb pid = Some (?cb, pstart cb pid)"
    using pid idle len dec A(1) l1 by (simp add: delete_pool_def ith_Some)
  have ls: "listed ?cb = filter (\<lambda>x. x \<noteq> pid) (listed cb)" unfolding listed_def[of ?cb] flds by (rule A(3))
  have oth: "fq ?cb j = fq cb j" "pstart ?cb j = pstart cb j" "pend ?cb j = pend cb j" "psize ?cb j = psize cb j"
    if "j \<noteq> pid" for j unfolding flds using that by simp_all
  have own: "fq ?cb pid = empty_freeq" "pstart ?cb pid = 0" "pend ?cb pid = 0" "psize ?cb pid = 0"
    unfolding flds using pid len by simp_all
  have "bp_pool ?cb j ((F(pid := [])) j)" if j: "j < POOLS_TOTAL_MAX" for j
  proof (cases "j = pid")
    case True
    show ?thesis unfolding True bp_pool_def own by simp
  next
    case False
    have "bp_pool ?cb j (F j)"
      by (rule bp_pool_frame[OF bp_invD(3)[OF inv j]]) (rule oth[OF False] | simp only: flds order_refl)+
    with False show ?thesis by simp
  qed
  moreover have "apart ?cb i j" if ij: "i < POOLS_TOTAL_MAX" "j < POOLS_TOTAL_MAX" "i \<noteq> j" for i j
  proof (cases "i = pid \<or> j = pid")
    case True
    then show ?thesis unfolding apart_def using own(2) by blast
  next
    case False
    then show ?thesis unfolding apart_def using bp_invD(4)[OF inv ij] oth[of i] oth[of j] unfolding apart_def by simp
  qed
  moreover have "list_ok ?cb"
  proof -
    have "set (listed ?cb) = {i. i < POOLS_TOTAL_MAX \<and> pstart ?cb i \<noteq> 0}"
    proof -
      have pj: "pstart ?cb i = (if i = pid then 0 else pstart cb i)" for i using own(2) oth(2)[of i] by (cases "i = pid") simp_all
      show ?thesis unfolding ls set_filter L(3) pj by auto
    qed
    moreover have "map (\<lambda>q. m_u16PackSize (fq ?cb q)) (listed ?cb) = map (\<lambda>q. m_u16PackSize (fq cb q)) (listed ?cb)"
    proof (rule map_cong[OF refl])
      fix q assume "q \<in> set (listed ?cb)"
      then have "q \<noteq> pid" unfolding ls by simp
      from oth(1)[OF this] show "m_u16PackSize (fq ?cb q) = m_u16PackSize (fq cb q)" by (rule arg_cong)
    qed
    moreover have "sorted (map (\<lambda>q. m_u16PackSize (fq cb q)) (listed ?cb))"
      unfolding ls using L(4) by (rule sorted_filter)
    moreover have "distinct (listed ?cb)" unfolding ls using L(2) by simp
    moreover have "m_u8CurrTotalPools ?cb \<le> POOLS_TOTAL_MAX" unfolding flds using L(1) by simp
    ultimately show ?thesis unfolding list_ok_def by (simp only:)
  qed
  moreover have "arrays_ok ?cb" unfolding arrays_ok_def flds using len A(2) by simp
  ultimately have "bp_inv ?cb (F(pid := []))" unfolding bp_inv_def bp_pools_def by blast
  moreover have "elsewhere ?cb cb pid" unfolding elsewhere_def using oth flds(7) by blast
  ultimately show ?thesis using run ls own(2) flds(6) by blast
qed

lemma delete_pool_refused:
  "arrays_ok cb \<Longrightarrow> pid \<ge> POOLS_TOTAL_MAX \<or> pstart cb pid = 0 \<or> m_u16PackCurCnt (fq cb pid) \<noteq> 0 \<Longrightarrow> delete_pool cb pid = Some (cb, 0)"
  by (auto simp: delete_pool_def arrays_ok_def ith_Some)

lemma first_unused:
  assumes "arrays_ok cb" "first_unused cb \<noteq> POOLS_TOTAL_MAX"
  shows "first_unused cb < POOLS_TOTAL_MAX" "pstart cb (first_unused cb) = 0"
proof -
  have l: "length (m_apPoolStart cb) = POOLS_TOTAL_MAX" using assms(1) by (simp add: arrays_ok_def)
  have "first_unused cb \<le> POOLS_TOTAL_MAX" unfolding first_unused_def l[symmetric] by (rule length_takeWhile_le)
  with assms(2) show "first_unused cb < POOLS_TOTAL_MAX" by simp
  then show "pstart cb (first_unused cb) = 0"
    using nth_length_takeWhile[of "\<lambda>p. p \<noteq> 0" "m_apPoolStart cb"] l by (simp add: first_unused_def)
qed

lemma ALIGN_SIZE_id: "4 dvd sz \<Longrightarrow> ALIGN_SIZE sz = sz"
  by (auto simp: ALIGN_SIZE_def elim!: dvdE)

lemma ALIGN_SIZE_more: "\<not> 4 dvd sz \<Longrightarrow> sz < ALIGN_SIZE sz"
  using ALIGN_SIZE_bounds(1,3)[of sz] by (cases "sz = ALIGN_SIZE sz") auto

text \<open>A valid state without pools.\<close>

lemma no_pools:
  assumes "arrays_ok cb" "m_u8CurrTotalPools cb = 0"
    "\<And>i. i < POOLS_TOTAL_MAX \<Longrightarrow> fq cb i = empty_freeq \<and> pstart cb i = 0 \<and> pend cb i = 0 \<and> psize cb i = 0"
  shows "bp_inv cb (\<lambda>_. [])"
  using assms by (simp add: bp_inv_def bp_pools_def bp_pool_def apart_def list_ok_def listed_def)

subsection \<open>The contract with the user of a buffer\<close>

text \<open>
  \<open>valid s F\<close>: the free buffers of the pools are \<open>F\<close>; \<open>lent s pid p\<close>: the buffer with header \<open>p\<close>
  of pool \<open>pid\<close> is with a user who has not damaged it.
\<close>

locale lending =
  fixes valid :: "'s \<Rightarrow> (nat \<Rightarrow> addr list) \<Rightarrow> bool" and lent :: "'s \<Rightarrow> nat \<Rightarrow> addr \<Rightarrow> bool"
    and servable :: "'s \<Rightarrow> nat \<Rightarrow> bool"
    and get :: "'s \<Rightarrow> nat \<Rightarrow> ('s \<times> addr) option" and put :: "'s \<Rightarrow> addr \<Rightarrow> 's option"
  assumes get_ok: "valid s F \<Longrightarrow> 0 < sz \<Longrightarrow> servable s sz \<Longrightarrow>
      \<exists>s' pid p ps. F pid = p # ps \<and> get s sz = Some (s', p + BUFFER_HDR_SIZE) \<and> valid s' (F(pid := ps)) \<and>
        lent s' pid p \<and> (\<forall>i q. lent s i q \<longrightarrow> lent s' i q)"
    and put_ok: "valid s F \<Longrightarrow> lent s pid p \<Longrightarrow>
      \<exists>s'. put s (p + BUFFER_HDR_SIZE) = Some s' \<and> valid s' (F(pid := F pid @ [p]))"
    and lent_not_free: "valid s F \<Longrightarrow> lent s pid p \<Longrightarrow> p \<notin> set (F i)"
begin

lemma get_then_put:
  assumes "valid s F" "0 < sz" "servable s sz"
  shows "\<exists>s' s'' pid p ps. F pid = p # ps \<and> get s sz = Some (s', p + BUFFER_HDR_SIZE) \<and>
    put s' (p + BUFFER_HDR_SIZE) = Some s'' \<and> valid s'' (F(pid := ps @ [p]))"
proof -
  obtain s' pid p ps where g: "F pid = p # ps" "get s sz = Some (s', p + BUFFER_HDR_SIZE)" "valid s' (F(pid := ps))" "lent s' pid p"
    using get_ok[OF assms] by blast
  obtain s'' where "put s' (p + BUFFER_HDR_SIZE) = Some s''" "valid s'' ((F(pid := ps))(pid := (F(pid := ps)) pid @ [p]))"
    using put_ok[OF g(3,4)] by blast
  then show ?thesis using g by (intro exI[of _ s'] exI[of _ s''] exI[of _ pid] exI[of _ p] exI[of _ ps]) simp
qed

lemma lent_apart:
  assumes "valid s F" "lent s i q" "0 < sz" "servable s sz" "get s sz = Some (s', a)"
  shows "a \<noteq> q + BUFFER_HDR_SIZE"
proof -
  obtain pid p ps where g: "F pid = p # ps" "a = p + BUFFER_HDR_SIZE"
    using get_ok[OF assms(1,3,4)] assms(5) by auto
  have "q \<notin> set (F pid)" by (rule lent_not_free[OF assms(1,2)])
  with g show ?thesis by auto
qed

end

definition buf_lent :: "T_AkiBuffer \<Rightarrow> nat \<Rightarrow> addr \<Rightarrow> bool" where
  "buf_lent cb pid p \<longleftrightarrow> pid < POOLS_TOTAL_MAX \<and> p \<in> set (bufs cb pid) \<and>
     map_option m_u8Status (b_hdrs cb p) = Some BUF_STATUS_UNLINKED \<and> b_words cb (magic_at cb pid p) = Some MAGIC_NO"

definition pools_valid :: "T_AkiBuffer \<Rightarrow> (nat \<Rightarrow> addr list) \<Rightarrow> bool" where
  "pools_valid cb F \<longleftrightarrow> bp_inv cb F \<and> intact cb \<and> (\<forall>i\<ge>POOLS_TOTAL_MAX. F i = [])"

lemma frame_layout:
  assumes "same_layout cb' cb" "m_u16PackSize (fq cb' pid) = m_u16PackSize (fq cb pid)" "m_u16PackTotal (fq cb' pid) = m_u16PackTotal (fq cb pid)"
  shows "bufs cb' pid = bufs cb pid" "magic_at cb' pid p = magic_at cb pid p" "b_words cb' = b_words cb"
  using assms by (simp_all add: same_layout_def bufs_def buf_at_def magic_at_def)

lemma taken_frame:
  assumes "taken tid cb cb' pid p"
  shows "bufs cb' i = bufs cb i" "magic_at cb' i q = magic_at cb i q" "b_words cb' = b_words cb"
proof -
  have "same_layout cb' cb" "m_u16PackSize (fq cb' i) = m_u16PackSize (fq cb i)" "m_u16PackTotal (fq cb' i) = m_u16PackTotal (fq cb i)"
    using assms by (cases "i = pid"; simp add: taken_def)+
  from frame_layout[OF this] show "bufs cb' i = bufs cb i" "magic_at cb' i q = magic_at cb i q" "b_words cb' = b_words cb" .
qed

lemma returned_frame:
  assumes "returned nt cb cb' pid p"
  shows "bufs cb' i = bufs cb i" "magic_at cb' i q = magic_at cb i q" "b_words cb' = b_words cb"
proof -
  have "same_layout cb' cb" "m_u16PackSize (fq cb' i) = m_u16PackSize (fq cb i)" "m_u16PackTotal (fq cb' i) = m_u16PackTotal (fq cb i)"
    using assms by (cases "i = pid"; simp add: returned_def)+
  from frame_layout[OF this] show "bufs cb' i = bufs cb i" "magic_at cb' i q = magic_at cb i q" "b_words cb' = b_words cb" .
qed

lemma lend_get:
  assumes "pools_valid cb F" "0 < sz" "\<exists>pid. can_serve cb sz pid"
    and ref: "refill_ok refill cb sz"
  shows "\<exists>cb' pid p ps. F pid = p # ps \<and> get_buf tid refill cb sz = Some (cb', p + BUFFER_HDR_SIZE) \<and>
    pools_valid cb' (F(pid := ps)) \<and> buf_lent cb' pid p \<and> (\<forall>i q. buf_lent cb i q \<longrightarrow> buf_lent cb' i q) \<and>
    taken tid cb cb' pid p"
proof -
  have inv: "bp_inv cb F" and int: "intact cb" and out: "\<forall>i\<ge>POOLS_TOTAL_MAX. F i = []"
    using assms(1) unfolding pools_valid_def by blast+
  obtain cb' pid p ps where g: "best_pool cb sz pid" "F pid = p # ps" "get_buf tid refill cb sz = Some (cb', p + BUFFER_HDR_SIZE)"
      "bp_inv cb' (F(pid := ps))" "taken tid cb cb' pid p"
    using get_buf_ok[OF inv ref assms(2), of tid] assms(3) by (simp only: if_True) blast
  note fr = taken_frame[OF g(5)]
  have pid: "pid < POOLS_TOTAL_MAX" using g(1) by (simp add: best_pool_def can_serve_def)
  have live: "bp_pool cb pid (F pid)" by (rule bp_invD(3)[OF inv pid])
  then have "queue_ok cb pid (F pid)" using g(2) by (cases "pstart cb pid = 0") (auto simp: bp_pool_def)
  then have p: "p \<in> set (bufs cb pid)" using g(2) by (simp add: queue_ok_def)
  have "intact cb'" using int unfolding intact_def fr .
  moreover have "buf_lent cb' pid p"
    using pid p int g(5) unfolding buf_lent_def fr intact_def taken_def by simp
  moreover have "buf_lent cb' i q" if "buf_lent cb i q" for i q
    using that g(5) unfolding buf_lent_def fr by (cases "q = p") (auto simp: taken_def)
  moreover have "\<forall>i\<ge>POOLS_TOTAL_MAX. (F(pid := ps)) i = []" using out pid by auto
  ultimately show ?thesis using g(2-5) unfolding pools_valid_def by blast
qed

lemma lend_put:
  assumes "pools_valid cb F" "buf_lent cb pid p"
  shows "\<exists>cb'. put_buf nt cb (p + BUFFER_HDR_SIZE) = Some cb' \<and> pools_valid cb' (F(pid := F pid @ [p])) \<and> returned nt cb cb' pid p"
proof -
  have inv: "bp_inv cb F" and int: "intact cb" and out: "\<forall>i\<ge>POOLS_TOTAL_MAX. F i = []"
    using assms(1) unfolding pools_valid_def by blast+
  have l: "pid < POOLS_TOTAL_MAX" "p \<in> set (bufs cb pid)" "map_option m_u8Status (b_hdrs cb p) = Some BUF_STATUS_UNLINKED"
    "b_words cb (magic_at cb pid p) = Some MAGIC_NO" using assms(2) unfolding buf_lent_def by blast+
  obtain cb' where g: "put_buf nt cb (p + BUFFER_HDR_SIZE) = Some cb'" "bp_inv cb' (F(pid := F pid @ [p]))" "returned nt cb cb' pid p"
    using put_buf_ok[OF inv l, of nt] by blast
  have "intact cb'" using int unfolding intact_def returned_frame[OF g(3)] .
  moreover have "\<forall>i\<ge>POOLS_TOTAL_MAX. (F(pid := F pid @ [p])) i = []" using out l(1) by auto
  ultimately show ?thesis using g unfolding pools_valid_def by blast
qed

lemma lend_not_free:
  assumes v: "pools_valid cb F" and l: "buf_lent cb pid p"
  shows "p \<notin> set (F i)"
proof
  assume p: "p \<in> set (F i)"
  have inv: "bp_inv cb F" using v by (simp add: pools_valid_def)
  have i: "i < POOLS_TOTAL_MAX" using v p by (cases "i < POOLS_TOTAL_MAX") (auto simp: pools_valid_def)
  have "bp_pool cb i (F i)" by (rule bp_invD(3)[OF inv i])
  then have "queue_ok cb i (F i)" using p by (cases "pstart cb i = 0") (auto simp: bp_pool_def)
  then have pi: "p \<in> set (bufs cb i)" using p by (auto simp: queue_ok_def)
  obtain h where "b_hdrs cb p = Some h" "m_u8Status h = BUF_STATUS_FREE \<longleftrightarrow> p \<in> set (F i)" by (rule bp_buf[OF inv i pi])
  then show False using l p by (simp add: buf_lent_def BUF_STATUS_FREE_def BUF_STATUS_UNLINKED_def)
qed

end
