(* ===== verification/Aki_Buffer.thy ===== *)
theory Aki_Buffer
  imports Buffer_Pool
begin

section \<open>The aki buffers (\<^verbatim>\<open>aki/src/aki_buffer.c\<close>)\<close>

text \<open>
  The configuration without tasks and locks. The memory of a pool comes from the caller: it is
  a block of \<open>b_blocks\<close> from the start. The functions that print statistics are not modelled.

  The queue functions name the header's fields \<open>status\<close> and \<open>p_next\<close>, which the structure does
  not have; they are read as \<open>m_u8Status\<close> and \<open>m_pNext\<close>, the fields with that role.
\<close>

definition AKI_TASK_INVALID :: nat where "AKI_TASK_INVALID = 0x0F"
definition AKI_TASK_GET_ID :: nat where "AKI_TASK_GET_ID = 0"

definition aki_init_free_queue :: "T_AkiBuffer \<Rightarrow> nat \<Rightarrow> nat \<Rightarrow> nat \<Rightarrow> addr \<Rightarrow> T_AkiBuffer option" where
  "aki_init_free_queue cb pid sz cnt p_mem = init_free_queue AKI_TASK_INVALID cb pid sz cnt p_mem"

text \<open>The access mask and the number of pools keep what the caller's memory holds.\<close>

definition AKI_BufferInit :: "T_AkiBuffer \<Rightarrow> T_AkiBuffer" where
  "AKI_BufferInit cb =
     cb\<lparr>in_atFreeq := replicate POOLS_TOTAL_MAX empty_freeq,
        m_apPoolStart := replicate POOLS_TOTAL_MAX 0, m_apPoolEnd := replicate POOLS_TOTAL_MAX 0,
        m_ausPoolSize := replicate POOLS_TOTAL_MAX 0, m_aucPoolList := replicate POOLS_TOTAL_MAX 0\<rparr>"

definition AKI_PoolSetPermission :: "T_AkiBuffer \<Rightarrow> nat \<Rightarrow> nat \<Rightarrow> T_AkiBuffer \<times> int" where
  "AKI_PoolSetPermission cb pid perm =
     (if pid < POOLS_TOTAL_MAX then (pool_set_permission cb pid perm, 0) else (cb, -1))"

text \<open>The identifier is the third part of the result, null when the caller passes no place for it.\<close>

definition AKI_BufferCreatePool :: "T_AkiBuffer \<Rightarrow> addr \<Rightarrow> nat \<Rightarrow> nat \<Rightarrow> (T_AkiBuffer \<times> int \<times> nat) option" where
  "AKI_BufferCreatePool cb addr usize sz =
     (if sz > BUFFER_SIZE_MAX then Some (cb, -1, 0)
      else
        let u16Size = u16 (sz + BUFFER_PADDING_SIZE);
            u16Total = usize div u16Size;
            pid = first_unused cb in
        if pid = POOLS_TOTAL_MAX then Some (cb, -1, 0)
        else do {
          cb1 \<leftarrow> aki_init_free_queue cb pid sz u16Total addr;
          cb2 \<leftarrow> add_to_pool_list cb1 pid;
          let cb3 = fst (AKI_PoolSetPermission cb2 pid POOL_PUBLIC);
          Some (cb3\<lparr>m_u8CurrTotalPools := u8n (m_u8CurrTotalPools cb3 + 1)\<rparr>, 0, pid)
        })"

definition AKI_BufferDestroyPool :: "T_AkiBuffer \<Rightarrow> nat \<Rightarrow> (T_AkiBuffer \<times> addr) option" where
  "AKI_BufferDestroyPool cb pid = delete_pool cb pid"

definition AKI_PoolGetTotal :: "T_AkiBuffer \<Rightarrow> nat \<Rightarrow> nat option" where
  "AKI_PoolGetTotal cb pid =
     (if pid \<ge> POOLS_TOTAL_MAX then Some 0 else map_option m_u16PackTotal (ith (in_atFreeq cb) pid))"

definition AKI_PoolGetFreeTotal :: "T_AkiBuffer \<Rightarrow> nat \<Rightarrow> nat option" where
  "AKI_PoolGetFreeTotal cb pid =
     (if pid \<ge> POOLS_TOTAL_MAX then Some 0
      else map_option (\<lambda>q. u16 (m_u16PackTotal q + (2 ^ 16 - m_u16PackCurCnt q))) (ith (in_atFreeq cb) pid))"

text \<open>Pools get no memory on demand in this module.\<close>

definition no_refill :: "T_AkiBuffer \<Rightarrow> nat \<Rightarrow> nat \<Rightarrow> (T_AkiBuffer \<times> bool) option" where
  "no_refill cb pid i = Some (cb, True)"

definition AKI_GetPackage :: "T_AkiBuffer \<Rightarrow> nat \<Rightarrow> (T_AkiBuffer \<times> addr) option" where
  "AKI_GetPackage cb sz = get_buf AKI_TASK_GET_ID no_refill cb sz"

definition aki_get_buf_size :: "T_AkiBuffer \<Rightarrow> addr \<Rightarrow> nat option" where
  "aki_get_buf_size cb p = buf_size cb p"

definition aki_chk_buf_damage :: "T_AkiBuffer \<Rightarrow> addr \<Rightarrow> bool option" where
  "aki_chk_buf_damage cb p = buf_damaged cb p"

definition AKI_PutPackage :: "T_AkiBuffer \<Rightarrow> addr \<Rightarrow> T_AkiBuffer option" where
  "AKI_PutPackage cb p = put_buf AKI_TASK_INVALID cb p"

definition AKI_CheckStartAddr :: "T_AkiBuffer \<Rightarrow> addr \<Rightarrow> addr option" where
  "AKI_CheckStartAddr cb p = find_start cb p 0 POOLS_TOTAL_MAX"

definition AKI_PoolGetPackage :: "T_AkiBuffer \<Rightarrow> nat \<Rightarrow> (T_AkiBuffer \<times> addr) option" where
  "AKI_PoolGetPackage cb pid = get_pool_buf AKI_TASK_GET_ID no_refill cb pid"

subsection \<open>Queues of packages\<close>

record T_AkiQueue =
  m_pFirst :: addr
  m_pLast :: addr
  m_u16Count :: nat

text \<open>The header before the user's bytes; the one of null is an address nobody may read.\<close>

definition hdr_of :: "addr \<Rightarrow> addr option" where
  "hdr_of p = (if BUFFER_HDR_SIZE \<le> p then Some (p - BUFFER_HDR_SIZE) else None)"

definition AKI_QueueInit :: T_AkiQueue where
  "AKI_QueueInit = \<lparr>m_pFirst = 0, m_pLast = 0, m_u16Count = 0\<rparr>"

definition AKI_QueueAddTail :: "T_AkiBuffer \<Rightarrow> T_AkiQueue \<Rightarrow> addr \<Rightarrow> (T_AkiBuffer \<times> T_AkiQueue) option" where
  "AKI_QueueAddTail cb q pack =
     do {
       p \<leftarrow> hdr_of pack;
       h \<leftarrow> rd_hdr cb p;
       if m_u8Status h \<noteq> BUF_STATUS_UNLINKED then Some (cb, q)
       else do {
         (cb1, q1) \<leftarrow> (if m_pLast q \<noteq> 0
           then do {
             l \<leftarrow> hdr_of (m_pLast q);
             cb1 \<leftarrow> upd_hdr cb l (\<lambda>h. h\<lparr>m_pNext := p\<rparr>);
             Some (cb1, q)
           }
           else Some (cb, q\<lparr>m_pFirst := pack\<rparr>));
         cb2 \<leftarrow> upd_hdr cb1 p (\<lambda>h. h\<lparr>m_pNext := 0, m_u8Status := BUF_STATUS_QUEUED\<rparr>);
         Some (cb2, q1\<lparr>m_pLast := pack, m_u16Count := u16 (m_u16Count q1 + 1)\<rparr>)
       }
     }"

definition AKI_QueueAddHead :: "T_AkiBuffer \<Rightarrow> T_AkiQueue \<Rightarrow> addr \<Rightarrow> (T_AkiBuffer \<times> T_AkiQueue) option" where
  "AKI_QueueAddHead cb q pack =
     do {
       p \<leftarrow> hdr_of pack;
       h \<leftarrow> rd_hdr cb p;
       if m_u8Status h \<noteq> BUF_STATUS_UNLINKED then Some (cb, q)
       else do {
         (nx, q1) \<leftarrow> (if m_pFirst q \<noteq> 0
           then do { f \<leftarrow> hdr_of (m_pFirst q); Some (f, q\<lparr>m_pFirst := pack\<rparr>) }
           else Some (0, q\<lparr>m_pFirst := pack, m_pLast := pack\<rparr>));
         cb1 \<leftarrow> upd_hdr cb p (\<lambda>h. h\<lparr>m_pNext := nx, m_u8Status := BUF_STATUS_QUEUED\<rparr>);
         Some (cb1, q1\<lparr>m_u16Count := u16 (m_u16Count q1 + 1)\<rparr>)
       }
     }"

definition AKI_QueueDelHead :: "T_AkiBuffer \<Rightarrow> T_AkiQueue \<Rightarrow> (T_AkiBuffer \<times> T_AkiQueue \<times> addr) option" where
  "AKI_QueueDelHead cb q =
     (if m_u16Count q = 0 then Some (cb, q, 0)
      else do {
        p \<leftarrow> hdr_of (m_pFirst q);
        h \<leftarrow> rd_hdr cb p;
        let q1 = (if m_pNext h \<noteq> 0 then q\<lparr>m_pFirst := m_pNext h + BUFFER_HDR_SIZE\<rparr>
                  else q\<lparr>m_pFirst := 0, m_pLast := 0\<rparr>);
        cb1 \<leftarrow> upd_hdr cb p (\<lambda>h. h\<lparr>m_pNext := 0, m_u8Status := BUF_STATUS_UNLINKED\<rparr>);
        Some (cb1, q1\<lparr>m_u16Count := u16 (m_u16Count q1 + (2 ^ 16 - 1))\<rparr>, p + BUFFER_HDR_SIZE)
      })"

text \<open>The search for the header before \<open>p\<close>; null when the end is reached.\<close>

partial_function (option) queue_prev :: "T_AkiBuffer \<Rightarrow> addr \<Rightarrow> addr \<Rightarrow> addr option" where
  "queue_prev cb p prev =
     (if prev = 0 then Some 0
      else do {
        h \<leftarrow> rd_hdr cb prev;
        if m_pNext h = p then Some prev else queue_prev cb p (m_pNext h)
      })"

definition AKI_QueueRemove :: "T_AkiBuffer \<Rightarrow> T_AkiQueue \<Rightarrow> addr \<Rightarrow> (T_AkiBuffer \<times> T_AkiQueue \<times> addr) option" where
  "AKI_QueueRemove cb q pack =
     (if pack = m_pFirst q then AKI_QueueDelHead cb q
      else do {
        p \<leftarrow> hdr_of pack;
        f \<leftarrow> hdr_of (m_pFirst q);
        prev \<leftarrow> queue_prev cb p f;
        if prev = 0 then Some (cb, q, 0)
        else do {
          h \<leftarrow> rd_hdr cb p;
          cb1 \<leftarrow> upd_hdr cb prev (\<lambda>h'. h'\<lparr>m_pNext := m_pNext h\<rparr>);
          let q1 = (if pack = m_pLast q then q\<lparr>m_pLast := prev + BUFFER_HDR_SIZE\<rparr> else q);
          cb2 \<leftarrow> upd_hdr cb1 p (\<lambda>h. h\<lparr>m_pNext := 0, m_u8Status := BUF_STATUS_UNLINKED\<rparr>);
          Some (cb2, q1\<lparr>m_u16Count := u16 (m_u16Count q1 + (2 ^ 16 - 1))\<rparr>, pack)
        }
      })"

definition AKI_QueueGetFirst :: "T_AkiQueue \<Rightarrow> addr" where "AKI_QueueGetFirst q = m_pFirst q"
definition AKI_QueueGetLast :: "T_AkiQueue \<Rightarrow> addr" where "AKI_QueueGetLast q = m_pLast q"

definition AKI_QueueGetNext :: "T_AkiBuffer \<Rightarrow> addr \<Rightarrow> addr option" where
  "AKI_QueueGetNext cb pack =
     do {
       p \<leftarrow> hdr_of pack;
       h \<leftarrow> rd_hdr cb p;
       Some (if m_pNext h \<noteq> 0 then m_pNext h + BUFFER_HDR_SIZE else 0)
     }"

definition AKI_QueueIsEmpty :: "T_AkiQueue \<Rightarrow> bool" where "AKI_QueueIsEmpty q \<longleftrightarrow> m_u16Count q = 0"

subsection \<open>Creating a pool\<close>

lemma create_pool_eq:
  assumes "sz \<le> BUFFER_SIZE_MAX" "first_unused cb < POOLS_TOTAL_MAX"
  shows "AKI_BufferCreatePool cb p usize sz = map_option (\<lambda>cb'. (cb', 0, first_unused cb))
    (add_pool AKI_TASK_INVALID cb (first_unused cb) sz (usize div (sz + BUFFER_PADDING_SIZE)) p POOL_PUBLIC)"
proof -
  have "u16 (sz + BUFFER_PADDING_SIZE) = sz + BUFFER_PADDING_SIZE"
    using assms(1) by (simp add: BUFFER_SIZE_MAX_def BUFFER_PADDING_SIZE_def c_arith)
  then show ?thesis using assms
    by (simp add: AKI_BufferCreatePool_def add_pool_def aki_init_free_queue_def AKI_PoolSetPermission_def Let_def
        split: Option.bind_split)
qed

lemma init_bufs_bounds:
  "init_bufs nt pid ts act cb hdr hdr1 n = Some r \<Longrightarrow> k < n \<Longrightarrow> in_block cb (hdr + k * act + BUFFER_HDR_SIZE + ts) 4"
proof (induction n arbitrary: cb hdr hdr1 k)
  case (Suc n)
  show ?case
  proof (cases k)
    case 0
    with Suc.prems(1) show ?thesis by (auto simp: Let_def bind_eq_Some_conv)
  next
    case (Suc j)
    obtain cb1 where c: "init_bufs nt pid ts act cb1 (hdr + act) hdr n = Some r" "b_blocks cb1 = b_blocks cb"
      using Suc.prems(1) by (auto simp: Let_def bind_eq_Some_conv)
    have "in_block cb1 (hdr + act + j * act + BUFFER_HDR_SIZE + ts) 4"
      using Suc Suc.prems(2) by (intro Suc.IH[OF c(1)]) simp
    then show ?thesis using c(2) Suc by (simp add: in_block_def add.assoc)
  qed
qed simp

subsection \<open>Packages in a queue\<close>

text \<open>\<open>aq cb q ps\<close>: the queue holds the packages with the headers \<open>ps\<close>, in order.\<close>

definition rd_next :: "T_AkiBuffer \<Rightarrow> addr \<Rightarrow> addr option" where
  "rd_next cb a = map_option m_pNext (rd_hdr cb a)"

definition rd_status :: "T_AkiBuffer \<Rightarrow> addr \<Rightarrow> nat option" where
  "rd_status cb a = map_option m_u8Status (rd_hdr cb a)"

definition ends_ok :: "T_AkiQueue \<Rightarrow> addr list \<Rightarrow> bool" where
  "ends_ok q ps \<longleftrightarrow> m_u16Count q = length ps \<and> length ps < 2 ^ 16 \<and>
     m_pFirst q = (if ps = [] then 0 else hd ps + BUFFER_HDR_SIZE) \<and>
     m_pLast q = (if ps = [] then 0 else last ps + BUFFER_HDR_SIZE)"

definition aq :: "T_AkiBuffer \<Rightarrow> T_AkiQueue \<Rightarrow> addr list \<Rightarrow> bool" where
  "aq cb q ps \<longleftrightarrow> distinct ps \<and> ends_ok q ps \<and> (\<exists>f. linked (rd_next cb) f ps) \<and>
     (\<forall>p\<in>set ps. rd_status cb p = Some BUF_STATUS_QUEUED)"

lemma hdr_size_pos [simp]: "0 < BUFFER_HDR_SIZE"
  by (simp add: BUFFER_HDR_SIZE_def)

lemma hdr_of_user [simp]: "hdr_of (p + BUFFER_HDR_SIZE) = Some p"
  by (simp add: hdr_of_def)

lemma rd_hdr_nz: "rd_hdr cb a = Some h \<Longrightarrow> a \<noteq> 0 \<and> in_block cb a BUFFER_HDR_SIZE"
  by (auto simp: rd_hdr_def split: if_splits)

lemma aqD:
  assumes "aq cb q ps"
  shows "distinct ps" "ends_ok q ps" "\<exists>f. linked (rd_next cb) f ps" "p \<in> set ps \<Longrightarrow> rd_status cb p = Some BUF_STATUS_QUEUED"
    "rd_status cb p = Some BUF_STATUS_UNLINKED \<Longrightarrow> p \<notin> set ps"
  using assms by (auto simp: aq_def BUF_STATUS_QUEUED_def BUF_STATUS_UNLINKED_def)

lemma rd_status_hdr: "rd_status cb p = Some s \<Longrightarrow> \<exists>h. rd_hdr cb p = Some h \<and> m_u8Status h = s"
  by (auto simp: rd_status_def)

text \<open>A header's update changes only that header.\<close>

lemma upd_hdr_ok:
  assumes "rd_hdr cb a = Some h"
  obtains cb' where "upd_hdr cb a f = Some cb'" "\<And>b. rd_hdr cb' b = (if b = a then Some (f h) else rd_hdr cb b)"
    "\<And>b. rd_next cb' b = (if b = a then Some (m_pNext (f h)) else rd_next cb b)"
    "\<And>b. rd_status cb' b = (if b = a then Some (m_u8Status (f h)) else rd_status cb b)"
proof -
  let ?cb = "cb\<lparr>b_hdrs := (b_hdrs cb)(a \<mapsto> f h)\<rparr>"
  have r: "rd_hdr ?cb b = (if b = a then Some (f h) else rd_hdr cb b)" for b using rd_hdr_nz[OF assms] by simp
  show thesis
  proof (rule that[of ?cb])
    show "upd_hdr cb a f = Some ?cb" using assms by (simp add: upd_hdr_def)
    show "rd_hdr ?cb b = (if b = a then Some (f h) else rd_hdr cb b)" for b by (rule r)
    show "rd_next ?cb b = (if b = a then Some (m_pNext (f h)) else rd_next cb b)" for b unfolding rd_next_def r by simp
    show "rd_status ?cb b = (if b = a then Some (m_u8Status (f h)) else rd_status cb b)" for b unfolding rd_status_def r by simp
  qed
qed

lemma add_tail_ok:
  assumes q: "aq cb q ps" and p: "rd_hdr cb p = Some h" "m_u8Status h = BUF_STATUS_UNLINKED" and l: "length ps + 1 < 2 ^ 16"
  shows "\<exists>cb' q'. AKI_QueueAddTail cb q (p + BUFFER_HDR_SIZE) = Some (cb', q') \<and> aq cb' q' (ps @ [p])"
proof -
  note D = aqD[OF q]
  have pn: "p \<notin> set ps" using p by (intro D(5)) (simp add: rd_status_def)
  have E: "m_u16Count q = length ps" "m_pFirst q = (if ps = [] then 0 else hd ps + BUFFER_HDR_SIZE)"
    "m_pLast q = (if ps = [] then 0 else last ps + BUFFER_HDR_SIZE)" using D(2) by (simp_all add: ends_ok_def)
  obtain f where f: "linked (rd_next cb) f ps" using D(3) by blast
  let ?f = "\<lambda>h. h\<lparr>m_pNext := 0, m_u8Status := BUF_STATUS_QUEUED\<rparr>"
  show ?thesis
  proof (cases "ps = []")
    case True
    obtain cb2 where u: "upd_hdr cb p ?f = Some cb2" and rhcb2: "\<And>b. rd_hdr cb2 b = (if b = p then Some (?f h) else rd_hdr cb b)"
      and rd: "\<And>b. rd_next cb2 b = (if b = p then Some (m_pNext (?f h)) else rd_next cb b)"
      "\<And>b. rd_status cb2 b = (if b = p then Some (m_u8Status (?f h)) else rd_status cb b)"
      by (rule upd_hdr_ok[OF p(1), where f = ?f]) (rule that)
    let ?q = "q\<lparr>m_pFirst := p + BUFFER_HDR_SIZE, m_pLast := p + BUFFER_HDR_SIZE, m_u16Count := 1\<rparr>"
    have "AKI_QueueAddTail cb q (p + BUFFER_HDR_SIZE) = Some (cb2, ?q)"
      using p u E True by (simp add: AKI_QueueAddTail_def c_arith)
    moreover have "aq cb2 ?q (ps @ [p])"
      using True rd rd_hdr_nz[OF p(1)] by (simp add: aq_def ends_ok_def)
    ultimately show ?thesis by blast
  next
    case False
    have lin: "last ps \<in> set ps" "last ps \<noteq> p" using False pn by auto
    obtain hl where hl: "rd_hdr cb (last ps) = Some hl" using rd_status_hdr[OF D(4)[OF lin(1)]] by blast
    obtain cb1 where u1: "upd_hdr cb (last ps) (\<lambda>h. h\<lparr>m_pNext := p\<rparr>) = Some cb1"
      and rd1: "\<And>b. rd_hdr cb1 b = (if b = last ps then Some (hl\<lparr>m_pNext := p\<rparr>) else rd_hdr cb b)"
      "\<And>b. rd_next cb1 b = (if b = last ps then Some (m_pNext (hl\<lparr>m_pNext := p\<rparr>)) else rd_next cb b)"
      "\<And>b. rd_status cb1 b = (if b = last ps then Some (m_u8Status (hl\<lparr>m_pNext := p\<rparr>)) else rd_status cb b)"
      by (rule upd_hdr_ok[OF hl, where f = "\<lambda>h. h\<lparr>m_pNext := p\<rparr>"]) (rule that)
    have p1: "rd_hdr cb1 p = Some h" using rd1(1)[of p] p(1) lin(2) by simp
    obtain cb2 where u2: "upd_hdr cb1 p ?f = Some cb2" and rhcb2: "\<And>b. rd_hdr cb2 b = (if b = p then Some (?f h) else rd_hdr cb1 b)"
      and rd2: "\<And>b. rd_next cb2 b = (if b = p then Some (m_pNext (?f h)) else rd_next cb1 b)"
      "\<And>b. rd_status cb2 b = (if b = p then Some (m_u8Status (?f h)) else rd_status cb1 b)"
      by (rule upd_hdr_ok[OF p1, where f = ?f]) (rule that)
    let ?q = "q\<lparr>m_pLast := p + BUFFER_HDR_SIZE, m_u16Count := length ps + 1\<rparr>"
    have "AKI_QueueAddTail cb q (p + BUFFER_HDR_SIZE) = Some (cb2, ?q)"
      using p u1 u2 E False l by (simp add: AKI_QueueAddTail_def c_arith)
    moreover have "linked (rd_next cb2) (if ps = [] then p else f) (ps @ [p])"
      by (rule linked_snoc[OF f D(1) _ pn]) (use rd_hdr_nz[OF p(1)] rd1(2) rd2(1) lin pn in auto)
    then have "\<exists>f. linked (rd_next cb2) f (ps @ [p])" by blast
    moreover have "rd_status cb2 a = Some BUF_STATUS_QUEUED" if "a \<in> set (ps @ [p])" for a
    proof -
      have "m_u8Status hl = BUF_STATUS_QUEUED" using D(4)[OF lin(1)] hl by (simp add: rd_status_def)
      then show ?thesis using that rd1(3) rd2(2) D(4)[of a] by auto
    qed
    moreover have "ends_ok ?q (ps @ [p])" using E False l by (simp add: ends_ok_def)
    ultimately show ?thesis using D(1) pn unfolding aq_def by (intro exI[of _ cb2] exI[of _ ?q]) simp
  qed
qed

lemma add_head_ok:
  assumes q: "aq cb q ps" and p: "rd_hdr cb p = Some h" "m_u8Status h = BUF_STATUS_UNLINKED" and l: "length ps + 1 < 2 ^ 16"
  shows "\<exists>cb' q'. AKI_QueueAddHead cb q (p + BUFFER_HDR_SIZE) = Some (cb', q') \<and> aq cb' q' (p # ps)"
proof -
  note D = aqD[OF q]
  have pn: "p \<notin> set ps" using p by (intro D(5)) (simp add: rd_status_def)
  have E: "m_u16Count q = length ps" "m_pFirst q = (if ps = [] then 0 else hd ps + BUFFER_HDR_SIZE)"
    "m_pLast q = (if ps = [] then 0 else last ps + BUFFER_HDR_SIZE)" using D(2) by (simp_all add: ends_ok_def)
  obtain f where f: "linked (rd_next cb) f ps" using D(3) by blast
  note ff = linked_first[OF f]
  let ?f = "\<lambda>h. h\<lparr>m_pNext := (if ps = [] then 0 else hd ps), m_u8Status := BUF_STATUS_QUEUED\<rparr>"
  obtain cb1 where u: "upd_hdr cb p ?f = Some cb1" and rhcb1: "\<And>b. rd_hdr cb1 b = (if b = p then Some (?f h) else rd_hdr cb b)"
      and rd: "\<And>b. rd_next cb1 b = (if b = p then Some (m_pNext (?f h)) else rd_next cb b)"
    "\<And>b. rd_status cb1 b = (if b = p then Some (m_u8Status (?f h)) else rd_status cb b)"
    by (rule upd_hdr_ok[OF p(1), where f = ?f]) (rule that)
  let ?q = "q\<lparr>m_pFirst := p + BUFFER_HDR_SIZE, m_pLast := (if ps = [] then p + BUFFER_HDR_SIZE else m_pLast q), m_u16Count := length ps + 1\<rparr>"
  have "AKI_QueueAddHead cb q (p + BUFFER_HDR_SIZE) = Some (cb1, ?q)"
    using p u E l by (cases "ps = []") (simp_all add: AKI_QueueAddHead_def c_arith)
  moreover have "linked (rd_next cb1) f ps"
    by (rule linked_cong[OF f]) (use rd(1) pn in auto)
  then have "linked (rd_next cb1) p (p # ps)" using rd(1)[of p] rd_hdr_nz[OF p(1)] ff by simp
  then have "\<exists>f. linked (rd_next cb1) f (p # ps)" by blast
  moreover have "rd_status cb1 a = Some BUF_STATUS_QUEUED" if "a \<in> set (p # ps)" for a
    using that rd(2)[of a] D(4)[of a] by auto
  moreover have "ends_ok ?q (p # ps)" using E l by (simp add: ends_ok_def)
  ultimately show ?thesis using D(1) pn unfolding aq_def by (intro exI[of _ cb1] exI[of _ ?q]) simp
qed

lemma count_down:
  assumes "n < 2 ^ 16"
  shows "u16 (Suc n + (2 ^ 16 - 1)) = n"
proof -
  have "Suc n + (2 ^ 16 - 1) = n + 2 ^ 16" by simp
  with assms show ?thesis unfolding u16_def by simp
qed

lemma del_head_ok:
  assumes q: "aq cb q (p # ps)"
  shows "\<exists>cb' q'. AKI_QueueDelHead cb q = Some (cb', q', p + BUFFER_HDR_SIZE) \<and> aq cb' q' ps \<and>
    rd_status cb' p = Some BUF_STATUS_UNLINKED"
proof -
  note D = aqD[OF q]
  have E: "m_u16Count q = Suc (length ps)" "length ps < 2 ^ 16" "m_pFirst q = p + BUFFER_HDR_SIZE"
    "m_pLast q = last (p # ps) + BUFFER_HDR_SIZE" using D(2) by (simp_all add: ends_ok_def)
  obtain h where h: "rd_hdr cb p = Some h" using rd_status_hdr[OF D(4)[of p]] by auto
  then have f: "linked (rd_next cb) (m_pNext h) ps" using D(3) by (auto simp: rd_next_def)
  note ff = linked_first[OF f]
  have nz: "m_pNext h \<noteq> 0 \<longleftrightarrow> ps \<noteq> []" using ff linked_nonzero[OF f, of "hd ps"] by auto
  let ?f = "\<lambda>h. h\<lparr>m_pNext := 0, m_u8Status := BUF_STATUS_UNLINKED\<rparr>"
  obtain cb1 where u: "upd_hdr cb p ?f = Some cb1" and rhcb1: "\<And>b. rd_hdr cb1 b = (if b = p then Some (?f h) else rd_hdr cb b)"
      and rd: "\<And>b. rd_next cb1 b = (if b = p then Some (m_pNext (?f h)) else rd_next cb b)"
    "\<And>b. rd_status cb1 b = (if b = p then Some (m_u8Status (?f h)) else rd_status cb b)"
    by (rule upd_hdr_ok[OF h, where f = ?f]) (rule that)
  let ?q = "(if ps = [] then q\<lparr>m_pFirst := 0, m_pLast := 0\<rparr> else q\<lparr>m_pFirst := hd ps + BUFFER_HDR_SIZE\<rparr>)\<lparr>m_u16Count := length ps\<rparr>"
  have "AKI_QueueDelHead cb q = Some (cb1, ?q, p + BUFFER_HDR_SIZE)"
    using E h u nz ff count_down[OF E(2)] by (cases "ps = []") (simp_all add: AKI_QueueDelHead_def Let_def)
  moreover have "linked (rd_next cb1) (m_pNext h) ps"
    by (rule linked_cong[OF f]) (use rd(1) D(1) in auto)
  then have "\<exists>f. linked (rd_next cb1) f ps" by blast
  moreover have "rd_status cb1 a = Some BUF_STATUS_QUEUED" if "a \<in> set ps" for a
    using that rd(2)[of a] D(1) D(4)[of a] by auto
  moreover have "ends_ok ?q ps" using E by (simp add: ends_ok_def)
  moreover have "rd_status cb1 p = Some BUF_STATUS_UNLINKED" using rd(2)[of p] by simp
  ultimately show ?thesis using D(1) unfolding aq_def by (intro exI[of _ cb1] exI[of _ ?q]) simp
qed

lemma queue_prev_eq:
  "linked (rd_next cb) f (as @ x # p # bs) \<Longrightarrow> distinct (as @ x # p # bs) \<Longrightarrow> queue_prev cb p f = Some x"
proof (induction as arbitrary: f)
  case Nil
  then show ?case by (subst queue_prev.simps) (auto simp: rd_next_def)
next
  case (Cons a as)
  then obtain q where q: "f = a" "a \<noteq> 0" "rd_next cb a = Some q" "linked (rd_next cb) q (as @ x # p # bs)" by auto
  then obtain h where h: "f = a" "a \<noteq> 0" "rd_hdr cb a = Some h" "linked (rd_next cb) (m_pNext h) (as @ x # p # bs)"
    by (cases "rd_hdr cb a") (simp_all add: rd_next_def)
  have "m_pNext h \<noteq> p" using linked_first[OF h(4)] Cons.prems(2) by (cases as) auto
  then show ?case using h Cons.IH[OF h(4)] Cons.prems(2) by (subst queue_prev.simps) simp
qed

lemma remove_ok:
  assumes q: "aq cb q (as @ x # p # bs)"
  shows "\<exists>cb' q'. AKI_QueueRemove cb q (p + BUFFER_HDR_SIZE) = Some (cb', q', p + BUFFER_HDR_SIZE) \<and> aq cb' q' (as @ x # bs) \<and>
    rd_status cb' p = Some BUF_STATUS_UNLINKED"
proof -
  note D = aqD[OF q]
  have E: "m_u16Count q = Suc (length (as @ x # bs))" "length (as @ x # bs) < 2 ^ 16" "m_pFirst q = hd (as @ [x]) + BUFFER_HDR_SIZE"
    "m_pLast q = (if bs = [] then p else last bs) + BUFFER_HDR_SIZE" using D(2) by (auto simp: ends_ok_def hd_append)
  obtain h where h: "rd_hdr cb p = Some h" using rd_status_hdr[OF D(4)[of p]] by auto
  obtain hx where hx: "rd_hdr cb x = Some hx" using rd_status_hdr[OF D(4)[of x]] by auto
  obtain f where f: "linked (rd_next cb) f (as @ x # p # bs)" using D(3) by blast
  have fx: "f = hd (as @ [x])" using linked_first[OF f] by (cases as) auto
  obtain cb1 where u1: "upd_hdr cb x (\<lambda>h'. h'\<lparr>m_pNext := m_pNext h\<rparr>) = Some cb1"
    and rd1: "\<And>b. rd_hdr cb1 b = (if b = x then Some (hx\<lparr>m_pNext := m_pNext h\<rparr>) else rd_hdr cb b)"
    "\<And>b. rd_next cb1 b = (if b = x then Some (m_pNext (hx\<lparr>m_pNext := m_pNext h\<rparr>)) else rd_next cb b)"
    "\<And>b. rd_status cb1 b = (if b = x then Some (m_u8Status (hx\<lparr>m_pNext := m_pNext h\<rparr>)) else rd_status cb b)"
    by (rule upd_hdr_ok[OF hx, where f = "\<lambda>h'. h'\<lparr>m_pNext := m_pNext h\<rparr>"]) (rule that)
  have px: "p \<noteq> x" using D(1) by auto
  then have p1: "rd_hdr cb1 p = Some h" using rd1(1)[of p] h by simp
  let ?f = "\<lambda>h. h\<lparr>m_pNext := 0, m_u8Status := BUF_STATUS_UNLINKED\<rparr>"
  obtain cb2 where u2: "upd_hdr cb1 p ?f = Some cb2" and rhcb2: "\<And>b. rd_hdr cb2 b = (if b = p then Some (?f h) else rd_hdr cb1 b)"
      and rd2: "\<And>b. rd_next cb2 b = (if b = p then Some (m_pNext (?f h)) else rd_next cb1 b)"
    "\<And>b. rd_status cb2 b = (if b = p then Some (m_u8Status (?f h)) else rd_status cb1 b)"
    by (rule upd_hdr_ok[OF p1, where f = ?f]) (rule that)
  have ne: "p + BUFFER_HDR_SIZE \<noteq> m_pFirst q" using D(1) E(3) by (cases as) auto
  have x0: "x \<noteq> 0" using linked_nonzero[OF f, of x] by simp
  have lp: "p + BUFFER_HDR_SIZE = m_pLast q \<longleftrightarrow> bs = []"
  proof (cases "bs = []")
    case False
    then have "last bs \<noteq> p" using D(1) last_in_set[OF False] by auto
    with False show ?thesis using E(4) by auto
  qed (use E(4) in simp)
  let ?q = "(if bs = [] then q\<lparr>m_pLast := x + BUFFER_HDR_SIZE\<rparr> else q)\<lparr>m_u16Count := length (as @ x # bs)\<rparr>"
  have "AKI_QueueRemove cb q (p + BUFFER_HDR_SIZE) = Some (cb2, ?q, p + BUFFER_HDR_SIZE)"
  proof (cases "bs = []")
    case True
    then show ?thesis using ne queue_prev_eq[OF f D(1)] x0 h u1 u2 E(1,3,4) count_down[OF E(2)] fx
      by (simp add: AKI_QueueRemove_def Let_def)
  next
    case False
    then show ?thesis using ne queue_prev_eq[OF f D(1)] x0 h u1 u2 lp E(1,3) count_down[OF E(2)] fx
      by (simp add: AKI_QueueRemove_def Let_def)
  qed
  moreover have "linked (rd_next cb2) f (as @ x # bs)"
    by (rule linked_unlink[OF f D(1)]) (use rd1(2) rd2(1) D(1) h px in \<open>auto simp: rd_next_def\<close>)
  then have "\<exists>f. linked (rd_next cb2) f (as @ x # bs)" by blast
  moreover have "rd_status cb2 a = Some BUF_STATUS_QUEUED" if "a \<in> set (as @ x # bs)" for a
  proof -
    have "m_u8Status hx = BUF_STATUS_QUEUED" using D(4)[of x] hx by (simp add: rd_status_def)
    then show ?thesis using that rd1(3) rd2(2) D(1) D(4)[of a] by auto
  qed
  moreover have "ends_ok ?q (as @ x # bs)" using E by (auto simp: ends_ok_def hd_append)
  moreover have "rd_status cb2 p = Some BUF_STATUS_UNLINKED" using rd2(2)[of p] by simp
  ultimately show ?thesis using D(1) unfolding aq_def by (intro exI[of _ cb2] exI[of _ ?q]) simp
qed

subsection \<open>The contract, and an example\<close>

lemma no_refill_ok: "refill_ok no_refill cb sz"
  by (simp add: refill_ok_def no_refill_def)

lemma aki_get: "pools_valid cb F \<Longrightarrow> 0 < sz \<Longrightarrow> \<exists>pid. can_serve cb sz pid \<Longrightarrow>
  \<exists>cb' pid p ps. F pid = p # ps \<and> AKI_GetPackage cb sz = Some (cb', p + BUFFER_HDR_SIZE) \<and>
    pools_valid cb' (F(pid := ps)) \<and> buf_lent cb' pid p \<and> (\<forall>i q. buf_lent cb i q \<longrightarrow> buf_lent cb' i q)"
  unfolding AKI_GetPackage_def using lend_get[OF _ _ _ no_refill_ok] by blast

lemma aki_put: "pools_valid cb F \<Longrightarrow> buf_lent cb pid p \<Longrightarrow>
  \<exists>cb'. AKI_PutPackage cb (p + BUFFER_HDR_SIZE) = Some cb' \<and> pools_valid cb' (F(pid := F pid @ [p]))"
  unfolding AKI_PutPackage_def using lend_put by blast

interpretation aki: lending pools_valid buf_lent "\<lambda>cb sz. \<exists>pid. can_serve cb sz pid" AKI_GetPackage AKI_PutPackage
  by unfold_locales (fact aki_get, fact aki_put, fact lend_not_free)

lemma free_space_less:
  assumes "free_space cb p n" "m \<le> n"
  shows "free_space cb p m"
  unfolding free_space_def
proof (intro conjI allI impI)
  have "in_block cb p n" using assms(1) by (simp add: free_space_def)
  then show "in_block cb p m" by (rule in_block_sub[rotated 2]) (use assms(2) in simp_all)
  show "pend cb j \<le> p \<or> p + m \<le> pstart cb j" if "j < POOLS_TOTAL_MAX" "pstart cb j \<noteq> 0" for j
  proof -
    have "pend cb j \<le> p \<or> p + n \<le> pstart cb j" using assms(1) that unfolding free_space_def by blast
    with assms(2) show ?thesis by linarith
  qed
qed (use assms(1) in \<open>simp_all add: free_space_def\<close>)

lemma create_pool_ok:
  assumes inv: "bp_inv cb F" and un: "first_unused cb \<noteq> POOLS_TOTAL_MAX" and sz: "0 < sz" "4 dvd sz" "sz \<le> 65520"
    and us: "sz + 12 \<le> usize" "usize < 2 ^ 16" and sp: "free_space cb p usize"
  shows "\<exists>cb'. AKI_BufferCreatePool cb p usize sz = Some (cb', 0, first_unused cb) \<and>
    bp_inv cb' (F(first_unused cb := bufs cb' (first_unused cb))) \<and> pstart cb' (first_unused cb) = p \<and>
    length (bufs cb' (first_unused cb)) = usize div (sz + 12) \<and> m_u16PackSize (fq cb' (first_unused cb)) = sz \<and>
    set (listed cb') = insert (first_unused cb) (set (listed cb)) \<and>
    (\<forall>i<POOLS_TOTAL_MAX. restricted cb' i = (if i = first_unused cb then False else restricted cb i)) \<and>
    (intact cb \<longrightarrow> intact cb')"
proof -
  note pid = first_unused[OF bp_invD(1)[OF inv] un]
  let ?n = "usize div (sz + BUFFER_PADDING_SIZE)"
  have n: "0 < ?n" "?n < 2 ^ 16" "(sz + BUFFER_PADDING_SIZE) * ?n \<le> usize"
    using us by (auto simp: pool_sizes div_greater_zero_iff intro: le_less_trans[OF div_le_dividend])
  have sp': "free_space cb p ((ALIGN_SIZE sz + BUFFER_PADDING_SIZE) * ?n)"
    unfolding ALIGN_SIZE_id[OF sz(2)] by (rule free_space_less[OF sp n(3)])
  have "sz \<le> BUFFER_SIZE_MAX" using sz(3) by (simp add: BUFFER_SIZE_MAX_def pool_sizes)
  note eq = create_pool_eq[OF this pid(1), of p usize]
  show ?thesis unfolding eq
    using add_pool_ok[OF inv pid sz(1,3) n(1,2) sp', of AKI_TASK_INVALID POOL_PUBLIC]
    by (auto simp: ALIGN_SIZE_id[OF sz(2)] POOL_PUBLIC_def POOL_RESTRICTED_def BUFFER_PADDING_SIZE_def)
qed

definition demo_aki :: T_AkiBuffer where
  "demo_aki = AKI_BufferInit \<lparr>in_atFreeq = [], m_apPoolStart = [], m_apPoolEnd = [], m_ausPoolSize = [],
     m_u16PoolAccessMask = 0, m_aucPoolList = [], m_u8CurrTotalPools = 0, b_hdrs = (\<lambda>_. None), b_words = (\<lambda>_. None),
     b_blocks = [(4096, 330)]\<rparr>"

definition demo_aki1 :: T_AkiBuffer where
  "demo_aki1 = fst (the (AKI_BufferCreatePool demo_aki 4096 330 200))"

definition demo_F :: "nat \<Rightarrow> addr list" where "demo_F = (\<lambda>_. [])(0 := bufs demo_aki1 0)"

lemma demo_aki_start:
  "bp_inv demo_aki (\<lambda>_. [])" "intact demo_aki" "first_unused demo_aki = 0" "free_space demo_aki 4096 330" "listed demo_aki = []"
  "b_blocks demo_aki = [(4096, 330)]"
proof -
  show "bp_inv demo_aki (\<lambda>_. [])" by (rule no_pools) (simp_all add: demo_aki_def AKI_BufferInit_def arrays_ok_def)
  show "intact demo_aki" by (simp add: intact_def bufs_def demo_aki_def AKI_BufferInit_def empty_freeq_def)
  show "first_unused demo_aki = 0" "listed demo_aki = []" "b_blocks demo_aki = [(4096, 330)]"
    by (simp_all add: first_unused_def listed_def demo_aki_def AKI_BufferInit_def POOLS_TOTAL_MAX_def)
  show "free_space demo_aki 4096 330" by (simp add: free_space_def demo_aki_def AKI_BufferInit_def in_block_def)
qed

lemma demo_aki1_ok:
  "pools_valid demo_aki1 demo_F" "length (bufs demo_aki1 0) = 1" "pstart demo_aki1 0 = 4096"
  "can_serve demo_aki1 100 0" "m_u16PackSize (fq demo_aki1 0) = 200"
proof -
  have "first_unused demo_aki \<noteq> POOLS_TOTAL_MAX" by (simp add: demo_aki_start POOLS_TOTAL_MAX_def)
  then obtain cb' where c: "AKI_BufferCreatePool demo_aki 4096 330 200 = Some (cb', 0, 0)"
    "bp_inv cb' ((\<lambda>_. [])(0 := bufs cb' 0))" "pstart cb' 0 = 4096" "length (bufs cb' 0) = 330 div (200 + 12)"
    "m_u16PackSize (fq cb' 0) = 200" "\<forall>i<POOLS_TOTAL_MAX. restricted cb' i = (if i = 0 then False else restricted demo_aki i)" "intact cb'"
    using create_pool_ok[OF demo_aki_start(1) _ _ _ _ _ _ demo_aki_start(4), of 200] demo_aki_start(2,3) by auto
  have d: "demo_aki1 = cb'" by (simp add: demo_aki1_def c(1))
  show "pools_valid demo_aki1 demo_F"
    using c(2,7) unfolding demo_F_def d pools_valid_def by (simp add: POOLS_TOTAL_MAX_def)
  show len: "length (bufs demo_aki1 0) = 1" "pstart demo_aki1 0 = 4096" "m_u16PackSize (fq demo_aki1 0) = 200"
    using c(3,4,5) unfolding d by simp_all
  have "bp_pool cb' 0 (bufs cb' 0)" using bp_invD(3)[OF c(2), of 0] by (simp add: POOLS_TOTAL_MAX_def)
  then have "queue_ok cb' 0 (bufs cb' 0)" using c(3) by (simp add: bp_pool_def)
  then have "m_u16PackCurCnt (fq cb' 0) = 0 \<and> m_u16PackTotal (fq cb' 0) = 1"
    using len(1) unfolding d queue_ok_def by (simp add: bufs_def)
  then show "can_serve demo_aki1 100 0" using c(5,6) unfolding d can_serve_def by (simp add: POOLS_TOTAL_MAX_def)
qed

subsection \<open>Properties\<close>

text \<open>C10: A request is served from a public pool whose buffers are large enough and as small as possible: the
  buffer is the oldest free one of that pool, gets the current task and the status of a lent buffer, and the pools
  stay valid; when no public pool can serve it, null is returned and nothing changes.\<close>
theorem AKI_GetPackage_best:
  assumes "bp_inv cb F" and "0 < sz"
  shows "if \<exists>pid. can_serve cb sz pid
    then \<exists>cb' pid p ps. best_pool cb sz pid \<and> F pid = p # ps \<and> AKI_GetPackage cb sz = Some (cb', p + BUFFER_HDR_SIZE) \<and>
      bp_inv cb' (F(pid := ps)) \<and> taken AKI_TASK_GET_ID cb cb' pid p
    else AKI_GetPackage cb sz = Some (cb, 0)"
  using get_buf_ok[OF assms(1) no_refill_ok assms(2), of AKI_TASK_GET_ID] by (simp only: AKI_GetPackage_def)

lemma AKI_GetPackage_best_witness:
  "\<exists>cb' pid p ps. best_pool demo_aki1 100 pid \<and> AKI_GetPackage demo_aki1 100 = Some (cb', p + BUFFER_HDR_SIZE) \<and>
     bp_inv cb' (demo_F(pid := ps)) \<and> taken AKI_TASK_GET_ID demo_aki1 cb' pid p"
proof -
  have "bp_inv demo_aki1 demo_F" using demo_aki1_ok(1) by (simp only: pools_valid_def)
  note best = AKI_GetPackage_best[OF this, of 100]
  have ex: "\<exists>pid. can_serve demo_aki1 100 pid" using demo_aki1_ok(4) by blast
  have "(0 :: nat) < 100" by simp
  from best[OF this, unfolded if_P[OF ex]] show ?thesis by blast
qed

text \<open>C11: Returning a lent buffer puts it behind the free buffers of its pool and keeps the pools valid; a buffer that
  is not lent (returned twice or queued) or whose magic word is damaged changes nothing.\<close>
theorem AKI_PutPackage_returns:
  assumes "bp_inv cb F" and "pid < POOLS_TOTAL_MAX" and "p \<in> set (bufs cb pid)"
  shows "if map_option m_u8Status (b_hdrs cb p) = Some BUF_STATUS_UNLINKED \<and> b_words cb (magic_at cb pid p) = Some MAGIC_NO
    then \<exists>cb'. AKI_PutPackage cb (p + BUFFER_HDR_SIZE) = Some cb' \<and> bp_inv cb' (F(pid := F pid @ [p])) \<and>
      returned AKI_TASK_INVALID cb cb' pid p
    else AKI_PutPackage cb (p + BUFFER_HDR_SIZE) = Some cb"
proof (cases "map_option m_u8Status (b_hdrs cb p) = Some BUF_STATUS_UNLINKED \<and> b_words cb (magic_at cb pid p) = Some MAGIC_NO")
  case True
  then have "map_option m_u8Status (b_hdrs cb p) = Some BUF_STATUS_UNLINKED" "b_words cb (magic_at cb pid p) = Some MAGIC_NO" by blast+
  from put_buf_ok[OF assms this, of AKI_TASK_INVALID] show ?thesis unfolding if_P[OF True] AKI_PutPackage_def .
next
  case False
  then have "map_option m_u8Status (b_hdrs cb p) \<noteq> Some BUF_STATUS_UNLINKED \<or> b_words cb (magic_at cb pid p) \<noteq> Some MAGIC_NO" by blast
  from put_buf_refused[OF assms this, of AKI_TASK_INVALID] show ?thesis unfolding if_not_P[OF False] AKI_PutPackage_def .
qed

lemma AKI_PutPackage_returns_witness:
  "\<exists>p \<in> set (bufs demo_aki1 0). AKI_PutPackage demo_aki1 (p + BUFFER_HDR_SIZE) = Some demo_aki1"
proof -
  have inv: "bp_inv demo_aki1 demo_F" using demo_aki1_ok(1) by (simp only: pools_valid_def)
  obtain p where p: "p \<in> set (bufs demo_aki1 0)" using demo_aki1_ok(2) by (cases "bufs demo_aki1 0") auto
  have z: "0 < POOLS_TOTAL_MAX" by (simp add: POOLS_TOTAL_MAX_def)
  obtain h where "b_hdrs demo_aki1 p = Some h"
    "m_u8Status h = BUF_STATUS_FREE \<longleftrightarrow> p \<in> set (demo_F 0)" by (rule bp_buf[OF inv z p]) (rule that)
  then have "\<not> (map_option m_u8Status (b_hdrs demo_aki1 p) = Some BUF_STATUS_UNLINKED \<and> b_words demo_aki1 (magic_at demo_aki1 0 p) = Some MAGIC_NO)"
    using p by (simp add: BUF_STATUS_FREE_def BUF_STATUS_UNLINKED_def demo_F_def)
  with AKI_PutPackage_returns[OF inv z p] p show ?thesis by (simp only: if_False) blast
qed

text \<open>A package that is got and put back goes to the end of the free packages of its pool, and the pools
  are as before otherwise.\<close>
theorem AKI_get_then_put:
  assumes "pools_valid cb F" and "0 < sz" and "\<exists>pid. can_serve cb sz pid"
  shows "\<exists>cb' cb'' pid p ps. F pid = p # ps \<and> AKI_GetPackage cb sz = Some (cb', p + BUFFER_HDR_SIZE) \<and>
    AKI_PutPackage cb' (p + BUFFER_HDR_SIZE) = Some cb'' \<and> pools_valid cb'' (F(pid := ps @ [p]))"
  by (rule aki.get_then_put[OF assms])

lemma AKI_get_then_put_witness:
  "\<exists>cb' cb'' pid p ps. AKI_GetPackage demo_aki1 100 = Some (cb', p + BUFFER_HDR_SIZE) \<and>
    AKI_PutPackage cb' (p + BUFFER_HDR_SIZE) = Some cb'' \<and> pools_valid cb'' (demo_F(pid := ps @ [p]))"
proof -
  have "(0 :: nat) < 100" "\<exists>pid. can_serve demo_aki1 100 pid" using demo_aki1_ok(4) by (simp, blast)
  from AKI_get_then_put[OF demo_aki1_ok(1) this] show ?thesis by blast
qed

text \<open>Creating a pool of packages whose size is a multiple of 4 in memory of the caller cuts the memory into as
  many packages as fit, all free, puts the pool into the list by size, open to everyone, and keeps the pools valid.\<close>
theorem AKI_BufferCreatePool_valid:
  assumes "bp_inv cb F" and "first_unused cb \<noteq> POOLS_TOTAL_MAX" and "0 < sz" and "4 dvd sz" and "sz \<le> 65520"
    and "sz + 12 \<le> usize" and "usize < 2 ^ 16" and "free_space cb p usize"
  shows "\<exists>cb'. AKI_BufferCreatePool cb p usize sz = Some (cb', 0, first_unused cb) \<and>
    bp_inv cb' (F(first_unused cb := bufs cb' (first_unused cb))) \<and>
    length (bufs cb' (first_unused cb)) = usize div (sz + 12) \<and> m_u16PackSize (fq cb' (first_unused cb)) = sz \<and>
    set (listed cb') = insert (first_unused cb) (set (listed cb)) \<and> \<not> restricted cb' (first_unused cb)"
  using create_pool_ok[OF assms] first_unused(1)[OF bp_invD(1)[OF assms(1)] assms(2)] by fastforce

lemma AKI_BufferCreatePool_valid_witness:
  "\<exists>cb'. AKI_BufferCreatePool demo_aki 4096 330 200 = Some (cb', 0, 0) \<and> length (bufs cb' 0) = 1"
proof -
  have a: "first_unused demo_aki \<noteq> POOLS_TOTAL_MAX" by (simp add: demo_aki_start POOLS_TOTAL_MAX_def)
  have b: "(0 :: nat) < 200" "4 dvd (200 :: nat)" "(200 :: nat) \<le> 65520" "200 + 12 \<le> (330 :: nat)" "(330 :: nat) < 2 ^ 16" by simp_all
  from AKI_BufferCreatePool_valid[OF demo_aki_start(1) a b demo_aki_start(4)] show ?thesis by (auto simp: demo_aki_start)
qed

text \<open>For a package size that is not a multiple of 4 the pool does not fit: when the caller gives exactly the
  memory of \<open>n\<close> packages, the last magic word is written behind it.\<close>
theorem AKI_BufferCreatePool_overruns:
  assumes "arrays_ok cb" and "first_unused cb \<noteq> POOLS_TOTAL_MAX" and "\<not> 4 dvd sz" and "sz \<le> 65520" and "0 < n"
    and "b_blocks cb = [(p, n * (sz + 12))]" and "p \<noteq> 0"
  shows "AKI_BufferCreatePool cb p (n * (sz + 12)) sz = None"
proof -
  have pid: "first_unused cb < POOLS_TOTAL_MAX" by (rule first_unused[OF assms(1,2)])
  let ?ts = "ALIGN_SIZE sz" and ?act = "ALIGN_SIZE sz + BUFFER_PADDING_SIZE"
  have "?ts \<le> 65520"
  proof -
    have "(sz + 3) div 4 \<le> 16380" using assms(4) by simp
    then show ?thesis by (simp add: ALIGN_SIZE_def)
  qed
  then have act: "u16 ?act = ?act" by (simp add: c_arith pool_sizes)
  have last: "n * (sz + 12) < (n - 1) * ?act + BUFFER_HDR_SIZE + ?ts + 4"
  proof -
    have "n * (sz + 12) < n * ?act" using ALIGN_SIZE_more[OF assms(3)] assms(5) by (simp add: BUFFER_PADDING_SIZE_def)
    also have "n * ?act = (n - 1) * ?act + ?act" using assms(5) by (cases n) simp_all
    finally show ?thesis by (simp add: pool_sizes)
  qed
  have "init_bufs AKI_TASK_INVALID pid ?ts ?act cb' p 0 n = None" if "b_blocks cb' = b_blocks cb" for pid cb'
  proof (rule ccontr)
    assume "init_bufs AKI_TASK_INVALID pid ?ts ?act cb' p 0 n \<noteq> None"
    then obtain r where "init_bufs AKI_TASK_INVALID pid ?ts ?act cb' p 0 n = Some r" by blast
    from init_bufs_bounds[OF this, of "n - 1"] assms(5) have "in_block cb' (p + (n - 1) * ?act + BUFFER_HDR_SIZE + ?ts) 4" by simp
    then show False using last that assms(6) by (simp add: in_block_def)
  qed
  then have "init_free_queue AKI_TASK_INVALID cb (first_unused cb) sz n p = None"
    using assms(7) act by (simp add: init_free_queue_def Let_def)
  moreover have "sz \<le> BUFFER_SIZE_MAX" using assms(4) by (simp add: BUFFER_SIZE_MAX_def pool_sizes)
  moreover have "n * (sz + 12) div (sz + BUFFER_PADDING_SIZE) = n" by (simp add: BUFFER_PADDING_SIZE_def)
  ultimately show ?thesis using create_pool_eq[OF _ pid] by (simp add: add_pool_def)
qed

lemma AKI_BufferCreatePool_overruns_witness:
  "AKI_BufferCreatePool demo_aki 4096 330 (98 :: nat) = None"
proof -
  have a: "arrays_ok demo_aki" "first_unused demo_aki \<noteq> POOLS_TOTAL_MAX" "\<not> 4 dvd (98 :: nat)" "(98 :: nat) \<le> 65520" "(0 :: nat) < 3"
    "b_blocks demo_aki = [(4096, 3 * (98 + 12))]" "(4096 :: nat) \<noteq> 0"
    using bp_invD(1)[OF demo_aki_start(1)] by (simp_all add: demo_aki_start POOLS_TOTAL_MAX_def)
  from AKI_BufferCreatePool_overruns[OF a] show ?thesis by simp
qed

text \<open>Any address inside a buffer leads back to the buffer's user address; one outside all pools gives null.\<close>
theorem AKI_CheckStartAddr_finds:
  assumes "bp_inv cb F" and "pid < POOLS_TOTAL_MAX" and "p \<in> set (bufs cb pid)" and "p < a" and "a < p + psize cb pid"
  shows "AKI_CheckStartAddr cb a = Some (p + BUFFER_HDR_SIZE)"
  unfolding AKI_CheckStartAddr_def by (rule find_start_ok[OF assms])

lemma AKI_CheckStartAddr_finds_witness:
  "AKI_CheckStartAddr demo_aki1 4200 = Some 4104"
proof -
  have inv: "bp_inv demo_aki1 demo_F" using demo_aki1_ok(1) by (simp only: pools_valid_def)
  have z: "0 < POOLS_TOTAL_MAX" by (simp add: POOLS_TOTAL_MAX_def)
  have "bufs demo_aki1 0 = [4096]" using demo_aki1_ok(2,3) by (simp add: bufs_def buf_at_def)
  then have p: "4096 \<in> set (bufs demo_aki1 0)" by simp
  have "psize demo_aki1 0 = 212" using buf_range(5)[OF bp_invD(3)[OF inv z] p] demo_aki1_ok(5) by simp
  then show ?thesis using AKI_CheckStartAddr_finds[OF inv z p, of 4200] by (simp add: BUFFER_HDR_SIZE_def)
qed



end
