(* ===== verification/Gki_Buffer.thy ===== *)
theory Gki_Buffer
  imports Buffer_Pool
begin

section \<open>The gki buffers (\<^verbatim>\<open>gki/src/gki_buffer.c\<close>)\<close>

text \<open>
  The control block \<^verbatim>\<open>gki_cb\<close> is passed explicitly; it has the fields of the shared pools. Its
  fields \<^verbatim>\<open>bufpool0\<close> to \<^verbatim>\<open>bufpool5\<close> are only written, by \<open>gki_buffer_init\<close>, which returns them; the
  fields \<^verbatim>\<open>pool_buf_size\<close>, \<^verbatim>\<open>pool_max_count\<close> and \<^verbatim>\<open>pool_additions\<close> are not used by any function.
  \<^verbatim>\<open>GKI_disable\<close> and \<^verbatim>\<open>GKI_enable\<close> are empty.

  Memory comes from malloc, a parameter: \<open>mal bs n\<close> is the address it gives for \<open>n\<close> bytes while
  the blocks \<open>bs\<close> are allocated, null when it fails.
\<close>

type_synonym BUFFER_HDR_T = T_AkiPackHdr
type_synonym FREE_QUEUE_T = T_AkiFreeq
type_synonym tGKI_COM_CB = T_AkiBuffer

definition GKI_INVALID_TASK :: nat where "GKI_INVALID_TASK = 0xF0"
definition GKI_INVALID_POOL :: int where "GKI_INVALID_POOL = 0xFF"
definition GKI_DEF_BUFPOOL_PERM_MASK :: u16 where "GKI_DEF_BUFPOOL_PERM_MASK = 0xfde0"
definition GKI_NUM_FIXED_BUF_POOLS :: nat where "GKI_NUM_FIXED_BUF_POOLS = 6"
definition GKI_get_taskid :: nat where "GKI_get_taskid = 1"

text \<open>The size and number of the buffers of the fixed pools.\<close>

definition gki_fixed :: "(nat \<times> nat) list" where
  "gki_fixed = [(200, 10), (200, 10), (200, 10), (200, 10), (200, 10), (200, 10)]"

definition GKI_os_malloc :: "malloc \<Rightarrow> tGKI_COM_CB \<Rightarrow> nat \<Rightarrow> tGKI_COM_CB \<times> addr" where
  "GKI_os_malloc mal cb n =
     (let p = mal (b_blocks cb) n in (if p = 0 then cb else cb\<lparr>b_blocks := (p, n) # b_blocks cb\<rparr>, p))"

definition GKI_os_free :: "tGKI_COM_CB \<Rightarrow> addr \<Rightarrow> tGKI_COM_CB option" where
  "GKI_os_free cb p =
     (if p = 0 then Some cb
      else if p \<in> fst ` set (b_blocks cb) then Some (cb\<lparr>b_blocks := filter (\<lambda>b. fst b \<noteq> p) (b_blocks cb)\<rparr>)
      else None)"

definition gki_add_to_pool_list :: "tGKI_COM_CB \<Rightarrow> nat \<Rightarrow> tGKI_COM_CB option" where
  "gki_add_to_pool_list cb pid = add_to_pool_list cb pid"

definition gki_remove_from_pool_list :: "tGKI_COM_CB \<Rightarrow> nat \<Rightarrow> tGKI_COM_CB option" where
  "gki_remove_from_pool_list cb pid = remove_from_pool_list cb pid"

definition gki_init_free_queue :: "tGKI_COM_CB \<Rightarrow> nat \<Rightarrow> nat \<Rightarrow> nat \<Rightarrow> addr \<Rightarrow> tGKI_COM_CB option" where
  "gki_init_free_queue cb pid sz cnt p_mem = init_free_queue GKI_INVALID_TASK cb pid sz cnt p_mem"

text \<open>The queue is that of the pool in place \<open>i\<close> of the list, but the memory becomes that of pool \<open>i\<close>.\<close>

definition gki_alloc_free_queue :: "malloc \<Rightarrow> tGKI_COM_CB \<Rightarrow> nat \<Rightarrow> (tGKI_COM_CB \<times> nat) option" where
  "gki_alloc_free_queue mal cb i =
     do {
       pid \<leftarrow> ith (m_aucPoolList cb) i;
       q \<leftarrow> ith (in_atFreeq cb) pid;
       if in_pFirst q = 0
       then do {
         let (cb1, p) = GKI_os_malloc mal cb (u32 ((m_u16PackSize q + BUFFER_PADDING_SIZE) * m_u16PackTotal q));
         if p \<noteq> 0
         then do { cb2 \<leftarrow> gki_init_free_queue cb1 i (m_u16PackSize q) (m_u16PackTotal q) p; Some (cb2, 1) }
         else Some (cb1, 0)
       }
       else Some (cb, 0)
     }"

text \<open>The loop of \<open>gki_dealloc_free_queue\<close> from pool \<open>i\<close> with \<open>n\<close> left.\<close>

fun dealloc_from :: "tGKI_COM_CB \<Rightarrow> nat \<Rightarrow> nat \<Rightarrow> tGKI_COM_CB option" where
  "dealloc_from cb i 0 = Some cb"
| "dealloc_from cb i (Suc n) =
     do {
       q \<leftarrow> ith (in_atFreeq cb) i;
       cb1 \<leftarrow> (if 0 < m_u16PackMaxCnt q
         then do {
           p \<leftarrow> ith (m_apPoolStart cb) i;
           cb1 \<leftarrow> GKI_os_free cb p;
           Some (clear_pool (cb1\<lparr>in_atFreeq := (in_atFreeq cb1)
             [i := q\<lparr>m_u16PackCurCnt := 0, m_u16PackMaxCnt := 0, in_pFirst := 0, in_pLast := 0\<rparr>]\<rparr>) i)
         }
         else Some cb);
       dealloc_from cb1 (i + 1) n
     }"

definition gki_dealloc_free_queue :: "tGKI_COM_CB \<Rightarrow> tGKI_COM_CB option" where
  "gki_dealloc_free_queue cb = dealloc_from cb 0 (m_u8CurrTotalPools cb)"

text \<open>The memory of the fixed pools, and their queues from pool \<open>i\<close>.\<close>

fun fixed_mallocs :: "malloc \<Rightarrow> tGKI_COM_CB \<Rightarrow> (nat \<times> nat) list \<Rightarrow> tGKI_COM_CB \<times> addr list" where
  "fixed_mallocs mal cb [] = (cb, [])"
| "fixed_mallocs mal cb ((sz, n) # rest) =
     (let (cb1, p) = GKI_os_malloc mal cb ((sz + BUFFER_PADDING_SIZE) * n);
          (cb2, ps) = fixed_mallocs mal cb1 rest in (cb2, p # ps))"

fun fixed_inits :: "tGKI_COM_CB \<Rightarrow> nat \<Rightarrow> ((nat \<times> nat) \<times> addr) list \<Rightarrow> tGKI_COM_CB option" where
  "fixed_inits cb i [] = Some cb"
| "fixed_inits cb i (((sz, n), p) # rest) = do { cb1 \<leftarrow> gki_init_free_queue cb i sz n p; fixed_inits cb1 (i + 1) rest }"

definition gki_cleared :: "tGKI_COM_CB \<Rightarrow> tGKI_COM_CB" where
  "gki_cleared cb =
     cb\<lparr>in_atFreeq := replicate POOLS_TOTAL_MAX empty_freeq,
        m_apPoolStart := replicate POOLS_TOTAL_MAX 0, m_apPoolEnd := replicate POOLS_TOTAL_MAX 0,
        m_ausPoolSize := replicate POOLS_TOTAL_MAX 0, m_u16PoolAccessMask := GKI_DEF_BUFPOOL_PERM_MASK\<rparr>"

text \<open>The list of pools has its six places before and after; the result holds \<^verbatim>\<open>bufpool0\<close> to \<^verbatim>\<open>bufpool5\<close> too.\<close>

definition gki_buffer_init :: "malloc \<Rightarrow> tGKI_COM_CB \<Rightarrow> (tGKI_COM_CB \<times> addr list) option" where
  "gki_buffer_init mal cb =
     (let (cb1, ps) = fixed_mallocs mal (gki_cleared cb) gki_fixed in
      do {
        cb2 \<leftarrow> fixed_inits cb1 0 (zip gki_fixed ps);
        Some (cb2\<lparr>m_aucPoolList := [0..<GKI_NUM_FIXED_BUF_POOLS], m_u8CurrTotalPools := GKI_NUM_FIXED_BUF_POOLS\<rparr>, ps)
      })"

definition GKI_get_buf_size :: "tGKI_COM_CB \<Rightarrow> addr \<Rightarrow> nat option" where
  "GKI_get_buf_size cb p = buf_size cb p"

definition gki_chk_buf_damage :: "tGKI_COM_CB \<Rightarrow> addr \<Rightarrow> bool option" where
  "gki_chk_buf_damage cb p = buf_damaged cb p"

definition GKI_find_buf_start :: "tGKI_COM_CB \<Rightarrow> addr \<Rightarrow> addr option" where
  "GKI_find_buf_start cb p = find_start cb p 0 POOLS_TOTAL_MAX"

definition GKI_set_pool_permission :: "tGKI_COM_CB \<Rightarrow> nat \<Rightarrow> nat \<Rightarrow> tGKI_COM_CB \<times> nat" where
  "GKI_set_pool_permission cb pid perm =
     (if pid < POOLS_TOTAL_MAX then (pool_set_permission cb pid perm, 0) else (cb, 0xFF))"

text \<open>A pool whose queue is empty though it has buffers left gets memory first.\<close>

definition gki_refill :: "malloc \<Rightarrow> tGKI_COM_CB \<Rightarrow> nat \<Rightarrow> nat \<Rightarrow> (tGKI_COM_CB \<times> bool) option" where
  "gki_refill mal cb pid i =
     do {
       q \<leftarrow> ith (in_atFreeq cb) pid;
       if in_pFirst q = 0 then map_option (\<lambda>(cb1, r). (cb1, r = 1)) (gki_alloc_free_queue mal cb i)
       else Some (cb, True)
     }"

definition GKI_getbuf_raw :: "malloc \<Rightarrow> tGKI_COM_CB \<Rightarrow> nat \<Rightarrow> (tGKI_COM_CB \<times> addr) option" where
  "GKI_getbuf_raw mal cb sz = get_buf GKI_get_taskid (gki_refill mal) cb sz"

definition GKI_getpoolbuf_raw :: "malloc \<Rightarrow> tGKI_COM_CB \<Rightarrow> nat \<Rightarrow> (tGKI_COM_CB \<times> addr) option" where
  "GKI_getpoolbuf_raw mal cb pid = get_pool_buf GKI_get_taskid (gki_refill mal) cb pid"

definition GKI_freebuf_raw :: "tGKI_COM_CB \<Rightarrow> addr \<Rightarrow> tGKI_COM_CB option" where
  "GKI_freebuf_raw cb p = put_buf GKI_INVALID_TASK cb p"

definition GKI_poolcount :: "tGKI_COM_CB \<Rightarrow> nat \<Rightarrow> nat option" where
  "GKI_poolcount cb pid =
     (if pid \<ge> POOLS_TOTAL_MAX then Some 0 else map_option m_u16PackTotal (ith (in_atFreeq cb) pid))"

definition GKI_poolfreecount :: "tGKI_COM_CB \<Rightarrow> nat \<Rightarrow> nat option" where
  "GKI_poolfreecount cb pid =
     (if pid \<ge> POOLS_TOTAL_MAX then Some 0
      else map_option (\<lambda>q. u16 (m_u16PackTotal q + (2 ^ 16 - m_u16PackCurCnt q))) (ith (in_atFreeq cb) pid))"

text \<open>
  The rows printed: pool, restricted or not, size, buffers in use, most in use, total. The loop of
  \<open>GKI_PrintBufferUsage\<close> from pool \<open>i\<close> with \<open>n\<close> left also fills the array of the counts, of six places.
\<close>

type_synonym usage_row = "nat \<times> bool \<times> nat \<times> nat \<times> nat \<times> nat"

fun usage_rows :: "tGKI_COM_CB \<Rightarrow> nat \<Rightarrow> nat \<Rightarrow> usage_row list option" where
  "usage_rows cb i 0 = Some []"
| "usage_rows cb i (Suc n) =
     do {
       q \<leftarrow> ith (in_atFreeq cb) i;
       guard (i < POOLS_TOTAL_MAX);
       rows \<leftarrow> usage_rows cb (i + 1) n;
       Some ((i, restricted cb i, m_u16PackSize q, m_u16PackCurCnt q, m_u16PackMaxCnt q, m_u16PackTotal q) # rows)
     }"

text \<open>The rows, the number of pools and the counts the caller gets.\<close>

definition GKI_PrintBufferUsage :: "tGKI_COM_CB \<Rightarrow> (usage_row list \<times> nat \<times> nat list) option" where
  "GKI_PrintBufferUsage cb =
     map_option (\<lambda>rows. (rows, m_u8CurrTotalPools cb, map (\<lambda>(i, r, sz, cur, mx, tot). cur) rows))
       (usage_rows cb 0 (m_u8CurrTotalPools cb))"

definition GKI_PrintBuffer :: "tGKI_COM_CB \<Rightarrow> (nat \<times> nat \<times> nat \<times> nat \<times> nat) list" where
  "GKI_PrintBuffer cb =
     map (\<lambda>i. (i, m_u16PackSize (in_atFreeq cb ! i), m_u16PackCurCnt (in_atFreeq cb ! i),
       m_u16PackMaxCnt (in_atFreeq cb ! i), m_u16PackTotal (in_atFreeq cb ! i))) [0..<POOLS_TOTAL_MAX]"

text \<open>One row for each buffer: its owner, its status and whether the magic word is intact.\<close>

fun stat_rows :: "tGKI_COM_CB \<Rightarrow> addr \<Rightarrow> nat \<Rightarrow> nat \<Rightarrow> nat \<Rightarrow> (nat \<times> nat \<times> bool) list option" where
  "stat_rows cb hdr sz act 0 = Some []"
| "stat_rows cb hdr sz act (Suc n) =
     do {
       h \<leftarrow> rd_hdr cb hdr;
       guard (in_block cb (hdr + BUFFER_HDR_SIZE + sz) 4);
       w \<leftarrow> b_words cb (hdr + BUFFER_HDR_SIZE + sz);
       rows \<leftarrow> stat_rows cb (hdr + act) sz act n;
       Some ((m_u8TaskId h, m_u8Status h, w = MAGIC_NO) # rows)
     }"

definition gki_print_buffer_statistics :: "tGKI_COM_CB \<Rightarrow> int \<Rightarrow> (nat \<times> nat \<times> bool) list option" where
  "gki_print_buffer_statistics cb pool =
     (if pool > int POOLS_TOTAL_MAX \<or> pool < 0 then Some []
      else do {
        q \<leftarrow> ith (in_atFreeq cb) (nat pool);
        p \<leftarrow> ith (m_apPoolStart cb) (nat pool);
        stat_rows cb p (m_u16PackSize q) (u16 (m_u16PackSize q + BUFFER_PADDING_SIZE)) (m_u16PackTotal q)
      })"

subsection \<open>Creating and deleting pools\<close>

text \<open>The identifier is the third part of the result, where the code sets it.\<close>

definition GKI_create_pool :: "malloc \<Rightarrow> tGKI_COM_CB \<Rightarrow> nat \<Rightarrow> nat \<Rightarrow> nat \<Rightarrow> (tGKI_COM_CB \<times> int \<times> nat option) option" where
  "GKI_create_pool mal cb sz cnt perm =
     (if sz > BUFFER_SIZE_MAX then Some (cb, GKI_INVALID_POOL, None)
      else
        let pid = first_unused cb in
        if pid = POOLS_TOTAL_MAX then Some (cb, GKI_INVALID_POOL, None)
        else
          let (cb1, p) = GKI_os_malloc mal cb (u32 ((ALIGN_SIZE sz + BUFFER_PADDING_SIZE) * cnt)) in
          if p \<noteq> 0
          then do {
            cb2 \<leftarrow> gki_init_free_queue cb1 pid sz cnt p;
            cb3 \<leftarrow> gki_add_to_pool_list cb2 pid;
            let cb4 = fst (GKI_set_pool_permission cb3 pid perm);
            Some (cb4\<lparr>m_u8CurrTotalPools := u8n (m_u8CurrTotalPools cb4 + 1)\<rparr>, 0, Some pid)
          }
          else Some (cb1, -1, None))"

text \<open>The memory is freed before the pool leaves the list; the two do not depend on each other.\<close>

definition GKI_delete_pool :: "tGKI_COM_CB \<Rightarrow> nat \<Rightarrow> tGKI_COM_CB option" where
  "GKI_delete_pool cb pid =
     do {
       (cb1, p) \<leftarrow> delete_pool cb pid;
       GKI_os_free cb1 p
     }"

subsection \<open>Valid pools with memory of their own\<close>

definition own_block :: "tGKI_COM_CB \<Rightarrow> nat \<Rightarrow> bool" where
  "own_block cb pid \<longleftrightarrow> (pstart cb pid = 0 \<or> (pstart cb pid, psize cb pid * m_u16PackTotal (fq cb pid)) \<in> set (b_blocks cb))"

definition gki_valid :: "tGKI_COM_CB \<Rightarrow> (nat \<Rightarrow> addr list) \<Rightarrow> bool" where
  "gki_valid cb F \<longleftrightarrow> pools_valid cb F \<and> (\<forall>pid<POOLS_TOTAL_MAX. own_block cb pid) \<and> blocks_apart (b_blocks cb)"

lemma gki_validD:
  assumes "gki_valid cb F"
  shows "bp_inv cb F" "intact cb" "\<And>i. i \<ge> POOLS_TOTAL_MAX \<Longrightarrow> F i = []" "\<And>i. i < POOLS_TOTAL_MAX \<Longrightarrow> own_block cb i"
    "blocks_apart (b_blocks cb)" "pools_valid cb F"
  using assms unfolding gki_valid_def pools_valid_def by blast+

lemma gki_validI:
  "bp_inv cb F \<Longrightarrow> intact cb \<Longrightarrow> (\<And>i. i \<ge> POOLS_TOTAL_MAX \<Longrightarrow> F i = []) \<Longrightarrow> (\<And>i. i < POOLS_TOTAL_MAX \<Longrightarrow> own_block cb i) \<Longrightarrow>
   blocks_apart (b_blocks cb) \<Longrightarrow> gki_valid cb F"
  unfolding gki_valid_def pools_valid_def by blast

text \<open>The pools do not depend on the blocks that are not theirs.\<close>

lemma in_own_block: "(p, n) \<in> set (b_blocks cb) \<Longrightarrow> in_block cb p n"
  unfolding in_block_def by (rule bexI[of _ "(p, n)"]) simp_all

lemma bp_pool_blocks:
  assumes "bp_pool cb pid fs" "own_block (cb\<lparr>b_blocks := bs\<rparr>) pid"
  shows "bp_pool (cb\<lparr>b_blocks := bs\<rparr>) pid fs"
proof (cases "pstart cb pid = 0")
  case True
  then show ?thesis using assms(1) by (simp add: bp_pool_def)
next
  case False
  let ?cb = "cb\<lparr>b_blocks := bs\<rparr>"
  have "in_block ?cb (pstart cb pid) (psize cb pid * m_u16PackTotal (fq cb pid))"
    by (rule in_own_block) (use assms(2) False in \<open>simp add: own_block_def\<close>)
  moreover have "pool_mem_ok cb pid" "queue_ok cb pid fs" "\<forall>h\<in>set (bufs cb pid). buf_ok cb pid fs h"
    using assms(1) False by (simp_all add: bp_pool_def)
  moreover have "bufs ?cb pid = bufs cb pid" "magic_at ?cb pid = magic_at cb pid" "hdr_next ?cb = hdr_next cb"
    by (simp_all add: bufs_def buf_at_def magic_at_def hdr_next_def fun_eq_iff)
  ultimately have "pool_mem_ok ?cb pid" "queue_ok ?cb pid fs" "\<forall>h\<in>set (bufs ?cb pid). buf_ok ?cb pid fs h"
    by (simp_all add: pool_mem_ok_def queue_ok_def buf_ok_def)
  then show ?thesis using False by (simp add: bp_pool_def)
qed

lemma bp_inv_blocks:
  assumes "bp_inv cb F" "\<And>i. i < POOLS_TOTAL_MAX \<Longrightarrow> own_block (cb\<lparr>b_blocks := bs\<rparr>) i"
  shows "bp_inv (cb\<lparr>b_blocks := bs\<rparr>) F"
  using bp_invD(1-4)[OF assms(1)] bp_pool_blocks[OF bp_invD(3)[OF assms(1)] assms(2)]
  by (simp add: bp_inv_def bp_pools_def arrays_ok_def list_ok_def listed_def apart_def)

lemma gki_valid_blocks:
  assumes v: "gki_valid cb F" and o: "\<And>i. i < POOLS_TOTAL_MAX \<Longrightarrow> own_block (cb\<lparr>b_blocks := bs\<rparr>) i" and b: "blocks_apart bs"
  shows "gki_valid (cb\<lparr>b_blocks := bs\<rparr>) F"
proof (rule gki_validI)
  show "bp_inv (cb\<lparr>b_blocks := bs\<rparr>) F" by (rule bp_inv_blocks[OF gki_validD(1)[OF v] o])
  show "intact (cb\<lparr>b_blocks := bs\<rparr>)" using gki_validD(2)[OF v] by (simp add: intact_def bufs_def buf_at_def magic_at_def)
qed (use gki_validD(3)[OF v] o b in simp_all)

text \<open>A successful malloc keeps the pools valid, and its memory is free of pools.\<close>

lemma os_malloc_ok:
  assumes mal: "malloc_ok mal" and v: "gki_valid cb F" and nz: "mal (b_blocks cb) n \<noteq> 0"
  shows "GKI_os_malloc mal cb n = (cb\<lparr>b_blocks := (mal (b_blocks cb) n, n) # b_blocks cb\<rparr>, mal (b_blocks cb) n)"
    "gki_valid (cb\<lparr>b_blocks := (mal (b_blocks cb) n, n) # b_blocks cb\<rparr>) F"
    "free_space (cb\<lparr>b_blocks := (mal (b_blocks cb) n, n) # b_blocks cb\<rparr>) (mal (b_blocks cb) n) n"
proof -
  let ?p = "mal (b_blocks cb) n" let ?cb = "cb\<lparr>b_blocks := (?p, n) # b_blocks cb\<rparr>"
  show "GKI_os_malloc mal cb n = (?cb, ?p)" using nz by (simp add: GKI_os_malloc_def Let_def)
  have m: "4 dvd ?p" "\<And>q m. (q, m) \<in> set (b_blocks cb) \<Longrightarrow> q \<noteq> ?p \<and> (?p + n \<le> q \<or> q + m \<le> ?p)"
    using mal nz unfolding malloc_ok_def by blast+
  show "gki_valid ?cb F"
  proof (rule gki_valid_blocks[OF v])
    show "own_block ?cb i" if "i < POOLS_TOTAL_MAX" for i
      using gki_validD(4)[OF v that] by (auto simp: own_block_def)
  qed (rule blocks_apart_Cons[OF mal nz gki_validD(5)[OF v]])
  show "free_space ?cb ?p n"
    unfolding free_space_def
  proof (intro conjI allI impI)
    show "in_block ?cb ?p n" by (rule in_own_block) simp
    fix j assume j: "j < POOLS_TOTAL_MAX" "pstart ?cb j \<noteq> 0"
    then have "(pstart cb j, psize cb j * m_u16PackTotal (fq cb j)) \<in> set (b_blocks cb)"
      using gki_validD(4)[OF v j(1)] by (simp add: own_block_def)
    moreover have "pend cb j = pstart cb j + psize cb j * m_u16PackTotal (fq cb j)"
      using bp_invD(3)[OF gki_validD(1)[OF v] j(1)] j(2) by (simp add: bp_pool_def pool_mem_ok_def)
    ultimately show "pend ?cb j \<le> ?p \<or> ?p + n \<le> pstart ?cb j" using m(2) by fastforce
  qed (use nz m(1) in simp_all)
qed

text \<open>A pool is created in fresh memory; deleting it gives exactly that memory back.\<close>

lemma align_bytes:
  assumes "sz \<le> 65520" "cnt < 2 ^ 16"
  shows "u32 ((ALIGN_SIZE sz + BUFFER_PADDING_SIZE) * cnt) = (ALIGN_SIZE sz + BUFFER_PADDING_SIZE) * cnt"
proof -
  have "(sz + 3) div 4 \<le> 16380" using assms(1) by simp
  then have "ALIGN_SIZE sz + BUFFER_PADDING_SIZE \<le> 65532" by (simp add: ALIGN_SIZE_def BUFFER_PADDING_SIZE_def)
  then have "(ALIGN_SIZE sz + BUFFER_PADDING_SIZE) * cnt \<le> 65532 * 65535" using assms(2) by (intro mult_le_mono) simp_all
  then show ?thesis by (intro u32_id) simp
qed

lemma own_block_frame:
  assumes "elsewhere cb' cb pid" "j \<noteq> pid" "own_block cb j"
  shows "own_block cb' j"
  using assms unfolding elsewhere_def own_block_def by simp

lemma gki_create_ok:
  assumes mal: "malloc_ok mal" and v: "gki_valid cb F" and un: "first_unused cb \<noteq> POOLS_TOTAL_MAX"
    and sz: "0 < sz" "sz \<le> 65520" and n: "0 < cnt" "cnt < 2 ^ 16"
    and nz: "mal (b_blocks cb) ((ALIGN_SIZE sz + BUFFER_PADDING_SIZE) * cnt) \<noteq> 0"
  shows "\<exists>cb'. GKI_create_pool mal cb sz cnt perm = Some (cb', 0, Some (first_unused cb)) \<and>
    gki_valid cb' (F(first_unused cb := bufs cb' (first_unused cb))) \<and> length (bufs cb' (first_unused cb)) = cnt \<and>
    m_u16PackSize (fq cb' (first_unused cb)) = ALIGN_SIZE sz \<and> set (listed cb') = insert (first_unused cb) (set (listed cb)) \<and>
    (\<forall>i<POOLS_TOTAL_MAX. restricted cb' i = (if i = first_unused cb then perm = POOL_RESTRICTED else restricted cb i)) \<and>
    b_blocks cb' = (pstart cb' (first_unused cb), (ALIGN_SIZE sz + BUFFER_PADDING_SIZE) * cnt) # b_blocks cb \<and>
    pstart cb' (first_unused cb) \<noteq> 0 \<and> m_u16PackCurCnt (fq cb' (first_unused cb)) = 0 \<and>
    pstart cb' (first_unused cb) \<notin> fst ` set (b_blocks cb)"
proof -
  let ?n = "(ALIGN_SIZE sz + BUFFER_PADDING_SIZE) * cnt" and ?pid = "first_unused cb"
  let ?p = "mal (b_blocks cb) ?n"
  let ?cb1 = "cb\<lparr>b_blocks := (?p, ?n) # b_blocks cb\<rparr>"
  note M = os_malloc_ok[OF mal v nz]
  note inv1 = gki_validD(1)[OF M(2)]
  note pid = first_unused[OF bp_invD(1)[OF gki_validD(1)[OF v]] un]
  have "pstart ?cb1 ?pid = 0" using pid(2) by simp
  from add_pool_ok[OF inv1 pid(1) this sz n M(3), of GKI_INVALID_TASK perm] obtain cb' where A:
    "add_pool GKI_INVALID_TASK ?cb1 ?pid sz cnt ?p perm = Some cb'" "bp_inv cb' (F(?pid := bufs cb' ?pid))" "pstart cb' ?pid = ?p"
    "length (bufs cb' ?pid) = cnt" "m_u16PackSize (fq cb' ?pid) = ALIGN_SIZE sz" "set (listed cb') = insert ?pid (set (listed ?cb1))"
    "\<forall>i<POOLS_TOTAL_MAX. restricted cb' i = (if i = ?pid then perm = POOL_RESTRICTED else restricted ?cb1 i)"
    "intact ?cb1 \<longrightarrow> intact cb'" "elsewhere cb' ?cb1 ?pid" by blast
  have blk: "b_blocks cb' = (?p, ?n) # b_blocks cb" using A(9) by (simp add: elsewhere_def)
  have bp: "bp_pool cb' ?pid (bufs cb' ?pid)" using bp_invD(3)[OF A(2) pid(1)] by simp
  have tot: "m_u16PackTotal (fq cb' ?pid) = cnt" using A(4) by (simp add: bufs_def)
  have mem: "psize cb' ?pid = ALIGN_SIZE sz + BUFFER_PADDING_SIZE" "queue_ok cb' ?pid (bufs cb' ?pid)"
    using bp A(3,5) nz by (simp_all add: bp_pool_def pool_mem_ok_def)
  have "GKI_create_pool mal cb sz cnt perm = map_option (\<lambda>c. (c, 0, Some ?pid))
      (add_pool GKI_INVALID_TASK ?cb1 ?pid sz cnt ?p perm)"
  proof -
    have "\<not> BUFFER_SIZE_MAX < sz" using sz(2) by (simp add: BUFFER_SIZE_MAX_def pool_sizes)
    then show ?thesis using un nz pid(1)
      by (simp add: GKI_create_pool_def Let_def align_bytes[OF sz(2) n(2)] M(1) add_pool_def gki_init_free_queue_def
          gki_add_to_pool_list_def GKI_set_pool_permission_def split: Option.bind_split)
  qed
  then have run: "GKI_create_pool mal cb sz cnt perm = Some (cb', 0, Some ?pid)" by (simp add: A(1))
  have "gki_valid cb' (F(?pid := bufs cb' ?pid))"
  proof (rule gki_validI[OF A(2)])
    show "intact cb'" using A(8) gki_validD(2)[OF M(2)] by blast
    show "(F(?pid := bufs cb' ?pid)) i = []" if "i \<ge> POOLS_TOTAL_MAX" for i
      using gki_validD(3)[OF v that] that pid(1) by simp
    show "own_block cb' i" if i: "i < POOLS_TOTAL_MAX" for i
    proof (cases "i = ?pid")
      case True
      show ?thesis unfolding True own_block_def blk mem(1) tot A(3) by simp
    next
      case False
      show ?thesis by (rule own_block_frame[OF A(9) False gki_validD(4)[OF M(2) i]])
    qed
    show "blocks_apart (b_blocks cb')" unfolding blk using gki_validD(5)[OF M(2)] by simp
  qed
  moreover have "pstart cb' ?pid \<notin> fst ` set (b_blocks cb)"
    unfolding A(3) using mal nz unfolding malloc_ok_def by fastforce
  moreover have "m_u16PackCurCnt (fq cb' ?pid) = 0" using mem(2) tot A(4) by (simp add: queue_ok_def)
  moreover have "restricted ?cb1 i = restricted cb i" "listed ?cb1 = listed cb" for i by (simp_all add: restricted_def listed_def)
  ultimately show ?thesis using run A(3-7) blk nz by (intro exI[of _ cb']) (simp only: fun_upd_same simp_thms)
qed

lemma pools_start_apart:
  assumes "bp_inv cb F" "i < POOLS_TOTAL_MAX" "j < POOLS_TOTAL_MAX" "i \<noteq> j" "pstart cb i \<noteq> 0" "pstart cb j \<noteq> 0"
  shows "pstart cb i \<noteq> pstart cb j"
proof -
  have "pstart cb k < pend cb k" if "k < POOLS_TOTAL_MAX" "pstart cb k \<noteq> 0" for k
    using bp_invD(3)[OF assms(1) that(1)] that(2) by (simp add: bp_pool_def pool_mem_ok_def pool_sizes)
  from this[OF assms(2,5)] this[OF assms(3,6)] bp_invD(4)[OF assms(1-4)] assms(5,6) show ?thesis
    by (auto simp: apart_def)
qed

lemma gki_delete_ok:
  assumes v: "gki_valid cb F" and pid: "pid < POOLS_TOTAL_MAX" "pstart cb pid \<noteq> 0" and idle: "m_u16PackCurCnt (fq cb pid) = 0"
  shows "\<exists>cb'. GKI_delete_pool cb pid = Some cb' \<and> gki_valid cb' (F(pid := [])) \<and> pstart cb' pid = 0 \<and>
    listed cb' = filter (\<lambda>x. x \<noteq> pid) (listed cb) \<and> b_blocks cb' = filter (\<lambda>b. fst b \<noteq> pstart cb pid) (b_blocks cb)"
proof -
  note inv = gki_validD(1)[OF v]
  obtain cb1 where D: "delete_pool cb pid = Some (cb1, pstart cb pid)" "bp_inv cb1 (F(pid := []))" "pstart cb1 pid = 0"
    "listed cb1 = filter (\<lambda>x. x \<noteq> pid) (listed cb)" "elsewhere cb1 cb pid" "b_words cb1 = b_words cb"
    using delete_pool_ok[OF inv pid idle] by blast
  have blk: "b_blocks cb1 = b_blocks cb" using D(5) by (simp add: elsewhere_def)
  let ?bs = "filter (\<lambda>b. fst b \<noteq> pstart cb pid) (b_blocks cb)"
  have "(pstart cb pid, psize cb pid * m_u16PackTotal (fq cb pid)) \<in> set (b_blocks cb)"
    using gki_validD(4)[OF v pid(1)] pid(2) by (simp add: own_block_def)
  then have "pstart cb pid \<in> fst ` set (b_blocks cb)" by force
  then have free: "GKI_os_free cb1 (pstart cb pid) = Some (cb1\<lparr>b_blocks := ?bs\<rparr>)"
    using pid(2) by (simp add: GKI_os_free_def blk)
  have own1: "own_block cb1 j \<and> own_block (cb1\<lparr>b_blocks := ?bs\<rparr>) j" if j: "j < POOLS_TOTAL_MAX" for j
  proof (cases "j = pid \<or> pstart cb j = 0")
    case True
    then have "pstart cb1 j = 0" using D(3,5) by (cases "j = pid") (auto simp: elsewhere_def)
    then show ?thesis by (simp add: own_block_def)
  next
    case False
    then have "(pstart cb j, psize cb j * m_u16PackTotal (fq cb j)) \<in> set (b_blocks cb)" "pstart cb j \<noteq> pstart cb pid"
      using gki_validD(4)[OF v j] pools_start_apart[OF inv j pid(1)] pid(2) by (auto simp: own_block_def)
    then show ?thesis using D(5) False by (simp add: elsewhere_def own_block_def)
  qed
  have v1: "gki_valid cb1 (F(pid := []))"
  proof (rule gki_validI[OF D(2)])
    show "intact cb1" unfolding intact_def
    proof (intro allI impI ballI)
      fix j q assume j: "j < POOLS_TOTAL_MAX" and q: "q \<in> set (bufs cb1 j)"
      have "j \<noteq> pid" using bufs_live[OF bp_invD(3)[OF D(2) j] q] D(3) by auto
      then have "bufs cb1 j = bufs cb j" "magic_at cb1 j = magic_at cb j"
        using D(5) by (auto simp: elsewhere_def bufs_def buf_at_def magic_at_def fun_eq_iff)
      then show "b_words cb1 (magic_at cb1 j q) = Some MAGIC_NO"
        using gki_validD(2)[OF v] j q D(6) by (simp add: intact_def)
    qed
  qed (use own1 gki_validD(3,5)[OF v] blk in simp_all)
  have "blocks_apart ?bs" using gki_validD(5)[OF v] by (auto simp: blocks_apart_def)
  with v1 own1 have "gki_valid (cb1\<lparr>b_blocks := ?bs\<rparr>) (F(pid := []))" by (intro gki_valid_blocks) auto
  moreover have "listed (cb1\<lparr>b_blocks := ?bs\<rparr>) = listed cb1" by (simp add: listed_def)
  moreover have "GKI_delete_pool cb pid = Some (cb1\<lparr>b_blocks := ?bs\<rparr>)" by (simp add: GKI_delete_pool_def D(1) free)
  ultimately show ?thesis using D(3,4) by (intro exI[of _ "cb1\<lparr>b_blocks := ?bs\<rparr>"]) simp
qed

subsection \<open>The fixed pools\<close>

lemma fixed_mallocs_ok:
  assumes "malloc_ok mal"
  shows "blocks_apart (b_blocks cb) \<Longrightarrow> fixed_mallocs mal cb xs = (cb1, ps) \<Longrightarrow> 0 \<notin> set ps \<Longrightarrow>
    \<exists>bs. cb1 = cb\<lparr>b_blocks := bs\<rparr> \<and> blocks_apart bs \<and> set (b_blocks cb) \<subseteq> set bs \<and> length ps = length xs \<and> distinct ps \<and>
      (\<forall>p\<in>set ps. 4 dvd p \<and> p \<notin> fst ` set (b_blocks cb)) \<and>
      (\<forall>((sz, n), p) \<in> set (zip xs ps). (p, (sz + BUFFER_PADDING_SIZE) * n) \<in> set bs)"
proof (induction xs arbitrary: cb cb1 ps)
  case Nil
  then show ?case by (intro exI[of _ "b_blocks cb"]) simp
next
  case (Cons x xs)
  obtain sz n where x: "x = (sz, n)" by (cases x)
  let ?n = "(sz + BUFFER_PADDING_SIZE) * n" let ?p = "mal (b_blocks cb) ?n"
  obtain ps' where ps: "ps = ?p # ps'" "fixed_mallocs mal (fst (GKI_os_malloc mal cb ?n)) xs = (cb1, ps')"
    using Cons.prems(2) unfolding x by (auto simp: GKI_os_malloc_def Let_def split: prod.splits)
  have nz: "?p \<noteq> 0" "0 \<notin> set ps'" using Cons.prems(3) ps(1) by auto
  let ?cb = "cb\<lparr>b_blocks := (?p, ?n) # b_blocks cb\<rparr>"
  have run: "fixed_mallocs mal ?cb xs = (cb1, ps')" using ps(2) nz(1) by (simp add: GKI_os_malloc_def Let_def)
  have m: "4 dvd ?p" "?p \<notin> fst ` set (b_blocks cb)"
    using assms nz(1) unfolding malloc_ok_def by (blast, fastforce)
  have "blocks_apart (b_blocks ?cb)" using blocks_apart_Cons[OF assms nz(1) Cons.prems(1)] by simp
  from Cons.IH[OF this run nz(2)] obtain bs where B: "cb1 = ?cb\<lparr>b_blocks := bs\<rparr>" "blocks_apart bs" "set (b_blocks ?cb) \<subseteq> set bs"
    "length ps' = length xs" "distinct ps'" "\<forall>p\<in>set ps'. 4 dvd p \<and> p \<notin> fst ` set (b_blocks ?cb)"
    "\<forall>((sz, n), p) \<in> set (zip xs ps'). (p, (sz + BUFFER_PADDING_SIZE) * n) \<in> set bs" by blast
  have "(?p, ?n) \<in> set bs" "set (b_blocks cb) \<subseteq> set bs" using B(3) by auto
  moreover have "?p \<notin> set ps'" "\<forall>p\<in>set ps'. 4 dvd p \<and> p \<notin> fst ` set (b_blocks cb)" using B(6) by auto
  ultimately show ?case using B m unfolding ps(1) x by (intro exI[of _ bs]) simp
qed

text \<open>
  \<open>set_up cb i\<close>: the pools below \<open>i\<close> have their memory, all of it free; the others have none.
\<close>

definition set_up :: "tGKI_COM_CB \<Rightarrow> nat \<Rightarrow> bool" where
  "set_up cb i \<longleftrightarrow> bp_pools cb (bufs cb) \<and> intact cb \<and> (\<forall>j<POOLS_TOTAL_MAX. own_block cb j) \<and>
     (\<forall>j<POOLS_TOTAL_MAX. pstart cb j = 0 \<longleftrightarrow> i \<le> j)"

lemma others_elsewhere: "others_same cb' cb pid \<Longrightarrow> elsewhere cb' cb pid"
  unfolding others_same_def elsewhere_def by blast

lemma set_up_step:
  assumes S: "set_up cb i" and i: "i < POOLS_TOTAL_MAX" and b: "blocks_apart (b_blocks cb)"
    and sz: "0 < sz" "sz \<le> 65520" "4 dvd sz" and n: "0 < n" "n < 2 ^ 16"
    and p: "p \<noteq> 0" "4 dvd p" "(p, (sz + BUFFER_PADDING_SIZE) * n) \<in> set (b_blocks cb)" "\<forall>j<i. pstart cb j \<noteq> p"
  shows "\<exists>cb'. gki_init_free_queue cb i sz n p = Some cb' \<and> set_up cb' (i + 1) \<and> others_same cb' cb i \<and>
    pstart cb' i = p \<and> m_u16PackSize (fq cb' i) = sz \<and> m_u16PackTotal (fq cb' i) = n"
proof -
  have bp: "bp_pools cb (bufs cb)" and int: "intact cb" and own: "\<And>j. j < POOLS_TOTAL_MAX \<Longrightarrow> own_block cb j"
    and st: "\<And>j. j < POOLS_TOTAL_MAX \<Longrightarrow> pstart cb j = 0 \<longleftrightarrow> i \<le> j" using S unfolding set_up_def by blast+
  note al = ALIGN_SIZE_id[OF sz(3)]
  have sp: "free_space cb p ((ALIGN_SIZE sz + BUFFER_PADDING_SIZE) * n)"
    unfolding free_space_def al
  proof (intro conjI allI impI)
    show "in_block cb p ((sz + BUFFER_PADDING_SIZE) * n)" by (rule in_own_block[OF p(3)])
    fix j assume j: "j < POOLS_TOTAL_MAX" "pstart cb j \<noteq> 0"
    then have "(pstart cb j, psize cb j * m_u16PackTotal (fq cb j)) \<in> set (b_blocks cb)" using own[OF j(1)] by (simp add: own_block_def)
    moreover have "pstart cb j \<noteq> p" using j st[OF j(1)] p(4) by simp
    ultimately have "p + (sz + BUFFER_PADDING_SIZE) * n \<le> pstart cb j \<or> pstart cb j + psize cb j * m_u16PackTotal (fq cb j) \<le> p"
      using b p(3) unfolding blocks_apart_def by fastforce
    moreover have "pend cb j = pstart cb j + psize cb j * m_u16PackTotal (fq cb j)"
      using bp_poolsD(2)[OF bp j(1)] j(2) by (simp add: bp_pool_def pool_mem_ok_def)
    ultimately show "pend cb j \<le> p \<or> p + (sz + BUFFER_PADDING_SIZE) * n \<le> pstart cb j" by auto
  qed (use p in simp_all)
  have z: "pstart cb i = 0" using st[OF i] by simp
  from init_free_queue_ok[OF bp i z sz(1,2) n sp, of GKI_INVALID_TASK] obtain cb' where I:
    "init_free_queue GKI_INVALID_TASK cb i sz n p = Some cb'" "bp_pools cb' ((bufs cb)(i := bufs cb' i))" "others_same cb' cb i"
    "pstart cb' i = p" "m_u16PackSize (fq cb' i) = sz" "m_u16PackTotal (fq cb' i) = n" "intact cb'"
    using int unfolding al by blast
  have "bufs cb' j = bufs cb j" if "j \<noteq> i" for j using I(3) that by (intro bufs_cong) (simp_all add: others_same_def)
  then have F: "(bufs cb)(i := bufs cb' i) = bufs cb'" by (auto simp: fun_eq_iff)
  have blk: "b_blocks cb' = b_blocks cb" using I(3) by (simp add: others_same_def)
  have "psize cb' i = sz + BUFFER_PADDING_SIZE"
    using bp_poolsD(2)[OF I(2) i] I(4,5) p(1) by (simp add: bp_pool_def pool_mem_ok_def)
  then have "own_block cb' i" using p(3) I(4,6) blk by (simp add: own_block_def)
  moreover have "own_block cb' j" if "j \<noteq> i" "j < POOLS_TOTAL_MAX" for j
    by (rule own_block_frame[OF others_elsewhere[OF I(3)] that(1) own[OF that(2)]])
  ultimately have "\<forall>j<POOLS_TOTAL_MAX. own_block cb' j" by metis
  moreover have "pstart cb' j = 0 \<longleftrightarrow> i + 1 \<le> j" if "j < POOLS_TOTAL_MAX" for j
    using st[OF that] I(3,4) p(1) by (cases "j = i") (auto simp: others_same_def)
  ultimately have "set_up cb' (i + 1)" using I(2,7) unfolding F set_up_def by blast
  then show ?thesis using I(1,3-6) by (simp add: gki_init_free_queue_def)
qed

lemma fixed_inits_ok:
  assumes "set_up cb i" "i + length xs \<le> POOLS_TOTAL_MAX" "blocks_apart (b_blocks cb)" "distinct (map snd xs)"
    "\<forall>((sz, n), p) \<in> set xs. 0 < sz \<and> sz \<le> 65520 \<and> 4 dvd sz \<and> 0 < n \<and> n < 2 ^ 16 \<and> p \<noteq> 0 \<and> 4 dvd p \<and>
       (p, (sz + BUFFER_PADDING_SIZE) * n) \<in> set (b_blocks cb)"
    "\<forall>j<i. pstart cb j \<notin> set (map snd xs)"
  shows "\<exists>cb'. fixed_inits cb i xs = Some cb' \<and> set_up cb' (i + length xs) \<and> b_blocks cb' = b_blocks cb \<and>
    m_u16PoolAccessMask cb' = m_u16PoolAccessMask cb \<and> (\<forall>j<i. fq cb' j = fq cb j \<and> pstart cb' j = pstart cb j) \<and>
    (\<forall>k<length xs. pstart cb' (i + k) = snd (xs ! k) \<and> m_u16PackSize (fq cb' (i + k)) = fst (fst (xs ! k)) \<and>
       m_u16PackTotal (fq cb' (i + k)) = snd (fst (xs ! k)))"
  using assms
proof (induction xs arbitrary: cb i)
  case Nil
  then show ?case by simp
next
  case (Cons x xs)
  obtain sz n p where x: "x = ((sz, n), p)" by (metis prod.collapse)
  note pr = Cons.prems
  have xs: "i < POOLS_TOTAL_MAX" "0 < sz" "sz \<le> 65520" "4 dvd sz" "0 < n" "n < 2 ^ 16" "p \<noteq> 0" "4 dvd p"
    "(p, (sz + BUFFER_PADDING_SIZE) * n) \<in> set (b_blocks cb)" "\<forall>j<i. pstart cb j \<noteq> p"
    using pr(2,5,6) unfolding x by auto
  obtain cb1 where S: "gki_init_free_queue cb i sz n p = Some cb1" "set_up cb1 (i + 1)" "others_same cb1 cb i"
    "pstart cb1 i = p" "m_u16PackSize (fq cb1 i) = sz" "m_u16PackTotal (fq cb1 i) = n"
    using set_up_step[OF pr(1) xs(1) pr(3) xs(2-10)] by blast
  have o: "b_blocks cb1 = b_blocks cb" "m_u16PoolAccessMask cb1 = m_u16PoolAccessMask cb"
    "\<And>j. j \<noteq> i \<Longrightarrow> fq cb1 j = fq cb j \<and> pstart cb1 j = pstart cb j" using S(3) unfolding others_same_def by blast+
  have "i + 1 + length xs \<le> POOLS_TOTAL_MAX" "blocks_apart (b_blocks cb1)" "distinct (map snd xs)"
    using pr(2,3,4) o(1) by simp_all
  moreover have "\<forall>((sz, n), p) \<in> set xs. 0 < sz \<and> sz \<le> 65520 \<and> 4 dvd sz \<and> 0 < n \<and> n < 2 ^ 16 \<and> p \<noteq> 0 \<and> 4 dvd p \<and>
       (p, (sz + BUFFER_PADDING_SIZE) * n) \<in> set (b_blocks cb1)" using pr(5) o(1) by simp
  moreover have "\<forall>j<i + 1. pstart cb1 j \<notin> set (map snd xs)"
  proof (intro allI impI)
    fix j assume "j < i + 1"
    then show "pstart cb1 j \<notin> set (map snd xs)" using pr(4,6) o(3)[of j] S(4) unfolding x by (cases "j = i") auto
  qed
  ultimately obtain cb' where C: "fixed_inits cb1 (i + 1) xs = Some cb'" "set_up cb' (i + 1 + length xs)" "b_blocks cb' = b_blocks cb1"
    "m_u16PoolAccessMask cb' = m_u16PoolAccessMask cb1" "\<forall>j<i + 1. fq cb' j = fq cb1 j \<and> pstart cb' j = pstart cb1 j"
    "\<forall>k<length xs. pstart cb' (i + 1 + k) = snd (xs ! k) \<and> m_u16PackSize (fq cb' (i + 1 + k)) = fst (fst (xs ! k)) \<and>
       m_u16PackTotal (fq cb' (i + 1 + k)) = snd (fst (xs ! k))"
    using Cons.IH[OF S(2)] by blast
  have "pstart cb' (i + k) = snd ((x # xs) ! k) \<and> m_u16PackSize (fq cb' (i + k)) = fst (fst ((x # xs) ! k)) \<and>
       m_u16PackTotal (fq cb' (i + k)) = snd (fst ((x # xs) ! k))" if "k < length (x # xs)" for k
    using that C(5,6) S(4-6) x by (cases k) auto
  moreover have "fixed_inits cb i (x # xs) = Some cb'" using C(1) by (simp add: x S(1))
  moreover have "\<forall>j<i. fq cb' j = fq cb j \<and> pstart cb' j = pstart cb j" using C(5) o(3) by simp
  ultimately show ?case using C(2-4) o(1,2) by (intro exI[of _ cb']) simp
qed

lemma bp_inv_all:
  assumes "bp_pools cb F" "\<And>j. j < POOLS_TOTAL_MAX \<Longrightarrow> pstart cb j \<noteq> 0" "\<And>j. j < POOLS_TOTAL_MAX \<Longrightarrow> m_u16PackSize (fq cb j) = sz"
  shows "bp_inv (cb\<lparr>m_aucPoolList := [0..<POOLS_TOTAL_MAX], m_u8CurrTotalPools := POOLS_TOTAL_MAX\<rparr>) F"
proof -
  let ?cb = "cb\<lparr>m_aucPoolList := [0..<POOLS_TOTAL_MAX], m_u8CurrTotalPools := POOLS_TOTAL_MAX\<rparr>"
  have l: "listed ?cb = [0..<POOLS_TOTAL_MAX]" by (simp add: listed_def)
  have "map (\<lambda>q. m_u16PackSize (fq ?cb q)) [0..<POOLS_TOTAL_MAX] = replicate POOLS_TOTAL_MAX sz"
    using assms(3) by (intro nth_equalityI) simp_all
  then have "list_ok ?cb" unfolding list_ok_def l using assms(2) by (auto simp: sorted_replicate)
  moreover have "arrays_ok ?cb" using bp_poolsD(1)[OF assms(1)] by (simp add: arrays_ok_def)
  moreover have "bp_pool ?cb j (F j)" if "j < POOLS_TOTAL_MAX" for j
    by (rule bp_pool_cong[OF _ _ _ _ _ _ _ bp_poolsD(2)[OF assms(1) that]]) simp_all
  moreover have "apart ?cb i j" if "i < POOLS_TOTAL_MAX" "j < POOLS_TOTAL_MAX" "i \<noteq> j" for i j
    using bp_poolsD(3)[OF assms(1) that] by (simp add: apart_def)
  ultimately show ?thesis unfolding bp_inv_def bp_pools_def by blast
qed

definition all_free :: "tGKI_COM_CB \<Rightarrow> nat \<Rightarrow> addr list" where
  "all_free cb pid = (if pid < POOLS_TOTAL_MAX then bufs cb pid else [])"

lemma cleared_set_up: "length (m_aucPoolList cb) = POOLS_TOTAL_MAX \<Longrightarrow> set_up ((gki_cleared cb)\<lparr>b_blocks := bs\<rparr>) 0"
  by (simp add: set_up_def bp_pools_def bp_pool_def arrays_ok_def apart_def intact_def own_block_def gki_cleared_def bufs_def empty_freeq_def)

lemma mask_bits:
  assumes "i < POOLS_TOTAL_MAX"
  shows "bit GKI_DEF_BUFPOOL_PERM_MASK i \<longleftrightarrow> i = 5"
proof -
  have "i = 0 \<or> i = 1 \<or> i = 2 \<or> i = 3 \<or> i = 4 \<or> i = 5" using assms by (auto simp: POOLS_TOTAL_MAX_def)
  then show ?thesis by (elim disjE) (simp_all add: GKI_DEF_BUFPOOL_PERM_MASK_def)
qed

lemma gki_init_ok:
  assumes mal: "malloc_ok mal" and b: "blocks_apart (b_blocks cb)" and len: "length (m_aucPoolList cb) = POOLS_TOTAL_MAX"
    and nz: "0 \<notin> set (snd (fixed_mallocs mal (gki_cleared cb) gki_fixed))"
  shows "\<exists>cb' ps. gki_buffer_init mal cb = Some (cb', ps) \<and> gki_valid cb' (all_free cb') \<and> distinct ps \<and>
    (\<forall>i<POOLS_TOTAL_MAX. pstart cb' i = ps ! i \<and> length (bufs cb' i) = 10 \<and> m_u16PackSize (fq cb' i) = 200 \<and>
      (restricted cb' i \<longleftrightarrow> i = 5))"
proof -
  obtain cb1 ps where m: "fixed_mallocs mal (gki_cleared cb) gki_fixed = (cb1, ps)" by (metis surj_pair)
  have "blocks_apart (b_blocks (gki_cleared cb))" using b by (simp add: gki_cleared_def)
  from fixed_mallocs_ok[OF mal this m] nz m obtain bs where B: "cb1 = (gki_cleared cb)\<lparr>b_blocks := bs\<rparr>" "blocks_apart bs"
    "length ps = length gki_fixed" "distinct ps" "\<forall>p\<in>set ps. 4 dvd p"
    "\<forall>((sz, n), p) \<in> set (zip gki_fixed ps). (p, (sz + BUFFER_PADDING_SIZE) * n) \<in> set bs" by auto
  let ?xs = "zip gki_fixed ps"
  have lx: "length ?xs = POOLS_TOTAL_MAX" "length gki_fixed = POOLS_TOTAL_MAX" using B(3) by (simp_all add: gki_fixed_def POOLS_TOTAL_MAX_def)
  have fx: "x = (200, 10)" if "x \<in> set gki_fixed" for x using that by (auto simp: gki_fixed_def)
  have nz': "0 \<notin> set ps" using nz m by simp
  have xs: "\<forall>((sz, n), p) \<in> set ?xs. 0 < sz \<and> sz \<le> 65520 \<and> 4 dvd sz \<and> 0 < n \<and> n < 2 ^ 16 \<and> p \<noteq> 0 \<and> 4 dvd p \<and>
      (p, (sz + BUFFER_PADDING_SIZE) * n) \<in> set (b_blocks cb1)"
  proof -
    have "sz = 200 \<and> n = 10 \<and> p \<noteq> 0 \<and> 4 dvd p \<and> (p, (sz + BUFFER_PADDING_SIZE) * n) \<in> set bs"
      if y: "((sz, n), p) \<in> set ?xs" for sz n p
    proof -
      have "(sz, n) = (200, 10)" by (rule fx[OF set_zip_leftD[OF y]])
      moreover have "p \<in> set ps" by (rule set_zip_rightD[OF y])
      moreover have "(p, (sz + BUFFER_PADDING_SIZE) * n) \<in> set bs" using B(6) y by blast
      ultimately show ?thesis using B(5) nz' by (metis prod.inject)
    qed
    then show ?thesis unfolding B(1) by fastforce
  qed
  have mp: "map snd ?xs = ps" using B(3) by simp
  from fixed_inits_ok[of cb1 0 ?xs] cleared_set_up[OF len, of bs] B(1,2,4) xs obtain cb' where
    C: "fixed_inits cb1 0 ?xs = Some cb'" "set_up cb' POOLS_TOTAL_MAX" "b_blocks cb' = bs"
    "m_u16PoolAccessMask cb' = m_u16PoolAccessMask cb1" "\<forall>k<POOLS_TOTAL_MAX. pstart cb' k = snd (?xs ! k) \<and>
       m_u16PackSize (fq cb' k) = fst (fst (?xs ! k)) \<and> m_u16PackTotal (fq cb' k) = snd (fst (?xs ! k))"
    unfolding lx mp by auto
  have at: "pstart cb' k = ps ! k \<and> m_u16PackSize (fq cb' k) = 200 \<and> m_u16PackTotal (fq cb' k) = 10" if "k < POOLS_TOTAL_MAX" for k
  proof -
    have "?xs ! k = (gki_fixed ! k, ps ! k)" using that lx B(3) by simp
    moreover have "gki_fixed ! k = (200, 10)" using that lx(2) by (intro fx nth_mem) simp
    ultimately show ?thesis using C(5) that by simp
  qed
  let ?cb = "cb'\<lparr>m_aucPoolList := [0..<POOLS_TOTAL_MAX], m_u8CurrTotalPools := POOLS_TOTAL_MAX\<rparr>"
  have S: "bp_pools cb' (bufs cb')" "intact cb'" "\<forall>j<POOLS_TOTAL_MAX. own_block cb' j"
    "\<forall>j<POOLS_TOTAL_MAX. pstart cb' j \<noteq> 0" using C(2) unfolding set_up_def by auto
  have bufs: "bufs ?cb = bufs cb'" "magic_at ?cb = magic_at cb'" by (simp_all add: bufs_def buf_at_def magic_at_def fun_eq_iff)
  have "gki_valid ?cb (all_free ?cb)"
  proof (rule gki_validI)
    have "bp_pools cb' (all_free ?cb)" using S(1) by (simp add: bp_pools_def all_free_def bufs)
    then show "bp_inv ?cb (all_free ?cb)" by (rule bp_inv_all) (use S(4) at in auto)
    show "intact ?cb" using S(2) by (simp add: intact_def bufs)
  qed (use S(3) C(3) B(2) in \<open>simp_all add: all_free_def own_block_def\<close>)
  moreover have "gki_buffer_init mal cb = Some (?cb, ps)"
    unfolding gki_buffer_init_def m using C(1) by (simp add: GKI_NUM_FIXED_BUF_POOLS_def POOLS_TOTAL_MAX_def)
  moreover have "length (bufs ?cb i) = 10" if "i < POOLS_TOTAL_MAX" for i using at[OF that] by (simp add: bufs_def)
  moreover have "restricted ?cb i \<longleftrightarrow> i = 5" if "i < POOLS_TOTAL_MAX" for i
    using mask_bits[OF that] C(4) B(1) by (simp add: restricted_bit gki_cleared_def)
  ultimately show ?thesis using B(4) at by (intro exI[of _ ?cb] exI[of _ ps]) simp
qed

subsection \<open>The contract with the users\<close>

text \<open>Every pool with memory that has a buffer left has one in its queue, so no memory is asked for.\<close>

lemma gki_refill_ok:
  assumes inv: "bp_inv cb F"
  shows "refill_ok (gki_refill mal) cb sz"
  unfolding refill_ok_def
proof (intro allI impI)
  fix pid i assume "can_serve cb sz pid"
  then have pid: "pid < POOLS_TOTAL_MAX" "m_u16PackCurCnt (fq cb pid) < m_u16PackTotal (fq cb pid)" by (auto simp: can_serve_def)
  note P = bp_invD(3)[OF inv pid(1)]
  have "pstart cb pid \<noteq> 0" using live_iff[OF P] pid(2) by simp
  then have q: "queue_ok cb pid (F pid)" using P by (simp add: bp_pool_def)
  then have "F pid \<noteq> []" using pid(2) by (auto simp: queue_ok_def)
  then obtain p ps where F: "F pid = p # ps" by (cases "F pid") auto
  then have "in_pFirst (fq cb pid) = p" "p \<in> set (bufs cb pid)" using q by (auto simp: queue_ok_def)
  moreover have "p \<noteq> 0" using buf_range(1)[OF P] calculation(2) .
  ultimately show "gki_refill mal cb pid i = Some (cb, True)"
    using pid(1) bp_invD(1)[OF inv] by (simp add: gki_refill_def arrays_ok_def ith_Some)
qed

lemma gki_valid_layout:
  assumes "gki_valid cb F" "pools_valid cb' F'" "same_layout cb' cb" "\<And>i. m_u16PackTotal (fq cb' i) = m_u16PackTotal (fq cb i)"
  shows "gki_valid cb' F'"
  using assms by (simp add: gki_valid_def own_block_def same_layout_def)

lemma gki_get:
  assumes v: "gki_valid cb F" and "0 < sz" "\<exists>pid. can_serve cb sz pid"
  shows "\<exists>cb' pid p ps. F pid = p # ps \<and> GKI_getbuf_raw mal cb sz = Some (cb', p + BUFFER_HDR_SIZE) \<and>
    gki_valid cb' (F(pid := ps)) \<and> buf_lent cb' pid p \<and> (\<forall>i q. buf_lent cb i q \<longrightarrow> buf_lent cb' i q)"
proof -
  obtain cb' pid p ps where g: "F pid = p # ps" "GKI_getbuf_raw mal cb sz = Some (cb', p + BUFFER_HDR_SIZE)"
    "pools_valid cb' (F(pid := ps))" "buf_lent cb' pid p" "\<forall>i q. buf_lent cb i q \<longrightarrow> buf_lent cb' i q"
    "taken GKI_get_taskid cb cb' pid p"
    using lend_get[OF gki_validD(6)[OF v] assms(2,3) gki_refill_ok[OF gki_validD(1)[OF v]], of GKI_get_taskid mal]
    unfolding GKI_getbuf_raw_def by blast
  have "m_u16PackTotal (fq cb' i) = m_u16PackTotal (fq cb i)" for i using g(6) by (cases "i = pid") (simp_all add: taken_def)
  with gki_valid_layout[OF v g(3)] g(6) have "gki_valid cb' (F(pid := ps))" by (simp add: taken_def)
  with g show ?thesis by blast
qed

lemma gki_put:
  assumes v: "gki_valid cb F" and l: "buf_lent cb pid p"
  shows "\<exists>cb'. GKI_freebuf_raw cb (p + BUFFER_HDR_SIZE) = Some cb' \<and> gki_valid cb' (F(pid := F pid @ [p]))"
proof -
  obtain cb' where g: "GKI_freebuf_raw cb (p + BUFFER_HDR_SIZE) = Some cb'" "pools_valid cb' (F(pid := F pid @ [p]))"
    "returned GKI_INVALID_TASK cb cb' pid p"
    using lend_put[OF gki_validD(6)[OF v] l, of GKI_INVALID_TASK] unfolding GKI_freebuf_raw_def by blast
  have "m_u16PackTotal (fq cb' i) = m_u16PackTotal (fq cb i)" for i using g(3) by (cases "i = pid") (simp_all add: returned_def)
  with gki_valid_layout[OF v g(2)] g(3) have "gki_valid cb' (F(pid := F pid @ [p]))" by (simp add: returned_def)
  with g show ?thesis by blast
qed

interpretation gki: lending gki_valid buf_lent "\<lambda>cb sz. \<exists>pid. can_serve cb sz pid" "GKI_getbuf_raw mal" GKI_freebuf_raw for mal
  by unfold_locales (fact gki_get, fact gki_put, rule lend_not_free[OF gki_validD(6)])

text \<open>The statistics: one row for each buffer.\<close>

lemma stat_rows_ok:
  assumes "\<And>k. k < n \<Longrightarrow> \<exists>h w. rd_hdr cb (hdr + k * act) = Some h \<and> in_block cb (hdr + k * act + BUFFER_HDR_SIZE + sz) 4 \<and>
    b_words cb (hdr + k * act + BUFFER_HDR_SIZE + sz) = Some w"
  shows "\<exists>rows. stat_rows cb hdr sz act n = Some rows \<and> length rows = n \<and>
    (\<forall>k<n. map_option (\<lambda>h. (m_u8TaskId h, m_u8Status h)) (rd_hdr cb (hdr + k * act)) = Some (fst (rows ! k), fst (snd (rows ! k))) \<and>
      snd (snd (rows ! k)) = (b_words cb (hdr + k * act + BUFFER_HDR_SIZE + sz) = Some MAGIC_NO))"
  using assms
proof (induction n arbitrary: hdr)
  case (Suc n)
  obtain h w where h: "rd_hdr cb hdr = Some h" "in_block cb (hdr + BUFFER_HDR_SIZE + sz) 4" "b_words cb (hdr + BUFFER_HDR_SIZE + sz) = Some w"
    using Suc.prems[of 0] by auto
  have "\<exists>h w. rd_hdr cb (hdr + act + k * act) = Some h \<and> in_block cb (hdr + act + k * act + BUFFER_HDR_SIZE + sz) 4 \<and>
    b_words cb (hdr + act + k * act + BUFFER_HDR_SIZE + sz) = Some w" if "k < n" for k
    using Suc.prems[of "Suc k"] that by (simp add: add.assoc)
  from Suc.IH[OF this] obtain rows where r: "stat_rows cb (hdr + act) sz act n = Some rows" "length rows = n"
    "\<forall>k<n. map_option (\<lambda>h. (m_u8TaskId h, m_u8Status h)) (rd_hdr cb (hdr + act + k * act)) = Some (fst (rows ! k), fst (snd (rows ! k))) \<and>
      snd (snd (rows ! k)) = (b_words cb (hdr + act + k * act + BUFFER_HDR_SIZE + sz) = Some MAGIC_NO)" by blast
  let ?rows = "(m_u8TaskId h, m_u8Status h, w = MAGIC_NO) # rows"
  have "map_option (\<lambda>h. (m_u8TaskId h, m_u8Status h)) (rd_hdr cb (hdr + k * act)) = Some (fst (?rows ! k), fst (snd (?rows ! k))) \<and>
      snd (snd (?rows ! k)) = (b_words cb (hdr + k * act + BUFFER_HDR_SIZE + sz) = Some MAGIC_NO)" if "k < Suc n" for k
    using that h r(3) by (cases k) (simp_all add: add.assoc)
  then show ?case using h r(1,2) by simp
qed simp

subsection \<open>An example: a memory that never runs out\<close>

definition demo_mal :: malloc where
  "demo_mal bs n = 4096 + 4 * sum_list (map (\<lambda>(q, m). q + m + 1) bs)"

definition demo_gki0 :: tGKI_COM_CB where
  "demo_gki0 = \<lparr>in_atFreeq = [], m_apPoolStart = [], m_apPoolEnd = [], m_ausPoolSize = [],
     m_u16PoolAccessMask = 0, m_aucPoolList = replicate 6 0, m_u8CurrTotalPools = 0, b_hdrs = (\<lambda>_. None), b_words = (\<lambda>_. None),
     b_blocks = []\<rparr>"

definition demo_gki :: tGKI_COM_CB where "demo_gki = fst (the (gki_buffer_init demo_mal demo_gki0))"

lemma demo_mal_ok: "malloc_ok demo_mal" "demo_mal bs n \<noteq> 0"
proof -
  have "q + m < demo_mal bs n" if "(q, m) \<in> set bs" for bs q m n
  proof -
    have "q + m + 1 \<in> set (map (\<lambda>(q, m). q + m + 1) bs)" using that by force
    from member_le_sum_list[OF this] show ?thesis by (simp add: demo_mal_def)
  qed
  then show "malloc_ok demo_mal" unfolding malloc_ok_def by (fastforce simp: demo_mal_def)
qed (simp add: demo_mal_def)

lemma demo_mallocs: "0 \<notin> set (snd (fixed_mallocs demo_mal cb xs))"
proof (induction xs arbitrary: cb)
  case (Cons x xs)
  then show ?case by (cases x) (simp add: GKI_os_malloc_def Let_def demo_mal_ok(2) split_beta del: not_gr_zero)
qed simp

lemma demo_gki_init:
  "gki_valid demo_gki (all_free demo_gki)" "i < POOLS_TOTAL_MAX \<Longrightarrow> length (bufs demo_gki i) = 10 \<and> (restricted demo_gki i \<longleftrightarrow> i = 5)"
  "can_serve demo_gki 100 0" "\<exists>ps. gki_buffer_init demo_mal demo_gki0 = Some (demo_gki, ps)"
proof -
  have b: "blocks_apart (b_blocks demo_gki0)" "length (m_aucPoolList demo_gki0) = POOLS_TOTAL_MAX"
    by (simp_all add: demo_gki0_def blocks_apart_def POOLS_TOTAL_MAX_def)
  from gki_init_ok[OF demo_mal_ok(1) b demo_mallocs] obtain cb' ps where I: "gki_buffer_init demo_mal demo_gki0 = Some (cb', ps)"
    "gki_valid cb' (all_free cb')" "\<forall>i<POOLS_TOTAL_MAX. pstart cb' i = ps ! i \<and> length (bufs cb' i) = 10 \<and>
      m_u16PackSize (fq cb' i) = 200 \<and> (restricted cb' i \<longleftrightarrow> i = 5)" by blast
  have d: "demo_gki = cb'" by (simp add: demo_gki_def I(1))
  show v: "gki_valid demo_gki (all_free demo_gki)" and e: "\<exists>ps. gki_buffer_init demo_mal demo_gki0 = Some (demo_gki, ps)"
    using I(1,2) d by blast+
  show l: "i < POOLS_TOTAL_MAX \<Longrightarrow> length (bufs demo_gki i) = 10 \<and> (restricted demo_gki i \<longleftrightarrow> i = 5)" for i using I(3) d by blast
  have z: "0 < POOLS_TOTAL_MAX" by (simp add: POOLS_TOTAL_MAX_def)
  note P = bp_invD(3)[OF gki_validD(1)[OF v] z]
  have tot: "m_u16PackTotal (fq demo_gki 0) = 10" using l[OF z] by (simp add: bufs_def)
  then have "pstart demo_gki 0 \<noteq> 0" using live_iff[OF P] by simp
  then have "queue_ok demo_gki 0 (bufs demo_gki 0)" using P z by (simp add: bp_pool_def all_free_def)
  then have "m_u16PackCurCnt (fq demo_gki 0) = 0" using l[OF z] tot by (simp add: queue_ok_def)
  then show "can_serve demo_gki 100 0" using l[OF z] tot I(3) z d by (simp add: can_serve_def)
qed

lemma demo_cleared: "gki_valid (gki_cleared demo_gki0) (\<lambda>_. [])" "first_unused (gki_cleared demo_gki0) = 0"
proof -
  let ?cb = "gki_cleared demo_gki0"
  have "bp_inv ?cb (\<lambda>_. [])" by (rule no_pools) (simp_all add: arrays_ok_def gki_cleared_def demo_gki0_def POOLS_TOTAL_MAX_def)
  then show "gki_valid ?cb (\<lambda>_. [])"
    by (rule gki_validI) (simp_all add: intact_def bufs_def gki_cleared_def demo_gki0_def empty_freeq_def own_block_def blocks_apart_def)
  show "first_unused ?cb = 0" by (simp add: first_unused_def gki_cleared_def demo_gki0_def POOLS_TOTAL_MAX_def)
qed

subsection \<open>Properties\<close>

text \<open>C13: With malloc as documented and memory enough, \<open>gki_buffer_init\<close> leaves six valid pools of ten free buffers of
  200 bytes each, in memory of their own, the last one restricted.\<close>
theorem gki_buffer_init_valid:
  assumes "malloc_ok mal" and "blocks_apart (b_blocks cb)" and "length (m_aucPoolList cb) = POOLS_TOTAL_MAX"
    and "0 \<notin> set (snd (fixed_mallocs mal (gki_cleared cb) gki_fixed))"
  shows "\<exists>cb' ps. gki_buffer_init mal cb = Some (cb', ps) \<and> gki_valid cb' (all_free cb') \<and> distinct ps \<and>
    (\<forall>i<POOLS_TOTAL_MAX. pstart cb' i = ps ! i \<and> length (bufs cb' i) = 10 \<and> m_u16PackSize (fq cb' i) = 200 \<and>
      (restricted cb' i \<longleftrightarrow> i = 5))"
  by (rule gki_init_ok[OF assms])

lemma gki_buffer_init_valid_witness:
  "\<exists>cb' ps. gki_buffer_init demo_mal demo_gki0 = Some (cb', ps) \<and> length (bufs cb' 3) = 10"
proof -
  have b: "blocks_apart (b_blocks demo_gki0)" "length (m_aucPoolList demo_gki0) = POOLS_TOTAL_MAX"
    by (simp_all add: demo_gki0_def blocks_apart_def POOLS_TOTAL_MAX_def)
  have "3 < POOLS_TOTAL_MAX" by (simp add: POOLS_TOTAL_MAX_def)
  then show ?thesis using gki_buffer_init_valid[OF demo_mal_ok(1) b demo_mallocs] by blast
qed

text \<open>A buffer got for a request leaves the pools valid, and freeing it puts it behind the free ones of its pool;
  no memory is asked for on the way.\<close>
theorem GKI_getbuf_then_freebuf:
  assumes "gki_valid cb F" and "0 < sz" and "\<exists>pid. can_serve cb sz pid"
  shows "\<exists>cb' cb'' pid p ps. F pid = p # ps \<and> GKI_getbuf_raw mal cb sz = Some (cb', p + BUFFER_HDR_SIZE) \<and>
    GKI_freebuf_raw cb' (p + BUFFER_HDR_SIZE) = Some cb'' \<and> gki_valid cb'' (F(pid := ps @ [p]))"
  by (rule gki.get_then_put[OF assms])

lemma GKI_getbuf_then_freebuf_witness:
  "\<exists>cb' cb'' pid p ps. GKI_getbuf_raw demo_mal demo_gki 100 = Some (cb', p + BUFFER_HDR_SIZE) \<and>
    GKI_freebuf_raw cb' (p + BUFFER_HDR_SIZE) = Some cb'' \<and> gki_valid cb'' ((all_free demo_gki)(pid := ps @ [p]))"
proof -
  have "(0 :: nat) < 100" "\<exists>pid. can_serve demo_gki 100 pid" using demo_gki_init(3) by (simp, blast)
  from GKI_getbuf_then_freebuf[OF demo_gki_init(1) this, of demo_mal] show ?thesis by blast
qed

text \<open>Creating a pool allocates exactly the memory of its buffers, makes them all free, and sets the permission;
  deleting it gives that memory back and leaves the pools as they were.\<close>
theorem GKI_create_then_delete:
  assumes "malloc_ok mal" and "gki_valid cb F" and "first_unused cb \<noteq> POOLS_TOTAL_MAX" and "0 < sz" and "sz \<le> 65520"
    and "0 < cnt" and "cnt < 2 ^ 16" and "mal (b_blocks cb) ((ALIGN_SIZE sz + BUFFER_PADDING_SIZE) * cnt) \<noteq> 0"
  shows "\<exists>cb' cb''. GKI_create_pool mal cb sz cnt perm = Some (cb', 0, Some (first_unused cb)) \<and>
    gki_valid cb' (F(first_unused cb := bufs cb' (first_unused cb))) \<and> length (bufs cb' (first_unused cb)) = cnt \<and>
    m_u16PackSize (fq cb' (first_unused cb)) = ALIGN_SIZE sz \<and> (restricted cb' (first_unused cb) \<longleftrightarrow> perm = POOL_RESTRICTED) \<and>
    GKI_delete_pool cb' (first_unused cb) = Some cb'' \<and> gki_valid cb'' F \<and> b_blocks cb'' = b_blocks cb \<and>
    set (listed cb'') = set (listed cb)"
proof -
  let ?pid = "first_unused cb"
  note inv = gki_validD(1)[OF assms(2)]
  note pid = first_unused[OF bp_invD(1)[OF inv] assms(3)]
  obtain cb' n where C: "GKI_create_pool mal cb sz cnt perm = Some (cb', 0, Some ?pid)" "gki_valid cb' (F(?pid := bufs cb' ?pid))"
    "length (bufs cb' ?pid) = cnt" "m_u16PackSize (fq cb' ?pid) = ALIGN_SIZE sz" "set (listed cb') = insert ?pid (set (listed cb))"
    "restricted cb' ?pid \<longleftrightarrow> perm = POOL_RESTRICTED" "b_blocks cb' = (pstart cb' ?pid, n) # b_blocks cb"
    "pstart cb' ?pid \<noteq> 0" "m_u16PackCurCnt (fq cb' ?pid) = 0" "pstart cb' ?pid \<notin> fst ` set (b_blocks cb)"
    using gki_create_ok[OF assms, of perm] pid(1) by auto
  from gki_delete_ok[OF C(2) pid(1) C(8,9)] obtain cb'' where D: "GKI_delete_pool cb' ?pid = Some cb''"
    "gki_valid cb'' (F(?pid := []))" "listed cb'' = filter (\<lambda>x. x \<noteq> ?pid) (listed cb')"
    "b_blocks cb'' = filter (\<lambda>b. fst b \<noteq> pstart cb' ?pid) (b_blocks cb')" by auto
  have "F ?pid = []" using bp_invD(3)[OF inv pid(1)] pid(2) by (simp add: bp_pool_def)
  then have "F(?pid := []) = F" by auto
  moreover have "b_blocks cb'' = b_blocks cb"
    unfolding D(4) C(7) using C(10) by (fastforce simp: filter_id_conv image_iff)
  moreover have "?pid \<notin> set (listed cb)" using bp_invD(2)[OF inv] pid(2) by (simp add: list_ok_def)
  then have "set (listed cb'') = set (listed cb)" unfolding D(3) using C(5) by auto
  ultimately show ?thesis using C(1-4,6) D(1,2) by (intro exI[of _ cb'] exI[of _ cb'']) simp
qed

lemma GKI_create_then_delete_witness:
  "\<exists>cb' cb''. GKI_create_pool demo_mal (gki_cleared demo_gki0) 98 3 1 = Some (cb', 0, Some 0) \<and> length (bufs cb' 0) = 3 \<and>
    m_u16PackSize (fq cb' 0) = 100 \<and> restricted cb' 0 \<and> GKI_delete_pool cb' 0 = Some cb'' \<and> b_blocks cb'' = []"
proof -
  have a: "first_unused (gki_cleared demo_gki0) \<noteq> POOLS_TOTAL_MAX" by (simp add: demo_cleared(2) POOLS_TOTAL_MAX_def)
  have b: "(0 :: nat) < 98" "(98 :: nat) \<le> 65520" "(0 :: nat) < 3" "(3 :: nat) < 2 ^ 16" by simp_all
  have "b_blocks (gki_cleared demo_gki0) = []" "ALIGN_SIZE 98 = 100" by (simp_all add: gki_cleared_def demo_gki0_def ALIGN_SIZE_def)
  with GKI_create_then_delete[OF demo_mal_ok(1) demo_cleared(1) a b demo_mal_ok(2), of 1, unfolded demo_cleared(2)]
  show ?thesis unfolding POOL_RESTRICTED_def by auto
qed

text \<open>The statistics of a pool have one row for each buffer, which says whether it is free and whether it is intact;
  the pool number 6, which the test at the start lets pass, is read out of bounds.\<close>
theorem gki_print_buffer_statistics_rows:
  assumes "bp_inv cb F" and "pid < POOLS_TOTAL_MAX"
  shows "(\<exists>rows. gki_print_buffer_statistics cb (int pid) = Some rows \<and> length rows = length (bufs cb pid) \<and>
      (\<forall>k<length rows. (fst (snd (rows ! k)) = BUF_STATUS_FREE \<longleftrightarrow> bufs cb pid ! k \<in> set (F pid)) \<and>
        (snd (snd (rows ! k)) \<longleftrightarrow> b_words cb (magic_at cb pid (bufs cb pid ! k)) = Some MAGIC_NO))) \<and>
    gki_print_buffer_statistics cb 6 = None"
proof
  let ?n = "m_u16PackTotal (fq cb pid)" and ?sz = "m_u16PackSize (fq cb pid)" and ?p = "pstart cb pid" and ?act = "psize cb pid"
  note P = bp_invD(3)[OF assms]
  have at: "bufs cb pid ! k = ?p + k * ?act" if "k < ?n" for k using that by (simp add: bufs_def buf_at_def)
  have mag: "magic_at cb pid (?p + k * ?act) = ?p + k * ?act + BUFFER_HDR_SIZE + ?sz" for k by (simp add: magic_at_def)
  have B: "\<exists>h w. rd_hdr cb (?p + k * ?act) = Some h \<and> in_block cb (?p + k * ?act + BUFFER_HDR_SIZE + ?sz) 4 \<and>
    b_words cb (?p + k * ?act + BUFFER_HDR_SIZE + ?sz) = Some w \<and> (m_u8Status h = BUF_STATUS_FREE \<longleftrightarrow> ?p + k * ?act \<in> set (F pid))"
    if k: "k < ?n" for k
  proof -
    have b: "?p + k * ?act \<in> set (bufs cb pid)" unfolding at[OF k, symmetric] using k by (intro nth_mem) (simp add: bufs_def)
    obtain h w where "rd_hdr cb (?p + k * ?act) = Some h" "b_words cb (magic_at cb pid (?p + k * ?act)) = Some w"
      "m_u8Status h = BUF_STATUS_FREE \<longleftrightarrow> ?p + k * ?act \<in> set (F pid)" by (rule bp_buf[OF assms b]) (rule that)
    moreover have "in_block cb (magic_at cb pid (?p + k * ?act)) 4" by (rule buf_range(7)[OF P b])
    ultimately show ?thesis unfolding mag by blast
  qed
  then have "\<exists>h w. rd_hdr cb (?p + k * ?act) = Some h \<and> in_block cb (?p + k * ?act + BUFFER_HDR_SIZE + ?sz) 4 \<and>
    b_words cb (?p + k * ?act + BUFFER_HDR_SIZE + ?sz) = Some w" if "k < ?n" for k using that by blast
  from stat_rows_ok[of ?n cb ?p ?act ?sz, OF this] obtain rows where r: "stat_rows cb ?p ?sz ?act ?n = Some rows" "length rows = ?n"
    "\<And>k. k < ?n \<Longrightarrow> map_option (\<lambda>h. (m_u8TaskId h, m_u8Status h)) (rd_hdr cb (?p + k * ?act)) = Some (fst (rows ! k), fst (snd (rows ! k))) \<and>
      snd (snd (rows ! k)) = (b_words cb (?p + k * ?act + BUFFER_HDR_SIZE + ?sz) = Some MAGIC_NO)" by blast
  have act: "?n = 0 \<or> u16 (?sz + BUFFER_PADDING_SIZE) = ?act"
    using P live_iff[OF P] by (cases "?p = 0") (simp_all add: bp_pool_def pool_mem_ok_def u16_id)
  have len: "length (in_atFreeq cb) = POOLS_TOTAL_MAX" "length (m_apPoolStart cb) = POOLS_TOTAL_MAX"
    using bp_invD(1)[OF assms(1)] by (simp_all add: arrays_ok_def)
  have "gki_print_buffer_statistics cb (int pid) = Some rows"
    using assms(2) len r(1) act by (auto simp: gki_print_buffer_statistics_def ith_Some)
  moreover have "(fst (snd (rows ! k)) = BUF_STATUS_FREE \<longleftrightarrow> bufs cb pid ! k \<in> set (F pid)) \<and>
        (snd (snd (rows ! k)) \<longleftrightarrow> b_words cb (magic_at cb pid (bufs cb pid ! k)) = Some MAGIC_NO)" if k: "k < ?n" for k
    using B[OF k] r(3)[OF k] unfolding at[OF k] mag by auto
  moreover have "length (bufs cb pid) = ?n" by (simp add: bufs_def)
  ultimately show "\<exists>rows. gki_print_buffer_statistics cb (int pid) = Some rows \<and> length rows = length (bufs cb pid) \<and>
      (\<forall>k<length rows. (fst (snd (rows ! k)) = BUF_STATUS_FREE \<longleftrightarrow> bufs cb pid ! k \<in> set (F pid)) \<and>
        (snd (snd (rows ! k)) \<longleftrightarrow> b_words cb (magic_at cb pid (bufs cb pid ! k)) = Some MAGIC_NO))"
    using r(2) by auto
  show "gki_print_buffer_statistics cb 6 = None"
    using len by (simp add: gki_print_buffer_statistics_def POOLS_TOTAL_MAX_def ith_def)
qed

lemma gki_print_buffer_statistics_rows_witness:
  "(\<exists>rows. gki_print_buffer_statistics demo_gki 2 = Some rows \<and> length rows = 10) \<and> gki_print_buffer_statistics demo_gki 6 = None"
proof -
  have i: "2 < POOLS_TOTAL_MAX" by (simp add: POOLS_TOTAL_MAX_def)
  from gki_print_buffer_statistics_rows[OF gki_validD(1)[OF demo_gki_init(1)] i] demo_gki_init(2)[OF i] show ?thesis by auto
qed

end
