(* ===== verification/Rb_Tree.thy ===== *)
theory Rb_Tree
  imports C_Prelude "HOL-Library.Tree"
begin

section \<open>The red-black tree (\<^verbatim>\<open>oslib/src/rbtree.c\<close>)\<close>

text \<open>
  Nodes with parent pointers in a store by address. A tree has a node of its own, at the address
  \<open>rbt_null\<close>, that stands for every missing child and for the parent of the root; the code reads
  and writes it like the others. Keys are opaque pointers that the comparison function orders.

  The two halves of the code that mirror each other are both written out.
\<close>

subsection \<open>State\<close>

datatype rbcolor = RBCOLOR_BLACK | RBCOLOR_RED

record T_RBTreeNode =
  rb_parent :: addr
  rb_left :: addr
  rb_right :: addr
  rb_key :: addr
  rb_user_data :: addr
  rb_color :: rbcolor

type_synonym RBTREE_COMP = "addr \<Rightarrow> addr \<Rightarrow> int"

record T_RBTree =
  rbt_nodes :: "addr \<Rightarrow> T_RBTreeNode option"
  rbt_null :: addr
  rbt_root :: addr
  rbt_size :: nat
  rbt_comp :: RBTREE_COMP

text \<open>Reads and writes of a field of the node at an address.\<close>

definition get_parent :: "T_RBTree \<Rightarrow> addr \<Rightarrow> addr option" where
  "get_parent T p = map_option rb_parent (rbt_nodes T p)"

definition get_left :: "T_RBTree \<Rightarrow> addr \<Rightarrow> addr option" where
  "get_left T p = map_option rb_left (rbt_nodes T p)"

definition get_right :: "T_RBTree \<Rightarrow> addr \<Rightarrow> addr option" where
  "get_right T p = map_option rb_right (rbt_nodes T p)"

definition get_color :: "T_RBTree \<Rightarrow> addr \<Rightarrow> rbcolor option" where
  "get_color T p = map_option rb_color (rbt_nodes T p)"

definition get_key :: "T_RBTree \<Rightarrow> addr \<Rightarrow> addr option" where
  "get_key T p = map_option rb_key (rbt_nodes T p)"

definition set_node :: "T_RBTree \<Rightarrow> addr \<Rightarrow> (T_RBTreeNode \<Rightarrow> T_RBTreeNode) \<Rightarrow> T_RBTree option" where
  "set_node T p f = map_option (\<lambda>n. T\<lparr>rbt_nodes := (rbt_nodes T)(p \<mapsto> f n)\<rparr>) (rbt_nodes T p)"

definition set_parent :: "T_RBTree \<Rightarrow> addr \<Rightarrow> addr \<Rightarrow> T_RBTree option" where
  "set_parent T p q = set_node T p (\<lambda>n. n\<lparr>rb_parent := q\<rparr>)"

definition set_left :: "T_RBTree \<Rightarrow> addr \<Rightarrow> addr \<Rightarrow> T_RBTree option" where
  "set_left T p q = set_node T p (\<lambda>n. n\<lparr>rb_left := q\<rparr>)"

definition set_right :: "T_RBTree \<Rightarrow> addr \<Rightarrow> addr \<Rightarrow> T_RBTree option" where
  "set_right T p q = set_node T p (\<lambda>n. n\<lparr>rb_right := q\<rparr>)"

definition set_color :: "T_RBTree \<Rightarrow> addr \<Rightarrow> rbcolor \<Rightarrow> T_RBTree option" where
  "set_color T p c = set_node T p (\<lambda>n. n\<lparr>rb_color := c\<rparr>)"

subsection \<open>Rotations\<close>

text \<open>Below \<open>par\<close>, or as the root when \<open>par\<close> is the sentinel, \<open>new\<close> takes the place of \<open>old\<close>.\<close>

definition relink :: "T_RBTree \<Rightarrow> addr \<Rightarrow> addr \<Rightarrow> addr \<Rightarrow> T_RBTree option" where
  "relink T par old new =
     (if par \<noteq> rbt_null T
      then do { pl \<leftarrow> get_left T par; if pl = old then set_left T par new else set_right T par new }
      else Some (T\<lparr>rbt_root := new\<rparr>))"

definition left_rotate :: "T_RBTree \<Rightarrow> addr \<Rightarrow> T_RBTree option" where
  "left_rotate T node =
     do {
       rnode \<leftarrow> get_right T node;
       if rnode = rbt_null T then Some T
       else do {
         rl \<leftarrow> get_left T rnode;
         T1 \<leftarrow> set_right T node rl;
         T2 \<leftarrow> (if rl \<noteq> rbt_null T then set_parent T1 rl node else Some T1);
         par \<leftarrow> get_parent T2 node;
         T3 \<leftarrow> set_parent T2 rnode par;
         T4 \<leftarrow> relink T3 par node rnode;
         T5 \<leftarrow> set_left T4 rnode node;
         set_parent T5 node rnode
       }
     }"

definition right_rotate :: "T_RBTree \<Rightarrow> addr \<Rightarrow> T_RBTree option" where
  "right_rotate T node =
     do {
       lnode \<leftarrow> get_left T node;
       if lnode = rbt_null T then Some T
       else do {
         lr \<leftarrow> get_right T lnode;
         T1 \<leftarrow> set_left T node lr;
         T2 \<leftarrow> (if lr \<noteq> rbt_null T then set_parent T1 lr node else Some T1);
         par \<leftarrow> get_parent T2 node;
         T3 \<leftarrow> set_parent T2 lnode par;
         T4 \<leftarrow> relink T3 par node lnode;
         T5 \<leftarrow> set_right T4 lnode node;
         set_parent T5 node lnode
       }
     }"

subsection \<open>Insertion\<close>

text \<open>The body of the loop of \<open>insert_fixup\<close>, for a parent that is a left child and for one that is not.\<close>

definition insert_left_case :: "T_RBTree \<Rightarrow> addr \<Rightarrow> addr \<Rightarrow> addr \<Rightarrow> (T_RBTree \<times> addr) option" where
  "insert_left_case T node par gpar =
     do {
       temp \<leftarrow> get_right T gpar;
       c \<leftarrow> get_color T temp;
       if c = RBCOLOR_RED
       then do {
         T1 \<leftarrow> set_color T temp RBCOLOR_BLACK;
         T2 \<leftarrow> set_color T1 par RBCOLOR_BLACK;
         node1 \<leftarrow> get_parent T2 par;
         T3 \<leftarrow> set_color T2 node1 RBCOLOR_RED;
         Some (T3, node1)
       }
       else do {
         pr \<leftarrow> get_right T par;
         (T1, node1) \<leftarrow> (if node = pr then map_option (\<lambda>T1. (T1, par)) (left_rotate T par) else Some (T, node));
         temp1 \<leftarrow> get_parent T1 node1;
         T2 \<leftarrow> set_color T1 temp1 RBCOLOR_BLACK;
         temp2 \<leftarrow> get_parent T2 temp1;
         T3 \<leftarrow> set_color T2 temp2 RBCOLOR_RED;
         T4 \<leftarrow> right_rotate T3 temp2;
         Some (T4, node1)
       }
     }"

definition insert_right_case :: "T_RBTree \<Rightarrow> addr \<Rightarrow> addr \<Rightarrow> addr \<Rightarrow> (T_RBTree \<times> addr) option" where
  "insert_right_case T node par gpar =
     do {
       temp \<leftarrow> get_left T gpar;
       c \<leftarrow> get_color T temp;
       if c = RBCOLOR_RED
       then do {
         T1 \<leftarrow> set_color T temp RBCOLOR_BLACK;
         T2 \<leftarrow> set_color T1 par RBCOLOR_BLACK;
         node1 \<leftarrow> get_parent T2 par;
         T3 \<leftarrow> set_color T2 node1 RBCOLOR_RED;
         Some (T3, node1)
       }
       else do {
         pl \<leftarrow> get_left T par;
         (T1, node1) \<leftarrow> (if node = pl then map_option (\<lambda>T1. (T1, par)) (right_rotate T par) else Some (T, node));
         temp1 \<leftarrow> get_parent T1 node1;
         T2 \<leftarrow> set_color T1 temp1 RBCOLOR_BLACK;
         temp2 \<leftarrow> get_parent T2 temp1;
         T3 \<leftarrow> set_color T2 temp2 RBCOLOR_RED;
         T4 \<leftarrow> left_rotate T3 temp2;
         Some (T4, node1)
       }
     }"

text \<open>The parent of \<open>node\<close> when the loop goes on: \<open>node\<close> is not the root and its parent is red.\<close>

definition red_parent :: "T_RBTree \<Rightarrow> addr \<Rightarrow> addr option option" where
  "red_parent T node =
     (if node = rbt_root T then Some None
      else do {
        par \<leftarrow> get_parent T node;
        c \<leftarrow> get_color T par;
        Some (if c = RBCOLOR_RED then Some par else None)
      })"

partial_function (option) insert_fixup :: "T_RBTree \<Rightarrow> addr \<Rightarrow> T_RBTree option" where
  "insert_fixup T node =
     Option.bind (red_parent T node) (\<lambda>go. case go of
       None \<Rightarrow> set_color T (rbt_root T) RBCOLOR_BLACK
     | Some par \<Rightarrow>
         do {
           gpar \<leftarrow> get_parent T par;
           gl \<leftarrow> get_left T gpar;
           (T1, node1) \<leftarrow> (if par = gl then insert_left_case T node par gpar else insert_right_case T node par gpar);
           insert_fixup T1 node1
         })"

text \<open>The search for a key from \<open>node\<close>: the node with an equal key, or null; the node above and the last comparison.\<close>

partial_function (option) rb_search :: "T_RBTree \<Rightarrow> addr \<Rightarrow> addr \<Rightarrow> addr \<Rightarrow> int \<Rightarrow> (addr \<times> addr \<times> int) option" where
  "rb_search T key node par rv =
     (if node = rbt_null T then Some (node, par, rv)
      else do {
        k \<leftarrow> get_key T node;
        let rv = rbt_comp T key k;
        if rv = 0 then Some (node, par, rv)
        else do {
          next \<leftarrow> (if rv < 0 then get_left T node else get_right T node);
          rb_search T key next node rv
        }
      })"

definition RBTREE_Insert :: "T_RBTree \<Rightarrow> addr \<Rightarrow> (T_RBTree \<times> int) option" where
  "RBTREE_Insert T element =
     do {
       key \<leftarrow> get_key T element;
       (node, par, rv) \<leftarrow> rb_search T key (rbt_root T) (rbt_null T) 0;
       if node \<noteq> rbt_null T then Some (T, -1)
       else do {
         T1 \<leftarrow> set_color T element RBCOLOR_RED;
         T2 \<leftarrow> set_right T1 element (rbt_null T);
         T3 \<leftarrow> set_left T2 element (rbt_null T);
         T6 \<leftarrow> (if par \<noteq> rbt_null T
           then do {
             T4 \<leftarrow> set_parent T3 element par;
             T5 \<leftarrow> (if rv < 0 then set_left T4 par element else set_right T4 par element);
             insert_fixup T5 element
           }
           else do {
             T4 \<leftarrow> set_parent (T3\<lparr>rbt_root := element\<rparr>) element (rbt_null T);
             set_color T4 element RBCOLOR_BLACK
           });
         Some (T6\<lparr>rbt_size := u32 (rbt_size T6 + 1)\<rparr>, 0)
       }
     }"

subsection \<open>Removal\<close>

text \<open>
  The body of the loop of \<open>delete_fixup\<close>, for a node that is a left child and for one that is not:
  a red sibling is rotated up; two black children make it red; else the loop ends with one or two
  rotations. The colors of both children of the sibling are read before the test; the code leaves
  the second out when the first is red.
\<close>

definition delete_left_sibling :: "T_RBTree \<Rightarrow> addr \<Rightarrow> (T_RBTree \<times> addr) option" where
  "delete_left_sibling T node =
     do {
       par \<leftarrow> get_parent T node;
       temp \<leftarrow> get_right T par;
       c \<leftarrow> get_color T temp;
       if c = RBCOLOR_RED
       then do {
         T1 \<leftarrow> set_color T temp RBCOLOR_BLACK;
         p1 \<leftarrow> get_parent T1 node;
         T2 \<leftarrow> set_color T1 p1 RBCOLOR_RED;
         p2 \<leftarrow> get_parent T2 node;
         T3 \<leftarrow> left_rotate T2 p2;
         p3 \<leftarrow> get_parent T3 node;
         temp1 \<leftarrow> get_right T3 p3;
         Some (T3, temp1)
       }
       else Some (T, temp)
     }"

definition delete_left_end :: "T_RBTree \<Rightarrow> addr \<Rightarrow> addr \<Rightarrow> T_RBTree option" where
  "delete_left_end T node temp =
     do {
       tf \<leftarrow> get_right T temp;
       fc \<leftarrow> get_color T tf;
       (T2, temp2) \<leftarrow> (if fc = RBCOLOR_BLACK
         then do {
           tn \<leftarrow> get_left T temp;
           Ta \<leftarrow> set_color T tn RBCOLOR_BLACK;
           Tb \<leftarrow> set_color Ta temp RBCOLOR_RED;
           Tc \<leftarrow> right_rotate Tb temp;
           p \<leftarrow> get_parent Tc node;
           temp1 \<leftarrow> get_right Tc p;
           Some (Tc, temp1)
         }
         else Some (T, temp));
       p2 \<leftarrow> get_parent T2 node;
       pc \<leftarrow> get_color T2 p2;
       T3 \<leftarrow> set_color T2 temp2 pc;
       tf2 \<leftarrow> get_right T3 temp2;
       T4 \<leftarrow> set_color T3 tf2 RBCOLOR_BLACK;
       p4 \<leftarrow> get_parent T4 node;
       T5 \<leftarrow> set_color T4 p4 RBCOLOR_BLACK;
       p5 \<leftarrow> get_parent T5 node;
       left_rotate T5 p5
     }"

definition delete_left_case :: "T_RBTree \<Rightarrow> addr \<Rightarrow> (T_RBTree \<times> addr) option" where
  "delete_left_case T node =
     do {
       (T1, temp) \<leftarrow> delete_left_sibling T node;
       tn \<leftarrow> get_left T1 temp;
       nc \<leftarrow> get_color T1 tn;
       tf \<leftarrow> get_right T1 temp;
       fc \<leftarrow> get_color T1 tf;
       if nc = RBCOLOR_BLACK \<and> fc = RBCOLOR_BLACK
       then do {
         T2 \<leftarrow> set_color T1 temp RBCOLOR_RED;
         node1 \<leftarrow> get_parent T2 node;
         Some (T2, node1)
       }
       else do {
         T2 \<leftarrow> delete_left_end T1 node temp;
         Some (T2, rbt_root T2)
       }
     }"

definition delete_right_sibling :: "T_RBTree \<Rightarrow> addr \<Rightarrow> (T_RBTree \<times> addr) option" where
  "delete_right_sibling T node =
     do {
       par \<leftarrow> get_parent T node;
       temp \<leftarrow> get_left T par;
       c \<leftarrow> get_color T temp;
       if c = RBCOLOR_RED
       then do {
         T1 \<leftarrow> set_color T temp RBCOLOR_BLACK;
         p1 \<leftarrow> get_parent T1 node;
         T2 \<leftarrow> set_color T1 p1 RBCOLOR_RED;
         p2 \<leftarrow> get_parent T2 node;
         T3 \<leftarrow> right_rotate T2 p2;
         p3 \<leftarrow> get_parent T3 node;
         temp1 \<leftarrow> get_left T3 p3;
         Some (T3, temp1)
       }
       else Some (T, temp)
     }"

definition delete_right_end :: "T_RBTree \<Rightarrow> addr \<Rightarrow> addr \<Rightarrow> T_RBTree option" where
  "delete_right_end T node temp =
     do {
       tf \<leftarrow> get_left T temp;
       fc \<leftarrow> get_color T tf;
       (T2, temp2) \<leftarrow> (if fc = RBCOLOR_BLACK
         then do {
           tn \<leftarrow> get_right T temp;
           Ta \<leftarrow> set_color T tn RBCOLOR_BLACK;
           Tb \<leftarrow> set_color Ta temp RBCOLOR_RED;
           Tc \<leftarrow> left_rotate Tb temp;
           p \<leftarrow> get_parent Tc node;
           temp1 \<leftarrow> get_left Tc p;
           Some (Tc, temp1)
         }
         else Some (T, temp));
       p2 \<leftarrow> get_parent T2 node;
       pc \<leftarrow> get_color T2 p2;
       T3 \<leftarrow> set_color T2 temp2 pc;
       p3 \<leftarrow> get_parent T3 node;
       T4 \<leftarrow> set_color T3 p3 RBCOLOR_BLACK;
       tf2 \<leftarrow> get_left T4 temp2;
       T5 \<leftarrow> set_color T4 tf2 RBCOLOR_BLACK;
       p5 \<leftarrow> get_parent T5 node;
       right_rotate T5 p5
     }"

definition delete_right_case :: "T_RBTree \<Rightarrow> addr \<Rightarrow> (T_RBTree \<times> addr) option" where
  "delete_right_case T node =
     do {
       (T1, temp) \<leftarrow> delete_right_sibling T node;
       tn \<leftarrow> get_right T1 temp;
       nc \<leftarrow> get_color T1 tn;
       tf \<leftarrow> get_left T1 temp;
       fc \<leftarrow> get_color T1 tf;
       if nc = RBCOLOR_BLACK \<and> fc = RBCOLOR_BLACK
       then do {
         T2 \<leftarrow> set_color T1 temp RBCOLOR_RED;
         node1 \<leftarrow> get_parent T2 node;
         Some (T2, node1)
       }
       else do {
         T2 \<leftarrow> delete_right_end T1 node temp;
         Some (T2, rbt_root T2)
       }
     }"

partial_function (option) delete_fixup :: "T_RBTree \<Rightarrow> addr \<Rightarrow> T_RBTree option" where
  "delete_fixup T node =
     do {
       go \<leftarrow> (if node = rbt_root T then Some False else map_option (\<lambda>c. c = RBCOLOR_BLACK) (get_color T node));
       if go
       then do {
         par \<leftarrow> get_parent T node;
         pl \<leftarrow> get_left T par;
         (T1, node1) \<leftarrow> (if pl = node then delete_left_case T node else delete_right_case T node);
         delete_fixup T1 node1
       }
       else set_color T node RBCOLOR_BLACK
     }"

partial_function (option) leftmost :: "T_RBTree \<Rightarrow> addr \<Rightarrow> addr option" where
  "leftmost T node = do { l \<leftarrow> get_left T node; if l \<noteq> rbt_null T then leftmost T l else Some node }"

partial_function (option) rightmost :: "T_RBTree \<Rightarrow> addr \<Rightarrow> addr option" where
  "rightmost T node = do { r \<leftarrow> get_right T node; if r \<noteq> rbt_null T then rightmost T r else Some node }"

text \<open>\<open>succ\<close>, which is unlinked, takes the place of \<open>node\<close>.\<close>

definition erase_replace :: "T_RBTree \<Rightarrow> addr \<Rightarrow> addr \<Rightarrow> T_RBTree option" where
  "erase_replace T node succ =
     do {
       p \<leftarrow> get_parent T node;
       T1 \<leftarrow> set_parent T succ p;
       l \<leftarrow> get_left T1 node;
       T2 \<leftarrow> set_left T1 succ l;
       r \<leftarrow> get_right T2 node;
       T3 \<leftarrow> set_right T2 succ r;
       c \<leftarrow> get_color T3 node;
       T4 \<leftarrow> set_color T3 succ c;
       par \<leftarrow> get_parent T4 node;
       T5 \<leftarrow> (if par \<noteq> rbt_null T4
         then do { pl \<leftarrow> get_left T4 par; if pl = node then set_left T4 par succ else set_right T4 par succ }
         else Some T4);
       nl \<leftarrow> get_left T5 node;
       T6 \<leftarrow> (if nl \<noteq> rbt_null T5 then set_parent T5 nl succ else Some T5);
       nr \<leftarrow> get_right T6 node;
       T7 \<leftarrow> (if nr \<noteq> rbt_null T6 then set_parent T6 nr succ else Some T6);
       Some (if rbt_root T7 = node then T7\<lparr>rbt_root := succ\<rparr> else T7)
     }"

definition RBTREE_Erase :: "T_RBTree \<Rightarrow> addr \<Rightarrow> (T_RBTree \<times> addr) option" where
  "RBTREE_Erase T node =
     do {
       l \<leftarrow> get_left T node;
       r \<leftarrow> get_right T node;
       succ \<leftarrow> (if l = rbt_null T \<or> r = rbt_null T then Some node else leftmost T r);
       sl \<leftarrow> get_left T succ;
       sr \<leftarrow> get_right T succ;
       let child = (if sl \<noteq> rbt_null T then sl else sr);
       par \<leftarrow> get_parent T succ;
       T1 \<leftarrow> set_parent T child par;
       T2 \<leftarrow> relink T1 par succ child;
       T3 \<leftarrow> (if succ \<noteq> node then erase_replace T2 node succ else Some T2);
       c \<leftarrow> get_color T3 succ;
       T5 \<leftarrow> (if c = RBCOLOR_BLACK
         then do {
           T4 \<leftarrow> (if child \<noteq> rbt_null T then delete_fixup T3 child else Some T3);
           set_color T4 (rbt_null T) RBCOLOR_BLACK
         }
         else Some T3);
       Some (T5\<lparr>rbt_size := sub32 (rbt_size T5) 1\<rparr>, node)
     }"

subsection \<open>Creation, search, traversal and height\<close>

text \<open>\<open>z\<close> is the address of the tree's own node; 0 is a null pointer in the results.\<close>

definition RBTREE_Init :: "(addr \<Rightarrow> T_RBTreeNode option) \<Rightarrow> addr \<Rightarrow> RBTREE_COMP \<Rightarrow> T_RBTree" where
  "RBTREE_Init nodes z cmp =
     \<lparr>rbt_nodes = nodes(z \<mapsto> \<lparr>rb_parent = z, rb_left = z, rb_right = z, rb_key = 0, rb_user_data = 0, rb_color = RBCOLOR_BLACK\<rparr>),
      rbt_null = z, rbt_root = z, rbt_size = 0, rbt_comp = cmp\<rparr>"

definition or_null :: "T_RBTree \<Rightarrow> addr \<Rightarrow> addr" where
  "or_null T node = (if node \<noteq> rbt_null T then node else 0)"

definition RBTREE_First :: "T_RBTree \<Rightarrow> addr option" where
  "RBTREE_First T = map_option (or_null T) (leftmost T (rbt_root T))"

definition RBTREE_Last :: "T_RBTree \<Rightarrow> addr option" where
  "RBTREE_Last T = map_option (or_null T) (rightmost T (rbt_root T))"

text \<open>The loops that go up while the node is a right (left) child.\<close>

partial_function (option) up_right :: "T_RBTree \<Rightarrow> addr \<Rightarrow> addr \<Rightarrow> addr option" where
  "up_right T node temp =
     (if temp = rbt_null T then Some temp
      else do {
        r \<leftarrow> get_right T temp;
        if r = node then do { p \<leftarrow> get_parent T temp; up_right T temp p } else Some temp
      })"

partial_function (option) up_left :: "T_RBTree \<Rightarrow> addr \<Rightarrow> addr \<Rightarrow> addr option" where
  "up_left T node temp =
     (if temp = rbt_null T then Some temp
      else do {
        l \<leftarrow> get_left T temp;
        if l = node then do { p \<leftarrow> get_parent T temp; up_left T temp p } else Some temp
      })"

definition RBTREE_Next :: "T_RBTree \<Rightarrow> addr \<Rightarrow> addr option" where
  "RBTREE_Next T node =
     map_option (or_null T)
       (do {
          r \<leftarrow> get_right T node;
          if r \<noteq> rbt_null T then leftmost T r
          else do { p \<leftarrow> get_parent T node; up_right T node p }
        })"

definition RBTREE_Prev :: "T_RBTree \<Rightarrow> addr \<Rightarrow> addr option" where
  "RBTREE_Prev T node =
     map_option (or_null T)
       (do {
          l \<leftarrow> get_left T node;
          if l \<noteq> rbt_null T then rightmost T l
          else do { p \<leftarrow> get_parent T node; up_left T node p }
        })"

definition RBTREE_Find :: "T_RBTree \<Rightarrow> addr \<Rightarrow> addr option" where
  "RBTREE_Find T key = map_option (\<lambda>(node, par, rv). or_null T node) (rb_search T key (rbt_root T) (rbt_null T) 0)"

partial_function (option) RBTREE_HeightMax :: "T_RBTree \<Rightarrow> addr \<Rightarrow> nat option" where
  "RBTREE_HeightMax T node0 =
     do {
       let node = (if node0 = 0 then rbt_root T else node0);
       pl \<leftarrow> get_left T node;
       l \<leftarrow> (if pl \<noteq> rbt_null T then do { h \<leftarrow> RBTREE_HeightMax T pl; Some (u32 (h + 1)) } else Some 0);
       pr \<leftarrow> get_right T node;
       r \<leftarrow> (if pr \<noteq> rbt_null T then do { h \<leftarrow> RBTREE_HeightMax T pr; Some (u32 (h + 1)) } else Some 0);
       Some (if l > r then l else r)
     }"

text \<open>The recursion is into the other function.\<close>

definition RBTREE_HeightMin :: "T_RBTree \<Rightarrow> addr \<Rightarrow> nat option" where
  "RBTREE_HeightMin T node0 =
     do {
       let node = (if node0 = 0 then rbt_root T else node0);
       pl \<leftarrow> get_left T node;
       l \<leftarrow> (if pl \<noteq> rbt_null T then do { h \<leftarrow> RBTREE_HeightMax T pl; Some (u32 (h + 1)) } else Some 0);
       pr \<leftarrow> get_right T node;
       r \<leftarrow> (if pr \<noteq> rbt_null T then do { h \<leftarrow> RBTREE_HeightMax T pr; Some (u32 (h + 1)) } else Some 0);
       Some (if l > r then r else l)
     }"

end
