(* ===== verification/Rb_Shape.thy ===== *)
theory Rb_Shape
  imports Rb_Tree
begin

section \<open>The shape of a red-black tree in memory, and rotations\<close>

text \<open>
  \<open>is_tree T t\<close>: the nodes of \<open>T\<close> reached from its root form the tree \<open>t\<close> of addresses, with right
  parent pointers. To look at a part of it, a context \<open>c\<close> is the path from the part up to the root:
  \<open>plug c t\<close> is the whole tree. Colors are a separate function, \<open>clr T\<close>.
\<close>

subsection \<open>Trees and contexts\<close>

type_synonym store = "addr \<Rightarrow> T_RBTreeNode option"

text \<open>\<open>LF a r\<close>: the part is the left subtree of \<open>a\<close>, whose right one is \<open>r\<close>; \<open>RF l a\<close>: it is the right one.\<close>

datatype frame = LF addr "addr tree" | RF "addr tree" addr

fun faddr :: "frame \<Rightarrow> addr" where
  "faddr (LF a r) = a" | "faddr (RF l a) = a"

fun fill :: "frame \<Rightarrow> addr tree \<Rightarrow> addr tree" where
  "fill (LF a r) t = Node t a r" | "fill (RF l a) t = Node l a t"

fun plug :: "frame list \<Rightarrow> addr tree \<Rightarrow> addr tree" where
  "plug [] t = t" | "plug (f # c) t = plug c (fill f t)"

fun ptr :: "addr \<Rightarrow> addr tree \<Rightarrow> addr" where
  "ptr z Leaf = z" | "ptr z (Node l a r) = a"

fun cpar :: "addr \<Rightarrow> frame list \<Rightarrow> addr" where
  "cpar z [] = z" | "cpar z (f # c) = faddr f"

text \<open>The root of the whole tree when the part's pointer is \<open>p\<close>.\<close>

fun croot :: "frame list \<Rightarrow> addr \<Rightarrow> addr" where
  "croot [] p = p" | "croot (f # c) p = croot c (faddr f)"

fun fnodes :: "frame \<Rightarrow> addr list" where
  "fnodes (LF a r) = a # inorder r" | "fnodes (RF l a) = inorder l @ [a]"

fun cnodes :: "frame list \<Rightarrow> addr list" where
  "cnodes [] = []" | "cnodes (f # c) = fnodes f @ cnodes c"

text \<open>The nodes before and behind the part in order.\<close>

fun cbefore :: "frame list \<Rightarrow> addr list" where
  "cbefore [] = []" | "cbefore (LF a r # c) = cbefore c" | "cbefore (RF l a # c) = cbefore c @ inorder l @ [a]"

fun cbehind :: "frame list \<Rightarrow> addr list" where
  "cbehind [] = []" | "cbehind (LF a r # c) = a # inorder r @ cbehind c" | "cbehind (RF l a # c) = cbehind c"

fun shape :: "store \<Rightarrow> addr \<Rightarrow> addr \<Rightarrow> addr tree \<Rightarrow> bool" where
  "shape H z par Leaf = True"
| "shape H z par (Node l a r) \<longleftrightarrow> a \<noteq> z \<and>
     (\<exists>n. H a = Some n \<and> rb_parent n = par \<and> rb_left n = ptr z l \<and> rb_right n = ptr z r) \<and> shape H z a l \<and> shape H z a r"

fun cshape :: "store \<Rightarrow> addr \<Rightarrow> addr \<Rightarrow> frame list \<Rightarrow> bool" where
  "cshape H z p [] = True"
| "cshape H z p (LF a r # c) \<longleftrightarrow> a \<noteq> z \<and>
     (\<exists>n. H a = Some n \<and> rb_parent n = cpar z c \<and> rb_left n = p \<and> rb_right n = ptr z r) \<and> shape H z a r \<and> cshape H z a c"
| "cshape H z p (RF l a # c) \<longleftrightarrow> a \<noteq> z \<and>
     (\<exists>n. H a = Some n \<and> rb_parent n = cpar z c \<and> rb_left n = ptr z l \<and> rb_right n = p) \<and> shape H z a l \<and> cshape H z a c"

lemma ptr_fill [simp]: "ptr z (fill f t) = faddr f"
  by (cases f) simp_all

lemma ptr_plug: "ptr z (plug c t) = croot c (ptr z t)"
  by (induction c arbitrary: t) simp_all

lemma plug_snoc: "plug (c @ [f]) t = fill f (plug c t)"
  by (induction c arbitrary: t) simp_all

lemma inorder_plug: "inorder (plug c t) = cbefore c @ inorder t @ cbehind c"
proof (induction c arbitrary: t)
  case (Cons f c)
  then show ?case by (cases f) simp_all
qed simp

lemma set_cnodes: "set (cnodes c) = set (cbefore c) \<union> set (cbehind c)"
proof (induction c)
  case (Cons f c)
  then show ?case by (cases f) auto
qed simp

lemma set_plug [simp]: "set_tree (plug c t) = set_tree t \<union> set (cnodes c)"
proof -
  have "set_tree (plug c t) = set (inorder (plug c t))" by simp
  then show ?thesis unfolding inorder_plug using set_cnodes[of c] by auto
qed

lemma distinct_plug:
  "distinct (inorder (plug c t)) \<longleftrightarrow> distinct (inorder t) \<and> distinct (cnodes c) \<and> set (inorder t) \<inter> set (cnodes c) = {}"
proof (induction c arbitrary: t)
  case (Cons f c)
  show ?case by (cases f) (auto simp: Cons.IH)
qed simp

lemma shape_plug: "shape H z z (plug c t) \<longleftrightarrow> cshape H z (ptr z t) c \<and> shape H z (cpar z c) t"
proof (induction c arbitrary: t)
  case (Cons f c)
  show ?case by (cases f) (auto simp: Cons.IH)
qed simp

subsection \<open>Updates elsewhere\<close>

lemma shape_cong: "(\<And>a. a \<in> set_tree t \<Longrightarrow> H' a = H a) \<Longrightarrow> shape H' z par t = shape H z par t"
  by (induction t arbitrary: par) simp_all

lemma cshape_cong: "(\<And>a. a \<in> set (cnodes c) \<Longrightarrow> H' a = H a) \<Longrightarrow> cshape H' z p c = cshape H z p c"
proof (induction c arbitrary: p)
  case (Cons f c)
  have c: "cshape H' z q c = cshape H z q c" for q by (rule Cons.IH) (simp add: Cons.prems)
  show ?case
  proof (cases f)
    case (LF a r)
    then have "shape H' z a r = shape H z a r" "H' a = H a" using Cons.prems by (auto intro!: shape_cong)
    then show ?thesis by (simp add: LF c)
  next
    case (RF l a)
    then have "shape H' z a l = shape H z a l" "H' a = H a" using Cons.prems by (auto intro!: shape_cong)
    then show ?thesis by (simp add: RF c)
  qed
qed simp

lemma shape_upd [simp]: "a \<notin> set_tree t \<Longrightarrow> shape (H(a \<mapsto> n)) z par t = shape H z par t"
  by (rule shape_cong) auto

lemma cshape_upd [simp]: "a \<notin> set (cnodes c) \<Longrightarrow> cshape (H(a \<mapsto> n)) z p c = cshape H z p c"
  by (rule cshape_cong) auto

lemma shape_not_null: "shape H z par t \<Longrightarrow> z \<notin> set_tree t"
  by (induction t arbitrary: par) auto

lemma cshape_not_null: "cshape H z p c \<Longrightarrow> z \<notin> set (cnodes c)"
proof (induction c arbitrary: p)
  case (Cons f c)
  then show ?case by (cases f) (auto dest: shape_not_null)
qed simp

lemma shape_node: "shape H z par t \<Longrightarrow> a \<in> set_tree t \<Longrightarrow> \<exists>n. H a = Some n"
  by (induction t arbitrary: par) auto

lemma cshape_node: "cshape H z p c \<Longrightarrow> a \<in> set (cnodes c) \<Longrightarrow> \<exists>n. H a = Some n"
proof (induction c arbitrary: p)
  case (Cons f c)
  then show ?case by (cases f) (auto dest: shape_node)
qed simp

text \<open>What the shape says does not depend on colors, keys and user data.\<close>

definition links :: "T_RBTreeNode \<Rightarrow> addr \<times> addr \<times> addr" where
  "links n = (rb_parent n, rb_left n, rb_right n)"

lemma shape_links:
  assumes "\<And>a. map_option links (H' a) = map_option links (H a)"
  shows "shape H' z par t = shape H z par t"
proof -
  have "(\<exists>n. H' a = Some n \<and> rb_parent n = p \<and> rb_left n = l \<and> rb_right n = r) \<longleftrightarrow>
      (\<exists>n. H a = Some n \<and> rb_parent n = p \<and> rb_left n = l \<and> rb_right n = r)" for a p l r
    using assms[of a] by (cases "H a"; cases "H' a") (auto simp: links_def)
  then show ?thesis by (induction t arbitrary: par) simp_all
qed

text \<open>The sentinel: its children are itself, and it is never a node of the tree.\<close>

definition null_ok :: "T_RBTree \<Rightarrow> bool" where
  "null_ok T \<longleftrightarrow> (\<exists>n. rbt_nodes T (rbt_null T) = Some n \<and> rb_left n = rbt_null T \<and> rb_right n = rbt_null T)"

definition is_tree :: "T_RBTree \<Rightarrow> addr tree \<Rightarrow> bool" where
  "is_tree T t \<longleftrightarrow> shape (rbt_nodes T) (rbt_null T) (rbt_null T) t \<and> rbt_root T = ptr (rbt_null T) t \<and>
     distinct (inorder t) \<and> null_ok T"

definition clr :: "T_RBTree \<Rightarrow> addr \<Rightarrow> rbcolor" where
  "clr T a = (case rbt_nodes T a of Some n \<Rightarrow> rb_color n | None \<Rightarrow> RBCOLOR_BLACK)"

text \<open>\<open>kin T' T\<close>: the same nodes with the same keys; only links and colors differ.\<close>

definition kin :: "T_RBTree \<Rightarrow> T_RBTree \<Rightarrow> bool" where
  "kin T' T \<longleftrightarrow> rbt_null T' = rbt_null T \<and> rbt_size T' = rbt_size T \<and> rbt_comp T' = rbt_comp T \<and>
     (\<forall>a. map_option (\<lambda>n. (rb_key n, rb_user_data n)) (rbt_nodes T' a) = map_option (\<lambda>n. (rb_key n, rb_user_data n)) (rbt_nodes T a))"

lemma kin_refl [simp]: "kin T T"
  by (simp add: kin_def)

lemma kin_trans [trans]: "kin T2 T1 \<Longrightarrow> kin T1 T \<Longrightarrow> kin T2 T"
  by (simp add: kin_def)

lemma kinD: "kin T' T \<Longrightarrow> rbt_null T' = rbt_null T" "kin T' T \<Longrightarrow> rbt_size T' = rbt_size T" "kin T' T \<Longrightarrow> rbt_comp T' = rbt_comp T"
  by (simp_all add: kin_def)

subsection \<open>Reading a node\<close>

lemmas getters = get_parent_def get_left_def get_right_def get_color_def get_key_def
lemmas setters = set_node_def set_parent_def set_left_def set_right_def set_color_def

lemma is_tree_plugD:
  assumes "is_tree T (plug c t)"
  shows "cshape (rbt_nodes T) (rbt_null T) (ptr (rbt_null T) t) c" "shape (rbt_nodes T) (rbt_null T) (cpar (rbt_null T) c) t"
    "rbt_root T = croot c (ptr (rbt_null T) t)" "distinct (inorder t)" "distinct (cnodes c)" "set_tree t \<inter> set (cnodes c) = {}"
    "rbt_null T \<notin> set_tree t" "rbt_null T \<notin> set (cnodes c)" "null_ok T"
  using assms shape_not_null cshape_not_null by (auto simp: is_tree_def shape_plug distinct_plug ptr_plug)

lemma is_tree_plugI:
  assumes "cshape (rbt_nodes T) (rbt_null T) (ptr (rbt_null T) t) c" "shape (rbt_nodes T) (rbt_null T) (cpar (rbt_null T) c) t"
    "rbt_root T = croot c (ptr (rbt_null T) t)" "distinct (inorder t)" "distinct (cnodes c)" "set_tree t \<inter> set (cnodes c) = {}" "null_ok T"
  shows "is_tree T (plug c t)"
  using assms by (simp add: is_tree_def shape_plug distinct_plug ptr_plug)

lemma node_reads:
  assumes "is_tree T (plug c (Node l x r))"
  shows "x \<noteq> rbt_null T" "get_parent T x = Some (cpar (rbt_null T) c)" "get_left T x = Some (ptr (rbt_null T) l)"
    "get_right T x = Some (ptr (rbt_null T) r)" "get_color T x = Some (clr T x)"
  using is_tree_plugD(2)[OF assms] by (auto simp: getters clr_def)

lemma null_reads:
  assumes "is_tree T t"
  shows "get_left T (rbt_null T) = Some (rbt_null T)" "get_right T (rbt_null T) = Some (rbt_null T)"
    "get_color T (rbt_null T) = Some (clr T (rbt_null T))" "\<exists>p. get_parent T (rbt_null T) = Some p"
  using assms by (auto simp: is_tree_def null_ok_def getters clr_def)

text \<open>The address at a place of the tree is a node of the store, the sentinel included.\<close>

lemma ptr_node: "shape H z par t \<Longrightarrow> H z = Some n \<Longrightarrow> \<exists>n. H (ptr z t) = Some n"
  by (cases t) auto

lemma set_color_ok:
  assumes "is_tree T t" "a = rbt_null T \<or> a \<in> set_tree t"
  obtains T' where "set_color T a k = Some T'" "is_tree T' t" "kin T' T" "clr T' = (clr T)(a := k)" "rbt_root T' = rbt_root T"
proof -
  obtain n where n: "rbt_nodes T a = Some n"
    using assms shape_node[of "rbt_nodes T" "rbt_null T" "rbt_null T" t a] by (auto simp: is_tree_def null_ok_def)
  let ?T = "T\<lparr>rbt_nodes := (rbt_nodes T)(a \<mapsto> n\<lparr>rb_color := k\<rparr>)\<rparr>"
  have "map_option links (rbt_nodes ?T b) = map_option links (rbt_nodes T b)" for b using n by (simp add: links_def)
  then have "shape (rbt_nodes ?T) (rbt_null T) (rbt_null T) t = shape (rbt_nodes T) (rbt_null T) (rbt_null T) t" by (rule shape_links)
  then have "is_tree ?T t" using assms(1) n by (auto simp: is_tree_def null_ok_def)
  moreover have "set_color T a k = Some ?T" using n by (simp add: setters)
  moreover have "kin ?T T" using n by (simp add: kin_def)
  moreover have "clr ?T = (clr T)(a := k)" by (auto simp: clr_def fun_eq_iff)
  ultimately show ?thesis by (intro that[of ?T]) simp_all
qed

subsection \<open>Rotations\<close>

text \<open>\<open>alike\<close>: only links differ.\<close>

definition alike :: "T_RBTree \<Rightarrow> T_RBTree \<Rightarrow> bool" where
  "alike T' T \<longleftrightarrow> kin T' T \<and> clr T' = clr T"

lemma alike_refl [simp]: "alike T T"
  by (simp add: alike_def)

lemma alike_trans: "alike T2 T1 \<Longrightarrow> alike T1 T \<Longrightarrow> alike T2 T"
  by (auto simp: alike_def intro: kin_trans)

lemma alike_upd:
  "rbt_nodes T a = Some n \<Longrightarrow> rb_key n' = rb_key n \<Longrightarrow> rb_user_data n' = rb_user_data n \<Longrightarrow> rb_color n' = rb_color n \<Longrightarrow>
   alike (T\<lparr>rbt_nodes := (rbt_nodes T)(a \<mapsto> n')\<rparr>) T"
  by (auto simp: alike_def kin_def clr_def fun_eq_iff)

lemma alike_root: "alike (T\<lparr>rbt_root := p\<rparr>) T"
  by (auto simp: alike_def kin_def clr_def fun_eq_iff)

lemma alike_null: "alike T' T \<Longrightarrow> rbt_null T' = rbt_null T"
  by (simp add: alike_def kin_def)

text \<open>The child pointer of the frame above a part.\<close>

lemma cshape_cases:
  assumes "cshape H z p c"
  obtains "c = []" | a r c' n where "c = LF a r # c'" "H a = Some n" "rb_left n = p" "rb_right n = ptr z r" "rb_parent n = cpar z c'"
      "a \<noteq> z" "shape H z a r" "cshape H z a c'"
  | l a c' n where "c = RF l a # c'" "H a = Some n" "rb_right n = p" "rb_left n = ptr z l" "rb_parent n = cpar z c'"
      "a \<noteq> z" "shape H z a l" "cshape H z a c'"
proof (cases c)
  case (Cons f c')
  then show thesis using assms that by (cases f) auto
qed (rule that)

text \<open>
  Moving a part below another node, when it is not empty; and making the frame above point to
  another node, or the root when there is no frame.
\<close>

lemma reparent_ok:
  assumes z: "rbt_null T = z" and "shape (rbt_nodes T) z q m" "distinct (inorder m)"
  obtains T' where "(if ptr z m \<noteq> z then set_parent T (ptr z m) p else Some T) = Some T'"
    "shape (rbt_nodes T') z p m" "alike T' T" "rbt_root T' = rbt_root T"
    "\<And>a. a \<notin> set_tree m \<Longrightarrow> rbt_nodes T' a = rbt_nodes T a"
proof (cases m)
  case Leaf
  then show ?thesis by (intro that[of T]) simp_all
next
  case (Node l a r)
  then obtain n where n: "rbt_nodes T a = Some n" "a \<noteq> z" "rb_left n = ptr z l" "rb_right n = ptr z r"
    "shape (rbt_nodes T) z a l" "shape (rbt_nodes T) z a r" using assms(2) by auto
  let ?T = "T\<lparr>rbt_nodes := (rbt_nodes T)(a \<mapsto> n\<lparr>rb_parent := p\<rparr>)\<rparr>"
  have "a \<notin> set_tree l" "a \<notin> set_tree r" using assms(3) Node by auto
  then have "shape (rbt_nodes ?T) z p m" using n Node by simp
  moreover have "alike ?T T" using n(1) by (intro alike_upd) simp_all
  ultimately show ?thesis using n Node by (intro that[of ?T]) (simp_all add: setters z)
qed

lemma relink_ok:
  assumes z: "rbt_null T = z" and c: "cshape (rbt_nodes T) z x c" "distinct (cnodes c)" "x \<notin> set (cnodes c)" and r: "rbt_root T = croot c x" and x: "x \<noteq> z"
  obtains T' where "relink T (cpar z c) x y = Some T'" "cshape (rbt_nodes T') z y c" "alike T' T"
    "rbt_root T' = croot c y" "\<And>a. a \<notin> set (cnodes c) \<Longrightarrow> rbt_nodes T' a = rbt_nodes T a"
  using c(1)
proof (cases rule: cshape_cases)
  case 1
  then show ?thesis by (intro that[of "T\<lparr>rbt_root := y\<rparr>"]) (simp_all add: relink_def z alike_root)
next
  case (2 a r c' n)
  let ?T = "T\<lparr>rbt_nodes := (rbt_nodes T)(a \<mapsto> n\<lparr>rb_left := y\<rparr>)\<rparr>"
  have "a \<notin> set_tree r" "a \<notin> set (cnodes c')" using c(2) 2(1) by auto
  then have "cshape (rbt_nodes ?T) z y c" using 2 by simp
  moreover have "alike ?T T" using 2(2) by (intro alike_upd) simp_all
  ultimately show ?thesis using 2 r by (intro that[of ?T]) (simp_all add: relink_def z getters setters)
next
  case (3 l a c' n)
  let ?T = "T\<lparr>rbt_nodes := (rbt_nodes T)(a \<mapsto> n\<lparr>rb_right := y\<rparr>)\<rparr>"
  have "a \<notin> set_tree l" "a \<notin> set (cnodes c')" using c(2) 3(1) by auto
  then have "cshape (rbt_nodes ?T) z y c" using 3 by simp
  moreover have "alike ?T T" using 3(2) by (intro alike_upd) simp_all
  moreover have "ptr z l \<noteq> x" using c(3) x 3(1) by (cases l) auto
  ultimately show ?thesis using 3 r by (intro that[of ?T]) (simp_all add: relink_def z getters setters)
qed

text \<open>
  What both rotations do: \<open>y\<close>, a child of \<open>x\<close>, takes the place of \<open>x\<close>, and the part \<open>m\<close> between
  them moves from \<open>y\<close> to \<open>x\<close>. \<open>fx\<close> and \<open>fy\<close> set the child pointers.
\<close>

definition rotation :: "T_RBTree \<Rightarrow> addr \<Rightarrow> addr \<Rightarrow> addr \<Rightarrow> (T_RBTreeNode \<Rightarrow> T_RBTreeNode) \<Rightarrow> (T_RBTreeNode \<Rightarrow> T_RBTreeNode) \<Rightarrow> T_RBTree option" where
  "rotation T x y mp fx fy =
     do {
       T1 \<leftarrow> set_node T x fx;
       T2 \<leftarrow> (if mp \<noteq> rbt_null T then set_parent T1 mp x else Some T1);
       par \<leftarrow> get_parent T2 x;
       T3 \<leftarrow> set_parent T2 y par;
       T4 \<leftarrow> relink T3 par x y;
       T5 \<leftarrow> set_node T4 y fy;
       set_parent T5 x y
     }"

definition keeps :: "(T_RBTreeNode \<Rightarrow> T_RBTreeNode) \<Rightarrow> bool" where
  "keeps f \<longleftrightarrow> (\<forall>n. rb_parent (f n) = rb_parent n \<and> rb_key (f n) = rb_key n \<and> rb_user_data (f n) = rb_user_data n \<and> rb_color (f n) = rb_color n)"

lemma left_rotation:
  "left_rotate T x = do { y \<leftarrow> get_right T x; if y = rbt_null T then Some T
     else do { mp \<leftarrow> get_left T y; rotation T x y mp (\<lambda>n. n\<lparr>rb_right := mp\<rparr>) (\<lambda>n. n\<lparr>rb_left := x\<rparr>) } }"
  unfolding left_rotate_def rotation_def set_right_def set_left_def ..

lemma right_rotation:
  "right_rotate T x = do { y \<leftarrow> get_left T x; if y = rbt_null T then Some T
     else do { mp \<leftarrow> get_right T y; rotation T x y mp (\<lambda>n. n\<lparr>rb_left := mp\<rparr>) (\<lambda>n. n\<lparr>rb_right := x\<rparr>) } }"
  unfolding right_rotate_def rotation_def set_right_def set_left_def ..

lemma keeps_alike:
  assumes "keeps f" "rbt_nodes T a = Some n"
  shows "set_node T a f = Some (T\<lparr>rbt_nodes := (rbt_nodes T)(a \<mapsto> f n)\<rparr>)" "alike (T\<lparr>rbt_nodes := (rbt_nodes T)(a \<mapsto> f n)\<rparr>) T"
  using assms alike_upd[of T a n "f n"] by (simp_all add: keeps_def set_node_def)

lemma set_parent_alike:
  assumes "rbt_nodes T a = Some n"
  shows "set_parent T a p = Some (T\<lparr>rbt_nodes := (rbt_nodes T)(a \<mapsto> n\<lparr>rb_parent := p\<rparr>)\<rparr>)"
    "alike (T\<lparr>rbt_nodes := (rbt_nodes T)(a \<mapsto> n\<lparr>rb_parent := p\<rparr>)\<rparr>) T"
  using assms alike_upd[of T a n "n\<lparr>rb_parent := p\<rparr>"] by (simp_all add: setters)

lemma rotation_ok:
  fixes T defines "z \<equiv> rbt_null T" and "H \<equiv> rbt_nodes T"
  assumes c: "cshape H z x c" "distinct (cnodes c)" "rbt_root T = croot c x" "z \<notin> set (cnodes c)"
    and x: "H x = Some nx" "rb_parent nx = cpar z c" "x \<noteq> z" and y: "H y = Some ny" "y \<noteq> z" "x \<noteq> y"
    and m: "shape H z y m" "distinct (inorder m)" "x \<notin> set_tree m" "y \<notin> set_tree m" "set_tree m \<inter> set (cnodes c) = {}" "z \<notin> set_tree m"
    and xy: "x \<notin> set (cnodes c)" "y \<notin> set (cnodes c)" and f: "keeps fx" "keeps fy"
  obtains T' where "rotation T x y (ptr z m) fx fy = Some T'" "alike T' T" "rbt_root T' = croot c y"
    "rbt_nodes T' x = Some ((fx nx)\<lparr>rb_parent := y\<rparr>)" "rbt_nodes T' y = Some (fy (ny\<lparr>rb_parent := cpar z c\<rparr>))"
    "shape (rbt_nodes T') z x m" "cshape (rbt_nodes T') z y c"
    "\<And>a. a \<noteq> x \<Longrightarrow> a \<noteq> y \<Longrightarrow> a \<notin> set_tree m \<Longrightarrow> a \<notin> set (cnodes c) \<Longrightarrow> rbt_nodes T' a = H a"
proof -
  \<comment> \<open>\<open>m\<close> moves below \<open>x\<close>\<close>
  let ?T1 = "T\<lparr>rbt_nodes := H(x \<mapsto> fx nx)\<rparr>"
  have s1: "set_node T x fx = Some ?T1" "alike ?T1 T" using keeps_alike[OF f(1)] x(1) unfolding H_def by blast+
  have "rbt_null ?T1 = z" "shape (rbt_nodes ?T1) z y m" using m(1,3) by (simp_all add: z_def)
  then obtain T2 where
    s2: "(if ptr z m \<noteq> z then set_parent ?T1 (ptr z m) x else Some ?T1) = Some T2" "shape (rbt_nodes T2) z x m" "alike T2 ?T1"
      "rbt_root T2 = rbt_root ?T1" "\<And>a. a \<notin> set_tree m \<Longrightarrow> rbt_nodes T2 a = rbt_nodes ?T1 a"
    by (rule reparent_ok[OF _ _ m(2), where T = ?T1 and p = x]) (rule that)
  have z2: "rbt_null T2 = z" using s2(3) by (simp add: alike_null z_def)
  have n2: "rbt_nodes T2 x = Some (fx nx)" "rbt_nodes T2 y = Some ny" using s2(5) m(3,4) y(1,3) by simp_all
  \<comment> \<open>\<open>y\<close> takes the place of \<open>x\<close>\<close>
  let ?T3 = "T2\<lparr>rbt_nodes := (rbt_nodes T2)(y \<mapsto> ny\<lparr>rb_parent := cpar z c\<rparr>)\<rparr>"
  have s3: "get_parent T2 x = Some (cpar z c)" "set_parent T2 y (cpar z c) = Some ?T3" "alike ?T3 T2"
    using n2 x(2) f(1) set_parent_alike[OF n2(2)] by (simp_all add: getters keeps_def)
  have "cshape (rbt_nodes ?T3) z x c = cshape H z x c"
  proof (rule cshape_cong)
    fix a assume "a \<in> set (cnodes c)"
    then have "a \<noteq> x" "a \<noteq> y" "a \<notin> set_tree m" using xy m(5) by auto
    then show "rbt_nodes ?T3 a = H a" using s2(5)[of a] by simp
  qed
  then have "rbt_null ?T3 = z" "cshape (rbt_nodes ?T3) z x c" using c(1) z2 by simp_all
  moreover have "rbt_root ?T3 = croot c x" using c(3) s2(4) by simp
  ultimately obtain T4 where
    s4: "relink ?T3 (cpar z c) x y = Some T4" "cshape (rbt_nodes T4) z y c" "alike T4 ?T3" "rbt_root T4 = croot c y"
      "\<And>a. a \<notin> set (cnodes c) \<Longrightarrow> rbt_nodes T4 a = rbt_nodes ?T3 a"
    by (rule relink_ok[OF _ _ c(2) xy(1) _ x(3), where T = ?T3 and y = y]) (rule that)
  have n4: "rbt_nodes T4 x = Some (fx nx)" "rbt_nodes T4 y = Some (ny\<lparr>rb_parent := cpar z c\<rparr>)"
    using s4(5) xy n2 y(3) by simp_all
  \<comment> \<open>\<open>x\<close> moves below \<open>y\<close>\<close>
  let ?T5 = "T4\<lparr>rbt_nodes := (rbt_nodes T4)(y \<mapsto> fy (ny\<lparr>rb_parent := cpar z c\<rparr>))\<rparr>"
  let ?T6 = "?T5\<lparr>rbt_nodes := (rbt_nodes ?T5)(x \<mapsto> (fx nx)\<lparr>rb_parent := y\<rparr>)\<rparr>"
  note s5 = keeps_alike[OF f(2) n4(2)]
  have "rbt_nodes ?T5 x = Some (fx nx)" using n4(1) y(3) by simp
  note s6 = set_parent_alike[OF this, of y]
  have al: "alike ?T6 T" using s1(2) s2(3) s3(3) s4(3) s5(2) s6(2) by (blast intro: alike_trans)
  have "shape (rbt_nodes ?T6) z x m = shape (rbt_nodes T2) z x m"
  proof (rule shape_cong)
    fix a assume "a \<in> set_tree m"
    then have "a \<notin> set (cnodes c)" "a \<noteq> x" "a \<noteq> y" using m(3-5) by auto
    then show "rbt_nodes ?T6 a = rbt_nodes T2 a" using s4(5)[of a] by simp
  qed
  with s2(2) have "shape (rbt_nodes ?T6) z x m" by simp
  moreover have "cshape (rbt_nodes ?T6) z y c" using s4(2) xy by simp
  moreover have "rbt_nodes ?T6 a = H a" if "a \<noteq> x" "a \<noteq> y" "a \<notin> set_tree m" "a \<notin> set (cnodes c)" for a
    using that s4(5)[of a] s2(5)[of a] by simp
  moreover have "rotation T x y (ptr z m) fx fy = Some ?T6"
    unfolding rotation_def using s1(1) s2(1) s3(1,2) s4(1) s5(1) s6(1) unfolding z_def by (simp split del: if_split)
  ultimately show thesis using al s4(4) y(3) by (intro that[of ?T6]) simp_all
qed

lemma left_rotate_ok:
  assumes T: "is_tree T (plug c (Node l x (Node m y r)))"
  obtains T' where "left_rotate T x = Some T'" "is_tree T' (plug c (Node (Node l x m) y r))" "alike T' T"
proof -
  let ?z = "rbt_null T" and ?H = "rbt_nodes T"
  note D = is_tree_plugD[OF T]
  obtain nx ny where x: "?H x = Some nx" "rb_parent nx = cpar ?z c" "rb_left nx = ptr ?z l" "rb_right nx = y" "x \<noteq> ?z"
    and y: "?H y = Some ny" "rb_left ny = ptr ?z m" "rb_right ny = ptr ?z r" "y \<noteq> ?z"
    and sh: "shape ?H ?z x l" "shape ?H ?z y m" "shape ?H ?z y r" using D(2) by auto
  have dis: "x \<noteq> y" "x \<notin> set_tree m" "y \<notin> set_tree m" "x \<notin> set (cnodes c)" "y \<notin> set (cnodes c)" "distinct (inorder m)"
    "set_tree m \<inter> set (cnodes c) = {}" "?z \<notin> set_tree m" using D(4,6,7) by auto
  have run: "left_rotate T x = rotation T x y (ptr ?z m) (\<lambda>n. n\<lparr>rb_right := ptr ?z m\<rparr>) (\<lambda>n. n\<lparr>rb_left := x\<rparr>)"
    using x y by (simp add: left_rotation getters)
  have c1: "cshape ?H ?z x c" "rbt_root T = croot c x" using D(1,3) by simp_all
  obtain T' where R: "left_rotate T x = Some T'" "alike T' T" "rbt_root T' = croot c y"
    "rbt_nodes T' x = Some (nx\<lparr>rb_right := ptr ?z m, rb_parent := y\<rparr>)"
    "rbt_nodes T' y = Some (ny\<lparr>rb_parent := cpar ?z c, rb_left := x\<rparr>)"
    "shape (rbt_nodes T') ?z x m" "cshape (rbt_nodes T') ?z y c"
    "\<And>a. a \<noteq> x \<Longrightarrow> a \<noteq> y \<Longrightarrow> a \<notin> set_tree m \<Longrightarrow> a \<notin> set (cnodes c) \<Longrightarrow> rbt_nodes T' a = ?H a"
    unfolding run
    by (rule rotation_ok[OF c1(1) D(5) c1(2) D(8) x(1,2,5) y(1,4) dis(1) sh(2) dis(6,2,3,7,8,4,5),
        where fx = "\<lambda>n. n\<lparr>rb_right := ptr ?z m\<rparr>" and fy = "\<lambda>n. n\<lparr>rb_left := x\<rparr>"]) (simp_all add: keeps_def that)
  have "shape (rbt_nodes T') ?z x l = shape ?H ?z x l" "shape (rbt_nodes T') ?z y r = shape ?H ?z y r"
    using D(4,6) by (auto intro!: shape_cong R(8))
  then have "shape (rbt_nodes T') ?z (cpar ?z c) (Node (Node l x m) y r)" using R(4-6) x y sh by simp
  moreover have "rbt_nodes T' ?z = ?H ?z" using R(8)[of ?z] x(5) y(4) D(8) dis(8) by simp
  ultimately have "is_tree T' (plug c (Node (Node l x m) y r))"
    using D(4-6,9) R(3,7) alike_null[OF R(2)] by (intro is_tree_plugI) (auto simp: null_ok_def)
  then show thesis using R(1,2) by (intro that)
qed

lemma right_rotate_ok:
  assumes T: "is_tree T (plug c (Node (Node l y m) x r))"
  obtains T' where "right_rotate T x = Some T'" "is_tree T' (plug c (Node l y (Node m x r)))" "alike T' T"
proof -
  let ?z = "rbt_null T" and ?H = "rbt_nodes T"
  note D = is_tree_plugD[OF T]
  obtain nx ny where x: "?H x = Some nx" "rb_parent nx = cpar ?z c" "rb_left nx = y" "rb_right nx = ptr ?z r" "x \<noteq> ?z"
    and y: "?H y = Some ny" "rb_left ny = ptr ?z l" "rb_right ny = ptr ?z m" "y \<noteq> ?z"
    and sh: "shape ?H ?z y l" "shape ?H ?z y m" "shape ?H ?z x r" using D(2) by auto
  have dis: "x \<noteq> y" "x \<notin> set_tree m" "y \<notin> set_tree m" "x \<notin> set (cnodes c)" "y \<notin> set (cnodes c)" "distinct (inorder m)"
    "set_tree m \<inter> set (cnodes c) = {}" "?z \<notin> set_tree m" using D(4,6,7) by auto
  have run: "right_rotate T x = rotation T x y (ptr ?z m) (\<lambda>n. n\<lparr>rb_left := ptr ?z m\<rparr>) (\<lambda>n. n\<lparr>rb_right := x\<rparr>)"
    using x y by (simp add: right_rotation getters)
  have c1: "cshape ?H ?z x c" "rbt_root T = croot c x" using D(1,3) by simp_all
  obtain T' where R: "right_rotate T x = Some T'" "alike T' T" "rbt_root T' = croot c y"
    "rbt_nodes T' x = Some (nx\<lparr>rb_left := ptr ?z m, rb_parent := y\<rparr>)"
    "rbt_nodes T' y = Some (ny\<lparr>rb_parent := cpar ?z c, rb_right := x\<rparr>)"
    "shape (rbt_nodes T') ?z x m" "cshape (rbt_nodes T') ?z y c"
    "\<And>a. a \<noteq> x \<Longrightarrow> a \<noteq> y \<Longrightarrow> a \<notin> set_tree m \<Longrightarrow> a \<notin> set (cnodes c) \<Longrightarrow> rbt_nodes T' a = ?H a"
    unfolding run
    by (rule rotation_ok[OF c1(1) D(5) c1(2) D(8) x(1,2,5) y(1,4) dis(1) sh(2) dis(6,2,3,7,8,4,5),
        where fx = "\<lambda>n. n\<lparr>rb_left := ptr ?z m\<rparr>" and fy = "\<lambda>n. n\<lparr>rb_right := x\<rparr>"]) (simp_all add: keeps_def that)
  have "shape (rbt_nodes T') ?z y l = shape ?H ?z y l" "shape (rbt_nodes T') ?z x r = shape ?H ?z x r"
    using D(4,6) by (auto intro!: shape_cong R(8))
  then have "shape (rbt_nodes T') ?z (cpar ?z c) (Node l y (Node m x r))" using R(4-6) x y sh by simp
  moreover have "rbt_nodes T' ?z = ?H ?z" using R(8)[of ?z] x(5) y(4) D(8) dis(8) by simp
  ultimately have "is_tree T' (plug c (Node l y (Node m x r)))"
    using D(4-6,9) R(3,7) alike_null[OF R(2)] by (intro is_tree_plugI) (auto simp: null_ok_def)
  then show thesis using R(1,2) by (intro that)
qed

text \<open>A rotation with nothing to rotate.\<close>

lemma rotate_none:
  "get_right T x = Some (rbt_null T) \<Longrightarrow> left_rotate T x = Some T"
  "get_left T x = Some (rbt_null T) \<Longrightarrow> right_rotate T x = Some T"
  by (simp_all add: left_rotate_def right_rotate_def)

end
