(* ===== verification/Rb_Order.thy ===== *)
theory Rb_Order
  imports Rb_Shape
begin

section \<open>Searching and walking the red-black tree\<close>

text \<open>
  The keys of the nodes, and the functions that only read the tree: the search, the walk in order,
  the height. The comparison function is taken to order the keys as \<open>f\<close> does, a function of the keys
  to a linear order.
\<close>

definition ky :: "T_RBTree \<Rightarrow> addr \<Rightarrow> addr" where
  "ky T a = (case rbt_nodes T a of Some n \<Rightarrow> rb_key n | None \<Rightarrow> 0)"

definition comp_ok :: "RBTREE_COMP \<Rightarrow> (addr \<Rightarrow> 'k :: linorder) \<Rightarrow> bool" where
  "comp_ok cmp f \<longleftrightarrow> (\<forall>a b. (cmp a b = 0 \<longleftrightarrow> f a = f b) \<and> (cmp a b < 0 \<longleftrightarrow> f a < f b))"

text \<open>
  A valid tree: its nodes are \<open>t\<close>, their keys strictly increase in order; the sentinel and the root
  are black, the size is the number of nodes.
\<close>

definition rb_valid :: "(addr \<Rightarrow> 'k :: linorder) \<Rightarrow> T_RBTree \<Rightarrow> addr tree \<Rightarrow> bool" where
  "rb_valid f T t \<longleftrightarrow> is_tree T t \<and> comp_ok (rbt_comp T) f \<and> sorted_wrt (\<lambda>a b. f (ky T a) < f (ky T b)) (inorder t) \<and>
     clr T (rbt_null T) = RBCOLOR_BLACK \<and> clr T (rbt_root T) = RBCOLOR_BLACK \<and> rbt_size T = u32 (length (inorder t)) \<and>
     0 \<notin> set_tree t"

lemma rb_validD:
  assumes "rb_valid f T t"
  shows "is_tree T t" "comp_ok (rbt_comp T) f" "sorted_wrt (\<lambda>a b. f (ky T a) < f (ky T b)) (inorder t)"
    "clr T (rbt_null T) = RBCOLOR_BLACK" "clr T (rbt_root T) = RBCOLOR_BLACK" "rbt_size T = u32 (length (inorder t))"
    "0 \<notin> set_tree t"
  using assms by (simp_all add: rb_valid_def)

lemma kin_ky: "kin T' T \<Longrightarrow> ky T' = ky T"
proof -
  assume "kin T' T"
  then have "map_option (\<lambda>n. (rb_key n, rb_user_data n)) (rbt_nodes T' a) = map_option (\<lambda>n. (rb_key n, rb_user_data n)) (rbt_nodes T a)" for a
    by (simp add: kin_def)
  then have "ky T' a = ky T a" for a
    unfolding ky_def by (cases "rbt_nodes T a"; cases "rbt_nodes T' a") (metis (no_types, lifting) option.simps(4,5,8,9) option.inject option.distinct(1) prod.inject)+
  then show ?thesis by blast
qed

lemma node_key: "is_tree T (plug c (Node l x r)) \<Longrightarrow> get_key T x = Some (ky T x)"
  using is_tree_plugD(2)[of T c "Node l x r"] by (auto simp: getters ky_def)

subsection \<open>The search\<close>

text \<open>The last comparison says on which side of the node above the part is.\<close>

fun side_ok :: "frame list \<Rightarrow> int \<Rightarrow> bool" where
  "side_ok [] rv = True" | "side_ok (LF a r # c) rv = (rv < 0)" | "side_ok (RF l a # c) rv = (\<not> rv < 0)"

lemma rb_search_ok:
  assumes cmp: "comp_ok (rbt_comp T) f"
  shows "is_tree T (plug c t) \<Longrightarrow> side_ok c rv \<Longrightarrow>
    (\<forall>a\<in>set (cbefore c). f (ky T a) < f key) \<Longrightarrow> (\<forall>a\<in>set (cbehind c). f key < f (ky T a)) \<Longrightarrow>
    sorted_wrt (\<lambda>a b. f (ky T a) < f (ky T b)) (inorder t) \<Longrightarrow>
    (\<exists>x par rv'. rb_search T key (ptr (rbt_null T) t) (cpar (rbt_null T) c) rv = Some (x, par, rv') \<and>
      x \<in> set_tree t \<and> f (ky T x) = f key) \<or>
    (\<exists>c' rv'. rb_search T key (ptr (rbt_null T) t) (cpar (rbt_null T) c) rv = Some (rbt_null T, cpar (rbt_null T) c', rv') \<and>
      plug c' Leaf = plug c t \<and> side_ok c' rv' \<and> (\<forall>a\<in>set (cbefore c'). f (ky T a) < f key) \<and> (\<forall>a\<in>set (cbehind c'). f key < f (ky T a)))"
proof (induction t arbitrary: c rv)
  case Leaf
  show ?case by (rule disjI2, rule exI[of _ c], rule exI[of _ rv]) (subst rb_search.simps, simp add: Leaf)
next
  case (Node l x r)
  let ?z = "rbt_null T" and ?rv = "rbt_comp T key (ky T x)"
  note T = Node.prems(1)
  have rd: "get_key T x = Some (ky T x)" "get_left T x = Some (ptr ?z l)" "get_right T x = Some (ptr ?z r)" "x \<noteq> ?z"
    using node_key[OF T] node_reads[OF T] by auto
  have st: "sorted_wrt (\<lambda>a b. f (ky T a) < f (ky T b)) (inorder l)" "sorted_wrt (\<lambda>a b. f (ky T a) < f (ky T b)) (inorder r)"
    "\<forall>a\<in>set_tree l. f (ky T a) < f (ky T x)" "\<forall>a\<in>set_tree r. f (ky T x) < f (ky T a)"
    using Node.prems(5) by (auto simp: sorted_wrt_append)
  have run: "rb_search T key x (cpar ?z c) rv = (if ?rv = 0 then Some (x, cpar ?z c, ?rv)
      else if ?rv < 0 then rb_search T key (ptr ?z l) x ?rv else rb_search T key (ptr ?z r) x ?rv)"
    by (subst rb_search.simps) (simp add: rd Let_def)
  consider "f key = f (ky T x)" | "f key < f (ky T x)" | "f (ky T x) < f key" by (rule linorder_cases)
  then show ?case
  proof cases
    case 1
    then have "?rv = 0" using cmp by (simp add: comp_ok_def)
    then show ?thesis using run 1 by (intro disjI1) simp
  next
    case 2
    then have lt: "?rv < 0" using cmp by (simp add: comp_ok_def)
    have "is_tree T (plug (LF x r # c) l)" "side_ok (LF x r # c) ?rv" "\<forall>a\<in>set (cbefore (LF x r # c)). f (ky T a) < f key"
      "\<forall>a\<in>set (cbehind (LF x r # c)). f key < f (ky T a)" using T lt Node.prems(3,4) st(4) 2 by auto
    from Node.IH(1)[OF this st(1)] show ?thesis using run lt by auto
  next
    case 3
    then have "\<not> ?rv < 0" "?rv \<noteq> 0" using cmp by (auto simp: comp_ok_def)
    moreover have "is_tree T (plug (RF l x # c) r)" "\<forall>a\<in>set (cbefore (RF l x # c)). f (ky T a) < f key"
      "\<forall>a\<in>set (cbehind (RF l x # c)). f key < f (ky T a)" using T Node.prems(3,4) st(3) 3 by auto
    ultimately show ?thesis using run Node.IH(2)[of "RF l x # c" ?rv] st(2) by auto
  qed
qed

lemma rb_search_root:
  assumes "is_tree T t" "comp_ok (rbt_comp T) f" "sorted_wrt (\<lambda>a b. f (ky T a) < f (ky T b)) (inorder t)"
  shows "(\<exists>x par rv. rb_search T key (rbt_root T) (rbt_null T) 0 = Some (x, par, rv) \<and> x \<in> set_tree t \<and> f (ky T x) = f key) \<or>
    (\<exists>c rv. rb_search T key (rbt_root T) (rbt_null T) 0 = Some (rbt_null T, cpar (rbt_null T) c, rv) \<and> plug c Leaf = t \<and> side_ok c rv \<and>
      (\<forall>a\<in>set (cbefore c). f (ky T a) < f key) \<and> (\<forall>a\<in>set (cbehind c). f key < f (ky T a)))"
proof -
  have "rbt_root T = ptr (rbt_null T) t" using assms(1) by (simp add: is_tree_def)
  then show ?thesis using rb_search_ok[OF assms(2), of "[]" t 0 key] assms(1,3) by simp
qed

subsection \<open>Walking in order\<close>

text \<open>The first and the last of a list of nodes, or the null pointer.\<close>

definition hd0 :: "addr list \<Rightarrow> addr" where "hd0 xs = (if xs = [] then 0 else hd xs)"
definition last0 :: "addr list \<Rightarrow> addr" where "last0 xs = (if xs = [] then 0 else last xs)"

lemma focus: "x \<in> set_tree t \<Longrightarrow> \<exists>c l r. t = plug c (Node l x r)"
proof (induction t)
  case (Node l a r)
  from Node.prems consider "x = a" | "x \<in> set_tree l" | "x \<in> set_tree r" by auto
  then show ?case
  proof cases
    case 1
    then show ?thesis by (metis plug.simps(1))
  next
    case 2
    then obtain c l' r' where "l = plug c (Node l' x r')" using Node.IH(1) by blast
    then have "Node l a r = plug (c @ [LF a r]) (Node l' x r')" by (simp add: plug_snoc)
    then show ?thesis by blast
  next
    case 3
    then obtain c l' r' where "r = plug c (Node l' x r')" using Node.IH(2) by blast
    then have "Node l a r = plug (c @ [RF l a]) (Node l' x r')" by (simp add: plug_snoc)
    then show ?thesis by blast
  qed
qed simp

lemma leftmost_ok: "is_tree T (plug c (Node l x r)) \<Longrightarrow> leftmost T x = Some (hd (inorder l @ [x]))"
proof (induction l arbitrary: c x r)
  case Leaf
  then show ?case using node_reads(3)[of T c Leaf x r] by (subst leftmost.simps) simp
next
  case (Node ll a lr)
  have T: "is_tree T (plug (LF x r # c) (Node ll a lr))" using Node.prems by simp
  have "get_left T x = Some a" "a \<noteq> rbt_null T" using node_reads(3)[OF Node.prems] node_reads(1)[OF T] by simp_all
  then show ?case using Node.IH(1)[OF T] by (subst leftmost.simps) (simp add: hd_append)
qed

lemma rightmost_ok: "is_tree T (plug c (Node l x r)) \<Longrightarrow> rightmost T x = Some (last (x # inorder r))"
proof (induction r arbitrary: c x l)
  case Leaf
  then show ?case using node_reads(4)[of T c l x Leaf] by (subst rightmost.simps) simp
next
  case (Node rl a rr)
  have T: "is_tree T (plug (RF l x # c) (Node rl a rr))" using Node.prems by simp
  have "get_right T x = Some a" "a \<noteq> rbt_null T" using node_reads(4)[OF Node.prems] node_reads(1)[OF T] by simp_all
  then show ?case using Node.IH(2)[OF T] by (subst rightmost.simps) simp
qed

text \<open>Going up ends at the next node behind (before) the part, or at the sentinel.\<close>

lemma up_right_ok:
  "is_tree T (plug c (Node l x r)) \<Longrightarrow> up_right T x (cpar (rbt_null T) c) = Some (if cbehind c = [] then rbt_null T else hd (cbehind c))"
proof (induction c arbitrary: l x r)
  case Nil
  then show ?case by (subst up_right.simps) simp
next
  case (Cons f c)
  note D = is_tree_plugD[OF Cons.prems]
  show ?case
  proof (cases f)
    case (LF a r')
    have T: "is_tree T (plug c (Node (Node l x r) a r'))" using Cons.prems LF by simp
    have "ptr (rbt_null T) r' \<noteq> x" using D(6,7) LF by (cases r') auto
    then show ?thesis using node_reads[OF T] LF by (subst up_right.simps) simp
  next
    case (RF l' a)
    have T: "is_tree T (plug c (Node l' a (Node l x r)))" using Cons.prems RF by simp
    then show ?thesis using node_reads[OF T] RF Cons.IH[OF T] by (subst up_right.simps) simp
  qed
qed

lemma up_left_ok:
  "is_tree T (plug c (Node l x r)) \<Longrightarrow> up_left T x (cpar (rbt_null T) c) = Some (if cbefore c = [] then rbt_null T else last (cbefore c))"
proof (induction c arbitrary: l x r)
  case Nil
  then show ?case by (subst up_left.simps) simp
next
  case (Cons f c)
  note D = is_tree_plugD[OF Cons.prems]
  show ?case
  proof (cases f)
    case (RF l' a)
    have T: "is_tree T (plug c (Node l' a (Node l x r)))" using Cons.prems RF by simp
    have "ptr (rbt_null T) l' \<noteq> x" using D(6,7) RF by (cases l') auto
    then show ?thesis using node_reads[OF T] RF by (subst up_left.simps) simp
  next
    case (LF a r')
    have T: "is_tree T (plug c (Node (Node l x r) a r'))" using Cons.prems LF by simp
    then show ?thesis using node_reads[OF T] LF Cons.IH[OF T] by (subst up_left.simps) simp
  qed
qed

lemma first_last_ok:
  assumes "is_tree T t"
  shows "RBTREE_First T = Some (hd0 (inorder t))" "RBTREE_Last T = Some (last0 (inorder t))"
proof -
  have root: "rbt_root T = ptr (rbt_null T) t" using assms by (simp add: is_tree_def)
  have "RBTREE_First T = Some (hd0 (inorder t)) \<and> RBTREE_Last T = Some (last0 (inorder t))"
  proof (cases t)
    case Leaf
    have "leftmost T (rbt_null T) = Some (rbt_null T)" using null_reads(1)[OF assms] by (subst leftmost.simps) simp
    moreover have "rightmost T (rbt_null T) = Some (rbt_null T)" using null_reads(2)[OF assms] by (subst rightmost.simps) simp
    ultimately show ?thesis using Leaf root by (simp add: RBTREE_First_def RBTREE_Last_def or_null_def hd0_def last0_def)
  next
    case (Node l x r)
    have T: "is_tree T (plug [] (Node l x r))" using assms Node by simp
    have "hd (inorder l @ [x]) \<in> set_tree t" "last (x # inorder r) \<in> set_tree t"
      using Node by (cases "inorder l"; force simp flip: set_inorder)+
    then have "hd (inorder l @ [x]) \<noteq> rbt_null T" "last (x # inorder r) \<noteq> rbt_null T"
      using is_tree_plugD(7)[of T "[]" t] assms by auto
    moreover have "hd0 (inorder t) = hd (inorder l @ [x])" "last0 (inorder t) = last (x # inorder r)"
      using Node by (auto simp: hd0_def last0_def hd_append)
    ultimately show ?thesis using leftmost_ok[OF T] rightmost_ok[OF T] Node root
      by (simp add: RBTREE_First_def RBTREE_Last_def or_null_def)
  qed
  then show "RBTREE_First T = Some (hd0 (inorder t))" "RBTREE_Last T = Some (last0 (inorder t))" by blast+
qed

lemma next_plug:
  assumes T: "is_tree T (plug c (Node l x r))"
  shows "RBTREE_Next T x = Some (hd0 (inorder r @ cbehind c))" "RBTREE_Prev T x = Some (last0 (cbefore c @ inorder l))"
proof -
  let ?z = "rbt_null T"
  note D = is_tree_plugD[OF T] and R = node_reads[OF T]
  have out: "a \<noteq> ?z" if "a \<in> set (cbefore c) \<or> a \<in> set (cbehind c) \<or> a \<in> set_tree l \<or> a \<in> set_tree r" for a
    using that D(7,8) set_cnodes[of c] by auto
  show "RBTREE_Next T x = Some (hd0 (inorder r @ cbehind c))"
  proof (cases r)
    case Leaf
    have "hd (cbehind c) \<noteq> ?z" if "cbehind c \<noteq> []" using out that by simp
    then show ?thesis using R up_right_ok[OF T] Leaf by (simp add: RBTREE_Next_def or_null_def hd0_def)
  next
    case (Node rl a rr)
    have T': "is_tree T (plug (RF l x # c) (Node rl a rr))" using T Node by simp
    have "hd (inorder rl @ [a]) \<in> set_tree r" using Node by (cases "inorder rl"; force simp flip: set_inorder)
    then have "hd (inorder rl @ [a]) \<noteq> ?z" using out by blast
    moreover have "hd0 (inorder r @ cbehind c) = hd (inorder rl @ [a])" using Node by (auto simp: hd0_def hd_append)
    moreover have "a \<noteq> ?z" using D(7) Node by auto
    ultimately show ?thesis using R leftmost_ok[OF T'] Node by (simp add: RBTREE_Next_def or_null_def)
  qed
  show "RBTREE_Prev T x = Some (last0 (cbefore c @ inorder l))"
  proof (cases l)
    case Leaf
    have "last (cbefore c) \<noteq> ?z" if "cbefore c \<noteq> []" using out that by simp
    then show ?thesis using R up_left_ok[OF T] Leaf by (simp add: RBTREE_Prev_def or_null_def last0_def)
  next
    case (Node ll a lr)
    have T': "is_tree T (plug (LF x r # c) (Node ll a lr))" using T Node by simp
    have "last (a # inorder lr) \<in> set_tree l" using Node by (cases "inorder lr" rule: rev_cases; force simp flip: set_inorder)
    then have "last (a # inorder lr) \<noteq> ?z" using out by blast
    moreover have "last0 (cbefore c @ inorder l) = last (a # inorder lr)" using Node by (auto simp: last0_def)
    moreover have "a \<noteq> ?z" using D(7) Node by auto
    ultimately show ?thesis using R rightmost_ok[OF T'] Node by (simp add: RBTREE_Prev_def or_null_def)
  qed
qed

lemma inorder_split:
  assumes "distinct (as @ x # bs)" "as @ x # bs = cs @ x # ds"
  shows "as = cs" "bs = ds"
  using assms by (auto simp: append_eq_append_conv2 append_eq_Cons_conv Cons_eq_append_conv)

lemma next_prev_ok:
  assumes T: "is_tree T t" and t: "inorder t = as @ x # bs"
  shows "RBTREE_Next T x = Some (hd0 bs)" "RBTREE_Prev T x = Some (last0 as)"
proof -
  have "x \<in> set_tree t" using t by (simp flip: set_inorder)
  then obtain c l r where c: "t = plug c (Node l x r)" using focus by blast
  have "distinct (as @ x # bs)" using T t by (simp add: is_tree_def)
  moreover have "as @ x # bs = (cbefore c @ inorder l) @ x # (inorder r @ cbehind c)" using t c by (simp add: inorder_plug)
  ultimately have "as = cbefore c @ inorder l" "bs = inorder r @ cbehind c" by (rule inorder_split)+
  then show "RBTREE_Next T x = Some (hd0 bs)" "RBTREE_Prev T x = Some (last0 as)" using next_plug[of T c l x r] T c by simp_all
qed

subsection \<open>The height\<close>

text \<open>The height of a part as both functions compute it from the child pointer.\<close>

definition height_at :: "T_RBTree \<Rightarrow> addr \<Rightarrow> nat option" where
  "height_at T p = (if p \<noteq> rbt_null T then do { h \<leftarrow> RBTREE_HeightMax T p; Some (u32 (h + 1)) } else Some 0)"

lemma heights_unfold:
  assumes "x \<noteq> 0" "get_left T x = Some pl" "get_right T x = Some pr" "height_at T pl = Some hl" "height_at T pr = Some hr"
  shows "RBTREE_HeightMax T x = Some (max hl hr)" "RBTREE_HeightMin T x = Some (min hl hr)"
proof -
  show "RBTREE_HeightMax T x = Some (max hl hr)"
    using assms unfolding height_at_def by (subst RBTREE_HeightMax.simps) (simp add: Let_def max_def split del: if_split, simp)
  show "RBTREE_HeightMin T x = Some (min hl hr)"
    using assms unfolding height_at_def unfolding RBTREE_HeightMin_def by (simp add: Let_def min_def split del: if_split, simp)
qed

lemma height_at_ok:
  "is_tree T (plug c t) \<Longrightarrow> 0 \<notin> set_tree t \<Longrightarrow> length (inorder t) < 2 ^ 32 \<Longrightarrow> height_at T (ptr (rbt_null T) t) = Some (height t)"
proof (induction t arbitrary: c)
  case Leaf
  then show ?case by (simp add: height_at_def)
next
  case (Node l x r)
  note R = node_reads[OF Node.prems(1)]
  have "height_at T (ptr (rbt_null T) l) = Some (height l)" "height_at T (ptr (rbt_null T) r) = Some (height r)"
    using Node.IH(1)[of "LF x r # c"] Node.IH(2)[of "RF l x # c"] Node.prems by simp_all
  then have "RBTREE_HeightMax T x = Some (max (height l) (height r))" using R Node.prems(2) by (intro heights_unfold(1)) auto
  moreover have "u32 (max (height l) (height r) + 1) = max (height l) (height r) + 1"
    using Node.prems(3) height_le_size_tree[of l] height_le_size_tree[of r] by (simp add: u32_def)
  ultimately show ?case using R(1) by (simp add: height_at_def)
qed

lemma heights_ok:
  assumes T: "is_tree T (Node l x r)" and z: "0 \<notin> set_tree (Node l x r)" and len: "length (inorder (Node l x r)) < 2 ^ 32"
  shows "RBTREE_HeightMax T 0 = Some (max (height l) (height r))" "RBTREE_HeightMin T 0 = Some (min (height l) (height r))"
proof -
  have T': "is_tree T (plug [] (Node l x r))" using T by simp
  note R = node_reads[OF T']
  have at: "height_at T (ptr (rbt_null T) l) = Some (height l)" "height_at T (ptr (rbt_null T) r) = Some (height r)"
    using height_at_ok[of T "[LF x r]" l] height_at_ok[of T "[RF l x]" r] T z len by simp_all
  have x: "x \<noteq> 0" "rbt_root T = x" using z T by (auto simp: is_tree_def)
  have "RBTREE_HeightMax T 0 = RBTREE_HeightMax T x" using x by (subst (1 2) RBTREE_HeightMax.simps) (simp only: if_True if_False refl Let_def)
  moreover have "RBTREE_HeightMin T 0 = RBTREE_HeightMin T x" using x unfolding RBTREE_HeightMin_def by (simp only: if_True if_False refl Let_def)
  ultimately show "RBTREE_HeightMax T 0 = Some (max (height l) (height r))" "RBTREE_HeightMin T 0 = Some (min (height l) (height r))"
    using heights_unfold[OF x(1) R(3,4) at] by simp_all
qed

subsection \<open>Properties\<close>

text \<open>A tree of three nodes, with keys 1, 2 and 3; the leaves have the color \<open>k\<close>.\<close>

definition ex_node :: "addr \<Rightarrow> addr \<Rightarrow> addr \<Rightarrow> addr \<Rightarrow> rbcolor \<Rightarrow> T_RBTreeNode" where
  "ex_node par l r key c = \<lparr>rb_parent = par, rb_left = l, rb_right = r, rb_key = key, rb_user_data = 0, rb_color = c\<rparr>"

definition ex_cmp :: RBTREE_COMP where
  "ex_cmp a b = int a - int b"

definition ex_rb :: "rbcolor \<Rightarrow> T_RBTree" where
  "ex_rb k = \<lparr>rbt_nodes = [100 \<mapsto> ex_node 100 100 100 0 RBCOLOR_BLACK, 8 \<mapsto> ex_node 16 100 100 1 k, 16 \<mapsto> ex_node 100 8 24 2 RBCOLOR_BLACK,
      24 \<mapsto> ex_node 16 100 100 3 k, 32 \<mapsto> ex_node 0 0 0 5 k], rbt_null = 100, rbt_root = 16, rbt_size = 3, rbt_comp = ex_cmp\<rparr>"

definition ex_shape :: "addr tree" where
  "ex_shape = Node (Node Leaf 8 Leaf) 16 (Node Leaf 24 Leaf)"

lemma ex_cmp_ok: "comp_ok ex_cmp id"
  by (simp add: comp_ok_def ex_cmp_def)

lemma ex_valid: "rb_valid id (ex_rb k) ex_shape"
proof -
  have "is_tree (ex_rb k) ex_shape" by (simp add: is_tree_def null_ok_def ex_rb_def ex_shape_def ex_node_def)
  moreover have "comp_ok (rbt_comp (ex_rb k)) id" using ex_cmp_ok by (simp add: ex_rb_def)
  ultimately show ?thesis by (simp add: rb_valid_def ex_rb_def ex_shape_def ex_node_def ky_def clr_def u32_def)
qed

lemma ex_reads: "inorder ex_shape = [8, 16, 24]" "set_tree ex_shape = {8, 16, 24}" "ky (ex_rb k) 8 = 1" "ky (ex_rb k) 16 = 2" "ky (ex_rb k) 24 = 3"
  by (auto simp: ex_rb_def ex_shape_def ex_node_def ky_def)

text \<open>A search in a valid tree ends; it gives a node of the tree with the key that was asked
  for, and the null pointer exactly when the tree has none.\<close>

theorem RBTREE_Find_ok:
  fixes f :: "addr \<Rightarrow> 'k :: linorder"
  assumes "rb_valid f T t"
  shows "\<exists>p. RBTREE_Find T key = Some p \<and>
    (if \<exists>x\<in>set_tree t. f (ky T x) = f key then p \<in> set_tree t \<and> f (ky T p) = f key else p = 0)"
proof -
  note V = rb_validD[OF assms]
  have z: "rbt_null T \<notin> set_tree t" using is_tree_plugD(7)[of T "[]" t] V(1) by simp
  consider (found) x par rv where "rb_search T key (rbt_root T) (rbt_null T) 0 = Some (x, par, rv)" "x \<in> set_tree t" "f (ky T x) = f key"
    | (none) c rv where "rb_search T key (rbt_root T) (rbt_null T) 0 = Some (rbt_null T, cpar (rbt_null T) c, rv)" "plug c Leaf = t"
        "\<forall>a\<in>set (cbefore c). f (ky T a) < f key" "\<forall>a\<in>set (cbehind c). f key < f (ky T a)"
    using rb_search_root[OF V(1-3), of key] by blast
  then show ?thesis
  proof cases
    case found
    then show ?thesis using z by (auto simp: RBTREE_Find_def or_null_def)
  next
    case none
    have "set_tree t = set (cbefore c) \<union> set (cbehind c)" using none(2) set_cnodes[of c] by auto
    then have "\<not> (\<exists>x\<in>set_tree t. f (ky T x) = f key)" using none(3,4) by force
    then show ?thesis using none(1) by (simp add: RBTREE_Find_def or_null_def)
  qed
qed

lemma RBTREE_Find_ok_witness:
  "(\<exists>p. RBTREE_Find (ex_rb RBCOLOR_RED) 3 = Some p \<and> p \<in> {8, 16, 24} \<and> ky (ex_rb RBCOLOR_RED) p = 3) \<and> RBTREE_Find (ex_rb RBCOLOR_RED) 4 = Some 0"
  using RBTREE_Find_ok[OF ex_valid[of RBCOLOR_RED], of 3] RBTREE_Find_ok[OF ex_valid[of RBCOLOR_RED], of 4]
  by (simp add: ex_reads)

text \<open>The walk in order. The first and the last node of a valid tree are the ends of its nodes in
  order, the next and the previous node of one are its neighbours; the null pointer stands behind the
  ends.\<close>

theorem RBTREE_walk_ok:
  assumes "rb_valid f T t" and "inorder t = as @ x # bs"
  shows "RBTREE_First T = Some (hd0 (as @ x # bs)) \<and> RBTREE_Last T = Some (last0 (as @ x # bs)) \<and>
    RBTREE_Next T x = Some (hd0 bs) \<and> RBTREE_Prev T x = Some (last0 as)"
  using first_last_ok[OF rb_validD(1)[OF assms(1)]] next_prev_ok[OF rb_validD(1)[OF assms(1)] assms(2)] assms(2) by simp

lemma RBTREE_walk_ok_witness:
  "RBTREE_First (ex_rb RBCOLOR_RED) = Some 8 \<and> RBTREE_Last (ex_rb RBCOLOR_RED) = Some 24 \<and>
   RBTREE_Next (ex_rb RBCOLOR_RED) 24 = Some 0 \<and> RBTREE_Prev (ex_rb RBCOLOR_RED) 24 = Some 16"
  using RBTREE_walk_ok[OF ex_valid[of RBCOLOR_RED], of "[8, 16]" 24 "[]"] by (simp add: ex_reads hd0_def last0_def)

end
