(* ===== verification/Rb_Insert.thy ===== *)
theory Rb_Insert
  imports Rb_Order
begin

section \<open>Insertion into the red-black tree\<close>

text \<open>
  \<open>insert_fixup\<close> keeps the nodes and their order, whatever their colors are, and makes a tree
  red-black again whose only fault is a red parent of the inserted node.
\<close>

subsection \<open>The steps of the loop\<close>

lemma ptr_in: "t \<noteq> Leaf \<Longrightarrow> ptr z t \<in> set_tree t"
  by (cases t) auto

text \<open>Two colors in a row, as every case ends with.\<close>

lemma two_colors:
  assumes "is_tree T t" "a \<in> set_tree t" "b \<in> set_tree t"
  obtains T1 T2 where "set_color T a k = Some T1" "set_color T1 b k' = Some T2" "is_tree T1 t" "is_tree T2 t" "kin T1 T" "kin T2 T"
    "clr T2 = (clr T)(a := k, b := k')"
proof -
  obtain T1 where 1: "set_color T a k = Some T1" "is_tree T1 t" "kin T1 T" "clr T1 = (clr T)(a := k)"
    using assms by (elim set_color_ok[of T t a k]) auto
  obtain T2 where 2: "set_color T1 b k' = Some T2" "is_tree T2 t" "kin T2 T1" "clr T2 = (clr T1)(b := k')"
    using 1(2) assms(3) by (elim set_color_ok[of T1 t b k']) auto
  then show thesis using 1 kin_trans by (intro that) auto
qed

text \<open>A red uncle: only colors change, and the loop goes on at the grandparent.\<close>

lemma insert_left_red:
  assumes T: "is_tree T (plug c (Node (fill f (Node xl x xr)) g u))" and u: "clr T (ptr (rbt_null T) u) = RBCOLOR_RED"
    and z: "clr T (rbt_null T) = RBCOLOR_BLACK"
  obtains T' where "insert_left_case T x (faddr f) g = Some (T', g)" "is_tree T' (plug c (Node (fill f (Node xl x xr)) g u))"
    "kin T' T" "clr T' = (clr T)(ptr (rbt_null T) u := RBCOLOR_BLACK, faddr f := RBCOLOR_BLACK, g := RBCOLOR_RED)"
proof -
  let ?t = "plug c (Node (fill f (Node xl x xr)) g u)" and ?z = "rbt_null T"
  have ne: "u \<noteq> Leaf" using u z by (cases u) auto
  then obtain ul ua ur where ua: "u = Node ul ua ur" by (cases u) auto
  have mem: "ua \<in> set_tree ?t" "faddr f \<in> set_tree ?t" "g \<in> set_tree ?t" using ua by (cases f; auto)+
  obtain T1 T2 where 2: "set_color T ua RBCOLOR_BLACK = Some T1" "set_color T1 (faddr f) RBCOLOR_BLACK = Some T2" "is_tree T2 ?t"
    "kin T2 T" "clr T2 = (clr T)(ua := RBCOLOR_BLACK, faddr f := RBCOLOR_BLACK)" by (rule two_colors[OF T mem(1,2)])
  obtain T3 where 3: "set_color T2 g RBCOLOR_RED = Some T3" "is_tree T3 ?t" "kin T3 T2" "clr T3 = (clr T2)(g := RBCOLOR_RED)"
    using 2(3) mem(3) by (elim set_color_ok[of T2 ?t g RBCOLOR_RED]) auto
  have "get_parent T2 (faddr f) = Some g"
    using node_reads(2)[of T2 "LF g u # c"] 2(3) by (cases f) auto
  moreover have "get_right T g = Some ua" "get_color T ua = Some RBCOLOR_RED"
    using node_reads[OF T] node_reads(5)[of T "RF (fill f (Node xl x xr)) g # c" ul ua ur] T u ua by auto
  ultimately have "insert_left_case T x (faddr f) g = Some (T3, g)" by (simp add: insert_left_case_def 2(1,2) 3(1))
  then show thesis using 2 3 ua kin_trans by (intro that) auto
qed

lemma insert_left_black_outer:
  assumes T: "is_tree T (plug c (Node (Node (Node xl x xr) p r) g u))" and u: "clr T (ptr (rbt_null T) u) = RBCOLOR_BLACK"
  obtains T' where "insert_left_case T x p g = Some (T', x)" "is_tree T' (plug c (Node (Node xl x xr) p (Node r g u)))"
    "kin T' T" "clr T' = (clr T)(p := RBCOLOR_BLACK, g := RBCOLOR_RED)"
proof -
  let ?t = "plug c (Node (Node (Node xl x xr) p r) g u)"
  have mem: "p \<in> set_tree ?t" "g \<in> set_tree ?t" by auto
  obtain T2 T3 where 2: "set_color T p RBCOLOR_BLACK = Some T2" "set_color T2 g RBCOLOR_RED = Some T3" "is_tree T2 ?t" "is_tree T3 ?t"
    "kin T3 T" "clr T3 = (clr T)(p := RBCOLOR_BLACK, g := RBCOLOR_RED)" by (rule two_colors[OF T mem])
  obtain T4 where 4: "right_rotate T3 g = Some T4" "is_tree T4 (plug c (Node (Node xl x xr) p (Node r g u)))" "alike T4 T3"
    by (rule right_rotate_ok[OF 2(4)])
  have "x \<noteq> p" "x \<noteq> rbt_null T" "x \<noteq> ptr (rbt_null T) r"
    using is_tree_plugD(4,7)[OF T] by (cases r; auto)+
  moreover have "get_right T p = Some (ptr (rbt_null T) r)" "get_parent T2 p = Some g" "get_parent T x = Some p"
    using node_reads[of T "LF g u # c" "Node xl x xr" p r] node_reads[of T2 "LF g u # c" "Node xl x xr" p r]
      node_reads[of T "LF p r # LF g u # c" xl x xr] T 2(3) by auto
  moreover have "get_right T g = Some (ptr (rbt_null T) u)" "get_color T (ptr (rbt_null T) u) = Some RBCOLOR_BLACK"
  proof -
    show "get_right T g = Some (ptr (rbt_null T) u)" using node_reads[OF T] by simp
    show "get_color T (ptr (rbt_null T) u) = Some RBCOLOR_BLACK"
      using null_reads(3)[OF T] node_reads(5)[of T "RF (Node (Node xl x xr) p r) g # c"] T u by (cases u) auto
  qed
  ultimately have "insert_left_case T x p g = Some (T4, x)" by (simp add: insert_left_case_def 2(1,2) 4(1))
  moreover have "kin T4 T" "clr T4 = clr T3" using 2(5) 4(3) kin_trans[of T4 T3 T] by (simp_all add: alike_def)
  ultimately show thesis using 2(6) 4(2) by (intro that) simp_all
qed

lemma insert_left_black_inner:
  assumes T: "is_tree T (plug c (Node (Node l p (Node xl x xr)) g u))" and u: "clr T (ptr (rbt_null T) u) = RBCOLOR_BLACK"
  obtains T' where "insert_left_case T x p g = Some (T', p)" "is_tree T' (plug c (Node (Node l p xl) x (Node xr g u)))"
    "kin T' T" "clr T' = (clr T)(x := RBCOLOR_BLACK, g := RBCOLOR_RED)"
proof -
  have T': "is_tree T (plug (LF g u # c) (Node l p (Node xl x xr)))" using T by simp
  obtain T1 where 1: "left_rotate T p = Some T1" "is_tree T1 (plug (LF g u # c) (Node (Node l p xl) x xr))" "alike T1 T"
    by (rule left_rotate_ok[OF T'])
  let ?t = "plug c (Node (Node (Node l p xl) x xr) g u)"
  have t1: "is_tree T1 ?t" using 1(2) by simp
  have mem: "x \<in> set_tree ?t" "g \<in> set_tree ?t" by auto
  obtain T2 T3 where 2: "set_color T1 x RBCOLOR_BLACK = Some T2" "set_color T2 g RBCOLOR_RED = Some T3" "is_tree T2 ?t" "is_tree T3 ?t"
    "kin T3 T1" "clr T3 = (clr T1)(x := RBCOLOR_BLACK, g := RBCOLOR_RED)" by (rule two_colors[OF t1 mem])
  obtain T4 where 4: "right_rotate T3 g = Some T4" "is_tree T4 (plug c (Node (Node l p xl) x (Node xr g u)))" "alike T4 T3"
    by (rule right_rotate_ok[OF 2(4)])
  have "get_parent T1 p = Some x" "get_parent T2 x = Some g" "get_right T p = Some x"
    using node_reads[OF T'] node_reads[of T1 "LF x xr # LF g u # c" l p xl] node_reads[of T2 "LF g u # c" "Node l p xl" x xr] t1 2(3)
    by auto
  moreover have "get_right T g = Some (ptr (rbt_null T) u)" using node_reads[OF T] by simp
  moreover have "get_color T (ptr (rbt_null T) u) = Some RBCOLOR_BLACK"
    using null_reads(3)[OF T] node_reads(5)[of T "RF (Node l p (Node xl x xr)) g # c"] T u by (cases u) auto
  ultimately have "insert_left_case T x p g = Some (T4, p)" by (simp add: insert_left_case_def 1(1) 2(1,2) 4(1))
  moreover have "kin T4 T" "clr T4 = clr T3" "clr T1 = clr T"
    using 1(3) 2(5) 4(3) kin_trans[of T4 T3 T] kin_trans[of T3 T1 T] by (simp_all add: alike_def)
  ultimately show thesis using 2(6) 4(2) by (intro that) simp_all
qed

text \<open>The mirror images.\<close>

lemma insert_right_red:
  assumes T: "is_tree T (plug c (Node u g (fill f (Node xl x xr))))" and u: "clr T (ptr (rbt_null T) u) = RBCOLOR_RED"
    and z: "clr T (rbt_null T) = RBCOLOR_BLACK"
  obtains T' where "insert_right_case T x (faddr f) g = Some (T', g)" "is_tree T' (plug c (Node u g (fill f (Node xl x xr))))"
    "kin T' T" "clr T' = (clr T)(ptr (rbt_null T) u := RBCOLOR_BLACK, faddr f := RBCOLOR_BLACK, g := RBCOLOR_RED)"
proof -
  let ?t = "plug c (Node u g (fill f (Node xl x xr)))"
  have ne: "u \<noteq> Leaf" using u z by (cases u) auto
  then obtain ul ua ur where ua: "u = Node ul ua ur" by (cases u) auto
  have mem: "ua \<in> set_tree ?t" "faddr f \<in> set_tree ?t" "g \<in> set_tree ?t" using ua by (cases f; auto)+
  obtain T1 T2 where 2: "set_color T ua RBCOLOR_BLACK = Some T1" "set_color T1 (faddr f) RBCOLOR_BLACK = Some T2" "is_tree T2 ?t"
    "kin T2 T" "clr T2 = (clr T)(ua := RBCOLOR_BLACK, faddr f := RBCOLOR_BLACK)" by (rule two_colors[OF T mem(1,2)])
  obtain T3 where 3: "set_color T2 g RBCOLOR_RED = Some T3" "is_tree T3 ?t" "kin T3 T2" "clr T3 = (clr T2)(g := RBCOLOR_RED)"
    using 2(3) mem(3) by (elim set_color_ok[of T2 ?t g RBCOLOR_RED]) auto
  have "get_parent T2 (faddr f) = Some g"
    using node_reads(2)[of T2 "RF u g # c"] 2(3) by (cases f) auto
  moreover have "get_left T g = Some ua" "get_color T ua = Some RBCOLOR_RED"
    using node_reads[OF T] node_reads(5)[of T "LF g (fill f (Node xl x xr)) # c" ul ua ur] T u ua by auto
  ultimately have "insert_right_case T x (faddr f) g = Some (T3, g)" by (simp add: insert_right_case_def 2(1,2) 3(1))
  then show thesis using 2 3 ua kin_trans by (intro that) auto
qed

lemma insert_right_black_outer:
  assumes T: "is_tree T (plug c (Node u g (Node l p (Node xl x xr))))" and u: "clr T (ptr (rbt_null T) u) = RBCOLOR_BLACK"
  obtains T' where "insert_right_case T x p g = Some (T', x)" "is_tree T' (plug c (Node (Node u g l) p (Node xl x xr)))"
    "kin T' T" "clr T' = (clr T)(p := RBCOLOR_BLACK, g := RBCOLOR_RED)"
proof -
  let ?t = "plug c (Node u g (Node l p (Node xl x xr)))"
  have mem: "p \<in> set_tree ?t" "g \<in> set_tree ?t" by auto
  obtain T2 T3 where 2: "set_color T p RBCOLOR_BLACK = Some T2" "set_color T2 g RBCOLOR_RED = Some T3" "is_tree T2 ?t" "is_tree T3 ?t"
    "kin T3 T" "clr T3 = (clr T)(p := RBCOLOR_BLACK, g := RBCOLOR_RED)" by (rule two_colors[OF T mem])
  obtain T4 where 4: "left_rotate T3 g = Some T4" "is_tree T4 (plug c (Node (Node u g l) p (Node xl x xr)))" "alike T4 T3"
    by (rule left_rotate_ok[OF 2(4)])
  have "x \<noteq> p" "x \<noteq> rbt_null T" "x \<noteq> ptr (rbt_null T) l"
    using is_tree_plugD(4,7)[OF T] by (cases l; auto)+
  moreover have "get_left T p = Some (ptr (rbt_null T) l)" "get_parent T2 p = Some g" "get_parent T x = Some p"
    using node_reads[of T "RF u g # c" l p "Node xl x xr"] node_reads[of T2 "RF u g # c" l p "Node xl x xr"]
      node_reads[of T "RF l p # RF u g # c" xl x xr] T 2(3) by auto
  moreover have "get_left T g = Some (ptr (rbt_null T) u)" "get_color T (ptr (rbt_null T) u) = Some RBCOLOR_BLACK"
  proof -
    show "get_left T g = Some (ptr (rbt_null T) u)" using node_reads[OF T] by simp
    show "get_color T (ptr (rbt_null T) u) = Some RBCOLOR_BLACK"
      using null_reads(3)[OF T] node_reads(5)[of T "LF g (Node l p (Node xl x xr)) # c"] T u by (cases u) auto
  qed
  ultimately have "insert_right_case T x p g = Some (T4, x)" by (simp add: insert_right_case_def 2(1,2) 4(1))
  moreover have "kin T4 T" "clr T4 = clr T3" using 2(5) 4(3) kin_trans[of T4 T3 T] by (simp_all add: alike_def)
  ultimately show thesis using 2(6) 4(2) by (intro that) simp_all
qed

lemma insert_right_black_inner:
  assumes T: "is_tree T (plug c (Node u g (Node (Node xl x xr) p r)))" and u: "clr T (ptr (rbt_null T) u) = RBCOLOR_BLACK"
  obtains T' where "insert_right_case T x p g = Some (T', p)" "is_tree T' (plug c (Node (Node u g xl) x (Node xr p r)))"
    "kin T' T" "clr T' = (clr T)(x := RBCOLOR_BLACK, g := RBCOLOR_RED)"
proof -
  have T': "is_tree T (plug (RF u g # c) (Node (Node xl x xr) p r))" using T by simp
  obtain T1 where 1: "right_rotate T p = Some T1" "is_tree T1 (plug (RF u g # c) (Node xl x (Node xr p r)))" "alike T1 T"
    by (rule right_rotate_ok[OF T'])
  let ?t = "plug c (Node u g (Node xl x (Node xr p r)))"
  have t1: "is_tree T1 ?t" using 1(2) by simp
  have mem: "x \<in> set_tree ?t" "g \<in> set_tree ?t" by auto
  obtain T2 T3 where 2: "set_color T1 x RBCOLOR_BLACK = Some T2" "set_color T2 g RBCOLOR_RED = Some T3" "is_tree T2 ?t" "is_tree T3 ?t"
    "kin T3 T1" "clr T3 = (clr T1)(x := RBCOLOR_BLACK, g := RBCOLOR_RED)" by (rule two_colors[OF t1 mem])
  obtain T4 where 4: "left_rotate T3 g = Some T4" "is_tree T4 (plug c (Node (Node u g xl) x (Node xr p r)))" "alike T4 T3"
    by (rule left_rotate_ok[OF 2(4)])
  have "get_parent T1 p = Some x" "get_parent T2 x = Some g" "get_left T p = Some x"
    using node_reads[OF T'] node_reads[of T1 "RF xl x # RF u g # c" xr p r] node_reads[of T2 "RF u g # c" xl x "Node xr p r"] t1 2(3)
    by auto
  moreover have "get_left T g = Some (ptr (rbt_null T) u)" using node_reads[OF T] by simp
  moreover have "get_color T (ptr (rbt_null T) u) = Some RBCOLOR_BLACK"
    using null_reads(3)[OF T] node_reads(5)[of T "LF g (Node (Node xl x xr) p r) # c"] T u by (cases u) auto
  ultimately have "insert_right_case T x p g = Some (T4, p)" by (simp add: insert_right_case_def 1(1) 2(1,2) 4(1))
  moreover have "kin T4 T" "clr T4 = clr T3" "clr T1 = clr T"
    using 1(3) 2(5) 4(3) kin_trans[of T4 T3 T] kin_trans[of T3 T1 T] by (simp_all add: alike_def)
  ultimately show thesis using 2(6) 4(2) by (intro that) simp_all
qed

subsection \<open>Red-black colors\<close>

text \<open>
  \<open>invc\<close>: no red node has a red child; \<open>invh\<close>: on every path down from a node there are equally
  many black nodes, \<open>bh\<close>. For a context, \<open>cinvc\<close> leaves out the part itself, and \<open>cinvh\<close> expects it to have
  the black height \<open>h\<close>.
\<close>

type_synonym colors = "addr \<Rightarrow> rbcolor"

fun invc :: "colors \<Rightarrow> addr \<Rightarrow> addr tree \<Rightarrow> bool" where
  "invc k z Leaf = True"
| "invc k z (Node l a r) \<longleftrightarrow> invc k z l \<and> invc k z r \<and> (k a = RBCOLOR_RED \<longrightarrow> k (ptr z l) = RBCOLOR_BLACK \<and> k (ptr z r) = RBCOLOR_BLACK)"

definition blk :: "colors \<Rightarrow> addr \<Rightarrow> nat" where
  "blk k a = (if k a = RBCOLOR_BLACK then 1 else 0)"

fun bh :: "colors \<Rightarrow> addr tree \<Rightarrow> nat" where
  "bh k Leaf = 0" | "bh k (Node l a r) = bh k l + blk k a"

fun invh :: "colors \<Rightarrow> addr tree \<Rightarrow> bool" where
  "invh k Leaf = True" | "invh k (Node l a r) \<longleftrightarrow> invh k l \<and> invh k r \<and> bh k l = bh k r"

fun cinvc :: "colors \<Rightarrow> addr \<Rightarrow> frame list \<Rightarrow> bool" where
  "cinvc k z [] = True"
| "cinvc k z (LF a r # c) \<longleftrightarrow> invc k z r \<and> (k a = RBCOLOR_RED \<longrightarrow> k (ptr z r) = RBCOLOR_BLACK \<and> k (cpar z c) = RBCOLOR_BLACK) \<and> cinvc k z c"
| "cinvc k z (RF l a # c) \<longleftrightarrow> invc k z l \<and> (k a = RBCOLOR_RED \<longrightarrow> k (ptr z l) = RBCOLOR_BLACK \<and> k (cpar z c) = RBCOLOR_BLACK) \<and> cinvc k z c"

fun cinvh :: "colors \<Rightarrow> nat \<Rightarrow> frame list \<Rightarrow> bool" where
  "cinvh k h [] = True"
| "cinvh k h (LF a r # c) \<longleftrightarrow> invh k r \<and> bh k r = h \<and> cinvh k (h + blk k a) c"
| "cinvh k h (RF l a # c) \<longleftrightarrow> invh k l \<and> bh k l = h \<and> cinvh k (h + blk k a) c"

lemma invc_plug:
  assumes "k z = RBCOLOR_BLACK"
  shows "invc k z (plug c t) \<longleftrightarrow> invc k z t \<and> cinvc k z c \<and> (k (cpar z c) = RBCOLOR_RED \<longrightarrow> k (ptr z t) = RBCOLOR_BLACK)"
proof (induction c arbitrary: t)
  case Nil
  then show ?case using assms by simp
next
  case (Cons f c)
  have e: "k a = RBCOLOR_BLACK \<longleftrightarrow> k a \<noteq> RBCOLOR_RED" for a by (cases "k a") simp_all
  show ?case by (cases f) (auto simp: Cons.IH e)
qed

lemma invh_plug: "invh k (plug c t) \<longleftrightarrow> invh k t \<and> cinvh k (bh k t) c"
proof (induction c arbitrary: t)
  case (Cons f c)
  show ?case by (cases f) (auto simp: Cons.IH)
qed simp

text \<open>A change of color elsewhere.\<close>

lemma ptr_upd [simp]: "a \<notin> set_tree t \<Longrightarrow> a \<noteq> z \<Longrightarrow> (k(a := v)) (ptr z t) = k (ptr z t)"
  by (cases t) auto

lemma invc_upd [simp]: "a \<notin> set_tree t \<Longrightarrow> a \<noteq> z \<Longrightarrow> invc (k(a := v)) z t = invc k z t"
proof (induction t)
  case (Node l b r)
  then have "(k(a := v)) (ptr z l) = k (ptr z l)" "(k(a := v)) (ptr z r) = k (ptr z r)" by (auto intro!: ptr_upd simp del: fun_upd_apply)
  with Node show ?case by (auto simp del: fun_upd_apply) (simp_all add: fun_upd_apply)
qed simp

lemma bh_upd [simp]: "a \<notin> set_tree t \<Longrightarrow> bh (k(a := v)) t = bh k t"
  by (induction t) (auto simp: blk_def)

lemma invh_upd [simp]: "a \<notin> set_tree t \<Longrightarrow> invh (k(a := v)) t = invh k t"
  by (induction t) auto

lemma cpar_upd [simp]: "a \<notin> set (cnodes c) \<Longrightarrow> a \<noteq> z \<Longrightarrow> (k(a := v)) (cpar z c) = k (cpar z c)"
proof (cases c)
  case (Cons f c')
  assume "a \<notin> set (cnodes c)"
  then show ?thesis using Cons by (cases f) auto
qed simp

lemma cinvc_upd [simp]: "a \<notin> set (cnodes c) \<Longrightarrow> a \<noteq> z \<Longrightarrow> cinvc (k(a := v)) z c = cinvc k z c"
proof (induction c)
  case (Cons f c)
  then have "cinvc (k(a := v)) z c = cinvc k z c" "(k(a := v)) (cpar z c) = k (cpar z c)" by (auto simp del: fun_upd_apply)
  with Cons.prems show ?case by (cases f) (simp_all del: fun_upd_apply add: fun_upd_other)
qed simp

lemma cinvh_upd [simp]: "a \<notin> set (cnodes c) \<Longrightarrow> cinvh (k(a := v)) h c = cinvh k h c"
proof (induction c arbitrary: h)
  case (Cons f c)
  then have "cinvh (k(a := v)) h' c = cinvh k h' c" for h' by (auto simp del: fun_upd_apply)
  with Cons.prems show ?case by (cases f) (simp_all del: fun_upd_apply add: fun_upd_other blk_def)
qed simp

text \<open>The only fault may be a red parent of the red root of the part.\<close>

definition almost :: "colors \<Rightarrow> addr \<Rightarrow> frame list \<Rightarrow> addr tree \<Rightarrow> bool" where
  "almost k z c t \<longleftrightarrow> k z = RBCOLOR_BLACK \<and> k (ptr z t) = RBCOLOR_RED \<and> invc k z t \<and> cinvc k z c \<and> invh k t \<and> cinvh k (bh k t) c"

lemmas upd_colors = fun_upd_same fun_upd_other

lemma almost_recolor:
  assumes a: "almost k z (f # f2 # c) t" "k (faddr f) = RBCOLOR_RED" "k (ptr z u) = RBCOLOR_RED" "f2 = LF g u \<or> f2 = RF u g"
    and d: "distinct (inorder (plug (f # f2 # c) t))" "z \<notin> set_tree (plug (f # f2 # c) t)"
  shows "almost (k(ptr z u := RBCOLOR_BLACK, faddr f := RBCOLOR_BLACK, g := RBCOLOR_RED)) z c (fill f2 (fill f t))"
proof -
  have "u \<noteq> Leaf" using a(1,3) by (auto simp: almost_def)
  then obtain ul ua ur where u: "u = Node ul ua ur" by (cases u) auto
  have gb: "k g = RBCOLOR_BLACK" using a(1,2,4) by (cases f) (auto simp: almost_def)
  show ?thesis
    using a d gb unfolding u
    by (cases f; elim disjE) (simp_all add: almost_def upd_colors blk_def distinct_plug del: fun_upd_apply)
qed

lemma almost_outer:
  assumes a: "almost k z (LF p r # LF g u # c) t" "k p = RBCOLOR_RED" "k (ptr z u) = RBCOLOR_BLACK"
    and d: "distinct (inorder (plug (LF p r # LF g u # c) t))" "z \<notin> set_tree (plug (LF p r # LF g u # c) t)"
  shows "almost (k(p := RBCOLOR_BLACK, g := RBCOLOR_RED)) z (LF p (Node r g u) # c) t"
proof -
  have gb: "k g = RBCOLOR_BLACK" using a(1,2) by (auto simp: almost_def)
  show ?thesis using a d gb by (simp add: almost_def upd_colors blk_def distinct_plug del: fun_upd_apply)
qed

lemma almost_outer_right:
  assumes a: "almost k z (RF l p # RF u g # c) t" "k p = RBCOLOR_RED" "k (ptr z u) = RBCOLOR_BLACK"
    and d: "distinct (inorder (plug (RF l p # RF u g # c) t))" "z \<notin> set_tree (plug (RF l p # RF u g # c) t)"
  shows "almost (k(p := RBCOLOR_BLACK, g := RBCOLOR_RED)) z (RF (Node u g l) p # c) t"
proof -
  have gb: "k g = RBCOLOR_BLACK" using a(1,2) by (auto simp: almost_def)
  show ?thesis using a d gb by (simp add: almost_def upd_colors blk_def distinct_plug del: fun_upd_apply)
qed

lemma almost_inner:
  assumes a: "almost k z (RF l p # LF g u # c) (Node xl x xr)" "k p = RBCOLOR_RED" "k (ptr z u) = RBCOLOR_BLACK"
    and d: "distinct (inorder (plug (RF l p # LF g u # c) (Node xl x xr)))" "z \<notin> set_tree (plug (RF l p # LF g u # c) (Node xl x xr))"
  shows "almost (k(x := RBCOLOR_BLACK, g := RBCOLOR_RED)) z (LF x (Node xr g u) # c) (Node l p xl)"
proof -
  have gb: "k g = RBCOLOR_BLACK" "k x = RBCOLOR_RED" "bh k xr = bh k xl" using a(1,2) by (auto simp: almost_def)
  show ?thesis using a d gb by (simp add: almost_def upd_colors blk_def distinct_plug del: fun_upd_apply)
qed

lemma almost_inner_right:
  assumes a: "almost k z (LF p r # RF u g # c) (Node xl x xr)" "k p = RBCOLOR_RED" "k (ptr z u) = RBCOLOR_BLACK"
    and d: "distinct (inorder (plug (LF p r # RF u g # c) (Node xl x xr)))" "z \<notin> set_tree (plug (LF p r # RF u g # c) (Node xl x xr))"
  shows "almost (k(x := RBCOLOR_BLACK, g := RBCOLOR_RED)) z (RF (Node u g xl) x # c) (Node xr p r)"
proof -
  have gb: "k g = RBCOLOR_BLACK" "k x = RBCOLOR_RED" "bh k xr = bh k xl" using a(1,2) by (auto simp: almost_def)
  show ?thesis using a d gb by (simp add: almost_def upd_colors blk_def distinct_plug del: fun_upd_apply)
qed

subsection \<open>The loop\<close>

text \<open>
  \<open>fixed T T' t\<close>: the loop has ended with \<open>T'\<close>, which has the nodes of \<open>t\<close> in their order; the
  root and the sentinel are black.
\<close>

definition fixed :: "T_RBTree \<Rightarrow> T_RBTree \<Rightarrow> addr tree \<Rightarrow> addr tree \<Rightarrow> bool" where
  "fixed T T' t t' \<longleftrightarrow> is_tree T' t' \<and> inorder t' = inorder t \<and> kin T' T \<and> clr T' (rbt_null T) = RBCOLOR_BLACK \<and>
     clr T' (rbt_root T') = RBCOLOR_BLACK"

lemma croot_in: "c \<noteq> [] \<Longrightarrow> croot c x \<in> set (cnodes c)"
proof (induction c arbitrary: x)
  case (Cons f c)
  then show ?case by (cases "c = []"; cases f) auto
qed simp

lemma red_parent_top: "red_parent T (rbt_root T) = Some None"
  by (simp add: red_parent_def)

lemma red_parent_ok:
  assumes "is_tree T (plug (f # c) (Node xl x xr))"
  shows "red_parent T x = Some (if clr T (faddr f) = RBCOLOR_RED then Some (faddr f) else None)"
proof -
  note D = is_tree_plugD[OF assms]
  have "x \<noteq> rbt_root T" using D(3,6) croot_in[of "f # c" x] by auto
  moreover have "get_parent T x = Some (faddr f)" using node_reads(2)[OF assms] by simp
  moreover have "get_color T (faddr f) = Some (clr T (faddr f))"
    using node_reads(5)[of T c] assms by (cases f) auto
  ultimately show ?thesis by (simp add: red_parent_def)
qed

lemma insert_fixup_stops:
  assumes T: "is_tree T (plug c (Node xl x xr))" and z: "clr T (rbt_null T) = RBCOLOR_BLACK"
    and r: "c \<noteq> [] \<Longrightarrow> clr T (croot c x) = RBCOLOR_BLACK" and p: "clr T (cpar (rbt_null T) c) = RBCOLOR_BLACK"
  shows "\<exists>T' t'. insert_fixup T x = Some T' \<and> fixed T T' (plug c (Node xl x xr)) t' \<and>
    (almost (clr T) (rbt_null T) c (Node xl x xr) \<longrightarrow> invc (clr T') (rbt_null T) t' \<and> invh (clr T') t')"
proof -
  let ?t = "plug c (Node xl x xr)" and ?z = "rbt_null T"
  note D = is_tree_plugD[OF T]
  have root: "rbt_root T = croot c x" using D(3) by simp
  have mem: "croot c x \<in> set_tree ?t" using croot_in[of c x] by (cases "c = []") auto
  then obtain T' where 1: "set_color T (croot c x) RBCOLOR_BLACK = Some T'" "is_tree T' ?t" "kin T' T"
    "clr T' = (clr T)(croot c x := RBCOLOR_BLACK)" "rbt_root T' = rbt_root T" using T by (elim set_color_ok[of T ?t "croot c x" RBCOLOR_BLACK]) auto
  have go: "red_parent T x = Some None"
  proof (cases c)
    case Nil
    then show ?thesis using red_parent_top[of T] root by simp
  next
    case (Cons f c')
    then show ?thesis using red_parent_ok[of T f c'] T p by simp
  qed
  have run: "insert_fixup T x = Some T'" by (subst insert_fixup.simps) (simp add: go root 1(1))
  have zn: "croot c x \<noteq> ?z" using mem T D(7,8) by auto
  have "fixed T T' ?t ?t" using 1 z zn root by (simp add: fixed_def)
  moreover have "invc (clr T') ?z ?t \<and> invh (clr T') ?t" if a: "almost (clr T) ?z c (Node xl x xr)"
  proof (cases c)
    case Nil
    have "x \<notin> set_tree xl" "x \<notin> set_tree xr" "x \<noteq> ?z" using D(4,7) by auto
    then show ?thesis using a Nil unfolding 1(4) by (simp add: almost_def upd_colors del: fun_upd_apply)
  next
    case Cons
    then have "clr T' = clr T" unfolding 1(4) using r by auto
    then show ?thesis using a p by (simp add: almost_def invc_plug[of "clr T" ?z] z invh_plug del: invc.simps invh.simps ptr.simps)
  qed
  ultimately show ?thesis using run by blast
qed

text \<open>\<open>nearer\<close>: after a step, the loop is at \<open>node\<close> closer to the root, with the same nodes in order.\<close>

definition nearer :: "T_RBTree \<Rightarrow> frame list \<Rightarrow> addr tree \<Rightarrow> T_RBTree \<Rightarrow> addr \<Rightarrow> frame list \<Rightarrow> addr tree \<Rightarrow> addr tree \<Rightarrow> bool" where
  "nearer T c t T1 node c1 l r \<longleftrightarrow> is_tree T1 (plug c1 (Node l node r)) \<and> length c1 < length c \<and>
     inorder (plug c1 (Node l node r)) = inorder (plug c t) \<and> kin T1 T \<and> clr T1 (rbt_null T) = RBCOLOR_BLACK \<and>
     (c1 \<noteq> [] \<longrightarrow> clr T1 (croot c1 node) = RBCOLOR_BLACK) \<and>
     (almost (clr T) (rbt_null T) c t \<longrightarrow> almost (clr T1) (rbt_null T) c1 (Node l node r))"

text \<open>The root of a context that the step does not recolor stays black.\<close>

lemma croot_upd:
  assumes "c \<noteq> []" "a \<notin> set (cnodes c)"
  shows "(k(a := v)) (croot c x) = k (croot c x)"
  using croot_in[OF assms(1), of x] assms(2) by (metis fun_upd_other)

lemma croot_any: "c \<noteq> [] \<Longrightarrow> croot c x = croot c y"
  by (cases c) simp_all

lemma insert_left_step:
  assumes T: "is_tree T (plug (f # LF g u # c) (Node xl x xr))" and z: "clr T (rbt_null T) = RBCOLOR_BLACK"
    and r: "c \<noteq> [] \<Longrightarrow> clr T (croot c g) = RBCOLOR_BLACK" and p: "clr T (faddr f) = RBCOLOR_RED"
  shows "\<exists>T1 node c1 l r. insert_left_case T x (faddr f) g = Some (T1, node) \<and> nearer T (f # LF g u # c) (Node xl x xr) T1 node c1 l r"
proof -
  let ?z = "rbt_null T"
  note D = is_tree_plugD[OF T]
  have d: "distinct (inorder (plug (f # LF g u # c) (Node xl x xr)))" "?z \<notin> set_tree (plug (f # LF g u # c) (Node xl x xr))"
    using T D(7,8) by (cases f; simp add: is_tree_def)+
  have T': "is_tree T (plug c (Node (fill f (Node xl x xr)) g u))" using T by simp
  have gc: "g \<notin> set (cnodes c)" "faddr f \<notin> set (cnodes c)" "x \<notin> set (cnodes c)" "g \<noteq> ?z" "faddr f \<noteq> ?z" "x \<noteq> ?z"
    using D(5-8) by (cases f; auto)+
  show ?thesis
  proof (cases "clr T (ptr ?z u)")
    case RBCOLOR_RED
    obtain T1 where 1: "insert_left_case T x (faddr f) g = Some (T1, g)" "is_tree T1 (plug c (Node (fill f (Node xl x xr)) g u))"
      "kin T1 T" "clr T1 = (clr T)(ptr ?z u := RBCOLOR_BLACK, faddr f := RBCOLOR_BLACK, g := RBCOLOR_RED)"
      by (rule insert_left_red[OF T' RBCOLOR_RED z])
    have "u \<noteq> Leaf" using RBCOLOR_RED z by auto
    then have uc: "ptr ?z u \<notin> set (cnodes c)" "ptr ?z u \<noteq> ?z" using D(5,8) by (cases u; auto)+
    have rr: "((clr T)(ptr ?z u := RBCOLOR_BLACK, faddr f := RBCOLOR_BLACK, g := RBCOLOR_RED)) (croot c g) = RBCOLOR_BLACK"
      if "c \<noteq> []"
      unfolding croot_upd[OF that gc(1)] croot_upd[OF that gc(2)] croot_upd[OF that uc(1)] by (rule r[OF that])
    have "nearer T (f # LF g u # c) (Node xl x xr) T1 g c (fill f (Node xl x xr)) u"
      unfolding nearer_def 1(4)
      using 1(2,3) z gc uc rr almost_recolor[where k = "clr T", OF _ p RBCOLOR_RED _ d]
      by (cases "c = []") (simp_all add: upd_colors del: fun_upd_apply)
    then show ?thesis using 1(1) by blast
  next
    case RBCOLOR_BLACK
    have rr: "((clr T)(a := RBCOLOR_BLACK, g := RBCOLOR_RED)) (croot c y) = RBCOLOR_BLACK" if "c \<noteq> []" "a \<notin> set (cnodes c)" for a y
      unfolding croot_upd[OF that(1) gc(1)] croot_upd[OF that] croot_any[OF that(1), of y g] by (rule r[OF that(1)])
    show ?thesis
    proof (cases f)
      case (LF p' r')
      obtain T1 where 1: "insert_left_case T x p' g = Some (T1, x)" "is_tree T1 (plug c (Node (Node xl x xr) p' (Node r' g u)))"
        "kin T1 T" "clr T1 = (clr T)(p' := RBCOLOR_BLACK, g := RBCOLOR_RED)"
        using T' unfolding LF fill.simps by (rule insert_left_black_outer[OF _ RBCOLOR_BLACK])
      have "p' \<noteq> g" using D(5) LF by auto
      then have "nearer T (f # LF g u # c) (Node xl x xr) T1 x (LF p' (Node r' g u) # c) xl xr"
        unfolding nearer_def 1(4)
        using 1(2,3) z gc r rr almost_outer[where k = "clr T", OF _ _ RBCOLOR_BLACK d[unfolded LF]] p LF
        by (cases "c = []") (simp_all add: upd_colors inorder_plug del: fun_upd_apply)
      then show ?thesis using 1(1) LF by auto
    next
      case (RF l' p')
      obtain T1 where 1: "insert_left_case T x p' g = Some (T1, p')" "is_tree T1 (plug c (Node (Node l' p' xl) x (Node xr g u)))"
        "kin T1 T" "clr T1 = (clr T)(x := RBCOLOR_BLACK, g := RBCOLOR_RED)"
        using T' unfolding RF fill.simps by (rule insert_left_black_inner[OF _ RBCOLOR_BLACK])
      have "x \<noteq> g" using D(6) by auto
      then have "nearer T (f # LF g u # c) (Node xl x xr) T1 p' (LF x (Node xr g u) # c) l' xl"
        unfolding nearer_def 1(4)
        using 1(2,3) z gc r rr almost_inner[where k = "clr T", OF _ _ RBCOLOR_BLACK d[unfolded RF]] p RF
        by (cases "c = []") (simp_all add: upd_colors inorder_plug del: fun_upd_apply)
      then show ?thesis using 1(1) RF by auto
    qed
  qed
qed

lemma insert_right_step:
  assumes T: "is_tree T (plug (f # RF u g # c) (Node xl x xr))" and z: "clr T (rbt_null T) = RBCOLOR_BLACK"
    and r: "c \<noteq> [] \<Longrightarrow> clr T (croot c g) = RBCOLOR_BLACK" and p: "clr T (faddr f) = RBCOLOR_RED"
  shows "\<exists>T1 node c1 l r. insert_right_case T x (faddr f) g = Some (T1, node) \<and> nearer T (f # RF u g # c) (Node xl x xr) T1 node c1 l r"
proof -
  let ?z = "rbt_null T"
  note D = is_tree_plugD[OF T]
  have d: "distinct (inorder (plug (f # RF u g # c) (Node xl x xr)))" "?z \<notin> set_tree (plug (f # RF u g # c) (Node xl x xr))"
    using T D(7,8) by (cases f; simp add: is_tree_def)+
  have T': "is_tree T (plug c (Node u g (fill f (Node xl x xr))))" using T by simp
  have gc: "g \<notin> set (cnodes c)" "faddr f \<notin> set (cnodes c)" "x \<notin> set (cnodes c)" "g \<noteq> ?z" "faddr f \<noteq> ?z" "x \<noteq> ?z"
    using D(5-8) by (cases f; auto)+
  show ?thesis
  proof (cases "clr T (ptr ?z u)")
    case RBCOLOR_RED
    obtain T1 where 1: "insert_right_case T x (faddr f) g = Some (T1, g)" "is_tree T1 (plug c (Node u g (fill f (Node xl x xr))))"
      "kin T1 T" "clr T1 = (clr T)(ptr ?z u := RBCOLOR_BLACK, faddr f := RBCOLOR_BLACK, g := RBCOLOR_RED)"
      by (rule insert_right_red[OF T' RBCOLOR_RED z])
    have "u \<noteq> Leaf" using RBCOLOR_RED z by auto
    then have uc: "ptr ?z u \<notin> set (cnodes c)" "ptr ?z u \<noteq> ?z" using D(5,8) by (cases u; auto)+
    have rr: "((clr T)(ptr ?z u := RBCOLOR_BLACK, faddr f := RBCOLOR_BLACK, g := RBCOLOR_RED)) (croot c g) = RBCOLOR_BLACK"
      if "c \<noteq> []"
      unfolding croot_upd[OF that gc(1)] croot_upd[OF that gc(2)] croot_upd[OF that uc(1)] by (rule r[OF that])
    have "nearer T (f # RF u g # c) (Node xl x xr) T1 g c u (fill f (Node xl x xr))"
      unfolding nearer_def 1(4)
      using 1(2,3) z gc uc rr almost_recolor[where k = "clr T", OF _ p RBCOLOR_RED _ d]
      by (cases "c = []") (simp_all add: upd_colors del: fun_upd_apply)
    then show ?thesis using 1(1) by blast
  next
    case RBCOLOR_BLACK
    have rr: "((clr T)(a := RBCOLOR_BLACK, g := RBCOLOR_RED)) (croot c y) = RBCOLOR_BLACK" if "c \<noteq> []" "a \<notin> set (cnodes c)" for a y
      unfolding croot_upd[OF that(1) gc(1)] croot_upd[OF that] croot_any[OF that(1), of y g] by (rule r[OF that(1)])
    show ?thesis
    proof (cases f)
      case (RF l' p')
      obtain T1 where 1: "insert_right_case T x p' g = Some (T1, x)" "is_tree T1 (plug c (Node (Node u g l') p' (Node xl x xr)))"
        "kin T1 T" "clr T1 = (clr T)(p' := RBCOLOR_BLACK, g := RBCOLOR_RED)"
        using T' unfolding RF fill.simps by (rule insert_right_black_outer[OF _ RBCOLOR_BLACK])
      have "p' \<noteq> g" using D(5) RF by auto
      then have "nearer T (f # RF u g # c) (Node xl x xr) T1 x (RF (Node u g l') p' # c) xl xr"
        unfolding nearer_def 1(4)
        using 1(2,3) z gc r rr almost_outer_right[where k = "clr T", OF _ _ RBCOLOR_BLACK d[unfolded RF]] p RF
        by (cases "c = []") (simp_all add: upd_colors inorder_plug del: fun_upd_apply)
      then show ?thesis using 1(1) RF by auto
    next
      case (LF p' r')
      obtain T1 where 1: "insert_right_case T x p' g = Some (T1, p')" "is_tree T1 (plug c (Node (Node u g xl) x (Node xr p' r')))"
        "kin T1 T" "clr T1 = (clr T)(x := RBCOLOR_BLACK, g := RBCOLOR_RED)"
        using T' unfolding LF fill.simps by (rule insert_right_black_inner[OF _ RBCOLOR_BLACK])
      have "x \<noteq> g" using D(6) by auto
      then have "nearer T (f # RF u g # c) (Node xl x xr) T1 p' (RF (Node u g xl) x # c) xr r'"
        unfolding nearer_def 1(4)
        using 1(2,3) z gc r rr almost_inner_right[where k = "clr T", OF _ _ RBCOLOR_BLACK d[unfolded LF]] p LF
        by (cases "c = []") (simp_all add: upd_colors inorder_plug del: fun_upd_apply)
      then show ?thesis using 1(1) LF by auto
    qed
  qed
qed

lemma insert_fixup_ok:
  assumes "is_tree T (plug c (Node xl x xr))" "clr T (rbt_null T) = RBCOLOR_BLACK" "c \<noteq> [] \<longrightarrow> clr T (croot c x) = RBCOLOR_BLACK"
  shows "\<exists>T' t'. insert_fixup T x = Some T' \<and> fixed T T' (plug c (Node xl x xr)) t' \<and>
    (almost (clr T) (rbt_null T) c (Node xl x xr) \<longrightarrow> invc (clr T') (rbt_null T) t' \<and> invh (clr T') t')"
  using assms
proof (induction "length c" arbitrary: c T xl x xr rule: less_induct)
  case less
  note T = less.prems(1) and z = less.prems(2) and root = less.prems(3)
  show ?case
  proof (cases "clr T (cpar (rbt_null T) c)")
    case RBCOLOR_BLACK
    show ?thesis using root by (intro insert_fixup_stops[OF T z _ RBCOLOR_BLACK]) blast
  next
    case RBCOLOR_RED
    then obtain f c1 where c1: "c = f # c1" using z by (cases c) auto
    have red: "clr T (faddr f) = RBCOLOR_RED" using RBCOLOR_RED c1 by simp
    then obtain f2 c2 where c: "c = f # f2 # c2" using root c1 by (cases c1) auto
    note D = is_tree_plugD[OF T]
    have rp: "red_parent T x = Some (Some (faddr f))" using red_parent_ok[of T f "f2 # c2"] T c red by simp
    have gp: "get_parent T (faddr f) = Some (faddr f2)" using node_reads(2)[of T "f2 # c2"] T c by (cases f) auto
    have r2: "c2 \<noteq> [] \<Longrightarrow> clr T (croot c2 (faddr f2)) = RBCOLOR_BLACK" using root c by simp
    have fi: "faddr f \<in> set (fnodes f)" by (cases f) simp_all
    obtain gl T1 node l r c' where S: "get_left T (faddr f2) = Some gl"
      "(if faddr f = gl then insert_left_case T x (faddr f) (faddr f2) else insert_right_case T x (faddr f) (faddr f2)) = Some (T1, node)"
      "nearer T c (Node xl x xr) T1 node c' l r"
    proof (cases f2)
      case (LF g u)
      have "get_left T g = Some (faddr f)" using node_reads(3)[of T c2] T c LF by simp
      then show thesis using insert_left_step[of T f g u c2 xl x xr] T c z red r2 LF that by auto
    next
      case (RF u g)
      have "get_left T g = Some (ptr (rbt_null T) u)" using node_reads(3)[of T c2] T c RF by simp
      moreover have "faddr f \<noteq> ptr (rbt_null T) u" using D(5,8) c RF fi by (cases u) auto
      ultimately show thesis using insert_right_step[of T f u g c2 xl x xr] T c z red r2 RF that by auto
    qed
    have run: "insert_fixup T x = insert_fixup T1 node"
      by (subst insert_fixup.simps) (simp add: rp gp S(1,2) del: if_split)
    have N: "rbt_null T1 = rbt_null T" "kin T1 T" using S(3) by (simp_all add: nearer_def kinD)
    from less.hyps[of c' T1 l node r] S(3) N(1) obtain T' t' where I: "insert_fixup T1 node = Some T'"
      "fixed T1 T' (plug c' (Node l node r)) t'"
      "almost (clr T1) (rbt_null T) c' (Node l node r) \<longrightarrow> invc (clr T') (rbt_null T) t' \<and> invh (clr T') t'"
      unfolding nearer_def by auto
    have "fixed T T' (plug c (Node xl x xr)) t'"
      using I(2) S(3) kin_trans[of T' T1 T] N unfolding fixed_def nearer_def by auto
    then show ?thesis using run I(1,3) S(3) unfolding nearer_def by auto
  qed
qed

subsection \<open>The new node\<close>

text \<open>The new node, red and with no children, below the node where the search ended.\<close>

definition attach :: "T_RBTree \<Rightarrow> addr \<Rightarrow> addr \<Rightarrow> int \<Rightarrow> T_RBTree option" where
  "attach T par element rv =
     do {
       T1 \<leftarrow> set_color T element RBCOLOR_RED;
       T2 \<leftarrow> set_right T1 element (rbt_null T);
       T3 \<leftarrow> set_left T2 element (rbt_null T);
       T4 \<leftarrow> set_parent T3 element par;
       if rv < 0 then set_left T4 par element else set_right T4 par element
     }"

definition plant :: "T_RBTree \<Rightarrow> addr \<Rightarrow> T_RBTree option" where
  "plant T element =
     do {
       T1 \<leftarrow> set_color T element RBCOLOR_RED;
       T2 \<leftarrow> set_right T1 element (rbt_null T);
       T3 \<leftarrow> set_left T2 element (rbt_null T);
       T4 \<leftarrow> set_parent (T3\<lparr>rbt_root := element\<rparr>) element (rbt_null T);
       set_color T4 element RBCOLOR_BLACK
     }"

lemma insert_run:
  assumes "get_key T e = Some key" "rb_search T key (rbt_root T) (rbt_null T) 0 = Some (node, par, rv)"
  shows "RBTREE_Insert T e = (if node \<noteq> rbt_null T then Some (T, -1)
    else map_option (\<lambda>T'. (T'\<lparr>rbt_size := u32 (rbt_size T' + 1)\<rparr>, 0))
      (if par \<noteq> rbt_null T then Option.bind (attach T par e rv) (\<lambda>T5. insert_fixup T5 e) else plant T e))"
proof -
  have b: "Option.bind m (\<lambda>x. Some (g x)) = map_option g m" for m :: "T_RBTree option" and g :: "T_RBTree \<Rightarrow> T_RBTree \<times> int"
    by (cases m) simp_all
  have mb: "map_option g (Option.bind m h) = Option.bind m (\<lambda>x. map_option g (h x))"
    for m :: "'a option" and h :: "'a \<Rightarrow> T_RBTree option" and g :: "T_RBTree \<Rightarrow> T_RBTree \<times> int" by (cases m) simp_all
  show ?thesis unfolding RBTREE_Insert_def assms attach_def plant_def
    by (cases "par = rbt_null T") (simp_all add: assms b mb bind_assoc)
qed

lemma attach_ok:
  assumes T: "is_tree T (plug c Leaf)" and c: "c \<noteq> []" "side_ok c rv" and e: "rbt_nodes T e = Some n" "e \<noteq> rbt_null T" "e \<notin> set (cnodes c)"
  obtains T' where "attach T (cpar (rbt_null T) c) e rv = Some T'" "is_tree T' (plug c (Node Leaf e Leaf))" "kin T' T"
    "clr T' = (clr T)(e := RBCOLOR_RED)"
proof -
  let ?z = "rbt_null T" and ?H = "rbt_nodes T"
  let ?n = "n\<lparr>rb_color := RBCOLOR_RED, rb_right := ?z, rb_left := ?z, rb_parent := cpar ?z c\<rparr>"
  let ?T4 = "T\<lparr>rbt_nodes := ?H(e \<mapsto> ?n)\<rparr>"
  note D = is_tree_plugD[OF T]
  have put: "attach T (cpar ?z c) e rv = (if rv < 0 then set_left ?T4 (cpar ?z c) e else set_right ?T4 (cpar ?z c) e)"
    using e by (simp add: attach_def setters)
  have c4: "cshape (rbt_nodes ?T4) ?z ?z c" using D(1) e(3) by simp
  have r4: "rbt_root ?T4 = croot c e" using D(3) croot_any[OF c(1)] by simp
  have k4: "kin ?T4 T" "clr ?T4 = (clr T)(e := RBCOLOR_RED)" using e(1) by (auto simp: kin_def clr_def fun_eq_iff)
  obtain T' where R: "attach T (cpar ?z c) e rv = Some T'" "cshape (rbt_nodes T') ?z e c" "alike T' ?T4" "rbt_root T' = croot c e"
    "\<And>a. a \<notin> set (cnodes c) \<Longrightarrow> rbt_nodes T' a = rbt_nodes ?T4 a"
    using c4
  proof (cases rule: cshape_cases)
    case 1
    then show ?thesis using c(1) by simp
  next
    case (2 a r c' m)
    let ?T = "?T4\<lparr>rbt_nodes := (rbt_nodes ?T4)(a \<mapsto> m\<lparr>rb_left := e\<rparr>)\<rparr>"
    have "a \<notin> set_tree r" "a \<notin> set (cnodes c')" using D(5) 2(1) by auto
    then have "cshape (rbt_nodes ?T) ?z e c" using 2 by simp
    moreover have "alike ?T ?T4" using 2(2) by (intro alike_upd) simp_all
    moreover have "set_left ?T4 a e = Some ?T" using 2(2) by (simp add: setters)
    ultimately show ?thesis using 2(1) r4 c(2) put by (intro that[of ?T]) simp_all
  next
    case (3 l a c' m)
    let ?T = "?T4\<lparr>rbt_nodes := (rbt_nodes ?T4)(a \<mapsto> m\<lparr>rb_right := e\<rparr>)\<rparr>"
    have "a \<notin> set_tree l" "a \<notin> set (cnodes c')" using D(5) 3(1) by auto
    then have "cshape (rbt_nodes ?T) ?z e c" using 3 by simp
    moreover have "alike ?T ?T4" using 3(2) by (intro alike_upd) simp_all
    moreover have "set_right ?T4 a e = Some ?T" using 3(2) by (simp add: setters)
    ultimately show ?thesis using 3(1) r4 c(2) put by (intro that[of ?T]) simp_all
  qed
  have z: "rbt_null T' = ?z" using alike_null[OF R(3)] by simp
  have n: "rbt_nodes T' e = Some ?n" "rbt_nodes T' ?z = ?H ?z" using R(5) e D(8) by simp_all
  have "is_tree T' (plug c (Node Leaf e Leaf))"
    using R(2,4) n e D(5,9) by (intro is_tree_plugI) (auto simp: z null_ok_def)
  moreover have "kin T' T" "clr T' = (clr T)(e := RBCOLOR_RED)" using R(3) k4 kin_trans[of T' ?T4 T] by (simp_all add: alike_def)
  ultimately show thesis using R(1) by (intro that)
qed

lemma plant_ok:
  assumes T: "is_tree T Leaf" and e: "rbt_nodes T e = Some n" "e \<noteq> rbt_null T"
  obtains T' where "plant T e = Some T'" "is_tree T' (Node Leaf e Leaf)" "kin T' T" "clr T' = (clr T)(e := RBCOLOR_BLACK)"
proof -
  let ?z = "rbt_null T"
  let ?n = "n\<lparr>rb_right := ?z, rb_left := ?z, rb_parent := ?z, rb_color := RBCOLOR_BLACK\<rparr>"
  let ?T = "T\<lparr>rbt_root := e, rbt_nodes := (rbt_nodes T)(e \<mapsto> ?n)\<rparr>"
  have "plant T e = Some ?T" using e by (simp add: plant_def setters)
  moreover have "is_tree ?T (Node Leaf e Leaf)" using T e by (auto simp: is_tree_def null_ok_def)
  moreover have "kin ?T T" "clr ?T = (clr T)(e := RBCOLOR_BLACK)" using e(1) by (auto simp: kin_def clr_def fun_eq_iff)
  ultimately show thesis by (intro that)
qed

subsection \<open>The whole insertion\<close>

definition rb_colored :: "T_RBTree \<Rightarrow> addr tree \<Rightarrow> bool" where
  "rb_colored T t \<longleftrightarrow> invc (clr T) (rbt_null T) t \<and> invh (clr T) t"

lemma planted:
  assumes T: "is_tree T t" "clr T (rbt_null T) = RBCOLOR_BLACK" "clr T (rbt_root T) = RBCOLOR_BLACK"
    and c: "plug c Leaf = t" "side_ok c rv" and e: "rbt_nodes T e = Some n" "e \<noteq> rbt_null T" "e \<notin> set_tree t"
  obtains T' t' where "(if cpar (rbt_null T) c \<noteq> rbt_null T then Option.bind (attach T (cpar (rbt_null T) c) e rv) (\<lambda>T5. insert_fixup T5 e)
      else plant T e) = Some T'"
    "fixed T T' (plug c (Node Leaf e Leaf)) t'" "rb_colored T t \<longrightarrow> rb_colored T' t'"
proof (cases c)
  case Nil
  have "is_tree T Leaf" using T(1) c(1) Nil by simp
  then obtain T' where 1: "plant T e = Some T'" "is_tree T' (Node Leaf e Leaf)" "kin T' T" "clr T' = (clr T)(e := RBCOLOR_BLACK)"
    by (rule plant_ok[OF _ e(1,2)])
  have "rbt_root T' = e" using 1(2) by (simp add: is_tree_def)
  then have "fixed T T' (plug c (Node Leaf e Leaf)) (Node Leaf e Leaf)" using 1 T(2) Nil by (simp add: fixed_def)
  moreover have "rb_colored T' (Node Leaf e Leaf)" by (simp add: rb_colored_def 1(4))
  ultimately show thesis using 1(1) Nil by (intro that[of T' "Node Leaf e Leaf"]) simp_all
next
  case (Cons f c')
  let ?z = "rbt_null T"
  have T0: "is_tree T (plug c Leaf)" using T(1) c(1) by simp
  note D = is_tree_plugD[OF T0]
  have ec: "e \<notin> set (cnodes c)" using e(3) c(1) by auto
  have ne: "c \<noteq> []" using Cons by simp
  obtain T5 where 5: "attach T (cpar ?z c) e rv = Some T5" "is_tree T5 (plug c (Node Leaf e Leaf))" "kin T5 T"
    "clr T5 = (clr T)(e := RBCOLOR_RED)" by (rule attach_ok[OF T0 ne c(2) e(1,2) ec])
  have z5: "rbt_null T5 = ?z" using 5(3) by (rule kinD(1))
  have "rbt_root T = croot c e" using D(3) croot_any[of c ?z e] Cons by simp
  then have root: "clr T5 (croot c e) = RBCOLOR_BLACK" using T(3) croot_in[of c e] ec Cons unfolding 5(4) by auto
  have zb: "clr T5 (rbt_null T5) = RBCOLOR_BLACK" using T(2) e(2) unfolding 5(4) z5 by simp
  obtain T' t' where F: "insert_fixup T5 e = Some T'" "fixed T5 T' (plug c (Node Leaf e Leaf)) t'"
    "almost (clr T5) ?z c (Node Leaf e Leaf) \<longrightarrow> invc (clr T') ?z t' \<and> invh (clr T') t'"
    using insert_fixup_ok[OF 5(2) zb] root z5 by auto
  have k: "kin T' T" using F(2) kin_trans[OF _ 5(3)] by (simp add: fixed_def)
  then have z': "rbt_null T' = ?z" by (rule kinD(1))
  have "almost (clr T5) ?z c (Node Leaf e Leaf)" if "rb_colored T t"
    using that ec e(2) T(2) c(1) unfolding 5(4) rb_colored_def
    by (auto simp: almost_def upd_colors invc_plug invh_plug blk_def simp del: fun_upd_apply)
  then have "rb_colored T t \<longrightarrow> rb_colored T' t'" using F(3) z' by (simp add: rb_colored_def)
  moreover have "fixed T T' (plug c (Node Leaf e Leaf)) t'" using F(2) k z5 by (simp add: fixed_def)
  moreover have "cpar ?z c \<noteq> ?z" using D(8) Cons by (cases f) auto
  ultimately show thesis using 5(1) F(1) by (intro that[of T' t']) simp_all
qed

lemma size_upd_tree [simp]:
  "is_tree (T\<lparr>rbt_size := s\<rparr>) t = is_tree T t" "clr (T\<lparr>rbt_size := s\<rparr>) = clr T" "ky (T\<lparr>rbt_size := s\<rparr>) = ky T"
  "rb_colored (T\<lparr>rbt_size := s\<rparr>) t = rb_colored T t"
proof -
  show clr: "clr (T\<lparr>rbt_size := s\<rparr>) = clr T" by (simp add: clr_def fun_eq_iff)
  show "rb_colored (T\<lparr>rbt_size := s\<rparr>) t = rb_colored T t" by (simp add: rb_colored_def clr)
qed (simp_all add: is_tree_def null_ok_def ky_def fun_eq_iff)

lemma insert_ok:
  fixes f :: "addr \<Rightarrow> 'k :: linorder"
  assumes "rb_valid f T t" and "rbt_nodes T e = Some n" "e \<notin> set_tree t" "e \<noteq> rbt_null T" "e \<noteq> 0"
  shows "if \<exists>x\<in>set_tree t. f (ky T x) = f (rb_key n) then RBTREE_Insert T e = Some (T, -1)
    else \<exists>T' t' xs ys. RBTREE_Insert T e = Some (T', 0) \<and> inorder t = xs @ ys \<and> inorder t' = xs @ e # ys \<and> rb_valid f T' t' \<and>
      rbt_null T' = rbt_null T \<and> ky T' = ky T \<and> (rb_colored T t \<longrightarrow> rb_colored T' t')"
proof -
  let ?z = "rbt_null T"
  note V = rb_validD[OF assms(1)]
  have key: "get_key T e = Some (rb_key n)" "ky T e = rb_key n" using assms(2) by (simp_all add: getters ky_def)
  consider (found) x par rv where "rb_search T (rb_key n) (rbt_root T) ?z 0 = Some (x, par, rv)" "x \<in> set_tree t" "f (ky T x) = f (rb_key n)"
    | (place) c rv where "rb_search T (rb_key n) (rbt_root T) ?z 0 = Some (?z, cpar ?z c, rv)" "plug c Leaf = t" "side_ok c rv"
        "\<forall>a\<in>set (cbefore c). f (ky T a) < f (rb_key n)" "\<forall>a\<in>set (cbehind c). f (rb_key n) < f (ky T a)"
    using rb_search_root[OF V(1-3), of "rb_key n"] by blast
  then show ?thesis
  proof cases
    case found
    moreover have "x \<noteq> ?z" using found(2) is_tree_plugD(7)[of T "[]" t] V(1) by auto
    ultimately show ?thesis using insert_run[OF key(1) found(1)] by auto
  next
    case place
    obtain T' t' where P: "(if cpar ?z c \<noteq> ?z then Option.bind (attach T (cpar ?z c) e rv) (\<lambda>T5. insert_fixup T5 e) else plant T e) = Some T'"
      "fixed T T' (plug c (Node Leaf e Leaf)) t'" "rb_colored T t \<longrightarrow> rb_colored T' t'"
      by (rule planted[OF V(1,4,5) place(2,3) assms(2,4,3)])
    let ?T = "T'\<lparr>rbt_size := u32 (rbt_size T' + 1)\<rparr>"
    have run: "RBTREE_Insert T e = Some (?T, 0)" using insert_run[OF key(1) place(1)] P(1) by simp
    have k: "kin T' T" "is_tree T' t'" "inorder t' = cbefore c @ e # cbehind c" using P(2) by (simp_all add: fixed_def inorder_plug)
    have t: "inorder t = cbefore c @ cbehind c" using place(2) by (auto simp: inorder_plug)
    have ky: "ky T' = ky T" using k(1) by (rule kin_ky)
    have st: "set_tree t = set (inorder t)" "set_tree t' = set (inorder t')" by simp_all
    have "sorted_wrt (\<lambda>a b. f (ky T a) < f (ky T b)) (inorder t')"
      using V(3) place(4,5) key(2) unfolding t k(3) by (auto simp: sorted_wrt_append)
    moreover have "u32 (u32 (length (inorder t)) + 1) = u32 (length (inorder t'))" unfolding t k(3) by (simp add: u32_def mod_Suc_eq)
    moreover have "0 \<notin> set_tree t'" using V(7) assms(5) unfolding st k(3) t by auto
    ultimately have "rb_valid f ?T t'" using V P(2) k(1,2) ky by (simp add: rb_valid_def fixed_def kinD del: length_inorder)
    moreover have "\<not> (\<exists>x\<in>set_tree t. f (ky T x) = f (rb_key n))" using place(4,5) unfolding st t by auto
    ultimately show ?thesis using run t k(3) ky P(3) kinD(1)[OF k(1)]
      by (simp only: if_False) (intro exI[of _ ?T] exI[of _ t'] exI[of _ "cbefore c"] exI[of _ "cbehind c"], simp)
  qed
qed

text \<open>C14: insertion. When a node of the tree has an equal key, the tree is left as it is and the
  result is -1. Otherwise the result is 0 and the node is added at its place in order: the tree stays
  valid, keeps the keys of its nodes, and stays red-black colored when it was.\<close>

theorem RBTREE_Insert_ok:
  fixes f :: "addr \<Rightarrow> 'k :: linorder"
  assumes "rb_valid f T t" and "rbt_nodes T e = Some n" "e \<notin> set_tree t" "e \<noteq> rbt_null T" "e \<noteq> 0"
  shows "if \<exists>x\<in>set_tree t. f (ky T x) = f (rb_key n) then RBTREE_Insert T e = Some (T, -1)
    else \<exists>T' t' xs ys. RBTREE_Insert T e = Some (T', 0) \<and> inorder t = xs @ ys \<and> inorder t' = xs @ e # ys \<and> rb_valid f T' t' \<and>
      rbt_null T' = rbt_null T \<and> ky T' = ky T \<and> (rb_colored T t \<longrightarrow> rb_colored T' t')"
  by (rule insert_ok[OF assms])

lemma ex_colored: "rb_colored (ex_rb k) ex_shape"
  by (cases k) (simp_all add: rb_colored_def ex_rb_def ex_shape_def ex_node_def clr_def blk_def)

lemma RBTREE_Insert_ok_witness:
  "\<exists>T' t'. RBTREE_Insert (ex_rb RBCOLOR_RED) 32 = Some (T', 0) \<and> set (inorder t') = {8, 16, 24, 32} \<and> rb_valid id T' t' \<and> rb_colored T' t'"
proof -
  have n: "rbt_nodes (ex_rb RBCOLOR_RED) 32 = Some (ex_node 0 0 0 5 RBCOLOR_RED)" by (simp add: ex_rb_def)
  have "32 \<noteq> rbt_null (ex_rb RBCOLOR_RED)" "32 \<notin> set_tree ex_shape" by (simp_all add: ex_rb_def ex_reads)
  from RBTREE_Insert_ok[OF ex_valid n this(2,1)] obtain T' t' xs ys where
    "RBTREE_Insert (ex_rb RBCOLOR_RED) 32 = Some (T', 0)" "[8, 16, 24] = xs @ ys" "inorder t' = xs @ 32 # ys" "rb_valid id T' t'"
    "rb_colored T' t'" using ex_colored by (auto simp: ex_reads ex_node_def)
  moreover from this(2) have "set xs \<union> set ys = {8, 16, 24}" by (metis list.simps(15) empty_set set_append)
  ultimately show ?thesis by (intro exI[of _ T'] exI[of _ t']) auto
qed

subsection \<open>Balance\<close>

lemma colored_height:
  assumes "k z = RBCOLOR_BLACK"
  shows "invc k z t \<Longrightarrow> invh k t \<Longrightarrow> height t \<le> 2 * bh k t + (if k (ptr z t) = RBCOLOR_RED then 1 else 0) \<and> 2 ^ bh k t \<le> size1 t"
proof (induction t)
  case Leaf
  then show ?case using assms by simp
next
  case (Node l a r)
  then have "height l \<le> 2 * bh k l + (if k (ptr z l) = RBCOLOR_RED then 1 else 0)" "2 ^ bh k l \<le> size1 l"
    "height r \<le> 2 * bh k r + (if k (ptr z r) = RBCOLOR_RED then 1 else 0)" "2 ^ bh k r \<le> size1 r" by simp_all
  with Node.prems show ?case by (cases "k a") (auto simp: blk_def split: if_splits)
qed

text \<open>C16: the height of a valid tree with red-black colors, as the code computes it, is at most twice
  the logarithm of its size: with \<open>n\<close> nodes the height \<open>h\<close> has \<open>2 ^ (h + 1) \<le> (n + 1)\<^sup>2\<close>.\<close>

theorem RBTREE_height_bound:
  assumes "rb_valid f T t" "rb_colored T t" and "0 < length (inorder t)" "length (inorder t) < 2 ^ 32"
  shows "\<exists>h. RBTREE_HeightMax T 0 = Some h \<and> 2 ^ (h + 1) \<le> (length (inorder t) + 1) ^ 2"
proof -
  note V = rb_validD[OF assms(1)]
  obtain l x r where t: "t = Node l x r" using assms(3) by (cases t) auto
  have h: "RBTREE_HeightMax T 0 = Some (max (height l) (height r))" using heights_ok(1)[of T l x r] V(1,7) assms(4) t by simp
  have "clr T (ptr (rbt_null T) t) = RBCOLOR_BLACK" using V(1,5) by (simp add: is_tree_def)
  then have hb: "height t \<le> 2 * bh (clr T) t" and bs: "2 ^ bh (clr T) t \<le> size1 t"
    using colored_height[of "clr T" "rbt_null T" t] V(4) assms(2) by (auto simp: rb_colored_def)
  have "(2::nat) ^ height t \<le> 2 ^ (2 * bh (clr T) t)" using hb by (rule power_increasing) simp
  moreover have "(2 ^ bh (clr T) t) ^ 2 \<le> (size1 t) ^ 2" using bs by (rule power_mono) simp
  moreover have "(2 ^ bh (clr T) t) ^ 2 = (2::nat) ^ (2 * bh (clr T) t)" by (simp add: power_mult power2_eq_square flip: power_add power_mult)
  ultimately have "(2::nat) ^ height t \<le> (size1 t) ^ 2" by linarith
  then have "(2::nat) ^ height t \<le> (length (inorder t) + 1) ^ 2" by (simp add: size1_size)
  then show ?thesis using h t by simp
qed

lemma ex_length: "length (inorder ex_shape) = 3"
  unfolding ex_reads by simp

lemma RBTREE_height_bound_witness: "\<exists>h. RBTREE_HeightMax (ex_rb RBCOLOR_RED) 0 = Some h \<and> 2 ^ (h + 1) \<le> (3 + 1 :: nat) ^ 2"
  by (rule RBTREE_height_bound[OF ex_valid ex_colored, unfolded ex_length]) simp_all

end
