(* ===== verification/Rb_Erase.thy ===== *)
theory Rb_Erase
  imports Rb_Insert
begin

section \<open>Removal from the red-black tree\<close>

text \<open>
  Removal keeps the other nodes in their order. The loop of \<open>delete_fixup\<close> ends for every coloring,
  also where it colors the sentinel red and takes it for a sibling.
\<close>

subsection \<open>Reading below any pointer\<close>

lemma part_reads:
  assumes T: "is_tree T (plug c s)"
  shows "get_left T (ptr (rbt_null T) s) = Some (ptr (rbt_null T) (left s))" "get_right T (ptr (rbt_null T) s) = Some (ptr (rbt_null T) (right s))"
    "get_color T (ptr (rbt_null T) s) = Some (clr T (ptr (rbt_null T) s))"
    "ptr (rbt_null T) s = rbt_null T \<or> ptr (rbt_null T) s \<in> set_tree (plug c s)"
    "ptr (rbt_null T) (left s) = rbt_null T \<or> ptr (rbt_null T) (left s) \<in> set_tree (plug c s)"
    "ptr (rbt_null T) (right s) = rbt_null T \<or> ptr (rbt_null T) (right s) \<in> set_tree (plug c s)"
proof -
  show "get_left T (ptr (rbt_null T) s) = Some (ptr (rbt_null T) (left s))" "get_right T (ptr (rbt_null T) s) = Some (ptr (rbt_null T) (right s))"
    "get_color T (ptr (rbt_null T) s) = Some (clr T (ptr (rbt_null T) s))"
    using null_reads[OF T] node_reads[of T c "left s" _ "right s"] T by (cases s; simp)+
  show "ptr (rbt_null T) s = rbt_null T \<or> ptr (rbt_null T) s \<in> set_tree (plug c s)" by (cases s) simp_all
  show "ptr (rbt_null T) (left s) = rbt_null T \<or> ptr (rbt_null T) (left s) \<in> set_tree (plug c s)" by (cases s; cases "left s") auto
  show "ptr (rbt_null T) (right s) = rbt_null T \<or> ptr (rbt_null T) (right s) \<in> set_tree (plug c s)" by (cases s; cases "right s") auto
qed

text \<open>A rotation, whether there is something to rotate or not.\<close>

lemma left_rotate_any:
  assumes T: "is_tree T (plug c (Node l x s))"
  obtains T' s' where "left_rotate T x = Some T'" "is_tree T' (plug c s')" "inorder s' = inorder (Node l x s)" "alike T' T"
proof (cases s)
  case Leaf
  then have "left_rotate T x = Some T" using node_reads(4)[OF T] by (intro rotate_none) simp
  then show thesis using T by (intro that[of T]) auto
next
  case (Node m y r)
  have "is_tree T (plug c (Node l x (Node m y r)))" using T Node by simp
  then obtain T' where "left_rotate T x = Some T'" "is_tree T' (plug c (Node (Node l x m) y r))" "alike T' T" by (rule left_rotate_ok)
  then show thesis using Node by (intro that[of T' "Node (Node l x m) y r"]) simp_all
qed

lemma right_rotate_any:
  assumes T: "is_tree T (plug c (Node s x r))"
  obtains T' s' where "right_rotate T x = Some T'" "is_tree T' (plug c s')" "inorder s' = inorder (Node s x r)" "alike T' T"
proof (cases s)
  case Leaf
  then have "right_rotate T x = Some T" using node_reads(3)[OF T] by (intro rotate_none) simp
  then show thesis using T by (intro that[of T]) auto
next
  case (Node l y m)
  have "is_tree T (plug c (Node (Node l y m) x r))" using T Node by simp
  then obtain T' where "right_rotate T x = Some T'" "is_tree T' (plug c (Node l y (Node m x r)))" "alike T' T" by (rule right_rotate_ok)
  then show thesis using Node by (intro that[of T' "Node l y (Node m x r)"]) simp_all
qed

subsection \<open>Unlinking and replacing a node\<close>

lemma set_parent_null:
  assumes "is_tree T t"
  obtains T' where "set_parent T (rbt_null T) p = Some T'" "is_tree T' t" "alike T' T"
proof -
  obtain n where n: "rbt_nodes T (rbt_null T) = Some n" using assms by (auto simp: is_tree_def null_ok_def)
  let ?T = "T\<lparr>rbt_nodes := (rbt_nodes T)(rbt_null T \<mapsto> n\<lparr>rb_parent := p\<rparr>)\<rparr>"
  have "rbt_null T \<notin> set_tree t" using is_tree_plugD(7)[of T "[]" t] assms by simp
  then have "is_tree ?T t" using assms n by (auto simp: is_tree_def null_ok_def)
  then show thesis using set_parent_alike[OF n, of p] by (intro that[of ?T])
qed

lemma rb_unlink_ok:
  assumes T: "is_tree T (plug c (Node l x r))" and m: "l = Leaf \<and> m = r \<or> r = Leaf \<and> m = l"
  obtains T1 T2 where "set_parent T (ptr (rbt_null T) m) (cpar (rbt_null T) c) = Some T1"
    "relink T1 (cpar (rbt_null T) c) x (ptr (rbt_null T) m) = Some T2" "is_tree T2 (plug c m)" "alike T2 T"
proof -
  let ?z = "rbt_null T" and ?p = "cpar (rbt_null T) c"
  note D = is_tree_plugD[OF T]
  have xm: "x \<notin> set_tree m" "distinct (inorder m)" "set_tree m \<inter> set (cnodes c) = {}" "x \<notin> set (cnodes c)" "?z \<notin> set_tree m" "x \<noteq> ?z"
    "shape (rbt_nodes T) ?z x m" using D(2,4,6,7) m by auto
  obtain T1 where 1: "set_parent T (ptr ?z m) ?p = Some T1" "shape (rbt_nodes T1) ?z ?p m" "alike T1 T" "rbt_root T1 = rbt_root T"
    "null_ok T1" "\<And>a. a \<in> set (cnodes c) \<Longrightarrow> rbt_nodes T1 a = rbt_nodes T a"
  proof (cases m)
    case Leaf
    obtain n where n: "rbt_nodes T ?z = Some n" using D(9) by (auto simp: null_ok_def)
    show thesis using Leaf D(8,9) n set_parent_alike[OF n, of ?p]
      by (intro that[of "T\<lparr>rbt_nodes := (rbt_nodes T)(?z \<mapsto> n\<lparr>rb_parent := ?p\<rparr>)\<rparr>"]) (auto simp: null_ok_def)
  next
    case (Node ml a mr)
    have pn: "ptr ?z m \<noteq> ?z" using Node xm(5) by auto
    obtain T1 where R: "(if ptr ?z m \<noteq> ?z then set_parent T (ptr ?z m) ?p else Some T) = Some T1" "shape (rbt_nodes T1) ?z ?p m" "alike T1 T"
      "rbt_root T1 = rbt_root T" "\<And>a. a \<notin> set_tree m \<Longrightarrow> rbt_nodes T1 a = rbt_nodes T a"
      by (rule reparent_ok[OF refl xm(7,2), of ?p]) (rule that)
    have "null_ok T1" using D(9) R(5)[of ?z] xm(5) alike_null[OF R(3)] by (simp add: null_ok_def)
    moreover have "rbt_nodes T1 a = rbt_nodes T a" if "a \<in> set (cnodes c)" for a using that R(5)[of a] xm(3) by auto
    ultimately show thesis using R(1-4) pn by (intro that[of T1]) simp_all
  qed
  have z1: "rbt_null T1 = ?z" using 1(3) by (rule alike_null)
  have "cshape (rbt_nodes T1) ?z x c" using D(1) cshape_cong[of c "rbt_nodes T1" "rbt_nodes T" ?z x] 1(6) by simp
  moreover have "rbt_root T1 = croot c x" using 1(4) D(3) by simp
  ultimately obtain T2 where 2: "relink T1 ?p x (ptr ?z m) = Some T2" "cshape (rbt_nodes T2) ?z (ptr ?z m) c" "alike T2 T1"
    "rbt_root T2 = croot c (ptr ?z m)" "\<And>a. a \<notin> set (cnodes c) \<Longrightarrow> rbt_nodes T2 a = rbt_nodes T1 a"
    by (rule relink_ok[OF z1 _ D(5) xm(4) _ xm(6), of "ptr ?z m"]) (rule that)
  have z2: "rbt_null T2 = ?z" using alike_null[OF 2(3)] z1 by simp
  have "rbt_nodes T2 a = rbt_nodes T1 a" if "a \<in> set_tree m" for a using that 2(5)[of a] xm(3) by auto
  then have "shape (rbt_nodes T2) ?z ?p m" using 1(2) shape_cong[of m "rbt_nodes T2" "rbt_nodes T1" ?z ?p] by simp
  moreover have "null_ok T2" using 1(5) 2(5)[of ?z] D(8) by (simp add: null_ok_def z1 z2)
  ultimately have "is_tree T2 (plug c m)" using 2(2,4) D(5) xm(2,3) by (intro is_tree_plugI) (simp_all add: z2)
  then show thesis using 1(1) 2(1) alike_trans[OF 2(3) 1(3)] by (intro that)
qed

lemma plug_append: "plug (c @ c') t = plug c' (plug c t)"
  by (induction c arbitrary: t) simp_all

lemma cnodes_append [simp]: "cnodes (c @ c') = cnodes c @ cnodes c'"
  by (induction c) simp_all

text \<open>What \<open>erase_replace\<close> does, with the copy of the node's fields in one step.\<close>

definition take_over :: "T_RBTree \<Rightarrow> addr \<Rightarrow> T_RBTreeNode \<Rightarrow> addr \<Rightarrow> T_RBTree option" where
  "take_over T4 x nx s =
     do {
       T5 \<leftarrow> (if rb_parent nx \<noteq> rbt_null T4 then relink T4 (rb_parent nx) x s else Some T4);
       T6 \<leftarrow> (if rb_left nx \<noteq> rbt_null T5 then set_parent T5 (rb_left nx) s else Some T5);
       T7 \<leftarrow> (if rb_right nx \<noteq> rbt_null T6 then set_parent T6 (rb_right nx) s else Some T6);
       Some (if rbt_root T7 = x then T7\<lparr>rbt_root := s\<rparr> else T7)
     }"

lemma relink_keep:
  assumes "relink T par x s = Some T'" "par \<noteq> rbt_null T" "par \<noteq> x"
  shows "rbt_nodes T' x = rbt_nodes T x" "rbt_null T' = rbt_null T"
proof -
  have "rbt_nodes T' x = rbt_nodes T x \<and> rbt_null T' = rbt_null T"
    using assms by (auto simp: relink_def getters setters split: if_splits bind_splits option.splits)
  then show "rbt_nodes T' x = rbt_nodes T x" "rbt_null T' = rbt_null T" by simp_all
qed

lemma take_over_unfold:
  assumes x: "rbt_nodes T4 x = Some nx" "rb_parent nx \<noteq> x" "rb_left nx \<noteq> x"
  shows "do {
      T5 \<leftarrow> (if rb_parent nx \<noteq> rbt_null T4 then relink T4 (rb_parent nx) x s else Some T4);
      nl \<leftarrow> get_left T5 x;
      T6 \<leftarrow> (if nl \<noteq> rbt_null T5 then set_parent T5 nl s else Some T5);
      nr \<leftarrow> get_right T6 x;
      T7 \<leftarrow> (if nr \<noteq> rbt_null T6 then set_parent T6 nr s else Some T6);
      Some (if rbt_root T7 = x then T7\<lparr>rbt_root := s\<rparr> else T7) } = take_over T4 x nx s"
proof -
  have 6: "(do { T6 \<leftarrow> (if nl \<noteq> rbt_null T5 then set_parent T5 nl s else Some T5); nr \<leftarrow> get_right T6 x; g T6 nr }) =
      (do { T6 \<leftarrow> (if nl \<noteq> rbt_null T5 then set_parent T5 nl s else Some T5); g T6 (rb_right nx) })"
    if "rbt_nodes T5 x = Some nx" "nl \<noteq> x" for T5 nl and g :: "T_RBTree \<Rightarrow> addr \<Rightarrow> T_RBTree option"
    using that by (cases "rbt_nodes T5 nl") (auto simp: getters setters)
  have left: "get_left T5 x = Some (rb_left nx)" if "rbt_nodes T5 x = Some nx" for T5 using that by (simp add: getters)
  show ?thesis
  proof (cases "rb_parent nx = rbt_null T4")
    case True
    then show ?thesis using 6[OF x(1,3)] left[OF x(1)] by (simp add: take_over_def)
  next
    case False
    show ?thesis
    proof (cases "relink T4 (rb_parent nx) x s")
      case None
      then show ?thesis using False by (simp add: take_over_def)
    next
      case (Some T5)
      have "rbt_nodes T5 x = Some nx" using relink_keep[OF Some False x(2)] x(1) by simp
      then show ?thesis using 6[OF _ x(3)] left Some False by (simp add: take_over_def)
    qed
  qed
qed

lemma erase_replace_run:
  assumes x: "rbt_nodes T x = Some nx" "x \<noteq> s" "rb_parent nx \<noteq> x" "rb_left nx \<noteq> x" and s: "rbt_nodes T s = Some ns"
  shows "erase_replace T x s =
    take_over (T\<lparr>rbt_nodes := (rbt_nodes T)(s \<mapsto> ns\<lparr>rb_parent := rb_parent nx, rb_left := rb_left nx, rb_right := rb_right nx,
      rb_color := rb_color nx\<rparr>)\<rparr>) x nx s"
    (is "_ = take_over ?T4 x nx s")
proof -
  have "rbt_nodes ?T4 x = Some nx" using x by simp
  from take_over_unfold[OF this x(3,4), of s, symmetric] show ?thesis
    using x(1,2) s by (simp add: erase_replace_def relink_def getters setters)
qed

lemma erase_replace_ok:
  assumes T: "is_tree T (plug c (Node l x r))" and s: "rbt_nodes T s = Some ns" "s \<noteq> rbt_null T" "s \<notin> set_tree (plug c (Node l x r))"
  obtains T' where "erase_replace T x s = Some T'" "is_tree T' (plug c (Node l s r))" "kin T' T" "clr T' = (clr T)(s := clr T x)"
proof -
  let ?z = "rbt_null T" and ?H = "rbt_nodes T"
  note D = is_tree_plugD[OF T]
  obtain nx where x: "?H x = Some nx" "rb_parent nx = cpar ?z c" "rb_left nx = ptr ?z l" "rb_right nx = ptr ?z r" "x \<noteq> ?z"
    and sh: "shape ?H ?z x l" "shape ?H ?z x r" using D(2) by auto
  have ne: "x \<noteq> s" "s \<notin> set_tree l" "s \<notin> set_tree r" "s \<notin> set (cnodes c)" using s(3) by auto
  have dis: "x \<notin> set (cnodes c)" "set_tree l \<inter> set_tree r = {}" "set_tree l \<inter> set (cnodes c) = {}" "set_tree r \<inter> set (cnodes c) = {}"
    "distinct (inorder l)" "distinct (inorder r)" "?z \<notin> set_tree l" "?z \<notin> set_tree r" "ptr ?z l \<noteq> x" "cpar ?z c \<noteq> x"
    using D(4-8) x(5) by (auto, (cases l; auto), (cases c; cases "hd c"; auto))
  let ?n = "ns\<lparr>rb_parent := cpar ?z c, rb_left := ptr ?z l, rb_right := ptr ?z r, rb_color := rb_color nx\<rparr>"
  let ?T4 = "T\<lparr>rbt_nodes := ?H(s \<mapsto> ?n)\<rparr>"
  have run: "erase_replace T x s = take_over ?T4 x nx s" using erase_replace_run[OF x(1) ne(1) _ _ s(1)] x dis by simp
  have k4: "kin ?T4 T" "clr ?T4 = (clr T)(s := clr T x)" using s(1) x(1) by (auto simp: kin_def clr_def fun_eq_iff)
  have z4: "rbt_null ?T4 = ?z" by simp
  have c4: "cshape (rbt_nodes ?T4) ?z x c" "rbt_root ?T4 = croot c x" using D(1,3) ne(4) by simp_all
  obtain T5 where 5: "(if cpar ?z c \<noteq> ?z then relink ?T4 (cpar ?z c) x s else Some ?T4) = Some T5" "cshape (rbt_nodes T5) ?z s c" "alike T5 ?T4"
    "rbt_root T5 = (if c = [] then x else croot c s)" "\<And>a. a \<notin> set (cnodes c) \<Longrightarrow> rbt_nodes T5 a = rbt_nodes ?T4 a"
  proof (cases "c = []")
    case True
    then show thesis using c4 by (intro that[of ?T4]) simp_all
  next
    case False
    have "cpar ?z c \<noteq> ?z" using D(8) False by (cases c; cases "hd c") auto
    moreover obtain T5 where "relink ?T4 (cpar ?z c) x s = Some T5" "cshape (rbt_nodes T5) ?z s c" "alike T5 ?T4"
      "rbt_root T5 = croot c s" "\<And>a. a \<notin> set (cnodes c) \<Longrightarrow> rbt_nodes T5 a = rbt_nodes ?T4 a"
      by (rule relink_ok[OF z4 c4(1) D(5) dis(1) c4(2) x(5), of s]) (rule that)
    ultimately show thesis using False by (intro that[of T5]) simp_all
  qed
  have z5: "rbt_null T5 = ?z" using alike_null[OF 5(3)] by simp
  have at5: "rbt_nodes T5 a = ?H a" if "a \<in> set_tree l \<or> a \<in> set_tree r" for a
    using that ne(2,3) dis(3,4) 5(5)[of a] by (auto simp: disjoint_iff)
  have s5: "shape (rbt_nodes T5) ?z x l" "shape (rbt_nodes T5) ?z x r"
    using sh at5 shape_cong[of l "rbt_nodes T5" ?H ?z x] shape_cong[of r "rbt_nodes T5" ?H ?z x] by simp_all
  obtain T6 where 6: "(if ptr ?z l \<noteq> ?z then set_parent T5 (ptr ?z l) s else Some T5) = Some T6" "shape (rbt_nodes T6) ?z s l" "alike T6 T5"
    "rbt_root T6 = rbt_root T5" "\<And>a. a \<notin> set_tree l \<Longrightarrow> rbt_nodes T6 a = rbt_nodes T5 a"
    by (rule reparent_ok[OF z5 s5(1) dis(5), of s]) (rule that)
  have z6: "rbt_null T6 = ?z" using alike_null[OF 6(3)] z5 by simp
  have "rbt_nodes T6 a = rbt_nodes T5 a" if "a \<in> set_tree r" for a using that dis(2) 6(5)[of a] by auto
  then have s6: "shape (rbt_nodes T6) ?z x r" using s5(2) shape_cong[of r "rbt_nodes T6" "rbt_nodes T5" ?z x] by simp
  obtain T7 where 7: "(if ptr ?z r \<noteq> ?z then set_parent T6 (ptr ?z r) s else Some T6) = Some T7" "shape (rbt_nodes T7) ?z s r" "alike T7 T6"
    "rbt_root T7 = rbt_root T6" "\<And>a. a \<notin> set_tree r \<Longrightarrow> rbt_nodes T7 a = rbt_nodes T6 a"
    by (rule reparent_ok[OF z6 s6 dis(6), of s]) (rule that)
  have z7: "rbt_null T7 = ?z" using alike_null[OF 7(3)] z6 by simp
  let ?T = "T7\<lparr>rbt_root := croot c s\<rparr>"
  have at7: "rbt_nodes T7 a = rbt_nodes T5 a" if "a \<notin> set_tree l" "a \<notin> set_tree r" for a using that 6(5) 7(5) by simp
  have root: "(if rbt_root T7 = x then T7\<lparr>rbt_root := s\<rparr> else T7) = ?T"
  proof (cases "c = []")
    case True
    then show ?thesis using 7(4) 6(4) 5(4) by simp
  next
    case False
    have "rbt_root T7 = croot c s" using 7(4) 6(4) 5(4) False by simp
    then show ?thesis using croot_in[OF False, of s] dis(1) by auto
  qed
  have "cshape (rbt_nodes T7) ?z s c = cshape (rbt_nodes T5) ?z s c" using dis(3,4) by (intro cshape_cong at7) (auto simp: disjoint_iff)
  moreover have "shape (rbt_nodes T7) ?z s l = shape (rbt_nodes T6) ?z s l" using dis(2) by (intro shape_cong 7(5)) auto
  moreover have "rbt_nodes T7 s = Some ?n" using at7[of s] 5(5)[of s] ne by simp
  moreover have "rbt_nodes T7 ?z = ?H ?z" using at7[of ?z] 5(5)[of ?z] dis(7,8) D(8) s(2) by auto
  ultimately have "is_tree ?T (plug c (Node l s r))"
    using 5(2) 6(2) 7(2) D(4,5,6,9) ne s(2) z7 by (intro is_tree_plugI) (auto simp: null_ok_def)
  moreover have al: "alike ?T ?T4" using 5(3) 6(3) 7(3) alike_root[of "croot c s" T7] by (blast intro: alike_trans)
  moreover have "kin ?T T" "clr ?T = (clr T)(s := clr T x)" using al k4 kin_trans[of ?T ?T4 T] by (simp_all add: alike_def)
  moreover have "erase_replace T x s = Some ?T"
    unfolding run take_over_def x(2-4) by (simp only: z4 5(1) 6(1) 7(1) z5 z6 root bind.bind_lunit)
  ultimately show thesis by (intro that[of ?T])
qed

subsection \<open>The steps of \<open>delete_fixup\<close>\<close>

lemma color_node:
  assumes T: "is_tree T (plug c (Node l p r))"
  obtains T' where "set_color T p k = Some T'" "is_tree T' (plug c (Node l p r))" "kin T' T" "clr T' = (clr T)(p := k)"
proof -
  have "p = rbt_null T \<or> p \<in> set_tree (plug c (Node l p r))" by simp
  then show thesis by (rule set_color_ok[OF T]) (rule that)
qed

text \<open>The first step: the sibling, rotated up when it is red.\<close>

lemma left_sibling_ok:
  assumes T: "is_tree T (plug (LF p s # c) (Node xl x xr))" and root: "c \<noteq> [] \<longrightarrow> clr T (croot c p) = RBCOLOR_BLACK"
  obtains T1 d s1 where "delete_left_sibling T x = Some (T1, ptr (rbt_null T) s1)" "is_tree T1 (plug (LF p s1 # d) (Node xl x xr))"
    "inorder (plug (LF p s1 # d) (Node xl x xr)) = inorder (plug (LF p s # c) (Node xl x xr))" "kin T1 T"
    "d \<noteq> [] \<longrightarrow> clr T1 (croot d p) = RBCOLOR_BLACK" "d = c \<or> clr T1 p = RBCOLOR_RED"
proof -
  let ?z = "rbt_null T" and ?X = "Node xl x xr"
  have Tp: "is_tree T (plug c (Node ?X p s))" using T by simp
  have Ts: "is_tree T (plug (RF ?X p # c) s)" using T by simp
  note D = is_tree_plugD[OF T] and R = part_reads[OF Ts]
  have rd: "get_parent T x = Some p" "get_right T p = Some (ptr ?z s)" using node_reads[OF T] node_reads[OF Tp] by simp_all
  show thesis
  proof (cases "clr T (ptr ?z s)")
    case RBCOLOR_BLACK
    then have "delete_left_sibling T x = Some (T, ptr ?z s)" using rd R(3) by (simp add: delete_left_sibling_def)
    then show thesis using T root by (intro that[of T s c]) auto
  next
    case RBCOLOR_RED
    have mem: "ptr ?z s = ?z \<or> ptr ?z s \<in> set_tree (plug c (Node ?X p s))" using R(4) by auto
    obtain T1 where 1: "set_color T (ptr ?z s) RBCOLOR_BLACK = Some T1" "is_tree T1 (plug c (Node ?X p s))" "kin T1 T"
      "clr T1 = (clr T)(ptr ?z s := RBCOLOR_BLACK)" by (rule set_color_ok[OF Tp mem])
    obtain T2 where 2: "set_color T1 p RBCOLOR_RED = Some T2" "is_tree T2 (plug c (Node ?X p s))" "kin T2 T1"
      "clr T2 = (clr T1)(p := RBCOLOR_RED)" by (rule color_node[OF 1(2)])
    have k2: "kin T2 T" "rbt_null T2 = ?z" using kin_trans[OF 2(3) 1(3)] by (simp_all add: kinD)
    have xp: "get_parent T1 x = Some p" "get_parent T2 x = Some p"
      using node_reads(2)[of T1 "LF p s # c"] node_reads(2)[of T2 "LF p s # c"] 1(2) 2(2) by simp_all
    have cp: "croot c y \<noteq> p" "croot c y \<noteq> ptr ?z s" if "c \<noteq> []" for y
      using croot_in[OF that, of y] D(5,8) by (auto, cases s, auto)
    show thesis
    proof (cases s)
      case Leaf
      have rot: "left_rotate T2 p = Some T2" using node_reads(4)[OF 2(2)] Leaf by (intro rotate_none) simp
      have "get_right T2 p = Some ?z" using node_reads(4)[OF 2(2)] Leaf k2 by simp
      then have "delete_left_sibling T x = Some (T2, ptr ?z Leaf)"
        using rd R(3) RBCOLOR_RED xp 1(1) 2(1) rot by (simp add: delete_left_sibling_def)
      moreover have "c \<noteq> [] \<longrightarrow> clr T2 (croot c p) = RBCOLOR_BLACK" using root cp unfolding 2(4) 1(4) by simp
      ultimately show thesis using 2(2) k2 Leaf by (intro that[of T2 Leaf c]) simp_all
    next
      case (Node sl y sr)
      let ?m = "sl" and ?r = "sr"
      have "is_tree T2 (plug c (Node ?X p (Node ?m y ?r)))" using 2(2) Node by simp
      then obtain T3 where 3: "left_rotate T2 p = Some T3" "is_tree T3 (plug c (Node (Node ?X p ?m) y ?r))" "alike T3 T2"
        by (rule left_rotate_ok)
      have t3: "is_tree T3 (plug (LF p ?m # LF y ?r # c) ?X)" using 3(2) by simp
      have k3: "kin T3 T" "rbt_null T3 = ?z" "clr T3 = clr T2" using 3(3) kin_trans[OF _ k2(1)] by (simp_all add: alike_def kinD)
      have "get_parent T3 x = Some p" "get_right T3 p = Some (ptr ?z ?m)"
        using node_reads[OF t3] node_reads(4)[of T3 "LF y ?r # c"] t3 k3(2) by simp_all
      then have "delete_left_sibling T x = Some (T3, ptr ?z ?m)"
        using rd R(3) RBCOLOR_RED xp 1(1) 2(1) 3(1) by (simp add: delete_left_sibling_def)
      moreover have "y \<noteq> p" using D(5) Node by auto
      then have "clr T3 p = RBCOLOR_RED" "clr T3 (croot c y) = RBCOLOR_BLACK"
        using root cp[of y] croot_any[of c y p] Node unfolding k3(3) 2(4) 1(4) by (cases "c = []"; simp)+
      ultimately show thesis using t3 k3 Node by (intro that[of T3 ?m "LF y ?r # c"]) (simp_all add: inorder_plug)
    qed
  qed
qed

lemma right_sibling_ok:
  assumes T: "is_tree T (plug (RF s p # c) (Node xl x xr))" and root: "c \<noteq> [] \<longrightarrow> clr T (croot c p) = RBCOLOR_BLACK"
  obtains T1 d s1 where "delete_right_sibling T x = Some (T1, ptr (rbt_null T) s1)" "is_tree T1 (plug (RF s1 p # d) (Node xl x xr))"
    "inorder (plug (RF s1 p # d) (Node xl x xr)) = inorder (plug (RF s p # c) (Node xl x xr))" "kin T1 T"
    "d \<noteq> [] \<longrightarrow> clr T1 (croot d p) = RBCOLOR_BLACK" "d = c \<or> clr T1 p = RBCOLOR_RED"
proof -
  let ?z = "rbt_null T" and ?X = "Node xl x xr"
  have Tp: "is_tree T (plug c (Node s p ?X))" using T by simp
  have Ts: "is_tree T (plug (LF p ?X # c) s)" using T by simp
  note D = is_tree_plugD[OF T] and R = part_reads[OF Ts]
  have rd: "get_parent T x = Some p" "get_left T p = Some (ptr ?z s)" using node_reads[OF T] node_reads[OF Tp] by simp_all
  show thesis
  proof (cases "clr T (ptr ?z s)")
    case RBCOLOR_BLACK
    then have "delete_right_sibling T x = Some (T, ptr ?z s)" using rd R(3) by (simp add: delete_right_sibling_def)
    then show thesis using T root by (intro that[of T s c]) auto
  next
    case RBCOLOR_RED
    have mem: "ptr ?z s = ?z \<or> ptr ?z s \<in> set_tree (plug c (Node s p ?X))" using R(4) by auto
    obtain T1 where 1: "set_color T (ptr ?z s) RBCOLOR_BLACK = Some T1" "is_tree T1 (plug c (Node s p ?X))" "kin T1 T"
      "clr T1 = (clr T)(ptr ?z s := RBCOLOR_BLACK)" by (rule set_color_ok[OF Tp mem])
    obtain T2 where 2: "set_color T1 p RBCOLOR_RED = Some T2" "is_tree T2 (plug c (Node s p ?X))" "kin T2 T1"
      "clr T2 = (clr T1)(p := RBCOLOR_RED)" by (rule color_node[OF 1(2)])
    have k2: "kin T2 T" "rbt_null T2 = ?z" using kin_trans[OF 2(3) 1(3)] by (simp_all add: kinD)
    have xp: "get_parent T1 x = Some p" "get_parent T2 x = Some p"
      using node_reads(2)[of T1 "RF s p # c"] node_reads(2)[of T2 "RF s p # c"] 1(2) 2(2) by simp_all
    have cp: "croot c y \<noteq> p" "croot c y \<noteq> ptr ?z s" if "c \<noteq> []" for y
      using croot_in[OF that, of y] D(5,8) by (auto, cases s, auto)
    show thesis
    proof (cases s)
      case Leaf
      have rot: "right_rotate T2 p = Some T2" using node_reads(3)[OF 2(2)] Leaf by (intro rotate_none) simp
      have "get_left T2 p = Some ?z" using node_reads(3)[OF 2(2)] Leaf k2 by simp
      then have "delete_right_sibling T x = Some (T2, ptr ?z Leaf)"
        using rd R(3) RBCOLOR_RED xp 1(1) 2(1) rot by (simp add: delete_right_sibling_def)
      moreover have "c \<noteq> [] \<longrightarrow> clr T2 (croot c p) = RBCOLOR_BLACK" using root cp unfolding 2(4) 1(4) by simp
      ultimately show thesis using 2(2) k2 Leaf by (intro that[of T2 Leaf c]) simp_all
    next
      case (Node sl y sr)
      let ?m = "sr" and ?r = "sl"
      have "is_tree T2 (plug c (Node (Node ?r y ?m) p ?X))" using 2(2) Node by simp
      then obtain T3 where 3: "right_rotate T2 p = Some T3" "is_tree T3 (plug c (Node ?r y (Node ?m p ?X)))" "alike T3 T2"
        by (rule right_rotate_ok)
      have t3: "is_tree T3 (plug (RF ?m p # RF ?r y # c) ?X)" using 3(2) by simp
      have k3: "kin T3 T" "rbt_null T3 = ?z" "clr T3 = clr T2" using 3(3) kin_trans[OF _ k2(1)] by (simp_all add: alike_def kinD)
      have "get_parent T3 x = Some p" "get_left T3 p = Some (ptr ?z ?m)"
        using node_reads[OF t3] node_reads(3)[of T3 "RF ?r y # c"] t3 k3(2) by simp_all
      then have "delete_right_sibling T x = Some (T3, ptr ?z ?m)"
        using rd R(3) RBCOLOR_RED xp 1(1) 2(1) 3(1) by (simp add: delete_right_sibling_def)
      moreover have "y \<noteq> p" using D(5) Node by auto
      then have "clr T3 p = RBCOLOR_RED" "clr T3 (croot c y) = RBCOLOR_BLACK"
        using root cp[of y] croot_any[of c y p] Node unfolding k3(3) 2(4) 1(4) by (cases "c = []"; simp)+
      ultimately show thesis using t3 k3 Node by (intro that[of T3 ?m "RF ?r y # c"]) (simp_all add: inorder_plug)
    qed
  qed
qed

lemma part_colors:
  assumes T: "is_tree T (plug c s)"
  shows "get_color T (ptr (rbt_null T) (left s)) = Some (clr T (ptr (rbt_null T) (left s)))"
    "get_color T (ptr (rbt_null T) (right s)) = Some (clr T (ptr (rbt_null T) (right s)))"
proof -
  have "get_color T (ptr (rbt_null T) (left s)) = Some (clr T (ptr (rbt_null T) (left s))) \<and>
    get_color T (ptr (rbt_null T) (right s)) = Some (clr T (ptr (rbt_null T) (right s)))"
  proof (cases s)
    case Leaf
    then show ?thesis using null_reads(3)[OF T] by simp
  next
    case (Node l y r)
    then show ?thesis using part_reads(3)[of T "LF y r # c" l] part_reads(3)[of T "RF l y # c" r] T by simp
  qed
  then show "get_color T (ptr (rbt_null T) (left s)) = Some (clr T (ptr (rbt_null T) (left s)))"
    "get_color T (ptr (rbt_null T) (right s)) = Some (clr T (ptr (rbt_null T) (right s)))" by blast+
qed

text \<open>The last step, with one or two rotations.\<close>

lemma left_end_ok:
  assumes T: "is_tree T (plug (LF p s # d) (Node xl x xr))" and s: "s = Leaf \<longrightarrow> clr T (rbt_null T) = RBCOLOR_RED"
  obtains T' t' where "delete_left_end T x (ptr (rbt_null T) s) = Some T'" "is_tree T' t'"
    "inorder t' = inorder (plug (LF p s # d) (Node xl x xr))" "kin T' T"
proof -
  let ?z = "rbt_null T" and ?X = "Node xl x xr"
  have parent: "get_parent U x = Some p" "get_right U p = Some (ptr (rbt_null U) s')"
    if "is_tree U (plug d (Node ?X p s'))" for U s'
    using that node_reads(2)[of U "LF p s' # d" xl x xr] node_reads(4)[OF that] by simp_all
  have Ts: "is_tree T (plug (RF ?X p # d) s)" using T by simp
  note R = part_reads[OF Ts]
  define turn where "turn = (if clr T (ptr ?z (right s)) = RBCOLOR_BLACK
      then do {
        tn \<leftarrow> get_left T (ptr ?z s);
        Ta \<leftarrow> set_color T tn RBCOLOR_BLACK;
        Tb \<leftarrow> set_color Ta (ptr ?z s) RBCOLOR_RED;
        Tc \<leftarrow> right_rotate Tb (ptr ?z s);
        p \<leftarrow> get_parent Tc x;
        temp1 \<leftarrow> get_right Tc p;
        Some (Tc, temp1)
      }
      else Some (T, ptr ?z s))"
  obtain T2 s2 where 2: "turn = Some (T2, ptr ?z s2)" "is_tree T2 (plug d (Node ?X p s2))" "inorder s2 = inorder s" "kin T2 T"
  proof (cases "clr T (ptr ?z (right s))")
    case RBCOLOR_RED
    then show thesis using T by (intro that[of T s]) (simp_all add: turn_def)
  next
    case RBCOLOR_BLACK
    obtain sl y sr where y: "s = Node sl y sr" using s RBCOLOR_BLACK by (cases s) auto
    have Ty: "is_tree T (plug (RF ?X p # d) (Node sl y sr))" using Ts y by simp
    have mem: "ptr ?z sl = ?z \<or> ptr ?z sl \<in> set_tree (plug (RF ?X p # d) (Node sl y sr))" by (cases sl) auto
    obtain Ta where a: "set_color T (ptr ?z sl) RBCOLOR_BLACK = Some Ta" "is_tree Ta (plug (RF ?X p # d) (Node sl y sr))" "kin Ta T"
      by (rule set_color_ok[OF Ty mem])
    obtain Tb where b: "set_color Ta y RBCOLOR_RED = Some Tb" "is_tree Tb (plug (RF ?X p # d) (Node sl y sr))" "kin Tb Ta"
      by (rule color_node[OF a(2)])
    obtain Tc s2 where c: "right_rotate Tb y = Some Tc" "is_tree Tc (plug (RF ?X p # d) s2)" "inorder s2 = inorder (Node sl y sr)" "alike Tc Tb"
      by (rule right_rotate_any[OF b(2)])
    have k: "kin Tc T" "rbt_null Tc = ?z" using c(4) kin_trans[OF _ kin_trans[OF b(3) a(3)]] by (simp_all add: alike_def kinD)
    have "is_tree Tc (plug d (Node ?X p s2))" using c(2) by simp
    then show thesis using parent[of Tc s2] R(1) RBCOLOR_BLACK a(1) b(1) c(1,3) k y
      by (intro that[of Tc s2]) (simp_all add: turn_def)
  qed
  have z2: "rbt_null T2 = ?z" using 2(4) by (rule kinD(1))
  have Ts2: "is_tree T2 (plug (RF ?X p # d) s2)" using 2(2) by simp
  have mem: "ptr ?z s2 = rbt_null T2 \<or> ptr ?z s2 \<in> set_tree (plug d (Node ?X p s2))" using part_reads(4)[OF Ts2] by (auto simp: z2)
  have pc: "get_color T2 p = Some (clr T2 p)" using node_reads(5)[OF 2(2)] .
  obtain T3 where 3: "set_color T2 (ptr ?z s2) (clr T2 p) = Some T3" "is_tree T3 (plug d (Node ?X p s2))" "kin T3 T2"
    by (rule set_color_ok[OF 2(2) mem])
  have z3: "rbt_null T3 = ?z" using 3(3) z2 by (simp add: kinD)
  have Ts3: "is_tree T3 (plug (RF ?X p # d) s2)" using 3(2) by simp
  have tf: "get_right T3 (ptr ?z s2) = Some (ptr ?z (right s2))" using part_reads(2)[OF Ts3] by (simp add: z3)
  have mem3: "ptr ?z (right s2) = rbt_null T3 \<or> ptr ?z (right s2) \<in> set_tree (plug d (Node ?X p s2))" using part_reads(6)[OF Ts3] by (auto simp: z3)
  obtain T4 where 4: "set_color T3 (ptr ?z (right s2)) RBCOLOR_BLACK = Some T4" "is_tree T4 (plug d (Node ?X p s2))" "kin T4 T3"
    by (rule set_color_ok[OF 3(2) mem3])
  obtain T5 where 5: "set_color T4 p RBCOLOR_BLACK = Some T5" "is_tree T5 (plug d (Node ?X p s2))" "kin T5 T4" by (rule color_node[OF 4(2)])
  have k5: "kin T5 T" using kin_trans[OF 5(3) kin_trans[OF 4(3) kin_trans[OF 3(3) 2(4)]]] .
  obtain T6 s6 where 6: "left_rotate T5 p = Some T6" "is_tree T6 (plug d s6)" "inorder s6 = inorder (Node ?X p s2)" "alike T6 T5"
    by (rule left_rotate_any[OF 5(2)])
  have far: "get_right T (ptr ?z s) = Some (ptr ?z (right s))"
    "get_color T (ptr ?z (right s)) = Some (clr T (ptr ?z (right s)))"
    using R(2) part_colors[OF Ts] by simp_all
  have "delete_left_end T x (ptr ?z s) = Option.bind turn (\<lambda>(T2, temp2). do {
       p2 \<leftarrow> get_parent T2 x;
       pc \<leftarrow> get_color T2 p2;
       T3 \<leftarrow> set_color T2 temp2 pc;
       tf2 \<leftarrow> get_right T3 temp2;
       T4 \<leftarrow> set_color T3 tf2 RBCOLOR_BLACK;
       p4 \<leftarrow> get_parent T4 x;
       T5 \<leftarrow> set_color T4 p4 RBCOLOR_BLACK;
       p5 \<leftarrow> get_parent T5 x;
       left_rotate T5 p5 })"
    unfolding delete_left_end_def turn_def far bind.bind_lunit ..
  also have "\<dots> = Some T6"
    using 2(1) parent[OF 2(2)] parent[OF 3(2)] parent[OF 4(2)] parent[OF 5(2)] pc 3(1) tf 4(1) 5(1) 6(1) by simp
  finally have run: "delete_left_end T x (ptr ?z s) = Some T6" .
  show thesis using run 6(2-4) 2(3) kin_trans[OF _ k5] by (intro that[of T6 "plug d s6"]) (simp_all add: inorder_plug alike_def)
qed

lemma right_end_ok:
  assumes T: "is_tree T (plug (RF s p # d) (Node xl x xr))" and s: "s = Leaf \<longrightarrow> clr T (rbt_null T) = RBCOLOR_RED"
  obtains T' t' where "delete_right_end T x (ptr (rbt_null T) s) = Some T'" "is_tree T' t'"
    "inorder t' = inorder (plug (RF s p # d) (Node xl x xr))" "kin T' T"
proof -
  let ?z = "rbt_null T" and ?X = "Node xl x xr"
  have parent: "get_parent U x = Some p" "get_left U p = Some (ptr (rbt_null U) s')"
    if "is_tree U (plug d (Node s' p ?X))" for U s'
    using that node_reads(2)[of U "RF s' p # d" xl x xr] node_reads(3)[OF that] by simp_all
  have Ts: "is_tree T (plug (LF p ?X # d) s)" using T by simp
  note R = part_reads[OF Ts]
  define turn where "turn = (if clr T (ptr ?z (left s)) = RBCOLOR_BLACK
      then do {
        tn \<leftarrow> get_right T (ptr ?z s);
        Ta \<leftarrow> set_color T tn RBCOLOR_BLACK;
        Tb \<leftarrow> set_color Ta (ptr ?z s) RBCOLOR_RED;
        Tc \<leftarrow> left_rotate Tb (ptr ?z s);
        p \<leftarrow> get_parent Tc x;
        temp1 \<leftarrow> get_left Tc p;
        Some (Tc, temp1)
      }
      else Some (T, ptr ?z s))"
  obtain T2 s2 where 2: "turn = Some (T2, ptr ?z s2)" "is_tree T2 (plug d (Node s2 p ?X))" "inorder s2 = inorder s" "kin T2 T"
  proof (cases "clr T (ptr ?z (left s))")
    case RBCOLOR_RED
    then show thesis using T by (intro that[of T s]) (simp_all add: turn_def)
  next
    case RBCOLOR_BLACK
    obtain sl y sr where y: "s = Node sr y sl" using s RBCOLOR_BLACK by (cases s) auto
    have Ty: "is_tree T (plug (LF p ?X # d) (Node sr y sl))" using Ts y by simp
    have mem: "ptr ?z sl = ?z \<or> ptr ?z sl \<in> set_tree (plug (LF p ?X # d) (Node sr y sl))" by (cases sl) auto
    obtain Ta where a: "set_color T (ptr ?z sl) RBCOLOR_BLACK = Some Ta" "is_tree Ta (plug (LF p ?X # d) (Node sr y sl))" "kin Ta T"
      by (rule set_color_ok[OF Ty mem])
    obtain Tb where b: "set_color Ta y RBCOLOR_RED = Some Tb" "is_tree Tb (plug (LF p ?X # d) (Node sr y sl))" "kin Tb Ta"
      by (rule color_node[OF a(2)])
    obtain Tc s2 where c: "left_rotate Tb y = Some Tc" "is_tree Tc (plug (LF p ?X # d) s2)" "inorder s2 = inorder (Node sr y sl)" "alike Tc Tb"
      by (rule left_rotate_any[OF b(2)])
    have k: "kin Tc T" "rbt_null Tc = ?z" using c(4) kin_trans[OF _ kin_trans[OF b(3) a(3)]] by (simp_all add: alike_def kinD)
    have "is_tree Tc (plug d (Node s2 p ?X))" using c(2) by simp
    then show thesis using parent[of Tc s2] R(2) RBCOLOR_BLACK a(1) b(1) c(1,3) k y
      by (intro that[of Tc s2]) (simp_all add: turn_def)
  qed
  have z2: "rbt_null T2 = ?z" using 2(4) by (rule kinD(1))
  have Ts2: "is_tree T2 (plug (LF p ?X # d) s2)" using 2(2) by simp
  have mem: "ptr ?z s2 = rbt_null T2 \<or> ptr ?z s2 \<in> set_tree (plug d (Node s2 p ?X))" using part_reads(4)[OF Ts2] by (auto simp: z2)
  have pc: "get_color T2 p = Some (clr T2 p)" using node_reads(5)[OF 2(2)] .
  obtain T3 where 3: "set_color T2 (ptr ?z s2) (clr T2 p) = Some T3" "is_tree T3 (plug d (Node s2 p ?X))" "kin T3 T2"
    by (rule set_color_ok[OF 2(2) mem])
  have z3: "rbt_null T3 = ?z" using 3(3) z2 by (simp add: kinD)
  obtain T4 where 4: "set_color T3 p RBCOLOR_BLACK = Some T4" "is_tree T4 (plug d (Node s2 p ?X))" "kin T4 T3" by (rule color_node[OF 3(2)])
  have z4: "rbt_null T4 = ?z" using 4(3) z3 by (simp add: kinD)
  have Ts4: "is_tree T4 (plug (LF p ?X # d) s2)" using 4(2) by simp
  have tf: "get_left T4 (ptr ?z s2) = Some (ptr ?z (left s2))" using part_reads(1)[OF Ts4] by (simp add: z4)
  have mem4: "ptr ?z (left s2) = rbt_null T4 \<or> ptr ?z (left s2) \<in> set_tree (plug d (Node s2 p ?X))" using part_reads(5)[OF Ts4] by (auto simp: z4)
  obtain T5 where 5: "set_color T4 (ptr ?z (left s2)) RBCOLOR_BLACK = Some T5" "is_tree T5 (plug d (Node s2 p ?X))" "kin T5 T4"
    by (rule set_color_ok[OF 4(2) mem4])
  have k5: "kin T5 T" using kin_trans[OF 5(3) kin_trans[OF 4(3) kin_trans[OF 3(3) 2(4)]]] .
  obtain T6 s6 where 6: "right_rotate T5 p = Some T6" "is_tree T6 (plug d s6)" "inorder s6 = inorder (Node s2 p ?X)" "alike T6 T5"
    by (rule right_rotate_any[OF 5(2)])
  have far: "get_left T (ptr ?z s) = Some (ptr ?z (left s))"
    "get_color T (ptr ?z (left s)) = Some (clr T (ptr ?z (left s)))"
    using R(1) part_colors[OF Ts] by simp_all
  have "delete_right_end T x (ptr ?z s) = Option.bind turn (\<lambda>(T2, temp2). do {
       p2 \<leftarrow> get_parent T2 x;
       pc \<leftarrow> get_color T2 p2;
       T3 \<leftarrow> set_color T2 temp2 pc;
       p3 \<leftarrow> get_parent T3 x;
       T4 \<leftarrow> set_color T3 p3 RBCOLOR_BLACK;
       tf2 \<leftarrow> get_left T4 temp2;
       T5 \<leftarrow> set_color T4 tf2 RBCOLOR_BLACK;
       p5 \<leftarrow> get_parent T5 x;
       right_rotate T5 p5 })"
    unfolding delete_right_end_def turn_def far bind.bind_lunit ..
  also have "\<dots> = Some T6"
    using 2(1) parent[OF 2(2)] parent[OF 3(2)] parent[OF 4(2)] parent[OF 5(2)] pc 3(1) tf 4(1) 5(1) 6(1) by simp
  finally have run: "delete_right_end T x (ptr ?z s) = Some T6" .
  show thesis using run 6(2-4) 2(3) kin_trans[OF _ k5] by (intro that[of T6 "plug d s6"]) (simp_all add: inorder_plug alike_def)
qed

text \<open>
  The loop has risen to \<open>node\<close>: it is the root, or red so that the loop ends, or at most \<open>h\<close> links
  below the root.
\<close>

definition risen :: "T_RBTree \<Rightarrow> nat \<Rightarrow> addr tree \<Rightarrow> T_RBTree \<Rightarrow> addr \<Rightarrow> bool" where
  "risen T h t T1 node \<longleftrightarrow> (\<exists>c l r. is_tree T1 (plug c (Node l node r)) \<and> inorder (plug c (Node l node r)) = inorder t \<and> kin T1 T \<and>
     (c \<noteq> [] \<longrightarrow> clr T1 (croot c node) = RBCOLOR_BLACK) \<and> (c = [] \<or> clr T1 node = RBCOLOR_RED \<or> length c \<le> h))"

lemma risenI:
  "is_tree T1 (plug c (Node l node r)) \<Longrightarrow> inorder (plug c (Node l node r)) = inorder t \<Longrightarrow> kin T1 T \<Longrightarrow>
   (c \<noteq> [] \<longrightarrow> clr T1 (croot c node) = RBCOLOR_BLACK) \<Longrightarrow> c = [] \<or> clr T1 node = RBCOLOR_RED \<or> length c \<le> h \<Longrightarrow> risen T h t T1 node"
  unfolding risen_def by blast

lemma left_case_ok:
  assumes T: "is_tree T (plug (LF p s # c) (Node xl x xr))" and root: "c \<noteq> [] \<longrightarrow> clr T (croot c p) = RBCOLOR_BLACK"
  shows "\<exists>T1 node. delete_left_case T x = Some (T1, node) \<and> risen T (length c) (plug (LF p s # c) (Node xl x xr)) T1 node"
proof -
  let ?z = "rbt_null T" and ?X = "Node xl x xr" and ?t = "plug (LF p s # c) (Node xl x xr)"
  obtain T1 d s1 where 1: "delete_left_sibling T x = Some (T1, ptr ?z s1)" "is_tree T1 (plug (LF p s1 # d) ?X)"
    "inorder (plug (LF p s1 # d) ?X) = inorder ?t" "kin T1 T" "d \<noteq> [] \<longrightarrow> clr T1 (croot d p) = RBCOLOR_BLACK"
    "d = c \<or> clr T1 p = RBCOLOR_RED" by (rule left_sibling_ok[OF T root])
  have z1: "rbt_null T1 = ?z" using 1(4) by (rule kinD(1))
  have Ts: "is_tree T1 (plug (RF ?X p # d) s1)" using 1(2) by simp
  note R = part_reads[OF Ts, unfolded z1] and C = part_colors[OF Ts, unfolded z1]
  let ?n = "ptr ?z (left s1)" and ?f = "ptr ?z (right s1)"
  have run: "delete_left_case T x = (if clr T1 ?n = RBCOLOR_BLACK \<and> clr T1 ?f = RBCOLOR_BLACK
      then do { T2 \<leftarrow> set_color T1 (ptr ?z s1) RBCOLOR_RED; node1 \<leftarrow> get_parent T2 x; Some (T2, node1) }
      else do { T2 \<leftarrow> delete_left_end T1 x (ptr ?z s1); Some (T2, rbt_root T2) })"
    by (simp add: delete_left_case_def 1(1) R C)
  show ?thesis
  proof (cases "clr T1 ?n = RBCOLOR_BLACK \<and> clr T1 ?f = RBCOLOR_BLACK")
    case True
    have mem: "ptr ?z s1 = rbt_null T1 \<or> ptr ?z s1 \<in> set_tree (plug (LF p s1 # d) ?X)" using R(4) z1 by auto
    obtain T2 where 2: "set_color T1 (ptr ?z s1) RBCOLOR_RED = Some T2" "is_tree T2 (plug (LF p s1 # d) ?X)" "kin T2 T1"
      "clr T2 = (clr T1)(ptr ?z s1 := RBCOLOR_RED)" by (rule set_color_ok[OF 1(2) mem])
    have "get_parent T2 x = Some p" using node_reads(2)[OF 2(2)] by simp
    then have "delete_left_case T x = Some (T2, p)" unfolding run using True 2(1) by simp
    moreover have "croot d p \<noteq> ptr ?z s1" if "d \<noteq> []"
      using croot_in[OF that, of p] is_tree_plugD(5,8)[OF 1(2)] z1 by (cases s1) auto
    then have "d \<noteq> [] \<longrightarrow> clr T2 (croot d p) = RBCOLOR_BLACK" using 1(5) unfolding 2(4) by simp
    moreover have "d = c \<or> clr T2 p = RBCOLOR_RED" using 1(6) unfolding 2(4) by auto
    ultimately show ?thesis using 2(2) 1(3) kin_trans[OF 2(3) 1(4)] risenI[of T2 d ?X p s1 ?t T "length c"]
      by auto
  next
    case False
    have "s1 = Leaf \<longrightarrow> clr T1 (rbt_null T1) = RBCOLOR_RED"
    proof
      assume "s1 = Leaf"
      then have "clr T1 ?z \<noteq> RBCOLOR_BLACK" using False by simp
      then show "clr T1 (rbt_null T1) = RBCOLOR_RED" unfolding z1 by (cases "clr T1 ?z") simp_all
    qed
    then obtain T2 t2 where 2: "delete_left_end T1 x (ptr (rbt_null T1) s1) = Some T2" "is_tree T2 t2"
      "inorder t2 = inorder (plug (LF p s1 # d) ?X)" "kin T2 T1" by (rule left_end_ok[OF 1(2)])
    have "delete_left_case T x = Some (T2, rbt_root T2)" unfolding run if_not_P[OF False] using 2(1) z1 by simp
    moreover have "t2 \<noteq> Leaf" using 2(3) by (auto simp: inorder_plug)
    then obtain l a r where "t2 = Node l a r" by (cases t2) auto
    moreover have "rbt_root T2 = a" using 2(2) \<open>t2 = Node l a r\<close> by (simp add: is_tree_def)
    ultimately show ?thesis using 2(2,3) 1(3) kin_trans[OF 2(4) 1(4)] risenI[of T2 "[]" l a r ?t T "length c"] by simp
  qed
qed

lemma right_case_ok:
  assumes T: "is_tree T (plug (RF s p # c) (Node xl x xr))" and root: "c \<noteq> [] \<longrightarrow> clr T (croot c p) = RBCOLOR_BLACK"
  shows "\<exists>T1 node. delete_right_case T x = Some (T1, node) \<and> risen T (length c) (plug (RF s p # c) (Node xl x xr)) T1 node"
proof -
  let ?z = "rbt_null T" and ?X = "Node xl x xr" and ?t = "plug (RF s p # c) (Node xl x xr)"
  obtain T1 d s1 where 1: "delete_right_sibling T x = Some (T1, ptr ?z s1)" "is_tree T1 (plug (RF s1 p # d) ?X)"
    "inorder (plug (RF s1 p # d) ?X) = inorder ?t" "kin T1 T" "d \<noteq> [] \<longrightarrow> clr T1 (croot d p) = RBCOLOR_BLACK"
    "d = c \<or> clr T1 p = RBCOLOR_RED" by (rule right_sibling_ok[OF T root])
  have z1: "rbt_null T1 = ?z" using 1(4) by (rule kinD(1))
  have Ts: "is_tree T1 (plug (LF p ?X # d) s1)" using 1(2) by simp
  note R = part_reads[OF Ts, unfolded z1] and C = part_colors[OF Ts, unfolded z1]
  let ?n = "ptr ?z (right s1)" and ?f = "ptr ?z (left s1)"
  have run: "delete_right_case T x = (if clr T1 ?n = RBCOLOR_BLACK \<and> clr T1 ?f = RBCOLOR_BLACK
      then do { T2 \<leftarrow> set_color T1 (ptr ?z s1) RBCOLOR_RED; node1 \<leftarrow> get_parent T2 x; Some (T2, node1) }
      else do { T2 \<leftarrow> delete_right_end T1 x (ptr ?z s1); Some (T2, rbt_root T2) })"
    by (simp add: delete_right_case_def 1(1) R C)
  show ?thesis
  proof (cases "clr T1 ?n = RBCOLOR_BLACK \<and> clr T1 ?f = RBCOLOR_BLACK")
    case True
    have mem: "ptr ?z s1 = rbt_null T1 \<or> ptr ?z s1 \<in> set_tree (plug (RF s1 p # d) ?X)" using R(4) z1 by auto
    obtain T2 where 2: "set_color T1 (ptr ?z s1) RBCOLOR_RED = Some T2" "is_tree T2 (plug (RF s1 p # d) ?X)" "kin T2 T1"
      "clr T2 = (clr T1)(ptr ?z s1 := RBCOLOR_RED)" by (rule set_color_ok[OF 1(2) mem])
    have "get_parent T2 x = Some p" using node_reads(2)[OF 2(2)] by simp
    then have "delete_right_case T x = Some (T2, p)" unfolding run using True 2(1) by simp
    moreover have "croot d p \<noteq> ptr ?z s1" if "d \<noteq> []"
      using croot_in[OF that, of p] is_tree_plugD(5,8)[OF 1(2)] z1 by (cases s1) auto
    then have "d \<noteq> [] \<longrightarrow> clr T2 (croot d p) = RBCOLOR_BLACK" using 1(5) unfolding 2(4) by simp
    moreover have "d = c \<or> clr T2 p = RBCOLOR_RED" using 1(6) unfolding 2(4) by auto
    ultimately show ?thesis using 2(2) 1(3) kin_trans[OF 2(3) 1(4)] risenI[of T2 d s1 p ?X ?t T "length c"]
      by auto
  next
    case False
    have "s1 = Leaf \<longrightarrow> clr T1 (rbt_null T1) = RBCOLOR_RED"
    proof
      assume "s1 = Leaf"
      then have "clr T1 ?z \<noteq> RBCOLOR_BLACK" using False by simp
      then show "clr T1 (rbt_null T1) = RBCOLOR_RED" unfolding z1 by (cases "clr T1 ?z") simp_all
    qed
    then obtain T2 t2 where 2: "delete_right_end T1 x (ptr (rbt_null T1) s1) = Some T2" "is_tree T2 t2"
      "inorder t2 = inorder (plug (RF s1 p # d) ?X)" "kin T2 T1" by (rule right_end_ok[OF 1(2)])
    have "delete_right_case T x = Some (T2, rbt_root T2)" unfolding run if_not_P[OF False] using 2(1) z1 by simp
    moreover have "t2 \<noteq> Leaf" using 2(3) by (auto simp: inorder_plug)
    then obtain l a r where "t2 = Node l a r" by (cases t2) auto
    moreover have "rbt_root T2 = a" using 2(2) \<open>t2 = Node l a r\<close> by (simp add: is_tree_def)
    ultimately show ?thesis using 2(2,3) 1(3) kin_trans[OF 2(4) 1(4)] risenI[of T2 "[]" l a r ?t T "length c"] by simp
  qed
qed

subsection \<open>The loop\<close>

lemma delete_fixup_end:
  assumes T: "is_tree T (plug c (Node xl x xr))" and stop: "c = [] \<or> clr T x = RBCOLOR_RED"
    and root: "c \<noteq> [] \<longrightarrow> clr T (croot c x) = RBCOLOR_BLACK"
  obtains T' where "delete_fixup T x = Some T'" "is_tree T' (plug c (Node xl x xr))" "kin T' T" "clr T' (rbt_root T') = RBCOLOR_BLACK"
proof -
  obtain T' where 1: "set_color T x RBCOLOR_BLACK = Some T'" "is_tree T' (plug c (Node xl x xr))" "kin T' T"
    "clr T' = (clr T)(x := RBCOLOR_BLACK)" by (rule color_node[OF T])
  have "rbt_root T = croot c x" "rbt_root T' = croot c x" using is_tree_plugD(3)[OF T] is_tree_plugD(3)[OF 1(2)] by simp_all
  moreover have "get_color T x = Some (clr T x)" using node_reads(5)[OF T] .
  ultimately have "delete_fixup T x = Some T'" using stop 1(1) by (subst delete_fixup.simps) auto
  moreover have "clr T' (rbt_root T') = RBCOLOR_BLACK" using root 1(4) \<open>rbt_root T' = croot c x\<close> by (cases "c = []") simp_all
  ultimately show thesis using 1(2,3) by (intro that)
qed

lemma delete_fixup_ok:
  assumes "is_tree T (plug c (Node xl x xr))" "c \<noteq> [] \<longrightarrow> clr T (croot c x) = RBCOLOR_BLACK"
  shows "\<exists>T' t'. delete_fixup T x = Some T' \<and> is_tree T' t' \<and> inorder t' = inorder (plug c (Node xl x xr)) \<and> kin T' T \<and>
    clr T' (rbt_root T') = RBCOLOR_BLACK"
  using assms
proof (induction "if c = [] \<or> clr T x = RBCOLOR_RED then 0 else Suc (length c)" arbitrary: c T xl x xr rule: less_induct)
  case less
  note T = less.prems(1) and root = less.prems(2)
  show ?case
  proof (cases "c = [] \<or> clr T x = RBCOLOR_RED")
    case True
    then show ?thesis by (rule delete_fixup_end[OF T _ root]) blast
  next
    case False
    then obtain f c1 where c: "c = f # c1" by (cases c) auto
    note D = is_tree_plugD[OF T]
    have go: "x \<noteq> rbt_root T" using D(3,6) croot_in[of c x] False by auto
    have col: "get_color T x = Some RBCOLOR_BLACK" using node_reads(5)[OF T] False by (cases "clr T x") auto
    have par: "get_parent T x = Some (faddr f)" using node_reads(2)[OF T] c by simp
    have r1: "c1 \<noteq> [] \<longrightarrow> clr T (croot c1 (faddr f)) = RBCOLOR_BLACK" using root c by simp
    obtain pl T1 node where S: "get_left T (faddr f) = Some pl"
      "(if pl = x then delete_left_case T x else delete_right_case T x) = Some (T1, node)"
      "risen T (length c1) (plug c (Node xl x xr)) T1 node"
    proof (cases f)
      case (LF p s)
      have "get_left T p = Some x" using node_reads(3)[of T c1] T c LF by simp
      then show thesis using left_case_ok[of T p s c1 xl x xr] T c r1 LF that by auto
    next
      case (RF s p)
      have "get_left T p = Some (ptr (rbt_null T) s)" using node_reads(3)[of T c1] T c RF by simp
      moreover have "ptr (rbt_null T) s \<noteq> x" using D(6,7) c RF by (cases s) auto
      ultimately show thesis using right_case_ok[of T s p c1 xl x xr] T c r1 RF that by auto
    qed
    have run: "delete_fixup T x = delete_fixup T1 node"
      by (subst delete_fixup.simps) (simp add: go col par S(1,2) del: if_split)
    obtain c2 l r where N: "is_tree T1 (plug c2 (Node l node r))" "inorder (plug c2 (Node l node r)) = inorder (plug c (Node xl x xr))"
      "kin T1 T" "c2 \<noteq> [] \<longrightarrow> clr T1 (croot c2 node) = RBCOLOR_BLACK" "c2 = [] \<or> clr T1 node = RBCOLOR_RED \<or> length c2 \<le> length c1"
      using S(3) unfolding risen_def by blast
    have "(if c2 = [] \<or> clr T1 node = RBCOLOR_RED then 0 else Suc (length c2)) < (if c = [] \<or> clr T x = RBCOLOR_RED then 0 else Suc (length c))"
      using False N(5) c by auto
    from less.hyps[OF this N(1,4)] show ?thesis using run N(2) kin_trans[OF _ N(3)] by auto
  qed
qed

subsection \<open>The whole removal\<close>

lemma leftmost_part:
  assumes "is_tree T (plug c (Node l x r))"
  obtains c2 s sr where "leftmost T x = Some s" "Node l x r = plug c2 (Node Leaf s sr)"
  using assms
proof (induction l arbitrary: c x r thesis)
  case Leaf
  have "leftmost T x = Some x" using leftmost_ok[OF Leaf.prems(2)] by simp
  then show ?case by (rule Leaf.prems(1)[of x "[]" r]) simp
next
  case (Node ll a lr)
  have T: "is_tree T (plug (LF x r # c) (Node ll a lr))" using Node.prems(2) by simp
  obtain c2 s sr where 1: "leftmost T a = Some s" "Node ll a lr = plug c2 (Node Leaf s sr)" by (rule Node.IH(1)[OF _ T])
  have "leftmost T x = leftmost T a"
    using node_reads(3)[OF Node.prems(2)] node_reads(1)[OF T] by (subst leftmost.simps) simp
  then show ?case using 1 by (intro Node.prems(1)[of s "c2 @ [LF x r]" sr]) (simp_all add: plug_snoc)
qed

text \<open>After the node is out: \<open>child\<close> is the part that took the place of the unlinked node.\<close>

definition erase_rest :: "T_RBTree \<Rightarrow> addr \<Rightarrow> addr \<Rightarrow> T_RBTree option" where
  "erase_rest T3 succ child =
     do {
       c \<leftarrow> get_color T3 succ;
       if c = RBCOLOR_BLACK
       then do {
         T4 \<leftarrow> (if child \<noteq> rbt_null T3 then delete_fixup T3 child else Some T3);
         set_color T4 (rbt_null T3) RBCOLOR_BLACK
       }
       else Some T3
     }"

lemma erase_rest_ok:
  assumes T: "is_tree T (plug c m)" and root: "clr T (rbt_root T) = RBCOLOR_BLACK \<or> c = [] \<and> (m = Leaf \<or> k = RBCOLOR_BLACK)"
    and z: "clr T (rbt_null T) = RBCOLOR_BLACK" and k: "get_color T s = Some k"
  obtains T' t' where "erase_rest T s (ptr (rbt_null T) m) = Some T'" "is_tree T' t'" "inorder t' = inorder (plug c m)" "kin T' T"
    "clr T' (rbt_null T) = RBCOLOR_BLACK" "clr T' (rbt_root T') = RBCOLOR_BLACK"
proof -
  let ?z = "rbt_null T"
  note D = is_tree_plugD[OF T]
  have rz: "clr T (rbt_root T) = RBCOLOR_BLACK \<or> k = RBCOLOR_BLACK \<and> c = [] \<and> m \<noteq> Leaf" using root z D(3) by auto
  show thesis
  proof (cases "k = RBCOLOR_BLACK")
    case False
    then have "erase_rest T s (ptr ?z m) = Some T" using k by (simp add: erase_rest_def)
    then show thesis using T z rz False by (intro that[of T]) auto
  next
    case True
    obtain T4 t4 where 4: "(if ptr ?z m \<noteq> ?z then delete_fixup T (ptr ?z m) else Some T) = Some T4" "is_tree T4 t4"
      "inorder t4 = inorder (plug c m)" "kin T4 T" "clr T4 (rbt_root T4) = RBCOLOR_BLACK"
    proof (cases m)
      case Leaf
      then show thesis using T rz by (intro that[of T]) auto
    next
      case (Node l x r)
      have "c \<noteq> [] \<longrightarrow> clr T (croot c x) = RBCOLOR_BLACK" using rz D(3) Node by auto
      then show thesis using delete_fixup_ok[of T c l x r] T D(7) Node that by auto
    qed
    have z4: "rbt_null T4 = ?z" using 4(4) by (rule kinD(1))
    have "?z = rbt_null T4 \<or> ?z \<in> set_tree t4" using z4 by simp
    then obtain T5 where 5: "set_color T4 ?z RBCOLOR_BLACK = Some T5" "is_tree T5 t4" "kin T5 T4" "clr T5 = (clr T4)(?z := RBCOLOR_BLACK)"
      "rbt_root T5 = rbt_root T4" by (rule set_color_ok[OF 4(2)])
    have "erase_rest T s (ptr ?z m) = Some T5" using k True 4(1) 5(1) by (simp add: erase_rest_def split del: if_split)
    then show thesis using 5 4(3,5) kin_trans[OF 5(3) 4(4)] by (intro that[of T5 t4]) simp_all
  qed
qed

lemma erase_run:
  assumes "get_left T x = Some l" "get_right T x = Some r"
    "(if l = rbt_null T \<or> r = rbt_null T then Some x else leftmost T r) = Some s"
    "get_left T s = Some sl" "get_right T s = Some sr" "(if sl \<noteq> rbt_null T then sl else sr) = child" "get_parent T s = Some par"
    "set_parent T child par = Some T1" "relink T1 par s child = Some T2" "(if s \<noteq> x then erase_replace T2 x s else Some T2) = Some T3"
    "rbt_null T3 = rbt_null T" "erase_rest T3 s child = Some T'"
  shows "RBTREE_Erase T x = Some (T'\<lparr>rbt_size := sub32 (rbt_size T') 1\<rparr>, x)"
proof -
  obtain k where k: "get_color T3 s = Some k" using assms(12) by (cases "get_color T3 s") (simp_all add: erase_rest_def)
  then show ?thesis
    unfolding RBTREE_Erase_def assms(1,2) bind.bind_lunit assms(3) assms(4,5) Let_def assms(6,7) assms(8,9,10)
    using assms(11,12) by (cases k; cases "delete_fixup T3 child") (auto simp: erase_rest_def split: if_splits)
qed

lemma kin_node: "kin T' T \<Longrightarrow> rbt_nodes T a = Some n \<Longrightarrow> \<exists>n'. rbt_nodes T' a = Some n'"
  by (cases "rbt_nodes T' a") (auto simp: kin_def dest: spec[of _ a])

lemma color_read: "rbt_nodes T a = Some n \<Longrightarrow> get_color T a = Some (clr T a)"
  by (simp add: getters clr_def)

lemma erase_ok:
  assumes T: "is_tree T (plug c (Node l x r))" and z: "clr T (rbt_null T) = RBCOLOR_BLACK" and root: "clr T (rbt_root T) = RBCOLOR_BLACK"
  obtains T' t' where "RBTREE_Erase T x = Some (T'\<lparr>rbt_size := sub32 (rbt_size T') 1\<rparr>, x)" "is_tree T' t'"
    "inorder t' = cbefore c @ inorder l @ inorder r @ cbehind c" "kin T' T"
    "clr T' (rbt_null T) = RBCOLOR_BLACK" "clr T' (rbt_root T') = RBCOLOR_BLACK"
proof (cases "l = Leaf \<or> r = Leaf")
  case True
  let ?z = "rbt_null T" and ?m = "if l = Leaf then r else l"
  note D = is_tree_plugD[OF T] and R = node_reads[OF T]
  have m: "l = Leaf \<and> ?m = r \<or> r = Leaf \<and> ?m = l" using True by auto
  obtain T1 T2 where 1: "set_parent T (ptr ?z ?m) (cpar ?z c) = Some T1" "relink T1 (cpar ?z c) x (ptr ?z ?m) = Some T2"
    "is_tree T2 (plug c ?m)" "alike T2 T" by (rule rb_unlink_ok[OF T m])
  have z2: "rbt_null T2 = ?z" using 1(4) by (rule alike_null)
  have c2: "clr T2 = clr T" "kin T2 T" using 1(4) by (simp_all add: alike_def)
  have lz: "ptr ?z l = ?z \<longleftrightarrow> l = Leaf" "ptr ?z r = ?z \<longleftrightarrow> r = Leaf" using D(7) by (cases l; cases r; auto)+
  have rr: "rbt_root T2 = croot c (ptr ?z ?m)" "rbt_root T = croot c x" using is_tree_plugD(3)[OF 1(3)] D(3) z2 by simp_all
  have col: "get_color T2 x = Some (clr T x)"
  proof -
    have "\<exists>n. rbt_nodes T x = Some n" using D(2) by auto
    then obtain n where "rbt_nodes T2 x = Some n" using kin_node[OF c2(2)] by blast
    then show ?thesis using color_read c2(1) by simp
  qed
  have "clr T2 (rbt_root T2) = RBCOLOR_BLACK \<or> c = [] \<and> (?m = Leaf \<or> clr T x = RBCOLOR_BLACK)"
    using root rr croot_any[of c "ptr ?z ?m" x] c2(1) by (cases "c = []") simp_all
  moreover have "clr T2 (rbt_null T2) = RBCOLOR_BLACK" using z c2 z2 by simp
  ultimately obtain T' t' where 2: "erase_rest T2 x (ptr (rbt_null T2) ?m) = Some T'" "is_tree T' t'" "inorder t' = inorder (plug c ?m)" "kin T' T2"
    "clr T' (rbt_null T2) = RBCOLOR_BLACK" "clr T' (rbt_root T') = RBCOLOR_BLACK" by (rule erase_rest_ok[OF 1(3) _ _ col])
  have "RBTREE_Erase T x = Some (T'\<lparr>rbt_size := sub32 (rbt_size T') 1\<rparr>, x)"
    using erase_run[OF R(3,4) _ R(3,4) _ R(2) 1(1,2) _ z2] 2(1) True lz z2 by auto
  then show thesis using 2(2-6) True kin_trans[OF 2(4) c2(2)] z2 by (intro that[of T' t']) (auto simp: inorder_plug)
next
  case False
  let ?z = "rbt_null T"
  obtain rl a rr where r: "r = Node rl a rr" using False by (cases r) auto
  note D = is_tree_plugD[OF T] and R = node_reads[OF T]
  have Tr: "is_tree T (plug (RF l x # c) (Node rl a rr))" using T r by simp
  obtain c2 s sr where s: "leftmost T a = Some s" "Node rl a rr = plug c2 (Node Leaf s sr)" by (rule leftmost_part[OF Tr])
  let ?c = "c2 @ RF l x # c"
  have Ts: "is_tree T (plug ?c (Node Leaf s sr))" using Tr s(2) by (simp add: plug_append)
  note Rs = node_reads[OF Ts] and Ds = is_tree_plugD[OF Ts]
  obtain T1 T2 where 1: "set_parent T (ptr ?z sr) (cpar ?z ?c) = Some T1" "relink T1 (cpar ?z ?c) s (ptr ?z sr) = Some T2"
    "is_tree T2 (plug ?c sr)" "alike T2 T" by (rule rb_unlink_ok[OF Ts]) auto
  have z2: "rbt_null T2 = ?z" using 1(4) by (rule alike_null)
  have c2': "clr T2 = clr T" "kin T2 T" using 1(4) by (simp_all add: alike_def)
  have T2: "is_tree T2 (plug c (Node l x (plug c2 sr)))" using 1(3) by (simp add: plug_append)
  have sn: "s \<notin> set_tree (plug c (Node l x (plug c2 sr)))" "s \<noteq> ?z" "s \<noteq> x"
    using Ds(4,6,7) by (auto simp: plug_append)
  obtain ns where ns: "rbt_nodes T2 s = Some ns"
  proof -
    have "\<exists>n. rbt_nodes T s = Some n" using Ds(2) by auto
    then show thesis using kin_node[OF c2'(2)] that by blast
  qed
  have "s \<noteq> rbt_null T2" using sn(2) z2 by simp
  then obtain T3 where 3: "erase_replace T2 x s = Some T3" "is_tree T3 (plug c (Node l s (plug c2 sr)))" "kin T3 T2" "clr T3 = (clr T2)(s := clr T2 x)"
    using sn(1) by (rule erase_replace_ok[OF T2 ns])
  have z3: "rbt_null T3 = ?z" using 3(3) z2 by (simp add: kinD)
  have T3: "is_tree T3 (plug (c2 @ RF l s # c) sr)" using 3(2) by (simp add: plug_append)
  have rt: "rbt_root T3 = croot c s" "rbt_root T = croot c x" using is_tree_plugD(3)[OF 3(2)] D(3) by simp_all
  have "clr T3 (rbt_root T3) = RBCOLOR_BLACK"
  proof (cases "c = []")
    case True
    then show ?thesis using rt root c2'(1) unfolding 3(4) by simp
  next
    case ne: False
    have "croot c s \<noteq> s" using croot_in[OF ne, of s] sn(1) by auto
    then show ?thesis using rt root c2'(1) croot_any[OF ne, of x s] unfolding 3(4) by simp
  qed
  moreover have "clr T3 (rbt_null T3) = RBCOLOR_BLACK" using z sn(2) unfolding 3(4) c2'(1) z3 by simp
  moreover have "get_color T3 s = Some (clr T3 s)" using node_reads(5)[OF 3(2)] .
  ultimately obtain T' t' where 4: "erase_rest T3 s (ptr (rbt_null T3) sr) = Some T'" "is_tree T' t'" "inorder t' = inorder (plug (c2 @ RF l s # c) sr)"
    "kin T' T3" "clr T' (rbt_null T3) = RBCOLOR_BLACK" "clr T' (rbt_root T') = RBCOLOR_BLACK"
    using erase_rest_ok[OF T3, of "clr T3 s" s] by blast
  have "ptr ?z l \<noteq> ?z" "ptr ?z r \<noteq> ?z" "ptr ?z r = a" using False D(7) r by (cases l; auto)+
  then have "RBTREE_Erase T x = Some (T'\<lparr>rbt_size := sub32 (rbt_size T') 1\<rparr>, x)"
    using erase_run[OF R(3,4) _ Rs(3,4) _ Rs(2) 1(1,2) _ z3] s(1) 3(1) 4(1) sn(3) z3 by simp
  moreover have "kin T' T" using kin_trans[OF 4(4) kin_trans[OF 3(3) c2'(2)]] .
  moreover have ir: "inorder r = cbefore c2 @ s # inorder sr @ cbehind c2" using arg_cong[OF s(2), of inorder] r by (simp add: inorder_plug)
  moreover have "cbefore c2 = []"
  proof (rule ccontr)
    assume ne: "cbefore c2 \<noteq> []"
    have "s = hd (inorder r)" using s(1) leftmost_ok[OF Tr] r by (auto simp: hd_append)
    then have "s \<in> set (cbefore c2)" using ne ir by (simp add: hd_append)
    then show False using Ds(6) set_cnodes[of c2] by auto
  qed
  ultimately show thesis using 4(2,3,5,6) z3 by (intro that[of T' t']) (auto simp: inorder_plug plug_append)
qed

lemma sub32_Suc: "sub32 (u32 (Suc n)) 1 = u32 n"
proof -
  have "sub32 (u32 (Suc n)) 1 = (Suc n mod 2 ^ 32 + (2 ^ 32 - 1)) mod 2 ^ 32" by (simp add: sub32_def u32_def)
  also have "\<dots> = (Suc n + (2 ^ 32 - 1)) mod 2 ^ 32" by (rule mod_add_left_eq)
  also have "\<dots> = (n + 2 ^ 32) mod 2 ^ 32" by (rule arg_cong[of _ _ "\<lambda>k. k mod 2 ^ 32"]) simp
  finally show ?thesis by (simp add: u32_def)
qed

lemma erase_valid:
  fixes f :: "addr \<Rightarrow> 'k :: linorder"
  assumes valid: "rb_valid f T t" and x: "inorder t = as @ x # bs"
  shows "\<exists>T' t'. RBTREE_Erase T x = Some (T', x) \<and> inorder t' = as @ bs \<and> rb_valid f T' t' \<and> rbt_null T' = rbt_null T \<and> ky T' = ky T"
proof -
  note V = rb_validD[OF valid]
  have "x \<in> set_tree t" using x by (simp flip: set_inorder)
  then obtain c l r where c: "t = plug c (Node l x r)" using focus by blast
  have "distinct (as @ x # bs)" using V(1) x by (simp add: is_tree_def)
  moreover have "as @ x # bs = (cbefore c @ inorder l) @ x # (inorder r @ cbehind c)" using x c by (simp add: inorder_plug)
  ultimately have ab: "as = cbefore c @ inorder l" "bs = inorder r @ cbehind c" by (rule inorder_split)+
  obtain T' t' where E: "RBTREE_Erase T x = Some (T'\<lparr>rbt_size := sub32 (rbt_size T') 1\<rparr>, x)" "is_tree T' t'"
    "inorder t' = cbefore c @ inorder l @ inorder r @ cbehind c" "kin T' T"
    "clr T' (rbt_null T) = RBCOLOR_BLACK" "clr T' (rbt_root T') = RBCOLOR_BLACK" by (rule erase_ok[OF V(1)[unfolded c] V(4,5)])
  let ?T = "T'\<lparr>rbt_size := sub32 (rbt_size T') 1\<rparr>"
  have t': "inorder t' = as @ bs" using E(3) ab by simp
  have k: "rbt_null T' = rbt_null T" "rbt_comp T' = rbt_comp T" "rbt_size T' = rbt_size T" "ky T' = ky T"
    using E(4) kin_ky by (simp_all add: kinD)
  have "sorted_wrt (\<lambda>a b. f (ky T a) < f (ky T b)) (inorder t')" using V(3) unfolding t' x by (auto simp: sorted_wrt_append)
  moreover have "sub32 (u32 (length (inorder t))) 1 = u32 (length (inorder t'))"
    unfolding t' x using sub32_Suc[of "length as + length bs"] by simp
  moreover have "0 \<notin> set (inorder t)" using V(7) by simp
  then have "0 \<notin> set (inorder t')" unfolding t' x by simp
  then have "0 \<notin> set_tree t'" by simp
  ultimately have "rb_valid f ?T t'" using V E(2,5,6) k by (simp add: rb_valid_def del: length_inorder)
  then show ?thesis using E(1) t' k(1,4) by (intro exI[of _ ?T] exI[of _ t']) simp
qed

text \<open>C15: removal. Erasing a node of a valid tree ends and gives the node back; the tree that is left
  is valid, has all the other nodes in their order with their keys, and one node less.\<close>

theorem RBTREE_Erase_ok:
  fixes f :: "addr \<Rightarrow> 'k :: linorder"
  assumes valid: "rb_valid f T t" and x: "inorder t = as @ x # bs"
  shows "\<exists>T' t'. RBTREE_Erase T x = Some (T', x) \<and> inorder t' = as @ bs \<and> rb_valid f T' t' \<and> rbt_null T' = rbt_null T \<and> ky T' = ky T"
  by (rule erase_valid[OF assms])

lemma RBTREE_Erase_ok_witness:
  "\<exists>T' t'. RBTREE_Erase (ex_rb RBCOLOR_RED) 16 = Some (T', 16) \<and> inorder t' = [8, 24] \<and> rb_valid id T' t'"
  using RBTREE_Erase_ok[OF ex_valid[of RBCOLOR_RED], of "[8]" 16 "[24]"] by (auto simp: ex_reads)


subsection \<open>Every tree in use is valid\<close>

text \<open>
  The states of a tree from its creation on, by insertions of nodes that are not in the tree and
  removals of nodes that are.
\<close>

inductive rb_run :: "(addr \<Rightarrow> T_RBTreeNode option) \<Rightarrow> addr \<Rightarrow> RBTREE_COMP \<Rightarrow> T_RBTree \<Rightarrow> bool" for nodes z cmp where
  init: "rb_run nodes z cmp (RBTREE_Init nodes z cmp)"
| insert: "rb_run nodes z cmp T \<Longrightarrow> is_tree T t \<Longrightarrow> e \<notin> set_tree t \<Longrightarrow> e \<noteq> z \<Longrightarrow> e \<noteq> 0 \<Longrightarrow> RBTREE_Insert T e = Some (T', status) \<Longrightarrow>
    rb_run nodes z cmp T'"
| erase: "rb_run nodes z cmp T \<Longrightarrow> is_tree T t \<Longrightarrow> x \<in> set_tree t \<Longrightarrow> RBTREE_Erase T x = Some (T', y) \<Longrightarrow> rb_run nodes z cmp T'"

lemma shape_unique: "shape H z p t \<Longrightarrow> shape H z p t' \<Longrightarrow> ptr z t = ptr z t' \<Longrightarrow> t = t'"
proof (induction t arbitrary: t' p)
  case Leaf
  then show ?case by (cases t') auto
next
  case (Node l a r)
  then obtain l' r' where "t' = Node l' a r'" by (cases t') auto
  with Node show ?case by auto
qed

lemma is_tree_unique: "is_tree T t \<Longrightarrow> is_tree T t' \<Longrightarrow> t = t'"
  using shape_unique unfolding is_tree_def by metis

lemma RBTREE_Init_valid:
  assumes "comp_ok cmp f"
  shows "rb_valid f (RBTREE_Init nodes z cmp) Leaf" "rb_colored (RBTREE_Init nodes z cmp) Leaf"
  using assms by (simp_all add: rb_valid_def rb_colored_def is_tree_def null_ok_def RBTREE_Init_def clr_def u32_def)

lemma insert_null: "RBTREE_Insert T e = Some (T', status) \<Longrightarrow> \<exists>n. rbt_nodes T e = Some n"
  by (cases "rbt_nodes T e") (simp_all add: RBTREE_Insert_def getters)

text \<open>C17: every tree that the operations lead to from its creation is valid: its nodes are linked as a
  tree with right parent pointers, in the order of their keys and with no key twice, and the size is
  their number.\<close>

theorem rb_run_valid:
  fixes f :: "addr \<Rightarrow> 'k :: linorder"
  assumes "rb_run nodes z cmp T" and cmp: "comp_ok cmp f"
  shows "\<exists>t. rb_valid f T t \<and> rbt_null T = z"
  using assms(1)
proof induction
  case init
  then show ?case using RBTREE_Init_valid(1)[OF cmp, of nodes z] by (auto simp: RBTREE_Init_def)
next
  case (insert T t e T' status)
  then have v: "rb_valid f T t" "rbt_null T = z" using is_tree_unique rb_validD(1) by blast+
  obtain n where n: "rbt_nodes T e = Some n" using insert_null insert.hyps(6) by blast
  show ?case
    using insert_ok[OF v(1) n insert.hyps(3) _ insert.hyps(5)] insert.hyps(4,6) v by (auto split: if_splits)
next
  case (erase T t x T' y)
  then have v: "rb_valid f T t" "rbt_null T = z" using is_tree_unique rb_validD(1) by blast+
  have "x \<in> set (inorder t)" using erase.hyps(3) by simp
  then obtain as bs where "inorder t = as @ x # bs" by (meson split_list)
  then show ?case using erase_valid[OF v(1)] erase.hyps(4) v(2) by fastforce
qed

lemma rb_run_valid_witness: "\<exists>t. rb_valid id (RBTREE_Init Map.empty 100 ex_cmp) t \<and> rbt_null (RBTREE_Init Map.empty 100 ex_cmp) = 100"
  by (rule rb_run_valid[OF rb_run.init ex_cmp_ok])

end
