(* ===== verification/Dl_List.thy ===== *)
theory Dl_List
  imports C_Prelude
begin

section \<open>The doubly linked list (\<^verbatim>\<open>oslib/src/dl_list.h\<close>)\<close>

text \<open>
  Circular lists through a head node. \<open>dl_list h l xs\<close> says that the list with head \<open>l\<close> holds the
  items \<open>xs\<close>; every operation is then one on the list \<open>xs\<close>. An item is the address of the link
  fields inside a structure, \<open>offset\<close> bytes behind its start.
\<close>

subsection \<open>State and operations\<close>

record T_DoubleList =
  dl_next :: addr
  dl_prev :: addr

type_synonym dl_heap = "addr \<Rightarrow> T_DoubleList option"

definition get_next :: "dl_heap \<Rightarrow> addr \<Rightarrow> addr option" where
  "get_next h p = map_option dl_next (h p)"

definition get_prev :: "dl_heap \<Rightarrow> addr \<Rightarrow> addr option" where
  "get_prev h p = map_option dl_prev (h p)"

definition set_next :: "dl_heap \<Rightarrow> addr \<Rightarrow> addr \<Rightarrow> dl_heap option" where
  "set_next h p q = map_option (\<lambda>n. h(p \<mapsto> n\<lparr>dl_next := q\<rparr>)) (h p)"

definition set_prev :: "dl_heap \<Rightarrow> addr \<Rightarrow> addr \<Rightarrow> dl_heap option" where
  "set_prev h p q = map_option (\<lambda>n. h(p \<mapsto> n\<lparr>dl_prev := q\<rparr>)) (h p)"

definition DL_ListInit :: "dl_heap \<Rightarrow> addr \<Rightarrow> dl_heap option" where
  "DL_ListInit h l = do { h1 \<leftarrow> set_next h l l; set_prev h1 l l }"

definition DL_ListAdd :: "dl_heap \<Rightarrow> addr \<Rightarrow> addr \<Rightarrow> dl_heap option" where
  "DL_ListAdd h l item =
     do {
       n \<leftarrow> get_next h l;
       h1 \<leftarrow> set_next h item n;
       h2 \<leftarrow> set_prev h1 item l;
       n2 \<leftarrow> get_next h2 l;
       h3 \<leftarrow> set_prev h2 n2 item;
       set_next h3 l item
     }"

definition DL_ListAddTail :: "dl_heap \<Rightarrow> addr \<Rightarrow> addr \<Rightarrow> dl_heap option" where
  "DL_ListAddTail h l item = do { p \<leftarrow> get_prev h l; DL_ListAdd h p item }"

definition DL_ListAddDelete :: "dl_heap \<Rightarrow> addr \<Rightarrow> dl_heap option" where
  "DL_ListAddDelete h item =
     do {
       n \<leftarrow> get_next h item;
       p \<leftarrow> get_prev h item;
       h1 \<leftarrow> set_prev h n p;
       p1 \<leftarrow> get_prev h1 item;
       n1 \<leftarrow> get_next h1 item;
       h2 \<leftarrow> set_next h1 p1 n1;
       h3 \<leftarrow> set_next h2 item 0;
       set_prev h3 item 0
     }"

definition DL_ListIsEmpty :: "dl_heap \<Rightarrow> addr \<Rightarrow> bool option" where
  "DL_ListIsEmpty h l = map_option (\<lambda>n. n = l) (get_next h l)"

text \<open>The count is an \<open>int\<close>; the model leaves its overflow out of the definition by stopping there.\<close>

partial_function (option) len_loop :: "dl_heap \<Rightarrow> addr \<Rightarrow> addr \<Rightarrow> nat \<Rightarrow> nat option" where
  "len_loop h l item count =
     (if item \<noteq> l
      then do {
        guard (count + 1 < 2 ^ 31);
        n \<leftarrow> get_next h item;
        len_loop h l n (count + 1)
      }
      else Some count)"

definition DL_ListGetLen :: "dl_heap \<Rightarrow> addr \<Rightarrow> nat option" where
  "DL_ListGetLen h l = do { n \<leftarrow> get_next h l; len_loop h l n 0 }"

definition DL_ListEntryInfo :: "addr \<Rightarrow> nat \<Rightarrow> addr" where
  "DL_ListEntryInfo item offset = sub32 item offset"

definition DL_ListGetNext :: "dl_heap \<Rightarrow> addr \<Rightarrow> nat \<Rightarrow> addr option" where
  "DL_ListGetNext h l offset =
     do {
       e \<leftarrow> DL_ListIsEmpty h l;
       if e then Some 0 else map_option (\<lambda>n. DL_ListEntryInfo n offset) (get_next h l)
     }"

definition DL_ListGetPrev :: "dl_heap \<Rightarrow> addr \<Rightarrow> nat \<Rightarrow> addr option" where
  "DL_ListGetPrev h l offset =
     do {
       e \<leftarrow> DL_ListIsEmpty h l;
       if e then Some 0 else map_option (\<lambda>n. DL_ListEntryInfo n offset) (get_prev h l)
     }"

text \<open>
  The loops as folds: \<open>body\<close> is the body, with the state \<open>s\<close> that \<open>heap\<close> reads the links from. The
  safe loop reads the successor of an item before the body runs.
\<close>

partial_function (option) DL_ListForeach :: "('s \<Rightarrow> dl_heap) \<Rightarrow> (addr \<Rightarrow> 's \<Rightarrow> 's option) \<Rightarrow> addr \<Rightarrow> addr \<Rightarrow> 's \<Rightarrow> 's option" where
  "DL_ListForeach heap body l item s =
     (if item \<noteq> l
      then do {
        s1 \<leftarrow> body item s;
        n \<leftarrow> get_next (heap s1) item;
        DL_ListForeach heap body l n s1
      }
      else Some s)"

partial_function (option) DL_ListForeachSafe :: "('s \<Rightarrow> dl_heap) \<Rightarrow> (addr \<Rightarrow> 's \<Rightarrow> 's option) \<Rightarrow> addr \<Rightarrow> addr \<Rightarrow> addr \<Rightarrow> 's \<Rightarrow> 's option" where
  "DL_ListForeachSafe heap body l item n s =
     (if item \<noteq> l
      then do {
        s1 \<leftarrow> body item s;
        n1 \<leftarrow> get_next (heap s1) n;
        DL_ListForeachSafe heap body l n n1 s1
      }
      else Some s)"

partial_function (option) DL_ListForeachReverse :: "('s \<Rightarrow> dl_heap) \<Rightarrow> (addr \<Rightarrow> 's \<Rightarrow> 's option) \<Rightarrow> addr \<Rightarrow> addr \<Rightarrow> 's \<Rightarrow> 's option" where
  "DL_ListForeachReverse heap body l item s =
     (if item \<noteq> l
      then do {
        s1 \<leftarrow> body item s;
        p \<leftarrow> get_prev (heap s1) item;
        DL_ListForeachReverse heap body l p s1
      }
      else Some s)"

subsection \<open>Lists in the heap\<close>

text \<open>\<open>dpath h p xs q\<close>: from \<open>p\<close> the links lead through \<open>xs\<close> to \<open>q\<close>, and back.\<close>

fun dpath :: "dl_heap \<Rightarrow> addr \<Rightarrow> addr list \<Rightarrow> addr \<Rightarrow> bool" where
  "dpath h p [] q \<longleftrightarrow> get_next h p = Some q \<and> get_prev h q = Some p"
| "dpath h p (x # xs) q \<longleftrightarrow> get_next h p = Some x \<and> get_prev h x = Some p \<and> dpath h x xs q"

definition dl_list :: "dl_heap \<Rightarrow> addr \<Rightarrow> addr list \<Rightarrow> bool" where
  "dl_list h l xs \<longleftrightarrow> distinct (l # xs) \<and> dpath h l xs l"

lemma dpath_append [simp]: "dpath h p (xs @ y # ys) q \<longleftrightarrow> dpath h p xs y \<and> dpath h y ys q"
  by (induction xs arbitrary: p) auto

lemma dpath_cong:
  "(\<And>a. a = p \<or> a \<in> set xs \<Longrightarrow> get_next h' a = get_next h a) \<Longrightarrow> (\<And>a. a = q \<or> a \<in> set xs \<Longrightarrow> get_prev h' a = get_prev h a) \<Longrightarrow>
   dpath h' p xs q = dpath h p xs q"
proof (induction xs arbitrary: p)
  case (Cons x xs)
  have "dpath h' x xs q = dpath h x xs q" by (rule Cons.IH) (auto intro!: Cons.prems)
  then show ?case using Cons.prems by simp
qed simp

lemma dpath_first: "dpath h p xs q \<Longrightarrow> get_next h p = Some (hd (xs @ [q]))"
  by (cases xs) simp_all

lemma dpath_last: "dpath h p xs q \<Longrightarrow> get_prev h q = Some (last (p # xs))"
  by (induction xs arbitrary: p) auto

lemma dpath_alloc: "dpath h p xs q \<Longrightarrow> a = p \<or> a \<in> set xs \<or> a = q \<Longrightarrow> \<exists>n. h a = Some n"
  by (induction xs arbitrary: p) (auto simp: get_next_def get_prev_def)

lemma dl_list_alloc: "dl_list h l xs \<Longrightarrow> a = l \<or> a \<in> set xs \<Longrightarrow> \<exists>n. h a = Some n"
  unfolding dl_list_def using dpath_alloc by blast

text \<open>Other items may change; the lists of other heads are lists still.\<close>

lemma dl_list_frame:
  assumes "dl_list h l xs" "\<And>a. a = l \<or> a \<in> set xs \<Longrightarrow> h' a = h a"
  shows "dl_list h' l xs"
proof -
  have "dpath h' l xs l = dpath h l xs l" by (rule dpath_cong) (auto simp: get_next_def get_prev_def assms(2))
  then show ?thesis using assms(1) by (simp add: dl_list_def)
qed

subsection \<open>The operations on lists\<close>

lemmas links = get_next_def get_prev_def set_next_def set_prev_def

lemma init_ok:
  assumes "h l = Some n"
  obtains h' where "DL_ListInit h l = Some h'" "dl_list h' l []" "\<And>a. a \<noteq> l \<Longrightarrow> h' a = h a"
proof -
  let ?h = "h(l \<mapsto> n\<lparr>dl_next := l, dl_prev := l\<rparr>)"
  have "DL_ListInit h l = Some ?h" using assms by (simp add: DL_ListInit_def links)
  moreover have "dl_list ?h l []" by (simp add: dl_list_def links)
  ultimately show thesis by (rule that) simp
qed

text \<open>What insertion behind \<open>p\<close> and removal do to the links.\<close>

lemma add_links:
  assumes p: "get_next h p = Some y" and y: "h y = Some ny" and i: "h i = Some n" "i \<noteq> p" "i \<noteq> y"
  obtains h' where "DL_ListAdd h p i = Some h'"
    "\<And>a. get_next h' a = (if a = p then Some i else if a = i then Some y else get_next h a)"
    "\<And>a. get_prev h' a = (if a = y then Some i else if a = i then Some p else get_prev h a)"
    "\<And>a. a \<noteq> i \<Longrightarrow> a \<noteq> p \<Longrightarrow> a \<noteq> y \<Longrightarrow> h' a = h a"
proof -
  obtain np where np: "h p = Some np" "dl_next np = y" using p by (auto simp: links)
  let ?h2 = "h(i \<mapsto> \<lparr>dl_next = y, dl_prev = p\<rparr>, y \<mapsto> ny\<lparr>dl_prev := i\<rparr>)"
  obtain m where m: "?h2 p = Some m" using np y by (cases "p = y"; cases "p = i") auto
  let ?h = "?h2(p \<mapsto> m\<lparr>dl_next := i\<rparr>)"
  have "DL_ListAdd h p i = Some ?h" using np y i m by (auto simp: DL_ListAdd_def links)
  moreover have "get_next ?h a = (if a = p then Some i else if a = i then Some y else get_next h a)" for a
    using i y by (auto simp: links)
  moreover have "get_prev ?h a = (if a = y then Some i else if a = i then Some p else get_prev h a)" for a
    using i y m np by (auto simp: links)
  ultimately show thesis by (rule that) auto
qed

lemma delete_links:
  assumes i: "get_next h i = Some y" "get_prev h i = Some p" "i \<noteq> p" "i \<noteq> y" and py: "h p = Some np" "h y = Some ny"
  obtains h' where "DL_ListAddDelete h i = Some h'"
    "\<And>a. get_next h' a = (if a = i then Some 0 else if a = p then Some y else get_next h a)"
    "\<And>a. get_prev h' a = (if a = i then Some 0 else if a = y then Some p else get_prev h a)"
    "\<And>a. a \<noteq> i \<Longrightarrow> a \<noteq> p \<Longrightarrow> a \<noteq> y \<Longrightarrow> h' a = h a"
proof -
  obtain n where n: "h i = Some n" "dl_next n = y" "dl_prev n = p" using i by (auto simp: links)
  let ?h1 = "h(y \<mapsto> ny\<lparr>dl_prev := p\<rparr>)"
  obtain m where m: "?h1 p = Some m" using py by (cases "p = y") auto
  let ?h = "?h1(p \<mapsto> m\<lparr>dl_next := y\<rparr>, i \<mapsto> \<lparr>dl_next = 0, dl_prev = 0\<rparr>)"
  have "DL_ListAddDelete h i = Some ?h" using n py m i(3,4) by (auto simp: DL_ListAddDelete_def links)
  moreover have "get_next ?h a = (if a = i then Some 0 else if a = p then Some y else get_next h a)" for a
    using i py by (auto simp: links)
  moreover have "get_prev ?h a = (if a = i then Some 0 else if a = y then Some p else get_prev h a)" for a
    using i py m by (auto simp: links)
  ultimately show thesis by (rule that) auto
qed

text \<open>A path from another start.\<close>

lemma dpath_start:
  assumes "dpath h p xs q" "distinct xs" "q \<notin> set xs" "get_next h' i = get_next h p" "get_prev h' (hd (xs @ [q])) = Some i"
    and "\<And>a. a \<in> set xs \<Longrightarrow> get_next h' a = get_next h a" "\<And>a. a = q \<or> a \<in> set xs \<Longrightarrow> a \<noteq> hd (xs @ [q]) \<Longrightarrow> get_prev h' a = get_prev h a"
  shows "dpath h' i xs q"
proof (cases xs)
  case (Cons x ys)
  have "dpath h' x ys q = dpath h x ys q" using assms(2,3) Cons by (intro dpath_cong assms(6,7)) auto
  then show ?thesis using assms(1,4,5) Cons by simp
qed (use assms in simp)

lemma add_front:
  assumes "dl_list h l xs" "h i = Some n" "i \<noteq> l" "i \<notin> set xs"
  obtains h' where "DL_ListAdd h l i = Some h'" "dl_list h' l (i # xs)" "\<And>a. a \<noteq> i \<Longrightarrow> a \<noteq> l \<Longrightarrow> a \<notin> set xs \<Longrightarrow> h' a = h a"
proof -
  let ?y = "hd (xs @ [l])"
  have d: "dpath h l xs l" "distinct xs" "l \<notin> set xs" using assms(1) by (auto simp: dl_list_def)
  have y: "?y = l \<or> ?y \<in> set xs" by (cases xs) auto
  then obtain ny where ny: "h ?y = Some ny" using dl_list_alloc[OF assms(1)] by blast
  have iy: "i \<noteq> ?y" using y assms(3,4) by auto
  obtain h' where h': "DL_ListAdd h l i = Some h'"
    "\<And>a. get_next h' a = (if a = l then Some i else if a = i then Some ?y else get_next h a)"
    "\<And>a. get_prev h' a = (if a = ?y then Some i else if a = i then Some l else get_prev h a)"
    "\<And>a. a \<noteq> i \<Longrightarrow> a \<noteq> l \<Longrightarrow> a \<noteq> ?y \<Longrightarrow> h' a = h a" by (rule add_links[OF dpath_first[OF d(1)] ny assms(2,3) iy]) (rule that)
  have "dpath h' i xs l" using d(3) assms(3,4) dpath_first[OF d(1)] iy by (intro dpath_start[OF d]) (auto simp: h')
  then have "dl_list h' l (i # xs)" using d assms(3,4) iy by (auto simp: dl_list_def h')
  then show thesis using h'(1,4) y by (intro that[of h']) auto
qed

lemma add_behind:
  assumes "dl_list h l (as @ p # bs)" "h i = Some n" "i \<noteq> l" "i \<notin> set (as @ p # bs)"
  obtains h' where "DL_ListAdd h p i = Some h'" "dl_list h' l (as @ p # i # bs)"
    "\<And>a. a \<noteq> i \<Longrightarrow> a \<noteq> l \<Longrightarrow> a \<notin> set (as @ p # bs) \<Longrightarrow> h' a = h a"
proof -
  let ?y = "hd (bs @ [l])"
  have d: "dpath h l as p" "dpath h p bs l" "distinct (l # as @ p # bs)" using assms(1) by (auto simp: dl_list_def)
  have y: "?y = l \<or> ?y \<in> set bs" by (cases bs) auto
  then obtain ny where ny: "h ?y = Some ny" using dl_list_alloc[OF assms(1), of ?y] by auto
  have iy: "i \<noteq> p" "i \<noteq> ?y" "p \<noteq> ?y" using y assms(3,4) d(3) by auto
  obtain h' where h': "DL_ListAdd h p i = Some h'"
    "\<And>a. get_next h' a = (if a = p then Some i else if a = i then Some ?y else get_next h a)"
    "\<And>a. get_prev h' a = (if a = ?y then Some i else if a = i then Some p else get_prev h a)"
    "\<And>a. a \<noteq> i \<Longrightarrow> a \<noteq> p \<Longrightarrow> a \<noteq> ?y \<Longrightarrow> h' a = h a" by (rule add_links[OF dpath_first[OF d(2)] ny assms(2) iy(1,2)]) (rule that)
  have "dpath h' l as p = dpath h l as p" using d(3) assms(3,4) iy y by (intro dpath_cong) (auto simp: h')
  moreover have "distinct bs" "l \<notin> set bs" using d(3) by auto
  then have "dpath h' i bs l" using d(3) assms(3,4) dpath_first[OF d(2)] iy by (intro dpath_start[OF d(2)]) (auto simp: h')
  ultimately have "dl_list h' l (as @ p # i # bs)" using d iy assms(3,4) by (auto simp: dl_list_def h')
  then show thesis using h'(1,4) y by (intro that[of h']) auto
qed

lemma add_tail:
  assumes "dl_list h l xs" "h i = Some n" "i \<noteq> l" "i \<notin> set xs"
  obtains h' where "DL_ListAddTail h l i = Some h'" "dl_list h' l (xs @ [i])" "\<And>a. a \<noteq> i \<Longrightarrow> a \<noteq> l \<Longrightarrow> a \<notin> set xs \<Longrightarrow> h' a = h a"
proof (cases xs rule: rev_cases)
  case Nil
  then have "get_prev h l = Some l" using assms(1) by (simp add: dl_list_def)
  then show thesis using add_front[OF assms] that Nil by (auto simp: DL_ListAddTail_def)
next
  case (snoc ys p)
  have "get_prev h l = Some p" using assms(1) dpath_last[of h l xs l] snoc by (simp add: dl_list_def)
  then show thesis using add_behind[of h l ys p "[]" i n] assms that snoc by (auto simp: DL_ListAddTail_def)
qed

lemma delete_ok:
  assumes "dl_list h l (as @ i # bs)"
  obtains h' where "DL_ListAddDelete h i = Some h'" "dl_list h' l (as @ bs)" "h' i = Some \<lparr>dl_next = 0, dl_prev = 0\<rparr>"
    "\<And>a. a \<noteq> l \<Longrightarrow> a \<notin> set (as @ i # bs) \<Longrightarrow> h' a = h a"
proof -
  let ?y = "hd (bs @ [l])" and ?p = "last (l # as)"
  have d: "dpath h l as i" "dpath h i bs l" "distinct (l # as @ i # bs)" using assms by (auto simp: dl_list_def)
  have y: "?y = l \<or> ?y \<in> set bs" by (cases bs) auto
  then obtain ny where ny: "h ?y = Some ny" using dl_list_alloc[OF assms, of ?y] by auto
  have p: "?p = l \<or> ?p \<in> set as" by auto
  then obtain np where np: "h ?p = Some np" using dl_list_alloc[OF assms, of ?p] by auto
  have ne: "i \<noteq> ?p" "i \<noteq> ?y" using y p d(3) by auto
  obtain h' where h': "DL_ListAddDelete h i = Some h'"
    "\<And>a. get_next h' a = (if a = i then Some 0 else if a = ?p then Some ?y else get_next h a)"
    "\<And>a. get_prev h' a = (if a = i then Some 0 else if a = ?y then Some ?p else get_prev h a)"
    "\<And>a. a \<noteq> i \<Longrightarrow> a \<noteq> ?p \<Longrightarrow> a \<noteq> ?y \<Longrightarrow> h' a = h a"
    by (rule delete_links[OF dpath_first[OF d(2)] dpath_last[OF d(1)] ne np ny]) (rule that)
  have "dpath h' l (as @ bs) l"
  proof (cases as rule: rev_cases)
    case Nil
    have "distinct bs" "l \<notin> set bs" using d(3) by auto
    then have "dpath h' l bs l" using d(3) ne Nil dpath_first[OF d(2)] by (intro dpath_start[OF d(2)]) (auto simp: h')
    then show ?thesis using Nil by simp
  next
    case (snoc as' p')
    have q: "dpath h l as' p'" using d(1) snoc by simp
    have "dpath h' l as' p' = dpath h l as' p'" using d(3) snoc y by (intro dpath_cong) (auto simp: h')
    moreover have "distinct bs" "l \<notin> set bs" using d(3) by auto
    then have "dpath h' p' bs l" using d(3) ne snoc dpath_first[OF d(2)] by (intro dpath_start[OF d(2)]) (auto simp: h')
    ultimately show ?thesis using q snoc by simp
  qed
  then have "dl_list h' l (as @ bs)" using d(3) by (auto simp: dl_list_def)
  moreover have "h' i = Some \<lparr>dl_next = 0, dl_prev = 0\<rparr>" using h'(2)[of i] h'(3)[of i] by (cases "h' i") (auto simp: links)
  ultimately show thesis using h'(1,4) y p by (intro that[of h']) auto
qed

lemma empty_ok: "dl_list h l xs \<Longrightarrow> DL_ListIsEmpty h l = Some (xs = [])"
  using dpath_first[of h l xs l] by (cases xs) (auto simp: dl_list_def DL_ListIsEmpty_def)

lemma next_ok: "dl_list h l xs \<Longrightarrow> DL_ListGetNext h l off = Some (if xs = [] then 0 else DL_ListEntryInfo (hd xs) off)"
  using dpath_first[of h l xs l] empty_ok[of h l xs] by (cases xs) (auto simp: dl_list_def DL_ListGetNext_def)

lemma prev_ok: "dl_list h l xs \<Longrightarrow> DL_ListGetPrev h l off = Some (if xs = [] then 0 else DL_ListEntryInfo (last xs) off)"
  using dpath_last[of h l xs l] empty_ok[of h l xs] by (cases xs) (auto simp: dl_list_def DL_ListGetPrev_def)

lemma len_loop_ok:
  "dpath h p xs l \<Longrightarrow> l \<notin> set xs \<Longrightarrow> count + length xs < 2 ^ 31 \<Longrightarrow> len_loop h l (hd (xs @ [l])) count = Some (count + length xs)"
proof (induction xs arbitrary: p count)
  case Nil
  then show ?case by (subst len_loop.simps) simp
next
  case (Cons x xs)
  have "get_next h x = Some (hd (xs @ [l]))" using Cons.prems(1) dpath_first[of h x xs l] by simp
  then show ?case using Cons.prems Cons.IH[of x "count + 1"] by (subst len_loop.simps) simp
qed

lemma len_ok: "dl_list h l xs \<Longrightarrow> length xs < 2 ^ 31 \<Longrightarrow> DL_ListGetLen h l = Some (length xs)"
  using len_loop_ok[of h l xs l 0] dpath_first[of h l xs l] by (simp add: dl_list_def DL_ListGetLen_def)

subsection \<open>The loops\<close>

text \<open>\<open>P as s\<close>: what holds when the items \<open>as\<close> are done.\<close>

lemma foreach_ok:
  assumes "\<And>as x bs s. xs = as @ x # bs \<Longrightarrow> P as s \<Longrightarrow> \<exists>s1. body x s = Some s1 \<and> P (as @ [x]) s1 \<and> get_next (heap s1) x = Some (hd (bs @ [l]))"
  shows "xs = as @ bs \<Longrightarrow> l \<notin> set xs \<Longrightarrow> P as s \<Longrightarrow> \<exists>s'. DL_ListForeach heap body l (hd (bs @ [l])) s = Some s' \<and> P xs s'"
proof (induction bs arbitrary: as s)
  case Nil
  then show ?case by (subst DL_ListForeach.simps) simp
next
  case (Cons x bs)
  obtain s1 where 1: "body x s = Some s1" "P (as @ [x]) s1" "get_next (heap s1) x = Some (hd (bs @ [l]))"
    using assms[OF Cons.prems(1,3)] by blast
  obtain s' where "DL_ListForeach heap body l (hd (bs @ [l])) s1 = Some s'" "P xs s'"
    using Cons.IH[of "as @ [x]" s1] Cons.prems 1(2) by auto
  moreover have "x \<noteq> l" using Cons.prems by auto
  ultimately show ?case using 1 by (subst DL_ListForeach.simps) simp
qed

lemma foreach_safe_ok:
  assumes "\<And>as x bs s. xs = as @ x # bs \<Longrightarrow> P as s \<Longrightarrow>
      \<exists>s1. body x s = Some s1 \<and> P (as @ [x]) s1 \<and> get_next (heap s1) (hd (bs @ [l])) = Some (hd (tl (bs @ [l]) @ [hd (xs @ [l])]))
        \<or> body x s = Some s1 \<and> P (as @ [x]) s1 \<and> bs = [] \<and> (\<exists>n. get_next (heap s1) l = Some n)"
  shows "xs = as @ bs \<Longrightarrow> l \<notin> set xs \<Longrightarrow> P as s \<Longrightarrow> (bs \<noteq> [] \<Longrightarrow> n = hd (tl bs @ [l])) \<Longrightarrow>
    \<exists>s'. DL_ListForeachSafe heap body l (hd (bs @ [l])) n s = Some s' \<and> P xs s'"
proof (induction bs arbitrary: as s n)
  case Nil
  then show ?case by (subst DL_ListForeachSafe.simps) simp
next
  case (Cons x bs)
  obtain s1 n1 where 1: "body x s = Some s1" "P (as @ [x]) s1" "get_next (heap s1) (hd (bs @ [l])) = Some n1"
    "bs \<noteq> [] \<Longrightarrow> n1 = hd (tl bs @ [l])"
  proof -
    have hd_tl: "bs \<noteq> [] \<Longrightarrow> hd (tl (bs @ [l]) @ [hd (xs @ [l])]) = hd (tl bs @ [l])" by (cases bs; cases "tl bs") auto
    show thesis using assms[OF Cons.prems(1,3)] that hd_tl by fastforce
  qed
  obtain s' where "DL_ListForeachSafe heap body l (hd (bs @ [l])) n1 s1 = Some s'" "P xs s'"
    using Cons.IH[of "as @ [x]" s1 n1] Cons.prems 1(2,4) by auto
  moreover have "x \<noteq> l" "n = hd (bs @ [l])" using Cons.prems by auto
  ultimately show ?case using 1(1,3) by (subst DL_ListForeachSafe.simps) simp
qed

lemma foreach_reverse_ok:
  assumes "\<And>as x bs s. xs = as @ x # bs \<Longrightarrow> P bs s \<Longrightarrow> \<exists>s1. body x s = Some s1 \<and> P (x # bs) s1 \<and> get_prev (heap s1) x = Some (last (l # as))"
  shows "xs = as @ bs \<Longrightarrow> l \<notin> set xs \<Longrightarrow> P bs s \<Longrightarrow> \<exists>s'. DL_ListForeachReverse heap body l (last (l # as)) s = Some s' \<and> P xs s'"
proof (induction as arbitrary: bs s rule: rev_induct)
  case Nil
  then show ?case by (subst DL_ListForeachReverse.simps) simp
next
  case (snoc x as)
  obtain s1 where 1: "body x s = Some s1" "P (x # bs) s1" "get_prev (heap s1) x = Some (last (l # as))"
    using assms[of as x bs s] snoc.prems by auto
  obtain s' where "DL_ListForeachReverse heap body l (last (l # as)) s1 = Some s'" "P xs s'"
    using snoc.IH[of "x # bs" s1] snoc.prems 1(2) by auto
  moreover have "x \<noteq> l" using snoc.prems by auto
  ultimately show ?case using 1 by (subst DL_ListForeachReverse.simps) simp
qed

subsection \<open>The contract\<close>

text \<open>What users of the lists rely on: \<open>holds h l xs\<close> for the contents, \<open>cell h a\<close> for link fields.\<close>

locale deque =
  fixes holds :: "'h \<Rightarrow> addr \<Rightarrow> addr list \<Rightarrow> bool" and cell :: "'h \<Rightarrow> addr \<Rightarrow> bool"
    and front :: "'h \<Rightarrow> addr \<Rightarrow> addr \<Rightarrow> 'h option" and behind :: "'h \<Rightarrow> addr \<Rightarrow> addr \<Rightarrow> 'h option" and del :: "'h \<Rightarrow> addr \<Rightarrow> 'h option"
    and touched :: "'h \<Rightarrow> 'h \<Rightarrow> addr set \<Rightarrow> bool"
  assumes front: "holds h l xs \<Longrightarrow> cell h i \<Longrightarrow> i \<noteq> l \<Longrightarrow> i \<notin> set xs \<Longrightarrow>
      \<exists>h'. front h l i = Some h' \<and> holds h' l (i # xs) \<and> touched h h' (set (i # l # xs))"
    and behind: "holds h l xs \<Longrightarrow> cell h i \<Longrightarrow> i \<noteq> l \<Longrightarrow> i \<notin> set xs \<Longrightarrow>
      \<exists>h'. behind h l i = Some h' \<and> holds h' l (xs @ [i]) \<and> touched h h' (set (i # l # xs))"
    and del: "holds h l (as @ i # bs) \<Longrightarrow> \<exists>h'. del h i = Some h' \<and> holds h' l (as @ bs) \<and> cell h' i \<and> touched h h' (set (i # l # as @ bs))"
    and frame: "holds h m ys \<Longrightarrow> touched h h' A \<Longrightarrow> A \<inter> set (m # ys) = {} \<Longrightarrow> holds h' m ys"
    and items: "holds h l xs \<Longrightarrow> distinct (l # xs)"
begin

text \<open>Moving an item from one list to the end of another.\<close>

lemma move:
  assumes "holds h l (as @ i # bs)" "holds h m ys" "set (l # as @ i # bs) \<inter> set (m # ys) = {}"
  shows "\<exists>h1 h2. del h i = Some h1 \<and> behind h1 m i = Some h2 \<and> holds h2 l (as @ bs) \<and> holds h2 m (ys @ [i])"
proof -
  obtain h1 where 1: "del h i = Some h1" "holds h1 l (as @ bs)" "cell h1 i" "touched h h1 (set (i # l # as @ bs))"
    using del[OF assms(1)] by blast
  have "holds h1 m ys" using assms(3) by (intro frame[OF assms(2) 1(4)]) auto
  then obtain h2 where 2: "behind h1 m i = Some h2" "holds h2 m (ys @ [i])" "touched h1 h2 (set (i # m # ys))"
    using behind[of h1 m ys i] 1(3) assms(3) by auto
  have "holds h2 l (as @ bs)" using assms(3) items[OF assms(1)] by (intro frame[OF 1(2) 2(3)]) auto
  then show ?thesis using 1(1) 2(1,2) by blast
qed

text \<open>Adding and removing again.\<close>

lemma front_del:
  assumes "holds h l xs" "cell h i" "i \<noteq> l" "i \<notin> set xs"
  shows "\<exists>h1 h2. front h l i = Some h1 \<and> del h1 i = Some h2 \<and> holds h2 l xs"
  using front[OF assms] del[of _ l "[]" i xs] by fastforce

end

definition differ_in :: "dl_heap \<Rightarrow> dl_heap \<Rightarrow> addr set \<Rightarrow> bool" where
  "differ_in h h' A \<longleftrightarrow> (\<forall>a. a \<notin> A \<longrightarrow> h' a = h a)"

interpretation dll: deque dl_list "\<lambda>h a. h a \<noteq> None" DL_ListAdd DL_ListAddTail DL_ListAddDelete differ_in
proof unfold_locales
  fix h l xs i assume a: "dl_list h l xs" "h i \<noteq> None" "i \<noteq> l" "i \<notin> set xs"
  then obtain n where n: "h i = Some n" by blast
  show "\<exists>h'. DL_ListAdd h l i = Some h' \<and> dl_list h' l (i # xs) \<and> differ_in h h' (set (i # l # xs))"
    by (rule add_front[OF a(1) n a(3,4)]) (auto simp: differ_in_def)
  show "\<exists>h'. DL_ListAddTail h l i = Some h' \<and> dl_list h' l (xs @ [i]) \<and> differ_in h h' (set (i # l # xs))"
    by (rule add_tail[OF a(1) n a(3,4)]) (auto simp: differ_in_def)
next
  fix h l as i bs assume a: "dl_list h l (as @ i # bs)"
  show "\<exists>h'. DL_ListAddDelete h i = Some h' \<and> dl_list h' l (as @ bs) \<and> h' i \<noteq> None \<and> differ_in h h' (set (i # l # as @ bs))"
    by (rule delete_ok[OF a]) (auto simp: differ_in_def)
next
  fix h m ys h' A assume "dl_list h m ys" "differ_in h h' A" "A \<inter> set (m # ys) = {}"
  then show "dl_list h' m ys" by (auto simp: differ_in_def elim!: dl_list_frame)
next
  fix h l xs assume "dl_list h l xs"
  then show "distinct (l # xs)" by (simp add: dl_list_def)
qed

subsection \<open>Properties\<close>

text \<open>A head at 8 and three items.\<close>

definition ex_heap :: dl_heap where
  "ex_heap = [8 \<mapsto> \<lparr>dl_next = 16, dl_prev = 24\<rparr>, 16 \<mapsto> \<lparr>dl_next = 24, dl_prev = 8\<rparr>, 24 \<mapsto> \<lparr>dl_next = 8, dl_prev = 16\<rparr>, 32 \<mapsto> \<lparr>dl_next = 0, dl_prev = 0\<rparr>]"

lemma ex_list: "dl_list ex_heap 8 [16, 24]"
  by (simp add: dl_list_def ex_heap_def links)



text \<open>The loops over a list end and visit each item once, in the order of the list or backwards; the
  safe loop does so also when its body takes every item out, and leaves the list empty.\<close>

theorem DL_ListForeach_visits:
  assumes "dl_list h l xs"
  shows "(\<exists>p. get_next h l = Some p \<and> DL_ListForeach fst (\<lambda>a (h, log). Some (h, log @ [a])) l p (h, []) = Some (h, xs)) \<and>
    (\<exists>p. get_prev h l = Some p \<and> DL_ListForeachReverse fst (\<lambda>a (h, log). Some (h, log @ [a])) l p (h, []) = Some (h, rev xs)) \<and>
    (\<exists>p n h'. get_next h l = Some p \<and> get_next h p = Some n \<and>
      DL_ListForeachSafe fst (\<lambda>a (h, log). map_option (\<lambda>h'. (h', log @ [a])) (DL_ListAddDelete h a)) l p n (h, []) = Some (h', xs) \<and> dl_list h' l [])"
proof (intro conjI)
  have d: "dpath h l xs l" "l \<notin> set xs" using assms by (simp_all add: dl_list_def)
  have nx: "get_next h x = Some (hd (bs @ [l]))" "get_prev h x = Some (last (l # as))" if "xs = as @ x # bs" for as x bs
    using d(1) that dpath_first[of h x bs l] dpath_last[of h l as x] by auto
  have ends: "get_next h l = Some (hd (xs @ [l]))" "get_prev h l = Some (last (l # xs))" using dpath_first[OF d(1)] dpath_last[OF d(1)] .
  have "\<exists>s'. DL_ListForeach fst (\<lambda>a (h, log). Some (h, log @ [a])) l (hd (xs @ [l])) (h, []) = Some s' \<and> s' = (h, xs)"
    by (rule foreach_ok[where P = "\<lambda>as s. s = (h, as)" and as = "[]" and xs = xs]) (use nx(1) d(2) in auto)
  then show "\<exists>p. get_next h l = Some p \<and> DL_ListForeach fst (\<lambda>a (h, log). Some (h, log @ [a])) l p (h, []) = Some (h, xs)" using ends by simp
  have "\<exists>s'. DL_ListForeachReverse fst (\<lambda>a (h, log). Some (h, log @ [a])) l (last (l # xs)) (h, []) = Some s' \<and> s' = (h, rev xs)"
    by (rule foreach_reverse_ok[where P = "\<lambda>bs s. s = (h, rev bs)" and bs = "[]" and xs = xs]) (use nx(2) d(2) in auto)
  then show "\<exists>p. get_prev h l = Some p \<and> DL_ListForeachReverse fst (\<lambda>a (h, log). Some (h, log @ [a])) l p (h, []) = Some (h, rev xs)" using ends by simp
  let ?body = "\<lambda>a (h, log). map_option (\<lambda>h'. (h', log @ [a])) (DL_ListAddDelete h a)"
  let ?P = "\<lambda>as s. snd s = as \<and> dl_list (fst s) l (drop (length as) xs)"
  have step: "\<exists>s1. ?body x s = Some s1 \<and> ?P (as @ [x]) s1 \<and> get_next (fst s1) (hd (bs @ [l])) = Some (hd (tl (bs @ [l]) @ [hd (xs @ [l])]))
      \<or> ?body x s = Some s1 \<and> ?P (as @ [x]) s1 \<and> bs = [] \<and> (\<exists>n. get_next (fst s1) l = Some n)" if "xs = as @ x # bs" "?P as s" for as x bs s
  proof -
    have "dl_list (fst s) l ([] @ x # bs)" using that by simp
    then obtain h' where h': "DL_ListAddDelete (fst s) x = Some h'" "dl_list h' l bs" by (rule delete_ok) simp
    have nb: "get_next h' (hd (bs @ [l])) = Some (hd (tl bs @ [l]))" if "bs \<noteq> []"
      using h'(2) that dpath_first[of h' "hd bs" "tl bs" l] by (cases bs) (auto simp: dl_list_def)
    have "\<exists>n. get_next h' l = Some n" using h'(2) dpath_first[of h' l bs l] by (simp add: dl_list_def)
    moreover have "bs \<noteq> [] \<Longrightarrow> hd (tl (bs @ [l]) @ [hd (xs @ [l])]) = hd (tl bs @ [l])" by (cases bs; cases "tl bs") auto
    ultimately show ?thesis using h' that nb by (cases s; cases "bs = []") auto
  qed
  obtain n where n: "get_next h (hd (xs @ [l])) = Some n" "xs \<noteq> [] \<Longrightarrow> n = hd (tl xs @ [l])"
    using nx(1)[of "[]"] ends(1) by (cases xs) auto
  have "\<exists>s'. DL_ListForeachSafe fst ?body l (hd (xs @ [l])) n (h, []) = Some s' \<and> ?P xs s'"
    by (rule foreach_safe_ok[where P = ?P and as = "[]" and xs = xs, OF step]) (use d(2) n(2) assms in auto)
  then show "\<exists>p n h'. get_next h l = Some p \<and> get_next h p = Some n \<and> DL_ListForeachSafe fst ?body l p n (h, []) = Some (h', xs) \<and> dl_list h' l []"
    using ends(1) n(1) by auto
qed

lemma DL_ListForeach_visits_witness:
  "\<exists>p. get_next ex_heap 8 = Some p \<and> DL_ListForeach fst (\<lambda>a (h, log). Some (h, log @ [a])) 8 p (ex_heap, []) = Some (ex_heap, [16, 24])"
  using DL_ListForeach_visits[OF ex_list] by blast

text \<open>An item moves from one list to the end of another one by deleting and adding it; both lists
  are whole afterwards.\<close>

theorem DL_List_move:
  assumes "dl_list h l (as @ i # bs)" "dl_list h m ys" "set (l # as @ i # bs) \<inter> set (m # ys) = {}"
  shows "\<exists>h1 h2. DL_ListAddDelete h i = Some h1 \<and> DL_ListAddTail h1 m i = Some h2 \<and> dl_list h2 l (as @ bs) \<and> dl_list h2 m (ys @ [i])"
  by (rule dll.move[OF assms])

lemma DL_List_move_witness:
  "\<exists>h1 h2. DL_ListAddDelete (ex_heap(40 \<mapsto> \<lparr>dl_next = 40, dl_prev = 40\<rparr>)) 16 = Some h1 \<and> DL_ListAddTail h1 40 16 = Some h2 \<and>
    dl_list h2 8 ([] @ [24]) \<and> dl_list h2 40 ([] @ [16])"
  by (rule DL_List_move) (simp_all add: dl_list_def ex_heap_def links)

end
