(* ===== verification/Mem_Pool.thy ===== *)
theory Mem_Pool
  imports C_Prelude
begin

section \<open>Memory pools (\<^verbatim>\<open>oslib/src/pool.c\<close>, \<^verbatim>\<open>pool_caching.c\<close>, \<^verbatim>\<open>pool_policy_malloc.c\<close>, \<^verbatim>\<open>pool_stack.c\<close>)\<close>

text \<open>
  A pool hands out memory from the front of its blocks and takes it back only as a whole. Pools come
  from the caching factory, which keeps the pools in use and the released ones in lists, and whose
  blocks come from malloc with a signature word on both sides.

  The lists of \<^verbatim>\<open>dl_list.h\<close> are lists of their items here (\<open>Dl_List\<close> shows that they behave so); a pool
  is found by its address. The structures are apart from the bytes \<open>w_ram\<close> of the memory. Locks are left out.
  The failure callback only notes its call in \<open>w_fails\<close>. A text with a percent sign as a name goes through
  \<open>snprintf\<close>, which is a parameter. The texts of the log are left out.
\<close>

subsection \<open>State\<close>

definition POOL_MAGIC_CODE :: nat where "POOL_MAGIC_CODE = 0x210EF0BA"
definition POOL_ALIGNMENT :: nat where "POOL_ALIGNMENT = 4"
definition POOL_NAME_LEN_MAX :: nat where "POOL_NAME_LEN_MAX = 32"
definition POOL_CACHING_ARRAY_SIZE :: nat where "POOL_CACHING_ARRAY_SIZE = 16"

text \<open>The sizes of the structures with 32-bit pointers.\<close>

definition BLOCK_INFO :: nat where "BLOCK_INFO = 20"
definition POOL_INFO :: nat where "POOL_INFO = 84"

record T_PoolBlockInfo =
  m_pBlock :: addr
  m_pStartAddr :: addr
  m_pCurAddr :: addr
  m_pEndAddr :: addr

record T_PoolInfo =
  m_strName :: "u8 list"
  m_u32Magic :: nat
  m_pFactoryData :: nat
  m_szCapacity :: nat
  m_szIncSize :: nat
  in_tBlockList :: "T_PoolBlockInfo list"

record T_PoolCaching =
  c_szCapacity :: nat
  c_szCapacityMax :: nat
  c_u32UsedCnt :: nat
  c_szUsedSize :: nat
  c_szPeakUsedSize :: nat
  c_free_list :: "addr list list"
  c_used_list :: "addr list"
  w_pools :: "addr \<Rightarrow> T_PoolInfo option"
  w_live :: "(addr \<times> nat) list"
  w_ram :: "addr \<Rightarrow> u8"
  w_fails :: "(addr \<times> nat) list"

text \<open>\<^verbatim>\<open>funcBlockAlloc\<close> and \<^verbatim>\<open>funcBlockFree\<close> of a factory.\<close>

type_synonym block_alloc = "T_PoolCaching \<Rightarrow> nat \<Rightarrow> T_PoolCaching \<times> addr"
type_synonym block_free = "T_PoolCaching \<Rightarrow> addr \<Rightarrow> nat \<Rightarrow> T_PoolCaching option"

definition put_pool :: "T_PoolCaching \<Rightarrow> addr \<Rightarrow> T_PoolInfo \<Rightarrow> T_PoolCaching" where
  "put_pool w p P = w\<lparr>w_pools := (w_pools w)(p \<mapsto> P)\<rparr>"

definition appFailCallbck :: "T_PoolCaching \<Rightarrow> addr \<Rightarrow> nat \<Rightarrow> T_PoolCaching" where
  "appFailCallbck w p sz = w\<lparr>w_fails := (p, sz) # w_fails w\<rparr>"

subsection \<open>The default policy: malloc with signatures\<close>

definition SIG_SIZE :: nat where "SIG_SIZE = 4"
definition SIG_BEGIN :: nat where "SIG_BEGIN = 0x600DC0DE"
definition SIG_END :: nat where "SIG_END = 0x0BADC0DE"

definition put_bytes :: "(addr \<Rightarrow> u8) \<Rightarrow> addr \<Rightarrow> u8 list \<Rightarrow> addr \<Rightarrow> u8" where
  "put_bytes ram a bs = (\<lambda>x. if a \<le> x \<and> x < a + length bs then bs ! (x - a) else ram x)"

definition get_bytes :: "(addr \<Rightarrow> u8) \<Rightarrow> addr \<Rightarrow> nat \<Rightarrow> u8 list" where
  "get_bytes ram a n = map ram [a..<a + n]"

definition apply_signature :: "(addr \<Rightarrow> u8) \<Rightarrow> addr \<Rightarrow> nat \<Rightarrow> addr \<Rightarrow> u8" where
  "apply_signature ram p sz = put_bytes (put_bytes ram p (enc32 SIG_BEGIN)) (p + SIG_SIZE + sz) (enc32 SIG_END)"

definition check_pool_signature :: "(addr \<Rightarrow> u8) \<Rightarrow> addr \<Rightarrow> nat \<Rightarrow> bool" where
  "check_pool_signature ram p sz \<longleftrightarrow>
     get_bytes ram (p - SIG_SIZE) SIG_SIZE = enc32 SIG_BEGIN \<and> get_bytes ram (p + sz) SIG_SIZE = enc32 SIG_END"

definition cpool_on_block_alloc :: "T_PoolCaching \<Rightarrow> nat \<Rightarrow> T_PoolCaching" where
  "cpool_on_block_alloc w sz =
     (let used = u32 (c_szUsedSize w + sz) in
      w\<lparr>c_szUsedSize := used, c_szPeakUsedSize := (if used > c_szPeakUsedSize w then used else c_szPeakUsedSize w)\<rparr>)"

definition cpool_on_block_free :: "T_PoolCaching \<Rightarrow> nat \<Rightarrow> T_PoolCaching" where
  "cpool_on_block_free w sz = w\<lparr>c_szUsedSize := sub32 (c_szUsedSize w) sz\<rparr>"

definition default_block_alloc :: "malloc \<Rightarrow> block_alloc" where
  "default_block_alloc mal w sz =
     (let w1 = cpool_on_block_alloc w sz;
          n = u32 (sz + 2 * SIG_SIZE);
          p = mal (w_live w1) n
      in if p = 0 then (cpool_on_block_free w1 sz, 0)
         else (w1\<lparr>w_live := (p, n) # w_live w1, w_ram := apply_signature (w_ram w1) p sz\<rparr>, p + SIG_SIZE))"

text \<open>A broken signature fails an assertion; free takes only addresses that malloc gave.\<close>

definition default_block_free :: block_free where
  "default_block_free w p sz =
     (let w1 = cpool_on_block_free w sz in
      do {
        guard (check_pool_signature (w_ram w1) p sz);
        guard (p - SIG_SIZE \<in> fst ` set (w_live w1));
        Some (w1\<lparr>w_live := filter (\<lambda>b. fst b \<noteq> p - SIG_SIZE) (w_live w1)\<rparr>)
      })"

subsection \<open>Allocation\<close>

definition ALIGN_PTR :: "addr \<Rightarrow> addr" where
  "ALIGN_PTR p = u32 (p + sub32 0 p mod POOL_ALIGNMENT)"

definition new_block :: "addr \<Rightarrow> addr \<Rightarrow> nat \<Rightarrow> T_PoolBlockInfo" where
  "new_block base b sz =
     \<lparr>m_pBlock = b, m_pStartAddr = b + BLOCK_INFO, m_pCurAddr = ALIGN_PTR (b + BLOCK_INFO), m_pEndAddr = base + sz\<rparr>"

definition pool_create_block :: "block_alloc \<Rightarrow> T_PoolCaching \<Rightarrow> addr \<Rightarrow> nat \<Rightarrow> (T_PoolCaching \<times> T_PoolBlockInfo option) option" where
  "pool_create_block alloc w p sz =
     do {
       guard (sz \<ge> BLOCK_INFO);
       let (w1, b) = alloc w sz;
       if b = 0 then Some (appFailCallbck w1 p sz, None)
       else do {
         P \<leftarrow> w_pools w1 p;
         let blk = new_block b b sz;
         Some (put_pool w1 p (P\<lparr>m_szCapacity := u32 (m_szCapacity P + sz), in_tBlockList := in_tBlockList P @ [blk]\<rparr>), Some blk)
       }
     }"

definition alloc_size :: "nat \<Rightarrow> nat" where
  "alloc_size sz =
     (if sz mod POOL_ALIGNMENT \<noteq> 0 then u32 (sz + POOL_ALIGNMENT) div POOL_ALIGNMENT * POOL_ALIGNMENT else sz)"

text \<open>The block and the memory, null when the block has not enough left.\<close>

definition pool_alloc_from_block :: "T_PoolBlockInfo \<Rightarrow> nat \<Rightarrow> T_PoolBlockInfo \<times> addr" where
  "pool_alloc_from_block b sz =
     (let n = alloc_size sz in
      if sub32 (m_pEndAddr b) (m_pCurAddr b) \<ge> n then (b\<lparr>m_pCurAddr := u32 (m_pCurAddr b + n)\<rparr>, m_pCurAddr b)
      else (b, 0))"

fun alloc_in_blocks :: "T_PoolBlockInfo list \<Rightarrow> nat \<Rightarrow> T_PoolBlockInfo list \<times> addr" where
  "alloc_in_blocks [] sz = ([], 0)"
| "alloc_in_blocks (b # bs) sz =
     (let (b1, q) = pool_alloc_from_block b sz in
      if q \<noteq> 0 then (b1 # bs, q)
      else let (bs1, q1) = alloc_in_blocks bs sz in (b1 # bs1, q1))"

definition grow_size :: "nat \<Rightarrow> nat \<Rightarrow> nat" where
  "grow_size inc sz =
     (if inc < u32 (sz + BLOCK_INFO + POOL_ALIGNMENT)
      then u32 (u32 (sz + inc + BLOCK_INFO + POOL_ALIGNMENT) div inc * inc)
      else inc)"

definition pool_allocate_find :: "block_alloc \<Rightarrow> T_PoolCaching \<Rightarrow> addr \<Rightarrow> nat \<Rightarrow> (T_PoolCaching \<times> addr) option" where
  "pool_allocate_find alloc w p sz =
     do {
       P \<leftarrow> w_pools w p;
       let (bs, q) = alloc_in_blocks (in_tBlockList P) sz;
       if q \<noteq> 0 then Some (put_pool w p (P\<lparr>in_tBlockList := bs\<rparr>), q)
       else if m_szIncSize P = 0 then Some (appFailCallbck w p sz, 0)
       else do {
         (w1, blk) \<leftarrow> pool_create_block alloc w p (grow_size (m_szIncSize P) sz);
         case blk of
           None \<Rightarrow> Some (w1, 0)
         | Some b \<Rightarrow> do {
             P1 \<leftarrow> w_pools w1 p;
             let (b1, q1) = pool_alloc_from_block b sz;
             guard (q1 \<noteq> 0);
             Some (put_pool w1 p (P1\<lparr>in_tBlockList := butlast (in_tBlockList P1) @ [b1]\<rparr>), q1)
           }
       }
     }"

definition POOL_Alloc :: "block_alloc \<Rightarrow> T_PoolCaching \<Rightarrow> addr \<Rightarrow> nat \<Rightarrow> (T_PoolCaching \<times> addr) option" where
  "POOL_Alloc alloc w p sz =
     do {
       P \<leftarrow> w_pools w p;
       if m_u32Magic P \<noteq> POOL_MAGIC_CODE then Some (w, 0)
       else case in_tBlockList P of
         [] \<Rightarrow> None
       | b # bs \<Rightarrow>
           let (b1, q) = pool_alloc_from_block b sz in
           if q \<noteq> 0 then Some (put_pool w p (P\<lparr>in_tBlockList := b1 # bs\<rparr>), q)
           else pool_allocate_find alloc w p sz
     }"

definition POOL_Calloc :: "block_alloc \<Rightarrow> T_PoolCaching \<Rightarrow> addr \<Rightarrow> nat \<Rightarrow> nat \<Rightarrow> (T_PoolCaching \<times> addr) option" where
  "POOL_Calloc alloc w p cnt sz =
     do {
       (w1, q) \<leftarrow> POOL_Alloc alloc w p (u32 (sz * cnt));
       Some (if q \<noteq> 0 then w1\<lparr>w_ram := put_bytes (w_ram w1) q (replicate (u32 (sz * cnt)) 0)\<rparr> else w1, q)
     }"

subsection \<open>Pools\<close>

definition pool_name :: "(u8 list \<Rightarrow> addr \<Rightarrow> u8 list) \<Rightarrow> addr \<Rightarrow> u8 list option \<Rightarrow> u8 list" where
  "pool_name fmt p name =
     (case name of
        None \<Rightarrow> []
      | Some s \<Rightarrow> if 37 \<in> set s then take (POOL_NAME_LEN_MAX - 1) (fmt s p) else take (POOL_NAME_LEN_MAX - 1) s)"

definition PoolInitInt :: "(u8 list \<Rightarrow> addr \<Rightarrow> u8 list) \<Rightarrow> addr \<Rightarrow> T_PoolInfo \<Rightarrow> u8 list option \<Rightarrow> nat \<Rightarrow> T_PoolInfo" where
  "PoolInitInt fmt p P name inc = P\<lparr>m_szIncSize := inc, m_strName := pool_name fmt p name\<rparr>"

definition PoolCreateInt :: "block_alloc \<Rightarrow> (u8 list \<Rightarrow> addr \<Rightarrow> u8 list) \<Rightarrow> T_PoolCaching \<Rightarrow> u8 list option \<Rightarrow> nat \<Rightarrow> nat \<Rightarrow> T_PoolCaching \<times> addr" where
  "PoolCreateInt alloc fmt w name init inc =
     (if init < POOL_INFO + BLOCK_INFO then (w, 0)
      else let (w1, p) = alloc w init in
        if p = 0 then (w1, 0)
        else let P = \<lparr>m_strName = [], m_u32Magic = 0, m_pFactoryData = 0, m_szCapacity = init, m_szIncSize = 0,
                      in_tBlockList = [new_block p (p + POOL_INFO) (init)]\<rparr>
             in (put_pool w1 p (PoolInitInt fmt p P name inc), p))"

definition POOL_GetName :: "T_PoolCaching \<Rightarrow> addr \<Rightarrow> u8 list option" where
  "POOL_GetName w p = map_option m_strName (w_pools w p)"

definition POOL_GetCapacity :: "T_PoolCaching \<Rightarrow> addr \<Rightarrow> nat option" where
  "POOL_GetCapacity w p = map_option m_szCapacity (w_pools w p)"

definition used_size :: "T_PoolBlockInfo list \<Rightarrow> nat" where
  "used_size bs = foldl (\<lambda>n b. u32 (n + sub32 (m_pCurAddr b) (m_pStartAddr b) + BLOCK_INFO)) POOL_INFO bs"

definition POOL_GetUsedSize :: "T_PoolCaching \<Rightarrow> addr \<Rightarrow> nat option" where
  "POOL_GetUsedSize w p = map_option (\<lambda>P. used_size (in_tBlockList P)) (w_pools w p)"

text \<open>The blocks behind the first are freed from the last one on.\<close>

fun free_blocks :: "block_free \<Rightarrow> T_PoolCaching \<Rightarrow> T_PoolBlockInfo list \<Rightarrow> T_PoolCaching option" where
  "free_blocks fr w [] = Some w"
| "free_blocks fr w (b # bs) = do { w1 \<leftarrow> fr w (m_pBlock b) (sub32 (m_pEndAddr b) (m_pBlock b)); free_blocks fr w1 bs }"

definition reset_pool :: "block_free \<Rightarrow> T_PoolCaching \<Rightarrow> addr \<Rightarrow> T_PoolCaching option" where
  "reset_pool fr w p =
     do {
       P \<leftarrow> w_pools w p;
       case in_tBlockList P of
         [] \<Rightarrow> Some w
       | [b] \<Rightarrow> Some w
       | b # bs \<Rightarrow> do {
           w1 \<leftarrow> free_blocks fr w (rev bs);
           Some (put_pool w1 p (P\<lparr>in_tBlockList := [b\<lparr>m_pCurAddr := ALIGN_PTR (m_pStartAddr b)\<rparr>],
             m_szCapacity := sub32 (m_pEndAddr b) p\<rparr>))
         }
     }"

text \<open>The share in use is computed, so a capacity of 0 divides by zero.\<close>

definition POOL_Reset :: "block_free \<Rightarrow> T_PoolCaching \<Rightarrow> addr \<Rightarrow> T_PoolCaching option" where
  "POOL_Reset fr w p = do { P \<leftarrow> w_pools w p; guard (m_szCapacity P \<noteq> 0); reset_pool fr w p }"

definition PoolDestroyInt :: "block_free \<Rightarrow> T_PoolCaching \<Rightarrow> addr \<Rightarrow> T_PoolCaching option" where
  "PoolDestroyInt fr w p =
     do {
       P \<leftarrow> w_pools w p;
       case in_tBlockList P of
         [] \<Rightarrow> None
       | b # bs \<Rightarrow> do {
           w1 \<leftarrow> reset_pool fr w p;
           w2 \<leftarrow> fr w1 p (sub32 (m_pEndAddr b) p);
           Some (w2\<lparr>w_pools := (w_pools w2)(p := None)\<rparr>)
         }
     }"

subsection \<open>The caching factory\<close>

definition pool_sizes :: "nat list" where
  "pool_sizes = [256, 512, 1024, 2048, 4096, 8192, 12288, 16384, 20480, 24576, 28672, 32768, 40960, 49152, 57344, 65536]"

definition POOL_START_SIZE :: nat where "POOL_START_SIZE = 5"

text \<open>The searches down (\<open>i\<close> is one above the index) and up.\<close>

fun size_down :: "nat \<Rightarrow> nat \<Rightarrow> nat" where
  "size_down init 0 = 0"
| "size_down init (Suc i) = (if pool_sizes ! i \<ge> init then size_down init i else Suc i)"

fun size_up :: "nat \<Rightarrow> nat \<Rightarrow> nat \<Rightarrow> nat" where
  "size_up init i 0 = i"
| "size_up init i (Suc n) = (if pool_sizes ! i < init then size_up init (i + 1) n else i)"

definition pool_index :: "nat \<Rightarrow> nat" where
  "pool_index init =
     (if init \<le> pool_sizes ! POOL_START_SIZE then size_down init POOL_START_SIZE
      else size_up init (POOL_START_SIZE + 1) (POOL_CACHING_ARRAY_SIZE - (POOL_START_SIZE + 1)))"

text \<open>\<open>local\<close> is the address of the variable with the index, which the pool keeps.\<close>

definition cpool_create_pool :: "block_alloc \<Rightarrow> (u8 list \<Rightarrow> addr \<Rightarrow> u8 list) \<Rightarrow> addr \<Rightarrow> T_PoolCaching \<Rightarrow> u8 list option \<Rightarrow> nat \<Rightarrow> nat \<Rightarrow>
    (T_PoolCaching \<times> addr) option" where
  "cpool_create_pool alloc fmt local w name init inc =
     (let i = pool_index init in
      do {
        (w1, p) \<leftarrow>
          (if i = POOL_CACHING_ARRAY_SIZE \<or> c_free_list w ! i = []
           then Some (PoolCreateInt alloc fmt w name (if i < POOL_CACHING_ARRAY_SIZE then pool_sizes ! i else init) inc)
           else let p = hd (c_free_list w ! i) in do {
             P \<leftarrow> w_pools w p;
             Some (put_pool (w\<lparr>c_free_list := (c_free_list w)[i := tl (c_free_list w ! i)],
                 c_szCapacity := (if c_szCapacity w > m_szCapacity P then c_szCapacity w - m_szCapacity P else 0)\<rparr>)
               p (PoolInitInt fmt p P name inc), p)
           });
        if p = 0 then Some (w1, 0)
        else do {
          P \<leftarrow> w_pools w1 p;
          Some (put_pool (w1\<lparr>c_used_list := p # c_used_list w1, c_u32UsedCnt := u32 (c_u32UsedCnt w1 + 1)\<rparr>)
            p (P\<lparr>m_pFactoryData := local, m_u32Magic := POOL_MAGIC_CODE\<rparr>), p)
        }
      })"

definition cpool_release_pool :: "block_free \<Rightarrow> T_PoolCaching \<Rightarrow> addr \<Rightarrow> (T_PoolCaching \<times> int) option" where
  "cpool_release_pool fr w p =
     do {
       P \<leftarrow> w_pools w p;
       if m_u32Magic P \<noteq> POOL_MAGIC_CODE then Some (w, -1)
       else if p \<notin> set (c_used_list w) then Some (w, 0)
       else let w1 = w\<lparr>c_used_list := remove1 p (c_used_list w), c_u32UsedCnt := sub32 (c_u32UsedCnt w) 1\<rparr> in
         if m_szCapacity P > pool_sizes ! (POOL_CACHING_ARRAY_SIZE - 1) \<or> u32 (c_szCapacity w1 + m_szCapacity P) > c_szCapacityMax w1
         then map_option (\<lambda>w2. (w2, 0)) (PoolDestroyInt fr w1 p)
         else do {
           w2 \<leftarrow> POOL_Reset fr w1 p;
           P2 \<leftarrow> w_pools w2 p;
           let i = m_pFactoryData P2;
           guard (i < POOL_CACHING_ARRAY_SIZE);
           Some (w2\<lparr>c_free_list := (c_free_list w2)[i := p # c_free_list w2 ! i], c_szCapacity := u32 (c_szCapacity w2 + m_szCapacity P2)\<rparr>, 0)
         }
     }"

fun destroy_all :: "block_free \<Rightarrow> T_PoolCaching \<Rightarrow> addr list \<Rightarrow> T_PoolCaching option" where
  "destroy_all fr w [] = Some w"
| "destroy_all fr w (p # ps) = do { w1 \<leftarrow> PoolDestroyInt fr w p; destroy_all fr w1 ps }"

text \<open>The pool on the stack that initialisation also creates is not kept anywhere.\<close>

definition POOL_CachingInit :: "T_PoolCaching \<Rightarrow> nat \<Rightarrow> T_PoolCaching" where
  "POOL_CachingInit w capmax =
     w\<lparr>c_szCapacity := 0, c_szCapacityMax := capmax, c_u32UsedCnt := 0, c_szUsedSize := 0, c_szPeakUsedSize := 0,
       c_free_list := replicate POOL_CACHING_ARRAY_SIZE [], c_used_list := []\<rparr>"

definition POOL_CachingDeinit :: "block_free \<Rightarrow> T_PoolCaching \<Rightarrow> T_PoolCaching option" where
  "POOL_CachingDeinit fr w =
     do {
       w1 \<leftarrow> destroy_all fr w (concat (c_free_list w));
       w2 \<leftarrow> destroy_all fr w1 (c_used_list w1);
       Some (w2\<lparr>c_free_list := map (\<lambda>_. []) (c_free_list w2), c_used_list := []\<rparr>)
     }"

text \<open>The calls through the factory.\<close>

definition POOL_Create :: "malloc \<Rightarrow> (u8 list \<Rightarrow> addr \<Rightarrow> u8 list) \<Rightarrow> addr \<Rightarrow> T_PoolCaching \<Rightarrow> u8 list option \<Rightarrow> nat \<Rightarrow> nat \<Rightarrow> (T_PoolCaching \<times> addr) option" where
  "POOL_Create mal fmt local w name init inc = cpool_create_pool (default_block_alloc mal) fmt local w name init inc"

definition POOL_Destroy :: "T_PoolCaching \<Rightarrow> addr \<Rightarrow> (T_PoolCaching \<times> int) option" where
  "POOL_Destroy w p = cpool_release_pool default_block_free w p"

text \<open>\<open>pj_pool_safe_release\<close> also clears the caller's pointer, which is the second result.\<close>

definition pj_pool_safe_release :: "T_PoolCaching \<Rightarrow> addr \<Rightarrow> (T_PoolCaching \<times> addr) option" where
  "pj_pool_safe_release w p = (if p \<noteq> 0 then map_option (\<lambda>(w1, r). (w1, 0)) (POOL_Destroy w p) else Some (w, 0))"

subsection \<open>A pool in a buffer of the caller\<close>

record T_LocalParam =
  m_bInit :: nat
  in_pPool :: addr
  m_pStack :: addr
  m_stSize :: nat

definition LOCAL_PARAM :: nat where "LOCAL_PARAM = 52"

definition stack_alloc :: "T_LocalParam \<Rightarrow> block_alloc" where
  "stack_alloc loc w sz = (w, if sz \<le> m_stSize loc then m_pStack loc else 0)"

text \<open>The misalignment is added to the address, not what is missing to the next multiple of four.\<close>

definition PoolCreateOnStack :: "(u8 list \<Rightarrow> addr \<Rightarrow> u8 list) \<Rightarrow> T_PoolCaching \<Rightarrow> u8 list option \<Rightarrow> addr \<Rightarrow> nat \<Rightarrow> T_PoolCaching \<times> T_LocalParam option" where
  "PoolCreateOnStack fmt w name buf sz =
     (if buf = 0 \<or> sz = 0 then (w, None)
      else let tmp = u32 (buf + LOCAL_PARAM);
               d = tmp mod POOL_ALIGNMENT;
               loc = \<lparr>m_bInit = 1, in_pPool = 0, m_pStack = u32 (tmp + d), m_stSize = sub32 (sub32 sz d) LOCAL_PARAM\<rparr>;
               (w1, p) = PoolCreateInt (stack_alloc loc) fmt w name (m_stSize loc) 0
           in (w1, Some (loc\<lparr>in_pPool := p\<rparr>)))"

subsection \<open>Rounding and the signatures\<close>

lemma alloc_size_bounds:
  assumes "sz + 4 < 2 ^ 32"
  shows "sz \<le> alloc_size sz" "alloc_size sz < sz + 4" "4 dvd alloc_size sz"
proof -
  obtain k r where sz: "sz = 4 * k + r" "r < 4" by (metis mult_div_mod_eq mod_less_divisor zero_less_numeral)
  have "r \<noteq> 0 \<Longrightarrow> (4 * k + r + 4) div 4 = k + 1" using sz by simp
  then have "alloc_size sz = (if r = 0 then 4 * k else 4 * k + 4)"
    using assms sz by (auto simp add: alloc_size_def POOL_ALIGNMENT_def u32_id)
  then show "sz \<le> alloc_size sz" "alloc_size sz < sz + 4" "4 dvd alloc_size sz" using sz by auto
qed

lemma ALIGN_PTR_id: "4 dvd p \<Longrightarrow> p < 2 ^ 32 \<Longrightarrow> ALIGN_PTR p = p"
proof -
  assume p: "4 dvd p" "p < 2 ^ 32"
  have "sub32 0 p mod 4 = 0"
  proof -
    have "sub32 0 p = (2 ^ 32 - p) mod 2 ^ 32" using p by (simp add: sub32_def u32_def)
    moreover have "4 dvd (2 ^ 32 - p :: nat)" using p by (intro dvd_diff_nat) simp_all
    then have "4 dvd (2 ^ 32 - p) mod 2 ^ 32" by (rule dvd_mod) simp
    ultimately show ?thesis by (simp add: dvd_eq_mod_eq_0)
  qed
  then show ?thesis using p by (simp add: ALIGN_PTR_def POOL_ALIGNMENT_def u32_id)
qed

lemma get_put_same: "get_bytes (put_bytes ram a bs) a (length bs) = bs"
  by (rule nth_equalityI) (simp_all add: get_bytes_def put_bytes_def)

lemma get_put_other: "a + n \<le> b \<or> b + length bs \<le> a \<Longrightarrow> get_bytes (put_bytes ram b bs) a n = get_bytes ram a n"
  by (auto simp: get_bytes_def put_bytes_def)

lemma signature_new: "check_pool_signature (apply_signature ram (p - 4) sz) p sz" if "4 \<le> p"
  using that get_put_same[of "put_bytes ram (p - 4) (enc32 SIG_BEGIN)" "p + sz" "enc32 SIG_END"] get_put_same[of ram "p - 4" "enc32 SIG_BEGIN"]
    get_put_other[of "p - 4" 4 "p + sz" "enc32 SIG_END" "put_bytes ram (p - 4) (enc32 SIG_BEGIN)"]
  by (simp add: check_pool_signature_def apply_signature_def SIG_SIZE_def)

text \<open>Signatures are kept by writes elsewhere.\<close>

lemma signature_keep:
  assumes "4 \<le> p" "q + n \<le> p - 4 \<or> p + sz + 4 \<le> q \<or> p \<le> q \<and> q + n \<le> p + sz" "length bs = n"
  shows "check_pool_signature (put_bytes ram q bs) p sz = check_pool_signature ram p sz"
proof -
  have "p - 4 + 4 \<le> q \<or> q + length bs \<le> p - 4" "p + sz + 4 \<le> q \<or> q + length bs \<le> p + sz"
    using assms by auto
  then show ?thesis using get_put_other by (simp add: check_pool_signature_def SIG_SIZE_def)
qed

lemma signature_keep_new:
  assumes "4 \<le> p" "q + n + 8 \<le> p - 4 \<or> p + sz + 4 \<le> q"
  shows "check_pool_signature (apply_signature ram q n) p sz = check_pool_signature ram p sz"
proof -
  have "check_pool_signature (apply_signature ram q n) p sz = check_pool_signature (put_bytes ram q (enc32 SIG_BEGIN)) p sz"
    unfolding apply_signature_def by (rule signature_keep[where n = 4]) (use assms in \<open>auto simp: SIG_SIZE_def\<close>)
  also have "\<dots> = check_pool_signature ram p sz" by (rule signature_keep[where n = 4]) (use assms in auto)
  finally show ?thesis .
qed

subsection \<open>Valid pools\<close>

text \<open>
  A chunk is the memory of a block with its header, and that of the pool for the first one: its address and size.
  \<open>all_pairs w\<close> are the blocks of all pools in use with their chunks, \<open>handed w\<close> the memory they have given out.
\<close>

type_synonym chunk = "addr \<times> nat"

definition rest_pair :: "T_PoolBlockInfo \<Rightarrow> chunk \<times> T_PoolBlockInfo" where
  "rest_pair b = ((m_pBlock b, m_pEndAddr b - m_pBlock b), b)"

fun pairs :: "addr \<Rightarrow> T_PoolBlockInfo list \<Rightarrow> (chunk \<times> T_PoolBlockInfo) list" where
  "pairs p [] = []"
| "pairs p (b # bs) = ((p, m_pEndAddr b - p), b) # map rest_pair bs"

definition pairs_of :: "T_PoolCaching \<Rightarrow> addr list \<Rightarrow> (chunk \<times> T_PoolBlockInfo) list" where
  "pairs_of w ps = concat (map (\<lambda>p. pairs p (in_tBlockList (the (w_pools w p)))) ps)"

definition total :: "(chunk \<times> T_PoolBlockInfo) list \<Rightarrow> nat" where
  "total xs = sum_list (map (\<lambda>x. snd (fst x)) xs)"

definition handed :: "T_PoolCaching \<Rightarrow> addr set" where
  "handed w = (\<Union>x\<in>set (pairs_of w (c_used_list w)). {m_pStartAddr (snd x)..<m_pCurAddr (snd x)})"

definition chunk_ok :: "T_PoolCaching \<Rightarrow> chunk \<Rightarrow> bool" where
  "chunk_ok w ch \<longleftrightarrow> 4 < fst ch \<and> 4 dvd fst ch \<and> fst ch + snd ch + 4 < 2 ^ 32 \<and> (fst ch - 4, snd ch + 8) \<in> set (w_live w) \<and>
     check_pool_signature (w_ram w) (fst ch) (snd ch)"

definition pair_ok :: "T_PoolCaching \<Rightarrow> chunk \<times> T_PoolBlockInfo \<Rightarrow> bool" where
  "pair_ok w x \<longleftrightarrow> chunk_ok w (fst x) \<and> fst (fst x) \<le> m_pBlock (snd x) \<and> m_pStartAddr (snd x) = m_pBlock (snd x) + BLOCK_INFO \<and>
     m_pStartAddr (snd x) \<le> m_pCurAddr (snd x) \<and> m_pCurAddr (snd x) \<le> m_pEndAddr (snd x) \<and>
     m_pEndAddr (snd x) = fst (fst x) + snd (fst x) \<and> 4 dvd m_pStartAddr (snd x) \<and> 4 dvd m_pCurAddr (snd x)"

definition pool_ok :: "T_PoolCaching \<Rightarrow> addr \<Rightarrow> bool" where
  "pool_ok w p \<longleftrightarrow> (\<exists>P. w_pools w p = Some P \<and> m_u32Magic P = POOL_MAGIC_CODE \<and> in_tBlockList P \<noteq> [] \<and>
     m_pBlock (hd (in_tBlockList P)) = p + POOL_INFO \<and> m_szCapacity P = u32 (total (pairs p (in_tBlockList P))))"

text \<open>The world is valid: every pool is, their chunks lie in blocks of malloc of their own, and the sizes are accounted for.\<close>

definition world_ok :: "T_PoolCaching \<Rightarrow> bool" where
  "world_ok w \<longleftrightarrow> blocks_apart (w_live w) \<and> distinct (c_used_list w) \<and> (\<forall>p\<in>set (c_used_list w). pool_ok w p) \<and>
     (\<forall>x\<in>set (pairs_of w (c_used_list w)). pair_ok w x) \<and> distinct (map (\<lambda>x. fst (fst x)) (pairs_of w (c_used_list w))) \<and>
     c_szUsedSize w = u32 (total (pairs_of w (c_used_list w))) \<and> c_u32UsedCnt w = u32 (length (c_used_list w))"

text \<open>What malloc promises further: the memory ends inside the address space.\<close>

definition mem_ok :: "malloc \<Rightarrow> bool" where
  "mem_ok mal \<longleftrightarrow> malloc_ok mal \<and> (\<forall>bs n. mal bs n \<noteq> 0 \<longrightarrow> mal bs n + n < 2 ^ 32)"

lemma pairs_of_append [simp]: "pairs_of w (ps @ qs) = pairs_of w ps @ pairs_of w qs"
  by (simp add: pairs_of_def)

lemma pairs_of_Cons: "pairs_of w (p # ps) = pairs p (in_tBlockList (the (w_pools w p))) @ pairs_of w ps"
  by (simp add: pairs_of_def)

lemma pairs_of_Nil [simp]: "pairs_of w [] = []"
  by (simp add: pairs_of_def)

lemma total_append [simp]: "total (xs @ ys) = total xs + total ys"
  by (simp add: total_def)

lemma pairs_of_cong: "(\<And>p. p \<in> set ps \<Longrightarrow> w_pools w' p = w_pools w p) \<Longrightarrow> pairs_of w' ps = pairs_of w ps"
  unfolding pairs_of_def by (intro arg_cong[of _ _ concat] map_cong) auto

lemma pairs_snoc: "bs \<noteq> [] \<Longrightarrow> pairs p (bs @ [b]) = pairs p bs @ [rest_pair b]"
  by (cases bs) simp_all

text \<open>A change of the cursor of one block.\<close>

lemma pairs_cursor: "\<exists>ch X Y. pairs p (xs @ b # ys) = X @ (ch, b) # Y \<and> pairs p (xs @ b\<lparr>m_pCurAddr := q\<rparr> # ys) = X @ (ch, b\<lparr>m_pCurAddr := q\<rparr>) # Y"
proof (cases xs)
  case Nil
  then show ?thesis by (intro exI[of _ "(p, m_pEndAddr b - p)"] exI[of _ "[]"] exI[of _ "map rest_pair ys"]) simp
next
  case (Cons x xs')
  then show ?thesis
    by (intro exI[of _ "(m_pBlock b, m_pEndAddr b - m_pBlock b)"] exI[of _ "((p, m_pEndAddr x - p), x) # map rest_pair xs'"] exI[of _ "map rest_pair ys"])
      (simp add: rest_pair_def)
qed

lemma world_okD:
  assumes "world_ok w"
  shows "blocks_apart (w_live w)" "distinct (c_used_list w)" "\<And>p. p \<in> set (c_used_list w) \<Longrightarrow> pool_ok w p"
    "\<And>x. x \<in> set (pairs_of w (c_used_list w)) \<Longrightarrow> pair_ok w x" "distinct (map (\<lambda>x. fst (fst x)) (pairs_of w (c_used_list w)))"
    "c_szUsedSize w = u32 (total (pairs_of w (c_used_list w)))" "c_u32UsedCnt w = u32 (length (c_used_list w))"
  using assms by (simp_all add: world_ok_def)

text \<open>Two chunks with different addresses do not meet.\<close>

lemma chunks_apart:
  assumes "blocks_apart (w_live w)" "chunk_ok w c" "chunk_ok w d" "fst c \<noteq> fst d"
  shows "fst c + snd c + 4 \<le> fst d - 4 \<or> fst d + snd d + 4 \<le> fst c - 4"
proof -
  have "(fst c - 4, snd c + 8) \<in> set (w_live w)" "(fst d - 4, snd d + 8) \<in> set (w_live w)" "4 < fst c" "4 < fst d"
    using assms(2,3) by (simp_all add: chunk_ok_def)
  then show ?thesis using assms(1,4) unfolding blocks_apart_def by fastforce
qed

subsection \<open>Giving out memory\<close>

lemma pair_okD:
  assumes "pair_ok w x"
  shows "chunk_ok w (fst x)" "fst (fst x) \<le> m_pBlock (snd x)" "m_pStartAddr (snd x) = m_pBlock (snd x) + BLOCK_INFO"
    "m_pStartAddr (snd x) \<le> m_pCurAddr (snd x)" "m_pCurAddr (snd x) \<le> m_pEndAddr (snd x)"
    "m_pEndAddr (snd x) = fst (fst x) + snd (fst x)" "4 dvd m_pStartAddr (snd x)" "4 dvd m_pCurAddr (snd x)"
    "0 < m_pCurAddr (snd x)" "m_pEndAddr (snd x) < 2 ^ 32"
  using assms by (auto simp: pair_ok_def chunk_ok_def)

text \<open>One block: the cursor moves over the rounded size when that is left.\<close>

lemma pool_alloc_from_block_ok:
  assumes "pair_ok w (ch, b)" "sz + 4 < 2 ^ 32"
  shows "pool_alloc_from_block b sz =
    (if m_pCurAddr b + alloc_size sz \<le> m_pEndAddr b then (b\<lparr>m_pCurAddr := m_pCurAddr b + alloc_size sz\<rparr>, m_pCurAddr b) else (b, 0))"
  using pair_okD[OF assms(1)] alloc_size_bounds[OF assms(2)] by (auto simp: pool_alloc_from_block_def Let_def sub32_le u32_id)

lemma alloc_in_blocks_ok:
  assumes "\<forall>b\<in>set bs. \<exists>ch. pair_ok w (ch, b)" "sz + 4 < 2 ^ 32" "alloc_in_blocks bs sz = (bs1, q)"
  shows "if q = 0 then bs1 = bs else \<exists>xs b ys. bs = xs @ b # ys \<and> q = m_pCurAddr b \<and> q + alloc_size sz \<le> m_pEndAddr b \<and>
    bs1 = xs @ b\<lparr>m_pCurAddr := q + alloc_size sz\<rparr> # ys"
  using assms(1,3)
proof (induction bs arbitrary: bs1)
  case Nil
  then show ?case by simp
next
  case (Cons b bs)
  then obtain ch where b: "pair_ok w (ch, b)" by auto
  note ab = pool_alloc_from_block_ok[OF b assms(2)]
  show ?case
  proof (cases "m_pCurAddr b + alloc_size sz \<le> m_pEndAddr b")
    case True
    then show ?thesis using Cons.prems(2) ab pair_okD(9)[OF b] by (fastforce intro: exI[of _ "[]"])
  next
    case False
    obtain bs2 q2 where r: "alloc_in_blocks bs sz = (bs2, q2)" by fastforce
    have "bs1 = b # bs2" "q2 = q" using Cons.prems(2) ab False r by simp_all
    then show ?thesis using Cons.IH[of bs2] Cons.prems(1) r by (auto split: if_splits) (metis append_Cons)
  qed
qed

text \<open>The pairs of the world around one block of a pool in use.\<close>

lemma pairs_of_split:
  fixes w :: T_PoolCaching
  assumes "distinct ps" "p \<in> set ps"
  obtains A B where "\<And>(w' :: T_PoolCaching) P'. (\<And>r. r \<noteq> p \<Longrightarrow> w_pools w' r = w_pools w r) \<Longrightarrow> w_pools w' p = Some P' \<Longrightarrow>
    pairs_of w' ps = A @ pairs p (in_tBlockList P') @ B"
proof -
  obtain ps1 ps2 where ps: "ps = ps1 @ p # ps2" using assms(2) by (meson split_list)
  have n: "p \<notin> set ps1" "p \<notin> set ps2" using assms(1) ps by auto
  show ?thesis
  proof (rule that)
    fix w' :: T_PoolCaching and P'
    assume *: "\<And>r. r \<noteq> p \<Longrightarrow> w_pools w' r = w_pools w r" "w_pools w' p = Some P'"
    have "pairs_of w' ps1 = pairs_of w ps1" "pairs_of w' ps2 = pairs_of w ps2"
      using n * by (intro pairs_of_cong; metis)+
    then show "pairs_of w' ps = pairs_of w ps1 @ pairs p (in_tBlockList P') @ pairs_of w ps2"
      using ps * by (simp add: pairs_of_Cons)
  qed
qed

lemma pair_ok_cong: "w_live w' = w_live w \<Longrightarrow> w_ram w' = w_ram w \<Longrightarrow> pair_ok w' x = pair_ok w x"
  by (simp add: pair_ok_def chunk_ok_def)

lemma put_pool_simps [simp]:
  "w_live (put_pool w p P) = w_live w" "w_ram (put_pool w p P) = w_ram w" "c_used_list (put_pool w p P) = c_used_list w"
  "c_szUsedSize (put_pool w p P) = c_szUsedSize w" "c_u32UsedCnt (put_pool w p P) = c_u32UsedCnt w"
  "w_pools (put_pool w p P) = (w_pools w)(p \<mapsto> P)" "c_free_list (put_pool w p P) = c_free_list w"
  "c_szCapacity (put_pool w p P) = c_szCapacity w" "c_szCapacityMax (put_pool w p P) = c_szCapacityMax w"
  by (simp_all add: put_pool_def)

lemma pair_memory: "pair_ok w x \<Longrightarrow> {m_pStartAddr (snd x)..<m_pCurAddr (snd x)} \<subseteq> {fst (fst x)..<fst (fst x) + snd (fst x)}"
proof -
  assume "pair_ok w x"
  then have "fst (fst x) \<le> m_pStartAddr (snd x)" "m_pCurAddr (snd x) \<le> fst (fst x) + snd (fst x)"
    unfolding pair_ok_def by linarith+
  then show ?thesis by auto
qed

text \<open>The memory of a block is apart from that of the others.\<close>

lemma pairs_apart:
  assumes "blocks_apart (w_live w)" "pair_ok w x" "pair_ok w y" "fst (fst x) \<noteq> fst (fst y)"
  shows "{fst (fst x)..<fst (fst x) + snd (fst x)} \<inter> {fst (fst y)..<fst (fst y) + snd (fst y)} = {}"
proof -
  have "fst (fst x) + snd (fst x) + 4 \<le> fst (fst y) - 4 \<or> fst (fst y) + snd (fst y) + 4 \<le> fst (fst x) - 4"
    by (rule chunks_apart[OF assms(1)]) (use assms(2-4) pair_okD(1) in auto)
  then show ?thesis by auto
qed

lemma cursor_world:
  assumes w: "world_ok w" and p: "p \<in> set (c_used_list w)" "w_pools w p = Some P"
    and bs: "in_tBlockList P = xs @ b # ys" and n: "m_pCurAddr b + n \<le> m_pEndAddr b" "4 dvd n"
    and w': "w' = put_pool w p (P\<lparr>in_tBlockList := xs @ b\<lparr>m_pCurAddr := m_pCurAddr b + n\<rparr> # ys\<rparr>)"
  shows "world_ok w'" "handed w' = handed w \<union> {m_pCurAddr b..<m_pCurAddr b + n}" "handed w \<inter> {m_pCurAddr b..<m_pCurAddr b + n} = {}"
    "4 dvd m_pCurAddr b" "m_pCurAddr b \<noteq> 0"
proof -
  let ?b = "b\<lparr>m_pCurAddr := m_pCurAddr b + n\<rparr>"
  note W = world_okD[OF w]
  obtain A B where AB: "\<And>(w1 :: T_PoolCaching) P'. (\<And>r. r \<noteq> p \<Longrightarrow> w_pools w1 r = w_pools w r) \<Longrightarrow> w_pools w1 p = Some P' \<Longrightarrow>
    pairs_of w1 (c_used_list w) = A @ pairs p (in_tBlockList P') @ B"
    by (rule pairs_of_split[OF W(2) p(1)]) blast
  obtain ch X Y where XY: "pairs p (xs @ b # ys) = X @ (ch, b) # Y" "pairs p (xs @ ?b # ys) = X @ (ch, ?b) # Y"
    using pairs_cursor by metis
  define U V where UV: "U = A @ X" "V = Y @ B"
  have old: "pairs_of w (c_used_list w) = U @ (ch, b) # V" using AB[of w P] p(2) bs XY(1) UV by simp
  have new: "pairs_of w' (c_used_list w') = U @ (ch, ?b) # V"
    using AB[of w' "P\<lparr>in_tBlockList := xs @ ?b # ys\<rparr>"] XY(2) UV w' by simp
  have okb: "pair_ok w (ch, b)" and okx: "\<And>x. x \<in> set U \<union> set V \<Longrightarrow> pair_ok w x" using W(4) old by auto
  note B = pair_okD[OF okb, simplified]
  show "4 dvd m_pCurAddr b" "m_pCurAddr b \<noteq> 0" using B by auto
  have "pair_ok w (ch, ?b)" using okb n by (auto simp: pair_ok_def)
  then have ok': "pair_ok w' x" if "x \<in> set (pairs_of w' (c_used_list w'))" for x
  proof -
    have "pair_ok w x" using that okx \<open>pair_ok w (ch, ?b)\<close> unfolding new by (cases "x = (ch, ?b)") simp_all
    then show ?thesis using pair_ok_cong[of w' w x] w' by simp
  qed
  have pools: "pool_ok w' r" if "r \<in> set (c_used_list w)" for r
  proof (cases "r = p")
    case True
    have "pool_ok w p" by (rule W(3)[OF p(1)])
    moreover have "m_pBlock (hd (xs @ ?b # ys)) = m_pBlock (hd (xs @ b # ys))" by (cases xs) simp_all
    moreover have "total (pairs p (xs @ ?b # ys)) = total (pairs p (xs @ b # ys))" using XY by (simp add: total_def)
    ultimately show ?thesis using True p(2) bs w' by (simp add: pool_ok_def)
  next
    case False
    then show ?thesis using W(3)[OF that] w' by (simp add: pool_ok_def)
  qed
  have tot: "total (U @ (ch, ?b) # V) = total (U @ (ch, b) # V)" by (simp add: total_def)
  show "world_ok w'"
    unfolding world_ok_def
  proof (intro conjI ballI)
    show "c_szUsedSize w' = u32 (total (pairs_of w' (c_used_list w')))" using W(6) old new tot w' by simp
    show "distinct (map (\<lambda>x. fst (fst x)) (pairs_of w' (c_used_list w')))" using W(5) old new by simp
  qed (use W(1,2,7) pools ok' w' in auto)
  have "{m_pStartAddr b..<m_pCurAddr b + n} = {m_pStartAddr b..<m_pCurAddr b} \<union> {m_pCurAddr b..<m_pCurAddr b + n}"
    using B(4) by auto
  then show "handed w' = handed w \<union> {m_pCurAddr b..<m_pCurAddr b + n}"
    unfolding handed_def old new by auto
  have far: "{m_pStartAddr (snd x)..<m_pCurAddr (snd x)} \<inter> {m_pCurAddr b..<m_pCurAddr b + n} = {}" if x: "x \<in> set U \<union> set V" for x
  proof -
    have "fst (fst x) \<noteq> fst ch" using W(5) old x by force
    then have "{fst (fst x)..<fst (fst x) + snd (fst x)} \<inter> {fst ch..<fst ch + snd ch} = {}"
      using pairs_apart[OF W(1) okx[OF x] okb] by simp
    moreover have "{m_pCurAddr b..<m_pCurAddr b + n} \<subseteq> {fst ch..<fst ch + snd ch}" using B n by auto
    ultimately show ?thesis using pair_memory[OF okx[OF x]] by blast
  qed
  have "handed w = (\<Union>x\<in>set U \<union> set V. {m_pStartAddr (snd x)..<m_pCurAddr (snd x)}) \<union> {m_pStartAddr b..<m_pCurAddr b}"
    unfolding handed_def old by auto
  moreover have "{m_pStartAddr b..<m_pCurAddr b} \<inter> {m_pCurAddr b..<m_pCurAddr b + n} = {}" by simp
  ultimately show "handed w \<inter> {m_pCurAddr b..<m_pCurAddr b + n} = {}" using far by blast
qed

lemma sub32_u32_add: "b < 2 ^ 32 \<Longrightarrow> sub32 (u32 (a + b)) b = u32 a"
proof -
  assume b: "b < 2 ^ 32"
  have "sub32 (u32 (a + b)) b = ((a + b) mod 2 ^ 32 + (2 ^ 32 - b)) mod 2 ^ 32" using b by (simp add: sub32_def u32_def)
  also have "\<dots> = (a + b + (2 ^ 32 - b)) mod 2 ^ 32" by (rule mod_add_left_eq)
  also have "\<dots> = (a + 2 ^ 32) mod 2 ^ 32" using b by simp
  finally show ?thesis by (simp add: u32_def)
qed

lemma u32_add_left: "u32 (u32 a + b) = u32 (a + b)"
  unfolding u32_def by (rule mod_add_left_eq)

lemma u32_u32: "u32 (u32 a) = u32 a"
  by (simp add: u32_def)

lemma world_cong:
  assumes "w_live w' = w_live w" "w_ram w' = w_ram w" "w_pools w' = w_pools w" "c_used_list w' = c_used_list w"
    "c_szUsedSize w' = c_szUsedSize w" "c_u32UsedCnt w' = c_u32UsedCnt w"
  shows "world_ok w' = world_ok w" "handed w' = handed w"
  using assms unfolding world_ok_def handed_def pool_ok_def pairs_of_def pair_ok_def chunk_ok_def by simp_all

text \<open>Memory from malloc through the default policy.\<close>

lemma default_block_alloc_fail:
  assumes "world_ok w" "sz + 8 < 2 ^ 32" "default_block_alloc mal w sz = (w1, 0)"
  shows "w1 = w\<lparr>c_szPeakUsedSize := c_szPeakUsedSize w1\<rparr>"
proof -
  have "sub32 (u32 (c_szUsedSize w + sz)) sz = c_szUsedSize w"
    using sub32_u32_add[of sz "c_szUsedSize w"] assms(2) world_okD(6)[OF assms(1)] by (simp add: u32_u32)
  then show ?thesis
    using assms(3) by (auto simp: default_block_alloc_def cpool_on_block_alloc_def cpool_on_block_free_def Let_def SIG_SIZE_def split: if_splits)
qed

lemma default_block_alloc_ok:
  assumes w: "blocks_apart (w_live w)" "\<forall>x\<in>set X. pair_ok w x" and "mem_ok mal" "sz + 8 < 2 ^ 32"
    and d: "default_block_alloc mal w sz = (w1, b)" "b \<noteq> 0"
  shows "chunk_ok w1 (b, sz)" "\<forall>x\<in>set X. pair_ok w1 x \<and> fst (fst x) \<noteq> b" "blocks_apart (w_live w1)"
    "c_szUsedSize w1 = u32 (c_szUsedSize w + sz)" "w_pools w1 = w_pools w" "c_used_list w1 = c_used_list w"
    "c_u32UsedCnt w1 = c_u32UsedCnt w" "c_free_list w1 = c_free_list w" "w_live w1 = (b - 4, sz + 8) # w_live w"
    "c_szCapacity w1 = c_szCapacity w" "c_szCapacityMax w1 = c_szCapacityMax w"
proof -
  define m where "m = mal (w_live w) (sz + 8)"
  have m: "m \<noteq> 0" "b = m + 4" "w_live w1 = (m, sz + 8) # w_live w" "w_ram w1 = apply_signature (w_ram w) m sz"
    and rest: "c_szUsedSize w1 = u32 (c_szUsedSize w + sz)" "w_pools w1 = w_pools w" "c_used_list w1 = c_used_list w"
    "c_u32UsedCnt w1 = c_u32UsedCnt w" "c_free_list w1 = c_free_list w" 
    "c_szCapacity w1 = c_szCapacity w" "c_szCapacityMax w1 = c_szCapacityMax w"
    using d assms(4) unfolding m_def default_block_alloc_def cpool_on_block_alloc_def cpool_on_block_free_def Let_def SIG_SIZE_def
    by (auto simp: u32_id split: if_splits)
  from rest show "c_szUsedSize w1 = u32 (c_szUsedSize w + sz)" "w_pools w1 = w_pools w" "c_used_list w1 = c_used_list w"
    "c_u32UsedCnt w1 = c_u32UsedCnt w" "c_free_list w1 = c_free_list w" "c_szCapacity w1 = c_szCapacity w" "c_szCapacityMax w1 = c_szCapacityMax w" .
  show "w_live w1 = (b - 4, sz + 8) # w_live w" using m by simp
  have ok: "malloc_ok mal" "4 dvd m" "m + sz + 8 < 2 ^ 32"
    using assms(3) m(1) unfolding mem_ok_def malloc_ok_def m_def by (auto simp: add.assoc)
  have far: "q \<noteq> m \<and> (m + (sz + 8) \<le> q \<or> q + n \<le> m)" if "(q, n) \<in> set (w_live w)" for q n
    using ok(1) m(1) that unfolding malloc_ok_def m_def by blast
  show "chunk_ok w1 (b, sz)"
    using m ok signature_new[of b "w_ram w" sz] by (auto simp: chunk_ok_def)
  show "blocks_apart (w_live w1)" using blocks_apart_Cons[of mal "w_live w" "sz + 8"] ok(1) m w(1) unfolding m_def by simp
  show "\<forall>x\<in>set X. pair_ok w1 x \<and> fst (fst x) \<noteq> b"
  proof
    fix x assume x: "x \<in> set X"
    then have px: "pair_ok w x" using w by blast
    then have c: "4 < fst (fst x)" "(fst (fst x) - 4, snd (fst x) + 8) \<in> set (w_live w)"
      "check_pool_signature (w_ram w) (fst (fst x)) (snd (fst x))"
      unfolding pair_ok_def chunk_ok_def by auto
    note f = far[OF c(2)]
    have "m + sz + 8 \<le> fst (fst x) - 4 \<or> fst (fst x) + snd (fst x) + 4 \<le> m" using f c(1) by auto
    then have "check_pool_signature (w_ram w1) (fst (fst x)) (snd (fst x))" using signature_keep_new c(1,3) m(4) by simp
    then have "pair_ok w1 x" using px m(3) unfolding pair_ok_def chunk_ok_def by auto
    moreover have "fst (fst x) \<noteq> b" using f c(1) m(2) by auto
    ultimately show "pair_ok w1 x \<and> fst (fst x) \<noteq> b" by blast
  qed
qed

lemma new_pair_ok:
  assumes "chunk_ok w (b, sz)" "BLOCK_INFO \<le> sz"
  shows "pair_ok w (rest_pair (new_block b b sz))" "m_pCurAddr (new_block b b sz) = b + BLOCK_INFO"
proof -
  have b: "4 dvd b" "b + sz + 4 < 2 ^ 32" using assms(1) by (simp_all add: chunk_ok_def)
  then have "ALIGN_PTR (b + BLOCK_INFO) = b + BLOCK_INFO" using assms(2) by (intro ALIGN_PTR_id) (simp_all add: BLOCK_INFO_def)
  then show "pair_ok w (rest_pair (new_block b b sz))" "m_pCurAddr (new_block b b sz) = b + BLOCK_INFO"
    using assms b by (simp_all add: pair_ok_def rest_pair_def new_block_def BLOCK_INFO_def)
qed

lemma pool_create_block_ok:
  assumes w: "world_ok w" and p: "p \<in> set (c_used_list w)" "w_pools w p = Some P" and "mem_ok mal" "BLOCK_INFO \<le> sz" "sz + 8 < 2 ^ 32"
  obtains (failed) w' where "pool_create_block (default_block_alloc mal) w p sz = Some (w', None)" "world_ok w'" "handed w' = handed w"
  | (created) w' P' b where "pool_create_block (default_block_alloc mal) w p sz = Some (w', Some b)" "world_ok w'" "handed w' = handed w"
      "c_used_list w' = c_used_list w" "w_pools w' p = Some P'" "in_tBlockList P' = in_tBlockList P @ [b]"
      "m_pCurAddr b + (sz - BLOCK_INFO) = m_pEndAddr b"
proof -
  obtain w1 c where a: "default_block_alloc mal w sz = (w1, c)" by fastforce
  note W = world_okD[OF w]
  show ?thesis
  proof (cases "c = 0")
    case True
    note f = default_block_alloc_fail[OF w assms(6) a[unfolded True]]
    have "w_live w1 = w_live w" "w_ram w1 = w_ram w" "w_pools w1 = w_pools w" "c_used_list w1 = c_used_list w"
      "c_szUsedSize w1 = c_szUsedSize w" "c_u32UsedCnt w1 = c_u32UsedCnt w" by (subst f; simp)+
    then have "world_ok (appFailCallbck w1 p sz)" "handed (appFailCallbck w1 p sz) = handed w"
      using world_cong[of "appFailCallbck w1 p sz" w] w by (simp_all add: appFailCallbck_def)
    then show ?thesis using failed assms(5) a True by (simp add: pool_create_block_def)
  next
    case False
    define X where "X = pairs_of w (c_used_list w)"
    have "\<forall>x\<in>set X. pair_ok w x" using W(4) X_def by blast
    note D = default_block_alloc_ok[OF W(1) this assms(4,6) a False]
    define b where "b = new_block c c sz"
    define P' where "P' = P\<lparr>m_szCapacity := u32 (m_szCapacity P + sz), in_tBlockList := in_tBlockList P @ [b]\<rparr>"
    define w' where "w' = put_pool w1 p P'"
    note N = new_pair_ok[OF D(1) assms(5), folded b_def]
    obtain A B where AB: "\<And>(w1 :: T_PoolCaching) P'. (\<And>r. r \<noteq> p \<Longrightarrow> w_pools w1 r = w_pools w r) \<Longrightarrow> w_pools w1 p = Some P' \<Longrightarrow>
      pairs_of w1 (c_used_list w) = A @ pairs p (in_tBlockList P') @ B"
      by (rule pairs_of_split[OF W(2) p(1)]) blast
    have pp: "pool_ok w p" by (rule W(3)[OF p(1)])
    then have ne: "in_tBlockList P \<noteq> []" using p(2) by (simp add: pool_ok_def)
    define Q where "Q = pairs p (in_tBlockList P)"
    have old: "X = A @ Q @ B" using AB[of w P] p(2) X_def Q_def by simp
    have newp: "pairs p (in_tBlockList P') = Q @ [rest_pair b]" using pairs_snoc[OF ne] P'_def Q_def by simp
    have new: "pairs_of w' (c_used_list w') = A @ (Q @ [rest_pair b]) @ B"
      using AB[of w' P'] newp D(5,6) w'_def by simp
    have fresh: "fst (fst x) \<noteq> c" if "x \<in> set X" for x using D(2) that by blast
    have rp: "fst (fst (rest_pair b)) = c" "snd (fst (rest_pair b)) = sz" "snd (rest_pair b) = b"
      by (simp_all add: rest_pair_def b_def new_block_def)
    have tot: "total (A @ (Q @ [rest_pair b]) @ B) = total X + sz" using rp by (simp add: old total_def)
    have totp: "total (Q @ [rest_pair b]) = total Q + sz" using rp by (simp add: total_def)
    have "world_ok w'"
      unfolding world_ok_def
    proof (intro conjI ballI)
      show "blocks_apart (w_live w')" using D(3) w'_def by simp
      show "distinct (c_used_list w')" using W(2) D(6) w'_def by simp
      show "c_u32UsedCnt w' = u32 (length (c_used_list w'))" using W(7) D(6,7) w'_def by simp
      show "c_szUsedSize w' = u32 (total (pairs_of w' (c_used_list w')))"
        using D(4) W(6) tot w'_def new by (simp add: u32_add_left X_def)
      show "distinct (map (\<lambda>x. fst (fst x)) (pairs_of w' (c_used_list w')))"
        using W(5) fresh rp unfolding new X_def[symmetric] old by fastforce
      show "pair_ok w' x" if "x \<in> set (pairs_of w' (c_used_list w'))" for x
      proof -
        have "pair_ok w1 x" using that D(2) N(1) unfolding new old by auto
        then show ?thesis using pair_ok_cong[of w' w1] w'_def by simp
      qed
      show "pool_ok w' r" if "r \<in> set (c_used_list w')" for r
      proof (cases "r = p")
        case True
        have "m_pBlock (hd (in_tBlockList P @ [b])) = m_pBlock (hd (in_tBlockList P))" using ne by simp
        then show ?thesis using pp p(2) True newp totp Q_def unfolding pool_ok_def w'_def P'_def by (auto simp: u32_add_left)
      next
        case False
        then show ?thesis using W(3)[of r] that D(5,6) unfolding pool_ok_def w'_def by simp
      qed
    qed
    moreover have "handed w' = handed w"
      using N(2) rp unfolding handed_def new X_def[symmetric] old by (auto simp: b_def new_block_def)
    moreover have "pool_create_block (default_block_alloc mal) w p sz = Some (w', Some b)"
      using assms(5) a False D(5) p(2) by (simp add: pool_create_block_def Let_def w'_def P'_def b_def)
    ultimately show ?thesis
      using created[of w' b P'] D(6) N(2) assms(5) by (simp add: w'_def P'_def b_def new_block_def)
  qed
qed

lemma grow_size_bounds:
  assumes "inc \<noteq> 0" "sz + inc + 32 < 2 ^ 32"
  shows "sz + 24 \<le> grow_size inc sz" "grow_size inc sz \<le> sz + inc + 24"
proof -
  have "(sz + inc + 24) mod inc < inc" using assms(1) by simp
  then have "sz + 24 \<le> (sz + inc + 24) div inc * inc" using minus_mod_eq_div_mult[of "sz + inc + 24" inc] by linarith
  moreover have le: "(sz + inc + 24) div inc * inc \<le> sz + inc + 24" by (rule div_times_less_eq_dividend)
  moreover have "u32 (sz + BLOCK_INFO + POOL_ALIGNMENT) = sz + 24" "u32 (sz + inc + BLOCK_INFO + POOL_ALIGNMENT) = sz + inc + 24"
    using assms by (simp_all add: BLOCK_INFO_def POOL_ALIGNMENT_def u32_id)
  moreover have "u32 ((sz + inc + 24) div inc * inc) = (sz + inc + 24) div inc * inc"
    by (rule u32_id) (use le assms(2) in linarith)
  ultimately show "sz + 24 \<le> grow_size inc sz" "grow_size inc sz \<le> sz + inc + 24"
    unfolding grow_size_def by simp_all
qed

text \<open>What a successful call does: the memory is new, aligned and all the caller asked for.\<close>

definition got :: "T_PoolCaching \<Rightarrow> nat \<Rightarrow> T_PoolCaching \<Rightarrow> addr \<Rightarrow> bool" where
  "got w sz w' q \<longleftrightarrow> world_ok w' \<and> c_used_list w' = c_used_list w \<and>
     (if q = 0 then handed w' = handed w
      else 4 dvd q \<and> (\<exists>n\<ge>sz. handed w \<inter> {q..<q + n} = {} \<and> handed w' = handed w \<union> {q..<q + n}))"

lemma got_cursor:
  assumes "world_ok w" "p \<in> set (c_used_list w)" "w_pools w p = Some P" "in_tBlockList P = xs @ b # ys"
    "m_pCurAddr b + alloc_size sz \<le> m_pEndAddr b" "sz + 4 < 2 ^ 32"
  shows "got w sz (put_pool w p (P\<lparr>in_tBlockList := xs @ b\<lparr>m_pCurAddr := m_pCurAddr b + alloc_size sz\<rparr> # ys\<rparr>)) (m_pCurAddr b)"
proof -
  have a: "sz \<le> alloc_size sz" "4 dvd alloc_size sz" using alloc_size_bounds[OF assms(6)] by auto
  note C = cursor_world[OF assms(1-5) a(2) refl]
  show ?thesis using C a(1) unfolding got_def by auto
qed

lemma got_mono: "world_ok w1 \<Longrightarrow> c_used_list w1 = c_used_list w \<Longrightarrow> handed w1 = handed w \<Longrightarrow> got w1 sz w' q \<Longrightarrow> got w sz w' q"
  unfolding got_def by metis

lemma pool_blocks_ok:
  assumes "world_ok w" "p \<in> set (c_used_list w)" "w_pools w p = Some P" "b \<in> set (in_tBlockList P)"
  obtains ch where "pair_ok w (ch, b)"
proof -
  have "\<exists>ch. (ch, b) \<in> set (pairs p (in_tBlockList P))"
    using assms(4) by (cases "in_tBlockList P") (auto simp: rest_pair_def image_iff)
  then obtain ch where "(ch, b) \<in> set (pairs p (in_tBlockList P))" ..
  then have "(ch, b) \<in> set (pairs_of w (c_used_list w))" using assms(2,3) by (force simp: pairs_of_def)
  then show ?thesis using that world_okD(4)[OF assms(1)] by blast
qed

lemma pool_allocate_find_ok:
  assumes w: "world_ok w" and p: "p \<in> set (c_used_list w)" "w_pools w p = Some P" and "mem_ok mal" "sz + m_szIncSize P + 32 < 2 ^ 32"
  obtains w' q where "pool_allocate_find (default_block_alloc mal) w p sz = Some (w', q)" "got w sz w' q"
proof -
  have sz: "sz + 4 < 2 ^ 32" using assms(5) by simp
  have "\<forall>b\<in>set (in_tBlockList P). \<exists>ch. pair_ok w (ch, b)" using pool_blocks_ok[OF w p] by metis
  note A = alloc_in_blocks_ok[OF this sz]
  obtain bs q where r: "alloc_in_blocks (in_tBlockList P) sz = (bs, q)" by fastforce
  show ?thesis
  proof (cases "q = 0")
    case False
    then obtain xs b ys where b: "in_tBlockList P = xs @ b # ys" "q = m_pCurAddr b" "q + alloc_size sz \<le> m_pEndAddr b"
      "bs = xs @ b\<lparr>m_pCurAddr := q + alloc_size sz\<rparr> # ys" using A[OF r] by auto
    have "got w sz (put_pool w p (P\<lparr>in_tBlockList := bs\<rparr>)) q" using got_cursor[OF w p b(1) _ sz] b by simp
    then show ?thesis using that p(2) r False by (simp add: pool_allocate_find_def)
  next
    case q: True
    show ?thesis
    proof (cases "m_szIncSize P = 0")
      case True
      have "world_ok (appFailCallbck w p sz)" "handed (appFailCallbck w p sz) = handed w"
        using world_cong[of "appFailCallbck w p sz" w] w by (simp_all add: appFailCallbck_def)
      then have "got w sz (appFailCallbck w p sz) 0" by (simp add: got_def appFailCallbck_def)
      then show ?thesis using that p(2) r q True by (simp add: pool_allocate_find_def)
    next
      case inc: False
      define g where "g = grow_size (m_szIncSize P) sz"
      have g: "BLOCK_INFO \<le> g" "g + 8 < 2 ^ 32" "sz + 4 \<le> g - BLOCK_INFO"
        using grow_size_bounds[OF inc assms(5)] assms(5) by (simp_all add: g_def BLOCK_INFO_def)
      show ?thesis
      proof (rule pool_create_block_ok[OF w p assms(4) g(1,2)], goal_cases)
        case (1 w1)
        have "c_used_list w1 = c_used_list w"
          using 1(1) g(1) by (auto simp: pool_create_block_def Let_def appFailCallbck_def default_block_alloc_def cpool_on_block_alloc_def
            cpool_on_block_free_def split: if_splits prod.splits bind_splits)
        then have "got w sz w1 0" using 1 by (simp add: got_def)
        moreover have "pool_allocate_find (default_block_alloc mal) w p sz = Some (w1, 0)"
          using p(2) r q inc 1(1) by (simp add: pool_allocate_find_def g_def)
        ultimately show ?thesis using that by blast
      next
        case (2 w1 P1 b)
        have p1: "p \<in> set (c_used_list w1)" using p(1) 2(4) by simp
        have "b \<in> set (in_tBlockList P1)" using 2(6) by simp
        then obtain ch where ch: "pair_ok w1 (ch, b)" by (rule pool_blocks_ok[OF 2(2) p1 2(5)])
        have fit: "m_pCurAddr b + alloc_size sz \<le> m_pEndAddr b" using 2(7) g(3) alloc_size_bounds(2)[OF sz] by simp
        let ?w = "put_pool w1 p (P1\<lparr>in_tBlockList := in_tBlockList P @ [b\<lparr>m_pCurAddr := m_pCurAddr b + alloc_size sz\<rparr>]\<rparr>)"
        have "got w1 sz ?w (m_pCurAddr b)" by (rule got_cursor[OF 2(2) p1 2(5) _ fit sz]) (simp add: 2(6))
        then have "got w sz ?w (m_pCurAddr b)" using got_mono 2(2-4) by blast
        moreover have "pool_allocate_find (default_block_alloc mal) w p sz = Some (?w, m_pCurAddr b)"
          using p(2) r q inc 2(1,5,6) fit pool_alloc_from_block_ok[OF ch sz] pair_okD(9)[OF ch]
          by (simp add: pool_allocate_find_def g_def)
        ultimately show ?thesis using that by blast
      qed
    qed
  qed
qed

lemma POOL_Alloc_core:
  assumes w: "world_ok w" and p: "p \<in> set (c_used_list w)" and mal: "mem_ok mal"
    and sz: "sz + m_szIncSize (the (w_pools w p)) + 32 < 2 ^ 32"
  shows "\<exists>w' q. POOL_Alloc (default_block_alloc mal) w p sz = Some (w', q) \<and> got w sz w' q"
proof -
  obtain P b bs where P: "w_pools w p = Some P" "m_u32Magic P = POOL_MAGIC_CODE" "in_tBlockList P = b # bs"
    using world_okD(3)[OF w p] unfolding pool_ok_def by (metis neq_Nil_conv)
  have sz': "sz + m_szIncSize P + 32 < 2 ^ 32" "sz + 4 < 2 ^ 32" using sz P(1) by simp_all
  have "b \<in> set (in_tBlockList P)" using P(3) by simp
  then obtain ch where ch: "pair_ok w (ch, b)" by (rule pool_blocks_ok[OF w p P(1)])
  show ?thesis
  proof (cases "m_pCurAddr b + alloc_size sz \<le> m_pEndAddr b")
    case True
    then have "got w sz (put_pool w p (P\<lparr>in_tBlockList := b\<lparr>m_pCurAddr := m_pCurAddr b + alloc_size sz\<rparr> # bs\<rparr>)) (m_pCurAddr b)"
      using got_cursor[OF w p P(1) _ True sz'(2), of "[]" bs] P(3) by simp
    then show ?thesis using P True pool_alloc_from_block_ok[OF ch sz'(2)] pair_okD(9)[OF ch] by (simp add: POOL_Alloc_def)
  next
    case False
    obtain w' q where "pool_allocate_find (default_block_alloc mal) w p sz = Some (w', q)" "got w sz w' q"
      by (rule pool_allocate_find_ok[OF w p P(1) mal sz'(1)])
    then show ?thesis using P False pool_alloc_from_block_ok[OF ch sz'(2)] by (simp add: POOL_Alloc_def)
  qed
qed


subsection \<open>Releasing pools\<close>

definition block_size :: "T_PoolBlockInfo \<Rightarrow> nat" where
  "block_size b = m_pEndAddr b - m_pBlock b"

lemma default_block_free_ok:
  assumes "chunk_ok w (a, sz)"
  shows "default_block_free w a sz = Some (w\<lparr>c_szUsedSize := sub32 (c_szUsedSize w) sz, w_live := filter (\<lambda>l. fst l \<noteq> a - 4) (w_live w)\<rparr>)"
proof -
  have "a - 4 \<in> fst ` set (w_live w)" using assms unfolding chunk_ok_def by (metis fst_conv image_eqI)
  then show ?thesis using assms by (simp add: default_block_free_def cpool_on_block_free_def chunk_ok_def SIG_SIZE_def Let_def)
qed

lemma chunk_ok_filter:
  assumes "chunk_ok w c" "w_ram w' = w_ram w" "w_live w' = filter (\<lambda>l. Q (fst l)) (w_live w)" "Q (fst c - 4)"
  shows "chunk_ok w' c"
  using assms by (simp add: chunk_ok_def)

lemma free_blocks_ok:
  assumes "distinct (map m_pBlock bs)" "\<forall>b\<in>set bs. chunk_ok w (m_pBlock b, block_size b) \<and> m_pBlock b \<le> m_pEndAddr b"
    "c_szUsedSize w = u32 (n + sum_list (map block_size bs))"
  shows "free_blocks default_block_free w bs =
    Some (w\<lparr>c_szUsedSize := u32 n, w_live := filter (\<lambda>l. \<forall>b\<in>set bs. fst l \<noteq> m_pBlock b - 4) (w_live w)\<rparr>)"
  using assms
proof (induction bs arbitrary: w)
  case Nil
  then show ?case by simp
next
  case (Cons b bs)
  have c: "chunk_ok w (m_pBlock b, block_size b)" "m_pBlock b \<le> m_pEndAddr b" using Cons.prems(2) by simp_all
  then have lt: "block_size b < 2 ^ 32" "m_pEndAddr b < 2 ^ 32" by (auto simp: chunk_ok_def block_size_def)
  have "sub32 (c_szUsedSize w) (block_size b) = u32 (n + sum_list (map block_size bs))"
    using sub32_u32_add[OF lt(1), of "n + sum_list (map block_size bs)"] Cons.prems(3) by (simp add: ac_simps)
  moreover define w1 where "w1 = w\<lparr>c_szUsedSize := sub32 (c_szUsedSize w) (block_size b), w_live := filter (\<lambda>l. fst l \<noteq> m_pBlock b - 4) (w_live w)\<rparr>"
  moreover have "chunk_ok w1 (m_pBlock d, block_size d) \<and> m_pBlock d \<le> m_pEndAddr d" if "d \<in> set bs" for d
  proof -
    have "m_pBlock d \<noteq> m_pBlock b" using Cons.prems(1) that by (auto simp: image_iff)
    moreover have cd: "chunk_ok w (m_pBlock d, block_size d)" using Cons.prems(2) that by simp
    ultimately have "m_pBlock d - 4 \<noteq> m_pBlock b - 4" using c(1) by (auto simp: chunk_ok_def)
    then show ?thesis using chunk_ok_filter[OF cd, of w1 "\<lambda>a. a \<noteq> m_pBlock b - 4"] Cons.prems(2) that by (simp add: w1_def)
  qed
  ultimately have "free_blocks default_block_free w1 bs =
      Some (w1\<lparr>c_szUsedSize := u32 n, w_live := filter (\<lambda>l. \<forall>b\<in>set bs. fst l \<noteq> m_pBlock b - 4) (w_live w1)\<rparr>)"
    using Cons.IH[of w1] Cons.prems(1) by simp
  moreover have "default_block_free w (m_pBlock b) (sub32 (m_pEndAddr b) (m_pBlock b)) = Some w1"
    using default_block_free_ok[OF c(1)] c(2) lt(2) by (simp add: sub32_le block_size_def w1_def)
  ultimately show ?case by (simp add: w1_def conj_commute)
qed

lemma PoolDestroyInt_ok:
  assumes P: "w_pools w p = Some P" "in_tBlockList P = b # bs" and x: "\<forall>x\<in>set (pairs p (b # bs)). pair_ok w x"
    and d: "distinct (map (\<lambda>x. fst (fst x)) (pairs p (b # bs)))" and n: "c_szUsedSize w = u32 (n + total (pairs p (b # bs)))"
  shows "PoolDestroyInt default_block_free w p = Some (w\<lparr>c_szUsedSize := u32 n,
    w_live := filter (\<lambda>l. \<forall>x\<in>set (pairs p (b # bs)). fst l \<noteq> fst (fst x) - 4) (w_live w), w_pools := (w_pools w)(p := None)\<rparr>)"
proof -
  have first: "chunk_ok w (p, m_pEndAddr b - p)" "p \<le> m_pEndAddr b" "m_pEndAddr b < 2 ^ 32" "m_pEndAddr b - p < 2 ^ 32"
    using x by (auto simp: pair_ok_def chunk_ok_def)
  have rest: "\<forall>b\<in>set bs. chunk_ok w (m_pBlock b, block_size b) \<and> m_pBlock b \<le> m_pEndAddr b"
    using x by (auto simp: rest_pair_def pair_ok_def block_size_def)
  have dist: "distinct (map m_pBlock bs)" "\<forall>d\<in>set bs. m_pBlock d \<noteq> p"
    using d by (auto simp: rest_pair_def comp_def)
  define m where "m = n + (m_pEndAddr b - p)"
  have n': "c_szUsedSize w = u32 (m + sum_list (map block_size bs))"
    using n by (simp add: total_def rest_pair_def m_def comp_def add.assoc block_size_def[abs_def])
  define live where "live = filter (\<lambda>l. \<forall>b\<in>set bs. fst l \<noteq> m_pBlock b - 4) (w_live w)"
  have fb: "free_blocks default_block_free w (rev bs) = Some (w\<lparr>c_szUsedSize := u32 m, w_live := live\<rparr>)"
    using free_blocks_ok[of "rev bs" w m] dist(1) rest n' by (simp add: rev_map[symmetric] live_def sum_list_rev)
  have "\<exists>P1. reset_pool default_block_free w p = Some (w\<lparr>c_szUsedSize := u32 m, w_live := live, w_pools := (w_pools w)(p \<mapsto> P1)\<rparr>)"
  proof (cases bs)
    case Nil
    then have "w\<lparr>c_szUsedSize := u32 m, w_live := live, w_pools := (w_pools w)(p \<mapsto> P)\<rparr> = w"
      using n' P(1) by (simp add: live_def fun_upd_idem)
    then show ?thesis using P Nil by (auto simp: reset_pool_def intro!: exI[of _ P])
  next
    case (Cons c cs)
    then show ?thesis using P fb by (auto simp: reset_pool_def put_pool_def)
  qed
  then obtain P1 where r: "reset_pool default_block_free w p = Some (w\<lparr>c_szUsedSize := u32 m, w_live := live, w_pools := (w_pools w)(p \<mapsto> P1)\<rparr>)" ..
  let ?w1 = "w\<lparr>c_szUsedSize := u32 m, w_live := live, w_pools := (w_pools w)(p \<mapsto> P1)\<rparr>"
  have "\<forall>d\<in>set bs. p - 4 \<noteq> m_pBlock d - 4" using dist(2) rest first(1) unfolding chunk_ok_def by fastforce
  then have "chunk_ok ?w1 (p, m_pEndAddr b - p)"
    by (intro chunk_ok_filter[OF first(1), of _ "\<lambda>a. \<forall>b\<in>set bs. a \<noteq> m_pBlock b - 4"]) (simp_all add: live_def)
  note F = default_block_free_ok[OF this]
  have "sub32 (u32 m) (m_pEndAddr b - p) = u32 n" using sub32_u32_add[OF first(4), of n] by (simp add: m_def)
  moreover have "filter (\<lambda>l. fst l \<noteq> p - 4) live = filter (\<lambda>l. \<forall>x\<in>set (pairs p (b # bs)). fst l \<noteq> fst (fst x) - 4) (w_live w)"
    by (auto simp: live_def rest_pair_def intro!: filter_cong)
  ultimately show ?thesis
    using P r F first(2,3) by (simp add: PoolDestroyInt_def sub32_le)
qed

text \<open>The world without a pool.\<close>

lemma world_ok_remove:
  assumes w: "world_ok w" and u: "c_used_list w = ps1 @ p # ps2" and P: "w_pools w p = Some P" "in_tBlockList P = b # bs"
    and w': "w_live w' = filter (\<lambda>l. \<forall>x\<in>set (pairs p (b # bs)). fst l \<noteq> fst (fst x) - 4) (w_live w)"
    "w_ram w' = w_ram w" "\<And>r. r \<noteq> p \<Longrightarrow> w_pools w' r = w_pools w r" "c_used_list w' = ps1 @ ps2"
    "c_szUsedSize w' = u32 (total (pairs_of w (ps1 @ ps2)))" "c_u32UsedCnt w' = sub32 (c_u32UsedCnt w) 1"
  shows "world_ok w'" "handed w' = handed w - (\<Union>x\<in>set (pairs p (b # bs)). {m_pStartAddr (snd x)..<m_pCurAddr (snd x)})"
proof -
  note W = world_okD[OF w]
  have n: "p \<notin> set ps1" "p \<notin> set ps2" "distinct (ps1 @ ps2)" using W(2) u by auto
  define A where "A = pairs_of w ps1"
  define B where "B = pairs_of w ps2"
  define M where "M = pairs p (b # bs)"
  have old: "pairs_of w (c_used_list w) = A @ M @ B" using u P by (simp add: A_def B_def M_def pairs_of_Cons)
  have "pairs_of w' (ps1 @ ps2) = pairs_of w (ps1 @ ps2)" by (rule pairs_of_cong) (use n w'(3) in \<open>metis Un_iff set_append\<close>)
  then have new: "pairs_of w' (c_used_list w') = A @ B" using w'(4) by (simp add: A_def B_def)
  have d: "fst (fst x) \<noteq> fst (fst y)" if "x \<in> set (A @ B)" "y \<in> set M" for x y using W(5) that unfolding old by fastforce
  have ok: "pair_ok w x" if "x \<in> set A \<union> set B \<union> set M" for x using W(4)[of x] that unfolding old by auto
  show "world_ok w'"
    unfolding world_ok_def
  proof (intro conjI ballI)
    show "blocks_apart (w_live w')" using W(1) w'(1) unfolding blocks_apart_def by simp blast
    show "distinct (c_used_list w')" using n w'(4) by simp
    show "pool_ok w' r" if "r \<in> set (c_used_list w')" for r
    proof -
      have "r \<noteq> p" "r \<in> set (c_used_list w)" using that n w'(4) u by auto
      then show ?thesis using W(3)[of r] w'(3) by (simp add: pool_ok_def)
    qed
    show "pair_ok w' x" if "x \<in> set (pairs_of w' (c_used_list w'))" for x
    proof -
      have x: "x \<in> set (A @ B)" using that unfolding new .
      then have px: "pair_ok w x" using ok[of x] by auto
      have c: "chunk_ok w (fst x)" by (rule pair_okD(1)[OF px])
      have "fst (fst x) - 4 \<noteq> fst (fst y) - 4" if "y \<in> set M" for y
        using d[OF x that] c pair_okD(1)[of w y] ok[of y] that unfolding chunk_ok_def by auto
      then have "chunk_ok w' (fst x)"
        by (intro chunk_ok_filter[OF c w'(2), of "\<lambda>a. \<forall>x\<in>set M. a \<noteq> fst (fst x) - 4"]) (auto simp: w'(1) M_def)
      then show ?thesis using px unfolding pair_ok_def by blast
    qed
    show "distinct (map (\<lambda>x. fst (fst x)) (pairs_of w' (c_used_list w')))" using W(5) unfolding old new by auto
    show "c_szUsedSize w' = u32 (total (pairs_of w' (c_used_list w')))" using w'(5) new by (simp add: A_def B_def)
    show "c_u32UsedCnt w' = u32 (length (c_used_list w'))"
      using w'(4,6) W(7) u sub32_u32_add[of 1 "length (ps1 @ ps2)"] by simp
  qed
  have "{m_pStartAddr (snd x)..<m_pCurAddr (snd x)} \<inter> {m_pStartAddr (snd y)..<m_pCurAddr (snd y)} = {}"
    if "x \<in> set (A @ B)" "y \<in> set M" for x y
    using pairs_apart[OF W(1) ok ok d[OF that]] pair_memory[OF ok, of x] pair_memory[OF ok, of y] that by fastforce
  then show "handed w' = handed w - (\<Union>x\<in>set (pairs p (b # bs)). {m_pStartAddr (snd x)..<m_pCurAddr (snd x)})"
    unfolding handed_def old new M_def[symmetric] set_append UN_Un by blast
qed

text \<open>C21: Releasing a pool that does not stay in the cache: every block of its chain passes the check of its
signatures and goes back to malloc, exactly those do, the sizes in use are those of the other pools, and the
other pools keep all the memory they have given out.
\<close>

theorem POOL_Destroy_frees:
  assumes w: "world_ok w" and p: "p \<in> set (c_used_list w)" and P: "w_pools w p = Some P"
    and big: "m_szCapacity P > 65536 \<or> u32 (c_szCapacity w + m_szCapacity P) > c_szCapacityMax w"
  shows "\<exists>w'. POOL_Destroy w p = Some (w', 0) \<and> world_ok w' \<and> c_used_list w' = remove1 p (c_used_list w) \<and> w_pools w' p = None \<and>
    w_live w' = filter (\<lambda>l. \<forall>x\<in>set (pairs p (in_tBlockList P)). fst l \<noteq> fst (fst x) - 4) (w_live w) \<and>
    handed w' = handed w - (\<Union>x\<in>set (pairs p (in_tBlockList P)). {m_pStartAddr (snd x)..<m_pCurAddr (snd x)})"
proof -
  note W = world_okD[OF w]
  obtain b bs where b: "in_tBlockList P = b # bs" "m_u32Magic P = POOL_MAGIC_CODE"
    using W(3)[OF p] P unfolding pool_ok_def by (metis neq_Nil_conv option.inject)
  obtain ps1 ps2 where u: "c_used_list w = ps1 @ p # ps2" "p \<notin> set ps1" using p by (meson split_list_first)
  have all: "pairs_of w (c_used_list w) = pairs_of w ps1 @ pairs p (b # bs) @ pairs_of w ps2" using u(1) P b(1) by (simp add: pairs_of_Cons)
  define w1 where "w1 = w\<lparr>c_used_list := remove1 p (c_used_list w), c_u32UsedCnt := sub32 (c_u32UsedCnt w) 1\<rparr>"
  define n where "n = total (pairs_of w (ps1 @ ps2))"
  have "\<forall>x\<in>set (pairs p (b # bs)). pair_ok w1 x" using W(4) pair_ok_cong[of w1 w] unfolding all by (auto simp: w1_def)
  moreover have "distinct (map (\<lambda>x. fst (fst x)) (pairs p (b # bs)))" using W(5) unfolding all by (simp del: pairs.simps)
  moreover have "c_szUsedSize w1 = u32 (n + total (pairs p (b # bs)))" using W(6) unfolding all by (simp add: w1_def n_def ac_simps del: pairs.simps)
  ultimately obtain w2 where D: "PoolDestroyInt default_block_free w1 p = Some w2"
    "w2 = w1\<lparr>c_szUsedSize := u32 n, w_live := filter (\<lambda>l. \<forall>x\<in>set (pairs p (b # bs)). fst l \<noteq> fst (fst x) - 4) (w_live w1),
      w_pools := (w_pools w1)(p := None)\<rparr>"
    using PoolDestroyInt_ok[of w1 p P b bs n] P b(1) by (simp add: w1_def del: pairs.simps)
  have "POOL_Destroy w p = Some (w2, 0)"
    using P b(2) p big D(1) by (simp add: POOL_Destroy_def cpool_release_pool_def Let_def w1_def pool_sizes_def POOL_CACHING_ARRAY_SIZE_def)
  moreover have "remove1 p (c_used_list w) = ps1 @ ps2" using u by (simp add: remove1_append)
  moreover have "world_ok w2"
    "handed w2 = handed w - (\<Union>x\<in>set (pairs p (b # bs)). {m_pStartAddr (snd x)..<m_pCurAddr (snd x)})"
    using world_ok_remove[OF w u(1) P b(1), of w2] calculation(2) by (simp_all add: D(2) w1_def n_def del: pairs.simps)
  ultimately show ?thesis using b(1) by (auto simp: D(2) w1_def simp del: pairs.simps)
qed

subsection \<open>Creating pools\<close>

lemma size_down_ok:
  "size_down init n \<le> n \<and> (\<forall>i. size_down init n \<le> i \<and> i < n \<longrightarrow> init \<le> pool_sizes ! i) \<and>
   (size_down init n \<noteq> 0 \<longrightarrow> pool_sizes ! (size_down init n - 1) < init)"
proof (induction n)
  case (Suc n)
  then show ?case by (auto simp: less_Suc_eq)
qed simp

lemma size_up_ok:
  "i \<le> size_up init i n \<and> size_up init i n \<le> i + n \<and> (size_up init i n < i + n \<longrightarrow> init \<le> pool_sizes ! size_up init i n) \<and>
   (\<forall>j. i \<le> j \<and> j < size_up init i n \<longrightarrow> pool_sizes ! j < init)"
proof (induction n arbitrary: i)
  case (Suc n)
  from Suc[of "i + 1"] show ?case by (auto simp: le_eq_less_or_eq[of i])
qed auto

lemma pool_sizes_sorted: "i \<le> j \<Longrightarrow> j < 16 \<Longrightarrow> pool_sizes ! i \<le> pool_sizes ! j"
  by (rule sorted_nth_mono) (simp_all add: pool_sizes_def)

text \<open>The search finds the first size that is large enough, or the end of the table.\<close>

lemma pool_index_least:
  "pool_index init \<le> 16" "pool_index init < 16 \<Longrightarrow> init \<le> pool_sizes ! pool_index init"
  "i < pool_index init \<Longrightarrow> pool_sizes ! i < init"
proof -
  define r where "r = pool_index init"
  have "r \<le> 16 \<and> (r < 16 \<longrightarrow> init \<le> pool_sizes ! r) \<and> (i < r \<longrightarrow> pool_sizes ! i < init)"
  proof (cases "init \<le> pool_sizes ! 5")
    case True
    then have r: "r = size_down init 5" by (simp add: r_def pool_index_def POOL_START_SIZE_def)
    note D = size_down_ok[of init 5, folded r]
    have "init \<le> pool_sizes ! r" using D True by (cases "r = 5") simp_all
    moreover have "pool_sizes ! i < init" if "i < r"
    proof -
      have "i \<le> r - 1" "r - 1 < 16" "r \<noteq> 0" using D that by auto
      then show ?thesis using pool_sizes_sorted[of i "r - 1"] D by linarith
    qed
    ultimately show ?thesis using D by auto
  next
    case False
    then have r: "r = size_up init 6 10" by (simp add: r_def pool_index_def POOL_START_SIZE_def POOL_CACHING_ARRAY_SIZE_def)
    note D = size_up_ok[of 6 init 10, folded r]
    have "pool_sizes ! i < init" if "i < r"
    proof (cases "i < 6")
      case True
      then show ?thesis using False pool_sizes_sorted[of i 5] by simp
    qed (use D that in auto)
    then show ?thesis using D by auto
  qed
  then show "pool_index init \<le> 16" "pool_index init < 16 \<Longrightarrow> init \<le> pool_sizes ! pool_index init"
    "i < pool_index init \<Longrightarrow> pool_sizes ! i < init" by (auto simp: r_def)
qed

definition no_free :: "T_PoolCaching \<Rightarrow> bool" where
  "no_free w \<longleftrightarrow> (\<forall>i<POOL_CACHING_ARRAY_SIZE. c_free_list w ! i = [])"

text \<open>The size of the first block of a new pool.\<close>

definition first_size :: "nat \<Rightarrow> nat" where
  "first_size init = (case find (\<lambda>s. init \<le> s) pool_sizes of Some s \<Rightarrow> s | None \<Rightarrow> init)"

lemma first_size_index: "first_size init = (if pool_index init < POOL_CACHING_ARRAY_SIZE then pool_sizes ! pool_index init else init)"
proof (cases "pool_index init < 16")
  case True
  have len: "length pool_sizes = 16" by (simp add: pool_sizes_def)
  have "find (\<lambda>s. init \<le> s) pool_sizes = Some (pool_sizes ! pool_index init)"
    unfolding find_Some_iff using True len pool_index_least(2)[OF True] pool_index_least(3) by (intro exI[of _ "pool_index init"]) (auto simp: not_le)
  then show ?thesis using True by (simp add: first_size_def POOL_CACHING_ARRAY_SIZE_def)
next
  case False
  have "pool_sizes ! i < init" if "i < 16" for i using pool_index_least(3)[of i init] False that by simp
  then have "find (\<lambda>s. init \<le> s) pool_sizes = None"
    unfolding find_None_iff by (auto simp: in_set_conv_nth pool_sizes_def[THEN arg_cong[of _ _ length]] not_le)
  then show ?thesis using False by (simp add: first_size_def POOL_CACHING_ARRAY_SIZE_def)
qed

lemma first_size_ok: "init \<le> first_size init" "POOL_INFO + BLOCK_INFO \<le> first_size init"
proof -
  show i: "init \<le> first_size init" using pool_index_least(1,2)[of init] by (simp add: first_size_index POOL_CACHING_ARRAY_SIZE_def)
  show "POOL_INFO + BLOCK_INFO \<le> first_size init"
  proof (cases "pool_index init < 16")
    case True
    have "256 \<le> pool_sizes ! pool_index init" using pool_sizes_sorted[of 0 "pool_index init"] True by (simp add: pool_sizes_def)
    then show ?thesis using True by (simp add: first_size_index POOL_CACHING_ARRAY_SIZE_def POOL_INFO_def BLOCK_INFO_def)
  next
    case False
    then have "pool_sizes ! 15 < init" using pool_index_least(3)[of 15 init] by simp
    then show ?thesis using i by (simp add: pool_sizes_def POOL_INFO_def BLOCK_INFO_def)
  qed
qed

lemma PoolCreateInt_ok:
  assumes w: "world_ok w" and "mem_ok mal" "sz + 8 < 2 ^ 32" "POOL_INFO + BLOCK_INFO \<le> sz"
    and c: "PoolCreateInt (default_block_alloc mal) fmt w name sz inc = (w1, p)"
  shows "if p = 0 then w1 = w\<lparr>c_szPeakUsedSize := c_szPeakUsedSize w1\<rparr>
    else \<exists>b P. b = new_block p (p + POOL_INFO) sz \<and> w_pools w1 = (w_pools w)(p \<mapsto> P) \<and> in_tBlockList P = [b] \<and> m_szCapacity P = sz \<and>
      m_szIncSize P = inc \<and> m_strName P = pool_name fmt p name \<and> m_pCurAddr b = p + (POOL_INFO + BLOCK_INFO) \<and> m_pEndAddr b = p + sz \<and>
      pair_ok w1 ((p, sz), b) \<and> (\<forall>x\<in>set (pairs_of w (c_used_list w)). pair_ok w1 x \<and> fst (fst x) \<noteq> p) \<and> blocks_apart (w_live w1) \<and>
      c_szUsedSize w1 = u32 (c_szUsedSize w + sz) \<and> c_used_list w1 = c_used_list w \<and> c_u32UsedCnt w1 = c_u32UsedCnt w \<and>
      c_free_list w1 = c_free_list w \<and> w_live w1 = (p - 4, sz + 8) # w_live w \<and> c_szCapacity w1 = c_szCapacity w \<and> c_szCapacityMax w1 = c_szCapacityMax w"
proof -
  note W = world_okD[OF w]
  obtain w2 q where a: "default_block_alloc mal w sz = (w2, q)" by fastforce
  show ?thesis
  proof (cases "q = 0")
    case True
    then show ?thesis using default_block_alloc_fail[OF w assms(3)] a c assms(4) by (auto simp: PoolCreateInt_def)
  next
    case False
    have "\<forall>x\<in>set (pairs_of w (c_used_list w)). pair_ok w x" using W(4) by blast
    note D = default_block_alloc_ok[OF W(1) this assms(2,3) a False]
    define b where "b = new_block q (q + POOL_INFO) sz"
    have q: "4 dvd q" "q + sz + 4 < 2 ^ 32" using D(1) by (simp_all add: chunk_ok_def)
    have "ALIGN_PTR (q + POOL_INFO + BLOCK_INFO) = q + POOL_INFO + BLOCK_INFO"
      using q assms(4) by (intro ALIGN_PTR_id) (simp_all add: POOL_INFO_def BLOCK_INFO_def)
    then have b: "m_pCurAddr b = q + (POOL_INFO + BLOCK_INFO)" "m_pEndAddr b = q + sz" "pair_ok w2 ((q, sz), b)"
      using D(1) q assms(4) by (simp_all add: b_def new_block_def pair_ok_def POOL_INFO_def BLOCK_INFO_def)
    have "p = q" "w1 = put_pool w2 q (PoolInitInt fmt q \<lparr>m_strName = [], m_u32Magic = 0, m_pFactoryData = 0, m_szCapacity = sz, m_szIncSize = 0,
      in_tBlockList = [b]\<rparr> name inc)"
      using a c assms(4) False by (auto simp: PoolCreateInt_def Let_def b_def)
    moreover have "pair_ok w1 x = pair_ok w2 x" for x using calculation by (intro pair_ok_cong) simp_all
    ultimately show ?thesis using D b False by (auto simp: PoolInitInt_def b_def)
  qed
qed

lemma POOL_Create_core:
  assumes w: "world_ok w" and mal: "mem_ok mal" and nf: "no_free w" and sz: "first_size init + 8 < 2 ^ 32"
  shows "\<exists>w' p. POOL_Create mal fmt local w name init inc = Some (w', p) \<and> world_ok w' \<and> handed w' = handed w \<and> no_free w' \<and>
    (if p = 0 then c_used_list w' = c_used_list w
     else p \<notin> set (c_used_list w) \<and> c_used_list w' = p # c_used_list w \<and> w_live w' = (p - 4, first_size init + 8) # w_live w \<and>
       (\<exists>P b. w_pools w' p = Some P \<and> in_tBlockList P = [b] \<and> m_szIncSize P = inc \<and> m_strName P = pool_name fmt p name \<and>
          m_szCapacity P = first_size init \<and> m_pFactoryData P = local \<and>
          m_pEndAddr b - m_pCurAddr b = first_size init - (POOL_INFO + BLOCK_INFO)))"
proof -
  note W = world_okD[OF w]
  define s where "s = first_size init"
  obtain w1 p where a: "PoolCreateInt (default_block_alloc mal) fmt w name s inc = (w1, p)" by fastforce
  have i: "pool_index init = POOL_CACHING_ARRAY_SIZE \<or> c_free_list w ! pool_index init = []"
    using nf pool_index_least(1)[of init] unfolding no_free_def POOL_CACHING_ARRAY_SIZE_def by (metis le_neq_implies_less)
  note C = PoolCreateInt_ok[OF w mal sz[folded s_def] first_size_ok(2)[of init, folded s_def] a]
  have r: "POOL_Create mal fmt local w name init inc =
    (if p = 0 then Some (w1, 0)
     else do { P \<leftarrow> w_pools w1 p;
       Some (put_pool (w1\<lparr>c_used_list := p # c_used_list w1, c_u32UsedCnt := u32 (c_u32UsedCnt w1 + 1)\<rparr>)
         p (P\<lparr>m_pFactoryData := local, m_u32Magic := POOL_MAGIC_CODE\<rparr>), p) })"
    using i a by (auto simp: POOL_Create_def cpool_create_pool_def Let_def s_def first_size_index)
  show ?thesis
  proof (cases "p = 0")
    case True
    then have f: "w1 = w\<lparr>c_szPeakUsedSize := c_szPeakUsedSize w1\<rparr>" using C by simp
    have "w_live w1 = w_live w" "w_ram w1 = w_ram w" "w_pools w1 = w_pools w" "c_used_list w1 = c_used_list w" "c_free_list w1 = c_free_list w"
      "c_szUsedSize w1 = c_szUsedSize w" "c_u32UsedCnt w1 = c_u32UsedCnt w" by (subst f; simp)+
    then show ?thesis using r True world_cong[of w1 w] w nf by (simp add: no_free_def)
  next
    case False
    then obtain b P where N: "w_pools w1 = (w_pools w)(p \<mapsto> P)" "in_tBlockList P = [b]" "m_szCapacity P = s"
      "m_szIncSize P = inc" "m_strName P = pool_name fmt p name" "m_pCurAddr b = p + (POOL_INFO + BLOCK_INFO)" "m_pEndAddr b = p + s"
      "pair_ok w1 ((p, s), b)" "\<forall>x\<in>set (pairs_of w (c_used_list w)). pair_ok w1 x \<and> fst (fst x) \<noteq> p" "blocks_apart (w_live w1)"
      "c_szUsedSize w1 = u32 (c_szUsedSize w + s)" "c_used_list w1 = c_used_list w" "c_u32UsedCnt w1 = c_u32UsedCnt w"
      "c_free_list w1 = c_free_list w" "w_live w1 = (p - 4, s + 8) # w_live w" "b = new_block p (p + POOL_INFO) s" using C by auto
    define P' where "P' = P\<lparr>m_pFactoryData := local, m_u32Magic := POOL_MAGIC_CODE\<rparr>"
    define w' where "w' = put_pool (w1\<lparr>c_used_list := p # c_used_list w1, c_u32UsedCnt := u32 (c_u32UsedCnt w1 + 1)\<rparr>) p P'"
    have res: "POOL_Create mal fmt local w name init inc = Some (w', p)" using r False N(1) by (simp add: w'_def P'_def)
    have new: "p \<notin> set (c_used_list w)"
    proof
      assume "p \<in> set (c_used_list w)"
      moreover then obtain P0 where "w_pools w p = Some P0" "in_tBlockList P0 \<noteq> []" using W(3) unfolding pool_ok_def by blast
      ultimately have "\<exists>x\<in>set (pairs_of w (c_used_list w)). fst (fst x) = p"
        by (cases "in_tBlockList P0") (force simp: pairs_of_def)+
      then show False using N(9) by blast
    qed
    have "pairs_of w' (c_used_list w) = pairs_of w (c_used_list w)" using new N(1) by (intro pairs_of_cong) (auto simp: w'_def)
    then have all: "pairs_of w' (c_used_list w') = ((p, s), b) # pairs_of w (c_used_list w)"
      using N(2,7,12) by (simp add: w'_def P'_def pairs_of_Cons)
    have pk: "pair_ok w' x = pair_ok w1 x" for x by (intro pair_ok_cong) (simp_all add: w'_def)
    have "world_ok w'"
      unfolding world_ok_def
    proof (intro conjI ballI)
      show "pool_ok w' q" if "q \<in> set (c_used_list w')" for q
      proof (cases "q = p")
        case True
        have "s < 2 ^ 32" using sz by (simp add: s_def)
        then show ?thesis using True N(2,3,7,16) by (simp add: pool_ok_def w'_def P'_def new_block_def total_def u32_id)
      next
        case False
        then show ?thesis using W(3)[of q] that N(1,12) by (simp add: pool_ok_def w'_def)
      qed
      show "c_szUsedSize w' = u32 (total (pairs_of w' (c_used_list w')))"
        using N(11) W(6) u32_add_left[of _ s] unfolding all by (simp add: w'_def total_def ac_simps)
      show "c_u32UsedCnt w' = u32 (length (c_used_list w'))" using N(12,13) W(7) u32_add_left[of "length (c_used_list w)" 1] by (simp add: w'_def)
    qed (use N W(2,5) new all pk in \<open>auto simp: w'_def\<close>)
    moreover have "handed w' = handed w" unfolding handed_def all using N(6,16) by (simp add: new_block_def)
    moreover have "no_free w'" using nf N(14) by (simp add: no_free_def w'_def)
    ultimately show ?thesis using res new False N by (auto simp: w'_def P'_def s_def)
  qed
qed

text \<open>C20: Creating a pool through the factory while no released pool is kept: its first block has the smallest size
of the table that is enough (the size itself above 64 KB), it is a new pool, everything behind the two structures is left to
give out, and the world stays valid; when malloc fails the result is null and no pool is added.
\<close>

theorem POOL_Create_ok:
  assumes w: "world_ok w" and mal: "mem_ok mal" and nf: "no_free w" and sz: "first_size init + 8 < 2 ^ 32"
  shows "\<exists>w' p. POOL_Create mal fmt local w name init inc = Some (w', p) \<and> world_ok w' \<and> handed w' = handed w \<and> no_free w' \<and>
    (if p = 0 then c_used_list w' = c_used_list w
     else p \<notin> set (c_used_list w) \<and> c_used_list w' = p # c_used_list w \<and> w_live w' = (p - 4, first_size init + 8) # w_live w \<and>
       (\<exists>P b. w_pools w' p = Some P \<and> in_tBlockList P = [b] \<and> m_szIncSize P = inc \<and> m_strName P = pool_name fmt p name \<and>
          m_szCapacity P = first_size init \<and> m_pFactoryData P = local \<and>
          m_pEndAddr b - m_pCurAddr b = first_size init - (POOL_INFO + BLOCK_INFO)))"
  by (rule POOL_Create_core[OF assms])

subsection \<open>Writes of the clients\<close>

lemma signature_off_handed:
  assumes w: "world_ok w" and x: "x \<in> set (pairs_of w (c_used_list w))" and a: "a \<in> handed w"
  shows "a \<notin> {fst (fst x) - 4..<fst (fst x)}" "a \<notin> {fst (fst x) + snd (fst x)..<fst (fst x) + snd (fst x) + 4}"
proof -
  note W = world_okD[OF w]
  obtain y where y: "y \<in> set (pairs_of w (c_used_list w))" "a \<in> {m_pStartAddr (snd y)..<m_pCurAddr (snd y)}"
    using a unfolding handed_def by blast
  have in_y: "a \<in> {fst (fst y)..<fst (fst y) + snd (fst y)}" using pair_memory[OF W(4)[OF y(1)]] y(2) by blast
  have c: "chunk_ok w (fst x)" "chunk_ok w (fst y)" using pair_okD(1)[OF W(4)] x y(1) by blast+
  have "x = y \<or> fst (fst x) \<noteq> fst (fst y)" using W(5) x y(1) unfolding distinct_map inj_on_def by blast
  then have "a \<notin> {fst (fst x) - 4..<fst (fst x)} \<and> a \<notin> {fst (fst x) + snd (fst x)..<fst (fst x) + snd (fst x) + 4}"
  proof
    assume "x = y"
    then show ?thesis using in_y by auto
  next
    assume "fst (fst x) \<noteq> fst (fst y)"
    from chunks_apart[OF W(1) c this] show ?thesis using in_y by auto
  qed
  then show "a \<notin> {fst (fst x) - 4..<fst (fst x)}" "a \<notin> {fst (fst x) + snd (fst x)..<fst (fst x) + snd (fst x) + 4}" by blast+
qed

text \<open>A client that writes only to memory it was given leaves every signature and the whole world valid.\<close>

lemma world_ok_write:
  assumes w: "world_ok w" and bs: "{q..<q + length bs} \<subseteq> handed w"
  shows "world_ok (w\<lparr>w_ram := put_bytes (w_ram w) q bs\<rparr>)" "handed (w\<lparr>w_ram := put_bytes (w_ram w) q bs\<rparr>) = handed w"
proof -
  let ?w = "w\<lparr>w_ram := put_bytes (w_ram w) q bs\<rparr>"
  have ps: "pairs_of ?w ps = pairs_of w ps" for ps by (rule pairs_of_cong) simp
  show "handed ?w = handed w" unfolding handed_def by (simp add: ps)
  have same: "get_bytes (put_bytes (w_ram w) q bs) a n = get_bytes (w_ram w) a n" if "\<forall>x\<in>{a..<a + n}. x \<notin> handed w" for a n
    unfolding get_bytes_def by (rule map_cong[OF refl]) (use that bs in \<open>auto simp: put_bytes_def\<close>)
  have "pair_ok ?w x" if x: "x \<in> set (pairs_of w (c_used_list w))" for x
  proof -
    have p: "pair_ok w x" by (rule world_okD(4)[OF w x])
    then have "4 < fst (fst x)" by (simp add: pair_ok_def chunk_ok_def)
    moreover from this have "\<forall>a\<in>{fst (fst x) - 4..<fst (fst x) - 4 + 4}. a \<notin> handed w"
      using signature_off_handed(1)[OF w x] by auto
    moreover have "\<forall>a\<in>{fst (fst x) + snd (fst x)..<fst (fst x) + snd (fst x) + 4}. a \<notin> handed w"
      using signature_off_handed(2)[OF w x] by blast
    ultimately have "check_pool_signature (w_ram ?w) (fst (fst x)) (snd (fst x)) = check_pool_signature (w_ram w) (fst (fst x)) (snd (fst x))"
      using same unfolding check_pool_signature_def SIG_SIZE_def by simp
    then have "chunk_ok ?w (fst x)" using pair_okD(1)[OF p] by (simp add: chunk_ok_def)
    then show ?thesis using p unfolding pair_ok_def by blast
  qed
  then show "world_ok ?w" using w unfolding world_ok_def pool_ok_def ps by simp
qed

text \<open>\<open>POOL_Calloc\<close> of \<open>cnt\<close> elements of size \<open>sz\<close>, with a product that fits: the memory is new like that of
\<open>POOL_Alloc\<close>, reads as zeros, and the signatures around the blocks are untouched.
\<close>

theorem POOL_Calloc_zero:
  assumes w: "world_ok w" and p: "p \<in> set (c_used_list w)" and mal: "mem_ok mal"
    and sz: "sz * cnt + m_szIncSize (the (w_pools w p)) + 32 < 2 ^ 32"
  shows "\<exists>w' q. POOL_Calloc (default_block_alloc mal) w p cnt sz = Some (w', q) \<and> got w (sz * cnt) w' q \<and>
    (q \<noteq> 0 \<longrightarrow> get_bytes (w_ram w') q (sz * cnt) = replicate (sz * cnt) 0)"
proof -
  define n where "n = sz * cnt"
  have n: "u32 (sz * cnt) = n" using sz by (simp add: n_def u32_id)
  obtain w1 q where A: "POOL_Alloc (default_block_alloc mal) w p n = Some (w1, q)" "got w n w1 q"
    using POOL_Alloc_core[OF w p mal sz[folded n_def]] by blast
  have C: "POOL_Calloc (default_block_alloc mal) w p cnt sz =
    Some (if q \<noteq> 0 then w1\<lparr>w_ram := put_bytes (w_ram w1) q (replicate n 0)\<rparr> else w1, q)"
    unfolding POOL_Calloc_def n A(1) by simp
  show ?thesis
  proof (cases "q = 0")
    case True
    then show ?thesis using A C by (simp add: n_def[symmetric])
  next
    case False
    let ?w = "w1\<lparr>w_ram := put_bytes (w_ram w1) q (replicate n 0)\<rparr>"
    obtain m where m: "n \<le> m" "handed w \<inter> {q..<q + m} = {}" "handed w1 = handed w \<union> {q..<q + m}" "world_ok w1"
      using A(2) False unfolding got_def by auto
    then have "{q..<q + length (replicate n (0 :: u8))} \<subseteq> handed w1" by auto
    note K = world_ok_write[OF m(4) this]
    have "got w n ?w q" using A(2) K False unfolding got_def by simp
    moreover have "get_bytes (w_ram ?w) q n = replicate n 0" using get_put_same[of _ q "replicate n (0 :: u8)"] by simp
    ultimately show ?thesis using C False by (simp add: n_def[symmetric])
  qed
qed

text \<open>A request of more than \<open>2^32 - 4\<close> bytes, which is rounded up to 0 (\<^verbatim>\<open>pool_alloc_from_block\<close> checks for no
overflow): a pool in use always answers with a pointer and gives out nothing for it.
\<close>

theorem POOL_Alloc_wraps:
  assumes w: "world_ok w" and p: "p \<in> set (c_used_list w)" and sz: "2 ^ 32 - 4 < sz" "sz < 2 ^ 32"
  shows "\<exists>w' q. POOL_Alloc alloc w p sz = Some (w', q) \<and> q \<noteq> 0 \<and> handed w' = handed w"
proof -
  obtain P b bs where P: "w_pools w p = Some P" "m_u32Magic P = POOL_MAGIC_CODE" "in_tBlockList P = [] @ b # bs"
    using world_okD(3)[OF w p] unfolding pool_ok_def by (metis append_Nil neq_Nil_conv)
  have "b \<in> set (in_tBlockList P)" using P(3) by simp
  then obtain ch where ch: "pair_ok w (ch, b)" by (rule pool_blocks_ok[OF w p P(1)])
  note B = pair_okD[OF ch, simplified]
  have "sz = 2 ^ 32 - 3 \<or> sz = 2 ^ 32 - 2 \<or> sz = 2 ^ 32 - 1" using sz by auto
  then have "alloc_size sz = 0" by (auto simp: alloc_size_def POOL_ALIGNMENT_def u32_def)
  then have a: "pool_alloc_from_block b sz = (b\<lparr>m_pCurAddr := m_pCurAddr b + 0\<rparr>, m_pCurAddr b)"
    using B by (simp add: pool_alloc_from_block_def u32_id)
  note C = cursor_world[OF w p P(1,3) _ _ refl, of 0]
  show ?thesis using C(2) P a B by (simp add: POOL_Alloc_def)
qed

subsection \<open>Recycling\<close>

lemma free_blocks_pools: "free_blocks default_block_free w bs = Some w' \<Longrightarrow> w_pools w' = w_pools w"
proof (induction bs arbitrary: w)
  case (Cons b bs)
  then show ?case by (auto simp: default_block_free_def cpool_on_block_free_def Let_def bind_eq_Some_conv guard_def split: if_splits)
qed simp

text \<open>A released pool that the factory's capacity would let stay in the cache: the index stored at its creation is the address of
the variable that held it, so the assertion on it fails and the program stops; no pool is ever recycled.
\<close>

theorem cpool_release_cached_aborts:
  assumes p: "p \<in> set (c_used_list w)" and P: "w_pools w p = Some P" "m_u32Magic P = POOL_MAGIC_CODE"
    and keep: "m_szCapacity P \<le> 65536" "u32 (c_szCapacity w + m_szCapacity P) \<le> c_szCapacityMax w" and a: "16 \<le> m_pFactoryData P"
  shows "POOL_Destroy w p = None"
proof -
  define w1 where "w1 = w\<lparr>c_used_list := remove1 p (c_used_list w), c_u32UsedCnt := sub32 (c_u32UsedCnt w) 1\<rparr>"
  have P1: "w_pools w1 p = Some P" using P by (simp add: w1_def)
  have "m_pFactoryData P2 = m_pFactoryData P" if "POOL_Reset default_block_free w1 p = Some w2" "w_pools w2 p = Some P2" for w2 P2
    using that P1 unfolding POOL_Reset_def reset_pool_def
    by (auto simp: bind_eq_Some_conv guard_def put_pool_def split: if_splits list.splits)
  then have "POOL_Reset default_block_free w1 p = Some w2 \<Longrightarrow> w_pools w2 p = Some P2 \<Longrightarrow> \<not> m_pFactoryData P2 < POOL_CACHING_ARRAY_SIZE" for w2 P2
    using a by (simp add: POOL_CACHING_ARRAY_SIZE_def)
  then have "do { w2 \<leftarrow> POOL_Reset default_block_free w1 p; P2 \<leftarrow> w_pools w2 p; guard (m_pFactoryData P2 < POOL_CACHING_ARRAY_SIZE);
     Some (w2\<lparr>c_free_list := (c_free_list w2)[m_pFactoryData P2 := p # c_free_list w2 ! m_pFactoryData P2],
       c_szCapacity := u32 (c_szCapacity w2 + m_szCapacity P2)\<rparr>, 0 :: int) } = None"
    by (cases "POOL_Reset default_block_free w1 p"; cases "w_pools (the (POOL_Reset default_block_free w1 p)) p") (auto simp: guard_def)
  then show ?thesis
    using P p keep by (simp add: POOL_Destroy_def cpool_release_pool_def Let_def w1_def pool_sizes_def POOL_CACHING_ARRAY_SIZE_def)
qed

subsection \<open>An example\<close>

definition pool_mal :: malloc where
  "pool_mal bs n = (let a = 4096 + 4 * sum_list (map (\<lambda>(q, m). q + m + 1) bs) in if a + n < 2 ^ 32 then a else 0)"

lemma pool_mal_ok: "mem_ok pool_mal"
proof -
  have "q + m < 4096 + 4 * sum_list (map (\<lambda>(q, m). q + m + 1) bs)" if "(q, m) \<in> set bs" for bs :: "(nat \<times> nat) list" and q m
  proof -
    have "q + m + 1 \<in> set (map (\<lambda>(q, m). q + m + 1) bs)" using that by force
    from member_le_sum_list[OF this] show ?thesis by simp
  qed
  then show ?thesis unfolding mem_ok_def malloc_ok_def pool_mal_def Let_def by (fastforce split: if_splits)
qed

definition pool_demo0 :: "nat \<Rightarrow> T_PoolCaching" where
  "pool_demo0 capmax = POOL_CachingInit \<lparr>c_szCapacity = 0, c_szCapacityMax = 0, c_u32UsedCnt = 0, c_szUsedSize = 0, c_szPeakUsedSize = 0,
     c_free_list = [], c_used_list = [], w_pools = (\<lambda>_. None), w_live = [], w_ram = (\<lambda>_. 0), w_fails = []\<rparr> capmax"

definition pool_demo_create :: "nat \<Rightarrow> (T_PoolCaching \<times> addr) option" where
  "pool_demo_create capmax = POOL_Create pool_mal (\<lambda>s _. s) 3000 (pool_demo0 capmax) None 1000 512"

lemma pool_demo0_ok: "world_ok (pool_demo0 n)" "no_free (pool_demo0 n)" "w_live (pool_demo0 n) = []" "handed (pool_demo0 n) = {}"
  by (simp_all add: pool_demo0_def POOL_CachingInit_def world_ok_def no_free_def blocks_apart_def total_def handed_def u32_def)

lemma pool_index_1000: "pool_index 1000 = 2"
proof -
  have "\<not> 2 < pool_index 1000" using pool_index_least(3)[of 2 1000] by (auto simp: pool_sizes_def)
  moreover have False if "pool_index 1000 = 0" using pool_index_least(2)[of 1000] that by (simp add: pool_sizes_def)
  moreover have False if "pool_index 1000 = 1" using pool_index_least(2)[of 1000] that by (simp add: pool_sizes_def)
  ultimately show ?thesis by fastforce
qed

lemma first_size_1000: "first_size 1000 = 1024"
  by (simp add: first_size_index pool_index_1000 pool_sizes_def POOL_CACHING_ARRAY_SIZE_def)

definition pool_demo :: "nat \<Rightarrow> T_PoolCaching" where "pool_demo n = fst (the (pool_demo_create n))"

lemma pool_demo_create: "pool_demo_create n = Some (pool_demo n, 4100)" "c_szCapacity (pool_demo n) = 0" "c_szCapacityMax (pool_demo n) = n"
  unfolding pool_demo_def
  by (simp_all add: pool_demo_create_def POOL_Create_def cpool_create_pool_def pool_index_1000 Let_def pool_demo0_def POOL_CachingInit_def
    PoolCreateInt_def default_block_alloc_def pool_mal_def cpool_on_block_alloc_def u32_def POOL_CACHING_ARRAY_SIZE_def SIG_SIZE_def
    pool_sizes_def POOL_INFO_def BLOCK_INFO_def)

lemma pool_demo_ok:
  "world_ok (pool_demo n)" "c_used_list (pool_demo n) = [4100]" "handed (pool_demo n) = {}" "w_live (pool_demo n) = [(4096, 1032)]"
  "\<exists>P b. w_pools (pool_demo n) 4100 = Some P \<and> in_tBlockList P = [b] \<and> m_szIncSize P = 512 \<and> m_szCapacity P = 1024 \<and> m_pFactoryData P = 3000"
proof -
  have "c_used_list (pool_demo0 n) = []" by (simp add: pool_demo0_def POOL_CachingInit_def)
  then show "world_ok (pool_demo n)" "c_used_list (pool_demo n) = [4100]" "handed (pool_demo n) = {}" "w_live (pool_demo n) = [(4096, 1032)]"
    "\<exists>P b. w_pools (pool_demo n) 4100 = Some P \<and> in_tBlockList P = [b] \<and> m_szIncSize P = 512 \<and> m_szCapacity P = 1024 \<and> m_pFactoryData P = 3000"
    using POOL_Create_core[OF pool_demo0_ok(1) pool_mal_ok pool_demo0_ok(2), of 1000 "\<lambda>s _. s" 3000 n None 512] pool_demo_create(1)[of n] first_size_1000
      pool_demo0_ok(3,4)[of n] unfolding pool_demo_create_def by auto
qed

lemma POOL_Create_ok_witness:
  "\<exists>w. POOL_Create pool_mal (\<lambda>s _. s) 3000 (pool_demo0 0) None 1000 512 = Some (w, 4100) \<and> world_ok w \<and> c_used_list w = [4100] \<and> w_live w = [(4096, 1032)]"
  using POOL_Create_ok[OF pool_demo0_ok(1) pool_mal_ok pool_demo0_ok(2), of 1000 "\<lambda>s _. s" 3000 0 None 512] first_size_1000
    pool_demo_create(1)[of 0] pool_demo0_ok(3)[of 0] unfolding pool_demo_create_def by (auto simp: pool_demo0_def POOL_CachingInit_def)


lemma POOL_Calloc_zero_witness:
  "\<exists>w q. POOL_Calloc (default_block_alloc pool_mal) (pool_demo 0) 4100 20 100 = Some (w, q) \<and> got (pool_demo 0) 2000 w q"
proof -
  obtain P b where "w_pools (pool_demo 0) 4100 = Some P" "m_szIncSize P = 512" using pool_demo_ok(5) by blast
  then show ?thesis using POOL_Calloc_zero[OF pool_demo_ok(1) _ pool_mal_ok, of 4100 0 100 20] pool_demo_ok(2) by auto
qed

lemma POOL_Alloc_wraps_witness:
  "\<exists>w q. POOL_Alloc (default_block_alloc pool_mal) (pool_demo 0) 4100 4294967295 = Some (w, q) \<and> q \<noteq> 0 \<and> handed w = {}"
  using POOL_Alloc_wraps[OF pool_demo_ok(1), of 4100 0 4294967295 "default_block_alloc pool_mal"] pool_demo_ok(2,3) by simp

lemma POOL_Destroy_frees_witness:
  "\<exists>w. POOL_Destroy (pool_demo 0) 4100 = Some (w, 0) \<and> world_ok w \<and> c_used_list w = [] \<and> w_live w = []"
proof -
  obtain P b where P: "w_pools (pool_demo 0) 4100 = Some P" "in_tBlockList P = [b]" "m_szCapacity P = 1024" using pool_demo_ok(5) by blast
  then show ?thesis
    using POOL_Destroy_frees[OF pool_demo_ok(1) _ P(1)] pool_demo_ok(2,4) pool_demo_create(2,3) by (auto simp: u32_def)
qed

lemma cpool_release_cached_aborts_witness: "POOL_Destroy (pool_demo 65536) 4100 = None"
proof -
  obtain P where P: "w_pools (pool_demo 65536) 4100 = Some P" "m_szCapacity P = 1024" "m_pFactoryData P = 3000" using pool_demo_ok(5) by blast
  moreover have "m_u32Magic P = POOL_MAGIC_CODE" using world_okD(3)[OF pool_demo_ok(1)[of 65536], of 4100] P(1) pool_demo_ok(2) by (auto simp: pool_ok_def)
  ultimately show ?thesis
    using cpool_release_cached_aborts[of 4100 "pool_demo 65536" P] pool_demo_ok(2) pool_demo_create(2,3) by (simp add: u32_def)
qed

end
