(* ===== verification/Rtp_Enc.thy ===== *)
theory Rtp_Enc
  imports C_Prelude
begin

section \<open>RTP packets (\<^verbatim>\<open>rtsp_lib/rtp_enc.c\<close>)\<close>

text \<open>
  An encoder cuts a frame into the packets its caller provides: an array of buffers that ends with
  null, and the array of their sizes, which become the sizes used. The frame is the list of the bytes that can be read; the
  pointer into it is the list of the bytes from there on. A read or a copy out of bounds is \<open>None\<close>.
  The header's bit fields are those of a little-endian machine.
\<close>

subsection \<open>State and header\<close>

unbundle bit_operations_syntax

record rtp_enc =
  pt :: u8
  seq :: "16 word"
  ssrc :: "32 word"
  sample_rate :: "32 word"

definition RTPHDR_SIZE :: nat where "RTPHDR_SIZE = 12"

definition be16 :: "16 word \<Rightarrow> u8 list" where
  "be16 w = [ucast (drop_bit 8 w), ucast w]"

definition be32 :: "32 word \<Rightarrow> u8 list" where
  "be32 w = [ucast (drop_bit 24 w), ucast (drop_bit 16 w), ucast (drop_bit 8 w), ucast w]"

text \<open>The version is 2; \<open>m\<close> is the marker bit.\<close>

definition rtphdr :: "rtp_enc \<Rightarrow> 32 word \<Rightarrow> bool \<Rightarrow> u8 list" where
  "rtphdr e ts m = [0x80, (if m then 0x80 else 0) OR (pt e AND 0x7f)] @ be16 (seq e) @ be32 ts @ be32 (ssrc e)"

definition rtp_ts :: "rtp_enc \<Rightarrow> 64 word \<Rightarrow> 32 word" where
  "rtp_ts e ts = ucast (ts * ucast (sample_rate e) div 1000000)"

definition put_at :: "u8 list \<Rightarrow> nat \<Rightarrow> u8 list \<Rightarrow> u8 list option" where
  "put_at pkt i bs = (if i + length bs \<le> length pkt then Some (overlay pkt i bs) else None)"

text \<open>\<open>memcpy\<close> with a length of type int: a negative one is a huge \<open>size_t\<close>.\<close>

definition copy_in :: "u8 list \<Rightarrow> nat \<Rightarrow> u8 list \<Rightarrow> int \<Rightarrow> u8 list option" where
  "copy_in pkt i frame n = do { guard (0 \<le> n); copy_bytes pkt i frame 0 (nat n) }"

text \<open>Compares the frame with a start code, byte by byte up to the first difference.\<close>

fun begins :: "u8 list \<Rightarrow> u8 list \<Rightarrow> bool option" where
  "begins frame [] = Some True"
| "begins [] (c # cs) = None"
| "begins (b # frame) (c # cs) = (if b = c then begins frame cs else Some False)"

definition drop_start :: "u8 list \<Rightarrow> int \<Rightarrow> (u8 list \<times> int) option" where
  "drop_start frame len =
     do {
       a \<leftarrow> begins frame [0, 0, 1];
       let (frame1, len1) = (if a then (drop 3 frame, len - 3) else (frame, len));
       b \<leftarrow> begins frame1 [0, 0, 0, 1];
       Some (if b then (drop 4 frame1, len1 - 4) else (frame1, len1))
     }"

definition byte_at :: "u8 list \<Rightarrow> nat \<Rightarrow> u8 option" where
  "byte_at frame i = (if i < length frame then Some (frame ! i) else None)"

subsection \<open>The loop over the packets\<close>

text \<open>
  The encoders differ in the least size of a packet and in what they put into one: \<open>step count e
  frame len pkt size\<close> gives the packet, its new size, and the rest of the frame with its length.
\<close>

type_synonym rtp_step = "nat \<Rightarrow> rtp_enc \<Rightarrow> u8 list \<Rightarrow> int \<Rightarrow> u8 list \<Rightarrow> int \<Rightarrow> (u8 list \<times> int \<times> u8 list \<times> int) option"
type_synonym rtp_out = "rtp_enc \<times> u8 list option list \<times> int list \<times> nat"

fun rtp_loop :: "int \<Rightarrow> rtp_step \<Rightarrow> nat \<Rightarrow> rtp_enc \<Rightarrow> u8 list \<Rightarrow> int \<Rightarrow> u8 list option list \<Rightarrow> int list \<Rightarrow> rtp_out option" where
  "rtp_loop least step count e frame len [] szs = (if len > 0 then None else Some (e, [], szs, count))"
| "rtp_loop least step count e frame len (None # ps) szs = Some (e, None # ps, szs, count)"
| "rtp_loop least step count e frame len (Some pkt # ps) szs =
     (if len > 0
      then case szs of
        [] \<Rightarrow> None
      | sz # szs1 \<Rightarrow>
          if sz > least
          then do {
            (pkt1, sz1, frame1, len1) \<leftarrow> step count e frame len pkt sz;
            (e2, ps2, szs2, count2) \<leftarrow> rtp_loop least step (count + 1) (e\<lparr>seq := seq e + 1\<rparr>) frame1 len1 ps szs1;
            Some (e2, Some pkt1 # ps2, sz1 # szs2, count2)
          }
          else Some (e, Some pkt # ps, szs, count)
      else Some (e, Some pkt # ps, szs, count))"

subsection \<open>The encoders\<close>

definition h264_packet :: "32 word \<Rightarrow> u8 \<Rightarrow> rtp_step" where
  "h264_packet ts nalhdr count e frame len pkt pktsiz =
     (if count = 0 \<and> len \<le> pktsiz - 12
      then do {
        p1 \<leftarrow> put_at pkt 0 (rtphdr e ts True);
        p2 \<leftarrow> copy_in p1 RTPHDR_SIZE frame len;
        Some (p2, 12 + len, drop (nat len) frame, len - len)
      }
      else
        let (frame1, len1) = (if count = 0 then (drop 1 frame, len - 1) else (frame, len));
            mark = (count \<noteq> 0 \<and> len \<le> pktsiz - 12 - 2) in
        do {
          p1 \<leftarrow> put_at pkt 0 (rtphdr e ts mark);
          p2 \<leftarrow> put_at p1 RTPHDR_SIZE [(nalhdr AND 0xe0) OR 28];
          p3 \<leftarrow> put_at p2 (RTPHDR_SIZE + 1)
            [((nalhdr AND 0x1f) OR (if count = 0 then 0x80 else 0)) OR (if mark then 0x40 else 0)];
          if mark
          then do {
            p4 \<leftarrow> copy_in p3 (RTPHDR_SIZE + 2) frame1 len1;
            Some (p4, 12 + 2 + len1, drop (nat len1) frame1, len1 - len1)
          }
          else do {
            p4 \<leftarrow> copy_in p3 (RTPHDR_SIZE + 2) frame1 (pktsiz - 12 - 2);
            Some (p4, pktsiz, drop (nat (pktsiz - 12 - 2)) frame1, len1 - (pktsiz - 12 - 2))
          }
        })"

definition h265_packet :: "32 word \<Rightarrow> u8 \<Rightarrow> u8 \<Rightarrow> rtp_step" where
  "h265_packet ts nal0 nal1 count e frame len pkt pktsiz =
     (if count = 0 \<and> len \<le> pktsiz - 12
      then do {
        p1 \<leftarrow> put_at pkt 0 (rtphdr e ts True);
        p2 \<leftarrow> copy_in p1 RTPHDR_SIZE frame len;
        Some (p2, 12 + len, drop (nat len) frame, len - len)
      }
      else
        let (frame1, len1) = (if count = 0 then (drop 2 frame, len - 2) else (frame, len));
            mark = (count \<noteq> 0 \<and> len \<le> pktsiz - 12 - 3) in
        do {
          p1 \<leftarrow> put_at pkt 0 (rtphdr e ts mark);
          p2 \<leftarrow> put_at p1 RTPHDR_SIZE [(nal0 AND 0x81) OR 98];
          p3 \<leftarrow> put_at p2 (RTPHDR_SIZE + 1) [nal1];
          p4 \<leftarrow> put_at p3 (RTPHDR_SIZE + 2)
            [((drop_bit 1 nal0 AND 0x3f) OR (if count = 0 then 0x80 else 0)) OR (if mark then 0x40 else 0)];
          if mark
          then do {
            p5 \<leftarrow> copy_in p4 (RTPHDR_SIZE + 3) frame1 len1;
            Some (p5, 12 + 3 + len1, drop (nat len1) frame1, len1 - len1)
          }
          else do {
            p5 \<leftarrow> copy_in p4 (RTPHDR_SIZE + 3) frame1 (pktsiz - 12 - 3);
            Some (p5, pktsiz, drop (nat (pktsiz - 12 - 3)) frame1, len1 - (pktsiz - 12 - 3))
          }
        })"

definition aac_packet :: "32 word \<Rightarrow> 32 word \<Rightarrow> rtp_step" where
  "aac_packet ts au_len count e frame len pkt pktsiz =
     do {
       p1 \<leftarrow> put_at pkt 0 (rtphdr e ts (len \<le> pktsiz - 12 - 4));
       p2 \<leftarrow> put_at p1 RTPHDR_SIZE [0x00, 0x10, ucast (drop_bit 5 au_len), ucast (push_bit 3 (au_len AND 0x1f))];
       if len \<le> pktsiz - 12 - 4
       then do {
         p3 \<leftarrow> copy_in p2 (RTPHDR_SIZE + 4) frame len;
         Some (p3, 12 + 4 + len, drop (nat len) frame, len - len)
       }
       else do {
         p3 \<leftarrow> copy_in p2 (RTPHDR_SIZE + 4) frame (pktsiz - 12 - 4);
         Some (p3, pktsiz, drop (nat (pktsiz - 12 - 4)) frame, len - (pktsiz - 12 - 4))
       }
     }"

definition g711_packet :: "32 word \<Rightarrow> rtp_step" where
  "g711_packet ts count e frame len pkt pktsiz =
     do {
       p1 \<leftarrow> put_at pkt 0 (rtphdr e ts (seq e = 0));
       if len \<le> pktsiz - 12
       then do {
         p2 \<leftarrow> copy_in p1 RTPHDR_SIZE frame len;
         Some (p2, 12 + len, drop (nat len) frame, len - len)
       }
       else do {
         p2 \<leftarrow> copy_in p1 RTPHDR_SIZE frame (pktsiz - 12);
         Some (p2, pktsiz, drop (nat (pktsiz - 12)) frame, len - (pktsiz - 12))
       }
     }"

text \<open>A null pointer or an empty frame is answered with -1, here \<open>Inl\<close>.\<close>

type_synonym rtp_result = "(int + rtp_out) option"

definition rtp_enc_h264 :: "rtp_enc option \<Rightarrow> u8 list option \<Rightarrow> int \<Rightarrow> 64 word \<Rightarrow> u8 list option list option \<Rightarrow> int list option \<Rightarrow> rtp_result" where
  "rtp_enc_h264 pe pframe len ts ppackets ppktsizs =
     (if pe = None \<or> pframe = None \<or> len \<le> 0 \<or> ppackets = None \<or> ppktsizs = None then Some (Inl (-1))
      else let e = the pe in
        do {
          (frame, len1) \<leftarrow> drop_start (the pframe) len;
          nalhdr \<leftarrow> byte_at frame 0;
          map_option Inr (rtp_loop 12 (h264_packet (rtp_ts e ts) nalhdr) 0 e frame len1 (the ppackets) (the ppktsizs))
        })"

definition rtp_enc_h265 :: "rtp_enc option \<Rightarrow> u8 list option \<Rightarrow> int \<Rightarrow> 64 word \<Rightarrow> u8 list option list option \<Rightarrow> int list option \<Rightarrow> rtp_result" where
  "rtp_enc_h265 pe pframe len ts ppackets ppktsizs =
     (if pe = None \<or> pframe = None \<or> len \<le> 0 \<or> ppackets = None \<or> ppktsizs = None then Some (Inl (-1))
      else let e = the pe in
        do {
          (frame, len1) \<leftarrow> drop_start (the pframe) len;
          nal0 \<leftarrow> byte_at frame 0;
          nal1 \<leftarrow> byte_at frame 1;
          map_option Inr (rtp_loop 12 (h265_packet (rtp_ts e ts) nal0 nal1) 0 e frame len1 (the ppackets) (the ppktsizs))
        })"

text \<open>An ADTS header of 7 bytes is dropped.\<close>

definition rtp_enc_aac :: "rtp_enc option \<Rightarrow> u8 list option \<Rightarrow> int \<Rightarrow> 64 word \<Rightarrow> u8 list option list option \<Rightarrow> int list option \<Rightarrow> rtp_result" where
  "rtp_enc_aac pe pframe len ts ppackets ppktsizs =
     (if pe = None \<or> pframe = None \<or> len \<le> 0 \<or> ppackets = None \<or> ppktsizs = None then Some (Inl (-1))
      else let e = the pe; frame = the pframe in
        do {
          b0 \<leftarrow> byte_at frame 0;
          adts \<leftarrow> (if b0 = 0xff then map_option (\<lambda>b1. b1 AND 0xf0 = 0xf0) (byte_at frame 1) else Some False);
          let (frame1, len1) = (if adts then (drop 7 frame, len - 7) else (frame, len));
          map_option Inr (rtp_loop 16 (aac_packet (rtp_ts e ts) (word_of_int len1)) 0 e frame1 len1 (the ppackets) (the ppktsizs))
        })"

definition rtp_enc_g711 :: "rtp_enc option \<Rightarrow> u8 list option \<Rightarrow> int \<Rightarrow> 64 word \<Rightarrow> u8 list option list option \<Rightarrow> int list option \<Rightarrow> rtp_result" where
  "rtp_enc_g711 pe pframe len ts ppackets ppktsizs =
     (if pe = None \<or> pframe = None \<or> len \<le> 0 \<or> ppackets = None \<or> ppktsizs = None then Some (Inl (-1))
      else map_option Inr (rtp_loop 12 (g711_packet (rtp_ts (the pe) ts)) 0 (the pe) (the pframe) len (the ppackets) (the ppktsizs)))"

definition rtp_enc_g726 :: "rtp_enc option \<Rightarrow> u8 list option \<Rightarrow> int \<Rightarrow> 64 word \<Rightarrow> u8 list option list option \<Rightarrow> int list option \<Rightarrow> rtp_result" where
  "rtp_enc_g726 pe pframe len ts ppackets ppktsizs = rtp_enc_g711 pe pframe len ts ppackets ppktsizs"

subsection \<open>Filling a packet from its start\<close>

lemma length_rtphdr [simp]: "length (rtphdr e ts m) = 12"
  by (simp add: rtphdr_def be16_def be32_def)

lemma put_at_0: "length xs \<le> length pkt \<Longrightarrow> put_at pkt 0 xs = Some (xs @ drop (length xs) pkt)"
  by (simp add: put_at_def overlay_0)

lemma put_at_next:
  assumes "length xs = k" "k + length bs \<le> length pkt"
  shows "put_at (xs @ drop k pkt) k bs = Some ((xs @ bs) @ drop (k + length bs) pkt)"
  using assms by (simp add: put_at_def overlay_def add.commute)

lemma copy_in_next:
  assumes "length xs = k" "0 \<le> n" "k + nat n \<le> length pkt" "nat n \<le> length frame"
  shows "copy_in (xs @ drop k pkt) k frame n = Some ((xs @ take (nat n) frame) @ drop (k + nat n) pkt)"
  using assms by (simp add: copy_in_def copy_bytes_def overlay_def add.commute)

text \<open>
  The reference for the loop: every packet takes a prefix of \<open>k\<close> bytes and as much data as then
  fits; the prefix depends on the encoder's state and on whether the data ends in this packet.
\<close>

fun frags :: "(rtp_enc \<Rightarrow> bool \<Rightarrow> u8 list) \<Rightarrow> nat \<Rightarrow> rtp_enc \<Rightarrow> u8 list \<Rightarrow> nat list \<Rightarrow> u8 list list" where
  "frags pre k e data [] = []"
| "frags pre k e data (n # ns) =
     (if data = [] then []
      else (pre e (length data \<le> n - k) @ take (n - k) data) # frags pre k (e\<lparr>seq := seq e + 1\<rparr>) (drop (n - k) data) ns)"

definition fragments :: "(rtp_enc \<Rightarrow> bool \<Rightarrow> u8 list) \<Rightarrow> nat \<Rightarrow> nat \<Rightarrow> rtp_step \<Rightarrow> bool" where
  "fragments pre k c step \<longleftrightarrow> (\<forall>e b. length (pre e b) = k) \<and>
     (\<forall>count\<ge>c. \<forall>e frame len pkt sz. 0 < len \<and> nat len \<le> length frame \<and> int k \<le> sz \<and> nat sz \<le> length pkt \<longrightarrow>
        (let final = (nat len \<le> nat sz - k); n = (if final then nat len else nat sz - k) in
         step count e frame len pkt sz =
           Some ((pre e final @ take n frame) @ drop (k + n) pkt, int (k + n), drop n frame, len - int n)))"

lemma fragments_step:
  assumes "fragments pre k c step" "c \<le> count" "0 < len" "nat len \<le> length frame" "int k \<le> sz" "nat sz \<le> length pkt"
    and "final = (nat len \<le> nat sz - k)" "n = (if final then nat len else nat sz - k)"
  shows "step count e frame len pkt sz = Some ((pre e final @ take n frame) @ drop (k + n) pkt, int (k + n), drop n frame, len - int n)"
  using assms unfolding fragments_def Let_def by blast

text \<open>The packets sent, cut to their sizes; a buffer is good when it has the size it claims, above the least one.\<close>

definition sent :: "nat \<Rightarrow> u8 list option list \<Rightarrow> int list \<Rightarrow> u8 list list" where
  "sent n ps szs = map2 (\<lambda>p s. take (nat s) (the p)) (take n ps) (take n szs)"

definition good_bufs :: "nat \<Rightarrow> u8 list list \<Rightarrow> int list \<Rightarrow> bool" where
  "good_bufs k bufs szs \<longleftrightarrow> list_all2 (\<lambda>b s. int k < s \<and> nat s \<le> length b) bufs szs"

lemma good_bufs_mono: "good_bufs k bufs szs \<Longrightarrow> j \<le> k \<Longrightarrow> good_bufs j bufs szs"
  unfolding good_bufs_def by (erule list_all2_mono) auto

definition advance :: "nat \<Rightarrow> rtp_enc \<Rightarrow> rtp_enc" where
  "advance n e = e\<lparr>seq := seq e + of_nat n\<rparr>"

lemma rtp_loop_frags:
  assumes st: "fragments pre k c step" and m: "least \<le> int m" "k \<le> m + 1"
  shows "good_bufs m bufs szs \<Longrightarrow> c \<le> count \<Longrightarrow> \<exists>ps1 szs1.
    rtp_loop least step count e (data @ behind) (int (length data)) (map Some bufs @ None # rest) szs =
      Some (advance (length (frags pre k e data (map nat szs))) e, ps1, szs1, count + length (frags pre k e data (map nat szs))) \<and>
    sent (length (frags pre k e data (map nat szs))) ps1 szs1 = frags pre k e data (map nat szs)"
proof (induction bufs arbitrary: szs count e data)
  case Nil
  then show ?case by (simp add: good_bufs_def sent_def advance_def)
next
  case (Cons b bufs)
  obtain sz szs' where szs: "szs = sz # szs'" "int m < sz" "nat sz \<le> length b" and g: "good_bufs m bufs szs'"
    using Cons.prems(1) unfolding good_bufs_def by (auto simp: list_all2_Cons1)
  have sz: "least < sz" "int k \<le> sz" using szs(2) m by linarith+
  show ?case
  proof (cases "data = []")
    case True
    then show ?thesis by (simp add: szs sent_def advance_def)
  next
    case False
    define final where "final = (length data \<le> nat sz - k)"
    define n where "n = (if final then length data else nat sz - k)"
    define e1 where "e1 = e\<lparr>seq := seq e + 1\<rparr>"
    have n: "n \<le> length data" "take n data = take (nat sz - k) data" "drop n data = drop (nat sz - k) data"
      by (auto simp: n_def final_def)
    have step: "step count e (data @ behind) (int (length data)) b sz =
      Some ((pre e final @ take n data) @ drop (k + n) b, int (k + n), drop n data @ behind, int (length (drop n data)))"
      using fragments_step[OF st Cons.prems(2), of "int (length data)" "data @ behind" sz b final n e] False sz(2) szs(3) n(1)
      by (simp add: final_def n_def of_nat_diff del: append_assoc)
    let ?F = "frags pre k e1 (drop n data) (map nat szs')"
    obtain ps1 szs1 where IH: "rtp_loop least step (count + 1) e1 (drop n data @ behind) (int (length (drop n data))) (map Some bufs @ None # rest) szs' =
        Some (advance (length ?F) e1, ps1, szs1, count + 1 + length ?F)" "sent (length ?F) ps1 szs1 = ?F"
      using Cons.IH[OF g, of "count + 1" e1 "drop n data"] Cons.prems(2) by auto
    have F: "frags pre k e data (map nat szs) = (pre e final @ take n data) # ?F"
      using False n(2,3) by (simp add: szs final_def e1_def)
    have "length (pre e final) = k" using st by (simp add: fragments_def)
    then have "take (nat (int (k + n))) ((pre e final @ take n data) @ drop (k + n) b) = pre e final @ take n data"
      using n(1) by (simp add: nat_int_add)
    then have "sent (Suc (length ?F)) (Some ((pre e final @ take n data) @ drop (k + n) b) # ps1) (int (k + n) # szs1) =
        (pre e final @ take n data) # ?F" using IH(2) by (simp add: sent_def)
    moreover have "advance (length ?F) e1 = advance (Suc (length ?F)) e" by (simp add: advance_def e1_def)
    ultimately show ?thesis
      unfolding F using False sz(1) step IH(1) by (simp add: szs e1_def del: append_assoc)
  qed
qed

subsection \<open>The encoders as instances\<close>

definition fu_a :: "32 word \<Rightarrow> u8 \<Rightarrow> rtp_enc \<Rightarrow> bool \<Rightarrow> u8 list" where
  "fu_a ts nal e final = (rtphdr e ts final @ [(nal AND 0xe0) OR 28]) @ [(nal AND 0x1f) OR (if final then 0x40 else 0)]"

definition fu_265 :: "32 word \<Rightarrow> u8 \<Rightarrow> u8 \<Rightarrow> rtp_enc \<Rightarrow> bool \<Rightarrow> u8 list" where
  "fu_265 ts nal0 nal1 e final =
     ((rtphdr e ts final @ [(nal0 AND 0x81) OR 98]) @ [nal1]) @ [(drop_bit 1 nal0 AND 0x3f) OR (if final then 0x40 else 0)]"

definition aac_prefix :: "32 word \<Rightarrow> 32 word \<Rightarrow> rtp_enc \<Rightarrow> bool \<Rightarrow> u8 list" where
  "aac_prefix ts au_len e final =
     rtphdr e ts final @ [0x00, 0x10, ucast (drop_bit 5 au_len), ucast (push_bit 3 (au_len AND 0x1f))]"

definition g711_prefix :: "32 word \<Rightarrow> rtp_enc \<Rightarrow> bool \<Rightarrow> u8 list" where
  "g711_prefix ts e final = rtphdr e ts (seq e = 0)"

lemma or_0 [simp]: "w OR 0 = (w :: u8)"
  by (rule bit.disj_zero_right)

lemma nat_fits: "0 < len \<Longrightarrow> int k \<le> sz \<Longrightarrow> (len \<le> sz - int k) = (nat len \<le> nat sz - k)" "int k \<le> sz \<Longrightarrow> nat (sz - int k) = nat sz - k"
  by linarith+

text \<open>It is enough to look at the packet after its prefix has been written.\<close>

definition fill :: "nat \<Rightarrow> u8 list \<Rightarrow> bool \<Rightarrow> u8 list \<Rightarrow> int \<Rightarrow> int \<Rightarrow> (u8 list \<times> int \<times> u8 list \<times> int) option" where
  "fill k p final frame len sz =
     (if final then do { q \<leftarrow> copy_in p k frame len; Some (q, int k + len, drop (nat len) frame, len - len) }
      else do { q \<leftarrow> copy_in p k frame (sz - int k); Some (q, sz, drop (nat (sz - int k)) frame, len - (sz - int k)) })"

lemma fill_ok:
  assumes "length xs = k" "0 < len" "nat len \<le> length frame" "int k \<le> sz" "nat sz \<le> length pkt"
    and "final = (nat len \<le> nat sz - k)" "n = (if final then nat len else nat sz - k)"
  shows "fill k (xs @ drop k pkt) final frame len sz = Some ((xs @ take n frame) @ drop (k + n) pkt, int (k + n), drop n frame, len - int n)"
proof -
  have l: "k + n \<le> length pkt" "n \<le> length frame" using assms by auto
  then have c: "copy_in (xs @ drop k pkt) k frame (int n) = Some ((xs @ take n frame) @ drop (k + n) pkt)"
    using copy_in_next[of xs k "int n" pkt frame] assms(1) by simp
  show ?thesis
  proof (cases final)
    case True
    then have n: "len = int n" using assms(2,7) by simp
    show ?thesis using c True by (simp add: fill_def n)
  next
    case False
    then have "sz - int k = int n" "sz = int (k + n)" using assms(4,7) by (simp_all add: of_nat_diff)
    then show ?thesis using c False by (simp add: fill_def)
  qed
qed

lemma fragmentsI:
  assumes "\<And>e b. length (pre e b) = k"
    and "\<And>count e frame len pkt sz. c \<le> count \<Longrightarrow> 0 < len \<Longrightarrow> int k \<le> sz \<Longrightarrow> nat sz \<le> length pkt \<Longrightarrow>
      step count e frame len pkt sz = fill k (pre e (len \<le> sz - int k) @ drop k pkt) (len \<le> sz - int k) frame len sz"
  shows "fragments pre k c step"
  unfolding fragments_def
proof (intro conjI allI impI)
  fix count :: nat and e and len sz :: int and frame pkt :: "u8 list"
  assume c: "c \<le> count" and a: "0 < len \<and> nat len \<le> length frame \<and> int k \<le> sz \<and> nat sz \<le> length pkt"
  have f: "(len \<le> sz - int k) = (nat len \<le> nat sz - k)" using a by linarith
  show "let last = nat len \<le> nat sz - k; n = if last then nat len else nat sz - k
    in step count e frame len pkt sz = Some ((pre e last @ take n frame) @ drop (k + n) pkt, int (k + n), drop n frame, len - int n)"
    using assms(2)[OF c, of len sz pkt e frame] a unfolding Let_def f by (simp add: fill_ok[OF assms(1) _ _ _ _ refl refl] del: append_assoc)
qed (rule assms(1))

lemma h264_fragments: "fragments (fu_a ts nal) 14 1 (h264_packet ts nal)"
proof (rule fragmentsI)
  fix count :: nat and e and len sz :: int and frame pkt :: "u8 list"
  assume c: "1 \<le> count" and a: "0 < len" "int 14 \<le> sz" "nat sz \<le> length pkt"
  define final where "final = (len \<le> sz - int 14)"
  have l: "14 \<le> length pkt" using a by linarith
  define H where "H = rtphdr e ts final @ [(nal AND 0xe0) OR 28]"
  have p1: "put_at pkt 0 (rtphdr e ts final) = Some (rtphdr e ts final @ drop 12 pkt)"
    using put_at_0[of "rtphdr e ts final" pkt] l by simp
  have p2: "put_at (rtphdr e ts final @ drop 12 pkt) 12 [(nal AND 0xe0) OR 28] = Some (H @ drop 13 pkt)"
    using put_at_next[of "rtphdr e ts final" 12 "[(nal AND 0xe0) OR 28]" pkt] l by (simp add: H_def)
  have p3: "put_at (H @ drop 13 pkt) 13 [(nal AND 0x1f) OR (if final then 0x40 else 0)] = Some (fu_a ts nal e final @ drop 14 pkt)"
    using put_at_next[of H 13 "[(nal AND 0x1f) OR (if final then 0x40 else 0)]" pkt] l by (simp add: H_def fu_a_def)
  have f: "(len \<le> sz - 12 - 2) = final" by (simp add: final_def)
  show "h264_packet ts nal count e frame len pkt sz =
      fill 14 (fu_a ts nal e (len \<le> sz - int 14) @ drop 14 pkt) (len \<le> sz - int 14) frame len sz"
    unfolding final_def[symmetric] using c p1 p2 p3 f
    by (cases final) (simp_all add: h264_packet_def RTPHDR_SIZE_def fill_def)
qed (simp add: fu_a_def)

lemma h265_fragments: "fragments (fu_265 ts nal0 nal1) 15 1 (h265_packet ts nal0 nal1)"
proof (rule fragmentsI)
  fix count :: nat and e and len sz :: int and frame pkt :: "u8 list"
  assume c: "1 \<le> count" and a: "0 < len" "int 15 \<le> sz" "nat sz \<le> length pkt"
  define final where "final = (len \<le> sz - int 15)"
  have l: "15 \<le> length pkt" using a by linarith
  define H where "H = rtphdr e ts final @ [(nal0 AND 0x81) OR 98]"
  define G where "G = H @ [nal1]"
  have p1: "put_at pkt 0 (rtphdr e ts final) = Some (rtphdr e ts final @ drop 12 pkt)"
    using put_at_0[of "rtphdr e ts final" pkt] l by simp
  have p2: "put_at (rtphdr e ts final @ drop 12 pkt) 12 [(nal0 AND 0x81) OR 98] = Some (H @ drop 13 pkt)"
    using put_at_next[of "rtphdr e ts final" 12 "[(nal0 AND 0x81) OR 98]" pkt] l by (simp add: H_def)
  have p3: "put_at (H @ drop 13 pkt) 13 [nal1] = Some (G @ drop 14 pkt)"
    using put_at_next[of H 13 "[nal1]" pkt] l by (simp add: H_def G_def)
  have p4: "put_at (G @ drop 14 pkt) 14 [(drop_bit 1 nal0 AND 0x3f) OR (if final then 0x40 else 0)] = Some (fu_265 ts nal0 nal1 e final @ drop 15 pkt)"
    using put_at_next[of G 14 "[(drop_bit 1 nal0 AND 0x3f) OR (if final then 0x40 else 0)]" pkt] l by (simp add: H_def G_def fu_265_def)
  have f: "(len \<le> sz - 12 - 3) = final" by (simp add: final_def)
  show "h265_packet ts nal0 nal1 count e frame len pkt sz =
      fill 15 (fu_265 ts nal0 nal1 e (len \<le> sz - int 15) @ drop 15 pkt) (len \<le> sz - int 15) frame len sz"
    unfolding final_def[symmetric] using c p1 p2 p3 p4 f
    by (cases final) (simp_all add: h265_packet_def RTPHDR_SIZE_def fill_def)
qed (simp add: fu_265_def)

lemma aac_fragments: "fragments (aac_prefix ts n) 16 0 (aac_packet ts n)"
proof (rule fragmentsI)
  fix count :: nat and e and len sz :: int and frame pkt :: "u8 list"
  assume a: "0 < len" "int 16 \<le> sz" "nat sz \<le> length pkt"
  define final where "final = (len \<le> sz - int 16)"
  have l: "16 \<le> length pkt" using a by linarith
  let ?au = "[0x00, 0x10, ucast (drop_bit 5 n), ucast (push_bit 3 (n AND 0x1f))] :: u8 list"
  have p1: "put_at pkt 0 (rtphdr e ts final) = Some (rtphdr e ts final @ drop 12 pkt)"
    using put_at_0[of "rtphdr e ts final" pkt] l by simp
  have p2: "put_at (rtphdr e ts final @ drop 12 pkt) 12 ?au = Some (aac_prefix ts n e final @ drop 16 pkt)"
    using put_at_next[of "rtphdr e ts final" 12 ?au pkt] l by (simp add: aac_prefix_def)
  have f: "(len \<le> sz - 12 - 4) = final" by (simp add: final_def)
  show "aac_packet ts n count e frame len pkt sz =
      fill 16 (aac_prefix ts n e (len \<le> sz - int 16) @ drop 16 pkt) (len \<le> sz - int 16) frame len sz"
    unfolding final_def[symmetric] using p1 p2 f
    by (cases final) (simp_all add: aac_packet_def RTPHDR_SIZE_def fill_def)
qed (simp add: aac_prefix_def)

lemma g711_fragments: "fragments (g711_prefix ts) 12 0 (g711_packet ts)"
proof (rule fragmentsI)
  fix count :: nat and e and len sz :: int and frame pkt :: "u8 list"
  assume a: "0 < len" "int 12 \<le> sz" "nat sz \<le> length pkt"
  have p1: "put_at pkt 0 (rtphdr e ts (seq e = 0)) = Some (g711_prefix ts e final @ drop 12 pkt)" for final
    using put_at_0[of "rtphdr e ts (seq e = 0)" pkt] a by (simp add: g711_prefix_def)
  show "g711_packet ts count e frame len pkt sz =
      fill 12 (g711_prefix ts e (len \<le> sz - int 12) @ drop 12 pkt) (len \<le> sz - int 12) frame len sz"
    using p1[of "len \<le> sz - 12"] by (simp add: g711_packet_def RTPHDR_SIZE_def fill_def)
qed (simp add: g711_prefix_def)

subsection \<open>What a receiver gets\<close>

definition room :: "nat \<Rightarrow> nat list \<Rightarrow> nat" where
  "room k ns = sum_list (map (\<lambda>n. n - k) ns)"

text \<open>With enough room the payloads are the data, and the last packet is the one marked as final.\<close>

lemma frags_data:
  assumes "\<forall>e b. length (pre e b) = k" "length data \<le> room k ns"
  shows "concat (map (drop k) (frags pre k e data ns)) = data"
  using assms(2)
proof (induction ns arbitrary: e data)
  case (Cons n ns)
  then have "concat (map (drop k) (frags pre k (e\<lparr>seq := seq e + 1\<rparr>) (drop (n - k) data) ns)) = drop (n - k) data"
    by (intro Cons.IH) (simp add: room_def)
  then show ?case using assms(1) by simp
qed (simp add: room_def)

lemma frags_not_Nil: "data \<noteq> [] \<Longrightarrow> length data \<le> room k ns \<Longrightarrow> frags pre k e data ns \<noteq> []"
  by (cases ns) (auto simp: room_def)

lemma frags_nth:
  assumes "\<forall>e b. length (pre e b) = k" "length data \<le> room k ns" "\<forall>n\<in>set ns. k < n"
    and "i < length (frags pre k e data ns)"
  shows "take k (frags pre k e data ns ! i) = pre (advance i e) (i + 1 = length (frags pre k e data ns))"
  using assms(2-)
proof (induction ns arbitrary: e data i)
  case (Cons n ns)
  let ?F = "frags pre k (e\<lparr>seq := seq e + 1\<rparr>) (drop (n - k) data) ns"
  have ne: "data \<noteq> []" using Cons.prems(3) by auto
  have r: "length (drop (n - k) data) \<le> room k ns" using Cons.prems(1) by (simp add: room_def)
  have e: "(length data \<le> n - k) = (?F = [])"
    using frags_not_Nil[OF _ r, of pre "e\<lparr>seq := seq e + 1\<rparr>"] by (cases ns) auto
  show ?case
  proof (cases i)
    case 0
    then show ?thesis using ne e assms(1) by (simp add: advance_def)
  next
    case (Suc j)
    have "take k (?F ! j) = pre (advance j (e\<lparr>seq := seq e + 1\<rparr>)) (j + 1 = length ?F)"
      using Cons.IH[OF r] Cons.prems(2,3) Suc ne by simp
    moreover have "advance j (e\<lparr>seq := seq e + 1\<rparr>) = advance (Suc j) e" by (simp add: advance_def)
    ultimately show ?thesis using Suc ne by simp
  qed
qed simp

text \<open>The packets of an encoder: their number, payloads and prefixes.\<close>

definition rtp_sends :: "(rtp_enc \<Rightarrow> bool \<Rightarrow> u8 list) \<Rightarrow> nat \<Rightarrow> rtp_enc \<Rightarrow> u8 list \<Rightarrow> u8 list list \<Rightarrow> bool" where
  "rtp_sends pre k e data ps \<longleftrightarrow> concat (map (drop k) ps) = data \<and>
     (\<forall>i<length ps. take k (ps ! i) = pre (advance i e) (i + 1 = length ps))"

lemma good_bufs_sizes: "good_bufs k bufs szs \<Longrightarrow> \<forall>n\<in>set (map nat szs). k < n"
  unfolding good_bufs_def by (induction bufs szs rule: list_all2_induct) auto

lemma frags_sends:
  assumes "\<forall>e b. length (pre e b) = k" "length data \<le> room k ns" "\<forall>n\<in>set ns. k < n"
  shows "rtp_sends pre k e data (frags pre k e data ns)"
  using frags_data[OF assms(1,2)] frags_nth[OF assms] unfolding rtp_sends_def by blast

lemma length_sent: "length (sent n ps szs) = min n (min (length ps) (length szs))"
  by (simp add: sent_def)

lemma rtp_loop_sends:
  assumes "fragments pre k 0 step" "least \<le> int k" "good_bufs k bufs szs" "length data \<le> room k (map nat szs)"
  obtains ps szs1 n where "rtp_loop least step 0 e (data @ behind) (int (length data)) (map Some bufs @ None # rest) szs = Some (advance n e, ps, szs1, n)"
    "length (sent n ps szs1) = n" "rtp_sends pre k e data (sent n ps szs1)"
proof -
  have pre: "\<forall>e b. length (pre e b) = k" using assms(1) by (simp add: fragments_def)
  show ?thesis
    using rtp_loop_frags[OF assms(1,2) _ assms(3), where count = 0 and e = e and data = data and behind = behind and rest = rest]
      frags_sends[OF pre assms(4) good_bufs_sizes[OF assms(3)], of e] that by auto
qed

text \<open>\<open>rtp_enc_g711\<close> with enough room: the payloads of the packets are the samples in order, the
sequence numbers count up from the encoder's and stay there for the next frame, and every packet has the frame's time
stamp; nothing behind the frame is read.\<close>

theorem rtp_enc_g711_roundtrip:
  assumes "data \<noteq> []" "good_bufs 12 bufs szs" "length data \<le> room 12 (map nat szs)"
  shows "\<exists>ps szs1 n. rtp_enc_g711 (Some e) (Some (data @ behind)) (int (length data)) ts (Some (map Some bufs @ None # rest)) (Some szs) =
      Some (Inr (advance n e, ps, szs1, n)) \<and> length (sent n ps szs1) = n \<and>
    rtp_sends (\<lambda>e final. rtphdr e (rtp_ts e ts) (seq e = 0)) 12 e data (sent n ps szs1)"
proof -
  obtain ps szs1 n where r: "rtp_loop 12 (g711_packet (rtp_ts e ts)) 0 e (data @ behind) (int (length data)) (map Some bufs @ None # rest) szs =
      Some (advance n e, ps, szs1, n)" "length (sent n ps szs1) = n" "rtp_sends (g711_prefix (rtp_ts e ts)) 12 e data (sent n ps szs1)"
    by (rule rtp_loop_sends[OF g711_fragments _ assms(2,3)]) auto
  have "rtp_ts (advance i e) ts = rtp_ts e ts" for i by (simp add: rtp_ts_def advance_def)
  then have "rtp_sends (\<lambda>e final. rtphdr e (rtp_ts e ts) (seq e = 0)) 12 e data (sent n ps szs1)"
    using r(3) by (simp add: rtp_sends_def g711_prefix_def)
  then show ?thesis using assms(1) r(1,2) by (auto simp: rtp_enc_g711_def)
qed

subsection \<open>H.264\<close>

lemma rtp_loop_done: "len \<le> 0 \<Longrightarrow> rtp_loop least step count e frame len ps szs = Some (e, ps, szs, count)"
  by (cases "(least, step, count, e, frame, len, ps, szs)" rule: rtp_loop.cases) auto

text \<open>The two start codes.\<close>

definition no_start :: "u8 list \<Rightarrow> bool" where
  "no_start frame \<longleftrightarrow> begins frame [0, 0, 1] = Some False \<and> begins frame [0, 0, 0, 1] = Some False"

lemma drop_start_code:
  assumes "code \<in> {[], [0, 0, 1], [0, 0, 0, 1]}" "no_start frame"
  shows "drop_start (code @ frame) (int (length code) + len) = Some (frame, len)"
  using assms by (auto simp: drop_start_def no_start_def)

text \<open>A unit that fits into the first packet.\<close>

lemma single_packet:
  assumes "length nal + 12 \<le> nat sz" "nat sz \<le> length pkt" "nal \<noteq> []"
  shows "put_at pkt 0 (rtphdr e ts True) = Some (rtphdr e ts True @ drop 12 pkt)"
    "copy_in (rtphdr e ts True @ drop 12 pkt) 12 (nal @ behind) (int (length nal)) = Some ((rtphdr e ts True @ nal) @ drop (12 + length nal) pkt)"
  using put_at_0[of "rtphdr e ts True" pkt] copy_in_next[of "rtphdr e ts True" 12 "int (length nal)" pkt "nal @ behind"] assms by simp_all

definition fu_a_first :: "32 word \<Rightarrow> u8 \<Rightarrow> rtp_enc \<Rightarrow> u8 list" where
  "fu_a_first ts nal e = (rtphdr e ts False @ [(nal AND 0xe0) OR 28]) @ [(nal AND 0x1f) OR 0x80]"

lemma h264_first:
  assumes "nat sz < length body + 13" "14 < sz" "nat sz \<le> length pkt"
  shows "h264_packet ts nal 0 e (nal # body @ behind) (int (length (nal # body))) pkt sz =
    Some ((fu_a_first ts nal e @ take (nat sz - 14) body) @ drop (nat sz) pkt, sz, drop (nat sz - 14) body @ behind, int (length (drop (nat sz - 14) body)))"
proof -
  have l: "14 \<le> length pkt" "nat sz - 14 \<le> length body" "14 + (nat sz - 14) = nat sz" "int (nat sz - 14) = sz - 14" "\<not> int (length (nal # body)) \<le> sz - 12"
    "int (length (drop (nat sz - 14) body)) = int (length (nal # body)) - 1 - (sz - 14)" "0 \<le> sz - 14" "nat (sz - 14) = nat sz - 14"
    using assms by (simp_all add: of_nat_diff)
  define H where "H = rtphdr e ts False @ [(nal AND 0xe0) OR 28]"
  have p1: "put_at pkt 0 (rtphdr e ts False) = Some (rtphdr e ts False @ drop 12 pkt)"
    using put_at_0[of "rtphdr e ts False" pkt] l by simp
  have p2: "put_at (rtphdr e ts False @ drop 12 pkt) 12 [(nal AND 0xe0) OR 28] = Some (H @ drop 13 pkt)"
    using put_at_next[of "rtphdr e ts False" 12 "[(nal AND 0xe0) OR 28]" pkt] l by (simp add: H_def)
  have p3: "put_at (H @ drop 13 pkt) 13 [(nal AND 0x1f) OR 0x80] = Some (fu_a_first ts nal e @ drop 14 pkt)"
    using put_at_next[of H 13 "[(nal AND 0x1f) OR 0x80]" pkt] l by (simp add: H_def fu_a_first_def)
  have p4: "copy_in (fu_a_first ts nal e @ drop 14 pkt) 14 (body @ behind) (sz - 14) =
      Some ((fu_a_first ts nal e @ take (nat sz - 14) body) @ drop (nat sz) pkt)"
    using copy_in_next[of "fu_a_first ts nal e" 14 "sz - 14" pkt "body @ behind"] l assms(3) by (simp add: fu_a_first_def)
  show ?thesis
    using p1 p2 p3 p4 l(2,5,6,8) by (simp add: h264_packet_def RTPHDR_SIZE_def)
qed

text \<open>
  A receiver after RFC 6184: units of type 28 are fragments, whose two bytes hold the header of the
  unit; any other packet is a unit.
\<close>

definition h264_receive :: "u8 list list \<Rightarrow> u8 list" where
  "h264_receive ps =
     (let p = hd ps in
      if p ! 12 AND 0x1f = 28
      then [(p ! 12 AND 0xe0) OR (p ! 13 AND 0x1f)] @ concat (map (drop 14) ps)
      else drop 12 p)"

lemma fu_a_bits:
  "((w AND 0xe0) OR 28) AND 0x1f = (28 :: u8)" "((w AND 0xe0) OR 28) AND 0xe0 = w AND (0xe0 :: u8)"
  "((w AND 0x1f) OR 0x80) AND 0x1f = w AND (0x1f :: u8)" "(w AND 0xe0) OR (w AND 0x1f) = (w :: u8)"
proof -
  show "((w AND 0xe0) OR 28) AND 0x1f = (28 :: u8)" "((w AND 0xe0) OR 28) AND 0xe0 = w AND (0xe0 :: u8)"
    "((w AND 0x1f) OR 0x80) AND 0x1f = w AND (0x1f :: u8)"
    by (simp_all add: bit.conj_disj_distrib2 and.assoc)
  have "(w AND 0xe0) OR (w AND 0x1f) = w AND (0xe0 OR 0x1f)" by (simp only: bit.conj_disj_distrib)
  also have "0xe0 OR 0x1f = (-1 :: u8)" by simp
  finally show "(w AND 0xe0) OR (w AND 0x1f) = w" by simp
qed

lemma sent_Suc: "sent (Suc n) (Some p # ps) (s # szs) = take (nat s) p # sent n ps szs"
  by (simp add: sent_def)

text \<open>The first fragment in front of the others.\<close>

lemma rtp_fragmented:
  assumes st: "fragments pre k 1 step" and first: "step 0 e frame len b sz = Some ((p0 @ d0) @ drop (nat sz) b, sz, d1 @ behind, int (length d1))"
    and "length p0 = k" "k + length d0 = nat sz" "least < sz" "0 < len" "d1 \<noteq> []"
    and m: "least \<le> int k" "good_bufs k bufs szs" "length d1 \<le> room k (map nat szs)"
  obtains ps szs1 F where "rtp_loop least step 0 e frame len (Some b # map Some bufs @ None # rest) (sz # szs) = Some (advance (Suc (length F)) e, ps, szs1, Suc (length F))"
    "sent (Suc (length F)) ps szs1 = (p0 @ d0) # F" "F \<noteq> []" "concat (map (drop k) F) = d1"
    "\<forall>i<length F. take k (F ! i) = pre (advance (Suc i) e) (i + 1 = length F)"
proof -
  let ?e1 = "e\<lparr>seq := seq e + 1\<rparr>"
  let ?F = "frags pre k ?e1 d1 (map nat szs)"
  have pre: "\<forall>e b. length (pre e b) = k" using st by (simp add: fragments_def)
  obtain ps szs1 where L: "rtp_loop least step 1 ?e1 (d1 @ behind) (int (length d1)) (map Some bufs @ None # rest) szs =
      Some (advance (length ?F) ?e1, ps, szs1, 1 + length ?F)" "sent (length ?F) ps szs1 = ?F"
    using rtp_loop_frags[OF st m(1) _ m(2), where count = 1 and e = ?e1 and data = d1 and behind = behind and rest = rest] by auto
  have S: "rtp_sends pre k ?e1 d1 ?F" by (rule frags_sends[OF pre m(3) good_bufs_sizes[OF m(2)]])
  have adv: "advance i ?e1 = advance (Suc i) e" for i by (simp add: advance_def)
  show ?thesis
  proof (rule that[of ?F])
    show "rtp_loop least step 0 e frame len (Some b # map Some bufs @ None # rest) (sz # szs) =
        Some (advance (Suc (length ?F)) e, Some ((p0 @ d0) @ drop (nat sz) b) # ps, sz # szs1, Suc (length ?F))"
      using first assms(5,6) L(1) by (simp add: adv del: append_assoc)
    have "length (p0 @ d0) = nat sz" using assms(3,4) by simp
    then show "sent (Suc (length ?F)) (Some ((p0 @ d0) @ drop (nat sz) b) # ps) (sz # szs1) = (p0 @ d0) # ?F"
      using L(2) by (simp add: sent_Suc del: append_assoc)
    show "?F \<noteq> []" by (rule frags_not_Nil[OF assms(7) m(3)])
  qed (use S in \<open>simp_all add: rtp_sends_def adv\<close>)
qed

text \<open>A unit in one packet, or its \<open>body\<close> in fragments, the first of which has the prefix \<open>p0\<close>.\<close>

lemma rtp_unit:
  assumes fr: "fragments pre k 1 step" and k: "12 \<le> k" "length p0 = k" "length nal + 12 \<le> length body + k" "length body \<le> length nal" "nal \<noteq> []"
    and single: "\<And>b sz. length nal + 12 \<le> nat sz \<Longrightarrow> nat sz \<le> length b \<Longrightarrow> step 0 e (nal @ behind) (int (length nal)) b sz =
      Some ((rtphdr e t True @ nal) @ drop (12 + length nal) b, 12 + int (length nal), behind, 0)"
    and first: "\<And>b sz. nat sz < length nal + 12 \<Longrightarrow> int k < sz \<Longrightarrow> nat sz \<le> length b \<Longrightarrow> step 0 e (nal @ behind) (int (length nal)) b sz =
      Some ((p0 @ take (nat sz - k) body) @ drop (nat sz) b, sz, drop (nat sz - k) body @ behind, int (length (drop (nat sz - k) body)))"
    and bufs: "good_bufs k bufs szs" "length nal \<le> room k (map nat szs)"
  obtains (one) ps szs1 where "rtp_loop 12 step 0 e (nal @ behind) (int (length nal)) (map Some bufs @ None # rest) szs = Some (advance 1 e, ps, szs1, 1)"
      "sent 1 ps szs1 = [rtphdr e t True @ nal]"
  | (more) ps szs1 d0 F where "rtp_loop 12 step 0 e (nal @ behind) (int (length nal)) (map Some bufs @ None # rest) szs =
        Some (advance (Suc (length F)) e, ps, szs1, Suc (length F))" "sent (Suc (length F)) ps szs1 = (p0 @ d0) # F" "F \<noteq> []"
      "d0 @ concat (map (drop k) F) = body" "\<forall>i<length F. take k (F ! i) = pre (advance (Suc i) e) (i + 1 = length F)"
proof -
  obtain b bufs1 sz szs1 where B: "bufs = b # bufs1" "szs = sz # szs1" "int k < sz" "nat sz \<le> length b" "good_bufs k bufs1 szs1"
    using bufs k(5) by (cases bufs; cases szs) (auto simp: good_bufs_def room_def)
  show ?thesis
  proof (cases "length nal + 12 \<le> nat sz")
    case True
    let ?p = "(rtphdr e t True @ nal) @ drop (12 + length nal) b"
    have "rtp_loop 12 step 0 e (nal @ behind) (int (length nal)) (map Some bufs @ None # rest) szs =
        Some (advance 1 e, Some ?p # map Some bufs1 @ None # rest, (12 + int (length nal)) # szs1, 1)"
      using single[OF True B(4)] B(1-3) k(1,5) by (simp add: rtp_loop_done advance_def del: append_assoc)
    moreover have "sent 1 (Some ?p # map Some bufs1 @ None # rest) ((12 + int (length nal)) # szs1) = [rtphdr e t True @ nal]"
      by (simp add: sent_def nat_add_distrib)
    ultimately show ?thesis by (rule one)
  next
    case False
    define d0 where "d0 = take (nat sz - k) body"
    define d1 where "d1 = drop (nat sz - k) body"
    have "nat sz < length nal + 12" using False by simp
    note F = first[OF this B(3,4)]
    have d: "k + length d0 = nat sz" "d1 \<noteq> []" "length d1 \<le> room k (map nat szs1)" "d0 @ d1 = body"
      using False B(3) bufs(2) k by (auto simp: d0_def d1_def room_def B(2))
    show ?thesis
      by (rule rtp_fragmented[OF fr F[folded d0_def d1_def] k(2) d(1) _ _ d(2) _ B(5) d(3), of 12 rest]) (use B(1-3) k(1,5) d(4) more in auto)
  qed
qed

text \<open>C23: \<open>rtp_enc_h264\<close> with enough room: a receiver gets back the unit, with or without a start code in front of
it, whether it fits into one packet or is cut into fragments; the sequence numbers count up from the
encoder's, all packets have the frame's time stamp and only the last one the marker.\<close>

theorem rtp_enc_h264_roundtrip:
  assumes nal: "nal \<noteq> []" "hd nal AND 0x1f \<noteq> 28" "no_start (nal @ behind)" and code: "code \<in> {[], [0, 0, 1], [0, 0, 0, 1]}"
    and bufs: "good_bufs 14 bufs szs" and room: "length nal \<le> room 14 (map nat szs)"
  shows "\<exists>ps szs1 n. rtp_enc_h264 (Some e) (Some (code @ nal @ behind)) (int (length code) + int (length nal)) ts
        (Some (map Some bufs @ None # rest)) (Some szs) = Some (Inr (advance n e, ps, szs1, n)) \<and>
      length (sent n ps szs1) = n \<and> h264_receive (sent n ps szs1) = nal \<and>
      (\<forall>i<n. take 12 (sent n ps szs1 ! i) = rtphdr (advance i e) (rtp_ts e ts) (i + 1 = n))"
proof -
  obtain h body where h: "nal = h # body" using nal(1) by (cases nal) auto
  define t where "t = rtp_ts e ts"
  let ?step = "h264_packet t h"
  have start: "rtp_enc_h264 (Some e) (Some (code @ nal @ behind)) (int (length code) + int (length nal)) ts (Some (map Some bufs @ None # rest)) (Some szs) =
      map_option Inr (rtp_loop 12 ?step 0 e (nal @ behind) (int (length nal)) (map Some bufs @ None # rest) szs)"
    using drop_start_code[OF code nal(3), of "int (length nal)"] nal(1) by (simp add: rtp_enc_h264_def byte_at_def h t_def)
  have len: "length (fu_a_first t h e) = 14" by (simp add: fu_a_first_def)
  show ?thesis
  proof (rule rtp_unit[OF h264_fragments _ len, of nal body t h e behind t bufs szs rest], goal_cases)
    case (5 b sz)
    then show ?case using single_packet[of nal sz b] nal(1) by (simp add: h264_packet_def RTPHDR_SIZE_def del: append_assoc)
  next
    case (6 b sz)
    then show ?case using h264_first[of sz body b t h e behind] by (simp add: h)
  next
    case (9 ps szs1)
    moreover have "h264_receive [rtphdr e t True @ nal] = nal" using nal(2) by (simp add: h264_receive_def nth_append h)
    ultimately show ?case unfolding start by (simp add: t_def advance_def)
  next
    case (10 ps szs1 d0 F)
    have "h264_receive ((fu_a_first t h e @ d0) # F) = nal"
      using 10(4) len by (simp add: h264_receive_def fu_a_first_def nth_append fu_a_bits h)
    moreover have "take 12 (((fu_a_first t h e @ d0) # F) ! i) = rtphdr (advance i e) t (i + 1 = Suc (length F))" if i: "i < Suc (length F)" for i
    proof (cases i)
      case 0
      then show ?thesis using 10(3) by (simp add: fu_a_first_def advance_def)
    next
      case (Suc j)
      then have "take 14 (F ! j) = fu_a t h (advance (Suc j) e) (j + 1 = length F)" using 10(5) i by simp
      from arg_cong[OF this, of "take 12"] show ?thesis using Suc by (simp add: fu_a_def)
    qed
    ultimately show ?case unfolding start using 10(1,2) by (auto simp: t_def[symmetric])
  qed (use h bufs room in auto)
qed

subsection \<open>H.265\<close>

definition fu_265_first :: "32 word \<Rightarrow> u8 \<Rightarrow> u8 \<Rightarrow> rtp_enc \<Rightarrow> u8 list" where
  "fu_265_first ts nal0 nal1 e =
     ((rtphdr e ts False @ [(nal0 AND 0x81) OR 98]) @ [nal1]) @ [(drop_bit 1 nal0 AND 0x3f) OR 0x80]"

lemma h265_first:
  assumes "nat sz < length body + 14" "15 < sz" "nat sz \<le> length pkt"
  shows "h265_packet ts nal0 nal1 0 e (nal0 # nal1 # body @ behind) (int (length (nal0 # nal1 # body))) pkt sz =
    Some ((fu_265_first ts nal0 nal1 e @ take (nat sz - 15) body) @ drop (nat sz) pkt, sz, drop (nat sz - 15) body @ behind,
      int (length (drop (nat sz - 15) body)))"
proof -
  have l: "15 \<le> length pkt" "nat sz - 15 \<le> length body" "15 + (nat sz - 15) = nat sz" "int (nat sz - 15) = sz - 15"
    "\<not> int (length (nal0 # nal1 # body)) \<le> sz - 12"
    "int (length (drop (nat sz - 15) body)) = int (length (nal0 # nal1 # body)) - 2 - (sz - 15)" "0 \<le> sz - 15" "nat (sz - 15) = nat sz - 15"
    using assms by (simp_all add: of_nat_diff)
  have drop_2: "drop 2 (nal0 # nal1 # body @ behind) = body @ behind" and n_add: "(12 :: nat) + 1 = 13" "(12 :: nat) + 2 = 14" "(12 :: nat) + 3 = 15"
    and s: "sz - 12 - 3 = sz - 15" "((drop_bit 1 nal0 AND 63) OR 128) OR 0 = (drop_bit 1 nal0 AND 63) OR (128 :: u8)" "(0 :: nat) = 0 \<longleftrightarrow> True" by simp_all
  define H where "H = rtphdr e ts False @ [(nal0 AND 0x81) OR 98]"
  define G where "G = H @ [nal1]"
  have p1: "put_at pkt 0 (rtphdr e ts False) = Some (rtphdr e ts False @ drop 12 pkt)"
    using put_at_0[of "rtphdr e ts False" pkt] l by simp
  have p2: "put_at (rtphdr e ts False @ drop 12 pkt) 12 [(nal0 AND 0x81) OR 98] = Some (H @ drop 13 pkt)"
    using put_at_next[of "rtphdr e ts False" 12 "[(nal0 AND 0x81) OR 98]" pkt] l by (simp add: H_def)
  have p3: "put_at (H @ drop 13 pkt) 13 [nal1] = Some (G @ drop 14 pkt)"
    using put_at_next[of H 13 "[nal1]" pkt] l by (simp add: H_def G_def)
  have p4: "put_at (G @ drop 14 pkt) 14 [(drop_bit 1 nal0 AND 0x3f) OR 0x80] = Some (fu_265_first ts nal0 nal1 e @ drop 15 pkt)"
    using put_at_next[of G 14 "[(drop_bit 1 nal0 AND 0x3f) OR 0x80]" pkt] l by (simp add: H_def G_def fu_265_first_def)
  have p5: "copy_in (fu_265_first ts nal0 nal1 e @ drop 15 pkt) 15 (body @ behind) (sz - 15) =
      Some ((fu_265_first ts nal0 nal1 e @ take (nat sz - 15) body) @ drop (nat sz) pkt)"
  proof -
    have "length (fu_265_first ts nal0 nal1 e) = 15" by (simp add: fu_265_first_def)
    then show ?thesis using copy_in_next[of "fu_265_first ts nal0 nal1 e" 15 "sz - 15" pkt "body @ behind"] l(2,3,7) assms(3) unfolding l(8) by simp
  qed
  show ?thesis
    unfolding h265_packet_def RTPHDR_SIZE_def using l(5)
    by (simp only: simp_thms if_True if_False Let_def prod.case drop_2 p1 p2 p3 p4 p5 bind.bind_lunit n_add l(6,8) s) (simp add: l(2))
qed

text \<open>A receiver after RFC 7798: units of type 49 are fragments.\<close>

definition h265_receive :: "u8 list list \<Rightarrow> u8 list" where
  "h265_receive ps =
     (let p = hd ps in
      if drop_bit 1 (p ! 12) AND 0x3f = 49
      then [(p ! 12 AND 0x81) OR push_bit 1 (p ! 14 AND 0x3f), p ! 13] @ concat (map (drop 15) ps)
      else drop 12 p)"

lemma less_8_cases: "n < (8 :: nat) \<Longrightarrow> n \<in> {0, 1, 2, 3, 4, 5, 6, 7}"
  by auto

lemma fu_265_bits:
  "drop_bit 1 ((w AND 0x81) OR 98) AND 0x3f = (49 :: u8)" "((w AND 0x81) OR 98) AND 0x81 = w AND (0x81 :: u8)"
  "((w AND 0x3f) OR 0x80) AND 0x3f = w AND (0x3f :: u8)" "(w AND 0x81) OR push_bit 1 (drop_bit 1 w AND 0x3f) = (w :: u8)"
proof -
  show "((w AND 0x81) OR 98) AND 0x81 = w AND (0x81 :: u8)" "((w AND 0x3f) OR 0x80) AND 0x3f = w AND (0x3f :: u8)"
    by (simp_all add: bit.conj_disj_distrib2 and.assoc)
  show "drop_bit 1 ((w AND 0x81) OR 98) AND 0x3f = (49 :: u8)"
  proof (rule bit_word_eqI)
    fix n assume "n < LENGTH(8)"
    then have "n \<in> {0, 1, 2, 3, 4, 5, 6, 7}" using less_8_cases by simp
    then show "bit (drop_bit 1 ((w AND 0x81) OR 98) AND 0x3f) n = bit (49 :: u8) n"
      by (auto simp: bit_simps)
  qed
  show "(w AND 0x81) OR push_bit 1 (drop_bit 1 w AND 0x3f) = (w :: u8)"
  proof (rule bit_word_eqI)
    fix n assume "n < LENGTH(8)"
    then have "n \<in> {0, 1, 2, 3, 4, 5, 6, 7}" using less_8_cases by simp
    moreover have "bit (push_bit 1 (drop_bit 1 w AND 0x3f)) n = (n \<noteq> 0 \<and> bit w n \<and> bit (0x3f :: u8) (n - 1))"
      using \<open>n < LENGTH(8)\<close> by (cases n) (simp_all only: bit_push_bit_iff bit_and_iff bit_drop_bit_eq comp_def, simp_all)
    ultimately show "bit ((w AND 0x81) OR push_bit 1 (drop_bit 1 w AND 0x3f)) n = bit w n"
      unfolding bit_or_iff by (auto simp: bit_and_iff)
  qed
qed

text \<open>\<open>rtp_enc_h265\<close> with enough room: a receiver gets back the unit, in one packet or in fragments; sequence
numbers, time stamp and marker as for H.264.\<close>

theorem rtp_enc_h265_roundtrip:
  assumes nal: "2 \<le> length nal" "drop_bit 1 (hd nal) AND 0x3f \<noteq> 49" "no_start (nal @ behind)" and code: "code \<in> {[], [0, 0, 1], [0, 0, 0, 1]}"
    and bufs: "good_bufs 15 bufs szs" and room: "length nal \<le> room 15 (map nat szs)"
  shows "\<exists>ps szs1 n. rtp_enc_h265 (Some e) (Some (code @ nal @ behind)) (int (length code) + int (length nal)) ts
        (Some (map Some bufs @ None # rest)) (Some szs) = Some (Inr (advance n e, ps, szs1, n)) \<and>
      length (sent n ps szs1) = n \<and> h265_receive (sent n ps szs1) = nal \<and>
      (\<forall>i<n. take 12 (sent n ps szs1 ! i) = rtphdr (advance i e) (rtp_ts e ts) (i + 1 = n))"
proof -
  obtain h0 h1 body where h: "nal = h0 # h1 # body" using nal(1) by (cases nal; cases "tl nal") auto
  define t where "t = rtp_ts e ts"
  let ?step = "h265_packet t h0 h1"
  have start: "rtp_enc_h265 (Some e) (Some (code @ nal @ behind)) (int (length code) + int (length nal)) ts (Some (map Some bufs @ None # rest)) (Some szs) =
      map_option Inr (rtp_loop 12 ?step 0 e (nal @ behind) (int (length nal)) (map Some bufs @ None # rest) szs)"
    using drop_start_code[OF code nal(3), of "int (length nal)"] nal(1) by (simp add: rtp_enc_h265_def byte_at_def h t_def)
  have len: "length (fu_265_first t h0 h1 e) = 15" by (simp add: fu_265_first_def)
  show ?thesis
  proof (rule rtp_unit[OF h265_fragments _ len, of nal body t h0 h1 e behind t bufs szs rest], goal_cases)
    case (5 b sz)
    then have "int (length nal) \<le> sz - 12" "nal \<noteq> []" using h by auto
    with 5 show ?case using single_packet[of nal sz b] by (simp add: h265_packet_def RTPHDR_SIZE_def del: append_assoc)
  next
    case (6 b sz)
    then show ?case using h265_first[of sz body b t h0 h1 e behind] by (simp add: h)
  next
    case (9 ps szs1)
    moreover have "h265_receive [rtphdr e t True @ nal] = nal" using nal(2) by (simp add: h265_receive_def nth_append h)
    ultimately show ?case unfolding start by (simp add: t_def advance_def)
  next
    case (10 ps szs1 d0 F)
    have "h265_receive ((fu_265_first t h0 h1 e @ d0) # F) = nal"
      using 10(4) len by (simp add: h265_receive_def fu_265_first_def nth_append fu_265_bits[simplified] h)
    moreover have "take 12 (((fu_265_first t h0 h1 e @ d0) # F) ! i) = rtphdr (advance i e) t (i + 1 = Suc (length F))" if i: "i < Suc (length F)" for i
    proof (cases i)
      case 0
      then show ?thesis using 10(3) by (simp add: fu_265_first_def advance_def)
    next
      case (Suc j)
      then have "take 15 (F ! j) = fu_265 t h0 h1 (advance (Suc j) e) (j + 1 = length F)" using 10(5) i by simp
      from arg_cong[OF this, of "take 12"] show ?thesis using Suc by (simp add: fu_265_def)
    qed
    ultimately show ?case unfolding start using 10(1,2) by (auto simp: t_def[symmetric])
  qed (use h bufs room in auto)
qed

text \<open>A packet of 13 bytes passes the test of the loop of \<open>rtp_enc_h264\<close>, but leaves no room for the two
bytes of a fragment: the length given to \<^verbatim>\<open>memcpy\<close> is -1, for every unit of more than one byte.\<close>

theorem rtp_enc_h264_tiny_packet:
  assumes nal: "2 \<le> length nal" "no_start (nal @ behind)" and code: "code \<in> {[], [0, 0, 1], [0, 0, 0, 1]}"
  shows "rtp_enc_h264 (Some e) (Some (code @ nal @ behind)) (int (length code) + int (length nal)) ts (Some (Some b # ps)) (Some (13 # szs)) = None"
proof -
  have c: "copy_in p i f (-1) = None" for p i f by (simp add: copy_in_def)
  have "h264_packet t h 0 e (nal @ behind) (int (length nal)) b 13 = None" for t h
    using nal(1) by (simp add: h264_packet_def c)
  then show ?thesis
    using drop_start_code[OF code nal(2), of "int (length nal)"] nal(1) by (cases nal) (simp_all add: rtp_enc_h264_def byte_at_def)
qed

subsection \<open>AAC\<close>

text \<open>The size of the access unit in the header of 13 bits.\<close>

definition au_size :: "u8 list \<Rightarrow> nat" where
  "au_size p = 32 * unat (p ! 14) + unat (p ! 15) div 8"

lemma au_size_prefix:
  assumes "n < 8192"
  shows "au_size (aac_prefix ts (word_of_int (int n)) e final) = n"
proof -
  define w where "w = (word_of_int (int n) :: 32 word)"
  have w: "unat w = n" using assms by (simp add: w_def unat_of_nat take_bit_nat_eq_self)
  have "unat (drop_bit 5 w) = n div 32" using w by (simp add: drop_bit_eq_div unat_div)
  then have 1: "unat (ucast (drop_bit 5 w) :: u8) = n div 32"
    using assms by (simp add: unsigned_ucast_eq take_bit_nat_eq_self less_mult_imp_div_less)
  have "w AND 0x1f = take_bit 5 w" by (simp add: take_bit_eq_mask mask_eq_exp_minus_1)
  then have a: "w AND 0x1f = w mod 32" by (simp add: take_bit_eq_mod)
  have "unat (push_bit 3 (w AND 0x1f)) = 8 * (n mod 32)"
    unfolding a using w by (simp add: push_bit_eq_mult unat_word_ariths(2) unat_mod)
  then have 2: "unat (ucast (push_bit 3 (w AND 0x1f)) :: u8) = 8 * (n mod 32)"
    by (simp add: unsigned_ucast_eq take_bit_nat_eq_self)
  show ?thesis
    unfolding au_size_def w_def[symmetric] using 1 2 by (simp add: aac_prefix_def nth_append)
qed

lemma au_size_take: "take 16 p = q \<Longrightarrow> au_size p = au_size q"
proof -
  assume q: "take 16 p = q"
  have "p ! 14 = q ! 14" "p ! 15 = q ! 15" unfolding q[symmetric] by simp_all
  then show ?thesis by (simp add: au_size_def)
qed

text \<open>\<open>rtp_enc_aac\<close> with enough room: the payloads of the packets are the access unit behind its ADTS header,
every packet tells the size of the whole unit, and only the last one has the marker.\<close>

theorem rtp_enc_aac_roundtrip:
  assumes data: "data \<noteq> []" "length data < 8192"
    and hdr: "length adts = 7 \<and> adts ! 0 = 0xff \<and> adts ! 1 AND 0xf0 = 0xf0 \<or> adts = [] \<and> hd data \<noteq> 0xff"
    and bufs: "good_bufs 16 bufs szs" and room: "length data \<le> room 16 (map nat szs)"
  shows "\<exists>ps szs1 n. rtp_enc_aac (Some e) (Some (adts @ data @ behind)) (int (length adts) + int (length data)) ts
        (Some (map Some bufs @ None # rest)) (Some szs) = Some (Inr (advance n e, ps, szs1, n)) \<and>
      length (sent n ps szs1) = n \<and> concat (map (drop 16) (sent n ps szs1)) = data \<and>
      (\<forall>i<n. take 12 (sent n ps szs1 ! i) = rtphdr (advance i e) (rtp_ts e ts) (i + 1 = n) \<and> au_size (sent n ps szs1 ! i) = length data)"
proof -
  define t where "t = rtp_ts e ts"
  define au where "au = (word_of_int (int (length data)) :: 32 word)"
  obtain ps szs1 n where r: "rtp_loop 16 (aac_packet t au) 0 e (data @ behind) (int (length data)) (map Some bufs @ None # rest) szs =
      Some (advance n e, ps, szs1, n)" "length (sent n ps szs1) = n" "rtp_sends (aac_prefix t au) 16 e data (sent n ps szs1)"
    by (rule rtp_loop_sends[OF aac_fragments _ bufs room]) auto
  have b: "byte_at (adts @ data @ behind) 0 = Some (if adts = [] then hd data else adts ! 0)"
    "adts \<noteq> [] \<Longrightarrow> byte_at (adts @ data @ behind) 1 = Some (adts ! 1)"
    using data(1) hdr by (auto simp: byte_at_def nth_append hd_conv_nth)
  have "rtp_enc_aac (Some e) (Some (adts @ data @ behind)) (int (length adts) + int (length data)) ts (Some (map Some bufs @ None # rest)) (Some szs) =
      Some (Inr (advance n e, ps, szs1, n))"
    using hdr data(1) b r(1) by (auto simp: rtp_enc_aac_def t_def au_def)
  moreover have "take 12 (sent n ps szs1 ! i) = rtphdr (advance i e) t (i + 1 = n) \<and> au_size (sent n ps szs1 ! i) = length data" if "i < n" for i
  proof -
    have t: "take 16 (sent n ps szs1 ! i) = aac_prefix t au (advance i e) (i + 1 = n)" using r(2,3) that by (simp add: rtp_sends_def)
    then have "au_size (sent n ps szs1 ! i) = length data"
      using au_size_take[OF t] au_size_prefix[OF data(2)] by (simp add: au_def aac_prefix_def)
    then show ?thesis using arg_cong[OF t, of "take 12"] by (simp add: aac_prefix_def)
  qed
  ultimately show ?thesis using r(2,3) by (auto simp: rtp_sends_def t_def)
qed

subsection \<open>Examples\<close>

definition demo_enc :: rtp_enc where
  "demo_enc = \<lparr>pt = 96, seq = 65535, ssrc = 7, sample_rate = 90000\<rparr>"

definition demo_bufs :: "u8 list list" where "demo_bufs = replicate 3 (replicate 20 0)"

lemma demo_bufs_ok: "k < 20 \<Longrightarrow> good_bufs k demo_bufs [20, 20, 20]"
  by (simp add: demo_bufs_def good_bufs_def numeral_3_eq_3)

lemma rtp_enc_h264_roundtrip_witness:
  "\<exists>ps szs n. rtp_enc_h264 (Some demo_enc) (Some [0, 0, 0, 1, 0x65, 1, 2, 3, 4, 5, 6, 7, 8, 9]) 14 40 (Some (map Some demo_bufs @ [None])) (Some [20, 20, 20]) =
     Some (Inr (advance n demo_enc, ps, szs, n)) \<and> h264_receive (sent n ps szs) = [0x65, 1, 2, 3, 4, 5, 6, 7, 8, 9]"
  using rtp_enc_h264_roundtrip[OF _ _ _ _ demo_bufs_ok, of "[0x65, 1, 2, 3, 4, 5, 6, 7, 8, 9]" "[]" "[0, 0, 0, 1]" demo_enc 40 "[]"]
  by (auto simp: no_start_def room_def)

lemma rtp_enc_h265_roundtrip_witness:
  "\<exists>ps szs n. rtp_enc_h265 (Some demo_enc) (Some [0x40, 1, 2, 3, 4, 5, 6, 7, 8, 9]) 10 40 (Some (map Some demo_bufs @ [None])) (Some [20, 20, 20]) =
     Some (Inr (advance n demo_enc, ps, szs, n)) \<and> h265_receive (sent n ps szs) = [0x40, 1, 2, 3, 4, 5, 6, 7, 8, 9]"
  using rtp_enc_h265_roundtrip[OF _ _ _ _ demo_bufs_ok, of "[0x40, 1, 2, 3, 4, 5, 6, 7, 8, 9]" "[]" "[]" demo_enc 40 "[]"]
  by (auto simp: no_start_def room_def)

lemma rtp_enc_aac_roundtrip_witness:
  "\<exists>ps szs n. rtp_enc_aac (Some demo_enc) (Some [1, 2, 3, 4, 5, 6]) 6 40 (Some (map Some demo_bufs @ [None])) (Some [20, 20, 20]) =
     Some (Inr (advance n demo_enc, ps, szs, n)) \<and> concat (map (drop 16) (sent n ps szs)) = [1, 2, 3, 4, 5, 6]"
  using rtp_enc_aac_roundtrip[OF _ _ _ demo_bufs_ok, of "[1, 2, 3, 4, 5, 6]" "[]" demo_enc "[]" 40 "[]"]
  by (auto simp: room_def)

lemma rtp_enc_g711_roundtrip_witness:
  "\<exists>ps szs n. rtp_enc_g711 (Some demo_enc) (Some [1, 2, 3, 4, 5, 6, 7, 8, 9]) 9 40 (Some (map Some demo_bufs @ [None])) (Some [20, 20, 20]) =
     Some (Inr (advance n demo_enc, ps, szs, n)) \<and> concat (map (drop 12) (sent n ps szs)) = [1, 2, 3, 4, 5, 6, 7, 8, 9]"
  using rtp_enc_g711_roundtrip[OF _ demo_bufs_ok, of "[1, 2, 3, 4, 5, 6, 7, 8, 9]" demo_enc "[]" 40 "[]"]
  by (auto simp: room_def rtp_sends_def)

lemma rtp_enc_h264_tiny_packet_witness:
  "rtp_enc_h264 (Some demo_enc) (Some [0x65, 1, 2]) 3 40 (Some [Some (replicate 13 0), None]) (Some [13, 13]) = None"
  using rtp_enc_h264_tiny_packet[of "[0x65, 1, 2]" "[]" "[]" demo_enc 40 "replicate 13 0" "[None]" "[13]"] by (simp add: no_start_def)

end
