(* ===== verification/Stream_Queue.thy ===== *)
theory Stream_Queue
  imports C_Prelude
begin

section \<open>The packet queue of a stream (\<^verbatim>\<open>rtsp_lib/stream_queue.c\<close>)\<close>

text \<open>
  A ring of packets of one size in one block of memory behind the structure; addresses are offsets
  into that block. The producer fills the packet at the tail and pushes it, the consumer
  takes it from the head. \<open>window q\<close> is the list of the packets in use.
\<close>

subsection \<open>State and operations\<close>

record stream_queue =
  q_pktsiz :: int
  q_nbpkts :: int
  q_head :: int
  q_tail :: int
  q_pktlen :: nat
  q_buf :: nat

definition QUEUE_SIZE :: nat where "QUEUE_SIZE = 24"

definition int_ok :: "int \<Rightarrow> bool" where
  "int_ok n \<longleftrightarrow> - (2 ^ 31) \<le> n \<and> n < 2 ^ 31"

text \<open>The number of bytes asked for; the product of the ints may overflow, the sum wraps.\<close>

definition queue_bytes :: "int \<Rightarrow> int \<Rightarrow> nat option" where
  "queue_bytes pktsiz nbpkts = do { guard (int_ok (pktsiz * nbpkts)); Some (u32 (QUEUE_SIZE + nat (pktsiz * nbpkts) + 4 * nat nbpkts)) }"

text \<open>\<open>calloc n\<close> says whether \<open>n\<close> bytes are there. The result is null (\<open>Some None\<close>) or the queue.\<close>

definition streamq_alloc :: "(nat \<Rightarrow> bool) \<Rightarrow> int \<Rightarrow> int \<Rightarrow> stream_queue option option" where
  "streamq_alloc calloc pktsiz nbpkts =
     (if pktsiz \<le> 0 \<or> nbpkts \<le> 0 then Some None
      else do {
        n \<leftarrow> queue_bytes pktsiz nbpkts;
        Some (if \<not> calloc n then None
              else Some \<lparr>q_pktsiz = pktsiz, q_nbpkts = nbpkts, q_head = 0, q_tail = 0, q_pktlen = QUEUE_SIZE,
                q_buf = QUEUE_SIZE + 4 * nat nbpkts\<rparr>)
      })"

text \<open>The addresses of a packet and of its length. The pointers for the results are not null.\<close>

definition streamq_query :: "stream_queue option \<Rightarrow> int \<Rightarrow> (int \<times> (int \<times> int) option) option" where
  "streamq_query pq index =
     (case pq of
        None \<Rightarrow> Some (-1, None)
      | Some q \<Rightarrow>
          if index \<ge> q_nbpkts q then Some (-1, None)
          else do {
            guard (int_ok (index * q_pktsiz q));
            Some (0, Some (int (q_buf q) + index * q_pktsiz q, int (q_pktlen q) + 4 * index))
          })"

definition streamq_inused :: "stream_queue option \<Rightarrow> int \<Rightarrow> int" where
  "streamq_inused pq index =
     (case pq of
        None \<Rightarrow> -1
      | Some q \<Rightarrow>
          if (q_head q \<le> index \<and> index < q_tail q) \<or> (q_head q > q_tail q \<and> (index \<ge> q_head q \<or> index < q_tail q)) then 1 else 0)"

text \<open>The remainder of C has the sign of the dividend.\<close>

definition c_rem :: "int \<Rightarrow> int \<Rightarrow> int" where
  "c_rem a b = (if a < 0 then - (- a mod \<bar>b\<bar>) else a mod \<bar>b\<bar>)"

definition streamq_next :: "stream_queue option \<Rightarrow> int \<Rightarrow> int option" where
  "streamq_next pq index =
     (case pq of None \<Rightarrow> Some (-1) | Some q \<Rightarrow> do { guard (int_ok (index + 1) \<and> q_nbpkts q \<noteq> 0); Some (c_rem (index + 1) (q_nbpkts q)) })"

definition streamq_head :: "stream_queue option \<Rightarrow> int" where
  "streamq_head pq = (case pq of None \<Rightarrow> -1 | Some q \<Rightarrow> q_head q)"

definition streamq_tail :: "stream_queue option \<Rightarrow> int" where
  "streamq_tail pq = (case pq of None \<Rightarrow> -1 | Some q \<Rightarrow> q_tail q)"

definition streamq_push :: "stream_queue option \<Rightarrow> (stream_queue option \<times> int) option" where
  "streamq_push pq =
     (case pq of
        None \<Rightarrow> Some (None, -1)
      | Some q \<Rightarrow> do {
          t \<leftarrow> streamq_next pq (q_tail q);
          Some (if t = q_head q then (pq, -1) else (Some (q\<lparr>q_tail := t\<rparr>), t))
        })"

definition streamq_pop :: "stream_queue option \<Rightarrow> (stream_queue option \<times> int) option" where
  "streamq_pop pq =
     (case pq of
        None \<Rightarrow> Some (None, -1)
      | Some q \<Rightarrow>
          if q_head q = q_tail q then Some (pq, -1)
          else do { h \<leftarrow> streamq_next pq (q_head q); Some (Some (q\<lparr>q_head := h\<rparr>), h) })"

subsection \<open>The ring\<close>

definition queue_ok :: "stream_queue \<Rightarrow> bool" where
  "queue_ok q \<longleftrightarrow> 0 < q_pktsiz q \<and> 0 < q_nbpkts q \<and> q_nbpkts q < 2 ^ 31 \<and> 0 \<le> q_head q \<and> q_head q < q_nbpkts q \<and> 0 \<le> q_tail q \<and> q_tail q < q_nbpkts q"

definition in_use :: "stream_queue \<Rightarrow> nat" where
  "in_use q = nat ((q_tail q - q_head q) mod q_nbpkts q)"

definition window :: "stream_queue \<Rightarrow> int list" where
  "window q = map (\<lambda>i. (q_head q + int i) mod q_nbpkts q) [0..<in_use q]"

lemma streamq_next_ok: "queue_ok q \<Longrightarrow> 0 \<le> i \<Longrightarrow> i < q_nbpkts q \<Longrightarrow> streamq_next (Some q) i = Some ((i + 1) mod q_nbpkts q)"
  by (simp add: streamq_next_def queue_ok_def int_ok_def c_rem_def)

lemma in_use_cases:
  assumes "queue_ok q"
  shows "in_use q = (if q_head q \<le> q_tail q then nat (q_tail q - q_head q) else nat (q_tail q + q_nbpkts q - q_head q))"
proof (cases "q_head q \<le> q_tail q")
  case False
  then have "(q_tail q - q_head q) mod q_nbpkts q = (q_tail q - q_head q + q_nbpkts q) mod q_nbpkts q" by simp
  also have "\<dots> = q_tail q - q_head q + q_nbpkts q" using False assms by (intro mod_pos_pos_trivial) (auto simp: queue_ok_def)
  finally show ?thesis using False by (simp add: in_use_def algebra_simps)
qed (use assms in \<open>simp add: in_use_def queue_ok_def\<close>)

lemma next_cases: "0 \<le> i \<Longrightarrow> i < n \<Longrightarrow> (i + 1) mod n = (if i + 1 = n then 0 else i + 1)" for i n :: int
  by auto

text \<open>Membership in the window.\<close>

lemma in_window:
  assumes q: "queue_ok q" and i: "0 \<le> i" "i < q_nbpkts q"
  shows "i \<in> set (window q) \<longleftrightarrow> (if q_head q \<le> q_tail q then q_head q \<le> i \<and> i < q_tail q else q_head q \<le> i \<or> i < q_tail q)"
proof -
  have "i \<in> set (window q) \<longleftrightarrow> (\<exists>k<in_use q. i = (q_head q + int k) mod q_nbpkts q)" unfolding window_def by auto
  also have "\<dots> \<longleftrightarrow> nat ((i - q_head q) mod q_nbpkts q) < in_use q"
  proof
    assume "\<exists>k<in_use q. i = (q_head q + int k) mod q_nbpkts q"
    then obtain k where k: "k < in_use q" "i = (q_head q + int k) mod q_nbpkts q" by blast
    have "in_use q < nat (q_nbpkts q)" using q by (simp add: in_use_def queue_ok_def)
    then have "int k < q_nbpkts q" using k(1) by linarith
    then have "(i - q_head q) mod q_nbpkts q = int k" unfolding k(2) by (simp add: mod_diff_left_eq)
    then show "nat ((i - q_head q) mod q_nbpkts q) < in_use q" using k(1) by simp
  next
    assume "nat ((i - q_head q) mod q_nbpkts q) < in_use q"
    moreover have "(q_head q + int (nat ((i - q_head q) mod q_nbpkts q))) mod q_nbpkts q = i"
      using q i by (simp add: queue_ok_def mod_add_right_eq)
    ultimately show "\<exists>k<in_use q. i = (q_head q + int k) mod q_nbpkts q" by metis
  qed
  also have "(i - q_head q) mod q_nbpkts q = (if q_head q \<le> i then i - q_head q else i - q_head q + q_nbpkts q)"
  proof (cases "q_head q \<le> i")
    case False
    then have "(i - q_head q) mod q_nbpkts q = (i - q_head q + q_nbpkts q) mod q_nbpkts q" by simp
    also have "\<dots> = i - q_head q + q_nbpkts q" using False i q by (intro mod_pos_pos_trivial) (auto simp: queue_ok_def)
    finally show ?thesis using False by simp
  qed (use q i in \<open>simp add: queue_ok_def\<close>)
  finally show ?thesis using q i unfolding in_use_cases[OF q] queue_ok_def by auto
qed

lemma window_length: "length (window q) = in_use q"
  by (simp add: window_def)

lemma push_ok:
  assumes q: "queue_ok q"
  shows "int (in_use q) + 1 = q_nbpkts q \<Longrightarrow> streamq_push (Some q) = Some (Some q, -1)"
    "int (in_use q) + 1 \<noteq> q_nbpkts q \<Longrightarrow> \<exists>q'. streamq_push (Some q) = Some (Some q', q_tail q') \<and> queue_ok q' \<and> window q' = window q @ [q_tail q]"
proof -
  define t where "t = (q_tail q + 1) mod q_nbpkts q"
  have n: "streamq_next (Some q) (q_tail q) = Some t" using streamq_next_ok[OF q] q by (simp add: queue_ok_def t_def)
  have t: "t = (if q_tail q + 1 = q_nbpkts q then 0 else q_tail q + 1)" unfolding t_def using q by (intro next_cases) (auto simp: queue_ok_def)
  have full: "t = q_head q \<longleftrightarrow> int (in_use q) + 1 = q_nbpkts q" using q unfolding t in_use_cases[OF q] queue_ok_def by auto
  show "streamq_push (Some q) = Some (Some q, -1)" if "int (in_use q) + 1 = q_nbpkts q"
    using n full that by (simp add: streamq_push_def)
  assume nf: "int (in_use q) + 1 \<noteq> q_nbpkts q"
  let ?q = "q\<lparr>q_tail := t\<rparr>"
  have q': "queue_ok ?q" using q t by (auto simp: queue_ok_def)
  have use: "in_use ?q = Suc (in_use q)" using q nf unfolding in_use_cases[OF q] in_use_cases[OF q'] by (auto simp: t queue_ok_def)
  have "(q_head q + int (in_use q)) mod q_nbpkts q = q_tail q"
    using q by (simp add: in_use_def queue_ok_def mod_add_right_eq)
  then have "window ?q = window q @ [q_tail q]" unfolding window_def use by simp
  then show "\<exists>q'. streamq_push (Some q) = Some (Some q', q_tail q') \<and> queue_ok q' \<and> window q' = window q @ [q_tail q]"
    using n full nf q' by (simp add: streamq_push_def)
qed

lemma pop_ok:
  assumes q: "queue_ok q"
  shows "window q = [] \<Longrightarrow> streamq_pop (Some q) = Some (Some q, -1)"
    "window q \<noteq> [] \<Longrightarrow> \<exists>q'. streamq_pop (Some q) = Some (Some q', q_head q') \<and> queue_ok q' \<and> window q = q_head q # window q'"
proof -
  define h where "h = (q_head q + 1) mod q_nbpkts q"
  have n: "streamq_next (Some q) (q_head q) = Some h" using streamq_next_ok[OF q] q by (simp add: queue_ok_def h_def)
  have h: "h = (if q_head q + 1 = q_nbpkts q then 0 else q_head q + 1)" unfolding h_def using q by (intro next_cases) (auto simp: queue_ok_def)
  have empty: "q_head q = q_tail q \<longleftrightarrow> window q = []"
    using q unfolding length_0_conv[symmetric] window_length in_use_cases[OF q] queue_ok_def by auto
  show "streamq_pop (Some q) = Some (Some q, -1)" if "window q = []" using empty that by (simp add: streamq_pop_def)
  assume ne: "window q \<noteq> []"
  let ?q = "q\<lparr>q_head := h\<rparr>"
  have q': "queue_ok ?q" using q h by (auto simp: queue_ok_def)
  have use: "in_use q = Suc (in_use ?q)" using q ne empty unfolding in_use_cases[OF q] in_use_cases[OF q'] by (auto simp: h queue_ok_def)
  have "window q = (q_head q + int 0) mod q_nbpkts q # map (\<lambda>i. (q_head q + int (Suc i)) mod q_nbpkts q) [0..<in_use ?q]"
    unfolding window_def use map_upt_Suc by simp
  moreover have "(q_head q + int (Suc i)) mod q_nbpkts q = (h + int i) mod q_nbpkts q" for i
  proof -
    have "(h + int i) mod q_nbpkts q = (q_head q + 1 + int i) mod q_nbpkts q" unfolding h_def by (rule mod_add_left_eq)
    then show ?thesis by (simp add: ac_simps)
  qed
  ultimately have "window q = q_head q # window ?q" using q by (simp add: window_def queue_ok_def)
  then show "\<exists>q'. streamq_pop (Some q) = Some (Some q', q_head q') \<and> queue_ok q' \<and> window q = q_head q # window q'"
    using n empty ne q' by (simp add: streamq_pop_def)
qed

text \<open>The contract with the streaming code: a bounded queue of packet numbers.\<close>

locale bounded_queue =
  fixes ok :: "'q \<Rightarrow> bool" and contents :: "'q \<Rightarrow> 'p list" and cap :: "'q \<Rightarrow> nat" and free_slot :: "'q \<Rightarrow> 'p"
    and push :: "'q \<Rightarrow> 'q option" and pop :: "'q \<Rightarrow> 'q option"
  assumes bound: "ok q \<Longrightarrow> length (contents q) \<le> cap q"
    and push_full: "ok q \<Longrightarrow> length (contents q) = cap q \<Longrightarrow> push q = None"
    and push_room: "ok q \<Longrightarrow> length (contents q) < cap q \<Longrightarrow> \<exists>q'. push q = Some q' \<and> ok q' \<and> cap q' = cap q \<and> contents q' = contents q @ [free_slot q]"
    and pop_empty: "ok q \<Longrightarrow> contents q = [] \<Longrightarrow> pop q = None"
    and pop_first: "ok q \<Longrightarrow> contents q = p # ps \<Longrightarrow> \<exists>q'. pop q = Some q' \<and> ok q' \<and> cap q' = cap q \<and> contents q' = ps"
begin

fun pops :: "nat \<Rightarrow> 'q \<Rightarrow> 'q option" where
  "pops 0 q = Some q"
| "pops (Suc n) q = do { q1 \<leftarrow> pop q; pops n q1 }"

lemma pops_drop: "ok q \<Longrightarrow> n \<le> length (contents q) \<Longrightarrow> \<exists>q'. pops n q = Some q' \<and> ok q' \<and> contents q' = drop n (contents q)"
proof (induction n arbitrary: q)
  case (Suc n)
  obtain p ps where c: "contents q = p # ps" using Suc.prems(2) by (cases "contents q") auto
  obtain q1 where q1: "pop q = Some q1" "ok q1" "contents q1 = ps" using pop_first[OF Suc.prems(1) c] by blast
  then show ?case using Suc.IH[OF q1(2)] Suc.prems(2) c by auto
qed simp

text \<open>What is pushed last leaves last: it is in front after as many pops as there were packets.\<close>

lemma push_then_pops:
  assumes "ok q" "length (contents q) < cap q"
  obtains q1 q2 where "push q = Some q1" "pops (length (contents q)) q1 = Some q2" "ok q2" "contents q2 = [free_slot q]"
proof -
  obtain q1 where q1: "push q = Some q1" "ok q1" "contents q1 = contents q @ [free_slot q]" using push_room[OF assms] by blast
  have "length (contents q) \<le> length (contents q1)" using q1(3) by simp
  from pops_drop[OF q1(2) this] show ?thesis using that q1 by auto
qed

end

definition sq_push :: "stream_queue \<Rightarrow> stream_queue option" where
  "sq_push q = (case streamq_push (Some q) of Some (Some q', r) \<Rightarrow> if r = -1 then None else Some q' | _ \<Rightarrow> None)"

definition sq_pop :: "stream_queue \<Rightarrow> stream_queue option" where
  "sq_pop q = (case streamq_pop (Some q) of Some (Some q', r) \<Rightarrow> if r = -1 then None else Some q' | _ \<Rightarrow> None)"

definition sq_cap :: "stream_queue \<Rightarrow> nat" where
  "sq_cap q = nat (q_nbpkts q - 1)"

lemma push_keeps: "streamq_push (Some q) = Some (Some q', r) \<Longrightarrow> q_nbpkts q' = q_nbpkts q"
  by (auto simp: streamq_push_def streamq_next_def bind_eq_Some_conv split: if_splits)

lemma pop_keeps: "streamq_pop (Some q) = Some (Some q', r) \<Longrightarrow> q_nbpkts q' = q_nbpkts q"
  by (auto simp: streamq_pop_def streamq_next_def bind_eq_Some_conv split: if_splits)

interpretation sq: bounded_queue queue_ok window sq_cap q_tail sq_push sq_pop
proof unfold_locales
  fix q assume q: "queue_ok q"
  have "int (in_use q) < q_nbpkts q" using q by (simp add: in_use_def queue_ok_def)
  then show "length (window q) \<le> sq_cap q" by (simp add: window_length sq_cap_def)
  have cap: "length (window q) = sq_cap q \<longleftrightarrow> int (in_use q) + 1 = q_nbpkts q" using q by (auto simp: window_length sq_cap_def queue_ok_def)
  show "sq_push q = None" if "length (window q) = sq_cap q" using push_ok(1)[OF q] cap that by (simp add: sq_push_def)
  show "\<exists>q'. sq_push q = Some q' \<and> queue_ok q' \<and> sq_cap q' = sq_cap q \<and> window q' = window q @ [q_tail q]" if "length (window q) < sq_cap q"
  proof -
    have "int (in_use q) + 1 \<noteq> q_nbpkts q" using cap that by auto
    from push_ok(2)[OF q this] obtain q' where q': "streamq_push (Some q) = Some (Some q', q_tail q')" "queue_ok q'" "window q' = window q @ [q_tail q]"
      by blast
    then show ?thesis using push_keeps[OF q'(1)] by (auto simp: sq_push_def sq_cap_def queue_ok_def)
  qed
  show "sq_pop q = None" if "window q = []" using pop_ok(1)[OF q that] by (simp add: sq_pop_def)
  show "\<exists>q'. sq_pop q = Some q' \<and> queue_ok q' \<and> sq_cap q' = sq_cap q \<and> window q' = ps" if "window q = p # ps" for p ps
  proof -
    have "window q \<noteq> []" using that by simp
    from pop_ok(2)[OF q this] obtain q' where q': "streamq_pop (Some q) = Some (Some q', q_head q')" "queue_ok q'" "window q = q_head q # window q'"
      by blast
    then show ?thesis using pop_keeps[OF q'(1)] that by (auto simp: sq_pop_def sq_cap_def queue_ok_def)
  qed
qed

subsection \<open>Properties\<close>

text \<open>C40: The queue refines a list of packet numbers: a push appends the packet at the tail unless all but one are in
use, a pop takes the first one unless there is none, and a packet is reported as in use exactly when it is in the
list; a packet pushed on a queue comes out after those that were there.\<close>

theorem streamq_refines_list:
  assumes q: "queue_ok q"
  shows "(if length (window q) + 1 < nat (q_nbpkts q)
     then \<exists>q'. streamq_push (Some q) = Some (Some q', q_tail q') \<and> queue_ok q' \<and> window q' = window q @ [q_tail q]
     else streamq_push (Some q) = Some (Some q, -1)) \<and>
    (if window q \<noteq> []
     then \<exists>q'. streamq_pop (Some q) = Some (Some q', q_head q') \<and> queue_ok q' \<and> window q' = tl (window q)
     else streamq_pop (Some q) = Some (Some q, -1)) \<and>
    (\<forall>i. 0 \<le> i \<and> i < q_nbpkts q \<longrightarrow> streamq_inused (Some q) i = (if i \<in> set (window q) then 1 else 0)) \<and>
    (length (window q) < sq_cap q \<longrightarrow>
      (\<exists>q1 q2. sq_push q = Some q1 \<and> sq.pops (length (window q)) q1 = Some q2 \<and> window q2 = [q_tail q]))"
proof (intro conjI allI impI)
  have "length (window q) < nat (q_nbpkts q)" using q by (simp add: window_length in_use_def queue_ok_def)
  then show "if length (window q) + 1 < nat (q_nbpkts q)
     then \<exists>q'. streamq_push (Some q) = Some (Some q', q_tail q') \<and> queue_ok q' \<and> window q' = window q @ [q_tail q]
     else streamq_push (Some q) = Some (Some q, -1)"
    using push_ok[OF q] q by (auto simp: window_length queue_ok_def)
  show "if window q \<noteq> [] then \<exists>q'. streamq_pop (Some q) = Some (Some q', q_head q') \<and> queue_ok q' \<and> window q' = tl (window q)
     else streamq_pop (Some q) = Some (Some q, -1)"
    using pop_ok[OF q] by auto
  show "streamq_inused (Some q) i = (if i \<in> set (window q) then 1 else 0)" if "0 \<le> i \<and> i < q_nbpkts q" for i
    using in_window[OF q, of i] q that by (auto simp: streamq_inused_def queue_ok_def)
  show "\<exists>q1 q2. sq_push q = Some q1 \<and> sq.pops (length (window q)) q1 = Some q2 \<and> window q2 = [q_tail q]" if "length (window q) < sq_cap q"
    using sq.push_then_pops[OF q that] by metis
qed

text \<open>A queue that could be allocated is empty, and its packets and their lengths lie in the block from
\<^verbatim>\<open>calloc\<close>, behind the structure and apart from one another, provided the number of bytes does not wrap.\<close>

theorem streamq_alloc_layout:
  assumes a: "streamq_alloc calloc pktsiz nbpkts = Some (Some q)" and n: "24 + nat (pktsiz * nbpkts) + 4 * nat nbpkts < 2 ^ 32"
  shows "queue_ok q \<and> window q = [] \<and>
    (\<forall>i. 0 \<le> i \<and> i < nbpkts \<longrightarrow> (\<exists>p l. streamq_query (Some q) i = Some (0, Some (p, l)) \<and>
       24 \<le> l \<and> l + 4 \<le> int (q_buf q) \<and> int (q_buf q) \<le> p \<and> p + pktsiz \<le> int (the (queue_bytes pktsiz nbpkts)) \<and>
       (\<forall>j p' l'. i < j \<and> j < nbpkts \<and> streamq_query (Some q) j = Some (0, Some (p', l')) \<longrightarrow> p + pktsiz \<le> p' \<and> l + 4 \<le> l')))"
proof -
  have q: "q = \<lparr>q_pktsiz = pktsiz, q_nbpkts = nbpkts, q_head = 0, q_tail = 0, q_pktlen = 24, q_buf = 24 + 4 * nat nbpkts\<rparr>"
    and pos: "0 < pktsiz" "0 < nbpkts" and io: "int_ok (pktsiz * nbpkts)"
    using a by (auto simp: streamq_alloc_def queue_bytes_def QUEUE_SIZE_def bind_eq_Some_conv guard_def split: if_splits)
  have "nbpkts \<le> pktsiz * nbpkts" using pos by simp
  then have nb: "nbpkts < 2 ^ 31" using io by (simp add: int_ok_def)
  have bytes: "int (the (queue_bytes pktsiz nbpkts)) = 24 + 4 * nbpkts + pktsiz * nbpkts"
    using n pos io by (simp add: queue_bytes_def QUEUE_SIZE_def u32_id)
  have step: "i * pktsiz + pktsiz \<le> j * pktsiz" if "i < j" for i j
    using mult_right_mono[of "i + 1" j pktsiz] that pos by (simp add: distrib_right)
  have query: "streamq_query (Some q) i = Some (0, Some (24 + 4 * nbpkts + i * pktsiz, 24 + 4 * i))" if "0 \<le> i" "i < nbpkts" for i
  proof -
    have "i * pktsiz \<le> pktsiz * nbpkts" "0 \<le> i * pktsiz" using that pos by (simp_all add: mult.commute mult_right_mono)
    then have "int_ok (i * pktsiz)" using io by (simp add: int_ok_def)
    then show ?thesis using that pos by (simp add: streamq_query_def q)
  qed
  have "queue_ok q" using pos nb by (simp add: queue_ok_def q)
  moreover have "window q = []" by (simp add: window_def in_use_def q)
  moreover have "\<exists>p l. streamq_query (Some q) i = Some (0, Some (p, l)) \<and> 24 \<le> l \<and> l + 4 \<le> int (q_buf q) \<and> int (q_buf q) \<le> p \<and>
       p + pktsiz \<le> int (the (queue_bytes pktsiz nbpkts)) \<and>
       (\<forall>j p' l'. i < j \<and> j < nbpkts \<and> streamq_query (Some q) j = Some (0, Some (p', l')) \<longrightarrow> p + pktsiz \<le> p' \<and> l + 4 \<le> l')"
    if i: "0 \<le> i" "i < nbpkts" for i
  proof (intro exI conjI allI impI)
    show "streamq_query (Some q) i = Some (0, Some (24 + 4 * nbpkts + i * pktsiz, 24 + 4 * i))" by (rule query[OF i])
    show "24 + 4 * nbpkts + i * pktsiz + pktsiz \<le> int (the (queue_bytes pktsiz nbpkts))"
      using step[of i nbpkts] i by (simp add: bytes mult.commute)
    show "int (q_buf q) \<le> 24 + 4 * nbpkts + i * pktsiz" "24 + 4 * i + 4 \<le> int (q_buf q)" using i pos by (simp_all add: q)
    fix j p' l' assume j: "i < j \<and> j < nbpkts \<and> streamq_query (Some q) j = Some (0, Some (p', l'))"
    then have "p' = 24 + 4 * nbpkts + j * pktsiz" "l' = 24 + 4 * j" using query[of j] i by auto
    then show "24 + 4 * nbpkts + i * pktsiz + pktsiz \<le> p'" "24 + 4 * i + 4 \<le> l'" using step[of i j] j by auto
  qed (use i in auto)
  ultimately show ?thesis by blast
qed

definition demo_queue :: stream_queue where
  "demo_queue = \<lparr>q_pktsiz = 100, q_nbpkts = 4, q_head = 2, q_tail = 1, q_pktlen = 24, q_buf = 40\<rparr>"

lemma demo_queue_ok: "queue_ok demo_queue" "window demo_queue = [2, 3, 0]"
  by (simp_all add: demo_queue_def queue_ok_def window_def in_use_def upt_conv_Cons)

lemma streamq_refines_list_witness:
  "streamq_push (Some demo_queue) = Some (Some demo_queue, -1) \<and> streamq_inused (Some demo_queue) 1 = 0 \<and>
   (\<exists>q. streamq_pop (Some demo_queue) = Some (Some q, q_head q) \<and> window q = [3, 0])"
proof -
  have "q_nbpkts demo_queue = 4" by (simp add: demo_queue_def)
  then show ?thesis using streamq_refines_list[OF demo_queue_ok(1)] demo_queue_ok(2) by auto
qed

lemma streamq_alloc_layout_witness:
  "\<exists>q. streamq_alloc (\<lambda>n. n < 1000) 100 4 = Some (Some q) \<and> queue_ok q \<and> window q = []"
proof -
  have "streamq_alloc (\<lambda>n. n < 1000) 100 4 = Some (Some \<lparr>q_pktsiz = 100, q_nbpkts = 4, q_head = 0, q_tail = 0, q_pktlen = 24, q_buf = 40\<rparr>)"
    by (simp add: streamq_alloc_def queue_bytes_def int_ok_def QUEUE_SIZE_def u32_def)
  then show ?thesis using streamq_alloc_layout by fastforce
qed

end
