(* ===== verification/Scanner.thy ===== *)
theory Scanner
  imports Cstring
begin

section \<open>The text scanner (\<^verbatim>\<open>oslib/src/scanner.c\<close>)\<close>

text \<open>
  Sets of characters share a table of 256 words, one bit of every word for each set. A scanner walks
  over a text in memory that ends with a NUL behind its last character. The callback for a syntax
  error returns; its calls are counted in \<open>errs\<close>. A C string an operation only compares with is the
  list of its bytes.
\<close>

subsection \<open>Sets of characters\<close>

unbundle bit_operations_syntax

record cis_buf_t =
  cis_buf :: "32 word list"
  use_mask :: "32 word"

text \<open>A set: the table it lives in and its number.\<close>

type_synonym cis_t = "32 word list \<times> nat"

definition CIS_MAX_INDEX :: nat where "CIS_MAX_INDEX = 32"

definition bit_at :: "nat \<Rightarrow> 32 word" where
  "bit_at i = push_bit i 1"

definition CIS_SET :: "32 word list \<Rightarrow> nat \<Rightarrow> int \<Rightarrow> 32 word list option" where
  "CIS_SET b cid c =
     (if 0 \<le> c \<and> c < int (length b) then Some (b[nat c := (b ! nat c) OR bit_at cid]) else None)"

definition CIS_CLR :: "32 word list \<Rightarrow> nat \<Rightarrow> int \<Rightarrow> 32 word list option" where
  "CIS_CLR b cid c =
     (if 0 \<le> c \<and> c < int (length b) then Some (b[nat c := (b ! nat c) AND NOT (bit_at cid)]) else None)"

definition CIS_ISSET :: "cis_t \<Rightarrow> nat \<Rightarrow> bool" where
  "CIS_ISSET cis c = ((fst cis ! c) AND bit_at (snd cis) \<noteq> 0)"

definition cis_match :: "cis_t \<Rightarrow> u8 \<Rightarrow> bool" where
  "cis_match cis c = CIS_ISSET cis (unat c)"

definition cis_buf_init :: cis_buf_t where
  "cis_buf_init = \<lparr>cis_buf = replicate 256 0, use_mask = 0\<rparr>"

text \<open>The search for an unused number; \<open>n\<close> are left.\<close>

fun find_unused :: "32 word \<Rightarrow> nat \<Rightarrow> nat \<Rightarrow> nat" where
  "find_unused used i 0 = i"
| "find_unused used i (Suc n) = (if used AND bit_at i = 0 then i else find_unused used (i + 1) n)"

definition cis_init :: "cis_buf_t \<Rightarrow> cis_buf_t \<times> nat \<times> int" where
  "cis_init cb =
     (let i = find_unused (use_mask cb) 0 CIS_MAX_INDEX in
      if i < CIS_MAX_INDEX then (cb\<lparr>use_mask := use_mask cb OR bit_at i\<rparr>, i, EO_SUCCESS)
      else (cb, CIS_MAX_INDEX, EO_TOOMANY))"

text \<open>The loops over the table from character \<open>i\<close> on, for \<open>n\<close> characters.\<close>

fun dup_loop :: "32 word list \<Rightarrow> nat \<Rightarrow> nat \<Rightarrow> nat \<Rightarrow> nat \<Rightarrow> 32 word list option" where
  "dup_loop b new old i 0 = Some b"
| "dup_loop b new old i (Suc n) =
     do { b1 \<leftarrow> (if CIS_ISSET (b, old) i then CIS_SET b new (int i) else CIS_CLR b new (int i)); dup_loop b1 new old (i + 1) n }"

definition cis_dup :: "cis_buf_t \<Rightarrow> nat \<Rightarrow> (cis_buf_t \<times> nat \<times> int) option" where
  "cis_dup cb old =
     (let (cb1, new, status) = cis_init cb in
      if status \<noteq> EO_SUCCESS then Some (cb1, new, status)
      else do { b \<leftarrow> dup_loop (cis_buf cb1) new old 0 256; Some (cb1\<lparr>cis_buf := b\<rparr>, new, EO_SUCCESS) })"

text \<open>The loops over a range of characters; behind the table there is no memory.\<close>

function set_range :: "32 word list \<Rightarrow> nat \<Rightarrow> int \<Rightarrow> int \<Rightarrow> 32 word list option" where
  "set_range b cid cstart cend =
     (if cstart \<noteq> cend
      then (case CIS_SET b cid cstart of None \<Rightarrow> None | Some b1 \<Rightarrow> set_range b1 cid (cstart + 1) cend)
      else Some b)"
  by pat_completeness auto
termination
  by (relation "measure (\<lambda>(b, cid, s, e). nat (int (length b) - s))") (auto simp: CIS_SET_def split: if_splits)

function clr_range :: "32 word list \<Rightarrow> nat \<Rightarrow> int \<Rightarrow> int \<Rightarrow> 32 word list option" where
  "clr_range b cid cstart cend =
     (if cstart \<noteq> cend
      then (case CIS_CLR b cid cstart of None \<Rightarrow> None | Some b1 \<Rightarrow> clr_range b1 cid (cstart + 1) cend)
      else Some b)"
  by pat_completeness auto
termination
  by (relation "measure (\<lambda>(b, cid, s, e). nat (int (length b) - s))") (auto simp: CIS_CLR_def split: if_splits)

declare set_range.simps [simp del] clr_range.simps [simp del]

definition upd_cis :: "cis_buf_t \<Rightarrow> (32 word list \<Rightarrow> 32 word list option) \<Rightarrow> cis_buf_t option" where
  "upd_cis cb f = map_option (\<lambda>b. cb\<lparr>cis_buf := b\<rparr>) (f (cis_buf cb))"

definition cis_add_range :: "cis_buf_t \<Rightarrow> nat \<Rightarrow> int \<Rightarrow> int \<Rightarrow> cis_buf_t option" where
  "cis_add_range cb cid cstart cend = do { guard (cstart > 0); upd_cis cb (\<lambda>b. set_range b cid cstart cend) }"

definition cis_add_alpha :: "cis_buf_t \<Rightarrow> nat \<Rightarrow> cis_buf_t option" where
  "cis_add_alpha cb cid = do { cb1 \<leftarrow> cis_add_range cb cid 97 (122 + 1); cis_add_range cb1 cid 65 (90 + 1) }"

definition cis_add_num :: "cis_buf_t \<Rightarrow> nat \<Rightarrow> cis_buf_t option" where
  "cis_add_num cb cid = cis_add_range cb cid 48 (57 + 1)"

fun set_str :: "32 word list \<Rightarrow> nat \<Rightarrow> u8 list \<Rightarrow> 32 word list option" where
  "set_str b cid [] = Some b"
| "set_str b cid (c # cs) = (if c \<noteq> 0 then do { b1 \<leftarrow> CIS_SET b cid (int (unat c)); set_str b1 cid cs } else Some b)"

fun clr_str :: "32 word list \<Rightarrow> nat \<Rightarrow> u8 list \<Rightarrow> 32 word list option" where
  "clr_str b cid [] = Some b"
| "clr_str b cid (c # cs) = (if c \<noteq> 0 then do { b1 \<leftarrow> CIS_CLR b cid (int (unat c)); clr_str b1 cid cs } else Some b)"

definition cis_add_str :: "cis_buf_t \<Rightarrow> nat \<Rightarrow> u8 list \<Rightarrow> cis_buf_t option" where
  "cis_add_str cb cid str = upd_cis cb (\<lambda>b. set_str b cid str)"

text \<open>The other set may live in the same table; a word is read before it is changed.\<close>

fun add_loop :: "32 word list \<Rightarrow> nat \<Rightarrow> cis_t \<Rightarrow> nat \<Rightarrow> nat \<Rightarrow> 32 word list option" where
  "add_loop b cid rhs i 0 = Some b"
| "add_loop b cid rhs i (Suc n) =
     do { b1 \<leftarrow> (if CIS_ISSET rhs i then CIS_SET b cid (int i) else Some b); add_loop b1 cid rhs (i + 1) n }"

definition cis_add_cis :: "cis_buf_t \<Rightarrow> nat \<Rightarrow> cis_t \<Rightarrow> cis_buf_t option" where
  "cis_add_cis cb cid rhs = upd_cis cb (\<lambda>b. add_loop b cid rhs 0 256)"

definition cis_del_range :: "cis_buf_t \<Rightarrow> nat \<Rightarrow> int \<Rightarrow> int \<Rightarrow> cis_buf_t option" where
  "cis_del_range cb cid cstart cend = upd_cis cb (\<lambda>b. clr_range b cid cstart cend)"

definition cis_del_str :: "cis_buf_t \<Rightarrow> nat \<Rightarrow> u8 list \<Rightarrow> cis_buf_t option" where
  "cis_del_str cb cid str = upd_cis cb (\<lambda>b. clr_str b cid str)"

fun invert_loop :: "32 word list \<Rightarrow> nat \<Rightarrow> nat \<Rightarrow> nat \<Rightarrow> 32 word list option" where
  "invert_loop b cid i 0 = Some b"
| "invert_loop b cid i (Suc n) =
     do { b1 \<leftarrow> (if CIS_ISSET (b, cid) i then CIS_CLR b cid (int i) else CIS_SET b cid (int i)); invert_loop b1 cid (i + 1) n }"

definition cis_invert :: "cis_buf_t \<Rightarrow> nat \<Rightarrow> cis_buf_t option" where
  "cis_invert cb cid = upd_cis cb (\<lambda>b. invert_loop b cid 1 255)"

subsection \<open>The state of a scanner\<close>

record scanner_t =
  sc_begin :: addr
  sc_end :: addr
  curptr :: addr
  line :: nat
  start_line :: addr
  skip_ws :: nat
  errs :: nat

record scan_state =
  st_curptr :: addr
  st_line :: nat
  st_start_line :: addr

definition SCAN_AUTOSKIP_WS_HEADER :: nat where "SCAN_AUTOSKIP_WS_HEADER = 3"
definition SCAN_AUTOSKIP_NEWLINE :: nat where "SCAN_AUTOSKIP_NEWLINE = 4"

definition SCAN_IS_SPACE :: "u8 \<Rightarrow> bool" where "SCAN_IS_SPACE c = (c = 32 \<or> c = 9)"
definition SCAN_IS_NEWLINE :: "u8 \<Rightarrow> bool" where "SCAN_IS_NEWLINE c = (c = 13 \<or> c = 10)"
definition SCAN_IS_PROBABLY_SPACE :: "u8 \<Rightarrow> bool" where "SCAN_IS_PROBABLY_SPACE c = (c \<le> 32)"

definition scan_syntax_err :: "scanner_t \<Rightarrow> scanner_t" where
  "scan_syntax_err sc = sc\<lparr>errs := errs sc + 1\<rparr>"

text \<open>The loops over characters that satisfy \<open>P\<close>, and up to one that does or to the end.\<close>

function scan_while :: "mem \<Rightarrow> (u8 \<Rightarrow> bool) \<Rightarrow> addr \<Rightarrow> addr option" where
  "scan_while m P s =
     (case rd m s of None \<Rightarrow> None | Some c \<Rightarrow> if P c then scan_while m P (s + 1) else Some s)"
  by pat_completeness auto
termination
  by (relation "measure (\<lambda>(m, P, s). length m - s)") (auto simp: rd_def split: if_splits)

function scan_until :: "mem \<Rightarrow> addr \<Rightarrow> (u8 \<Rightarrow> bool) \<Rightarrow> addr \<Rightarrow> addr option" where
  "scan_until m e P s =
     (if s \<noteq> e
      then (case rd m s of None \<Rightarrow> None | Some c \<Rightarrow> if \<not> P c then scan_until m e P (s + 1) else Some s)
      else Some s)"
  by pat_completeness auto
termination
  by (relation "measure (\<lambda>(m, e, P, s). length m - s)") (auto simp: rd_def split: if_splits)

declare scan_while.simps [simp del] scan_until.simps [simp del]

lemma scan_while_ge: "scan_while m P s = Some t \<Longrightarrow> s \<le> t \<and> t < length m"
proof (induction m P s rule: scan_while.induct)
  case (1 m P s)
  from "1.prems" show ?case using "1.IH" by (subst (asm) scan_while.simps) (fastforce simp: rd_def split: option.splits if_splits)
qed

text \<open>The loop over new lines and blanks.\<close>

function skip_newlines :: "mem \<Rightarrow> scanner_t \<Rightarrow> addr \<Rightarrow> (scanner_t \<times> addr) option" where
  "skip_newlines m sc s =
     (case rd m s of
        None \<Rightarrow> None
      | Some c \<Rightarrow>
          if c = 13
          then (case rd m (s + 1) of
                  None \<Rightarrow> None
                | Some d \<Rightarrow>
                    let s1 = (if d = 10 then s + 2 else s + 1) in
                    skip_newlines m (sc\<lparr>line := line sc + 1, curptr := s1, start_line := s1\<rparr>) s1)
          else if c = 10
          then skip_newlines m (sc\<lparr>line := line sc + 1, curptr := s + 1, start_line := s + 1\<rparr>) (s + 1)
          else if SCAN_IS_SPACE c
          then (case scan_while m SCAN_IS_SPACE (s + 1) of
                  None \<Rightarrow> None
                | Some s1 \<Rightarrow> skip_newlines m sc s1)
          else Some (sc, s))"
  by pat_completeness auto
termination
  by (relation "measure (\<lambda>(m, sc, s). length m - s)") (auto simp: rd_def split: if_splits dest: scan_while_ge)

declare skip_newlines.simps [simp del]

definition has_option :: "scanner_t \<Rightarrow> nat \<Rightarrow> bool" where
  "has_option sc opt = (and (skip_ws sc) opt \<noteq> 0)"

definition scan_skip_whitespace :: "mem \<Rightarrow> scanner_t \<Rightarrow> scanner_t option" where
  "scan_skip_whitespace m sc =
     do {
       s0 \<leftarrow> scan_while m SCAN_IS_SPACE (curptr sc);
       c0 \<leftarrow> rd m s0;
       (sc1, s) \<leftarrow> (if SCAN_IS_NEWLINE c0 \<and> has_option sc SCAN_AUTOSKIP_NEWLINE then skip_newlines m sc s0 else Some (sc, s0));
       c \<leftarrow> rd m s;
       if SCAN_IS_NEWLINE c \<and> and (skip_ws sc1) SCAN_AUTOSKIP_WS_HEADER = SCAN_AUTOSKIP_WS_HEADER
       then do {
         let s1 = (if c = 13 then s + 1 else s);
         c1 \<leftarrow> rd m s1;
         let s2 = (if c1 = 10 then s1 + 1 else s1);
         c2 \<leftarrow> rd m s2;
         let sc2 = sc1\<lparr>curptr := s, start_line := s2\<rparr>;
         if SCAN_IS_SPACE c2
         then do { t \<leftarrow> scan_while m SCAN_IS_SPACE (s2 + 1); Some (sc2\<lparr>line := line sc2 + 1, curptr := t\<rparr>) }
         else Some sc2
       }
       else Some (sc1\<lparr>curptr := s\<rparr>)
     }"

text \<open>The end of most operations: the new position, and the blanks behind it.\<close>

definition skip_after :: "mem \<Rightarrow> bool \<Rightarrow> scanner_t \<Rightarrow> scanner_t option" where
  "skip_after m skip sc =
     do { c \<leftarrow> rd m (curptr sc); if SCAN_IS_PROBABLY_SPACE c \<and> skip then scan_skip_whitespace m sc else Some sc }"

definition advance_to :: "mem \<Rightarrow> scanner_t \<Rightarrow> addr \<Rightarrow> scanner_t option" where
  "advance_to m sc s = skip_after m (skip_ws sc \<noteq> 0) (sc\<lparr>curptr := s\<rparr>)"

definition scan_init :: "mem \<Rightarrow> addr \<Rightarrow> nat \<Rightarrow> nat \<Rightarrow> scanner_t option" where
  "scan_init m bufstart buflen options =
     (let sc = \<lparr>sc_begin = bufstart, sc_end = u32 (bufstart + buflen), curptr = bufstart, line = 1, start_line = bufstart,
                skip_ws = options, errs = 0\<rparr>
      in if options \<noteq> 0 then scan_skip_whitespace m sc else Some sc)"

definition scan_is_eof :: "scanner_t \<Rightarrow> bool" where
  "scan_is_eof sc \<longleftrightarrow> curptr sc \<ge> sc_end sc"

text \<open>\<open>strchr\<close> reads to the NUL.\<close>

function strchr :: "mem \<Rightarrow> addr \<Rightarrow> u8 \<Rightarrow> addr option" where
  "strchr m s ch =
     (case rd m s of None \<Rightarrow> None | Some c \<Rightarrow> if c = ch then Some s else if c = 0 then Some 0 else strchr m (s + 1) ch)"
  by pat_completeness auto
termination
  by (relation "measure (\<lambda>(m, s, ch). length m - s)") (auto simp: rd_def split: if_splits)

declare strchr.simps [simp del]

definition scan_skip_line :: "mem \<Rightarrow> scanner_t \<Rightarrow> scanner_t option" where
  "scan_skip_line m sc =
     do {
       s \<leftarrow> strchr m (curptr sc) 10;
       Some (if s = 0 then sc\<lparr>curptr := sc_end sc\<rparr> else sc\<lparr>curptr := s + 1, start_line := s + 1, line := line sc + 1\<rparr>)
     }"

subsection \<open>Looking ahead\<close>

text \<open>The result is the next character, or -1 and no token after an error.\<close>

definition scan_peek :: "mem \<Rightarrow> scanner_t \<Rightarrow> cis_t \<Rightarrow> (scanner_t \<times> int \<times> str_t option) option" where
  "scan_peek m sc spec =
     (if curptr sc \<ge> sc_end sc then Some (scan_syntax_err sc, -1, None)
      else do {
        s \<leftarrow> scan_while m (cis_match spec) (curptr sc);
        c \<leftarrow> rd m s;
        Some (sc, int (unat c), Some (c_strset3 (curptr sc) s))
      })"

definition scan_peek_n :: "mem \<Rightarrow> scanner_t \<Rightarrow> nat \<Rightarrow> (scanner_t \<times> int \<times> str_t option) option" where
  "scan_peek_n m sc len =
     (let endpos = u32 (curptr sc + len) in
      if endpos > sc_end sc then Some (scan_syntax_err sc, -1, None)
      else do { c \<leftarrow> rd m endpos; Some (sc, int (unat c), Some (c_strset (curptr sc) len)) })"

definition scan_peek_until :: "mem \<Rightarrow> scanner_t \<Rightarrow> cis_t \<Rightarrow> (scanner_t \<times> int \<times> str_t option) option" where
  "scan_peek_until m sc spec =
     (if curptr sc \<ge> sc_end sc then Some (scan_syntax_err sc, -1, None)
      else do {
        s \<leftarrow> scan_until m (sc_end sc) (cis_match spec) (curptr sc);
        c \<leftarrow> rd m s;
        Some (sc, int (unat c), Some (c_strset3 (curptr sc) s))
      })"

subsection \<open>Taking tokens\<close>

text \<open>The result is the token, nothing after an error.\<close>

definition scan_get :: "mem \<Rightarrow> scanner_t \<Rightarrow> cis_t \<Rightarrow> (scanner_t \<times> str_t option) option" where
  "scan_get m sc spec =
     do {
       guard (\<not> cis_match spec 0);
       c \<leftarrow> rd m (curptr sc);
       if \<not> cis_match spec c then Some (scan_syntax_err sc, None)
       else do {
         s \<leftarrow> scan_while m (cis_match spec) (curptr sc + 1);
         sc1 \<leftarrow> advance_to m sc s;
         Some (sc1, Some (c_strset3 (curptr sc) s))
       }
     }"

text \<open>
  The loop over escapes and plain characters, with the source and the destination in the same text:
  an escape is decoded, a percent sign that starts none is copied with the character behind it and ends the loop.
\<close>

definition unescape_at :: "mem \<Rightarrow> addr \<Rightarrow> addr \<Rightarrow> u8 option option" where
  "unescape_at m e s =
     (if s + 3 \<le> e
      then do {
        c1 \<leftarrow> rd m (s + 1);
        if c_isxdigit c1
        then do {
          c2 \<leftarrow> rd m (s + 2);
          Some (if c_isxdigit c2 then Some (of_nat (16 * c_hex_digit_to_val c1 + c_hex_digit_to_val c2)) else None)
        }
        else Some None
      }
      else Some None)"

definition copy_run :: "mem \<Rightarrow> (u8 \<Rightarrow> bool) \<Rightarrow> addr \<Rightarrow> addr \<Rightarrow> (mem \<times> addr \<times> addr) option" where
  "copy_run m P s dst =
     do {
       c \<leftarrow> rd m s;
       if P c
       then do {
         s1 \<leftarrow> scan_while m P (s + 1);
         bs \<leftarrow> rd_bytes m s (s1 - s);
         m1 \<leftarrow> (if dst \<noteq> s then wr_bytes m dst bs else Some m);
         Some (m1, s1, dst + (s1 - s))
       }
       else Some (m, s, dst)
     }"

lemma copy_run_ge: "copy_run m P s dst = Some (m1, s1, dst1) \<Longrightarrow> s \<le> s1 \<and> length m1 = length m"
  by (auto simp: copy_run_def bind_eq_Some_conv wr_bytes_def dest!: scan_while_ge split: if_splits)

lemma copy_run_moves:
  assumes "copy_run m P s dst = Some (m1, s1, dst1)" "rd m s \<noteq> Some 37" "rd m1 s1 = Some 37"
  shows "length m1 - s1 < length m - s"
proof -
  have l: "length m1 = length m" "s \<le> s1" using copy_run_ge[OF assms(1)] by auto
  have "s1 \<noteq> s \<or> m1 = m" using assms(1) by (auto simp: copy_run_def bind_eq_Some_conv dest!: scan_while_ge split: if_splits)
  then have "s < s1" using l assms(2,3) by (metis le_neq_implies_less)
  moreover have "s1 < length m1" using assms(3) by (auto simp: rd_def split: if_splits)
  ultimately show ?thesis using l by simp
qed

function unescape_loop :: "mem \<Rightarrow> addr \<Rightarrow> (u8 \<Rightarrow> bool) \<Rightarrow> addr \<Rightarrow> addr \<Rightarrow> (mem \<times> addr \<times> addr) option" where
  "unescape_loop m e P s dst =
     (case rd m s of
        None \<Rightarrow> None
      | Some c \<Rightarrow>
          if c = 37
          then (case unescape_at m e s of
                  None \<Rightarrow> None
                | Some None \<Rightarrow> do {
                    m1 \<leftarrow> wr m dst c;
                    d \<leftarrow> rd m1 (s + 1);
                    m2 \<leftarrow> wr m1 (dst + 1) d;
                    Some (m2, s + 2, dst + 2)
                  }
                | Some (Some b) \<Rightarrow>
                    (case wr m dst b of
                       None \<Rightarrow> None
                     | Some m1 \<Rightarrow>
                         (case copy_run m1 P (s + 3) (dst + 1) of
                            None \<Rightarrow> None
                          | Some (m2, s1, dst1) \<Rightarrow>
                              (case rd m2 s1 of
                                 None \<Rightarrow> None
                               | Some c1 \<Rightarrow> if c1 = 37 then unescape_loop m2 e P s1 dst1 else Some (m2, s1, dst1)))))
          else (case copy_run m P s dst of
                  None \<Rightarrow> None
                | Some (m1, s1, dst1) \<Rightarrow>
                    (case rd m1 s1 of
                       None \<Rightarrow> None
                     | Some c1 \<Rightarrow> if c1 = 37 then unescape_loop m1 e P s1 dst1 else Some (m1, s1, dst1))))"
  by pat_completeness auto
termination
  apply (relation "measure (\<lambda>(m, e, P, s, dst). length m - s)")
  apply simp
  subgoal by (auto simp: rd_def dest!: copy_run_ge wr_length split: if_splits)
  subgoal for m e P s dst c using copy_run_moves[of m P s dst] by (auto simp: rd_def split: if_splits)
  done

declare unescape_loop.simps [simp del]

definition scan_get_unescape :: "mem \<Rightarrow> scanner_t \<Rightarrow> cis_t \<Rightarrow> (mem \<times> scanner_t \<times> str_t option) option" where
  "scan_get_unescape m sc spec =
     do {
       guard (\<not> cis_match spec 0);
       guard (\<not> cis_match spec 37);
       c \<leftarrow> rd m (curptr sc);
       if \<not> cis_match spec c \<and> c \<noteq> 37 then Some (m, scan_syntax_err sc, None)
       else do {
         (m1, s, dst) \<leftarrow> unescape_loop m (sc_end sc) (cis_match spec) (curptr sc) (curptr sc);
         sc1 \<leftarrow> advance_to m1 sc s;
         Some (m1, sc1, Some (c_strset3 (curptr sc) dst))
       }
     }"

text \<open>Backslashes in front of a quote are counted backwards, down to the start of the text.\<close>

fun back_over :: "mem \<Rightarrow> addr \<Rightarrow> addr \<Rightarrow> addr option" where
  "back_over m b 0 = (if b = 0 then Some 0 else None)"
| "back_over m b (Suc r) =
     (if Suc r \<noteq> b
      then (case rd m (Suc r) of None \<Rightarrow> None | Some c \<Rightarrow> if c = 92 then back_over m b r else Some (Suc r))
      else Some (Suc r))"

function quote_end :: "mem \<Rightarrow> addr \<Rightarrow> addr \<Rightarrow> u8 \<Rightarrow> addr \<Rightarrow> addr option" where
  "quote_end m b e q s =
     (case scan_until m e (\<lambda>c. c = 10 \<or> c = q) s of
        None \<Rightarrow> None
      | Some t \<Rightarrow>
          (case rd m t of
             None \<Rightarrow> None
           | Some c \<Rightarrow>
               if c = q
               then (case rd m (t - 1) of
                       None \<Rightarrow> None
                     | Some d \<Rightarrow>
                         if d = 92
                         then (case back_over m b (t - 2) of
                                 None \<Rightarrow> None
                               | Some r \<Rightarrow> if (t - 2 - r) mod 2 = 1 then Some t else quote_end m b e q (t + 1))
                         else Some t)
               else Some t))"
  by pat_completeness auto

lemma scan_until_ge: "scan_until m e P s = Some t \<Longrightarrow> s \<le> t"
proof (induction m e P s rule: scan_until.induct)
  case (1 m e P s)
  from "1.prems" show ?case using "1.IH" by (subst (asm) scan_until.simps) (fastforce split: option.splits if_splits)
qed

termination quote_end
  by (relation "measure (\<lambda>(m, b, e, q, s). length m - s)") (auto simp: rd_def dest!: scan_until_ge split: if_splits)

declare quote_end.simps [simp del]

text \<open>The index of the opening quote, from \<open>i\<close> on, the pairs of quotes being given in two lists.\<close>

fun find_quote :: "u8 list \<Rightarrow> u8 \<Rightarrow> nat \<Rightarrow> nat option" where
  "find_quote [] c i = None"
| "find_quote (b # bs) c i = (if c = b then Some i else find_quote bs c (i + 1))"

definition scan_get_quotes :: "mem \<Rightarrow> scanner_t \<Rightarrow> u8 list \<Rightarrow> u8 list \<Rightarrow> (scanner_t \<times> str_t option) option" where
  "scan_get_quotes m sc begin_quote end_quote =
     do {
       guard (begin_quote \<noteq> []);
       c \<leftarrow> rd m (curptr sc);
       case find_quote begin_quote c 0 of
         None \<Rightarrow> Some (scan_syntax_err sc, None)
       | Some qpair \<Rightarrow> do {
           s \<leftarrow> quote_end m (sc_begin sc) (sc_end sc) (end_quote ! qpair) (curptr sc + 1);
           d \<leftarrow> rd m s;
           if d \<noteq> end_quote ! qpair then Some (scan_syntax_err sc, None)
           else do { sc1 \<leftarrow> advance_to m sc (s + 1); Some (sc1, Some (c_strset3 (curptr sc) (s + 1))) }
         }
     }"

definition scan_get_quote :: "mem \<Rightarrow> scanner_t \<Rightarrow> u8 \<Rightarrow> u8 \<Rightarrow> (scanner_t \<times> str_t option) option" where
  "scan_get_quote m sc begin_quote end_quote = scan_get_quotes m sc [begin_quote] [end_quote]"

definition scan_get_n :: "mem \<Rightarrow> scanner_t \<Rightarrow> nat \<Rightarrow> (scanner_t \<times> str_t option) option" where
  "scan_get_n m sc N =
     (if u32 (curptr sc + N) > sc_end sc then Some (scan_syntax_err sc, None)
      else do { sc1 \<leftarrow> advance_to m sc (u32 (curptr sc + N)); Some (sc1, Some (c_strset (curptr sc) N)) })"

definition scan_get_char :: "mem \<Rightarrow> scanner_t \<Rightarrow> (scanner_t \<times> u8) option" where
  "scan_get_char m sc =
     do {
       chr \<leftarrow> rd m (curptr sc);
       if chr = 0 then Some (scan_syntax_err sc, 0)
       else do { sc1 \<leftarrow> advance_to m sc (curptr sc + 1); Some (sc1, chr) }
     }"

definition scan_get_newline :: "mem \<Rightarrow> scanner_t \<Rightarrow> scanner_t option" where
  "scan_get_newline m sc =
     do {
       c \<leftarrow> rd m (curptr sc);
       if \<not> SCAN_IS_NEWLINE c then Some (scan_syntax_err sc)
       else do {
         let s1 = (if c = 13 then curptr sc + 1 else curptr sc);
         d \<leftarrow> rd m s1;
         let s2 = (if d = 10 then s1 + 1 else s1);
         Some (sc\<lparr>curptr := s2, line := line sc + 1, start_line := s2\<rparr>)
       }
     }"

definition get_until :: "mem \<Rightarrow> scanner_t \<Rightarrow> (u8 \<Rightarrow> bool) \<Rightarrow> (scanner_t \<times> str_t option) option" where
  "get_until m sc P =
     (if curptr sc \<ge> sc_end sc then Some (scan_syntax_err sc, None)
      else do {
        s \<leftarrow> scan_until m (sc_end sc) P (curptr sc);
        sc1 \<leftarrow> advance_to m sc s;
        Some (sc1, Some (c_strset3 (curptr sc) s))
      })"

definition scan_get_until :: "mem \<Rightarrow> scanner_t \<Rightarrow> cis_t \<Rightarrow> (scanner_t \<times> str_t option) option" where
  "scan_get_until m sc spec = get_until m sc (cis_match spec)"

definition scan_get_until_ch :: "mem \<Rightarrow> scanner_t \<Rightarrow> int \<Rightarrow> (scanner_t \<times> str_t option) option" where
  "scan_get_until_ch m sc until_char = get_until m sc (\<lambda>c. int (unat c) = until_char)"

definition scan_get_until_chr :: "mem \<Rightarrow> scanner_t \<Rightarrow> u8 list \<Rightarrow> (scanner_t \<times> str_t option) option" where
  "scan_get_until_chr m sc until_spec = get_until m sc (\<lambda>c. c \<in> set until_spec)"

definition scan_advance_n :: "mem \<Rightarrow> scanner_t \<Rightarrow> nat \<Rightarrow> bool \<Rightarrow> scanner_t option" where
  "scan_advance_n m sc N skip =
     (if u32 (curptr sc + N) > sc_end sc then Some (scan_syntax_err sc)
      else skip_after m skip (sc\<lparr>curptr := u32 (curptr sc + N)\<rparr>))"

subsection \<open>Comparing\<close>

text \<open>\<open>strncmp\<close> and \<open>strnicmp\<close> with a C string given by its bytes.\<close>

fun cmp_text :: "mem \<Rightarrow> (u8 \<Rightarrow> u8) \<Rightarrow> addr \<Rightarrow> u8 list \<Rightarrow> nat \<Rightarrow> int option" where
  "cmp_text m f p s 0 = Some 0"
| "cmp_text m f p s (Suc n) =
     do {
       a \<leftarrow> rd m p;
       let b = (case s of [] \<Rightarrow> 0 | x # xs \<Rightarrow> x);
       if f a \<noteq> f b then Some (if f a < f b then -1 else 1)
       else if a = 0 then Some 0
       else cmp_text m f (p + 1) (tl s) n
     }"

text \<open>
  A negative length gives a position in front of the current one; \<open>strncmp\<close> takes it for a large
  one, \<open>strnicmp\<close> stops after the first character.
\<close>

definition beyond :: "scanner_t \<Rightarrow> int \<Rightarrow> bool" where
  "beyond sc len \<longleftrightarrow> (int (curptr sc) + len) mod 2 ^ 32 > int (sc_end sc)"

definition scan_strcmp :: "mem \<Rightarrow> scanner_t \<Rightarrow> u8 list \<Rightarrow> int \<Rightarrow> (scanner_t \<times> int) option" where
  "scan_strcmp m sc s len =
     (if beyond sc len then Some (scan_syntax_err sc, -1)
      else map_option (Pair sc) (cmp_text m (\<lambda>c. c) (curptr sc) s (nat (len mod 2 ^ 32))))"

definition scan_stricmp :: "mem \<Rightarrow> scanner_t \<Rightarrow> u8 list \<Rightarrow> int \<Rightarrow> (scanner_t \<times> int) option" where
  "scan_stricmp m sc s len =
     (if beyond sc len then Some (scan_syntax_err sc, -1)
      else map_option (Pair sc) (cmp_text m c_tolower (curptr sc) s (if len < 0 then 1 else nat len)))"

definition scan_stricmp_alnum :: "mem \<Rightarrow> scanner_t \<Rightarrow> u8 list \<Rightarrow> int \<Rightarrow> (scanner_t \<times> int) option" where
  "scan_stricmp_alnum m sc s len = scan_stricmp m sc s len"

subsection \<open>Saved states and positions\<close>

definition scan_save_state :: "scanner_t \<Rightarrow> scan_state" where
  "scan_save_state sc = \<lparr>st_curptr = curptr sc, st_line = line sc, st_start_line = start_line sc\<rparr>"

definition scan_restore_state :: "scanner_t \<Rightarrow> scan_state \<Rightarrow> scanner_t" where
  "scan_restore_state sc st = sc\<lparr>curptr := st_curptr st, line := st_line st, start_line := st_start_line st\<rparr>"

definition scan_get_col :: "scanner_t \<Rightarrow> int" where
  "scan_get_col sc = s32 (int (curptr sc) - int (start_line sc))"

subsection \<open>The rest of the text\<close>

text \<open>\<open>rest m sc bs\<close>: from the current position on there are the bytes \<open>bs\<close> up to the end, and a NUL.\<close>

definition rest :: "mem \<Rightarrow> scanner_t \<Rightarrow> u8 list \<Rightarrow> bool" where
  "rest m sc bs \<longleftrightarrow> bytes_at m (curptr sc) (bs @ [0]) \<and> sc_end sc = curptr sc + length bs \<and> sc_end sc < 2 ^ 31"

lemma rd_hd: "bytes_at m s (bs @ [0]) \<Longrightarrow> rd m s = Some (hd (bs @ [0]))"
  by (cases bs) simp_all

lemma rest_rd: "rest m sc bs \<Longrightarrow> rd m (curptr sc) = Some (hd (bs @ [0]))"
  by (cases bs) (simp_all add: rest_def)

lemma scan_while_text: "bytes_at m p (bs @ [0]) \<Longrightarrow> \<not> P 0 \<Longrightarrow> scan_while m P p = Some (p + length (takeWhile P bs))"
proof (induction bs arbitrary: p)
  case Nil
  then show ?case by (subst scan_while.simps) simp
next
  case (Cons b bs)
  then show ?case by (subst scan_while.simps) simp
qed

lemma scan_until_text: "bytes_at m p bs \<Longrightarrow> e = p + length bs \<Longrightarrow> scan_until m e P p = Some (p + length (takeWhile (\<lambda>c. \<not> P c) bs))"
proof (induction bs arbitrary: p)
  case Nil
  then show ?case by (subst scan_until.simps) simp
next
  case (Cons b bs)
  then show ?case by (subst scan_until.simps) simp
qed

lemma bytes_at_dropWhile: "bytes_at m p (bs @ [0]) \<Longrightarrow> bytes_at m (p + length (takeWhile P bs)) (dropWhile P bs @ [0])"
proof -
  assume b: "bytes_at m p (bs @ [0])"
  have "bs @ [0] = takeWhile P bs @ (dropWhile P bs @ [0])" by simp
  then show ?thesis using b bytes_at_append by metis
qed

lemma length_while: "length (takeWhile P bs) + length (dropWhile P bs) = length bs"
  by (metis length_append takeWhile_dropWhile_id)

text \<open>The blanks an operation skips: with the option for new lines these count as well.\<close>

definition skipped :: "scanner_t \<Rightarrow> u8 \<Rightarrow> bool" where
  "skipped sc c \<longleftrightarrow> SCAN_IS_SPACE c \<or> has_option sc SCAN_AUTOSKIP_NEWLINE \<and> SCAN_IS_NEWLINE c"

lemma not_skipped [simp]: "\<not> skipped sc 0" "\<not> SCAN_IS_SPACE 0" "\<not> SCAN_IS_NEWLINE 0" "skipped (sc\<lparr>curptr := s\<rparr>) = skipped sc"
  by (simp_all add: skipped_def SCAN_IS_SPACE_def SCAN_IS_NEWLINE_def has_option_def fun_eq_iff)

text \<open>Line ends, a carriage return with a line feed being one.\<close>

fun eols :: "u8 list \<Rightarrow> nat" where
  "eols [] = 0"
| "eols (c # cs) =
     (if c = 13 then Suc (case cs of [] \<Rightarrow> 0 | d # ds \<Rightarrow> if d = 10 then eols ds else eols cs)
      else if c = 10 then Suc (eols cs) else eols cs)"

lemma eols_blank: "\<forall>c\<in>set xs. SCAN_IS_SPACE c \<Longrightarrow> eols (xs @ ys) = eols ys"
  by (induction xs) (auto simp: SCAN_IS_SPACE_def)

definition same_but_pos :: "scanner_t \<Rightarrow> scanner_t \<Rightarrow> bool" where
  "same_but_pos sc sc' \<longleftrightarrow> sc_begin sc' = sc_begin sc \<and> sc_end sc' = sc_end sc \<and> skip_ws sc' = skip_ws sc \<and> errs sc' = errs sc"

lemma takeWhile_imp:
  assumes "\<And>c. P c \<Longrightarrow> Q c"
  shows "takeWhile Q xs = takeWhile P xs @ takeWhile Q (dropWhile P xs)" "dropWhile Q xs = dropWhile Q (dropWhile P xs)"
  using assms by (induction xs) auto

definition white :: "u8 \<Rightarrow> bool" where
  "white c \<longleftrightarrow> SCAN_IS_SPACE c \<or> SCAN_IS_NEWLINE c"

lemma skip_newlines_text:
  "bytes_at m s (bs @ [0]) \<Longrightarrow> \<exists>sc'. skip_newlines m sc s = Some (sc', s + length (takeWhile white bs)) \<and>
     same_but_pos sc sc' \<and> line sc' = line sc + eols (takeWhile white bs)"
proof (induction "length bs" arbitrary: bs s sc rule: less_induct)
  case less
  show ?case
  proof (cases bs)
    case Nil
    then show ?thesis using less.prems by (subst skip_newlines.simps) (simp add: same_but_pos_def SCAN_IS_SPACE_def)
  next
    case (Cons c cs)
    have b: "rd m s = Some c" "bytes_at m (s + 1) (cs @ [0])" using less.prems Cons by simp_all
    consider "c = 13" "cs \<noteq> []" "hd cs = 10" | "c = 13" "cs = [] \<or> hd cs \<noteq> 10" | "c = 10" | "SCAN_IS_SPACE c" | "\<not> white c"
      by (auto simp: white_def SCAN_IS_NEWLINE_def)
    then show ?thesis
    proof cases
      case 1
      then obtain ds where ds: "cs = 10 # ds" by (cases cs) auto
      let ?sc = "sc\<lparr>line := line sc + 1, curptr := s + 2, start_line := s + 2\<rparr>"
      have "\<exists>sc'. skip_newlines m ?sc (s + 2) = Some (sc', s + 2 + length (takeWhile white ds)) \<and> same_but_pos ?sc sc' \<and>
          line sc' = line ?sc + eols (takeWhile white ds)"
        by (rule less.hyps) (use b(2) in \<open>simp_all add: Cons ds numeral_2_eq_2\<close>)
      then show ?thesis using b 1(1) ds Cons
        by (subst skip_newlines.simps) (auto simp: same_but_pos_def white_def SCAN_IS_NEWLINE_def)
    next
      case 2
      let ?sc = "sc\<lparr>line := line sc + 1, curptr := s + 1, start_line := s + 1\<rparr>"
      have "\<exists>sc'. skip_newlines m ?sc (s + 1) = Some (sc', s + 1 + length (takeWhile white cs)) \<and> same_but_pos ?sc sc' \<and>
          line sc' = line ?sc + eols (takeWhile white cs)"
        by (rule less.hyps) (use b(2) Cons in simp_all)
      moreover have "rd m (s + 1) = Some (hd (cs @ [0]))" "hd (cs @ [0]) \<noteq> 10" using b(2) 2(2) by (cases cs; auto)+
      moreover have "eols (takeWhile white (c # cs)) = Suc (eols (takeWhile white cs))"
        using 2 by (cases cs) (auto simp: white_def SCAN_IS_NEWLINE_def)
      ultimately show ?thesis using b(1) 2(1) Cons
        by (subst skip_newlines.simps) (auto simp: same_but_pos_def white_def SCAN_IS_NEWLINE_def)
    next
      case 3
      let ?sc = "sc\<lparr>line := line sc + 1, curptr := s + 1, start_line := s + 1\<rparr>"
      have "\<exists>sc'. skip_newlines m ?sc (s + 1) = Some (sc', s + 1 + length (takeWhile white cs)) \<and> same_but_pos ?sc sc' \<and>
          line sc' = line ?sc + eols (takeWhile white cs)"
        by (rule less.hyps) (use b(2) Cons in simp_all)
      then show ?thesis using b(1) 3 Cons
        by (subst skip_newlines.simps) (auto simp: same_but_pos_def white_def SCAN_IS_NEWLINE_def)
    next
      case 4
      let ?ds = "dropWhile SCAN_IS_SPACE cs"
      let ?n = "length (takeWhile SCAN_IS_SPACE cs)"
      have sw: "scan_while m SCAN_IS_SPACE (s + 1) = Some (s + 1 + ?n)" by (rule scan_while_text[OF b(2)]) simp
      have "\<exists>sc'. skip_newlines m sc (s + 1 + ?n) = Some (sc', s + 1 + ?n + length (takeWhile white ?ds)) \<and> same_but_pos sc sc' \<and>
          line sc' = line sc + eols (takeWhile white ?ds)"
        by (rule less.hyps) (use bytes_at_dropWhile[OF b(2)] length_dropWhile_le[of SCAN_IS_SPACE cs] in \<open>simp_all add: Cons less_Suc_eq_le\<close>)
      moreover have "takeWhile white cs = takeWhile SCAN_IS_SPACE cs @ takeWhile white ?ds"
        by (rule takeWhile_imp) (simp add: white_def)
      moreover have "eols (takeWhile SCAN_IS_SPACE cs @ takeWhile white ?ds) = eols (takeWhile white ?ds)"
        by (rule eols_blank) (auto dest: set_takeWhileD)
      ultimately show ?thesis using b(1) 4 Cons sw
        by (subst skip_newlines.simps) (auto simp: same_but_pos_def white_def SCAN_IS_SPACE_def)
    next
      case 5
      then show ?thesis using b(1) Cons
        by (subst skip_newlines.simps) (auto simp: same_but_pos_def white_def SCAN_IS_NEWLINE_def)
    qed
  qed
qed

lemma rest_at: "rest m sc bs \<Longrightarrow> curptr sc' = curptr sc + n \<Longrightarrow> sc_end sc' = sc_end sc \<Longrightarrow> bs = xs @ ys \<Longrightarrow> n = length xs \<Longrightarrow> rest m sc' ys"
  by (auto simp: rest_def add.assoc)

text \<open>
  The options: without the one for new lines the one for headers, which unfolds lines, must not be set.
\<close>

definition plain_options :: "scanner_t \<Rightarrow> bool" where
  "plain_options sc \<longleftrightarrow> has_option sc SCAN_AUTOSKIP_NEWLINE \<or> and (skip_ws sc) SCAN_AUTOSKIP_WS_HEADER \<noteq> SCAN_AUTOSKIP_WS_HEADER"

lemma hd_dropWhile_not: "\<not> P 0 \<Longrightarrow> \<not> P (hd (dropWhile P bs @ [0 :: u8]))"
  by (induction bs) auto

lemma scan_skip_whitespace_text:
  assumes r: "rest m sc bs" and o: "plain_options sc"
  obtains sc' where "scan_skip_whitespace m sc = Some sc'" "rest m sc' (dropWhile (skipped sc) bs)" "same_but_pos sc sc'"
    "line sc' = line sc + eols (takeWhile (skipped sc) bs)"
proof -
  have b: "bytes_at m (curptr sc) (bs @ [0])" using r by (simp add: rest_def)
  define ds where "ds = dropWhile SCAN_IS_SPACE bs"
  define s0 where "s0 = curptr sc + length (takeWhile SCAN_IS_SPACE bs)"
  have s0: "scan_while m SCAN_IS_SPACE (curptr sc) = Some s0" unfolding s0_def by (rule scan_while_text[OF b]) simp
  have d: "bytes_at m s0 (ds @ [0])" unfolding ds_def s0_def by (rule bytes_at_dropWhile[OF b])
  then have c0: "rd m s0 = Some (hd (ds @ [0]))" by (cases ds) simp_all
  have tw: "takeWhile (skipped sc) bs = takeWhile SCAN_IS_SPACE bs @ takeWhile (skipped sc) ds" "dropWhile (skipped sc) bs = dropWhile (skipped sc) ds"
    unfolding ds_def by (rule takeWhile_imp, simp add: skipped_def)+
  have eb: "eols (takeWhile (skipped sc) bs) = eols (takeWhile (skipped sc) ds)"
    unfolding tw(1) by (rule eols_blank) (auto dest: set_takeWhileD)
  show ?thesis
  proof (cases "SCAN_IS_NEWLINE (hd (ds @ [0])) \<and> has_option sc SCAN_AUTOSKIP_NEWLINE")
    case True
    then have sk: "skipped sc = white" by (auto simp: skipped_def white_def fun_eq_iff)
    define s where "s = s0 + length (takeWhile white ds)"
    obtain sc1 where N: "skip_newlines m sc s0 = Some (sc1, s)" "same_but_pos sc sc1" "line sc1 = line sc + eols (takeWhile white ds)"
      using skip_newlines_text[OF d, of sc] unfolding s_def by blast
    have "bytes_at m s (dropWhile white ds @ [0])" unfolding s_def by (rule bytes_at_dropWhile[OF d])
    then have c: "rd m s = Some (hd (dropWhile white ds @ [0]))" by (rule rd_hd)
    moreover have "\<not> SCAN_IS_NEWLINE (hd (dropWhile white ds @ [0]))"
      using hd_dropWhile_not[of white ds] by (auto simp: white_def)
    ultimately have res: "scan_skip_whitespace m sc = Some (sc1\<lparr>curptr := s\<rparr>)"
      using s0 c0 True N(1) by (simp add: scan_skip_whitespace_def)
    have "s = curptr sc + length (takeWhile white bs)" using tw(1) unfolding sk s_def s0_def by simp
    then have "rest m (sc1\<lparr>curptr := s\<rparr>) (dropWhile (skipped sc) bs)"
      using rest_at[OF r, of "sc1\<lparr>curptr := s\<rparr>" _ "takeWhile white bs" "dropWhile white bs"] N(2) by (simp add: sk same_but_pos_def)
    then show ?thesis using that[OF res] N(2,3) eb sk by (simp add: same_but_pos_def)
  next
    case False
    have stop: "\<not> skipped sc (hd (ds @ [0]))"
      using False hd_dropWhile_not[of SCAN_IS_SPACE bs, folded ds_def] by (auto simp: skipped_def)
    then have ds: "takeWhile (skipped sc) ds = []" "dropWhile (skipped sc) ds = ds" by (cases ds; simp)+
    have "\<not> (SCAN_IS_NEWLINE (hd (ds @ [0])) \<and> and (skip_ws sc) SCAN_AUTOSKIP_WS_HEADER = SCAN_AUTOSKIP_WS_HEADER)"
      using False o by (auto simp: plain_options_def)
    then have res: "scan_skip_whitespace m sc = Some (sc\<lparr>curptr := s0\<rparr>)"
      using s0 c0 False by (auto simp: scan_skip_whitespace_def)
    have "rest m (sc\<lparr>curptr := s0\<rparr>) ds"
      using rest_at[OF r, of "sc\<lparr>curptr := s0\<rparr>" _ "takeWhile SCAN_IS_SPACE bs" ds] by (simp add: s0_def ds_def)
    then show ?thesis using that[OF res] eb tw ds by (simp add: same_but_pos_def)
  qed
qed

text \<open>What an operation leaves behind its token.\<close>

definition after :: "scanner_t \<Rightarrow> u8 list \<Rightarrow> u8 list" where
  "after sc bs = (if skip_ws sc \<noteq> 0 then dropWhile (skipped sc) bs else bs)"

definition eols_after :: "scanner_t \<Rightarrow> u8 list \<Rightarrow> nat" where
  "eols_after sc bs = (if skip_ws sc \<noteq> 0 then eols (takeWhile (skipped sc) bs) else 0)"

lemma advance_to_text:
  assumes r: "rest m sc (xs @ bs)" and o: "plain_options sc" and s: "s = curptr sc + length xs"
  obtains sc' where "advance_to m sc s = Some sc'" "rest m sc' (after sc bs)" "same_but_pos sc sc'" "line sc' = line sc + eols_after sc bs"
proof -
  let ?sc = "sc\<lparr>curptr := s\<rparr>"
  have r': "rest m ?sc bs" by (rule rest_at[OF r _ _ refl refl]) (simp_all add: s)
  have c: "rd m s = Some (hd (bs @ [0]))" using rest_rd[OF r'] by simp
  show ?thesis
  proof (cases "SCAN_IS_PROBABLY_SPACE (hd (bs @ [0])) \<and> skip_ws sc \<noteq> 0")
    case True
    have "plain_options ?sc" using o by (simp add: plain_options_def has_option_def)
    then obtain sc' where w: "scan_skip_whitespace m ?sc = Some sc'" "rest m sc' (dropWhile (skipped sc) bs)" "same_but_pos ?sc sc'"
      "line sc' = line sc + eols (takeWhile (skipped sc) bs)"
      using scan_skip_whitespace_text[OF r'] by (metis not_skipped(4) scanner_t.select_convs(4) scanner_t.surjective scanner_t.update_convs(3))
    then show ?thesis using that[of sc'] c True by (simp add: advance_to_def skip_after_def after_def eols_after_def same_but_pos_def)
  next
    case False
    have "dropWhile (skipped sc) bs = bs" "takeWhile (skipped sc) bs = []" if "skip_ws sc \<noteq> 0"
      using False that by (cases bs; auto simp: SCAN_IS_PROBABLY_SPACE_def skipped_def SCAN_IS_SPACE_def SCAN_IS_NEWLINE_def)+
    then show ?thesis using that[of ?sc] c False r'
      by (auto simp: advance_to_def skip_after_def after_def eols_after_def same_but_pos_def)
  qed
qed

subsection \<open>Tokens\<close>

definition tok :: "scanner_t \<Rightarrow> u8 list \<Rightarrow> str_t" where
  "tok sc xs = \<lparr>ptr = curptr sc, slen = int (length xs)\<rparr>"

text \<open>An operation that takes the token \<open>xs\<close> in front of \<open>bs\<close>.\<close>

definition takes :: "mem \<Rightarrow> scanner_t \<Rightarrow> u8 list \<Rightarrow> u8 list \<Rightarrow> scanner_t \<Rightarrow> bool" where
  "takes m sc xs bs sc' \<longleftrightarrow> rest m sc' (after sc bs) \<and> same_but_pos sc sc' \<and> line sc' = line sc + eols_after sc bs"

lemma c_strset3_tok: "rest m sc (xs @ bs) \<Longrightarrow> c_strset3 (curptr sc) (curptr sc + length xs) = tok sc xs"
  by (simp add: c_strset3_def tok_def rest_def s32_id)

lemma advance_to_takes:
  assumes "rest m sc (xs @ bs)" "plain_options sc"
  obtains sc' where "advance_to m sc (curptr sc + length xs) = Some sc'" "takes m sc xs bs sc'"
  by (rule advance_to_text[OF assms refl]) (auto simp: takes_def intro: that)

lemma scan_get_core:
  assumes r: "rest m sc bs" and o: "plain_options sc" and z: "\<not> cis_match spec 0"
  shows "if bs \<noteq> [] \<and> cis_match spec (hd bs)
    then \<exists>sc'. scan_get m sc spec = Some (sc', Some (tok sc (takeWhile (cis_match spec) bs))) \<and>
      takes m sc (takeWhile (cis_match spec) bs) (dropWhile (cis_match spec) bs) sc'
    else scan_get m sc spec = Some (scan_syntax_err sc, None)"
proof (cases "bs \<noteq> [] \<and> cis_match spec (hd bs)")
  case True
  then obtain b cs where bs: "bs = b # cs" "cis_match spec b" by (cases bs) auto
  let ?xs = "takeWhile (cis_match spec) bs" and ?ys = "dropWhile (cis_match spec) bs"
  have r': "rest m sc (?xs @ ?ys)" using r by simp
  have "bytes_at m (curptr sc + 1) (cs @ [0])" using r by (simp add: rest_def bs)
  from scan_while_text[OF this, of "cis_match spec"] z
  have w: "scan_while m (cis_match spec) (curptr sc + 1) = Some (curptr sc + length ?xs)" by (simp add: bs)
  obtain sc' where a: "advance_to m sc (curptr sc + length ?xs) = Some sc'" "takes m sc ?xs ?ys sc'"
    by (rule advance_to_takes[OF r' o])
  then show ?thesis using True w z rest_rd[OF r] c_strset3_tok[OF r'] by (simp add: scan_get_def bs)
next
  case False
  then have "\<not> cis_match spec (hd (bs @ [0]))" using z by (cases bs) auto
  then show ?thesis using False z rest_rd[OF r] by (auto simp: scan_get_def)
qed

lemma get_until_core:
  assumes r: "rest m sc bs" and o: "plain_options sc"
  shows "if bs \<noteq> []
    then \<exists>sc'. get_until m sc P = Some (sc', Some (tok sc (takeWhile (\<lambda>c. \<not> P c) bs))) \<and>
      takes m sc (takeWhile (\<lambda>c. \<not> P c) bs) (dropWhile (\<lambda>c. \<not> P c) bs) sc'
    else get_until m sc P = Some (scan_syntax_err sc, None)"
proof (cases "bs = []")
  case True
  then show ?thesis using r by (simp add: get_until_def rest_def)
next
  case False
  let ?xs = "takeWhile (\<lambda>c. \<not> P c) bs" and ?ys = "dropWhile (\<lambda>c. \<not> P c) bs"
  have r': "rest m sc (?xs @ ?ys)" using r by simp
  have "scan_until m (sc_end sc) P (curptr sc) = Some (curptr sc + length ?xs)"
    by (rule scan_until_text) (use r in \<open>simp_all add: rest_def\<close>)
  moreover obtain sc' where a: "advance_to m sc (curptr sc + length ?xs) = Some sc'" "takes m sc ?xs ?ys sc'"
    by (rule advance_to_takes[OF r' o])
  moreover have "\<not> sc_end sc \<le> curptr sc" using r False by (simp add: rest_def)
  ultimately show ?thesis using False c_strset3_tok[OF r'] by (simp add: get_until_def)
qed

lemma scan_get_char_core:
  assumes r: "rest m sc bs" and o: "plain_options sc"
  shows "if bs \<noteq> [] \<and> hd bs \<noteq> 0 then \<exists>sc'. scan_get_char m sc = Some (sc', hd bs) \<and> takes m sc [hd bs] (tl bs) sc'
    else scan_get_char m sc = Some (scan_syntax_err sc, 0)"
proof (cases "bs \<noteq> [] \<and> hd bs \<noteq> 0")
  case True
  then have r': "rest m sc ([hd bs] @ tl bs)" using r by simp
  obtain sc' where a: "advance_to m sc (curptr sc + length [hd bs]) = Some sc'" "takes m sc [hd bs] (tl bs) sc'"
    by (rule advance_to_takes[OF r' o])
  then show ?thesis using True rest_rd[OF r] by (cases bs) (auto simp: scan_get_char_def)
next
  case False
  then have "rd m (curptr sc) = Some 0" using rest_rd[OF r] by (cases bs) auto
  then show ?thesis using False by (auto simp: scan_get_char_def)
qed

lemma scan_get_n_core:
  assumes r: "rest m sc bs" and o: "plain_options sc" and n: "curptr sc + n < 2 ^ 32"
  shows "if n \<le> length bs then \<exists>sc'. scan_get_n m sc n = Some (sc', Some (tok sc (take n bs))) \<and> takes m sc (take n bs) (drop n bs) sc'
    else scan_get_n m sc n = Some (scan_syntax_err sc, None)"
proof (cases "n \<le> length bs")
  case True
  have r': "rest m sc (take n bs @ drop n bs)" using r by simp
  obtain sc' where a: "advance_to m sc (curptr sc + length (take n bs)) = Some sc'" "takes m sc (take n bs) (drop n bs) sc'"
    by (rule advance_to_takes[OF r' o])
  moreover have "c_strset (curptr sc) n = tok sc (take n bs)" using r True by (simp add: c_strset_def tok_def rest_def s32_id)
  ultimately show ?thesis using True r n by (auto simp: scan_get_n_def rest_def u32_id)
qed (use r n in \<open>simp add: scan_get_n_def rest_def u32_id\<close>)

subsection \<open>Quoted strings\<close>

text \<open>The reference: the first quote that no backslash escapes, in the same line; \<open>esc\<close> says that the next
character is escaped.\<close>

fun close_quote :: "u8 \<Rightarrow> bool \<Rightarrow> u8 list \<Rightarrow> nat option" where
  "close_quote q esc [] = None"
| "close_quote q esc (c # cs) =
     (if c = 10 then None
      else if c = q \<and> \<not> esc then Some 0
      else map_option Suc (close_quote q (c = 92 \<and> \<not> esc) cs))"

definition trail :: "u8 list \<Rightarrow> nat" where
  "trail ys = length (takeWhile (\<lambda>c. c = 92) (rev ys))"

lemma trail_snoc [simp]: "trail [] = 0" "trail (ys @ [c]) = (if c = 92 then Suc (trail ys) else 0)"
  by (simp_all add: trail_def)

lemma close_quote_skip:
  "\<forall>c\<in>set zs. c \<noteq> 10 \<and> c \<noteq> q \<Longrightarrow>
    close_quote q (odd (trail ys)) (zs @ r) = map_option ((+) (length zs)) (close_quote q (odd (trail (ys @ zs))) r)"
proof (induction zs arbitrary: ys)
  case Nil
  then show ?case by (simp add: option.map_id0[unfolded id_def])
next
  case (Cons c zs)
  have "(c = 92 \<and> \<not> odd (trail ys)) = odd (trail (ys @ [c]))" by simp
  moreover have "close_quote q (odd (trail (ys @ [c]))) (zs @ r) = map_option ((+) (length zs)) (close_quote q (odd (trail (ys @ [c] @ zs))) r)"
    using Cons.IH[of "ys @ [c]"] Cons.prems by simp
  ultimately show ?case using Cons.prems by (simp add: option.map_comp comp_def)
qed

lemma back_over_text:
  "\<forall>i<n. rd m (r - i) = Some 92 \<Longrightarrow> rd m (r - n) = Some d \<Longrightarrow> d \<noteq> 92 \<Longrightarrow> b + n \<le> r \<Longrightarrow> back_over m b r = Some (r - n)"
proof (induction n arbitrary: r)
  case 0
  then show ?case by (cases r) auto
next
  case (Suc n)
  then obtain r' where r: "r = Suc r'" by (cases r) auto
  have "rd m (Suc r') = Some 92" using Suc.prems(1) r by force
  moreover have "\<forall>i<n. rd m (r' - i) = Some 92"
  proof (intro allI impI)
    fix i assume "i < n"
    then have "rd m (r - Suc i) = Some 92" using Suc.prems(1) by blast
    then show "rd m (r' - i) = Some 92" using r by simp
  qed
  moreover have "rd m (r' - n) = Some d" using Suc.prems(2) r by simp
  ultimately show ?case using Suc.IH[of r'] Suc.prems(3,4) r by auto
qed

lemma trail_le: "trail ws \<le> length ws"
  unfolding trail_def by (metis length_rev length_takeWhile_le)

lemma trail_split: "\<exists>vs. ys = vs @ replicate (trail ys) 92 \<and> (vs = [] \<or> last vs \<noteq> 92)"
proof (induction ys rule: rev_induct)
  case (snoc c ys)
  show ?case
  proof (cases "c = 92")
    case True
    obtain vs where "ys = vs @ replicate (trail ys) 92" "vs = [] \<or> last vs \<noteq> 92" using snoc by blast
    then show ?thesis using True by (metis append.assoc replicate_append_same replicate_Suc trail_snoc(2))
  qed (auto intro: exI[of _ "ys @ [c]"])
qed simp

text \<open>Behind the opening quote \<open>b0\<close> and \<open>ws\<close> the backslashes counted back from \<open>t\<close> are those at the end of \<open>ws\<close>.\<close>

lemma escapes_before:
  assumes m: "bytes_at m p (b0 # ws)" and b: "b \<le> p" "b0 \<noteq> 92" and t: "t = p + 1 + length ws"
  shows "trail ws = 0 \<Longrightarrow> rd m (t - 1) \<noteq> Some 92 \<and> rd m (t - 1) \<noteq> None"
    and "trail ws \<noteq> 0 \<Longrightarrow> rd m (t - 1) = Some 92 \<and> back_over m b (t - 2) = Some (t - 1 - trail ws)"
proof -
  obtain vs where vs: "ws = vs @ replicate (trail ws) 92" "vs = [] \<or> last vs \<noteq> 92" using trail_split by blast
  define us where "us = b0 # vs"
  have us: "b0 # ws = us @ replicate (trail ws) 92" "last us \<noteq> 92" "us \<noteq> []" using vs b(2) by (auto simp: us_def)
  have len: "t = p + length us + trail ws" using arg_cong[OF vs(1), of length] t by (simp add: us_def)
  have "bytes_at m p us" "bytes_at m (p + length us) (replicate (trail ws) 92)" using m unfolding us(1) by simp_all
  then have a: "rd m (p + length us - 1) = Some (last us)" "\<And>i. i < trail ws \<Longrightarrow> rd m (p + length us + i) = Some 92"
  proof -
    obtain n where n: "length us = Suc n" using us(3) by (cases us) auto
    show "rd m (p + length us - 1) = Some (last us)" if "bytes_at m p us"
      using that us(3) n by (simp add: bytes_at_nth last_conv_nth)
  qed (auto simp: bytes_at_nth)
  show "rd m (t - 1) \<noteq> Some 92 \<and> rd m (t - 1) \<noteq> None" if "trail ws = 0"
    using a(1) us(2) len that by simp
  show "rd m (t - 1) = Some 92 \<and> back_over m b (t - 2) = Some (t - 1 - trail ws)" if nz: "trail ws \<noteq> 0"
  proof
    have 1: "t - 1 = p + length us + (trail ws - 1)" using len nz by simp
    show "rd m (t - 1) = Some 92" unfolding 1 by (rule a(2)) (use nz in simp)
    have "back_over m b (t - 2) = Some (t - 2 - (trail ws - 1))"
    proof (rule back_over_text)
      show "\<forall>i<trail ws - 1. rd m (t - 2 - i) = Some 92"
      proof (intro allI impI)
        fix i assume "i < trail ws - 1"
        then have "t - 2 - i = p + length us + (trail ws - 2 - i)" "trail ws - 2 - i < trail ws" using len by auto
        then show "rd m (t - 2 - i) = Some 92" using a(2) by simp
      qed
      have "t - 2 - (trail ws - 1) = p + length us - 1" using len nz us(3) by (cases us) auto
      then show "rd m (t - 2 - (trail ws - 1)) = Some (last us)" using a(1) by simp
      show "b + (trail ws - 1) \<le> t - 2" using len b(1) nz us(3) by (cases us) auto
    qed (rule us(2))
    moreover have "t - 2 - (trail ws - 1) = t - 1 - trail ws" using len nz by simp
    ultimately show "back_over m b (t - 2) = Some (t - 1 - trail ws)" by simp
  qed
qed

lemma quote_end_text:
  assumes b: "b \<le> p" "b0 \<noteq> 92" and q: "q \<noteq> 0" "q \<noteq> 10" "q \<noteq> 92"
  shows "bytes_at m p (b0 # ys @ bs @ [0]) \<Longrightarrow> s = p + 1 + length ys \<Longrightarrow> e = s + length bs \<Longrightarrow>
    \<exists>t c. quote_end m b e q s = Some t \<and> rd m t = Some c \<and>
      (case close_quote q (odd (trail ys)) bs of None \<Rightarrow> c \<noteq> q | Some k \<Rightarrow> t = s + k \<and> c = q)"
proof (induction "length bs" arbitrary: bs ys s rule: less_induct)
  case less
  define zs where "zs = takeWhile (\<lambda>c. \<not> (c = 10 \<or> c = q)) bs"
  define r where "r = dropWhile (\<lambda>c. \<not> (c = 10 \<or> c = q)) bs"
  define ws where "ws = ys @ zs"
  define t where "t = s + length zs"
  have bs: "bs = zs @ r" by (simp add: zs_def r_def)
  have zs: "\<forall>c\<in>set zs. c \<noteq> 10 \<and> c \<noteq> q" by (auto simp: zs_def dest: set_takeWhileD)
  have m: "bytes_at m p (b0 # ws)" "bytes_at m t (r @ [0])" and t: "t = p + 1 + length ws"
    using less.prems by (simp_all add: bs ws_def t_def add.assoc add.left_commute)
  have "bytes_at m s bs" using less.prems by simp
  then have u: "scan_until m e (\<lambda>c. c = 10 \<or> c = q) s = Some t"
    unfolding t_def zs_def using less.prems(3) by (intro scan_until_text) simp_all
  have cq: "close_quote q (odd (trail ys)) bs = map_option ((+) (length zs)) (close_quote q (odd (trail ws)) r)"
    unfolding bs ws_def by (rule close_quote_skip[OF zs])
  note E = escapes_before[OF m(1) b t]
  have hr: "r \<noteq> [] \<Longrightarrow> hd r = 10 \<or> hd r = q"
    using hd_dropWhile[of "\<lambda>c. \<not> (c = 10 \<or> c = q)" bs] unfolding r_def by blast
  consider "r = []" | r' where "r = 10 # r'" | r' where "r = q # r'"
    using hr by (cases r) auto
  then show ?case
  proof cases
    case 1
    then show ?thesis using u m(2) q cq by (subst quote_end.simps) simp
  next
    case 2
    then show ?thesis using u m(2) q cq by (subst quote_end.simps) simp
  next
    case (3 r')
    have rt: "rd m t = Some q" using m(2) 3 by simp
    show ?thesis
    proof (cases "odd (trail ws)")
      case False
      have "quote_end m b e q s = Some t"
      proof (cases "trail ws = 0")
        case True
        then show ?thesis using u rt E(1) by (subst quote_end.simps) auto
      next
        case nz: False
        have "trail ws \<le> length ws" by (rule trail_le)
        then have "(t - 2 - (t - 1 - trail ws)) mod 2 = (trail ws - 1) mod 2" using t nz by simp
        also have "\<dots> = 1" using nz False by presburger
        finally show ?thesis using u rt E(2)[OF nz] by (subst quote_end.simps) simp
      qed
      then show ?thesis using rt cq 3 q False by (simp add: t_def)
    next
      case True
      then have nz: "trail ws \<noteq> 0" by (metis even_zero)
      have "trail ws \<le> length ws" by (rule trail_le)
      then have "(t - 2 - (t - 1 - trail ws)) mod 2 = (trail ws - 1) mod 2" using t nz by simp
      also have "\<dots> = 0" using nz True by presburger
      finally have go: "quote_end m b e q s = quote_end m b e q (t + 1)"
        using u rt E(2)[OF nz] by (subst quote_end.simps) simp
      have "\<exists>t' c. quote_end m b e q (t + 1) = Some t' \<and> rd m t' = Some c \<and>
          (case close_quote q (odd (trail (ws @ [q]))) r' of None \<Rightarrow> c \<noteq> q | Some k \<Rightarrow> t' = t + 1 + k \<and> c = q)"
        by (rule less.hyps) (use less.prems 3 t in \<open>simp_all add: bs ws_def t_def\<close>)
      then show ?thesis
        unfolding go using cq 3 q True by (auto simp: t_def split: option.splits)
    qed
  qed
qed

lemma scan_get_quote_core:
  assumes r: "rest m sc bs" and o: "plain_options sc" and b: "sc_begin sc \<le> curptr sc"
    and q: "bq \<noteq> 0" "bq \<noteq> 92" "eq \<noteq> 0" "eq \<noteq> 10" "eq \<noteq> 92"
  shows "case (if bs \<noteq> [] \<and> hd bs = bq then close_quote eq False (tl bs) else None) of
      None \<Rightarrow> scan_get_quote m sc bq eq = Some (scan_syntax_err sc, None)
    | Some k \<Rightarrow> \<exists>sc'. scan_get_quote m sc bq eq = Some (sc', Some (tok sc (take (k + 2) bs))) \<and> bs ! (k + 1) = eq \<and>
        k + 2 \<le> length bs \<and> takes m sc (take (k + 2) bs) (drop (k + 2) bs) sc'"
proof (cases "bs \<noteq> [] \<and> hd bs = bq")
  case False
  then have "hd (bs @ [0]) \<noteq> bq" using q by (cases bs) auto
  then show ?thesis using False rest_rd[OF r] by (auto simp: scan_get_quote_def scan_get_quotes_def)
next
  case True
  then obtain cs where bs: "bs = bq # cs" by (cases bs) auto
  have c: "rd m (curptr sc) = Some bq" using rest_rd[OF r] bs by simp
  have "\<exists>t d. quote_end m (sc_begin sc) (sc_end sc) eq (curptr sc + 1) = Some t \<and> rd m t = Some d \<and>
      (case close_quote eq (odd (trail [])) cs of None \<Rightarrow> d \<noteq> eq | Some k \<Rightarrow> t = curptr sc + 1 + k \<and> d = eq)"
    by (rule quote_end_text[OF b q(2-5)]) (use r in \<open>simp_all add: rest_def bs\<close>)
  then obtain t d where t: "quote_end m (sc_begin sc) (sc_end sc) eq (curptr sc + 1) = Some t" "rd m t = Some d"
    "case close_quote eq False cs of None \<Rightarrow> d \<noteq> eq | Some k \<Rightarrow> t = curptr sc + 1 + k \<and> d = eq" by auto
  show ?thesis
  proof (cases "close_quote eq False cs")
    case None
    then show ?thesis using t c bs by (simp add: scan_get_quote_def scan_get_quotes_def)
  next
    case (Some k)
    have k: "k < length cs \<and> cs ! k = eq" if "close_quote eq esc cs = Some k" for esc cs k
      using that by (induction cs arbitrary: esc k) (auto split: if_splits)
    note k = k[OF Some]
    have r': "rest m sc (take (k + 2) bs @ drop (k + 2) bs)" using r by simp
    have l: "length (take (k + 2) bs) = k + 2" using k bs by simp
    obtain sc' where "advance_to m sc (curptr sc + length (take (k + 2) bs)) = Some sc'" "takes m sc (take (k + 2) bs) (drop (k + 2) bs) sc'"
      by (rule advance_to_takes[OF r' o])
    moreover have "c_strset3 (curptr sc) (curptr sc + (k + 2)) = tok sc (take (k + 2) bs)"
      using c_strset3_tok[OF r'] unfolding l .
    moreover have "t + 1 = curptr sc + (k + 2)" "d = eq" using t(3) Some by simp_all
    ultimately show ?thesis using Some t c bs k l
      by (simp add: scan_get_quote_def scan_get_quotes_def)
  qed
qed

subsection \<open>Percent escapes\<close>

definition hex_byte :: "u8 \<Rightarrow> u8 \<Rightarrow> u8" where
  "hex_byte a b = of_nat (16 * c_hex_digit_to_val a + c_hex_digit_to_val b)"

text \<open>The reference: the decoded token and what is behind it; nothing when an escape is malformed.\<close>

fun unesc :: "(u8 \<Rightarrow> bool) \<Rightarrow> u8 list \<Rightarrow> (u8 list \<times> u8 list) option" where
  "unesc P [] = Some ([], [])"
| "unesc P (c # cs) =
     (if c = 37
      then case cs of
          a # b # ds \<Rightarrow> if c_isxdigit a \<and> c_isxdigit b then map_option (\<lambda>(x, r). (hex_byte a b # x, r)) (unesc P ds) else None
        | _ \<Rightarrow> None
      else if P c then map_option (\<lambda>(x, r). (c # x, r)) (unesc P cs)
      else Some ([], c # cs))"

lemma unesc_run:
  "\<forall>c\<in>set zs. P c \<and> c \<noteq> 37 \<Longrightarrow> unesc P (zs @ r) = map_option (\<lambda>(x, y). (zs @ x, y)) (unesc P r)"
  by (induction zs) (cases "unesc P r"; auto)+

lemma copy_run_text:
  assumes "0 < start" "bytes_at m start done" "dst = start + length done" "dst \<le> s" "bytes_at m s (bs @ [0])" "\<not> P 0"
  obtains m1 where "copy_run m P s dst = Some (m1, s + length (takeWhile P bs), dst + length (takeWhile P bs))"
    "bytes_at m1 start (done @ takeWhile P bs)" "bytes_at m1 (s + length (takeWhile P bs)) (dropWhile P bs @ [0])"
proof -
  let ?zs = "takeWhile P bs"
  have w: "scan_while m P s = Some (s + length ?zs)" by (rule scan_while_text[of m s bs P]) (use assms(5,6) in simp_all)
  have d: "bytes_at m (s + length ?zs) (dropWhile P bs @ [0])" by (rule bytes_at_dropWhile[OF assms(5)])
  have c: "rd m s = Some (hd (bs @ [0]))" by (rule rd_hd[OF assms(5)])
  show ?thesis
  proof (cases "P (hd (bs @ [0]))")
    case False
    then have "?zs = []" "dropWhile P bs = bs" by (cases bs; simp)+
    then show ?thesis using that[of m] c False assms(2,5) by (simp add: copy_run_def)
  next
    case True
    have "bytes_at m s ?zs" using bytes_at_take[OF assms(5), of "length ?zs"] length_takeWhile_le[of P bs]
      by (simp add: takeWhile_eq_take[symmetric])
    note zs = this rd_bytes_at[OF this]
    have w1: "scan_while m P (s + 1) = Some (s + length ?zs)" using w c True by (simp add: scan_while.simps[of m P s])
    have "\<exists>m1. (if dst \<noteq> s then wr_bytes m dst ?zs else Some m) = Some m1 \<and> bytes_at m1 dst ?zs \<and>
        (\<forall>a. a < dst \<or> dst + length ?zs \<le> a \<longrightarrow> rd m1 a = rd m a)"
    proof (cases "dst = s")
      case True
      then show ?thesis using zs(1) by simp
    next
      case False
      have "s + length ?zs \<le> length m" using bytes_at_bound[OF d] by simp
      then have "dst + length ?zs \<le> length m" using assms(4) by simp
      then have "\<exists>m1. wr_bytes m dst ?zs = Some m1" using assms(1,3) by (simp add: wr_bytes_def)
      then obtain m1 where m1: "wr_bytes m dst ?zs = Some m1" ..
      then show ?thesis using wr_bytes_at[OF m1] False by auto
    qed
    then obtain m1 where m1: "(if dst \<noteq> s then wr_bytes m dst ?zs else Some m) = Some m1" "bytes_at m1 dst ?zs"
      "\<forall>a. a < dst \<or> dst + length ?zs \<le> a \<longrightarrow> rd m1 a = rd m a" by blast
    have "copy_run m P s dst = Some (m1, s + length ?zs, dst + length ?zs)"
      using c True w1 zs(2) m1(1) by (simp add: copy_run_def)
    moreover have "bytes_at m1 start done" using assms(2,3) m1(3) by (subst bytes_at_cong[of start "done" m1 m]) auto
    moreover have "bytes_at m1 (s + length ?zs) (dropWhile P bs @ [0])"
      using d m1(3) assms(4) by (subst bytes_at_cong[of _ _ m1 m]) auto
    ultimately show ?thesis using that[of m1] m1(2) assms(3) by simp
  qed
qed

definition decodes :: "mem \<Rightarrow> addr \<Rightarrow> u8 list \<Rightarrow> u8 list \<Rightarrow> addr \<Rightarrow> u8 list \<Rightarrow> u8 list \<Rightarrow> (mem \<times> addr \<times> addr) option \<Rightarrow> bool" where
  "decodes m start done bs s x r res =
     (\<exists>m1. res = Some (m1, s + (length bs - length r), start + length done + length x) \<and> length r \<le> length bs \<and>
        bytes_at m1 start (done @ x) \<and> bytes_at m1 (s + (length bs - length r)) (r @ [0]))"

lemma unesc_stop: "hd (bs @ [0]) \<noteq> 37 \<Longrightarrow> \<not> P (hd (bs @ [0])) \<Longrightarrow> unesc P bs = Some ([], bs)"
  by (cases bs) auto

lemma unescape_run_text:
  assumes start: "0 < start" "bytes_at m start done" "dst = start + length done" "dst \<le> s" "bytes_at m s (bs @ [0])"
    and e: "e = s + length bs" and P: "\<not> P 0" "\<not> P 37" and u: "unesc P bs = Some (x, r)"
    and IH: "\<And>m done dst s bs x. bytes_at m start done \<Longrightarrow> dst = start + length done \<Longrightarrow> dst \<le> s \<Longrightarrow>
      bytes_at m s (bs @ [0]) \<Longrightarrow> e = s + length bs \<Longrightarrow> unesc P bs = Some (x, r) \<Longrightarrow> length bs < N \<Longrightarrow>
      decodes m start done bs s x r (unescape_loop m e P s dst)"
    and N: "length bs < N \<or> hd (bs @ [0]) \<noteq> 37 \<and> length bs \<le> N"
  shows "decodes m start done bs s x r
    (case copy_run m P s dst of None \<Rightarrow> None | Some (m1, s1, dst1) \<Rightarrow>
       (case rd m1 s1 of None \<Rightarrow> None | Some c1 \<Rightarrow> if c1 = 37 then unescape_loop m1 e P s1 dst1 else Some (m1, s1, dst1)))"
proof -
  let ?zs = "takeWhile P bs" and ?ds = "dropWhile P bs"
  obtain m1 where m1: "copy_run m P s dst = Some (m1, s + length ?zs, dst + length ?zs)"
    "bytes_at m1 start (done @ ?zs)" "bytes_at m1 (s + length ?zs) (?ds @ [0])"
    by (rule copy_run_text[of start m "done" dst s bs P]) (use start P(1) in blast)+
  have len: "length ?zs + length ?ds = length bs" by (rule length_while)
  have c: "rd m1 (s + length ?zs) = Some (hd (?ds @ [0]))" by (rule rd_hd[OF m1(3)])
  have "\<forall>c\<in>set ?zs. P c \<and> c \<noteq> 37" using P(2) by (auto dest: set_takeWhileD)
  then have "unesc P bs = map_option (\<lambda>(x, y). (?zs @ x, y)) (unesc P ?ds)"
    using unesc_run[of ?zs P ?ds] by simp
  then obtain x' where x': "unesc P ?ds = Some (x', r)" "x = ?zs @ x'" using u by (cases "unesc P ?ds") auto
  show ?thesis
  proof (cases "hd (?ds @ [0]) = 37")
    case True
    have "length ?ds < N"
    proof (cases "P (hd (bs @ [0]))")
      case True
      then have "?zs \<noteq> []" using P by (cases bs) auto
      then have "0 < length ?zs" by simp
      then show ?thesis using len N by linarith
    next
      case False
      then have "?ds = bs" by (cases bs) auto
      then show ?thesis using True N by auto
    qed
    then have "decodes m1 start (done @ ?zs) ?ds (s + length ?zs) x' r (unescape_loop m1 e P (s + length ?zs) (dst + length ?zs))"
      using m1(2,3) x'(1) start(3,4) e len by (intro IH) simp_all
    moreover have "s + length ?zs + (length ?ds - length r) = s + (length bs - length r)" if "length r \<le> length ?ds"
      using that len by linarith
    moreover have "length r \<le> length bs" if "length r \<le> length ?ds" using that len by linarith
    ultimately show ?thesis using m1(1) c True x'(2) unfolding decodes_def
      by (elim exE conjE) (simp add: add.assoc)
  next
    case False
    have "\<not> P (hd (?ds @ [0]))" using hd_dropWhile_not[of P bs] P(1) by blast
    then have "x' = []" "r = ?ds" using x' unesc_stop[OF False] by auto
    moreover have "s + length ?zs = s + (length bs - length ?ds)" using len by simp
    ultimately show ?thesis using m1 c False x'(2) len start(3) unfolding decodes_def by (simp add: add.assoc)
  qed
qed

lemma unescape_loop_text:
  assumes "0 < start" and P: "\<not> P 0" "\<not> P 37"
  shows "\<And>m done dst s bs x. length bs < N \<Longrightarrow> bytes_at m start done \<Longrightarrow> dst = start + length done \<Longrightarrow> dst \<le> s \<Longrightarrow>
      bytes_at m s (bs @ [0]) \<Longrightarrow> e = s + length bs \<Longrightarrow> unesc P bs = Some (x, r) \<Longrightarrow>
      decodes m start done bs s x r (unescape_loop m e P s dst)"
proof (induction N)
  case (Suc N)
  note a = Suc.prems
  have c: "rd m s = Some (hd (bs @ [0]))" by (rule rd_hd[OF a(5)])
  have run: "decodes m start done bs s x r
    (case copy_run m P s dst of None \<Rightarrow> None | Some (m1, s1, dst1) \<Rightarrow>
       (case rd m1 s1 of None \<Rightarrow> None | Some c1 \<Rightarrow> if c1 = 37 then unescape_loop m1 e P s1 dst1 else Some (m1, s1, dst1)))"
    if "bytes_at m start done" "dst = start + length done" "dst \<le> s" "bytes_at m s (bs @ [0])" "e = s + length bs"
      "unesc P bs = Some (x, r)" "length bs < N \<or> hd (bs @ [0]) \<noteq> 37 \<and> length bs \<le> N" for m "done" dst s bs x
    by (rule unescape_run_text[OF assms(1) that(1-5) P that(6) Suc.IH that(7)]) auto
  show ?case
  proof (cases "hd (bs @ [0]) = 37")
    case False
    then show ?thesis using run[OF a(2-7)] a(1) c by (simp add: unescape_loop.simps[of m e P s dst])
  next
    case True
    then obtain p q ds x' where bs: "bs = 37 # p # q # ds" "c_isxdigit p" "c_isxdigit q" "unesc P ds = Some (x', r)"
      "x = hex_byte p q # x'"
      using a(7) by (cases bs; simp split: list.splits if_splits) auto
    have b: "bytes_at m (s + 3) (ds @ [0])" "rd m (s + 1) = Some p" "rd m (s + 2) = Some q"
      using a(5) bs(1) by (simp_all add: add.assoc numeral_eq_Suc)
    have "s + 3 \<le> length m" using bytes_at_bound[OF b(1)] by simp
    then have w: "wr m dst (hex_byte p q) = Some (m[dst := hex_byte p q])" using assms(1) a(3,4) by (simp add: wr_Some)
    have f: "rd (m[dst := hex_byte p q]) k = (if k = dst then Some (hex_byte p q) else rd m k)" for k by (rule rd_wr[OF w])
    have "bytes_at (m[dst := hex_byte p q]) (s + 3) (ds @ [0])" 
      using b(1) a(4) f by (subst bytes_at_cong[of _ _ _ m]) auto
    moreover have "bytes_at (m[dst := hex_byte p q]) start (done @ [hex_byte p q])"
      using a(2,3) f by (simp, subst bytes_at_cong[of start "done" _ m]) auto
    ultimately have "decodes (m[dst := hex_byte p q]) start (done @ [hex_byte p q]) ds (s + 3) x' r
      (case copy_run (m[dst := hex_byte p q]) P (s + 3) (dst + 1) of None \<Rightarrow> None | Some (m1, s1, dst1) \<Rightarrow>
       (case rd m1 s1 of None \<Rightarrow> None | Some c1 \<Rightarrow> if c1 = 37 then unescape_loop m1 e P s1 dst1 else Some (m1, s1, dst1)))"
      (is "decodes _ _ _ _ _ _ _ ?res")
      using a(1,3,4,6) bs(1,4) by (intro run) auto
    moreover have "unescape_loop m e P s dst = ?res"
      using c b(2,3) w bs a(6) unfolding unescape_loop.simps[of m e P s dst] by (simp add: unescape_at_def hex_byte_def)
    moreover have "s + 3 + (length ds - length r) = s + (length bs - length r)" if "length r \<le> length ds"
      using that bs(1) by simp
    ultimately show ?thesis using bs(1,5) unfolding decodes_def
      by (elim exE conjE, simp only: append_assoc append_Cons append_Nil length_append list.size) (auto simp: add.assoc)
  qed
qed simp

lemma unescape_at_end:
  assumes "bytes_at m p [37, 0, b]" "e = p + 1"
  shows "\<exists>m1. unescape_loop m e P p p = Some (m1, p + 2, p + 2)"
  using assms bytes_at_bound[OF assms(1)] unfolding unescape_loop.simps[of m e P p p]
  by (simp add: unescape_at_def wr_def rd_def split: if_splits)

lemma unesc_length: "unesc P bs = Some (x, ys) \<Longrightarrow> length x + length ys \<le> length bs"
proof (induction P bs arbitrary: x ys rule: unesc.induct)
  case (2 P c cs)
  show ?case
  proof (cases "c = 37")
    case True
    with "2.prems" obtain a b ds x' where "cs = a # b # ds" "c_isxdigit a" "c_isxdigit b" "unesc P ds = Some (x', ys)" "x = hex_byte a b # x'"
      by (auto split: list.splits if_splits)
    then show ?thesis using "2.IH"(1)[OF True] True by fastforce
  next
    case False
    show ?thesis
    proof (cases "P c")
      case True
      with "2.prems" False obtain x' where "unesc P cs = Some (x', ys)" "x = c # x'" by auto
      then show ?thesis using "2.IH"(2)[OF False True] by simp
    qed (use "2.prems" False in simp)
  qed
qed simp

lemma scan_get_unescape_core:
  assumes r: "rest m sc bs" and b: "0 < curptr sc" and o: "plain_options sc" and P: "\<not> cis_match spec 0" "\<not> cis_match spec 37"
    and u: "unesc (cis_match spec) bs = Some (x, ys)"
  shows "if bs \<noteq> [] \<and> (cis_match spec (hd bs) \<or> hd bs = 37)
    then \<exists>m1 sc'. scan_get_unescape m sc spec = Some (m1, sc', Some (tok sc x)) \<and> bytes_at m1 (curptr sc) x \<and>
      rest m1 sc' (after sc ys) \<and> same_but_pos sc sc' \<and> line sc' = line sc + eols_after sc ys
    else scan_get_unescape m sc spec = Some (m, scan_syntax_err sc, None)"
proof (cases "bs \<noteq> [] \<and> (cis_match spec (hd bs) \<or> hd bs = 37)")
  case False
  then have "\<not> cis_match spec (hd (bs @ [0]))" "hd (bs @ [0]) \<noteq> 37" using P by (cases bs; auto)+
  then show ?thesis using False P rest_rd[OF r] by (auto simp: scan_get_unescape_def)
next
  case True
  have "decodes m (curptr sc) [] bs (curptr sc) x ys (unescape_loop m (sc_end sc) (cis_match spec) (curptr sc) (curptr sc))"
    by (rule unescape_loop_text[OF b P lessI _ _ _ _ _ u]) (use r in \<open>simp_all add: rest_def\<close>)
  then obtain m1 where m1: "unescape_loop m (sc_end sc) (cis_match spec) (curptr sc) (curptr sc) =
      Some (m1, curptr sc + (length bs - length ys), curptr sc + length x)" "length ys \<le> length bs"
    "bytes_at m1 (curptr sc) x" "bytes_at m1 (curptr sc + (length bs - length ys)) (ys @ [0])"
    by (auto simp: decodes_def)
  let ?sc = "sc\<lparr>curptr := curptr sc + (length bs - length ys)\<rparr>"
  have r': "rest m1 ?sc ([] @ ys)" using m1(2,4) r by (simp add: rest_def)
  have "plain_options ?sc" using o by (simp add: plain_options_def has_option_def)
  then obtain sc' where a: "advance_to m1 ?sc (curptr ?sc + length ([] :: u8 list)) = Some sc'" "takes m1 ?sc [] ys sc'"
    by (rule advance_to_takes[OF r'])
  have "advance_to m1 sc (curptr sc + (length bs - length ys)) = Some sc'" using a(1) by (simp add: advance_to_def)
  moreover have "c_strset3 (curptr sc) (curptr sc + length x) = tok sc x"
    using unesc_length[OF u] r by (auto simp: c_strset3_def tok_def rest_def s32_id)
  moreover have "cis_match spec (hd (bs @ [0])) \<or> hd (bs @ [0]) = 37" using True by (cases bs) auto
  ultimately have "scan_get_unescape m sc spec = Some (m1, sc', Some (tok sc x))"
    using m1(1) P rest_rd[OF r] by (simp add: scan_get_unescape_def)
  moreover have "skipped ?sc = skipped sc" by simp
  then have "rest m1 sc' (after sc ys) \<and> same_but_pos sc sc' \<and> line sc' = line sc + eols_after sc ys"
    using a(2) by (cases "skip_ws sc = 0") (simp_all add: takes_def same_but_pos_def after_def eols_after_def)
  ultimately show ?thesis using True m1(3) by auto
qed

subsection \<open>The sets of a table\<close>

text \<open>The abstract table: for each number the set of characters in it.\<close>

definition sets :: "32 word list \<Rightarrow> nat \<Rightarrow> nat set" where
  "sets b j = {c. c < length b \<and> CIS_ISSET (b, j) c}"

lemma isset_bit: "CIS_ISSET (b, j) c \<longleftrightarrow> bit (b ! c) j"
  by (simp add: CIS_ISSET_def bit_at_def push_bit_eq_mult and_exp_eq_0_iff_not_bit)

lemma bit_bit_at: "bit (bit_at i) j \<longleftrightarrow> j = i \<and> i < 32"
  by (auto simp: bit_at_def bit_exp_iff)

lemma CIS_SET_sets:
  assumes "c < length b" "i < 32"
  shows "\<exists>b1. CIS_SET b i (int c) = Some b1 \<and> length b1 = length b \<and> sets b1 = (sets b)(i := insert c (sets b i))"
  using assms by (auto simp: CIS_SET_def sets_def isset_bit nth_list_update bit_or_iff bit_bit_at fun_eq_iff)

lemma CIS_CLR_sets:
  assumes "c < length b" "i < 32"
  shows "\<exists>b1. CIS_CLR b i (int c) = Some b1 \<and> length b1 = length b \<and> sets b1 = (sets b)(i := sets b i - {c})"
proof -
  have "bit (x AND NOT (bit_at i)) j \<longleftrightarrow> bit x j \<and> j \<noteq> i" for x :: "32 word" and j
    using assms(2) bit_imp_le_length[of x j] by (auto simp: bit_and_iff bit_not_iff bit_bit_at)
  then show ?thesis using assms by (auto simp: CIS_CLR_def sets_def isset_bit nth_list_update fun_eq_iff)
qed

lemma set_range_sets:
  assumes "i < 32" "e \<le> length b" "s \<le> e"
  shows "\<exists>b1. set_range b i (int s) (int e) = Some b1 \<and> length b1 = length b \<and> sets b1 = (sets b)(i := sets b i \<union> {s..<e})"
  using assms(2,3)
proof (induction "e - s" arbitrary: s b)
  case 0
  then show ?case by (simp add: set_range.simps[of b])
next
  case (Suc n)
  then have s: "s < length b" and n: "n = e - Suc s" "Suc s \<le> e" by linarith+
  then obtain b1 where b1: "CIS_SET b i (int s) = Some b1" "length b1 = length b" "sets b1 = (sets b)(i := insert s (sets b i))"
    using CIS_SET_sets[OF s assms(1)] by auto
  obtain b2 where "set_range b1 i (int (Suc s)) (int e) = Some b2" "length b2 = length b1" 
    "sets b2 = (sets b1)(i := sets b1 i \<union> {Suc s..<e})"
    using Suc.hyps(1)[OF n(1) _ n(2), of b1] Suc.prems b1(2) by auto
  moreover have "insert s (A \<union> {Suc s..<e}) = A \<union> {s..<e}" for A using Suc.hyps(2) by auto
  ultimately show ?case using b1 Suc.hyps(2) by (simp add: set_range.simps[of b] add.commute)
qed

lemma clr_range_sets:
  assumes "i < 32" "e \<le> length b" "s \<le> e"
  shows "\<exists>b1. clr_range b i (int s) (int e) = Some b1 \<and> length b1 = length b \<and> sets b1 = (sets b)(i := sets b i - {s..<e})"
  using assms(2,3)
proof (induction "e - s" arbitrary: s b)
  case 0
  then show ?case by (simp add: clr_range.simps[of b])
next
  case (Suc n)
  then have s: "s < length b" and n: "n = e - Suc s" "Suc s \<le> e" by linarith+
  then obtain b1 where b1: "CIS_CLR b i (int s) = Some b1" "length b1 = length b" "sets b1 = (sets b)(i := sets b i - {s})"
    using CIS_CLR_sets[OF s assms(1)] by auto
  obtain b2 where "clr_range b1 i (int (Suc s)) (int e) = Some b2" "length b2 = length b1" 
    "sets b2 = (sets b1)(i := sets b1 i - {Suc s..<e})"
    using Suc.hyps(1)[OF n(1) _ n(2), of b1] Suc.prems b1(2) by auto
  moreover have "A - {s} - {Suc s..<e} = A - {s..<e}" for A using Suc.hyps(2) by auto
  ultimately show ?case using b1 Suc.hyps(2) by (simp add: clr_range.simps[of b] add.commute)
qed

lemma set_str_sets:
  assumes "i < 32" "length b = 256"
  shows "\<exists>b1. set_str b i cs = Some b1 \<and> length b1 = 256 \<and> sets b1 = (sets b)(i := sets b i \<union> unat ` set (takeWhile (\<lambda>c. c \<noteq> 0) cs))"
  using assms(2)
proof (induction cs arbitrary: b)
  case (Cons c cs)
  have "unat c < 256" using unsigned_less[of c] by simp
  then obtain b1 where "CIS_SET b i (int (unat c)) = Some b1" "length b1 = 256" "sets b1 = (sets b)(i := insert (unat c) (sets b i))"
    using CIS_SET_sets[of "unat c" b i] assms(1) Cons.prems by auto
  then show ?case using Cons.IH[of b1] Cons.prems by (cases "c = 0") (auto simp: fun_eq_iff)
qed simp

lemma clr_str_sets:
  assumes "i < 32" "length b = 256"
  shows "\<exists>b1. clr_str b i cs = Some b1 \<and> length b1 = 256 \<and> sets b1 = (sets b)(i := sets b i - unat ` set (takeWhile (\<lambda>c. c \<noteq> 0) cs))"
  using assms(2)
proof (induction cs arbitrary: b)
  case (Cons c cs)
  have "unat c < 256" using unsigned_less[of c] by simp
  then obtain b1 where "CIS_CLR b i (int (unat c)) = Some b1" "length b1 = 256" "sets b1 = (sets b)(i := sets b i - {unat c})"
    using CIS_CLR_sets[of "unat c" b i] assms(1) Cons.prems by auto
  moreover have "A - {x} - B = A - insert x B" for A B and x :: nat by auto
  ultimately show ?case using Cons.IH[of b1] Cons.prems by (cases "c = 0") (auto simp: fun_eq_iff)
qed simp

text \<open>The loops over the whole table: character \<open>c\<close> gets the value that \<open>f\<close> says.\<close>

lemma CIS_put_sets:
  assumes "c < length b" "i < 32"
  shows "\<exists>b1. (if v then CIS_SET b i (int c) else CIS_CLR b i (int c)) = Some b1 \<and> length b1 = length b \<and>
    sets b1 = (sets b)(i := {x \<in> sets b i. x \<noteq> c} \<union> (if v then {c} else {}))"
proof -
  have "insert c A = {x \<in> A. x \<noteq> c} \<union> {c}" "A - {c} = {x \<in> A. x \<noteq> c}" for A :: "nat set" by auto
  then show ?thesis using CIS_SET_sets[OF assms] CIS_CLR_sets[OF assms] by (cases v) simp_all
qed

lemma CIS_or_sets:
  assumes "c < length b" "i < 32"
  shows "\<exists>b1. (if v then CIS_SET b i (int c) else Some b) = Some b1 \<and> length b1 = length b \<and>
    sets b1 = (sets b)(i := sets b i \<union> (if v then {c} else {}))"
  using CIS_SET_sets[OF assms] by (cases v) (simp_all only: if_True if_False Un_empty_right Un_insert_right fun_upd_triv, auto)

lemma isset_sets: "c < length b \<Longrightarrow> CIS_ISSET (b, j) c \<longleftrightarrow> c \<in> sets b j"
  by (simp add: sets_def)

lemma dup_loop_sets:
  assumes "new < 32" "new \<noteq> old" "k + n = length b"
  shows "\<exists>b1. dup_loop b new old k n = Some b1 \<and> length b1 = length b \<and>
    sets b1 = (sets b)(new := {x \<in> sets b new. x < k} \<union> {x \<in> sets b old. k \<le> x})"
  using assms(3)
proof (induction n arbitrary: b k)
  case 0
  then have "{x \<in> sets b new. x < k} \<union> {x \<in> sets b old. k \<le> x} = sets b new" by (auto simp: sets_def)
  then show ?case by (simp add: fun_eq_iff)
next
  case (Suc n)
  have k: "k < length b" using Suc.prems by simp
  obtain b1 where b1: "(if CIS_ISSET (b, old) k then CIS_SET b new (int k) else CIS_CLR b new (int k)) = Some b1"
    "length b1 = length b" "sets b1 = (sets b)(new := {x \<in> sets b new. x \<noteq> k} \<union> (if CIS_ISSET (b, old) k then {k} else {}))"
    using CIS_put_sets[OF k assms(1), of "CIS_ISSET (b, old) k"] by blast
  have "k + 1 + n = length b1" using Suc.prems b1(2) by simp
  from Suc.IH[OF this] obtain b2 where "dup_loop b1 new old (k + 1) n = Some b2" "length b2 = length b"
    "sets b2 = (sets b1)(new := {x \<in> sets b1 new. x < k + 1} \<union> {x \<in> sets b1 old. k + 1 \<le> x})" unfolding b1(2) by blast
  moreover have "{x \<in> sets b1 new. x < k + 1} \<union> {x \<in> sets b1 old. k + 1 \<le> x} =
      {x \<in> sets b new. x < k} \<union> {x \<in> sets b old. k \<le> x}"
    unfolding b1(3) using assms(2) isset_sets[OF k, of old] by (auto simp: not_less_eq_eq le_Suc_eq less_Suc_eq Suc_le_eq order_le_less split: if_splits)
  ultimately have "sets b2 = (sets b1)(new := {x \<in> sets b new. x < k} \<union> {x \<in> sets b old. k \<le> x})"
    "dup_loop b new old k (Suc n) = Some b2" "length b2 = length b" using b1(1) by simp_all
  moreover have "(sets b1)(new := A) = (sets b)(new := A)" for A unfolding b1(3) by (rule fun_upd_upd)
  ultimately show ?case by metis
qed

lemma invert_loop_sets:
  assumes "i < 32" "k + n = length b"
  shows "\<exists>b1. invert_loop b i k n = Some b1 \<and> length b1 = length b \<and>
    sets b1 = (sets b)(i := {x \<in> sets b i. x < k} \<union> ({k..<length b} - sets b i))"
  using assms(2)
proof (induction n arbitrary: b k)
  case 0
  then have "{x \<in> sets b i. x < k} \<union> ({k..<length b} - sets b i) = sets b i" by (auto simp: sets_def)
  then show ?case by (simp add: fun_eq_iff)
next
  case (Suc n)
  have k: "k < length b" using Suc.prems by simp
  obtain b1 where b1: "(if \<not> CIS_ISSET (b, i) k then CIS_SET b i (int k) else CIS_CLR b i (int k)) = Some b1"
    "length b1 = length b" "sets b1 = (sets b)(i := {x \<in> sets b i. x \<noteq> k} \<union> (if \<not> CIS_ISSET (b, i) k then {k} else {}))"
    using CIS_put_sets[OF k assms(1), of "\<not> CIS_ISSET (b, i) k"] by blast
  have "k + 1 + n = length b1" using Suc.prems b1(2) by simp
  from Suc.IH[OF this] obtain b2 where "invert_loop b1 i (k + 1) n = Some b2" "length b2 = length b"
    "sets b2 = (sets b1)(i := {x \<in> sets b1 i. x < k + 1} \<union> ({k + 1..<length b} - sets b1 i))" unfolding b1(2) by blast
  moreover have "{x \<in> sets b1 i. x < k + 1} \<union> ({k + 1..<length b} - sets b1 i) =
      {x \<in> sets b i. x < k} \<union> ({k..<length b} - sets b i)"
    unfolding b1(3) using isset_sets[OF k, of i] k by (auto simp: less_Suc_eq Suc_le_eq order_le_less split: if_splits)
  ultimately show ?case using b1 by (simp add: fun_eq_iff split: if_splits)
qed

lemma add_loop_sets:
  assumes "i < 32" "k + n = length b" "length (fst rhs) = length b"
  shows "\<exists>b1. add_loop b i rhs k n = Some b1 \<and> length b1 = length b \<and>
    sets b1 = (sets b)(i := sets b i \<union> {x \<in> sets (fst rhs) (snd rhs). k \<le> x})"
  using assms(2,3)
proof (induction n arbitrary: b k)
  case 0
  then have "{x \<in> sets (fst rhs) (snd rhs). k \<le> x} = {}" by (auto simp: sets_def)
  then have "sets b i \<union> {x \<in> sets (fst rhs) (snd rhs). k \<le> x} = sets b i" by (simp only: Un_empty_right)
  then have "(sets b)(i := sets b i \<union> {x \<in> sets (fst rhs) (snd rhs). k \<le> x}) = sets b" by (simp only: fun_upd_triv)
  then show ?case by (simp only: add_loop.simps) blast
next
  case (Suc n)
  have k: "k < length b" "k < length (fst rhs)" using Suc.prems by simp_all
  obtain b1 where b1: "(if CIS_ISSET rhs k then CIS_SET b i (int k) else Some b) = Some b1" "length b1 = length b"
    "sets b1 = (sets b)(i := sets b i \<union> (if CIS_ISSET rhs k then {k} else {}))"
    using CIS_or_sets[OF k(1) assms(1), of "CIS_ISSET rhs k"] by blast
  have "k + 1 + n = length b1" "length (fst rhs) = length b1" using Suc.prems b1(2) by simp_all
  from Suc.IH[OF this] obtain b2 where "add_loop b1 i rhs (k + 1) n = Some b2" "length b2 = length b"
    "sets b2 = (sets b1)(i := sets b1 i \<union> {x \<in> sets (fst rhs) (snd rhs). k + 1 \<le> x})" unfolding b1(2) by blast
  moreover have "sets b1 i \<union> {x \<in> sets (fst rhs) (snd rhs). k + 1 \<le> x} = sets b i \<union> {x \<in> sets (fst rhs) (snd rhs). k \<le> x}"
  proof -
    have "k \<le> x \<longleftrightarrow> x = k \<or> k + 1 \<le> x" for x by auto
    then show ?thesis unfolding b1(3) using isset_sets[OF k(2), of "snd rhs"] by (cases "CIS_ISSET rhs k") auto
  qed
  moreover have "(sets b1)(i := A) = (sets b)(i := A)" for A unfolding b1(3) by (rule fun_upd_upd)
  moreover have "add_loop b i rhs k (Suc n) = add_loop b1 i rhs (k + 1) n" using b1(1) by simp
  ultimately show ?case by metis
qed

lemma find_unused_spec:
  "i \<le> find_unused u i n \<and> find_unused u i n \<le> i + n \<and> (\<forall>j. i \<le> j \<and> j < find_unused u i n \<longrightarrow> bit u j) \<and>
    (find_unused u i n < i + n \<longrightarrow> \<not> bit u (find_unused u i n))"
proof (induction n arbitrary: i)
  case (Suc n)
  have "u AND bit_at i = 0 \<longleftrightarrow> \<not> bit u i" by (simp add: bit_at_def push_bit_eq_mult and_exp_eq_0_iff_not_bit)
  then have e: "find_unused u i (Suc n) = (if bit u i then find_unused u (i + 1) n else i)" by simp
  have s: "\<forall>j. i \<le> j \<and> j < k \<longrightarrow> bit u j" if "bit u i" "\<forall>j. i + 1 \<le> j \<and> j < k \<longrightarrow> bit u j" for k
    using that by (metis Suc_eq_plus1 Suc_leI le_neq_implies_less)
  show ?case
  proof (cases "bit u i")
    case True
    then show ?thesis using Suc.IH[of "i + 1"] s[of "find_unused u (i + 1) n"] unfolding e by simp
  next
    case False
    then show ?thesis unfolding e by auto
  qed
qed auto

text \<open>The numbers in use.\<close>

definition used :: "cis_buf_t \<Rightarrow> nat set" where
  "used cb = {j. bit (use_mask cb) j}"

lemma cis_init_used:
  "case cis_init cb of (cb1, i, st) \<Rightarrow> cis_buf cb1 = cis_buf cb \<and>
     (if {0..<32} \<subseteq> used cb then st = EO_TOOMANY \<and> cb1 = cb
      else st = EO_SUCCESS \<and> i < 32 \<and> i \<notin> used cb \<and> used cb1 = insert i (used cb))"
proof -
  let ?i = "find_unused (use_mask cb) 0 32"
  note f = find_unused_spec[of 0 "use_mask cb" 32]
  show ?thesis
  proof (cases "?i < 32")
    case True
    then have "?i \<notin> used cb" using f by (simp add: used_def)
    then show ?thesis using True f
      by (auto simp: cis_init_def CIS_MAX_INDEX_def Let_def used_def bit_or_iff bit_bit_at)
  next
    case False
    then have "{0..<32} \<subseteq> used cb" using f by (auto simp: used_def)
    then show ?thesis using False by (simp add: cis_init_def CIS_MAX_INDEX_def Let_def)
  qed
qed

end
