(* ===== verification/Scanner_Facts.thy ===== *)
theory Scanner_Facts
  imports Scanner
begin

text \<open>
  The properties of the scanner (src/oslib/src/scanner.c): the tokens it takes from a text, the quoted and the escaped
  strings, and the character sets as sets of numbers below 256.
\<close>

section \<open>Character sets\<close>

text \<open>\<open>changes cb i A r\<close>: the result \<open>r\<close> is the table \<open>cb\<close> with set \<open>i\<close> now \<open>A\<close>, and nothing else changed.\<close>

definition changes :: "cis_buf_t \<Rightarrow> nat \<Rightarrow> nat set \<Rightarrow> cis_buf_t option \<Rightarrow> bool" where
  "changes cb i A r =
     (\<exists>cb1. r = Some cb1 \<and> length (cis_buf cb1) = 256 \<and> used cb1 = used cb \<and> sets (cis_buf cb1) = (sets (cis_buf cb))(i := A))"

lemma changes_upd:
  "\<exists>b1. f (cis_buf cb) = Some b1 \<and> length b1 = 256 \<and> sets b1 = (sets (cis_buf cb))(i := A) \<Longrightarrow> changes cb i A (upd_cis cb f)"
  by (auto simp: changes_def upd_cis_def used_def)

definition str_set :: "u8 list \<Rightarrow> nat set" where
  "str_set cs = unat ` set (takeWhile (\<lambda>c. c \<noteq> 0) cs)"

lemma cis_add_range_core:
  "length (cis_buf cb) = 256 \<Longrightarrow> i < 32 \<Longrightarrow> 0 < s \<Longrightarrow> s \<le> e \<Longrightarrow> e \<le> 256 \<Longrightarrow>
     changes cb i (sets (cis_buf cb) i \<union> {s..<e}) (cis_add_range cb i (int s) (int e))"
  using set_range_sets[of i e "cis_buf cb" s] by (simp add: cis_add_range_def changes_upd)

lemma cis_del_range_core:
  "length (cis_buf cb) = 256 \<Longrightarrow> i < 32 \<Longrightarrow> s \<le> e \<Longrightarrow> e \<le> 256 \<Longrightarrow>
     changes cb i (sets (cis_buf cb) i - {s..<e}) (cis_del_range cb i (int s) (int e))"
  using clr_range_sets[of i e "cis_buf cb" s] by (simp add: cis_del_range_def changes_upd)

lemma cis_add_str_core:
  "length (cis_buf cb) = 256 \<Longrightarrow> i < 32 \<Longrightarrow> changes cb i (sets (cis_buf cb) i \<union> str_set cs) (cis_add_str cb i cs)"
  using set_str_sets[of i "cis_buf cb" cs] by (simp add: cis_add_str_def changes_upd str_set_def)

lemma cis_del_str_core:
  "length (cis_buf cb) = 256 \<Longrightarrow> i < 32 \<Longrightarrow> changes cb i (sets (cis_buf cb) i - str_set cs) (cis_del_str cb i cs)"
  using clr_str_sets[of i "cis_buf cb" cs] by (simp add: cis_del_str_def changes_upd str_set_def)

lemma cis_add_cis_core:
  "length (cis_buf cb) = 256 \<Longrightarrow> i < 32 \<Longrightarrow> length b = 256 \<Longrightarrow>
     changes cb i (sets (cis_buf cb) i \<union> sets b j) (cis_add_cis cb i (b, j))"
  using add_loop_sets[of i 0 256 "cis_buf cb" "(b, j)"] by (simp add: cis_add_cis_def changes_upd)

lemma cis_invert_core:
  assumes "length (cis_buf cb) = 256" "i < 32"
  shows "changes cb i ((sets (cis_buf cb) i \<inter> {0}) \<union> ({1..<256} - sets (cis_buf cb) i)) (cis_invert cb i)"
proof -
  have "{x \<in> A. x < 1} = A \<inter> {0}" for A :: "nat set" by auto
  then show ?thesis using invert_loop_sets[of i 1 255 "cis_buf cb"] assms by (simp add: cis_invert_def changes_upd)
qed

text \<open>C28: the character sets of one table are independent sets: adding and removing a range or a string, adding
another set and inverting compute the union, the difference and the complement on their own set (the complement leaves
the character 0 alone), always succeed within the table, and change no other set of the table.\<close>

theorem cis_operations_are_set_operations:
  assumes "length (cis_buf cb) = 256" "i < 32" "0 < s" "s \<le> e" "e \<le> 256" "length b = 256"
  shows "changes cb i (sets (cis_buf cb) i \<union> {s..<e}) (cis_add_range cb i (int s) (int e)) \<and>
    changes cb i (sets (cis_buf cb) i - {s..<e}) (cis_del_range cb i (int s) (int e)) \<and>
    changes cb i (sets (cis_buf cb) i \<union> str_set cs) (cis_add_str cb i cs) \<and>
    changes cb i (sets (cis_buf cb) i - str_set cs) (cis_del_str cb i cs) \<and>
    changes cb i (sets (cis_buf cb) i \<union> sets b j) (cis_add_cis cb i (b, j)) \<and>
    changes cb i ((sets (cis_buf cb) i \<inter> {0}) \<union> ({1..<256} - sets (cis_buf cb) i)) (cis_invert cb i)"
  using assms by (intro conjI cis_add_range_core cis_del_range_core cis_add_str_core cis_del_str_core cis_add_cis_core cis_invert_core)

lemma cis_operations_are_set_operations_witness:
  "changes cis_buf_init 3 (sets (cis_buf cis_buf_init) 3 \<union> {48..<58}) (cis_add_range cis_buf_init 3 (int 48) (int 58)) \<and>
   changes cis_buf_init 3 (sets (cis_buf cis_buf_init) 3 \<union> str_set [65, 66]) (cis_add_str cis_buf_init 3 [65, 66])"
  using cis_operations_are_set_operations[of cis_buf_init 3 48 58 "cis_buf cis_buf_init" "[65, 66]"]
  by (simp add: cis_buf_init_def)

lemma dup_core:
  assumes "length (cis_buf cb) = 256" "old \<in> used cb"
  shows "if {0..<32} \<subseteq> used cb then \<exists>i. cis_dup cb old = Some (cb, i, EO_TOOMANY)
    else \<exists>cb1 i. cis_dup cb old = Some (cb1, i, EO_SUCCESS) \<and> i < 32 \<and> i \<notin> used cb \<and> used cb1 = insert i (used cb) \<and>
      sets (cis_buf cb1) = (sets (cis_buf cb))(i := sets (cis_buf cb) old)"
proof -
  obtain cb1 i st where c: "cis_init cb = (cb1, i, st)" by (cases "cis_init cb") auto
  note u = cis_init_used[of cb, unfolded c prod.case]
  show ?thesis
  proof (cases "{0..<32} \<subseteq> used cb")
    case True
    then show ?thesis using u c by (simp add: cis_dup_def EO_TOOMANY_def EO_SUCCESS_def)
  next
    case False
    then have i: "i < 32" "i \<notin> used cb" "st = EO_SUCCESS" "used cb1 = insert i (used cb)" "cis_buf cb1 = cis_buf cb" using u by auto
    have "i \<noteq> old" using i(2) assms(2) by auto
    then obtain b1 where "dup_loop (cis_buf cb) i old 0 256 = Some b1" "sets b1 = (sets (cis_buf cb))(i := sets (cis_buf cb) old)"
      using dup_loop_sets[OF i(1), of old 0 256 "cis_buf cb"] assms(1) by auto
    then show ?thesis using False i c by (auto simp: cis_dup_def used_def)
  qed
qed

text \<open>Cis_dup gives a fresh number, never one in use, holding a copy of the old set and leaving every other set as it
was; with all 32 numbers in use it reports EO_TOOMANY and changes nothing.\<close>

theorem cis_dup_is_fresh_copy:
  assumes "length (cis_buf cb) = 256" "old \<in> used cb"
  shows "if {0..<32} \<subseteq> used cb then \<exists>i. cis_dup cb old = Some (cb, i, EO_TOOMANY)
    else \<exists>cb1 i. cis_dup cb old = Some (cb1, i, EO_SUCCESS) \<and> i < 32 \<and> i \<notin> used cb \<and> used cb1 = insert i (used cb) \<and>
      sets (cis_buf cb1) = (sets (cis_buf cb))(i := sets (cis_buf cb) old)"
  by (rule dup_core[OF assms])

lemma cis_dup_is_fresh_copy_witness:
  "\<exists>cb1 i. cis_dup (fst (cis_init cis_buf_init)) 0 = Some (cb1, i, EO_SUCCESS) \<and> i < 32"
proof -
  have m: "use_mask (fst (cis_init cis_buf_init)) = 1" "cis_buf (fst (cis_init cis_buf_init)) = replicate 256 0" by code_simp+
  then have "0 \<in> used (fst (cis_init cis_buf_init))" "1 \<notin> used (fst (cis_init cis_buf_init))" by (simp_all add: used_def bit_1_iff)
  moreover have "1 \<in> {0..<32 :: nat}" by simp
  then have "\<not> {0..<32} \<subseteq> used (fst (cis_init cis_buf_init))" using calculation(2) by blast
  ultimately show ?thesis using cis_dup_is_fresh_copy[of "fst (cis_init cis_buf_init)" 0] m(2) by auto
qed

section \<open>Tokens\<close>

text \<open>A text for the witnesses: \<open>ab\<close>, a blank, a new line and \<open>"c"\<close>; a set that holds \<open>a\<close> and \<open>b\<close>.\<close>

definition ex_mem :: mem where "ex_mem = [0, 97, 98, 32, 10, 34, 99, 34, 0]"
definition ex_cis :: cis_t where "ex_cis = (replicate 97 0 @ [1, 1] @ replicate 157 0, 0)"

definition ex_scanner :: "nat \<Rightarrow> nat \<Rightarrow> scanner_t" where
  "ex_scanner pos opts = \<lparr>sc_begin = 1, sc_end = 8, curptr = pos, line = 1, start_line = 1, skip_ws = opts, errs = 0\<rparr>"

lemma ex_facts:
  "rest ex_mem (ex_scanner 1 4) [97, 98, 32, 10, 34, 99, 34]" "rest ex_mem (ex_scanner 5 4) [34, 99, 34]"
  "plain_options (ex_scanner p 4)"
  "\<not> cis_match ex_cis 0" "\<not> cis_match ex_cis 37" "cis_match ex_cis 97" "cis_match ex_cis 98" "\<not> cis_match ex_cis 32"
  by (simp_all add: rest_def ex_mem_def ex_scanner_def ex_cis_def rd_def plain_options_def has_option_def
      cis_match_def CIS_ISSET_def bit_at_def SCAN_AUTOSKIP_WS_HEADER_def SCAN_AUTOSKIP_NEWLINE_def nth_append)

text \<open>C29: on a text that does not use the header mode, scan_get takes exactly the longest run of characters of the set as
its token, moves behind it and, when blanks are skipped, behind the blanks (and new lines, each counted once in the line
number, a CR LF pair as one); when the next character is not in the set it reports a syntax error and does not move.\<close>

theorem scan_get_takes_token:
  assumes "rest m sc bs" "plain_options sc" "\<not> cis_match spec 0"
  shows "if bs \<noteq> [] \<and> cis_match spec (hd bs)
    then \<exists>sc'. scan_get m sc spec = Some (sc', Some (tok sc (takeWhile (cis_match spec) bs))) \<and>
      takes m sc (takeWhile (cis_match spec) bs) (dropWhile (cis_match spec) bs) sc'
    else scan_get m sc spec = Some (scan_syntax_err sc, None)"
  by (rule scan_get_core[OF assms])

lemma scan_get_takes_token_witness:
  "\<exists>sc'. scan_get ex_mem (ex_scanner 1 4) ex_cis = Some (sc', Some \<lparr>ptr = 1, slen = 2\<rparr>) \<and>
    rest ex_mem sc' [34, 99, 34] \<and> line sc' = 2"
proof -
  have o: "skipped (ex_scanner 1 4) 32" "skipped (ex_scanner 1 4) 10" "\<not> skipped (ex_scanner 1 4) 34"
    by (simp_all add: skipped_def SCAN_IS_SPACE_def SCAN_IS_NEWLINE_def has_option_def SCAN_AUTOSKIP_NEWLINE_def ex_scanner_def)
  show ?thesis using scan_get_takes_token[OF ex_facts(1,3,4)] ex_facts(6,7,8) o
    by (auto simp: takes_def after_def eols_after_def tok_def ex_scanner_def)
qed

text \<open>C30: scan_get_quote with one kind of quotes takes, quotes included, the text up to the first closing quote in
the same line that is not escaped by an odd run of backslashes, exactly when the text starts with the opening quote and such a
closing quote exists; otherwise it reports a syntax error and does not move. The backwards count of backslashes
in the code thus decides like the forward reading of the reference.\<close>

theorem scan_get_quote_closes:
  assumes "rest m sc bs" "plain_options sc" "sc_begin sc \<le> curptr sc"
    "bq \<noteq> 0" "bq \<noteq> 92" "eq \<noteq> 0" "eq \<noteq> 10" "eq \<noteq> 92"
  shows "case (if bs \<noteq> [] \<and> hd bs = bq then close_quote eq False (tl bs) else None) of
      None \<Rightarrow> scan_get_quote m sc bq eq = Some (scan_syntax_err sc, None)
    | Some k \<Rightarrow> \<exists>sc'. scan_get_quote m sc bq eq = Some (sc', Some (tok sc (take (k + 2) bs))) \<and> bs ! (k + 1) = eq \<and>
        k + 2 \<le> length bs \<and> takes m sc (take (k + 2) bs) (drop (k + 2) bs) sc'"
  by (rule scan_get_quote_core[OF assms])

lemma scan_get_quote_closes_witness:
  "\<exists>sc'. scan_get_quote ex_mem (ex_scanner 5 4) 34 34 = Some (sc', Some \<lparr>ptr = 5, slen = 3\<rparr>) \<and> rest ex_mem sc' []"
  using scan_get_quote_closes[OF ex_facts(2,3), of 34 34]
  by (auto simp: ex_scanner_def tok_def takes_def after_def split: if_splits)

section \<open>Escapes\<close>

text \<open>The encoder the escapes are read back from: two hexadecimal digits behind a percent sign for what is not plain.\<close>

definition hex_digit :: "nat \<Rightarrow> u8" where
  "hex_digit n = of_nat (if n < 10 then 48 + n else 55 + n)"

fun escape :: "(u8 \<Rightarrow> bool) \<Rightarrow> u8 list \<Rightarrow> u8 list" where
  "escape P [] = []"
| "escape P (c # cs) =
     (if P c then c # escape P cs else 37 # hex_digit (unat c div 16) # hex_digit (unat c mod 16) # escape P cs)"

lemma hex_digit_facts: "n < 16 \<Longrightarrow> c_isxdigit (hex_digit n) \<and> c_hex_digit_to_val (hex_digit n) = n"
proof -
  assume "n < 16"
  then have "n \<in> set [0, 1, 2, 3, 4, 5, 6, 7, 8, 9, 10, 11, 12, 13, 14, 15]" by (auto simp: numeral_eq_Suc less_Suc_eq)
  then show ?thesis unfolding list.set insert_iff empty_iff
    by (elim disjE) (simp_all add: hex_digit_def c_isxdigit_def c_isdigit_def c_tolower_def c_hex_digit_to_val_def sub32_def u32_def)
qed

lemma nibble_hi: "unat (c :: u8) div 16 < 16"
  using unsigned_less[where 'a = nat, of c] by (simp add: less_mult_imp_div_less)

lemma hex_byte_digits: "hex_byte (hex_digit (unat c div 16)) (hex_digit (unat c mod 16)) = c"
proof -
  have "unat c div 16 < 16" by (rule nibble_hi)
  then show ?thesis using hex_digit_facts[of "unat c div 16"] hex_digit_facts[of "unat c mod 16"]
    by (simp add: hex_byte_def mult.commute del: of_nat_add of_nat_mult)
qed

lemma unesc_escape:
  assumes "\<not> P 37" "zs = [] \<or> \<not> P (hd zs) \<and> hd zs \<noteq> 37"
  shows "unesc P (escape P xs @ zs) = Some (xs, zs)"
proof (induction xs)
  case Nil
  then show ?case using assms(2) by (cases zs) auto
next
  case (Cons c cs)
  have "unat c div 16 < 16" by (rule nibble_hi)
  then show ?case using Cons.IH hex_digit_facts[of "unat c div 16"] hex_digit_facts[of "unat c mod 16"] hex_byte_digits[of c] assms(1)
    by auto
qed

text \<open>C31: reading back an escaped text: whatever bytes a token holds, scan_get_unescape on its percent-escaped form returns a
token that holds the original bytes at the place of the token, decoded in place, and leaves the text behind the
token and its blanks as the rest.\<close>

theorem scan_get_unescape_roundtrip:
  assumes "rest m sc (escape (cis_match spec) xs @ zs)" "0 < curptr sc" "plain_options sc" "xs \<noteq> []"
    "\<not> cis_match spec 0" "\<not> cis_match spec 37" "zs = [] \<or> \<not> cis_match spec (hd zs) \<and> hd zs \<noteq> 37"
  shows "\<exists>m1 sc'. scan_get_unescape m sc spec = Some (m1, sc', Some (tok sc xs)) \<and> bytes_at m1 (curptr sc) xs \<and>
    rest m1 sc' (after sc zs) \<and> same_but_pos sc sc' \<and> line sc' = line sc + eols_after sc zs"
proof -
  have "escape (cis_match spec) xs @ zs \<noteq> []" "cis_match spec (hd (escape (cis_match spec) xs @ zs)) \<or> hd (escape (cis_match spec) xs @ zs) = 37"
    using assms(4) by (cases xs; simp)+
  then show ?thesis using scan_get_unescape_core[OF assms(1-3,5,6) unesc_escape[OF assms(6,7)]] by simp
qed

lemma scan_get_unescape_roundtrip_witness:
  "\<exists>m1 sc'. scan_get_unescape [0, 97, 37, 50, 48, 98, 32, 0] \<lparr>sc_begin = 1, sc_end = 7, curptr = 1, line = 1, start_line = 1, skip_ws = 0, errs = 0\<rparr> ex_cis =
     Some (m1, sc', Some \<lparr>ptr = 1, slen = 3\<rparr>) \<and> bytes_at m1 1 [97, 32, 98]"
proof -
  let ?sc = "\<lparr>sc_begin = 1, sc_end = 7, curptr = 1, line = 1, start_line = 1, skip_ws = 0, errs = 0\<rparr>"
  have e: "escape (cis_match ex_cis) [97, 32, 98] = [97, 37, 50, 48, 98]" using ex_facts(6,7,8) by (simp add: hex_digit_def)
  have r: "rest [0, 97, 37, 50, 48, 98, 32, 0] ?sc (escape (cis_match ex_cis) [97, 32, 98] @ [32])"
    unfolding e by (simp add: rest_def rd_def)
  have o: "plain_options ?sc" by (simp add: plain_options_def has_option_def SCAN_AUTOSKIP_WS_HEADER_def)
  have t: "tok ?sc [97, 32, 98] = \<lparr>ptr = 1, slen = 3\<rparr>" by (simp add: tok_def)
  show ?thesis using scan_get_unescape_roundtrip[OF r _ o _ ex_facts(4,5)] ex_facts(8) unfolding t by auto
qed

text \<open>A percent sign that is the last character of the text is not rejected: the loop copies it together with the
null character behind it, and the position of the scanner is then one behind the end of the text, so that scan_is_eof holds but
every further read is outside the text.\<close>

theorem unescape_runs_behind_end:
  assumes "bytes_at m (curptr sc) [37, 0, b]" "sc_end sc = curptr sc + 1" "sc_end sc < 2 ^ 31 - 1" "skip_ws sc = 0"
    "\<not> cis_match spec 0" "\<not> cis_match spec 37"
  shows "\<exists>m1 sc'. scan_get_unescape m sc spec = Some (m1, sc', Some \<lparr>ptr = curptr sc, slen = 2\<rparr>) \<and>
    curptr sc' = sc_end sc' + 1 \<and> scan_is_eof sc'"
proof -
  let ?m = "m[curptr sc := 37, curptr sc + 1 := 0]"
  have "unescape_loop m (sc_end sc) (cis_match spec) (curptr sc) (curptr sc) = Some (?m, curptr sc + 2, curptr sc + 2)"
    using assms(1,2) bytes_at_bound[OF assms(1)] unfolding unescape_loop.simps[of m _ _ "curptr sc" "curptr sc"]
    by (simp add: unescape_at_def wr_def rd_def split: if_splits)
  moreover have "rd ?m (curptr sc + 2) = Some b" using assms(1) bytes_at_bound[OF assms(1)] by (simp add: rd_def split: if_splits)
  moreover have "rd m (curptr sc) = Some 37" using assms(1) by simp
  ultimately show ?thesis using assms(2-6)
    by (simp add: scan_get_unescape_def advance_to_def skip_after_def c_strset3_def s32_id scan_is_eof_def)
qed

lemma unescape_runs_behind_end_witness:
  "\<exists>m1 sc'. scan_get_unescape [0, 37, 0, 5] \<lparr>sc_begin = 1, sc_end = 2, curptr = 1, line = 1, start_line = 1, skip_ws = 0, errs = 0\<rparr> ex_cis =
     Some (m1, sc', Some \<lparr>ptr = 1, slen = 2\<rparr>) \<and> curptr sc' = sc_end sc' + 1"
  using unescape_runs_behind_end[of "[0, 37, 0, 5]"
      "\<lparr>sc_begin = 1, sc_end = 2, curptr = 1, line = 1, start_line = 1, skip_ws = 0, errs = 0\<rparr>" 5 ex_cis] ex_facts(4,5)
  by (auto simp: rd_def)

end
