(* ===== verification/Json.thy ===== *)
theory Json
  imports Scanner_Facts
begin

section \<open>JSON (\<^verbatim>\<open>oslib/src/json.c\<close>)\<close>

text \<open>
  An element carries its name and its value; the children of an array or object, linked in the code through their first
  member, are a list. The strings are pointers into memory: into the parsed text, or, once unescaped, into memory of the pool.
  The pool gives the end of the memory until 32 bits are used up, then null. Numbers are floats; reading and
  printing one are parameters. The characters of \<^verbatim>\<open>char\<close> are unsigned.
\<close>

definition EO_INJSON :: int where "EO_INJSON = 4000 + 25"

datatype 'f json_val =
    JSON_VAL_NULL
  | JSON_VAL_BOOL u8
  | JSON_VAL_NUMBER 'f
  | JSON_VAL_STRING str_t
  | JSON_VAL_ARRAY "'f T_JsonElem list"
  | JSON_VAL_OBJ "'f T_JsonElem list"
and 'f T_JsonElem = Elem (el_name: str_t) (el_value: "'f json_val")

subsection \<open>Elements\<close>

text \<open>Without a name the code takes an empty string, whose address is never read.\<close>

definition EL_INIT :: "str_t option \<Rightarrow> 'f json_val \<Rightarrow> 'f T_JsonElem" where
  "EL_INIT nm v = Elem (case nm of Some n \<Rightarrow> n | None \<Rightarrow> \<lparr>ptr = 0, slen = 0\<rparr>) v"

definition JSON_ElemSetNull :: "str_t option \<Rightarrow> 'f T_JsonElem" where
  "JSON_ElemSetNull name = EL_INIT name JSON_VAL_NULL"

definition JSON_ElemSetBool :: "str_t option \<Rightarrow> u8 \<Rightarrow> 'f T_JsonElem" where
  "JSON_ElemSetBool name b = EL_INIT name (JSON_VAL_BOOL b)"

definition JSON_ElemSetNumber :: "str_t option \<Rightarrow> 'f \<Rightarrow> 'f T_JsonElem" where
  "JSON_ElemSetNumber name f = EL_INIT name (JSON_VAL_NUMBER f)"

definition JSON_ElemSetString :: "str_t option \<Rightarrow> str_t \<Rightarrow> 'f T_JsonElem" where
  "JSON_ElemSetString name s = EL_INIT name (JSON_VAL_STRING s)"

definition JSON_ElemSetArray :: "str_t option \<Rightarrow> 'f T_JsonElem" where
  "JSON_ElemSetArray name = EL_INIT name (JSON_VAL_ARRAY [])"

definition JSON_ElemSetObj :: "str_t option \<Rightarrow> 'f T_JsonElem" where
  "JSON_ElemSetObj name = EL_INIT name (JSON_VAL_OBJ [])"

definition JSON_ElemAdd :: "'f T_JsonElem \<Rightarrow> 'f T_JsonElem \<Rightarrow> 'f T_JsonElem option" where
  "JSON_ElemAdd e child =
     (case el_value e of
        JSON_VAL_ARRAY cs \<Rightarrow> Some (Elem (el_name e) (JSON_VAL_ARRAY (cs @ [child])))
      | JSON_VAL_OBJ cs \<Rightarrow> Some (Elem (el_name e) (JSON_VAL_OBJ (cs @ [child])))
      | _ \<Rightarrow> None)"

subsection \<open>Parsing\<close>

definition pool_alloc :: "mem \<Rightarrow> nat \<Rightarrow> mem \<times> addr" where
  "pool_alloc m n = (if length m + n < 2 ^ 32 then (m @ replicate n 0, length m) else (m, 0))"

definition JSON_ELEM_SIZE :: nat where "JSON_ELEM_SIZE = 28"

text \<open>The escapes of one character.\<close>

definition esc_char :: "u8 \<Rightarrow> u8 option" where
  "esc_char c =
     (if c = 34 \<or> c = 92 \<or> c = 47 then Some c
      else if c = 98 then Some 8
      else if c = 102 then Some 12
      else if c = 110 then Some 10
      else if c = 114 then Some 13
      else if c = 116 then Some 9
      else None)"

text \<open>The loop that copies the token from \<open>ip\<close> to \<open>op\<close>; at an error the result holds its position.\<close>

function unescape_str :: "mem \<Rightarrow> addr \<Rightarrow> addr \<Rightarrow> addr \<Rightarrow> (mem \<times> addr \<times> addr option) option" where
  "unescape_str m iend ip op =
     (if ip = iend then Some (m, op, None)
      else (case rd m ip of
        None \<Rightarrow> None
      | Some c \<Rightarrow>
          if c = 92
          then if ip + 1 = iend then Some (m, op, Some (ip + 1))
               else (case rd m (ip + 1) of
                 None \<Rightarrow> None
               | Some d \<Rightarrow>
                   if d = 117
                   then if int iend - int (ip + 2) < 4 then Some (m, op, Some (iend - 1))
                        else (case (rd m (ip + 4), rd m (ip + 5)) of
                                (Some a, Some b) \<Rightarrow>
                                  (case wr m op (of_nat (c_hex_digit_to_val a * 16 + c_hex_digit_to_val b)) of
                                     None \<Rightarrow> None
                                   | Some m1 \<Rightarrow> unescape_str m1 iend (ip + 6) (op + 1))
                              | _ \<Rightarrow> None)
                   else (case esc_char d of
                           Some b \<Rightarrow> (case wr m op b of None \<Rightarrow> None | Some m1 \<Rightarrow> unescape_str m1 iend (ip + 2) (op + 1))
                         | None \<Rightarrow> Some (m, op, Some (ip + 1))))
          else (case wr m op c of None \<Rightarrow> None | Some m1 \<Rightarrow> unescape_str m1 iend (ip + 1) (op + 1))))"
  by pat_completeness auto
termination
  by (relation "measure (\<lambda>(m, iend, ip, op). length m - ip)") (auto simp: rd_def dest!: wr_length split: if_splits)

declare unescape_str.simps [simp del]

text \<open>The result is the string and the position of an error, 0 without one; an error of the scanner leaves the token
uninitialised.\<close>

definition parse_quoted_string :: "mem \<Rightarrow> scanner_t \<Rightarrow> (mem \<times> scanner_t \<times> str_t \<times> nat) option" where
  "parse_quoted_string m sc =
     do {
       (sc1, t) \<leftarrow> scan_get_quote m sc 34 34;
       token0 \<leftarrow> t;
       let token = \<lparr>ptr = ptr token0 + 1, slen = slen token0 - 2\<rparr>;
       b \<leftarrow> c_strchr m token 92;
       if b = 0 then Some (m, sc1, token, 0)
       else do {
         let (m1, p) = pool_alloc m (nat (slen token));
         let iend = ptr token + nat (slen token);
         (m2, op, err) \<leftarrow> unescape_str m1 iend (ptr token) p;
         Some (m2, sc1, \<lparr>ptr = p, slen = int op - int p\<rparr>, case err of None \<Rightarrow> 0 | Some ip \<Rightarrow> ip - ptr token)
       }
     }"

text \<open>A first pass over a quoted text that may be the name or the value.\<close>

definition parse_label :: "mem \<Rightarrow> scanner_t \<Rightarrow> (scanner_t \<times> str_t \<times> str_t) option" where
  "parse_label m sc =
     do {
       (sc1, _) \<leftarrow> scan_get_char m sc;
       (sc2, t) \<leftarrow> scan_get_until_ch m sc1 34;
       (sc3, _) \<leftarrow> scan_get_char m sc2;
       c \<leftarrow> rd m (curptr sc3);
       token \<leftarrow> t;
       if c = 58
       then do { (sc4, _) \<leftarrow> scan_get_char m sc3; Some (sc4, token, \<lparr>ptr = 0, slen = 0\<rparr>) }
       else Some (sc3, \<lparr>ptr = 0, slen = 0\<rparr>, token)
     }"

text \<open>Setting an element whose memory the pool refused is an access to null.\<close>

definition set_elem :: "addr \<Rightarrow> 'f T_JsonElem \<Rightarrow> 'f T_JsonElem option" where
  "set_elem p e = (if p = 0 then None else Some e)"

definition parse_number :: "(u8 list \<Rightarrow> 'f) \<Rightarrow> ('f \<Rightarrow> 'f) \<Rightarrow> cis_t \<Rightarrow> mem \<Rightarrow> scanner_t \<Rightarrow> (scanner_t \<times> 'f) option" where
  "parse_number strtof neg spec m sc =
     do {
       c \<leftarrow> rd m (curptr sc);
       (sc1, _) \<leftarrow> (if c = 45 then scan_get_char m sc else Some (sc, 0));
       (sc2, t) \<leftarrow> scan_get m sc1 spec;
       token \<leftarrow> t;
       bs \<leftarrow> rd_bytes m (ptr token) (nat (slen token));
       Some (sc2, if c = 45 then neg (strtof bs) else strtof bs)
     }"

definition FALSE_STR :: "u8 list" where "FALSE_STR = [102, 97, 108, 115, 101]"
definition TRUE_STR :: "u8 list" where "TRUE_STR = [116, 114, 117, 101]"
definition NULL_STR :: "u8 list" where "NULL_STR = [110, 117, 108, 108]"

definition parse_word :: "mem \<Rightarrow> scanner_t \<Rightarrow> str_t \<Rightarrow> addr \<Rightarrow> (scanner_t \<times> 'f T_JsonElem option) option" where
  "parse_word m sc name p =
     do {
       (sc1, r1) \<leftarrow> scan_strcmp m sc FALSE_STR 5;
       if r1 = 0
       then do { e \<leftarrow> set_elem p (JSON_ElemSetBool (Some name) 0); sc2 \<leftarrow> scan_advance_n m sc1 5 True; Some (sc2, Some e) }
       else do {
         (sc2, r2) \<leftarrow> scan_strcmp m sc1 TRUE_STR 4;
         if r2 = 0
         then do { e \<leftarrow> set_elem p (JSON_ElemSetBool (Some name) 1); sc3 \<leftarrow> scan_advance_n m sc2 4 True; Some (sc3, Some e) }
         else do {
           (sc3, r3) \<leftarrow> scan_strcmp m sc2 NULL_STR 4;
           if r3 = 0
           then do { e \<leftarrow> set_elem p (JSON_ElemSetNull (Some name)); sc4 \<leftarrow> scan_advance_n m sc3 4 True; Some (sc4, Some e) }
           else Some (sc3, None)
         }
       }
     }"

text \<open>The scanner never goes back.\<close>

lemma skip_newlines_ge: "skip_newlines m sc s = Some (sc', t) \<Longrightarrow> s \<le> t"
proof (induction "length m - s" arbitrary: sc s rule: less_induct)
  case less
  obtain c where c: "rd m s = Some c" "s < length m"
    using less.prems by (subst (asm) skip_newlines.simps) (auto simp: rd_def split: if_splits)
  have "sc' = sc \<and> t = s \<or> (\<exists>sc1 s1. s < s1 \<and> skip_newlines m sc1 s1 = Some (sc', t))"
  proof -
    consider "c = 13" | "c = 10" | "c \<noteq> 13" "c \<noteq> 10" "SCAN_IS_SPACE c" | "c \<noteq> 13" "c \<noteq> 10" "\<not> SCAN_IS_SPACE c" by blast
    then show ?thesis
    proof cases
      case 1
      then show ?thesis using less.prems c(1) unfolding skip_newlines.simps[of m sc s]
        by (simp add: Let_def split: option.splits if_splits; metis lessI less_SucI)
    next
      case 2
      then show ?thesis using less.prems c(1) unfolding skip_newlines.simps[of m sc s] by (simp; metis lessI)
    next
      case 3
      then show ?thesis using less.prems c(1) unfolding skip_newlines.simps[of m sc s]
        by (auto split: option.splits dest!: scan_while_ge)
    next
      case 4
      then show ?thesis using less.prems c(1) unfolding skip_newlines.simps[of m sc s] by simp
    qed
  qed
  then show ?case using less.hyps c(2) by (metis diff_less_mono2 le_eq_less_or_eq less_le_trans)
qed

lemma bind_SomeE: "f \<bind> g = Some x \<Longrightarrow> (\<And>y. f = Some y \<Longrightarrow> g y = Some x \<Longrightarrow> P) \<Longrightarrow> P"
  by (auto simp: bind_eq_Some_conv)

lemma scan_skip_whitespace_ge:
  assumes "scan_skip_whitespace m sc = Some sc'"
  shows "curptr sc \<le> curptr sc'"
proof -
  obtain s0 c0 sc1 s c where a: "scan_while m SCAN_IS_SPACE (curptr sc) = Some s0"
    "(if SCAN_IS_NEWLINE c0 \<and> has_option sc SCAN_AUTOSKIP_NEWLINE then skip_newlines m sc s0 else Some (sc, s0)) = Some (sc1, s)"
    "(if SCAN_IS_NEWLINE c \<and> and (skip_ws sc1) SCAN_AUTOSKIP_WS_HEADER = SCAN_AUTOSKIP_WS_HEADER
       then do {
         let s1 = (if c = 13 then s + 1 else s);
         c1 \<leftarrow> rd m s1;
         let s2 = (if c1 = 10 then s1 + 1 else s1);
         c2 \<leftarrow> rd m s2;
         let sc2 = sc1\<lparr>curptr := s, start_line := s2\<rparr>;
         if SCAN_IS_SPACE c2
         then do { t \<leftarrow> scan_while m SCAN_IS_SPACE (s2 + 1); Some (sc2\<lparr>line := line sc2 + 1, curptr := t\<rparr>) }
         else Some sc2
       }
       else Some (sc1\<lparr>curptr := s\<rparr>)) = Some sc'"
    using assms unfolding scan_skip_whitespace_def
    apply (elim bind_SomeE)
    subgoal for s0 c0 p by (cases p) (simp only: prod.case, elim bind_SomeE, blast)
    done
  have "curptr sc \<le> s0" "s0 \<le> s" using a(1,2) scan_while_ge skip_newlines_ge by (auto split: if_splits)
  moreover have "s \<le> curptr sc'"
  proof (cases "SCAN_IS_NEWLINE c \<and> and (skip_ws sc1) SCAN_AUTOSKIP_WS_HEADER = SCAN_AUTOSKIP_WS_HEADER")
    case True
    obtain s2 c2 where "s \<le> s2" "(if SCAN_IS_SPACE c2
         then do { t \<leftarrow> scan_while m SCAN_IS_SPACE (s2 + 1); Some (sc1\<lparr>curptr := s, start_line := s2, line := line (sc1\<lparr>curptr := s, start_line := s2\<rparr>) + 1, curptr := t\<rparr>) }
         else Some (sc1\<lparr>curptr := s, start_line := s2\<rparr>)) = Some sc'"
      by (rule bind_SomeE[OF a(3)[unfolded if_P[OF True] Let_def]], erule bind_SomeE) (rule that[rotated], assumption, simp)
    then show ?thesis by (cases "SCAN_IS_SPACE c2") (auto simp: bind_eq_Some_conv dest!: scan_while_ge)
  qed (use a(3) in auto)
  ultimately show ?thesis by simp
qed

lemma scan_get_char_ge:
  assumes "scan_get_char m sc = Some (sc', c)"
  shows "curptr sc + (if c = 0 then 0 else 1) \<le> curptr sc'" "rd m (curptr sc) = Some c"
proof -
  have "s \<le> curptr sc'" if "advance_to m sc s = Some sc'" for s
    using that by (auto simp: advance_to_def skip_after_def bind_eq_Some_conv split: if_splits dest!: scan_skip_whitespace_ge)
  then show "curptr sc + (if c = 0 then 0 else 1) \<le> curptr sc'" "rd m (curptr sc) = Some c"
    using assms by (auto simp: scan_get_char_def bind_eq_Some_conv scan_syntax_err_def split: if_splits)
qed

lemma scan_get_char_moves: "scan_get_char m sc = Some (sc', d) \<Longrightarrow> rd m (curptr sc) = Some c \<Longrightarrow> c \<noteq> 0 \<Longrightarrow> curptr sc < curptr sc'"
  using scan_get_char_ge[of m sc sc' d] by auto

function skip_commas :: "mem \<Rightarrow> scanner_t \<Rightarrow> scanner_t option" where
  "skip_commas m sc =
     (case rd m (curptr sc) of
        None \<Rightarrow> None
      | Some c \<Rightarrow>
          if c = 44 then (case scan_get_char m sc of None \<Rightarrow> None | Some (sc1, _) \<Rightarrow> skip_commas m sc1) else Some sc)"
  by pat_completeness auto
termination
  by (relation "measure (\<lambda>(m, sc). length m - curptr sc)") (auto dest!: scan_get_char_moves, auto simp: rd_def split: if_splits)

declare skip_commas.simps [simp del]

text \<open>
  The three functions call one another; each body has the functions it calls as arguments. The first argument of the
  recursion bounds the nesting of calls; every call but the first is for an element behind a character of its own.
\<close>

type_synonym 'f parsed = "(mem \<times> scanner_t \<times> 'f T_JsonElem option) option"

definition parse_elem_body :: "(mem \<Rightarrow> scanner_t \<Rightarrow> 'f T_JsonElem \<Rightarrow> 'f parsed) \<Rightarrow> (u8 list \<Rightarrow> 'f) \<Rightarrow> ('f \<Rightarrow> 'f) \<Rightarrow> cis_t \<Rightarrow>
    mem \<Rightarrow> scanner_t \<Rightarrow> 'f parsed" where
  "parse_elem_body children strtof neg spec m sc =
     do {
       let (m1, p) = pool_alloc m JSON_ELEM_SIZE;
       c0 \<leftarrow> rd m1 (curptr sc);
       (sc1, name, value) \<leftarrow> (if c0 = 34 then parse_label m1 sc else Some (sc, \<lparr>ptr = 0, slen = 0\<rparr>, \<lparr>ptr = 0, slen = 0\<rparr>));
       if slen value \<noteq> 0
       then do { e \<leftarrow> set_elem p (JSON_ElemSetString (Some name) value); Some (m1, sc1, Some e) }
       else do {
         c \<leftarrow> rd m1 (curptr sc1);
         if cis_match spec c \<or> c = 45
         then do {
           (sc2, f) \<leftarrow> parse_number strtof neg spec m1 sc1;
           e \<leftarrow> set_elem p (JSON_ElemSetNumber (Some name) f);
           Some (m1, sc2, Some e)
         }
         else if c = 34
         then do {
           (m2, sc2, token, err) \<leftarrow> parse_quoted_string m1 sc1;
           if err \<noteq> 0 then Some (m2, sc2\<lparr>curptr := curptr sc1 + err\<rparr>, None)
           else do { e \<leftarrow> set_elem p (JSON_ElemSetString (Some name) token); Some (m2, sc2, Some e) }
         }
         else if c_isalpha c
         then do { (sc2, e) \<leftarrow> parse_word m1 sc1 name p; Some (m1, sc2, e) }
         else if c = 91
         then do { e \<leftarrow> set_elem p (JSON_ElemSetArray (Some name)); children m1 sc1 e }
         else if c = 123
         then do { e \<leftarrow> set_elem p (JSON_ElemSetObj (Some name)); children m1 sc1 e }
         else Some (m1, sc1, None)
       }
     }"

definition end_quote :: "'f T_JsonElem \<Rightarrow> u8" where
  "end_quote parent = (case el_value parent of JSON_VAL_ARRAY _ \<Rightarrow> 93 | _ \<Rightarrow> 125)"

definition parse_children_body :: "(u8 \<Rightarrow> mem \<Rightarrow> scanner_t \<Rightarrow> 'f T_JsonElem \<Rightarrow> 'f parsed) \<Rightarrow> mem \<Rightarrow> scanner_t \<Rightarrow> 'f T_JsonElem \<Rightarrow>
    'f parsed" where
  "parse_children_body loop m sc parent =
     do {
       (sc1, _) \<leftarrow> scan_get_char m sc;
       (m2, sc2, r) \<leftarrow> loop (end_quote parent) m sc1 parent;
       case r of
         None \<Rightarrow> Some (m2, sc2, None)
       | Some e \<Rightarrow> do { (sc3, _) \<leftarrow> scan_get_char m2 sc2; Some (m2, sc3, Some e) }
     }"

definition children_step :: "(mem \<Rightarrow> scanner_t \<Rightarrow> 'f parsed) \<Rightarrow> (mem \<Rightarrow> scanner_t \<Rightarrow> 'f T_JsonElem \<Rightarrow> 'f parsed) \<Rightarrow> u8 \<Rightarrow>
    mem \<Rightarrow> scanner_t \<Rightarrow> 'f T_JsonElem \<Rightarrow> 'f parsed" where
  "children_step elem loop q m sc parent =
     do {
       c \<leftarrow> rd m (curptr sc);
       if c = q then Some (m, sc, Some parent)
       else do {
         sc1 \<leftarrow> skip_commas m sc;
         c1 \<leftarrow> rd m (curptr sc1);
         if c1 = q then Some (m, sc1, Some parent)
         else do {
           (m2, sc2, r) \<leftarrow> elem m sc1;
           case r of
             None \<Rightarrow> Some (m2, sc2, None)
           | Some child \<Rightarrow> do { parent1 \<leftarrow> JSON_ElemAdd parent child; loop m2 sc2 parent1 }
         }
       }
     }"

fun parse_elem_throw :: "nat \<Rightarrow> (u8 list \<Rightarrow> 'f) \<Rightarrow> ('f \<Rightarrow> 'f) \<Rightarrow> cis_t \<Rightarrow> mem \<Rightarrow> scanner_t \<Rightarrow> 'f parsed"
  and children_loop :: "nat \<Rightarrow> (u8 list \<Rightarrow> 'f) \<Rightarrow> ('f \<Rightarrow> 'f) \<Rightarrow> cis_t \<Rightarrow> u8 \<Rightarrow> mem \<Rightarrow> scanner_t \<Rightarrow> 'f T_JsonElem \<Rightarrow> 'f parsed" where
  "parse_elem_throw 0 strtof neg spec m sc = None"
| "parse_elem_throw (Suc n) strtof neg spec m sc =
     parse_elem_body (parse_children_body (children_loop n strtof neg spec)) strtof neg spec m sc"
| "children_loop 0 strtof neg spec q m sc parent = None"
| "children_loop (Suc n) strtof neg spec q m sc parent =
     children_step (parse_elem_throw n strtof neg spec) (children_loop n strtof neg spec q) q m sc parent"

definition parse_children :: "nat \<Rightarrow> (u8 list \<Rightarrow> 'f) \<Rightarrow> ('f \<Rightarrow> 'f) \<Rightarrow> cis_t \<Rightarrow> mem \<Rightarrow> scanner_t \<Rightarrow> 'f T_JsonElem \<Rightarrow> 'f parsed" where
  "parse_children n strtof neg spec m sc parent = parse_children_body (children_loop n strtof neg spec) m sc parent"

record T_JsonErrInfo =
  err_line :: nat
  err_col :: nat
  err_char :: u8

definition float_spec :: "cis_t option" where
  "float_spec =
     do {
       let (cb, i, _) = cis_init cis_buf_init;
       cb1 \<leftarrow> cis_add_str cb i [46, 48, 49, 50, 51, 52, 53, 54, 55, 56, 57];
       Some (cis_buf cb1, i)
     }"

text \<open>The result: the memory, the root, what is left of the size and, after an error, where it is.\<close>

definition JSON_Parse :: "bool \<Rightarrow> nat \<Rightarrow> (u8 list \<Rightarrow> 'f) \<Rightarrow> ('f \<Rightarrow> 'f) \<Rightarrow> mem \<Rightarrow> addr \<Rightarrow> nat \<Rightarrow>
    (mem \<times> 'f T_JsonElem option \<times> nat \<times> T_JsonErrInfo option) option" where
  "JSON_Parse pErrInfo n strtof neg m strJson size0 =
     do {
       guard (strJson \<noteq> 0);
       if size0 = 0 then Some (m, None, size0, None)
       else do {
         sc \<leftarrow> scan_init m strJson size0 (1 + SCAN_AUTOSKIP_NEWLINE);
         spec \<leftarrow> float_spec;
         (m1, sc1, root) \<leftarrow> parse_elem_throw n strtof neg spec m sc;
         err \<leftarrow> (case root of
             None \<Rightarrow>
               if pErrInfo
               then do {
                 c \<leftarrow> rd m1 (curptr sc1);
                 Some (Some \<lparr>err_line = line sc1, err_col = nat ((scan_get_col sc1 + 1) mod 2 ^ 32), err_char = c\<rparr>)
               }
               else Some None
           | Some _ \<Rightarrow> Some None);
         Some (m1, root, nat ((int strJson + int size0 - int (curptr sc1)) mod 2 ^ 32), err)
       }
     }"

subsection \<open>Writing\<close>

text \<open>
  The writer is a function of the caller; it has the memory and a state of its own and answers with a status. Reading
  more than the 100 blanks of the indentation buffer is outside it.
\<close>

type_synonym 's json_writer = "u8 list \<Rightarrow> mem \<Rightarrow> 's \<Rightarrow> (mem \<times> 's \<times> int) option"

record 's write_state =
  w_mem :: mem
  user_data :: 's
  indent :: nat

definition MAX_INDENT :: nat where "MAX_INDENT = 100"
definition JSON_NAME_MIN_LEN :: nat where "JSON_NAME_MIN_LEN = 20"
definition ESC_BUF_LEN :: nat where "ESC_BUF_LEN = 64"
definition JSON_INDENT_SIZE :: nat where "JSON_INDENT_SIZE = 3"

type_synonym 's write_step = "'s write_state \<Rightarrow> ('s write_state \<times> int) option"

definition put :: "'s json_writer \<Rightarrow> u8 list \<Rightarrow> 's write_step" where
  "put w bs st = map_option (\<lambda>(m, u, status). (st\<lparr>w_mem := m, user_data := u\<rparr>, status)) (w bs (w_mem st) (user_data st))"

text \<open>\<open>CHECK\<close>: what follows runs only after success.\<close>

definition CHECK :: "'s write_step \<Rightarrow> 's write_step \<Rightarrow> 's write_step" where
  "CHECK f g st = (case f st of None \<Rightarrow> None | Some (st1, status) \<Rightarrow> if status \<noteq> EO_SUCCESS then Some (st1, status) else g st1)"

definition done_ok :: "'s write_step" where
  "done_ok st = Some (st, EO_SUCCESS)"

definition json_escape :: "u8 \<Rightarrow> u8 list" where
  "json_escape c =
     (if c = 34 then [92, 34]
      else if c = 92 then [92, 92]
      else if c = 47 then [92, 47]
      else if c = 8 then [92, 98]
      else if c = 12 then [92, 102]
      else if c = 10 then [92, 110]
      else if c = 13 then [92, 114]
      else if c = 9 then [92, 116]
      else if c \<ge> 32 \<and> c < 127 then [c]
      else [92, 117, 48, 48, c_hex_digits ! (unat c div 16), c_hex_digits ! (unat c mod 16)])"

text \<open>One filling of the buffer from the \<open>n\<close> characters at \<open>ip\<close>: what is left, and the buffer.\<close>

fun esc_fill :: "mem \<Rightarrow> addr \<Rightarrow> nat \<Rightarrow> u8 list \<Rightarrow> (addr \<times> nat \<times> u8 list) option" where
  "esc_fill m ip 0 buf = Some (ip, 0, buf)"
| "esc_fill m ip (Suc n) buf =
     (if length buf = ESC_BUF_LEN \<or> ESC_BUF_LEN - length buf < 2 then Some (ip, Suc n, buf)
      else do {
        c \<leftarrow> rd m ip;
        if length (json_escape c) = 6 \<and> ESC_BUF_LEN - length buf < 6 then Some (ip, Suc n, buf)
        else esc_fill m (ip + 1) n (buf @ json_escape c)
      })"

lemma esc_fill_le: "esc_fill m ip n buf = Some (ip', n', buf') \<Longrightarrow> n' \<le> n"
  by (induction m ip n buf rule: esc_fill.induct) (auto simp: bind_eq_Some_conv split: if_splits)

lemma esc_fill_less: "esc_fill m ip (Suc n) [] = Some (ip', n', buf') \<Longrightarrow> n' < Suc n"
  by (auto simp: bind_eq_Some_conv ESC_BUF_LEN_def dest!: esc_fill_le split: if_splits)

function write_escaped :: "'s json_writer \<Rightarrow> addr \<Rightarrow> nat \<Rightarrow> 's write_step" where
  "write_escaped w ip n st =
     (if n = 0 then done_ok st
      else (case esc_fill (w_mem st) ip n [] of
              None \<Rightarrow> None
            | Some (ip', n', buf) \<Rightarrow>
                (case put w buf st of
                   None \<Rightarrow> None
                 | Some (st1, status) \<Rightarrow> if status \<noteq> EO_SUCCESS then Some (st1, status) else write_escaped w ip' n' st1)))"
  by pat_completeness auto
termination
proof (relation "measure (\<lambda>(w, ip, n, st). n)")
  fix w :: "'s json_writer" and ip n ip' n' buf and st :: "'s write_state" and x y z a b
  show "n \<noteq> 0 \<Longrightarrow> esc_fill (w_mem st) ip n [] = Some x \<Longrightarrow> (ip', z) = x \<Longrightarrow> (n', buf) = z \<Longrightarrow> put w buf st = Some y \<Longrightarrow> (a, b) = y \<Longrightarrow>
      \<not> b \<noteq> EO_SUCCESS \<Longrightarrow> ((w, ip', n', a), w, ip, n, st) \<in> measure (\<lambda>(w, ip, n, st). n)"
    using esc_fill_less[of "w_mem st" ip "n - 1" ip' n' buf] by auto
qed simp

declare write_escaped.simps [simp del]

definition write_string_escaped :: "'s json_writer \<Rightarrow> str_t \<Rightarrow> 's write_step" where
  "write_string_escaped w value st = (if slen value < 0 then None else write_escaped w (ptr value) (nat (slen value)) st)"

definition put_indent :: "'s json_writer \<Rightarrow> 's write_step" where
  "put_indent w st = (if indent st > MAX_INDENT then None else put w (replicate (indent st) 32) st)"

definition put_name :: "'s json_writer \<Rightarrow> str_t \<Rightarrow> bool \<Rightarrow> 's write_step" where
  "put_name w name no_name =
     (if slen name \<noteq> 0
      then CHECK (put_indent w)
        (if no_name then done_ok
         else CHECK (put w [34]) (CHECK (write_string_escaped w name) (CHECK (put w [34, 58, 32])
           (if slen name < int JSON_NAME_MIN_LEN then put w (replicate (JSON_NAME_MIN_LEN - nat (slen name)) 32) else done_ok))))
      else done_ok)"

definition set_indent :: "nat \<Rightarrow> 's write_step" where
  "set_indent i st = Some (st\<lparr>indent := i\<rparr>, EO_SUCCESS)"

definition unindent :: "bool \<Rightarrow> 's write_step" where
  "unindent added st = Some (if added then st\<lparr>indent := indent st - JSON_INDENT_SIZE\<rparr> else st, EO_SUCCESS)"

fun elem_write :: "('f \<Rightarrow> u8 list) \<Rightarrow> 's json_writer \<Rightarrow> 'f T_JsonElem \<Rightarrow> bool \<Rightarrow> 's write_step"
  and write_inline :: "('f \<Rightarrow> u8 list) \<Rightarrow> 's json_writer \<Rightarrow> 'f T_JsonElem list \<Rightarrow> bool \<Rightarrow> 's write_step"
  and write_lines :: "('f \<Rightarrow> u8 list) \<Rightarrow> 's json_writer \<Rightarrow> 'f T_JsonElem list \<Rightarrow> bool \<Rightarrow> 's write_step"
  and write_children :: "('f \<Rightarrow> u8 list) \<Rightarrow> 's json_writer \<Rightarrow> 'f T_JsonElem list \<Rightarrow> bool \<Rightarrow> 's write_step" where
  "elem_write num w (Elem name v) no_name st =
     CHECK (put_name w name no_name)
      (case v of
         JSON_VAL_NULL \<Rightarrow> put w NULL_STR
       | JSON_VAL_BOOL b \<Rightarrow> put w (if b \<noteq> 0 then TRUE_STR else FALSE_STR)
       | JSON_VAL_NUMBER f \<Rightarrow> (if length (num f) \<ge> 65 then \<lambda>st. Some (st, EO_TOOBIG) else put w (num f))
       | JSON_VAL_STRING s \<Rightarrow> CHECK (put w [34]) (CHECK (write_string_escaped w s) (put w [34]))
       | JSON_VAL_ARRAY cs \<Rightarrow> write_children num w cs True
       | JSON_VAL_OBJ cs \<Rightarrow> write_children num w cs False) st"
| "write_inline num w [] no_name st = done_ok st"
| "write_inline num w (c # cs) no_name st =
     CHECK (elem_write num w c no_name) (CHECK (if cs \<noteq> [] then put w [44, 32] else done_ok) (write_inline num w cs no_name)) st"
| "write_lines num w [] no_name st = done_ok st"
| "write_lines num w (c # cs) no_name st =
     CHECK (elem_write num w c no_name) (CHECK (put w (if cs \<noteq> [] then [44, 10] else [10])) (write_lines num w cs no_name)) st"
| "write_children num w cs no_name st =
     CHECK (put w [if no_name then 91 else 123]) (CHECK (put w [32])
      (CHECK
        (if cs = [] then done_ok
         else if slen (el_name (hd cs)) = 0 then write_inline num w cs no_name
         else (\<lambda>st.
           (let added = (indent st < MAX_INDENT) in
            CHECK (set_indent (if added then indent st + JSON_INDENT_SIZE else indent st))
             (CHECK (put w [10]) (CHECK (write_lines num w cs no_name) (CHECK (unindent added) (put_indent w)))) st)))
        (put w [if no_name then 93 else 125]))) st"

definition JSON_ElemWritef :: "('f \<Rightarrow> u8 list) \<Rightarrow> 's json_writer \<Rightarrow> 'f T_JsonElem \<Rightarrow> mem \<Rightarrow> 's \<Rightarrow> ('s write_state \<times> int) option" where
  "JSON_ElemWritef num w e m u = elem_write num w e False \<lparr>w_mem = m, user_data = u, indent = 0\<rparr>"

text \<open>The writer into a buffer keeps the position and the room.\<close>

record buf_writer_data =
  bw_pos :: addr
  bw_size :: nat

definition buf_writer :: "buf_writer_data json_writer" where
  "buf_writer bs m d =
     (if length bs + 1 \<ge> bw_size d then Some (m, d, EO_TOOBIG)
      else map_option (\<lambda>m1. (m1, \<lparr>bw_pos = bw_pos d + length bs, bw_size = bw_size d - length bs\<rparr>, EO_SUCCESS)) (wr_bytes m (bw_pos d) bs))"

text \<open>The result: the memory, the size and the status.\<close>

definition JSON_ElemWrite :: "('f \<Rightarrow> u8 list) \<Rightarrow> 'f T_JsonElem \<Rightarrow> mem \<Rightarrow> addr \<Rightarrow> nat \<Rightarrow> (mem \<times> nat \<times> int) option" where
  "JSON_ElemWrite num e m buffer size0 =
     do {
       (st, status) \<leftarrow> JSON_ElemWritef num buf_writer e m \<lparr>bw_pos = buffer, bw_size = size0\<rparr>;
       if status \<noteq> EO_SUCCESS then Some (w_mem st, size0, status)
       else do {
         m1 \<leftarrow> wr (w_mem st) (bw_pos (user_data st)) 0;
         Some (m1, bw_pos (user_data st) - buffer, EO_SUCCESS)
       }
     }"

end
