(* ===== verification/Json_Write.thy ===== *)
theory Json_Write
  imports Json
begin

text \<open>
  What the JSON writer prints. An element stands for a tree whose strings are byte lists (\<open>models\<close>); \<open>render\<close> is the text of a
  tree, and \<open>emits\<close> the contract of every step of the writer into a buffer: it appends its text, or reports
  that the buffer is too small.
\<close>

section \<open>Trees\<close>

datatype 'f json = JNull | JBool bool | JNum 'f | JStr "u8 list" | JArr "'f node list" | JObj "'f node list"
  and 'f node = Node (nd_name: "u8 list") (nd_val: "'f json")

fun models :: "(str_t \<Rightarrow> u8 list \<Rightarrow> bool) \<Rightarrow> 'f T_JsonElem \<Rightarrow> 'f node \<Rightarrow> bool"
  and models_val :: "(str_t \<Rightarrow> u8 list \<Rightarrow> bool) \<Rightarrow> 'f json_val \<Rightarrow> 'f json \<Rightarrow> bool"
  and models_list :: "(str_t \<Rightarrow> u8 list \<Rightarrow> bool) \<Rightarrow> 'f T_JsonElem list \<Rightarrow> 'f node list \<Rightarrow> bool" where
  "models S (Elem nm v) (Node n j) = (S nm n \<and> models_val S v j)"
| "models_val S JSON_VAL_NULL JNull = True"
| "models_val S (JSON_VAL_BOOL b) (JBool c) = ((b \<noteq> 0) = c)"
| "models_val S (JSON_VAL_NUMBER f) (JNum g) = (f = g)"
| "models_val S (JSON_VAL_STRING s) (JStr bs) = S s bs"
| "models_val S (JSON_VAL_ARRAY es) (JArr ns) = models_list S es ns"
| "models_val S (JSON_VAL_OBJ es) (JObj ns) = models_list S es ns"
| "models_val S _ _ = False"
| "models_list S [] [] = True"
| "models_list S (e # es) (n # ns) = (models S e n \<and> models_list S es ns)"
| "models_list S _ _ = False"

definition str_at :: "mem \<Rightarrow> str_t \<Rightarrow> u8 list \<Rightarrow> bool" where
  "str_at m s bs \<longleftrightarrow> slen s = int (length bs) \<and> bytes_at m (ptr s) bs"

lemma models_mono:
  fixes e :: "'f T_JsonElem" and v :: "'f json_val" and es :: "'f T_JsonElem list"
  shows "models S e n \<Longrightarrow> (\<And>s bs. S s bs \<Longrightarrow> T s bs) \<Longrightarrow> models T e n"
    and "models_val S v j \<Longrightarrow> (\<And>s bs. S s bs \<Longrightarrow> T s bs) \<Longrightarrow> models_val T v j"
    and "models_list S es ns \<Longrightarrow> (\<And>s bs. S s bs \<Longrightarrow> T s bs) \<Longrightarrow> models_list T es ns"
  by (induction S e n and S v j and S es ns rule: models_models_val_models_list.induct) auto

section \<open>The text of a tree\<close>

definition esc_text :: "u8 list \<Rightarrow> u8 list" where
  "esc_text bs = concat (map json_escape bs)"

definition name_text :: "nat \<Rightarrow> bool \<Rightarrow> u8 list \<Rightarrow> u8 list" where
  "name_text ind no_name n =
     (if n = [] then []
      else replicate ind 32 @ (if no_name then [] else [34] @ esc_text n @ [34, 58, 32] @ replicate (20 - length n) 32))"

fun render :: "('f \<Rightarrow> u8 list) \<Rightarrow> nat \<Rightarrow> bool \<Rightarrow> 'f node \<Rightarrow> u8 list"
  and render_inline :: "('f \<Rightarrow> u8 list) \<Rightarrow> nat \<Rightarrow> bool \<Rightarrow> 'f node list \<Rightarrow> u8 list"
  and render_lines :: "('f \<Rightarrow> u8 list) \<Rightarrow> nat \<Rightarrow> bool \<Rightarrow> 'f node list \<Rightarrow> u8 list"
  and render_children :: "('f \<Rightarrow> u8 list) \<Rightarrow> nat \<Rightarrow> bool \<Rightarrow> 'f node list \<Rightarrow> u8 list" where
  "render num ind no_name (Node n v) = name_text ind no_name n @
     (case v of
        JNull \<Rightarrow> NULL_STR
      | JBool b \<Rightarrow> (if b then TRUE_STR else FALSE_STR)
      | JNum f \<Rightarrow> num f
      | JStr s \<Rightarrow> [34] @ esc_text s @ [34]
      | JArr cs \<Rightarrow> render_children num ind True cs
      | JObj cs \<Rightarrow> render_children num ind False cs)"
| "render_inline num ind no_name [] = []"
| "render_inline num ind no_name (c # cs) = render num ind no_name c @ (if cs \<noteq> [] then [44, 32] else []) @ render_inline num ind no_name cs"
| "render_lines num ind no_name [] = []"
| "render_lines num ind no_name (c # cs) = render num ind no_name c @ (if cs \<noteq> [] then [44, 10] else [10]) @ render_lines num ind no_name cs"
| "render_children num ind no_name cs =
     [if no_name then 91 else 123] @ [32] @
     (if cs = [] then []
      else if nd_name (hd cs) = [] then render_inline num ind no_name cs
      else [10] @ render_lines num (ind + 3) no_name cs @ replicate ind 32) @
     [if no_name then 93 else 125]"

text \<open>What the writer can print: the texts of numbers are short enough, and the indentation stays within its buffer.\<close>

fun printable :: "('f \<Rightarrow> u8 list) \<Rightarrow> nat \<Rightarrow> 'f node \<Rightarrow> bool" where
  "printable num ind (Node n v) =
     (ind \<le> 100 \<and>
      (case v of
         JNum f \<Rightarrow> length (num f) < 65
       | JArr cs \<Rightarrow> (\<forall>c\<in>set cs. printable num (if nd_name (hd cs) = [] then ind else ind + 3) c)
       | JObj cs \<Rightarrow> (\<forall>c\<in>set cs. printable num (if nd_name (hd cs) = [] then ind else ind + 3) c)
       | _ \<Rightarrow> True))"

section \<open>Steps of the writer\<close>

definition same_outside :: "addr \<Rightarrow> nat \<Rightarrow> mem \<Rightarrow> mem \<Rightarrow> bool" where
  "same_outside B S m m0 \<longleftrightarrow> length m = length m0 \<and> (\<forall>a. a < B \<or> B + S \<le> a \<longrightarrow> rd m a = rd m0 a)"

definition str_outside :: "mem \<Rightarrow> addr \<Rightarrow> nat \<Rightarrow> str_t \<Rightarrow> u8 list \<Rightarrow> bool" where
  "str_outside m B S s bs \<longleftrightarrow> str_at m s bs \<and> (ptr s + length bs \<le> B \<or> B + S \<le> ptr s)"

definition wstate :: "mem \<Rightarrow> addr \<Rightarrow> nat \<Rightarrow> u8 list \<Rightarrow> nat \<Rightarrow> buf_writer_data write_state \<Rightarrow> bool" where
  "wstate m0 B S out i st \<longleftrightarrow>
     indent st = i \<and> same_outside B S (w_mem st) m0 \<and> user_data st = \<lparr>bw_pos = B + length out, bw_size = S - length out\<rparr> \<and>
     length out + 1 < S \<and> bytes_at (w_mem st) B out \<and> 0 < B \<and> B + S \<le> length m0"

definition emits :: "mem \<Rightarrow> addr \<Rightarrow> nat \<Rightarrow> buf_writer_data write_step \<Rightarrow> nat \<Rightarrow> u8 list \<Rightarrow> nat \<Rightarrow> bool" where
  "emits m0 B S f i bs j \<longleftrightarrow>
     (\<forall>st out. wstate m0 B S out i st \<longrightarrow>
        (if length out + length bs + 1 < S then \<exists>st'. f st = Some (st', EO_SUCCESS) \<and> wstate m0 B S (out @ bs) j st'
         else \<exists>st'. f st = Some (st', EO_TOOBIG) \<and> same_outside B S (w_mem st') m0))"

lemma emits_CHECK:
  assumes "emits m0 B S f i as j" "emits m0 B S g j bs k"
  shows "emits m0 B S (CHECK f g) i (as @ bs) k"
  unfolding emits_def
proof (intro allI impI)
  fix st out
  assume w: "wstate m0 B S out i st"
  show "if length out + length (as @ bs) + 1 < S then \<exists>st'. CHECK f g st = Some (st', EO_SUCCESS) \<and> wstate m0 B S (out @ as @ bs) k st'
    else \<exists>st'. CHECK f g st = Some (st', EO_TOOBIG) \<and> same_outside B S (w_mem st') m0"
  proof (cases "length out + length as + 1 < S")
    case True
    then obtain st1 where st1: "f st = Some (st1, EO_SUCCESS)" "wstate m0 B S (out @ as) j st1"
      using assms(1) w unfolding emits_def by (metis (full_types))
    have "if length (out @ as) + length bs + 1 < S then \<exists>st'. g st1 = Some (st', EO_SUCCESS) \<and> wstate m0 B S ((out @ as) @ bs) k st'
      else \<exists>st'. g st1 = Some (st', EO_TOOBIG) \<and> same_outside B S (w_mem st') m0"
      using assms(2) st1(2) unfolding emits_def by blast
    then show ?thesis using st1(1) by (simp add: CHECK_def add.assoc split: if_splits)
  next
    case False
    then obtain st1 where "f st = Some (st1, EO_TOOBIG)" "same_outside B S (w_mem st1) m0"
      using assms(1) w unfolding emits_def by (metis (full_types))
    then show ?thesis using False by (simp add: CHECK_def error_codes)
  qed
qed

lemma emits_done: "emits m0 B S done_ok i [] i"
  by (simp add: emits_def done_ok_def wstate_def)

lemma emits_cong:
  assumes "emits m0 B S g i bs j" "\<And>st. indent st = i \<Longrightarrow> f st = g st"
  shows "emits m0 B S f i bs j"
proof -
  have "f st = g st" if "wstate m0 B S out i st" for st out using that assms(2) by (simp add: wstate_def)
  then show ?thesis using assms(1) unfolding emits_def by (metis (no_types, lifting))
qed

lemma emits_put: "emits m0 B S (put buf_writer bs) i bs i"
  unfolding emits_def
proof (intro allI impI)
  fix st out
  assume w: "wstate m0 B S out i st"
  note w' = w[unfolded wstate_def same_outside_def]
  show "if length out + length bs + 1 < S then \<exists>st'. put buf_writer bs st = Some (st', EO_SUCCESS) \<and> wstate m0 B S (out @ bs) i st'
    else \<exists>st'. put buf_writer bs st = Some (st', EO_TOOBIG) \<and> same_outside B S (w_mem st') m0"
  proof (cases "length out + length bs + 1 < S")
    case True
    have "\<exists>m1. wr_bytes (w_mem st) (B + length out) bs = Some m1" using w' True by (auto simp: wr_bytes_def)
    then obtain m1 where m1: "wr_bytes (w_mem st) (B + length out) bs = Some m1" ..
    note a = wr_bytes_at[OF m1]
    have "bytes_at m1 B out" using w' a by (subst bytes_at_cong[of _ _ _ "w_mem st"]) auto
    then have "wstate m0 B S (out @ bs) i (st\<lparr>w_mem := m1, user_data := \<lparr>bw_pos = B + length out + length bs, bw_size = S - length out - length bs\<rparr>\<rparr>)"
      using w' a True by (auto simp: wstate_def same_outside_def)
    then show ?thesis using w' m1 True by (auto simp: put_def buf_writer_def)
  next
    case False
    then show ?thesis using w' by (auto simp: put_def buf_writer_def same_outside_def)
  qed
qed

lemma length_json_escape: "length (json_escape c) \<in> {1, 2, 6}"
  by (simp add: json_escape_def)

lemma esc_fill_text:
  assumes "bytes_at m ip bs" "esc_fill m ip (length bs) buf = Some r" "length buf \<le> ESC_BUF_LEN"
  shows "\<exists>k\<le>length bs. r = (ip + k, length bs - k, buf @ esc_text (take k bs))"
  using assms
proof (induction bs arbitrary: ip buf)
  case Nil
  then show ?case by (simp add: esc_text_def)
next
  case (Cons c cs)
  let ?go = "length buf = ESC_BUF_LEN \<or> ESC_BUF_LEN - length buf < 2 \<or> length (json_escape c) = 6 \<and> ESC_BUF_LEN - length buf < 6"
  show ?case
  proof (cases ?go)
    case True
    then have "r = (ip, length (c # cs), buf)" using Cons.prems by (auto split: if_splits)
    then show ?thesis by (intro exI[of _ 0]) (simp add: esc_text_def)
  next
    case False
    then have "esc_fill m (ip + 1) (length cs) (buf @ json_escape c) = Some r" using Cons.prems by auto
    moreover have "length (buf @ json_escape c) \<le> ESC_BUF_LEN" using False length_json_escape[of c] Cons.prems(3) by auto
    ultimately obtain k where "k \<le> length cs" "r = (ip + 1 + k, length cs - k, (buf @ json_escape c) @ esc_text (take k cs))"
      using Cons.IH[of "ip + 1" "buf @ json_escape c"] Cons.prems(1) by auto
    then show ?thesis by (intro exI[of _ "Suc k"]) (simp add: esc_text_def)
  qed
qed

lemma esc_fill_some: "bytes_at m ip bs \<Longrightarrow> \<exists>r. esc_fill m ip (length bs) buf = Some r"
  by (induction bs arbitrary: ip buf) auto

lemma emits_escaped:
  assumes "bytes_at m0 ip bs" "ip + length bs \<le> B \<or> B + S \<le> ip"
  shows "emits m0 B S (write_escaped buf_writer ip (length bs)) i (esc_text bs) i"
  using assms
proof (induction "length bs" arbitrary: ip bs rule: less_induct)
  case less
  show ?case
  proof (cases "bs = []")
    case True
    have "emits m0 B S (write_escaped buf_writer ip (length bs)) i [] i"
      by (rule emits_cong[OF emits_done]) (simp add: True write_escaped.simps[of _ _ 0])
    then show ?thesis using True by (simp add: esc_text_def)
  next
    case False
    show ?thesis unfolding emits_def
    proof (intro allI impI)
      fix st out
      assume w: "wstate m0 B S out i st"
      then have "bytes_at (w_mem st) ip bs" using less.prems unfolding wstate_def same_outside_def
        by (subst bytes_at_cong[of _ _ _ m0]) auto
      note b = this
      obtain r where r: "esc_fill (w_mem st) ip (length bs) [] = Some r" using esc_fill_some[OF b] by blast
      then obtain k where k: "k \<le> length bs" "r = (ip + k, length bs - k, esc_text (take k bs))"
        using esc_fill_text[OF b r] by auto
      obtain n where n: "length bs = Suc n" using False by (cases bs) auto
      have "length bs - k < length bs" using esc_fill_less[of "w_mem st" ip n] r k n by simp
      then have IH: "emits m0 B S (write_escaped buf_writer (ip + k) (length (drop k bs))) i (esc_text (drop k bs)) i"
        using less.prems k(1) bytes_at_drop[of m0 ip bs k] by (intro less.hyps) auto
      have e: "write_escaped buf_writer ip (length bs) st =
          CHECK (put buf_writer (esc_text (take k bs))) (write_escaped buf_writer (ip + k) (length (drop k bs))) st"
        using r k False by (subst write_escaped.simps) (simp add: CHECK_def)
      have t: "esc_text bs = esc_text (take k bs) @ esc_text (drop k bs)"
        unfolding esc_text_def by (metis append_take_drop_id concat_append map_append)
      show "if length out + length (esc_text bs) + 1 < S
        then \<exists>st'. write_escaped buf_writer ip (length bs) st = Some (st', EO_SUCCESS) \<and> wstate m0 B S (out @ esc_text bs) i st'
        else \<exists>st'. write_escaped buf_writer ip (length bs) st = Some (st', EO_TOOBIG) \<and> same_outside B S (w_mem st') m0"
        unfolding e t using emits_CHECK[OF emits_put IH] w unfolding emits_def by blast
    qed
  qed
qed

lemma emits_string:
  "str_outside m0 B S s bs \<Longrightarrow> emits m0 B S (write_string_escaped buf_writer s) i (esc_text bs) i"
  using emits_escaped[of m0 "ptr s" bs B S i] by (simp add: str_outside_def str_at_def write_string_escaped_def emits_def)

lemma emits_indent:
  "i \<le> 100 \<Longrightarrow> emits m0 B S (put_indent buf_writer) i (replicate i 32) i"
  by (rule emits_cong[OF emits_put]) (simp add: put_indent_def MAX_INDENT_def)

lemma emits_set: "emits m0 B S (set_indent j) i [] j"
  by (simp add: emits_def set_indent_def wstate_def)

lemma emits_unindent: "emits m0 B S (unindent True) (i + 3) [] i"
  by (simp add: emits_def unindent_def wstate_def JSON_INDENT_SIZE_def)

lemma emits_name:
  assumes "str_outside m0 B S nm n" "i \<le> 100"
  shows "emits m0 B S (put_name buf_writer nm no_name) i (name_text i no_name n) i"
proof (cases "n = []")
  case True
  then show ?thesis using assms(1) emits_done by (simp add: put_name_def name_text_def str_outside_def str_at_def)
next
  case False
  have s: "slen nm = int (length n)" using assms(1) by (simp add: str_outside_def str_at_def)
  have pad: "emits m0 B S (if slen nm < int JSON_NAME_MIN_LEN then put buf_writer (replicate (JSON_NAME_MIN_LEN - nat (slen nm)) 32) else done_ok) i
      (replicate (20 - length n) 32) i"
    using emits_put[of m0 B S "replicate (20 - length n) 32" i] emits_done[of m0 B S i] by (simp add: s JSON_NAME_MIN_LEN_def)
  let ?named = "CHECK (put buf_writer [34]) (CHECK (write_string_escaped buf_writer nm) (CHECK (put buf_writer [34, 58, 32])
    (if slen nm < int JSON_NAME_MIN_LEN then put buf_writer (replicate (JSON_NAME_MIN_LEN - nat (slen nm)) 32) else done_ok)))"
  have "emits m0 B S ?named i ([34] @ esc_text n @ [34, 58, 32] @ replicate (20 - length n) 32) i"
    by (intro emits_CHECK[OF emits_put] emits_CHECK[OF emits_string[OF assms(1)]] pad)
  then have "emits m0 B S (if no_name then done_ok else ?named) i
      (if no_name then [] else [34] @ esc_text n @ [34, 58, 32] @ replicate (20 - length n) 32) i"
    using emits_done by simp
  from emits_CHECK[OF emits_indent[OF assms(2)] this]
  show ?thesis using False s by (simp add: put_name_def name_text_def)
qed

lemma models_list_hd: "models_list S es ns \<Longrightarrow> (es = []) = (ns = []) \<and> (es \<noteq> [] \<longrightarrow> S (el_name (hd es)) (nd_name (hd ns)))"
proof (cases es; cases ns)
  fix e es' n ns'
  assume "models_list S es ns" "es = e # es'" "ns = n # ns'"
  then show ?thesis by (cases e; cases n) simp
qed auto

lemma emits_children:
  assumes mo: "models_list (str_outside m0 B S) es ns" and i: "i \<le> 100"
    and pr: "\<forall>c\<in>set ns. printable num (if nd_name (hd ns) = [] then i else i + 3) c"
    and IH: "\<And>j no_name. \<forall>c\<in>set ns. printable num j c \<Longrightarrow>
      emits m0 B S (write_inline num buf_writer es no_name) j (render_inline num j no_name ns) j \<and>
      emits m0 B S (write_lines num buf_writer es no_name) j (render_lines num j no_name ns) j"
  shows "emits m0 B S (write_children num buf_writer es no_name) i (render_children num i no_name ns) i"
proof -
  let ?inner = "if es = [] then done_ok
         else if slen (el_name (hd es)) = 0 then write_inline num buf_writer es no_name
         else (\<lambda>st.
           (let added = (indent st < MAX_INDENT) in
            CHECK (set_indent (if added then indent st + JSON_INDENT_SIZE else indent st))
             (CHECK (put buf_writer [10]) (CHECK (write_lines num buf_writer es no_name) (CHECK (unindent added) (put_indent buf_writer)))) st))"
  let ?text = "if ns = [] then []
      else if nd_name (hd ns) = [] then render_inline num i no_name ns
      else [10] @ render_lines num (i + 3) no_name ns @ replicate i 32"
  note h = models_list_hd[OF mo]
  have "emits m0 B S ?inner i ?text i"
  proof (cases "ns = []")
    case True
    then show ?thesis using h emits_done by simp
  next
    case ne: False
    then have s: "es \<noteq> []" "slen (el_name (hd es)) = int (length (nd_name (hd ns)))" using h by (auto simp: str_outside_def str_at_def)
    show ?thesis
    proof (cases "nd_name (hd ns) = []")
      case True
      then show ?thesis using IH[of i no_name] pr ne s by simp
    next
      case False
      then have "printable num (i + 3) (hd ns)" using pr ne by simp
      then have b: "i + 3 \<le> 100" by (cases "hd ns") simp
      have l: "emits m0 B S (write_lines num buf_writer es no_name) (i + 3) (render_lines num (i + 3) no_name ns) (i + 3)"
        using IH[of "i + 3" no_name] pr False by simp
      have "emits m0 B S (CHECK (set_indent (i + 3)) (CHECK (put buf_writer [10]) (CHECK (write_lines num buf_writer es no_name)
          (CHECK (unindent True) (put_indent buf_writer))))) i ([] @ [10] @ render_lines num (i + 3) no_name ns @ [] @ replicate i 32) i"
        by (intro emits_CHECK[OF emits_set] emits_CHECK[OF emits_put] emits_CHECK[OF l] emits_CHECK[OF emits_unindent] emits_indent i)
      then have "emits m0 B S (\<lambda>st.
           (let added = (indent st < MAX_INDENT) in
            CHECK (set_indent (if added then indent st + JSON_INDENT_SIZE else indent st))
             (CHECK (put buf_writer [10]) (CHECK (write_lines num buf_writer es no_name) (CHECK (unindent added) (put_indent buf_writer)))) st)) i
          ([] @ [10] @ render_lines num (i + 3) no_name ns @ [] @ replicate i 32) i"
        by (rule emits_cong) (use b in \<open>simp add: MAX_INDENT_def JSON_INDENT_SIZE_def Let_def\<close>)
      then show ?thesis using ne False s by simp
    qed
  qed
  from emits_CHECK[OF emits_put emits_CHECK[OF emits_put emits_CHECK[OF this emits_put]]]
  have "emits m0 B S (CHECK (put buf_writer [if no_name then 91 else 123]) (CHECK (put buf_writer [32])
      (CHECK ?inner (put buf_writer [if no_name then 93 else 125])))) i
    ([if no_name then 91 else 123] @ [32] @ ?text @ [if no_name then 93 else 125]) i" .
  then show ?thesis by (simp only: render_children.simps write_children.simps[abs_def])
qed

lemma emits_elem:
  fixes e :: "'f T_JsonElem" and n :: "'f node"
  shows "models (str_outside m0 B S) e n \<Longrightarrow> printable num i n \<Longrightarrow>
      emits m0 B S (elem_write num buf_writer e no_name) i (render num i no_name n) i"
    and "models_val (str_outside m0 B S) v j \<Longrightarrow> printable num i (Node [] j) \<Longrightarrow>
      emits m0 B S (case v of
         JSON_VAL_NULL \<Rightarrow> put buf_writer NULL_STR
       | JSON_VAL_BOOL b \<Rightarrow> put buf_writer (if b \<noteq> 0 then TRUE_STR else FALSE_STR)
       | JSON_VAL_NUMBER f \<Rightarrow> (if length (num f) \<ge> 65 then \<lambda>st. Some (st, EO_TOOBIG) else put buf_writer (num f))
       | JSON_VAL_STRING s \<Rightarrow> CHECK (put buf_writer [34]) (CHECK (write_string_escaped buf_writer s) (put buf_writer [34]))
       | JSON_VAL_ARRAY cs \<Rightarrow> write_children num buf_writer cs True
       | JSON_VAL_OBJ cs \<Rightarrow> write_children num buf_writer cs False) i
       (case j of
          JNull \<Rightarrow> NULL_STR
        | JBool b \<Rightarrow> (if b then TRUE_STR else FALSE_STR)
        | JNum f \<Rightarrow> num f
        | JStr s \<Rightarrow> [34] @ esc_text s @ [34]
        | JArr cs \<Rightarrow> render_children num i True cs
        | JObj cs \<Rightarrow> render_children num i False cs) i"
    and "models_list (str_outside m0 B S) es ns \<Longrightarrow> (\<forall>c\<in>set ns. printable num i c) \<Longrightarrow>
      emits m0 B S (write_inline num buf_writer es no_name) i (render_inline num i no_name ns) i \<and>
      emits m0 B S (write_lines num buf_writer es no_name) i (render_lines num i no_name ns) i"
proof (induction "str_outside m0 B S" e n and "str_outside m0 B S" v j and "str_outside m0 B S" es ns
    arbitrary: i no_name and i and i no_name rule: models_models_val_models_list.induct)
  case (1 nm v n j)
  have "elem_write num buf_writer (Elem nm v) no_name = CHECK (put_name buf_writer nm no_name) (case v of
         JSON_VAL_NULL \<Rightarrow> put buf_writer NULL_STR
       | JSON_VAL_BOOL b \<Rightarrow> put buf_writer (if b \<noteq> 0 then TRUE_STR else FALSE_STR)
       | JSON_VAL_NUMBER f \<Rightarrow> (if length (num f) \<ge> 65 then \<lambda>st. Some (st, EO_TOOBIG) else put buf_writer (num f))
       | JSON_VAL_STRING s \<Rightarrow> CHECK (put buf_writer [34]) (CHECK (write_string_escaped buf_writer s) (put buf_writer [34]))
       | JSON_VAL_ARRAY cs \<Rightarrow> write_children num buf_writer cs True
       | JSON_VAL_OBJ cs \<Rightarrow> write_children num buf_writer cs False)" by (rule ext) simp
  moreover have "printable num i (Node [] j)" "i \<le> 100" using "1.prems"(2) by (cases j; simp)+
  ultimately show ?case using emits_CHECK[OF emits_name "1.hyps"] "1.prems"(1) by simp
next
  case (5 s bs)
  have "emits m0 B S (CHECK (put buf_writer [34]) (CHECK (write_string_escaped buf_writer s) (put buf_writer [34]))) i
      ([34] @ esc_text bs @ [34]) i"
    by (intro emits_CHECK[OF emits_put] emits_CHECK[OF emits_string] emits_put) (use "5.prems" in simp)
  then show ?case by simp
next
  case (6 es ns)
  then show ?case using emits_children[of m0 B S es ns i num True] by simp
next
  case (7 es ns)
  then show ?case using emits_children[of m0 B S es ns i num False] by simp
next
  case 9
  show ?case using emits_cong[OF emits_done, of i "write_inline num buf_writer [] no_name"]
      emits_cong[OF emits_done, of i "write_lines num buf_writer [] no_name"] by simp
next
  case (10 e es n ns)
  have c: "(es = []) = (ns = [])" using models_list_hd[of "str_outside m0 B S" es ns] "10.prems"(1) by simp
  have s: "emits m0 B S (if es \<noteq> [] then put buf_writer [44, 32] else done_ok) i (if ns \<noteq> [] then [44, 32] else []) i"
    "emits m0 B S (put buf_writer (if es \<noteq> [] then [44, 10] else [10])) i (if ns \<noteq> [] then [44, 10] else [10]) i"
    using c emits_put emits_done by auto
  have IH: "emits m0 B S (elem_write num buf_writer e no_name) i (render num i no_name n) i"
    "emits m0 B S (write_inline num buf_writer es no_name) i (render_inline num i no_name ns) i"
    "emits m0 B S (write_lines num buf_writer es no_name) i (render_lines num i no_name ns) i"
    using "10.hyps"[of i] "10.prems" by simp_all
  show ?case
    using emits_CHECK[OF IH(1) emits_CHECK[OF s(1) IH(2)]] emits_CHECK[OF IH(1) emits_CHECK[OF s(2) IH(3)]]
    by (simp only: write_inline.simps(2)[abs_def] write_lines.simps(2)[abs_def] render_inline.simps render_lines.simps)
qed (auto intro: emits_put emits_done)

lemma JSON_ElemWrite_core:
  assumes "models (str_outside m B S) e n" "printable num 0 n" "0 < B" "B + S \<le> length m" "2 \<le> S"
  shows "if length (render num 0 False n) + 1 < S
    then \<exists>m'. JSON_ElemWrite num e m B S = Some (m', length (render num 0 False n), EO_SUCCESS) \<and>
      bytes_at m' B (render num 0 False n @ [0]) \<and> same_outside B S m' m
    else \<exists>m'. JSON_ElemWrite num e m B S = Some (m', S, EO_TOOBIG) \<and> same_outside B S m' m"
proof -
  let ?t = "render num 0 False n" and ?st = "\<lparr>w_mem = m, user_data = \<lparr>bw_pos = B, bw_size = S\<rparr>, indent = 0\<rparr>"
  have w: "wstate m B S [] 0 ?st" using assms(3-5) by (simp add: wstate_def same_outside_def)
  note em = emits_elem(1)[OF assms(1,2), of False, unfolded emits_def, rule_format, OF w]
  show ?thesis
  proof (cases "length ?t + 1 < S")
    case True
    then obtain st' where st': "elem_write num buf_writer e False ?st = Some (st', EO_SUCCESS)" "wstate m B S ?t 0 st'"
      using em by auto
    have p: "0 < B + length ?t" "B + length ?t < length (w_mem st')" using st'(2) True assms(3) by (auto simp: wstate_def same_outside_def)
    let ?m = "(w_mem st')[B + length ?t := 0]"
    have wr: "wr (w_mem st') (B + length ?t) 0 = Some ?m" using p by (simp add: wr_def)
    have "bytes_at ?m B ?t" using st'(2) rd_wr[OF wr] by (subst bytes_at_cong[of _ _ _ "w_mem st'"]) (auto simp: wstate_def)
    moreover have "same_outside B S ?m m" using st'(2) True rd_wr[OF wr] by (auto simp: wstate_def same_outside_def)
    moreover have "rd ?m (B + length ?t) = Some 0" using rd_wr[OF wr] by simp
    ultimately show ?thesis using st' True wr by (simp add: JSON_ElemWrite_def JSON_ElemWritef_def wstate_def)
  next
    case False
    then obtain st' where "elem_write num buf_writer e False ?st = Some (st', EO_TOOBIG)" "same_outside B S (w_mem st') m" using em by auto
    then show ?thesis using False by (simp add: JSON_ElemWrite_def JSON_ElemWritef_def error_codes)
  qed
qed

section \<open>The indentation buffer\<close>

text \<open>Objects nested \<open>n\<close> deep, each the only member of the one around it.\<close>

fun nested :: "str_t \<Rightarrow> nat \<Rightarrow> 'f T_JsonElem" where
  "nested nm 0 = Elem nm JSON_VAL_NULL"
| "nested nm (Suc n) = Elem nm (JSON_VAL_OBJ [nested nm n])"

definition null_writer :: "unit json_writer" where
  "null_writer bs m u = Some (m, u, EO_SUCCESS)"

lemma put_null [simp]: "put null_writer bs st = Some (st, EO_SUCCESS)"
  by (simp add: put_def null_writer_def)

lemma el_name_nested [simp]: "el_name (nested nm n) = nm"
  by (cases n) simp_all

lemma write_nested:
  assumes "slen nm = 1" "rd (w_mem st) (ptr nm) = Some 97" "3 dvd indent st" "indent st \<le> 102"
  shows "elem_write num null_writer (nested nm n) False st = (if indent st + 3 * n \<le> 99 then Some (st, EO_SUCCESS) else None)"
  using assms(2-4)
proof (induction n arbitrary: st)
  case (0 st)
  have "write_escaped null_writer (ptr nm) 1 st = Some (st, EO_SUCCESS)"
    using 0 by (simp add: write_escaped.simps[of _ _ "Suc 0"] write_escaped.simps[of _ _ 0] ESC_BUF_LEN_def json_escape_def done_ok_def)
  moreover have "indent st \<le> 100 \<longleftrightarrow> indent st \<le> 99" using 0 by presburger
  ultimately show ?case using assms(1)
    by (auto simp: put_name_def CHECK_def put_indent_def MAX_INDENT_def write_string_escaped_def JSON_NAME_MIN_LEN_def)
next
  case (Suc n st)
  have e: "write_escaped null_writer (ptr nm) 1 st = Some (st, EO_SUCCESS)"
    using Suc.prems by (simp add: write_escaped.simps[of _ _ "Suc 0"] write_escaped.simps[of _ _ 0] ESC_BUF_LEN_def json_escape_def done_ok_def)
  have d: "indent st \<le> 100 \<longleftrightarrow> indent st \<le> 99" using Suc.prems by presburger
  show ?case
  proof (cases "indent st \<le> 99")
    case True
    then show ?thesis using assms(1) e Suc.IH[of "st\<lparr>indent := indent st + 3\<rparr>"] Suc.prems
      by (auto simp: put_name_def CHECK_def put_indent_def MAX_INDENT_def write_string_escaped_def JSON_NAME_MIN_LEN_def
          set_indent_def unindent_def JSON_INDENT_SIZE_def done_ok_def Let_def)
  next
    case False
    then show ?thesis using assms(1) d by (auto simp: put_name_def CHECK_def put_indent_def MAX_INDENT_def)
  qed
qed

section \<open>Properties\<close>

text \<open>C33: writing an element into a buffer prints exactly the text of its tree, with a null character behind it, reports its length and
touches nothing outside the buffer, when one byte more than text and null character is free; otherwise the
writer reports EO_TOOBIG. The strings of the element must lie outside the buffer.\<close>

theorem JSON_ElemWrite_renders:
  assumes "models (str_outside m B S) e n" "printable num 0 n" "0 < B" "B + S \<le> length m" "2 \<le> S"
  shows "if length (render num 0 False n) + 1 < S
    then \<exists>m'. JSON_ElemWrite num e m B S = Some (m', length (render num 0 False n), EO_SUCCESS) \<and>
      bytes_at m' B (render num 0 False n @ [0]) \<and> same_outside B S m' m
    else \<exists>m'. JSON_ElemWrite num e m B S = Some (m', S, EO_TOOBIG) \<and> same_outside B S m' m"
  by (rule JSON_ElemWrite_core[OF assms])

lemma JSON_ElemWrite_renders_witness:
  "\<exists>m'. JSON_ElemWrite (\<lambda>_ :: unit. []) (Elem \<lparr>ptr = 1, slen = 0\<rparr> (JSON_VAL_STRING \<lparr>ptr = 1, slen = 1\<rparr>)) (0 # 34 # replicate 9 0) 2 9 =
    Some (m', 4, EO_SUCCESS) \<and> bytes_at m' 2 [34, 92, 34, 34, 0]"
proof -
  let ?m = "0 # 34 # replicate 9 0 :: mem" and ?n = "Node [] (JStr [34]) :: unit node"
  let ?e = "Elem \<lparr>ptr = 1, slen = 0\<rparr> (JSON_VAL_STRING \<lparr>ptr = 1, slen = 1\<rparr>) :: unit T_JsonElem"
  have mo: "models (str_outside ?m 2 9) ?e ?n" by (simp add: str_outside_def str_at_def rd_def)
  have t: "render (\<lambda>_ :: unit. []) 0 False ?n = [34, 92, 34, 34]" by (simp add: esc_text_def json_escape_def name_text_def)
  have "\<exists>m'. JSON_ElemWrite (\<lambda>_. []) ?e ?m 2 9 = Some (m', length [34, 92, 34, 34 :: u8], EO_SUCCESS) \<and>
      bytes_at m' 2 ([34, 92, 34, 34] @ [0]) \<and> same_outside 2 9 m' ?m"
    using JSON_ElemWrite_renders[OF mo, of "\<lambda>_ :: unit. []"] unfolding t by (simp del: bytes_at.simps replicate.simps)
  moreover have "length [34, 92, 34, 34 :: u8] = 4" by simp
  ultimately show ?thesis by (metis append_Cons append_Nil)
qed

text \<open>The writer handles objects with names nested up to 33 deep and no deeper: at the 34th level the indentation is 102,
more than the 100 blanks of its buffer, and the blanks are read from behind it.\<close>

theorem JSON_nesting_overreads:
  assumes "slen nm = 1" "rd m (ptr nm) = Some 97"
  shows "JSON_ElemWritef num null_writer (nested nm n) m u =
    (if n \<le> 33 then Some (\<lparr>w_mem = m, user_data = u, indent = 0\<rparr>, EO_SUCCESS) else None)"
proof -
  have "0 + 3 * n \<le> 99 \<longleftrightarrow> n \<le> 33" by simp
  then show ?thesis using write_nested[of nm "\<lparr>w_mem = m, user_data = u, indent = 0\<rparr>" num n] assms
    by (simp add: JSON_ElemWritef_def)
qed

lemma JSON_nesting_overreads_witness:
  "JSON_ElemWritef (\<lambda>_ :: unit. []) null_writer (nested \<lparr>ptr = 1, slen = 1\<rparr> 34) [0, 97] () = None"
  using JSON_nesting_overreads[of "\<lparr>ptr = 1, slen = 1\<rparr>" "[0, 97]" "\<lambda>_ :: unit. []" 34 "()"] by (simp add: rd_def del: nested.simps)

end
