(* ===== verification/Json_Parse.thy ===== *)
theory Json_Parse
  imports Json_Write
begin

text \<open>
  The parser on texts of the writer. \<open>jat E m sc bs\<close> says that the scanner, which skips blanks and new lines, has \<open>bs\<close> before
  it; \<open>readable\<close> are the trees whose text the parser reads back, \<open>need\<close> the memory and \<open>fuel\<close> the depth that takes.
\<close>

section \<open>The scanner in the parser\<close>

definition ws :: "u8 list \<Rightarrow> u8 list" where
  "ws bs = dropWhile white bs"

definition jat :: "addr \<Rightarrow> mem \<Rightarrow> scanner_t \<Rightarrow> u8 list \<Rightarrow> bool" where
  "jat E m sc bs \<longleftrightarrow> rest m sc bs \<and> skip_ws sc = 5 \<and> sc_begin sc \<le> curptr sc \<and> sc_end sc = E"

lemma white_iff: "white c \<longleftrightarrow> c = 32 \<or> c = 9 \<or> c = 13 \<or> c = 10"
  by (auto simp: white_def SCAN_IS_SPACE_def SCAN_IS_NEWLINE_def)

lemma ws_simps [simp]: "ws [] = []" "white c \<Longrightarrow> ws (c # bs) = ws bs" "\<not> white c \<Longrightarrow> ws (c # bs) = c # bs" "ws (replicate k 32 @ bs) = ws bs"
  by (simp_all add: ws_def white_iff dropWhile_append)

lemma ws_app: "\<forall>c\<in>set xs. white c \<Longrightarrow> ws (xs @ bs) = ws bs"
  by (induction xs) simp_all

lemma ws_hd: "xs \<noteq> [] \<Longrightarrow> \<not> white (hd xs) \<Longrightarrow> ws (xs @ bs) = xs @ bs"
  by (cases xs) simp_all

lemma jat_options: "jat E m sc bs \<Longrightarrow> plain_options sc \<and> skipped sc = white \<and> 0 < curptr sc \<and> curptr sc < length m"
  using bytes_at_bound[of m "curptr sc" "bs @ [0]"]
  by (auto simp: jat_def plain_options_def has_option_def skipped_def white_def SCAN_AUTOSKIP_WS_HEADER_def SCAN_AUTOSKIP_NEWLINE_def
      rest_def fun_eq_iff)

lemma jat_grow: "jat E m sc bs \<Longrightarrow> jat E (m @ ys) sc bs"
  by (simp add: jat_def rest_def bytes_at_grow del: bytes_at_append)

lemma jat_takes: "jat E m sc (xs @ bs) \<Longrightarrow> takes m sc xs bs sc' \<Longrightarrow> jat E m sc' (ws bs)"
  using jat_options[of E m sc "xs @ bs"] length_dropWhile_le[of white bs]
  by (auto simp: takes_def jat_def after_def same_but_pos_def ws_def rest_def)

lemma jat_rd: "jat E m sc bs \<Longrightarrow> rd m (curptr sc) = Some (hd (bs @ [0]))"
  using rest_rd by (auto simp: jat_def)

lemma jat_char:
  assumes "jat E m sc (c # bs)" "c \<noteq> 0"
  shows "\<exists>sc'. scan_get_char m sc = Some (sc', c) \<and> jat E m sc' (ws bs)"
proof -
  have "rest m sc (c # bs)" "plain_options sc" using assms(1) jat_options[OF assms(1)] by (auto simp: jat_def)
  from scan_get_char_core[OF this] assms(2) obtain sc' where "scan_get_char m sc = Some (sc', c)" "takes m sc [c] bs sc'" by auto
  then show ?thesis using jat_takes[of E m sc "[c]" bs] assms(1) by auto
qed

lemma unat_numeral_34: "unat (34 :: u8) = 34"
  by simp

lemma jat_until:
  assumes "jat E m sc (xs @ 34 # bs)" "\<forall>c\<in>set xs. c \<noteq> 34" 
  shows "\<exists>sc'. scan_get_until_ch m sc 34 = Some (sc', Some (tok sc xs)) \<and> jat E m sc' (34 # bs)"
proof -
  have eq: "int (unat c) = 34 \<longleftrightarrow> c = 34" for c :: u8
    by (metis int_ops(1) of_nat_eq_iff of_nat_numeral unat_numeral_34 word_unat_eq_iff)
  have "rest m sc (xs @ 34 # bs)" "plain_options sc" using assms(1) jat_options[OF assms(1)] by (auto simp: jat_def)
  from get_until_core[OF this, of "\<lambda>c. int (unat c) = 34"]
  have "\<exists>sc'. get_until m sc (\<lambda>c. int (unat c) = 34) = Some (sc', Some (tok sc (takeWhile (\<lambda>c. c \<noteq> 34) (xs @ 34 # bs)))) \<and>
      takes m sc (takeWhile (\<lambda>c. c \<noteq> 34) (xs @ 34 # bs)) (dropWhile (\<lambda>c. c \<noteq> 34) (xs @ 34 # bs)) sc'"
    unfolding eq by simp
  moreover have "takeWhile (\<lambda>c. c \<noteq> 34) (xs @ 34 # bs) = xs" "dropWhile (\<lambda>c. c \<noteq> 34) (xs @ 34 # bs) = 34 # bs"
    using assms(2) by (simp_all add: takeWhile_append dropWhile_append)
  ultimately obtain sc' where "scan_get_until_ch m sc 34 = Some (sc', Some (tok sc xs))" "takes m sc xs (34 # bs) sc'"
    by (auto simp: scan_get_until_ch_def)
  then show ?thesis using jat_takes[OF assms(1)] by (auto simp: white_iff)
qed

lemma jat_tok: "jat E m sc (xs @ bs) \<Longrightarrow> str_at m (tok sc xs) xs"
  by (simp add: jat_def rest_def str_at_def tok_def)

lemma str_at_grow: "str_at m s bs \<Longrightarrow> str_at (m @ ys) s bs"
  by (simp add: str_at_def bytes_at_grow)

section \<open>Readable trees\<close>

definition plain_char :: "u8 \<Rightarrow> bool" where
  "plain_char c \<longleftrightarrow> 32 \<le> c \<and> c < 127 \<and> c \<noteq> 34 \<and> c \<noteq> 92 \<and> c \<noteq> 47"

definition plain :: "u8 list \<Rightarrow> bool" where
  "plain bs \<longleftrightarrow> (\<forall>c\<in>set bs. plain_char c) \<and> (bs \<noteq> [] \<longrightarrow> hd bs \<noteq> 32)"

definition num_char :: "u8 \<Rightarrow> bool" where
  "num_char c \<longleftrightarrow> c \<in> {46, 48, 49, 50, 51, 52, 53, 54, 55, 56, 57}"

definition num_ok :: "(u8 list \<Rightarrow> 'f) \<Rightarrow> ('f \<Rightarrow> 'f) \<Rightarrow> ('f \<Rightarrow> u8 list) \<Rightarrow> 'f \<Rightarrow> bool" where
  "num_ok strtof neg num f \<longleftrightarrow>
     (case num f of [] \<Rightarrow> False
      | c # ds \<Rightarrow>
          if c = 45 then ds \<noteq> [] \<and> (\<forall>d\<in>set ds. num_char d) \<and> neg (strtof ds) = f
          else (\<forall>d\<in>set (c # ds). num_char d) \<and> strtof (c # ds) = f)"

fun readable :: "(u8 list \<Rightarrow> 'f) \<Rightarrow> ('f \<Rightarrow> 'f) \<Rightarrow> ('f \<Rightarrow> u8 list) \<Rightarrow> bool \<Rightarrow> 'f node \<Rightarrow> bool" where
  "readable strtof neg num no_name (Node nm v) =
     (plain nm \<and> (no_name \<longrightarrow> nm = []) \<and>
      (case v of
         JNum f \<Rightarrow> num_ok strtof neg num f
       | JStr s \<Rightarrow> nm = [] \<longrightarrow> s \<noteq> [] \<and> plain s
       | JArr cs \<Rightarrow> \<forall>c\<in>set cs. readable strtof neg num True c
       | JObj cs \<Rightarrow> \<forall>c\<in>set cs. readable strtof neg num False c
       | _ \<Rightarrow> True))"

fun need :: "'f node \<Rightarrow> nat" and need_list :: "'f node list \<Rightarrow> nat" where
  "need (Node nm v) = JSON_ELEM_SIZE +
     (case v of
        JStr s \<Rightarrow> if nm \<noteq> [] \<and> 92 \<in> set (esc_text s) then length (esc_text s) else 0
      | JArr cs \<Rightarrow> need_list cs
      | JObj cs \<Rightarrow> need_list cs
      | _ \<Rightarrow> 0)"
| "need_list [] = 0"
| "need_list (c # cs) = need c + need_list cs"

fun fuel :: "'f node \<Rightarrow> nat" and fuel_list :: "'f node list \<Rightarrow> nat" where
  "fuel (Node nm v) = Suc (case v of JArr cs \<Rightarrow> fuel_list cs | JObj cs \<Rightarrow> fuel_list cs | _ \<Rightarrow> 0)"
| "fuel_list [] = 1"
| "fuel_list (c # cs) = Suc (max (fuel c) (fuel_list cs))"

section \<open>Strings\<close>

lemma esc_simps [simp]: "esc_text [] = []" "esc_text (c # cs) = json_escape c @ esc_text cs"
  by (simp_all add: esc_text_def)

lemma esc_plain: "\<forall>c\<in>set bs. plain_char c \<Longrightarrow> esc_text bs = bs"
proof (induction bs)
  case (Cons c cs)
  have "plain_char c" using Cons.prems by simp
  then have "c \<noteq> 34 \<and> c \<noteq> 92 \<and> c \<noteq> 47 \<and> c \<noteq> 8 \<and> c \<noteq> 12 \<and> c \<noteq> 10 \<and> c \<noteq> 13 \<and> c \<noteq> 9" "32 \<le> c \<and> c < 127"
    unfolding plain_char_def by (safe; simp)+
  then have "json_escape c = [c]" by (simp only: json_escape_def if_False if_True simp_thms)
  then show ?case using Cons by simp
qed simp

lemma plain_text: "plain bs \<Longrightarrow> esc_text bs = bs \<and> (\<forall>c\<in>set bs. c \<noteq> 34 \<and> c \<noteq> 92) \<and> (bs \<noteq> [] \<longrightarrow> ws (bs @ r) = bs @ r)"
proof -
  assume p: "plain bs"
  have "\<not> white (hd bs)" if "bs \<noteq> []"
  proof -
    have "plain_char (hd bs)" "hd bs \<noteq> 32" using p that by (simp_all add: plain_def)
    then show ?thesis by (auto simp: white_iff plain_char_def)
  qed
  then show ?thesis using p esc_plain[of bs] ws_hd[of bs r] by (auto simp: plain_def plain_char_def)
qed

lemma esc_char_json:
  "json_escape c = [c] \<and> c \<noteq> 92 \<and> c \<noteq> 34 \<and> c \<noteq> 10 \<or>
   (\<exists>d. json_escape c = [92, d] \<and> d \<noteq> 117 \<and> d \<noteq> 10 \<and> esc_char d = Some c) \<or>
   json_escape c = [92, 117, 48, 48, c_hex_digits ! (unat c div 16), c_hex_digits ! (unat c mod 16)]"
  by (auto simp: json_escape_def esc_char_def)

lemma hex_digits_facts:
  "n < 16 \<Longrightarrow> c_hex_digit_to_val (c_hex_digits ! n) = n \<and> c_hex_digits ! n \<notin> {10, 34, 92}"
proof -
  assume "n < 16"
  then have "n \<in> set [0, 1, 2, 3, 4, 5, 6, 7, 8, 9, 10, 11, 12, 13, 14, 15]" by (auto simp: numeral_eq_Suc less_Suc_eq)
  then show ?thesis unfolding list.set insert_iff empty_iff
    by (elim disjE) (simp_all add: c_hex_digits_def c_hex_digit_to_val_def sub32_def u32_def)
qed

lemma hex_back: "of_nat (c_hex_digit_to_val (c_hex_digits ! (unat c div 16)) * 16 + c_hex_digit_to_val (c_hex_digits ! (unat c mod 16))) = (c :: u8)"
  using hex_digits_facts[OF nibble_hi[of c]] hex_digits_facts[of "unat c mod 16"] by (simp del: of_nat_add of_nat_mult)

lemma close_quote_esc: "close_quote 34 False (esc_text s @ 34 # r) = Some (length (esc_text s))"
proof (induction s)
  case (Cons c cs)
  have h: "c_hex_digits ! (unat c div 16) \<notin> {10, 34, 92}" "c_hex_digits ! (unat c mod 16) \<notin> {10, 34, 92}"
    using hex_digits_facts[OF nibble_hi[of c]] hex_digits_facts[of "unat c mod 16"] by simp_all
  show ?case using esc_char_json[of c]
  proof (elim disjE exE)
    assume "json_escape c = [92, 117, 48, 48, c_hex_digits ! (unat c div 16), c_hex_digits ! (unat c mod 16)]"
    then show ?thesis using Cons.IH h by simp
  qed (use Cons.IH in auto)
qed simp

lemma add_6: "n + 6 = Suc (Suc (Suc (Suc (Suc (Suc n)))))"
  by simp

lemma unescape_one:
  assumes b: "bytes_at m ip (json_escape c @ r)" and e: "iend = ip + length (json_escape c) + length r" and w: "wr m op c = Some m1"
  shows "unescape_str m iend ip op = unescape_str m1 iend (ip + length (json_escape c)) (op + 1)"
proof -
  from esc_char_json[of c] show ?thesis
  proof (elim disjE exE conjE)
    assume c: "json_escape c = [c]" "c \<noteq> 92"
    have "rd m ip = Some c" "ip \<noteq> iend" using b e unfolding c(1) by simp_all
    then show ?thesis using w c(2) unfolding c(1) unescape_str.simps[of m iend ip op] by simp
  next
    fix d
    assume c: "json_escape c = [92, d]" "d \<noteq> 117" "esc_char d = Some c"
    have "rd m ip = Some 92" "rd m (ip + 1) = Some d" "ip \<noteq> iend" "ip + 1 \<noteq> iend" using b e unfolding c(1) by simp_all
    then show ?thesis using w c(2,3) unfolding c(1) unescape_str.simps[of m iend ip op] by simp
  next
    assume c: "json_escape c = [92, 117, 48, 48, c_hex_digits ! (unat c div 16), c_hex_digits ! (unat c mod 16)]"
    have n: "ip + 4 = Suc (Suc (Suc (Suc ip)))" "ip + 5 = Suc (Suc (Suc (Suc (Suc ip))))" by simp_all
    have "rd m ip = Some 92" "rd m (ip + 1) = Some 117" "rd m (ip + 4) = Some (c_hex_digits ! (unat c div 16))"
      "rd m (ip + 5) = Some (c_hex_digits ! (unat c mod 16))" using b unfolding c n by simp_all
    moreover have "ip \<noteq> iend" "ip + 1 \<noteq> iend" "\<not> int iend - int (ip + 2) < 4" using e unfolding c by simp_all
    moreover have "wr m op (of_nat (c_hex_digit_to_val (c_hex_digits ! (unat c div 16)) * 16 + c_hex_digit_to_val (c_hex_digits ! (unat c mod 16)))) = Some m1"
      unfolding hex_back by (rule w)
    ultimately show ?thesis unfolding unescape_str.simps[of m iend ip op] c by (simp del: of_nat_add of_nat_mult add: add_6)
  qed
qed

lemma unescape_str_text:
  assumes "bytes_at m ip (esc_text s)" "iend = ip + length (esc_text s)" "iend \<le> op" "op + length s \<le> length m"
  shows "\<exists>m'. unescape_str m iend ip op = Some (m', op + length s, None) \<and> bytes_at m' op s \<and> length m' = length m \<and>
    take op m' = take op m"
  using assms
proof (induction s arbitrary: m ip op)
  case Nil
  then show ?case by (auto simp: unescape_str.simps[of m])
next
  case (Cons c cs)
  let ?k = "length (json_escape c)"
  have k: "0 < ?k" using length_json_escape[of c] by auto
  have ip: "0 < ip" "ip + ?k + length (esc_text cs) \<le> length m" using bytes_at_bound[OF Cons.prems(1)] k by auto
  have o: "0 < op" "op < length m" using Cons.prems(2-4) ip k by auto
  let ?m = "m[op := c]"
  have w: "wr m op c = Some ?m" using o by (simp add: wr_Some)
  note f = rd_wr[OF w]
  have "bytes_at ?m (ip + ?k) (esc_text cs)" using Cons.prems(1-3) f by (subst bytes_at_cong[of _ _ _ m]) auto
  moreover have "iend = ip + ?k + length (esc_text cs)" "iend \<le> op + 1" "op + 1 + length cs \<le> length ?m" using Cons.prems(2-4) by simp_all
  ultimately have "\<exists>m'. unescape_str ?m iend (ip + ?k) (op + 1) = Some (m', op + 1 + length cs, None) \<and> bytes_at m' (op + 1) cs \<and>
      length m' = length ?m \<and> take (op + 1) m' = take (op + 1) ?m" by (rule Cons.IH)
  then obtain m' where m': "unescape_str ?m iend (ip + ?k) (op + 1) = Some (m', op + 1 + length cs, None)" "bytes_at m' (op + 1) cs"
    "length m' = length m" "take (op + 1) m' = take (op + 1) ?m" by auto
  have "unescape_str m iend ip op = unescape_str ?m iend (ip + ?k) (op + 1)"
    using unescape_one[of m ip c "esc_text cs" iend op] Cons.prems(1,2) w by simp
  moreover have "m' ! a = ?m ! a" if "a < op + 1" for a using m'(4) that by (metis nth_take)
  then have "m' ! op = c" "\<forall>a<op. m' ! a = m ! a" using o by auto
  then have "rd m' op = Some c" "take op m' = take op m" using o m'(3) by (auto simp: rd_def intro: nth_equalityI)
  ultimately show ?case using m'(1-3) by simp
qed

lemma memchr_text: "bytes_at m p bs \<Longrightarrow> 0 < p \<Longrightarrow> \<exists>a. memchr m p c (length bs) = Some a \<and> (a = 0 \<longleftrightarrow> c \<notin> set bs)"
  by (induction bs arbitrary: p) auto

lemma strchr_text: "str_at m s bs \<Longrightarrow> length bs < 2 ^ 32 \<Longrightarrow> \<exists>a. c_strchr m s c = Some a \<and> (a = 0 \<longleftrightarrow> c \<notin> set bs)"
  using memchr_text[of m "ptr s" bs c] bytes_at_bound[of m "ptr s" bs] by (auto simp: str_at_def c_strchr_def)

section \<open>The parts of an element\<close>

lemma parse_quoted_string_text:
  assumes j: "jat E m sc (34 # esc_text s @ 34 # bs)" and a: "92 \<in> set (esc_text s) \<Longrightarrow> length m + length (esc_text s) < 2 ^ 32"
  shows "\<exists>ys sc' t. parse_quoted_string m sc = Some (m @ ys, sc', t, 0) \<and> jat E (m @ ys) sc' (ws bs) \<and> str_at (m @ ys) t s \<and>
    length ys = (if 92 \<in> set (esc_text s) then length (esc_text s) else 0)"
proof -
  let ?e = "esc_text s"
  have r: "rest m sc ((34 # ?e @ [34]) @ bs)" "plain_options sc" "sc_begin sc \<le> curptr sc"
    using j jat_options[OF j] by (auto simp: jat_def)
  have k: "close_quote 34 False (tl ((34 # ?e @ [34]) @ bs)) = Some (length ?e)" using close_quote_esc[of s bs] by simp
  from scan_get_quote_core[OF r, of 34 34] k
  obtain sc' where sc': "scan_get_quote m sc 34 34 = Some (sc', Some (tok sc (34 # ?e @ [34])))" "takes m sc (34 # ?e @ [34]) bs sc'"
    by auto
  have j': "jat E m sc' (ws bs)" using jat_takes[of E m sc "34 # ?e @ [34]" bs sc'] j sc'(2) by simp
  define t where "t = \<lparr>ptr = curptr sc + 1, slen = int (length ?e)\<rparr>"
  have b: "bytes_at m (curptr sc + 1) (?e @ [34])" using r(1) by (simp add: rest_def)
  then have t: "str_at m t ?e" by (simp add: t_def str_at_def)
  obtain q where q: "c_strchr m t 92 = Some q" "q = 0 \<longleftrightarrow> 92 \<notin> set ?e" using strchr_text[OF t, of 92] r(1) by (auto simp: rest_def)
  have tk: "\<lparr>ptr = ptr (tok sc (34 # ?e @ [34])) + 1, slen = slen (tok sc (34 # ?e @ [34])) - 2\<rparr> = t"
    by (simp add: tok_def t_def)
  show ?thesis
  proof (cases "q = 0")
    case True
    have "?e = s" using q(2) True
    proof (induction s)
      case (Cons c cs)
      then show ?case using esc_char_json[of c] by auto
    qed simp
    then have "str_at (m @ []) t s" using t by simp
    then show ?thesis using True q sc'(1) j' tk by (intro exI[of _ "[]"] exI[of _ sc'] exI[of _ t]) (simp add: parse_quoted_string_def)
  next
    case False
    let ?m1 = "m @ replicate (length ?e) 0"
    have g: "bytes_at ?m1 (curptr sc + 1) ?e" using b by (simp add: bytes_at_grow del: bytes_at_append) (meson bytes_at_append bytes_at_grow)
    have bd: "curptr sc + 1 + length ?e \<le> length m" "0 < curptr sc" using bytes_at_bound[OF b] jat_options[OF j] by auto
    have le: "length s \<le> length ?e" by (induction s) (auto simp: json_escape_def)
    obtain m' where m': "unescape_str ?m1 (curptr sc + 1 + length ?e) (curptr sc + 1) (length m) = Some (m', length m + length s, None)"
      "bytes_at m' (length m) s" "length m' = length ?m1" "take (length m) m' = m"
      using unescape_str_text[OF g refl, of "length m"] bd le by auto
    define ys where "ys = drop (length m) m'"
    have ys: "m' = m @ ys" "length ys = length ?e" using m'(3,4) by (auto simp: ys_def) (metis append_take_drop_id take_all_iff append_eq_conv_conj order_refl)
    have "pool_alloc m (length ?e) = (?m1, length m)" using a q(2) False by (simp add: pool_alloc_def)
    then have "parse_quoted_string m sc = Some (m', sc', \<lparr>ptr = length m, slen = int (length s)\<rparr>, 0)"
      using sc'(1) tk q False m'(1) by (simp add: parse_quoted_string_def t_def)
    moreover have "str_at m' \<lparr>ptr = length m, slen = int (length s)\<rparr> s" using m'(2) by (simp add: str_at_def)
    ultimately show ?thesis using ys jat_grow[OF j', of ys] q False by auto
  qed
qed

lemma parse_label_text:
  assumes j: "jat E m sc (34 # xs @ 34 # bs)" and p: "plain xs" "xs \<noteq> []"
  shows "\<exists>t. str_at m t xs \<and>
    (hd (ws bs @ [0]) \<noteq> 58 \<longrightarrow> (\<exists>sc'. parse_label m sc = Some (sc', \<lparr>ptr = 0, slen = 0\<rparr>, t) \<and> jat E m sc' (ws bs))) \<and>
    (\<forall>r. ws bs = 58 # r \<longrightarrow> (\<exists>sc'. parse_label m sc = Some (sc', t, \<lparr>ptr = 0, slen = 0\<rparr>) \<and> jat E m sc' (ws r)))"
proof -
  have x: "\<forall>c\<in>set xs. c \<noteq> 34" "ws (xs @ 34 # bs) = xs @ 34 # bs" using plain_text[OF p(1)] p(2) by auto
  obtain sc1 where s1: "scan_get_char m sc = Some (sc1, 34)" "jat E m sc1 (xs @ 34 # bs)" using jat_char[OF j] x(2) by auto
  obtain sc2 where s2: "scan_get_until_ch m sc1 34 = Some (sc2, Some (tok sc1 xs))" "jat E m sc2 (34 # bs)"
    using jat_until[OF s1(2) x(1)] by auto
  obtain sc3 where s3: "scan_get_char m sc2 = Some (sc3, 34)" "jat E m sc3 (ws bs)" using jat_char[OF s2(2)] by auto
  note c = jat_rd[OF s3(2)]
  have "\<exists>sc'. parse_label m sc = Some (sc', tok sc1 xs, \<lparr>ptr = 0, slen = 0\<rparr>) \<and> jat E m sc' (ws r)" if "ws bs = 58 # r" for r
    using jat_char[of E m sc3 58 r] s3(2) s1(1) s2(1) s3(1) c that by (auto simp: parse_label_def)
  moreover have "\<exists>sc'. parse_label m sc = Some (sc', \<lparr>ptr = 0, slen = 0\<rparr>, tok sc1 xs) \<and> jat E m sc' (ws bs)" if "hd (ws bs @ [0]) \<noteq> 58"
    using s3(2) s1(1) s2(1) s3(1) c that by (auto simp: parse_label_def)
  ultimately show ?thesis using jat_tok[OF s1(2)] by blast
qed

lemma float_spec_match: "\<exists>spec. float_spec = Some spec \<and> (\<forall>c. cis_match spec c \<longleftrightarrow> num_char c)"
proof -
  have i: "cis_init cis_buf_init = (cis_buf_init\<lparr>use_mask := 1\<rparr>, 0, EO_SUCCESS)"
    by (simp add: cis_init_def cis_buf_init_def CIS_MAX_INDEX_def bit_at_def numeral_eq_Suc Let_def)
  let ?cb = "cis_buf_init\<lparr>use_mask := 1\<rparr>" and ?ds = "[46, 48, 49, 50, 51, 52, 53, 54, 55, 56, 57] :: u8 list"
  have e: "sets (cis_buf ?cb) 0 = {}" by (auto simp: sets_def cis_buf_init_def isset_bit)
  have "length (cis_buf ?cb) = 256" by (simp add: cis_buf_init_def)
  from cis_add_str_core[OF this, of 0 ?ds] e
  obtain cb where cb: "cis_add_str ?cb 0 ?ds = Some cb" "length (cis_buf cb) = 256" "sets (cis_buf cb) 0 = str_set ?ds"
    by (auto simp: changes_def)
  have "cis_match (cis_buf cb, 0) c \<longleftrightarrow> num_char c" for c
  proof -
    have "unat c < 256" using unsigned_less[where 'a = nat, of c] by simp
    then have "cis_match (cis_buf cb, 0) c \<longleftrightarrow> unat c \<in> str_set ?ds" using isset_sets[of "unat c" "cis_buf cb" 0] cb by (simp add: cis_match_def)
    also have "\<dots> \<longleftrightarrow> c \<in> set ?ds" by (auto simp: str_set_def word_unat_eq_iff)
    finally show ?thesis by (auto simp: num_char_def)
  qed
  then show ?thesis using cb(1) i by (simp add: float_spec_def)
qed

lemma num_char_facts: "num_char c \<Longrightarrow> \<not> white c \<and> c \<noteq> 0 \<and> c \<noteq> 34 \<and> c \<noteq> 44 \<and> c \<noteq> 45 \<and> c \<noteq> 93 \<and> c \<noteq> 125"
  by (auto simp: num_char_def white_iff)

lemma parse_number_text:
  assumes sp: "\<forall>c. cis_match spec c \<longleftrightarrow> num_char c" and ok: "num_ok strtof neg num f" and t: "\<not> num_char (hd (bs @ [0]))"
    and j: "jat E m sc (num f @ bs)"
  shows "\<exists>sc'. parse_number strtof neg spec m sc = Some (sc', f) \<and> jat E m sc' (ws bs)"
proof -
  have get: "\<exists>sc' tk. scan_get m sc1 spec = Some (sc', Some tk) \<and> jat E m sc' (ws bs) \<and> rd_bytes m (ptr tk) (nat (slen tk)) = Some ds"
    if d: "jat E m sc1 (ds @ bs)" "ds \<noteq> []" "\<forall>c\<in>set ds. num_char c" for sc1 ds
  proof -
    have a: "rest m sc1 (ds @ bs)" "plain_options sc1" using d(1) jat_options[OF d(1)] by (auto simp: jat_def)
    have z: "\<not> cis_match spec 0" using sp by (simp add: num_char_def)
    have "cis_match spec = num_char" using sp by auto
    moreover have "takeWhile num_char (ds @ bs) = ds" "dropWhile num_char (ds @ bs) = bs" using d(3) t by (cases bs; auto simp: takeWhile_append dropWhile_append)+
    moreover have "ds @ bs \<noteq> [] \<and> num_char (hd (ds @ bs))" using d(2,3) by (cases ds) auto
    ultimately obtain sc' where "scan_get m sc1 spec = Some (sc', Some (tok sc1 ds))" "takes m sc1 ds bs sc'"
      using scan_get_core[OF a z] by auto
    moreover have "rd_bytes m (ptr (tok sc1 ds)) (nat (slen (tok sc1 ds))) = Some ds"
      using rd_bytes_at[of m "curptr sc1" ds] a(1) by (simp add: tok_def rest_def)
    ultimately show ?thesis using jat_takes[OF d(1)] by blast
  qed
  obtain c ds where n: "num f = c # ds" using ok by (auto simp: num_ok_def split: list.splits)
  have c: "rd m (curptr sc) = Some c" using jat_rd[OF j] n by simp
  show ?thesis
  proof (cases "c = 45")
    case True
    then have d: "ds \<noteq> []" "\<forall>d\<in>set ds. num_char d" "neg (strtof ds) = f" using ok n by (auto simp: num_ok_def)
    then have "ws (ds @ bs) = ds @ bs" using num_char_facts by (intro ws_hd) (cases ds; auto)+
    then obtain sc1 where "scan_get_char m sc = Some (sc1, 45)" "jat E m sc1 (ds @ bs)" using jat_char[of E m sc 45 "ds @ bs"] j n True by auto
    then show ?thesis using get[of sc1 ds] d c True by (auto simp: parse_number_def)
  next
    case False
    then have "\<forall>d\<in>set (c # ds). num_char d" "strtof (c # ds) = f" using ok n by (auto simp: num_ok_def)
    then show ?thesis using get[of sc "c # ds"] j n c False by (auto simp: parse_number_def)
  qed
qed

lemma cmp_text_same: "bytes_at m p s \<Longrightarrow> \<forall>c\<in>set s. c \<noteq> 0 \<Longrightarrow> cmp_text m (\<lambda>c. c) p s (length s) = Some 0"
  by (induction s arbitrary: p) auto

lemma jat_err: "jat E m sc bs \<Longrightarrow> jat E m (scan_syntax_err sc) bs"
  by (simp add: jat_def scan_syntax_err_def rest_def)

lemma jat_strcmp:
  assumes j: "jat E m sc bs" and s: "s \<noteq> []" "\<forall>c\<in>set s. c \<noteq> 0" "length s < 2 ^ 31"
    and h: "hd (bs @ [0]) \<noteq> hd s \<or> (\<exists>y. bs = s @ y)"
  shows "\<exists>sc' r. scan_strcmp m sc s (int (length s)) = Some (sc', r) \<and> jat E m sc' bs \<and>
    (hd (bs @ [0]) \<noteq> hd s \<longrightarrow> r \<noteq> 0) \<and> ((\<exists>y. bs = s @ y) \<longrightarrow> r = 0)"
proof -
  have e: "sc_end sc = curptr sc + length bs" "sc_end sc < 2 ^ 31" "bytes_at m (curptr sc) (bs @ [0])" using j by (auto simp: jat_def rest_def)
  have b: "beyond sc (int (length s)) \<longleftrightarrow> length s > length bs" using e(1,2) s(3) by (simp add: beyond_def)
  show ?thesis
  proof (cases "\<exists>y. bs = s @ y")
    case True
    then obtain y where y: "bs = s @ y" by blast
    then have "cmp_text m (\<lambda>c. c) (curptr sc) s (length s) = Some 0" using e(3) s(2) by (intro cmp_text_same) simp_all
    then show ?thesis using y b j s(1,3) by (auto simp: scan_strcmp_def hd_append)
  next
    case False
    then have h: "hd (bs @ [0]) \<noteq> hd s" using h by blast
    show ?thesis
    proof (cases "beyond sc (int (length s))")
      case True
      then show ?thesis using False jat_err[OF j] by (auto simp: scan_strcmp_def)
    next
      case nb: False
      obtain c cs where cs: "s = c # cs" using s(1) by (cases s) auto
      have "rd m (curptr sc) = Some (hd (bs @ [0]))" by (rule jat_rd[OF j])
      then have "\<exists>r. cmp_text m (\<lambda>c. c) (curptr sc) s (length s) = Some r \<and> r \<noteq> 0" using h cs by (simp add: Let_def)
      then show ?thesis using False nb j s(3) by (auto simp: scan_strcmp_def)
    qed
  qed
qed

lemma jat_advance:
  assumes "jat E m sc (xs @ bs)"
  shows "\<exists>sc'. scan_advance_n m sc (length xs) True = Some sc' \<and> jat E m sc' (ws bs)"
proof -
  have r: "rest m sc (xs @ bs)" "plain_options sc" "skip_ws sc \<noteq> 0" using assms jat_options[OF assms] by (auto simp: jat_def)
  have "u32 (curptr sc + length xs) = curptr sc + length xs" using r(1) by (simp add: rest_def u32_id)
  moreover obtain sc' where "advance_to m sc (curptr sc + length xs) = Some sc'" "takes m sc xs bs sc'" by (rule advance_to_takes[OF r(1,2)])
  ultimately show ?thesis using r jat_takes[OF assms] by (auto simp: scan_advance_n_def advance_to_def rest_def)
qed

lemma parse_word_text:
  assumes p: "p \<noteq> 0"
  shows "jat E m sc (FALSE_STR @ bs) \<Longrightarrow> \<exists>sc'. parse_word m sc nm p = Some (sc', Some (Elem nm (JSON_VAL_BOOL 0))) \<and> jat E m sc' (ws bs)"
    and "jat E m sc (TRUE_STR @ bs) \<Longrightarrow> \<exists>sc'. parse_word m sc nm p = Some (sc', Some (Elem nm (JSON_VAL_BOOL 1))) \<and> jat E m sc' (ws bs)"
    and "jat E m sc (NULL_STR @ bs) \<Longrightarrow> \<exists>sc'. parse_word m sc nm p = Some (sc', Some (Elem nm JSON_VAL_NULL)) \<and> jat E m sc' (ws bs)"
proof -
  note d = FALSE_STR_def TRUE_STR_def NULL_STR_def
  note e = parse_word_def set_elem_def JSON_ElemSetBool_def JSON_ElemSetNull_def EL_INIT_def p
  have cmp: "\<exists>sc' r. scan_strcmp m sc s (int (length s)) = Some (sc', r) \<and> jat E m sc' (t @ bs) \<and> (r = 0 \<longleftrightarrow> s = t)"
    if "jat E m sc (t @ bs)" "s \<in> {FALSE_STR, TRUE_STR, NULL_STR}" "t \<in> {FALSE_STR, TRUE_STR, NULL_STR}" for sc s t
  proof (cases "s = t")
    case True
    then show ?thesis using jat_strcmp[OF that(1), of s] that(2) by (auto simp: d)
  next
    case False
    then show ?thesis using jat_strcmp[OF that(1), of s] that(2,3) by (auto simp: d)
  qed
  have l: "length FALSE_STR = 5" "length TRUE_STR = 4" "length NULL_STR = 4" by (simp_all add: d)
  have ne: "FALSE_STR \<noteq> TRUE_STR" "FALSE_STR \<noteq> NULL_STR" "TRUE_STR \<noteq> NULL_STR" by (simp_all add: d)
  show "\<exists>sc'. parse_word m sc nm p = Some (sc', Some (Elem nm (JSON_VAL_BOOL 0))) \<and> jat E m sc' (ws bs)" if j: "jat E m sc (FALSE_STR @ bs)"
  proof -
    obtain sc1 where s1: "scan_strcmp m sc FALSE_STR 5 = Some (sc1, 0)" "jat E m sc1 (FALSE_STR @ bs)" using cmp[OF j, of FALSE_STR] l by auto
    show ?thesis using s1 jat_advance[OF s1(2)] l by (auto simp: e)
  qed
  show "\<exists>sc'. parse_word m sc nm p = Some (sc', Some (Elem nm (JSON_VAL_BOOL 1))) \<and> jat E m sc' (ws bs)" if j: "jat E m sc (TRUE_STR @ bs)"
  proof -
    obtain sc1 r where s1: "scan_strcmp m sc FALSE_STR 5 = Some (sc1, r)" "jat E m sc1 (TRUE_STR @ bs)" "r \<noteq> 0" using cmp[OF j, of FALSE_STR] l ne by auto
    obtain sc2 where s2: "scan_strcmp m sc1 TRUE_STR 4 = Some (sc2, 0)" "jat E m sc2 (TRUE_STR @ bs)" using cmp[OF s1(2), of TRUE_STR] l by auto
    show ?thesis using s1 s2 jat_advance[OF s2(2)] l by (auto simp: e)
  qed
  show "\<exists>sc'. parse_word m sc nm p = Some (sc', Some (Elem nm JSON_VAL_NULL)) \<and> jat E m sc' (ws bs)" if j: "jat E m sc (NULL_STR @ bs)"
  proof -
    obtain sc1 r where s1: "scan_strcmp m sc FALSE_STR 5 = Some (sc1, r)" "jat E m sc1 (NULL_STR @ bs)" "r \<noteq> 0" using cmp[OF j, of FALSE_STR] l ne by auto
    obtain sc2 r2 where s2: "scan_strcmp m sc1 TRUE_STR 4 = Some (sc2, r2)" "jat E m sc2 (NULL_STR @ bs)" "r2 \<noteq> 0" using cmp[OF s1(2), of TRUE_STR] l ne by auto
    obtain sc3 where s3: "scan_strcmp m sc2 NULL_STR 4 = Some (sc3, 0)" "jat E m sc3 (NULL_STR @ bs)" using cmp[OF s2(2), of NULL_STR] l by auto
    show ?thesis using s1 s2 s3 jat_advance[OF s3(2)] l by (auto simp: e)
  qed
qed

section \<open>Values\<close>

definition value_body :: "(mem \<Rightarrow> scanner_t \<Rightarrow> 'f T_JsonElem \<Rightarrow> 'f parsed) \<Rightarrow> (u8 list \<Rightarrow> 'f) \<Rightarrow> ('f \<Rightarrow> 'f) \<Rightarrow> cis_t \<Rightarrow>
    mem \<Rightarrow> addr \<Rightarrow> scanner_t \<Rightarrow> str_t \<Rightarrow> 'f parsed" where
  "value_body children strtof neg spec m1 p sc1 name =
     do {
       c \<leftarrow> rd m1 (curptr sc1);
       if cis_match spec c \<or> c = 45
       then do {
         (sc2, f) \<leftarrow> parse_number strtof neg spec m1 sc1;
         e \<leftarrow> set_elem p (JSON_ElemSetNumber (Some name) f);
         Some (m1, sc2, Some e)
       }
       else if c = 34
       then do {
         (m2, sc2, token, err) \<leftarrow> parse_quoted_string m1 sc1;
         if err \<noteq> 0 then Some (m2, sc2\<lparr>curptr := curptr sc1 + err\<rparr>, None)
         else do { e \<leftarrow> set_elem p (JSON_ElemSetString (Some name) token); Some (m2, sc2, Some e) }
       }
       else if c_isalpha c
       then do { (sc2, e) \<leftarrow> parse_word m1 sc1 name p; Some (m1, sc2, e) }
       else if c = 91
       then do { e \<leftarrow> set_elem p (JSON_ElemSetArray (Some name)); children m1 sc1 e }
       else if c = 123
       then do { e \<leftarrow> set_elem p (JSON_ElemSetObj (Some name)); children m1 sc1 e }
       else Some (m1, sc1, None)
     }"

lemma parse_elem_body_value:
  "parse_elem_body children strtof neg spec m sc =
     do {
       let (m1, p) = pool_alloc m JSON_ELEM_SIZE;
       c0 \<leftarrow> rd m1 (curptr sc);
       (sc1, name, value) \<leftarrow> (if c0 = 34 then parse_label m1 sc else Some (sc, \<lparr>ptr = 0, slen = 0\<rparr>, \<lparr>ptr = 0, slen = 0\<rparr>));
       if slen value \<noteq> 0
       then do { e \<leftarrow> set_elem p (JSON_ElemSetString (Some name) value); Some (m1, sc1, Some e) }
       else value_body children strtof neg spec m1 p sc1 name
     }"
  unfolding parse_elem_body_def value_body_def by (rule refl)

definition vtext :: "('f \<Rightarrow> u8 list) \<Rightarrow> nat \<Rightarrow> 'f json \<Rightarrow> u8 list" where
  "vtext num ind v = render num ind False (Node [] v)"

lemma render_vtext: "render num ind nn (Node nm v) = name_text ind nn nm @ vtext num ind v"
  by (simp add: vtext_def name_text_def)

lemma vtext_simps:
  "vtext num ind JNull = NULL_STR" "vtext num ind (JBool b) = (if b then TRUE_STR else FALSE_STR)" "vtext num ind (JNum f) = num f"
  "vtext num ind (JStr s) = [34] @ esc_text s @ [34]" "vtext num ind (JArr cs) = render_children num ind True cs"
  "vtext num ind (JObj cs) = render_children num ind False cs"
  by (simp_all add: vtext_def name_text_def)

definition tail_ok :: "u8 list \<Rightarrow> bool" where
  "tail_ok bs \<longleftrightarrow> \<not> num_char (hd (bs @ [0])) \<and> hd (ws bs @ [0]) \<noteq> 58"

text \<open>How a value starts: never with a blank, a comma or a closing bracket.\<close>

definition starts :: "u8 \<Rightarrow> bool" where
  "starts c \<longleftrightarrow> \<not> white c \<and> c \<noteq> 0 \<and> c \<noteq> 44 \<and> c \<noteq> 93 \<and> c \<noteq> 125"

lemma num_start: "num_ok strtof neg num f \<Longrightarrow> \<exists>c r. num f = c # r \<and> starts c \<and> (num_char c \<or> c = 45)"
proof -
  assume n: "num_ok strtof neg num f"
  obtain c r where c: "num f = c # r" using n by (cases "num f") (simp_all add: num_ok_def)
  then have h: "num_char c \<or> c = 45" using n by (simp add: num_ok_def split: if_splits)
  have "starts 45" by (simp add: starts_def white_iff)
  moreover have "starts c" if "num_char c" using num_char_facts[OF that] by (simp add: starts_def)
  ultimately show ?thesis using c h by blast
qed

lemma vtext_start:
  assumes "readable strtof neg num nn (Node nm v)"
  shows "\<exists>c r. vtext num ind v = c # r \<and> starts c \<and> (c = 34 \<longleftrightarrow> (\<exists>s. v = JStr s))"
proof (cases v)
  case (JNum f)
  then have "num_ok strtof neg num f" using assms by simp
  from num_start[OF this] obtain c r where c: "num f = c # r" "starts c" "num_char c \<or> c = 45" by (elim exE conjE)
  have "c \<noteq> 34" if "num_char c" using num_char_facts[OF that] by simp
  moreover have "(45 :: u8) \<noteq> 34" by simp
  ultimately have "c \<noteq> 34" using c(3) by metis
  then show ?thesis using JNum c by (simp add: vtext_simps)
next
  case (JBool b)
  then show ?thesis by (cases b) (simp_all add: vtext_simps starts_def white_iff TRUE_STR_def FALSE_STR_def)
qed (simp_all add: vtext_simps starts_def white_iff NULL_STR_def)

lemma elem_start:
  assumes "readable strtof neg num nn (Node nm v)"
  shows "\<exists>c r. ws (render num ind nn (Node nm v) @ bs) = c # r \<and> starts c"
proof (cases "nm = []")
  case True
  then show ?thesis using vtext_start[OF assms, of ind] by (auto simp: render_vtext name_text_def starts_def simp del: render.simps)
next
  case False
  then have "\<not> nn" using assms by auto
  then show ?thesis using False by (simp add: render_vtext name_text_def starts_def white_iff del: render.simps)
qed

text \<open>What a step that parses \<open>v\<close> has to give: memory added at the end, and the scanner behind the value.\<close>

definition gives_val :: "addr \<Rightarrow> mem \<Rightarrow> str_t \<Rightarrow> u8 list \<Rightarrow> nat \<Rightarrow> 'f json \<Rightarrow> 'f parsed \<Rightarrow> bool" where
  "gives_val E m nm tail k v r \<longleftrightarrow>
     (\<exists>ys sc' v'. r = Some (m @ ys, sc', Some (Elem nm v')) \<and> models_val (str_at (m @ ys)) v' v \<and>
        jat E (m @ ys) sc' (ws tail) \<and> length ys = k)"

lemma gives_val_same:
  "r = Some (m, sc', Some (Elem nm v')) \<Longrightarrow> models_val (str_at m) v' v \<Longrightarrow> jat E m sc' (ws tail) \<Longrightarrow> gives_val E m nm tail 0 v r"
  unfolding gives_val_def by (intro exI[of _ "[]"]) auto

lemma value_body_simple:
  fixes strtof :: "u8 list \<Rightarrow> 'f"
  assumes sp: "\<forall>c. cis_match spec c \<longleftrightarrow> num_char c" and j: "jat E m sc (vtext num ind v @ tail)" and p: "p \<noteq> 0"
    and t: "tail_ok tail"
    and v: "v = JNull \<or> (\<exists>b. v = JBool b) \<or> (\<exists>f. v = JNum f \<and> num_ok strtof neg num f)"
  shows "gives_val E m nm tail 0 v (value_body children strtof neg spec m p sc nm)"
proof -
  note c = jat_rd[OF j]
  note e = set_elem_def JSON_ElemSetNumber_def EL_INIT_def p
  have al: "c_isalpha 110" "c_isalpha 116" "c_isalpha 102" "\<not> num_char 110" "\<not> num_char 116" "\<not> num_char 102"
    by (simp_all add: c_isalpha_def c_islower_def num_char_def)
  from v show ?thesis
  proof (elim disjE exE conjE)
    assume v: "v = JNull"
    then obtain sc' where "parse_word m sc nm p = Some (sc', Some (Elem nm (JSON_VAL_NULL :: 'f json_val)))" "jat E m sc' (ws tail)"
      using parse_word_text(3)[OF p, of E m sc tail nm] j by (auto simp: vtext_simps)
    then show ?thesis using c sp al v by (intro gives_val_same[of _ m sc' nm JSON_VAL_NULL]) (simp_all add: value_body_def vtext_simps NULL_STR_def)
  next
    fix b
    assume v: "v = JBool b"
    then obtain sc' where "parse_word m sc nm p = Some (sc', Some (Elem nm (JSON_VAL_BOOL (if b then 1 else 0) :: 'f json_val)))" "jat E m sc' (ws tail)"
      using parse_word_text(1,2)[OF p, of E m sc tail nm] j by (cases b) (auto simp: vtext_simps)
    then show ?thesis using c sp al v
      by (intro gives_val_same[of _ m sc' nm "JSON_VAL_BOOL (if b then 1 else 0)"]; cases b) (simp_all add: value_body_def vtext_simps TRUE_STR_def FALSE_STR_def)
  next
    fix f
    assume v: "v = JNum f" "num_ok strtof neg num f"
    from num_start[OF v(2)] obtain d r where n: "num f = d # r" "starts d" "num_char d \<or> d = 45" by (elim exE conjE)
    have "\<not> num_char (hd (tail @ [0]))" using t by (simp add: tail_ok_def)
    from parse_number_text[OF sp v(2) this, of E m sc] j v(1)
    obtain sc' where "parse_number strtof neg spec m sc = Some (sc', f)" "jat E m sc' (ws tail)" by (auto simp: vtext_simps)
    then show ?thesis using c n v(1) sp by (intro gives_val_same[of _ m sc' nm "JSON_VAL_NUMBER f"]) (auto simp: value_body_def vtext_simps e)
  qed
qed

lemma value_body_string:
  assumes sp: "\<forall>c. cis_match spec c \<longleftrightarrow> num_char c" and j: "jat E m sc (vtext num ind (JStr s) @ tail)" and p: "p \<noteq> 0"
    and a: "92 \<in> set (esc_text s) \<Longrightarrow> length m + length (esc_text s) < 2 ^ 32"
  shows "gives_val E m nm tail (if 92 \<in> set (esc_text s) then length (esc_text s) else 0) (JStr s) (value_body children strtof neg spec m p sc nm)"
proof -
  have j': "jat E m sc (34 # esc_text s @ 34 # tail)" using j by (simp add: vtext_simps)
  obtain ys sc' t where "parse_quoted_string m sc = Some (m @ ys, sc', t, 0)" "jat E (m @ ys) sc' (ws tail)" "str_at (m @ ys) t s"
    "length ys = (if 92 \<in> set (esc_text s) then length (esc_text s) else 0)"
    using parse_quoted_string_text[OF j' a] by blast
  then show ?thesis using jat_rd[OF j'] sp p
    by (auto simp: gives_val_def value_body_def num_char_def set_elem_def JSON_ElemSetString_def EL_INIT_def)
qed

section \<open>Children\<close>

fun items :: "u8 list \<Rightarrow> u8 list \<Rightarrow> ('f \<Rightarrow> u8 list) \<Rightarrow> nat \<Rightarrow> bool \<Rightarrow> 'f node list \<Rightarrow> u8 list" where
  "items s1 s2 num ind nn [] = []"
| "items s1 s2 num ind nn (c # cs) = render num ind nn c @ (if cs \<noteq> [] then 44 # s1 else s2) @ items s1 s2 num ind nn cs"

lemma items_inline: "render_inline num ind nn cs = items [32] [] num ind nn cs"
  by (induction cs) (simp_all del: render.simps)

lemma items_lines: "render_lines num ind nn cs = items [10] [10] num ind nn cs"
  by (induction cs) (simp_all del: render.simps)

definition gives_elem :: "addr \<Rightarrow> mem \<Rightarrow> u8 list \<Rightarrow> 'f node \<Rightarrow> 'f parsed \<Rightarrow> bool" where
  "gives_elem E m tail n r \<longleftrightarrow>
     (\<exists>ys sc' e. r = Some (m @ ys, sc', Some e) \<and> models (str_at (m @ ys)) e n \<and> jat E (m @ ys) sc' (ws tail) \<and> length ys = need n)"

text \<open>Adding children to an array or an object.\<close>

definition box :: "str_t \<Rightarrow> bool \<Rightarrow> 'f T_JsonElem list \<Rightarrow> 'f T_JsonElem" where
  "box nm arr es = Elem nm (if arr then JSON_VAL_ARRAY es else JSON_VAL_OBJ es)"

lemma box_add [simp]: "JSON_ElemAdd (box nm arr es) e = Some (box nm arr (es @ [e]))"
  by (simp add: JSON_ElemAdd_def box_def)

definition box_end :: "bool \<Rightarrow> u8" where
  "box_end arr = (if arr then 93 else 125)"

lemma skip_commas_at:
  assumes "jat E m sc (44 # w # bs)" "white w" "ws bs = c # r" "starts c"
  shows "\<exists>sc'. skip_commas m sc = Some sc' \<and> jat E m sc' (ws bs)"
proof -
  obtain sc1 where s: "scan_get_char m sc = Some (sc1, 44)" "jat E m sc1 (ws bs)" using jat_char[OF assms(1)] assms(2) by auto
  have "rd m (curptr sc1) = Some c" "c \<noteq> 44" using jat_rd[OF s(2)] assms(3,4) by (simp_all add: starts_def)
  then show ?thesis using s jat_rd[OF assms(1)] by (simp add: skip_commas.simps[of m sc] skip_commas.simps[of m sc1])
qed

lemma skip_commas_none:
  assumes "jat E m sc (c # r)" "c \<noteq> 44"
  shows "skip_commas m sc = Some sc"
  using jat_rd[OF assms(1)] assms(2) by (simp add: skip_commas.simps[of m sc])

lemma children_loop_text:
  assumes ok: "\<forall>c\<in>set cs. readable strtof neg num nn c"
    and R: "ws R = box_end arr # R'" "s1 = [32] \<or> s1 = [10]" "tail_ok (s2 @ R)" "\<forall>c\<in>set s2. white c"
    and IH: "\<And>c m sc bs k. c \<in> set cs \<Longrightarrow> tail_ok bs \<Longrightarrow> length m + need c < 2 ^ 32 \<Longrightarrow> fuel c \<le> k \<Longrightarrow>
      jat E m sc (ws (render num ind nn c @ bs)) \<Longrightarrow> gives_elem E m bs c (parse_elem_throw k strtof neg spec m sc)"
    and a: "length m + need_list cs < 2 ^ 32" "fuel_list cs \<le> k"
    and j: "jat E m sc (ws (items s1 s2 num ind nn cs @ R)) \<or>
      cs \<noteq> [] \<and> (\<exists>w. white w \<and> jat E m sc (44 # w # items s1 s2 num ind nn cs @ R))"
  shows "\<exists>ys sc' es'. children_loop k strtof neg spec (box_end arr) m sc (box nm arr es) = Some (m @ ys, sc', Some (box nm arr (es @ es'))) \<and>
    jat E (m @ ys) sc' (box_end arr # R') \<and> models_list (str_at (m @ ys)) es' cs \<and> length ys = need_list cs"
  using assms
proof (induction cs arbitrary: m sc es k)
  case Nil
  then have j: "jat E m sc (box_end arr # R')" by simp
  obtain k' where "k = Suc k'" using Nil.prems(8) by (cases k) auto
  then show ?case using j jat_rd[OF j] by (auto simp: children_step_def intro!: exI[of _ "[]"])
next
  case (Cons c cs)
  obtain k' where k: "k = Suc k'" "fuel c \<le> k'" "fuel_list cs \<le> k'" using Cons.prems(8) by (cases k) auto
  let ?sep = "if cs \<noteq> [] then 44 # s1 else s2"
  let ?tail = "?sep @ items s1 s2 num ind nn cs @ R"
  let ?text = "ws (render num ind nn c @ ?tail)"
  obtain cnm cv where cc: "c = Node cnm cv" by (cases c)
  have rc: "readable strtof neg num nn (Node cnm cv)" using Cons.prems(1) cc by simp
  from elem_start[OF rc, of ind ?tail] obtain d r where d: "?text = d # r" "starts d" unfolding cc by blast
  have dq: "d \<noteq> box_end arr" using d(2) by (simp add: starts_def box_end_def)
  have tail: "tail_ok ?tail"
  proof (cases "cs = []")
    case True
    then show ?thesis using Cons.prems(4) by simp
  next
    case False
    have "\<not> num_char 44" "\<not> white 44" by (simp_all add: num_char_def white_iff)
    then show ?thesis using False by (simp add: tail_ok_def)
  qed
  obtain sc1 c0 where sc1: "skip_commas m sc = Some sc1" "jat E m sc1 ?text" "rd m (curptr sc) = Some c0" "c0 \<noteq> box_end arr"
  proof (cases "jat E m sc (ws (items s1 s2 num ind nn (c # cs) @ R))")
    case True
    then have "jat E m sc ?text" by (simp del: render.simps)
    then show ?thesis using that[of sc d] skip_commas_none[of E m sc d r] jat_rd[of E m sc ?text] d dq by (simp add: starts_def)
  next
    case False
    then obtain w where w: "white w" "jat E m sc (44 # w # render num ind nn c @ ?tail)" using Cons.prems(9) by (auto simp del: render.simps)
    obtain sc1 where "skip_commas m sc = Some sc1" "jat E m sc1 ?text" using skip_commas_at[OF w(2,1) d] by blast
    then show ?thesis using that[of sc1 44] jat_rd[OF w(2)] by (simp add: box_end_def)
  qed
  have c1: "rd m (curptr sc1) = Some d" using jat_rd[OF sc1(2)] d(1) by simp
  have "gives_elem E m ?tail c (parse_elem_throw k' strtof neg spec m sc1)"
    by (rule Cons.prems(6)) (use tail k(2) sc1(2) Cons.prems(7) in \<open>simp_all del: render.simps\<close>)
  then obtain ys1 sc2 e where e: "parse_elem_throw k' strtof neg spec m sc1 = Some (m @ ys1, sc2, Some e)"
    "models (str_at (m @ ys1)) e c" "jat E (m @ ys1) sc2 (ws ?tail)" "length ys1 = need c" unfolding gives_elem_def by blast
  have j2: "jat E (m @ ys1) sc2 (ws (items s1 s2 num ind nn cs @ R)) \<or>
      cs \<noteq> [] \<and> (\<exists>w. white w \<and> jat E (m @ ys1) sc2 (44 # w # items s1 s2 num ind nn cs @ R))"
  proof (cases "cs = []")
    case True
    then show ?thesis using e(3) ws_app[OF Cons.prems(5), of R] by simp
  next
    case False
    have "\<not> white 44" "white 32" "white 10" by (simp_all add: white_iff)
    then show ?thesis using e(3) False Cons.prems(3) by (auto simp del: items.simps)
  qed
  have "\<exists>ys sc' es'. children_loop k' strtof neg spec (box_end arr) (m @ ys1) sc2 (box nm arr (es @ [e])) =
      Some ((m @ ys1) @ ys, sc', Some (box nm arr ((es @ [e]) @ es'))) \<and>
    jat E ((m @ ys1) @ ys) sc' (box_end arr # R') \<and> models_list (str_at ((m @ ys1) @ ys)) es' cs \<and> length ys = need_list cs"
    by (rule Cons.IH) (use Cons.prems j2 k(3) e(4) in \<open>auto simp del: items.simps\<close>)
  then obtain ys sc' es' where ys: "children_loop k' strtof neg spec (box_end arr) (m @ ys1) sc2 (box nm arr (es @ [e])) =
      Some ((m @ ys1) @ ys, sc', Some (box nm arr ((es @ [e]) @ es')))"
    "jat E ((m @ ys1) @ ys) sc' (box_end arr # R')" "models_list (str_at ((m @ ys1) @ ys)) es' cs" "length ys = need_list cs" by blast
  have "models (str_at ((m @ ys1) @ ys)) e c" by (rule models_mono(1)[OF e(2)]) (rule str_at_grow)
  then show ?case using sc1 c1 dq e(1,4) ys k(1)
    by (intro exI[of _ "ys1 @ ys"] exI[of _ sc'] exI[of _ "e # es'"]) (simp add: children_step_def)
qed

lemma value_body_box:
  fixes strtof :: "u8 list \<Rightarrow> 'f"
  assumes sp: "\<forall>c. cis_match spec c \<longleftrightarrow> num_char c" and p: "p \<noteq> 0" and k: "fuel_list cs \<le> k"
    and ok: "\<forall>c\<in>set cs. readable strtof neg num arr c" and a: "length m + need_list cs < 2 ^ 32"
    and j: "jat E m sc (render_children num ind arr cs @ tail)"
    and IH: "\<And>c m sc bs k ind. c \<in> set cs \<Longrightarrow> tail_ok bs \<Longrightarrow> length m + need c < 2 ^ 32 \<Longrightarrow> fuel c \<le> k \<Longrightarrow>
      jat E m sc (ws (render num ind arr c @ bs)) \<Longrightarrow> gives_elem E m bs c (parse_elem_throw k strtof neg spec m sc)"
  shows "gives_val E m nm tail (need_list cs) (if arr then JArr cs else JObj cs)
    (value_body (parse_children_body (children_loop k strtof neg spec)) strtof neg spec m p sc nm)"
proof -
  let ?q = "box_end arr" and ?o = "if arr then 91 else 123 :: u8"
  have q: "\<not> white ?q" "\<not> num_char ?q" "?q \<noteq> 58" "?q \<noteq> 0" "\<not> white 10 \<or> white 10" by (auto simp: box_end_def white_iff num_char_def)
  have b: "white 32" "white 10" "\<not> num_char 10" by (simp_all add: white_iff num_char_def)
  obtain w s1 s2 ind' R where t: "render_children num ind arr cs @ tail = ?o # w @ items s1 s2 num ind' arr cs @ R" "ws R = ?q # tail"
    "s1 = [32] \<or> s1 = [10]" "tail_ok (s2 @ R)" "\<forall>c\<in>set s2. white c" "\<forall>c\<in>set w. white c"
  proof (cases "cs = [] \<or> nd_name (hd cs) = []")
    case True
    have "render_children num ind arr cs @ tail = ?o # [32] @ items [32] [] num ind arr cs @ ?q # tail"
      using True by (auto simp: items_inline box_end_def simp del: items.simps(2))
    then show ?thesis using that[of "[32]" "[32]" "[]" ind "?q # tail"] q b by (simp add: tail_ok_def)
  next
    case False
    have "render_children num ind arr cs @ tail = ?o # [32, 10] @ items [10] [10] num (ind + 3) arr cs @ replicate ind 32 @ ?q # tail"
      using False by (simp add: items_lines box_end_def del: items.simps)
    then show ?thesis using that[of "[32, 10]" "[10]" "[10]" "ind + 3" "replicate ind 32 @ ?q # tail"] q b by (simp add: tail_ok_def)
  qed
  have o: "?o \<noteq> 0" "\<not> num_char ?o" "?o \<noteq> 45" "?o \<noteq> 34" "\<not> c_isalpha ?o" 
    by (simp_all add: num_char_def c_isalpha_def c_islower_def c_isupper_def)
  have c: "rd m (curptr sc) = Some ?o" using jat_rd[OF j] unfolding t(1) by simp
  obtain sc1 where s1: "scan_get_char m sc = Some (sc1, ?o)" "jat E m sc1 (ws (items s1 s2 num ind' arr cs @ R))"
    using jat_char[of E m sc ?o "w @ items s1 s2 num ind' arr cs @ R"] j t(1,6) o(1) by (auto simp: ws_app)
  have "\<exists>ys sc2 es. children_loop k strtof neg spec ?q m sc1 (box nm arr []) = Some (m @ ys, sc2, Some (box nm arr ([] @ es))) \<and>
      jat E (m @ ys) sc2 (?q # tail) \<and> models_list (str_at (m @ ys)) es cs \<and> length ys = need_list cs"
    by (rule children_loop_text[OF ok t(2-5) _ a k disjI1[OF s1(2)]]) (rule IH)
  then obtain ys sc2 es where l: "children_loop k strtof neg spec ?q m sc1 (box nm arr []) = Some (m @ ys, sc2, Some (box nm arr ([] @ es)))"
    "jat E (m @ ys) sc2 (?q # tail)" "models_list (str_at (m @ ys)) es cs" "length ys = need_list cs" by blast
  obtain sc3 where s3: "scan_get_char (m @ ys) sc2 = Some (sc3, ?q)" "jat E (m @ ys) sc3 (ws tail)" using jat_char[OF l(2)] q by auto
  have e: "end_quote (box nm arr [] :: 'f T_JsonElem) = ?q"
    "(if arr then JSON_ElemSetArray (Some nm) else JSON_ElemSetObj (Some nm)) = (box nm arr [] :: 'f T_JsonElem)"
    by (auto simp: end_quote_def box_def box_end_def JSON_ElemSetArray_def JSON_ElemSetObj_def EL_INIT_def)
  have "parse_children_body (children_loop k strtof neg spec) m sc (box nm arr []) = Some (m @ ys, sc3, Some (box nm arr es))"
    using s1(1) l(1) s3(1) by (simp add: parse_children_body_def e(1))
  then have "value_body (parse_children_body (children_loop k strtof neg spec)) strtof neg spec m p sc nm = Some (m @ ys, sc3, Some (box nm arr es))"
    using c o sp p e(2) by (cases arr) (simp_all add: value_body_def set_elem_def)
  then show ?thesis using l(3,4) s3(2) by (auto simp: gives_val_def box_def)
qed

section \<open>Elements\<close>

lemma pool_alloc_elem: "length m + JSON_ELEM_SIZE < 2 ^ 32 \<Longrightarrow> pool_alloc m JSON_ELEM_SIZE = (m @ replicate JSON_ELEM_SIZE 0, length m)"
  by (simp add: pool_alloc_def)

lemma gives_elem_val:
  assumes "gives_val E (m @ replicate JSON_ELEM_SIZE 0) t tail k v r" "str_at (m @ replicate JSON_ELEM_SIZE 0) t nm"
    "need (Node nm v) = JSON_ELEM_SIZE + k"
  shows "gives_elem E m tail (Node nm v) r"
proof -
  obtain ys sc' v' where r: "r = Some ((m @ replicate JSON_ELEM_SIZE 0) @ ys, sc', Some (Elem t v'))"
    "models_val (str_at ((m @ replicate JSON_ELEM_SIZE 0) @ ys)) v' v" "jat E ((m @ replicate JSON_ELEM_SIZE 0) @ ys) sc' (ws tail)" "length ys = k"
    using assms(1) unfolding gives_val_def by blast
  then show ?thesis using str_at_grow[OF assms(2), of ys] assms(3)
    unfolding gives_elem_def by (intro exI[of _ "replicate JSON_ELEM_SIZE 0 @ ys"]) (simp del: need.simps)
qed

lemma elem_named:
  assumes j: "jat E m sc (ws (render num ind False (Node nm v) @ tail))" and n: "plain nm" "nm \<noteq> []"
    and a: "length m + JSON_ELEM_SIZE < 2 ^ 32" and st: "vtext num ind v = c # r" "\<not> white c"
    and need: "need (Node nm v) = JSON_ELEM_SIZE + k"
    and body: "\<And>sc t. jat E (m @ replicate JSON_ELEM_SIZE 0) sc (vtext num ind v @ tail) \<Longrightarrow>
      gives_val E (m @ replicate JSON_ELEM_SIZE 0) t tail k v (value_body children strtof neg spec (m @ replicate JSON_ELEM_SIZE 0) (length m) sc t)"
  shows "gives_elem E m tail (Node nm v) (parse_elem_body children strtof neg spec m sc)"
proof -
  let ?m = "m @ replicate JSON_ELEM_SIZE 0" and ?pad = "[32] @ replicate (20 - length nm) 32"
  have "ws (render num ind False (Node nm v) @ tail) = 34 # nm @ 34 # (58 # ?pad @ vtext num ind v @ tail)"
    using n plain_text[OF n(1)] by (simp add: render_vtext name_text_def white_iff del: render.simps)
  then have j': "jat E ?m sc (34 # nm @ 34 # (58 # ?pad @ vtext num ind v @ tail))" using jat_grow[OF j] by simp
  have w: "ws (58 # ?pad @ vtext num ind v @ tail) = 58 # ?pad @ vtext num ind v @ tail"
    "ws (?pad @ vtext num ind v @ tail) = vtext num ind v @ tail" using st by (simp_all add: white_iff)
  obtain t sc1 where t: "str_at ?m t nm" "parse_label ?m sc = Some (sc1, t, \<lparr>ptr = 0, slen = 0\<rparr>)" "jat E ?m sc1 (vtext num ind v @ tail)"
    using parse_label_text[OF j' n] w by metis
  have "parse_elem_body children strtof neg spec m sc = value_body children strtof neg spec ?m (length m) sc1 t"
    using jat_rd[OF j'] t(2) pool_alloc_elem[OF a] by (simp add: parse_elem_body_value)
  then show ?thesis using gives_elem_val[OF body[OF t(3)] t(1) need] by simp
qed

lemma elem_unnamed:
  assumes j: "jat E m sc (ws (render num ind nn (Node [] v) @ tail))"
    and a: "length m + JSON_ELEM_SIZE < 2 ^ 32" and st: "vtext num ind v = c # r" "\<not> white c" "c \<noteq> 34"
    and need: "need (Node [] v) = JSON_ELEM_SIZE + k"
    and body: "\<And>sc t. jat E (m @ replicate JSON_ELEM_SIZE 0) sc (vtext num ind v @ tail) \<Longrightarrow>
      gives_val E (m @ replicate JSON_ELEM_SIZE 0) t tail k v (value_body children strtof neg spec (m @ replicate JSON_ELEM_SIZE 0) (length m) sc t)"
  shows "gives_elem E m tail (Node [] v) (parse_elem_body children strtof neg spec m sc)"
proof -
  let ?m = "m @ replicate JSON_ELEM_SIZE 0" and ?t = "\<lparr>ptr = 0, slen = 0\<rparr>"
  have "ws (render num ind nn (Node [] v) @ tail) = vtext num ind v @ tail"
    using st by (simp add: render_vtext name_text_def del: render.simps)
  then have j': "jat E ?m sc (vtext num ind v @ tail)" using jat_grow[OF j] by simp
  have "parse_elem_body children strtof neg spec m sc = value_body children strtof neg spec ?m (length m) sc ?t"
    using jat_rd[OF j'] st pool_alloc_elem[OF a] by (simp add: parse_elem_body_value)
  moreover have "str_at ?m ?t []" by (simp add: str_at_def)
  ultimately show ?thesis using gives_elem_val[OF body[OF j'] _ need] by simp
qed

lemma elem_unnamed_string:
  assumes j: "jat E m sc (ws (render num ind nn (Node [] (JStr s)) @ tail))" and s: "plain s" "s \<noteq> []"
    and a: "length m + JSON_ELEM_SIZE < 2 ^ 32" and t: "tail_ok tail" and p: "0 < length m"
  shows "gives_elem E m tail (Node [] (JStr s)) (parse_elem_body children strtof neg spec m sc)"
proof -
  let ?m = "m @ replicate JSON_ELEM_SIZE 0"
  have "ws (render num ind nn (Node [] (JStr s)) @ tail) = 34 # s @ 34 # tail"
    using plain_text[OF s(1)] by (simp add: render_vtext name_text_def vtext_simps white_iff del: render.simps)
  then have j': "jat E ?m sc (34 # s @ 34 # tail)" using jat_grow[OF j] by simp
  have "hd (ws tail @ [0]) \<noteq> 58" using t by (simp add: tail_ok_def)
  then obtain t sc1 where t: "str_at ?m t s" "parse_label ?m sc = Some (sc1, \<lparr>ptr = 0, slen = 0\<rparr>, t)" "jat E ?m sc1 (ws tail)"
    using parse_label_text[OF j' s] by metis
  have "slen t \<noteq> 0" using t(1) s(2) by (simp add: str_at_def)
  then have "parse_elem_body children strtof neg spec m sc = Some (?m, sc1, Some (Elem \<lparr>ptr = 0, slen = 0\<rparr> (JSON_VAL_STRING t)))"
    using jat_rd[OF j'] t(2) pool_alloc_elem[OF a] p by (simp add: parse_elem_body_value set_elem_def JSON_ElemSetString_def EL_INIT_def)
  then show ?thesis using t(1,3) unfolding gives_elem_def
    by (intro exI[of _ "replicate JSON_ELEM_SIZE 0"] exI[of _ sc1] exI[of _ "Elem \<lparr>ptr = 0, slen = 0\<rparr> (JSON_VAL_STRING t)"])
      (simp add: str_at_def)
qed

lemma length_pos: "jat E m sc bs \<Longrightarrow> length m \<noteq> 0"
  using jat_options by fastforce

lemma parse_elem_text_all:
  fixes strtof :: "u8 list \<Rightarrow> 'f" and n :: "'f node" and cs :: "'f node list"
  assumes sp: "\<forall>c. cis_match spec c \<longleftrightarrow> num_char c"
  shows "readable strtof neg num nn n \<Longrightarrow> tail_ok tail \<Longrightarrow> length m + need n < 2 ^ 32 \<Longrightarrow> fuel n \<le> k \<Longrightarrow>
      jat E m sc (ws (render num ind nn n @ tail)) \<Longrightarrow> gives_elem E m tail n (parse_elem_throw k strtof neg spec m sc)"
    and "c \<in> set cs \<Longrightarrow> readable strtof neg num nn c \<Longrightarrow> tail_ok tail \<Longrightarrow> length m + need c < 2 ^ 32 \<Longrightarrow> fuel c \<le> k \<Longrightarrow>
      jat E m sc (ws (render num ind nn c @ tail)) \<Longrightarrow> gives_elem E m tail c (parse_elem_throw k strtof neg spec m sc)"
proof (induction n and cs arbitrary: nn tail m k sc ind and c nn tail m k sc ind rule: fuel_fuel_list.induct)
  case (1 nm v)
  obtain k' where k: "k = Suc k'" using "1.prems"(4) by (cases k) auto
  let ?m = "m @ replicate JSON_ELEM_SIZE 0" and ?ch = "parse_children_body (children_loop k' strtof neg spec)"
  have rd: "plain nm" "nn \<Longrightarrow> nm = []" using "1.prems"(1) by simp_all
  from vtext_start[OF "1.prems"(1), of ind] obtain c r where st: "vtext num ind v = c # r" "starts c" "c = 34 \<longleftrightarrow> (\<exists>s. v = JStr s)" by blast
  have w: "\<not> white c" using st(2) by (simp add: starts_def)
  have a: "length m + JSON_ELEM_SIZE < 2 ^ 32" using "1.prems"(3) by simp
  have p: "length m \<noteq> 0" by (rule length_pos[OF "1.prems"(5)])
  show ?case
  proof (cases "nm = [] \<and> (\<exists>s. v = JStr s)")
    case True
    then obtain s where s: "nm = []" "v = JStr s" by blast
    then have "plain s" "s \<noteq> []" using "1.prems"(1) by simp_all
    then show ?thesis using elem_unnamed_string[of E m sc num ind nn s tail ?ch strtof neg spec] "1.prems"(2,5) a p s k by simp
  next
    case False
    have body: "gives_val E ?m t tail (need (Node nm v) - JSON_ELEM_SIZE) v (value_body ?ch strtof neg spec ?m (length m) sc t)"
      if j: "jat E ?m sc (vtext num ind v @ tail)" for sc t
    proof (cases v)
      case (JStr s)
      then have "nm \<noteq> []" using False by blast
      then have nd: "need (Node nm v) = JSON_ELEM_SIZE + (if 92 \<in> set (esc_text s) then length (esc_text s) else 0)" using JStr by simp
      have "length ?m + length (esc_text s) < 2 ^ 32" if "92 \<in> set (esc_text s)" using "1.prems"(3) that unfolding nd by simp
      from value_body_string[OF sp j[unfolded JStr] p this, of t ?ch strtof neg]
      show ?thesis unfolding JStr[symmetric] nd by simp
    next
      case (JArr cs)
      have IH: "gives_elem E m bs c (parse_elem_throw k strtof neg spec m sc)"
        if "c \<in> set cs" "tail_ok bs" "length m + need c < 2 ^ 32" "fuel c \<le> k" "jat E m sc (ws (render num ind True c @ bs))" for c m sc bs k ind
        using "1.IH"(1)[OF JArr that(1) _ that(2-5)] "1.prems"(1) JArr that(1) by simp
      have "gives_val E ?m t tail (need_list cs) (if True then JArr cs else JObj cs) (value_body ?ch strtof neg spec ?m (length m) sc t)"
        by (rule value_body_box[OF sp p _ _ _ _ IH]) (use "1.prems" JArr k j in \<open>simp_all add: vtext_simps\<close>)
      then show ?thesis using JArr by simp
    next
      case (JObj cs)
      have IH: "gives_elem E m bs c (parse_elem_throw k strtof neg spec m sc)"
        if "c \<in> set cs" "tail_ok bs" "length m + need c < 2 ^ 32" "fuel c \<le> k" "jat E m sc (ws (render num ind False c @ bs))" for c m sc bs k ind
        using "1.IH"(2)[OF JObj that(1) _ that(2-5)] "1.prems"(1) JObj that(1) by simp
      have "gives_val E ?m t tail (need_list cs) (if False then JArr cs else JObj cs) (value_body ?ch strtof neg spec ?m (length m) sc t)"
        by (rule value_body_box[OF sp p _ _ _ _ IH]) (use "1.prems" JObj k j in \<open>simp_all add: vtext_simps\<close>)
      then show ?thesis using JObj by simp
    qed (use value_body_simple[OF sp j p "1.prems"(2)] "1.prems"(1) in simp_all)
    have need: "need (Node nm v) = JSON_ELEM_SIZE + (need (Node nm v) - JSON_ELEM_SIZE)" by simp
    show ?thesis
    proof (cases "nm = []")
      case True
      then have "c \<noteq> 34" using False st(3) by blast
      then show ?thesis using elem_unnamed[OF _ a st(1) w _ need[unfolded True] body[unfolded True]] "1.prems"(5) True k by simp
    next
      case ne: False
      then have "nn = False" using rd(2) by blast
      then show ?thesis using elem_named[OF _ rd(1) ne a st(1) w need body] "1.prems"(5) k by simp
    qed
  qed
qed auto

text \<open>The text of a tree is long enough to bound the depth of its parse.\<close>

lemma fuel_text:
  fixes n :: "'f node" and cs :: "'f node list"
  shows "readable strtof neg num nn n \<Longrightarrow> fuel n \<le> length (render num ind nn n)"
    and "\<forall>c\<in>set cs. readable strtof neg num nn c \<Longrightarrow> fuel_list cs \<le> 1 + length (items s1 s2 num ind nn cs) \<and>
      (cs \<noteq> [] \<longrightarrow> items s1 s2 num ind nn cs \<noteq> [])"
proof (induction n and cs arbitrary: nn ind and nn ind s1 s2 rule: fuel_fuel_list.induct)
  case (1 nm v)
  from vtext_start[OF "1.prems", of ind] have ne: "vtext num ind v \<noteq> []" by auto
  have "fuel (Node nm v) \<le> length (vtext num ind v)"
  proof (cases v)
    case (JArr cs)
    have ok: "\<forall>c\<in>set cs. readable strtof neg num True c" using "1.prems" JArr by simp
    show ?thesis using "1.IH"(1)[OF JArr ok, of "[32]" "[]" ind] "1.IH"(1)[OF JArr ok, of "[10]" "[10]" "ind + 3"] JArr
      by (cases "cs = []") (auto simp: vtext_simps items_inline items_lines simp del: items.simps)
  next
    case (JObj cs)
    have ok: "\<forall>c\<in>set cs. readable strtof neg num False c" using "1.prems" JObj by simp
    show ?thesis using "1.IH"(2)[OF JObj ok, of "[32]" "[]" ind] "1.IH"(2)[OF JObj ok, of "[10]" "[10]" "ind + 3"] JObj
      by (cases "cs = []") (auto simp: vtext_simps items_inline items_lines simp del: items.simps)
  qed (use ne in \<open>cases "vtext num ind v"; simp\<close>)+
  then show ?case by (simp add: render_vtext del: render.simps fuel.simps)
next
  case (3 c cs)
  have r: "fuel c \<le> length (render num ind nn c)" using 3 by simp
  have "1 \<le> fuel c" by (cases c) simp
  then show ?case using r "3.IH"(2)[of nn s1 s2 ind] "3.prems" by (cases cs) (auto simp del: render.simps)
qed simp

lemma JSON_Parse_core:
  assumes t: "bytes_at m buf (render num 0 False n @ [0])" "buf + length (render num 0 False n) < 2 ^ 31"
    and ok: "readable strtof neg num False n" and a: "length m + need n < 2 ^ 32" and k: "length (render num 0 False n) \<le> k"
  shows "\<exists>ys e. JSON_Parse want k strtof neg m buf (length (render num 0 False n)) = Some (m @ ys, Some e, 0, None) \<and>
    models (str_at (m @ ys)) e n \<and> length ys = need n"
proof -
  let ?t = "render num 0 False n"
  have b: "0 < buf" using bytes_at_bound[OF t(1)] by simp
  have f: "fuel n \<le> length ?t" using fuel_text(1)[OF ok] .
  have "1 \<le> fuel n" by (cases n) simp
  then have ne: "length ?t \<noteq> 0" using f by linarith
  define sc where "sc = \<lparr>sc_begin = buf, sc_end = buf + length ?t, curptr = buf, line = 1, start_line = buf, skip_ws = 5, errs = 0\<rparr>"
  have j: "jat (buf + length ?t) m sc ?t" using t by (simp add: jat_def rest_def sc_def)
  have r: "rest m sc ?t" "plain_options sc" using j jat_options[OF j] by (auto simp: jat_def)
  obtain sc1 where s1: "scan_skip_whitespace m sc = Some sc1" "rest m sc1 (dropWhile (skipped sc) ?t)" "same_but_pos sc sc1"
    by (rule scan_skip_whitespace_text[OF r])
  have i: "scan_init m buf (length ?t) (1 + SCAN_AUTOSKIP_NEWLINE) = Some sc1"
    using s1(1) t(2) by (simp add: scan_init_def SCAN_AUTOSKIP_NEWLINE_def sc_def u32_id)
  have j1: "jat (buf + length ?t) m sc1 (ws (?t @ []))" using s1(2,3) jat_options[OF j] length_dropWhile_le[of white ?t]
    by (auto simp: jat_def ws_def same_but_pos_def sc_def rest_def)
  obtain spec where sp: "float_spec = Some spec" "\<forall>c. cis_match spec c \<longleftrightarrow> num_char c" using float_spec_match by blast
  have "tail_ok []" by (simp add: tail_ok_def num_char_def)
  then have "gives_elem (buf + length ?t) m [] n (parse_elem_throw k strtof neg spec m sc1)"
    using parse_elem_text_all(1)[OF sp(2) ok _ a _ j1, of k] f k by simp
  then obtain ys sc2 e where e: "parse_elem_throw k strtof neg spec m sc1 = Some (m @ ys, sc2, Some e)" "models (str_at (m @ ys)) e n"
    "jat (buf + length ?t) (m @ ys) sc2 []" "length ys = need n" unfolding gives_elem_def by auto
  then have "curptr sc2 = buf + length ?t" by (simp add: jat_def rest_def)
  then show ?thesis using i sp(1) e(1,2,4) b ne by (simp add: JSON_Parse_def)
qed

section \<open>Properties\<close>

text \<open>C32: writing an element into a buffer and parsing the buffer gives back an element for the same tree: the parse succeeds, uses
the whole text, allocates exactly what \<open>need\<close> says and keeps the rest of the memory. It holds for trees in
which names and unnamed strings are plain (printable, nothing to escape, no blank in front, unnamed ones not
empty), elements of arrays have no names, numbers are read back from their texts and fewer than 34 objects or arrays with names are nested;
named strings may hold any bytes, escapes included. The fuel is the length of the text.\<close>

theorem JSON_write_parse_roundtrip:
  assumes "models (str_outside m B S) e n" "printable num 0 n" "readable strtof neg num False n"
    "0 < B" "B + S \<le> length m" "B + S \<le> 2 ^ 31" "length (render num 0 False n) + 1 < S" "length m + need n < 2 ^ 32"
  shows "\<exists>m' len ys e'. JSON_ElemWrite num e m B S = Some (m', len, EO_SUCCESS) \<and> same_outside B S m' m \<and>
    JSON_Parse want len strtof neg m' B len = Some (m' @ ys, Some e', 0, None) \<and>
    models (str_at (m' @ ys)) e' n \<and> length ys = need n"
proof -
  have "2 \<le> S" using assms(7) by simp
  from JSON_ElemWrite_core[OF assms(1,2,4,5) this] assms(7)
  obtain m' where m': "JSON_ElemWrite num e m B S = Some (m', length (render num 0 False n), EO_SUCCESS)"
    "bytes_at m' B (render num 0 False n @ [0])" "same_outside B S m' m" by auto
  have "B + length (render num 0 False n) < 2 ^ 31" "length m' + need n < 2 ^ 32"
    using assms(6-8) m'(3) by (simp_all add: same_outside_def)
  from JSON_Parse_core[OF m'(2) this(1) assms(3) this(2) order_refl, of want] m' show ?thesis by blast
qed

definition ex_elem :: "unit T_JsonElem" where
  "ex_elem = Elem \<lparr>ptr = 0, slen = 0\<rparr> (JSON_VAL_OBJ [Elem \<lparr>ptr = 1, slen = 1\<rparr> (JSON_VAL_BOOL 1)])"

definition ex_node :: "unit node" where
  "ex_node = Node [] (JObj [Node [97] (JBool True)])"

lemma ex_elem_facts:
  "models (str_outside (0 # 97 # replicate 60 0) 2 60) ex_elem ex_node" "printable (\<lambda>_. []) 0 ex_node"
  "readable (\<lambda>_. ()) id (\<lambda>_. []) False ex_node" "length (render (\<lambda>_. []) 0 False ex_node) = 36" "need ex_node = 56"
  by (simp_all add: ex_elem_def ex_node_def str_outside_def str_at_def rd_def plain_def plain_char_def JSON_ELEM_SIZE_def
      name_text_def esc_text_def json_escape_def TRUE_STR_def)

lemma JSON_write_parse_roundtrip_witness:
  "\<exists>m' len ys e'. JSON_ElemWrite (\<lambda>_. []) ex_elem (0 # 97 # replicate 60 0) 2 60 = Some (m', len, EO_SUCCESS) \<and>
    JSON_Parse True len (\<lambda>_. ()) id m' 2 len = Some (m' @ ys, Some e', 0, None) \<and> models (str_at (m' @ ys)) e' ex_node"
  using JSON_write_parse_roundtrip[OF ex_elem_facts(1-3), of True] ex_elem_facts(4,5) by auto

lemma empty_label:
  assumes j: "jat E m sc (34 # 34 # bs)" and c: "ws bs = c # r \<or> ws bs = [] \<and> c = 0" "c \<noteq> 58"
  shows "\<exists>sc' t. parse_label m sc = Some (sc', \<lparr>ptr = 0, slen = 0\<rparr>, t) \<and> slen t = 0 \<and> jat E m sc' (ws bs)"
proof -
  have w: "\<not> white 34" by (simp add: white_iff)
  obtain sc1 where s1: "scan_get_char m sc = Some (sc1, 34)" "jat E m sc1 ([] @ 34 # bs)" using jat_char[OF j] w by auto
  obtain sc2 where s2: "scan_get_until_ch m sc1 34 = Some (sc2, Some (tok sc1 []))" "jat E m sc2 (34 # bs)"
    using jat_until[OF s1(2)] by auto
  obtain sc3 where s3: "scan_get_char m sc2 = Some (sc3, 34)" "jat E m sc3 (ws bs)" using jat_char[OF s2(2)] by auto
  have "rd m (curptr sc3) = Some c" using jat_rd[OF s3(2)] c(1) by auto
  then show ?thesis using s1(1) s2(1) s3 c(2) by (auto simp: parse_label_def tok_def)
qed

text \<open>An empty string without a name is a syntax error for the parser, whatever is behind it but another value: the token of length 0
is taken for no token at all, so that the writer's own text of an array with an empty string does not parse.\<close>

theorem JSON_empty_string_rejected:
  assumes "jat E m sc (34 # 34 # bs)" "length m + JSON_ELEM_SIZE < 2 ^ 32" "\<forall>c. cis_match spec c \<longleftrightarrow> num_char c"
    "c = hd (ws bs @ [0])" "\<not> num_char c" "c \<notin> {34, 45, 58, 91, 123}" "\<not> c_isalpha c"
  shows "\<exists>sc'. parse_elem_throw (Suc k) strtof neg spec m sc = Some (m @ replicate JSON_ELEM_SIZE 0, sc', None)"
proof -
  let ?m = "m @ replicate JSON_ELEM_SIZE 0"
  have j: "jat E ?m sc (34 # 34 # bs)" by (rule jat_grow[OF assms(1)])
  have "ws bs = c # tl (ws bs) \<or> ws bs = [] \<and> c = 0" using assms(4) by (cases "ws bs") auto
  then obtain sc1 t where l: "parse_label ?m sc = Some (sc1, \<lparr>ptr = 0, slen = 0\<rparr>, t)" "slen t = 0" "jat E ?m sc1 (ws bs)"
    using empty_label[OF j] assms(6) by blast
  have "rd ?m (curptr sc1) = Some c" using jat_rd[OF l(3)] assms(4) by simp
  then have "value_body ch strtof neg spec ?m (length m) sc1 \<lparr>ptr = 0, slen = 0\<rparr> = Some (?m, sc1, None)" for ch
    using assms(3,5-7) by (simp add: value_body_def)
  then show ?thesis using jat_rd[OF j] l(1,2) pool_alloc_elem[OF assms(2)] by (simp add: parse_elem_body_value)
qed

lemma JSON_empty_string_rejected_witness:
  "\<exists>spec sc'. float_spec = Some spec \<and> parse_elem_throw 1 (\<lambda>_. ()) id spec [0, 34, 34, 93, 0]
    \<lparr>sc_begin = 1, sc_end = 4, curptr = 1, line = 1, start_line = 1, skip_ws = 5, errs = 0\<rparr> =
    Some ([0, 34, 34, 93, 0] @ replicate JSON_ELEM_SIZE 0, sc', None)"
proof -
  let ?sc = "\<lparr>sc_begin = 1, sc_end = 4, curptr = 1, line = 1, start_line = 1, skip_ws = 5, errs = 0\<rparr>"
  obtain spec where sp: "float_spec = Some spec" "\<forall>c. cis_match spec c \<longleftrightarrow> num_char c" using float_spec_match by blast
  have "jat 4 [0, 34, 34, 93, 0] ?sc (34 # 34 # [93])" by (simp add: jat_def rest_def rd_def)
  from JSON_empty_string_rejected[OF this _ sp(2), of 93 0 "\<lambda>_. ()" id]
  have "\<exists>sc'. parse_elem_throw 1 (\<lambda>_. ()) id spec [0, 34, 34, 93, 0] ?sc = Some ([0, 34, 34, 93, 0] @ replicate JSON_ELEM_SIZE 0, sc', None)"
    by (simp add: white_iff num_char_def c_isalpha_def c_islower_def c_isupper_def JSON_ELEM_SIZE_def)
  with sp(1) show ?thesis by blast
qed

end
