(* ===== verification/Rtsp_Utils.thy ===== *)
theory Rtsp_Utils
  imports Rtp_Enc Cstring
begin

section \<open>Media descriptions (\<^verbatim>\<open>rtsp_lib/utils.c\<close>)\<close>

text \<open>
  The helpers of the RTSP server: base64, the search for the units of an H.264 or H.265 stream, the parameter sets that are collected
  from it, and the lines of the session description. Streams are the lists of the bytes that can be read; texts go
  into the flat memory. Debugging output is left out.
\<close>

subsection \<open>Base64\<close>

definition b64 :: "u8 list" where
  "b64 = map of_char ''ABCDEFGHIJKLMNOPQRSTUVWXYZabcdefghijklmnopqrstuvwxyz0123456789+/''"

definition BASE64_SIZE :: "int \<Rightarrow> int" where
  "BASE64_SIZE x = (x + 2) div 3 * 4 + 1"

definition RB32 :: "u8 list \<Rightarrow> 32 word" where
  "RB32 xs = push_bit 24 (ucast (xs ! 0)) OR push_bit 16 (ucast (xs ! 1)) OR push_bit 8 (ucast (xs ! 2)) OR ucast (xs ! 3)"

definition b64_char :: "32 word \<Rightarrow> u8" where
  "b64_char x = b64 ! unat (x AND 63)"

text \<open>The groups of three bytes while more than three are left: what is left of the input, and the memory and the position.\<close>

fun b64_groups :: "mem \<Rightarrow> addr \<Rightarrow> u8 list \<Rightarrow> (mem \<times> addr \<times> u8 list) option" where
  "b64_groups m dst (a # b # c # d # r) =
     do {
       let i_bits = RB32 [a, b, c, d];
       m1 \<leftarrow> wr_bytes m dst [b64 ! unat (drop_bit 26 i_bits), b64_char (drop_bit 20 i_bits), b64_char (drop_bit 14 i_bits), b64_char (drop_bit 8 i_bits)];
       b64_groups m1 (dst + 4) (d # r)
     }"
| "b64_groups m dst r = Some (m, dst, r)"

text \<open>The bits of the last bytes, six at a time; \<open>n\<close> bits are left.\<close>

function b64_tail :: "mem \<Rightarrow> addr \<Rightarrow> 32 word \<Rightarrow> int \<Rightarrow> (mem \<times> addr) option" where
  "b64_tail m dst i_bits i_shift =
     (if i_shift > 0
      then (case wr m dst (b64_char (drop_bit (nat i_shift) (push_bit 6 i_bits))) of
              None \<Rightarrow> None
            | Some m1 \<Rightarrow> b64_tail m1 (dst + 1) i_bits (i_shift - 6))
      else Some (m, dst))"
  by pat_completeness auto
termination
  by (relation "measure (\<lambda>(m, dst, b, s). nat s)") auto

declare b64_tail.simps [simp del]

definition b64_bits :: "u8 list \<Rightarrow> 32 word" where
  "b64_bits xs = foldl (\<lambda>w x. push_bit 8 w + ucast x) 0 xs"

definition base64_encode :: "mem \<Rightarrow> addr \<Rightarrow> int \<Rightarrow> u8 list \<Rightarrow> (mem \<times> addr) option" where
  "base64_encode m out out_size xs =
     (if int (length xs) \<ge> (2 ^ 32 - 1) div 4 \<or> out_size < BASE64_SIZE (int (length xs)) then Some (m, 0)
      else do {
        (m1, dst1, r) \<leftarrow> b64_groups m out xs;
        (m2, dst2) \<leftarrow> b64_tail m1 dst1 (b64_bits r) (8 * int (length r));
        let pad = replicate (nat (- int (dst2 - out) mod 4)) 61;
        m3 \<leftarrow> wr_bytes m2 dst2 pad;
        m4 \<leftarrow> wr m3 (dst2 + length pad) 0;
        Some (m4, out)
      })"

subsection \<open>Units of a stream\<close>

text \<open>The search from \<open>pos\<close> on, with \<open>len\<close> bytes left; \<open>s\<close> is the start code already found. The result is the
start and the size, or nothing for null.\<close>

function find_nalu :: "u8 list \<Rightarrow> nat \<Rightarrow> int \<Rightarrow> nat option \<Rightarrow> (nat \<times> int) option option" where
  "find_nalu bs pos len s =
     (if len \<ge> 3
      then (case begins (drop pos bs) [0, 0, 1] of
              None \<Rightarrow> None
            | Some True \<Rightarrow>
                (case s of
                   None \<Rightarrow> if len < 4 then Some None else find_nalu bs (pos + 3) (len - 3) (Some pos)
                 | Some a \<Rightarrow> Some (Some (a, int pos - int a)))
            | Some False \<Rightarrow>
                (case (if len \<ge> 4 then begins (drop pos bs) [0, 0, 0, 1] else Some False) of
                   None \<Rightarrow> None
                 | Some True \<Rightarrow>
                     (case s of
                        None \<Rightarrow> if len < 5 then Some None else find_nalu bs (pos + 4) (len - 4) (Some pos)
                      | Some a \<Rightarrow> Some (Some (a, int pos - int a)))
                 | Some False \<Rightarrow> find_nalu bs (pos + 1) (len - 1) s))
      else (case s of None \<Rightarrow> Some None | Some a \<Rightarrow> Some (Some (a, int pos - int a + len))))"
  by pat_completeness auto
termination
  by (relation "measure (\<lambda>(bs, pos, len, s). nat len)") auto

declare find_nalu.simps [simp del]

definition rtsp_find_h264_h265_nalu :: "u8 list \<Rightarrow> int \<Rightarrow> (nat \<times> int) option option" where
  "rtsp_find_h264_h265_nalu buff len = find_nalu buff 0 len None"

text \<open>The first two tests look at the start of the buffer only, \<open>s\<close>; the loop moves another pointer.\<close>

fun adts_loop :: "bool \<Rightarrow> nat \<Rightarrow> nat" where
  "adts_loop found 0 = 0"
| "adts_loop found (Suc n) = (if Suc n > 2 then if found then Suc n else adts_loop found n else Suc n)"

definition rtsp_find_aac_adts :: "u8 list \<Rightarrow> int \<Rightarrow> int option option" where
  "rtsp_find_aac_adts buff len =
     do {
       found \<leftarrow> (if len > 2 then do { a \<leftarrow> byte_at buff 0; if a = 255 then do { b \<leftarrow> byte_at buff 1; Some (b AND 240 = 240) } else Some False } else Some False);
       let len1 = (if len > 2 then int (adts_loop found (nat len)) else len);
       if len1 \<le> 2 then Some None
       else do {
         b3 \<leftarrow> byte_at buff 3;
         b4 \<leftarrow> byte_at buff 4;
         b5 \<leftarrow> byte_at buff 5;
         let size = (unat (b3 AND 3) * 2048 + unat b4 * 8 + unat (drop_bit 5 b5));
         Some (if int size > len1 then None else Some (int size))
       }
     }"

subsection \<open>Parameter sets\<close>

record codec_data_h264 =
  sps264 :: "u8 list"
  pps264 :: "u8 list"
  sps264_len :: nat
  pps264_len :: nat

record codec_data_h265 =
  vps265 :: "u8 list"
  sps265 :: "u8 list"
  pps265 :: "u8 list"
  vps265_len :: nat
  sps265_len :: nat
  pps265_len :: nat

record codec_data_g726 =
  bit_rate :: nat

record codec_data_aac =
  audio_specific_config :: "u8 list"
  audio_specific_config_len :: nat
  sample_rate :: nat
  channels :: nat

text \<open>A unit goes into its place of 64 bytes, the rest is cut off: the new contents and the length.\<close>

definition store_set :: "u8 list \<Rightarrow> int \<Rightarrow> u8 list \<Rightarrow> (u8 list \<times> nat) option" where
  "store_set frame sz old =
     (let size1 = (if sz > int (length old) then int (length old) else sz) in
      if size1 < 0 then None else map_option (\<lambda>x. (x, nat size1)) (copy_bytes old 0 frame 0 (nat size1)))"

lemma find_nalu_size:
  "find_nalu bs pos len s = Some (Some (a, sz)) \<Longrightarrow> 0 \<le> len \<Longrightarrow> (\<And>b. s = Some b \<Longrightarrow> b + 3 \<le> pos) \<Longrightarrow> 3 \<le> sz"
proof (induction bs pos len s rule: find_nalu.induct)
  case (1 bs pos len s)
  note f = 1(4)[unfolded find_nalu.simps[of bs pos len s]]
  show ?case
  proof (cases "len \<ge> 3")
    case False
    then show ?thesis using f 1(5,6) by (auto split: option.splits)
  next
    case len: True
    then obtain c where c: "begins (drop pos bs) [0, 0, 1] = Some c" using f by (auto split: option.splits)
    show ?thesis
    proof (cases c)
      case True
      then show ?thesis using f len c 1(6) 1(1)[OF len c] by (cases s) (auto split: if_splits)
    next
      case False
      with f len c obtain d where d: "(if len \<ge> 4 then begins (drop pos bs) [0, 0, 0, 1] else Some False) = Some d"
        by (auto split: option.splits)
      show ?thesis
      proof (cases d)
        case True
        with False show ?thesis using f len c d 1(6) 1(2)[OF len c _ d] by (cases s) (auto split: if_splits)
      next
        case False
        with \<open>\<not> c\<close> have "find_nalu bs (pos + 1) (len - 1) s = Some (Some (a, sz))" using f len c d by simp
        moreover have "b + 3 \<le> pos + 1" if "s = Some b" for b using 1(6)[OF that] by simp
        ultimately show ?thesis using 1(3)[OF len c _ d] \<open>\<not> c\<close> False len by simp
      qed
    qed
  qed
qed

text \<open>
  The loop over the units of a stream, for both formats: \<open>full\<close> says that all sets are there, \<open>unit\<close> takes a unit
  without its start code and gives the number of sets it stored. The result is the data and that number.
\<close>

function nal_loop :: "('s \<Rightarrow> bool) \<Rightarrow> (u8 list \<Rightarrow> int \<Rightarrow> 's \<Rightarrow> ('s \<times> int) option) \<Rightarrow> u8 list \<Rightarrow> int \<Rightarrow> 's \<Rightarrow> int \<Rightarrow> ('s \<times> int) option" where
  "nal_loop full unit s len cd ret =
     (if len > 3
      then if full cd then Some (cd, ret)
      else case rtsp_find_h264_h265_nalu s len of
        None \<Rightarrow> None
      | Some None \<Rightarrow> Some (cd, ret)
      | Some (Some (a, sz)) \<Rightarrow>
          (case byte_at s (a + 2) of
             None \<Rightarrow> None
           | Some c \<Rightarrow>
               (case (if c = 0 then unit (drop (a + 4) s) (sz - 4) cd else unit (drop (a + 3) s) (sz - 3) cd) of
                  None \<Rightarrow> None
                | Some (cd1, n) \<Rightarrow> nal_loop full unit (drop (a + nat sz) s) (len - (int a + sz)) cd1 (ret + n)))
      else Some (cd, ret))"
  by pat_completeness auto
termination
proof (relation "measure (\<lambda>(full, unit, s, len, cd, ret). nat len)")
  fix s :: "u8 list" and len :: int and x2 x2a a sz
  assume "3 < len" "rtsp_find_h264_h265_nalu s len = Some x2" "x2 = Some x2a" "(a, sz) = x2a"
  then have "3 \<le> sz" using find_nalu_size[of s 0 len None a sz] by (simp add: rtsp_find_h264_h265_nalu_def)
  then show "((full, unit, drop (a + nat sz) s, len - (int a + sz), cd1, ret + n), full, unit, s, len, cd, ret)
      \<in> measure (\<lambda>(full, unit, s, len, cd, ret). nat len)"
    for full unit cd1 ret n and cd :: 's
    using \<open>3 < len\<close> by simp
qed simp

declare nal_loop.simps [simp del]

definition sps_unit :: "u8 list \<Rightarrow> int \<Rightarrow> codec_data_h264 \<Rightarrow> (codec_data_h264 \<times> int) option" where
  "sps_unit frame sz cd =
     do {
       b \<leftarrow> byte_at frame 0;
       let type = b AND 31;
       (cd1, n1) \<leftarrow> (if type = 7 then do { (x, l) \<leftarrow> store_set frame sz (sps264 cd); Some (cd\<lparr>sps264 := x, sps264_len := l\<rparr>, 1) } else Some (cd, 0));
       if type = 8 then do { (x, l) \<leftarrow> store_set frame sz (pps264 cd1); Some (cd1\<lparr>pps264 := x, pps264_len := l\<rparr>, n1 + 1) } else Some (cd1, n1)
     }"

definition rtsp_codec_data_parse_from_user_h264 :: "u8 list \<Rightarrow> int \<Rightarrow> codec_data_h264 \<Rightarrow> (codec_data_h264 \<times> int) option" where
  "rtsp_codec_data_parse_from_user_h264 codec_data data_len cd =
     do {
       (cd1, ret) \<leftarrow> nal_loop (\<lambda>cd. sps264_len cd > 0 \<and> pps264_len cd > 0) sps_unit codec_data data_len cd 0;
       Some (cd1, if ret \<ge> 2 then 1 else 0)
     }"

definition vps_unit :: "u8 list \<Rightarrow> int \<Rightarrow> codec_data_h265 \<Rightarrow> (codec_data_h265 \<times> int) option" where
  "vps_unit frame sz cd =
     do {
       b \<leftarrow> byte_at frame 0;
       let type = drop_bit 1 b AND 63;
       (cd1, n1) \<leftarrow> (if type = 32 then do { (x, l) \<leftarrow> store_set frame sz (vps265 cd); Some (cd\<lparr>vps265 := x, vps265_len := l\<rparr>, 1) } else Some (cd, 0));
       (cd2, n2) \<leftarrow> (if type = 33 then do { (x, l) \<leftarrow> store_set frame sz (sps265 cd1); Some (cd1\<lparr>sps265 := x, sps265_len := l\<rparr>, n1 + 1) } else Some (cd1, n1));
       if type = 34 then do { (x, l) \<leftarrow> store_set frame sz (pps265 cd2); Some (cd2\<lparr>pps265 := x, pps265_len := l\<rparr>, n2 + 1) } else Some (cd2, n2)
     }"

definition rtsp_codec_data_parse_from_user_h265 :: "u8 list \<Rightarrow> int \<Rightarrow> codec_data_h265 \<Rightarrow> (codec_data_h265 \<times> int) option" where
  "rtsp_codec_data_parse_from_user_h265 codec_data data_len cd =
     do {
       (cd1, ret) \<leftarrow> nal_loop (\<lambda>cd. vps265_len cd > 0 \<and> sps265_len cd > 0 \<and> pps265_len cd > 0) vps_unit codec_data data_len cd 0;
       Some (cd1, if ret \<ge> 3 then 1 else 0)
     }"

definition rtsp_codec_data_parse_from_user_g726 :: "u8 list \<Rightarrow> int \<Rightarrow> codec_data_g726 \<Rightarrow> (codec_data_g726 \<times> int) option" where
  "rtsp_codec_data_parse_from_user_g726 codec_data data_len cd =
     (if data_len \<noteq> 4 then Some (cd, - 1)
      else if length codec_data < 4 then None
      else let rate = dec32 (take 4 codec_data) in
        if rate \<in> {16000, 24000, 32000, 40000} then Some (cd\<lparr>bit_rate := rate\<rparr>, 1) else Some (cd, - 1))"

definition sample_rate_tbl :: "nat list" where
  "sample_rate_tbl = [96000, 88200, 64000, 48000, 44100, 32000, 24000, 22050, 16000, 12000, 11025, 8000, 7350, 0, 0, 0]"

definition rtsp_codec_data_parse_from_user_aac :: "u8 list \<Rightarrow> int \<Rightarrow> codec_data_aac \<Rightarrow> (codec_data_aac \<times> int) option" where
  "rtsp_codec_data_parse_from_user_aac codec_data data_len cd =
     (if data_len \<noteq> 2 then Some (cd, - 1)
      else do {
        c0 \<leftarrow> byte_at codec_data 0;
        c1 \<leftarrow> byte_at codec_data 1;
        let sample_rate_index = unat (push_bit 1 (c0 AND 7) OR drop_bit 7 c1);
        let ch = unat (drop_bit 3 c1 AND 15);
        if sample_rate_index > 12 \<and> ch > 7 then Some (cd, - 1)
        else Some (cd\<lparr>audio_specific_config := overlay (audio_specific_config cd) 0 [c0, c1], audio_specific_config_len := 2,
               sample_rate := sample_rate_tbl ! sample_rate_index, channels := (if ch = 7 then 8 else ch)\<rparr>, 1)
      })"

definition rtsp_codec_data_parse_from_frame_h264 :: "u8 list \<Rightarrow> int \<Rightarrow> codec_data_h264 \<Rightarrow> (codec_data_h264 \<times> int) option" where
  "rtsp_codec_data_parse_from_frame_h264 frame len cd = rtsp_codec_data_parse_from_user_h264 frame len cd"

definition rtsp_codec_data_parse_from_frame_h265 :: "u8 list \<Rightarrow> int \<Rightarrow> codec_data_h265 \<Rightarrow> (codec_data_h265 \<times> int) option" where
  "rtsp_codec_data_parse_from_frame_h265 frame len cd = rtsp_codec_data_parse_from_user_h265 frame len cd"

text \<open>The expressions of the source are of type \<open>int\<close>; what is stored are their low eight bits.\<close>

definition rtsp_codec_data_parse_from_frame_aac :: "u8 list \<Rightarrow> int \<Rightarrow> codec_data_aac \<Rightarrow> (codec_data_aac \<times> int) option" where
  "rtsp_codec_data_parse_from_frame_aac frame len cd =
     (if audio_specific_config_len cd > 0 then Some (cd, 0)
      else do {
        found \<leftarrow> rtsp_find_aac_adts frame len;
        case found of
          None \<Rightarrow> Some (cd, - 1)
        | Some _ \<Rightarrow>
            do {
              f2 \<leftarrow> byte_at frame 2;
              f3 \<leftarrow> byte_at frame 3;
              let profile = drop_bit 6 f2;
              let sample_rate_index = drop_bit 2 f2 AND 15;
              let ch = push_bit 1 (f2 AND 1) OR drop_bit 6 f3;
              if sample_rate_index > 12 \<and> ch > 7 then Some (cd, - 1)
              else Some (cd\<lparr>audio_specific_config := overlay (audio_specific_config cd) 0
                       [push_bit 3 (profile + 1) OR (drop_bit 1 sample_rate_index AND 7), push_bit 7 (sample_rate_index AND 1) OR push_bit 3 ch],
                     audio_specific_config_len := 2, sample_rate := sample_rate_tbl ! unat sample_rate_index,
                     channels := (if ch = 7 then 8 else unat ch)\<rparr>, 1)
            }
      })"

subsection \<open>Session descriptions\<close>

definition ascii :: "string \<Rightarrow> u8 list" where
  "ascii s = map of_char s"

definition crlf :: "u8 list" where
  "crlf = [13, 10]"

text \<open>The conversions \<^verbatim>\<open>%d\<close>, for the signed value of the argument, and \<^verbatim>\<open>%02X\<close> of \<open>printf\<close>.\<close>

definition fmt_d :: "int \<Rightarrow> u8 list" where
  "fmt_d v = (if s32 v < 0 then 45 # rev (digits_rev (nat (- s32 v))) else rev (digits_rev (nat (s32 v))))"

definition hex_upper :: "nat \<Rightarrow> u8" where
  "hex_upper v = of_nat (if v < 10 then 48 + v else 55 + v)"

definition fmt_02X :: "u8 \<Rightarrow> u8 list" where
  "fmt_02X b = [hex_upper (unat b div 16), hex_upper (unat b mod 16)]"

text \<open>A step \<^verbatim>\<open>p += sprintf(p, ...)\<close>: the text and a NUL at \<open>p\<close>.\<close>

definition sprintf :: "mem \<times> addr \<Rightarrow> u8 list \<Rightarrow> (mem \<times> addr) option" where
  "sprintf mp t = map_option (\<lambda>m1. (m1, snd mp + length t)) (wr_bytes (fst mp) (snd mp) (t @ [0]))"

text \<open>A step \<^verbatim>\<open>base64_encode(p, maxlen - (p - sdpbuf), set, set_len); p += strlen(p);\<close>\<close>

definition put_base64 :: "addr \<Rightarrow> int \<Rightarrow> u8 list \<Rightarrow> nat \<Rightarrow> mem \<times> addr \<Rightarrow> (mem \<times> addr) option" where
  "put_base64 sdpbuf maxlen ps ps_len mp =
     (if ps_len > length ps then None
      else do {
        (m1, ret) \<leftarrow> base64_encode (fst mp) (snd mp) (maxlen - (int (snd mp) - int sdpbuf)) (take ps_len ps);
        n \<leftarrow> strlen m1 (snd mp);
        Some (m1, snd mp + n)
      })"

definition rtsp_build_sdp_media_attr_h264 :: "mem \<Rightarrow> int \<Rightarrow> int \<Rightarrow> codec_data_h264 \<Rightarrow> addr \<Rightarrow> int \<Rightarrow> (mem \<times> int) option" where
  "rtsp_build_sdp_media_attr_h264 m ptype rate cd sdpbuf maxlen =
     do {
       p \<leftarrow> sprintf (m, sdpbuf) (ascii ''m=video 0 RTP/AVP '' @ fmt_d ptype @ crlf);
       p \<leftarrow> sprintf p (ascii ''c=IN IP4 0.0.0.0'' @ crlf);
       p \<leftarrow> sprintf p (ascii ''a=rtpmap:'' @ fmt_d ptype @ ascii '' H264/'' @ fmt_d rate @ crlf);
       p \<leftarrow> (if sps264_len cd > 0 \<and> pps264_len cd > 0
         then do {
           p \<leftarrow> sprintf p (ascii ''a=fmtp:'' @ fmt_d ptype @ ascii '' packetization-mode=1;sprop-parameter-sets='');
           p \<leftarrow> put_base64 sdpbuf maxlen (sps264 cd) (sps264_len cd) p;
           p \<leftarrow> sprintf p (ascii '','');
           p \<leftarrow> put_base64 sdpbuf maxlen (pps264 cd) (pps264_len cd) p;
           sprintf p crlf
         }
         else sprintf p (ascii ''a=fmtp:'' @ fmt_d ptype @ ascii '' packetization-mode=1'' @ crlf));
       Some (fst p, int (snd p) - int sdpbuf)
     }"

definition rtsp_build_sdp_media_attr_h265 :: "mem \<Rightarrow> int \<Rightarrow> int \<Rightarrow> codec_data_h265 \<Rightarrow> addr \<Rightarrow> int \<Rightarrow> (mem \<times> int) option" where
  "rtsp_build_sdp_media_attr_h265 m ptype rate cd sdpbuf maxlen =
     do {
       p \<leftarrow> sprintf (m, sdpbuf) (ascii ''m=video 0 RTP/AVP '' @ fmt_d ptype @ crlf);
       p \<leftarrow> sprintf p (ascii ''c=IN IP4 0.0.0.0'' @ crlf);
       p \<leftarrow> sprintf p (ascii ''a=rtpmap:'' @ fmt_d ptype @ ascii '' H265/'' @ fmt_d rate @ crlf);
       p \<leftarrow> (if vps265_len cd > 0 \<and> sps265_len cd > 0 \<and> pps265_len cd > 0
         then do {
           p \<leftarrow> sprintf p (ascii ''a=fmtp:'' @ fmt_d ptype);
           p \<leftarrow> sprintf p (ascii '' sprop-vps='');
           p \<leftarrow> put_base64 sdpbuf maxlen (vps265 cd) (vps265_len cd) p;
           p \<leftarrow> sprintf p (ascii '';sprop-sps='');
           p \<leftarrow> put_base64 sdpbuf maxlen (sps265 cd) (sps265_len cd) p;
           p \<leftarrow> sprintf p (ascii '';sprop-pps='');
           p \<leftarrow> put_base64 sdpbuf maxlen (pps265 cd) (pps265_len cd) p;
           sprintf p crlf
         }
         else Some p);
       Some (fst p, int (snd p) - int sdpbuf)
     }"

definition sdp_audio :: "mem \<Rightarrow> int \<Rightarrow> u8 list \<Rightarrow> addr \<Rightarrow> (mem \<times> addr) option" where
  "sdp_audio m ptype rtpmap sdpbuf =
     do {
       p \<leftarrow> sprintf (m, sdpbuf) (ascii ''m=audio 0 RTP/AVP '' @ fmt_d ptype @ crlf);
       p \<leftarrow> sprintf p (ascii ''c=IN IP4 0.0.0.0'' @ crlf);
       sprintf p (ascii ''a=rtpmap:'' @ fmt_d ptype @ rtpmap @ crlf)
     }"

definition rtsp_build_sdp_media_attr_g711a :: "mem \<Rightarrow> int \<Rightarrow> int \<Rightarrow> addr \<Rightarrow> (mem \<times> int) option" where
  "rtsp_build_sdp_media_attr_g711a m ptype rate sdpbuf =
     do { p \<leftarrow> sdp_audio m ptype (ascii '' PCMA/'' @ fmt_d rate @ ascii ''/1'') sdpbuf; Some (fst p, int (snd p) - int sdpbuf) }"

definition rtsp_build_sdp_media_attr_g711u :: "mem \<Rightarrow> int \<Rightarrow> int \<Rightarrow> addr \<Rightarrow> (mem \<times> int) option" where
  "rtsp_build_sdp_media_attr_g711u m ptype rate sdpbuf =
     do { p \<leftarrow> sdp_audio m ptype (ascii '' PCMU/'' @ fmt_d rate @ ascii ''/1'') sdpbuf; Some (fst p, int (snd p) - int sdpbuf) }"

definition rtsp_build_sdp_media_attr_g726 :: "mem \<Rightarrow> int \<Rightarrow> int \<Rightarrow> codec_data_g726 \<Rightarrow> addr \<Rightarrow> (mem \<times> int) option" where
  "rtsp_build_sdp_media_attr_g726 m ptype rate cd sdpbuf =
     do {
       p \<leftarrow> sdp_audio m ptype (ascii '' G726-'' @ fmt_d (int (if bit_rate cd \<noteq> 0 then bit_rate cd div 1000 else 32)) @ ascii ''/'' @ fmt_d rate @ ascii ''/1'') sdpbuf;
       Some (fst p, int (snd p) - int sdpbuf)
     }"

definition rtsp_build_sdp_media_attr_aac :: "mem \<Rightarrow> int \<Rightarrow> int \<Rightarrow> codec_data_aac \<Rightarrow> addr \<Rightarrow> (mem \<times> int) option" where
  "rtsp_build_sdp_media_attr_aac m ptype rate cd sdpbuf =
     do {
       p \<leftarrow> sdp_audio m ptype (ascii '' MPEG4-GENERIC/'' @ fmt_d (int (if sample_rate cd \<noteq> 0 then sample_rate cd else 44100))
              @ ascii ''/'' @ fmt_d (int (if channels cd \<noteq> 0 then channels cd else 2))) sdpbuf;
       p \<leftarrow> (if audio_specific_config_len cd = 2
         then sprintf p (ascii ''a=fmtp:'' @ fmt_d ptype @ ascii '' profile-level-id=1;mode=AAC-hbr;sizelength=13;indexlength=3;indexdeltalength=3;config=''
                @ fmt_02X (audio_specific_config cd ! 0) @ fmt_02X (audio_specific_config cd ! 1) @ crlf)
         else sprintf p (ascii ''a=fmtp:'' @ fmt_d ptype @ ascii '' profile-level-id=1;mode=AAC-hbr;sizelength=13;indexlength=3;indexdeltalength=3'' @ crlf));
       Some (fst p, int (snd p) - int sdpbuf)
     }"

end
