(* ===== verification/Rtsp_Facts.thy ===== *)
theory Rtsp_Facts
  imports Rtsp_Utils
begin

section \<open>What the media descriptions promise\<close>

text \<open>
  The encoder writes the text of RFC 4648, which a decoder after the RFC reads back; the search cuts a stream at
  its start codes; the parsers collect the parameter sets as the reference \<open>collect\<close> does, both formats through the locale
  \<open>parameter_sets\<close>; the description holds the encoded sets.
\<close>

subsection \<open>Writing piece by piece\<close>

lemma overlay_append:
  "p + length x + length y \<le> length m \<Longrightarrow> overlay (overlay m p x) (p + length x) y = overlay m p (x @ y)"
  by (intro nth_equalityI) (auto simp: nth_overlay nth_append)

lemma wr_bytes_append:
  "wr_bytes m p (x @ y) = Option.bind (wr_bytes m p x) (\<lambda>m1. wr_bytes m1 (p + length x) y)"
  by (auto simp: wr_bytes_def overlay_append simp flip: add.assoc)

lemma wr_is_wr_bytes: "wr m p b = wr_bytes m p [b]"
  by (simp add: wr_def wr_bytes_def overlay_def upd_conv_take_nth_drop)

text \<open>The last NUL of a text is overwritten by the next piece.\<close>

lemma overlay_next:
  "p + length x + length y \<le> length m \<Longrightarrow> y \<noteq> [] \<Longrightarrow> overlay (overlay m p (x @ [0])) (p + length x) y = overlay m p (x @ y)"
  by (intro nth_equalityI) (cases y; auto simp: nth_overlay nth_append)+

subsection \<open>Base64\<close>

text \<open>The encoding of RFC 4648, on groups of three bytes, and its decoder.\<close>

definition b64c :: "u8 \<Rightarrow> u8" where
  "b64c s = b64 ! unat s"

definition sextet1 :: "u8 \<Rightarrow> u8 \<Rightarrow> u8" where
  "sextet1 a b = push_bit 4 (a AND 3) OR drop_bit 4 b"

definition sextet2 :: "u8 \<Rightarrow> u8 \<Rightarrow> u8" where
  "sextet2 b c = push_bit 2 (b AND 15) OR drop_bit 6 c"

fun b64_text :: "u8 list \<Rightarrow> u8 list" where
  "b64_text [] = []"
| "b64_text [a] = [b64c (drop_bit 2 a), b64c (sextet1 a 0), 61, 61]"
| "b64_text [a, b] = [b64c (drop_bit 2 a), b64c (sextet1 a b), b64c (sextet2 b 0), 61]"
| "b64_text (a # b # c # r) = [b64c (drop_bit 2 a), b64c (sextet1 a b), b64c (sextet2 b c), b64c (c AND 63)] @ b64_text r"

definition b64_value :: "u8 \<Rightarrow> u8" where
  "b64_value c = of_nat (length (takeWhile (\<lambda>x. x \<noteq> c) b64))"

fun b64_decode :: "u8 list \<Rightarrow> u8 list" where
  "b64_decode (w # x # y # z # r) =
     (let s0 = b64_value w; s1 = b64_value x; s2 = b64_value y; s3 = b64_value z in
      if y = 61 then [push_bit 2 s0 OR drop_bit 4 s1]
      else if z = 61 then [push_bit 2 s0 OR drop_bit 4 s1, push_bit 4 s1 OR drop_bit 2 s2]
      else [push_bit 2 s0 OR drop_bit 4 s1, push_bit 4 s1 OR drop_bit 2 s2, push_bit 6 s2 OR s3] @ b64_decode r)"
| "b64_decode r = []"

lemma b64_facts: "length b64 = 64" "distinct b64" "61 \<notin> set b64" "0 \<notin> set b64"
  by code_simp+

lemma takeWhile_index: "distinct xs \<Longrightarrow> i < length xs \<Longrightarrow> length (takeWhile (\<lambda>x. x \<noteq> xs ! i) xs) = i"
proof (induction xs arbitrary: i)
  case (Cons x xs)
  then show ?case by (cases i) auto
qed simp

lemma b64c_index: "(s :: u8) < 64 \<Longrightarrow> unat s < length b64"
  by (simp add: b64_facts(1) word_less_nat_alt)

lemma b64_value: "s < 64 \<Longrightarrow> b64_value (b64c s) = s"
  by (simp add: b64_value_def b64c_def takeWhile_index[OF b64_facts(2) b64c_index])

lemma b64c_in: "s < 64 \<Longrightarrow> b64c s \<in> set b64"
  by (simp add: b64c_def b64c_index)

lemma b64c_not: "s < 64 \<Longrightarrow> b64c s \<noteq> 61" "s < 64 \<Longrightarrow> b64c s \<noteq> 0"
  using b64c_in b64_facts(3,4) by metis+

lemma six_bits: "(x :: u8) AND 63 = x \<Longrightarrow> x < 64"
  using and_mask_less'[of 6 x] by (simp add: mask_eq_exp_minus_1)

lemma sextets:
  "(w :: u8) AND 63 < 64" "drop_bit 2 (w :: u8) < 64" "sextet1 a b < 64" "sextet2 b c < 64"
  by - (rule six_bits; rule bit_word_eqI; simp add: bit_simps sextet1_def sextet2_def; force simp: numeral_eq_Suc less_Suc_eq dest: bit_imp_le_length)+

lemma sextets_back:
  "push_bit 2 (drop_bit 2 a) OR drop_bit 4 (sextet1 a b) = (a :: u8)"
  "push_bit 4 (sextet1 a b) OR drop_bit 2 (sextet2 b c) = (b :: u8)"
  "push_bit 6 (sextet2 b c) OR (c AND 63) = (c :: u8)"
  by - (rule bit_word_eqI; simp add: bit_simps sextet1_def sextet2_def; force simp: numeral_eq_Suc less_Suc_eq)+

lemma b64_decode_text: "b64_decode (b64_text xs) = xs"
  by (induction xs rule: b64_text.induct)
    (simp_all add: b64_value sextets b64c_not(1) Let_def sextets_back)

lemma b64_text_length: "length (b64_text xs) = (length xs + 2) div 3 * 4"
proof (induction xs rule: b64_text.induct)
  case (4 a b c r)
  then show ?case using div_add_self2[of 3 "length r + 2"] by (simp add: algebra_simps)
qed auto

lemma b64_text_not_0: "0 \<notin> set (b64_text xs)"
  by (induction xs rule: b64_text.induct) (auto simp: sextets b64c_not(2)[symmetric])

text \<open>What the encoder does: whole groups, the bits of the rest, and the padding.\<close>

fun last_group :: "u8 list \<Rightarrow> u8 list" where
  "last_group (a # b # c # d # r) = last_group (d # r)"
| "last_group r = r"

fun first_groups :: "u8 list \<Rightarrow> u8 list" where
  "first_groups (a # b # c # d # r) = [b64c (drop_bit 2 a), b64c (sextet1 a b), b64c (sextet2 b c), b64c (c AND 63)] @ first_groups (d # r)"
| "first_groups r = []"

lemma b64_text_groups: "b64_text xs = first_groups xs @ b64_text (last_group xs)"
  by (induction xs rule: last_group.induct) auto

lemma last_group_cases: "last_group xs \<in> {[]} \<union> {[a] |a. True} \<union> {[a, b] |a b. True} \<union> {[a, b, c] |a b c. True}"
  by (induction xs rule: last_group.induct) auto

lemma first_groups_length: "length (first_groups xs) mod 4 = 0"
  by (induction xs rule: first_groups.induct) auto

lemma masks: "(63 :: 32 word) = mask 6" "(63 :: u8) = mask 6" "(15 :: u8) = mask 4" "(3 :: u8) = mask 2"
  by (simp_all add: mask_eq_exp_minus_1)

lemma RB32_parts:
  "drop_bit 26 (RB32 [a, b, c, d]) = ucast (drop_bit 2 a)"
  "drop_bit 20 (RB32 [a, b, c, d]) AND 63 = ucast (sextet1 a b)"
  "drop_bit 14 (RB32 [a, b, c, d]) AND 63 = ucast (sextet2 b c)"
  "drop_bit 8 (RB32 [a, b, c, d]) AND 63 = ucast (c AND 63)"
  by - (rule bit_word_eqI; unfold RB32_def sextet1_def sextet2_def masks; auto simp: bit_simps simp del: mask_numeral dest: bit_imp_le_length)+

lemma unat_up: "unat (ucast (s :: u8) :: 32 word) = unat s"
proof -
  have "unat s < 2 ^ LENGTH(8)" by (rule unsigned_less)
  then show ?thesis by (simp add: unsigned_ucast_eq take_bit_nat_eq_self)
qed

lemma b64_char_ucast: "b64_char x = b64c s" if "x AND 63 = ucast (s :: u8)"
  using that by (simp add: b64_char_def b64c_def unat_up)

lemma b64_groups_text:
  "b64_groups m dst xs = map_option (\<lambda>m1. (m1, dst + length (first_groups xs), last_group xs)) (wr_bytes m dst (first_groups xs))"
proof (induction m dst xs rule: b64_groups.induct)
  case (1 m dst a b c d r)
  have c: "b64 ! unat (drop_bit 26 (RB32 [a, b, c, d])) = b64c (drop_bit 2 a)"
    by (simp add: RB32_parts(1) b64c_def unat_up)
  have ch: "b64_char (drop_bit 20 (RB32 [a, b, c, d])) = b64c (sextet1 a b)" "b64_char (drop_bit 14 (RB32 [a, b, c, d])) = b64c (sextet2 b c)"
    "b64_char (drop_bit 8 (RB32 [a, b, c, d])) = b64c (c AND 63)"
    by (intro b64_char_ucast RB32_parts)+
  define g where "g = [b64c (drop_bit 2 a), b64c (sextet1 a b), b64c (sextet2 b c), b64c (c AND 63)]"
  have g4: "length g = 4" by (simp add: g_def)
  have fg: "first_groups (a # b # c # d # r) = g @ first_groups (d # r)" by (simp add: g_def)
  have "b64_groups m dst (a # b # c # d # r) = Option.bind (wr_bytes m dst g) (\<lambda>m1. b64_groups m1 (dst + 4) (d # r))"
    by (simp add: c ch g_def Let_def)
  also have "\<dots> = map_option (\<lambda>m1. (m1, dst + length (first_groups (a # b # c # d # r)), last_group (d # r))) (wr_bytes m dst (g @ first_groups (d # r)))"
    unfolding wr_bytes_append fg using 1[OF refl, unfolded c ch, folded g_def] g4 by (cases "wr_bytes m dst g") (auto simp: add.assoc)
  finally show ?case by (simp only: fg last_group.simps)
qed (simp_all add: wr_bytes_def)

lemma b64_tail_step:
  "b64_tail m dst w n = (if n > 0 then Option.bind (wr_bytes m dst [b64_char (drop_bit (nat n) (push_bit 6 w))]) (\<lambda>m1. b64_tail m1 (dst + 1) w (n - 6)) else Some (m, dst))"
  by (subst b64_tail.simps) (simp add: wr_is_wr_bytes split: option.splits)

text \<open>The characters of the last group, without the padding.\<close>

definition tail_chars :: "u8 list \<Rightarrow> u8 list" where
  "tail_chars r = take (length r + (if r = [] then 0 else 1)) (b64_text r)"

lemma b64_bits_parts:
  "drop_bit 8 (push_bit 6 (b64_bits [a])) AND 63 = ucast (drop_bit 2 a)"
  "drop_bit 2 (push_bit 6 (b64_bits [a])) AND 63 = ucast (sextet1 a 0)"
  "drop_bit 16 (push_bit 6 (b64_bits [a, b])) AND 63 = ucast (drop_bit 2 a)"
  "drop_bit 10 (push_bit 6 (b64_bits [a, b])) AND 63 = ucast (sextet1 a b)"
  "drop_bit 4 (push_bit 6 (b64_bits [a, b])) AND 63 = ucast (sextet2 b 0)"
  "drop_bit 24 (push_bit 6 (b64_bits [a, b, c])) AND 63 = ucast (drop_bit 2 a)"
  "drop_bit 18 (push_bit 6 (b64_bits [a, b, c])) AND 63 = ucast (sextet1 a b)"
  "drop_bit 12 (push_bit 6 (b64_bits [a, b, c])) AND 63 = ucast (sextet2 b c)"
  "drop_bit 6 (push_bit 6 (b64_bits [a, b, c])) AND 63 = ucast (c AND 63)"
proof -
  have o: "push_bit 8 w + ucast (x :: u8) = push_bit 8 w OR ucast x" for w :: "32 word" and x
    by (rule disjunctive_add) (auto simp: bit_simps dest: bit_imp_le_length)
  have b: "b64_bits [a] = ucast a" "b64_bits [a, b] = push_bit 8 (ucast a) OR ucast b"
    "b64_bits [a, b, c] = push_bit 8 (push_bit 8 (ucast a) OR ucast b) OR ucast c"
    by (simp_all add: b64_bits_def o)
  show "drop_bit 8 (push_bit 6 (b64_bits [a])) AND 63 = ucast (drop_bit 2 a)"
    "drop_bit 2 (push_bit 6 (b64_bits [a])) AND 63 = ucast (sextet1 a 0)"
    "drop_bit 16 (push_bit 6 (b64_bits [a, b])) AND 63 = ucast (drop_bit 2 a)"
    "drop_bit 10 (push_bit 6 (b64_bits [a, b])) AND 63 = ucast (sextet1 a b)"
    "drop_bit 4 (push_bit 6 (b64_bits [a, b])) AND 63 = ucast (sextet2 b 0)"
    "drop_bit 24 (push_bit 6 (b64_bits [a, b, c])) AND 63 = ucast (drop_bit 2 a)"
    "drop_bit 18 (push_bit 6 (b64_bits [a, b, c])) AND 63 = ucast (sextet1 a b)"
    "drop_bit 12 (push_bit 6 (b64_bits [a, b, c])) AND 63 = ucast (sextet2 b c)"
    "drop_bit 6 (push_bit 6 (b64_bits [a, b, c])) AND 63 = ucast (c AND 63)"
    by - (rule bit_word_eqI; unfold b sextet1_def sextet2_def masks; auto simp: bit_simps simp del: mask_numeral dest: bit_imp_le_length)+
qed

lemma last_group_elim:
  obtains "last_group xs = []" | a where "last_group xs = [a]" | a b where "last_group xs = [a, b]" | a b c where "last_group xs = [a, b, c]"
  using last_group_cases[of xs] by auto

lemma b64_tail_text:
  assumes "r \<in> {[]} \<union> {[a] |a. True} \<union> {[a, b] |a b. True} \<union> {[a, b, c] |a b c. True}"
  shows "b64_tail m dst (b64_bits r) (8 * int (length r)) = map_option (\<lambda>m1. (m1, dst + length (tail_chars r))) (wr_bytes m dst (tail_chars r))"
proof -
  have two: "wr_bytes m p (x # y # r) = Option.bind (wr_bytes m p [x]) (\<lambda>m1. wr_bytes m1 (p + 1) (y # r))" for m p x y r
    using wr_bytes_append[of m p "[x]" "y # r"] by simp
  note c = b64_bits_parts[THEN b64_char_ucast]
  from assms consider "r = []" | a where "r = [a]" | a b where "r = [a, b]" | a b c where "r = [a, b, c]" by auto
  then show ?thesis
    by cases (simp_all add: b64_tail_step tail_chars_def wr_bytes_def[of m dst "[]"] c two map_conv_bind_option comp_def add.assoc)
qed

lemma b64_text_tail:
  assumes "r \<in> {[]} \<union> {[a] |a. True} \<union> {[a, b] |a b. True} \<union> {[a, b, c] |a b c. True}"
  shows "b64_text r = tail_chars r @ replicate (nat (- int (length (tail_chars r)) mod 4)) 61"
  using assms by (auto simp: tail_chars_def numeral_eq_Suc)

lemma base64_encode_text:
  assumes "length xs < (2 ^ 32 - 1) div 4" "BASE64_SIZE (int (length xs)) \<le> n"
  shows "base64_encode m out n xs = map_option (\<lambda>m1. (m1, out)) (wr_bytes m out (b64_text xs @ [0]))"
proof -
  let ?f = "first_groups xs" and ?r = "last_group xs"
  let ?t = "tail_chars ?r"
  let ?p = "replicate (nat (- int (length ?t) mod 4)) (61 :: u8)"
  have b: "b64_text xs @ [0] = ?f @ ?t @ ?p @ [0]"
    using b64_text_groups[of xs] b64_text_tail[OF last_group_cases[of xs]] by simp
  have pad: "- (int (length ?f) + int (length ?t)) mod 4 = - int (length ?t) mod 4"
    using first_groups_length[of xs] by (simp add: mod_eq_0_iff_dvd) presburger
  have "\<not> (int (length xs) \<ge> (2 ^ 32 - 1) div 4 \<or> n < BASE64_SIZE (int (length xs)))"
    using assms by auto
  then have "base64_encode m out n xs = Option.bind (wr_bytes m out ?f) (\<lambda>m1. Option.bind (wr_bytes m1 (out + length ?f) ?t)
      (\<lambda>m2. Option.bind (wr_bytes m2 (out + length ?f + length ?t) ?p) (\<lambda>m3. Option.bind (wr_bytes m3 (out + length ?f + length ?t + length ?p) [0]) (\<lambda>m4. Some (m4, out)))))"
    using pad by (simp add: base64_encode_def b64_groups_text b64_tail_text[OF last_group_cases] map_conv_bind_option wr_is_wr_bytes Let_def)
  also have "\<dots> = map_option (\<lambda>m1. (m1, out)) (wr_bytes m out (?f @ ?t @ ?p @ [0]))"
    by (simp add: wr_bytes_append map_conv_bind_option comp_def add.assoc)
  finally show ?thesis by (simp only: b)
qed

text \<open>C24: The encoder writes a text without NUL, ended by one, that a decoder after RFC 4648 turns back into the input, and
nothing but that text.\<close>

theorem base64_encode_decodes:
  assumes "length xs < 2 ^ 30 - 1" "BASE64_SIZE (int (length xs)) \<le> n" "0 < out" "out + nat n \<le> length m"
  shows "\<exists>m' t. base64_encode m out n xs = Some (m', out) \<and> bytes_at m' out (t @ [0]) \<and> 0 \<notin> set t \<and> b64_decode t = xs \<and>
    length t + 1 \<le> nat n \<and> (\<forall>a. a < out \<or> out + length t < a \<longrightarrow> rd m' a = rd m a)"
proof -
  have l: "int (length (b64_text xs)) = (int (length xs) + 2) div 3 * 4" using b64_text_length[of xs] by (simp add: zdiv_int)
  then have n: "length (b64_text xs) + 1 \<le> nat n" using assms(2) by (simp add: BASE64_SIZE_def)
  then obtain m' where w: "wr_bytes m out (b64_text xs @ [0]) = Some m'" using assms(3,4) by (auto simp: wr_bytes_def)
  have "base64_encode m out n xs = Some (m', out)"
    using base64_encode_text[of xs n m out] assms(1,2) w by simp
  then show ?thesis
    using wr_bytes_at[OF w] b64_text_not_0[of xs] b64_decode_text[of xs] n by (intro exI[of _ m'] exI[of _ "b64_text xs"]) auto
qed

lemma base64_encode_decodes_witness:
  "\<exists>m' t. base64_encode (replicate 20 7) 3 9 [77, 97, 110, 33] = Some (m', 3) \<and> bytes_at m' 3 (t @ [0]) \<and> 0 \<notin> set t \<and>
    b64_decode t = [77, 97, 110, 33] \<and> length t + 1 \<le> nat 9 \<and> (\<forall>a. a < 3 \<or> 3 + length t < a \<longrightarrow> rd m' a = rd (replicate 20 7) a)"
  by (rule base64_encode_decodes) (simp_all add: BASE64_SIZE_def)

subsection \<open>Session descriptions\<close>

text \<open>The description of an H.264 stream with both sets; \<open>sdp_h264 ptype rate t u\<close> has the encoded sets \<open>t\<close> and \<open>u\<close>.\<close>

definition sdp_h264 :: "int \<Rightarrow> int \<Rightarrow> u8 list \<Rightarrow> u8 list \<Rightarrow> u8 list" where
  "sdp_h264 ptype rate t u =
     ascii ''m=video 0 RTP/AVP '' @ fmt_d ptype @ crlf @ ascii ''c=IN IP4 0.0.0.0'' @ crlf @
     ascii ''a=rtpmap:'' @ fmt_d ptype @ ascii '' H264/'' @ fmt_d rate @ crlf @
     ascii ''a=fmtp:'' @ fmt_d ptype @ ascii '' packetization-mode=1;sprop-parameter-sets='' @ t @ ascii '','' @ u @ crlf"

text \<open>\<open>written m q t mp\<close>: the text \<open>t\<close> with its NUL is what was written from \<open>q\<close> on.\<close>

definition written :: "mem \<Rightarrow> addr \<Rightarrow> u8 list \<Rightarrow> mem \<times> addr \<Rightarrow> bool" where
  "written m q t mp \<longleftrightarrow> mp = (overlay m q (t @ [0]), q + length t)"

lemma sprintf_first:
  "0 < q \<Longrightarrow> q + length t < length m \<Longrightarrow> \<exists>mp. sprintf (m, q) t = Some mp \<and> written m q t mp"
  by (auto simp: sprintf_def wr_bytes_def written_def)

lemma sprintf_next:
  assumes "written m q t mp" "0 < q" "q + length t + length u < length m"
  shows "\<exists>mp1. sprintf mp u = Some mp1 \<and> written m q (t @ u) mp1"
  using assms overlay_next[of q t "u @ [0]" m] by (auto simp: sprintf_def wr_bytes_def written_def add.assoc)

lemma put_base64_next:
  assumes "written m q t mp" "0 < q" "q + length t + length (b64_text (take k ps)) < length m" "k \<le> length ps" "k < 2 ^ 30 - 1"
    and "int (length t) + int (length (b64_text (take k ps))) < maxlen" "0 \<notin> set t"
  shows "\<exists>mp1. put_base64 q maxlen ps k mp = Some mp1 \<and> written m q (t @ b64_text (take k ps)) mp1"
proof -
  let ?u = "b64_text (take k ps)"
  let ?m = "overlay m q (t @ ?u @ [0])"
  have mp: "mp = (overlay m q (t @ [0]), q + length t)" using assms(1) by (simp add: written_def)
  have l: "int (length ?u) = (int (length (take k ps)) + 2) div 3 * 4" using b64_text_length[of "take k ps"] by (simp add: zdiv_int)
  then have n: "BASE64_SIZE (int (length (take k ps))) \<le> maxlen - (int (q + length t) - int q)"
    using assms(6) by (simp add: BASE64_SIZE_def)
  have w: "wr_bytes (fst mp) (snd mp) (?u @ [0]) = Some ?m"
    using overlay_next[of q t "?u @ [0]" m] assms(2,3) by (simp add: mp wr_bytes_def)
  then have s: "strlen ?m (snd mp) = Some (length ?u)"
    using wr_bytes_at[OF w] b64_text_not_0 by (intro c_strlen_of_str) auto
  have "base64_encode (fst mp) (snd mp) (maxlen - (int (snd mp) - int q)) (take k ps) = Some (?m, snd mp)"
    using base64_encode_text[of "take k ps" "maxlen - (int (snd mp) - int q)"] n w assms(4,5) by (simp add: mp)
  then show ?thesis
    using assms(4) s by (auto simp: put_base64_def written_def mp)
qed

lemma digits_rev_not_0: "0 \<notin> set (digits_rev v)"
proof (induction v rule: digits_rev.induct)
  case (1 v)
  have "unat (of_nat (v mod 10) + 48 :: u8) = v mod 10 + 48"
    by (simp add: unat_word_ariths unat_of_nat)
  then have "of_nat (v mod 10) + 48 \<noteq> (0 :: u8)" by force
  with 1 show ?case by (subst digits_rev.simps) auto
qed

lemma fmt_d_not_0: "0 \<notin> set (fmt_d v)"
  by (simp add: fmt_d_def digits_rev_not_0)

lemma sdp_texts_not_0:
  "0 \<notin> set (ascii ''m=video 0 RTP/AVP '')" "0 \<notin> set (ascii ''c=IN IP4 0.0.0.0'')" "0 \<notin> set (ascii ''a=rtpmap:'')" "0 \<notin> set (ascii '' H264/'')"
  "0 \<notin> set (ascii ''a=fmtp:'')" "0 \<notin> set (ascii '' packetization-mode=1;sprop-parameter-sets='')" "0 \<notin> set (ascii '','')" "0 \<notin> set crlf"
  by code_simp+

text \<open>C26: The description of a stream whose sets are known is written with its NUL, and nothing else; its length is returned,
and the base64 parts in it decode to the two sets.\<close>

theorem rtsp_sdp_h264_carries_sets:
  fixes cd :: codec_data_h264
  assumes "0 < sps264_len cd" "sps264_len cd \<le> length (sps264 cd)" "length (sps264 cd) = 64"
    and "0 < pps264_len cd" "pps264_len cd \<le> length (pps264 cd)" "length (pps264 cd) = 64"
    and "0 < buf" "int (length (sdp_h264 ptype rate (b64_text (take (sps264_len cd) (sps264 cd))) (b64_text (take (pps264_len cd) (pps264 cd))))) < maxlen" "buf + nat maxlen \<le> length m"
  shows "\<exists>m' t u. rtsp_build_sdp_media_attr_h264 m ptype rate cd buf maxlen = Some (m', int (length (sdp_h264 ptype rate t u))) \<and>
    bytes_at m' buf (sdp_h264 ptype rate t u @ [0]) \<and> b64_decode t = take (sps264_len cd) (sps264 cd) \<and> b64_decode u = take (pps264_len cd) (pps264 cd) \<and>
    (\<forall>a. a < buf \<or> buf + length (sdp_h264 ptype rate t u) < a \<longrightarrow> rd m' a = rd m a)"
proof -
  let ?t = "b64_text (take (sps264_len cd) (sps264 cd))" and ?u = "b64_text (take (pps264_len cd) (pps264 cd))"
  define h1 where "h1 = ascii ''m=video 0 RTP/AVP '' @ fmt_d ptype @ crlf"
  define h2 where "h2 = ascii ''c=IN IP4 0.0.0.0'' @ crlf"
  define h3 where "h3 = ascii ''a=rtpmap:'' @ fmt_d ptype @ ascii '' H264/'' @ fmt_d rate @ crlf"
  define h4 where "h4 = ascii ''a=fmtp:'' @ fmt_d ptype @ ascii '' packetization-mode=1;sprop-parameter-sets=''"
  have z: "0 \<notin> set (((h1 @ h2) @ h3) @ h4)" "0 \<notin> set ((((( h1 @ h2) @ h3) @ h4) @ ?t) @ ascii '','')"
    using sdp_texts_not_0 fmt_d_not_0 b64_text_not_0 by (simp_all add: h1_def h2_def h3_def h4_def)
  have whole: "sdp_h264 ptype rate ?t ?u = (((((( h1 @ h2) @ h3) @ h4) @ ?t) @ ascii '','') @ ?u) @ crlf"
    by (simp add: sdp_h264_def h1_def h2_def h3_def h4_def)
  have l: "buf + length ((((((( h1 @ h2) @ h3) @ h4) @ ?t) @ ascii '','') @ ?u) @ crlf) < length m"
    "int (length ((((((( h1 @ h2) @ h3) @ h4) @ ?t) @ ascii '','') @ ?u) @ crlf)) < maxlen"
    using assms(8,9) unfolding whole by linarith+
  obtain p1 where p1: "sprintf (m, buf) h1 = Some p1" "written m buf h1 p1"
    using sprintf_first[of buf h1 m] assms(7) l by auto
  obtain p2 where p2: "sprintf p1 h2 = Some p2" "written m buf (h1 @ h2) p2"
    using sprintf_next[OF p1(2) assms(7), of h2] l by auto
  obtain p3 where p3: "sprintf p2 h3 = Some p3" "written m buf ((h1 @ h2) @ h3) p3"
    using sprintf_next[OF p2(2) assms(7), of h3] l by auto
  obtain p4 where p4: "sprintf p3 h4 = Some p4" "written m buf (((h1 @ h2) @ h3) @ h4) p4"
    using sprintf_next[OF p3(2) assms(7), of h4] l by auto
  obtain p5 where p5: "put_base64 buf maxlen (sps264 cd) (sps264_len cd) p4 = Some p5" "written m buf ((((h1 @ h2) @ h3) @ h4) @ ?t) p5"
    using put_base64_next[OF p4(2) assms(7), of "sps264_len cd" "sps264 cd" maxlen] l z assms(2,3) by auto
  obtain p6 where p6: "sprintf p5 (ascii '','') = Some p6" "written m buf (((((h1 @ h2) @ h3) @ h4) @ ?t) @ ascii '','') p6"
    using sprintf_next[OF p5(2) assms(7), of "ascii '',''"] l by auto
  obtain p7 where p7: "put_base64 buf maxlen (pps264 cd) (pps264_len cd) p6 = Some p7" "written m buf ((((((h1 @ h2) @ h3) @ h4) @ ?t) @ ascii '','') @ ?u) p7"
    using put_base64_next[OF p6(2) assms(7), of "pps264_len cd" "pps264 cd" maxlen] l z assms(5,6) by auto
  obtain p8 where p8: "sprintf p7 crlf = Some p8" "written m buf (sdp_h264 ptype rate ?t ?u) p8"
    using sprintf_next[OF p7(2) assms(7), of crlf] l unfolding whole by auto
  have m8: "wr_bytes m buf (sdp_h264 ptype rate ?t ?u @ [0]) = Some (fst p8)"
    using p8(2) l assms(7) unfolding whole by (simp add: written_def wr_bytes_def)
  have "rtsp_build_sdp_media_attr_h264 m ptype rate cd buf maxlen = Some (fst p8, int (length (sdp_h264 ptype rate ?t ?u)))"
    using p1(1) p2(1) p3(1) p4(1) p5(1) p6(1) p7(1) p8 assms(1,4)
    by (simp add: rtsp_build_sdp_media_attr_h264_def written_def flip: h1_def h2_def h3_def h4_def)
  then show ?thesis
    using wr_bytes_at[OF m8] b64_decode_text by (intro exI[of _ "fst p8"] exI[of _ ?t] exI[of _ ?u]) auto
qed

definition some_h264 :: codec_data_h264 where
  "some_h264 = \<lparr>sps264 = 103 # replicate 63 0, pps264 = 104 # 206 # replicate 62 0, sps264_len = 1, pps264_len = 2\<rparr>"

lemma rtsp_sdp_h264_carries_sets_witness:
  "\<exists>m' t u. rtsp_build_sdp_media_attr_h264 (replicate 500 7) 96 90000 some_h264 10 400 = Some (m', int (length (sdp_h264 96 90000 t u))) \<and>
    bytes_at m' 10 (sdp_h264 96 90000 t u @ [0]) \<and> b64_decode t = take (sps264_len some_h264) (sps264 some_h264) \<and>
    b64_decode u = take (pps264_len some_h264) (pps264 some_h264) \<and>
    (\<forall>a. a < 10 \<or> 10 + length (sdp_h264 96 90000 t u) < a \<longrightarrow> rd m' a = rd (replicate 500 7) a)"
proof (rule rtsp_sdp_h264_carries_sets)
  show "int (length (sdp_h264 96 90000 (b64_text (take (sps264_len some_h264) (sps264 some_h264)))
      (b64_text (take (pps264_len some_h264) (pps264 some_h264))))) < 400"
    by (simp add: sdp_h264_def ascii_def crlf_def b64_text_length fmt_d_def s32_def some_h264_def digits_rev.simps)
qed (simp_all add: some_h264_def)

subsection \<open>The units of a stream\<close>

text \<open>No start code begins in a unit, and its last byte is not zero: what the standards promise.\<close>

fun no_code :: "u8 list \<Rightarrow> bool" where
  "no_code (a # b # c # r) = (\<not> (a = 0 \<and> b = 0 \<and> c = 1) \<and> no_code (b # c # r))"
| "no_code r = True"

definition unit_ok :: "u8 list \<Rightarrow> bool" where
  "unit_ok x \<longleftrightarrow> x \<noteq> [] \<and> last x \<noteq> 0 \<and> no_code x"

definition start_code :: "bool \<Rightarrow> u8 list" where
  "start_code long = (if long then [0, 0, 0, 1] else [0, 0, 1])"

definition stream :: "(bool \<times> u8 list) list \<Rightarrow> u8 list" where
  "stream us = concat (map (\<lambda>(long, x). start_code long @ x) us)"

lemma stream_simps: "stream [] = []" "stream ((long, x) # us) = start_code long @ x @ stream us"
  by (simp_all add: stream_def)

lemma no_code_Cons: "no_code (c # x) \<Longrightarrow> no_code x"
  by (cases "c # x" rule: no_code.cases) auto

lemma no_begin:
  assumes "no_code x" "x \<noteq> []" "last x \<noteq> 0"
  shows "3 \<le> length (x @ y) \<Longrightarrow> begins (x @ y) [0, 0, 1] = Some False"
    and "4 \<le> length (x @ y) \<Longrightarrow> begins (x @ y) [0, 0, 0, 1] = Some False"
proof -
  from assms consider a where "x = [a]" "a \<noteq> 0" | a b where "x = [a, b]" "b \<noteq> 0"
    | a b c where "x = [a, b, c]" "c \<noteq> 0" "\<not> (a = 0 \<and> b = 0 \<and> c = 1)"
    | a b c d r where "x = a # b # c # d # r" "\<not> (a = 0 \<and> b = 0 \<and> c = 1)" "\<not> (b = 0 \<and> c = 0 \<and> d = 1)"
    by (cases x; cases "tl x"; cases "tl (tl x)"; cases "tl (tl (tl x))") auto
  note cs = this
  show "3 \<le> length (x @ y) \<Longrightarrow> begins (x @ y) [0, 0, 1] = Some False"
    using cs by cases (cases y; cases "tl y"; auto)+
  show "4 \<le> length (x @ y) \<Longrightarrow> begins (x @ y) [0, 0, 0, 1] = Some False"
    using cs by cases (cases y; cases "tl y"; cases "tl (tl y)"; auto)+
qed

lemma find_nalu_end:
  assumes "no_code x" "x = [] \<or> last x \<noteq> 0" "y = [] \<or> (\<exists>long z. y = start_code long @ z)" "drop pos bs = x @ y"
  shows "find_nalu bs pos (int (length (x @ y))) (Some a) = Some (Some (a, int pos + int (length x) - int a))"
  using assms
proof (induction x arbitrary: pos)
  case Nil
  then show ?case by (subst find_nalu.simps) (auto simp: start_code_def split: if_splits)
next
  case (Cons c x)
  let ?len = "int (length (c # x @ y))"
  have y: "y = [] \<or> length y \<ge> 3" using Cons.prems(3) by (auto simp: start_code_def split: if_splits)
  show ?case
  proof (cases "?len \<ge> 3")
    case False
    with y show ?thesis by (subst find_nalu.simps) auto
  next
    case True
    have "drop (pos + 1) bs = x @ y" using Cons.prems(4) by (metis Suc_eq_plus1 append_Cons drop_Suc list.sel(3) tl_drop)
    moreover have "x = [] \<or> last x \<noteq> 0" using Cons.prems(2) by auto
    ultimately have ih: "find_nalu bs (pos + 1) (int (length (x @ y))) (Some a) = Some (Some (a, int (pos + 1) + int (length x) - int a))"
      using Cons.IH no_code_Cons[OF Cons.prems(1)] Cons.prems(3) by blast
    have "last (c # x) \<noteq> 0" using Cons.prems(2) by simp
    from no_begin[OF Cons.prems(1) _ this, of y] True Cons.prems(4)
    have "begins (drop pos bs) [0, 0, 1] = Some False" "(if ?len \<ge> 4 then begins (drop pos bs) [0, 0, 0, 1] else Some False) = Some False"
      by simp_all
    then show ?thesis using ih True unfolding find_nalu.simps[of bs pos] by simp
  qed
qed

lemma stream_shape: "stream us = [] \<or> (\<exists>long z. stream us = start_code long @ z)"
proof (cases us)
  case (Cons u us)
  then show ?thesis by (cases u) (auto simp: stream_simps)
qed (simp add: stream_simps)

lemma find_unit:
  assumes "unit_ok x"
  shows "rtsp_find_h264_h265_nalu (start_code long @ x @ stream us) (int (length (start_code long @ x @ stream us))) =
    Some (Some (0, int (length (start_code long @ x))))"
proof -
  have x: "x \<noteq> []" "last x \<noteq> 0" "no_code x" using assms by (simp_all add: unit_ok_def)
  from x(1) have l: "1 \<le> length x" by (cases x) auto
  note e = find_nalu_end[OF x(3) _ stream_shape[of us], where a = 0]
  show ?thesis
  proof (cases long)
    case True
    with e[of 4 "start_code True @ x @ stream us"] x(2) l show ?thesis
      unfolding rtsp_find_h264_h265_nalu_def by (subst find_nalu.simps) (simp add: start_code_def)
  next
    case False
    with e[of 3 "start_code False @ x @ stream us"] x(2) l show ?thesis
      unfolding rtsp_find_h264_h265_nalu_def by (subst find_nalu.simps) (simp add: start_code_def)
  qed
qed

lemma nal_loop_step:
  assumes "unit_ok x"
  shows "nal_loop full unit (stream ((long, x) # us)) (int (length (stream ((long, x) # us)))) cd ret =
    (if full cd then Some (cd, ret)
     else Option.bind (unit (x @ stream us) (int (length x)) cd) (\<lambda>(cd1, n). nal_loop full unit (stream us) (int (length (stream us))) cd1 (ret + n)))"
proof -
  have x: "1 \<le> length x" using assms by (cases x) (auto simp: unit_ok_def)
  have "drop (nat (4 + int (length x))) (0 # 0 # 0 # 1 # x @ stream us) = stream us" "drop (nat (3 + int (length x))) (0 # 0 # 1 # x @ stream us) = stream us"
    by (simp_all add: nat_add_distrib numeral_eq_Suc)
  then show ?thesis
    using find_unit[OF assms, of long us] x
    by (subst nal_loop.simps) (simp add: stream_simps start_code_def byte_at_def nth_append numeral_eq_Suc split: option.splits bind_split)
qed

lemma nal_loop_done: "nal_loop full unit [] 0 cd ret = Some (cd, ret)"
  by (subst nal_loop.simps) simp

lemma store_set_unit:
  "length old = 64 \<Longrightarrow> store_set (x @ y) (int (length x)) old = Some (overlay old 0 (take 64 x), length (take 64 x))"
  by (auto simp: store_set_def copy_bytes_def min_def Let_def nat_eq_iff2)

text \<open>
  The reference: \<open>collect need kind sets n xs\<close> goes through the units \<open>xs\<close> until there is a set of every needed kind; a
  later set replaces an earlier one of its kind. \<open>n\<close> counts the sets that were stored.
\<close>

fun collect :: "nat list \<Rightarrow> (u8 list \<Rightarrow> nat) \<Rightarrow> (nat \<rightharpoonup> u8 list) \<Rightarrow> int \<Rightarrow> u8 list list \<Rightarrow> (nat \<rightharpoonup> u8 list) \<times> int" where
  "collect need kind sets n [] = (sets, n)"
| "collect need kind sets n (x # xs) =
     (if list_all (\<lambda>k. sets k \<noteq> None) need then (sets, n)
      else if kind x \<in> set need then collect need kind (sets(kind x \<mapsto> take 64 x)) (n + 1) xs
      else collect need kind sets n xs)"

text \<open>What the formats share: \<open>sets_of\<close> reads the sets out of the data, \<open>valid\<close> holds of the data.\<close>

locale parameter_sets =
  fixes full :: "'s \<Rightarrow> bool"
    and unit :: "u8 list \<Rightarrow> int \<Rightarrow> 's \<Rightarrow> ('s \<times> int) option"
    and need :: "nat list"
    and kind :: "u8 list \<Rightarrow> nat"
    and sets_of :: "'s \<Rightarrow> nat \<rightharpoonup> u8 list"
    and valid :: "'s \<Rightarrow> bool"
  assumes full_iff: "valid cd \<Longrightarrow> full cd = list_all (\<lambda>k. sets_of cd k \<noteq> None) need"
    and unit_needed: "valid cd \<Longrightarrow> x \<noteq> [] \<Longrightarrow> kind x \<in> set need \<Longrightarrow>
      \<exists>cd1. unit (x @ y) (int (length x)) cd = Some (cd1, 1) \<and> valid cd1 \<and> sets_of cd1 = (sets_of cd)(kind x \<mapsto> take 64 x)"
    and unit_other: "x \<noteq> [] \<Longrightarrow> kind x \<notin> set need \<Longrightarrow> unit (x @ y) (int (length x)) cd = Some (cd, 0)"
begin

lemma nal_loop_collects:
  "valid cd \<Longrightarrow> list_all (\<lambda>(long, x). unit_ok x) us \<Longrightarrow>
   \<exists>cd1 n. nal_loop full unit (stream us) (int (length (stream us))) cd ret = Some (cd1, n) \<and> valid cd1 \<and>
     (sets_of cd1, n) = collect need kind (sets_of cd) ret (map snd us)"
proof (induction us arbitrary: cd ret)
  case Nil
  then show ?case by (simp add: stream_simps nal_loop_done)
next
  case (Cons u us)
  obtain long x where u: "u = (long, x)" by (cases u)
  from Cons.prems(2) have x: "unit_ok x" "x \<noteq> []" and us: "list_all (\<lambda>(long, x). unit_ok x) us" by (simp_all add: u unit_ok_def)
  show ?case
  proof (cases "full cd")
    case True
    then show ?thesis using nal_loop_step[OF x(1), of full unit long us cd ret] Cons.prems(1) full_iff[of cd] by (simp add: u)
  next
    case False
    show ?thesis
    proof (cases "kind x \<in> set need")
      case True
      from unit_needed[OF Cons.prems(1) x(2) True, of "stream us"] obtain cd1
        where c: "unit (x @ stream us) (int (length x)) cd = Some (cd1, 1)" "valid cd1" "sets_of cd1 = (sets_of cd)(kind x \<mapsto> take 64 x)"
        by (elim exE conjE)
      show ?thesis
        using nal_loop_step[OF x(1), of full unit long us cd ret] Cons.IH[OF c(2) us, of "ret + 1", unfolded c(3)] False c(1) full_iff[OF Cons.prems(1)] True
        by (simp add: u del: fun_upd_apply)
    next
      case other: False
      show ?thesis
        using nal_loop_step[OF x(1), of full unit long us cd ret] Cons.IH[OF Cons.prems(1) us, of ret] False unit_other[OF x(2) other]
          full_iff[OF Cons.prems(1)] other
        by (simp add: u)
    qed
  qed
qed

end

text \<open>H.264: the kind of a unit is in its low five bits.\<close>

definition kind264 :: "u8 list \<Rightarrow> nat" where
  "kind264 x = unat (hd x AND 31)"

definition sets264 :: "codec_data_h264 \<Rightarrow> nat \<rightharpoonup> u8 list" where
  "sets264 cd k =
     (if k = 7 \<and> sps264_len cd > 0 then Some (take (sps264_len cd) (sps264 cd))
      else if k = 8 \<and> pps264_len cd > 0 then Some (take (pps264_len cd) (pps264 cd)) else None)"

definition valid264 :: "codec_data_h264 \<Rightarrow> bool" where
  "valid264 cd \<longleftrightarrow> length (sps264 cd) = 64 \<and> length (pps264 cd) = 64"

lemma take_overlay_0: "take (length xs) (overlay ys 0 xs) = xs"
  by (simp add: overlay_def)

lemma take_overlay_64: "length ys = 64 \<Longrightarrow> take (min (length x) 64) (overlay ys 0 (take 64 x)) = take 64 x"
  using take_overlay_0[of "take 64 x" ys] by simp

lemma unat_eq_num: "(w = (7 :: u8)) = (unat w = 7)" "(w = (8 :: u8)) = (unat w = 8)"
  "(w = (32 :: u8)) = (unat w = 32)" "(w = (33 :: u8)) = (unat w = 33)" "(w = (34 :: u8)) = (unat w = 34)"
  by (simp_all add: word_unat_eq_iff)

lemma byte_at_hd: "x \<noteq> [] \<Longrightarrow> byte_at (x @ y) 0 = Some (hd x)"
  by (cases x) (simp_all add: byte_at_def)

lemma sps_unit_kind:
  assumes "x \<noteq> []" "valid264 cd"
  shows "sps_unit (x @ y) (int (length x)) cd =
    (if kind264 x = 7 then Some (cd\<lparr>sps264 := overlay (sps264 cd) 0 (take 64 x), sps264_len := min (length x) 64\<rparr>, 1)
     else if kind264 x = 8 then Some (cd\<lparr>pps264 := overlay (pps264 cd) 0 (take 64 x), pps264_len := min (length x) 64\<rparr>, 1)
     else Some (cd, 0))"
  using assms by (auto simp: sps_unit_def byte_at_hd kind264_def valid264_def store_set_unit unat_eq_num Let_def)

interpretation h264: parameter_sets "\<lambda>cd. sps264_len cd > 0 \<and> pps264_len cd > 0" sps_unit "[7, 8]" kind264 sets264 valid264
proof
  show "(sps264_len cd > 0 \<and> pps264_len cd > 0) = list_all (\<lambda>k. sets264 cd k \<noteq> None) [7, 8]" for cd
    by (auto simp: sets264_def)
  show "\<exists>cd1. sps_unit (x @ y) (int (length x)) cd = Some (cd1, 1) \<and> valid264 cd1 \<and> sets264 cd1 = (sets264 cd)(kind264 x \<mapsto> take 64 x)"
    if "valid264 cd" "x \<noteq> []" "kind264 x \<in> set [7, 8]" for x y cd
    using that sps_unit_kind[OF that(2,1), of y]
    by (auto simp: sets264_def fun_eq_iff valid264_def take_overlay_64)
  show "sps_unit (x @ y) (int (length x)) cd = Some (cd, 0)" if "x \<noteq> []" "kind264 x \<notin> set [7, 8]" for x y cd
    using that by (cases x) (auto simp: sps_unit_def byte_at_def kind264_def unat_eq_num Let_def)
qed

text \<open>C25: Parsing a stream of units collects exactly the parameter sets the reference collects, cut to 64 bytes, and reports success
when at least two were stored; the memory of the sets stays whole.\<close>

theorem rtsp_h264_collects_sets:
  assumes "valid264 cd" "list_all (\<lambda>(long, x). unit_ok x) us"
  shows "\<exists>cd1 n. rtsp_codec_data_parse_from_user_h264 (stream us) (int (length (stream us))) cd = Some (cd1, if n \<ge> 2 then 1 else 0) \<and>
    valid264 cd1 \<and> (sets264 cd1, n) = collect [7, 8] kind264 (sets264 cd) 0 (map snd us)"
proof -
  obtain cd1 n where "nal_loop (\<lambda>cd. sps264_len cd > 0 \<and> pps264_len cd > 0) sps_unit (stream us) (int (length (stream us))) cd 0 = Some (cd1, n)"
    "valid264 cd1" "(sets264 cd1, n) = collect [7, 8] kind264 (sets264 cd) 0 (map snd us)"
    using h264.nal_loop_collects[OF assms, of 0] by (elim exE conjE)
  then show ?thesis unfolding rtsp_codec_data_parse_from_user_h264_def by (intro exI[of _ cd1] exI[of _ n]) simp
qed

definition no_h264 :: codec_data_h264 where
  "no_h264 = \<lparr>sps264 = replicate 64 0, pps264 = replicate 64 0, sps264_len = 0, pps264_len = 0\<rparr>"

lemma rtsp_h264_collects_sets_witness:
  "\<exists>cd1 n. rtsp_codec_data_parse_from_user_h264 (stream [(True, [103, 66]), (False, [104, 206]), (True, [101, 1])])
      (int (length (stream [(True, [103, 66]), (False, [104, 206]), (True, [101, 1])]))) no_h264 = Some (cd1, if n \<ge> 2 then 1 else 0) \<and>
    valid264 cd1 \<and> (sets264 cd1, n) = collect [7, 8] kind264 (sets264 no_h264) 0 (map snd [(True, [103, 66]), (False, [104, 206]), (True, [101, 1])])"
  by (rule rtsp_h264_collects_sets) (simp_all add: valid264_def no_h264_def unit_ok_def)

text \<open>C27: Two sequence parameter sets and no picture parameter set count as success: the sets are counted, not their kinds.\<close>

theorem rtsp_h264_two_sps_accepted:
  assumes "valid264 cd" "sps264_len cd = 0" "pps264_len cd = 0"
    and "unit_ok x" "unit_ok y" "kind264 x = 7" "kind264 y = 7"
  shows "\<exists>cd1. rtsp_codec_data_parse_from_user_h264 (stream [(a, x), (b, y)]) (int (length (stream [(a, x), (b, y)]))) cd = Some (cd1, 1) \<and>
    pps264_len cd1 = 0"
proof -
  obtain cd1 n where c: "nal_loop (\<lambda>cd. sps264_len cd > 0 \<and> pps264_len cd > 0) sps_unit (stream [(a, x), (b, y)]) (int (length (stream [(a, x), (b, y)]))) cd 0 = Some (cd1, n)"
    "valid264 cd1" "(sets264 cd1, n) = collect [7, 8] kind264 (sets264 cd) 0 (map snd [(a, x), (b, y)])"
    using h264.nal_loop_collects[OF assms(1), of "[(a, x), (b, y)]" 0] assms(4,5) by (auto simp del: stream_simps)
  from c(3) have "n = 2" "sets264 cd1 8 = None" using assms(2,3,6,7) by (simp_all add: sets264_def)
  moreover from this(2) c(2) have "pps264_len cd1 = 0" by (simp add: sets264_def split: if_splits)
  ultimately show ?thesis using c(1) unfolding rtsp_codec_data_parse_from_user_h264_def by (intro exI[of _ cd1]) simp
qed

lemma rtsp_h264_two_sps_accepted_witness:
  "\<exists>cd1. rtsp_codec_data_parse_from_user_h264 (stream [(True, [103, 66]), (True, [103, 77])]) (int (length (stream [(True, [103, 66]), (True, [103, 77])]))) no_h264 =
    Some (cd1, 1) \<and> pps264_len cd1 = 0"
  by (rule rtsp_h264_two_sps_accepted) (simp_all add: valid264_def no_h264_def unit_ok_def kind264_def)

text \<open>H.265: the kind is in bits one to six.\<close>

definition kind265 :: "u8 list \<Rightarrow> nat" where
  "kind265 x = unat (drop_bit 1 (hd x) AND 63)"

definition sets265 :: "codec_data_h265 \<Rightarrow> nat \<rightharpoonup> u8 list" where
  "sets265 cd k =
     (if k = 32 \<and> vps265_len cd > 0 then Some (take (vps265_len cd) (vps265 cd))
      else if k = 33 \<and> sps265_len cd > 0 then Some (take (sps265_len cd) (sps265 cd))
      else if k = 34 \<and> pps265_len cd > 0 then Some (take (pps265_len cd) (pps265 cd)) else None)"

definition valid265 :: "codec_data_h265 \<Rightarrow> bool" where
  "valid265 cd \<longleftrightarrow> length (vps265 cd) = 64 \<and> length (sps265 cd) = 64 \<and> length (pps265 cd) = 64"

lemma vps_unit_kind:
  assumes "x \<noteq> []" "valid265 cd"
  shows "vps_unit (x @ y) (int (length x)) cd =
    (if kind265 x = 32 then Some (cd\<lparr>vps265 := overlay (vps265 cd) 0 (take 64 x), vps265_len := min (length x) 64\<rparr>, 1)
     else if kind265 x = 33 then Some (cd\<lparr>sps265 := overlay (sps265 cd) 0 (take 64 x), sps265_len := min (length x) 64\<rparr>, 1)
     else if kind265 x = 34 then Some (cd\<lparr>pps265 := overlay (pps265 cd) 0 (take 64 x), pps265_len := min (length x) 64\<rparr>, 1)
     else Some (cd, 0))"
  using assms by (auto simp: vps_unit_def byte_at_hd kind265_def valid265_def store_set_unit unat_eq_num Let_def)

interpretation h265: parameter_sets "\<lambda>cd. vps265_len cd > 0 \<and> sps265_len cd > 0 \<and> pps265_len cd > 0" vps_unit "[32, 33, 34]" kind265 sets265 valid265
proof
  show "(vps265_len cd > 0 \<and> sps265_len cd > 0 \<and> pps265_len cd > 0) = list_all (\<lambda>k. sets265 cd k \<noteq> None) [32, 33, 34]" for cd
    by (auto simp: sets265_def)
  show "\<exists>cd1. vps_unit (x @ y) (int (length x)) cd = Some (cd1, 1) \<and> valid265 cd1 \<and> sets265 cd1 = (sets265 cd)(kind265 x \<mapsto> take 64 x)"
    if "valid265 cd" "x \<noteq> []" "kind265 x \<in> set [32, 33, 34]" for x y cd
    using that vps_unit_kind[OF that(2,1), of y]
    by (auto simp: sets265_def fun_eq_iff valid265_def take_overlay_64)
  show "vps_unit (x @ y) (int (length x)) cd = Some (cd, 0)" if "x \<noteq> []" "kind265 x \<notin> set [32, 33, 34]" for x y cd
    using that by (auto simp: vps_unit_def byte_at_hd kind265_def unat_eq_num Let_def)
qed

theorem rtsp_h265_collects_sets:
  assumes "valid265 cd" "list_all (\<lambda>(long, x). unit_ok x) us"
  shows "\<exists>cd1 n. rtsp_codec_data_parse_from_user_h265 (stream us) (int (length (stream us))) cd = Some (cd1, if n \<ge> 3 then 1 else 0) \<and>
    valid265 cd1 \<and> (sets265 cd1, n) = collect [32, 33, 34] kind265 (sets265 cd) 0 (map snd us)"
proof -
  obtain cd1 n where "nal_loop (\<lambda>cd. vps265_len cd > 0 \<and> sps265_len cd > 0 \<and> pps265_len cd > 0) vps_unit (stream us) (int (length (stream us))) cd 0 = Some (cd1, n)"
    "valid265 cd1" "(sets265 cd1, n) = collect [32, 33, 34] kind265 (sets265 cd) 0 (map snd us)"
    using h265.nal_loop_collects[OF assms, of 0] by (elim exE conjE)
  then show ?thesis unfolding rtsp_codec_data_parse_from_user_h265_def by (intro exI[of _ cd1] exI[of _ n]) simp
qed

subsection \<open>AAC\<close>

lemma adts_found: "2 < n \<Longrightarrow> adts_loop True n = n"
  by (cases n) auto

lemma two_bits: "drop_bit 6 (w :: u8) \<in> {0, 1, 2, 3}"
proof -
  have "unat w < 2 ^ LENGTH(8)" by (rule unsigned_less)
  then have "drop_bit 6 (unat w) < 4" by (simp add: drop_bit_eq_div less_mult_imp_div_less)
  then have "unat (drop_bit 6 w) < 4" by (simp only: unat_drop_bit_eq)
  then have "unat (drop_bit 6 w) \<in> {0, 1, 2, 3}" by auto
  then show ?thesis by (auto simp: word_unat_eq_iff)
qed

text \<open>An ADTS frame whose channel configuration is four or more (bit 0 of the third byte is its highest bit) is taken
for one with two or three channels.\<close>

theorem rtsp_aac_channels_mixed_up:
  assumes "6 \<le> length frame" "frame ! 0 = 255" "frame ! 1 AND 240 = 240" "frame ! 2 AND 1 = 1" "audio_specific_config_len cd = 0"
    and "2 < len" "int (unat (frame ! 3 AND 3) * 2048 + unat (frame ! 4) * 8 + unat (drop_bit 5 (frame ! 5))) \<le> len"
  shows "\<exists>cd1. rtsp_codec_data_parse_from_frame_aac frame len cd = Some (cd1, 1) \<and> channels cd1 \<in> {2, 3}"
proof -
  have f: "rtsp_find_aac_adts frame len = Some (Some (int (unat (frame ! 3 AND 3) * 2048 + unat (frame ! 4) * 8 + unat (drop_bit 5 (frame ! 5)))))"
  proof -
    have "frame \<noteq> []" "\<not> nat len \<le> 2" using assms(1,6) by auto
    then show ?thesis using assms(1-3,6,7) by (simp add: rtsp_find_aac_adts_def byte_at_def Let_def adts_found)
  qed
  have c: "push_bit 1 (frame ! 2 AND 1) OR drop_bit 6 (frame ! 3) \<in> {2, 3}"
    using two_bits[of "frame ! 3"] unfolding assms(4) by auto
  then have "\<not> push_bit 1 (frame ! 2 AND 1) OR drop_bit 6 (frame ! 3) > 7" "unat (push_bit 1 (frame ! 2 AND 1) OR drop_bit 6 (frame ! 3)) \<in> {2, 3}"
    "push_bit 1 (frame ! 2 AND 1) OR drop_bit 6 (frame ! 3) \<noteq> 7"
    by (elim insertE emptyE; simp)+
  then show ?thesis
    using f assms(1,5) by (simp add: rtsp_codec_data_parse_from_frame_aac_def byte_at_def Let_def del: insert_iff)
qed

lemma rtsp_aac_channels_mixed_up_witness:
  "\<exists>cd1. rtsp_codec_data_parse_from_frame_aac [255, 241, 81, 128, 1, 0, 252] 8
      \<lparr>audio_specific_config = replicate 64 0, audio_specific_config_len = 0, sample_rate = 0, channels = 0\<rparr> = Some (cd1, 1) \<and> channels cd1 \<in> {2, 3}"
  by (rule rtsp_aac_channels_mixed_up) simp_all

end
