(* ===== verification/Io_Queue.thy ===== *)
theory Io_Queue
  imports Time_Stamp
begin

section \<open>The I/O queue (\<^verbatim>\<open>ioqueue_common_abs.c\<close>, \<^verbatim>\<open>ioqueue_epoll.c\<close>, \<^verbatim>\<open>ioqueue.h\<close>)\<close>

text \<open>
  Sockets are registered with a queue and get a key; operations that would block are put into the lists of the key and are
  finished by \<open>pj_ioqueue_poll\<close>, which calls the handlers of the user.

  The model has one thread: taking a free lock succeeds, \<open>pj_ioqueue_trylock_key\<close> may fail. What the queue asks of the kernel, of the locks and of
  the clock is a list of calls, newest first; the record \<open>os\<close> gives the answer to the newest call. Also its fields are the constants and the operations on times
  whose \<^verbatim>\<open>pj_\<close> names the repository does not define. Keys and operation keys are addresses in two stores; a list of
  \<^verbatim>\<open>dl_list.h\<close> is the list of its nodes. A handler is an address, \<open>run\<close> is what it does with the queue. A failed assertion, a null handler that is called and a
  list that is damaged are \<open>None\<close>. The contents of the buffers and printed texts are left out.
\<close>

subsection \<open>State\<close>

datatype syscall =
    Lock_create | Trylock addr | Epoll_create nat | Epoll_add int addr | Epoll_mod int addr bool | Epoll_del int addr
  | Epoll_wait int int | Close int | Ioctl_nonblock int | Getsockopt_type int | Getsockopt_error int
  | Send int addr int nat | Sendto int addr int nat "u8 list" | Recv int addr int nat | Recvfrom int addr int nat addr addr | Read int addr int
  | Accept int addr addr | Getsockname int addr addr | Connect int "u8 list" | Gettickcount | Gettimeofday

record pj_cb =
  on_read_complete :: addr
  on_write_complete :: addr
  on_accept_complete :: addr
  on_connect_complete :: addr

datatype event =
    Read_complete addr addr int
  | Write_complete addr addr int
  | Accept_complete addr addr int int
  | Connect_complete addr int

record pj_op =
  op_code :: nat
  op_buf :: addr
  op_size :: int
  op_written :: int
  op_flags :: nat
  op_rmt :: addr
  op_rmtlen :: addr
  op_to :: "u8 list"
  op_tolen :: int
  op_fd :: addr
  op_local :: addr

record pj_key =
  allow_concurrent :: bool
  k_fd :: int
  fd_type :: int
  user_data :: addr
  k_cb :: pj_cb
  connecting :: bool
  connect_time :: T_Timevalue
  read_list :: "addr list"
  write_list :: "addr list"
  accept_list :: "addr list"
  ref_count :: nat
  closing :: bool
  free_time :: T_Timevalue

record ioqueue =
  q_max :: nat
  q_count :: nat
  active_list :: "addr list"
  closing_list :: "addr list"
  free_list :: "addr list"
  epfd :: int
  default_concurrency :: bool
  keys :: "addr \<Rightarrow> pj_key"
  ops :: "addr \<Rightarrow> pj_op"
  ints :: "addr \<Rightarrow> int"
  calls :: "syscall list"

text \<open>One event of \<open>epoll_wait\<close>: the key, and whether it is readable, writable, or has an error.\<close>

record epoll_event =
  e_key :: addr
  e_in :: bool
  e_out :: bool
  e_err :: bool

record os =
  os_ret :: "syscall list \<Rightarrow> int"
  os_errno :: "syscall list \<Rightarrow> int"
  os_value :: "syscall list \<Rightarrow> int"
  os_events :: "syscall list \<Rightarrow> epoll_event list"
  os_time :: "syscall list \<Rightarrow> T_Timevalue"
  tv_normalize :: "T_Timevalue \<Rightarrow> T_Timevalue"
  tv_gte :: "T_Timevalue \<Rightarrow> T_Timevalue \<Rightarrow> bool"
  PJ_EINVAL :: int
  PJ_EINVALIDOP :: int
  PJ_EBUG :: int
  HAS_SAFE_UNREG :: bool
  EAGAIN :: int
  EINPROGRESS :: int

type_synonym handlers = "addr \<Rightarrow> event \<Rightarrow> ioqueue \<Rightarrow> ioqueue option"

definition SOCK_STREAM :: int where "SOCK_STREAM = 1"
definition SOCK_DGRAM :: int where "SOCK_DGRAM = 2"
definition PJ_INVALID_SOCKET :: int where "PJ_INVALID_SOCKET = - 1"
definition PJ_IOQUEUE_KEY_CONNECT_TIMEOUT :: int where "PJ_IOQUEUE_KEY_CONNECT_TIMEOUT = 5"
definition PJ_IOQUEUE_KEY_FREE_DELAY :: int where "PJ_IOQUEUE_KEY_FREE_DELAY = 500"
definition MAX_EVENTS :: nat where "MAX_EVENTS = 16"
definition OP_NONE :: nat where "OP_NONE = 0"
definition OP_READ :: nat where "OP_READ = 1"
definition OP_RECV :: nat where "OP_RECV = 2"
definition OP_RECV_FROM :: nat where "OP_RECV_FROM = 4"
definition OP_SEND :: nat where "OP_SEND = 16"
definition OP_SEND_TO :: nat where "OP_SEND_TO = 32"
definition OP_ACCEPT :: nat where "OP_ACCEPT = 64"

lemmas op_codes = OP_NONE_def OP_READ_def OP_RECV_def OP_RECV_FROM_def OP_SEND_def OP_SEND_TO_def OP_ACCEPT_def

definition sys :: "os \<Rightarrow> syscall \<Rightarrow> ioqueue \<Rightarrow> int \<times> ioqueue" where
  "sys os c q = (let h = c # calls q in (os_ret os h, q\<lparr>calls := h\<rparr>))"

definition upd_key :: "ioqueue \<Rightarrow> addr \<Rightarrow> (pj_key \<Rightarrow> pj_key) \<Rightarrow> ioqueue" where
  "upd_key q k f = q\<lparr>keys := (keys q)(k := f (keys q k))\<rparr>"

definition upd_op :: "ioqueue \<Rightarrow> addr \<Rightarrow> (pj_op \<Rightarrow> pj_op) \<Rightarrow> ioqueue" where
  "upd_op q x f = q\<lparr>ops := (ops q)(x := f (ops q x))\<rparr>"

text \<open>Setting the address of a pending \<open>sendto\<close>: the bytes are copied to the place of a pointer, then the length is
written right behind that pointer, into bytes 4 to 7.\<close>

definition store_to :: "u8 list \<Rightarrow> u8 list \<Rightarrow> u8 list" where
  "store_to old a = overlay (overlay old 0 a) 4 (enc32 (length a))"

text \<open>Taking a key out of the list it is in.\<close>

definition unlink :: "ioqueue \<Rightarrow> addr \<Rightarrow> ioqueue option" where
  "unlink q k =
     (if k \<in> set (active_list q) \<union> set (closing_list q) \<union> set (free_list q)
      then Some (q\<lparr>active_list := remove1 k (active_list q), closing_list := remove1 k (closing_list q), free_list := remove1 k (free_list q)\<rparr>)
      else None)"

subsection \<open>The set of sockets\<close>

datatype event_type = READABLE_EVENT | WRITEABLE_EVENT | EXCEPTION_EVENT

definition ioqueue_remove_from_set :: "os \<Rightarrow> addr \<Rightarrow> event_type \<Rightarrow> ioqueue \<Rightarrow> ioqueue" where
  "ioqueue_remove_from_set os key t q = (if t = WRITEABLE_EVENT then snd (sys os (Epoll_mod (k_fd (keys q key)) key False) q) else q)"

definition ioqueue_add_to_set :: "os \<Rightarrow> addr \<Rightarrow> event_type \<Rightarrow> ioqueue \<Rightarrow> ioqueue" where
  "ioqueue_add_to_set os key t q = (if t = WRITEABLE_EVENT then snd (sys os (Epoll_mod (k_fd (keys q key)) key True) q) else q)"

subsection \<open>Keys\<close>

definition pj_ioqueue_set_concurrency :: "os \<Rightarrow> addr \<Rightarrow> bool \<Rightarrow> ioqueue \<Rightarrow> ioqueue \<times> int" where
  "pj_ioqueue_set_concurrency os key allow q =
     (if key = 0 then (q, PJ_EINVAL os)
      else if \<not> (allow \<or> HAS_SAFE_UNREG os) then (q, PJ_EINVAL os)
      else (upd_key q key (\<lambda>k. k\<lparr>allow_concurrent := allow\<rparr>), 0))"

definition pj_ioqueue_set_default_concurrency :: "os \<Rightarrow> bool \<Rightarrow> ioqueue \<Rightarrow> ioqueue \<times> int" where
  "pj_ioqueue_set_default_concurrency os allow q = (q\<lparr>default_concurrency := allow\<rparr>, 0)"

definition pj_ioqueue_get_user_data :: "ioqueue \<Rightarrow> addr \<Rightarrow> addr" where
  "pj_ioqueue_get_user_data q key = (if key = 0 then 0 else user_data (keys q key))"

text \<open>The result is the return value and what is written through \<open>old_data\<close>.\<close>

definition pj_ioqueue_set_user_data :: "os \<Rightarrow> addr \<Rightarrow> addr \<Rightarrow> ioqueue \<Rightarrow> ioqueue \<times> int \<times> addr" where
  "pj_ioqueue_set_user_data os key u q =
     (if key = 0 then (q, PJ_EINVAL os, 0) else (upd_key q key (\<lambda>k. k\<lparr>user_data := u\<rparr>), 0, user_data (keys q key)))"

definition ioqueue_init_key :: "os \<Rightarrow> addr \<Rightarrow> int \<Rightarrow> addr \<Rightarrow> pj_cb \<Rightarrow> ioqueue \<Rightarrow> (ioqueue \<times> int) option" where
  "ioqueue_init_key os key sock user cb q =
     (if ref_count (keys q key) \<noteq> 0 then None
      else
        let q1 = upd_key q key (\<lambda>k. k\<lparr>k_fd := sock, user_data := user, read_list := [], write_list := [], accept_list := [], connecting := False,
                   k_cb := cb, ref_count := ref_count k + 1, closing := False\<rparr>);
            (q2, rc) = pj_ioqueue_set_concurrency os key (default_concurrency q1) q1
        in if rc \<noteq> 0 then Some (q2, rc)
           else
             let (rc, q3) = sys os (Getsockopt_type sock) q2
             in Some (upd_key q3 key (\<lambda>k. k\<lparr>fd_type := (if rc \<noteq> 0 then SOCK_STREAM else os_value os (calls q3))\<rparr>), 0))"

text \<open>A pass over the keys that are closing, in the order of the list.\<close>

fun scan_keys :: "os \<Rightarrow> T_Timevalue \<Rightarrow> addr list \<Rightarrow> ioqueue \<Rightarrow> ioqueue option" where
  "scan_keys os now [] q = Some q"
| "scan_keys os now (h # hs) q =
     (if \<not> closing (keys q h) then None
      else if tv_gte os now (free_time (keys q h))
      then scan_keys os now hs (q\<lparr>closing_list := remove1 h (closing_list q), free_list := free_list q @ [h]\<rparr>)
      else scan_keys os now hs q)"

definition scan_closing_keys :: "os \<Rightarrow> ioqueue \<Rightarrow> ioqueue option" where
  "scan_closing_keys os q = (let (_, q1) = sys os Gettickcount q in scan_keys os (os_time os (calls q1)) (closing_list q1) q1)"

definition increment_counter :: "addr \<Rightarrow> ioqueue \<Rightarrow> ioqueue" where
  "increment_counter key q = upd_key q key (\<lambda>k. k\<lparr>ref_count := u32 (ref_count k + 1)\<rparr>)"

definition decrement_counter :: "os \<Rightarrow> addr \<Rightarrow> ioqueue \<Rightarrow> ioqueue option" where
  "decrement_counter os key q =
     (let q1 = upd_key q key (\<lambda>k. k\<lparr>ref_count := sub32 (ref_count k) 1\<rparr>)
      in if ref_count (keys q1 key) = 0
         then if \<not> closing (keys q1 key) then None
         else
           let (_, q2) = sys os Gettickcount q1;
               t = os_time os (calls q2);
               q3 = upd_key q2 key (\<lambda>k. k\<lparr>free_time := tv_normalize os (t\<lparr>msec := msec t + PJ_IOQUEUE_KEY_FREE_DELAY\<rparr>)\<rparr>)
           in do { q4 \<leftarrow> unlink q3 key; Some (q4\<lparr>closing_list := closing_list q4 @ [key]\<rparr>) }
         else Some q1)"

text \<open>The results are the queue, the key or null, and the return value.\<close>

definition pj_ioqueue_register_sock2 :: "os \<Rightarrow> int \<Rightarrow> addr \<Rightarrow> pj_cb \<Rightarrow> ioqueue \<Rightarrow> (ioqueue \<times> addr \<times> int) option" where
  "pj_ioqueue_register_sock2 os sock user cb q =
     (if sock = PJ_INVALID_SOCKET then Some (q, 0, PJ_EINVAL os)
      else if q_count q \<ge> q_max q then Some (q, 0, - 3)
      else
        let (rc, q1) = sys os (Ioctl_nonblock sock) q
        in if rc \<noteq> 0 then Some (q1, 0, - 1)
           else do {
             q2 \<leftarrow> scan_closing_keys os q1;
             case free_list q2 of
               [] \<Rightarrow> None
             | key # ks \<Rightarrow>
                 do {
                   (q3, rc) \<leftarrow> ioqueue_init_key os key sock user cb (q2\<lparr>free_list := ks\<rparr>);
                   if rc \<noteq> 0 then Some (q3, 0, rc)
                   else
                     let (status, q4) = sys os (Epoll_add sock key) q3
                     in if status < 0 then Some (q4, 0, - 1)
                        else Some (q4\<lparr>active_list := active_list q4 @ [key], q_count := u32 (q_count q4 + 1)\<rparr>, key, 0)
                 }
           })"

definition pj_ioqueue_register_sock :: "os \<Rightarrow> int \<Rightarrow> addr \<Rightarrow> pj_cb \<Rightarrow> ioqueue \<Rightarrow> (ioqueue \<times> addr \<times> int) option" where
  "pj_ioqueue_register_sock os sock user cb q = pj_ioqueue_register_sock2 os sock user cb q"

definition pj_ioqueue_unregister :: "os \<Rightarrow> addr \<Rightarrow> ioqueue \<Rightarrow> (ioqueue \<times> int) option" where
  "pj_ioqueue_unregister os key q =
     (if key = 0 then Some (q, PJ_EINVAL os)
      else if closing (keys q key) then Some (q, 0)
      else if \<not> q_count q > 0 then None
      else
        let q1 = q\<lparr>q_count := q_count q - 1\<rparr>;
            (status, q2) = sys os (Epoll_del (k_fd (keys q1 key)) key) q1
        in if status \<noteq> 0 then Some (q2, - 1)
           else
             let (_, q3) = sys os (Close (k_fd (keys q2 key))) q2;
                 q4 = upd_key q3 key (\<lambda>k. k\<lparr>closing := True\<rparr>)
             in do { q5 \<leftarrow> decrement_counter os key q4; Some (q5, 0) })"

subsection \<open>Operations\<close>

definition pending :: "pj_key \<Rightarrow> addr list" where
  "pending k = read_list k @ write_list k @ accept_list k"

text \<open>The operation is in a list of a registered socket: putting it into a list again damages both lists.\<close>

definition is_linked :: "ioqueue \<Rightarrow> addr \<Rightarrow> bool" where
  "is_linked q x = list_ex (\<lambda>k. x \<in> set (pending (keys q k))) (active_list q)"

definition ALWAYS_ASYNC :: "nat \<Rightarrow> bool" where
  "ALWAYS_ASYNC flags = (flags div 2 ^ 31 mod 2 = 1)"

definition sync_flags :: "nat \<Rightarrow> nat" where
  "sync_flags flags = flags mod 2 ^ 31"

text \<open>The results are the queue, the return value, and what \<open>length\<close> points to.\<close>

definition pj_ioqueue_recv :: "os \<Rightarrow> addr \<Rightarrow> addr \<Rightarrow> addr \<Rightarrow> int \<Rightarrow> nat \<Rightarrow> ioqueue \<Rightarrow> (ioqueue \<times> int \<times> int) option" where
  "pj_ioqueue_recv os key x buffer len flags q =
     (if key = 0 \<or> x = 0 \<or> buffer = 0 then Some (q, PJ_EINVAL os, len)
      else if closing (keys q key) then Some (q, - 4, len)
      else
        let q1 = upd_op q x (\<lambda>r. r\<lparr>op_code := OP_NONE\<rparr>);
            (status, q2) = (if \<not> ALWAYS_ASYNC flags then sys os (Recv (k_fd (keys q1 key)) buffer len flags) q1 else (0, q1))
        in if \<not> ALWAYS_ASYNC flags \<and> status = 0 then Some (q2, 0, len)
           else if \<not> ALWAYS_ASYNC flags \<and> os_errno os (calls q2) \<noteq> EAGAIN os then Some (q2, status, len)
           else
             let q3 = upd_op q2 x (\<lambda>r. r\<lparr>op_code := OP_RECV, op_buf := buffer, op_size := len, op_flags := sync_flags flags\<rparr>)
             in if closing (keys q3 key) then Some (q3, - 4, len)
                else if is_linked q3 x then None
                else Some (ioqueue_add_to_set os key READABLE_EVENT (upd_key q3 key (\<lambda>k. k\<lparr>read_list := read_list k @ [x]\<rparr>)), - 5, len))"

definition pj_ioqueue_recvfrom :: "os \<Rightarrow> addr \<Rightarrow> addr \<Rightarrow> addr \<Rightarrow> int \<Rightarrow> nat \<Rightarrow> addr \<Rightarrow> addr \<Rightarrow> ioqueue \<Rightarrow> (ioqueue \<times> int \<times> int) option" where
  "pj_ioqueue_recvfrom os key x buffer len flags rmt rmtlen q =
     (if key = 0 \<or> x = 0 \<or> buffer = 0 then Some (q, PJ_EINVAL os, len)
      else if closing (keys q key) then Some (q, - 4, len)
      else
        let q1 = upd_op q x (\<lambda>r. r\<lparr>op_code := OP_NONE\<rparr>);
            (status, q2) = (if \<not> ALWAYS_ASYNC flags then sys os (Recvfrom (k_fd (keys q1 key)) buffer len flags rmt rmtlen) q1 else (0, q1))
        in if \<not> ALWAYS_ASYNC flags \<and> status = 0 then Some (q2, 0, len)
           else if \<not> ALWAYS_ASYNC flags \<and> os_errno os (calls q2) \<noteq> EAGAIN os then Some (q2, status, len)
           else
             let q3 = upd_op q2 x (\<lambda>r. r\<lparr>op_code := OP_RECV_FROM, op_buf := buffer, op_size := len, op_flags := sync_flags flags, op_rmt := rmt, op_rmtlen := rmtlen\<rparr>)
             in if closing (keys q3 key) then Some (q3, - 4, len)
                else if is_linked q3 x then None
                else Some (ioqueue_add_to_set os key READABLE_EVENT (upd_key q3 key (\<lambda>k. k\<lparr>read_list := read_list k @ [x]\<rparr>)), - 5, len))"

definition pj_ioqueue_send :: "os \<Rightarrow> addr \<Rightarrow> addr \<Rightarrow> addr \<Rightarrow> int \<Rightarrow> nat \<Rightarrow> ioqueue \<Rightarrow> (ioqueue \<times> int \<times> int) option" where
  "pj_ioqueue_send os key x data len flags q =
     (if key = 0 \<or> x = 0 \<or> data = 0 then Some (q, PJ_EINVAL os, len)
      else if closing (keys q key) then Some (q, - 4, len)
      else
        let direct = (write_list (keys q key) = []);
            (status, q1) = (if direct then sys os (Send (k_fd (keys q key)) data len (sync_flags flags)) q else (- 1, q))
        in if direct \<and> status \<ge> 0 then Some (q1, 0, len)
           else if direct \<and> os_errno os (calls q1) \<noteq> EAGAIN os then Some (q1, status, len)
           else if op_code (ops q1 x) \<noteq> 0 then Some (q1, - 3, len)
           else
             let q2 = upd_op q1 x (\<lambda>r. r\<lparr>op_code := OP_SEND, op_buf := data, op_size := len, op_written := 0, op_flags := sync_flags flags\<rparr>)
             in if closing (keys q2 key) then Some (q2, - 4, len)
                else if is_linked q2 x then None
                else Some (ioqueue_add_to_set os key WRITEABLE_EVENT (upd_key q2 key (\<lambda>k. k\<lparr>write_list := write_list k @ [x]\<rparr>)), - 5, len))"

definition pj_ioqueue_sendto :: "os \<Rightarrow> addr \<Rightarrow> addr \<Rightarrow> addr \<Rightarrow> int \<Rightarrow> nat \<Rightarrow> u8 list \<Rightarrow> ioqueue \<Rightarrow> (ioqueue \<times> int \<times> int) option" where
  "pj_ioqueue_sendto os key x data len flags to q =
     (if key = 0 \<or> x = 0 \<or> data = 0 then Some (q, PJ_EINVAL os, len)
      else if closing (keys q key) then Some (q, - 4, len)
      else
        let direct = (write_list (keys q key) = []);
            (status, q1) = (if direct then sys os (Sendto (k_fd (keys q key)) data len (sync_flags flags) to) q else (- 1, q))
        in if direct \<and> status \<ge> 0 then Some (q1, 0, len)
           else if direct \<and> os_errno os (calls q1) \<noteq> EAGAIN os then Some (q1, status, len)
           else if length to > 16 then Some (q1, PJ_EBUG os, len)
           else if op_code (ops q1 x) \<noteq> 0 then Some (q1, - 3, len)
           else
             let q2 = upd_op q1 x (\<lambda>r. r\<lparr>op_code := OP_SEND_TO, op_buf := data, op_size := len, op_written := 0, op_flags := sync_flags flags,
                        op_to := store_to (op_to r) to, op_tolen := int (length to)\<rparr>)
             in if closing (keys q2 key) then Some (q2, - 4, len)
                else if is_linked q2 x then None
                else Some (ioqueue_add_to_set os key WRITEABLE_EVENT (upd_key q2 key (\<lambda>k. k\<lparr>write_list := write_list k @ [x]\<rparr>)), - 5, len))"

text \<open>\<open>new_sock\<close> is the address the socket is written to.\<close>

definition pj_ioqueue_accept :: "os \<Rightarrow> addr \<Rightarrow> addr \<Rightarrow> addr \<Rightarrow> addr \<Rightarrow> addr \<Rightarrow> addr \<Rightarrow> ioqueue \<Rightarrow> (ioqueue \<times> int) option" where
  "pj_ioqueue_accept os key x new_sock local remote addrlen q =
     (if key = 0 \<or> x = 0 \<or> new_sock = 0 then Some (q, PJ_EINVAL os)
      else if closing (keys q key) then Some (q, - 4)
      else
        let q1 = upd_op q x (\<lambda>r. r\<lparr>op_code := OP_NONE\<rparr>);
            direct = (accept_list (keys q1 key) = []);
            (status, q2) = (if direct then let (s, q') = sys os (Accept (k_fd (keys q1 key)) remote addrlen) q1 in (s, q'\<lparr>ints := (ints q')(new_sock := s)\<rparr>) else (- 1, q1))
        in if direct \<and> status \<ge> 0
           then if local \<noteq> 0 \<and> addrlen \<noteq> 0
             then let (s, q3) = sys os (Getsockname (ints q2 new_sock) local addrlen) q2
               in if s \<noteq> 0
                  then let (_, q4) = sys os (Close (ints q3 new_sock)) q3 in Some (q4\<lparr>ints := (ints q4)(new_sock := PJ_INVALID_SOCKET)\<rparr>, s)
                  else Some (q3, 0)
             else Some (q2, 0)
           else if direct \<and> os_errno os (calls q2) \<noteq> EAGAIN os then Some (q2, status)
           else
             let q3 = upd_op q2 x (\<lambda>r. r\<lparr>op_code := OP_ACCEPT, op_fd := new_sock, op_rmt := remote, op_rmtlen := addrlen, op_local := local\<rparr>)
             in if closing (keys q3 key) then Some (q3, - 4)
                else if is_linked q3 x then None
                else Some (ioqueue_add_to_set os key READABLE_EVENT (upd_key q3 key (\<lambda>k. k\<lparr>accept_list := accept_list k @ [x]\<rparr>)), - 5))"

definition pj_ioqueue_connect :: "os \<Rightarrow> addr \<Rightarrow> u8 list \<Rightarrow> ioqueue \<Rightarrow> (ioqueue \<times> int) option" where
  "pj_ioqueue_connect os key to q =
     (if key = 0 \<or> to = [] then Some (q, PJ_EINVAL os)
      else if closing (keys q key) then Some (q, - 4)
      else if connecting (keys q key) then Some (q, - 5)
      else
        let (status, q1) = sys os (Connect (k_fd (keys q key)) to) q
        in if status = 0 then Some (q1, 0)
           else if os_errno os (calls q1) = EINPROGRESS os
           then if closing (keys q1 key) then Some (q1, - 4)
             else
               let (_, q2) = sys os Gettimeofday q1;
                   t = os_time os (calls q2);
                   q3 = upd_key q2 key (\<lambda>k. k\<lparr>connecting := True, connect_time := tv_normalize os (t\<lparr>sec := sec t + PJ_IOQUEUE_KEY_CONNECT_TIMEOUT\<rparr>)\<rparr>)
               in Some (ioqueue_add_to_set os key EXCEPTION_EVENT (ioqueue_add_to_set os key WRITEABLE_EVENT q3), - 5)
           else Some (q1, status))"

definition pj_ioqueue_op_key_init :: "addr \<Rightarrow> ioqueue \<Rightarrow> ioqueue" where
  "pj_ioqueue_op_key_init x q = upd_op q x (\<lambda>r. \<lparr>op_code = 0, op_buf = 0, op_size = 0, op_written = 0, op_flags = 0, op_rmt = 0, op_rmtlen = 0,
     op_to = replicate 16 0, op_tolen = 0, op_fd = 0, op_local = 0\<rparr>)"

definition pj_ioqueue_is_pending :: "addr \<Rightarrow> ioqueue \<Rightarrow> bool" where
  "pj_ioqueue_is_pending x q = (op_code (ops q x) \<noteq> 0)"

definition call :: "handlers \<Rightarrow> addr \<Rightarrow> event \<Rightarrow> ioqueue \<Rightarrow> ioqueue option" where
  "call run h ev q = (if h = 0 then None else run h ev q)"

definition pj_ioqueue_post_completion :: "handlers \<Rightarrow> addr \<Rightarrow> addr \<Rightarrow> int \<Rightarrow> ioqueue \<Rightarrow> (ioqueue \<times> int) option" where
  "pj_ioqueue_post_completion run key x n q =
     (let k = keys q key; q0 = upd_op q x (\<lambda>r. r\<lparr>op_code := OP_NONE\<rparr>) in
      if x \<in> set (read_list k)
      then do { q1 \<leftarrow> call run (on_read_complete (k_cb k)) (Read_complete key x n) (upd_key q0 key (\<lambda>k. k\<lparr>read_list := remove1 x (read_list k)\<rparr>)); Some (q1, 0) }
      else if x \<in> set (write_list k)
      then do { q1 \<leftarrow> call run (on_write_complete (k_cb k)) (Write_complete key x n) (upd_key q0 key (\<lambda>k. k\<lparr>write_list := remove1 x (write_list k)\<rparr>)); Some (q1, 0) }
      else if x \<in> set (accept_list k)
      then do { q1 \<leftarrow> call run (on_accept_complete (k_cb k)) (Accept_complete key x PJ_INVALID_SOCKET n) (upd_key q0 key (\<lambda>k. k\<lparr>accept_list := remove1 x (accept_list k)\<rparr>)); Some (q1, 0) }
      else Some (q, - 1))"

subsection \<open>Events\<close>

text \<open>A handler is called when there is one and the key is not closing.\<close>

definition notify :: "handlers \<Rightarrow> addr \<Rightarrow> (pj_cb \<Rightarrow> addr) \<Rightarrow> event \<Rightarrow> ioqueue \<Rightarrow> ioqueue option" where
  "notify run key which ev q =
     (let h = which (k_cb (keys q key)) in if h \<noteq> 0 \<and> \<not> closing (keys q key) then run h ev q else Some q)"

text \<open>Taking the first operation out of the list for writing; without any left the socket is no longer watched for writing.\<close>

definition pop_write :: "os \<Rightarrow> addr \<Rightarrow> addr \<Rightarrow> ioqueue \<Rightarrow> ioqueue" where
  "pop_write os key x q =
     (let q1 = upd_key q key (\<lambda>k. k\<lparr>write_list := remove1 x (write_list k)\<rparr>)
      in if write_list (keys q1 key) = [] then ioqueue_remove_from_set os key WRITEABLE_EVENT q1 else q1)"

definition connect_done :: "os \<Rightarrow> addr \<Rightarrow> ioqueue \<Rightarrow> ioqueue" where
  "connect_done os key q =
     ioqueue_remove_from_set os key EXCEPTION_EVENT (ioqueue_remove_from_set os key WRITEABLE_EVENT (upd_key q key (\<lambda>k. k\<lparr>connecting := False\<rparr>)))"

text \<open>Sending what is left of the operation: the return value of the call, or nothing for a wrong operation, which fails an assertion.\<close>

definition send_pending :: "os \<Rightarrow> addr \<Rightarrow> addr \<Rightarrow> int \<Rightarrow> ioqueue \<Rightarrow> (int \<times> ioqueue) option" where
  "send_pending os key x sent q =
     (let w = ops q x; fd = k_fd (keys q key); from = nat (int (op_buf w) + op_written w) in
      if op_code w = OP_SEND then Some (sys os (Send fd from sent (op_flags w)) q)
      else if op_code w = OP_SEND_TO then Some (sys os (Sendto fd from sent (op_flags w) (take (nat (op_tolen w)) (op_to w))) q)
      else None)"

definition write_pending :: "os \<Rightarrow> handlers \<Rightarrow> addr \<Rightarrow> addr \<Rightarrow> ioqueue \<Rightarrow> (ioqueue \<times> bool) option" where
  "write_pending os run key x q =
     (let dgram = (fd_type (keys q key) = SOCK_DGRAM);
          q1 = (if dgram then pop_write os key x q else q);
          sent = op_size (ops q1 x) - op_written (ops q1 x)
      in do {
        (send_rc, q2) \<leftarrow> send_pending os key x sent q1;
        if \<not> send_rc \<ge> 0 then None
        else
          let q3 = upd_op q2 x (\<lambda>r. r\<lparr>op_written := op_written r + sent\<rparr>)
          in if send_rc \<noteq> 0 \<or> op_written (ops q3 x) = op_size (ops q3 x) \<or> dgram
             then
               let q4 = upd_op q3 x (\<lambda>r. r\<lparr>op_code := OP_NONE\<rparr>);
                   q5 = (if \<not> dgram then pop_write os key x q4 else q4)
               in do { q6 \<leftarrow> notify run key on_write_complete (Write_complete key x (op_written (ops q5 x))) q5; Some (q6, True) }
             else Some (q3, True)
      })"

definition ioqueue_dispatch_write_event :: "os \<Rightarrow> handlers \<Rightarrow> addr \<Rightarrow> ioqueue \<Rightarrow> (ioqueue \<times> bool) option" where
  "ioqueue_dispatch_write_event os run key q =
     (let (rc, q1) = sys os (Trylock key) q in
      if rc \<noteq> 0 then Some (q1, False)
      else if closing (keys q1 key) then Some (q1, True)
      else if connecting (keys q1 key)
      then
        let (status, q2) = sys os (Getsockopt_error (k_fd (keys q1 key))) (connect_done os key q1)
        in do { q3 \<leftarrow> notify run key on_connect_complete (Connect_complete key status) q2; Some (q3, True) }
      else case write_list (keys q1 key) of
        x # xs \<Rightarrow> write_pending os run key x q1
      | [] \<Rightarrow> Some (q1, False))"

definition accept_pending :: "os \<Rightarrow> handlers \<Rightarrow> addr \<Rightarrow> addr \<Rightarrow> ioqueue \<Rightarrow> (ioqueue \<times> bool) option" where
  "accept_pending os run key x q =
     (let q1 = upd_op (upd_key q key (\<lambda>k. k\<lparr>accept_list := remove1 x (accept_list k)\<rparr>)) x (\<lambda>r. r\<lparr>op_code := OP_NONE\<rparr>);
          q2 = (if accept_list (keys q1 key) = [] then ioqueue_remove_from_set os key READABLE_EVENT q1 else q1);
          w = ops q2 x;
          (rc, q3) = sys os (Accept (k_fd (keys q2 key)) (op_rmt w) (op_rmtlen w)) q2;
          (rc1, q4) =
            (if rc \<ge> 0
             then let q' = q3\<lparr>ints := (ints q3)(op_fd w := rc)\<rparr>
               in (0, if op_local w \<noteq> 0 then snd (sys os (Getsockname rc (op_local w) (op_rmtlen w)) q') else q')
             else (rc, q3))
      in do { q5 \<leftarrow> notify run key on_accept_complete (Accept_complete key x (ints q4 (op_fd w)) rc1) q4; Some (q5, True) })"

text \<open>Reading for the operation: the number of bytes that is reported, or nothing for a wrong operation.\<close>

definition read_bytes :: "os \<Rightarrow> addr \<Rightarrow> addr \<Rightarrow> ioqueue \<Rightarrow> (int \<times> ioqueue) option" where
  "read_bytes os key x q =
     (let r = ops q x; fd = k_fd (keys q key); q1 = upd_op q x (\<lambda>r. r\<lparr>op_code := OP_NONE\<rparr>) in
      if op_code r = OP_RECV_FROM
      then let (rc, q2) = sys os (Recvfrom fd (op_buf r) (op_size r) (op_flags r) (op_rmt r) (op_rmtlen r)) q1 in Some (if rc \<ge> 0 then rc else op_size r, q2)
      else if op_code r = OP_RECV
      then let (rc, q2) = sys os (Recv fd (op_buf r) (op_size r) (op_flags r)) q1 in Some (if rc \<ge> 0 then rc else op_size r, q2)
      else if op_code r = OP_READ
      then let (n, q2) = sys os (Read fd (op_buf r) (op_size r)) q1 in Some (if n \<ge> 0 then 0 else n, q2)
      else None)"

definition read_pending :: "os \<Rightarrow> handlers \<Rightarrow> addr \<Rightarrow> addr \<Rightarrow> ioqueue \<Rightarrow> (ioqueue \<times> bool) option" where
  "read_pending os run key x q =
     (let q1 = upd_key q key (\<lambda>k. k\<lparr>read_list := remove1 x (read_list k)\<rparr>);
          q2 = (if read_list (keys q1 key) = [] then ioqueue_remove_from_set os key READABLE_EVENT q1 else q1)
      in do {
        (n, q3) \<leftarrow> read_bytes os key x q2;
        q4 \<leftarrow> notify run key on_read_complete (Read_complete key x n) q3;
        Some (q4, True)
      })"

definition ioqueue_dispatch_read_event :: "os \<Rightarrow> handlers \<Rightarrow> addr \<Rightarrow> ioqueue \<Rightarrow> (ioqueue \<times> bool) option" where
  "ioqueue_dispatch_read_event os run key q =
     (let (rc, q1) = sys os (Trylock key) q in
      if rc \<noteq> 0 then Some (q1, False)
      else if closing (keys q1 key) then Some (q1, True)
      else case accept_list (keys q1 key) of
        x # xs \<Rightarrow> accept_pending os run key x q1
      | [] \<Rightarrow>
          (case read_list (keys q1 key) of
             x # xs \<Rightarrow> read_pending os run key x q1
           | [] \<Rightarrow> Some (q1, False)))"

definition ioqueue_dispatch_exception_event :: "os \<Rightarrow> handlers \<Rightarrow> addr \<Rightarrow> ioqueue \<Rightarrow> (ioqueue \<times> bool) option" where
  "ioqueue_dispatch_exception_event os run key q =
     (let (rc, q1) = sys os (Trylock key) q in
      if rc \<noteq> 0 then Some (q1, False)
      else if \<not> connecting (keys q1 key) then Some (q1, True)
      else if closing (keys q1 key) then Some (q1, True)
      else
        let q2 = connect_done os key q1 in
        if on_connect_complete (k_cb (keys q2 key)) \<noteq> 0 \<and> \<not> closing (keys q2 key)
        then
          let (gs_rc, q3) = sys os (Getsockopt_error (k_fd (keys q2 key))) q2;
              status = (if gs_rc = 0 then os_value os (calls q3) else - 1)
          in do { q4 \<leftarrow> run (on_connect_complete (k_cb (keys q3 key))) (Connect_complete key status) q3; Some (q4, True) }
        else Some (q2, True))"

text \<open>The pass over the registered sockets whose time to connect is over. A handler may change the list: \<open>next_in\<close> is the successor
of the key afterwards, nothing when the key is no longer in the list (the pass then runs into another list).\<close>

fun next_in :: "addr list \<Rightarrow> addr \<Rightarrow> addr option option" where
  "next_in [] k = None"
| "next_in (x # xs) k = (if x = k then Some (case xs of [] \<Rightarrow> None | y # ys \<Rightarrow> Some y) else next_in xs k)"

definition connect_expired :: "os \<Rightarrow> handlers \<Rightarrow> T_Timevalue \<Rightarrow> addr \<Rightarrow> ioqueue \<Rightarrow> ioqueue option" where
  "connect_expired os run t1 h q =
     (if connecting (keys q h) \<and> tv_gte os t1 (connect_time (keys q h))
      then
        let (rc, q1) = sys os (Trylock h) q in
        if rc \<noteq> 0 then Some q1
        else if \<not> connecting (keys q1 h) \<or> closing (keys q1 h) then Some q1
        else notify run h on_connect_complete (Connect_complete h (- 1)) (connect_done os h q1)
      else Some q)"

partial_function (option) timeout_loop :: "os \<Rightarrow> handlers \<Rightarrow> T_Timevalue \<Rightarrow> addr option \<Rightarrow> ioqueue \<Rightarrow> ioqueue option" where
  "timeout_loop os run t1 cur q =
     (case cur of
        None \<Rightarrow> Some q
      | Some h \<Rightarrow>
          do {
            q1 \<leftarrow> connect_expired os run t1 h q;
            n \<leftarrow> next_in (active_list q1) h;
            timeout_loop os run t1 n q1
          })"

definition ioqueue_connect_timeout :: "os \<Rightarrow> handlers \<Rightarrow> ioqueue \<Rightarrow> ioqueue option" where
  "ioqueue_connect_timeout os run q =
     (let (_, q1) = sys os Gettimeofday q
      in timeout_loop os run (os_time os (calls q1)) (case active_list q1 of [] \<Rightarrow> None | h # hs \<Rightarrow> Some h) q1)"

subsection \<open>Polling\<close>

text \<open>What an event leads to.\<close>

definition classify :: "ioqueue \<Rightarrow> epoll_event \<Rightarrow> event_type option" where
  "classify q e =
     (let k = keys q (e_key e); reads = (read_list k \<noteq> [] \<or> accept_list k \<noteq> []) in
      if e_err e \<and> \<not> closing k then (if connecting k then Some EXCEPTION_EVENT else if reads then Some READABLE_EVENT else None)
      else if e_in e \<and> reads \<and> \<not> closing k then Some READABLE_EVENT
      else if e_out e \<and> write_list k \<noteq> [] \<and> \<not> closing k then Some WRITEABLE_EVENT
      else if e_out e \<and> connecting k \<and> \<not> closing k then Some WRITEABLE_EVENT
      else None)"

fun collect_events :: "epoll_event list \<Rightarrow> ioqueue \<Rightarrow> ioqueue \<times> (addr \<times> event_type) list" where
  "collect_events [] q = (q, [])"
| "collect_events (e # es) q =
     (case classify q e of
        None \<Rightarrow> collect_events es q
      | Some t \<Rightarrow> let (q1, evs) = collect_events es (increment_counter (e_key e) q) in (q1, (e_key e, t) # evs))"

definition dispatch :: "os \<Rightarrow> handlers \<Rightarrow> addr \<Rightarrow> event_type \<Rightarrow> ioqueue \<Rightarrow> (ioqueue \<times> bool) option" where
  "dispatch os run key t q =
     (case t of
        READABLE_EVENT \<Rightarrow> ioqueue_dispatch_read_event os run key q
      | WRITEABLE_EVENT \<Rightarrow> ioqueue_dispatch_write_event os run key q
      | EXCEPTION_EVENT \<Rightarrow> ioqueue_dispatch_exception_event os run key q)"

fun process_events :: "os \<Rightarrow> handlers \<Rightarrow> (addr \<times> event_type) list \<Rightarrow> nat \<Rightarrow> ioqueue \<Rightarrow> (ioqueue \<times> nat) option" where
  "process_events os run [] n q = Some (q, n)"
| "process_events os run ((key, t) # evs) n q =
     do {
       (q1, done) \<leftarrow> (if n < MAX_EVENTS then dispatch os run key t q else Some (q, False));
       q2 \<leftarrow> decrement_counter os key q1;
       process_events os run evs (if done then n + 1 else n) q2
     }"

definition pj_ioqueue_poll :: "os \<Rightarrow> handlers \<Rightarrow> int \<Rightarrow> ioqueue \<Rightarrow> (ioqueue \<times> int) option" where
  "pj_ioqueue_poll os run ms q =
     (let (count, q1) = sys os (Epoll_wait (epfd q) ms) q in
      if count = 0
      then do {
        q2 \<leftarrow> (if closing_list q1 \<noteq> [] then scan_closing_keys os q1 else Some q1);
        q3 \<leftarrow> (if active_list q2 \<noteq> [] then ioqueue_connect_timeout os run q2 else Some q2);
        Some (q3, 0)
      }
      else if count < 0 then Some (q1, - 1)
      else
        let (q2, evs) = collect_events (take (nat count) (os_events os (calls q1))) q1
        in do { (q3, n) \<leftarrow> process_events os run evs 0 q2; Some (q3, int n) })"

subsection \<open>Making and destroying a queue\<close>

text \<open>\<open>ks\<close> are the addresses the pool gives for the keys.\<close>

fun create_keys :: "os \<Rightarrow> addr list \<Rightarrow> ioqueue \<Rightarrow> (ioqueue \<times> int) option" where
  "create_keys os [] q = Some (q, 0)"
| "create_keys os (key # ks) q =
     (if key = 0 then None
      else
        let (rc, q1) = sys os Lock_create (upd_key q key (\<lambda>k. k\<lparr>ref_count := 0\<rparr>))
        in if rc \<noteq> 0 then Some (q1, rc) else create_keys os ks (q1\<lparr>free_list := free_list q1 @ [key]\<rparr>))"

text \<open>The two other locks are made without looking at the queue; \<open>q\<close> is the memory before. The result is the queue and the return value; it is given
to the caller when that is 0.\<close>

definition pj_ioqueue_create :: "os \<Rightarrow> addr list \<Rightarrow> ioqueue \<Rightarrow> (ioqueue \<times> int) option" where
  "pj_ioqueue_create os ks q =
     (if ks = [] then Some (q, PJ_EINVAL os)
      else
        let q0 = q\<lparr>default_concurrency := True, q_max := length ks, q_count := 0, active_list := []\<rparr>;
            (rc, q1) = sys os Lock_create q0
        in if rc \<noteq> 0 then Some (q1, rc)
           else do {
             (q2, rc) \<leftarrow> create_keys os ks (q1\<lparr>free_list := [], closing_list := []\<rparr>);
             if rc \<noteq> 0 then Some (q2, rc)
             else
               let (rc, q3) = sys os Lock_create q2
               in if rc \<noteq> 0 then Some (q3, rc)
                  else
                    let (fd, q4) = sys os (Epoll_create (length ks)) q3
                    in Some (q4\<lparr>epfd := fd\<rparr>, if fd < 0 then - 1 else 0)
           })"

definition pj_ioqueue_destroy :: "os \<Rightarrow> ioqueue \<Rightarrow> ioqueue \<times> int" where
  "pj_ioqueue_destroy os q =
     (if \<not> epfd q > 0 then (q, PJ_EINVALIDOP os)
      else let (_, q1) = sys os (Close (epfd q)) q in (q1\<lparr>epfd := 0\<rparr>, 0))"

end
