(* ===== verification/Io_Facts.thy ===== *)
theory Io_Facts
  imports Io_Queue
begin

section \<open>What the I/O queue promises\<close>

text \<open>
  The life of a key: free, registered, closing, free again. \<open>ioq_inv held q\<close> says that the three lists of keys are apart and that a registered key has one
  reference for its owner, until it is closed, and one for every time it occurs in \<open>held\<close>, the events of the polls that are running. Whatever the kernel answers,
  every operation keeps the invariant, also when it is called by a handler.
\<close>

subsection \<open>The life of the keys\<close>

record life =
  l_active :: "addr list"
  l_closing :: "addr list"
  l_free :: "addr list"
  l_count :: nat
  l_max :: nat
  l_refs :: "addr \<Rightarrow> nat"
  l_closed :: "addr \<Rightarrow> bool"

definition life :: "ioqueue \<Rightarrow> life" where
  "life q = \<lparr>l_active = active_list q, l_closing = closing_list q, l_free = free_list q, l_count = q_count q, l_max = q_max q,
     l_refs = (\<lambda>k. ref_count (keys q k)), l_closed = (\<lambda>k. closing (keys q k))\<rparr>"

definition life_ok :: "addr list \<Rightarrow> life \<Rightarrow> bool" where
  "life_ok held l \<longleftrightarrow>
     distinct (l_active l @ l_closing l @ l_free l) \<and> 0 \<notin> set (l_active l @ l_closing l @ l_free l) \<and>
     length (l_active l @ l_closing l @ l_free l) \<le> l_max l \<and> l_max l < 2 ^ 32 \<and>
     l_count l \<le> length (filter (\<lambda>k. \<not> l_closed l k) (l_active l)) \<and>
     set held \<subseteq> set (l_active l) \<and>
     (\<forall>k \<in> set (l_active l). l_refs l k = count_list held k + (if l_closed l k then 0 else 1) \<and> (l_closed l k \<longrightarrow> k \<in> set held)) \<and>
     (\<forall>k \<in> set (l_closing l). l_refs l k = 0 \<and> l_closed l k) \<and>
     (\<forall>k \<in> set (l_free l). l_refs l k = 0)"

definition ioq_inv :: "addr list \<Rightarrow> ioqueue \<Rightarrow> bool" where
  "ioq_inv held q \<longleftrightarrow> life_ok held (life q) \<and> length held < 2 ^ 31"

lemma life_same [simp]:
  "life (q\<lparr>calls := c\<rparr>) = life q" "life (q\<lparr>ints := i\<rparr>) = life q" "life (q\<lparr>epfd := f\<rparr>) = life q" "life (q\<lparr>default_concurrency := d\<rparr>) = life q"
  "life (upd_op q x g) = life q"
  by (simp_all add: life_def upd_op_def)

lemma life_upd_key [simp]:
  "(\<And>k. ref_count (f k) = ref_count k) \<Longrightarrow> (\<And>k. closing (f k) = closing k) \<Longrightarrow> life (upd_key q key f) = life q"
  by (auto simp: life_def upd_key_def)

lemma life_sets [simp]: "life (ioqueue_remove_from_set os key t q) = life q" "life (ioqueue_add_to_set os key t q) = life q"
  by (simp_all add: ioqueue_remove_from_set_def ioqueue_add_to_set_def sys_def Let_def)

lemma life_pop_write [simp]: "life (pop_write os key x q) = life q"
  by (simp add: pop_write_def Let_def)

lemma life_connect_done [simp]: "life (connect_done os key q) = life q"
  by (simp add: connect_done_def)

lemma life_eq_inv: "life q' = life q \<Longrightarrow> ioq_inv held q' = ioq_inv held q"
  by (simp add: ioq_inv_def)

lemmas inv_same [simp] = life_same[THEN life_eq_inv] life_sets[THEN life_eq_inv] life_pop_write[THEN life_eq_inv] life_connect_done[THEN life_eq_inv]

lemma inv_upd_key [simp]:
  "(\<And>k. ref_count (f k) = ref_count k) \<Longrightarrow> (\<And>k. closing (f k) = closing k) \<Longrightarrow> ioq_inv held (upd_key q key f) = ioq_inv held q"
  by (rule life_eq_inv) simp

text \<open>The operations on a key do not touch its life.\<close>

lemma recv_life: "pj_ioqueue_recv os key x buffer len flags q = Some (q', r) \<Longrightarrow> life q' = life q"
  by (auto simp: pj_ioqueue_recv_def sys_def Let_def split: if_splits)

lemma recvfrom_life: "pj_ioqueue_recvfrom os key x buffer len flags rmt rmtlen q = Some (q', r) \<Longrightarrow> life q' = life q"
  by (auto simp: pj_ioqueue_recvfrom_def sys_def Let_def split: if_splits)

lemma send_life: "pj_ioqueue_send os key x data len flags q = Some (q', r) \<Longrightarrow> life q' = life q"
  by (auto simp: pj_ioqueue_send_def sys_def Let_def split: if_splits)

lemma sendto_life: "pj_ioqueue_sendto os key x data len flags to q = Some (q', r) \<Longrightarrow> life q' = life q"
  by (auto simp: pj_ioqueue_sendto_def sys_def Let_def split: if_splits)

lemma accept_life: "pj_ioqueue_accept os key x new_sock local remote addrlen q = Some (q', r) \<Longrightarrow> life q' = life q"
  by (auto simp: pj_ioqueue_accept_def sys_def Let_def split: if_splits)

lemma connect_life: "pj_ioqueue_connect os key to q = Some (q', r) \<Longrightarrow> life q' = life q"
  by (auto simp: pj_ioqueue_connect_def sys_def Let_def split: if_splits)

text \<open>What is asked of the handlers: they keep the invariant, whatever is held.\<close>

definition handlers_ok :: "handlers \<Rightarrow> bool" where
  "handlers_ok run \<longleftrightarrow> (\<forall>h ev q q' held. run h ev q = Some q' \<longrightarrow> ioq_inv held q \<longrightarrow> ioq_inv held q')"

lemma handlersD: "handlers_ok run \<Longrightarrow> run h ev q = Some q' \<Longrightarrow> ioq_inv held q \<Longrightarrow> ioq_inv held q'"
  unfolding handlers_ok_def by blast

lemma notify_inv: "handlers_ok run \<Longrightarrow> notify run key which ev q = Some q' \<Longrightarrow> ioq_inv held q \<Longrightarrow> ioq_inv held q'"
  by (auto simp: notify_def Let_def split: if_splits dest: handlersD)

lemma send_pending_life: "send_pending os key x sent q = Some (r, q') \<Longrightarrow> life q' = life q"
  by (auto simp: send_pending_def sys_def Let_def split: if_splits)

lemma read_bytes_life: "read_bytes os key x q = Some (n, q') \<Longrightarrow> life q' = life q"
  by (auto simp: read_bytes_def sys_def Let_def split: if_splits)

lemma write_pending_inv:
  assumes "handlers_ok run" "write_pending os run key x q = Some (q', b)" "ioq_inv held q"
  shows "ioq_inv held q'"
proof -
  define q1 where "q1 = (if fd_type (keys q key) = SOCK_DGRAM then pop_write os key x q else q)"
  have q1: "ioq_inv held q1" using assms(3) by (simp add: q1_def)
  from assms(2) obtain r q2 where q2: "send_pending os key x (op_size (ops q1 x) - op_written (ops q1 x)) q1 = Some (r, q2)"
    by (auto simp: write_pending_def Let_def q1_def bind_eq_Some_conv)
  have i2: "ioq_inv held q2" using q1 send_pending_life[OF q2, THEN life_eq_inv] by simp
  show ?thesis
    using assms(2) q2 unfolding write_pending_def Let_def q1_def[symmetric]
    by (cases "fd_type (keys q key) = SOCK_DGRAM")
      (auto simp: bind_eq_Some_conv i2 split: if_splits elim!: notify_inv[OF assms(1)])
qed

lemma accept_pending_inv:
  "handlers_ok run \<Longrightarrow> accept_pending os run key x q = Some (q', b) \<Longrightarrow> ioq_inv held q \<Longrightarrow> ioq_inv held q'"
  by (auto simp: accept_pending_def sys_def Let_def bind_eq_Some_conv split: if_splits elim!: notify_inv)

lemma read_pending_inv:
  assumes "handlers_ok run" "read_pending os run key x q = Some (q', b)" "ioq_inv held q"
  shows "ioq_inv held q'"
proof -
  define q1 where "q1 = upd_key q key (\<lambda>k. k\<lparr>read_list := remove1 x (read_list k)\<rparr>)"
  define q2 where "q2 = (if read_list (keys q1 key) = [] then ioqueue_remove_from_set os key READABLE_EVENT q1 else q1)"
  have i2: "ioq_inv held q2" using assms(3) by (simp add: q2_def q1_def)
  from assms(2) obtain n q3 where q: "read_bytes os key x q2 = Some (n, q3)" "notify run key on_read_complete (Read_complete key x n) q3 = Some q'"
    unfolding read_pending_def Let_def q1_def[symmetric] q2_def[symmetric] by (auto simp: bind_eq_Some_conv)
  have "ioq_inv held q3" using read_bytes_life[OF q(1), THEN life_eq_inv] i2 by simp
  with q(2) assms(1) show ?thesis by (elim notify_inv)
qed

lemma dispatch_inv:
  assumes "handlers_ok run" "dispatch os run key t q = Some (q', b)" "ioq_inv held q"
  shows "ioq_inv held q'"
proof (cases t)
  case READABLE_EVENT
  with assms show ?thesis
    by (auto simp: dispatch_def ioqueue_dispatch_read_event_def sys_def Let_def split: if_splits list.splits
        dest: accept_pending_inv[OF assms(1), where held = held] read_pending_inv[OF assms(1), where held = held])
next
  case WRITEABLE_EVENT
  with assms show ?thesis
    by (auto simp: dispatch_def ioqueue_dispatch_write_event_def sys_def Let_def bind_eq_Some_conv split: if_splits list.splits
        dest: write_pending_inv[OF assms(1), where held = held] notify_inv[OF assms(1), where held = held])
next
  case EXCEPTION_EVENT
  with assms show ?thesis
    by (auto simp: dispatch_def ioqueue_dispatch_exception_event_def sys_def Let_def bind_eq_Some_conv split: if_splits dest: handlersD[OF assms(1), where held = held])
qed

lemma post_completion_inv:
  "handlers_ok run \<Longrightarrow> pj_ioqueue_post_completion run key x n q = Some (q', r) \<Longrightarrow> ioq_inv held q \<Longrightarrow> ioq_inv held q'"
  by (auto simp: pj_ioqueue_post_completion_def call_def Let_def bind_eq_Some_conv split: if_splits dest: handlersD)

lemma connect_expired_inv:
  assumes "handlers_ok run" "connect_expired os run t1 h q = Some q'" "ioq_inv held q"
  shows "ioq_inv held q'"
  using assms(2,3)
  by (auto simp: connect_expired_def sys_def Let_def split: if_splits dest: notify_inv[OF assms(1), where held = held])

lemma timeout_loop_inv:
  assumes "handlers_ok run" "timeout_loop os run t1 cur q = Some q'" "ioq_inv held q"
  shows "ioq_inv held q'"
proof -
  have "handlers_ok run \<longrightarrow> ioq_inv held q \<longrightarrow> ioq_inv held q'"
    using assms(2)
  proof (induction os run t1 cur q q' rule: timeout_loop.raw_induct[rotated, consumes 1])
    case (1 rec os run t1 cur q q')
    then show ?case
      by (auto simp: bind_eq_Some_conv split: option.splits dest!: connect_expired_inv[of run os t1 _ q _ held, rotated])
  qed
  with assms show ?thesis by blast
qed

lemma life_okD:
  assumes "life_ok held (life q)"
  shows "distinct (active_list q @ closing_list q @ free_list q)" "0 \<notin> set (active_list q @ closing_list q @ free_list q)"
    "length (active_list q) + length (closing_list q) + length (free_list q) \<le> q_max q" "q_max q < 2 ^ 32"
    "q_count q \<le> length (filter (\<lambda>k. \<not> closing (keys q k)) (active_list q))" "set held \<subseteq> set (active_list q)"
    "\<And>k. k \<in> set (active_list q) \<Longrightarrow> ref_count (keys q k) = count_list held k + (if closing (keys q k) then 0 else 1) \<and> (closing (keys q k) \<longrightarrow> k \<in> set held)"
    "\<And>k. k \<in> set (closing_list q) \<Longrightarrow> ref_count (keys q k) = 0 \<and> closing (keys q k)" "\<And>k. k \<in> set (free_list q) \<Longrightarrow> ref_count (keys q k) = 0"
  using assms by (auto simp: life_ok_def life_def)

lemma life_okI:
  assumes "distinct (active_list q @ closing_list q @ free_list q)" "0 \<notin> set (active_list q @ closing_list q @ free_list q)"
    "length (active_list q) + length (closing_list q) + length (free_list q) \<le> q_max q" "q_max q < 2 ^ 32"
    "q_count q \<le> length (filter (\<lambda>k. \<not> closing (keys q k)) (active_list q))" "set held \<subseteq> set (active_list q)"
    "\<And>k. k \<in> set (active_list q) \<Longrightarrow> ref_count (keys q k) = count_list held k + (if closing (keys q k) then 0 else 1) \<and> (closing (keys q k) \<longrightarrow> k \<in> set held)"
    "\<And>k. k \<in> set (closing_list q) \<Longrightarrow> ref_count (keys q k) = 0 \<and> closing (keys q k)" "\<And>k. k \<in> set (free_list q) \<Longrightarrow> ref_count (keys q k) = 0"
  shows "life_ok held (life q)"
  using assms by (auto simp: life_ok_def life_def)

lemma ioq_invD:
  assumes "ioq_inv held q"
  shows "distinct (active_list q @ closing_list q @ free_list q)" "0 \<notin> set (active_list q @ closing_list q @ free_list q)"
    "length (active_list q) + length (closing_list q) + length (free_list q) \<le> q_max q" "q_max q < 2 ^ 32"
    "q_count q \<le> length (filter (\<lambda>k. \<not> closing (keys q k)) (active_list q))" "set held \<subseteq> set (active_list q)"
    "length held < 2 ^ 31"
    "\<And>k. k \<in> set (active_list q) \<Longrightarrow> ref_count (keys q k) = count_list held k + (if closing (keys q k) then 0 else 1) \<and> (closing (keys q k) \<longrightarrow> k \<in> set held)"
    "\<And>k. k \<in> set (closing_list q) \<Longrightarrow> ref_count (keys q k) = 0 \<and> closing (keys q k)" "\<And>k. k \<in> set (free_list q) \<Longrightarrow> ref_count (keys q k) = 0"
  using assms life_okD[of held q] by (auto simp: ioq_inv_def)

lemma ioq_invI:
  assumes "distinct (active_list q @ closing_list q @ free_list q)" "0 \<notin> set (active_list q @ closing_list q @ free_list q)"
    "length (active_list q) + length (closing_list q) + length (free_list q) \<le> q_max q" "q_max q < 2 ^ 32"
    "q_count q \<le> length (filter (\<lambda>k. \<not> closing (keys q k)) (active_list q))" "set held \<subseteq> set (active_list q)"
    "length held < 2 ^ 31"
    "\<And>k. k \<in> set (active_list q) \<Longrightarrow> ref_count (keys q k) = count_list held k + (if closing (keys q k) then 0 else 1) \<and> (closing (keys q k) \<longrightarrow> k \<in> set held)"
    "\<And>k. k \<in> set (closing_list q) \<Longrightarrow> ref_count (keys q k) = 0 \<and> closing (keys q k)" "\<And>k. k \<in> set (free_list q) \<Longrightarrow> ref_count (keys q k) = 0"
  shows "ioq_inv held q"
  unfolding ioq_inv_def by (intro conjI life_okI) (use assms in auto)

lemma ref_small: "life_ok held (life q) \<Longrightarrow> k \<in> set (active_list q) \<Longrightarrow> ref_count (keys q k) \<le> length held + 1"
  using life_okD(7)[of held q k] count_le_length[of held k] by simp

lemma Suc_length_remove1: "k \<in> set xs \<Longrightarrow> Suc (length (remove1 k xs)) = length xs"
  by (induction xs) auto

lemma decrement_inv:
  assumes "life_ok (key # held) (life q)" "decrement_counter os key q = Some q'" "length held < 2 ^ 31"
  shows "ioq_inv held q'"
proof -
  note i = life_okD[OF assms(1)]
  have act: "key \<in> set (active_list q)" using i(6) by simp
  have apart: "key \<notin> set (closing_list q)" "key \<notin> set (free_list q)" using i(1) act by auto
  have pos: "0 < count_list held key \<Longrightarrow> key \<in> set held" by (metis count_notin less_irrefl)
  have r: "ref_count (keys q key) = Suc (count_list held key + (if closing (keys q key) then 0 else 1))" using i(7)[OF act] by simp
  have s: "sub32 (ref_count (keys q key)) 1 = count_list held key + (if closing (keys q key) then 0 else 1)"
    using ref_small[OF assms(1) act] r assms(3) by (subst sub32_le) simp_all
  show ?thesis
  proof (cases "count_list held key = 0 \<and> closing (keys q key)")
    case True
    then have h: "key \<notin> set held" by (metis count_list_0_iff)
    obtain q4 where q': "q' = q4\<lparr>closing_list := closing_list q4 @ [key]\<rparr>" "active_list q4 = remove1 key (active_list q)" "closing_list q4 = closing_list q"
        "free_list q4 = free_list q" "q_max q4 = q_max q" "q_count q4 = q_count q"
        "\<And>k. ref_count (keys q4 k) = (if k = key then 0 else ref_count (keys q k))" "\<And>k. closing (keys q4 k) = closing (keys q k)"
      using assms(2) True s act apart by (auto simp: decrement_counter_def upd_key_def sys_def unlink_def Let_def remove1_idem)
    have d: "distinct (active_list q)" using i(1) by simp
    show ?thesis
    proof (rule ioq_invI)
      show "q_count q' \<le> length (filter (\<lambda>k. \<not> closing (keys q' k)) (active_list q'))"
        using i(5) True by (simp add: q' filter_remove1 remove1_idem)
      show "set held \<subseteq> set (active_list q')" using i(6) h d by (auto simp: q')
      show "ref_count (keys q' k) = count_list held k + (if closing (keys q' k) then 0 else 1) \<and> (closing (keys q' k) \<longrightarrow> k \<in> set held)"
        if "k \<in> set (active_list q')" for k
      proof -
        have "k \<noteq> key" "k \<in> set (active_list q)" using that d by (auto simp: q')
        with i(7)[of k] show ?thesis by (simp add: q')
      qed
      show "ref_count (keys q' k) = 0 \<and> closing (keys q' k)" if "k \<in> set (closing_list q')" for k
        using that i(8)[of k] True by (auto simp: q')
      show "ref_count (keys q' k) = 0" if "k \<in> set (free_list q')" for k
        using that i(9)[of k] by (auto simp: q')
      show "length (active_list q') + length (closing_list q') + length (free_list q') \<le> q_max q'"
        using i(3) Suc_length_remove1[OF act] by (simp add: q')
    qed (use i(1,2,4) assms(3) act apart in \<open>auto simp: q' notin_set_remove1\<close>)
  next
    case False
    then have q': "q' = upd_key q key (\<lambda>k. k\<lparr>ref_count := sub32 (ref_count k) 1\<rparr>)"
      using assms(2) s by (auto simp: decrement_counter_def upd_key_def Let_def split: if_splits)
    show ?thesis
    proof (rule ioq_invI)
      show "ref_count (keys q' k) = count_list held k + (if closing (keys q' k) then 0 else 1) \<and> (closing (keys q' k) \<longrightarrow> k \<in> set held)"
        if "k \<in> set (active_list q')" for k
        using that i(7)[of k] s False pos by (auto simp: q' upd_key_def)
      have "closing (keys q' x) = closing (keys q x)" for x by (simp add: q' upd_key_def)
      then show "q_count q' \<le> length (filter (\<lambda>k. \<not> closing (keys q' k)) (active_list q'))" using i(5) by (simp add: q' upd_key_def)
    qed (use i apart s assms(3) in \<open>auto simp: q' upd_key_def\<close>)
  qed
qed

text \<open>A scan moves keys from the closing list to the free list.\<close>

lemma scan_keys_inv:
  "scan_keys os now hs q = Some q' \<Longrightarrow> ioq_inv held q \<Longrightarrow> distinct hs \<Longrightarrow> set hs \<subseteq> set (closing_list q) \<Longrightarrow>
   ioq_inv held q' \<and> active_list q' = active_list q \<and> q_count q' = q_count q \<and> q_max q' = q_max q \<and> keys q' = keys q"
proof (induction hs arbitrary: q)
  case (Cons h hs)
  show ?case
  proof (cases "tv_gte os now (free_time (keys q h))")
    case False
    with Cons show ?thesis by (auto split: if_splits)
  next
    case True
    define q1 where "q1 = q\<lparr>closing_list := remove1 h (closing_list q), free_list := free_list q @ [h]\<rparr>"
    note i = ioq_invD[OF Cons.prems(2)]
    have h: "h \<in> set (closing_list q)" using Cons.prems(4) by simp
    have d: "distinct (closing_list q)" using i(1) by simp
    have "ioq_inv held q1"
    proof (rule ioq_invI)
      show "length (active_list q1) + length (closing_list q1) + length (free_list q1) \<le> q_max q1"
        using i(3) Suc_length_remove1[OF h] by (simp add: q1_def)
      show "ref_count (keys q1 k) = count_list held k + (if closing (keys q1 k) then 0 else 1) \<and> (closing (keys q1 k) \<longrightarrow> k \<in> set held)"
        if "k \<in> set (active_list q1)" for k using that i(8)[of k] by (simp add: q1_def)
    qed (use i h d in \<open>auto simp: q1_def\<close>)
    moreover have "set hs \<subseteq> set (closing_list q1)" using Cons.prems(3,4) d by (auto simp: q1_def)
    moreover have "scan_keys os now hs q1 = Some q'" using Cons.prems(1) True by (simp add: q1_def split: if_splits)
    ultimately show ?thesis using Cons.IH[of q1] Cons.prems(3) by (simp add: q1_def)
  qed
qed simp

lemma scan_inv:
  assumes "scan_closing_keys os q = Some q'" "ioq_inv held q"
  shows "ioq_inv held q' \<and> active_list q' = active_list q \<and> q_count q' = q_count q \<and> q_max q' = q_max q \<and> keys q' = keys q"
proof -
  define q1 where "q1 = q\<lparr>calls := Gettickcount # calls q\<rparr>"
  have "ioq_inv held q1" using assms(2) by (simp add: q1_def)
  from scan_keys_inv[of os "os_time os (calls q1)" "closing_list q1" q1 q' held] this assms(1) ioq_invD(1)[OF this]
  show ?thesis by (simp add: scan_closing_keys_def sys_def q1_def Let_def)
qed

text \<open>Registering takes a key out of the free list. When it fails at the end the key is lost.\<close>

lemma init_key_frame:
  assumes "ioqueue_init_key os key sock user cb q = Some (q', rc)"
  shows "active_list q' = active_list q \<and> closing_list q' = closing_list q \<and> free_list q' = free_list q \<and> q_count q' = q_count q \<and> q_max q' = q_max q \<and>
    (\<forall>k. k \<noteq> key \<longrightarrow> keys q' k = keys q k) \<and> ref_count (keys q' key) = 1 \<and> \<not> closing (keys q' key)"
  using assms by (auto simp: ioqueue_init_key_def pj_ioqueue_set_concurrency_def upd_key_def sys_def Let_def split: if_splits)

lemma register_inv:
  assumes "pj_ioqueue_register_sock2 os sock user cb q = Some (q', key, rc)" "ioq_inv held q"
  shows "ioq_inv held q'"
proof (cases "sock = PJ_INVALID_SOCKET \<or> q_count q \<ge> q_max q \<or> os_ret os (Ioctl_nonblock sock # calls q) \<noteq> 0")
  case True
  with assms show ?thesis by (auto simp: pj_ioqueue_register_sock2_def sys_def Let_def split: if_splits)
next
  case False
  define q1 where "q1 = q\<lparr>calls := Ioctl_nonblock sock # calls q\<rparr>"
  from assms(1) False obtain q2 where q2: "scan_closing_keys os q1 = Some q2"
    by (auto simp: pj_ioqueue_register_sock2_def sys_def q1_def Let_def bind_eq_Some_conv)
  have "ioq_inv held q1" using assms(2) by (simp add: q1_def)
  from scan_inv[OF q2 this] have q2i: "ioq_inv held q2" "q_count q2 < q_max q2" using False by (auto simp: q1_def)
  obtain k ks where f: "free_list q2 = k # ks"
    using assms(1) False q2 by (cases "free_list q2") (auto simp: pj_ioqueue_register_sock2_def sys_def q1_def Let_def)
  obtain q3 rc' where q3: "ioqueue_init_key os k sock user cb (q2\<lparr>free_list := ks\<rparr>) = Some (q3, rc')"
    using assms(1) False q2 f by (auto simp: pj_ioqueue_register_sock2_def sys_def q1_def Let_def bind_eq_Some_conv)
  note i = ioq_invD[OF q2i(1)] and fr = init_key_frame[OF q3]
  have k: "k \<notin> set (active_list q2)" "k \<notin> set (closing_list q2)" "k \<notin> set ks" "k \<noteq> 0" using i(1,2) f by auto
  have n: "filter (\<lambda>k. \<not> closing (keys q3 k)) (active_list q2) = filter (\<lambda>k. \<not> closing (keys q2 k)) (active_list q2)"
    using fr k(1) by (intro filter_cong) auto
  have same: "keys q3 x = keys q2 x" if "x \<in> set (active_list q2) \<union> set (closing_list q2) \<union> set ks" for x
    using that fr k by (cases "x = k") auto
  have i3: "ioq_inv held q3"
  proof (rule ioq_invI)
    show "q_count q3 \<le> length (filter (\<lambda>k. \<not> closing (keys q3 k)) (active_list q3))" using i(5) fr n by simp
  qed (use i fr k f same in \<open>auto split: if_splits\<close>)
  have q': "q' = q3 \<or> q' = q3\<lparr>calls := Epoll_add sock k # calls q3\<rparr> \<or>
      q' = q3\<lparr>calls := Epoll_add sock k # calls q3, active_list := active_list q3 @ [k], q_count := u32 (q_count q3 + 1)\<rparr>"
    using assms(1) False q2 f q3 by (auto simp: pj_ioqueue_register_sock2_def sys_def q1_def Let_def split: if_splits)
  moreover have "ioq_inv held (q3\<lparr>calls := Epoll_add sock k # calls q3, active_list := active_list q3 @ [k], q_count := u32 (q_count q3 + 1)\<rparr>)" (is "ioq_inv held ?q")
  proof (rule ioq_invI)
    have "u32 (q_count q3 + 1) = q_count q3 + 1" using q2i(2) i(4) fr by (intro u32_id) simp
    then show "q_count ?q \<le> length (filter (\<lambda>k. \<not> closing (keys ?q k)) (active_list ?q))" using i(5) fr n by simp
    show "ref_count (keys ?q x) = count_list held x + (if closing (keys ?q x) then 0 else 1) \<and> (closing (keys ?q x) \<longrightarrow> x \<in> set held)"
      if "x \<in> set (active_list ?q)" for x
    proof (cases "x = k")
      case True
      have "k \<notin> set held" using i(6) k(1) by blast
      then show ?thesis using fr True by simp
    next
      case False
      with that i(8)[of x] fr show ?thesis by simp
    qed
  qed (use i fr k f same in \<open>auto split: if_splits\<close>)
  ultimately show ?thesis using i3 by auto
qed

text \<open>Unregistering gives the owner's reference back.\<close>

lemma length_filter_less:
  assumes "k \<in> set xs" "P k" "\<not> Q k" "distinct xs" "\<And>x. x \<noteq> k \<Longrightarrow> Q x = P x"
  shows "length (filter P xs) = Suc (length (filter Q xs))"
proof -
  from assms(1,4) obtain as bs where x: "xs = as @ k # bs" "k \<notin> set as" "k \<notin> set bs" by (auto dest!: split_list)
  have "Q x = P x" if "x \<in> set as \<union> set bs" for x using that x assms(5)[of x] by (cases "x = k") auto
  then have "filter Q as = filter P as" "filter Q bs = filter P bs" by (auto intro!: filter_cong)
  with x assms(2,3) show ?thesis by simp
qed

lemma unregister_inv:
  assumes "pj_ioqueue_unregister os key q = Some (q', rc)" "ioq_inv held q" "key \<in> set (active_list q)"
  shows "ioq_inv held q'"
proof (cases "closing (keys q key) \<or> key = 0")
  case True
  with assms show ?thesis by (auto simp: pj_ioqueue_unregister_def split: if_splits)
next
  case False
  note i = ioq_invD[OF assms(2)]
  from assms(1) False have c: "q_count q > 0" by (auto simp: pj_ioqueue_unregister_def split: if_splits)
  define q2 where "q2 = q\<lparr>q_count := q_count q - 1, calls := Epoll_del (k_fd (keys q key)) key # calls q\<rparr>"
  define q4 where "q4 = upd_key (q2\<lparr>calls := Close (k_fd (keys q key)) # calls q2\<rparr>) key (\<lambda>k. k\<lparr>closing := True\<rparr>)"
  have i2: "ioq_inv held q2" using i by (intro ioq_invI) (auto simp: q2_def)
  have d: "distinct (active_list q)" "key \<notin> set (closing_list q)" "key \<notin> set (free_list q)" using i(1) assms(3) by auto
  have i4: "life_ok (key # held) (life q4)"
  proof (rule life_okI)
    have "length (filter (\<lambda>k. \<not> closing (keys q k)) (active_list q)) = Suc (length (filter (\<lambda>k. \<not> closing (keys q4 k)) (active_list q)))"
      using assms(3) False d(1) by (intro length_filter_less[of key]) (auto simp: q4_def q2_def upd_key_def)
    then show "q_count q4 \<le> length (filter (\<lambda>k. \<not> closing (keys q4 k)) (active_list q4))"
      using i(5) by (simp add: q4_def q2_def upd_key_def)
    show "ref_count (keys q4 k) = count_list (key # held) k + (if closing (keys q4 k) then 0 else 1) \<and> (closing (keys q4 k) \<longrightarrow> k \<in> set (key # held))"
      if "k \<in> set (active_list q4)" for k
      using that i(8)[of k] False by (auto simp: q4_def q2_def upd_key_def)
  qed (use i d assms(3) in \<open>auto simp: q4_def q2_def upd_key_def\<close>)
  from assms(1) False c have "q' = q2 \<or> decrement_counter os key q4 = Some q'"
    by (auto simp: pj_ioqueue_unregister_def sys_def q4_def q2_def Let_def upd_key_def bind_eq_Some_conv split: if_splits)
  with i2 decrement_inv[OF i4 _ i(7)] show ?thesis by blast
qed

text \<open>The kernel reports only sockets that are registered.\<close>

lemma collect_inv:
  assumes "collect_events es q = (q', evs)" "ioq_inv held q" "e_key ` set es \<subseteq> set (active_list q)" "length held + length es < 2 ^ 31"
  shows "life_ok (map fst evs @ held) (life q') \<and> length evs \<le> length es"
  using assms
proof (induction es arbitrary: q held evs)
  case (Cons e es)
  show ?case
  proof (cases "classify q e")
    case None
    with Cons.prems show ?thesis using Cons.IH[of q evs held] by auto
  next
    case (Some t)
    let ?q = "increment_counter (e_key e) q"
    note i = ioq_invD[OF Cons.prems(2)]
    have a: "e_key e \<in> set (active_list q)" "e_key e \<notin> set (closing_list q)" "e_key e \<notin> set (free_list q)" using Cons.prems(3) i(1) by auto
    have "ref_count (keys q (e_key e)) \<le> length held + 1" using Cons.prems(2) a(1) by (intro ref_small) (auto simp: ioq_inv_def)
    then have u: "u32 (ref_count (keys q (e_key e)) + 1) = ref_count (keys q (e_key e)) + 1" using i(7) by (intro u32_id) simp
    have iq: "ioq_inv (e_key e # held) ?q"
    proof (rule ioq_invI)
      show "ref_count (keys ?q k) = count_list (e_key e # held) k + (if closing (keys ?q k) then 0 else 1) \<and> (closing (keys ?q k) \<longrightarrow> k \<in> set (e_key e # held))"
        if "k \<in> set (active_list ?q)" for k
        using that i(8)[of k] u by (auto simp: increment_counter_def upd_key_def)
      have "closing (keys ?q x) = closing (keys q x)" for x by (simp add: increment_counter_def upd_key_def)
      then show "q_count ?q \<le> length (filter (\<lambda>k. \<not> closing (keys ?q k)) (active_list ?q))" using i(5) by (simp add: increment_counter_def upd_key_def)
    qed (use i a Cons.prems(4) in \<open>auto simp: increment_counter_def upd_key_def\<close>)
    obtain evs1 where evs: "collect_events es ?q = (q', evs1)" "evs = (e_key e, t) # evs1"
      using Cons.prems(1) Some by (auto split: prod.splits)
    have "e_key ` set es \<subseteq> set (active_list ?q)" using Cons.prems(3) by (auto simp: increment_counter_def upd_key_def)
    with Cons.IH[OF evs(1) iq] Cons.prems(4) have l: "life_ok (map fst evs1 @ e_key e # held) (life q')" "length evs1 \<le> length es" by auto
    have c: "count_list (map fst evs1 @ e_key e # held) k = count_list (map fst evs @ held) k" for k
      by (simp add: evs(2))
    have "set (map fst evs1 @ e_key e # held) = set (map fst evs @ held)" by (auto simp: evs(2))
    with l c show ?thesis by (simp add: life_ok_def evs(2))
  qed
qed (simp add: ioq_inv_def)

lemma process_inv:
  assumes "handlers_ok run" "process_events os run evs n q = Some (q', m)" "life_ok (map fst evs @ held) (life q)" "length evs + length held < 2 ^ 31"
  shows "ioq_inv held q'"
  using assms(2-4)
proof (induction evs arbitrary: n q)
  case (Cons e evs)
  obtain key t where e: "e = (key, t)" by (cases e)
  let ?h = "map fst evs @ held"
  from Cons.prems(1) obtain q1 d q2 where s: "(if n < MAX_EVENTS then dispatch os run key t q else Some (q, False)) = Some (q1, d)"
    "decrement_counter os key q1 = Some q2" "process_events os run evs (if d then n + 1 else n) q2 = Some (q', m)"
    by (auto simp: e bind_eq_Some_conv)
  have "ioq_inv (key # ?h) q" using Cons.prems(2,3) by (simp add: ioq_inv_def e)
  then have "ioq_inv (key # ?h) q1"
    using s(1) dispatch_inv[OF assms(1)] by (cases "n < MAX_EVENTS") auto
  then have "ioq_inv ?h q2" using decrement_inv[OF _ s(2)] Cons.prems(3) by (auto simp: ioq_inv_def)
  with Cons.IH[OF s(3)] Cons.prems(3) show ?case by (simp add: ioq_inv_def)
qed (auto simp: ioq_inv_def)

lemma poll_inv:
  assumes "handlers_ok run" "pj_ioqueue_poll os run ms q = Some (q', r)" "ioq_inv held q"
    and "\<And>e. e \<in> set (os_events os (Epoll_wait (epfd q) ms # calls q)) \<Longrightarrow> e_key e \<in> set (active_list q)"
    and "length held + nat (os_ret os (Epoll_wait (epfd q) ms # calls q)) < 2 ^ 31"
  shows "ioq_inv held q'"
proof -
  define c where "c = Epoll_wait (epfd q) ms # calls q"
  have i: "ioq_inv held (q\<lparr>calls := c\<rparr>)" using assms(3) by simp
  consider "os_ret os c = 0" | "os_ret os c < 0" | "os_ret os c > 0" by linarith
  then show ?thesis
  proof cases
    case 1
    with assms(2) obtain q2 where q2: "(if closing_list q \<noteq> [] then scan_closing_keys os (q\<lparr>calls := c\<rparr>) else Some (q\<lparr>calls := c\<rparr>)) = Some q2"
      "(if active_list q2 \<noteq> [] then ioqueue_connect_timeout os run q2 else Some q2) = Some q'"
      unfolding pj_ioqueue_poll_def sys_def Let_def c_def[symmetric] by (auto simp: bind_eq_Some_conv)
    have "ioq_inv held q2" using q2(1) i scan_inv[of os "q\<lparr>calls := c\<rparr>" q2 held] by (auto split: if_splits)
    then show ?thesis
      using q2(2) timeout_loop_inv[OF assms(1)]
      by (auto simp: ioqueue_connect_timeout_def sys_def Let_def split: if_splits)
  next
    case 2
    with assms(2) i show ?thesis by (auto simp: pj_ioqueue_poll_def sys_def c_def Let_def)
  next
    case 3
    let ?es = "take (nat (os_ret os c)) (os_events os c)"
    obtain q2 evs where col: "collect_events ?es (q\<lparr>calls := c\<rparr>) = (q2, evs)" by (cases "collect_events ?es (q\<lparr>calls := c\<rparr>)")
    with 3 assms(2) obtain n where p: "process_events os run evs 0 q2 = Some (q', n)"
      unfolding pj_ioqueue_poll_def sys_def Let_def c_def[symmetric] by (auto simp: bind_eq_Some_conv)
    have "e_key ` set ?es \<subseteq> set (active_list (q\<lparr>calls := c\<rparr>))" using assms(4) in_set_takeD by (fastforce simp: c_def)
    moreover have "length held + length ?es < 2 ^ 31" using assms(5) by (simp add: c_def)
    ultimately have "life_ok (map fst evs @ held) (life q2)" "length evs + length held < 2 ^ 31"
      using collect_inv[OF col i] by auto
    with process_inv[OF assms(1) p] show ?thesis by blast
  qed
qed

lemma create_keys_ok:
  "create_keys os ks q = Some (q', 0) \<Longrightarrow> active_list q' = active_list q \<and> closing_list q' = closing_list q \<and> free_list q' = free_list q @ ks \<and> q_count q' = q_count q \<and>
     q_max q' = q_max q \<and> 0 \<notin> set ks \<and> (\<forall>k. k \<notin> set ks \<longrightarrow> keys q' k = keys q k) \<and> (\<forall>k \<in> set ks. ref_count (keys q' k) = 0)"
proof (induction ks arbitrary: q)
  case (Cons key ks)
  define q1 where "q1 = upd_key q key (\<lambda>k. k\<lparr>ref_count := 0\<rparr>)"
  from Cons.prems have k: "key \<noteq> 0" and c: "create_keys os ks (q1\<lparr>calls := Lock_create # calls q1, free_list := free_list q1 @ [key]\<rparr>) = Some (q', 0)"
    by (auto simp: sys_def q1_def Let_def split: if_splits)
  from Cons.IH[OF c] k show ?case by (cases "key \<in> set ks") (auto simp: q1_def upd_key_def)
qed simp

lemma create_inv:
  assumes "pj_ioqueue_create os ks q = Some (q', 0)" "distinct ks" "length ks < 2 ^ 32" "PJ_EINVAL os \<noteq> 0"
  shows "ioq_inv [] q'"
proof -
  define q1 where "q1 = q\<lparr>default_concurrency := True, q_max := length ks, q_count := 0, active_list := [], calls := Lock_create # calls q, free_list := [], closing_list := []\<rparr>"
  from assms(1,4) obtain q2 where q2: "create_keys os ks q1 = Some (q2, 0)" "life q' = life q2"
    by (auto simp: pj_ioqueue_create_def sys_def q1_def Let_def bind_eq_Some_conv split: if_splits)
  have "ioq_inv [] q2"
    using create_keys_ok[OF q2(1)] assms(2,3) by (intro ioq_invI) (auto simp: q1_def)
  with q2(2) show ?thesis by (simp add: ioq_inv_def)
qed

subsection \<open>The queue in use\<close>

text \<open>The operations of a user, in any order. An event of \<open>epoll_wait\<close> is for a registered socket, and there are at most as many as there is room for.
A \<open>careful\<close> user never gives an operation that is waiting to a socket for reading or accepting, and completes operations of registered sockets only.\<close>

inductive ioq_step :: "bool \<Rightarrow> os \<Rightarrow> handlers \<Rightarrow> ioqueue \<Rightarrow> ioqueue \<Rightarrow> bool" for careful :: bool and os :: os and run :: handlers where
  register: "pj_ioqueue_register_sock os sock user cb q = Some (q', key, rc) \<Longrightarrow> ioq_step careful os run q q'"
| unregister: "key \<in> set (active_list q) \<Longrightarrow> pj_ioqueue_unregister os key q = Some (q', rc) \<Longrightarrow> ioq_step careful os run q q'"
| recv: "(careful \<Longrightarrow> \<not> is_linked q x) \<Longrightarrow> pj_ioqueue_recv os key x buffer len flags q = Some (q', r) \<Longrightarrow> ioq_step careful os run q q'"
| recvfrom: "(careful \<Longrightarrow> \<not> is_linked q x) \<Longrightarrow> pj_ioqueue_recvfrom os key x buffer len flags rmt rmtlen q = Some (q', r) \<Longrightarrow> ioq_step careful os run q q'"
| send: "pj_ioqueue_send os key x data len flags q = Some (q', r) \<Longrightarrow> ioq_step careful os run q q'"
| sendto: "pj_ioqueue_sendto os key x data len flags to q = Some (q', r) \<Longrightarrow> ioq_step careful os run q q'"
| accept: "(careful \<Longrightarrow> \<not> is_linked q x) \<Longrightarrow> pj_ioqueue_accept os key x sock local remote addrlen q = Some (q', rc) \<Longrightarrow> ioq_step careful os run q q'"
| connect: "pj_ioqueue_connect os key to q = Some (q', rc) \<Longrightarrow> ioq_step careful os run q q'"
| post: "(careful \<Longrightarrow> key \<in> set (active_list q)) \<Longrightarrow> pj_ioqueue_post_completion run key x n q = Some (q', rc) \<Longrightarrow> ioq_step careful os run q q'"
| poll: "pj_ioqueue_poll os run ms q = Some (q', rc) \<Longrightarrow>
    (\<And>e. e \<in> set (os_events os (Epoll_wait (epfd q) ms # calls q)) \<Longrightarrow> e_key e \<in> set (active_list q)) \<Longrightarrow>
    os_ret os (Epoll_wait (epfd q) ms # calls q) \<le> int MAX_EVENTS \<Longrightarrow> ioq_step careful os run q q'"

lemma ioq_step_inv:
  assumes "handlers_ok run" "ioq_step careful os run q q'" "ioq_inv [] q"
  shows "ioq_inv [] q'"
  using assms(2)
proof cases
  case register
  then show ?thesis using register_inv assms(3) by (simp add: pj_ioqueue_register_sock_def)
next
  case poll
  then show ?thesis using poll_inv[OF assms(1) poll(1) assms(3)] by (auto simp: MAX_EVENTS_def nat_less_iff)
next
  case post
  then show ?thesis using post_completion_inv[OF assms(1)] assms(3) by blast
qed (use assms(3) unregister_inv recv_life recvfrom_life send_life sendto_life accept_life connect_life in \<open>auto simp: ioq_inv_def\<close>)

text \<open>C34: From its creation on, whatever the kernel answers and whatever the user does, the lists of free, registered and closing keys stay apart and within the size of
the queue; a registered key has exactly one reference until it is closed, closing and free keys have none, and the count never exceeds the number of open keys.\<close>

theorem ioq_reachable_inv:
  assumes "handlers_ok run" "pj_ioqueue_create os ks q0 = Some (q, 0)" "distinct ks" "length ks < 2 ^ 32" "PJ_EINVAL os \<noteq> 0"
    and "(ioq_step careful os run)\<^sup>*\<^sup>* q q'"
  shows "ioq_inv [] q'"
  using assms(6)
proof (induction rule: rtranclp_induct)
  case base
  then show ?case using create_inv[OF assms(2-5)] .
next
  case (step y z)
  then show ?case using ioq_step_inv[OF assms(1)] by blast
qed

text \<open>An example: a kernel on which every call succeeds, whose clock runs a second with every call, and a handler that reads again.\<close>

definition demo_os :: os where
  "demo_os = \<lparr>os_ret = (\<lambda>h. case hd h of Epoll_create n \<Rightarrow> 5 | Recv fd b n f \<Rightarrow> - 1 | Sendto fd b n f a \<Rightarrow> - 1 | _ \<Rightarrow> 0), os_errno = (\<lambda>h. 11), os_value = (\<lambda>h. 2),
     os_events = (\<lambda>h. []), os_time = (\<lambda>h. \<lparr>sec = int (length h), msec = 0\<rparr>), tv_normalize = TIME_Normalize, tv_gte = TIME_VAL_GTE,
     PJ_EINVAL = 70004, PJ_EINVALIDOP = 70013, PJ_EBUG = 70001, HAS_SAFE_UNREG = True, EAGAIN = 11, EINPROGRESS = 115\<rparr>"

definition demo_run :: handlers where
  "demo_run h ev q = (case ev of Read_complete key x n \<Rightarrow> map_option fst (pj_ioqueue_recv demo_os key x 1000 10 0 q) | _ \<Rightarrow> Some q)"

lemma demo_run_ok: "handlers_ok demo_run"
  by (auto simp: handlers_ok_def demo_run_def ioq_inv_def dest!: recv_life split: event.splits)

definition demo_cb :: pj_cb where
  "demo_cb = \<lparr>on_read_complete = 1, on_write_complete = 2, on_accept_complete = 3, on_connect_complete = 4\<rparr>"

definition demo_key :: pj_key where
  "demo_key = \<lparr>allow_concurrent = False, k_fd = 0, fd_type = 0, user_data = 0, k_cb = demo_cb, connecting = False, connect_time = \<lparr>sec = 0, msec = 0\<rparr>,
     read_list = [], write_list = [], accept_list = [], ref_count = 7, closing = False, free_time = \<lparr>sec = 0, msec = 0\<rparr>\<rparr>"

definition demo_op :: pj_op where
  "demo_op = \<lparr>op_code = 0, op_buf = 0, op_size = 0, op_written = 0, op_flags = 0, op_rmt = 0, op_rmtlen = 0, op_to = replicate 16 0, op_tolen = 0, op_fd = 0, op_local = 0\<rparr>"

definition demo_mem :: ioqueue where
  "demo_mem = \<lparr>q_max = 0, q_count = 0, active_list = [], closing_list = [], free_list = [], epfd = 0, default_concurrency = False,
     keys = (\<lambda>k. demo_key), ops = (\<lambda>x. demo_op), ints = (\<lambda>a. 0), calls = []\<rparr>"

definition demo_queue :: ioqueue where
  "demo_queue = \<lparr>q_max = 1, q_count = 0, active_list = [], closing_list = [], free_list = [8], epfd = 5, default_concurrency = True,
     keys = (\<lambda>k. demo_key)(8 := demo_key\<lparr>ref_count := 0\<rparr>), ops = (\<lambda>x. demo_op), ints = (\<lambda>a. 0), calls = [Epoll_create 1, Lock_create, Lock_create, Lock_create]\<rparr>"

definition open_key :: pj_key where
  "open_key = demo_key\<lparr>ref_count := 1, k_fd := 3, user_data := 9, allow_concurrent := True, fd_type := 2\<rparr>"

definition demo_registered :: ioqueue where
  "demo_registered = demo_queue\<lparr>q_count := 1, active_list := [8], free_list := [], keys := (\<lambda>k. demo_key)(8 := open_key),
     calls := [Epoll_add 3 8, Getsockopt_type 3, Gettickcount, Ioctl_nonblock 3, Epoll_create 1, Lock_create, Lock_create, Lock_create]\<rparr>"

lemma demo_create: "pj_ioqueue_create demo_os [8] demo_mem = Some (demo_queue, 0)"
  by (simp add: demo_queue_def pj_ioqueue_create_def sys_def demo_mem_def demo_os_def Let_def upd_key_def)

lemma demo_register: "pj_ioqueue_register_sock demo_os 3 9 demo_cb demo_queue = Some (demo_registered, 8, 0)"
  by (simp add: demo_registered_def demo_queue_def open_key_def demo_key_def pj_ioqueue_register_sock_def pj_ioqueue_register_sock2_def sys_def demo_os_def Let_def
      upd_key_def scan_closing_keys_def ioqueue_init_key_def pj_ioqueue_set_concurrency_def PJ_INVALID_SOCKET_def u32_def)

lemma ioq_reachable_inv_witness: "ioq_inv [] demo_registered"
proof (rule ioq_reachable_inv[OF demo_run_ok demo_create])
  show "(ioq_step True demo_os demo_run)\<^sup>*\<^sup>* demo_queue demo_registered"
    using ioq_step.register[OF demo_register] by blast
qed (simp_all add: demo_os_def)

lemma scan_keys_moves:
  "list_all (\<lambda>h. closing (keys q h)) hs \<Longrightarrow>
   \<exists>q'. scan_keys os now hs q = Some q' \<and> (\<forall>h \<in> set hs. tv_gte os now (free_time (keys q h)) \<longrightarrow> h \<in> set (free_list q')) \<and> set (free_list q) \<subseteq> set (free_list q')"
proof (induction hs arbitrary: q)
  case (Cons h hs)
  let ?q = "if tv_gte os now (free_time (keys q h)) then q\<lparr>closing_list := remove1 h (closing_list q), free_list := free_list q @ [h]\<rparr> else q"
  have "list_all (\<lambda>h. closing (keys ?q h)) hs" "keys ?q = keys q" using Cons.prems by (auto simp: list_all_iff)
  with Cons.IH[of ?q] Cons.prems show ?case by (auto split: if_splits)
qed simp

text \<open>C37: A key that is unregistered is at once in the closing list, and the first scan after its time puts it back into the free list: it can be used again.\<close>

theorem ioq_unregistered_key_comes_back:
  assumes "ioq_inv [] q" "key \<in> set (active_list q)" "pj_ioqueue_unregister os key q = Some (q1, 0)"
    and "tv_gte os (os_time os (Gettickcount # calls q1)) (free_time (keys q1 key))"
  shows "key \<in> set (closing_list q1) \<and> (\<exists>q2. scan_closing_keys os q1 = Some q2 \<and> key \<in> set (free_list q2) \<and> key \<notin> set (active_list q2) \<union> set (closing_list q2))"
proof -
  note i = ioq_invD[OF assms(1)]
  have k: "key \<noteq> 0" "\<not> closing (keys q key)" "ref_count (keys q key) = 1" "key \<notin> set (closing_list q) \<union> set (free_list q)"
    using i(1,2) i(8)[OF assms(2)] assms(2) by (auto split: if_splits)
  from assms(3) k(1,2,3) assms(2) have c: "key \<in> set (closing_list q1)"
    by (auto simp: pj_ioqueue_unregister_def decrement_counter_def sys_def Let_def upd_key_def unlink_def sub32_def u32_def bind_eq_Some_conv split: if_splits)
  have i1: "ioq_inv [] q1" using unregister_inv[OF assms(3,1,2)] .
  define qc where "qc = q1\<lparr>calls := Gettickcount # calls q1\<rparr>"
  have "list_all (\<lambda>h. closing (keys qc h)) (closing_list qc)" using ioq_invD(9)[OF i1] by (auto simp: list_all_iff qc_def)
  then obtain q2 where q2: "scan_keys os (os_time os (calls qc)) (closing_list qc) qc = Some q2"
    "\<forall>h \<in> set (closing_list qc). tv_gte os (os_time os (calls qc)) (free_time (keys qc h)) \<longrightarrow> h \<in> set (free_list q2)"
    using scan_keys_moves[of qc "closing_list qc" os "os_time os (calls qc)"] by blast
  then have s: "scan_closing_keys os q1 = Some q2" "key \<in> set (free_list q2)"
    using c assms(4) by (auto simp: scan_closing_keys_def sys_def qc_def Let_def)
  have "ioq_inv [] q2" using scan_inv[OF s(1) i1] by simp
  from ioq_invD(1)[OF this] s(2) have "key \<notin> set (active_list q2) \<union> set (closing_list q2)" by auto
  with c s show ?thesis by blast
qed

definition closed_key :: "T_Timevalue \<Rightarrow> pj_key" where
  "closed_key t = open_key\<lparr>ref_count := 0, closing := True, free_time := t\<rparr>"

definition demo_closed :: "T_Timevalue \<Rightarrow> ioqueue" where
  "demo_closed t = demo_registered\<lparr>q_count := 0, active_list := [], closing_list := [8], keys := (\<lambda>k. demo_key)(8 := closed_key t),
     calls := [Gettickcount, Close 3, Epoll_del 3 8] @ calls demo_registered\<rparr>"

lemma demo_times: "TIME_Normalize \<lparr>sec = 11, msec = 500\<rparr> = \<lparr>sec = 11, msec = 500\<rparr>" "TIME_Normalize \<lparr>sec = 3, msec = 500\<rparr> = \<lparr>sec = 3, msec = 500\<rparr>"
  by (simp_all add: TIME_Normalize_def)

lemma demo_unregister: "pj_ioqueue_unregister demo_os 8 demo_registered = Some (demo_closed \<lparr>sec = 11, msec = 500\<rparr>, 0)"
  by (simp add: demo_closed_def closed_key_def demo_registered_def demo_queue_def open_key_def demo_key_def pj_ioqueue_unregister_def decrement_counter_def unlink_def
      sub32_def u32_def sys_def demo_os_def Let_def upd_key_def demo_times PJ_IOQUEUE_KEY_FREE_DELAY_def)

lemma demo_inv: "ioq_inv [] demo_registered"
  using register_inv[OF demo_register[unfolded pj_ioqueue_register_sock_def] create_inv[OF demo_create]] by (simp add: demo_os_def)

lemma ioq_unregistered_key_comes_back_witness:
  "8 \<in> set (closing_list (demo_closed \<lparr>sec = 11, msec = 500\<rparr>)) \<and> (\<exists>q2. scan_closing_keys demo_os (demo_closed \<lparr>sec = 11, msec = 500\<rparr>) = Some q2 \<and>
    8 \<in> set (free_list q2) \<and> 8 \<notin> set (active_list q2) \<union> set (closing_list q2))"
proof (rule ioq_unregistered_key_comes_back[OF demo_inv _ demo_unregister])
  show "8 \<in> set (active_list demo_registered)" by (simp add: demo_registered_def)
  show "tv_gte demo_os (os_time demo_os (Gettickcount # calls (demo_closed \<lparr>sec = 11, msec = 500\<rparr>))) (free_time (keys (demo_closed \<lparr>sec = 11, msec = 500\<rparr>) 8))"
    by (simp add: demo_closed_def closed_key_def demo_registered_def demo_os_def time_val_defs less_eq_T_Timevalue_ext_def)
qed

text \<open>C38: When all keys were in use, unregistering one and registering a socket within the delay of 500 milliseconds fails an assertion: the test of the count lets the call pass,
while the free list is empty.\<close>

theorem ioq_reregister_aborts:
  assumes "ioq_inv [] q" "key \<in> set (active_list q)" "free_list q = []" "closing_list q = []" "pj_ioqueue_unregister os key q = Some (q1, 0)"
    and "sock \<noteq> PJ_INVALID_SOCKET" "os_ret os (Ioctl_nonblock sock # calls q1) = 0"
    and "\<not> tv_gte os (os_time os (Gettickcount # Ioctl_nonblock sock # calls q1)) (free_time (keys q1 key))"
  shows "q_count q1 < q_max q1 \<and> pj_ioqueue_register_sock2 os sock user cb q1 = None"
proof -
  note i = ioq_invD[OF assms(1)]
  have k: "key \<noteq> 0" "\<not> closing (keys q key)" "ref_count (keys q key) = 1"
    using i(1,2) i(8)[OF assms(2)] assms(2) by (auto split: if_splits)
  have "q_count q \<le> q_max q" using i(3,5) length_filter_le[of "\<lambda>k. \<not> closing (keys q k)" "active_list q"] by linarith
  with assms(5) k assms(2-4) have c: "closing_list q1 = [key]" "free_list q1 = []" "q_count q1 < q_max q1" "closing (keys q1 key)"
    by (auto simp: pj_ioqueue_unregister_def decrement_counter_def sys_def Let_def upd_key_def unlink_def sub32_def u32_def bind_eq_Some_conv split: if_splits)
  with assms(6-8) show ?thesis
    by (simp add: pj_ioqueue_register_sock2_def sys_def scan_closing_keys_def Let_def)
qed

text \<open>The example with a clock that stands still.\<close>

definition slow_os :: os where
  "slow_os = demo_os\<lparr>os_time := (\<lambda>h. \<lparr>sec = 3, msec = 0\<rparr>)\<rparr>"

lemma slow_unregister: "pj_ioqueue_unregister slow_os 8 demo_registered = Some (demo_closed \<lparr>sec = 3, msec = 500\<rparr>, 0)"
  by (simp add: slow_os_def demo_closed_def closed_key_def demo_registered_def demo_queue_def open_key_def demo_key_def pj_ioqueue_unregister_def decrement_counter_def
      unlink_def sub32_def u32_def sys_def demo_os_def Let_def upd_key_def demo_times PJ_IOQUEUE_KEY_FREE_DELAY_def)

lemma ioq_reregister_aborts_witness:
  "q_count (demo_closed \<lparr>sec = 3, msec = 500\<rparr>) < q_max (demo_closed \<lparr>sec = 3, msec = 500\<rparr>) \<and>
   pj_ioqueue_register_sock2 slow_os 4 9 demo_cb (demo_closed \<lparr>sec = 3, msec = 500\<rparr>) = None"
  by (rule ioq_reregister_aborts[OF demo_inv _ _ _ slow_unregister])
    (simp_all add: slow_os_def demo_os_def demo_closed_def closed_key_def demo_registered_def demo_queue_def PJ_INVALID_SOCKET_def time_val_defs less_eq_T_Timevalue_ext_def)

text \<open>C36: When a read event comes, the operation that has waited longest is taken out of the list and its handler is called with the bytes the kernel gave; when
the kernel gave an error, it is called as if the whole buffer had been filled.\<close>

theorem ioq_read_completes_oldest:
  assumes "os_ret os (Trylock key # calls q) = 0" "\<not> closing (keys q key)" "accept_list (keys q key) = []" "read_list (keys q key) = x # xs"
    and "op_code (ops q x) \<in> {OP_RECV, OP_RECV_FROM}" "on_read_complete (k_cb (keys q key)) \<noteq> 0"
  shows "\<exists>c q1. ioqueue_dispatch_read_event os run key q =
      map_option (\<lambda>q'. (q', True)) (run (on_read_complete (k_cb (keys q key))) (Read_complete key x (if os_ret os (c # Trylock key # calls q) \<ge> 0 then os_ret os (c # Trylock key # calls q) else op_size (ops q x))) q1) \<and>
    c \<in> {Recv (k_fd (keys q key)) (op_buf (ops q x)) (op_size (ops q x)) (op_flags (ops q x)),
         Recvfrom (k_fd (keys q key)) (op_buf (ops q x)) (op_size (ops q x)) (op_flags (ops q x)) (op_rmt (ops q x)) (op_rmtlen (ops q x))} \<and>
    read_list (keys q1 key) = xs \<and> \<not> pj_ioqueue_is_pending x q1 \<and> life q1 = life q"
proof -
  define q2 where "q2 = upd_key (q\<lparr>calls := Trylock key # calls q\<rparr>) key (\<lambda>k. k\<lparr>read_list := xs\<rparr>)"
  have d: "ioqueue_dispatch_read_event os run key q = Option.bind (read_bytes os key x q2) (\<lambda>(n, q3). Option.bind (notify run key on_read_complete (Read_complete key x n) q3) (\<lambda>q4. Some (q4, True)))"
    using assms(1-4) by (simp add: ioqueue_dispatch_read_event_def read_pending_def sys_def Let_def ioqueue_remove_from_set_def q2_def upd_key_def)
  obtain c n q3 where r: "read_bytes os key x q2 = Some (n, q3)" "q3 = upd_op q2 x (\<lambda>r. r\<lparr>op_code := OP_NONE\<rparr>)\<lparr>calls := c # Trylock key # calls q\<rparr>"
    "n = (if os_ret os (c # Trylock key # calls q) \<ge> 0 then os_ret os (c # Trylock key # calls q) else op_size (ops q x))"
    "c \<in> {Recv (k_fd (keys q key)) (op_buf (ops q x)) (op_size (ops q x)) (op_flags (ops q x)),
         Recvfrom (k_fd (keys q key)) (op_buf (ops q x)) (op_size (ops q x)) (op_flags (ops q x)) (op_rmt (ops q x)) (op_rmtlen (ops q x))}"
    using assms(5) by (auto simp: read_bytes_def sys_def Let_def q2_def upd_key_def upd_op_def op_codes)
  have "notify run key on_read_complete ev q3 = run (on_read_complete (k_cb (keys q key))) ev q3" for ev
    using assms(2,6) by (simp add: notify_def r(2) q2_def upd_key_def upd_op_def)
  with d r show ?thesis
    by (intro exI[of _ c] exI[of _ q3])
      (simp add: map_conv_bind_option comp_def q2_def upd_key_def upd_op_def pj_ioqueue_is_pending_def op_codes life_def fun_eq_iff)
qed

definition demo_reading :: ioqueue where
  "demo_reading = demo_registered\<lparr>keys := (\<lambda>k. demo_key)(8 := open_key\<lparr>read_list := [40, 48]\<rparr>),
     ops := (\<lambda>x. demo_op\<lparr>op_code := OP_RECV, op_buf := 1000, op_size := 10\<rparr>)\<rparr>"

lemma ioq_read_completes_oldest_witness:
  "\<exists>c q1. ioqueue_dispatch_read_event demo_os demo_run 8 demo_reading =
      map_option (\<lambda>q'. (q', True)) (demo_run (on_read_complete (k_cb (keys demo_reading 8))) (Read_complete 8 40
        (if os_ret demo_os (c # Trylock 8 # calls demo_reading) \<ge> 0 then os_ret demo_os (c # Trylock 8 # calls demo_reading) else op_size (ops demo_reading 40))) q1) \<and>
    c \<in> {Recv (k_fd (keys demo_reading 8)) (op_buf (ops demo_reading 40)) (op_size (ops demo_reading 40)) (op_flags (ops demo_reading 40)),
         Recvfrom (k_fd (keys demo_reading 8)) (op_buf (ops demo_reading 40)) (op_size (ops demo_reading 40)) (op_flags (ops demo_reading 40))
           (op_rmt (ops demo_reading 40)) (op_rmtlen (ops demo_reading 40))} \<and>
    read_list (keys q1 8) = [48] \<and> \<not> pj_ioqueue_is_pending 40 q1 \<and> life q1 = life demo_reading"
  by (rule ioq_read_completes_oldest) (simp_all add: demo_reading_def demo_os_def open_key_def demo_key_def demo_cb_def)

text \<open>C39: The address of a \<open>sendto\<close> that has to wait is damaged: its bytes four to seven, the host of an IPv4 address, are overwritten with the length of the address.\<close>

theorem ioq_sendto_damages_address:
  assumes "key \<noteq> 0" "x \<noteq> 0" "data \<noteq> 0" "\<not> closing (keys q key)" "write_list (keys q key) = []" "length to = 16" "16 \<le> length (op_to (ops q x))"
    and "os_ret os (Sendto (k_fd (keys q key)) data len (sync_flags flags) to # calls q) < 0"
    and "os_errno os (Sendto (k_fd (keys q key)) data len (sync_flags flags) to # calls q) = EAGAIN os"
    and "op_code (ops q x) = 0" "\<not> is_linked q x"
  shows "\<exists>q'. pj_ioqueue_sendto os key x data len flags to q = Some (q', - 5, len) \<and> write_list (keys q' key) = [x] \<and>
    take 16 (op_to (ops q' x)) = take 4 to @ [16, 0, 0, 0] @ drop 8 to"
proof -
  have e: "enc32 16 = [16, 0, 0, 0]" by (simp add: enc32_def)
  have o: "take 16 (store_to (op_to (ops q x)) to) = take 4 to @ [16, 0, 0, 0] @ drop 8 to"
    using assms(6,7) by (simp add: store_to_def overlay_def e)
  have l: "is_linked (upd_op (q\<lparr>calls := c\<rparr>) x f) x = is_linked q x" for c f
    by (simp add: is_linked_def upd_op_def)
  show ?thesis
    using assms o by (simp add: pj_ioqueue_sendto_def sys_def Let_def l ioqueue_add_to_set_def)
      (simp add: upd_key_def upd_op_def)
qed

lemma ioq_sendto_damages_address_witness:
  "\<exists>q'. pj_ioqueue_sendto demo_os 8 64 1000 3 0 [2, 0, 31, 144, 192, 168, 1, 7, 0, 0, 0, 0, 0, 0, 0, 0] demo_registered = Some (q', - 5, 3) \<and> write_list (keys q' 8) = [64] \<and>
    take 16 (op_to (ops q' 64)) = take 4 [2, 0, 31, 144, 192, 168, 1, 7, 0, 0, 0, 0, 0, 0, 0, 0] @ [16, 0, 0, 0] @ drop 8 [2, 0, 31, 144, 192, 168, 1, 7, 0, 0, 0, 0, 0, 0, 0, 0]"
  by (rule ioq_sendto_damages_address)
    (simp_all add: demo_registered_def demo_queue_def demo_os_def open_key_def demo_key_def demo_op_def is_linked_def pending_def)

text \<open>When the kernel refuses to forget a socket, its key stays registered but is no longer counted; after that has happened to the only key, closing it again fails an assertion.\<close>

theorem ioq_failed_unregister_miscounts:
  assumes "key \<noteq> 0" "key \<in> set (active_list q)" "\<not> closing (keys q key)" "q_count q = 1"
    and "os_ret os (Epoll_del (k_fd (keys q key)) key # calls q) \<noteq> 0"
  shows "\<exists>q1. pj_ioqueue_unregister os key q = Some (q1, - 1) \<and> key \<in> set (active_list q1) \<and> q_count q1 = 0 \<and> pj_ioqueue_unregister os key q1 = None"
  using assms by (simp add: pj_ioqueue_unregister_def sys_def Let_def)

lemma ioq_failed_unregister_miscounts_witness:
  "\<exists>q1. pj_ioqueue_unregister (demo_os\<lparr>os_ret := (\<lambda>h. - 1)\<rparr>) 8 demo_registered = Some (q1, - 1) \<and> 8 \<in> set (active_list q1) \<and> q_count q1 = 0 \<and>
    pj_ioqueue_unregister (demo_os\<lparr>os_ret := (\<lambda>h. - 1)\<rparr>) 8 q1 = None"
  by (rule ioq_failed_unregister_miscounts) (simp_all add: demo_registered_def open_key_def demo_key_def)

end
