(* ===== verification/Io_Types.thy ===== *)
theory Io_Types
  imports Io_Facts
begin

section \<open>The waiting operations of the I/O queue\<close>

text \<open>
  Every waiting operation is in one list of one socket, and its code is one of that list: \<open>ops_typed\<close>. With that the assertions on the codes in the
  dispatch functions never fail.
\<close>

definition lists_typed :: "ioqueue \<Rightarrow> addr \<Rightarrow> bool" where
  "lists_typed q k \<longleftrightarrow> distinct (pending (keys q k)) \<and>
     (\<forall>x \<in> set (read_list (keys q k)). op_code (ops q x) \<in> {OP_RECV, OP_RECV_FROM}) \<and>
     (\<forall>x \<in> set (write_list (keys q k)). op_code (ops q x) \<in> {OP_SEND, OP_SEND_TO}) \<and>
     (\<forall>x \<in> set (accept_list (keys q k)). op_code (ops q x) = OP_ACCEPT)"

definition typed :: "addr set \<Rightarrow> ioqueue \<Rightarrow> bool" where
  "typed act q \<longleftrightarrow> (\<forall>k \<in> act. lists_typed q k) \<and>
     (\<forall>k \<in> act. \<forall>k' \<in> act. k \<noteq> k' \<longrightarrow> set (pending (keys q k)) \<inter> set (pending (keys q k')) = {})"

definition ops_typed :: "ioqueue \<Rightarrow> bool" where
  "ops_typed q = typed (set (active_list q)) q"

definition same_lists :: "pj_key \<Rightarrow> pj_key \<Rightarrow> bool" where
  "same_lists k k' \<longleftrightarrow> read_list k = read_list k' \<and> write_list k = write_list k' \<and> accept_list k = accept_list k'"

lemma typed_mono: "typed act q \<Longrightarrow> act' \<subseteq> act \<Longrightarrow> typed act' q"
  unfolding typed_def by blast

text \<open>Changing one socket and one operation, which is in no list of another socket.\<close>

lemma typed_change:
  assumes "typed act q" "\<And>k. k \<in> act \<Longrightarrow> k \<noteq> key \<Longrightarrow> same_lists (keys q' k) (keys q k)" "\<And>y. y \<noteq> x \<Longrightarrow> op_code (ops q' y) = op_code (ops q y)"
    and "\<And>k. k \<in> act \<Longrightarrow> k \<noteq> key \<Longrightarrow> x \<notin> set (pending (keys q k))"
    and "key \<in> act \<Longrightarrow> set (pending (keys q' key)) \<subseteq> insert x (set (pending (keys q key))) \<and> lists_typed q' key"
  shows "typed act q'"
proof -
  have p: "pending (keys q' k) = pending (keys q k)" if "k \<in> act" "k \<noteq> key" for k
    using assms(2)[OF that] by (simp add: same_lists_def pending_def)
  have lt: "lists_typed q' k" if "k \<in> act" for k
  proof (cases "k = key")
    case False
    then have "op_code (ops q' y) = op_code (ops q y)" if "y \<in> set (pending (keys q k))" for y
      using assms(3)[of y] assms(4)[OF \<open>k \<in> act\<close> False] that by (cases "y = x") auto
    moreover have "lists_typed q k" using assms(1) that by (simp add: typed_def)
    ultimately show ?thesis using assms(2)[OF that False] by (auto simp: lists_typed_def same_lists_def pending_def)
  qed (use assms(5) that in simp)
  have d: "set (pending (keys q k)) \<inter> set (pending (keys q k')) = {}" if "k \<in> act" "k' \<in> act" "k \<noteq> k'" for k k'
    using assms(1) that by (auto simp: typed_def)
  have "set (pending (keys q' k)) \<inter> set (pending (keys q' k')) = {}" if k: "k \<in> act" "k' \<in> act" "k \<noteq> k'" for k k'
  proof -
    consider "k = key" "k' \<noteq> key" | "k' = key" "k \<noteq> key" | "k \<noteq> key" "k' \<noteq> key" using k(3) by blast
    then show ?thesis
    proof cases
      case 1
      then show ?thesis using assms(4)[OF k(2)] assms(5) p[OF k(2)] d[OF k] k(1) by auto
    next
      case 2
      then show ?thesis using assms(4)[OF k(1)] assms(5) p[OF k(1)] d[OF k] k(2) by auto
    next
      case 3
      then show ?thesis using p[OF k(1)] p[OF k(2)] d[OF k] by simp
    qed
  qed
  with lt show ?thesis by (simp add: typed_def)
qed

lemma typed_same:
  assumes "typed act q" "\<And>k. k \<in> act \<Longrightarrow> same_lists (keys q' k) (keys q k)" "\<And>k y. k \<in> act \<Longrightarrow> y \<in> set (pending (keys q k)) \<Longrightarrow> op_code (ops q' y) = op_code (ops q y)"
  shows "typed act q'"
proof -
  have "pending (keys q' k) = pending (keys q k)" if "k \<in> act" for k using assms(2)[OF that] by (simp add: same_lists_def pending_def)
  moreover have "lists_typed q' k" if "k \<in> act" for k
    using assms(1) assms(2)[OF that] assms(3)[OF that] that by (auto simp: typed_def lists_typed_def same_lists_def pending_def)
  ultimately show ?thesis using assms(1) by (simp add: typed_def)
qed

text \<open>Everything the invariant looks at.\<close>

definition work :: "ioqueue \<Rightarrow> addr list \<times> (addr \<Rightarrow> addr list \<times> addr list \<times> addr list) \<times> (addr \<Rightarrow> nat)" where
  "work q = (active_list q, \<lambda>k. (read_list (keys q k), write_list (keys q k), accept_list (keys q k)), \<lambda>x. op_code (ops q x))"

lemma work_typed: "work q' = work q \<Longrightarrow> ops_typed q' = ops_typed q"
  by (auto simp: work_def ops_typed_def typed_def lists_typed_def pending_def fun_eq_iff)

lemma work_same [simp]:
  "work (q\<lparr>calls := c\<rparr>) = work q" "work (q\<lparr>ints := i\<rparr>) = work q" "work (q\<lparr>epfd := f\<rparr>) = work q" "work (q\<lparr>default_concurrency := d\<rparr>) = work q"
  "work (q\<lparr>closing_list := cl\<rparr>) = work q" "work (q\<lparr>free_list := fl\<rparr>) = work q" "work (q\<lparr>q_count := n\<rparr>) = work q"
  by (simp_all add: work_def)

lemma work_upd_key [simp]: "(\<And>k. same_lists (f k) k) \<Longrightarrow> work (upd_key q key f) = work q"
  by (auto simp: work_def upd_key_def same_lists_def)

lemma work_upd_op [simp]: "(\<And>r. op_code (f r) = op_code r) \<Longrightarrow> work (upd_op q x f) = work q"
  by (auto simp: work_def upd_op_def)

lemma work_sets [simp]: "work (ioqueue_remove_from_set os key t q) = work q" "work (ioqueue_add_to_set os key t q) = work q"
  by (simp_all add: ioqueue_remove_from_set_def ioqueue_add_to_set_def sys_def Let_def)

lemma work_connect_done [simp]: "work (connect_done os key q) = work q"
  by (simp add: connect_done_def same_lists_def)

lemmas typed_simps [simp] = work_same[THEN work_typed] work_sets[THEN work_typed] work_connect_done[THEN work_typed]

lemma typed_upd_key [simp]: "(\<And>k. same_lists (f k) k) \<Longrightarrow> ops_typed (upd_key q key f) = ops_typed q"
  by (rule work_typed) simp

lemma typed_upd_op_code [simp]: "(\<And>r. op_code (f r) = op_code r) \<Longrightarrow> ops_typed (upd_op q x f) = ops_typed q"
  by (rule work_typed) simp

subsection \<open>Operations enter and leave the lists\<close>

lemma linked_iff: "is_linked q x \<longleftrightarrow> (\<exists>k \<in> set (active_list q). x \<in> set (pending (keys q k)))"
  by (auto simp: is_linked_def list_ex_iff)

lemma linked_same [simp]: "is_linked (q\<lparr>calls := c\<rparr>) x = is_linked q x" "is_linked (upd_op q y f) x = is_linked q x" "is_linked (q\<lparr>ints := i\<rparr>) x = is_linked q x"
  by (simp_all add: is_linked_def upd_op_def)

lemma typed_unlinked: "ops_typed q \<Longrightarrow> \<not> is_linked q x \<Longrightarrow> ops_typed (upd_op q x f)"
  unfolding ops_typed_def
  by (rule typed_same[where q = q]) (auto simp: upd_op_def same_lists_def linked_iff)

lemma typed_push:
  assumes "ops_typed q" "\<not> is_linked q x"
    and "f = (\<lambda>k. k\<lparr>read_list := read_list k @ [x]\<rparr>) \<and> op_code (ops q x) \<in> {OP_RECV, OP_RECV_FROM} \<or>
      f = (\<lambda>k. k\<lparr>write_list := write_list k @ [x]\<rparr>) \<and> op_code (ops q x) \<in> {OP_SEND, OP_SEND_TO} \<or>
      f = (\<lambda>k. k\<lparr>accept_list := accept_list k @ [x]\<rparr>) \<and> op_code (ops q x) = OP_ACCEPT"
  shows "ops_typed (upd_key q key f)"
proof -
  have n: "x \<notin> set (pending (keys q k))" if "k \<in> set (active_list q)" for k using assms(2) that by (auto simp: linked_iff)
  have "typed (set (active_list q)) (upd_key q key f)"
  proof (rule typed_change[where key = key and x = x])
    show "typed (set (active_list q)) q" using assms(1) by (simp add: ops_typed_def)
    assume key: "key \<in> set (active_list q)"
    then have "lists_typed q key" using assms(1) by (simp add: ops_typed_def typed_def)
    then show "set (pending (keys (upd_key q key f) key)) \<subseteq> insert x (set (pending (keys q key))) \<and> lists_typed (upd_key q key f) key"
      using assms(3) n[OF key] by (auto simp: upd_key_def pending_def lists_typed_def)
  qed (use n in \<open>auto simp: upd_key_def same_lists_def\<close>)
  then show ?thesis by (simp add: ops_typed_def upd_key_def)
qed

lemma typed_remove:
  assumes "ops_typed q" "key \<in> set (active_list q)" "x \<in> set (pending (keys q key))" "active_list q' = active_list q"
    and "\<And>k. k \<noteq> key \<Longrightarrow> keys q' k = keys q k" "\<And>y. y \<noteq> x \<Longrightarrow> ops q' y = ops q y"
    and "read_list (keys q' key) = remove1 x (read_list (keys q key))" "write_list (keys q' key) = remove1 x (write_list (keys q key))"
    and "accept_list (keys q' key) = remove1 x (accept_list (keys q key))"
  shows "ops_typed q'"
proof -
  have t: "lists_typed q key" using assms(1,2) by (simp add: ops_typed_def typed_def)
  have "typed (set (active_list q)) q'"
  proof (rule typed_change[where key = key and x = x])
    show "typed (set (active_list q)) q" using assms(1) by (simp add: ops_typed_def)
    show "x \<notin> set (pending (keys q k))" if "k \<in> set (active_list q)" "k \<noteq> key" for k
      using assms(1,2,3) that unfolding ops_typed_def typed_def by blast
    have s: "set (pending (keys q' key)) \<subseteq> set (pending (keys q key))"
      unfolding pending_def assms(7-9) by (auto dest: set_remove1_subset[THEN subsetD])
    have y: "op_code (ops q' y) = op_code (ops q y)" if "y \<in> set (pending (keys q' key))" for y
    proof -
      have "distinct (read_list (keys q key))" "distinct (write_list (keys q key))" "distinct (accept_list (keys q key))"
        using t by (simp_all add: lists_typed_def pending_def)
      then have "y \<noteq> x" using that unfolding pending_def assms(7-9) by auto
      then show ?thesis using assms(6) by simp
    qed
    have "lists_typed q' key"
      using t y unfolding lists_typed_def pending_def assms(7-9) by (auto dest: set_remove1_subset[THEN subsetD])
    with s show "set (pending (keys q' key)) \<subseteq> insert x (set (pending (keys q key))) \<and> lists_typed q' key" by blast
  qed (use assms(5,6) in \<open>auto simp: same_lists_def\<close>)
  then show ?thesis by (simp add: ops_typed_def assms(4))
qed

lemmas typed_pushes = typed_push[OF _ _ disjI1, OF _ _ conjI, OF _ _ refl] typed_push[OF _ _ disjI2, OF _ _ disjI1, OF _ _ conjI, OF _ _ refl]
  typed_push[OF _ _ disjI2, OF _ _ disjI2, OF _ _ conjI, OF _ _ refl]

lemma ops_upd_op [simp]: "ops (upd_op q x f) x = f (ops q x)" "ops (q\<lparr>calls := c\<rparr>) = ops q"
  by (simp_all add: upd_op_def)

text \<open>The operations of the user. One that is waiting must not be used again for reading or accepting; sending tests that itself.\<close>

lemma recv_typed:
  "pj_ioqueue_recv os key x buffer len flags q = Some (q', r) \<Longrightarrow> ops_typed q \<Longrightarrow> \<not> is_linked q x \<Longrightarrow> ops_typed q'"
  by (auto simp: pj_ioqueue_recv_def sys_def Let_def split: if_splits intro!: typed_unlinked typed_pushes)

lemma recvfrom_typed:
  "pj_ioqueue_recvfrom os key x buffer len flags rmt rmtlen q = Some (q', r) \<Longrightarrow> ops_typed q \<Longrightarrow> \<not> is_linked q x \<Longrightarrow> ops_typed q'"
  by (auto simp: pj_ioqueue_recvfrom_def sys_def Let_def split: if_splits intro!: typed_unlinked typed_pushes)

lemma accept_typed:
  "pj_ioqueue_accept os key x new_sock local remote addrlen q = Some (q', r) \<Longrightarrow> ops_typed q \<Longrightarrow> \<not> is_linked q x \<Longrightarrow> ops_typed q'"
  by (auto simp: pj_ioqueue_accept_def sys_def Let_def split: if_splits intro!: typed_unlinked typed_pushes)

lemma typed_free_op: "ops_typed q \<Longrightarrow> op_code (ops q x) = 0 \<Longrightarrow> \<not> is_linked q x"
proof
  assume "ops_typed q" "op_code (ops q x) = 0" "is_linked q x"
  then obtain k where "lists_typed q k" "x \<in> set (pending (keys q k))" by (auto simp: linked_iff ops_typed_def typed_def)
  with \<open>op_code (ops q x) = 0\<close> show False by (force simp: lists_typed_def pending_def op_codes)
qed

lemma send_typed: "pj_ioqueue_send os key x data len flags q = Some (q', r) \<Longrightarrow> ops_typed q \<Longrightarrow> ops_typed q'"
  by (auto simp: pj_ioqueue_send_def sys_def Let_def split: if_splits intro!: typed_unlinked typed_pushes dest: typed_free_op)

lemma sendto_typed: "pj_ioqueue_sendto os key x data len flags to q = Some (q', r) \<Longrightarrow> ops_typed q \<Longrightarrow> ops_typed q'"
  by (auto simp: pj_ioqueue_sendto_def sys_def Let_def split: if_splits intro!: typed_unlinked typed_pushes dest: typed_free_op)

lemma connect_typed: "pj_ioqueue_connect os key to q = Some (q', r) \<Longrightarrow> ops_typed q \<Longrightarrow> ops_typed q'"
  by (auto simp: pj_ioqueue_connect_def sys_def Let_def same_lists_def split: if_splits)

subsection \<open>Events\<close>

definition handlers_typed :: "handlers \<Rightarrow> bool" where
  "handlers_typed run \<longleftrightarrow> (\<forall>h ev q q' held. run h ev q = Some q' \<longrightarrow> ioq_inv held q \<longrightarrow> ops_typed q \<longrightarrow> ops_typed q')"

lemma typedD: "handlers_typed run \<Longrightarrow> run h ev q = Some q' \<Longrightarrow> ioq_inv held q \<Longrightarrow> ops_typed q \<Longrightarrow> ops_typed q'"
  unfolding handlers_typed_def by blast

lemma notify_typed: "handlers_typed run \<Longrightarrow> notify run key which ev q = Some q' \<Longrightarrow> ioq_inv held q \<Longrightarrow> ops_typed q \<Longrightarrow> ops_typed q'"
  by (auto simp: notify_def Let_def split: if_splits dest: typedD)

lemma typed_at:
  assumes "ops_typed q" "key \<in> set (active_list q)"
  shows "lists_typed q key"
  using assms by (simp add: ops_typed_def typed_def)

text \<open>The first operation of a list, taken out.\<close>

lemma first_read:
  assumes "lists_typed q key" "read_list (keys q key) = x # xs"
  shows "remove1 x (write_list (keys q key)) = write_list (keys q key)" "remove1 x (accept_list (keys q key)) = accept_list (keys q key)"
    "op_code (ops q x) \<in> {OP_RECV, OP_RECV_FROM}" "x \<in> set (pending (keys q key))"
  using assms by (auto simp: lists_typed_def pending_def remove1_idem)

lemma first_accept:
  assumes "lists_typed q key" "accept_list (keys q key) = x # xs"
  shows "remove1 x (write_list (keys q key)) = write_list (keys q key)" "remove1 x (read_list (keys q key)) = read_list (keys q key)"
    "x \<in> set (pending (keys q key))"
  using assms by (auto simp: lists_typed_def pending_def remove1_idem)

lemma first_write:
  assumes "lists_typed q key" "write_list (keys q key) = x # xs"
  shows "remove1 x (read_list (keys q key)) = read_list (keys q key)" "remove1 x (accept_list (keys q key)) = accept_list (keys q key)"
    "op_code (ops q x) \<in> {OP_SEND, OP_SEND_TO}" "x \<in> set (pending (keys q key))"
  using assms by (auto simp: lists_typed_def pending_def remove1_idem)

text \<open>A waiting operation is served: the assertion on its code holds.\<close>

lemma read_pending_typed:
  assumes "handlers_typed run" "ops_typed q" "key \<in> set (active_list q)" "ioq_inv held q" "read_list (keys q key) = x # xs" "read_pending os run key x q = Some (q', b)"
  shows "ops_typed q'"
proof -
  note f = first_read[OF typed_at[OF assms(2,3)] assms(5)]
  define q2 where "q2 = upd_key q key (\<lambda>k. k\<lparr>read_list := remove1 x (read_list k)\<rparr>)"
  have rp: "read_pending os run key x q = Option.bind (read_bytes os key x q2) (\<lambda>(n, q3). Option.bind (notify run key on_read_complete (Read_complete key x n) q3) (\<lambda>q4. Some (q4, True)))"
    by (simp add: read_pending_def Let_def ioqueue_remove_from_set_def q2_def)
  with assms(6) obtain n q3 where r: "read_bytes os key x q2 = Some (n, q3)" "notify run key on_read_complete (Read_complete key x n) q3 = Some q'"
    by (auto simp: bind_eq_Some_conv)
  have q3: "active_list q3 = active_list q" "keys q3 = keys q2" "\<And>y. y \<noteq> x \<Longrightarrow> ops q3 y = ops q y"
    using r(1) by (auto simp: read_bytes_def sys_def Let_def upd_op_def q2_def upd_key_def split: if_splits)
  have "ops_typed q3"
    by (rule typed_remove[OF assms(2,3) f(4) q3(1)]) (use f q3 in \<open>simp_all add: q2_def upd_key_def\<close>)
  moreover have "ioq_inv held q3" using read_bytes_life[OF r(1), THEN life_eq_inv] assms(4) by (simp add: q2_def)
  ultimately show ?thesis using notify_typed[OF assms(1) r(2)] by blast
qed

lemma accept_pending_typed:
  assumes "handlers_typed run" "ops_typed q" "key \<in> set (active_list q)" "ioq_inv held q" "accept_list (keys q key) = x # xs" "accept_pending os run key x q = Some (q', b)"
  shows "ops_typed q'"
proof -
  note f = first_accept[OF typed_at[OF assms(2,3)] assms(5)]
  define q1 where "q1 = upd_op (upd_key q key (\<lambda>k. k\<lparr>accept_list := remove1 x (accept_list k)\<rparr>)) x (\<lambda>r. r\<lparr>op_code := OP_NONE\<rparr>)"
  have "ops_typed q1"
    by (rule typed_remove[OF assms(2,3) f(3)]) (use f in \<open>simp_all add: q1_def upd_key_def upd_op_def\<close>)
  moreover have "ioq_inv held q1" using assms(4) by (simp add: q1_def)
  ultimately show ?thesis
    using assms(6) unfolding accept_pending_def q1_def[symmetric]
    by (auto simp: sys_def Let_def bind_eq_Some_conv ioqueue_remove_from_set_def split: if_splits dest: notify_typed[OF assms(1), where held = held])
qed

lemma write_pending_typed:
  assumes "handlers_typed run" "ops_typed q" "key \<in> set (active_list q)" "ioq_inv held q" "write_list (keys q key) = x # xs" "write_pending os run key x q = Some (q', b)"
  shows "ops_typed q'"
proof -
  note f = first_write[OF typed_at[OF assms(2,3)] assms(5)]
  define dgram where "dgram = (fd_type (keys q key) = SOCK_DGRAM)"
  define q1 where "q1 = (if dgram then pop_write os key x q else q)"
  have pop: "active_list (pop_write os key x p) = active_list p" "ops (pop_write os key x p) = ops p" "keys (pop_write os key x p) = keys (upd_key p key (\<lambda>k. k\<lparr>write_list := remove1 x (write_list k)\<rparr>))" for p
    by (simp_all add: pop_write_def ioqueue_remove_from_set_def sys_def upd_key_def Let_def)
  from assms(6) obtain r q2 where s: "send_pending os key x (op_size (ops q1 x) - op_written (ops q1 x)) q1 = Some (r, q2)"
    by (auto simp: write_pending_def Let_def q1_def dgram_def bind_eq_Some_conv)
  have q2: "active_list q2 = active_list q1" "keys q2 = keys q1" "ops q2 = ops q1" "life q2 = life q1" "calls q2 \<noteq> []"
    using s by (auto simp: send_pending_def sys_def Let_def split: if_splits)
  define q4 where "q4 = upd_op (upd_op q2 x (\<lambda>r. r\<lparr>op_written := op_written r + (op_size (ops q1 x) - op_written (ops q1 x))\<rparr>)) x (\<lambda>r. r\<lparr>op_code := OP_NONE\<rparr>)"
  define q5 where "q5 = (if \<not> dgram then pop_write os key x q4 else q4)"
  have full: "op_written (ops (upd_op q2 x (\<lambda>r. r\<lparr>op_written := op_written r + (op_size (ops q1 x) - op_written (ops q1 x))\<rparr>)) x)
      = op_size (ops (upd_op q2 x (\<lambda>r. r\<lparr>op_written := op_written r + (op_size (ops q1 x) - op_written (ops q1 x))\<rparr>)) x)"
    by (simp add: q2(3))
  obtain ev where n: "notify run key on_write_complete ev q5 = Some q'"
    using assms(6) s full unfolding write_pending_def Let_def dgram_def[symmetric] q1_def[symmetric]
    by (cases dgram) (auto simp: bind_eq_Some_conv q5_def simp flip: q4_def split: if_splits)
  have "ops_typed q5"
    by (rule typed_remove[OF assms(2,3) f(4)])
      (use f in \<open>auto simp: q5_def q4_def q2 q1_def pop upd_op_def upd_key_def\<close>)
  moreover have "ioq_inv held q5" using assms(4) q2(4) by (simp add: q5_def q4_def q1_def ioq_inv_def)
  ultimately show ?thesis using notify_typed[OF assms(1) n] by blast
qed

lemma dispatch_typed:
  assumes "handlers_typed run" "ops_typed q" "key \<in> set (active_list q)" "ioq_inv held q" "dispatch os run key t q = Some (q', b)"
  shows "ops_typed q'"
proof -
  have c: "ops_typed (q\<lparr>calls := c\<rparr>)" "key \<in> set (active_list (q\<lparr>calls := c\<rparr>))" "ioq_inv held (q\<lparr>calls := c\<rparr>)" for c using assms(2-4) by simp_all
  note p = accept_pending_typed[OF assms(1) c] read_pending_typed[OF assms(1) c] write_pending_typed[OF assms(1) c]
  show ?thesis
  proof (cases t)
    case READABLE_EVENT
    with assms(2,5) show ?thesis
      by (auto simp: dispatch_def ioqueue_dispatch_read_event_def sys_def Let_def split: if_splits list.splits dest: p[rotated])
  next
    case WRITEABLE_EVENT
    with assms(2,4,5) show ?thesis
      by (auto simp: dispatch_def ioqueue_dispatch_write_event_def sys_def Let_def bind_eq_Some_conv split: if_splits list.splits
          dest: p[rotated] notify_typed[OF assms(1), where held = held])
  next
    case EXCEPTION_EVENT
    with assms(2,4,5) show ?thesis
      by (auto simp: dispatch_def ioqueue_dispatch_exception_event_def sys_def Let_def bind_eq_Some_conv split: if_splits
          dest: typedD[OF assms(1), where held = held])
  qed
qed

text \<open>The other steps of a poll.\<close>

lemma decrement_typed:
  assumes "decrement_counter os key q = Some q'" "ops_typed q"
  shows "ops_typed q'"
proof -
  have "set (active_list q') \<subseteq> set (active_list q) \<and> (\<forall>k. same_lists (keys q' k) (keys q k)) \<and> ops q' = ops q"
    using assms(1) set_remove1_subset[of key "active_list q"]
    by (auto simp: decrement_counter_def sys_def unlink_def upd_key_def same_lists_def Let_def bind_eq_Some_conv split: if_splits)
  then show ?thesis
    using typed_same[of "set (active_list q')" q q'] typed_mono[of "set (active_list q)" q "set (active_list q')"] assms(2)
    by (auto simp: ops_typed_def)
qed

lemma scan_keys_work: "scan_keys os now hs q = Some q' \<Longrightarrow> work q' = work q"
  by (induction hs arbitrary: q) (auto split: if_splits)

lemma scan_typed: "scan_closing_keys os q = Some q' \<Longrightarrow> ops_typed q \<Longrightarrow> ops_typed q'"
  using scan_keys_work[of os _ "closing_list q" _ q'] by (fastforce simp: scan_closing_keys_def sys_def Let_def dest: work_typed)

lemma increment_typed [simp]: "work (increment_counter key q) = work q"
  by (simp add: increment_counter_def same_lists_def)

lemma collect_work: "collect_events es q = (q', evs) \<Longrightarrow> work q' = work q"
  by (induction es arbitrary: q evs) (auto split: option.splits prod.splits)

lemma process_typed:
  assumes "handlers_ok run" "handlers_typed run" "process_events os run evs n q = Some (q', m)" "life_ok (map fst evs @ held) (life q)" "length evs + length held < 2 ^ 31" "ops_typed q"
  shows "ops_typed q'"
  using assms(3-6)
proof (induction evs arbitrary: n q)
  case (Cons e evs)
  obtain key t where e: "e = (key, t)" by (cases e)
  let ?h = "map fst evs @ held"
  from Cons.prems(1) obtain q1 d q2 where s: "(if n < MAX_EVENTS then dispatch os run key t q else Some (q, False)) = Some (q1, d)"
    "decrement_counter os key q1 = Some q2" "process_events os run evs (if d then n + 1 else n) q2 = Some (q', m)"
    by (auto simp: e bind_eq_Some_conv)
  have i: "ioq_inv (key # ?h) q" using Cons.prems(2,3) by (simp add: ioq_inv_def e)
  have a: "key \<in> set (active_list q)" using ioq_invD(6)[OF i] by simp
  have i1: "ioq_inv (key # ?h) q1" using s(1) i dispatch_inv[OF assms(1)] by (cases "n < MAX_EVENTS") auto
  have "ops_typed q1" using s(1) Cons.prems(4) dispatch_typed[OF assms(2) Cons.prems(4) a i] by (cases "n < MAX_EVENTS") auto
  then have "ops_typed q2" using decrement_typed[OF s(2)] by blast
  moreover have "ioq_inv ?h q2" using decrement_inv[OF _ s(2)] i1 Cons.prems(3) by (auto simp: ioq_inv_def)
  ultimately show ?case using Cons.IH[OF s(3)] Cons.prems(3) by (simp add: ioq_inv_def)
qed auto

lemma connect_expired_typed:
  "handlers_typed run \<Longrightarrow> connect_expired os run t1 h q = Some q' \<Longrightarrow> ioq_inv held q \<Longrightarrow> ops_typed q \<Longrightarrow> ops_typed q'"
  by (auto simp: connect_expired_def sys_def Let_def split: if_splits dest: notify_typed[where held = held])

lemma timeout_loop_typed:
  assumes "handlers_ok run" "handlers_typed run" "timeout_loop os run t1 cur q = Some q'" "ioq_inv held q" "ops_typed q"
  shows "ops_typed q'"
proof -
  have "handlers_ok run \<longrightarrow> handlers_typed run \<longrightarrow> ioq_inv held q \<longrightarrow> ops_typed q \<longrightarrow> ops_typed q'"
    using assms(3)
  proof (induction os run t1 cur q q' rule: timeout_loop.raw_induct[rotated, consumes 1])
    case (1 rec os run t1 cur q q')
    then show ?case
      using connect_expired_inv[of run os t1 _ q _ held] connect_expired_typed[of run os t1 _ q _ held]
      by (fastforce simp: bind_eq_Some_conv split: option.splits)
  qed
  with assms show ?thesis by blast
qed

lemma poll_typed:
  assumes "handlers_ok run" "handlers_typed run" "pj_ioqueue_poll os run ms q = Some (q', r)" "ioq_inv held q" "ops_typed q"
    and "\<And>e. e \<in> set (os_events os (Epoll_wait (epfd q) ms # calls q)) \<Longrightarrow> e_key e \<in> set (active_list q)"
    and "length held + nat (os_ret os (Epoll_wait (epfd q) ms # calls q)) < 2 ^ 31"
  shows "ops_typed q'"
proof -
  define c where "c = Epoll_wait (epfd q) ms # calls q"
  have i: "ioq_inv held (q\<lparr>calls := c\<rparr>)" "ops_typed (q\<lparr>calls := c\<rparr>)" using assms(4,5) by simp_all
  consider "os_ret os c = 0" | "os_ret os c < 0" | "os_ret os c > 0" by linarith
  then show ?thesis
  proof cases
    case 1
    with assms(3) obtain q2 where q2: "(if closing_list q \<noteq> [] then scan_closing_keys os (q\<lparr>calls := c\<rparr>) else Some (q\<lparr>calls := c\<rparr>)) = Some q2"
      "(if active_list q2 \<noteq> [] then ioqueue_connect_timeout os run q2 else Some q2) = Some q'"
      unfolding pj_ioqueue_poll_def sys_def Let_def c_def[symmetric] by (auto simp: bind_eq_Some_conv)
    have "ioq_inv held q2 \<and> ops_typed q2"
      using q2(1) i scan_inv[of os "q\<lparr>calls := c\<rparr>" q2 held] scan_typed[of os "q\<lparr>calls := c\<rparr>" q2] by (auto split: if_splits)
    then show ?thesis
      using q2(2) timeout_loop_typed[OF assms(1,2)]
      by (fastforce simp: ioqueue_connect_timeout_def sys_def Let_def split: if_splits)
  next
    case 2
    with assms(3) i show ?thesis by (auto simp: pj_ioqueue_poll_def sys_def c_def Let_def)
  next
    case 3
    let ?es = "take (nat (os_ret os c)) (os_events os c)"
    obtain q2 evs where col: "collect_events ?es (q\<lparr>calls := c\<rparr>) = (q2, evs)" by (cases "collect_events ?es (q\<lparr>calls := c\<rparr>)")
    with 3 assms(3) obtain n where p: "process_events os run evs 0 q2 = Some (q', n)"
      unfolding pj_ioqueue_poll_def sys_def Let_def c_def[symmetric] by (auto simp: bind_eq_Some_conv)
    have "e_key ` set ?es \<subseteq> set (active_list (q\<lparr>calls := c\<rparr>))" using assms(6) in_set_takeD by (fastforce simp: c_def)
    moreover have "length held + length ?es < 2 ^ 31" using assms(7) by (simp add: c_def)
    ultimately have "life_ok (map fst evs @ held) (life q2)" "length evs + length held < 2 ^ 31" using collect_inv[OF col i(1)] by auto
    moreover have "ops_typed q2" using collect_work[OF col, THEN work_typed] i(2) by simp
    ultimately show ?thesis using process_typed[OF assms(1,2) p] by blast
  qed
qed

lemma post_completion_typed:
  assumes "handlers_typed run" "pj_ioqueue_post_completion run key x n q = Some (q', r)" "ioq_inv held q" "ops_typed q" "key \<in> set (active_list q)"
  shows "ops_typed q'"
proof -
  have t: "lists_typed q key" by (rule typed_at[OF assms(4,5)])
  define q0 where "q0 = upd_op q x (\<lambda>r. r\<lparr>op_code := OP_NONE\<rparr>)"
  have out: "ops_typed (upd_key q0 key f)" "ioq_inv held (upd_key q0 key f)"
    if "x \<in> set (pending (keys q key))" "f = (\<lambda>k. k\<lparr>read_list := remove1 x (read_list k)\<rparr>) \<and> x \<in> set (read_list (keys q key)) \<or>
      f = (\<lambda>k. k\<lparr>write_list := remove1 x (write_list k)\<rparr>) \<and> x \<in> set (write_list (keys q key)) \<or>
      f = (\<lambda>k. k\<lparr>accept_list := remove1 x (accept_list k)\<rparr>) \<and> x \<in> set (accept_list (keys q key))" for f
  proof -
    have d: "distinct (pending (keys q key))" using t by (simp add: lists_typed_def)
    have a: "x \<in> set (read_list (keys q key)) \<Longrightarrow> x \<notin> set (write_list (keys q key)) \<and> x \<notin> set (accept_list (keys q key))"
      "x \<in> set (write_list (keys q key)) \<Longrightarrow> x \<notin> set (read_list (keys q key)) \<and> x \<notin> set (accept_list (keys q key))"
      "x \<in> set (accept_list (keys q key)) \<Longrightarrow> x \<notin> set (read_list (keys q key)) \<and> x \<notin> set (write_list (keys q key))"
      using d by (auto simp: pending_def)
    note r = typed_remove[OF assms(4,5) that(1), of "upd_key q0 key f"]
    from that(2) show "ops_typed (upd_key q0 key f)"
    proof (elim disjE conjE)
      assume "f = (\<lambda>k. k\<lparr>read_list := remove1 x (read_list k)\<rparr>)" "x \<in> set (read_list (keys q key))"
      then show ?thesis using a(1) by (intro r) (simp_all add: q0_def upd_op_def upd_key_def remove1_idem)
    next
      assume "f = (\<lambda>k. k\<lparr>write_list := remove1 x (write_list k)\<rparr>)" "x \<in> set (write_list (keys q key))"
      then show ?thesis using a(2) by (intro r) (simp_all add: q0_def upd_op_def upd_key_def remove1_idem)
    next
      assume "f = (\<lambda>k. k\<lparr>accept_list := remove1 x (accept_list k)\<rparr>)" "x \<in> set (accept_list (keys q key))"
      then show ?thesis using a(3) by (intro r) (simp_all add: q0_def upd_op_def upd_key_def remove1_idem)
    qed
    show "ioq_inv held (upd_key q0 key f)" using that(2) assms(3) by (auto simp: q0_def)
  qed
  have h: "ops_typed q'" if "call run h ev (upd_key q0 key f) = Some q'" "x \<in> set (pending (keys q key))"
    "f = (\<lambda>k. k\<lparr>read_list := remove1 x (read_list k)\<rparr>) \<and> x \<in> set (read_list (keys q key)) \<or>
      f = (\<lambda>k. k\<lparr>write_list := remove1 x (write_list k)\<rparr>) \<and> x \<in> set (write_list (keys q key)) \<or>
      f = (\<lambda>k. k\<lparr>accept_list := remove1 x (accept_list k)\<rparr>) \<and> x \<in> set (accept_list (keys q key))" for h ev f
    using that(1) typedD[OF assms(1) _ out(2)[OF that(2,3)] out(1)[OF that(2,3)]] by (auto simp: call_def split: if_splits)
  consider "x \<in> set (read_list (keys q key))" | "x \<notin> set (read_list (keys q key))" "x \<in> set (write_list (keys q key))"
    | "x \<notin> set (read_list (keys q key))" "x \<notin> set (write_list (keys q key))" "x \<in> set (accept_list (keys q key))"
    | "x \<notin> set (pending (keys q key))"
    by (auto simp: pending_def)
  then show ?thesis
  proof cases
    case 1
    with assms(2) show ?thesis unfolding pj_ioqueue_post_completion_def Let_def q0_def[symmetric]
      by (auto simp: bind_eq_Some_conv pending_def intro: h)
  next
    case 2
    with assms(2) show ?thesis unfolding pj_ioqueue_post_completion_def Let_def q0_def[symmetric]
      by (auto simp: bind_eq_Some_conv pending_def intro: h)
  next
    case 3
    with assms(2) show ?thesis unfolding pj_ioqueue_post_completion_def Let_def q0_def[symmetric]
      by (auto simp: bind_eq_Some_conv pending_def intro: h)
  next
    case 4
    with assms(2,4) show ?thesis by (auto simp: pj_ioqueue_post_completion_def pending_def Let_def)
  qed
qed

lemma init_key_lists:
  "ioqueue_init_key os key sock user cb q = Some (q', rc) \<Longrightarrow>
   pending (keys q' key) = [] \<and> (\<forall>k. k \<noteq> key \<longrightarrow> keys q' k = keys q k) \<and> ops q' = ops q \<and> active_list q' = active_list q"
  by (auto simp: ioqueue_init_key_def pj_ioqueue_set_concurrency_def upd_key_def sys_def pending_def Let_def split: if_splits)

lemma register_typed:
  assumes "pj_ioqueue_register_sock2 os sock user cb q = Some (q', key, rc)" "ioq_inv held q" "ops_typed q"
  shows "ops_typed q'"
proof (cases "sock = PJ_INVALID_SOCKET \<or> q_count q \<ge> q_max q \<or> os_ret os (Ioctl_nonblock sock # calls q) \<noteq> 0")
  case True
  with assms show ?thesis by (auto simp: pj_ioqueue_register_sock2_def sys_def Let_def split: if_splits)
next
  case False
  define q1 where "q1 = q\<lparr>calls := Ioctl_nonblock sock # calls q\<rparr>"
  from assms(1) False obtain q2 where q2: "scan_closing_keys os q1 = Some q2"
    by (auto simp: pj_ioqueue_register_sock2_def sys_def q1_def Let_def bind_eq_Some_conv)
  have "ioq_inv held q1" "ops_typed q1" using assms(2,3) by (simp_all add: q1_def)
  with scan_inv[OF q2, of held] scan_typed[OF q2] have i2: "ioq_inv held q2" "ops_typed q2" by simp_all
  obtain k ks where f: "free_list q2 = k # ks"
    using assms(1) False q2 by (cases "free_list q2") (auto simp: pj_ioqueue_register_sock2_def sys_def q1_def Let_def)
  obtain q3 rc' where q3: "ioqueue_init_key os k sock user cb (q2\<lparr>free_list := ks\<rparr>) = Some (q3, rc')"
    using assms(1) False q2 f by (auto simp: pj_ioqueue_register_sock2_def sys_def q1_def Let_def bind_eq_Some_conv)
  note l = init_key_lists[OF q3]
  have k: "k \<notin> set (active_list q2)" using ioq_invD(1)[OF i2(1)] f by auto
  have t3: "ops_typed q3"
    unfolding ops_typed_def
  proof (rule typed_same[where q = q2])
    show "typed (set (active_list q3)) q2" using i2(2) l by (simp add: ops_typed_def)
  qed (use l k in \<open>auto simp: same_lists_def\<close>)
  have "typed (set (active_list q3 @ [k])) q3"
    using t3 l by (auto simp: ops_typed_def typed_def lists_typed_def pending_def)
  then have "ops_typed (q3\<lparr>calls := c, active_list := active_list q3 @ [k], q_count := n\<rparr>)" for c n
    by (simp add: ops_typed_def typed_def lists_typed_def)
  moreover have "q' = q3 \<or> q' = q3\<lparr>calls := Epoll_add sock k # calls q3\<rparr> \<or>
      q' = q3\<lparr>calls := Epoll_add sock k # calls q3, active_list := active_list q3 @ [k], q_count := u32 (q_count q3 + 1)\<rparr>"
    using assms(1) False q2 f q3 by (auto simp: pj_ioqueue_register_sock2_def sys_def q1_def Let_def split: if_splits)
  ultimately show ?thesis using t3 by auto
qed

lemma unregister_typed: "pj_ioqueue_unregister os key q = Some (q', rc) \<Longrightarrow> ops_typed q \<Longrightarrow> ops_typed q'"
  by (auto simp: pj_ioqueue_unregister_def sys_def Let_def same_lists_def bind_eq_Some_conv split: if_splits dest!: decrement_typed)

subsection \<open>The queue in use\<close>

lemma ioq_step_typed:
  assumes "handlers_ok run" "handlers_typed run" "ioq_step True os run q q'" "ioq_inv [] q" "ops_typed q"
  shows "ops_typed q'"
  using assms(3)
proof cases
  case register
  then show ?thesis using register_typed assms(4,5) by (simp add: pj_ioqueue_register_sock_def)
next
  case poll
  then show ?thesis using poll_typed[OF assms(1,2) poll(1) assms(4,5)] by (auto simp: MAX_EVENTS_def nat_less_iff)
next
  case post
  then show ?thesis using post_completion_typed[OF assms(2) _ assms(4,5)] by blast
qed (use assms(5) unregister_typed recv_typed recvfrom_typed send_typed sendto_typed accept_typed connect_typed in \<open>auto\<close>)

lemma create_typed: "pj_ioqueue_create os ks q = Some (q', 0) \<Longrightarrow> PJ_EINVAL os \<noteq> 0 \<Longrightarrow> ops_typed q'"
proof -
  assume a: "pj_ioqueue_create os ks q = Some (q', 0)" "PJ_EINVAL os \<noteq> 0"
  define q1 where "q1 = q\<lparr>default_concurrency := True, q_max := length ks, q_count := 0, active_list := [], calls := Lock_create # calls q, free_list := [], closing_list := []\<rparr>"
  from a obtain q2 where q2: "create_keys os ks q1 = Some (q2, 0)" "active_list q' = active_list q2"
    by (auto simp: pj_ioqueue_create_def sys_def q1_def Let_def bind_eq_Some_conv split: if_splits)
  with create_keys_ok[OF q2(1)] show "ops_typed q'" by (simp add: q1_def ops_typed_def typed_def)
qed

text \<open>C35: A careful user's operations stay well typed: each waiting operation is in one list of one registered socket and its code fits the list, so the assertions
on the codes never fail.\<close>

theorem ioq_ops_typed:
  assumes "handlers_ok run" "handlers_typed run" "pj_ioqueue_create os ks q0 = Some (q, 0)" "distinct ks" "length ks < 2 ^ 32" "PJ_EINVAL os \<noteq> 0"
    and "(ioq_step True os run)\<^sup>*\<^sup>* q q'"
  shows "ops_typed q' \<and> (\<forall>key \<in> set (active_list q'). (\<forall>x \<in> set (read_list (keys q' key)). read_bytes os key x q' \<noteq> None) \<and>
    (\<forall>x \<in> set (write_list (keys q' key)). send_pending os key x sent q' \<noteq> None))"
proof -
  have "ioq_inv [] q' \<and> ops_typed q'"
    using assms(7)
  proof (induction rule: rtranclp_induct)
    case base
    then show ?case using create_inv[OF assms(3-6)] create_typed[OF assms(3,6)] by blast
  next
    case (step y z)
    then show ?case using ioq_step_inv[OF assms(1)] ioq_step_typed[OF assms(1,2)] by blast
  qed
  moreover from this have "lists_typed q' key" if "key \<in> set (active_list q')" for key using that typed_at by blast
  ultimately show ?thesis by (auto simp: lists_typed_def read_bytes_def send_pending_def Let_def split: prod.splits)
qed

text \<open>In the example the handlers do nothing.\<close>

definition idle_run :: handlers where
  "idle_run h ev q = Some q"

definition demo_waiting :: ioqueue where
  "demo_waiting = demo_registered\<lparr>keys := (\<lambda>k. demo_key)(8 := open_key\<lparr>read_list := [40]\<rparr>),
     ops := (ops demo_registered)(40 := demo_op\<lparr>op_code := OP_RECV, op_buf := 1000, op_size := 10\<rparr>), calls := Recv 3 1000 10 0 # calls demo_registered\<rparr>"

lemma demo_recv: "pj_ioqueue_recv demo_os 8 40 1000 10 0 demo_registered = Some (demo_waiting, - 5, 10)"
  by (simp add: demo_waiting_def demo_registered_def demo_queue_def open_key_def demo_key_def demo_op_def demo_os_def pj_ioqueue_recv_def sys_def Let_def upd_op_def upd_key_def
      ALWAYS_ASYNC_def sync_flags_def is_linked_def pending_def ioqueue_add_to_set_def)

lemma ioq_ops_typed_witness:
  "ops_typed demo_waiting \<and> read_list (keys demo_waiting 8) = [40] \<and> read_bytes demo_os 8 40 demo_waiting \<noteq> None"
proof -
  have ok: "handlers_ok idle_run" "handlers_typed idle_run" by (simp_all add: handlers_ok_def handlers_typed_def idle_run_def)
  have n: "\<not> is_linked demo_registered 40" by (simp add: is_linked_def demo_registered_def open_key_def demo_key_def pending_def)
  have "ioq_step True demo_os idle_run demo_queue demo_registered" by (rule ioq_step.register[OF demo_register])
  moreover have "ioq_step True demo_os idle_run demo_registered demo_waiting" by (rule ioq_step.recv[OF n demo_recv])
  ultimately have "(ioq_step True demo_os idle_run)\<^sup>*\<^sup>* demo_queue demo_waiting" by simp
  from ioq_ops_typed[OF ok demo_create _ _ _ this] show ?thesis
    by (simp add: demo_os_def) (simp add: demo_waiting_def demo_registered_def)
qed

end
