(* ===== verification/Spec2Isabelle.thy ===== *)
theory Spec2Isabelle
  imports Ring_Buffer Fifo_Buffer Time_Stamp Timer_Heap Cstring Hash_Table Aki_Buffer Gki_Buffer Rb_Erase Dl_List Mem_Pool Rtp_Enc Stream_Queue Scanner_Facts Json_Parse Rtsp_Facts Io_Types
begin

text \<open>
  A verification development for the base libraries of zhangxy, a C repository for embedded audio
  and video devices: the data structures of \<^verbatim>\<open>oslib\<close>, the buffer managers \<^verbatim>\<open>aki\<close> and \<^verbatim>\<open>gki\<close>, and the packets
  and descriptions of media streams.

  \<^bold>\<open>Parts and theories.\<close> Every theory is named after its component; a definition that models a
  function or a type of the code has its name, and helpers for loops have names of their own.

  \<^item> \<open>C_Prelude\<close>: machine arithmetic with the wrap-around written out, flat memories with checked
    reads and writes, and lists linked through a store.
  \<^item> \<open>Ring_Buffer\<close> (\<^verbatim>\<open>oslib/src/ringbuf.c\<close>): a byte ring with mirror bits. The contents are a list;
    writing appends, reading takes from the front, an overrun that wraps empties the ring.
  \<^item> \<open>Fifo_Buffer\<close> (\<^verbatim>\<open>fifobuf.c\<close>): blocks of any size in a circular memory, freed in order. The live
    blocks form a queue; blocks are disjoint.
  \<^item> \<open>Time_Stamp\<close> (\<^verbatim>\<open>timestamp.c\<close>, \<^verbatim>\<open>timestamp.h\<close>): time values and the 64-bit clock.
  \<^item> \<open>Timer_Heap\<close> (\<^verbatim>\<open>timer.c\<close>): a binary heap of timers with a free list of identifiers threaded
    through the table of positions. The invariant \<open>timer_inv\<close> holds the heap order and that both
    tables are each other's inverse; scheduling, cancelling and polling keep it.
  \<^item> \<open>Cstring\<close> (\<^verbatim>\<open>cstring.c\<close>, \<^verbatim>\<open>ctype.h\<close>): counted strings in a byte memory: tokens, numbers,
    comparison, trimming.
  \<^item> \<open>Hash_Table\<close> (\<^verbatim>\<open>hash.c\<close>): chained entries, case-insensitive keys. The table stands for a map;
    the locale \<open>dictionary\<close> is the contract of its users.
  \<^item> \<open>Rb_Tree\<close> (\<^verbatim>\<open>rbtree.c\<close>): a red-black tree with parent pointers and a sentinel node. \<open>Rb_Shape\<close>
    relates the store to a tree of addresses and shows what a rotation does; \<open>Rb_Order\<close> has the search,
    the walk in order and the heights; \<open>Rb_Insert\<close> the insertion, which keeps the colors; \<open>Rb_Erase\<close>
    the removal, which keeps the order and not the balance.
  \<^item> \<open>Dl_List\<close> (\<^verbatim>\<open>dl_list.h\<close>): circular lists with a head node. The links refine a list, the loop
    macros end and visit each item once; the locale \<open>deque\<close> is the contract of its users.
  \<^item> \<open>Mem_Pool\<close> (\<^verbatim>\<open>pool.c\<close>, \<^verbatim>\<open>pool_caching.c\<close>, \<^verbatim>\<open>pool_policy_malloc.c\<close>, \<^verbatim>\<open>pool_stack.c\<close>): pools that hand out memory
    from a chain of blocks. \<open>world_ok\<close> says that the chains, the signatures around the blocks and the
    sizes in use fit; \<open>handed\<close> is the memory given out, which no two allocations share.
  \<^item> \<open>Buffer_Pool\<close>: what \<^verbatim>\<open>aki_buffer.c\<close> and \<^verbatim>\<open>gki_buffer.c\<close> share, up to six pools of buffers of one
    size. \<open>bp_inv cb F\<close> says that the pools are valid and \<open>F\<close> are their free buffers; the locale
    \<open>lending\<close> is the contract with the user of a buffer.
  \<^item> \<open>Aki_Buffer\<close> (\<^verbatim>\<open>aki/src/aki_buffer.c\<close>): pools in memory of the caller, and queues of packages,
    which refine lists.
  \<^item> \<open>Gki_Buffer\<close> (\<^verbatim>\<open>gki/src/gki_buffer.c\<close>): pools in memory from malloc, each in a block of its own.
  \<^item> \<open>Rtp_Enc\<close> (\<^verbatim>\<open>rtsp_lib/rtp_enc.c\<close>): frames cut into RTP packets. \<open>frags\<close> is the reference the four
    loops are shown to follow; receivers after the RFCs get the frames back.
  \<^item> \<open>Stream_Queue\<close> (\<^verbatim>\<open>rtsp_lib/stream_queue.c\<close>): the ring of packets between producer and consumer; the
    locale \<open>bounded_queue\<close> is its contract.
  \<^item> \<open>Rtsp_Utils\<close> and \<open>Rtsp_Facts\<close> (\<^verbatim>\<open>rtsp_lib/utils.c\<close>): base64, the search for the units of a video stream, the
    parameter sets taken from it, and the lines of the session description. \<open>collect\<close> is the reference for the parameter sets;
    the locale \<open>parameter_sets\<close> is what H.264 and H.265 share.
  \<^item> \<open>Scanner\<close> and \<open>Scanner_Facts\<close> (\<^verbatim>\<open>oslib/src/scanner.c\<close>): character sets in a table of words, and a
    scanner over a text with a NUL behind it. \<open>rest m sc bs\<close> says that \<open>bs\<close> is what is left; \<open>takes\<close> what every
    operation that takes a token does to it, blanks and line numbers included; \<open>sets\<close> reads a table as sets.
  \<^item> \<open>Json\<close>, \<open>Json_Write\<close> and \<open>Json_Parse\<close> (\<^verbatim>\<open>oslib/src/json.c\<close>): elements, the parser on top of the scanner, and the
    writer. An element stands for a tree (\<open>models\<close>), \<open>render\<close> is its text, and the parser reads the text back.
  \<^item> \<open>Io_Queue\<close>, \<open>Io_Facts\<close> and \<open>Io_Types\<close> (\<^verbatim>\<open>ioqueue/src\<close>): keys of registered sockets, operations
    that wait, and the poll that completes them. \<open>ioq_step\<close> is what users may do; \<open>ioq_inv\<close> says where the keys are
    and what their counters say, \<open>ops_typed\<close> the same of the waiting operations.

  The timer heap uses the time values; the two buffer managers use the shared pools; the JSON parser uses the scanner,
  which uses the counted strings. The other
  components do not call one another: they meet in the memory pool. What the other components need of
  it (memory of its own for every request, or a failure) is a parameter there; \<open>Mem_Pool\<close> shows
  that the pool gives it. Its lists of blocks and pools are plain lists, as \<open>Dl_List\<close> justifies.

  \<^bold>\<open>Undefined behaviour and non-termination.\<close> A function that may read or write out of bounds,
  follow null or never return yields an option, and \<open>None\<close> is that outcome; every property that
  ends in \<open>Some\<close> therefore also says that the code is safe and returns. Loops are structural
  recursions over a count the code bounds, or have a termination proof; \<open>table_size\<close> of the hash
  table and the search in the queue of packages are partial functions whose termination is proved
  (or refuted, for more than \<open>2 ^ 31\<close> rows) in the properties.

  \<^bold>\<open>Parameters.\<close> The memory pool is a predicate or a counter of fresh addresses that may fail; malloc
  is a function with its documented promise \<open>malloc_ok\<close>; the clock, handlers and user values
  are arguments. The kernel of the I/O queue is the record \<open>os\<close>, which answers each call by the history of all calls.

  \<^bold>\<open>Not modelled.\<close> Output of logs; locks, which the configuration modelled leaves empty, and threads;
  \<^verbatim>\<open>c_strtof\<close> (floating point) and \<^verbatim>\<open>TIMER_HeapDump\<close>. The delay buffer works on a circular buffer whose code is not
  in the repository, the negan server is a loop over descriptors of the system, and the media ports only
  call through function pointers. The operating system layer and the device drivers are wrappers of
  system calls; the http and ini parsers and the RTMP and RTSP libraries are third-party code.
\<close>

end
